(* ===== verification/Hashmap.thy ===== *)
theory Hashmap
  imports Prelude
begin

unbundle bit_operations_syntax

text \<open>
  The open-addressing hash table of \<^verbatim>\<open>p3a/hashmap.c\<close>.  A table is the record of the C
  struct; a slot is \<open>None\<close> for the null pointer.  Keys are C strings, modelled as the list
  of characters before the terminating NUL.  The probing loops have no bound in the
  source, so they are \<^theory_text>\<open>partial_function (option)\<close>: \<open>None\<close> is a loop that does not end.
  The calls on the mutex only serialise callers; each operation is one atomic step here.
  The result of \<^verbatim>\<open>calloc\<close> is a parameter: \<open>alloc_ok\<close> says whether it returned memory.
\<close>

subsection \<open>Data\<close>

record MapPair =
  pkey :: string
  pval :: "byte list"

record HashMap =
  contents :: "MapPair option list"
  capacity :: nat
  msize :: nat

definition MAP_INIT_CAPACITY :: nat where
  "MAP_INIT_CAPACITY = 11"

definition FNV_OFFSET :: u64 where
  "FNV_OFFSET = 14695981039346656037"

definition FNV_PRIME :: u64 where
  "FNV_PRIME = 1099511628211"

text \<open>\<^verbatim>\<open>(size_t)(unsigned char)(*p)\<close> extends with zeros, \<^verbatim>\<open>(size_t)(*p)\<close> with the sign.\<close>

definition uchar_size_t :: "char \<Rightarrow> u64" where
  "uchar_size_t c = of_char c"

definition char_size_t :: "char \<Rightarrow> u64" where
  "char_size_t c = scast (of_char c :: byte)"

fun Hash_loop :: "u64 \<Rightarrow> string \<Rightarrow> u64" where
  "Hash_loop hash [] = hash"
| "Hash_loop hash (p # ps) =
     Hash_loop (((hash XOR uchar_size_t p) * FNV_PRIME) XOR char_size_t p) ps"

definition Hash :: "string \<Rightarrow> nat \<Rightarrow> nat" where
  "Hash key cap = unat (Hash_loop FNV_OFFSET key) mod cap"

subsection \<open>Probing\<close>

definition next_slot :: "nat \<Rightarrow> nat \<Rightarrow> nat" where
  "next_slot cap h = (if Suc h = cap then 0 else Suc h)"

partial_function (option) probe ::
    "(MapPair option \<Rightarrow> bool) \<Rightarrow> MapPair option list \<Rightarrow> nat \<Rightarrow> nat \<Rightarrow> nat option" where
  "probe stop c cap h =
     (if stop (c ! h) then Some h else probe stop c cap (next_slot cap h))"

text \<open>The loop of \<^verbatim>\<open>MapPut\<close> and \<^verbatim>\<open>MapGet\<close> stops at a null slot or at the key.\<close>

definition key_or_free :: "string \<Rightarrow> MapPair option \<Rightarrow> bool" where
  "key_or_free key s = (case s of None \<Rightarrow> True | Some p \<Rightarrow> pkey p = key)"

definition is_free :: "MapPair option \<Rightarrow> bool" where
  "is_free s = (s = None)"

subsection \<open>Operations\<close>

definition MapInit :: HashMap where
  "MapInit = \<lparr>contents = replicate MAP_INIT_CAPACITY None,
              capacity = MAP_INIT_CAPACITY, msize = 0\<rparr>"

fun rehash_loop :: "nat \<Rightarrow> MapPair option list \<Rightarrow> MapPair option list
    \<Rightarrow> MapPair option list option" where
  "rehash_loop newcap [] temp = Some temp"
| "rehash_loop newcap (None # old) temp = rehash_loop newcap old temp"
| "rehash_loop newcap (Some entry # old) temp =
     (case probe is_free temp newcap (Hash (pkey entry) newcap) of
        None \<Rightarrow> None
      | Some h \<Rightarrow> rehash_loop newcap old (temp[h := Some entry]))"

text \<open>The result pairs the returned \<^verbatim>\<open>int\<close> with the table.\<close>

definition resize_map :: "bool \<Rightarrow> HashMap \<Rightarrow> (int \<times> HashMap) option" where
  "resize_map alloc_ok m =
     (let newcapacity = capacity m * 2 in
      if \<not> alloc_ok then Some (- 1, m)
      else case rehash_loop newcapacity (contents m) (replicate newcapacity None) of
             None \<Rightarrow> None
           | Some temp \<Rightarrow> Some (0, m\<lparr>contents := temp, capacity := newcapacity\<rparr>))"

datatype 'a run = Exited | Returns 'a

definition MapPut_store ::
    "HashMap \<Rightarrow> string \<Rightarrow> byte list \<Rightarrow> nat \<Rightarrow> HashMap option" where
  "MapPut_store m key val value_size =
     (let newpair = \<lparr>pkey = key, pval = take value_size val\<rparr> in
      case probe (key_or_free key) (contents m) (capacity m) (Hash key (capacity m)) of
        None \<Rightarrow> None
      | Some h \<Rightarrow>
          (if contents m ! h \<noteq> None
           then Some (m\<lparr>contents := (contents m)[h := Some newpair]\<rparr>)
           else Some (m\<lparr>contents := (contents m)[h := Some newpair],
                        msize := msize m + 1\<rparr>)))"

definition MapPut ::
    "bool \<Rightarrow> HashMap \<Rightarrow> string \<Rightarrow> byte list \<Rightarrow> nat \<Rightarrow> HashMap run option" where
  "MapPut alloc_ok m key val value_size =
     (if msize m > capacity m div 2
      then case resize_map alloc_ok m of
             None \<Rightarrow> None
           | Some (r, m') \<Rightarrow>
               (if r < 0 then Some Exited
                else map_option Returns (MapPut_store m' key val value_size))
      else map_option Returns (MapPut_store m key val value_size))"

definition MapGet :: "HashMap \<Rightarrow> string \<Rightarrow> byte list option option" where
  "MapGet m key =
     (case probe (key_or_free key) (contents m) (capacity m) (Hash key (capacity m)) of
        None \<Rightarrow> None
      | Some h \<Rightarrow> Some (map_option pval (contents m ! h)))"

definition MapSize :: "HashMap \<Rightarrow> nat" where
  "MapSize m = msize m"

subsection \<open>What a probe returns\<close>

lemma next_slot_mod: "h < cap \<Longrightarrow> next_slot cap h = (Suc h) mod cap"
  by (auto simp: next_slot_def)

lemma next_slot_less: "h < cap \<Longrightarrow> next_slot cap h < cap"
  by (auto simp: next_slot_def)

lemma probe_intro:
  assumes "h < cap" "stop (c ! ((h + n) mod cap))"
    "\<And>j. j < n \<Longrightarrow> \<not> stop (c ! ((h + j) mod cap))"
  shows "probe stop c cap h = Some ((h + n) mod cap)"
  using assms
proof (induction n arbitrary: h)
  case 0
  then show ?case by (simp add: probe.simps)
next
  case (Suc n)
  have sh: "(next_slot cap h + j) mod cap = (h + Suc j) mod cap" for j
    using Suc.prems(1) by (simp add: next_slot_mod mod_simps)
  have "probe stop c cap (next_slot cap h) = Some ((next_slot cap h + n) mod cap)"
    using Suc.prems by (intro Suc.IH) (simp_all add: sh next_slot_less del: add_Suc_right)
  moreover have "\<not> stop (c ! h)"
    using Suc.prems(1) Suc.prems(3) [of 0] by simp
  ultimately show ?case
    by (simp add: probe.simps [of stop c cap h] sh del: add_Suc_right)
qed

lemma probe_elim:
  assumes ret: "probe stop c cap h = Some i" and "h < cap"
  shows "\<exists>n. i = (h + n) mod cap \<and> stop (c ! i)
             \<and> (\<forall>j < n. \<not> stop (c ! ((h + j) mod cap)))"
proof -
  have "h < cap \<longrightarrow> (\<exists>n. i = (h + n) mod cap \<and> stop (c ! i)
             \<and> (\<forall>j < n. \<not> stop (c ! ((h + j) mod cap))))"
  proof (rule probe.raw_induct [where P = "\<lambda>stop c cap h i. h < cap \<longrightarrow>
      (\<exists>n. i = (h + n) mod cap \<and> stop (c ! i)
             \<and> (\<forall>j < n. \<not> stop (c ! ((h + j) mod cap))))", OF _ ret], rule impI)
    fix pr stop c cap h i
    assume IH: "\<And>stop c cap h i. pr stop c cap h = Some i \<Longrightarrow> h < cap \<longrightarrow>
        (\<exists>n. i = (h + n) mod cap \<and> stop (c ! i) \<and> (\<forall>j < n. \<not> stop (c ! ((h + j) mod cap))))"
      and eq: "(if stop (c ! h) then Some h else pr stop c cap (next_slot cap h)) = Some i"
      and h: "h < cap"
    show "\<exists>n. i = (h + n) mod cap \<and> stop (c ! i) \<and> (\<forall>j < n. \<not> stop (c ! ((h + j) mod cap)))"
    proof (cases "stop (c ! h)")
      case True
      with eq h show ?thesis by (intro exI [of _ 0]) auto
    next
      case False
      with eq have "pr stop c cap (next_slot cap h) = Some i" by simp
      from IH [OF this] next_slot_less [OF h] obtain n where
        n: "i = (next_slot cap h + n) mod cap" "stop (c ! i)"
          "\<forall>j < n. \<not> stop (c ! ((next_slot cap h + j) mod cap))"
        by blast
      have sh: "(next_slot cap h + j) mod cap = (h + Suc j) mod cap" for j
        using h by (simp add: next_slot_mod mod_simps)
      have "\<not> stop (c ! ((h + j) mod cap))" if "j < Suc n" for j
      proof (cases j)
        case 0
        with False h show ?thesis by simp
      next
        case (Suc k)
        with that have "k < n" by simp
        with n(3) have "\<not> stop (c ! ((next_slot cap h + k) mod cap))" by blast
        then show ?thesis unfolding sh Suc .
      qed
      with n(1,2) show ?thesis
        unfolding sh by (intro exI [of _ "Suc n"]) blast
    qed
  qed
  with assms(2) show ?thesis by blast
qed

lemma probe_SomeD:
  assumes "probe stop c cap h = Some i" "h < cap"
  shows "stop (c ! i)" "i < cap"
  using probe_elim [OF assms] assms(2) by auto

text \<open>Termination: one slot that stops the loop is enough.\<close>

lemma probe_terminates:
  assumes "h < cap" "i < cap" "stop (c ! i)"
  shows "\<exists>j. probe stop c cap h = Some j"
proof -
  define n where "n = (LEAST n. stop (c ! ((h + n) mod cap)))"
  have "(h + (i + cap - h)) mod cap = i"
    using assms(1,2) by simp
  with assms(3) have ex: "stop (c ! ((h + (i + cap - h)) mod cap))" by simp
  have "stop (c ! ((h + n) mod cap))"
    unfolding n_def by (rule LeastI [of "\<lambda>n. stop (c ! ((h + n) mod cap))", OF ex])
  moreover have "\<And>j. j < n \<Longrightarrow> \<not> stop (c ! ((h + j) mod cap))"
    unfolding n_def by (rule not_less_Least)
  ultimately show ?thesis
    using probe_intro [OF assms(1)] by blast
qed

text \<open>A probe reads only slots at which it does not stop, and the one it returns: changing
  another stopping slot does not change its result.\<close>

lemma probe_update_other:
  assumes "probe stop c cap h = Some i" "h < cap" "stop (c ! j)" "j \<noteq> i"
  shows "probe stop (c[j := x]) cap h = Some i"
proof -
  from probe_elim [OF assms(1,2)] obtain n where n: "i = (h + n) mod cap"
    "stop (c ! i)" "\<forall>k < n. \<not> stop (c ! ((h + k) mod cap))" by blast
  have "\<not> stop (c[j := x] ! ((h + k) mod cap))" if "k < n" for k
  proof -
    have "(h + k) mod cap \<noteq> j" using n(3) that assms(3) by blast
    with n(3) that show ?thesis by simp
  qed
  moreover have "stop (c[j := x] ! ((h + n) mod cap))"
    using n(1,2) assms(4) by simp
  ultimately show ?thesis
    using probe_intro [OF assms(2)] n(1) by blast
qed

lemma probe_update_self:
  assumes "probe stop c cap h = Some i" "h < cap" "stop x" "i < length c"
  shows "probe stop (c[i := x]) cap h = Some i"
proof -
  from probe_elim [OF assms(1,2)] obtain n where n: "i = (h + n) mod cap"
    "stop (c ! i)" "\<forall>k < n. \<not> stop (c ! ((h + k) mod cap))" by blast
  have "\<not> stop (c[i := x] ! ((h + k) mod cap))" if "k < n" for k
  proof -
    have "(h + k) mod cap \<noteq> i" using n that by blast
    with n(3) that show ?thesis by simp
  qed
  then show ?thesis
    using probe_intro [OF assms(2), of stop "c[i := x]" n] n(1) assms(3,4) by simp
qed

lemma probe_stop_cong:
  assumes "\<And>i. i < cap \<Longrightarrow> stop (c ! i) = stop' (c ! i)" "h < cap"
    "probe stop c cap h = Some i"
  shows "probe stop' c cap h = Some i"
proof -
  have lt: "(h + k) mod cap < cap" for k using assms(2) by simp
  from probe_elim [OF assms(3,2)] obtain n where n: "i = (h + n) mod cap"
    "stop (c ! i)" "\<forall>k < n. \<not> stop (c ! ((h + k) mod cap))" by blast
  then show ?thesis
    using probe_intro [OF assms(2), of stop' c n] assms(1) lt by (metis (no_types))
qed

subsection \<open>The table invariant\<close>

text \<open>Every stored pair is what a probe for its key finds.  This one condition says both
  that keys are not repeated and that no probe path is interrupted by a free slot.\<close>

definition table_ok :: "MapPair option list \<Rightarrow> nat \<Rightarrow> bool" where
  "table_ok c cap \<longleftrightarrow> length c = cap \<and>
     (\<forall>i < cap. \<forall>p. c ! i = Some p \<longrightarrow>
        probe (key_or_free (pkey p)) c cap (Hash (pkey p) cap) = Some i)"

definition pairs :: "MapPair option list \<Rightarrow> MapPair set" where
  "pairs c = {p. Some p \<in> set c}"

definition used :: "MapPair option list \<Rightarrow> nat" where
  "used c = length (filter (\<lambda>s. s \<noteq> None) c)"

definition hm_inv :: "HashMap \<Rightarrow> bool" where
  "hm_inv m \<longleftrightarrow> table_ok (contents m) (capacity m) \<and> 3 \<le> capacity m
     \<and> msize m = used (contents m) \<and> msize m \<le> capacity m div 2 + 1"

lemma Hash_less [simp]: "0 < cap \<Longrightarrow> Hash key cap < cap"
  by (simp add: Hash_def)

lemma pairs_nth: "p \<in> pairs c \<longleftrightarrow> (\<exists>i < length c. c ! i = Some p)"
  by (auto simp: pairs_def in_set_conv_nth)

lemma pairs_Nil [simp]: "pairs [] = {}" and
  pairs_None [simp]: "pairs (None # c) = pairs c" and
  pairs_Some [simp]: "pairs (Some p # c) = insert p (pairs c)"
  by (auto simp: pairs_def)

lemma used_simps [simp]: "used [] = 0" "used (None # c) = used c"
    "used (Some p # c) = Suc (used c)"
  by (simp_all add: used_def)

lemma free_slot:
  assumes "used c < length c"
  shows "\<exists>i < length c. c ! i = None"
  using ex_not_if_filter_less [of "\<lambda>s. s \<noteq> None" c] assms by (simp add: used_def)

lemma table_ok_unique:
  assumes "table_ok c cap" "p \<in> pairs c" "q \<in> pairs c" "pkey p = pkey q"
  shows "p = q"
  using assms unfolding table_ok_def pairs_nth by (metis option.inject)

lemma probe_hit:
  assumes "table_ok c cap" "0 < cap"
    "probe (key_or_free key) c cap (Hash key cap) = Some h"
  shows "h < cap" "c ! h = None \<Longrightarrow> \<forall>p \<in> pairs c. pkey p \<noteq> key"
    "c ! h = Some p \<Longrightarrow> pkey p = key"
proof -
  show "h < cap" using probe_SomeD(2) [OF assms(3)] assms(2) by simp
  show "\<forall>p \<in> pairs c. pkey p \<noteq> key" if "c ! h = None"
    using assms(1,3) that by (fastforce simp: table_ok_def pairs_nth)
  show "pkey p = key" if "c ! h = Some p"
    using probe_SomeD(1) [OF assms(3)] assms(2) that by (simp add: key_or_free_def)
qed

lemma pairs_update:
  assumes "table_ok c cap" "h < cap"
  shows "pairs (c[h := Some p]) = insert p (pairs c - {q. c ! h = Some q})"
proof (intro set_eqI iffI)
  fix q assume "q \<in> pairs (c[h := Some p])"
  then obtain i where i: "i < length c" "c[h := Some p] ! i = Some q"
    by (auto simp: pairs_nth)
  show "q \<in> insert p (pairs c - {q. c ! h = Some q})"
  proof (cases "i = h")
    case True
    with i show ?thesis by simp
  next
    case False
    with i have "c ! i = Some q" by simp
    with assms i False have "c ! h \<noteq> Some q" unfolding table_ok_def by (metis option.inject)
    with \<open>c ! i = Some q\<close> i show ?thesis by (auto simp: pairs_nth)
  qed
next
  fix q assume q: "q \<in> insert p (pairs c - {q. c ! h = Some q})"
  have "length c = cap" using assms(1) by (simp add: table_ok_def)
  with q assms(2) show "q \<in> pairs (c[h := Some p])"
    by (auto simp: pairs_nth nth_list_update)
qed

lemma table_ok_update:
  assumes ok: "table_ok c cap" and cap: "0 < cap"
    and hit: "probe (key_or_free (pkey p)) c cap (Hash (pkey p) cap) = Some h"
  shows "table_ok (c[h := Some p]) cap"
proof -
  have len: "length c = cap" using ok by (simp add: table_ok_def)
  have h: "h < cap" by (rule probe_hit(1) [OF ok cap hit])
  have "probe (key_or_free (pkey q)) (c[h := Some p]) cap (Hash (pkey q) cap) = Some i"
    if i: "i < cap" "c[h := Some p] ! i = Some q" for i q
  proof (cases "i = h")
    case True
    with i len have "q = p" by simp
    with True show ?thesis
      using probe_update_self [OF hit] cap h len by (simp add: key_or_free_def)
  next
    case False
    with i have ci: "c ! i = Some q" by simp
    with ok i have pr: "probe (key_or_free (pkey q)) c cap (Hash (pkey q) cap) = Some i"
      by (simp add: table_ok_def)
    show ?thesis
    proof (cases "key_or_free (pkey q) (c ! h)")
      case True
      then show ?thesis using probe_update_other [OF pr _ True] False cap by simp
    next
      case nostop: False
      then obtain r where r: "c ! h = Some r" "pkey r \<noteq> pkey q"
        by (auto simp: key_or_free_def split: option.splits)
      with probe_hit(3) [OF ok cap hit] have "pkey p \<noteq> pkey q" by auto
      with nostop r have eq: "key_or_free (pkey q) (c[h := Some p] ! k) =
          key_or_free (pkey q) (c ! k)" if "k < cap" for k
        using that len by (cases "k = h") (simp_all add: key_or_free_def)
      from probe_elim [OF pr] cap obtain n where n: "i = (Hash (pkey q) cap + n) mod cap"
        "key_or_free (pkey q) (c ! i)"
        "\<forall>k < n. \<not> key_or_free (pkey q) (c ! ((Hash (pkey q) cap + k) mod cap))" by auto
      have "probe (key_or_free (pkey q)) (c[h := Some p]) cap (Hash (pkey q) cap)
          = Some ((Hash (pkey q) cap + n) mod cap)"
        by (rule probe_intro) (use n cap eq in auto)
      with n(1) show ?thesis by simp
    qed
  qed
  with len show ?thesis by (simp add: table_ok_def)
qed

lemma used_update:
  assumes "h < length c"
  shows "used (c[h := Some p]) = (if c ! h = None then Suc (used c) else used c)"
  using length_filter_update [OF assms, of "\<lambda>s. s \<noteq> None" "Some p"]
  by (cases "c ! h") (simp_all add: used_def)

lemma probe_free_eq_key:
  assumes "table_ok c cap" "0 < cap" "\<forall>p \<in> pairs c. pkey p \<noteq> key"
    "probe is_free c cap (Hash key cap) = Some h"
  shows "probe (key_or_free key) c cap (Hash key cap) = Some h"
proof (rule probe_stop_cong [OF _ _ assms(4)])
  show "is_free (c ! i) = key_or_free key (c ! i)" if "i < cap" for i
    using assms(1,3) that
    by (cases "c ! i") (auto simp: is_free_def key_or_free_def table_ok_def pairs_nth)
qed (use assms(2) in simp)

subsection \<open>Growing the table\<close>

fun fresh_keys :: "MapPair option list \<Rightarrow> bool" where
  "fresh_keys [] = True"
| "fresh_keys (None # old) = fresh_keys old"
| "fresh_keys (Some p # old) = ((\<forall>q \<in> pairs old. pkey q \<noteq> pkey p) \<and> fresh_keys old)"

lemma fresh_keys_distinct_pos:
  "(\<And>i j p q. i < length c \<Longrightarrow> j < length c \<Longrightarrow> c ! i = Some p \<Longrightarrow> c ! j = Some q \<Longrightarrow>
      pkey p = pkey q \<Longrightarrow> i = j) \<Longrightarrow> fresh_keys c"
proof (induction c rule: fresh_keys.induct)
  case (2 old)
  show ?case unfolding fresh_keys.simps
    by (rule "2.IH") (use "2.prems" [of "Suc _" "Suc _"] in auto)
next
  case (3 p old)
  have "fresh_keys old"
    by (rule "3.IH") (use "3.prems" [of "Suc _" "Suc _"] in auto)
  moreover have "pkey q \<noteq> pkey p" if "q \<in> pairs old" for q
  proof -
    from that obtain i where "i < length old" "old ! i = Some q"
      by (auto simp: pairs_nth)
    with "3.prems" [of "Suc i" 0 q p] show ?thesis by auto
  qed
  ultimately show ?case by simp
qed simp

lemma table_ok_fresh_keys: "table_ok c cap \<Longrightarrow> fresh_keys c"
  unfolding table_ok_def by (rule fresh_keys_distinct_pos) (metis option.inject)

lemma rehash_loop_correct:
  assumes "table_ok temp cap" "fresh_keys old" "0 < cap"
    "used temp + used old < cap"
    "\<forall>p \<in> pairs temp. \<forall>q \<in> pairs old. pkey p \<noteq> pkey q"
  shows "\<exists>t. rehash_loop cap old temp = Some t \<and> table_ok t cap
     \<and> pairs t = pairs temp \<union> pairs old \<and> used t = used temp + used old"
  using assms
proof (induction cap old temp rule: rehash_loop.induct)
  case (3 cap p old temp)
  have len: "length temp = cap" using "3.prems"(1) by (simp add: table_ok_def)
  have "used temp < length temp" using "3.prems"(4) len by simp
  from free_slot [OF this] obtain i where "i < cap" "is_free (temp ! i)"
    by (auto simp: is_free_def len)
  from probe_terminates [of "Hash (pkey p) cap" cap i is_free temp, OF _ this] "3.prems"(3)
  obtain h where h: "probe is_free temp cap (Hash (pkey p) cap) = Some h" by auto
  have new: "\<forall>q \<in> pairs temp. pkey q \<noteq> pkey p" using "3.prems"(5) by auto
  note hit = probe_free_eq_key [OF "3.prems"(1,3) new h]
  have hl: "h < cap" and hf: "temp ! h = None"
    using probe_SomeD [OF h] "3.prems"(3) by (auto simp: is_free_def)
  have ok: "table_ok (temp[h := Some p]) cap"
    by (rule table_ok_update [OF "3.prems"(1,3) hit])
  have ps: "pairs (temp[h := Some p]) = insert p (pairs temp)"
    using pairs_update [OF "3.prems"(1) hl, of p] hf by simp
  have us: "used (temp[h := Some p]) = Suc (used temp)"
    using used_update [of h temp p] hl hf len by simp
  have "\<exists>t. rehash_loop cap old (temp[h := Some p]) = Some t \<and> table_ok t cap
     \<and> pairs t = pairs (temp[h := Some p]) \<union> pairs old
     \<and> used t = used (temp[h := Some p]) + used old"
    by (rule "3.IH" [OF h ok])
       (use "3.prems" in \<open>auto simp: ps us\<close>)
  then show ?case using h by (auto simp: ps us)
qed auto

lemma table_ok_replicate: "table_ok (replicate n None) n"
  by (simp add: table_ok_def)

lemma pairs_replicate [simp]: "pairs (replicate n None) = {}"
  by (simp add: pairs_def)

lemma used_replicate [simp]: "used (replicate n None) = 0"
  by (simp add: used_def)

lemma resize_map_correct:
  assumes "hm_inv m"
  shows "\<exists>m'. resize_map True m = Some (0, m') \<and> hm_inv m' \<and> msize m' = msize m
     \<and> capacity m' = 2 * capacity m \<and> pairs (contents m') = pairs (contents m)"
proof -
  let ?n = "capacity m * 2"
  have inv: "table_ok (contents m) (capacity m)" "3 \<le> capacity m"
    "msize m = used (contents m)" "msize m \<le> capacity m div 2 + 1"
    using assms by (auto simp: hm_inv_def)
  have "\<exists>t. rehash_loop ?n (contents m) (replicate ?n None) = Some t \<and> table_ok t ?n
     \<and> pairs t = pairs (replicate ?n None) \<union> pairs (contents m)
     \<and> used t = used (replicate ?n None) + used (contents m)"
    by (rule rehash_loop_correct)
       (use inv in \<open>auto simp: table_ok_replicate table_ok_fresh_keys\<close>)
  then obtain t where "rehash_loop ?n (contents m) (replicate ?n None) = Some t"
    "table_ok t ?n" "pairs t = pairs (contents m)" "used t = used (contents m)"
    by auto
  then show ?thesis
    using inv by (auto simp: resize_map_def Let_def hm_inv_def)
qed

subsection \<open>Lookup and insertion\<close>

lemma MapInit_inv: "hm_inv MapInit"
  by (simp add: hm_inv_def MapInit_def MAP_INIT_CAPACITY_def table_ok_replicate)

lemma probe_key_total:
  assumes "hm_inv m"
  shows "\<exists>h. probe (key_or_free key) (contents m) (capacity m) (Hash key (capacity m)) = Some h"
proof -
  have inv: "length (contents m) = capacity m" "3 \<le> capacity m"
    "used (contents m) < length (contents m)"
    using assms by (auto simp: hm_inv_def table_ok_def)
  from free_slot [OF inv(3)] obtain i where "i < capacity m" "contents m ! i = None"
    by (auto simp: inv(1))
  then show ?thesis
    using inv(2) by (intro probe_terminates [of _ _ i]) (auto simp: key_or_free_def)
qed

lemma MapGet_pairs:
  assumes "hm_inv m"
  shows "MapGet m key = Some (Some v) \<longleftrightarrow> (\<exists>p \<in> pairs (contents m). pkey p = key \<and> pval p = v)"
    and "MapGet m key = Some None \<longleftrightarrow> (\<forall>p \<in> pairs (contents m). pkey p \<noteq> key)"
proof -
  have ok: "table_ok (contents m) (capacity m)" and cap: "0 < capacity m"
    using assms by (auto simp: hm_inv_def)
  have len: "length (contents m) = capacity m" using ok by (simp add: table_ok_def)
  obtain h where h: "probe (key_or_free key) (contents m) (capacity m)
      (Hash key (capacity m)) = Some h"
    using probe_key_total [OF assms] by blast
  note hit = probe_hit [OF ok cap h]
  have mem: "contents m ! h = Some p \<Longrightarrow> p \<in> pairs (contents m)" for p
    using hit(1) len by (auto simp: pairs_nth)
  show "MapGet m key = Some (Some v) \<longleftrightarrow> (\<exists>p \<in> pairs (contents m). pkey p = key \<and> pval p = v)"
  proof (cases "contents m ! h")
    case None
    with h hit(2) show ?thesis by (auto simp: MapGet_def)
  next
    case (Some q)
    then have "q \<in> pairs (contents m)" "pkey q = key" using mem hit(3) by auto
    then have "(\<exists>p \<in> pairs (contents m). pkey p = key \<and> pval p = v) \<longleftrightarrow> pval q = v"
      using table_ok_unique [OF ok] by blast
    with h Some show ?thesis by (simp add: MapGet_def)
  qed
  show "MapGet m key = Some None \<longleftrightarrow> (\<forall>p \<in> pairs (contents m). pkey p \<noteq> key)"
    using h hit mem by (cases "contents m ! h") (auto simp: MapGet_def)
qed

lemma MapGet_total: "hm_inv m \<Longrightarrow> \<exists>r. MapGet m key = Some r"
  using probe_key_total [of m key] by (auto simp: MapGet_def)

lemma MapGet_cong_pairs:
  assumes "hm_inv m" "hm_inv m'" "pairs (contents m) = pairs (contents m')"
  shows "MapGet m key = MapGet m' key"
  using MapGet_pairs [OF assms(1), of key] MapGet_pairs [OF assms(2), of key]
    MapGet_total [OF assms(1), of key] MapGet_total [OF assms(2), of key] assms(3)
  by (metis option.exhaust)

lemma MapPut_store_correct:
  assumes "hm_inv m" "msize m \<le> capacity m div 2"
  shows "\<exists>m'. MapPut_store m key v n = Some m' \<and> hm_inv m'
     \<and> pairs (contents m') = insert \<lparr>pkey = key, pval = take n v\<rparr>
         {p \<in> pairs (contents m). pkey p \<noteq> key}"
proof -
  let ?p = "\<lparr>pkey = key, pval = take n v\<rparr>"
  have ok: "table_ok (contents m) (capacity m)" and cap: "0 < capacity m"
    and len: "length (contents m) = capacity m" and sz: "msize m = used (contents m)"
    and c3: "3 \<le> capacity m"
    using assms(1) by (auto simp: hm_inv_def table_ok_def)
  obtain h where h: "probe (key_or_free key) (contents m) (capacity m)
      (Hash key (capacity m)) = Some h"
    using probe_key_total [OF assms(1)] by blast
  note hit = probe_hit [OF ok cap h]
  have ok': "table_ok ((contents m)[h := Some ?p]) (capacity m)"
    using table_ok_update [OF ok cap, of ?p h] h by simp
  have ps: "pairs ((contents m)[h := Some ?p]) = insert ?p {p \<in> pairs (contents m). pkey p \<noteq> key}"
  proof (cases "contents m ! h")
    case None
    with hit(2) show ?thesis
      unfolding pairs_update [OF ok hit(1)] by auto
  next
    case (Some q)
    then have "q \<in> pairs (contents m)" "pkey q = key"
      using hit len by (auto simp: pairs_nth)
    then have "pairs (contents m) - {r. contents m ! h = Some r}
        = {p \<in> pairs (contents m). pkey p \<noteq> key}"
      using Some table_ok_unique [OF ok] by auto
    then show ?thesis unfolding pairs_update [OF ok hit(1)] by simp
  qed
  have us: "used ((contents m)[h := Some ?p])
      = (if contents m ! h = None then Suc (used (contents m)) else used (contents m))"
    using used_update [of h "contents m" ?p] hit(1) len by simp
  show ?thesis
    using h ok' ps us sz c3 assms(2)
    by (cases "contents m ! h") (auto simp: MapPut_store_def Let_def hm_inv_def)
qed

lemma MapPut_correct:
  assumes "hm_inv m"
  shows "\<exists>m'. MapPut True m key v n = Some (Returns m') \<and> hm_inv m'
     \<and> pairs (contents m') = insert \<lparr>pkey = key, pval = take n v\<rparr>
         {p \<in> pairs (contents m). pkey p \<noteq> key}"
proof (cases "msize m > capacity m div 2")
  case True
  obtain m1 where m1: "resize_map True m = Some (0, m1)" "hm_inv m1" "msize m1 = msize m"
    "capacity m1 = 2 * capacity m" "pairs (contents m1) = pairs (contents m)"
    using resize_map_correct [OF assms] by blast
  have "msize m1 \<le> capacity m1 div 2"
    using m1(3,4) assms by (auto simp: hm_inv_def)
  from MapPut_store_correct [OF m1(2) this, of key v n] m1(1,5) True show ?thesis
    by (auto simp: MapPut_def)
next
  case False
  with MapPut_store_correct [OF assms, of key v n] show ?thesis
    by (auto simp: MapPut_def)
qed

subsection \<open>The map interface and its clients\<close>

text \<open>What a client of the table relies on: an empty table, total insertion and lookup,
  and that a lookup returns what was last stored under the key.\<close>

locale string_map =
  fixes empty :: 'm
    and put :: "'m \<Rightarrow> string \<Rightarrow> 'v \<Rightarrow> 'm option"
    and get :: "'m \<Rightarrow> string \<Rightarrow> 'v option option"
    and inv :: "'m \<Rightarrow> bool"
  assumes inv_empty: "inv empty"
    and get_empty: "get empty k = Some None"
    and get_total: "inv m \<Longrightarrow> \<exists>r. get m k = Some r"
    and put_total: "inv m \<Longrightarrow> \<exists>m'. put m k v = Some m'"
    and put_inv: "inv m \<Longrightarrow> put m k v = Some m' \<Longrightarrow> inv m'"
    and get_put: "inv m \<Longrightarrow> put m k v = Some m' \<Longrightarrow>
        get m' k' = (if k' = k then Some (Some v) else get m k')"
begin

fun put_all :: "'m \<Rightarrow> (string \<times> 'v) list \<Rightarrow> 'm option" where
  "put_all m [] = Some m"
| "put_all m ((k, v) # kvs) = (case put m k v of None \<Rightarrow> None | Some m' \<Rightarrow> put_all m' kvs)"

lemma put_all_get:
  assumes "inv m"
  shows "\<exists>m'. put_all m kvs = Some m' \<and> inv m' \<and>
    (\<forall>k. get m' k = (case map_of (rev kvs) k of None \<Rightarrow> get m k | Some v \<Rightarrow> Some (Some v)))"
  using assms
proof (induction kvs arbitrary: m)
  case Nil
  then show ?case by simp
next
  case (Cons kv kvs)
  obtain k v where kv: "kv = (k, v)" by (cases kv)
  obtain m1 where m1: "put m k v = Some m1" using put_total [OF Cons.prems] by blast
  from Cons.IH [OF put_inv [OF Cons.prems m1]] obtain m' where
    m': "put_all m1 kvs = Some m'" "inv m'"
      "\<forall>k. get m' k = (case map_of (rev kvs) k of None \<Rightarrow> get m1 k | Some v \<Rightarrow> Some (Some v))"
    by blast
  then show ?case
    using m1 get_put [OF Cons.prems m1]
    by (auto simp: kv map_add_def split: option.splits)
qed

lemma put_all_empty_get:
  "\<exists>m'. put_all empty kvs = Some m' \<and> inv m' \<and> (\<forall>k. get m' k = Some (map_of (rev kvs) k))"
proof -
  obtain m' where "put_all empty kvs = Some m'" "inv m'"
    "\<forall>k. get m' k = (case map_of (rev kvs) k of None \<Rightarrow> get empty k | Some v \<Rightarrow> Some (Some v))"
    using put_all_get [OF inv_empty, of kvs] by blast
  then show ?thesis by (auto simp: get_empty split: option.splits)
qed

end

text \<open>\<^verbatim>\<open>MapPut\<close> where memory does not run out, with the whole value copied.\<close>

definition MapPut_all_ok :: "HashMap \<Rightarrow> string \<Rightarrow> byte list \<Rightarrow> HashMap option" where
  "MapPut_all_ok m key v =
     (case MapPut True m key v (length v) of Some (Returns m') \<Rightarrow> Some m' | _ \<Rightarrow> None)"

lemma MapPut_all_ok_correct:
  assumes "hm_inv m"
  shows "\<exists>m'. MapPut_all_ok m key v = Some m' \<and> hm_inv m'
     \<and> pairs (contents m') = insert \<lparr>pkey = key, pval = v\<rparr> {p \<in> pairs (contents m). pkey p \<noteq> key}"
  using MapPut_correct [OF assms, of key v "length v"] by (auto simp: MapPut_all_ok_def)

lemma MapGet_put:
  assumes "hm_inv m" "hm_inv m'"
    "pairs (contents m') = insert \<lparr>pkey = key, pval = v\<rparr> {p \<in> pairs (contents m). pkey p \<noteq> key}"
  shows "MapGet m' key' = (if key' = key then Some (Some v) else MapGet m key')"
proof (cases "key' = key")
  case True
  with MapGet_pairs(1) [OF assms(2), of key v] assms(3) show ?thesis by auto
next
  case False
  obtain r where r: "MapGet m key' = Some r" using MapGet_total [OF assms(1)] by blast
  show ?thesis
  proof (cases r)
    case None
    with r MapGet_pairs(2) [OF assms(1), of key'] MapGet_pairs(2) [OF assms(2), of key']
      assms(3) False show ?thesis by auto
  next
    case (Some w)
    with r MapGet_pairs(1) [OF assms(1), of key' w] MapGet_pairs(1) [OF assms(2), of key' w]
      assms(3) False show ?thesis by auto
  qed
qed

interpretation hashmap: string_map MapInit MapPut_all_ok MapGet hm_inv
proof unfold_locales
  show "hm_inv MapInit" by (rule MapInit_inv)
  show "MapGet MapInit k = Some None" for k
    using MapGet_pairs(2) [OF MapInit_inv] by (simp add: MapInit_def)
  show "\<exists>r. MapGet m k = Some r" if "hm_inv m" for m k
    by (rule MapGet_total [OF that])
  show "\<exists>m'. MapPut_all_ok m k v = Some m'" if "hm_inv m" for m k v
    using MapPut_all_ok_correct [OF that] by blast
  show "hm_inv m'" if "hm_inv m" "MapPut_all_ok m k v = Some m'" for m k v m'
    using MapPut_all_ok_correct [OF that(1), of k v] that(2) by auto
  show "MapGet m' k' = (if k' = k then Some (Some v) else MapGet m k')"
    if "hm_inv m" "MapPut_all_ok m k v = Some m'" for m k v m' k'
    using MapPut_all_ok_correct [OF that(1), of k v] that MapGet_put [OF that(1)] by auto
qed

subsection \<open>Properties\<close>

lemma card_pairs: "fresh_keys c \<Longrightarrow> finite (pairs c) \<and> card (pairs c) = used c"
proof (induction c rule: fresh_keys.induct)
  case (3 p old)
  then have "p \<notin> pairs old" by auto
  with 3 show ?case by simp
qed auto



text \<open>storing a sequence of pairs into an empty table never gets stuck, and every
  lookup in the result is a lookup in the finite map of the last pair stored per key.\<close>

theorem MapPut_sequence:
  "\<exists>m'. hashmap.put_all MapInit kvs = Some m' \<and> hm_inv m' \<and>
    (\<forall>k. MapGet m' k = Some (map_of (rev kvs) k))"
  by (rule hashmap.put_all_empty_get)

text \<open>the count \<^verbatim>\<open>MapSize\<close> returns is the number of distinct keys stored.\<close>

theorem MapSize_counts_keys:
  assumes "hm_inv m"
  shows "MapSize m = card (pkey ` pairs (contents m))"
proof -
  have ok: "table_ok (contents m) (capacity m)" and "msize m = used (contents m)"
    using assms by (auto simp: hm_inv_def)
  moreover have "inj_on pkey (pairs (contents m))"
    using table_ok_unique [OF ok] by (auto intro: inj_onI)
  ultimately show ?thesis
    using card_pairs [OF table_ok_fresh_keys [OF ok]] by (simp add: MapSize_def card_image)
qed

theorem MapSize_counts_keys_witness: "MapSize MapInit = card (pkey ` pairs (contents MapInit))"
  by (rule MapSize_counts_keys [OF MapInit_inv])

text \<open>The published FNV-1a loop, which the comment above \<^verbatim>\<open>Hash\<close> names.\<close>

fun fnv1a :: "u64 \<Rightarrow> string \<Rightarrow> u64" where
  "fnv1a hash [] = hash"
| "fnv1a hash (p # ps) = fnv1a ((hash XOR uchar_size_t p) * FNV_PRIME) ps"

text \<open>The second exclusive-or of the source's loop makes it a different function.\<close>

lemma Hash_is_not_fnv1a: "Hash_loop FNV_OFFSET ''a'' \<noteq> fnv1a FNV_OFFSET ''a''"
  by code_simp

end
