(* ===== verification/Mapreduce.thy ===== *)
theory Mapreduce
  imports Prelude "HOL-Library.List_Lexorder"
begin

text \<open>
  The MapReduce library of project 3A: \<^verbatim>\<open>p3a/mapreduce.c\<close>, the variant \<^verbatim>\<open>p3a/mapreduceD.c\<close> that sorts by merging, and
  \<^verbatim>\<open>p3a/sequential_mapreduce.c\<close>.  A partition is the list of its key nodes in the order of \<^verbatim>\<open>next_key\<close>, each with its
  own value and the values of its \<^verbatim>\<open>next_val\<close> chain.  Strings are byte lists, and \<^verbatim>\<open>strcmp\<close> is the sign of
  their lexicographic comparison.
\<close>

type_synonym str = "byte list"

definition str_cmp :: "str \<Rightarrow> str \<Rightarrow> int" where
  "str_cmp a b = (if a = b then 0 else if a < b then - 1 else 1)"

subsection \<open>Partitions\<close>

record node =
  n_key :: str
  n_val :: str
  n_more :: "str list"

definition search :: "str \<Rightarrow> node list \<Rightarrow> nat option" where
  "search key p = find_index (\<lambda>n. str_cmp (n_key n) key = 0) p"

definition add :: "str \<Rightarrow> str \<Rightarrow> node list \<Rightarrow> node list" where
  "add key val p =
     (case search key p of
        Some i \<Rightarrow> p[i := (p ! i)\<lparr>n_more := val # n_more (p ! i)\<rparr>]
      | None \<Rightarrow> \<lparr>n_key = key, n_val = val, n_more = []\<rparr> # p)"

text \<open>The position of the node before the first whose key is not smaller.\<close>

definition findPrev :: "str \<Rightarrow> node list \<Rightarrow> nat option" where
  "findPrev key p =
     (case find_index (\<lambda>n. str_cmp (n_key n) key \<ge> 0) p of
        Some 0 \<Rightarrow> None
      | Some (Suc j) \<Rightarrow> Some j
      | None \<Rightarrow> if p = [] then None else Some (length p - 1))"

definition Get :: "str \<Rightarrow> node list \<Rightarrow> str option \<times> node list" where
  "Get key p =
     (case search key p of
        None \<Rightarrow> (None, p)
      | Some i \<Rightarrow>
          (case n_more (p ! i) of
             v # vs \<Rightarrow> (Some v, p[i := (p ! i)\<lparr>n_more := vs\<rparr>])
           | [] \<Rightarrow>
               (Some (n_val (p ! i)),
                case findPrev key p of
                  None \<Rightarrow> drop (Suc i) p
                | Some j \<Rightarrow> take (Suc j) p @ drop (Suc i) p)))"

text \<open>Characters are signed, \<^verbatim>\<open>unsigned long\<close> has 64 bits.\<close>

definition MR_DefaultHashPartition :: "str \<Rightarrow> u64 \<Rightarrow> u64" where
  "MR_DefaultHashPartition key num_partitions = foldl (\<lambda>hash c. hash * 33 + scast c) 5381 key mod num_partitions"

subsection \<open>Sorting\<close>

fun insert_walk :: "node list \<Rightarrow> node \<Rightarrow> node list" where
  "insert_walk [] nd = [nd]"
| "insert_walk (n # ns) nd = (if str_cmp (n_key n) (n_key nd) < 0 then n # insert_walk ns nd else nd # n # ns)"

definition insertHelper :: "node list \<Rightarrow> node \<Rightarrow> node list" where
  "insertHelper sortedHead nd =
     (case sortedHead of
        [] \<Rightarrow> [nd]
      | h # t \<Rightarrow> if str_cmp (n_key h) (n_key nd) > 0 then nd # h # t else h # insert_walk t nd)"

definition insertionSort :: "node list list \<Rightarrow> node list list" where
  "insertionSort arr_part = map (foldl insertHelper []) arr_part"

fun SortedMerge :: "node list \<Rightarrow> node list \<Rightarrow> node list" where
  "SortedMerge [] b = b"
| "SortedMerge a [] = a"
| "SortedMerge (x # a) (y # b) =
     (if str_cmp (n_key x) (n_key y) \<le> 0 then x # SortedMerge a (y # b) else y # SortedMerge (x # a) b)"

text \<open>The loop of \<^verbatim>\<open>FrontBackSplit\<close>: the number of nodes that \<^verbatim>\<open>slow\<close> has moved when \<^verbatim>\<open>fast\<close> reaches the end.\<close>

fun split_steps :: "node list \<Rightarrow> nat" where
  "split_steps [] = 0"
| "split_steps [x] = 0"
| "split_steps (x # y # fast) = Suc (split_steps fast)"

definition FrontBackSplit :: "node list \<Rightarrow> node list \<times> node list" where
  "FrontBackSplit source =
     (let slow = split_steps (tl source) in (take (Suc slow) source, drop (Suc slow) source))"

lemma split_steps_le: "2 * split_steps xs \<le> length xs"
  by (induction xs rule: split_steps.induct) auto

function MergeSort :: "node list \<Rightarrow> node list" where
  "MergeSort head =
     (if length head \<le> 1 then head
      else case FrontBackSplit head of (a, b) \<Rightarrow> SortedMerge (MergeSort a) (MergeSort b))"
  by pat_completeness auto
termination
proof (relation "measure length", goal_cases)
  case (2 head a b)
  then show ?case using split_steps_le [of "tl head"] by (auto simp: FrontBackSplit_def Let_def)
next
  case (3 head a b)
  then show ?case by (auto simp: FrontBackSplit_def Let_def)
qed simp

declare MergeSort.simps [simp del]

subsection \<open>Emitting and reducing\<close>

definition MR_Emit :: "(str \<Rightarrow> u64 \<Rightarrow> u64) \<Rightarrow> str \<Rightarrow> str \<Rightarrow> node list list \<Rightarrow> node list list" where
  "MR_Emit pner key value arr_part =
     (let part_num = unat (pner key (of_nat (length arr_part))) in
      arr_part[part_num := add key value (arr_part ! part_num)])"

text \<open>The keys for which \<^verbatim>\<open>MR_Run\<close> submits reduce tasks, in this order.\<close>

definition reduce_keys :: "node list list \<Rightarrow> (str \<times> nat) list" where
  "reduce_keys arr_part = concat (map (\<lambda>i. map (\<lambda>n. (n_key n, i)) (arr_part ! i)) [0..<length arr_part])"

text \<open>A reducer that takes values until \<^verbatim>\<open>get_next\<close> returns null.\<close>

definition pweight :: "node list \<Rightarrow> nat" where
  "pweight p = (\<Sum>n\<leftarrow>p. Suc (length (n_more n)))"

lemma pweight_update:
  assumes "i < length p" "length (n_more x) < length (n_more (p ! i))"
  shows "pweight (p[i := x]) < pweight p"
  using assms by (induction p arbitrary: i) (auto simp: pweight_def split: nat.splits)

lemma pweight_append [simp]: "pweight (p @ q) = pweight p + pweight q"
  by (simp add: pweight_def)

lemma pweight_take_drop: "pweight p = pweight (take i p) + pweight (drop i p)"
  by (metis append_take_drop_id pweight_append)

lemma findPrev_less:
  assumes "search key p = Some i" "findPrev key p = Some j"
  shows "j < i"
proof -
  have i: "i < length p" "str_cmp (n_key (p ! i)) key = 0" using find_index_SomeD assms(1) unfolding search_def by blast+
  obtain m where m: "find_index (\<lambda>n. str_cmp (n_key n) key \<ge> 0) p = Some m"
    using find_index_Some_iff_ex [of "\<lambda>n. str_cmp (n_key n) key \<ge> 0" p] i nth_mem by force
  have "\<not> i < m" using find_index_SomeD [OF m] i(2) by fastforce
  then show ?thesis using assms(2) m by (auto simp: findPrev_def split: nat.splits)
qed

lemma pweight_Get: "Get key p = (Some v, p') \<Longrightarrow> pweight p' < pweight p"
proof -
  assume g: "Get key p = (Some v, p')"
  then obtain i where s: "search key p = Some i" by (auto simp: Get_def split: option.splits)
  have i: "i < length p" using find_index_SomeD s unfolding search_def by blast
  have d: "pweight (drop i p) = Suc (length (n_more (p ! i))) + pweight (drop (Suc i) p)"
    by (subst Cons_nth_drop_Suc [OF i, symmetric]) (simp add: pweight_def)
  show ?thesis
  proof (cases "n_more (p ! i)")
    case (Cons a vs)
    then show ?thesis using g s i by (auto simp: Get_def intro: pweight_update)
  next
    case Nil
    have tk: "pweight (take (Suc j) p) \<le> pweight (take i p)" if "j < i" for j
      using pweight_take_drop [of "take i p" "Suc j"] that by (simp add: min_absorb2)
    have "pweight (case findPrev key p of None \<Rightarrow> drop (Suc i) p | Some j \<Rightarrow> take (Suc j) p @ drop (Suc i) p) < pweight p"
      using d pweight_take_drop [of p i] findPrev_less [OF s] tk by (auto split: option.splits) force
    then show ?thesis using g s Nil by (simp add: Get_def)
  qed
qed

function drain :: "str \<Rightarrow> node list \<Rightarrow> str list \<times> node list" where
  "drain key p =
     (case Get key p of
        (None, p) \<Rightarrow> ([], p)
      | (Some v, p) \<Rightarrow> (case drain key p of (vs, p) \<Rightarrow> (v # vs, p)))"
  by pat_completeness auto
termination by (relation "measure (\<lambda>(key, p). pweight p)") (auto dest: pweight_Get [OF sym])

declare drain.simps [simp del]


text \<open>The reduce tasks in the order in which the workers run them; each runs under the lock of its partition.\<close>

fun reduce_tasks :: "(str \<times> nat) list \<Rightarrow> node list list \<Rightarrow> (str \<times> str list) list" where
  "reduce_tasks [] ps = []"
| "reduce_tasks ((k, i) # ts) ps = (case drain k (ps ! i) of (vs, p) \<Rightarrow> (k, vs) # reduce_tasks ts (ps[i := p]))"

definition emit_all :: "(str \<Rightarrow> u64 \<Rightarrow> u64) \<Rightarrow> (str \<times> str) list \<Rightarrow> node list list \<Rightarrow> node list list" where
  "emit_all pner es arr_part = foldl (\<lambda>ps (k, v). MR_Emit pner k v ps) arr_part es"

subsection \<open>The sequential library\<close>

record kv_list =
  elements :: "(str \<times> str) list"
  kv_size :: nat

definition init_kv_list :: "nat \<Rightarrow> kv_list" where
  "init_kv_list n = \<lparr>elements = [], kv_size = n\<rparr>"

definition add_to_list :: "str \<times> str \<Rightarrow> kv_list \<Rightarrow> kv_list" where
  "add_to_list elt kvl =
     (let kvl = (if length (elements kvl) = kv_size kvl then kvl\<lparr>kv_size := kv_size kvl * 2\<rparr> else kvl) in
      kvl\<lparr>elements := elements kvl @ [elt]\<rparr>)"

definition get_func :: "kv_list \<Rightarrow> str \<Rightarrow> nat \<Rightarrow> str option \<times> nat" where
  "get_func kvl key kvl_counter =
     (if kvl_counter = length (elements kvl) then (None, kvl_counter)
      else if str_cmp (fst (elements kvl ! kvl_counter)) key = 0
        then (Some (snd (elements kvl ! kvl_counter)), Suc kvl_counter)
      else (None, kvl_counter))"

definition kv_cmp :: "str \<times> str \<Rightarrow> str \<times> str \<Rightarrow> int" where
  "kv_cmp a b = str_cmp (fst a) (fst b)"


text \<open>A reducer that takes values until \<^verbatim>\<open>get_func\<close> returns null, and the loop of \<^verbatim>\<open>MR_Run\<close> over the sorted pairs.\<close>

fun seq_drain :: "nat \<Rightarrow> kv_list \<Rightarrow> str \<Rightarrow> nat \<Rightarrow> (str list \<times> nat) option" where
  "seq_drain 0 kvl key c = None"
| "seq_drain (Suc fuel) kvl key c =
     (case get_func kvl key c of
        (None, c) \<Rightarrow> Some ([], c)
      | (Some v, c) \<Rightarrow> map_option (\<lambda>(vs, c). (v # vs, c)) (seq_drain fuel kvl key c))"

fun seq_reduce :: "nat \<Rightarrow> kv_list \<Rightarrow> nat \<Rightarrow> (str \<times> str list) list option" where
  "seq_reduce 0 kvl c = None"
| "seq_reduce (Suc fuel) kvl c =
     (if c < length (elements kvl) then
        (let key = fst (elements kvl ! c) in
         case seq_drain (Suc fuel) kvl key c of
           None \<Rightarrow> None
         | Some (vs, c) \<Rightarrow> map_option (\<lambda>out. (key, vs) # out) (seq_reduce fuel kvl c))
      else Some [])"

definition seq_MR_Run ::
  "((str \<times> str) list \<Rightarrow> (str \<times> str) list) \<Rightarrow> (str \<times> str) list \<Rightarrow> nat \<Rightarrow> (str \<times> str list) list option" where
  "seq_MR_Run qsort es fuel =
     (let kvl = foldl (\<lambda>kvl elt. add_to_list elt kvl) (init_kv_list 10) es in
      seq_reduce fuel (kvl\<lparr>elements := qsort (elements kvl)\<rparr>) 0)"

subsection \<open>The word count program\<close>

definition delims :: "byte list" where
  "delims = [32, 9, 10, 13, 44, 46]"

fun strsep_all :: "str \<Rightarrow> str \<Rightarrow> str list" where
  "strsep_all token [] = [token]"
| "strsep_all token (c # cs) =
     (if c \<in> set delims then token # strsep_all [] cs else strsep_all (token @ [c]) cs)"

fun getlines :: "str \<Rightarrow> str \<Rightarrow> str list" where
  "getlines line [] = (if line = [] then [] else [line])"
| "getlines line (c # cs) = (if c = 10 then (line @ [c]) # getlines [] cs else getlines (line @ [c]) cs)"

definition Map :: "str \<Rightarrow> (str \<times> str) list" where
  "Map contents =
     concat (map (\<lambda>line. map (\<lambda>token. (token, [49])) (strsep_all [] (takeWhile (\<lambda>c. c \<noteq> 0) line))) (getlines [] contents))"

definition Reduce :: "str list \<Rightarrow> u32" where
  "Reduce values = foldl (\<lambda>count value. count + 1) 0 values"

subsection \<open>Sorting is correct\<close>

lemma str_cmp_iff [simp]:
  "str_cmp a b = 0 \<longleftrightarrow> a = b" "str_cmp a b < 0 \<longleftrightarrow> a < b" "0 < str_cmp a b \<longleftrightarrow> b < a"
  "0 \<le> str_cmp a b \<longleftrightarrow> b \<le> a" "str_cmp a b \<le> 0 \<longleftrightarrow> a \<le> b"
  by (auto simp: str_cmp_def not_less le_less)

abbreviation keys :: "node list \<Rightarrow> str list" where
  "keys p \<equiv> map n_key p"

lemma insert_walk_mset [simp]: "mset (insert_walk p nd) = add_mset nd (mset p)"
  by (induction p) auto

lemma insertHelper_mset [simp]: "mset (insertHelper p nd) = add_mset nd (mset p)"
  by (auto simp: insertHelper_def split: list.splits)

lemma insert_walk_set [simp]: "set (insert_walk p nd) = insert nd (set p)"
  by (induction p) auto

lemma insert_walk_sorted: "sorted (keys p) \<Longrightarrow> sorted (keys (insert_walk p nd))"
  by (induction p) (auto simp: less_imp_le)

lemma insertHelper_sorted: "sorted (keys p) \<Longrightarrow> sorted (keys (insertHelper p nd))"
  by (auto simp: insertHelper_def insert_walk_sorted less_imp_le split: list.splits intro: order_trans [OF less_imp_le])

lemma insertion_fold:
  "sorted (keys a) \<Longrightarrow>
     mset (foldl insertHelper a p) = mset a + mset p \<and> sorted (keys (foldl insertHelper a p))"
  by (induction p arbitrary: a) (auto simp: insertHelper_sorted)

lemmas insertion_perm = insertion_fold [of "[]", simplified, THEN conjunct1]
  and insertion_sorted = insertion_fold [of "[]", simplified, THEN conjunct2]

lemma SortedMerge_mset [simp]: "mset (SortedMerge a b) = mset a + mset b"
  by (induction a b rule: SortedMerge.induct) auto

lemma SortedMerge_set [simp]: "set (SortedMerge a b) = set a \<union> set b"
  by (metis SortedMerge_mset set_mset_mset set_mset_union)

lemma SortedMerge_sorted: "sorted (keys a) \<Longrightarrow> sorted (keys b) \<Longrightarrow> sorted (keys (SortedMerge a b))"
  by (induction a b rule: SortedMerge.induct) (auto intro: order_trans)

lemma MergeSort_correct: "mset (MergeSort p) = mset p \<and> sorted (keys (MergeSort p))"
proof (induction p rule: MergeSort.induct)
  case (1 p)
  show ?case
  proof (cases "length p \<le> 1")
    case True
    then have "sorted (keys p)" by (cases p) auto
    then show ?thesis using True by (subst (1 2) MergeSort.simps) simp
  next
    case False
    obtain a b where ab: "FrontBackSplit p = (a, b)" by fastforce
    then have m: "mset p = mset a + mset b"
      unfolding FrontBackSplit_def Let_def by (metis Pair_inject append_take_drop_id mset_append)
    have IH: "mset (MergeSort a) = mset a" "sorted (keys (MergeSort a))"
      "mset (MergeSort b) = mset b" "sorted (keys (MergeSort b))"
      using 1(1) [OF False ab [symmetric]] 1(2) [OF False ab [symmetric]] by blast+
    show ?thesis using False ab m IH by (subst (1 2) MergeSort.simps) (simp add: SortedMerge_sorted)
  qed
qed

lemma sorted_keys_unique:
  assumes "mset p = mset q" "sorted (keys p)" "sorted (keys q)" "distinct (keys p)"
  shows "p = q"
proof -
  have s: "set p = set q" using assms(1) by (metis set_mset_mset)
  have "distinct (keys q)" using assms(1,4) by (metis mset_map mset_eq_imp_distinct_iff)
  moreover have "inj_on n_key (set p \<union> set q)" using assms(4) s by (simp add: distinct_map)
  ultimately show ?thesis using map_sorted_distinct_set_unique [of n_key p q] assms s by blast
qed

text \<open>on every list of nodes with distinct keys, which is what the emits build, the merge sort of one version of the library and
  the insertion sort of the other produce the same list: the nodes in the order of their keys.
\<close>

theorem MergeSort_insertionSort:
  assumes "\<forall>p \<in> set arr_part. distinct (keys p)"
  shows "map MergeSort arr_part = insertionSort arr_part"
proof -
  have "MergeSort p = foldl insertHelper [] p" if "p \<in> set arr_part" for p
  proof (rule sorted_keys_unique)
    show "mset (MergeSort p) = mset (foldl insertHelper [] p)" by (simp add: MergeSort_correct insertion_perm)
    show "distinct (keys (MergeSort p))"
      using assms that MergeSort_correct [of p] by (metis mset_map mset_eq_imp_distinct_iff)
  qed (simp_all add: MergeSort_correct insertion_sorted)
  then show ?thesis by (simp add: insertionSort_def)
qed


subsection \<open>What the partitions hold\<close>

definition stored_values :: "node \<Rightarrow> str list" where
  "stored_values n = n_more n @ [n_val n]"

definition lookup :: "node list \<Rightarrow> str \<Rightarrow> str list option" where
  "lookup p = map_of (map (\<lambda>n. (n_key n, stored_values n)) p)"

definition vals :: "str \<Rightarrow> (str \<times> str) list \<Rightarrow> str list" where
  "vals k es = map snd (filter (\<lambda>e. fst e = k) es)"

lemma lookup_simps [simp]:
  "lookup [] k = None"
  "lookup (n # p) k = (if k = n_key n then Some (stored_values n) else lookup p k)"
  by (auto simp: lookup_def)

lemma lookup_None_iff: "lookup p k = None \<longleftrightarrow> k \<notin> set (keys p)"
  by (induction p) auto

lemma lookup_split [simp]:
  "k \<notin> set (keys a) \<Longrightarrow> lookup (a @ b) k = lookup b k"
  by (induction a) auto

lemma lookup_append: "lookup (a @ b) k = (case lookup a k of None \<Rightarrow> lookup b k | Some v \<Rightarrow> Some v)"
  by (induction a) auto

lemma lookup_perm:
  assumes "mset p = mset q" "distinct (keys p)"
  shows "lookup p = lookup q"
proof -
  have "distinct (keys q)" using assms by (metis mset_map mset_eq_imp_distinct_iff)
  moreover have "set p = set q" using assms(1) by (metis set_mset_mset)
  ultimately show ?thesis
    unfolding lookup_def using assms(2) by (subst map_of_inject_set) (simp_all add: comp_def)
qed

lemma search_None: "k \<notin> set (keys p) \<Longrightarrow> search k p = None"
  by (auto simp: search_def find_index_None_iff)

lemma search_split: "k \<notin> set (keys a) \<Longrightarrow> n_key n = k \<Longrightarrow> search k (a @ n # b) = Some (length a)"
  unfolding search_def by (induction a) auto

lemma key_split:
  assumes "k \<in> set (keys p)"
  obtains a n b where "p = a @ n # b" "k \<notin> set (keys a)" "n_key n = k"
proof -
  obtain x where "x \<in> set p" "n_key x = k" using assms by auto
  then show ?thesis using split_list_first_prop [of p "\<lambda>n. n_key n = k"] that by (metis (no_types, lifting) image_iff list.set_map)
qed

lemma add_split:
  "k \<notin> set (keys a) \<Longrightarrow> n_key n = k \<Longrightarrow> add k v (a @ n # b) = a @ n\<lparr>n_more := v # n_more n\<rparr> # b"
  by (simp add: add_def search_split)

lemma add_fresh: "k \<notin> set (keys p) \<Longrightarrow> add k v p = \<lparr>n_key = k, n_val = v, n_more = []\<rparr> # p"
  by (simp add: add_def search_None)

lemma add_distinct: "distinct (keys p) \<Longrightarrow> distinct (keys (add k v p))"
proof (cases "k \<in> set (keys p)")
  case True
  then obtain a n b where "p = a @ n # b" "k \<notin> set (keys a)" "n_key n = k" by (rule key_split)
  then show "distinct (keys p) \<Longrightarrow> ?thesis" by (simp add: add_split)
qed (auto simp: add_fresh)

lemma add_lookup:
  "lookup (add k v p) k' = (if k' = k then Some (v # (case lookup p k of None \<Rightarrow> [] | Some vs \<Rightarrow> vs)) else lookup p k')"
proof (cases "k \<in> set (keys p)")
  case True
  then obtain a n b where "p = a @ n # b" "k \<notin> set (keys a)" "n_key n = k" by (rule key_split)
  moreover from this have "lookup a k = None" by (simp add: lookup_None_iff)
  ultimately show ?thesis by (simp add: add_split lookup_append stored_values_def split: option.splits)
next
  case False
  then have "lookup p k = None" by (simp add: lookup_None_iff)
  with False show ?thesis by (simp add: add_fresh stored_values_def)
qed

definition emitted :: "(str \<Rightarrow> u64 \<Rightarrow> u64) \<Rightarrow> nat \<Rightarrow> (str \<times> str) list \<Rightarrow> node list list \<Rightarrow> bool" where
  "emitted pner n es ps \<longleftrightarrow>
     length ps = n \<and>
     (\<forall>i < n. distinct (keys (ps ! i)) \<and>
        (\<forall>k. lookup (ps ! i) k =
          (if unat (pner k (of_nat n)) = i \<and> vals k es \<noteq> [] then Some (rev (vals k es)) else None)))"

lemma vals_snoc [simp]: "vals k (es @ [(k', v)]) = vals k es @ (if k' = k then [v] else [])"
  by (simp add: vals_def)

lemma emitted_emit:
  assumes "emitted pner n es ps" "unat (pner k (of_nat n)) < n"
  shows "emitted pner n (es @ [(k, v)]) (MR_Emit pner k v ps)"
  using assms unfolding emitted_def MR_Emit_def Let_def
  by (auto simp: nth_list_update add_distinct add_lookup)

lemma emitted_all:
  assumes "\<forall>k. unat (pner k (of_nat n)) < n"
  shows "emitted pner n es (emit_all pner es (replicate n []))"
proof (induction es rule: rev_induct)
  case Nil
  show ?case by (simp add: emitted_def emit_all_def vals_def)
next
  case (snoc e es)
  obtain k v where e: "e = (k, v)" by fastforce
  show ?case using emitted_emit [OF snoc, of k v] assms by (simp add: emit_all_def e)
qed

lemma emitted_sorted:
  assumes "emitted pner n es ps"
  shows "emitted pner n es (insertionSort ps)"
proof -
  have "lookup (foldl insertHelper [] (ps ! i)) = lookup (ps ! i)"
    "distinct (keys (foldl insertHelper [] (ps ! i)))" if "i < n" for i
  proof -
    have d: "distinct (keys (ps ! i))" using assms that by (simp add: emitted_def)
    show "lookup (foldl insertHelper [] (ps ! i)) = lookup (ps ! i)"
      using lookup_perm [OF _ d] insertion_perm by metis
    show "distinct (keys (foldl insertHelper [] (ps ! i)))"
      using d insertion_perm [of "ps ! i"] by (metis mset_map mset_eq_imp_distinct_iff)
  qed
  then show ?thesis using assms by (simp add: emitted_def insertionSort_def)
qed

subsection \<open>Taking the values out\<close>

lemma findPrev_split:
  assumes "sorted_wrt (<) (keys (a @ n # b))" "n_key n = k"
  shows "findPrev k (a @ n # b) = (if a = [] then None else Some (length a - 1))"
proof -
  have "find_index (\<lambda>n. str_cmp (n_key n) k \<ge> 0) (a @ n # b) = Some (length a)"
    using assms by (induction a) auto
  then show ?thesis by (auto simp: findPrev_def split: nat.splits)
qed

lemma Get_split:
  assumes "sorted_wrt (<) (keys (a @ n # b))" "n_key n = k"
  shows "Get k (a @ n # b) =
    (case n_more n of v # vs \<Rightarrow> (Some v, a @ n\<lparr>n_more := vs\<rparr> # b) | [] \<Rightarrow> (Some (n_val n), a @ b))"
proof -
  have "k \<notin> set (keys a)" using assms by (auto simp: sorted_wrt_append)
  then show ?thesis
    using assms findPrev_split [OF assms] by (auto simp: Get_def search_split split: list.splits)
qed

lemma drain_absent: "k \<notin> set (keys p) \<Longrightarrow> drain k p = ([], p)"
  by (subst drain.simps) (simp add: Get_def search_None)

lemma drain_split:
  assumes "sorted_wrt (<) (keys (a @ n # b))" "n_key n = k"
  shows "drain k (a @ n # b) = (stored_values n, a @ b)"
  using assms
proof (induction "n_more n" arbitrary: n)
  case Nil
  then have "k \<notin> set (keys (a @ b))" by (auto simp: sorted_wrt_append)
  then show ?case
    using Nil by (subst drain.simps) (simp add: Get_split drain_absent stored_values_def flip: Nil(1))
next
  case (Cons v vs)
  have "drain k (a @ n\<lparr>n_more := vs\<rparr> # b) = (stored_values (n\<lparr>n_more := vs\<rparr>), a @ b)"
    using Cons by (intro Cons(1)) auto
  then show ?case
    using Cons by (subst drain.simps) (simp add: Get_split stored_values_def flip: Cons(2))
qed

lemma drain_sorted:
  assumes "sorted_wrt (<) (keys p)"
  shows "drain k p = (case lookup p k of None \<Rightarrow> [] | Some vs \<Rightarrow> vs, filter (\<lambda>n. n_key n \<noteq> k) p)"
proof (cases "k \<in> set (keys p)")
  case True
  then obtain a n b where p: "p = a @ n # b" "k \<notin> set (keys a)" "n_key n = k" by (rule key_split)
  then have "k \<notin> set (keys b)" using assms by (auto simp: sorted_wrt_append)
  with p(2) have "filter (\<lambda>n. n_key n \<noteq> k) a = a" "filter (\<lambda>n. n_key n \<noteq> k) b = b"
    by (auto simp: filter_id_conv)
  then show ?thesis using p assms drain_split [of a n b k] by simp
next
  case False
  then have "lookup p k = None" "filter (\<lambda>n. n_key n \<noteq> k) p = p" by (auto simp: lookup_None_iff filter_id_conv)
  then show ?thesis using False by (simp add: drain_absent)
qed


lemma lookup_filter: "k' \<noteq> k \<Longrightarrow> lookup (filter (\<lambda>n. n_key n \<noteq> k) p) k' = lookup p k'"
  by (induction p) auto

lemma in_reduce_keys: "(k, i) \<in> set (reduce_keys ps) \<longleftrightarrow> i < length ps \<and> k \<in> set (keys (ps ! i))"
  by (auto simp: reduce_keys_def)

lemma reduce_keys_distinct:
  assumes "\<forall>p \<in> set ps. distinct (keys p)"
  shows "distinct (reduce_keys ps)"
proof -
  have 1: "distinct (map (\<lambda>n. (n_key n, i)) (ps ! i))" if "i < length ps" for i
    using assms that nth_mem by (fastforce simp: distinct_map inj_on_def)
  have "distinct (concat (map (\<lambda>i. map (\<lambda>n. (n_key n, i)) (ps ! i)) is))"
    if "distinct is" "\<forall>i \<in> set is. i < length ps" for "is"
    using that 1 by (induction "is") auto
  then show ?thesis by (simp add: reduce_keys_def)
qed

lemma reduce_tasks_values:
  assumes "\<forall>p \<in> set ps. sorted_wrt (<) (keys p)" "distinct ts" "set ts \<subseteq> set (reduce_keys ps)"
  shows "reduce_tasks ts ps = map (\<lambda>(k, i). (k, the (lookup (ps ! i) k))) ts"
  using assms
proof (induction ts arbitrary: ps)
  case (Cons t ts)
  obtain k i where t: "t = (k, i)" by fastforce
  have i: "i < length ps" "k \<in> set (keys (ps ! i))" using Cons.prems(3) by (auto simp: t in_reduce_keys)
  define q where "q = filter (\<lambda>n. n_key n \<noteq> k) (ps ! i)"
  obtain vs where vs: "lookup (ps ! i) k = Some vs" using i(2) lookup_None_iff [of "ps ! i" k] by fastforce
  have d: "drain k (ps ! i) = (vs, q)" using Cons.prems(1) i(1) by (simp add: drain_sorted vs q_def)
  have same: "lookup q k' = lookup (ps ! i) k'" if "k' \<noteq> k" for k'
    using that by (simp add: q_def lookup_filter)
  have "sorted_wrt (<) (keys q)"
    unfolding q_def using Cons.prems(1) i(1) by (simp add: sorted_wrt_map sorted_wrt_filter)
  then have s: "\<forall>p \<in> set (ps[i := q]). sorted_wrt (<) (keys p)"
    using Cons.prems(1) set_update_subset_insert [of ps i q] by blast
  have sub: "set ts \<subseteq> set (reduce_keys (ps[i := q]))"
  proof
    fix t' assume "t' \<in> set ts"
    moreover obtain k' i' where t': "t' = (k', i')" by fastforce
    ultimately have "i' < length ps" "k' \<in> set (keys (ps ! i'))" "(k', i') \<noteq> (k, i)"
      using Cons.prems(2,3) by (auto simp: t in_reduce_keys)
    then show "t' \<in> set (reduce_keys (ps[i := q]))"
      by (cases "i' = i") (auto simp: t' in_reduce_keys i(1) q_def)
  qed
  have "reduce_tasks ts (ps[i := q]) = map (\<lambda>(k, i'). (k, the (lookup (ps[i := q] ! i') k))) ts"
    by (rule Cons.IH [OF s _ sub]) (use Cons.prems(2) in simp)
  also have "\<dots> = map (\<lambda>(k, i). (k, the (lookup (ps ! i) k))) ts"
    using Cons.prems(2) by (auto simp: t nth_list_update i(1) intro!: arg_cong [of _ _ the] same)
  finally show ?case by (simp add: t d vs)
qed simp

lemma grouping:
  assumes "\<forall>k. unat (pner k (of_nat n)) < n"
    and "mset ts = mset (reduce_keys (insertionSort (emit_all pner es (replicate n []))))"
  shows "mset (reduce_tasks ts (insertionSort (emit_all pner es (replicate n []))))
    = mset (map (\<lambda>k. (k, rev (vals k es))) (remdups (map fst es)))"
proof -
  define ps where "ps = insertionSort (emit_all pner es (replicate n []))"
  define home where "home k = unat (pner k (of_nat n))" for k
  have e: "emitted pner n es ps" unfolding ps_def using emitted_sorted emitted_all assms(1) by blast
  then have len: "length ps = n" and d: "\<forall>p \<in> set ps. distinct (keys p)"
    by (auto simp: emitted_def in_set_conv_nth)
  have "\<forall>p \<in> set ps. sorted (keys p)" by (auto simp: ps_def insertionSort_def insertion_sorted)
  then have s: "\<forall>p \<in> set ps. sorted_wrt (<) (keys p)" using d by (simp add: strict_sorted_iff)
  have dts: "distinct ts" using assms(2) reduce_keys_distinct [OF d] mset_eq_imp_distinct_iff ps_def by metis
  have setts: "set ts = set (reduce_keys ps)" using assms(2) ps_def by (metis set_mset_mset)
  have lk: "lookup (ps ! i) k = (if home k = i \<and> vals k es \<noteq> [] then Some (rev (vals k es)) else None)" if "i < n" for i k
    using e that by (simp add: emitted_def home_def)
  have key: "vals k es \<noteq> [] \<longleftrightarrow> k \<in> set (map fst es)" for k
    by (force simp: vals_def filter_empty_conv)
  have mem: "(k, i) \<in> set ts \<longleftrightarrow> i = home k \<and> k \<in> set (map fst es)" for k i
  proof -
    have "(k, i) \<in> set ts \<longleftrightarrow> i < n \<and> lookup (ps ! i) k \<noteq> None" by (simp add: setts in_reduce_keys len lookup_None_iff)
    also have "\<dots> \<longleftrightarrow> i = home k \<and> k \<in> set (map fst es)"
      using lk [of i k] key [of k] assms(1) by (cases "i < n") (auto simp: home_def simp del: set_map)
    finally show ?thesis .
  qed
  have out: "reduce_tasks ts ps = map (\<lambda>k. (k, rev (vals k es))) (map fst ts)"
  proof -
    have "the (lookup (ps ! i) k) = rev (vals k es)" if "(k, i) \<in> set ts" for k i
    proof -
      have "i = home k" "vals k es \<noteq> []" using that mem [of k i] key [of k] by (blast+)
      moreover have "home k < n" using assms(1) unfolding home_def by blast
      ultimately show ?thesis using lk [of i k] by simp
    qed
    then show ?thesis using reduce_tasks_values [OF s dts] setts by (auto simp: split_beta)
  qed
  have "distinct (map fst ts)" unfolding distinct_map using dts mem by (auto simp: inj_on_def)
  moreover have "set (map fst ts) = set (map fst es)" using mem by force
  ultimately have "mset (map fst ts) = mset (remdups (map fst es))"
    by (metis set_eq_iff_mset_eq_distinct distinct_remdups set_remdups)
  then show ?thesis unfolding ps_def [symmetric] out mset_map by (rule arg_cong)
qed


definition sample_pner :: "str \<Rightarrow> u64 \<Rightarrow> u64" where
  "sample_pner k m = (if k = [97] then 0 else 1)"

definition sample_pairs :: "(str \<times> str) list" where
  "sample_pairs = [([98], [1]), ([97], [2]), ([98], [3]), ([99], [4])]"

lemma sample_parts:
  "insertionSort (emit_all sample_pner sample_pairs (replicate 2 [])) =
    [[\<lparr>n_key = [97], n_val = [2], n_more = []\<rparr>],
     [\<lparr>n_key = [98], n_val = [1], n_more = [[3]]\<rparr>, \<lparr>n_key = [99], n_val = [4], n_more = []\<rparr>]]"
  by code_simp


theorem MergeSort_insertionSort_witness:
  "map MergeSort [[\<lparr>n_key = [98], n_val = [1], n_more = []\<rparr>, \<lparr>n_key = [97], n_val = [2], n_more = [[3]]\<rparr>]]
   = insertionSort [[\<lparr>n_key = [98], n_val = [1], n_more = []\<rparr>, \<lparr>n_key = [97], n_val = [2], n_more = [[3]]\<rparr>]]"
  by (rule MergeSort_insertionSort) simp

subsection \<open>The default partitioner\<close>

lemma MR_DefaultHashPartition_range:
  assumes "0 < n" "n < 2 ^ 64"
  shows "unat (MR_DefaultHashPartition k (of_nat n)) < n"
proof -
  have "unat (of_nat n :: u64) = n" using assms(2) by (simp add: unat_of_nat take_bit_nat_eq_self)
  then show ?thesis using assms(1) by (simp add: MR_DefaultHashPartition_def unat_mod)
qed

subsection \<open>The sequential library groups in the same way\<close>

function groups :: "(str \<times> str) list \<Rightarrow> (str \<times> str list) list" where
  "groups [] = []"
| "groups ((k, v) # es) =
     (k, v # map snd (takeWhile (\<lambda>e. fst e = k) es)) # groups (dropWhile (\<lambda>e. fst e = k) es)"
  by pat_completeness auto
termination by (relation "measure length") (auto intro: le_less_trans [OF length_dropWhile_le])

lemma add_to_list_all: "elements (foldl (\<lambda>kvl elt. add_to_list elt kvl) kvl es) = elements kvl @ es"
  by (induction es arbitrary: kvl) (auto simp: add_to_list_def Let_def)

lemma add_to_list_capacity:
  "length (elements kvl) \<le> kv_size kvl \<Longrightarrow> 0 < kv_size kvl \<Longrightarrow>
     length (elements (add_to_list e kvl)) \<le> kv_size (add_to_list e kvl) \<and> 0 < kv_size (add_to_list e kvl)"
  by (auto simp: add_to_list_def Let_def)

lemma seq_drain_takes:
  assumes "length (elements kvl) - c < fuel" "c \<le> length (elements kvl)"
  shows "seq_drain fuel kvl k c =
    Some (map snd (takeWhile (\<lambda>e. fst e = k) (drop c (elements kvl))), c + length (takeWhile (\<lambda>e. fst e = k) (drop c (elements kvl))))"
  using assms
proof (induction fuel arbitrary: c)
  case (Suc fuel)
  show ?case
  proof (cases "c < length (elements kvl)")
    case True
    then have "drop c (elements kvl) = elements kvl ! c # drop (Suc c) (elements kvl)" by (simp add: Cons_nth_drop_Suc)
    moreover have "length (elements kvl) - Suc c < fuel" "Suc c \<le> length (elements kvl)" using Suc.prems True by auto
    ultimately show ?thesis using Suc.IH [of "Suc c"] True by (auto simp: get_func_def)
  qed (use Suc.prems in \<open>auto simp: get_func_def\<close>)
qed simp

lemma seq_reduce_groups:
  assumes "length (elements kvl) - c < fuel" "c \<le> length (elements kvl)"
  shows "seq_reduce fuel kvl c = Some (groups (drop c (elements kvl)))"
  using assms
proof (induction fuel arbitrary: c)
  case (Suc fuel)
  show ?case
  proof (cases "c < length (elements kvl)")
    case True
    obtain k v where e: "elements kvl ! c = (k, v)" by fastforce
    define t where "t = takeWhile (\<lambda>e. fst e = k) (drop (Suc c) (elements kvl))"
    have d: "drop c (elements kvl) = (k, v) # drop (Suc c) (elements kvl)"
      using True Cons_nth_drop_Suc [of c "elements kvl"] e by simp
    have l: "length t \<le> length (elements kvl) - Suc c"
      unfolding t_def using length_takeWhile_le [of _ "drop (Suc c) (elements kvl)"] by simp
    have "seq_reduce fuel kvl (Suc (c + length t)) = Some (groups (drop (Suc (c + length t)) (elements kvl)))"
      using Suc.prems True l by (intro Suc.IH) auto
    moreover have "drop (Suc (c + length t)) (elements kvl) = dropWhile (\<lambda>e. fst e = k) (drop (Suc c) (elements kvl))"
      by (simp add: t_def dropWhile_eq_drop add.commute)
    ultimately show ?thesis
      using True seq_drain_takes [OF Suc.prems, of k] by (simp add: e d t_def del: seq_drain.simps)
  qed (use Suc.prems in auto)
qed simp

lemma vals_Cons: "vals k ((k', v) # es) = (if k' = k then [v] else []) @ vals k es"
  by (simp add: vals_def)

lemma groups_sorted:
  "sorted (map fst es) \<Longrightarrow>
     map fst (groups es) = remdups_adj (map fst es) \<and> (\<forall>(k, vs) \<in> set (groups es). vs = vals k es)"
proof (induction es rule: groups.induct)
  case (2 k v es)
  define rest where "rest = dropWhile (\<lambda>e. fst e = k) es"
  define same where "same = takeWhile (\<lambda>e. fst e = k) es"
  have es: "es = same @ rest" by (simp add: same_def rest_def)
  have sr: "sorted (map fst rest)" using 2(2) es by (simp add: sorted_append)
  have gt: "k < fst e" if "e \<in> set rest" for e
  proof (cases rest)
    case (Cons r rs)
    then have "fst r \<noteq> k" using hd_dropWhile [of "\<lambda>e. fst e = k" es] by (auto simp: rest_def)
    moreover have "k \<le> fst r" using 2(2) es Cons by simp
    moreover have "fst r \<le> fst e" using that sr Cons by auto
    ultimately show ?thesis by simp
  qed (use that in simp)
  have sm: "\<forall>e \<in> set same. fst e = k" using set_takeWhileD same_def by fastforce
  note IH = 2(1) [folded rest_def, OF sr]
  have keep: "vals k' rest = vals k' ((k, v) # es)" if "k' > k" for k'
    using that sm by (simp add: vals_def es filter_False)
  have "remdups_adj (k # map fst same @ ys) = remdups_adj (k # ys)" for ys
    using sm by (induction same) auto
  moreover have "remdups_adj (k # map fst rest) = k # remdups_adj (map fst rest)"
    using gt by (cases rest) auto
  moreover have "vals k ((k, v) # es) = v # map snd same"
    using sm gt by (force simp: vals_def es filter_id_conv filter_empty_conv)
  moreover have "vs = vals k' ((k, v) # es)" if "(k', vs) \<in> set (groups rest)" for k' vs
  proof -
    have "k' \<in> set (map fst (groups rest))" using that by force
    then have "k' \<in> set (map fst rest)" using IH by simp
    then have "k < k'" using gt by auto
    then show ?thesis using IH that keep by fastforce
  qed
  moreover have "groups ((k, v) # es) = (k, v # map snd same) # groups rest" by (simp add: same_def rest_def)
  moreover have "map fst ((k, v) # es) = k # map fst same @ map fst rest" by (simp add: es)
  ultimately show ?case using IH by auto
qed simp

lemma distinct_remdups_adj: "sorted xs \<Longrightarrow> distinct (remdups_adj xs)"
  by (induction xs rule: remdups_adj.induct) (auto simp: less_le)

text \<open>the sequential library, run with enough steps and with any \<^verbatim>\<open>qsort\<close> that sorts by \<^verbatim>\<open>cmp\<close>, calls the reducer for the same keys and with the
  same values (up to their order) as the parallel one.
\<close>

theorem sequential_groups_equally:
  assumes "\<forall>k. unat (pner k (of_nat n)) < n"
    and "mset ts = mset (reduce_keys (insertionSort (emit_all pner es (replicate n []))))"
    and "\<And>xs. mset (qsort xs) = mset xs"
    and "\<And>xs. sorted_wrt (\<lambda>a b. kv_cmp a b \<le> 0) (qsort xs)"
  shows "\<exists>out. seq_MR_Run qsort es (Suc (length es)) = Some out \<and>
    image_mset (\<lambda>(k, vs). (k, mset vs)) (mset out)
    = image_mset (\<lambda>(k, vs). (k, mset vs)) (mset (reduce_tasks ts (insertionSort (emit_all pner es (replicate n [])))))"
proof -
  define q where "q = qsort es"
  have len: "length q = length es" unfolding q_def using assms(3) by (metis size_mset)
  have s: "sorted (map fst q)" using assms(4) [of es] by (simp add: q_def kv_cmp_def sorted_map)
  have run: "seq_MR_Run qsort es (Suc (length es)) = Some (groups q)"
    using seq_reduce_groups [of "_\<lparr>elements := q\<rparr>" 0 "Suc (length es)"]
    by (simp add: seq_MR_Run_def Let_def add_to_list_all init_kv_list_def q_def [symmetric] len del: seq_reduce.simps)
  have g: "groups q = map (\<lambda>k. (k, vals k q)) (remdups_adj (map fst q))"
  proof -
    have "groups q = map (\<lambda>(k, vs). (k, vals k q)) (groups q)"
      using groups_sorted [OF s] by (auto intro!: map_idI [symmetric])
    also have "\<dots> = map (\<lambda>k. (k, vals k q)) (map fst (groups q))" by (simp add: case_prod_beta)
    finally show ?thesis using groups_sorted [OF s] by simp
  qed
  have v: "mset (vals k q) = mset (vals k es)" for k
    using assms(3) [of es] by (simp add: vals_def q_def mset_filter)
  have "distinct (remdups_adj (map fst q))" using s by (simp add: distinct_remdups_adj)
  moreover have "set (map fst q) = set (map fst es)" using assms(3) [of es] q_def by (metis mset_map set_mset_mset)
  ultimately have k: "mset (remdups_adj (map fst q)) = mset (remdups (map fst es))"
    by (metis set_eq_iff_mset_eq_distinct distinct_remdups set_remdups remdups_adj_set)
  have "image_mset (\<lambda>(k, vs). (k, mset vs)) (mset (groups q)) = image_mset (\<lambda>k. (k, mset (vals k es))) (mset (remdups (map fst es)))"
    by (simp add: g k [symmetric] multiset.map_comp comp_def v)
  moreover have "mset (reduce_tasks ts (insertionSort (emit_all pner es (replicate n []))))
    = mset (map (\<lambda>k. (k, rev (vals k es))) (remdups (map fst es)))"
    by (rule grouping [OF assms(1,2)])
  ultimately show ?thesis using run by (simp add: multiset.map_comp comp_def)
qed


theorem sequential_groups_equally_witness:
  "\<exists>out. seq_MR_Run (sort_key fst) sample_pairs 5 = Some out \<and>
    image_mset (\<lambda>(k, vs). (k, mset vs)) (mset out)
    = image_mset (\<lambda>(k, vs). (k, mset vs))
        (mset (reduce_tasks [([97], 0), ([98], 1), ([99], 1)] (insertionSort (emit_all sample_pner sample_pairs (replicate 2 [])))))"
proof -
  have r: "\<forall>k. unat (sample_pner k (of_nat 2)) < 2" by (simp add: sample_pner_def)
  have t: "mset [([97], 0), ([98], 1), ([99], 1)] = mset (reduce_keys (insertionSort (emit_all sample_pner sample_pairs (replicate 2 []))))"
    unfolding sample_parts by (simp add: reduce_keys_def upt_rec)
  have s: "sorted_wrt (\<lambda>a b. kv_cmp a b \<le> 0) (sort_key fst xs)" for xs
    using sorted_sort_key [of fst xs] by (simp add: kv_cmp_def sorted_map)
  have five: "Suc (length sample_pairs) = 5" by (simp add: sample_pairs_def)
  show ?thesis using sequential_groups_equally [OF r t mset_sort s] unfolding five by blast
qed

subsection \<open>Word counts\<close>

lemma Reduce_length: "Reduce vs = of_nat (length vs)"
proof -
  have "foldl (\<lambda>count value. count + 1) (a :: u32) vs = a + of_nat (length vs)" for a
    by (induction vs arbitrary: a) auto
  then show ?thesis by (simp add: Reduce_def)
qed

text \<open>Every separator ends a token: joining the tokens of a line with the separators of the line gives the line back.\<close>

lemma strsep_all_length: "length (strsep_all token cs) = Suc (length (filter (\<lambda>c. c \<in> set delims) cs))"
  by (induction token cs rule: strsep_all.induct) auto

lemma strsep_all_concat: "concat (strsep_all token cs) = token @ filter (\<lambda>c. c \<notin> set delims) cs"
  by (induction token cs rule: strsep_all.induct) auto

lemma getlines_concat: "concat (getlines line cs) = line @ cs"
  by (induction line cs rule: getlines.induct) auto

definition words :: "str \<Rightarrow> str list" where
  "words contents = concat (map (\<lambda>line. strsep_all [] (takeWhile (\<lambda>c. c \<noteq> 0) line)) (getlines [] contents))"

lemma Map_words: "Map contents = map (\<lambda>t. (t, [49])) (words contents)"
  by (simp add: Map_def words_def map_concat comp_def)

text \<open>the word count program counts.  However the emits of the mappers interleave and the reduce tasks are ordered, it prints one line
  for every distinct token of the input files, with the number of its occurrences modulo $2^{32}$.
\<close>

theorem wordcount_counts:
  assumes "mset es = mset (concat (map Map files))"
    and "0 < n" "n < 2 ^ 64"
    and "mset ts = mset (reduce_keys (insertionSort (emit_all MR_DefaultHashPartition es (replicate n []))))"
  shows "mset (map (\<lambda>(k, vs). (k, Reduce vs)) (reduce_tasks ts (insertionSort (emit_all MR_DefaultHashPartition es (replicate n [])))))
    = mset (map (\<lambda>t. (t, of_nat (count (mset (concat (map words files))) t))) (remdups (concat (map words files))))"
proof -
  define ws where "ws = concat (map words files)"
  have es: "mset es = mset (map (\<lambda>t. (t, [49])) ws)"
    using assms(1) ext [of Map, OF Map_words] by (simp add: ws_def map_concat comp_def)
  have "mset (map fst es) = image_mset fst (mset es)" by simp
  also have "\<dots> = mset ws" by (simp add: es multiset.map_comp comp_def)
  finally have k: "mset (map fst es) = mset ws" .
  have len: "length (vals t es) = count (mset ws) t" for t
  proof -
    have "length (vals t es) = size (filter_mset (\<lambda>e. fst e = t) (mset es))"
      by (simp add: vals_def flip: mset_filter)
    also have "\<dots> = length (filter (\<lambda>w. w = t) ws)"
      unfolding es by (simp add: mset_filter [symmetric] filter_map comp_def del: mset_filter mset_map)
    also have "(\<lambda>w. w = t) = (=) t" by auto
    also have "length (filter ((=) t) ws) = count (mset ws) t" by (simp add: count_mset count_list_eq_length_filter)
    finally show ?thesis .
  qed
  have r: "mset (remdups (map fst es)) = mset (remdups ws)"
    by (metis k set_eq_iff_mset_eq_distinct distinct_remdups set_remdups set_mset_mset)
  have "mset (reduce_tasks ts (insertionSort (emit_all MR_DefaultHashPartition es (replicate n []))))
    = mset (map (\<lambda>k. (k, rev (vals k es))) (remdups (map fst es)))"
    using MR_DefaultHashPartition_range [OF assms(2,3)] assms(4) by (intro grouping) auto
  then show ?thesis
    by (simp add: r multiset.map_comp comp_def Reduce_length len ws_def [symmetric])
qed

theorem wordcount_counts_witness:
  "mset (map (\<lambda>(k, vs). (k, Reduce vs))
     (reduce_tasks [([], 0), ([98], 0), ([97], 0)] (insertionSort (emit_all MR_DefaultHashPartition (Map [97, 32, 98, 32, 97, 10]) (replicate 1 [])))))
   = {# ([98], 1), ([97], 2), ([], 1) #}"
proof -
  have t: "mset [([], 0), ([98], 0), ([97], 0)]
    = mset (reduce_keys (insertionSort (emit_all MR_DefaultHashPartition (Map [97, 32, 98, 32, 97, 10]) (replicate 1 []))))"
    by code_simp
  have w: "concat (map words [[97, 32, 98, 32, 97, 10]]) = [[97], [98], [97], []]"
    by (simp add: words_def delims_def)
  show ?thesis
    using wordcount_counts [of "Map [97, 32, 98, 32, 97, 10]" "[[97, 32, 98, 32, 97, 10]]" 1, OF _ _ _ t]
    unfolding w by (simp add: add_mset_commute)
qed


subsection \<open>The task queue of the mappers\<close>

text \<open>
  \<^verbatim>\<open>submitMapTask\<close> and \<^verbatim>\<open>startMapThread\<close>.  The queue is an array of 1000 entries of which the first \<^verbatim>\<open>mapTaskCount\<close> are in use, and
  the entry without a file name ends the workers.  What a worker does while it holds \<^verbatim>\<open>mutexQueue\<close> is one step.  A worker that has called
  \<^verbatim>\<open>pthread_cond_wait\<close> is \<open>Waiting\<close>; the wait may return at any time (after a signal, or spuriously, as the interface allows), and
  the worker is then \<open>Woken\<close> and goes on when it gets the mutex.  \<open>mapped\<close> records the finished calls of the mapper.
\<close>

datatype worker = Idle | Waiting | Woken | Mapping str | Exited

record mqueue =
  mQueue :: "str option list"
  mapTaskCount :: nat
  workers :: "worker list"
  to_submit :: "str option list"
  mapped :: "str list"

definition MAXTASKS :: nat where
  "MAXTASKS = 1000"

definition submitMapTask :: "str option \<Rightarrow> mqueue \<Rightarrow> mqueue" where
  "submitMapTask task s = s\<lparr>mQueue := (mQueue s)[mapTaskCount s := task], mapTaskCount := Suc (mapTaskCount s)\<rparr>"

fun shift_queue :: "nat \<Rightarrow> str option list \<Rightarrow> str option list" where
  "shift_queue 0 q = q"
| "shift_queue (Suc i) q = (shift_queue i q)[i := shift_queue i q ! Suc i]"

definition take_task :: "nat \<Rightarrow> mqueue \<Rightarrow> mqueue" where
  "take_task w s =
     (case mQueue s ! 0 of
        None \<Rightarrow> s\<lparr>workers := (workers s)[w := Exited]\<rparr>
      | Some f \<Rightarrow> s\<lparr>mQueue := shift_queue (mapTaskCount s) (mQueue s), mapTaskCount := mapTaskCount s - 1,
                    workers := (workers s)[w := Mapping f]\<rparr>)"

definition start_work :: "nat \<Rightarrow> mqueue \<Rightarrow> mqueue" where
  "start_work w s = (if mapTaskCount s = 0 then s\<lparr>workers := (workers s)[w := Waiting]\<rparr> else take_task w s)"

inductive mstep :: "mqueue \<Rightarrow> mqueue \<Rightarrow> bool" where
  submit: "to_submit s = t # ts \<Longrightarrow> mapTaskCount s < MAXTASKS \<Longrightarrow> mstep s (submitMapTask t (s\<lparr>to_submit := ts\<rparr>))"
| start: "w < length (workers s) \<Longrightarrow> workers s ! w = Idle \<Longrightarrow> mstep s (start_work w s)"
| wake: "w < length (workers s) \<Longrightarrow> workers s ! w = Waiting \<Longrightarrow> mstep s (s\<lparr>workers := (workers s)[w := Woken]\<rparr>)"
| resume: "w < length (workers s) \<Longrightarrow> workers s ! w = Woken \<Longrightarrow> mstep s (take_task w s)"
| finish: "w < length (workers s) \<Longrightarrow> workers s ! w = Mapping f \<Longrightarrow>
    mstep s (s\<lparr>workers := (workers s)[w := Idle], mapped := mapped s @ [f]\<rparr>)"

text \<open>The state in which \<^verbatim>\<open>MR_Run\<close> has created its workers and is about to submit the files and the entry that ends the workers.\<close>

definition MR_start :: "nat \<Rightarrow> str list \<Rightarrow> mqueue" where
  "MR_start num_mappers argv =
     \<lparr>mQueue = replicate MAXTASKS None, mapTaskCount = 0, workers = replicate num_mappers Idle,
      to_submit = map Some argv @ [None], mapped = []\<rparr>"

definition in_progress :: "mqueue \<Rightarrow> str list" where
  "in_progress s = List.map_filter (\<lambda>w. case w of Mapping f \<Rightarrow> Some f | _ \<Rightarrow> None) (workers s)"

definition queued :: "mqueue \<Rightarrow> str list" where
  "queued s = List.map_filter id (take (mapTaskCount s) (mQueue s))"

definition submitting :: "mqueue \<Rightarrow> str list" where
  "submitting s = List.map_filter id (to_submit s)"

lemma shift_queue_nth:
  "length (shift_queue c q) = length q \<and>
   (c < length q \<longrightarrow> (\<forall>j. shift_queue c q ! j = (if j < c then q ! Suc j else q ! j)))"
proof (induction c)
  case (Suc c)
  then show ?case by (auto simp: nth_list_update less_Suc_eq)
qed simp

text \<open>The files in the queue, with the entry that ends the workers behind them once it is submitted.\<close>

definition mq_inv :: "str list \<Rightarrow> mqueue \<Rightarrow> bool" where
  "mq_inv argv s \<longleftrightarrow>
     (\<exists>fs ws. let ended = (to_submit s = []) in
        mQueue s = map Some fs @ replicate (MAXTASKS - length fs) None \<and>
        mapTaskCount s = length fs + (if ended then 1 else 0) \<and>
        to_submit s = (if ended then [] else map Some ws @ [None]) \<and>
        (if ended then ws = [] else True) \<and>
        Suc (length fs + length ws) < MAXTASKS \<and>
        mset argv = mset ws + mset fs + mset (in_progress s) + mset (mapped s))"

lemma mq_invI:
  assumes "mQueue s = map Some fs @ replicate (MAXTASKS - length fs) None"
    and "mapTaskCount s = length fs + (if to_submit s = [] then 1 else 0)"
    and "to_submit s = (if to_submit s = [] then [] else map Some ws @ [None])" "to_submit s = [] \<longrightarrow> ws = []"
    and "Suc (length fs + length ws) < MAXTASKS"
    and "mset argv = mset ws + mset fs + mset (in_progress s) + mset (mapped s)"
  shows "mq_inv argv s"
  using assms unfolding mq_inv_def Let_def by metis

lemma mq_inv_same:
  assumes "mq_inv argv s" "mQueue s' = mQueue s" "mapTaskCount s' = mapTaskCount s" "to_submit s' = to_submit s"
    and "mset (in_progress s') + mset (mapped s') = mset (in_progress s) + mset (mapped s)"
  shows "mq_inv argv s'"
  using assms(1) unfolding mq_inv_def Let_def assms(2-4) add.assoc [of _ "mset (in_progress _)"] assms(5) .

lemma in_progress_update:
  assumes "w < length ws"
  shows "mset (List.map_filter f (ws[w := x])) + mset (List.map_filter f [ws ! w]) = mset (List.map_filter f ws) + mset (List.map_filter f [x])"
  using assms
proof (induction ws arbitrary: w)
  case (Cons a ws)
  then show ?case by (cases w) (auto simp: List.map_filter_simps split: option.splits)
qed simp


lemma in_progress_simps:
  assumes "w < length (workers s)"
  shows "mset (in_progress (s\<lparr>workers := (workers s)[w := x]\<rparr>)) + mset (case workers s ! w of Mapping f \<Rightarrow> [f] | _ \<Rightarrow> [])
    = mset (in_progress s) + mset (case x of Mapping f \<Rightarrow> [f] | _ \<Rightarrow> [])"
  unfolding in_progress_def
  using in_progress_update [OF assms, of "\<lambda>w. case w of Mapping f \<Rightarrow> Some f | _ \<Rightarrow> None" x]
  by (cases "workers s ! w"; cases x) (simp_all add: List.map_filter_simps)

lemma in_progress_more [simp]:
  "in_progress (s\<lparr>mQueue := q\<rparr>) = in_progress s" "in_progress (s\<lparr>mapTaskCount := c\<rparr>) = in_progress s"
  "in_progress (s\<lparr>to_submit := t\<rparr>) = in_progress s" "in_progress (s\<lparr>mapped := m\<rparr>) = in_progress s"
  by (simp_all add: in_progress_def)

lemma mq_inv_take:
  assumes "mq_inv argv s" "w < length (workers s)" "\<forall>f. workers s ! w \<noteq> Mapping f"
  shows "mq_inv argv (take_task w s)"
proof -
  obtain fs ws where q: "mQueue s = map Some fs @ replicate (MAXTASKS - length fs) None"
    and c: "mapTaskCount s = length fs + (if to_submit s = [] then 1 else 0)"
    and t: "to_submit s = (if to_submit s = [] then [] else map Some ws @ [None])" "to_submit s = [] \<longrightarrow> ws = []"
    and l: "Suc (length fs + length ws) < MAXTASKS"
    and m: "mset argv = mset ws + mset fs + mset (in_progress s) + mset (mapped s)"
    using assms(1) unfolding mq_inv_def Let_def by (auto split: if_splits)
  have quiet: "(case workers s ! w of Mapping f \<Rightarrow> [f] | _ \<Rightarrow> []) = []" using assms(3) by (simp split: worker.splits)
  note ip = in_progress_simps [OF assms(2), unfolded quiet, simplified]
  show ?thesis
  proof (cases fs)
    case Nil
    then have "mQueue s ! 0 = None" using l q by (simp add: MAXTASKS_def)
    then have tk: "take_task w s = s\<lparr>workers := (workers s)[w := Exited]\<rparr>" by (simp add: take_task_def)
    show ?thesis unfolding tk using q c t l m ip [of Exited] by (intro mq_invI [of _ fs ws]) simp_all
  next
    case (Cons f fs')
    have c0: "mapTaskCount s < length (mQueue s)" using q c l t by (auto split: if_splits)
    have "shift_queue (mapTaskCount s) (mQueue s) = map Some fs' @ replicate (MAXTASKS - length fs') None"
    proof (rule nth_equalityI)
      show "length (shift_queue (mapTaskCount s) (mQueue s)) = length (map Some fs' @ replicate (MAXTASKS - length fs') None)"
        using shift_queue_nth [of "mapTaskCount s" "mQueue s"] q l Cons by simp
      fix j assume "j < length (shift_queue (mapTaskCount s) (mQueue s))"
      then have j: "j < MAXTASKS" using shift_queue_nth [of "mapTaskCount s" "mQueue s"] q l by simp
      show "shift_queue (mapTaskCount s) (mQueue s) ! j = (map Some fs' @ replicate (MAXTASKS - length fs') None) ! j"
        using shift_queue_nth [of "mapTaskCount s" "mQueue s"] c0 q c l j
        by (auto simp: Cons nth_append split: if_splits)
    qed
    then have tk: "take_task w s = s\<lparr>mQueue := map Some fs' @ replicate (MAXTASKS - length fs') None,
        mapTaskCount := mapTaskCount s - 1, workers := (workers s)[w := Mapping f]\<rparr>"
      by (simp add: take_task_def q Cons)
    have "in_progress (take_task w s) = in_progress (s\<lparr>workers := (workers s)[w := Mapping f]\<rparr>)"
      by (simp add: tk in_progress_def)
    then have "mset argv = mset ws + mset fs' + mset (in_progress (take_task w s)) + mset (mapped (take_task w s))"
      using m ip [of "Mapping f"] by (simp add: tk Cons)
    then show ?thesis using c t l by (intro mq_invI [of _ fs' ws]) (simp_all add: tk Cons)
  qed
qed

lemma mq_inv_step: "mstep s s' \<Longrightarrow> mq_inv argv s \<Longrightarrow> mq_inv argv s'"
proof (induction rule: mstep.induct)
  case (submit s t ts)
  then obtain fs ws where q: "mQueue s = map Some fs @ replicate (MAXTASKS - length fs) None"
    and c: "mapTaskCount s = length fs" and t: "t # ts = map Some ws @ [None]"
    and l: "Suc (length fs + length ws) < MAXTASKS"
    and m: "mset argv = mset ws + mset fs + mset (in_progress s) + mset (mapped s)"
    unfolding mq_inv_def Let_def by (auto split: if_splits)
  have r: "replicate (MAXTASKS - length fs) (None :: str option) = None # replicate (MAXTASKS - Suc (length fs)) None"
    using l by (simp add: Suc_diff_Suc flip: replicate_Suc)
  then have r0: "(replicate (MAXTASKS - length fs) None)[0 := None] = replicate (MAXTASKS - length fs) (None :: str option)"
    by (metis list_update_code(2))
  show ?case
  proof (cases ws)
    case Nil
    then have "t = None" "ts = []" using t by auto
    then show ?thesis
      using q c l m Nil r0 by (intro mq_invI [of _ fs "[]"]) (simp_all add: submitMapTask_def list_update_append)
  next
    case (Cons f ws')
    then have "t = Some f" "ts = map Some ws' @ [None]" using t by auto
    then show ?thesis
      using q c l m Cons r by (intro mq_invI [of _ "fs @ [f]" ws']) (simp_all add: submitMapTask_def list_update_append)
  qed
next
  case (start w s)
  show ?case
  proof (cases "mapTaskCount s = 0")
    case True
    then have e: "start_work w s = s\<lparr>workers := (workers s)[w := Waiting]\<rparr>" by (simp add: start_work_def)
    show ?thesis unfolding e
      using in_progress_simps [OF start(1), of Waiting] by (intro mq_inv_same [OF start(3)]) (simp_all add: start(2))
  next
    case False
    then show ?thesis using mq_inv_take [OF start(3,1)] start(2) by (simp add: start_work_def)
  qed
next
  case (wake w s)
  show ?case
    using in_progress_simps [OF wake(1), of Woken] by (intro mq_inv_same [OF wake(3)]) (simp_all add: wake(2))
next
  case (resume w s)
  then show ?case using mq_inv_take [OF resume(3,1)] by simp
next
  case (finish w s f)
  have "add_mset f (mset (in_progress (s\<lparr>workers := (workers s)[w := Idle]\<rparr>))) = mset (in_progress s)"
    using in_progress_simps [OF finish(1), of Idle] by (simp add: finish(2))
  then show ?case by (intro mq_inv_same [OF finish(3)]) (simp_all flip: add_mset_add_single)
qed

lemma mq_inv_start: "Suc (length argv) < MAXTASKS \<Longrightarrow> mq_inv argv (MR_start n argv)"
  by (intro mq_invI [of _ "[]" argv]) (simp_all add: MR_start_def in_progress_def List.map_filter_def)

lemma mq_inv_reach: "mstep\<^sup>*\<^sup>* s s' \<Longrightarrow> mq_inv argv s \<Longrightarrow> mq_inv argv s'"
  by (induction rule: rtranclp_induct) (auto intro: mq_inv_step)

lemma map_filter_id_map_Some [simp]: "List.map_filter id (map Some xs) = xs"
  by (induction xs) (simp_all add: List.map_filter_simps)

lemma map_filter_append: "List.map_filter f (a @ b) = List.map_filter f a @ List.map_filter f b"
  by (simp add: List.map_filter_def)

text \<open>C37: at every moment of every interleaving of the main thread and any number of mappers, with fewer than 999 files, every file named on the
  command line is in exactly one place: still to be submitted, in the queue, being mapped by one worker, or mapped.  So no file is
  mapped twice and none is dropped from the queue, and the queue array is never exceeded.
\<close>

theorem map_tasks_conserved:
  assumes "mstep\<^sup>*\<^sup>* (MR_start num_mappers argv) s" "length argv < 999"
  shows "mset argv = mset (submitting s) + mset (queued s) + mset (in_progress s) + mset (mapped s) \<and> mapTaskCount s < 1000"
proof -
  have "mq_inv argv s" using mq_inv_reach [OF assms(1) mq_inv_start] assms(2) by (simp add: MAXTASKS_def)
  then obtain fs ws where q: "mQueue s = map Some fs @ replicate (MAXTASKS - length fs) None"
    and c: "mapTaskCount s = length fs + (if to_submit s = [] then 1 else 0)"
    and t: "to_submit s = (if to_submit s = [] then [] else map Some ws @ [None])" "to_submit s = [] \<longrightarrow> ws = []"
    and l: "Suc (length fs + length ws) < MAXTASKS"
    and m: "mset argv = mset ws + mset fs + mset (in_progress s) + mset (mapped s)"
    unfolding mq_inv_def Let_def by (auto split: if_splits)
  have "submitting s = ws"
    using t by (cases "to_submit s = []") (simp_all add: submitting_def map_filter_append List.map_filter_simps)
  moreover have "queued s = fs"
    using q c by (simp add: queued_def map_filter_append List.map_filter_simps min_def split: if_splits)
  ultimately show ?thesis using m c l by (simp add: MAXTASKS_def)
qed


lemma submit_all:
  "mapTaskCount s + length (to_submit s) \<le> MAXTASKS \<Longrightarrow>
     \<exists>s'. mstep\<^sup>*\<^sup>* s s' \<and> to_submit s' = [] \<and> workers s' = workers s \<and> mapped s' = mapped s"
proof (induction "to_submit s" arbitrary: s)
  case Nil
  then show ?case by auto
next
  case (Cons t ts)
  define s1 where "s1 = submitMapTask t (s\<lparr>to_submit := ts\<rparr>)"
  have l: "mapTaskCount s + Suc (length ts) \<le> MAXTASKS" using Cons(2,3) by (metis length_Cons)
  then have "mstep s s1" unfolding s1_def using Cons(2) by (intro mstep.submit) auto
  moreover have "ts = to_submit s1" "mapTaskCount s1 + length (to_submit s1) \<le> MAXTASKS"
    "workers s1 = workers s" "mapped s1 = mapped s"
    using l by (simp_all add: s1_def submitMapTask_def)
  ultimately show ?case using Cons(1) [of s1] by (metis converse_rtranclp_into_rtranclp)
qed

text \<open>the worker tests the queue with \<^verbatim>\<open>if\<close> and not with \<^verbatim>\<open>while\<close> around \<^verbatim>\<open>pthread_cond_wait\<close>.  When the wait of the only mapper returns before
  a file is submitted, which the interface permits, the mapper takes the empty entry at the front of the array for the end of the
  work and exits: all files are submitted, all mappers have exited, and no file has been mapped.
\<close>

theorem spurious_wakeup_loses_files:
  assumes "length argv < 999"
  shows "\<exists>s. mstep\<^sup>*\<^sup>* (MR_start 1 argv) s \<and> to_submit s = [] \<and> workers s = [Exited] \<and> mapped s = []"
proof -
  define s0 where "s0 = MR_start 1 argv"
  define s1 where "s1 = s0\<lparr>workers := [Waiting]\<rparr>"
  define s2 where "s2 = s0\<lparr>workers := [Woken]\<rparr>"
  define s3 where "s3 = s0\<lparr>workers := [Exited]\<rparr>"
  have 1: "mstep s0 s1" using mstep.start [of 0 s0] by (simp add: s0_def s1_def MR_start_def start_work_def)
  have 2: "mstep s1 s2" using mstep.wake [of 0 s1] by (simp add: s0_def s1_def s2_def MR_start_def)
  have 3: "mstep s2 s3"
    using mstep.resume [of 0 s2] by (simp add: s0_def s2_def s3_def MR_start_def take_task_def MAXTASKS_def)
  have "mapTaskCount s3 + length (to_submit s3) \<le> MAXTASKS" using assms by (simp add: s3_def s0_def MR_start_def MAXTASKS_def)
  then obtain s where "mstep\<^sup>*\<^sup>* s3 s" "to_submit s = []" "workers s = [Exited]" "mapped s = []"
    using submit_all [of s3] by (auto simp: s3_def s0_def MR_start_def)
  then show ?thesis using 1 2 3 unfolding s0_def [symmetric] by (meson converse_rtranclp_into_rtranclp)
qed

theorem spurious_wakeup_loses_files_witness:
  "\<exists>s. mstep\<^sup>*\<^sup>* (MR_start 1 [[97], [98]]) s \<and> to_submit s = [] \<and> workers s = [Exited] \<and> mapped s = []"
  by (rule spurious_wakeup_loses_files) simp

theorem map_tasks_conserved_witness:
  "mset [[97], [98]] = mset (submitting (start_work 0 (submitMapTask (Some [97]) ((MR_start 2 [[97], [98]])\<lparr>to_submit := [Some [98], None]\<rparr>))))
     + mset (queued (start_work 0 (submitMapTask (Some [97]) ((MR_start 2 [[97], [98]])\<lparr>to_submit := [Some [98], None]\<rparr>))))
     + mset (in_progress (start_work 0 (submitMapTask (Some [97]) ((MR_start 2 [[97], [98]])\<lparr>to_submit := [Some [98], None]\<rparr>))))
     + mset (mapped (start_work 0 (submitMapTask (Some [97]) ((MR_start 2 [[97], [98]])\<lparr>to_submit := [Some [98], None]\<rparr>))))"
proof -
  define s0 where "s0 = MR_start 2 [[97], [98]]"
  define s1 where "s1 = submitMapTask (Some [97]) (s0\<lparr>to_submit := [Some [98], None]\<rparr>)"
  have 1: "mstep s0 s1"
    unfolding s1_def by (rule mstep.submit) (simp_all add: s0_def MR_start_def MAXTASKS_def)
  have 2: "mstep s1 (start_work 0 s1)"
    by (rule mstep.start) (simp_all add: s1_def s0_def MR_start_def submitMapTask_def)
  have "mstep\<^sup>*\<^sup>* s0 (start_work 0 s1)" by (rule rtranclp.rtrancl_into_rtrancl [OF r_into_rtranclp [of mstep, OF 1] 2])
  then have "mstep\<^sup>*\<^sup>* (MR_start 2 [[97], [98]])
      (start_work 0 (submitMapTask (Some [97]) ((MR_start 2 [[97], [98]])\<lparr>to_submit := [Some [98], None]\<rparr>)))"
    unfolding s1_def s0_def .
  then show ?thesis by (rule map_tasks_conserved [THEN conjunct1]) simp
qed

end
