(* ===== verification/CString.thy ===== *)
theory CString
  imports Prelude
begin

unbundle bit_operations_syntax

text \<open>
  The byte and string routines of the kernel (\<^verbatim>\<open>p4/string.c\<close>) and of the user library
  (\<^verbatim>\<open>p4/ulib.c\<close>), over an explicit store of bytes: a pointer is an address, so overlapping
  arguments are visible.  A loop over a NUL-terminated string is a
  \<^theory_text>\<open>partial_function (option)\<close>: it does not return when there is no NUL.
\<close>

type_synonym mem = "nat \<Rightarrow> byte"

subsection \<open>Kernel routines\<close>

text \<open>The string instructions \<^verbatim>\<open>rep stosb\<close> and \<^verbatim>\<open>rep stosl\<close> of \<^verbatim>\<open>x86.h\<close>.\<close>

fun stosb :: "mem \<Rightarrow> nat \<Rightarrow> byte \<Rightarrow> nat \<Rightarrow> mem" where
  "stosb m addr data 0 = m"
| "stosb m addr data (Suc cnt) = stosb (m(addr := data)) (addr + 1) data cnt"

fun stosl :: "mem \<Rightarrow> nat \<Rightarrow> u32 \<Rightarrow> nat \<Rightarrow> mem" where
  "stosl m addr data 0 = m"
| "stosl m addr data (Suc cnt) =
     stosl (m(addr := ucast data, addr + 1 := ucast (drop_bit 8 data),
              addr + 2 := ucast (drop_bit 16 data), addr + 3 := ucast (drop_bit 24 data)))
       (addr + 4) data cnt"

definition memset :: "mem \<Rightarrow> nat \<Rightarrow> u32 \<Rightarrow> nat \<Rightarrow> mem" where
  "memset m dst c n =
     (if dst mod 4 = 0 \<and> n mod 4 = 0
      then let c = c AND 0xFF in
           stosl m dst (push_bit 24 c OR push_bit 16 c OR push_bit 8 c OR c) (n div 4)
      else stosb m dst (ucast c) n)"

fun memcmp :: "mem \<Rightarrow> nat \<Rightarrow> nat \<Rightarrow> nat \<Rightarrow> int" where
  "memcmp m s1 s2 0 = 0"
| "memcmp m s1 s2 (Suc n) =
     (if m s1 \<noteq> m s2 then uint (m s1) - uint (m s2) else memcmp m (s1 + 1) (s2 + 1) n)"

fun copy_down :: "mem \<Rightarrow> nat \<Rightarrow> nat \<Rightarrow> nat \<Rightarrow> mem" where
  "copy_down m d s 0 = m"
| "copy_down m d s (Suc n) = copy_down (m(d - 1 := m (s - 1))) (d - 1) (s - 1) n"

fun copy_up :: "mem \<Rightarrow> nat \<Rightarrow> nat \<Rightarrow> nat \<Rightarrow> mem" where
  "copy_up m d s 0 = m"
| "copy_up m d s (Suc n) = copy_up (m(d := m s)) (d + 1) (s + 1) n"

definition memmove :: "mem \<Rightarrow> nat \<Rightarrow> nat \<Rightarrow> nat \<Rightarrow> mem" where
  "memmove m dst src n =
     (if src < dst \<and> src + n > dst then copy_down m (dst + n) (src + n) n
      else copy_up m dst src n)"

definition memcpy :: "mem \<Rightarrow> nat \<Rightarrow> nat \<Rightarrow> nat \<Rightarrow> mem" where
  "memcpy m dst src n = memmove m dst src n"

fun strncmp :: "mem \<Rightarrow> nat \<Rightarrow> nat \<Rightarrow> nat \<Rightarrow> int" where
  "strncmp m p q 0 = 0"
| "strncmp m p q (Suc n) =
     (if m p \<noteq> 0 \<and> m p = m q then strncmp m (p + 1) (q + 1) n else uint (m p) - uint (m q))"

text \<open>The two loops of \<^verbatim>\<open>strncpy\<close>: the first returns the advanced \<^verbatim>\<open>s\<close> and what is left of \<^verbatim>\<open>n\<close>.\<close>

fun strncpy_copy :: "mem \<Rightarrow> nat \<Rightarrow> nat \<Rightarrow> nat \<Rightarrow> mem \<times> nat \<times> nat" where
  "strncpy_copy m s t 0 = (m, s, 0)"
| "strncpy_copy m s t (Suc n) =
     (let c = m t; m' = m(s := c) in
      if c \<noteq> 0 then strncpy_copy m' (s + 1) (t + 1) n else (m', s + 1, n))"

definition strncpy :: "mem \<Rightarrow> nat \<Rightarrow> nat \<Rightarrow> int \<Rightarrow> mem" where
  "strncpy m s t n = (case strncpy_copy m s t (nat n) of (m', s', r) \<Rightarrow> stosb m' s' 0 r)"

fun safestrcpy_copy :: "mem \<Rightarrow> nat \<Rightarrow> nat \<Rightarrow> nat \<Rightarrow> mem \<times> nat" where
  "safestrcpy_copy m s t 0 = (m, s)"
| "safestrcpy_copy m s t (Suc n) =
     (let c = m t; m' = m(s := c) in
      if c \<noteq> 0 then safestrcpy_copy m' (s + 1) (t + 1) n else (m', s + 1))"

definition safestrcpy :: "mem \<Rightarrow> nat \<Rightarrow> nat \<Rightarrow> int \<Rightarrow> mem" where
  "safestrcpy m s t n =
     (if n \<le> 0 then m
      else case safestrcpy_copy m s t (nat n - 1) of (m', s') \<Rightarrow> m'(s' := 0))"

partial_function (option) strlen_loop :: "mem \<Rightarrow> nat \<Rightarrow> nat \<Rightarrow> nat option" where
  "strlen_loop m s n = (if m (s + n) \<noteq> 0 then strlen_loop m s (n + 1) else Some n)"

definition strlen :: "mem \<Rightarrow> nat \<Rightarrow> nat option" where
  "strlen m s = strlen_loop m s 0"

subsection \<open>User library\<close>

partial_function (option) strcpy :: "mem \<Rightarrow> nat \<Rightarrow> nat \<Rightarrow> mem option" where
  "strcpy m s t =
     (let c = m t; m' = m(s := c) in if c \<noteq> 0 then strcpy m' (s + 1) (t + 1) else Some m')"

partial_function (option) strcmp :: "mem \<Rightarrow> nat \<Rightarrow> nat \<Rightarrow> int option" where
  "strcmp m p q =
     (if m p \<noteq> 0 \<and> m p = m q then strcmp m (p + 1) (q + 1)
      else Some (uint (m p) - uint (m q)))"

text \<open>The null pointer is \<open>None\<close> inside.\<close>

partial_function (option) strchr :: "mem \<Rightarrow> nat \<Rightarrow> byte \<Rightarrow> nat option option" where
  "strchr m s c =
     (if m s = 0 then Some None else if m s = c then Some (Some s) else strchr m (s + 1) c)"

text \<open>\<^verbatim>\<open>gets\<close> reads descriptor 0 one byte at a time; the input not yet read is a list whose end
  is end of file.\<close>

fun gets_loop :: "mem \<Rightarrow> nat \<Rightarrow> byte list \<Rightarrow> nat \<Rightarrow> nat \<Rightarrow> mem \<times> nat \<times> byte list" where
  "gets_loop m buf inp i 0 = (m, i, inp)"
| "gets_loop m buf [] i (Suc k) = (m, i, [])"
| "gets_loop m buf (c # inp) i (Suc k) =
     (let m' = m(buf + i := c) in
      if c = 10 \<or> c = 13 then (m', i + 1, inp) else gets_loop m' buf inp (i + 1) k)"

definition gets :: "mem \<Rightarrow> nat \<Rightarrow> byte list \<Rightarrow> nat \<Rightarrow> mem \<times> byte list" where
  "gets m buf inp mx = (case gets_loop m buf inp 0 (mx - 1) of (m', i, r) \<Rightarrow> (m'(buf + i := 0), r))"

definition is_digit :: "byte \<Rightarrow> bool" where
  "is_digit c \<longleftrightarrow> 48 \<le> sint c \<and> sint c \<le> 57"

partial_function (option) atoi_loop :: "mem \<Rightarrow> nat \<Rightarrow> u32 \<Rightarrow> u32 option" where
  "atoi_loop m s n =
     (if is_digit (m s) then atoi_loop m (s + 1) (n * 10 + scast (m s) - 48) else Some n)"

definition atoi :: "mem \<Rightarrow> nat \<Rightarrow> u32 option" where
  "atoi m s = atoi_loop m s 0"

text \<open>The library's own \<^verbatim>\<open>memset\<close> and \<^verbatim>\<open>memmove\<close>.\<close>

definition ulib_memset :: "mem \<Rightarrow> nat \<Rightarrow> u32 \<Rightarrow> nat \<Rightarrow> mem" where
  "ulib_memset m dst c n = stosb m dst (ucast c) n"

definition ulib_memmove :: "mem \<Rightarrow> nat \<Rightarrow> nat \<Rightarrow> int \<Rightarrow> mem" where
  "ulib_memmove m vdst vsrc n = copy_up m vdst vsrc (nat n)"

subsection \<open>Filling and moving\<close>

definition filled :: "mem \<Rightarrow> nat \<Rightarrow> byte \<Rightarrow> nat \<Rightarrow> mem" where
  "filled m dst c n = (\<lambda>a. if dst \<le> a \<and> a < dst + n then c else m a)"

lemma filled_0: "filled m dst c 0 = m"
  by (rule ext) (auto simp: filled_def)

lemma stosb_fills: "stosb m dst c n = filled m dst c n"
proof (induction n arbitrary: m dst)
  case (Suc n)
  show ?case unfolding stosb.simps Suc.IH by (rule ext) (auto simp: filled_def)
qed (simp add: filled_0)

lemma spread_byte:
  fixes c :: u32
  defines "b \<equiv> c AND 0xFF"
  defines "w \<equiv> push_bit 24 b OR push_bit 16 b OR push_bit 8 b OR b"
  shows "ucast w = (ucast c :: byte)" "ucast (drop_bit 8 w) = (ucast c :: byte)"
    "ucast (drop_bit 16 w) = (ucast c :: byte)" "ucast (drop_bit 24 w) = (ucast c :: byte)"
proof -
  have b: "bit b n \<longleftrightarrow> bit c n \<and> n < 8" for n
  proof -
    have "(0xFF :: u32) = mask 8" by (simp add: mask_eq_exp_minus_1)
    then have "b = take_bit 8 c" by (simp only: b_def take_bit_eq_mask)
    then show ?thesis by (auto simp: bit_simps)
  qed
  show "ucast w = (ucast c :: byte)" "ucast (drop_bit 8 w) = (ucast c :: byte)"
    "ucast (drop_bit 16 w) = (ucast c :: byte)" "ucast (drop_bit 24 w) = (ucast c :: byte)"
    by (rule bit_word_eqI, auto simp: w_def bit_simps b)+
qed

lemma stosl_fills:
  assumes "ucast w = b" "ucast (drop_bit 8 w) = b" "ucast (drop_bit 16 w) = b" "ucast (drop_bit 24 w) = b"
  shows "stosl m dst w n = filled m dst b (4 * n)"
proof (induction n arbitrary: m dst)
  case (Suc n)
  show ?case unfolding stosl.simps Suc.IH by (rule ext) (use assms in \<open>auto simp: filled_def\<close>)
qed (simp add: filled_0)

text \<open>\<^verbatim>\<open>memset\<close> stores the low byte of its argument to exactly the \<^verbatim>\<open>n\<close> bytes at
  \<^verbatim>\<open>dst\<close>, on the word-wise path for aligned runs as on the byte-wise one.\<close>

theorem memset_fills: "memset m dst c n = filled m dst (ucast c) n"
proof (cases "dst mod 4 = 0 \<and> n mod 4 = 0")
  case True
  then show ?thesis
    using stosl_fills [OF spread_byte, of m dst c "n div 4"]
    by (auto simp: memset_def Let_def)
next
  case False
  then show ?thesis by (auto simp: memset_def stosb_fills)
qed

definition moved :: "mem \<Rightarrow> nat \<Rightarrow> nat \<Rightarrow> nat \<Rightarrow> mem" where
  "moved m dst src n = (\<lambda>a. if dst \<le> a \<and> a < dst + n then m (src + (a - dst)) else m a)"

lemma moved_0: "moved m dst src 0 = m"
  by (rule ext) (auto simp: moved_def)

lemma copy_up_moves:
  "dst \<le> src \<or> src + n \<le> dst \<Longrightarrow> copy_up m dst src n = moved m dst src n"
proof (induction n arbitrary: m dst src)
  case (Suc n)
  have "copy_up (m(dst := m src)) (dst + 1) (src + 1) n = moved (m(dst := m src)) (dst + 1) (src + 1) n"
    by (rule Suc.IH) (use Suc.prems in auto)
  then have "copy_up m dst src (Suc n) = moved (m(dst := m src)) (dst + 1) (src + 1) n" by simp
  also have "\<dots> = moved m dst src (Suc n)"
  proof
    fix a
    show "moved (m(dst := m src)) (dst + 1) (src + 1) n a = moved m dst src (Suc n) a"
    proof (cases "dst < a \<and> a < dst + Suc n")
      case True
      then obtain k where "a = Suc (dst + k)" using less_iff_Suc_add by blast
      with Suc.prems True show ?thesis by (auto simp: moved_def)
    next
      case False
      then show ?thesis by (auto simp: moved_def)
    qed
  qed
  finally show ?case .
qed (simp add: moved_0)

lemma copy_down_moves:
  "src < dst \<Longrightarrow> copy_down m (dst + n) (src + n) n = moved m dst src n"
proof (induction n arbitrary: m)
  case (Suc n)
  have "copy_down m (dst + Suc n) (src + Suc n) (Suc n)
      = copy_down (m(dst + n := m (src + n))) (dst + n) (src + n) n" by simp
  also have "\<dots> = moved (m(dst + n := m (src + n))) dst src n" using Suc by simp
  also have "\<dots> = moved m dst src (Suc n)"
  proof
    fix a
    show "moved (m(dst + n := m (src + n))) dst src n a = moved m dst src (Suc n) a"
      using Suc.prems by (cases "a = dst + n") (auto simp: moved_def)
  qed
  finally show ?case .
qed (simp add: moved_0)

text \<open>\<^verbatim>\<open>memmove\<close> leaves at \<^verbatim>\<open>dst\<close> what \<^verbatim>\<open>src\<close> held before the call, however the two
  ranges overlap, and changes no other byte.\<close>

theorem memmove_moves: "memmove m dst src n = moved m dst src n"
  using copy_down_moves [of src dst m n] copy_up_moves [of dst src n m]
  by (auto simp: memmove_def)

text \<open>The user library's version copies upwards only, so it needs disjoint or downward moves.\<close>

lemma ulib_memmove_moves:
  "dst \<le> src \<or> src + nat n \<le> dst \<Longrightarrow> ulib_memmove m dst src n = moved m dst src (nat n)"
  by (simp add: ulib_memmove_def copy_up_moves)

lemma ulib_memmove_overlap:
  "ulib_memmove (\<lambda>a. if a = 0 then 7 else 0) 1 0 2 2 \<noteq> moved (\<lambda>a. if a = 0 then 7 else 0) 1 0 2 2"
  by code_simp

subsection \<open>Strings in memory\<close>

text \<open>The string \<open>s\<close>, without NUL, stands at address \<open>p\<close> and is followed by a NUL.\<close>

definition cstr :: "mem \<Rightarrow> nat \<Rightarrow> byte list \<Rightarrow> bool" where
  "cstr m p s \<longleftrightarrow> (\<forall>i < length s. m (p + i) = s ! i \<and> s ! i \<noteq> 0) \<and> m (p + length s) = 0"

lemma cstr_Nil [simp]: "cstr m p [] \<longleftrightarrow> m p = 0"
  by (simp add: cstr_def)

lemma cstr_Cons: "cstr m p (c # s) \<longleftrightarrow> m p = c \<and> c \<noteq> 0 \<and> cstr m (p + 1) s"
  by (auto simp: cstr_def All_less_Suc2)

lemma strlen_loop_cstr:
  "cstr m (p + n) s \<Longrightarrow> strlen_loop m p n = Some (n + length s)"
proof (induction s arbitrary: n)
  case Nil
  then show ?case by (simp add: strlen_loop.simps)
next
  case (Cons c s)
  then have "strlen_loop m p (n + 1) = Some (n + 1 + length s)" by (intro Cons.IH) (simp add: cstr_Cons add.assoc)
  with Cons.prems show ?case by (subst strlen_loop.simps) (simp add: cstr_Cons)
qed

lemma strlen_cstr: "cstr m p s \<Longrightarrow> strlen m p = Some (length s)"
  using strlen_loop_cstr [of m p 0 s] by (simp add: strlen_def)

text \<open>The comparison of two strings as unsigned bytes, the shorter one padded with its NUL.\<close>

fun compare :: "byte list \<Rightarrow> byte list \<Rightarrow> int" where
  "compare [] [] = 0"
| "compare [] (d # q) = - uint d"
| "compare (c # p) [] = uint c"
| "compare (c # p) (d # q) = (if c = d then compare p q else uint c - uint d)"

lemma strcmp_cstr: "cstr m p s \<Longrightarrow> cstr m q t \<Longrightarrow> strcmp m p q = Some (compare s t)"
proof (induction s t arbitrary: p q rule: compare.induct)
  case (4 c s d t)
  then show ?case by (subst strcmp.simps) (auto simp: cstr_Cons)
qed (subst strcmp.simps, auto simp: cstr_Cons)+

lemma compare_eq_0: "0 \<notin> set s \<Longrightarrow> 0 \<notin> set t \<Longrightarrow> compare s t = 0 \<longleftrightarrow> s = t"
proof (induction s t rule: compare.induct)
  case (4 c s d t)
  have "uint c - uint d = 0 \<longleftrightarrow> c = d" by (simp add: word_uint_eq_iff)
  with 4 show ?case by auto
qed (auto simp: unsigned_eq_0_iff)

lemma cstr_nonzero: "cstr m p s \<Longrightarrow> 0 \<notin> set s"
  by (auto simp: cstr_def in_set_conv_nth)

lemma strncmp_cstr:
  "cstr m p s \<Longrightarrow> cstr m q t \<Longrightarrow> strncmp m p q n = compare (take n s) (take n t)"
proof (induction n arbitrary: p q s t)
  case (Suc n)
  then show ?case
    by (cases s; cases t) (auto simp: cstr_Cons)
qed simp

text \<open>on two NUL-terminated strings \<^verbatim>\<open>strcmp\<close> returns, and returns 0 exactly when they are
  the same string; \<^verbatim>\<open>strncmp\<close> returns 0 exactly when their first \<^verbatim>\<open>n\<close> characters are.\<close>

theorem strcmp_decides_equality:
  assumes "cstr m p s" "cstr m q t"
  shows "\<exists>r. strcmp m p q = Some r \<and> (r = 0 \<longleftrightarrow> s = t) \<and> (strncmp m p q n = 0 \<longleftrightarrow> take n s = take n t)"
proof -
  have nz: "0 \<notin> set s" "0 \<notin> set t" using assms by (auto dest: cstr_nonzero)
  then have "0 \<notin> set (take n s)" "0 \<notin> set (take n t)" by (auto dest: in_set_takeD)
  with nz show ?thesis
    by (simp add: strcmp_cstr [OF assms] strncmp_cstr [OF assms] compare_eq_0)
qed

definition sample_mem :: mem where
  "sample_mem = (\<lambda>a. if a < 6 then [97, 98, 0, 97, 99, 0] ! a else 0)"

theorem strcmp_decides_equality_witness:
  "\<exists>r. strcmp sample_mem 0 3 = Some r \<and> r \<noteq> 0 \<and> strncmp sample_mem 0 3 1 = 0"
proof -
  have "cstr sample_mem 0 [97, 98]" "cstr sample_mem 3 [97, 99]"
    by (simp_all add: cstr_Cons sample_mem_def)
  from strcmp_decides_equality [OF this, of 1] show ?thesis by auto
qed

subsection \<open>Bounded copies\<close>

text \<open>\<^verbatim>\<open>strncpy\<close> into a field of \<open>n\<close> bytes.\<close>

definition field_of :: "nat \<Rightarrow> byte list \<Rightarrow> byte list" where
  "field_of n s = take n (s @ replicate n 0)"

lemma length_field_of [simp]: "length (field_of n s) = n"
  by (simp add: field_of_def)

definition stored :: "mem \<Rightarrow> nat \<Rightarrow> byte list \<Rightarrow> mem" where
  "stored m p bs = (\<lambda>a. if p \<le> a \<and> a < p + length bs then bs ! (a - p) else m a)"

lemma stored_Cons: "stored m p (b # bs) = stored (m(p := b)) (p + 1) bs"
proof
  fix a
  show "stored m p (b # bs) a = stored (m(p := b)) (p + 1) bs a"
  proof (cases "p < a")
    case True
    then obtain k where "a = Suc (p + k)" using less_iff_Suc_add by blast
    then show ?thesis by (simp add: stored_def)
  next
    case False
    then show ?thesis by (auto simp: stored_def)
  qed
qed

lemma stored_Nil [simp]: "stored m p [] = m"
  by (rule ext) (auto simp: stored_def)

lemma filled_stored: "filled m p 0 n = stored m p (replicate n 0)"
  by (rule ext) (auto simp: filled_def stored_def)

lemma cstr_upd: "cstr m p s \<Longrightarrow> a < p \<or> p + length s < a \<Longrightarrow> cstr (m(a := c)) p s"
  by (auto simp: cstr_def)

lemma strncpy_copy_field:
  assumes "cstr m t str" "s + n \<le> t \<or> t + length str < s"
  shows "(case strncpy_copy m s t n of (m', s', r) \<Rightarrow> stosb m' s' 0 r) = stored m s (field_of n str)"
  using assms
proof (induction n arbitrary: m s t str)
  case 0
  then show ?case by (simp add: field_of_def)
next
  case (Suc n)
  show ?case
  proof (cases str)
    case Nil
    with Suc.prems show ?thesis
      by (simp add: field_of_def stosb_fills filled_stored stored_Cons)
  next
    case (Cons c r)
    then have c: "m t = c" "c \<noteq> 0" "cstr m (t + 1) r" using Suc.prems(1) by (auto simp: cstr_Cons)
    have r: "cstr (m(s := c)) (t + 1) r"
      by (rule cstr_upd [OF c(3)]) (use Suc.prems(2) Cons in auto)
    have "(case strncpy_copy (m(s := c)) (s + 1) (t + 1) n of (m', s', r) \<Rightarrow> stosb m' s' 0 r)
        = stored (m(s := c)) (s + 1) (field_of n r)"
      by (rule Suc.IH [OF r]) (use Suc.prems(2) Cons in auto)
    moreover have "field_of (Suc n) str = c # field_of n r"
      by (simp add: Cons field_of_def replicate_append_same [symmetric])
    ultimately show ?thesis using c by (simp add: Let_def stored_Cons)
  qed
qed

text \<open>The part of the string that fits, as \<^verbatim>\<open>safestrcpy\<close> stores it, with its NUL.\<close>

lemma safestrcpy_copy_stores:
  assumes "cstr m t str" "s + n + 1 \<le> t \<or> t + length str < s"
  shows "(case safestrcpy_copy m s t n of (m', s') \<Rightarrow> m'(s' := 0))
    = (if n \<le> length str then stored m s (take n str @ [0]) else stored m s (str @ [0, 0]))"
  using assms
proof (induction n arbitrary: m s t str)
  case 0
  then show ?case by (simp add: stored_Cons)
next
  case (Suc n)
  show ?case
  proof (cases str)
    case Nil
    with Suc.prems show ?thesis by (simp add: stored_Cons)
  next
    case (Cons c r)
    then have c: "m t = c" "c \<noteq> 0" "cstr m (t + 1) r" using Suc.prems(1) by (auto simp: cstr_Cons)
    have r: "cstr (m(s := c)) (t + 1) r"
      by (rule cstr_upd [OF c(3)]) (use Suc.prems(2) Cons in auto)
    have "(case safestrcpy_copy (m(s := c)) (s + 1) (t + 1) n of (m', s') \<Rightarrow> m'(s' := 0))
        = (if n \<le> length r then stored (m(s := c)) (s + 1) (take n r @ [0])
           else stored (m(s := c)) (s + 1) (r @ [0, 0]))"
      by (rule Suc.IH [OF r]) (use Suc.prems(2) Cons in auto)
    then show ?thesis
      using c by (cases "safestrcpy_copy (m(s := c)) (s + 1) (t + 1) n") (simp add: Let_def stored_Cons Cons fun_upd_def)
  qed
qed

text \<open>\<^verbatim>\<open>safestrcpy\<close> of a string into a buffer of \<open>n > 0\<close> bytes that it does not overlap leaves
  a NUL-terminated string in the buffer, the longest prefix of the source that fits, and
  writes no byte outside the buffer; \<^verbatim>\<open>strncpy\<close> leaves the first \<open>n\<close> characters padded with
  NULs.\<close>

theorem bounded_copies:
  assumes "cstr m t str" "s + nat n \<le> t \<or> t + length str < s" "0 < n"
  shows "cstr (safestrcpy m s t n) s (take (nat n - 1) str)
    \<and> (\<forall>a. a < s \<or> s + nat n \<le> a \<longrightarrow> safestrcpy m s t n a = m a)
    \<and> strncpy m s t n = stored m s (field_of (nat n) str)"
proof -
  let ?k = "nat n - 1"
  have k: "nat n = Suc ?k" using assms(3) by simp
  have sc: "safestrcpy m s t n
      = (if ?k \<le> length str then stored m s (take ?k str @ [0]) else stored m s (str @ [0, 0]))"
    using safestrcpy_copy_stores [OF assms(1), of s ?k] assms(2,3) k by (simp add: safestrcpy_def)
  have nz: "0 \<notin> set str" by (rule cstr_nonzero [OF assms(1)])
  have "cstr (safestrcpy m s t n) s (take ?k str)"
    unfolding sc cstr_def stored_def
    using nz by (auto simp: nth_append in_set_conv_nth min_def)
  moreover have "safestrcpy m s t n a = m a" if "a < s \<or> s + nat n \<le> a" for a
    unfolding sc stored_def using that k by (auto simp: nth_append)
  moreover have "strncpy m s t n = stored m s (field_of (nat n) str)"
    using strncpy_copy_field [OF assms(1,2)] by (simp add: strncpy_def)
  ultimately show ?thesis by blast
qed

theorem bounded_copies_witness: "cstr (safestrcpy sample_mem 8 0 2) 8 [97]"
proof -
  have "cstr sample_mem 0 [97, 98]"
    by (simp add: cstr_Cons sample_mem_def)
  from bounded_copies [OF this, of 8 2] show ?thesis by simp
qed

end
