(* ===== verification/Printf.thy ===== *)
theory Printf
  imports CString
begin

text \<open>
  Formatted output of the user library, \<^verbatim>\<open>p4/printf.c\<close>.  The result is the list of bytes
  handed to \<^verbatim>\<open>write\<close>, one per \<^verbatim>\<open>putc\<close>; \<open>None\<close> is a call that does not return.  The variable
  arguments are the stack words from \<^verbatim>\<open>&fmt + 1\<close> on, a function of their position.
\<close>

definition digits :: "byte list" where
  "digits = [48, 49, 50, 51, 52, 53, 54, 55, 56, 57, 65, 66, 67, 68, 69, 70]"

text \<open>The \<^verbatim>\<open>do while\<close> loop: the contents of \<^verbatim>\<open>buf\<close>, least significant digit first.\<close>

partial_function (option) digit_loop :: "nat \<Rightarrow> nat \<Rightarrow> byte list \<Rightarrow> byte list option" where
  "digit_loop base x buf =
     (let buf = buf @ [digits ! (x mod base)]; x = x div base in
      if x \<noteq> 0 then digit_loop base x buf else Some buf)"

definition printint :: "u32 \<Rightarrow> nat \<Rightarrow> bool \<Rightarrow> byte list option" where
  "printint xx base sg =
     (let neg = (sg \<and> sint xx < 0);
          x = (if neg then - xx else xx)
      in map_option (\<lambda>buf. rev (if neg then buf @ [45] else buf)) (digit_loop base (unat x) []))"

partial_function (option) puts_loop :: "mem \<Rightarrow> nat \<Rightarrow> byte list \<Rightarrow> byte list option" where
  "puts_loop m s out = (if m s \<noteq> 0 then puts_loop m (s + 1) (out @ [m s]) else Some out)"

definition null_text :: "byte list" where
  "null_text = [40, 110, 117, 108, 108, 41]"

text \<open>One conversion: what is printed for the character after \<^verbatim>\<open>%\<close>, and whether it
  takes an argument.\<close>

definition convert :: "mem \<Rightarrow> u32 \<Rightarrow> byte \<Rightarrow> (byte list \<times> bool) option" where
  "convert m arg c =
     (if c = 100 then map_option (\<lambda>o'. (o', True)) (printint arg 10 True)
      else if c = 120 \<or> c = 112 then map_option (\<lambda>o'. (o', True)) (printint arg 16 False)
      else if c = 115
      then (if arg = 0 then Some (null_text, True)
            else map_option (\<lambda>o'. (o', True)) (puts_loop m (unat arg) []))
      else if c = 99 then Some ([ucast arg], True)
      else if c = 37 then Some ([c], False)
      else Some ([37, c], False))"

text \<open>The loop over the format, given as the characters before its NUL.\<close>

fun printf_loop :: "mem \<Rightarrow> (nat \<Rightarrow> u32) \<Rightarrow> byte list \<Rightarrow> bool \<Rightarrow> nat \<Rightarrow> byte list option" where
  "printf_loop m args [] state ap = Some []"
| "printf_loop m args (c # fmt) False ap =
     (if c = 37 then printf_loop m args fmt True ap
      else map_option ((#) c) (printf_loop m args fmt False ap))"
| "printf_loop m args (c # fmt) True ap =
     (case convert m (args ap) c of
        None \<Rightarrow> None
      | Some (out, used) \<Rightarrow>
          map_option ((@) out) (printf_loop m args fmt False (if used then Suc ap else ap)))"

definition printf :: "mem \<Rightarrow> byte list \<Rightarrow> (nat \<Rightarrow> u32) \<Rightarrow> byte list option" where
  "printf m fmt args = printf_loop m args fmt False 0"

subsection \<open>Digits\<close>

text \<open>The digits of a number, most significant first.\<close>

function numeral_of :: "nat \<Rightarrow> nat \<Rightarrow> nat list" where
  "numeral_of base x = (if base < 2 \<or> x < base then [x] else numeral_of base (x div base) @ [x mod base])"
  by auto
termination by (relation "measure snd") auto

declare numeral_of.simps [simp del]

lemma numeral_of_small: "x < base \<Longrightarrow> numeral_of base x = [x]"
  by (simp add: numeral_of.simps)

lemma numeral_of_step:
  "2 \<le> base \<Longrightarrow> base \<le> x \<Longrightarrow> numeral_of base x = numeral_of base (x div base) @ [x mod base]"
  by (subst numeral_of.simps) simp

lemma numeral_of_digits: "2 \<le> base \<Longrightarrow> d \<in> set (numeral_of base x) \<Longrightarrow> d < base"
proof (induction base x arbitrary: d rule: numeral_of.induct)
  case (1 base x)
  show ?case
  proof (cases "x < base")
    case True
    then show ?thesis using "1.prems" by (simp add: numeral_of_small)
  next
    case False
    then have "d \<in> set (numeral_of base (x div base)) \<or> d = x mod base"
      using "1.prems" by (auto simp: numeral_of_step)
    then show ?thesis
    proof
      assume "d \<in> set (numeral_of base (x div base))"
      then show ?thesis by (rule "1.IH" [rotated 2]) (use "1.prems" False in auto)
    next
      assume "d = x mod base"
      then show ?thesis using "1.prems"(1) by simp
    qed
  qed
qed

lemma digit_loop_numeral:
  "2 \<le> base \<Longrightarrow> digit_loop base x buf = Some (buf @ map ((!) digits) (rev (numeral_of base x)))"
proof (induction base x arbitrary: buf rule: numeral_of.induct)
  case (1 base x)
  show ?case
  proof (cases "x < base")
    case True
    then show ?thesis by (subst digit_loop.simps) (simp add: Let_def numeral_of_small)
  next
    case False
    then have ne: "x div base \<noteq> 0" using "1.prems" by (simp add: div_eq_0_iff)
    have "digit_loop base (x div base) (buf @ [digits ! (x mod base)])
        = Some ((buf @ [digits ! (x mod base)]) @ map ((!) digits) (rev (numeral_of base (x div base))))"
      by (rule "1.IH") (use "1.prems" False in auto)
    then show ?thesis
      using ne False "1.prems" by (subst digit_loop.simps) (simp add: Let_def numeral_of_step)
  qed
qed

lemma printint_numeral:
  assumes "2 \<le> base"
  shows "printint xx base sg =
    Some (if sg \<and> sint xx < 0 then 45 # map ((!) digits) (numeral_of base (unat (- xx)))
          else map ((!) digits) (numeral_of base (unat xx)))"
  by (simp add: printint_def Let_def digit_loop_numeral [OF assms] rev_map)

lemma length_numeral_of:
  "2 \<le> base \<Longrightarrow> x < base ^ Suc n \<Longrightarrow> length (numeral_of base x) \<le> Suc n"
proof (induction n arbitrary: x)
  case 0
  then show ?case by (simp add: numeral_of_small)
next
  case (Suc n)
  show ?case
  proof (cases "x < base")
    case True
    then show ?thesis by (simp add: numeral_of_small)
  next
    case False
    have "x div base < base ^ Suc n"
      using Suc.prems by (simp add: less_mult_imp_div_less mult.commute)
    with Suc False show ?thesis by (simp add: numeral_of_step)
  qed
qed

text \<open>\<^verbatim>\<open>printint\<close> returns in both bases \<^verbatim>\<open>printf\<close> uses, and what it stores fits the 16
  bytes of its local buffer: at least one and at most 11 characters.\<close>

theorem printint_fits_buffer:
  assumes "base = 10 \<or> base = 16"
  shows "\<exists>out. printint xx base sg = Some out \<and> 0 < length out \<and> length out \<le> 11"
proof -
  have b: "2 \<le> base" using assms by auto
  have len: "length (numeral_of base (unat w)) \<le> 10" for w :: u32
  proof -
    have "unat w < 2 ^ 32" using unsigned_less [of w] by simp
    also have "(2::nat) ^ 32 \<le> base ^ Suc 9" using assms by auto
    finally show ?thesis using length_numeral_of [OF b, of "unat w" 9] by simp
  qed
  have "numeral_of base x \<noteq> []" for x
    by (subst numeral_of.simps) simp
  then show ?thesis
    using len [of xx] len [of "- xx"] unfolding printint_numeral [OF b] by auto
qed

theorem printint_fits_buffer_witness: "\<exists>out. printint (- 2147483648) 10 True = Some out \<and> length out \<le> 11"
  using printint_fits_buffer [of 10 "- 2147483648" True] by auto

text \<open>Reading the decimal digits back with \<^verbatim>\<open>atoi\<close>.\<close>

lemma atoi_loop_digits:
  assumes "cstr m p (map ((!) digits) ds)" "\<forall>d \<in> set ds. d < 10"
  shows "atoi_loop m p n = Some (foldl (\<lambda>n d. n * 10 + of_nat d) n ds)"
  using assms
proof (induction ds arbitrary: p n)
  case Nil
  then show ?case by (subst atoi_loop.simps) (simp add: is_digit_def)
next
  case (Cons d ds)
  have c: "m p = digits ! d" "cstr m (p + 1) (map ((!) digits) ds)" "d < 10"
    using Cons.prems by (auto simp: cstr_Cons)
  have dg: "is_digit (digits ! d) \<and> scast (digits ! d) - 48 = (of_nat d :: u32)"
  proof -
    have "\<forall>d \<in> {..<10}. is_digit (digits ! d) \<and> scast (digits ! d) - 48 = (of_nat d :: u32)"
      by (simp add: lessThan_nat_numeral lessThan_Suc digits_def is_digit_def)
    with c(3) show ?thesis by auto
  qed
  then have e: "n * 10 + scast (digits ! d) - 48 = n * 10 + (of_nat d :: u32)"
    by (metis add_diff_eq)
  with Cons.IH [OF c(2), of "n * 10 + of_nat d"] Cons.prems(2) c(1) dg show ?case
    by (subst atoi_loop.simps) (simp add: e)
qed

lemma foldl_numeral_of:
  "2 \<le> base \<Longrightarrow> foldl (\<lambda>n d. n * of_nat base + of_nat d) (0 :: u32) (numeral_of base x) = of_nat x"
proof (induction base x rule: numeral_of.induct)
  case (1 base x)
  show ?case
  proof (cases "x < base")
    case True
    then show ?thesis by (simp add: numeral_of_small)
  next
    case False
    with 1 show ?thesis
      by (simp add: numeral_of_step) (metis div_mult_mod_eq of_nat_add of_nat_mult)
  qed
qed

text \<open>the decimal text \<^verbatim>\<open>printint\<close> prints for a non-negative integer, stored as a C string, is
  read back by \<^verbatim>\<open>atoi\<close> as that integer.\<close>

theorem atoi_printint:
  assumes "printint xx 10 True = Some out" "0 \<le> sint xx" "cstr m p out"
  shows "atoi m p = Some xx"
proof -
  have out: "out = map ((!) digits) (numeral_of 10 (unat xx))"
    using assms(1,2) printint_numeral [of 10 xx True] by simp
  have "atoi_loop m p 0 = Some (foldl (\<lambda>n d. n * 10 + of_nat d) 0 (numeral_of 10 (unat xx)))"
    by (rule atoi_loop_digits) (use assms(3) out numeral_of_digits [of 10] in auto)
  then show ?thesis using foldl_numeral_of [of 10 "unat xx"] by (simp add: atoi_def)
qed

definition text_mem :: "byte list \<Rightarrow> mem" where
  "text_mem bs = (\<lambda>a. if a < length bs then bs ! a else 0)"

theorem atoi_printint_witness:
  "printint 42 10 True = Some [52, 50] \<and> atoi (text_mem [52, 50]) 0 = Some 42"
proof -
  have o: "printint 42 10 True = Some [52, 50]"
    unfolding printint_numeral [of 10, simplified]
    by (simp add: numeral_of_step numeral_of_small digits_def)
  moreover have "cstr (text_mem [52, 50]) 0 [52, 50]" by (simp add: cstr_Cons text_mem_def)
  ultimately show ?thesis using atoi_printint [OF o, of "text_mem [52, 50]" 0] by simp
qed

lemma printf_plain: "37 \<notin> set fmt \<Longrightarrow> printf m fmt args = Some fmt"
proof -
  have "37 \<notin> set fmt \<Longrightarrow> printf_loop m args fmt False ap = Some fmt" for ap
    by (induction fmt) auto
  then show "37 \<notin> set fmt \<Longrightarrow> printf m fmt args = Some fmt" by (simp add: printf_def)
qed

lemma puts_loop_cstr: "cstr m p s \<Longrightarrow> puts_loop m p out = Some (out @ s)"
proof (induction s arbitrary: p out)
  case Nil
  then show ?case by (subst puts_loop.simps) simp
next
  case (Cons c s)
  then show ?case by (subst puts_loop.simps) (simp add: cstr_Cons)
qed

text \<open>\<^verbatim>\<open>printf\<close> returns on every format and every argument list whose \<^verbatim>\<open>%s\<close> arguments are null or
  NUL-terminated strings.\<close>

theorem printf_returns:
  assumes "\<And>k. args k = 0 \<or> (\<exists>s. cstr m (unat (args k)) s)"
  shows "\<exists>out. printf m fmt args = Some out"
proof -
  have conv: "\<exists>r. convert m (args k) c = Some r" for k c
    using assms [of k] printint_numeral [of 10] printint_numeral [of 16] puts_loop_cstr [of m]
    by (auto simp: convert_def)
  have "\<exists>out. printf_loop m args fmt st ap = Some out" for st ap
  proof (induction fmt arbitrary: st ap)
    case (Cons c fmt)
    show ?case
    proof (cases st)
      case True
      obtain out used where "convert m (args ap) c = Some (out, used)" using conv by fastforce
      with True Cons.IH [of False "if used then Suc ap else ap"] show ?thesis by auto
    next
      case False
      with Cons.IH [of True ap] Cons.IH [of False ap] show ?thesis by auto
    qed
  qed simp
  then show ?thesis by (simp add: printf_def)
qed

theorem printf_returns_witness: "\<exists>out. printf (text_mem [97]) [37, 115, 37, 100] (\<lambda>k. 0) = Some out"
  by (rule printf_returns) simp

end
