(* ===== verification/Locks.thy ===== *)
theory Locks
  imports Prelude
begin

text \<open>
  The locks of the xv6 kernel: \<^verbatim>\<open>p4/spinlock.c\<close> and \<^verbatim>\<open>p4/sleeplock.c\<close>.  A processor is the
  part of \<^verbatim>\<open>struct cpu\<close> the lock code uses together with the interrupt flag of its
  \<^verbatim>\<open>eflags\<close> register.  The sequential definitions give what one call does when no other
  processor interferes; the step relation at the end interleaves the atomic instructions of
  \<^verbatim>\<open>acquire\<close> and \<^verbatim>\<open>release\<close> of any number of processors on one lock.
\<close>

subsection \<open>Processors and interrupts\<close>

record cpu =
  ncli :: int
  intena :: bool
  eif :: bool

definition pushcli :: "cpu \<Rightarrow> cpu" where
  "pushcli c = c\<lparr>eif := False,
      intena := (if ncli c = 0 then eif c else intena c),
      ncli := ncli c + 1\<rparr>"

definition popcli :: "cpu \<Rightarrow> cpu outcome" where
  "popcli c =
     (if eif c then Panic ''popcli - interruptible''
      else let n = ncli c - 1 in
           if n < 0 then Panic ''popcli''
           else Ok (c\<lparr>ncli := n, eif := (n = 0 \<and> intena c)\<rparr>))"

subsection \<open>Spin locks\<close>

record spinlock =
  sl_locked :: bool
  sl_name :: string
  sl_cpu :: "nat option"
  sl_pcs :: "u32 list"

definition initlock :: "spinlock \<Rightarrow> string \<Rightarrow> spinlock" where
  "initlock lk name = lk\<lparr>sl_name := name, sl_locked := False, sl_cpu := None\<rparr>"

definition KERNBASE :: u32 where
  "KERNBASE = 0x80000000"

text \<open>The walk along the saved frame pointers; \<open>mem\<close> is the word a kernel address holds.\<close>

fun getcallerpcs_loop :: "(u32 \<Rightarrow> u32) \<Rightarrow> nat \<Rightarrow> u32 \<Rightarrow> u32 list" where
  "getcallerpcs_loop mem 0 ebp = []"
| "getcallerpcs_loop mem (Suc n) ebp =
     (if ebp = 0 \<or> ebp < KERNBASE \<or> ebp = 0xffffffff then replicate (Suc n) 0
      else mem (ebp + 4) # getcallerpcs_loop mem n (mem ebp))"

definition getcallerpcs :: "(u32 \<Rightarrow> u32) \<Rightarrow> u32 \<Rightarrow> u32 list" where
  "getcallerpcs mem v = getcallerpcs_loop mem 10 (v - 8)"

definition holding :: "nat \<Rightarrow> spinlock \<Rightarrow> cpu \<Rightarrow> (bool \<times> cpu) outcome" where
  "holding me lk c =
     (let c1 = pushcli c; r = (sl_locked lk \<and> sl_cpu lk = Some me)
      in and_then (popcli c1) (\<lambda>c2. Ok (r, c2)))"

text \<open>\<open>pcs\<close> is the call stack that \<^verbatim>\<open>getcallerpcs\<close> records.\<close>

definition acquire :: "nat \<Rightarrow> u32 list \<Rightarrow> spinlock \<Rightarrow> cpu \<Rightarrow> (spinlock \<times> cpu) outcome" where
  "acquire me pcs lk c =
     and_then (holding me lk (pushcli c)) (\<lambda>(h, c2).
       if h then Panic ''acquire''
       else if sl_locked lk then Wait
       else Ok (lk\<lparr>sl_locked := True, sl_cpu := Some me, sl_pcs := pcs\<rparr>, c2))"

definition release :: "nat \<Rightarrow> spinlock \<Rightarrow> cpu \<Rightarrow> (spinlock \<times> cpu) outcome" where
  "release me lk c =
     and_then (holding me lk c) (\<lambda>(h, c1).
       if \<not> h then Panic ''release''
       else and_then (popcli c1) (\<lambda>c2.
         Ok (lk\<lparr>sl_pcs := (sl_pcs lk)[0 := 0], sl_cpu := None, sl_locked := False\<rparr>, c2)))"

subsection \<open>Sleep locks\<close>

text \<open>The inner spin lock only makes each operation atomic.  \<open>acquiresleep\<close> waits while the
  lock is taken; \<open>releasesleep\<close> also wakes the sleepers on the lock's channel, which the
  process table models.\<close>

record sleeplock =
  slk_locked :: bool
  slk_name :: string
  slk_pid :: nat

definition initsleeplock :: "sleeplock \<Rightarrow> string \<Rightarrow> sleeplock" where
  "initsleeplock lk name = lk\<lparr>slk_name := name, slk_locked := False, slk_pid := 0\<rparr>"

definition acquiresleep :: "nat \<Rightarrow> sleeplock \<Rightarrow> sleeplock outcome" where
  "acquiresleep pid lk =
     (if slk_locked lk then Wait else Ok (lk\<lparr>slk_locked := True, slk_pid := pid\<rparr>))"

definition releasesleep :: "sleeplock \<Rightarrow> sleeplock" where
  "releasesleep lk = lk\<lparr>slk_locked := False, slk_pid := 0\<rparr>"

definition holdingsleep :: "nat \<Rightarrow> sleeplock \<Rightarrow> bool" where
  "holdingsleep pid lk = (slk_locked lk \<and> slk_pid lk = pid)"

lemma holdingsleep_acquired [simp]:
  "acquiresleep pid lk = Ok lk' \<Longrightarrow> holdingsleep pid' lk' \<longleftrightarrow> pid' = pid"
  by (auto simp: acquiresleep_def holdingsleep_def split: if_splits)

lemma holdingsleep_released [simp]: "\<not> holdingsleep pid (releasesleep lk)"
  by (simp add: holdingsleep_def releasesleep_def)

subsection \<open>Interrupt nesting\<close>

text \<open>What every processor satisfies between calls: inside a \<^verbatim>\<open>pushcli\<close> interrupts are
  off.\<close>

definition cpu_ok :: "cpu \<Rightarrow> bool" where
  "cpu_ok c \<longleftrightarrow> 0 \<le> ncli c \<and> (0 < ncli c \<longrightarrow> \<not> eif c)"

lemma cpu_ok_pushcli [keeps]: "cpu_ok c \<Longrightarrow> cpu_ok (pushcli c)"
  by (simp add: cpu_ok_def pushcli_def)

lemma cpu_ok_popcli [keeps]: "cpu_ok c \<Longrightarrow> popcli c = Ok c' \<Longrightarrow> cpu_ok c'"
  by (auto simp: cpu_ok_def popcli_def Let_def split: if_splits)

lemma popcli_pushcli:
  assumes "cpu_ok c"
  shows "popcli (pushcli c) = Ok (c\<lparr>intena := (if ncli c = 0 then eif c else intena c)\<rparr>)"
  using assms by (cases "ncli c = 0") (auto simp: cpu_ok_def popcli_def pushcli_def Let_def)

lemma holding_simp:
  assumes "cpu_ok c" "0 < ncli c"
  shows "holding me lk c = Ok (sl_locked lk \<and> sl_cpu lk = Some me, c)"
  using popcli_pushcli [OF assms(1)] assms(2) by (simp add: holding_def Let_def)

lemma acquire_eq:
  assumes "cpu_ok c"
  shows "acquire me pcs lk c =
     (if sl_locked lk \<and> sl_cpu lk = Some me then Panic ''acquire''
      else if sl_locked lk then Wait
      else Ok (lk\<lparr>sl_locked := True, sl_cpu := Some me, sl_pcs := pcs\<rparr>, pushcli c))"
proof -
  have "0 < ncli (pushcli c)" using assms by (simp add: cpu_ok_def pushcli_def)
  then show ?thesis
    by (simp add: acquire_def holding_simp [OF cpu_ok_pushcli [OF assms]])
qed

text \<open>a processor that takes and then releases a free spin lock gets its interrupt flag
  and its nesting depth back, and leaves the lock free; in between interrupts are off.\<close>

theorem acquire_release:
  assumes "cpu_ok c" "\<not> sl_locked lk"
  shows "\<exists>lk1 c1 lk2 c2. acquire me pcs lk c = Ok (lk1, c1) \<and> \<not> eif c1 \<and> cpu_ok c1
    \<and> release me lk1 c1 = Ok (lk2, c2) \<and> \<not> sl_locked lk2 \<and> sl_cpu lk2 = None
    \<and> eif c2 = eif c \<and> ncli c2 = ncli c"
proof -
  let ?c1 = "pushcli c"
  let ?lk1 = "lk\<lparr>sl_locked := True, sl_cpu := Some me, sl_pcs := pcs\<rparr>"
  have ok1: "cpu_ok ?c1" and pos: "0 < ncli ?c1" and off: "\<not> eif ?c1"
    using assms(1) by (auto simp: cpu_ok_def pushcli_def)
  have acq: "acquire me pcs lk c = Ok (?lk1, ?c1)"
    using acquire_eq [OF assms(1)] assms(2) by simp
  have rel: "release me ?lk1 ?c1 =
      Ok (?lk1\<lparr>sl_pcs := pcs[0 := 0], sl_cpu := None, sl_locked := False\<rparr>,
          c\<lparr>intena := (if ncli c = 0 then eif c else intena c)\<rparr>)"
    by (simp add: release_def holding_simp [OF ok1 pos] popcli_pushcli [OF assms(1)])
  show ?thesis
    by (intro exI conjI) (rule acq off ok1 rel | simp)+
qed

theorem acquire_release_witness:
  "\<exists>lk1 c1 lk2 c2.
     acquire 0 [] \<lparr>sl_locked = False, sl_name = ''kmem'', sl_cpu = None, sl_pcs = []\<rparr>
        \<lparr>ncli = 0, intena = False, eif = True\<rparr> = Ok (lk1, c1) \<and> \<not> eif c1 \<and> cpu_ok c1
     \<and> release 0 lk1 c1 = Ok (lk2, c2) \<and> \<not> sl_locked lk2 \<and> sl_cpu lk2 = None
     \<and> eif c2 = True \<and> ncli c2 = 0"
  using acquire_release [of "\<lparr>ncli = 0, intena = False, eif = True\<rparr>"
      "\<lparr>sl_locked = False, sl_name = ''kmem'', sl_cpu = None, sl_pcs = []\<rparr>" 0 "[]"]
  by (simp add: cpu_ok_def)

subsection \<open>Interleaved acquire and release\<close>

text \<open>
  The program points of one processor: before \<^verbatim>\<open>acquire\<close>; spinning on \<^verbatim>\<open>xchg\<close>; after a
  successful \<^verbatim>\<open>xchg\<close> but before \<^verbatim>\<open>lk->cpu\<close> is recorded; in the critical section; in
  \<^verbatim>\<open>release\<close> after \<^verbatim>\<open>lk->cpu = 0\<close>; after the store of 0, before \<^verbatim>\<open>popcli\<close>.
\<close>

datatype phase = Outside | Spinning | Taken | Inside | Clearing | Popping

record world =
  wlock :: spinlock
  wcpu :: "nat \<Rightarrow> cpu"
  wphase :: "nat \<Rightarrow> phase"

inductive lock_step :: "world \<Rightarrow> world \<Rightarrow> bool" where
  enter: "wphase w i = Outside \<Longrightarrow> \<not> (sl_locked (wlock w) \<and> sl_cpu (wlock w) = Some i) \<Longrightarrow>
     lock_step w (w\<lparr>wcpu := (wcpu w)(i := pushcli (wcpu w i)),
                    wphase := (wphase w)(i := Spinning)\<rparr>)"
| spin: "wphase w i = Spinning \<Longrightarrow> sl_locked (wlock w) \<Longrightarrow> lock_step w w"
| xchg: "wphase w i = Spinning \<Longrightarrow> \<not> sl_locked (wlock w) \<Longrightarrow>
     lock_step w (w\<lparr>wlock := (wlock w)\<lparr>sl_locked := True\<rparr>,
                    wphase := (wphase w)(i := Taken)\<rparr>)"
| record_cpu: "wphase w i = Taken \<Longrightarrow>
     lock_step w (w\<lparr>wlock := (wlock w)\<lparr>sl_cpu := Some i\<rparr>,
                    wphase := (wphase w)(i := Inside)\<rparr>)"
| clear_cpu: "wphase w i = Inside \<Longrightarrow> sl_locked (wlock w) \<Longrightarrow> sl_cpu (wlock w) = Some i \<Longrightarrow>
     lock_step w (w\<lparr>wlock := (wlock w)\<lparr>sl_cpu := None\<rparr>,
                    wphase := (wphase w)(i := Clearing)\<rparr>)"
| unlock: "wphase w i = Clearing \<Longrightarrow>
     lock_step w (w\<lparr>wlock := (wlock w)\<lparr>sl_locked := False\<rparr>,
                    wphase := (wphase w)(i := Popping)\<rparr>)"
| leave: "wphase w i = Popping \<Longrightarrow> popcli (wcpu w i) = Ok c \<Longrightarrow>
     lock_step w (w\<lparr>wcpu := (wcpu w)(i := c), wphase := (wphase w)(i := Outside)\<rparr>)"

inductive_cases lock_stepE: "lock_step w w'"

definition start_world :: "world \<Rightarrow> bool" where
  "start_world w \<longleftrightarrow> \<not> sl_locked (wlock w) \<and> sl_cpu (wlock w) = None
     \<and> (\<forall>i. wphase w i = Outside \<and> wcpu w i = \<lparr>ncli = 0, intena = False, eif = True\<rparr>)"

inductive lock_reachable :: "world \<Rightarrow> bool" where
  lr_start: "start_world w \<Longrightarrow> lock_reachable w"
| lr_step: "lock_reachable w \<Longrightarrow> lock_step w w' \<Longrightarrow> lock_reachable w'"

definition owner_phase :: "phase \<Rightarrow> bool" where
  "owner_phase p \<longleftrightarrow> p = Taken \<or> p = Inside \<or> p = Clearing"

definition lock_inv :: "world \<Rightarrow> bool" where
  "lock_inv w \<longleftrightarrow>
     (\<forall>i j. owner_phase (wphase w i) \<longrightarrow> owner_phase (wphase w j) \<longrightarrow> i = j)
   \<and> (\<forall>i. owner_phase (wphase w i) \<longrightarrow> sl_locked (wlock w))
   \<and> (\<forall>i. sl_cpu (wlock w) = Some i \<longleftrightarrow> wphase w i = Inside)
   \<and> (\<forall>i. cpu_ok (wcpu w i) \<and> (wphase w i \<noteq> Outside \<longrightarrow> 0 < ncli (wcpu w i)))"

lemma lock_inv_start: "start_world w \<Longrightarrow> lock_inv w"
  by (auto simp: start_world_def lock_inv_def owner_phase_def cpu_ok_def)

lemma lock_inv_cpus:
  assumes "lock_inv w"
  shows "cpu_ok (wcpu w i)" "wphase w i \<noteq> Outside \<Longrightarrow> 0 < ncli (wcpu w i)"
  using assms by (auto simp: lock_inv_def)

lemma lock_inv_step:
  assumes "lock_step w w'" "lock_inv w"
  shows "lock_inv w'"
  using assms
proof cases
  case (enter i)
  have "cpu_ok (pushcli (wcpu w i))" "0 < ncli (pushcli (wcpu w i))"
    using lock_inv_cpus(1) [OF assms(2), of i] by (auto simp: cpu_ok_def pushcli_def)
  with enter assms(2) show ?thesis by (auto simp: lock_inv_def owner_phase_def)
next
  case (leave i c)
  have "cpu_ok c" by (rule cpu_ok_popcli [OF lock_inv_cpus(1) [OF assms(2)] leave(3)])
  with leave assms(2) show ?thesis by (auto simp: lock_inv_def owner_phase_def)
qed (fastforce simp: lock_inv_def owner_phase_def)+

lemma lock_reachable_inv: "lock_reachable w \<Longrightarrow> lock_inv w"
  by (induction rule: lock_reachable.induct) (auto intro: lock_inv_start lock_inv_step)


definition sample_world :: world where
  "sample_world = \<lparr>wlock = \<lparr>sl_locked = False, sl_name = ''kmem'', sl_cpu = None, sl_pcs = []\<rparr>,
     wcpu = (\<lambda>_. \<lparr>ncli = 0, intena = False, eif = True\<rparr>), wphase = (\<lambda>_. Outside)\<rparr>"


text \<open>a free lock is taken at the next \<^verbatim>\<open>xchg\<close> of any spinning processor, and a processor
  in its critical section can always go on to release: no reachable state of the protocol is
  stuck.\<close>

theorem spinlock_no_deadlock:
  assumes "lock_reachable w"
  shows "\<exists>w'. lock_step w w' \<and> (wphase w i \<noteq> Outside \<longrightarrow> \<not> sl_locked (wlock w) \<longrightarrow> w' \<noteq> w)"
proof -
  have inv: "lock_inv w" by (rule lock_reachable_inv [OF assms])
  have ok: "cpu_ok (wcpu w i)" "wphase w i \<noteq> Outside \<Longrightarrow> 0 < ncli (wcpu w i)"
    using inv by (auto simp: lock_inv_def)
  have upd: "(wphase w)(i := p) \<noteq> wphase w" if "wphase w i \<noteq> p" for p
    using that by (metis fun_upd_same)
  have ne: "w\<lparr>wcpu := a, wphase := (wphase w)(i := p)\<rparr> \<noteq> w"
    "w\<lparr>wlock := b, wphase := (wphase w)(i := p)\<rparr> \<noteq> w" if "wphase w i \<noteq> p" for a b p
    using upd [OF that] by (metis world.select_convs(3) world.surjective world.update_convs(1-3))+
  show ?thesis
  proof (cases "wphase w i")
    case Outside
    then have "\<not> (sl_locked (wlock w) \<and> sl_cpu (wlock w) = Some i)"
      using inv by (auto simp: lock_inv_def)
    with Outside show ?thesis using lock_step.enter by blast
  next
    case Spinning
    show ?thesis
    proof (cases "sl_locked (wlock w)")
      case True
      with lock_step.spin [OF Spinning] show ?thesis by blast
    next
      case False
      have "wphase w i \<noteq> Taken" using Spinning by simp
      from lock_step.xchg [OF Spinning False] ne(2) [OF this] show ?thesis by blast
    qed
  next
    case Taken
    then have "wphase w i \<noteq> Inside" by simp
    from lock_step.record_cpu [OF Taken] ne(2) [OF this] show ?thesis by blast
  next
    case Inside
    then have "sl_locked (wlock w)" "sl_cpu (wlock w) = Some i"
      using inv by (auto simp: lock_inv_def owner_phase_def)
    with Inside show ?thesis using lock_step.clear_cpu by blast
  next
    case Clearing
    then have "wphase w i \<noteq> Popping" by simp
    from lock_step.unlock [OF Clearing] ne(2) [OF this] show ?thesis by blast
  next
    case Popping
    then obtain c where c: "popcli (wcpu w i) = Ok c"
      using ok by (auto simp: popcli_def cpu_ok_def Let_def)
    have "wphase w i \<noteq> Outside" using Popping by simp
    from lock_step.leave [OF Popping c] ne(1) [OF this] show ?thesis by blast
  qed
qed

theorem spinlock_no_deadlock_witness: "\<exists>w'. lock_step sample_world w'"
proof -
  have "lock_reachable sample_world"
    by (rule lr_start) (simp add: sample_world_def start_world_def)
  from spinlock_no_deadlock [OF this] show ?thesis by blast
qed

end
