(* ===== verification/Bio.thy ===== *)
theory Bio
  imports Locks
begin

text \<open>
  The buffer cache \<^verbatim>\<open>p4/bio.c\<close> on top of the memory disk \<^verbatim>\<open>p4/memide.c\<close>.  Buffers are the
  entries of \<^verbatim>\<open>bcache.buf\<close>, referred to by their index; the doubly linked list through
  \<^verbatim>\<open>prev\<close>/\<^verbatim>\<open>next\<close> is the list of indices from \<^verbatim>\<open>head.next\<close> (most recently used) on.  The two
  flag bits \<^verbatim>\<open>B_VALID\<close> and \<^verbatim>\<open>B_DIRTY\<close> are two booleans.  \<open>writes\<close> is a ghost field: the blocks
  written to the disk so far, in order, from which the states a crash can leave are read off.
\<close>

subsection \<open>Data\<close>

definition BSIZE :: nat where "BSIZE = 512"
definition NBUF :: nat where "NBUF = 30"
definition ROOTDEV :: nat where "ROOTDEV = 1"

type_synonym block = "byte list"

record buf =
  bvalid :: bool
  bdirty :: bool
  bdev :: nat
  bblockno :: nat
  block_lock :: sleeplock
  brefcnt :: nat
  bdata :: block

record io =
  bufs :: "buf list"
  lru :: "nat list"
  disk :: "block list"
  writes :: "(nat \<times> block) list"

abbreviation buf_at :: "io \<Rightarrow> nat \<Rightarrow> buf" where
  "buf_at s i \<equiv> bufs s ! i"

definition set_buf :: "nat \<Rightarrow> buf \<Rightarrow> io \<Rightarrow> io" where
  "set_buf i b s = s\<lparr>bufs := (bufs s)[i := b]\<rparr>"

subsection \<open>The disk\<close>

definition iderw :: "nat \<Rightarrow> nat \<Rightarrow> io \<Rightarrow> io outcome" where
  "iderw pid i s =
     (let b = buf_at s i in
      if \<not> holdingsleep pid (block_lock b) then Panic ''iderw: buf not locked''
      else if bvalid b \<and> \<not> bdirty b then Panic ''iderw: nothing to do''
      else if bdev b \<noteq> 1 then Panic ''iderw: request not for disk 1''
      else if bblockno b \<ge> length (disk s) then Panic ''iderw: block out of range''
      else if bdirty b
      then Ok (set_buf i (b\<lparr>bdirty := False, bvalid := True\<rparr>)
                 (s\<lparr>disk := (disk s)[bblockno b := bdata b],
                    writes := writes s @ [(bblockno b, bdata b)]\<rparr>))
      else Ok (set_buf i (b\<lparr>bdata := disk s ! bblockno b, bvalid := True\<rparr>) s))"

subsection \<open>The cache\<close>

definition zero_lock :: sleeplock where
  "zero_lock = \<lparr>slk_locked = False, slk_name = [], slk_pid = 0\<rparr>"

definition zero_buf :: buf where
  "zero_buf = \<lparr>bvalid = False, bdirty = False, bdev = 0, bblockno = 0,
     block_lock = zero_lock, brefcnt = 0, bdata = replicate BSIZE 0\<rparr>"

text \<open>\<^verbatim>\<open>binit\<close> links the statically zeroed buffers, each at the head of the list.\<close>

definition binit :: "block list \<Rightarrow> io" where
  "binit d = \<lparr>bufs = map (\<lambda>b. b\<lparr>block_lock := initsleeplock (block_lock b) ''buffer''\<rparr>)
                       (replicate NBUF zero_buf),
     lru = fold (\<lambda>b l. b # l) [0..<NBUF] [], disk = d, writes = []\<rparr>"

definition bget :: "nat \<Rightarrow> nat \<Rightarrow> nat \<Rightarrow> io \<Rightarrow> (nat \<times> io) outcome" where
  "bget pid dev blockno s =
     (case find (\<lambda>i. bdev (buf_at s i) = dev \<and> bblockno (buf_at s i) = blockno) (lru s) of
        Some i \<Rightarrow>
          (let b = buf_at s i in
           and_then (acquiresleep pid (block_lock b)) (\<lambda>l.
             Ok (i, set_buf i (b\<lparr>brefcnt := brefcnt b + 1, block_lock := l\<rparr>) s)))
      | None \<Rightarrow>
          (case find (\<lambda>i. brefcnt (buf_at s i) = 0 \<and> \<not> bdirty (buf_at s i)) (rev (lru s)) of
             Some i \<Rightarrow>
               (let b = buf_at s i in
                and_then (acquiresleep pid (block_lock b)) (\<lambda>l.
                  Ok (i, set_buf i (b\<lparr>bdev := dev, bblockno := blockno, bvalid := False,
                                      bdirty := False, brefcnt := 1, block_lock := l\<rparr>) s)))
           | None \<Rightarrow> Panic ''bget: no buffers''))"

definition bread :: "nat \<Rightarrow> nat \<Rightarrow> nat \<Rightarrow> io \<Rightarrow> (nat \<times> io) outcome" where
  "bread pid dev blockno s =
     and_then (bget pid dev blockno s) (\<lambda>(i, s1).
       if \<not> bvalid (buf_at s1 i) then and_then (iderw pid i s1) (\<lambda>s2. Ok (i, s2))
       else Ok (i, s1))"

definition bwrite :: "nat \<Rightarrow> nat \<Rightarrow> io \<Rightarrow> io outcome" where
  "bwrite pid i s =
     (if \<not> holdingsleep pid (block_lock (buf_at s i)) then Panic ''bwrite''
      else iderw pid i (set_buf i ((buf_at s i)\<lparr>bdirty := True\<rparr>) s))"

definition brelse :: "nat \<Rightarrow> nat \<Rightarrow> io \<Rightarrow> io outcome" where
  "brelse pid i s =
     (let b = buf_at s i in
      if \<not> holdingsleep pid (block_lock b) then Panic ''brelse''
      else let b' = b\<lparr>block_lock := releasesleep (block_lock b), brefcnt := brefcnt b - 1\<rparr>;
               s' = set_buf i b' s
           in Ok (if brefcnt b' = 0 then s'\<lparr>lru := i # remove1 i (lru s')\<rparr> else s'))"

text \<open>A caller's store into \<^verbatim>\<open>bp->data\<close>.\<close>

definition set_data :: "nat \<Rightarrow> block \<Rightarrow> io \<Rightarrow> io" where
  "set_data i d s = set_buf i ((buf_at s i)\<lparr>bdata := d\<rparr>) s"

subsection \<open>Well-formed caches\<close>

text \<open>The block a buffer stands for, when it holds one of the disk's.\<close>

definition holds_block :: "io \<Rightarrow> nat \<Rightarrow> nat \<Rightarrow> bool" where
  "holds_block s i bn \<longleftrightarrow> i < NBUF \<and> bdev (buf_at s i) = 1 \<and> bblockno (buf_at s i) = bn"

definition buf_ok :: "io \<Rightarrow> buf \<Rightarrow> bool" where
  "buf_ok s b \<longleftrightarrow>
     (bvalid b \<longrightarrow> bdev b = 1 \<and> bblockno b < length (disk s) \<and> length (bdata b) = BSIZE)
   \<and> (bdirty b \<longrightarrow> bvalid b)
   \<and> (slk_locked (block_lock b) \<longrightarrow> 0 < brefcnt b)
   \<and> (bvalid b \<and> \<not> bdirty b \<and> \<not> slk_locked (block_lock b) \<longrightarrow> bdata b = disk s ! bblockno b)"

definition bc_inv :: "io \<Rightarrow> bool" where
  "bc_inv s \<longleftrightarrow> length (bufs s) = NBUF \<and> distinct (lru s) \<and> set (lru s) = {..<NBUF}
     \<and> (\<forall>d \<in> set (disk s). length d = BSIZE)
     \<and> (\<forall>i j bn. holds_block s i bn \<longrightarrow> holds_block s j bn \<longrightarrow> i = j)
     \<and> (\<forall>i < NBUF. buf_ok s (buf_at s i))"

text \<open>The content of a block as the kernel sees it: the cached copy if there is one.\<close>

definition content :: "io \<Rightarrow> nat \<Rightarrow> block" where
  "content s bn =
     (case find (\<lambda>i. holds_block s i bn \<and> bvalid (buf_at s i)) (lru s) of
        Some i \<Rightarrow> bdata (buf_at s i) | None \<Rightarrow> disk s ! bn)"

definition dirty_blocks :: "io \<Rightarrow> nat set" where
  "dirty_blocks s = {bn. \<exists>i. holds_block s i bn \<and> bdirty (buf_at s i)}"

definition idle :: "io \<Rightarrow> bool" where
  "idle s \<longleftrightarrow> (\<forall>i < NBUF. brefcnt (buf_at s i) = 0)"

definition has_free :: "io \<Rightarrow> bool" where
  "has_free s \<longleftrightarrow> (\<exists>i < NBUF. brefcnt (buf_at s i) = 0 \<and> \<not> bdirty (buf_at s i))"

subsection \<open>Replacing one buffer\<close>

lemma set_buf_fields [simp]:
  "lru (set_buf i b s) = lru s" "disk (set_buf i b s) = disk s"
  "writes (set_buf i b s) = writes s" "length (bufs (set_buf i b s)) = length (bufs s)"
  by (simp_all add: set_buf_def)

lemma set_buf_twice [simp]: "set_buf i b (set_buf i b' s) = set_buf i b s"
  by (simp add: set_buf_def)

lemma buf_at_set_buf:
  "i < length (bufs s) \<Longrightarrow> buf_at (set_buf i b s) j = (if j = i then b else buf_at s j)"
  by (auto simp: set_buf_def)

lemma holds_block_set_buf:
  "i < length (bufs s) \<Longrightarrow> holds_block (set_buf i b s) j bn \<longleftrightarrow>
     (if j = i then i < NBUF \<and> bdev b = 1 \<and> bblockno b = bn else holds_block s j bn)"
  by (auto simp: holds_block_def buf_at_set_buf)

lemma bc_invD:
  assumes "bc_inv s"
  shows "length (bufs s) = NBUF" "distinct (lru s)" "set (lru s) = {..<NBUF}"
    "\<forall>d \<in> set (disk s). length d = BSIZE"
    "holds_block s i bn \<Longrightarrow> holds_block s j bn \<Longrightarrow> i = j"
    "i < NBUF \<Longrightarrow> buf_ok s (buf_at s i)"
  using assms by (auto simp: bc_inv_def)

lemma buf_ok_set_buf [simp]: "buf_ok (set_buf i b s) = buf_ok s"
  by (simp add: buf_ok_def fun_eq_iff)

lemma bc_inv_set_buf:
  assumes "bc_inv s" "i < NBUF" "buf_ok s b"
    "\<And>j. bdev b = 1 \<Longrightarrow> holds_block s j (bblockno b) \<Longrightarrow> j = i"
  shows "bc_inv (set_buf i b s)"
proof -
  note inv = bc_invD [OF assms(1)]
  have len: "i < length (bufs s)" using inv(1) assms(2) by simp
  have uniq: "j = k" if "holds_block (set_buf i b s) j bn" "holds_block (set_buf i b s) k bn" for j k bn
    using that assms(4) inv(5) unfolding holds_block_set_buf [OF len] by (metis)
  have "buf_ok s (buf_at (set_buf i b s) j)" if "j < NBUF" for j
    using that assms(3) inv(6) by (simp add: buf_at_set_buf [OF len])
  with uniq inv(1-4) show ?thesis
    unfolding bc_inv_def by (auto simp del: split_paired_All)
qed

lemma content_cached:
  assumes "bc_inv s" "holds_block s i bn" "bvalid (buf_at s i)"
  shows "content s bn = bdata (buf_at s i)"
proof -
  have "i \<in> set (lru s)" using assms(1,2) by (auto simp: bc_inv_def holds_block_def)
  with assms obtain j where
    j: "find (\<lambda>i. holds_block s i bn \<and> bvalid (buf_at s i)) (lru s) = Some j"
    by (cases "find (\<lambda>i. holds_block s i bn \<and> bvalid (buf_at s i)) (lru s)")
       (auto simp: find_None_iff)
  then have "holds_block s j bn" by (auto simp: find_Some_iff)
  with bc_invD(5) [OF assms(1)] assms(2) have "j = i" by blast
  with j show ?thesis by (simp add: content_def)
qed

lemma content_uncached:
  assumes "\<And>i. holds_block s i bn \<Longrightarrow> \<not> bvalid (buf_at s i)"
  shows "content s bn = disk s ! bn"
proof -
  have "find (\<lambda>i. holds_block s i bn \<and> bvalid (buf_at s i)) (lru s) = None"
    using assms by (auto simp: find_None_iff)
  then show ?thesis by (simp add: content_def)
qed

text \<open>Two well-formed caches over one disk show the same contents when each valid buffer of
  one is matched by the other or by the disk.\<close>

lemma content_eqI:
  assumes "bc_inv s" "bc_inv s'" "disk s' = disk s"
    "\<And>i. holds_block s i bn \<Longrightarrow> bvalid (buf_at s i) \<Longrightarrow>
       (\<exists>j. holds_block s' j bn \<and> bvalid (buf_at s' j) \<and> bdata (buf_at s' j) = bdata (buf_at s i))
       \<or> (bdata (buf_at s i) = disk s ! bn \<and> (\<forall>j. holds_block s' j bn \<longrightarrow> \<not> bvalid (buf_at s' j)))"
    "\<And>i. holds_block s' i bn \<Longrightarrow> bvalid (buf_at s' i) \<Longrightarrow>
       (\<exists>j. holds_block s j bn \<and> bvalid (buf_at s j) \<and> bdata (buf_at s j) = bdata (buf_at s' i))
       \<or> (bdata (buf_at s' i) = disk s ! bn \<and> (\<forall>j. holds_block s j bn \<longrightarrow> \<not> bvalid (buf_at s j)))"
  shows "content s' bn = content s bn"
proof (cases "\<exists>i. holds_block s i bn \<and> bvalid (buf_at s i)")
  case True
  then obtain i where i: "holds_block s i bn" "bvalid (buf_at s i)" by blast
  with assms(4) [OF i] content_cached [OF assms(1) i] content_cached [OF assms(2), of _ bn]
    content_uncached [of s' bn] assms(3) show ?thesis by metis
next
  case False
  then have c: "content s bn = disk s ! bn" by (intro content_uncached) blast
  show ?thesis
  proof (cases "\<exists>i. holds_block s' i bn \<and> bvalid (buf_at s' i)")
    case True
    then obtain i where i: "holds_block s' i bn" "bvalid (buf_at s' i)" by blast
    with assms(5) [OF i] False c content_cached [OF assms(2) i] show ?thesis by auto
  next
    case False
    with content_uncached [of s' bn] assms(3) c show ?thesis by auto
  qed
qed

lemma length_content:
  assumes "bc_inv s" "bn < length (disk s)"
  shows "length (content s bn) = BSIZE"
proof (cases "\<exists>i. holds_block s i bn \<and> bvalid (buf_at s i)")
  case True
  then obtain i where i: "holds_block s i bn" "bvalid (buf_at s i)" by blast
  then have "buf_ok s (buf_at s i)" using bc_invD(6) [OF assms(1)] by (simp add: holds_block_def)
  with i content_cached [OF assms(1) i] show ?thesis by (simp add: buf_ok_def)
next
  case False
  then have "content s bn = disk s ! bn" by (intro content_uncached) blast
  with assms show ?thesis by (simp add: bc_inv_def)
qed

lemma dirty_cached:
  assumes "bc_inv s" "holds_block s i bn"
  shows "bn \<in> dirty_blocks s \<longleftrightarrow> bdirty (buf_at s i)"
  using assms bc_invD(5) [OF assms(1)] unfolding dirty_blocks_def by blast

lemma clean_content:
  assumes "bc_inv s" "i < NBUF" "bdev (buf_at s i) = 1" "bvalid (buf_at s i)"
    "\<not> bdirty (buf_at s i)" "brefcnt (buf_at s i) = 0"
  shows "bdata (buf_at s i) = disk s ! bblockno (buf_at s i)"
  using bc_invD(6) [OF assms(1,2)] assms(3-) by (auto simp: buf_ok_def)

subsection \<open>Reading a block\<close>

text \<open>What \<^verbatim>\<open>bread\<close> promises: the buffer is locked by the caller and holds the block's
  content, and nothing else changed.\<close>

definition grabbed :: "nat \<Rightarrow> nat \<Rightarrow> nat \<Rightarrow> io \<Rightarrow> io \<Rightarrow> bool" where
  "grabbed pid bn i s s' \<longleftrightarrow> bc_inv s' \<and> holds_block s' i bn \<and> bvalid (buf_at s' i)
     \<and> holdingsleep pid (block_lock (buf_at s' i)) \<and> bdata (buf_at s' i) = content s bn
     \<and> disk s' = disk s \<and> writes s' = writes s \<and> lru s' = lru s
     \<and> content s' = content s \<and> dirty_blocks s' = dirty_blocks s
     \<and> (\<forall>j. j \<noteq> i \<longrightarrow> buf_at s' j = buf_at s j)
     \<and> brefcnt (buf_at s' i) = (if holds_block s i bn then Suc (brefcnt (buf_at s i)) else 1)
     \<and> (holds_block s i bn \<or> brefcnt (buf_at s i) = 0)"

lemma content_set_buf_grab:
  assumes inv: "bc_inv s" and i: "i < NBUF"
    and b: "bdev b = 1" "bblockno b = bn" "bvalid b" "bdata b = content s bn"
    and inv': "bc_inv (set_buf i b s)"
    and old: "holds_block s i bn \<or> ((\<forall>j. \<not> holds_block s j bn) \<and>
        brefcnt (buf_at s i) = 0 \<and> \<not> bdirty (buf_at s i))"
  shows "content (set_buf i b s) bn' = content s bn'"
proof (cases "bn' = bn")
  case True
  have "holds_block (set_buf i b s) i bn" "buf_at (set_buf i b s) i = b"
    using i b bc_invD(1) [OF inv] by (auto simp: holds_block_set_buf buf_at_set_buf)
  with content_cached [OF inv'] b True show ?thesis by metis
next
  case False
  have len: "i < length (bufs s)" using i bc_invD(1) [OF inv] by simp
  have other: "holds_block (set_buf i b s) j bn' \<longleftrightarrow> holds_block s j bn' \<and> j \<noteq> i" for j
    using False b by (auto simp: holds_block_set_buf [OF len])
  show ?thesis
  proof (rule content_eqI [OF inv inv'])
    fix j assume j: "holds_block s j bn'" "bvalid (buf_at s j)"
    show "(\<exists>k. holds_block (set_buf i b s) k bn' \<and> bvalid (buf_at (set_buf i b s) k)
            \<and> bdata (buf_at (set_buf i b s) k) = bdata (buf_at s j))
       \<or> (bdata (buf_at s j) = disk s ! bn'
            \<and> (\<forall>k. holds_block (set_buf i b s) k bn' \<longrightarrow> \<not> bvalid (buf_at (set_buf i b s) k)))"
    proof (cases "j = i")
      case True
      with j(1) False old have free: "brefcnt (buf_at s i) = 0" "\<not> bdirty (buf_at s i)"
        by (auto simp: holds_block_def)
      have "bdata (buf_at s j) = disk s ! bn'"
        using clean_content [OF inv i _ _ free(2,1)] j True by (auto simp: holds_block_def)
      moreover have "\<not> holds_block (set_buf i b s) k bn'" for k
        using other bc_invD(5) [OF inv] j(1) True by blast
      ultimately show ?thesis by blast
    next
      case False
      then show ?thesis using j other buf_at_set_buf [OF len, of b j] by auto
    qed
  next
    fix j assume "holds_block (set_buf i b s) j bn'" "bvalid (buf_at (set_buf i b s) j)"
    then show "(\<exists>k. holds_block s k bn' \<and> bvalid (buf_at s k)
            \<and> bdata (buf_at s k) = bdata (buf_at (set_buf i b s) j))
       \<or> (bdata (buf_at (set_buf i b s) j) = disk s ! bn'
            \<and> (\<forall>k. holds_block s k bn' \<longrightarrow> \<not> bvalid (buf_at s k)))"
      unfolding other by (auto simp: buf_at_set_buf [OF len])
  qed simp
qed

lemma grabbed_set_buf:
  assumes inv: "bc_inv s" and i: "i < NBUF" and bn: "bn < length (disk s)"
    and b: "bdev b = 1" "bblockno b = bn" "bvalid b" "bdata b = content s bn"
      "holdingsleep pid (block_lock b)"
      "brefcnt b = (if holds_block s i bn then Suc (brefcnt (buf_at s i)) else 1)"
      "bdirty b \<longleftrightarrow> bn \<in> dirty_blocks s"
    and old: "holds_block s i bn \<or> ((\<forall>j. \<not> holds_block s j bn) \<and>
        brefcnt (buf_at s i) = 0 \<and> \<not> bdirty (buf_at s i))"
  shows "grabbed pid bn i s (set_buf i b s)"
proof -
  have len: "i < length (bufs s)" using i bc_invD(1) [OF inv] by simp
  have "buf_ok s b"
    using b bn length_content [OF inv bn] by (auto simp: buf_ok_def holdingsleep_def)
  then have inv': "bc_inv (set_buf i b s)"
    by (rule bc_inv_set_buf [OF inv i]) (use old b bc_invD(5) [OF inv] in auto)
  have h: "holds_block (set_buf i b s) i bn"
    using b i by (simp add: holds_block_set_buf [OF len])
  have c: "content (set_buf i b s) = content s"
    by (rule ext) (rule content_set_buf_grab [OF inv i b(1-4) inv' old])
  have "x \<in> dirty_blocks (set_buf i b s) \<longleftrightarrow> x \<in> dirty_blocks s" for x
  proof (cases "x = bn")
    case True
    then show ?thesis using dirty_cached [OF inv' h] b(7) by (simp add: buf_at_set_buf [OF len])
  next
    case False
    then have "\<not> (holds_block s i x \<and> bdirty (buf_at s i))" using old by (auto simp: holds_block_def)
    then show ?thesis
      using False b unfolding dirty_blocks_def
      by (auto simp: holds_block_set_buf [OF len] buf_at_set_buf [OF len])
  qed
  then have d: "dirty_blocks (set_buf i b s) = dirty_blocks s" by blast
  show ?thesis
    using inv' h c d b old by (auto simp: grabbed_def buf_at_set_buf [OF len])
qed

lemma find_holds:
  assumes "bc_inv s"
  shows "find (\<lambda>i. bdev (buf_at s i) = 1 \<and> bblockno (buf_at s i) = bn) (lru s) = Some i
      \<Longrightarrow> holds_block s i bn"
    and "find (\<lambda>i. bdev (buf_at s i) = 1 \<and> bblockno (buf_at s i) = bn) (lru s) = None
      \<longleftrightarrow> (\<forall>i. \<not> holds_block s i bn)"
proof -
  show "holds_block s i bn"
    if "find (\<lambda>i. bdev (buf_at s i) = 1 \<and> bblockno (buf_at s i) = bn) (lru s) = Some i"
    using find_SomeD [OF that] bc_invD(3) [OF assms] by (auto simp: holds_block_def)
  show "find (\<lambda>i. bdev (buf_at s i) = 1 \<and> bblockno (buf_at s i) = bn) (lru s) = None
      \<longleftrightarrow> (\<forall>i. \<not> holds_block s i bn)"
    using bc_invD(3) [OF assms] by (auto simp: find_None_iff holds_block_def)
qed

lemma find_free:
  assumes "bc_inv s" "has_free s"
  shows "\<exists>i. find (\<lambda>i. brefcnt (buf_at s i) = 0 \<and> \<not> bdirty (buf_at s i)) (rev (lru s)) = Some i
     \<and> i < NBUF \<and> brefcnt (buf_at s i) = 0 \<and> \<not> bdirty (buf_at s i)"
proof -
  let ?P = "\<lambda>i. brefcnt (buf_at s i) = 0 \<and> \<not> bdirty (buf_at s i)"
  obtain j where "j \<in> set (rev (lru s))" "?P j"
    using assms by (auto simp: has_free_def bc_inv_def)
  then obtain i where i: "find ?P (rev (lru s)) = Some i" using find_ex [of j _ ?P] by blast
  then have "?P i" "i \<in> set (rev (lru s))" using find_SomeD [OF i] by auto
  with i assms(1) show ?thesis by (auto simp: bc_inv_def)
qed

lemma bread_ok:
  assumes inv: "bc_inv s" and bn: "bn < length (disk s)"
    and unlocked: "\<And>i. holds_block s i bn \<Longrightarrow> \<not> slk_locked (block_lock (buf_at s i))"
    and avail: "(\<exists>i. holds_block s i bn) \<or> has_free s"
  shows "\<exists>i s'. bread pid 1 bn s = Ok (i, s') \<and> grabbed pid bn i s s'"
proof (cases "find (\<lambda>i. bdev (buf_at s i) = 1 \<and> bblockno (buf_at s i) = bn) (lru s)")
  case (Some i)
  let ?b = "buf_at s i"
  let ?l = "(block_lock ?b)\<lparr>slk_locked := True, slk_pid := pid\<rparr>"
  let ?b1 = "?b\<lparr>brefcnt := brefcnt ?b + 1, block_lock := ?l\<rparr>"
  have h: "holds_block s i bn" by (rule find_holds(1) [OF inv Some])
  then have i: "i < NBUF" and len: "i < length (bufs s)"
    using bc_invD(1) [OF inv] by (auto simp: holds_block_def)
  have get: "bget pid 1 bn s = Ok (i, set_buf i ?b1 s)"
    using Some unlocked [OF h] by (simp add: bget_def acquiresleep_def Let_def)
  have dirty: "bdirty ?b \<longleftrightarrow> bn \<in> dirty_blocks s" using dirty_cached [OF inv h] by simp
  show ?thesis
  proof (cases "bvalid ?b")
    case True
    have "grabbed pid bn i s (set_buf i ?b1 s)"
      by (rule grabbed_set_buf [OF inv i bn])
         (use h True content_cached [OF inv h True] dirty in
          \<open>auto simp: holds_block_def holdingsleep_def\<close>)
    with get True show ?thesis by (simp add: bread_def buf_at_set_buf [OF len])
  next
    case False
    then have nd: "\<not> bdirty ?b" using bc_invD(6) [OF inv i] by (auto simp: buf_ok_def)
    have cont: "content s bn = disk s ! bn"
      using False bc_invD(5) [OF inv h] by (intro content_uncached) auto
    let ?b2 = "?b1\<lparr>bdata := disk s ! bn, bvalid := True\<rparr>"
    have "iderw pid i (set_buf i ?b1 s) = Ok (set_buf i ?b2 s)"
      using h bn False nd
      by (simp add: iderw_def Let_def buf_at_set_buf [OF len] holdingsleep_def holds_block_def)
    moreover have "grabbed pid bn i s (set_buf i ?b2 s)"
      by (rule grabbed_set_buf [OF inv i bn])
         (use h cont dirty nd in \<open>auto simp: holds_block_def holdingsleep_def\<close>)
    ultimately show ?thesis
      using get False by (simp add: bread_def buf_at_set_buf [OF len])
  qed
next
  case None
  then have nh: "\<forall>i. \<not> holds_block s i bn" using find_holds(2) [OF inv] by blast
  with avail have "has_free s" by blast
  from find_free [OF inv this] obtain i where
    i: "find (\<lambda>i. brefcnt (buf_at s i) = 0 \<and> \<not> bdirty (buf_at s i)) (rev (lru s)) = Some i"
      "i < NBUF" "brefcnt (buf_at s i) = 0" "\<not> bdirty (buf_at s i)" by blast
  let ?b = "buf_at s i"
  let ?l = "(block_lock ?b)\<lparr>slk_locked := True, slk_pid := pid\<rparr>"
  let ?b1 = "?b\<lparr>bdev := 1, bblockno := bn, bvalid := False, bdirty := False,
                brefcnt := 1, block_lock := ?l\<rparr>"
  let ?b2 = "?b1\<lparr>bdata := disk s ! bn, bvalid := True\<rparr>"
  have len: "i < length (bufs s)" using i(2) bc_invD(1) [OF inv] by simp
  have "\<not> slk_locked (block_lock ?b)"
    using bc_invD(6) [OF inv i(2)] i(3) by (auto simp: buf_ok_def)
  then have get: "bget pid 1 bn s = Ok (i, set_buf i ?b1 s)"
    using None i(1) by (simp add: bget_def acquiresleep_def Let_def)
  have cont: "content s bn = disk s ! bn" using nh by (intro content_uncached) auto
  have nd: "bn \<notin> dirty_blocks s" using nh by (auto simp: dirty_blocks_def)
  have "iderw pid i (set_buf i ?b1 s) = Ok (set_buf i ?b2 s)"
    using bn by (simp add: iderw_def Let_def buf_at_set_buf [OF len] holdingsleep_def)
  moreover have "grabbed pid bn i s (set_buf i ?b2 s)"
    by (rule grabbed_set_buf [OF inv i(2) bn])
       (use i nh cont nd in \<open>auto simp: holdingsleep_def\<close>)
  ultimately show ?thesis
    using get by (simp add: bread_def buf_at_set_buf [OF len])
qed

subsection \<open>Changing and releasing a held buffer\<close>

text \<open>A buffer a process holds between \<^verbatim>\<open>bread\<close> and \<^verbatim>\<open>brelse\<close>.\<close>

definition held :: "nat \<Rightarrow> nat \<Rightarrow> nat \<Rightarrow> io \<Rightarrow> bool" where
  "held pid bn i s \<longleftrightarrow> bc_inv s \<and> holds_block s i bn \<and> bvalid (buf_at s i)
     \<and> holdingsleep pid (block_lock (buf_at s i)) \<and> 0 < brefcnt (buf_at s i)"

lemma grabbed_held: "grabbed pid bn i s s' \<Longrightarrow> held pid bn i s'"
  by (auto simp: grabbed_def held_def)

lemma heldD:
  assumes "held pid bn i s"
  shows "bc_inv s" "holds_block s i bn" "bvalid (buf_at s i)" "i < NBUF" "i < length (bufs s)"
    "holdingsleep pid (block_lock (buf_at s i))" "slk_locked (block_lock (buf_at s i))"
    "0 < brefcnt (buf_at s i)" "bdev (buf_at s i) = 1" "bblockno (buf_at s i) = bn"
    "bn < length (disk s)" "length (bdata (buf_at s i)) = BSIZE"
    "content s bn = bdata (buf_at s i)"
proof -
  show *: "bc_inv s" "holds_block s i bn" "bvalid (buf_at s i)" "i < NBUF"
    "holdingsleep pid (block_lock (buf_at s i))" "slk_locked (block_lock (buf_at s i))"
    "0 < brefcnt (buf_at s i)" "bdev (buf_at s i) = 1" "bblockno (buf_at s i) = bn"
    using assms by (auto simp: held_def holdingsleep_def holds_block_def)
  show "i < length (bufs s)" using *(1,4) by (simp add: bc_inv_def)
  show "bn < length (disk s)" "length (bdata (buf_at s i)) = BSIZE"
    using bc_invD(6) [OF *(1,4)] * by (auto simp: buf_ok_def)
  show "content s bn = bdata (buf_at s i)" by (rule content_cached [OF *(1-3)])
qed

text \<open>An in-place update of a held buffer that keeps its identity and lock.\<close>

lemma held_update:
  assumes h: "held pid bn i s"
    and b: "bdev b = 1" "bblockno b = bn" "bvalid b" "block_lock b = block_lock (buf_at s i)"
      "brefcnt b = brefcnt (buf_at s i)" "length (bdata b) = BSIZE"
  shows "held pid bn i (set_buf i b s)"
    and "content (set_buf i b s) = (content s)(bn := bdata b)"
    and "dirty_blocks (set_buf i b s) =
           (if bdirty b then insert bn (dirty_blocks s) else dirty_blocks s - {bn})"
proof -
  note hd = heldD [OF h]
  have "buf_ok s b" using b hd by (auto simp: buf_ok_def)
  then have inv': "bc_inv (set_buf i b s)"
    by (rule bc_inv_set_buf [OF hd(1,4)]) (use b hd(2) bc_invD(5) [OF hd(1)] in auto)
  have hb: "holds_block (set_buf i b s) j x \<longleftrightarrow> holds_block s j x" for j x
    using hd(2) b(1,2) unfolding holds_block_set_buf [OF hd(5)] by (auto simp: holds_block_def)
  show held': "held pid bn i (set_buf i b s)"
    using inv' hd b by (simp add: held_def hb buf_at_set_buf)
  show "content (set_buf i b s) = (content s)(bn := bdata b)"
  proof
    fix x
    show "content (set_buf i b s) x = ((content s)(bn := bdata b)) x"
    proof (cases "x = bn")
      case True
      then show ?thesis using heldD(13) [OF held'] hd(5) by (simp add: buf_at_set_buf)
    next
      case False
      then have ne: "j \<noteq> i" if "holds_block s j x" for j using that hd(10) by (auto simp: holds_block_def)
      have "content (set_buf i b s) x = content s x"
        by (rule content_eqI [OF hd(1) inv']) (use ne hb hd(5) in \<open>auto simp: buf_at_set_buf\<close>)
      with False show ?thesis by simp
    qed
  qed
  have "x \<in> dirty_blocks (set_buf i b s) \<longleftrightarrow> (if x = bn then bdirty b else x \<in> dirty_blocks s)" for x
  proof (cases "x = bn")
    case True
    then show ?thesis using dirty_cached [OF inv', of i bn] hd(2,5) hb by (simp add: buf_at_set_buf)
  next
    case False
    then have "j \<noteq> i" if "holds_block s j x" for j using that hd(10) by (auto simp: holds_block_def)
    with False hb hd(5) show ?thesis by (auto simp: dirty_blocks_def buf_at_set_buf)
  qed
  then have "dirty_blocks (set_buf i b s) = {x. if x = bn then bdirty b else x \<in> dirty_blocks s}"
    by blast
  then show "dirty_blocks (set_buf i b s) =
           (if bdirty b then insert bn (dirty_blocks s) else dirty_blocks s - {bn})"
    by auto
qed

lemma set_data_held:
  assumes "held pid bn i s" "length d = BSIZE"
  shows "held pid bn i (set_data i d s)" "content (set_data i d s) = (content s)(bn := d)"
    "dirty_blocks (set_data i d s) = dirty_blocks s"
    "j \<noteq> i \<Longrightarrow> buf_at (set_data i d s) j = buf_at s j"
    "buf_at (set_data i d s) i = (buf_at s i)\<lparr>bdata := d\<rparr>"
    "disk (set_data i d s) = disk s" "writes (set_data i d s) = writes s" "lru (set_data i d s) = lru s"
proof -
  note hd = heldD [OF assms(1)]
  note up = held_update [OF assms(1), of "(buf_at s i)\<lparr>bdata := d\<rparr>"]
  show "held pid bn i (set_data i d s)" "content (set_data i d s) = (content s)(bn := d)"
    using up(1,2) hd assms(2) by (simp_all add: set_data_def)
  show "dirty_blocks (set_data i d s) = dirty_blocks s"
    using up(3) hd assms(2) dirty_cached [OF hd(1,2)] by (auto simp: set_data_def)
qed (use heldD(5) [OF assms(1)] in \<open>auto simp: set_data_def buf_at_set_buf\<close>)

lemma disk_update_clean:
  assumes "bc_inv s" "holds_block s i bn" "bn < length (disk s)" "length d = BSIZE"
    "bvalid (buf_at s i)" "bdata (buf_at s i) = d"
  shows "bc_inv (s\<lparr>disk := (disk s)[bn := d], writes := w\<rparr>)"
    and "content (s\<lparr>disk := (disk s)[bn := d], writes := w\<rparr>) = content s"
    and "dirty_blocks (s\<lparr>disk := (disk s)[bn := d], writes := w\<rparr>) = dirty_blocks s"
proof -
  let ?s = "s\<lparr>disk := (disk s)[bn := d], writes := w\<rparr>"
  have hb: "holds_block ?s j x \<longleftrightarrow> holds_block s j x" for j x by (simp add: holds_block_def)
  have "buf_ok ?s (buf_at s j)" if j: "j < NBUF" for j
  proof -
    have "buf_ok s (buf_at s j)" by (rule bc_invD(6) [OF assms(1) j])
    moreover have "j = i" if "bdev (buf_at s j) = 1" "bblockno (buf_at s j) = bn"
      using bc_invD(5) [OF assms(1), of j bn i] assms(2) j that by (simp add: holds_block_def)
    ultimately show ?thesis
      using assms(3-) by (auto simp: buf_ok_def nth_list_update)
  qed
  then show inv: "bc_inv ?s"
    using assms(1,4) unfolding bc_inv_def hb
    by (auto dest: subsetD [OF set_update_subset_insert])
  show "content ?s = content s"
  proof
    fix x
    show "content ?s x = content s x"
    proof (cases "\<exists>j. holds_block s j x \<and> bvalid (buf_at s j)")
      case True
      then obtain j where j: "holds_block s j x" "bvalid (buf_at s j)" by blast
      with content_cached [OF inv, of j x] content_cached [OF assms(1) j] hb show ?thesis by simp
    next
      case False
      then have "x \<noteq> bn" using assms(2,5) by blast
      moreover have "content ?s x = disk ?s ! x" "content s x = disk s ! x"
        by (rule content_uncached, use False hb in auto)+
      ultimately show ?thesis by simp
    qed
  qed
  show "dirty_blocks ?s = dirty_blocks s" by (simp add: dirty_blocks_def hb)
qed

lemma set_buf_disk_commute:
  "set_buf i b (s\<lparr>disk := d, writes := w\<rparr>) = (set_buf i b s)\<lparr>disk := d, writes := w\<rparr>"
  by (cases s) (simp add: set_buf_def)

lemma bwrite_held:
  assumes "held pid bn i s"
  shows "\<exists>s'. bwrite pid i s = Ok s' \<and> held pid bn i s' \<and> content s' = content s
    \<and> dirty_blocks s' = dirty_blocks s - {bn} \<and> disk s' = (disk s)[bn := content s bn]
    \<and> writes s' = writes s @ [(bn, content s bn)] \<and> lru s' = lru s
    \<and> (\<forall>j. j \<noteq> i \<longrightarrow> buf_at s' j = buf_at s j)
    \<and> buf_at s' i = (buf_at s i)\<lparr>bdirty := False\<rparr>"
proof -
  note hd = heldD [OF assms]
  let ?b = "(buf_at s i)\<lparr>bdirty := False\<rparr>"
  let ?s1 = "set_buf i ?b s"
  let ?s2 = "?s1\<lparr>disk := (disk ?s1)[bn := bdata (buf_at s i)],
               writes := writes s @ [(bn, bdata (buf_at s i))]\<rparr>"
  note up = held_update [OF assms, of ?b]
  have h1: "held pid bn i ?s1" "content ?s1 = content s" "dirty_blocks ?s1 = dirty_blocks s - {bn}"
    using up hd by (simp_all add: fun_upd_idem)
  have b1: "buf_at ?s1 i = ?b" "\<And>j. j \<noteq> i \<Longrightarrow> buf_at ?s1 j = buf_at s j"
    using hd(5) by (simp_all add: buf_at_set_buf)
  note hd1 = heldD [OF h1(1)]
  note du = disk_update_clean [OF hd1(1,2,11,12,3), OF refl,
      of "writes s @ [(bn, bdata (buf_at s i))]"]
  have v: "(buf_at s i)\<lparr>bdirty := False, bvalid := True\<rparr> = ?b"
    using hd(3) by (cases "buf_at s i") simp
  have "bwrite pid i s = Ok (set_buf i ((buf_at s i)\<lparr>bdirty := False, bvalid := True\<rparr>) s
      \<lparr>disk := (disk s)[bn := bdata (buf_at s i)], writes := writes s @ [(bn, bdata (buf_at s i))]\<rparr>)"
    using hd by (simp add: bwrite_def iderw_def Let_def buf_at_set_buf set_buf_disk_commute)
  then have "bwrite pid i s = Ok ?s2" by (simp only: v set_buf_fields)
  moreover have "held pid bn i ?s2"
    using h1(1) du(1) b1 by (simp add: held_def holds_block_def)
  ultimately show ?thesis
    using du h1 b1 hd(13) by (auto simp: fun_eq_iff)
qed

definition set_dirty :: "nat \<Rightarrow> io \<Rightarrow> io" where
  "set_dirty i s = set_buf i ((buf_at s i)\<lparr>bdirty := True\<rparr>) s"

lemma set_dirty_held:
  assumes "held pid bn i s"
  shows "held pid bn i (set_dirty i s)" "content (set_dirty i s) = content s"
    "dirty_blocks (set_dirty i s) = insert bn (dirty_blocks s)"
    "j \<noteq> i \<Longrightarrow> buf_at (set_dirty i s) j = buf_at s j"
    "buf_at (set_dirty i s) i = (buf_at s i)\<lparr>bdirty := True\<rparr>"
    "disk (set_dirty i s) = disk s" "writes (set_dirty i s) = writes s" "lru (set_dirty i s) = lru s"
proof -
  note hd = heldD [OF assms]
  note up = held_update [OF assms, of "(buf_at s i)\<lparr>bdirty := True\<rparr>"]
  show "held pid bn i (set_dirty i s)" "content (set_dirty i s) = content s"
    "dirty_blocks (set_dirty i s) = insert bn (dirty_blocks s)"
    using up hd by (simp_all add: set_dirty_def fun_upd_idem)
qed (use heldD(5) [OF assms] in \<open>auto simp: set_dirty_def buf_at_set_buf\<close>)

lemma move_to_front:
  assumes "bc_inv s" "i < NBUF"
  shows "bc_inv (s\<lparr>lru := i # remove1 i (lru s)\<rparr>)"
    and "content (s\<lparr>lru := i # remove1 i (lru s)\<rparr>) = content s"
    and "dirty_blocks (s\<lparr>lru := i # remove1 i (lru s)\<rparr>) = dirty_blocks s"
proof -
  let ?s = "s\<lparr>lru := i # remove1 i (lru s)\<rparr>"
  have hb: "holds_block ?s j x \<longleftrightarrow> holds_block s j x" for j x by (simp add: holds_block_def)
  have bo: "buf_ok ?s = buf_ok s" by (simp add: buf_ok_def fun_eq_iff)
  show inv: "bc_inv ?s"
    using assms unfolding bc_inv_def hb bo by (auto simp: set_remove1_eq)
  show "content ?s = content s"
    by (rule ext, rule content_eqI [OF assms(1) inv]) (use hb in auto)
  show "dirty_blocks ?s = dirty_blocks s" by (simp add: dirty_blocks_def hb)
qed

lemma brelse_held:
  assumes "held pid bn i s" "bn \<in> dirty_blocks s \<or> content s bn = disk s ! bn"
  shows "\<exists>s'. brelse pid i s = Ok s' \<and> bc_inv s' \<and> content s' = content s
    \<and> dirty_blocks s' = dirty_blocks s \<and> disk s' = disk s \<and> writes s' = writes s
    \<and> (\<forall>j. j \<noteq> i \<longrightarrow> buf_at s' j = buf_at s j)
    \<and> buf_at s' i = (buf_at s i)\<lparr>block_lock := releasesleep (block_lock (buf_at s i)),
                                  brefcnt := brefcnt (buf_at s i) - 1\<rparr>"
proof -
  note hd = heldD [OF assms(1)]
  let ?b = "(buf_at s i)\<lparr>block_lock := releasesleep (block_lock (buf_at s i)),
                brefcnt := brefcnt (buf_at s i) - 1\<rparr>"
  let ?s1 = "set_buf i ?b s"
  have "buf_ok s ?b"
    using bc_invD(6) [OF hd(1,4)] hd(3,10,13) assms(2) dirty_cached [OF hd(1,2)]
    by (auto simp: buf_ok_def releasesleep_def)
  then have inv1: "bc_inv ?s1"
    by (rule bc_inv_set_buf [OF hd(1,4)]) (use hd(2,10) bc_invD(5) [OF hd(1)] in auto)
  have hb: "holds_block ?s1 j x \<longleftrightarrow> holds_block s j x" for j x
    using hd(2) unfolding holds_block_set_buf [OF hd(5)] by (auto simp: holds_block_def)
  have b1: "buf_at ?s1 i = ?b" "\<And>j. j \<noteq> i \<Longrightarrow> buf_at ?s1 j = buf_at s j"
    using hd(5) by (simp_all add: buf_at_set_buf)
  have same: "bvalid (buf_at ?s1 j) = bvalid (buf_at s j)" "bdata (buf_at ?s1 j) = bdata (buf_at s j)"
    "bdirty (buf_at ?s1 j) = bdirty (buf_at s j)" for j
    using b1 by (cases "j = i"; simp)+
  have c1: "content ?s1 = content s"
    by (rule ext, rule content_eqI [OF hd(1) inv1]) (use hb same in auto)
  have d1: "dirty_blocks ?s1 = dirty_blocks s" unfolding dirty_blocks_def hb same ..
  note mv = move_to_front [OF inv1 hd(4)]
  show ?thesis
  proof (cases "brefcnt (buf_at s i) = 1")
    case True
    then have "brelse pid i s = Ok (?s1\<lparr>lru := i # remove1 i (lru ?s1)\<rparr>)"
      using hd(6) by (simp add: brelse_def Let_def)
    then show ?thesis using mv c1 d1 b1 by simp
  next
    case False
    then have "brelse pid i s = Ok ?s1" using hd(6,8) by (simp add: brelse_def Let_def)
    then show ?thesis using inv1 c1 d1 b1 by simp
  qed
qed

text \<open>A fresh cache over any disk of well-sized blocks.\<close>

lemma binit_ok:
  assumes "\<forall>b \<in> set d. length b = BSIZE"
  shows "bc_inv (binit d)" "idle (binit d)" "dirty_blocks (binit d) = {}" "disk (binit d) = d"
    "writes (binit d) = []" "content (binit d) = (!) d"
proof -
  let ?s = "binit d"
  have b: "buf_at ?s i = zero_buf\<lparr>block_lock := initsleeplock zero_lock ''buffer''\<rparr>" if "i < NBUF" for i
    using that by (simp add: binit_def zero_buf_def)
  have nh: "\<not> holds_block ?s i bn" for i bn
    using b by (auto simp: holds_block_def zero_buf_def)
  have lru: "lru ?s = rev [0..<NBUF]"
  proof -
    have "fold (\<lambda>b l. b # l) xs ys = rev xs @ ys" for xs ys :: "nat list"
      by (induction xs arbitrary: ys) auto
    then show ?thesis by (simp add: binit_def)
  qed
  show "bc_inv ?s"
    using assms nh b lru unfolding bc_inv_def
    by (auto simp: binit_def buf_ok_def zero_buf_def initsleeplock_def zero_lock_def)
  show "idle ?s" using b by (auto simp: idle_def zero_buf_def)
  show "dirty_blocks ?s = {}" using nh by (auto simp: dirty_blocks_def)
  show "disk ?s = d" "writes ?s = []" by (simp_all add: binit_def)
  then show "content ?s = (!) d" using nh content_uncached [of ?s] by auto
qed

lemma idle_unlocked:
  "bc_inv s \<Longrightarrow> idle s \<Longrightarrow> holds_block s i bn \<Longrightarrow> \<not> slk_locked (block_lock (buf_at s i))"
  using bc_invD(6) [of s i] by (auto simp: idle_def holds_block_def buf_ok_def)

subsection \<open>One operation on an idle cache\<close>

text \<open>A sequence of calls between which no other process runs: read one or two blocks, write
  one back, release them.  \<open>owners\<close> are the referenced buffers.\<close>

definition owners :: "io \<Rightarrow> nat set" where
  "owners s = {i. i < NBUF \<and> 0 < brefcnt (buf_at s i)}"

definition quiet :: "io \<Rightarrow> bool" where
  "quiet s \<longleftrightarrow> bc_inv s \<and> owners s = {}"

definition same_view :: "io \<Rightarrow> io \<Rightarrow> bool" where
  "same_view s s' \<longleftrightarrow> content s' = content s \<and> dirty_blocks s' = dirty_blocks s
     \<and> disk s' = disk s \<and> writes s' = writes s"

lemma quiet_idle: "quiet s \<longleftrightarrow> bc_inv s \<and> idle s"
  by (auto simp: quiet_def owners_def idle_def)

lemma same_view_trans: "same_view s s1 \<Longrightarrow> same_view s1 s2 \<Longrightarrow> same_view s s2"
  by (simp add: same_view_def)

lemma clean_or_dirty:
  assumes "bc_inv s" "\<And>i. holds_block s i bn \<Longrightarrow> i \<notin> owners s"
  shows "bn \<in> dirty_blocks s \<or> content s bn = disk s ! bn"
proof (cases "\<exists>i. holds_block s i bn \<and> bvalid (buf_at s i)")
  case True
  then obtain i where i: "holds_block s i bn" "bvalid (buf_at s i)" by blast
  then have "i < NBUF" "brefcnt (buf_at s i) = 0"
    using assms(2) by (auto simp: owners_def holds_block_def)
  then show ?thesis
    using bc_invD(6) [OF assms(1)] i content_cached [OF assms(1) i] dirty_cached [OF assms(1) i(1)]
    by (fastforce simp: buf_ok_def holds_block_def)
next
  case False
  then show ?thesis using content_uncached by blast
qed

lemma bread_avail:
  assumes inv: "bc_inv s" and own: "\<And>i. i \<in> owners s \<Longrightarrow> bdev (buf_at s i) = 1"
    and card: "card (dirty_blocks s \<union> (\<lambda>i. bblockno (buf_at s i)) ` owners s \<union> {x}) \<le> NBUF"
  shows "(\<exists>i. holds_block s i x) \<or> has_free s"
proof (rule disjCI)
  let ?f = "\<lambda>i. bblockno (buf_at s i)"
  let ?B = "dirty_blocks s \<union> ?f ` owners s"
  assume nf: "\<not> has_free s"
  have dev: "holds_block s i (?f i)" "?f i \<in> ?B" if i: "i < NBUF" for i
  proof -
    have busy: "i \<in> owners s \<or> bdirty (buf_at s i)"
      using nf i by (auto simp: has_free_def owners_def)
    show h: "holds_block s i (?f i)"
      using busy own bc_invD(6) [OF inv i] i by (auto simp: holds_block_def buf_ok_def)
    show "?f i \<in> ?B" using busy h by (auto simp: dirty_blocks_def)
  qed
  have inj: "inj_on ?f {..<NBUF}"
  proof (rule inj_onI)
    fix i j assume "i \<in> {..<NBUF}" "j \<in> {..<NBUF}" "?f i = ?f j"
    then show "i = j" using dev(1) [of i] dev(1) [of j] bc_invD(5) [OF inv] by simp
  qed
  have "?B \<subseteq> ?f ` {..<NBUF}"
    by (auto simp: dirty_blocks_def holds_block_def owners_def)
  then have B: "?B = ?f ` {..<NBUF}" using dev(2) by auto
  then have fin: "finite ?B" by simp
  have "card ?B = NBUF" unfolding B using card_image [OF inj] by simp
  with card fin have "x \<in> ?B" by (cases "x \<in> ?B") auto
  then obtain i where "i < NBUF" "x = ?f i" unfolding B by auto
  with dev(1) show "\<exists>i. holds_block s i x" by blast
qed

lemma owners_grabbed:
  assumes "grabbed pid bn i s s'" "bc_inv s" "i \<notin> owners s"
  shows "owners s' = insert i (owners s)" "brefcnt (buf_at s' i) = 1"
    "same_view s s'" "held pid bn i s'" "\<And>j. j \<noteq> i \<Longrightarrow> buf_at s' j = buf_at s j"
proof -
  have i: "i < NBUF" using assms(1) by (auto simp: grabbed_def holds_block_def)
  then show rc: "brefcnt (buf_at s' i) = 1"
    using assms by (auto simp: grabbed_def owners_def)
  show oth: "\<And>j. j \<noteq> i \<Longrightarrow> buf_at s' j = buf_at s j" using assms(1) by (simp add: grabbed_def)
  show "owners s' = insert i (owners s)"
  proof -
    have "j \<in> owners s' \<longleftrightarrow> j = i \<or> j \<in> owners s" for j
      using rc oth i by (cases "j = i") (auto simp: owners_def)
    then show ?thesis by blast
  qed
  show "same_view s s'" using assms(1) by (simp add: same_view_def grabbed_def)
  show "held pid bn i s'" by (rule grabbed_held [OF assms(1)])
qed

lemma bread_unowned:
  assumes "bc_inv s" "x < length (disk s)" "\<And>i. holds_block s i x \<Longrightarrow> i \<notin> owners s"
    "(\<exists>i. holds_block s i x) \<or> has_free s"
  shows "\<exists>i s'. bread pid 1 x s = Ok (i, s') \<and> grabbed pid x i s s' \<and> i \<notin> owners s"
proof -
  have "\<not> slk_locked (block_lock (buf_at s i))" if "holds_block s i x" for i
    using assms(3) [OF that] that bc_invD(6) [OF assms(1), of i]
    by (auto simp: owners_def holds_block_def buf_ok_def)
  from bread_ok [OF assms(1,2) this assms(4)] obtain i s' where
    i: "bread pid 1 x s = Ok (i, s')" "grabbed pid x i s s'" by blast
  have "i \<notin> owners s" using i(2) assms(3) [of i] by (auto simp: grabbed_def owners_def)
  with i show ?thesis by blast
qed

lemma bread_quiet:
  assumes "quiet s" "x < length (disk s)" "card (dirty_blocks s \<union> {x}) \<le> NBUF"
  shows "\<exists>i s1. bread pid 1 x s = Ok (i, s1) \<and> held pid x i s1 \<and> owners s1 = {i}
    \<and> brefcnt (buf_at s1 i) = 1 \<and> same_view s s1"
proof -
  have q: "bc_inv s" "owners s = {}" using assms(1) by (auto simp: quiet_def)
  have "(\<exists>i. holds_block s i x) \<or> has_free s"
    by (rule bread_avail [OF q(1)]) (use q assms(3) in auto)
  from bread_unowned [OF q(1) assms(2) _ this, of pid] q(2) obtain i s1 where
    i: "bread pid 1 x s = Ok (i, s1)" "grabbed pid x i s s1" "i \<notin> owners s" by auto
  from owners_grabbed [OF i(2) q(1) i(3)] i(1) q(2) show ?thesis by auto
qed

lemma held_transfer:
  assumes "held pid bn i s" "bc_inv s'" "buf_at s' i = buf_at s i"
  shows "held pid bn i s'"
  using assms by (auto simp: held_def holds_block_def)

lemma bread_pair:
  assumes "quiet s" "x < length (disk s)" "y < length (disk s)" "x \<noteq> y"
    "card (dirty_blocks s \<union> {x, y}) \<le> NBUF"
  shows "\<exists>i s1 j s2. bread pid 1 x s = Ok (i, s1) \<and> bread pid 1 y s1 = Ok (j, s2)
    \<and> held pid x i s2 \<and> held pid y j s2 \<and> i \<noteq> j \<and> owners s2 = {i, j}
    \<and> brefcnt (buf_at s2 i) = 1 \<and> brefcnt (buf_at s2 j) = 1 \<and> same_view s s2"
proof -
  have fin: "finite (dirty_blocks s)"
    by (rule finite_subset [of _ "(\<lambda>i. bblockno (buf_at s i)) ` {..<NBUF}"])
       (auto simp: dirty_blocks_def holds_block_def)
  have "card (dirty_blocks s \<union> {x}) \<le> card (dirty_blocks s \<union> {x, y})"
    by (rule card_mono) (use fin in auto)
  with assms(5) have c1: "card (dirty_blocks s \<union> {x}) \<le> NBUF" by simp
  obtain i s1 where i: "bread pid 1 x s = Ok (i, s1)" "held pid x i s1" "owners s1 = {i}"
    "brefcnt (buf_at s1 i) = 1" "same_view s s1"
    using bread_quiet [OF assms(1,2) c1] by blast
  note hd = heldD [OF i(2)]
  have hb: "holds_block s1 i x" "bdev (buf_at s1 i) = 1" "bblockno (buf_at s1 i) = x"
    using hd(2) by (auto simp: holds_block_def)
  have "(\<exists>j. holds_block s1 j y) \<or> has_free s1"
    by (rule bread_avail [OF hd(1)])
       (use i(3,5) hb assms(5) in \<open>auto simp: same_view_def insert_commute\<close>)
  then have "\<exists>j s'. bread pid 1 y s1 = Ok (j, s') \<and> grabbed pid y j s1 s' \<and> j \<notin> owners s1"
    by (intro bread_unowned) (use hd(1) i(3,5) hb assms(3,4) in \<open>auto simp: same_view_def holds_block_def\<close>)
  then obtain j s2 where j: "bread pid 1 y s1 = Ok (j, s2)" "grabbed pid y j s1 s2" "j \<notin> owners s1" by blast
  note og = owners_grabbed [OF j(2) hd(1) j(3)]
  have "held pid x i s2"
    by (rule held_transfer [OF i(2)]) (use og(4,5) j(3) i(3) in \<open>auto simp: held_def\<close>)
  then show ?thesis
    using i j og same_view_trans [OF i(5) og(3)] by (intro exI [of _ i] exI [of _ s1] exI [of _ j] exI [of _ s2]) auto
qed

lemma brelse_owned:
  assumes "held pid bn i s" "brefcnt (buf_at s i) = 1" "bn \<in> dirty_blocks s \<or> content s bn = disk s ! bn"
  shows "\<exists>s'. brelse pid i s = Ok s' \<and> bc_inv s' \<and> owners s' = owners s - {i} \<and> same_view s s'
    \<and> (\<forall>j. j \<noteq> i \<longrightarrow> buf_at s' j = buf_at s j)"
proof -
  obtain s' where s': "brelse pid i s = Ok s'" "bc_inv s'" "content s' = content s"
    "dirty_blocks s' = dirty_blocks s" "disk s' = disk s" "writes s' = writes s"
    "\<forall>j. j \<noteq> i \<longrightarrow> buf_at s' j = buf_at s j" "brefcnt (buf_at s' i) = brefcnt (buf_at s i) - 1"
    using brelse_held [OF assms(1,3)] by auto
  have "owners s' = owners s - {i}"
  proof -
    have "j \<in> owners s' \<longleftrightarrow> j \<in> owners s \<and> j \<noteq> i" for j
      using s'(7,8) assms(2) by (cases "j = i") (auto simp: owners_def)
    then show ?thesis by blast
  qed
  with s' show ?thesis by (auto simp: same_view_def)
qed

text \<open>What one write through the cache does, and its composition over a list of writes.\<close>

definition apply_writes :: "(nat \<times> block) list \<Rightarrow> block list \<Rightarrow> block list" where
  "apply_writes ws d = fold (\<lambda>(bn, b) d. d[bn := b]) ws d"

definition override :: "(nat \<times> block) list \<Rightarrow> (nat \<Rightarrow> block) \<Rightarrow> nat \<Rightarrow> block" where
  "override ws f = fold (\<lambda>(bn, b) f. f(bn := b)) ws f"

definition wrote :: "(nat \<times> block) list \<Rightarrow> io \<Rightarrow> io \<Rightarrow> bool" where
  "wrote ws s s' \<longleftrightarrow> quiet s' \<and> content s' = override ws (content s)
     \<and> dirty_blocks s' = dirty_blocks s - fst ` set ws
     \<and> disk s' = apply_writes ws (disk s) \<and> writes s' = writes s @ ws"

lemma wrote_Nil: "quiet s \<Longrightarrow> wrote [] s s"
  by (simp add: wrote_def override_def apply_writes_def)

lemma wrote_append: "wrote ws s s1 \<Longrightarrow> wrote ws' s1 s2 \<Longrightarrow> wrote (ws @ ws') s s2"
  by (auto simp: wrote_def override_def apply_writes_def)

lemma length_apply_writes [simp]: "length (apply_writes ws d) = length d"
  by (induction ws arbitrary: d) (auto simp: apply_writes_def)

lemma wrote_length: "wrote ws s s' \<Longrightarrow> length (disk s') = length (disk s)"
  by (simp add: wrote_def)

lemma bwrite_set_data:
  assumes "held pid bn i s" "length d = BSIZE"
  shows "\<exists>s'. bwrite pid i (set_data i d s) = Ok s' \<and> held pid bn i s'
    \<and> content s' = (content s)(bn := d) \<and> dirty_blocks s' = dirty_blocks s - {bn}
    \<and> disk s' = (disk s)[bn := d] \<and> writes s' = writes s @ [(bn, d)] \<and> owners s' = owners s
    \<and> (\<forall>j. j \<noteq> i \<longrightarrow> buf_at s' j = buf_at s j) \<and> brefcnt (buf_at s' i) = brefcnt (buf_at s i)"
proof -
  note sd = set_data_held [OF assms]
  obtain s' where s': "bwrite pid i (set_data i d s) = Ok s'" "held pid bn i s'"
    "content s' = content (set_data i d s)" "dirty_blocks s' = dirty_blocks (set_data i d s) - {bn}"
    "disk s' = (disk (set_data i d s))[bn := content (set_data i d s) bn]"
    "writes s' = writes (set_data i d s) @ [(bn, content (set_data i d s) bn)]"
    "\<forall>j. j \<noteq> i \<longrightarrow> buf_at s' j = buf_at (set_data i d s) j"
    "buf_at s' i = (buf_at (set_data i d s) i)\<lparr>bdirty := False\<rparr>"
    using bwrite_held [OF sd(1)] by blast
  have oth: "\<forall>j. j \<noteq> i \<longrightarrow> buf_at s' j = buf_at s j" "brefcnt (buf_at s' i) = brefcnt (buf_at s i)"
    using s'(7,8) sd(4,5) by auto
  then have "brefcnt (buf_at s' j) = brefcnt (buf_at s j)" for j by (cases "j = i") auto
  then have "owners s' = owners s" by (simp add: owners_def)
  with s' sd oth show ?thesis by auto
qed

end
