(* ===== verification/Bytes.thy ===== *)
theory Bytes
  imports Prelude
begin

unbundle bit_operations_syntax

text \<open>
  Integers in memory: the little-endian two and four byte cells through which the sources
  read and write structs laid over byte arrays (log header, superblock, on-disk inodes and
  directory entries), with the read-after-write laws the users need.
\<close>

definition le16 :: "u16 \<Rightarrow> byte list" where
  "le16 w = [ucast w, ucast (drop_bit 8 w)]"

definition le32 :: "u32 \<Rightarrow> byte list" where
  "le32 w = [ucast w, ucast (drop_bit 8 w), ucast (drop_bit 16 w), ucast (drop_bit 24 w)]"

fun un16 :: "byte list \<Rightarrow> u16" where
  "un16 (a # b # _) = ucast a OR push_bit 8 (ucast b)"
| "un16 _ = 0"

fun un32 :: "byte list \<Rightarrow> u32" where
  "un32 (a # b # c # d # _) =
     ucast a OR push_bit 8 (ucast b) OR push_bit 16 (ucast c) OR push_bit 24 (ucast d)"
| "un32 _ = 0"

lemma un16_le16 [simp]: "un16 (le16 w @ r) = w"
  by (rule bit_word_eqI) (auto simp: le16_def bit_simps)

lemma un32_le32 [simp]: "un32 (le32 w @ r) = w"
proof (rule bit_word_eqI)
  fix n assume "n < LENGTH(32)"
  then consider "n < 8" | "8 \<le> n" "n < 16" | "16 \<le> n" "n < 24" | "24 \<le> n" "n < 32"
    by (cases "n < 8"; cases "n < 16"; cases "n < 24") auto
  then show "bit (un32 (le32 w @ r)) n = bit w n"
    by cases (auto simp: le32_def bit_simps)
qed

lemma length_le [simp]: "length (le16 w) = 2" "length (le32 v) = 4"
  by (simp_all add: le16_def le32_def)

text \<open>Reading and writing a run of bytes inside a block.\<close>

definition get_bytes :: "nat \<Rightarrow> nat \<Rightarrow> byte list \<Rightarrow> byte list" where
  "get_bytes off n d = take n (drop off d)"

definition put_bytes :: "nat \<Rightarrow> byte list \<Rightarrow> byte list \<Rightarrow> byte list" where
  "put_bytes off bs d = take off d @ bs @ drop (off + length bs) d"

definition get32 :: "nat \<Rightarrow> byte list \<Rightarrow> u32" where
  "get32 off d = un32 (get_bytes off 4 d)"

definition put32 :: "nat \<Rightarrow> u32 \<Rightarrow> byte list \<Rightarrow> byte list" where
  "put32 off w d = put_bytes off (le32 w) d"

definition get16 :: "nat \<Rightarrow> byte list \<Rightarrow> u16" where
  "get16 off d = un16 (get_bytes off 2 d)"

definition put16 :: "nat \<Rightarrow> u16 \<Rightarrow> byte list \<Rightarrow> byte list" where
  "put16 off w d = put_bytes off (le16 w) d"

lemma length_put_bytes [simp]:
  "off + length bs \<le> length d \<Longrightarrow> length (put_bytes off bs d) = length d"
  by (simp add: put_bytes_def)

lemma get_put_bytes [simp]:
  "off + length bs \<le> length d \<Longrightarrow> n = length bs \<Longrightarrow> get_bytes off n (put_bytes off bs d) = bs"
  by (simp add: put_bytes_def get_bytes_def)

lemma nth_put_bytes:
  assumes "off + length bs \<le> length d" "i < length d"
  shows "put_bytes off bs d ! i =
    (if off \<le> i \<and> i < off + length bs then bs ! (i - off) else d ! i)"
  using assms by (auto simp: put_bytes_def nth_append min_def)

lemma get_bytes_eqI:
  assumes "length d = length d'" "\<And>i. off \<le> i \<Longrightarrow> i < off + n \<Longrightarrow> i < length d \<Longrightarrow> d ! i = d' ! i"
  shows "get_bytes off n d = get_bytes off n d'"
  unfolding get_bytes_def by (rule nth_equalityI) (use assms in auto)

lemma get_put_bytes_other:
  assumes "off + length bs \<le> length d" "off' + n \<le> off \<or> off + length bs \<le> off'"
  shows "get_bytes off' n (put_bytes off bs d) = get_bytes off' n d"
  by (rule get_bytes_eqI) (use assms in \<open>auto simp: nth_put_bytes\<close>)

lemma get_put_32 [simp]: "off + 4 \<le> length d \<Longrightarrow> get32 off (put32 off w d) = w"
  using un32_le32 [of w "[]"] by (simp add: get32_def put32_def del: un32_le32)

lemma get_put_32_other [simp]:
  "off + 4 \<le> length d \<Longrightarrow> off' + 4 \<le> off \<or> off + 4 \<le> off' \<Longrightarrow> get32 off' (put32 off w d) = get32 off' d"
  by (simp add: get32_def put32_def get_put_bytes_other)

lemma length_put32 [simp]: "off + 4 \<le> length d \<Longrightarrow> length (put32 off w d) = length d"
  by (simp add: put32_def)

lemma get_put_16 [simp]: "off + 2 \<le> length d \<Longrightarrow> get16 off (put16 off w d) = w"
  using un16_le16 [of w "[]"] by (simp add: get16_def put16_def del: un16_le16)

lemma get_put_16_other [simp]:
  "off + 2 \<le> length d \<Longrightarrow> off' + 2 \<le> off \<or> off + 2 \<le> off' \<Longrightarrow> get16 off' (put16 off w d) = get16 off' d"
  by (simp add: get16_def put16_def get_put_bytes_other)

lemma length_put16 [simp]: "off + 2 \<le> length d \<Longrightarrow> length (put16 off w d) = length d"
  by (simp add: put16_def)

end
