(* ===== verification/Log.thy ===== *)
theory Log
  imports Bio Bytes
begin

text \<open>
  The write-ahead log \<^verbatim>\<open>p4/log.c\<close> above the buffer cache, with \<^verbatim>\<open>readsb\<close> of \<^verbatim>\<open>p4/fs.c\<close> which
  \<^verbatim>\<open>initlog\<close> calls.  The in-memory header \<^verbatim>\<open>log.lh\<close> is the list of its first \<^verbatim>\<open>n\<close> entries; no code
  reads an entry past \<^verbatim>\<open>n\<close>.  The spinlock \<^verbatim>\<open>log.lock\<close> makes each critical section one step; a call
  that would sleep is \<open>Wait\<close>.  The main result is crash safety: power may fail between any two
  disk writes of a commit, and again between any two disk writes of each recovery, and the
  blocks outside the log come back all old or all new.
\<close>

subsection \<open>Superblock and log header on disk\<close>

definition MAXOPBLOCKS :: nat where "MAXOPBLOCKS = 10"
definition LOGSIZE :: nat where "LOGSIZE = MAXOPBLOCKS * 3"

record superblock =
  sb_size :: nat
  sb_nblocks :: nat
  sb_ninodes :: nat
  sb_nlog :: nat
  sb_logstart :: nat
  sb_inodestart :: nat
  sb_bmapstart :: nat

definition superblock_of :: "block \<Rightarrow> superblock" where
  "superblock_of d = \<lparr>sb_size = unat (get32 0 d), sb_nblocks = unat (get32 4 d),
     sb_ninodes = unat (get32 8 d), sb_nlog = unat (get32 12 d), sb_logstart = unat (get32 16 d),
     sb_inodestart = unat (get32 20 d), sb_bmapstart = unat (get32 24 d)\<rparr>"

definition readsb :: "nat \<Rightarrow> nat \<Rightarrow> io \<Rightarrow> (superblock \<times> io) outcome" where
  "readsb pid dev s =
     and_then (bread pid dev 1 s) (\<lambda>(i, s1).
       and_then (brelse pid i s1) (\<lambda>s2. Ok (superblock_of (bdata (buf_at s1 i)), s2)))"

fun put_entries :: "nat \<Rightarrow> nat list \<Rightarrow> block \<Rightarrow> block" where
  "put_entries i [] d = d"
| "put_entries i (b # bs) d = put_entries (Suc i) bs (put32 (4 + 4 * i) (of_nat b) d)"

definition put_head :: "nat list \<Rightarrow> block \<Rightarrow> block" where
  "put_head bs d = put_entries 0 bs (put32 0 (of_nat (length bs)) d)"

text \<open>The loop of \<^verbatim>\<open>read_head\<close> stores to \<^verbatim>\<open>log.lh.block[i]\<close>; past \<^verbatim>\<open>LOGSIZE\<close> entries that would be a store
  outside the array, written as a stop here.\<close>

definition get_head :: "block \<Rightarrow> nat list outcome" where
  "get_head d =
     (let n = nat (sint (get32 0 d)) in
      if n > LOGSIZE then Panic ''log header overflows log.lh''
      else Ok (map (\<lambda>i. unat (get32 (4 + 4 * i) d)) [0..<n]))"

subsection \<open>Operations\<close>

record log =
  lstart :: nat
  lsize :: nat
  outstanding :: int
  committing :: bool
  ldev :: nat
  lh :: "nat list"

definition install_step :: "nat \<Rightarrow> nat \<Rightarrow> nat \<Rightarrow> nat \<Rightarrow> io \<Rightarrow> io outcome" where
  "install_step pid dev lblk dblk s =
     and_then (bread pid dev lblk s) (\<lambda>(lbuf, s).
     and_then (bread pid dev dblk s) (\<lambda>(dbuf, s).
     and_then (bwrite pid dbuf (set_data dbuf (bdata (buf_at s lbuf)) s)) (\<lambda>s.
     and_then (brelse pid lbuf s) (\<lambda>s.
     brelse pid dbuf s))))"

fun install_loop :: "nat \<Rightarrow> nat \<Rightarrow> nat \<Rightarrow> nat \<Rightarrow> nat list \<Rightarrow> io \<Rightarrow> io outcome" where
  "install_loop pid dev start tail [] s = Ok s"
| "install_loop pid dev start tail (b # bs) s =
     and_then (install_step pid dev (start + tail + 1) b s)
       (install_loop pid dev start (Suc tail) bs)"

definition install_trans :: "nat \<Rightarrow> log \<Rightarrow> io \<Rightarrow> io outcome" where
  "install_trans pid l s = install_loop pid (ldev l) (lstart l) 0 (lh l) s"

definition read_head :: "nat \<Rightarrow> log \<Rightarrow> io \<Rightarrow> (log \<times> io) outcome" where
  "read_head pid l s =
     and_then (bread pid (ldev l) (lstart l) s) (\<lambda>(i, s).
     and_then (get_head (bdata (buf_at s i))) (\<lambda>bs.
     and_then (brelse pid i s) (\<lambda>s. Ok (l\<lparr>lh := bs\<rparr>, s))))"

definition write_head :: "nat \<Rightarrow> log \<Rightarrow> io \<Rightarrow> io outcome" where
  "write_head pid l s =
     and_then (bread pid (ldev l) (lstart l) s) (\<lambda>(i, s).
     and_then (bwrite pid i (set_data i (put_head (lh l) (bdata (buf_at s i))) s)) (\<lambda>s.
     brelse pid i s))"

definition recover_from_log :: "nat \<Rightarrow> log \<Rightarrow> io \<Rightarrow> (log \<times> io) outcome" where
  "recover_from_log pid l s =
     and_then (read_head pid l s) (\<lambda>(l, s).
     and_then (install_trans pid l s) (\<lambda>s.
     let l = l\<lparr>lh := []\<rparr> in
     and_then (write_head pid l s) (\<lambda>s. Ok (l, s))))"

text \<open>\<^verbatim>\<open>sizeof(struct logheader)\<close> is \<^verbatim>\<open>4 + 4 * LOGSIZE\<close>; the static \<^verbatim>\<open>log\<close> is zero before.\<close>

definition initlog :: "nat \<Rightarrow> nat \<Rightarrow> io \<Rightarrow> (log \<times> io) outcome" where
  "initlog pid dev s =
     (if 4 + 4 * LOGSIZE \<ge> BSIZE then Panic ''initlog: too big logheader''
      else and_then (readsb pid dev s) (\<lambda>(sb, s).
        recover_from_log pid \<lparr>lstart = sb_logstart sb, lsize = sb_nlog sb, outstanding = 0,
          committing = False, ldev = dev, lh = []\<rparr> s))"

definition begin_op :: "log \<Rightarrow> log outcome" where
  "begin_op l =
     (if committing l then Wait
      else if int (length (lh l)) + (outstanding l + 1) * int MAXOPBLOCKS > int LOGSIZE then Wait
      else Ok (l\<lparr>outstanding := outstanding l + 1\<rparr>))"

definition write_log_step :: "nat \<Rightarrow> nat \<Rightarrow> nat \<Rightarrow> nat \<Rightarrow> io \<Rightarrow> io outcome" where
  "write_log_step pid dev cblk lblk s =
     and_then (bread pid dev lblk s) (\<lambda>(to, s).
     and_then (bread pid dev cblk s) (\<lambda>(from, s).
     and_then (bwrite pid to (set_data to (bdata (buf_at s from)) s)) (\<lambda>s.
     and_then (brelse pid from s) (\<lambda>s.
     brelse pid to s))))"

fun write_log_loop :: "nat \<Rightarrow> nat \<Rightarrow> nat \<Rightarrow> nat \<Rightarrow> nat list \<Rightarrow> io \<Rightarrow> io outcome" where
  "write_log_loop pid dev start tail [] s = Ok s"
| "write_log_loop pid dev start tail (b # bs) s =
     and_then (write_log_step pid dev b (start + tail + 1) s)
       (write_log_loop pid dev start (Suc tail) bs)"

definition write_log :: "nat \<Rightarrow> log \<Rightarrow> io \<Rightarrow> io outcome" where
  "write_log pid l s = write_log_loop pid (ldev l) (lstart l) 0 (lh l) s"

definition commit :: "nat \<Rightarrow> log \<Rightarrow> io \<Rightarrow> (log \<times> io) outcome" where
  "commit pid l s =
     (if length (lh l) > 0
      then and_then (write_log pid l s) (\<lambda>s.
           and_then (write_head pid l s) (\<lambda>s.
           and_then (install_trans pid l s) (\<lambda>s.
           let l = l\<lparr>lh := []\<rparr> in
           and_then (write_head pid l s) (\<lambda>s. Ok (l, s)))))
      else Ok (l, s))"

text \<open>The first critical section of \<^verbatim>\<open>end_op\<close> and its \<^verbatim>\<open>do_commit\<close>, then the whole call.\<close>

definition end_op_begin :: "log \<Rightarrow> (bool \<times> log) outcome" where
  "end_op_begin l =
     (let l = l\<lparr>outstanding := outstanding l - 1\<rparr> in
      if committing l then Panic ''log.committing''
      else if outstanding l = 0 then Ok (True, l\<lparr>committing := True\<rparr>)
      else Ok (False, l))"

definition end_op :: "nat \<Rightarrow> log \<Rightarrow> io \<Rightarrow> (log \<times> io) outcome" where
  "end_op pid l s =
     and_then (end_op_begin l) (\<lambda>(do_commit, l).
       if do_commit
       then and_then (commit pid l s) (\<lambda>(l, s). Ok (l\<lparr>committing := False\<rparr>, s))
       else Ok (l, s))"

definition log_write :: "nat \<Rightarrow> log \<Rightarrow> io \<Rightarrow> (log \<times> io) outcome" where
  "log_write i l s =
     (if length (lh l) \<ge> LOGSIZE \<or> int (length (lh l)) \<ge> int (lsize l) - 1
      then Panic ''too big a transaction''
      else if outstanding l < 1 then Panic ''log_write outside of trans''
      else let b = bblockno (buf_at s i) in
           Ok (if b \<in> set (lh l) then l else l\<lparr>lh := lh l @ [b]\<rparr>, set_dirty i s))"

subsection \<open>The header encoding\<close>

lemma length_put_entries:
  "4 + 4 * (i + length bs) \<le> length d \<Longrightarrow> length (put_entries i bs d) = length d"
  by (induction i bs d rule: put_entries.induct) auto

lemma put_entries_before:
  "4 + 4 * (i + length bs) \<le> length d \<Longrightarrow> off + 4 \<le> 4 + 4 * i \<Longrightarrow>
     get32 off (put_entries i bs d) = get32 off d"
  by (induction i bs d rule: put_entries.induct) auto

lemma put_entries_get:
  "4 + 4 * (i + length bs) \<le> length d \<Longrightarrow> k < length bs \<Longrightarrow>
     get32 (4 + 4 * (i + k)) (put_entries i bs d) = of_nat (bs ! k)"
proof (induction i bs d arbitrary: k rule: put_entries.induct)
  case (2 i b bs d)
  show ?case
  proof (cases k)
    case 0
    then show ?thesis using "2.prems" by (simp add: put_entries_before)
  next
    case (Suc m)
    with "2.IH" [of m] "2.prems" show ?thesis by simp
  qed
qed simp

definition header_ok :: "nat list \<Rightarrow> bool" where
  "header_ok bs \<longleftrightarrow> length bs \<le> LOGSIZE \<and> (\<forall>b \<in> set bs. b < 2 ^ 32)"

lemma sint_of_nat_small:
  assumes "n < 2 ^ 31"
  shows "sint (of_nat n :: u32) = int n"
  using assms by transfer (simp add: signed_take_bit_int_eq_self)

lemma get_put_head:
  assumes "header_ok bs" "length d = BSIZE"
  shows "get_head (put_head bs d) = Ok bs"
proof -
  have len: "length bs \<le> 30" using assms(1) by (simp add: header_ok_def LOGSIZE_def MAXOPBLOCKS_def)
  let ?d = "put32 0 (of_nat (length bs)) d"
  have fit: "4 + 4 * (0 + length bs) \<le> length ?d" using len assms(2) by (simp add: BSIZE_def)
  have "get32 0 (put_head bs d) = of_nat (length bs)"
    using put_entries_before [OF fit, of 0] assms(2) by (simp add: put_head_def BSIZE_def)
  then have n: "nat (sint (get32 0 (put_head bs d))) = length bs"
    using sint_of_nat_small [of "length bs"] len by simp
  have "unat (get32 (4 + 4 * i) (put_head bs d)) = bs ! i" if "i < length bs" for i
    using put_entries_get [OF fit that] assms(1) that nth_mem [OF that]
    by (simp add: put_head_def header_ok_def unat_of_nat)
  then have "map (\<lambda>i. unat (get32 (4 + 4 * i) (put_head bs d))) [0..<length bs] = bs"
    by (intro nth_equalityI) auto
  with n len show ?thesis by (simp add: get_head_def LOGSIZE_def MAXOPBLOCKS_def)
qed

lemma length_put_head:
  assumes "header_ok bs" "length d = BSIZE"
  shows "length (put_head bs d) = BSIZE"
  using assms by (simp add: put_head_def header_ok_def LOGSIZE_def MAXOPBLOCKS_def BSIZE_def length_put_entries)

subsection \<open>Copying blocks through the cache\<close>

text \<open>Both loops of the log copy one block over another through the cache.  What each loop body
  promises, and what a loop of such copies then does to the disk.\<close>

locale block_copy =
  fixes copy :: "nat \<Rightarrow> nat \<Rightarrow> io \<Rightarrow> io outcome"
  assumes copy_ok: "quiet s \<Longrightarrow> src < length (disk s) \<Longrightarrow> dst < length (disk s) \<Longrightarrow> src \<noteq> dst \<Longrightarrow>
    card (dirty_blocks s \<union> {src, dst}) \<le> NBUF \<Longrightarrow>
    \<exists>s'. copy src dst s = Ok s' \<and> wrote [(dst, content s src)] s s'"
begin

fun copies :: "(nat \<times> nat) list \<Rightarrow> io \<Rightarrow> io outcome" where
  "copies [] s = Ok s"
| "copies ((src, dst) # ps) s = and_then (copy src dst s) (copies ps)"

lemma copies_ok:
  assumes "quiet s" "finite (dirty_blocks s)"
    "\<And>a b. (a, b) \<in> set ps \<Longrightarrow> a < length (disk s) \<and> b < length (disk s) \<and> a \<notin> snd ` set ps
       \<and> card (dirty_blocks s \<union> {a, b}) \<le> NBUF"
  shows "\<exists>s'. copies ps s = Ok s' \<and> wrote (map (\<lambda>(a, b). (b, content s a)) ps) s s'"
  using assms
proof (induction ps arbitrary: s)
  case Nil
  then show ?case by (simp add: wrote_Nil)
next
  case (Cons p ps)
  obtain a b where p: "p = (a, b)" by (cases p)
  have ab: "a < length (disk s)" "b < length (disk s)" "a \<noteq> b" "card (dirty_blocks s \<union> {a, b}) \<le> NBUF"
    using Cons.prems(3) [of a b] by (auto simp: p)
  obtain s1 where s1: "copy a b s = Ok s1" "wrote [(b, content s a)] s s1"
    using copy_ok [OF Cons.prems(1) ab] by blast
  have d1: "dirty_blocks s1 = dirty_blocks s - {b}" "quiet s1" "length (disk s1) = length (disk s)"
    "content s1 = (content s)(b := content s a)"
    using s1(2) wrote_length [OF s1(2)] by (auto simp: wrote_def override_def)
  have "\<exists>s'. copies ps s1 = Ok s' \<and> wrote (map (\<lambda>(a, b). (b, content s1 a)) ps) s1 s'"
  proof (rule Cons.IH [OF d1(2)])
    show "finite (dirty_blocks s1)" using Cons.prems(2) by (simp add: d1)
    fix x y assume xy: "(x, y) \<in> set ps"
    then have "x < length (disk s)" "y < length (disk s)" "x \<notin> snd ` set ps"
      and c: "card (dirty_blocks s \<union> {x, y}) \<le> NBUF"
      using Cons.prems(3) [of x y] by auto
    moreover have "card (dirty_blocks s1 \<union> {x, y}) \<le> card (dirty_blocks s \<union> {x, y})"
      by (rule card_mono) (use Cons.prems(2) d1 in auto)
    ultimately show "x < length (disk s1) \<and> y < length (disk s1) \<and> x \<notin> snd ` set ps
        \<and> card (dirty_blocks s1 \<union> {x, y}) \<le> NBUF"
      using d1 by simp
  qed
  moreover have "map (\<lambda>(a, b). (b, content s1 a)) ps = map (\<lambda>(a, b). (b, content s a)) ps"
    using Cons.prems(3) d1(4) by (fastforce simp: p)
  ultimately obtain s' where "copies ps s1 = Ok s'" "wrote (map (\<lambda>(a, b). (b, content s a)) ps) s1 s'"
    by auto
  then show ?case using s1 wrote_append [OF s1(2)] by (fastforce simp: p)
qed

end

lemma finite_dirty: "finite (dirty_blocks s)"
  by (rule finite_subset [of _ "(\<lambda>i. bblockno (buf_at s i)) ` {..<NBUF}"])
     (auto simp: dirty_blocks_def holds_block_def)

text \<open>The two orders in which the loops release their buffers.\<close>

lemma release_pair:
  assumes "held pid x i s" "held pid y j s" "i \<noteq> j" "owners s = {i, j}"
    "brefcnt (buf_at s i) = 1" "brefcnt (buf_at s j) = 1"
    "x \<in> dirty_blocks s \<or> content s x = disk s ! x" "y \<in> dirty_blocks s \<or> content s y = disk s ! y"
  shows "\<exists>s1 s2. brelse pid i s = Ok s1 \<and> brelse pid j s1 = Ok s2 \<and> quiet s2 \<and> same_view s s2"
proof -
  obtain s1 where s1: "brelse pid i s = Ok s1" "bc_inv s1" "owners s1 = owners s - {i}" "same_view s s1"
    "\<forall>k. k \<noteq> i \<longrightarrow> buf_at s1 k = buf_at s k"
    using brelse_owned [OF assms(1,5,7)] by blast
  have "held pid y j s1" "brefcnt (buf_at s1 j) = 1" "y \<in> dirty_blocks s1 \<or> content s1 y = disk s1 ! y"
    using held_transfer [OF assms(2) s1(2)] s1(4,5) assms(3,6,8) by (auto simp: same_view_def)
  from brelse_owned [OF this] obtain s2 where s2: "brelse pid j s1 = Ok s2" "bc_inv s2"
    "owners s2 = owners s1 - {j}" "same_view s1 s2" by blast
  have "quiet s2" using s2 s1(3) assms(4) by (auto simp: quiet_def)
  then show ?thesis using s1(1) s2(1) same_view_trans [OF s1(4) s2(4)] by blast
qed

lemma held_bdata: "held pid bn i s \<Longrightarrow> bdata (buf_at s i) = content s bn"
  by (metis held_def content_cached)

lemma held_less: "held pid bn i s \<Longrightarrow> bn < length (disk s)"
  by (rule heldD(11))

lemma write_then_release:
  assumes hx: "held pid x i s" and hy: "held pid y j s" and ne: "i \<noteq> j" and own: "owners s = {i, j}"
    and rc: "brefcnt (buf_at s i) = 1" "brefcnt (buf_at s j) = 1"
    and clean: "x \<in> dirty_blocks s \<or> content s x = disk s ! x" and xy: "x \<noteq> y"
  shows "\<exists>s1. bwrite pid j (set_data j (content s x) s) = Ok s1
    \<and> (\<exists>s2 s3. brelse pid i s1 = Ok s2 \<and> brelse pid j s2 = Ok s3 \<and> wrote [(y, content s x)] s s3)"
proof -
  have len: "length (content s x) = BSIZE"
    using length_content [OF heldD(1) [OF hx] held_less [OF hx]] .
  from bwrite_set_data [OF hy len] obtain s1 where
    s1: "bwrite pid j (set_data j (content s x) s) = Ok s1" "held pid y j s1"
      "content s1 = (content s)(y := content s x)" "dirty_blocks s1 = dirty_blocks s - {y}"
      "disk s1 = (disk s)[y := content s x]" "writes s1 = writes s @ [(y, content s x)]"
      "owners s1 = owners s" "\<forall>k. k \<noteq> j \<longrightarrow> buf_at s1 k = buf_at s k"
      "brefcnt (buf_at s1 j) = brefcnt (buf_at s j)" by blast
  have "held pid x i s1"
    by (rule held_transfer [OF hx]) (use s1(2,8) ne in \<open>auto simp: held_def\<close>)
  moreover have "x \<in> dirty_blocks s1 \<or> content s1 x = disk s1 ! x" "content s1 y = disk s1 ! y"
    using clean xy s1(3-5) held_less [OF hy] by auto
  ultimately obtain s2 s3 where s3: "brelse pid i s1 = Ok s2" "brelse pid j s2 = Ok s3"
      "quiet s3" "same_view s1 s3"
    using release_pair [of pid x i s1 y j] s1 ne own rc by auto
  then have "wrote [(y, content s x)] s s3"
    using s1 by (simp add: wrote_def same_view_def override_def apply_writes_def)
  with s1(1) s3 show ?thesis by blast
qed

lemma same_view_wrote: "same_view s s1 \<Longrightarrow> wrote ws s1 s2 \<Longrightarrow> wrote ws s s2"
  by (simp add: same_view_def wrote_def)

lemma quiet_clean: "quiet s \<Longrightarrow> bn \<in> dirty_blocks s \<or> content s bn = disk s ! bn"
  by (rule clean_or_dirty) (auto simp: quiet_def)

interpretation inst: block_copy "install_step pid 1" for pid
proof unfold_locales
  fix s src dst
  assume q: "quiet s" and b: "src < length (disk s)" "dst < length (disk s)" "src \<noteq> dst"
    "card (dirty_blocks s \<union> {src, dst}) \<le> NBUF"
  obtain i s1 j s2 where s2: "bread pid 1 src s = Ok (i, s1)" "bread pid 1 dst s1 = Ok (j, s2)"
    "held pid src i s2" "held pid dst j s2" "i \<noteq> j" "owners s2 = {i, j}"
    "brefcnt (buf_at s2 i) = 1" "brefcnt (buf_at s2 j) = 1" and v: "same_view s s2"
    using bread_pair [OF q b] by blast
  have "src \<in> dirty_blocks s2 \<or> content s2 src = disk s2 ! src"
    using quiet_clean [OF q, of src] v by (simp add: same_view_def)
  from write_then_release [OF s2(3-8) this b(3)] v
  show "\<exists>s'. install_step pid 1 src dst s = Ok s' \<and> wrote [(dst, content s src)] s s'"
    using s2(1,2) same_view_wrote [OF v]
    by (auto simp: install_step_def held_bdata [OF s2(3)] same_view_def)
qed

interpretation wlog: block_copy "write_log_step pid 1" for pid
proof unfold_locales
  fix s src dst
  assume q: "quiet s" and b: "src < length (disk s)" "dst < length (disk s)" "src \<noteq> dst"
    "card (dirty_blocks s \<union> {src, dst}) \<le> NBUF"
  have c: "card (dirty_blocks s \<union> {dst, src}) \<le> NBUF" using b(4) by (simp add: insert_commute)
  obtain j s1 i s2 where s2: "bread pid 1 dst s = Ok (j, s1)" "bread pid 1 src s1 = Ok (i, s2)"
    "held pid dst j s2" "held pid src i s2" "j \<noteq> i" "owners s2 = {j, i}"
    "brefcnt (buf_at s2 j) = 1" "brefcnt (buf_at s2 i) = 1" and v: "same_view s s2"
    using bread_pair [OF q b(2,1) b(3)[symmetric] c] by blast
  have "src \<in> dirty_blocks s2 \<or> content s2 src = disk s2 ! src"
    using quiet_clean [OF q, of src] v by (simp add: same_view_def)
  moreover have "owners s2 = {i, j}" using s2(6) by auto
  ultimately have "\<exists>s3. bwrite pid j (set_data j (content s2 src) s2) = Ok s3
    \<and> (\<exists>s4 s5. brelse pid i s3 = Ok s4 \<and> brelse pid j s4 = Ok s5 \<and> wrote [(dst, content s2 src)] s2 s5)"
    using write_then_release [OF s2(4,3) s2(5)[symmetric] _ s2(8,7) _ b(3)] by blast
  with v show "\<exists>s'. write_log_step pid 1 src dst s = Ok s' \<and> wrote [(dst, content s src)] s s'"
    using s2(1,2) same_view_wrote [OF v]
    by (auto simp: write_log_step_def held_bdata [OF s2(4)] same_view_def)
qed

text \<open>Log slot \<open>k\<close> is block \<open>start + k + 1\<close>.\<close>

definition slots :: "nat \<Rightarrow> nat \<Rightarrow> nat \<Rightarrow> nat list" where
  "slots start tail n = map (\<lambda>k. start + k + 1) [tail..<tail + n]"

lemma slots_Suc: "slots start tail (Suc n) = (start + tail + 1) # slots start (Suc tail) n"
  unfolding slots_def by (subst upt_conv_Cons) simp_all

lemma set_slots: "set (slots start tail n) = {start + tail + 1..<start + tail + 1 + n}"
proof -
  have "set (slots start tail n) = (\<lambda>k. k + (start + 1)) ` {tail..<tail + n}"
    by (auto simp: slots_def)
  then show ?thesis by (simp only: image_add_atLeastLessThan') (auto simp: algebra_simps)
qed

lemma length_slots [simp]: "length (slots start tail n) = n"
  by (simp add: slots_def)

lemma distinct_slots: "distinct (slots start tail n)"
  by (auto simp: slots_def distinct_map inj_on_def)

lemma nth_slots: "k < n \<Longrightarrow> slots start 0 n ! k = start + k + 1"
  by (simp add: slots_def)

lemma install_loop_copies:
  "install_loop pid 1 start tail bs s = inst.copies pid (zip (slots start tail (length bs)) bs) s"
proof (induction bs arbitrary: tail s)
  case (Cons b bs)
  then have "install_loop pid 1 start (Suc tail) bs
      = inst.copies pid (zip (slots start (Suc tail) (length bs)) bs)" by blast
  then show ?case by (simp add: slots_Suc del: One_nat_def)
qed (simp del: One_nat_def)

lemma write_log_loop_copies:
  "write_log_loop pid 1 start tail bs s = wlog.copies pid (zip bs (slots start tail (length bs))) s"
proof (induction bs arbitrary: tail s)
  case (Cons b bs)
  then have "write_log_loop pid 1 start (Suc tail) bs
      = wlog.copies pid (zip bs (slots start (Suc tail) (length bs)))" by blast
  then show ?case by (simp add: slots_Suc del: One_nat_def)
qed (simp del: One_nat_def)

lemma write_head_ok:
  assumes "quiet s" "ldev l = 1" "lstart l < length (disk s)" "header_ok (lh l)"
    "card (dirty_blocks s \<union> {lstart l}) \<le> NBUF"
  shows "\<exists>s'. write_head pid l s = Ok s' \<and> wrote [(lstart l, put_head (lh l) (content s (lstart l)))] s s'"
proof -
  let ?h = "lstart l" and ?d = "put_head (lh l) (content s (lstart l))"
  obtain i s1 where s1: "bread pid 1 ?h s = Ok (i, s1)" "held pid ?h i s1" "owners s1 = {i}"
    "brefcnt (buf_at s1 i) = 1" "same_view s s1"
    using bread_quiet [OF assms(1,3,5)] by blast
  have "length (content s ?h) = BSIZE" using assms(1,3) by (simp add: quiet_def length_content)
  then have "length ?d = BSIZE" by (rule length_put_head [OF assms(4)])
  from bwrite_set_data [OF s1(2) this] obtain s2 where
    s2: "bwrite pid i (set_data i ?d s1) = Ok s2" "held pid ?h i s2"
      "content s2 = (content s1)(?h := ?d)" "dirty_blocks s2 = dirty_blocks s1 - {?h}"
      "disk s2 = (disk s1)[?h := ?d]" "writes s2 = writes s1 @ [(?h, ?d)]" "owners s2 = owners s1"
      "brefcnt (buf_at s2 i) = brefcnt (buf_at s1 i)" by blast
  have "content s2 ?h = disk s2 ! ?h" using s2(3,5) assms(3) s1(5) by (simp add: same_view_def)
  then obtain s3 where s3: "brelse pid i s2 = Ok s3" "bc_inv s3" "owners s3 = owners s2 - {i}" "same_view s2 s3"
    using brelse_owned [OF s2(2)] s2(8) s1(4) by auto
  have "wrote [(?h, ?d)] s s3"
    using s3 s2 s1(3,5) by (auto simp: wrote_def quiet_def same_view_def override_def apply_writes_def)
  with s1 s2(1) s3(1) show ?thesis
    using assms(2) held_bdata [OF s1(2)] by (auto simp: write_head_def same_view_def)
qed

lemma bread_brelse:
  assumes "quiet s" "x < length (disk s)" "card (dirty_blocks s \<union> {x}) \<le> NBUF"
  shows "\<exists>i s1 s2. bread pid 1 x s = Ok (i, s1) \<and> bdata (buf_at s1 i) = content s x
    \<and> brelse pid i s1 = Ok s2 \<and> quiet s2 \<and> same_view s s2"
proof -
  obtain i s1 where s1: "bread pid 1 x s = Ok (i, s1)" "held pid x i s1" "owners s1 = {i}"
    "brefcnt (buf_at s1 i) = 1" "same_view s s1"
    using bread_quiet [OF assms] by blast
  have "x \<in> dirty_blocks s1 \<or> content s1 x = disk s1 ! x"
    using quiet_clean [OF assms(1), of x] s1(5) by (simp add: same_view_def)
  from brelse_owned [OF s1(2,4) this] obtain s2 where
    "brelse pid i s1 = Ok s2" "bc_inv s2" "owners s2 = owners s1 - {i}" "same_view s1 s2" by blast
  then show ?thesis
    using s1 held_bdata [OF s1(2)] same_view_trans [OF s1(5)] by (auto simp: quiet_def same_view_def)
qed

subsection \<open>Disks a crash may leave\<close>

lemma override_map_of:
  "override ws f bn = (case map_of (rev ws) bn of None \<Rightarrow> f bn | Some d \<Rightarrow> d)"
proof (induction ws arbitrary: f)
  case (Cons w ws)
  obtain b d where w: "w = (b, d)" by (cases w)
  have "override (w # ws) f bn = override ws (f(b := d)) bn" by (simp add: w override_def)
  also have "\<dots> = (case map_of (rev (w # ws)) bn of None \<Rightarrow> f bn | Some d \<Rightarrow> d)"
    unfolding Cons.IH by (auto simp: w map_add_def split: option.splits)
  finally show ?case .
qed (simp add: override_def)

lemma override_append: "override (a @ b) f = override b (override a f)"
  by (simp add: override_def)

lemma apply_writes_append: "apply_writes (a @ b) d = apply_writes b (apply_writes a d)"
  by (simp add: apply_writes_def)

lemma apply_writes_one [simp]: "apply_writes [(bn, b)] d = d[bn := b]"
  by (simp add: apply_writes_def)

lemma override_one [simp]: "override [(bn, b)] f = f(bn := b)"
  by (simp add: override_def)

lemma override_other: "bn \<notin> fst ` set ws \<Longrightarrow> override ws f bn = f bn"
proof -
  assume "bn \<notin> fst ` set ws"
  then have "map_of (rev ws) bn = None" by (simp add: map_of_eq_None_iff)
  then show ?thesis by (simp add: override_map_of)
qed

lemma override_cong_dom: "bn \<in> fst ` set ws \<Longrightarrow> override ws f bn = override ws g bn"
proof -
  assume "bn \<in> fst ` set ws"
  then have "map_of (rev ws) bn \<noteq> None" by (simp add: map_of_eq_None_iff)
  then show ?thesis by (auto simp: override_map_of)
qed

text \<open>Replaying a list of writes after a prefix of it is replaying the list.\<close>

lemma override_take: "override ws (override (take k ws) f) = override ws f"
proof
  fix bn
  show "override ws (override (take k ws) f) bn = override ws f bn"
  proof (cases "bn \<in> fst ` set ws")
    case True
    then show ?thesis by (rule override_cong_dom)
  next
    case False
    then have "bn \<notin> fst ` set (take k ws)" using set_take_subset [of k ws] by auto
    then show ?thesis using False by (simp add: override_other)
  qed
qed

lemma nth_apply_writes: "bn < length d \<Longrightarrow> apply_writes ws d ! bn = override ws ((!) d) bn"
proof (induction ws arbitrary: d)
  case (Cons w ws)
  obtain b v where w: "w = (b, v)" by (cases w)
  have "apply_writes (w # ws) d ! bn = apply_writes ws (d[b := v]) ! bn" by (simp add: w apply_writes_def)
  also have "\<dots> = override ws ((!) (d[b := v])) bn" using Cons by simp
  also have "\<dots> = override ws (((!) d)(b := v)) bn"
  proof (cases "bn \<in> fst ` set ws")
    case True
    then show ?thesis by (rule override_cong_dom)
  next
    case False
    then show ?thesis using Cons.prems by (simp add: override_other nth_list_update)
  qed
  finally show ?case by (simp add: w override_def)
qed (simp add: apply_writes_def override_def)

definition outside :: "nat \<Rightarrow> nat \<Rightarrow> nat \<Rightarrow> bool" where
  "outside start sz bn \<longleftrightarrow> bn < start \<or> start + sz \<le> bn"

definition layout :: "nat \<Rightarrow> nat \<Rightarrow> block list \<Rightarrow> bool" where
  "layout start sz D \<longleftrightarrow> 1 < start \<and> 1 \<le> sz \<and> sz \<le> LOGSIZE \<and> start + sz \<le> length D
     \<and> (\<forall>d \<in> set D. length d = BSIZE)
     \<and> sb_nlog (superblock_of (D ! 1)) = sz \<and> sb_logstart (superblock_of (D ! 1)) = start"

definition lh_fits :: "nat \<Rightarrow> nat \<Rightarrow> nat \<Rightarrow> nat list \<Rightarrow> bool" where
  "lh_fits start sz n bs \<longleftrightarrow> header_ok bs \<and> length bs < sz
     \<and> (\<forall>b \<in> set bs. outside start sz b \<and> b < n \<and> b \<noteq> 1)"

definition replay :: "nat \<Rightarrow> nat list \<Rightarrow> block list \<Rightarrow> (nat \<times> block) list" where
  "replay start bs D = zip bs (map ((!) D) (slots start 0 (length bs)))"

text \<open>A disk from which recovery will produce the contents \<open>f\<close> outside the log.\<close>

definition recoverable :: "nat \<Rightarrow> nat \<Rightarrow> block list \<Rightarrow> (nat \<Rightarrow> block) \<Rightarrow> bool" where
  "recoverable start sz D f \<longleftrightarrow> layout start sz D \<and>
     (\<exists>bs. get_head (D ! start) = Ok bs \<and> lh_fits start sz (length D) bs
       \<and> (\<forall>bn < length D. outside start sz bn \<longrightarrow> override (replay start bs D) ((!) D) bn = f bn))"

lemma fst_replay: "fst ` set (replay start bs D) = set bs"
  unfolding replay_def set_map [symmetric] by simp

lemma slots_inside:
  "length bs < sz \<Longrightarrow> bn \<in> set (slots start 0 (length bs)) \<Longrightarrow> \<not> outside start sz bn \<and> bn \<noteq> start \<and> bn < start + sz"
  by (auto simp: set_slots outside_def)

lemma layout_writes:
  assumes "layout start sz D" "\<And>b d. (b, d) \<in> set ws \<Longrightarrow> b \<noteq> 1 \<and> length d = BSIZE"
  shows "layout start sz (apply_writes ws D)"
proof -
  have "\<forall>d \<in> set (apply_writes ws D). length d = BSIZE"
    using assms(2) layout_def [THEN iffD1, OF assms(1)]
  proof (induction ws arbitrary: D)
    case (Cons w ws)
    obtain b d where w: "w = (b, d)" by (cases w)
    have eq: "apply_writes (w # ws) D = apply_writes ws (D[b := d])" by (simp add: w apply_writes_def)
    have "\<forall>x \<in> set (D[b := d]). length x = BSIZE"
      using Cons.prems w by (auto dest: subsetD [OF set_update_subset_insert])
    moreover have "D[b := d] ! 1 = D ! 1" using Cons.prems(1) [of b d] by (simp add: w)
    ultimately show ?case unfolding eq using Cons.IH [of "D[b := d]"] Cons.prems by auto
  qed (simp add: apply_writes_def)
  moreover have "1 < length D" using assms(1) by (auto simp: layout_def)
  moreover have "1 \<notin> fst ` set ws" using assms(2) by fastforce
  ultimately show ?thesis
    using assms(1) by (simp add: layout_def nth_apply_writes override_other)
qed

lemma layoutD:
  assumes "layout start sz D"
  shows "1 < start" "start < length D" "start + sz \<le> length D" "sz \<le> LOGSIZE" "0 < sz"
    "bn < length D \<Longrightarrow> length (D ! bn) = BSIZE" "\<not> outside start sz start"
  using assms by (auto simp: layout_def outside_def)

lemma replay_apply_writes:
  assumes "layout start sz D" "length bs < sz" "\<And>b. b \<in> fst ` set ws \<Longrightarrow> outside start sz b \<or> b = start"
  shows "replay start bs (apply_writes ws D) = replay start bs D"
proof -
  have "apply_writes ws D ! x = D ! x" if "x \<in> set (slots start 0 (length bs))" for x
  proof -
    have x: "\<not> outside start sz x" "x \<noteq> start" "x < length D"
      using slots_inside [OF assms(2) that] layoutD(3) [OF assms(1)] by auto
    then have "x \<notin> fst ` set ws" using assms(3) by blast
    with x show ?thesis by (simp add: nth_apply_writes override_other)
  qed
  then have "map ((!) (apply_writes ws D)) (slots start 0 (length bs)) = map ((!) D) (slots start 0 (length bs))"
    by (intro map_cong) auto
  then show ?thesis by (simp only: replay_def)
qed

lemma replay_sizes:
  assumes "layout start sz D" "lh_fits start sz (length D) bs" "(b, d) \<in> set (replay start bs D)"
  shows "b \<noteq> 1" "length d = BSIZE" "outside start sz b" "b < length D"
proof -
  have fits: "length bs < sz" using assms(2) by (simp add: lh_fits_def)
  have b: "b \<in> set bs" using assms(3) by (auto simp: replay_def dest: set_zip_leftD)
  then show "b \<noteq> 1" "outside start sz b" "b < length D" using assms(2) by (auto simp: lh_fits_def)
  have "d \<in> set (map ((!) D) (slots start 0 (length bs)))"
    using assms(3) unfolding replay_def by (rule set_zip_rightD)
  then obtain x where x: "x \<in> set (slots start 0 (length bs))" "d = D ! x" by auto
  have "x < length D" using slots_inside [OF fits x(1)] layoutD(3) [OF assms(1)] by simp
  then show "length d = BSIZE" using layoutD(6) [OF assms(1)] x(2) by simp
qed

text \<open>Recovery's writes: the logged blocks at their home locations, then an empty header.\<close>

definition recovery_writes :: "nat \<Rightarrow> nat list \<Rightarrow> block list \<Rightarrow> (nat \<times> block) list" where
  "recovery_writes start bs D = replay start bs D @ [(start, put_head [] (D ! start))]"

lemma header_ok_Nil: "header_ok []"
  by (simp add: header_ok_def)

lemma recoverable_empty:
  assumes "layout start sz D" "get_head (D ! start) = Ok []"
    "\<And>bn. bn < length D \<Longrightarrow> outside start sz bn \<Longrightarrow> D ! bn = f bn"
  shows "recoverable start sz D f"
  using assms layoutD(5) [OF assms(1)]
  by (auto simp: recoverable_def lh_fits_def header_ok_Nil replay_def override_def)

lemma recoverable_replay_prefix:
  assumes lay: "layout start sz D" and hd: "get_head (D ! start) = Ok bs"
    and fits: "lh_fits start sz (length D) bs"
    and view: "\<And>bn. bn < length D \<Longrightarrow> outside start sz bn \<Longrightarrow> override (replay start bs D) ((!) D) bn = f bn"
  shows "recoverable start sz (apply_writes (take k (replay start bs D)) D) f"
proof -
  let ?w = "take k (replay start bs D)" and ?D = "apply_writes (take k (replay start bs D)) D"
  have w: "b \<noteq> 1 \<and> length d = BSIZE \<and> outside start sz b" if "(b, d) \<in> set ?w" for b d
    using replay_sizes [OF lay fits, of b d] set_take_subset [of k "replay start bs D"] that by blast
  then have wb: "outside start sz b" if "b \<in> fst ` set ?w" for b using that by auto
  have lay': "layout start sz ?D" by (rule layout_writes [OF lay]) (use w in blast)
  have "start \<notin> fst ` set ?w" using wb layoutD(7) [OF lay] by blast
  then have hd': "?D ! start = D ! start"
    using layoutD(2) [OF lay] by (simp add: nth_apply_writes override_other)
  have rp: "replay start bs ?D = replay start bs D"
    by (rule replay_apply_writes [OF lay]) (use fits wb in \<open>auto simp: lh_fits_def\<close>)
  have "override (replay start bs ?D) ((!) ?D) bn = f bn" if bn: "bn < length D" "outside start sz bn" for bn
  proof -
    have "override (replay start bs D) ((!) ?D) bn
        = override (replay start bs D) (override ?w ((!) D)) bn"
      using bn by (cases "bn \<in> fst ` set (replay start bs D)")
        (auto intro: override_cong_dom simp: override_other nth_apply_writes)
    then show ?thesis using view [OF bn] by (simp add: rp override_take)
  qed
  then show ?thesis using lay' hd hd' fits by (auto simp: recoverable_def)
qed

lemma recovery_complete:
  assumes lay: "layout start sz D" and hd: "get_head (D ! start) = Ok bs"
    and fits: "lh_fits start sz (length D) bs"
    and view: "\<And>bn. bn < length D \<Longrightarrow> outside start sz bn \<Longrightarrow> override (replay start bs D) ((!) D) bn = f bn"
  shows "layout start sz (apply_writes (recovery_writes start bs D) D)"
    "get_head (apply_writes (recovery_writes start bs D) D ! start) = Ok []"
    "bn < length D \<Longrightarrow> outside start sz bn \<Longrightarrow> apply_writes (recovery_writes start bs D) D ! bn = f bn"
proof -
  let ?D = "apply_writes (recovery_writes start bs D) D"
  have hl: "length (put_head [] (D ! start)) = BSIZE"
    using length_put_head [OF header_ok_Nil] layoutD(2,6) [OF lay] by simp
  show "layout start sz ?D"
    by (rule layout_writes [OF lay])
       (use replay_sizes [OF lay fits] layoutD(1) [OF lay] hl in \<open>auto simp: recovery_writes_def\<close>)
  have "?D ! start = put_head [] (D ! start)"
    using layoutD(2) [OF lay] by (simp add: recovery_writes_def apply_writes_append)
  then show "get_head (?D ! start) = Ok []"
    using get_put_head [OF header_ok_Nil] layoutD(2,6) [OF lay] by simp
  show "?D ! bn = f bn" if bn: "bn < length D" "outside start sz bn"
  proof -
    have "bn \<noteq> start" using bn layoutD(7) [OF lay] by blast
    then have "?D ! bn = apply_writes (replay start bs D) D ! bn"
      by (simp add: recovery_writes_def apply_writes_append)
    then show ?thesis using view [OF bn] bn by (simp add: nth_apply_writes)
  qed
qed

lemma recoverable_recovery_prefix:
  assumes lay: "layout start sz D" and hd: "get_head (D ! start) = Ok bs"
    and fits: "lh_fits start sz (length D) bs"
    and view: "\<And>bn. bn < length D \<Longrightarrow> outside start sz bn \<Longrightarrow> override (replay start bs D) ((!) D) bn = f bn"
  shows "recoverable start sz (apply_writes (take k (recovery_writes start bs D)) D) f"
proof (cases "k \<le> length (replay start bs D)")
  case True
  then show ?thesis
    using recoverable_replay_prefix [OF assms, of k] by (simp add: recovery_writes_def)
next
  case False
  then have tk: "take k (recovery_writes start bs D) = recovery_writes start bs D"
    by (simp add: recovery_writes_def)
  have "recoverable start sz (apply_writes (recovery_writes start bs D) D) f"
    by (rule recoverable_empty) (use recovery_complete [OF assms] in auto)
  then show ?thesis by (simp add: tk)
qed

subsection \<open>Recovery and commit run to the end\<close>

lemma map_swap_zip: "map (\<lambda>(a, b). (b, f a)) (zip xs ys) = zip ys (map f xs)"
proof (induction xs arbitrary: ys)
  case (Cons x xs)
  then show ?case by (cases ys) auto
qed simp

lemma copy_fits:
  assumes "D \<subseteq> set bs" "length bs < sz" "sz \<le> LOGSIZE" "b \<in> set bs"
  shows "card (D \<union> {a, b}) \<le> NBUF" "card (D \<union> {a}) \<le> NBUF"
proof -
  have "card (insert a (set bs)) \<le> Suc (length bs)"
    by (simp add: card_insert_if card_length le_SucI)
  then have le: "card (insert a (set bs)) \<le> NBUF"
    using assms(2,3) by (simp add: NBUF_def LOGSIZE_def MAXOPBLOCKS_def)
  have "card (D \<union> {a, b}) \<le> card (insert a (set bs))"
    by (rule card_mono) (use assms(1,4) in auto)
  with le show "card (D \<union> {a, b}) \<le> NBUF" by simp
  have "card (D \<union> {a}) \<le> card (insert a (set bs))"
    by (rule card_mono) (use assms(1) in auto)
  with le show "card (D \<union> {a}) \<le> NBUF" by simp
qed

lemma install_trans_ok:
  assumes "quiet s" "ldev l = 1" "lh_fits (lstart l) sz (length (disk s)) (lh l)"
    "lstart l + sz \<le> length (disk s)" "sz \<le> LOGSIZE" "dirty_blocks s \<subseteq> set (lh l)"
  shows "\<exists>s'. install_trans pid l s = Ok s'
    \<and> wrote (zip (lh l) (map (content s) (slots (lstart l) 0 (length (lh l))))) s s'"
proof -
  let ?sl = "slots (lstart l) 0 (length (lh l))"
  have n: "length (lh l) < sz" using assms(3) by (simp add: lh_fits_def)
  have "\<exists>s'. inst.copies pid (zip ?sl (lh l)) s = Ok s'
    \<and> wrote (map (\<lambda>(a, b). (b, content s a)) (zip ?sl (lh l))) s s'"
  proof (rule inst.copies_ok [OF assms(1) finite_dirty])
    fix a b assume ab: "(a, b) \<in> set (zip ?sl (lh l))"
    then have a: "a \<in> set ?sl" and b: "b \<in> set (lh l)" by (auto dest: set_zip_leftD set_zip_rightD)
    have "snd ` set (zip ?sl (lh l)) = set (lh l)" unfolding set_map [symmetric] by simp
    then show "a < length (disk s) \<and> b < length (disk s) \<and> a \<notin> snd ` set (zip ?sl (lh l))
        \<and> card (dirty_blocks s \<union> {a, b}) \<le> NBUF"
      using slots_inside [OF n a] b assms(3,4) copy_fits(1) [OF assms(6) n assms(5) b, of a]
      by (auto simp: lh_fits_def)
  qed
  then show ?thesis
    by (simp add: install_trans_def assms(2) install_loop_copies map_swap_zip del: One_nat_def)
qed

lemma write_log_ok:
  assumes "quiet s" "ldev l = 1" "lh_fits (lstart l) sz (length (disk s)) (lh l)"
    "lstart l + sz \<le> length (disk s)" "sz \<le> LOGSIZE" "dirty_blocks s \<subseteq> set (lh l)"
  shows "\<exists>s'. write_log pid l s = Ok s'
    \<and> wrote (zip (slots (lstart l) 0 (length (lh l))) (map (content s) (lh l))) s s'"
proof -
  let ?sl = "slots (lstart l) 0 (length (lh l))"
  have n: "length (lh l) < sz" using assms(3) by (simp add: lh_fits_def)
  have "\<exists>s'. wlog.copies pid (zip (lh l) ?sl) s = Ok s'
    \<and> wrote (map (\<lambda>(a, b). (b, content s a)) (zip (lh l) ?sl)) s s'"
  proof (rule wlog.copies_ok [OF assms(1) finite_dirty])
    fix a b assume ab: "(a, b) \<in> set (zip (lh l) ?sl)"
    then have a: "a \<in> set (lh l)" and b: "b \<in> set ?sl" by (auto dest: set_zip_leftD set_zip_rightD)
    have "snd ` set (zip (lh l) ?sl) = set ?sl" unfolding set_map [symmetric] by simp
    moreover have "a \<notin> set ?sl" using slots_inside [OF n, of a] a assms(3) by (auto simp: lh_fits_def)
    moreover have "card (dirty_blocks s \<union> {a, b}) \<le> NBUF"
      using copy_fits(1) [OF assms(6) n assms(5) a, of b] by (simp add: insert_commute)
    ultimately show "a < length (disk s) \<and> b < length (disk s) \<and> a \<notin> snd ` set (zip (lh l) ?sl)
        \<and> card (dirty_blocks s \<union> {a, b}) \<le> NBUF"
      using slots_inside [OF n b] a assms(3,4) by (auto simp: lh_fits_def)
  qed
  then show ?thesis
    by (simp add: write_log_def assms(2) write_log_loop_copies map_swap_zip del: One_nat_def)
qed

lemma disk_clean: "quiet s \<Longrightarrow> dirty_blocks s = {} \<Longrightarrow> content s bn = disk s ! bn"
  using quiet_clean [of s bn] by simp

definition log_at :: "nat \<Rightarrow> nat \<Rightarrow> nat list \<Rightarrow> log" where
  "log_at start sz bs = \<lparr>lstart = start, lsize = sz, outstanding = 0, committing = False, ldev = 1, lh = bs\<rparr>"

lemma card_small: "card ({} \<union> {x::nat}) \<le> NBUF"
  by (simp add: NBUF_def)

lemma recover_from_log_ok:
  assumes q: "quiet s" "dirty_blocks s = {}" and lay: "layout start sz (disk s)"
    and hd: "get_head (disk s ! start) = Ok bs" and fits: "lh_fits start sz (length (disk s)) bs"
  shows "\<exists>s'. recover_from_log pid (log_at start sz bs0) s = Ok (log_at start sz [], s')
    \<and> wrote (recovery_writes start bs (disk s)) s s'"
proof -
  note L = layoutD [OF lay]
  have c: "content s = (!) (disk s)" using disk_clean [OF q] by blast
  have small: "card (dirty_blocks s \<union> {start}) \<le> NBUF" by (simp add: q(2) NBUF_def)
  obtain i s1 s2 where s2: "bread pid 1 start s = Ok (i, s1)" "bdata (buf_at s1 i) = disk s ! start"
    "brelse pid i s1 = Ok s2" "quiet s2" "same_view s s2"
    using bread_brelse [OF q(1) L(2) small, of pid] unfolding c by blast
  let ?l = "log_at start sz bs"
  have rh: "read_head pid (log_at start sz bs0) s = Ok (?l, s2)"
    using s2 hd by (simp add: read_head_def log_at_def del: One_nat_def)
  have v: "content s2 = (!) (disk s)" "dirty_blocks s2 = {}" "disk s2 = disk s"
    using s2(5) q(2) c by (auto simp: same_view_def)
  have "\<exists>s'. install_trans pid ?l s2 = Ok s'
    \<and> wrote (zip (lh ?l) (map (content s2) (slots (lstart ?l) 0 (length (lh ?l))))) s2 s'"
    by (rule install_trans_ok [OF s2(4)]) (use fits L v in \<open>auto simp: log_at_def\<close>)
  then obtain s3 where s3: "install_trans pid ?l s2 = Ok s3" "wrote (replay start bs (disk s)) s2 s3"
    unfolding v(1) by (auto simp: log_at_def replay_def)
  have d3: "quiet s3" "dirty_blocks s3 = {}" "length (disk s3) = length (disk s)"
    "content s3 start = disk s ! start"
  proof -
    show "quiet s3" "dirty_blocks s3 = {}" "length (disk s3) = length (disk s)"
      using s3(2) v by (auto simp: wrote_def)
    have "start \<notin> fst ` set (replay start bs (disk s))"
      using fits L(7) by (auto simp: fst_replay lh_fits_def)
    then show "content s3 start = disk s ! start"
      using s3(2) v by (simp add: wrote_def override_other)
  qed
  have "\<exists>s'. write_head pid (log_at start sz []) s3 = Ok s'
    \<and> wrote [(lstart (log_at start sz []), put_head (lh (log_at start sz []))
        (content s3 (lstart (log_at start sz []))))] s3 s'"
    by (rule write_head_ok [OF d3(1)]) (use d3 L(2) in \<open>auto simp: log_at_def header_ok_Nil NBUF_def\<close>)
  then obtain s4 where s4: "write_head pid (log_at start sz []) s3 = Ok s4"
    "wrote [(start, put_head [] (disk s ! start))] s3 s4"
    by (auto simp: log_at_def d3(4))
  have "wrote (recovery_writes start bs (disk s)) s s4"
    unfolding recovery_writes_def
    by (rule wrote_append [OF same_view_wrote [OF s2(5) s3(2)] s4(2)])
  moreover have "?l\<lparr>lh := []\<rparr> = log_at start sz []" by (simp add: log_at_def)
  ultimately show ?thesis
    using rh s3(1) s4(1) by (simp add: recover_from_log_def)
qed

lemma initlog_ok:
  assumes "layout start sz D" "get_head (D ! start) = Ok bs" "lh_fits start sz (length D) bs"
  shows "\<exists>s'. initlog pid 1 (binit D) = Ok (log_at start sz [], s')
    \<and> wrote (recovery_writes start bs D) (binit D) s'"
proof -
  have len: "\<forall>d \<in> set D. length d = BSIZE" using assms(1) by (simp add: layout_def)
  note bi = binit_ok [OF len]
  have q: "quiet (binit D)" using bi by (simp add: quiet_idle)
  have one: "1 < length (disk (binit D))" using layoutD [OF assms(1)] bi(4) by simp
  obtain i s1 s2 where s2: "bread pid 1 1 (binit D) = Ok (i, s1)" "bdata (buf_at s1 i) = D ! 1"
    "brelse pid i s1 = Ok s2" "quiet s2" "same_view (binit D) s2"
    using bread_brelse [OF q one, of pid] bi by (auto simp: NBUF_def)
  have rs: "readsb pid 1 (binit D) = Ok (superblock_of (D ! 1), s2)"
    using s2 by (simp add: readsb_def del: One_nat_def)
  have v: "dirty_blocks s2 = {}" "disk s2 = D" using s2(5) bi by (auto simp: same_view_def)
  have "\<exists>s'. recover_from_log pid (log_at start sz []) s2 = Ok (log_at start sz [], s')
    \<and> wrote (recovery_writes start bs (disk s2)) s2 s'"
    by (rule recover_from_log_ok [OF s2(4) v(1)]) (use assms v in auto)
  then obtain s' where s': "recover_from_log pid (log_at start sz []) s2 = Ok (log_at start sz [], s')"
    "wrote (recovery_writes start bs D) s2 s'" using v by auto
  have "\<lparr>lstart = sb_logstart (superblock_of (D ! 1)), lsize = sb_nlog (superblock_of (D ! 1)),
      outstanding = 0, committing = False, ldev = 1, lh = []\<rparr> = log_at start sz []"
    using assms(1) by (simp add: layout_def log_at_def)
  then have "initlog pid 1 (binit D) = Ok (log_at start sz [], s')"
    using rs s'(1) by (simp add: initlog_def LOGSIZE_def MAXOPBLOCKS_def BSIZE_def del: One_nat_def)
  with same_view_wrote [OF s2(5) s'(2)] show ?thesis by blast
qed

text \<open>The state in which a commit starts: no operation is active, the dirty buffers are blocks
  recorded in the header, and the header on disk is empty.\<close>

definition log_inv :: "log \<Rightarrow> io \<Rightarrow> bool" where
  "log_inv l s \<longleftrightarrow> ldev l = 1 \<and> layout (lstart l) (lsize l) (disk s)
     \<and> lh_fits (lstart l) (lsize l) (length (disk s)) (lh l)
     \<and> get_head (disk s ! lstart l) = Ok [] \<and> dirty_blocks s \<subseteq> set (lh l)"

definition commit_writes :: "log \<Rightarrow> io \<Rightarrow> (nat \<times> block) list" where
  "commit_writes l s =
     (let start = lstart l; bs = lh l; H = put_head bs (content s start) in
      if bs = [] then []
      else zip (slots start 0 (length bs)) (map (content s) bs)
           @ (start, H) # recovery_writes start bs
               ((apply_writes (zip (slots start 0 (length bs)) (map (content s) bs)) (disk s))[start := H]))"

lemma start_clean: "log_inv l s \<Longrightarrow> quiet s \<Longrightarrow> content s (lstart l) = disk s ! lstart l"
  using quiet_clean [of s "lstart l"] layoutD(7) [of "lstart l" "lsize l" "disk s"]
  by (auto simp: log_inv_def lh_fits_def)

lemma commit_ok:
  assumes inv: "log_inv l s" and q: "quiet s"
  shows "\<exists>s'. commit pid l s = Ok (l\<lparr>lh := []\<rparr>, s') \<and> wrote (commit_writes l s) s s'"
proof (cases "lh l = []")
  case True
  then have "l\<lparr>lh := []\<rparr> = l" by (cases l) simp
  with True wrote_Nil [OF q] show ?thesis by (simp add: commit_def commit_writes_def)
next
  case False
  let ?st = "lstart l" and ?bs = "lh l"
  let ?sl = "slots ?st 0 (length ?bs)"
  let ?W = "zip ?sl (map (content s) ?bs)"
  let ?H = "put_head ?bs (content s ?st)"
  let ?D1 = "apply_writes ?W (disk s)"
  let ?D2 = "?D1[?st := ?H]"
  have dev: "ldev l = 1" and lay: "layout ?st (lsize l) (disk s)"
    and fits: "lh_fits ?st (lsize l) (length (disk s)) ?bs" and dirty: "dirty_blocks s \<subseteq> set ?bs"
    using inv by (auto simp: log_inv_def)
  note L = layoutD [OF lay]
  have n: "length ?bs < lsize l" "header_ok ?bs" using fits by (auto simp: lh_fits_def)
  obtain s1 where s1: "write_log pid l s = Ok s1" "wrote ?W s s1"
    using write_log_ok [OF q dev fits L(3,4) dirty] by blast
  have w1: "fst ` set ?W = set ?sl" unfolding set_map [symmetric] by simp
  have st: "?st \<notin> set ?sl" using slots_inside [OF n(1), of ?st] by blast
  have c1: "content s1 ?st = content s ?st" "dirty_blocks s1 \<subseteq> set ?bs" "quiet s1" "disk s1 = ?D1"
    using s1(2) w1 st dirty by (auto simp: wrote_def override_other)
  obtain b where b: "b \<in> set ?bs" using False by (cases ?bs) auto
  have "\<exists>s'. write_head pid l s1 = Ok s' \<and> wrote [(?st, put_head ?bs (content s1 ?st))] s1 s'"
    by (rule write_head_ok [OF c1(3) dev _ n(2)])
       (use L(2) c1 copy_fits(2) [OF c1(2) n(1) L(4) b] in auto)
  then obtain s2 where s2: "write_head pid l s1 = Ok s2" "wrote [(?st, ?H)] s1 s2"
    unfolding c1(1) by blast
  have c2: "dirty_blocks s2 \<subseteq> set ?bs" "quiet s2" "disk s2 = ?D2"
    "content s2 = (override ?W (content s))(?st := ?H)"
    using s1(2) s2(2) c1 by (auto simp: wrote_def override_def apply_writes_def)
  obtain s3 where s3: "install_trans pid l s2 = Ok s3"
    "wrote (zip ?bs (map (content s2) ?sl)) s2 s3"
    using install_trans_ok [OF c2(2) dev, of "lsize l" pid] fits L c2 by auto
  have rp: "zip ?bs (map (content s2) ?sl) = replay ?st ?bs ?D2"
  proof -
    have "content s2 x = ?D2 ! x" if x: "x \<in> set ?sl" for x
    proof -
      have x': "x \<noteq> ?st" "x < length (disk s)" using slots_inside [OF n(1) x] L(3) by auto
      have "override ?W (content s) x = override ?W ((!) (disk s)) x"
        by (rule override_cong_dom) (use x w1 in simp)
      then show ?thesis using x' c2(4) by (simp add: nth_apply_writes)
    qed
    then have "map (content s2) ?sl = map ((!) ?D2) ?sl" by simp
    then show ?thesis by (simp only: replay_def)
  qed
  have w3: "fst ` set (replay ?st ?bs ?D2) = set ?bs" by (rule fst_replay)
  have "?st \<notin> set ?bs" using fits L(7) by (auto simp: lh_fits_def)
  then have c3: "content s3 ?st = ?H" "quiet s3" "dirty_blocks s3 = {}" "length (disk s3) = length (disk s)"
    using s3(2) c2 w3 unfolding rp by (auto simp: wrote_def override_other)
  let ?l = "l\<lparr>lh := []\<rparr>"
  have "\<exists>s'. write_head pid ?l s3 = Ok s' \<and> wrote [(lstart ?l, put_head (lh ?l) (content s3 (lstart ?l)))] s3 s'"
    by (rule write_head_ok [OF c3(2)]) (use c3 dev L(2) in \<open>auto simp: header_ok_Nil NBUF_def\<close>)
  then obtain s4 where s4: "write_head pid ?l s3 = Ok s4" "wrote [(?st, put_head [] ?H)] s3 s4"
    using c3(1) by auto
  have "?D2 ! ?st = ?H" using L(2) by simp
  then have "commit_writes l s = ?W @ [(?st, ?H)] @ replay ?st ?bs ?D2 @ [(?st, put_head [] ?H)]"
    using False by (simp add: commit_writes_def Let_def recovery_writes_def)
  moreover have "wrote (?W @ [(?st, ?H)] @ replay ?st ?bs ?D2 @ [(?st, put_head [] ?H)]) s s4"
    by (rule wrote_append [OF s1(2) wrote_append [OF s2(2) wrote_append [OF s3(2) [unfolded rp] s4(2)]]])
  ultimately show ?thesis
    using False s1(1) s2(1) s3(1) s4(1) by (simp add: commit_def)
qed

subsection \<open>Every prefix of a commit's writes is recoverable\<close>

lemma override_graph:
  assumes "\<And>b d. (b, d) \<in> set ws \<Longrightarrow> d = f b"
  shows "override ws g bn = (if bn \<in> fst ` set ws then f bn else g bn)"
proof (cases "map_of (rev ws) bn")
  case None
  then have "bn \<notin> fst ` set ws" by (simp add: map_of_eq_None_iff)
  then show ?thesis by (simp add: override_other)
next
  case (Some d)
  then have "(bn, d) \<in> set ws" by (auto dest: map_of_SomeD)
  with assms Some show ?thesis by (force simp: override_map_of)
qed

lemma override_zip_nth:
  assumes "distinct xs" "length ys = length xs" "k < length xs"
  shows "override (zip xs ys) f (xs ! k) = ys ! k"
proof -
  let ?g = "\<lambda>x. ys ! (THE i. i < length xs \<and> xs ! i = x)"
  have g: "?g (xs ! i) = ys ! i" if "i < length xs" for i
  proof -
    have "(THE j. j < length xs \<and> xs ! j = xs ! i) = i"
      using that assms(1) by (intro the_equality) (auto simp: nth_eq_iff_index_eq)
    then show ?thesis by simp
  qed
  have "fst ` set (zip xs ys) = set xs" unfolding set_map [symmetric] by (simp add: assms(2))
  then have "xs ! k \<in> fst ` set (zip xs ys)" using assms(3) by simp
  moreover have "override (zip xs ys) f (xs ! k) = (if xs ! k \<in> fst ` set (zip xs ys) then ?g (xs ! k) else f (xs ! k))"
    by (rule override_graph) (use g assms(2) in \<open>auto simp: set_zip\<close>)
  ultimately show ?thesis using g [OF assms(3)] by simp
qed

lemma commit_logged:
  assumes inv: "log_inv l s" and q: "quiet s"
  defines "D2 \<equiv> (apply_writes (zip (slots (lstart l) 0 (length (lh l))) (map (content s) (lh l))) (disk s))
    [lstart l := put_head (lh l) (content s (lstart l))]"
  shows "layout (lstart l) (lsize l) D2" "get_head (D2 ! lstart l) = Ok (lh l)"
    "lh_fits (lstart l) (lsize l) (length D2) (lh l)"
    "bn < length D2 \<Longrightarrow> outside (lstart l) (lsize l) bn \<Longrightarrow>
       override (replay (lstart l) (lh l) D2) ((!) D2) bn = content s bn"
proof -
  let ?st = "lstart l" and ?bs = "lh l"
  let ?sl = "slots ?st 0 (length ?bs)"
  let ?W = "zip ?sl (map (content s) ?bs)"
  let ?H = "put_head ?bs (content s ?st)"
  have lay: "layout ?st (lsize l) (disk s)" and fits: "lh_fits ?st (lsize l) (length (disk s)) ?bs"
    and dirty: "dirty_blocks s \<subseteq> set ?bs"
    using inv by (auto simp: log_inv_def)
  note L = layoutD [OF lay]
  have n: "length ?bs < lsize l" "header_ok ?bs" using fits by (auto simp: lh_fits_def)
  have bc: "bc_inv s" using q by (simp add: quiet_def)
  have cl: "length (content s b) = BSIZE" if "b < length (disk s)" for b
    using length_content [OF bc that] .
  have w1: "fst ` set ?W = set ?sl" unfolding set_map [symmetric] by simp
  have D2: "D2 = apply_writes (?W @ [(?st, ?H)]) (disk s)"
    by (simp add: D2_def apply_writes_append)
  have hl: "length ?H = BSIZE" using length_put_head [OF n(2)] cl [OF L(2)] by simp
  have ok: "b \<noteq> 1 \<and> length d = BSIZE" if bd: "(b, d) \<in> set (?W @ [(?st, ?H)])" for b d
  proof (cases "(b, d) \<in> set ?W")
    case True
    then have "b \<in> set ?sl" "d \<in> content s ` set ?bs"
      by (auto dest: set_zip_leftD set_zip_rightD)
    then show ?thesis using fits L(1) cl by (auto simp: set_slots lh_fits_def)
  next
    case False
    then show ?thesis using bd hl L(1) by auto
  qed
  show "layout ?st (lsize l) D2" unfolding D2 by (rule layout_writes [OF lay]) (use ok in blast)
  show "get_head (D2 ! ?st) = Ok ?bs"
    using get_put_head [OF n(2)] cl [OF L(2)] L(2) by (simp add: D2_def)
  show "lh_fits ?st (lsize l) (length D2) ?bs" using fits by (simp add: D2)
  have log: "map ((!) D2) ?sl = map (content s) ?bs"
  proof (rule nth_equalityI)
    fix k assume "k < length (map ((!) D2) ?sl)"
    then have k: "k < length ?bs" by simp
    then have x: "?sl ! k \<in> set ?sl" by (intro nth_mem) simp
    have lt: "?sl ! k \<noteq> ?st" "?sl ! k < length (disk s)" using slots_inside [OF n(1) x] L(3) by auto
    then have "D2 ! (?sl ! k) = override ?W ((!) (disk s)) (?sl ! k)"
      by (simp add: D2_def nth_apply_writes)
    also have "\<dots> = map (content s) ?bs ! k" by (rule override_zip_nth) (use k distinct_slots in auto)
    finally show "map ((!) D2) ?sl ! k = map (content s) ?bs ! k" using k by simp
  qed simp
  show "override (replay ?st ?bs D2) ((!) D2) bn = content s bn"
    if bn: "bn < length D2" "outside ?st (lsize l) bn"
  proof -
    have "override (replay ?st ?bs D2) ((!) D2) bn
        = (if bn \<in> fst ` set (replay ?st ?bs D2) then content s bn else D2 ! bn)"
      by (rule override_graph) (auto simp: replay_def log set_zip)
    moreover have "D2 ! bn = content s bn" if nin: "bn \<notin> set ?bs"
    proof -
      have "bn \<noteq> ?st" "bn \<notin> fst ` set ?W"
        using bn(2) L(7) slots_inside [OF n(1), of bn] w1 by auto
      then have "D2 ! bn = disk s ! bn"
        using bn(1) by (simp add: D2_def nth_apply_writes override_other)
      then show ?thesis using quiet_clean [OF q, of bn] dirty nin by auto
    qed
    ultimately show ?thesis by (simp add: fst_replay)
  qed
qed

lemma commit_prefix_recoverable:
  assumes inv: "log_inv l s" and q: "quiet s"
  shows "recoverable (lstart l) (lsize l) (apply_writes (take k (commit_writes l s)) (disk s)) ((!) (disk s))
    \<or> recoverable (lstart l) (lsize l) (apply_writes (take k (commit_writes l s)) (disk s)) (content s)"
    (is ?either)
    and "length (commit_writes l s) \<le> k \<Longrightarrow>
      recoverable (lstart l) (lsize l) (apply_writes (take k (commit_writes l s)) (disk s)) (content s)"
proof -
  let ?st = "lstart l" and ?bs = "lh l"
  let ?sl = "slots ?st 0 (length ?bs)"
  let ?W = "zip ?sl (map (content s) ?bs)"
  let ?H = "put_head ?bs (content s ?st)"
  let ?D2 = "(apply_writes ?W (disk s))[?st := ?H]"
  let ?D = "apply_writes (take k (commit_writes l s)) (disk s)"
  have lay: "layout ?st (lsize l) (disk s)" and fits: "lh_fits ?st (lsize l) (length (disk s)) ?bs"
    and h0: "get_head (disk s ! ?st) = Ok []" and dirty: "dirty_blocks s \<subseteq> set ?bs"
    using inv by (auto simp: log_inv_def)
  note L = layoutD [OF lay]
  have n: "length ?bs < lsize l" using fits by (simp add: lh_fits_def)
  have late: "recoverable ?st (lsize l) ?D (content s)" if ne: "?bs \<noteq> []" and k: "length ?W < k"
  proof -
    obtain m where m: "k = length ?W + Suc m" using k less_iff_Suc_add by auto
    have "take k (commit_writes l s) = ?W @ (?st, ?H) # take m (recovery_writes ?st ?bs ?D2)"
      using ne by (simp add: commit_writes_def Let_def m)
    then have "?D = apply_writes (take m (recovery_writes ?st ?bs ?D2)) ?D2"
      using apply_writes_append [of "?W @ [(?st, ?H)]" "take m (recovery_writes ?st ?bs ?D2)" "disk s"]
        apply_writes_append [of ?W "[(?st, ?H)]" "disk s"] by simp
    then show ?thesis using recoverable_recovery_prefix [OF commit_logged [OF inv q]] by simp
  qed
  have early: "recoverable ?st (lsize l) ?D ((!) (disk s))" if k: "?bs = [] \<or> k \<le> length ?W"
  proof -
    have tk: "take k (commit_writes l s) = take k (if ?bs = [] then [] else ?W)"
      using k by (auto simp: commit_writes_def Let_def)
    then have sub: "set (take k (commit_writes l s)) \<subseteq> set ?W"
      using set_take_subset [of k ?W] by (simp split: if_splits)
    have bd: "b \<in> set ?sl \<and> length d = BSIZE" if "(b, d) \<in> set (take k (commit_writes l s))" for b d
    proof -
      have "b \<in> set ?sl" "d \<in> content s ` set ?bs"
        using subsetD [OF sub that] by (auto dest: set_zip_leftD set_zip_rightD)
      then show ?thesis
        using fits length_content [of s] q by (auto simp: lh_fits_def quiet_def)
    qed
    have nin: "x \<notin> fst ` set (take k (commit_writes l s))" if "outside ?st (lsize l) x \<or> x = ?st" for x
      using bd slots_inside [OF n] that by fastforce
    show ?thesis
    proof (rule recoverable_empty)
      show "layout ?st (lsize l) ?D"
        by (rule layout_writes [OF lay]) (use bd L(1) in \<open>fastforce simp: set_slots\<close>)
      show "get_head (?D ! ?st) = Ok []"
        using L(2) nin [of ?st] h0 by (simp add: nth_apply_writes override_other)
      show "?D ! bn = disk s ! bn" if "bn < length ?D" "outside ?st (lsize l) bn" for bn
        using that nin [of bn] by (simp add: nth_apply_writes override_other)
    qed
  qed
  show ?either using late early by (meson not_le)
  show "recoverable ?st (lsize l) ?D (content s)" if k: "length (commit_writes l s) \<le> k"
  proof (cases "?bs = []")
    case True
    then have "content s bn = disk s ! bn" for bn using quiet_clean [OF q, of bn] dirty by auto
    then have "content s = (!) (disk s)" by blast
    with early True show ?thesis by simp
  next
    case False
    then have "length ?W < k" using k by (simp add: commit_writes_def Let_def)
    with late False show ?thesis by blast
  qed
qed

subsection \<open>Crashes and reboots\<close>

text \<open>A boot runs \<^verbatim>\<open>initlog\<close> on a fresh cache; it may itself crash after any number of its disk
  writes, any number of times.\<close>

inductive crash_chain :: "nat \<Rightarrow> block list \<Rightarrow> block list \<Rightarrow> bool" for pid where
  no_crash: "crash_chain pid D D"
| crash_again: "crash_chain pid D D1 \<Longrightarrow> initlog pid 1 (binit D1) = Ok (l, s) \<Longrightarrow>
    crash_chain pid D (apply_writes (take k (writes s)) D1)"

lemma recoverable_boot:
  assumes "recoverable start sz D f"
  shows "\<exists>s'. initlog pid 1 (binit D) = Ok (log_at start sz [], s') \<and> quiet s' \<and> dirty_blocks s' = {}
    \<and> log_inv (log_at start sz []) s' \<and> length (disk s') = length D
    \<and> (\<forall>bn < length D. outside start sz bn \<longrightarrow> content s' bn = f bn \<and> disk s' ! bn = f bn)
    \<and> (\<forall>k. recoverable start sz (apply_writes (take k (writes s')) D) f)"
proof -
  obtain bs where lay: "layout start sz D" and bs: "get_head (D ! start) = Ok bs"
    "lh_fits start sz (length D) bs"
    "\<And>bn. bn < length D \<Longrightarrow> outside start sz bn \<Longrightarrow> override (replay start bs D) ((!) D) bn = f bn"
    using assms by (auto simp: recoverable_def)
  obtain s' where s': "initlog pid 1 (binit D) = Ok (log_at start sz [], s')"
    "wrote (recovery_writes start bs D) (binit D) s'"
    using initlog_ok [OF lay bs(1,2)] by blast
  have len: "\<forall>d \<in> set D. length d = BSIZE" using lay by (simp add: layout_def)
  note bi = binit_ok [OF len]
  have st: "quiet s'" "dirty_blocks s' = {}" "disk s' = apply_writes (recovery_writes start bs D) D"
    "writes s' = recovery_writes start bs D"
    using s'(2) bi by (auto simp: wrote_def)
  note rc = recovery_complete [OF lay bs]
  have "log_inv (log_at start sz []) s'"
    using rc st layoutD(5) [OF lay] by (simp add: log_inv_def log_at_def lh_fits_def header_ok_Nil)
  moreover have "content s' bn = disk s' ! bn" for bn by (rule disk_clean [OF st(1,2)])
  ultimately show ?thesis
    using s'(1) st rc(3) recoverable_recovery_prefix [OF lay bs] by auto
qed

lemma recoverable_chain:
  assumes "crash_chain pid D D'" "recoverable start sz D f"
  shows "recoverable start sz D' f"
  using assms
proof induction
  case (crash_again D D1 l s k)
  then have "recoverable start sz D1 f" by blast
  from recoverable_boot [OF this, of pid] crash_again.hyps(2) show ?case by auto
qed

lemma chain_length: "crash_chain pid D D' \<Longrightarrow> length D' = length D"
  by (induction rule: crash_chain.induct) auto

text \<open>After any such history, recovery leaves one of two contents outside the log.\<close>

definition recovers_to :: "nat \<Rightarrow> log \<Rightarrow> (nat \<Rightarrow> block) \<Rightarrow> block list \<Rightarrow> bool" where
  "recovers_to pid l f D \<longleftrightarrow> (\<exists>l' s'. initlog pid 1 (binit D) = Ok (l', s') \<and> log_inv l' s' \<and> lh l' = []
     \<and> (\<forall>bn < length D. outside (lstart l) (lsize l) bn \<longrightarrow> content s' bn = f bn \<and> disk s' ! bn = f bn))"

lemma recoverable_recovers_to:
  "recoverable (lstart l) (lsize l) D f \<Longrightarrow> crash_chain pid D D' \<Longrightarrow> recovers_to pid l f D'"
  using recoverable_boot [of "lstart l" "lsize l" D' f pid] recoverable_chain [of pid D D' "lstart l" "lsize l" f]
  unfolding recovers_to_def by (metis log_at_def log.select_convs(6))

definition crash_safe :: "nat \<Rightarrow> log \<Rightarrow> io \<Rightarrow> (nat \<Rightarrow> block) \<Rightarrow> io \<Rightarrow> bool" where
  "crash_safe pid l s f s' \<longleftrightarrow>
     (\<forall>k D'. crash_chain pid (apply_writes (take k (drop (length (writes s)) (writes s'))) (disk s)) D' \<longrightarrow>
        recovers_to pid l ((!) (disk s)) D' \<or> recovers_to pid l f D')
   \<and> (\<forall>D'. crash_chain pid (disk s') D' \<longrightarrow> recovers_to pid l f D')"

lemma commit_crash_safe:
  assumes "log_inv l s" "quiet s"
  shows "\<exists>s'. commit pid l s = Ok (l\<lparr>lh := []\<rparr>, s') \<and> quiet s' \<and> log_inv (l\<lparr>lh := []\<rparr>) s'
    \<and> (\<forall>bn < length (disk s). outside (lstart l) (lsize l) bn \<longrightarrow>
         content s' bn = content s bn \<and> disk s' ! bn = content s bn)
    \<and> crash_safe pid l s (content s) s'"
proof -
  obtain s' where s': "commit pid l s = Ok (l\<lparr>lh := []\<rparr>, s')" "wrote (commit_writes l s) s s'"
    using commit_ok [OF assms] by blast
  have st: "quiet s'" "disk s' = apply_writes (commit_writes l s) (disk s)"
    "writes s' = writes s @ commit_writes l s"
    using s'(2) by (auto simp: wrote_def)
  have clean: "dirty_blocks s' = {}"
  proof -
    have "set (lh l) \<subseteq> fst ` set (commit_writes l s)"
      using fst_replay [of "lstart l" "lh l"] by (auto simp: commit_writes_def Let_def recovery_writes_def)
    then show ?thesis using s'(2) assms(1) by (auto simp: wrote_def log_inv_def)
  qed
  note rp = commit_prefix_recoverable [OF assms]
  have fin: "recoverable (lstart l) (lsize l) (disk s') (content s)"
    using rp(2) [of "length (commit_writes l s)"] st(2) by simp
  have h: "get_head (disk s' ! lstart l) = Ok []"
  proof (cases "lh l = []")
    case True
    then show ?thesis using assms(1) st(2) by (simp add: log_inv_def commit_writes_def apply_writes_def)
  next
    case False
    note cl = recovery_complete(2) [OF commit_logged [OF assms]]
    show ?thesis
      using cl st(2) False
        apply_writes_append [of "zip (slots (lstart l) 0 (length (lh l))) (map (content s) (lh l))
          @ [(lstart l, put_head (lh l) (content s (lstart l)))]" _ "disk s"]
      by (simp add: commit_writes_def Let_def apply_writes_append)
  qed
  have view: "disk s' ! bn = content s bn" if "bn < length (disk s)" "outside (lstart l) (lsize l) bn" for bn
    using fin h that st(2) by (auto simp: recoverable_def replay_def override_def)
  have "log_inv (l\<lparr>lh := []\<rparr>) s'"
    using assms(1) fin h clean layoutD(5) [of "lstart l" "lsize l" "disk s"]
    by (auto simp: log_inv_def recoverable_def lh_fits_def header_ok_Nil)
  moreover have "crash_safe pid l s (content s) s'"
    unfolding crash_safe_def using recoverable_recovers_to [OF fin] recoverable_recovers_to rp(1)
    by (simp add: st(3)) blast
  ultimately show ?thesis
    using s'(1) st(1) view disk_clean [OF st(1) clean] by auto
qed

subsection \<open>Transactions\<close>

text \<open>The use of the log its comment prescribes: read a block, modify it, \<^verbatim>\<open>log_write\<close>, release.\<close>

definition update_block :: "nat \<Rightarrow> nat \<Rightarrow> (block \<Rightarrow> block) \<Rightarrow> log \<Rightarrow> io \<Rightarrow> (log \<times> io) outcome" where
  "update_block pid bn f l s =
     and_then (bread pid (ldev l) bn s) (\<lambda>(i, s).
     and_then (log_write i l (set_data i (f (bdata (buf_at s i))) s)) (\<lambda>(l, s).
     and_then (brelse pid i s) (\<lambda>s. Ok (l, s))))"

definition bzero :: "nat \<Rightarrow> nat \<Rightarrow> log \<Rightarrow> io \<Rightarrow> (log \<times> io) outcome" where
  "bzero pid bno l s = update_block pid bno (\<lambda>_. replicate BSIZE 0) l s"

fun updates :: "nat \<Rightarrow> (nat \<times> block) list \<Rightarrow> log \<Rightarrow> io \<Rightarrow> (log \<times> io) outcome" where
  "updates pid [] l s = Ok (l, s)"
| "updates pid ((bn, d) # us) l s =
     and_then (update_block pid bn (\<lambda>_. d) l s) (\<lambda>(l, s). updates pid us l s)"

definition transaction :: "nat \<Rightarrow> (nat \<times> block) list \<Rightarrow> log \<Rightarrow> io \<Rightarrow> (log \<times> io) outcome" where
  "transaction pid us l s =
     and_then (begin_op l) (\<lambda>l.
     and_then (updates pid us l s) (\<lambda>(l, s). end_op pid l s))"

definition data_block :: "log \<Rightarrow> io \<Rightarrow> nat \<Rightarrow> bool" where
  "data_block l s bn \<longleftrightarrow> outside (lstart l) (lsize l) bn \<and> bn < length (disk s) \<and> bn \<noteq> 1 \<and> bn < 2 ^ 32"

definition absorb :: "nat \<Rightarrow> nat list \<Rightarrow> nat list" where
  "absorb b bs = (if b \<in> set bs then bs else bs @ [b])"

lemma length_absorb: "length bs \<le> length (absorb b bs)" "length (absorb b bs) \<le> Suc (length bs)"
  by (auto simp: absorb_def)

text \<open>One logged update changes the block for every reader and writes nothing to the disk.\<close>

lemma update_block_ok:
  assumes inv: "log_inv l s" and q: "quiet s" and bn: "data_block l s bn"
    and room: "length (lh l) + 1 < lsize l" and out: "1 \<le> outstanding l"
    and len: "length (f (content s bn)) = BSIZE"
  shows "\<exists>s'. update_block pid bn f l s = Ok (l\<lparr>lh := absorb bn (lh l)\<rparr>, s') \<and> quiet s'
    \<and> log_inv (l\<lparr>lh := absorb bn (lh l)\<rparr>) s' \<and> content s' = (content s)(bn := f (content s bn))
    \<and> disk s' = disk s \<and> writes s' = writes s"
proof -
  have dev: "ldev l = 1" and lay: "layout (lstart l) (lsize l) (disk s)"
    and fits: "lh_fits (lstart l) (lsize l) (length (disk s)) (lh l)" and dirty: "dirty_blocks s \<subseteq> set (lh l)"
    using inv by (auto simp: log_inv_def)
  note L = layoutD [OF lay]
  have lt: "bn < length (disk s)" using bn by (simp add: data_block_def)
  have "card (dirty_blocks s \<union> {bn}) \<le> card (insert bn (set (lh l)))"
    by (rule card_mono) (use dirty in auto)
  also have "\<dots> \<le> Suc (length (lh l))" by (simp add: card_insert_if card_length le_SucI)
  also have "\<dots> \<le> NBUF" using room L(4) by (simp add: NBUF_def LOGSIZE_def MAXOPBLOCKS_def)
  finally have card: "card (dirty_blocks s \<union> {bn}) \<le> NBUF" .
  obtain i s1 where s1: "bread pid 1 bn s = Ok (i, s1)" "held pid bn i s1" "owners s1 = {i}"
    "brefcnt (buf_at s1 i) = 1" "same_view s s1"
    using bread_quiet [OF q lt card] by blast
  have data: "bdata (buf_at s1 i) = content s bn"
    using held_bdata [OF s1(2)] s1(5) by (simp add: same_view_def)
  let ?s2 = "set_data i (f (content s bn)) s1"
  let ?s3 = "set_dirty i ?s2"
  note sd = set_data_held [OF s1(2) len]
  note dd = set_dirty_held [OF sd(1)]
  have blk: "bblockno (buf_at ?s2 i) = bn" by (rule heldD(10) [OF sd(1)])
  have guard: "\<not> (length (lh l) \<ge> LOGSIZE \<or> int (length (lh l)) \<ge> int (lsize l) - 1)"
    using room L(4) by auto
  have "l\<lparr>lh := absorb bn (lh l)\<rparr> = (if bn \<in> set (lh l) then l else l\<lparr>lh := lh l @ [bn]\<rparr>)"
    by (cases l) (auto simp: absorb_def)
  then have lw: "log_write i l ?s2 = Ok (l\<lparr>lh := absorb bn (lh l)\<rparr>, ?s3)"
    using guard out blk by (simp add: log_write_def Let_def)
  have "brefcnt (buf_at ?s3 i) = 1" "bn \<in> dirty_blocks ?s3"
    using dd(3,5) sd(5) s1(4) by auto
  then obtain s4 where s4: "brelse pid i ?s3 = Ok s4" "bc_inv s4" "owners s4 = owners ?s3 - {i}"
    "same_view ?s3 s4"
    using brelse_owned [OF dd(1)] by blast
  have "brefcnt (buf_at ?s3 j) = brefcnt (buf_at s1 j)" for j
    using dd(4,5) sd(4,5) by (cases "j = i") auto
  then have "owners ?s3 = {i}" using s1(3) by (simp add: owners_def)
  then have q4: "quiet s4" using s4 by (simp add: quiet_def)
  have v4: "content s4 = (content s)(bn := f (content s bn))" "dirty_blocks s4 = insert bn (dirty_blocks s)"
    "disk s4 = disk s" "writes s4 = writes s"
    using s4(4) sd dd s1(5) by (auto simp: same_view_def)
  have "log_inv (l\<lparr>lh := absorb bn (lh l)\<rparr>) s4"
    using inv v4 bn room L(4)
    by (auto simp: log_inv_def lh_fits_def header_ok_def data_block_def absorb_def)
  moreover have "update_block pid bn f l s = Ok (l\<lparr>lh := absorb bn (lh l)\<rparr>, s4)"
    using s1(1) data lw s4(1) by (simp add: update_block_def dev del: One_nat_def)
  ultimately show ?thesis using q4 v4 by blast
qed

lemma updates_ok:
  assumes "log_inv l s" "quiet s" "1 \<le> outstanding l" "length (lh l) + length us < lsize l"
    "\<And>bn d. (bn, d) \<in> set us \<Longrightarrow> data_block l s bn \<and> length d = BSIZE"
  shows "\<exists>bs s'. updates pid us l s = Ok (l\<lparr>lh := bs\<rparr>, s') \<and> quiet s' \<and> log_inv (l\<lparr>lh := bs\<rparr>) s'
    \<and> content s' = override us (content s) \<and> disk s' = disk s \<and> writes s' = writes s"
  using assms
proof (induction us arbitrary: l s)
  case Nil
  then have "updates pid [] l s = Ok (l\<lparr>lh := lh l\<rparr>, s)" by simp
  moreover have "l\<lparr>lh := lh l\<rparr> = l" by simp
  ultimately show ?case using Nil by (metis override_def fold_simps(1))
next
  case (Cons u us)
  obtain bn d where u: "u = (bn, d)" by (cases u)
  let ?l = "l\<lparr>lh := absorb bn (lh l)\<rparr>"
  obtain s1 where s1: "update_block pid bn (\<lambda>_. d) l s = Ok (?l, s1)" "quiet s1" "log_inv ?l s1"
    "content s1 = (content s)(bn := d)" "disk s1 = disk s" "writes s1 = writes s"
    using update_block_ok [OF Cons.prems(1,2), of bn "\<lambda>_. d" pid] Cons.prems(3-) by (auto simp: u)
  have "\<exists>bs s'. updates pid us ?l s1 = Ok (?l\<lparr>lh := bs\<rparr>, s') \<and> quiet s' \<and> log_inv (?l\<lparr>lh := bs\<rparr>) s'
    \<and> content s' = override us (content s1) \<and> disk s' = disk s1 \<and> writes s' = writes s1"
  proof (rule Cons.IH [OF s1(3,2)])
    show "1 \<le> outstanding ?l" using Cons.prems(3) by simp
    show "length (lh ?l) + length us < lsize ?l"
      using Cons.prems(4) length_absorb(2) [of bn "lh l"] by simp
    show "data_block ?l s1 b \<and> length e = BSIZE" if "(b, e) \<in> set us" for b e
      using Cons.prems(5) [of b e] that s1(5) by (simp add: data_block_def)
  qed
  then show ?case using s1 by (auto simp: u override_def)
qed

text \<open>Whole transactions under \<^verbatim>\<open>begin_op\<close> and \<^verbatim>\<open>end_op\<close>, starting between transactions.\<close>

definition log_free :: "log \<Rightarrow> bool" where
  "log_free l \<longleftrightarrow> outstanding l = 0 \<and> \<not> committing l \<and> lh l = []"

lemma crash_safe_cong:
  "crash_safe pid l s1 f s' \<Longrightarrow> disk s1 = disk s \<Longrightarrow> writes s1 = writes s \<Longrightarrow>
     lstart l' = lstart l \<Longrightarrow> lsize l' = lsize l \<Longrightarrow> crash_safe pid l' s f s'"
  by (simp add: crash_safe_def recovers_to_def)

text \<open>C1: a transaction of at most \<^verbatim>\<open>MAXOPBLOCKS\<close> block updates run between \<^verbatim>\<open>begin_op\<close> and
  \<^verbatim>\<open>end_op\<close> on a cache nobody else is using always completes; afterwards every block outside
  the log, in the cache and on the disk, has its updated contents and the log is empty again.
  If the machine stops after any number of its disk writes, and again after any number of the
  writes of each following recovery, then the next completed boot shows, outside the log, either
  all of the old contents or all of the updates; once the transaction has returned, always
  the updates.\<close>

theorem transaction_atomic:
  assumes "log_inv l s" "quiet s" "log_free l" "length us \<le> MAXOPBLOCKS" "length us < lsize l"
    "\<And>bn d. (bn, d) \<in> set us \<Longrightarrow> data_block l s bn \<and> length d = BSIZE"
  shows "\<exists>s'. transaction pid us l s = Ok (l, s') \<and> quiet s' \<and> log_inv l s'
    \<and> (\<forall>bn < length (disk s). outside (lstart l) (lsize l) bn \<longrightarrow>
         content s' bn = override us (content s) bn \<and> disk s' ! bn = override us (content s) bn)
    \<and> crash_safe pid l s (override us (content s)) s'"
proof -
  let ?l1 = "l\<lparr>outstanding := 1\<rparr>"
  have free: "outstanding l = 0" "\<not> committing l" "lh l = []" using assms(3) by (auto simp: log_free_def)
  have b: "begin_op l = Ok ?l1" using free by (simp add: begin_op_def LOGSIZE_def MAXOPBLOCKS_def)
  obtain bs s1 where s1: "updates pid us ?l1 s = Ok (?l1\<lparr>lh := bs\<rparr>, s1)" "quiet s1"
    "log_inv (?l1\<lparr>lh := bs\<rparr>) s1" "content s1 = override us (content s)" "disk s1 = disk s" "writes s1 = writes s"
  proof -
    have "log_inv ?l1 s" using assms(1) by (simp add: log_inv_def)
    moreover have "data_block ?l1 s bn = data_block l s bn" for bn by (simp add: data_block_def)
    ultimately show thesis
      using updates_ok [of ?l1 s us pid] assms(2,5,6) free that by auto
  qed
  let ?l2 = "l\<lparr>outstanding := 0, lh := bs, committing := True\<rparr>"
  have e: "end_op_begin (?l1\<lparr>lh := bs\<rparr>) = Ok (True, ?l2)"
    using free by (cases l) (simp add: end_op_begin_def)
  have inv2: "log_inv ?l2 s1" using s1(3) by (simp add: log_inv_def)
  obtain s' where s': "commit pid ?l2 s1 = Ok (?l2\<lparr>lh := []\<rparr>, s')" "quiet s'" "log_inv (?l2\<lparr>lh := []\<rparr>) s'"
    "\<forall>bn < length (disk s1). outside (lstart ?l2) (lsize ?l2) bn \<longrightarrow>
         content s' bn = content s1 bn \<and> disk s' ! bn = content s1 bn"
    "crash_safe pid ?l2 s1 (content s1) s'"
    using commit_crash_safe [OF inv2 s1(2)] by blast
  have l: "?l2\<lparr>lh := [], committing := False\<rparr> = l" using free by (cases l) simp
  have "transaction pid us l s = Ok (l, s')"
    using b s1(1) e s'(1) l by (simp add: transaction_def end_op_def)
  moreover have "log_inv l s'" using s'(3) free by (simp add: log_inv_def)
  ultimately show ?thesis
    using s'(2,4,5) s1(4,5,6) crash_safe_cong [OF s'(5)] by simp
qed

text \<open>A small disk: the superblock says that the log is blocks 2 and 3.\<close>

definition sample_disk :: "block list" where
  "sample_disk = [replicate BSIZE 0, put32 16 2 (put32 12 2 (replicate BSIZE 0)),
     replicate BSIZE 0, replicate BSIZE 0, replicate BSIZE 0]"

lemma get_head_zero: "get_head (replicate BSIZE 0) = Ok []"
  by (simp add: get_head_def get32_def get_bytes_def BSIZE_def numeral_eq_Suc)

lemma sample_disk_log: "log_inv (log_at 2 2 []) (binit sample_disk)" "quiet (binit sample_disk)"
proof -
  have len: "\<forall>d \<in> set sample_disk. length d = BSIZE" by (simp add: sample_disk_def BSIZE_def)
  note bi = binit_ok [OF len]
  show "quiet (binit sample_disk)" using bi by (simp add: quiet_idle)
  have "sample_disk ! 1 = put32 16 2 (put32 12 2 (replicate BSIZE 0))" by (simp add: sample_disk_def)
  then have "sb_nlog (superblock_of (sample_disk ! 1)) = 2" "sb_logstart (superblock_of (sample_disk ! 1)) = 2"
    by (simp_all add: superblock_of_def BSIZE_def)
  moreover have "length sample_disk = 5" "sample_disk ! 2 = replicate BSIZE 0" by (simp_all add: sample_disk_def)
  ultimately show "log_inv (log_at 2 2 []) (binit sample_disk)"
    using len bi get_head_zero
    by (simp add: log_inv_def layout_def log_at_def lh_fits_def header_ok_Nil LOGSIZE_def MAXOPBLOCKS_def)
qed

theorem transaction_atomic_witness:
  "\<exists>s'. transaction 1 [(4, replicate BSIZE 7)] (log_at 2 2 []) (binit sample_disk) = Ok (log_at 2 2 [], s')
    \<and> content s' 4 = replicate BSIZE 7
    \<and> crash_safe 1 (log_at 2 2 []) (binit sample_disk)
        (override [(4, replicate BSIZE 7)] (content (binit sample_disk))) s'"
proof -
  have d: "disk (binit sample_disk) = sample_disk" "length sample_disk = 5"
    by (simp_all add: binit_def sample_disk_def)
  have "data_block (log_at 2 2 []) (binit sample_disk) 4"
    by (simp add: data_block_def log_at_def outside_def d)
  then show ?thesis
    using transaction_atomic [OF sample_disk_log, of "[(4, replicate BSIZE 7)]" 1]
    by (auto simp: log_free_def log_at_def MAXOPBLOCKS_def d outside_def)
qed

subsection \<open>Reservation of log space\<close>

text \<open>Concurrent operations: each \<^verbatim>\<open>begin_op\<close> adds an operation with a count of the
  \<^verbatim>\<open>log_write\<close> calls it has made, which it keeps within \<^verbatim>\<open>MAXOPBLOCKS\<close>.\<close>

inductive txn_step :: "log \<times> nat list \<Rightarrow> log \<times> nat list \<Rightarrow> bool" where
  step_begin: "begin_op l = Ok l' \<Longrightarrow> txn_step (l, us) (l', us @ [0])"
| step_write: "k < length us \<Longrightarrow> us ! k < MAXOPBLOCKS \<Longrightarrow> log_write i l s = Ok (l', s') \<Longrightarrow>
    txn_step (l, us) (l', us[k := Suc (us ! k)])"
| step_end: "k < length us \<Longrightarrow> end_op_begin l = Ok (c, l') \<Longrightarrow> txn_step (l, us) (l', take k us @ drop (Suc k) us)"
| step_committed: "committing l \<Longrightarrow> txn_step (l, us) (l\<lparr>lh := [], committing := False\<rparr>, us)"

definition txn_inv :: "log \<times> nat list \<Rightarrow> bool" where
  "txn_inv x \<longleftrightarrow> (case x of (l, us) \<Rightarrow> outstanding l = int (length us)
     \<and> (\<forall>u \<in> set us. u \<le> MAXOPBLOCKS)
     \<and> length (lh l) + (\<Sum>u\<leftarrow>us. MAXOPBLOCKS - u) \<le> LOGSIZE)"

lemma sum_list_reserved: "(\<Sum>u\<leftarrow>us. MAXOPBLOCKS - u) \<le> length us * MAXOPBLOCKS"
  by (induction us) auto

lemma sum_list_spend:
  assumes "k < length us" "us ! k < MAXOPBLOCKS"
  shows "Suc (\<Sum>u\<leftarrow>us[k := Suc (us ! k)]. MAXOPBLOCKS - u) = (\<Sum>u\<leftarrow>us. MAXOPBLOCKS - u)"
proof -
  have "us = take k us @ us ! k # drop (Suc k) us" using assms(1) by (rule id_take_nth_drop)
  then have "(\<Sum>u\<leftarrow>us. MAXOPBLOCKS - u) = (\<Sum>u\<leftarrow>take k us. MAXOPBLOCKS - u)
      + (MAXOPBLOCKS - us ! k) + (\<Sum>u\<leftarrow>drop (Suc k) us. MAXOPBLOCKS - u)"
    by (metis (no_types) map_append list.simps(9) sum_list.append sum_list.Cons add.assoc)
  moreover have "us[k := Suc (us ! k)] = take k us @ Suc (us ! k) # drop (Suc k) us"
    using assms(1) by (rule upd_conv_take_nth_drop)
  ultimately show ?thesis using assms(2) by simp
qed

lemma txn_inv_step: "txn_step x y \<Longrightarrow> txn_inv x \<Longrightarrow> txn_inv y"
proof (induction rule: txn_step.induct)
  case (step_begin l l' us)
  have "int (length (lh l)) + (int (length us) + 1) * int MAXOPBLOCKS \<le> int LOGSIZE"
    "l' = l\<lparr>outstanding := outstanding l + 1\<rparr>"
    using step_begin by (auto simp: begin_op_def txn_inv_def split: if_splits)
  then have "length (lh l) + Suc (length us) * MAXOPBLOCKS \<le> LOGSIZE" "l' = l\<lparr>outstanding := outstanding l + 1\<rparr>"
    by (simp_all add: MAXOPBLOCKS_def LOGSIZE_def)
  with step_begin sum_list_reserved [of us] show ?case by (auto simp: txn_inv_def)
next
  case (step_write k us i l s l' s')
  have "length (lh l') \<le> Suc (length (lh l))" "outstanding l' = outstanding l"
    using step_write(3) by (auto simp: log_write_def Let_def split: if_splits)
  with step_write sum_list_spend [OF step_write(1,2)] show ?case
    by (fastforce simp: txn_inv_def dest: subsetD [OF set_update_subset_insert])
next
  case (step_end k us l c l')
  have l': "lh l' = lh l" "outstanding l' = outstanding l - 1"
    using step_end(2) by (auto simp: end_op_begin_def Let_def split: if_splits)
  have us: "us = take k us @ us ! k # drop (Suc k) us" using step_end(1) by (rule id_take_nth_drop)
  have "(\<Sum>u\<leftarrow>take k us @ drop (Suc k) us. MAXOPBLOCKS - u) \<le> (\<Sum>u\<leftarrow>us. MAXOPBLOCKS - u)"
    by (subst (3) us) simp
  moreover have "set (take k us @ drop (Suc k) us) \<subseteq> set us" by (subst (3) us) auto
  ultimately show ?case using step_end(1,3) l' by (auto simp: txn_inv_def)
next
  case (step_committed l us)
  then show ?case by (simp add: txn_inv_def)
qed

lemma txn_inv_reachable:
  "txn_step\<^sup>*\<^sup>* (log_at start sz [], []) x \<Longrightarrow> txn_inv x"
proof (induction rule: rtranclp_induct)
  case base
  then show ?case by (simp add: txn_inv_def log_at_def)
next
  case (step y z)
  then show ?case by (blast intro: txn_inv_step)
qed

lemma lsize_reachable:
  "txn_step\<^sup>*\<^sup>* (log_at start sz [], []) (l, us) \<Longrightarrow> lsize l = sz"
proof -
  have one: "txn_step x y \<Longrightarrow> lsize (fst y) = lsize (fst x)" for x y
    by (induction rule: txn_step.induct)
       (auto simp: begin_op_def log_write_def end_op_begin_def Let_def split: if_splits)
  have "txn_step\<^sup>*\<^sup>* x y \<Longrightarrow> lsize (fst y) = lsize (fst x)" for x y
    by (induction rule: rtranclp_induct) (simp_all add: one)
  then show "txn_step\<^sup>*\<^sup>* (log_at start sz [], []) (l, us) \<Longrightarrow> lsize l = sz"
    by (fastforce simp: log_at_def)
qed

text \<open>C25: however operations interleave, the check of \<^verbatim>\<open>begin_op\<close> reserves enough room: an operation
  that has made fewer than \<^verbatim>\<open>MAXOPBLOCKS\<close> calls of \<^verbatim>\<open>log_write\<close> always finds the header below
  \<^verbatim>\<open>LOGSIZE\<close> entries, and with more than \<^verbatim>\<open>LOGSIZE\<close> log blocks on disk its next call
  succeeds.\<close>

theorem log_space_reserved:
  assumes "txn_step\<^sup>*\<^sup>* (log_at start sz [], []) (l, us)" "k < length us" "us ! k < MAXOPBLOCKS"
  shows "length (lh l) < LOGSIZE \<and> (LOGSIZE < sz \<longrightarrow> (\<exists>r. log_write i l s = Ok r))"
proof (intro conjI impI)
  have inv: "outstanding l = int (length us)" "length (lh l) + (\<Sum>u\<leftarrow>us. MAXOPBLOCKS - u) \<le> LOGSIZE"
    using txn_inv_reachable [OF assms(1)] by (auto simp: txn_inv_def)
  have "0 < (\<Sum>u\<leftarrow>us. MAXOPBLOCKS - u)" using sum_list_spend [OF assms(2,3)] by linarith
  then show lt: "length (lh l) < LOGSIZE" using inv(2) by linarith
  show "\<exists>r. log_write i l s = Ok r" if "LOGSIZE < sz"
    using lt inv(1) assms(2) lsize_reachable [OF assms(1)] that by (auto simp: log_write_def Let_def)
qed

lemma txn_three_begins:
  "txn_step\<^sup>*\<^sup>* (log_at start sz [], []) ((log_at start sz [])\<lparr>outstanding := 3\<rparr>, [0, 0, 0])"
proof -
  have "txn_step ((log_at start sz [])\<lparr>outstanding := int (length us)\<rparr>, us)
     ((log_at start sz [])\<lparr>outstanding := int (Suc (length us))\<rparr>, us @ [0])" if "length us < 3" for us
    by (rule step_begin) (use that in \<open>auto simp: begin_op_def log_at_def LOGSIZE_def MAXOPBLOCKS_def\<close>)
  from this [of "[]"] this [of "[0]"] this [of "[0, 0]"] show ?thesis
    by (simp add: log_at_def)
qed

text \<open>A buffer of the cache standing for block \<open>b\<close>.\<close>

definition cache_with :: "nat \<Rightarrow> io" where
  "cache_with b = set_buf 0 (zero_buf\<lparr>bblockno := b\<rparr>) (binit [])"

lemma txn_writes:
  assumes "k < length us" "us ! k + m \<le> MAXOPBLOCKS" "outstanding l \<ge> 1"
    "length (lh l) + m \<le> LOGSIZE" "int (length (lh l) + m) < int (lsize l)" "lh l = [0..<n]"
  shows "txn_step\<^sup>*\<^sup>* (l, us) (l\<lparr>lh := [0..<n + m]\<rparr>, us[k := us ! k + m])"
  using assms
proof (induction m)
  case 0
  then have "l\<lparr>lh := [0..<n + 0]\<rparr> = l" by (cases l) simp
  then show ?case by (simp only: add_0_right list_update_id rtranclp.rtrancl_refl)
next
  case (Suc m)
  have b: "bblockno (buf_at (cache_with (n + m)) 0) = n + m"
    by (simp add: cache_with_def set_buf_def binit_def NBUF_def)
  have "log_write 0 (l\<lparr>lh := [0..<n + m]\<rparr>) (cache_with (n + m))
      = Ok (l\<lparr>lh := [0..<n + m] @ [n + m]\<rparr>, set_dirty 0 (cache_with (n + m)))"
    using Suc.prems b by (simp add: log_write_def Let_def)
  then have w: "log_write 0 (l\<lparr>lh := [0..<n + m]\<rparr>) (cache_with (n + m))
      = Ok (l\<lparr>lh := [0..<n + Suc m]\<rparr>, set_dirty 0 (cache_with (n + m)))" by simp
  have "txn_step (l\<lparr>lh := [0..<n + m]\<rparr>, us[k := us ! k + m])
      (l\<lparr>lh := [0..<n + Suc m]\<rparr>, (us[k := us ! k + m])[k := Suc (us[k := us ! k + m] ! k)])"
    by (rule step_write [OF _ _ w]) (use Suc.prems in auto)
  with Suc show ?case by (auto intro: rtranclp.rtrancl_into_rtrancl)
qed

text \<open>\<^verbatim>\<open>mkfs\<close> makes the log \<^verbatim>\<open>LOGSIZE\<close> blocks long, header included, so that only
  \<^verbatim>\<open>LOGSIZE - 1\<close> blocks can be logged while \<^verbatim>\<open>begin_op\<close> gives out \<^verbatim>\<open>LOGSIZE\<close>: three concurrent
  operations that each stay within their \<^verbatim>\<open>MAXOPBLOCKS\<close> reach a state where the next
  permitted \<^verbatim>\<open>log_write\<close> stops the machine.\<close>

theorem log_reservation_off_by_one:
  "\<exists>l us k i s. txn_step\<^sup>*\<^sup>* (log_at start LOGSIZE [], []) (l, us) \<and> k < length us
     \<and> us ! k < MAXOPBLOCKS \<and> log_write i l s = Panic ''too big a transaction''"
proof -
  let ?l = "\<lambda>n. (log_at start LOGSIZE [])\<lparr>outstanding := 3, lh := [0..<n]\<rparr>"
  have "txn_step\<^sup>*\<^sup>* (?l 0, [0, 0, 0]) (?l 10, [10, 0, 0])"
    using txn_writes [of 0 "[0, 0, 0]" 10 "?l 0" 0] by (simp add: log_at_def LOGSIZE_def MAXOPBLOCKS_def)
  moreover have "txn_step\<^sup>*\<^sup>* (?l 10, [10, 0, 0]) (?l 20, [10, 10, 0])"
    using txn_writes [of 1 "[10, 0, 0]" 10 "?l 10" 10] by (simp add: log_at_def LOGSIZE_def MAXOPBLOCKS_def)
  moreover have "txn_step\<^sup>*\<^sup>* (?l 20, [10, 10, 0]) (?l 29, [10, 10, 9])"
    using txn_writes [of 2 "[10, 10, 0]" 9 "?l 20" 20] by (simp add: log_at_def LOGSIZE_def MAXOPBLOCKS_def)
  moreover have "txn_step\<^sup>*\<^sup>* (log_at start LOGSIZE [], []) (?l 0, [0, 0, 0])"
    using txn_three_begins [of start LOGSIZE] by (simp add: log_at_def)
  ultimately have "txn_step\<^sup>*\<^sup>* (log_at start LOGSIZE [], []) (?l 29, [10, 10, 9])"
    by (meson rtranclp_trans)
  moreover have "log_write 0 (?l 29) (binit []) = Panic ''too big a transaction''"
    by (simp add: log_write_def log_at_def LOGSIZE_def MAXOPBLOCKS_def)
  ultimately show ?thesis
    by (intro exI [of _ "?l 29"] exI [of _ "[10, 10, 9]"] exI [of _ 2] exI [of _ 0] exI [of _ "binit []"])
       (simp add: MAXOPBLOCKS_def)
qed

theorem log_space_reserved_witness:
  "length (lh ((log_at 2 31 [])\<lparr>outstanding := 3\<rparr>)) < LOGSIZE
    \<and> (\<exists>r. log_write 0 ((log_at 2 31 [])\<lparr>outstanding := 3\<rparr>) (binit []) = Ok r)"
  using log_space_reserved [OF txn_three_begins, of 0 2 31 0 "binit []"]
  by (simp add: MAXOPBLOCKS_def LOGSIZE_def)

end
