(* ===== verification/Fs.thy ===== *)
theory Fs
  imports Log
begin
unbundle bit_operations_syntax

text \<open>
  The file system proper, \<^verbatim>\<open>p4/fs.c\<close>: free blocks, inodes and their cache, file contents,
  directories and path names.  The functions run inside a transaction, and the blocks are the
  contents that a process sees through \<^verbatim>\<open>bread\<close> while it holds the buffer: reading a block out of
  range panics in \<^verbatim>\<open>iderw\<close>, and a buffer changed before \<^verbatim>\<open>log_write\<close> is the new contents of its
  block (\<open>refines_log\<close> below, on the log and the buffer cache).  What the transaction does to
  the disk is the subject of theory \<^verbatim>\<open>Log\<close>.  An inode is named by its position in \<^verbatim>\<open>icache\<close>.
\<close>

subsection \<open>Data\<close>

definition NDIRECT :: nat where "NDIRECT = 12"
definition NINDIRECT :: nat where "NINDIRECT = BSIZE div 4"
definition MAXFILE :: nat where "MAXFILE = NDIRECT + NINDIRECT"
definition DINODE_SIZE :: nat where "DINODE_SIZE = 64"
definition IPB :: nat where "IPB = BSIZE div DINODE_SIZE"
definition BPB :: nat where "BPB = BSIZE * 8"
definition DIRSIZ :: nat where "DIRSIZ = 14"
definition DIRENT_SIZE :: nat where "DIRENT_SIZE = 16"
definition NINODE :: nat where "NINODE = 50"
definition NDEV :: int where "NDEV = 10"
definition ROOTINO :: nat where "ROOTINO = 1"
definition T_DIR :: u16 where "T_DIR = 1"
definition T_FILE :: u16 where "T_FILE = 2"
definition T_DEV :: u16 where "T_DEV = 3"

definition IBLOCK :: "nat \<Rightarrow> superblock \<Rightarrow> nat" where
  "IBLOCK i sb = i div IPB + sb_inodestart sb"

definition BBLOCK :: "nat \<Rightarrow> superblock \<Rightarrow> nat" where
  "BBLOCK b sb = b div BPB + sb_bmapstart sb"

record inode =
  i_dev :: nat
  i_inum :: nat
  i_ref :: int
  i_lock :: sleeplock
  i_valid :: bool
  i_type :: u16
  i_major :: u16
  i_minor :: u16
  i_nlink :: u16
  i_size :: nat
  i_addrs :: "nat list"

record fsys =
  fblocks :: "block list"
  fsb :: superblock
  icache :: "inode list"

abbreviation ino :: "fsys \<Rightarrow> nat \<Rightarrow> inode" where "ino s ip \<equiv> icache s ! ip"

definition set_ino :: "nat \<Rightarrow> inode \<Rightarrow> fsys \<Rightarrow> fsys" where
  "set_ino ip i s = s\<lparr>icache := (icache s)[ip := i]\<rparr>"

text \<open>\<^verbatim>\<open>bread\<close> of a block, and the block after \<^verbatim>\<open>log_write\<close> and \<^verbatim>\<open>brelse\<close>.\<close>

definition rd :: "nat \<Rightarrow> fsys \<Rightarrow> block outcome" where
  "rd b s = (if b < length (fblocks s) then Ok (fblocks s ! b) else Panic ''iderw: block out of range'')"

definition wr :: "nat \<Rightarrow> block \<Rightarrow> fsys \<Rightarrow> fsys" where
  "wr b d s = s\<lparr>fblocks := (fblocks s)[b := d]\<rparr>"

subsection \<open>Free blocks\<close>

definition bit_used :: "block \<Rightarrow> nat \<Rightarrow> bool" where
  "bit_used d bi \<longleftrightarrow> d ! (bi div 8) AND push_bit (bi mod 8) 1 \<noteq> 0"

definition mark_used :: "nat \<Rightarrow> block \<Rightarrow> block" where
  "mark_used bi d = d[bi div 8 := d ! (bi div 8) OR push_bit (bi mod 8) 1]"

definition mark_free :: "nat \<Rightarrow> block \<Rightarrow> block" where
  "mark_free bi d = d[bi div 8 := d ! (bi div 8) AND NOT (push_bit (bi mod 8) 1)]"

definition zero_block :: "nat \<Rightarrow> fsys \<Rightarrow> fsys outcome" where
  "zero_block b s = and_then (rd b s) (\<lambda>_. Ok (wr b (replicate BSIZE 0) s))"

function balloc_loop :: "nat \<Rightarrow> fsys \<Rightarrow> (nat \<times> fsys) outcome" where
  "balloc_loop b s =
     (if b < sb_size (fsb s)
      then and_then (rd (BBLOCK b (fsb s)) s) (\<lambda>d.
             case find (\<lambda>bi. \<not> bit_used d bi) [0..<min BPB (sb_size (fsb s) - b)] of
               Some bi \<Rightarrow>
                 and_then (zero_block (b + bi) (wr (BBLOCK b (fsb s)) (mark_used bi d) s)) (\<lambda>s. Ok (b + bi, s))
             | None \<Rightarrow> balloc_loop (b + BPB) s)
      else Panic ''balloc: out of blocks'')"
  by pat_completeness auto
termination by (relation "measure (\<lambda>(b, s). sb_size (fsb s) - b)") (auto simp: BPB_def BSIZE_def)

declare balloc_loop.simps [simp del]

definition balloc :: "fsys \<Rightarrow> (nat \<times> fsys) outcome" where
  "balloc s = balloc_loop 0 s"

definition bfree :: "nat \<Rightarrow> fsys \<Rightarrow> fsys outcome" where
  "bfree b s =
     and_then (rd (BBLOCK b (fsb s)) s) (\<lambda>d.
       if \<not> bit_used d (b mod BPB) then Panic ''freeing free block''
       else Ok (wr (BBLOCK b (fsb s)) (mark_free (b mod BPB) d) s))"

subsection \<open>Inodes\<close>

text \<open>The fields of a \<^verbatim>\<open>struct dinode\<close> at offset \<open>o\<close> of a block.\<close>

definition dinode_type :: "nat \<Rightarrow> block \<Rightarrow> u16" where
  "dinode_type off d = get16 off d"

fun get_addrs :: "nat \<Rightarrow> nat \<Rightarrow> block \<Rightarrow> nat list" where
  "get_addrs off 0 d = []"
| "get_addrs off (Suc n) d = unat (get32 off d) # get_addrs (off + 4) n d"

fun put_addrs :: "nat \<Rightarrow> nat list \<Rightarrow> block \<Rightarrow> block" where
  "put_addrs off [] d = d"
| "put_addrs off (a # as) d = put_addrs (off + 4) as (put32 off (of_nat a) d)"

definition load_dinode :: "nat \<Rightarrow> block \<Rightarrow> inode \<Rightarrow> inode" where
  "load_dinode off d i =
     i\<lparr>i_type := get16 off d, i_major := get16 (off + 2) d, i_minor := get16 (off + 4) d,
       i_nlink := get16 (off + 6) d, i_size := unat (get32 (off + 8) d),
       i_addrs := get_addrs (off + 12) (NDIRECT + 1) d\<rparr>"

definition store_dinode :: "nat \<Rightarrow> inode \<Rightarrow> block \<Rightarrow> block" where
  "store_dinode off i d =
     put_addrs (off + 12) (i_addrs i)
       (put32 (off + 8) (of_nat (i_size i))
       (put16 (off + 6) (i_nlink i)
       (put16 (off + 4) (i_minor i)
       (put16 (off + 2) (i_major i)
       (put16 off (i_type i) d)))))"

definition iget :: "nat \<Rightarrow> nat \<Rightarrow> fsys \<Rightarrow> (nat \<times> fsys) outcome" where
  "iget dev inum s =
     (case find_index (\<lambda>i. i_ref i > 0 \<and> i_dev i = dev \<and> i_inum i = inum) (icache s) of
        Some ip \<Rightarrow> Ok (ip, set_ino ip ((ino s ip)\<lparr>i_ref := i_ref (ino s ip) + 1\<rparr>) s)
      | None \<Rightarrow>
          (case find_index (\<lambda>i. i_ref i = 0) (icache s) of
             None \<Rightarrow> Panic ''iget: no inodes''
           | Some ip \<Rightarrow>
               Ok (ip, set_ino ip ((ino s ip)\<lparr>i_dev := dev, i_inum := inum, i_ref := 1, i_valid := False\<rparr>) s)))"

text \<open>The search of \<^verbatim>\<open>ialloc\<close> goes over the inode numbers below \<^verbatim>\<open>sb.ninodes\<close>.\<close>

fun ialloc_loop :: "nat \<Rightarrow> u16 \<Rightarrow> nat list \<Rightarrow> fsys \<Rightarrow> (nat \<times> fsys) outcome" where
  "ialloc_loop dev ty [] s = Panic ''ialloc: no inodes''"
| "ialloc_loop dev ty (inum # is) s =
     and_then (rd (IBLOCK inum (fsb s)) s) (\<lambda>d.
       let off = DINODE_SIZE * (inum mod IPB) in
       if dinode_type off d = 0
       then iget dev inum (wr (IBLOCK inum (fsb s))
              (put16 off ty (put_bytes off (replicate DINODE_SIZE 0) d)) s)
       else ialloc_loop dev ty is s)"

definition ialloc :: "nat \<Rightarrow> u16 \<Rightarrow> fsys \<Rightarrow> (nat \<times> fsys) outcome" where
  "ialloc dev ty s = ialloc_loop dev ty [1..<sb_ninodes (fsb s)] s"

definition iupdate :: "nat \<Rightarrow> fsys \<Rightarrow> fsys outcome" where
  "iupdate ip s =
     (let i = ino s ip; b = IBLOCK (i_inum i) (fsb s) in
      and_then (rd b s) (\<lambda>d.
        Ok (wr b (store_dinode (DINODE_SIZE * (i_inum i mod IPB)) i d) s)))"

definition idup :: "nat \<Rightarrow> fsys \<Rightarrow> fsys" where
  "idup ip s = set_ino ip ((ino s ip)\<lparr>i_ref := i_ref (ino s ip) + 1\<rparr>) s"

definition ilock :: "nat \<Rightarrow> nat \<Rightarrow> fsys \<Rightarrow> fsys outcome" where
  "ilock pid ip s =
     (if i_ref (ino s ip) < 1 then Panic ''ilock''
      else and_then (acquiresleep pid (i_lock (ino s ip))) (\<lambda>lk.
        let i = (ino s ip)\<lparr>i_lock := lk\<rparr> in
        if i_valid i then Ok (set_ino ip i s)
        else and_then (rd (IBLOCK (i_inum i) (fsb s)) s) (\<lambda>d.
          let i = (load_dinode (DINODE_SIZE * (i_inum i mod IPB)) d i)\<lparr>i_valid := True\<rparr> in
          if i_type i = 0 then Panic ''ilock: no type'' else Ok (set_ino ip i s))))"

definition iunlock :: "nat \<Rightarrow> nat \<Rightarrow> fsys \<Rightarrow> fsys outcome" where
  "iunlock pid ip s =
     (if \<not> holdingsleep pid (i_lock (ino s ip)) \<or> i_ref (ino s ip) < 1 then Panic ''iunlock''
      else Ok (set_ino ip ((ino s ip)\<lparr>i_lock := releasesleep (i_lock (ino s ip))\<rparr>) s))"

subsection \<open>Inode contents\<close>

definition bmap :: "nat \<Rightarrow> nat \<Rightarrow> fsys \<Rightarrow> (nat \<times> fsys) outcome" where
  "bmap ip bn s =
     (if bn < NDIRECT
      then let addr = i_addrs (ino s ip) ! bn in
           if addr = 0
           then and_then (balloc s) (\<lambda>(addr, s).
                  Ok (addr, set_ino ip ((ino s ip)\<lparr>i_addrs := (i_addrs (ino s ip))[bn := addr]\<rparr>) s))
           else Ok (addr, s)
      else if bn - NDIRECT < NINDIRECT
      then let bn = bn - NDIRECT; addr = i_addrs (ino s ip) ! NDIRECT in
           and_then (if addr = 0
                     then and_then (balloc s) (\<lambda>(addr, s).
                       Ok (addr, set_ino ip ((ino s ip)\<lparr>i_addrs := (i_addrs (ino s ip))[NDIRECT := addr]\<rparr>) s))
                     else Ok (addr, s)) (\<lambda>(ind, s).
           and_then (rd ind s) (\<lambda>d.
             let addr = unat (get32 (4 * bn) d) in
             if addr = 0
             then and_then (balloc s) (\<lambda>(addr, s).
                  and_then (rd ind s) (\<lambda>d. Ok (addr, wr ind (put32 (4 * bn) (of_nat addr) d) s)))
             else Ok (addr, s)))
      else Panic ''bmap: out of range'')"

fun itrunc_direct :: "nat \<Rightarrow> nat list \<Rightarrow> fsys \<Rightarrow> fsys outcome" where
  "itrunc_direct ip [] s = Ok s"
| "itrunc_direct ip (i # is) s =
     (if i_addrs (ino s ip) ! i \<noteq> 0
      then and_then (bfree (i_addrs (ino s ip) ! i) s) (\<lambda>s.
             itrunc_direct ip is (set_ino ip ((ino s ip)\<lparr>i_addrs := (i_addrs (ino s ip))[i := 0]\<rparr>) s))
      else itrunc_direct ip is s)"

fun itrunc_indirect :: "nat \<Rightarrow> nat list \<Rightarrow> fsys \<Rightarrow> fsys outcome" where
  "itrunc_indirect ind [] s = Ok s"
| "itrunc_indirect ind (j # js) s =
     and_then (rd ind s) (\<lambda>d.
       let a = unat (get32 (4 * j) d) in
       if a \<noteq> 0 then and_then (bfree a s) (itrunc_indirect ind js) else itrunc_indirect ind js s)"

definition itrunc :: "nat \<Rightarrow> fsys \<Rightarrow> fsys outcome" where
  "itrunc ip s =
     and_then (itrunc_direct ip [0..<NDIRECT] s) (\<lambda>s.
     let ind = i_addrs (ino s ip) ! NDIRECT in
     and_then (if ind \<noteq> 0
               then and_then (itrunc_indirect ind [0..<NINDIRECT] s) (\<lambda>s.
                    and_then (bfree ind s) (\<lambda>s.
                      Ok (set_ino ip ((ino s ip)\<lparr>i_addrs := (i_addrs (ino s ip))[NDIRECT := 0]\<rparr>) s)))
               else Ok s) (\<lambda>s.
     iupdate ip (set_ino ip ((ino s ip)\<lparr>i_size := 0\<rparr>) s)))"

definition iput :: "nat \<Rightarrow> nat \<Rightarrow> fsys \<Rightarrow> fsys outcome" where
  "iput pid ip s =
     and_then (acquiresleep pid (i_lock (ino s ip))) (\<lambda>lk.
     let s = set_ino ip ((ino s ip)\<lparr>i_lock := lk\<rparr>) s in
     and_then (if i_valid (ino s ip) \<and> i_nlink (ino s ip) = 0 \<and> i_ref (ino s ip) = 1
               then and_then (itrunc ip s) (\<lambda>s.
                    and_then (iupdate ip (set_ino ip ((ino s ip)\<lparr>i_type := 0\<rparr>) s)) (\<lambda>s.
                      Ok (set_ino ip ((ino s ip)\<lparr>i_valid := False\<rparr>) s)))
               else Ok s) (\<lambda>s.
     Ok (set_ino ip ((ino s ip)\<lparr>i_lock := releasesleep (i_lock (ino s ip)), i_ref := i_ref (ino s ip) - 1\<rparr>) s)))"

definition iunlockput :: "nat \<Rightarrow> nat \<Rightarrow> fsys \<Rightarrow> fsys outcome" where
  "iunlockput pid ip s = and_then (iunlock pid ip s) (iput pid ip)"

record stat =
  st_type :: u16
  st_dev :: nat
  st_ino :: nat
  st_nlink :: u16
  st_size :: nat

definition stati :: "nat \<Rightarrow> fsys \<Rightarrow> stat" where
  "stati ip s = \<lparr>st_type = i_type (ino s ip), st_dev = i_dev (ino s ip), st_ino = i_inum (ino s ip),
     st_nlink = i_nlink (ino s ip), st_size = i_size (ino s ip)\<rparr>"

text \<open>The device table: a read function gives its result and the bytes it delivers.\<close>

type_synonym devread = "int \<Rightarrow> (nat \<Rightarrow> int \<times> byte list) option"
type_synonym devwrite = "int \<Rightarrow> (byte list \<Rightarrow> int) option"

function readi_loop :: "nat \<Rightarrow> nat \<Rightarrow> nat \<Rightarrow> fsys \<Rightarrow> (byte list \<times> fsys) outcome" where
  "readi_loop ip off n s =
     (if n = 0 then Ok ([], s)
      else and_then (bmap ip (off div BSIZE) s) (\<lambda>(b, s).
           and_then (rd b s) (\<lambda>d.
             let m = min n (BSIZE - off mod BSIZE) in
             and_then (readi_loop ip (off + m) (n - m) s) (\<lambda>(bs, s).
               Ok (get_bytes (off mod BSIZE) m d @ bs, s)))))"
  by pat_completeness auto
termination by (relation "measure (\<lambda>(ip, off, n, s). n)") (auto simp: BSIZE_def)

declare readi_loop.simps [simp del]

definition readi :: "devread \<Rightarrow> nat \<Rightarrow> nat \<Rightarrow> nat \<Rightarrow> fsys \<Rightarrow> (int \<times> byte list \<times> fsys) outcome" where
  "readi devr ip off n s =
     (let i = ino s ip in
      if i_type i = T_DEV
      then (if sint (i_major i) < 0 \<or> sint (i_major i) \<ge> NDEV then Ok (- 1, [], s)
            else case devr (sint (i_major i)) of
                   None \<Rightarrow> Ok (- 1, [], s)
                 | Some f \<Rightarrow> (case f n of (r, bs) \<Rightarrow> Ok (r, bs, s)))
      else if off > i_size i \<or> (off + n) mod 2 ^ 32 < off then Ok (- 1, [], s)
      else let n = (if off + n > i_size i then i_size i - off else n) in
           and_then (readi_loop ip off n s) (\<lambda>(bs, s). Ok (int n, bs, s)))"

function writei_loop :: "nat \<Rightarrow> nat \<Rightarrow> byte list \<Rightarrow> fsys \<Rightarrow> (nat \<times> fsys) outcome" where
  "writei_loop ip off src s =
     (if src = [] then Ok (off, s)
      else and_then (bmap ip (off div BSIZE) s) (\<lambda>(b, s).
           and_then (rd b s) (\<lambda>d.
             let m = min (length src) (BSIZE - off mod BSIZE) in
             writei_loop ip (off + m) (drop m src) (wr b (put_bytes (off mod BSIZE) (take m src) d) s))))"
  by pat_completeness auto
termination by (relation "measure (\<lambda>(ip, off, src, s). length src)") (auto simp: BSIZE_def)

declare writei_loop.simps [simp del]

definition writei :: "devwrite \<Rightarrow> nat \<Rightarrow> byte list \<Rightarrow> nat \<Rightarrow> fsys \<Rightarrow> (int \<times> fsys) outcome" where
  "writei devw ip src off s =
     (let i = ino s ip; n = length src in
      if i_type i = T_DEV
      then (if sint (i_major i) < 0 \<or> sint (i_major i) \<ge> NDEV then Ok (- 1, s)
            else case devw (sint (i_major i)) of None \<Rightarrow> Ok (- 1, s) | Some f \<Rightarrow> Ok (f src, s))
      else if off > i_size i \<or> (off + n) mod 2 ^ 32 < off then Ok (- 1, s)
      else if off + n > MAXFILE * BSIZE then Ok (- 1, s)
      else and_then (writei_loop ip off src s) (\<lambda>(off, s).
             if n > 0 \<and> off > i_size (ino s ip)
             then and_then (iupdate ip (set_ino ip ((ino s ip)\<lparr>i_size := off\<rparr>) s)) (\<lambda>s. Ok (int n, s))
             else Ok (int n, s)))"

subsection \<open>Directories\<close>

text \<open>C strings are byte lists; past the end of the list is the terminator.\<close>

definition hd0 :: "byte list \<Rightarrow> byte" where
  "hd0 s = (if s = [] then 0 else hd s)"

fun strncmp_bytes :: "nat \<Rightarrow> byte list \<Rightarrow> byte list \<Rightarrow> int" where
  "strncmp_bytes 0 s t = 0"
| "strncmp_bytes (Suc n) s t =
     (if hd0 s \<noteq> 0 \<and> hd0 s = hd0 t then strncmp_bytes n (tl s) (tl t) else uint (hd0 s) - uint (hd0 t))"

definition namecmp :: "byte list \<Rightarrow> byte list \<Rightarrow> int" where
  "namecmp s t = strncmp_bytes DIRSIZ s t"

definition de_inum :: "byte list \<Rightarrow> u16" where "de_inum de = get16 0 de"
definition de_name :: "byte list \<Rightarrow> byte list" where "de_name de = get_bytes 2 DIRSIZ de"

text \<open>\<^verbatim>\<open>strncpy(de.name, name, DIRSIZ)\<close> and the entry around it.\<close>

definition pad_name :: "byte list \<Rightarrow> byte list" where
  "pad_name name = take DIRSIZ (takeWhile (\<lambda>c. c \<noteq> 0) name @ replicate DIRSIZ 0)"

definition mk_dirent :: "nat \<Rightarrow> byte list \<Rightarrow> byte list" where
  "mk_dirent inum name = le16 (of_nat inum) @ pad_name name"

function dirlookup_loop :: "devread \<Rightarrow> nat \<Rightarrow> byte list \<Rightarrow> nat \<Rightarrow> nat \<Rightarrow> fsys \<Rightarrow> ((nat \<times> nat) option \<times> fsys) outcome" where
  "dirlookup_loop devr dp name off sz s =
     (if off < sz
      then and_then (readi devr dp off DIRENT_SIZE s) (\<lambda>(r, de, s).
             if r \<noteq> int DIRENT_SIZE then Panic ''dirlookup read''
             else if de_inum de = 0 then dirlookup_loop devr dp name (off + DIRENT_SIZE) sz s
             else if namecmp name (de_name de) = 0
             then and_then (iget (i_dev (ino s dp)) (unat (de_inum de)) s) (\<lambda>(ip, s). Ok (Some (ip, off), s))
             else dirlookup_loop devr dp name (off + DIRENT_SIZE) sz s)
      else Ok (None, s))"
  by pat_completeness auto
termination by (relation "measure (\<lambda>(devr, dp, name, off, sz, s). sz - off)") (auto simp: DIRENT_SIZE_def)

declare dirlookup_loop.simps [simp del]

text \<open>The result is the inode and the offset that goes to \<^verbatim>\<open>*poff\<close>.\<close>

definition dirlookup :: "devread \<Rightarrow> nat \<Rightarrow> byte list \<Rightarrow> fsys \<Rightarrow> ((nat \<times> nat) option \<times> fsys) outcome" where
  "dirlookup devr dp name s =
     (if i_type (ino s dp) \<noteq> T_DIR then Panic ''dirlookup not DIR''
      else dirlookup_loop devr dp name 0 (i_size (ino s dp)) s)"

function empty_dirent_loop :: "devread \<Rightarrow> nat \<Rightarrow> nat \<Rightarrow> nat \<Rightarrow> fsys \<Rightarrow> (nat \<times> fsys) outcome" where
  "empty_dirent_loop devr dp off sz s =
     (if off < sz
      then and_then (readi devr dp off DIRENT_SIZE s) (\<lambda>(r, de, s).
             if r \<noteq> int DIRENT_SIZE then Panic ''dirlink read''
             else if de_inum de = 0 then Ok (off, s)
             else empty_dirent_loop devr dp (off + DIRENT_SIZE) sz s)
      else Ok (off, s))"
  by pat_completeness auto
termination by (relation "measure (\<lambda>(devr, dp, off, sz, s). sz - off)") (auto simp: DIRENT_SIZE_def)

declare empty_dirent_loop.simps [simp del]

definition dirlink :: "devread \<Rightarrow> devwrite \<Rightarrow> nat \<Rightarrow> nat \<Rightarrow> byte list \<Rightarrow> nat \<Rightarrow> fsys \<Rightarrow> (int \<times> fsys) outcome" where
  "dirlink devr devw pid dp name inum s =
     and_then (dirlookup devr dp name s) (\<lambda>(found, s).
       case found of
         Some (ip, off) \<Rightarrow> and_then (iput pid ip s) (\<lambda>s. Ok (- 1, s))
       | None \<Rightarrow>
           and_then (empty_dirent_loop devr dp 0 (i_size (ino s dp)) s) (\<lambda>(off, s).
           and_then (writei devw dp (mk_dirent inum name) off s) (\<lambda>(r, s).
             if r \<noteq> int DIRENT_SIZE then Panic ''dirlink'' else Ok (0, s))))"

subsection \<open>Paths\<close>

definition slash :: byte where "slash = 47"

text \<open>The element without its terminator, cut to \<^verbatim>\<open>DIRSIZ\<close>, and the rest of the path.\<close>

definition skipelem :: "byte list \<Rightarrow> (byte list \<times> byte list) option" where
  "skipelem path =
     (let p = dropWhile (\<lambda>c. c = slash) path in
      if p = [] then None
      else let e = takeWhile (\<lambda>c. c \<noteq> slash) p; rest = dropWhile (\<lambda>c. c \<noteq> slash) p in
           Some (take DIRSIZ e, dropWhile (\<lambda>c. c = slash) rest))"

lemma length_skipelem: "skipelem path = Some (nm, rest) \<Longrightarrow> length rest < length path"
proof -
  assume s: "skipelem path = Some (nm, rest)"
  let ?p = "dropWhile (\<lambda>c. c = slash) path"
  have ne: "?p \<noteq> []" and r: "rest = dropWhile (\<lambda>c. c = slash) (dropWhile (\<lambda>c. c \<noteq> slash) ?p)"
    using s by (auto simp: skipelem_def Let_def split: if_splits)
  have "hd ?p \<noteq> slash" using hd_dropWhile [OF ne] by simp
  then have "dropWhile (\<lambda>c. c \<noteq> slash) ?p = dropWhile (\<lambda>c. c \<noteq> slash) (tl ?p)" using ne by (cases ?p) auto
  then have "length rest \<le> length (tl ?p)"
    unfolding r by (metis (no_types) le_trans length_dropWhile_le)
  also have "\<dots> < length ?p" using ne by simp
  also have "\<dots> \<le> length path" by (rule length_dropWhile_le)
  finally show ?thesis .
qed

function namex_loop :: "devread \<Rightarrow> nat \<Rightarrow> bool \<Rightarrow> byte list \<Rightarrow> byte list \<Rightarrow> nat \<Rightarrow> fsys \<Rightarrow>
    (nat option \<times> byte list \<times> fsys) outcome" where
  "namex_loop devr pid nameiparent path name ip s =
     (case skipelem path of
        None \<Rightarrow> (if nameiparent then and_then (iput pid ip s) (\<lambda>s. Ok (None, name, s)) else Ok (Some ip, name, s))
      | Some (name, path) \<Rightarrow>
          and_then (ilock pid ip s) (\<lambda>s.
            if i_type (ino s ip) \<noteq> T_DIR
            then and_then (iunlockput pid ip s) (\<lambda>s. Ok (None, name, s))
            else if nameiparent \<and> path = []
            then and_then (iunlock pid ip s) (\<lambda>s. Ok (Some ip, name, s))
            else and_then (dirlookup devr ip name s) (\<lambda>(next, s).
              case next of
                None \<Rightarrow> and_then (iunlockput pid ip s) (\<lambda>s. Ok (None, name, s))
              | Some (nip, off) \<Rightarrow>
                  and_then (iunlockput pid ip s) (namex_loop devr pid nameiparent path name nip))))"
  by pat_completeness auto
termination
  by (relation "measure (\<lambda>(devr, pid, np, path, name, ip, s). length path)") (auto dest: length_skipelem)

declare namex_loop.simps [simp del]

definition namex :: "devread \<Rightarrow> nat \<Rightarrow> nat \<Rightarrow> bool \<Rightarrow> byte list \<Rightarrow> fsys \<Rightarrow>
    (nat option \<times> byte list \<times> fsys) outcome" where
  "namex devr pid cwd nameiparent path s =
     (if path \<noteq> [] \<and> hd path = slash
      then and_then (iget ROOTDEV ROOTINO s) (\<lambda>(ip, s). namex_loop devr pid nameiparent path [] ip s)
      else namex_loop devr pid nameiparent path [] cwd (idup cwd s))"

definition namei :: "devread \<Rightarrow> nat \<Rightarrow> nat \<Rightarrow> byte list \<Rightarrow> fsys \<Rightarrow> (nat option \<times> fsys) outcome" where
  "namei devr pid cwd path s =
     and_then (namex devr pid cwd False path s) (\<lambda>(ip, name, s). Ok (ip, s))"

definition nameiparent :: "devread \<Rightarrow> nat \<Rightarrow> nat \<Rightarrow> byte list \<Rightarrow> fsys \<Rightarrow> (nat option \<times> byte list \<times> fsys) outcome" where
  "nameiparent devr pid cwd path s = namex devr pid cwd True path s"

definition iinit :: "block list \<Rightarrow> fsys outcome" where
  "iinit d =
     (if 1 < length d
      then Ok \<lparr>fblocks = d, fsb = superblock_of (d ! 1),
               icache = replicate NINODE
                 \<lparr>i_dev = 0, i_inum = 0, i_ref = 0, i_lock = initsleeplock zero_lock ''inode'', i_valid = False,
                  i_type = 0, i_major = 0, i_minor = 0, i_nlink = 0, i_size = 0, i_addrs = replicate (NDIRECT + 1) 0\<rparr>\<rparr>
      else Panic ''iderw: block out of range'')"

subsection \<open>Allocation of blocks\<close>

lemma bit_used_bit: "bit_used d bi \<longleftrightarrow> bit (d ! (bi div 8)) (bi mod 8)"
  unfolding bit_used_def push_bit_of_1 and_exp_eq_0_iff_not_bit by simp

lemma length_mark [simp]: "length (mark_used x d) = length d" "length (mark_free x d) = length d"
  by (simp_all add: mark_used_def mark_free_def)

lemma div_mod_8_eq: "(x :: nat) div 8 = y div 8 \<and> x mod 8 = y mod 8 \<longleftrightarrow> x = y"
  by (metis div_mult_mod_eq)

lemma bit_used_mark_used:
  assumes "x div 8 < length d"
  shows "bit_used (mark_used x d) y \<longleftrightarrow> x = y \<or> bit_used d y"
proof (cases "x div 8 = y div 8")
  case True
  have "x mod 8 < LENGTH(8)" "y mod 8 < LENGTH(8)" by simp_all
  then show ?thesis using True assms div_mod_8_eq [of x y]
    by (auto simp: bit_used_bit mark_used_def bit_simps)
next
  case False
  then have "mark_used x d ! (y div 8) = d ! (y div 8)" by (simp add: mark_used_def)
  then show ?thesis using False by (auto simp: bit_used_bit)
qed

lemma bit_used_mark_free:
  assumes "x div 8 < length d"
  shows "bit_used (mark_free x d) y \<longleftrightarrow> x \<noteq> y \<and> bit_used d y"
proof (cases "x div 8 = y div 8")
  case True
  have "x mod 8 < LENGTH(8)" "y mod 8 < LENGTH(8)" by simp_all
  then show ?thesis using True assms div_mod_8_eq [of x y]
    by (auto simp: bit_used_bit mark_free_def bit_simps)
next
  case False
  then have "mark_free x d ! (y div 8) = d ! (y div 8)" by (simp add: mark_free_def)
  then show ?thesis using False by (auto simp: bit_used_bit)
qed

definition used :: "fsys \<Rightarrow> nat \<Rightarrow> bool" where
  "used s b \<longleftrightarrow> bit_used (fblocks s ! BBLOCK b (fsb s)) (b mod BPB)"

text \<open>Blocks that hold file contents, and a well-formed disk: blocks of the right size, the bitmap and
  the inodes inside the disk and apart, and only blocks for file contents ever free.\<close>

definition data_blk :: "superblock \<Rightarrow> nat \<Rightarrow> bool" where
  "data_blk sb b \<longleftrightarrow> b \<noteq> 0 \<and> b < sb_size sb \<and> (\<forall>c < sb_size sb. b \<noteq> BBLOCK c sb) \<and> (\<forall>i < sb_ninodes sb. b \<noteq> IBLOCK i sb)"

definition fs_ok :: "fsys \<Rightarrow> bool" where
  "fs_ok s \<longleftrightarrow> (\<forall>d \<in> set (fblocks s). length d = BSIZE)
     \<and> sb_size (fsb s) \<le> length (fblocks s) \<and> sb_size (fsb s) < 2 ^ 32
     \<and> (\<forall>b < sb_size (fsb s). BBLOCK b (fsb s) < length (fblocks s))
     \<and> (\<forall>b < sb_size (fsb s). \<not> used s b \<longrightarrow> data_blk (fsb s) b)
     \<and> (\<forall>i < sb_ninodes (fsb s). IBLOCK i (fsb s) < length (fblocks s)
          \<and> (\<forall>b < sb_size (fsb s). IBLOCK i (fsb s) \<noteq> BBLOCK b (fsb s)))"

lemma fs_okD:
  assumes "fs_ok s"
  shows "b < length (fblocks s) \<Longrightarrow> length (fblocks s ! b) = BSIZE"
    "sb_size (fsb s) \<le> length (fblocks s)" "sb_size (fsb s) < 2 ^ 32"
    "b < sb_size (fsb s) \<Longrightarrow> BBLOCK b (fsb s) < length (fblocks s)"
    "b < sb_size (fsb s) \<Longrightarrow> \<not> used s b \<Longrightarrow> data_blk (fsb s) b"
    "i < sb_ninodes (fsb s) \<Longrightarrow> IBLOCK i (fsb s) < length (fblocks s)"
    "i < sb_ninodes (fsb s) \<Longrightarrow> b < sb_size (fsb s) \<Longrightarrow> IBLOCK i (fsb s) \<noteq> BBLOCK b (fsb s)"
  using assms by (auto simp: fs_ok_def)

lemma wr_simps [simp]:
  "length (fblocks (wr b d s)) = length (fblocks s)" "fsb (wr b d s) = fsb s" "icache (wr b d s) = icache s"
  by (simp_all add: wr_def)

lemma set_ino_simps [simp]:
  "fblocks (set_ino ip i s) = fblocks s" "fsb (set_ino ip i s) = fsb s"
  "length (icache (set_ino ip i s)) = length (icache s)"
  by (simp_all add: set_ino_def)

lemma set_ino_view [simp]: "used (set_ino ip i s) = used s" "fs_ok (set_ino ip i s) = fs_ok s"
  by (simp_all add: used_def fs_ok_def fun_eq_iff)

lemma ino_set_ino: "ip < length (icache s) \<Longrightarrow> ino (set_ino ip i s) j = (if j = ip then i else ino s j)"
  by (auto simp: set_ino_def)

lemma rd_Ok [simp]: "rd b s = Ok d \<longleftrightarrow> b < length (fblocks s) \<and> d = fblocks s ! b"
  by (auto simp: rd_def)

text \<open>What \<^verbatim>\<open>balloc\<close> does: the block it returns was free, is now marked and zeroed.\<close>

definition allocated :: "fsys \<Rightarrow> nat \<Rightarrow> fsys" where
  "allocated s a = wr a (replicate BSIZE 0) (wr (BBLOCK a (fsb s)) (mark_used (a mod BPB) (fblocks s ! BBLOCK a (fsb s))) s)"

lemma BBLOCK_add:
  assumes "BPB dvd b" "bi < BPB"
  shows "BBLOCK (b + bi) sb = BBLOCK b sb" "(b + bi) mod BPB = bi"
  using assms by (auto simp: BBLOCK_def elim!: dvdE)

lemma balloc_loop_Ok:
  assumes "balloc_loop b s = Ok (a, s')" "BPB dvd b"
  shows "a < sb_size (fsb s) \<and> \<not> used s a \<and> s' = allocated s a"
  using assms
proof (induction b s rule: balloc_loop.induct)
  case (1 b s)
  let ?d = "fblocks s ! BBLOCK b (fsb s)"
  have b: "b < sb_size (fsb s)" and r: "rd (BBLOCK b (fsb s)) s = Ok ?d"
    using 1(2) by (auto simp: balloc_loop.simps [of b s] split: if_splits)
  show ?case
  proof (cases "find (\<lambda>bi. \<not> bit_used ?d bi) [0..<min BPB (sb_size (fsb s) - b)]")
    case None
    then have "balloc_loop (b + BPB) s = Ok (a, s')" using 1(2) b r by (simp add: balloc_loop.simps [of b s])
    then show ?thesis using 1(1) [OF b r None] 1(3) by simp
  next
    case (Some bi)
    have bi: "\<not> bit_used ?d bi" "bi < BPB" "b + bi < sb_size (fsb s)"
      using find_SomeD [OF Some] by auto
    note B = BBLOCK_add [OF 1(3) bi(2)]
    have "a = b + bi \<and> s' = wr (b + bi) (replicate BSIZE 0) (wr (BBLOCK b (fsb s)) (mark_used bi ?d) s)"
      using 1(2) b r Some by (auto simp: balloc_loop.simps [of b s] zero_block_def)
    then show ?thesis using bi B by (simp add: allocated_def used_def)
  qed
qed

lemma balloc_Ok: "balloc s = Ok (a, s') \<Longrightarrow> a < sb_size (fsb s) \<and> \<not> used s a \<and> s' = allocated s a"
  using balloc_loop_Ok [of 0 s a s'] by (simp add: balloc_def)

lemma allocated_simps [simp]:
  "fsb (allocated s a) = fsb s" "icache (allocated s a) = icache s" "length (fblocks (allocated s a)) = length (fblocks s)"
  by (simp_all add: allocated_def)

lemma BBLOCK_eq:
  assumes "BBLOCK c sb = BBLOCK a sb" shows "c mod BPB = a mod BPB \<longleftrightarrow> c = a"
proof -
  have "c div BPB = a div BPB" using assms by (simp add: BBLOCK_def)
  then show ?thesis by (metis div_mult_mod_eq)
qed

lemma allocated_ok:
  assumes ok: "fs_ok s" and a: "a < sb_size (fsb s)" "\<not> used s a"
  shows "fs_ok (allocated s a)"
    "c < sb_size (fsb s) \<Longrightarrow> used (allocated s a) c \<longleftrightarrow> c = a \<or> used s c"
    "fblocks (allocated s a) ! a = replicate BSIZE 0"
    "c \<noteq> a \<Longrightarrow> c \<noteq> BBLOCK a (fsb s) \<Longrightarrow> fblocks (allocated s a) ! c = fblocks s ! c"
proof -
  note F = fs_okD [OF ok]
  have da: "data_blk (fsb s) a" by (rule F(5) [OF a])
  have ne: "a \<noteq> BBLOCK c (fsb s)" if "c < sb_size (fsb s)" for c using da that by (simp add: data_blk_def)
  have len: "a < length (fblocks s)" using a(1) F(2) by simp
  have div: "a mod BPB div 8 < length (fblocks s ! BBLOCK a (fsb s))"
    using F(1) [OF F(4) [OF a(1)]] by (simp add: BPB_def BSIZE_def)
  have blk: "fblocks (allocated s a) = (fblocks s)[BBLOCK a (fsb s) := mark_used (a mod BPB) (fblocks s ! BBLOCK a (fsb s)),
      a := replicate BSIZE 0]" by (simp add: allocated_def wr_def)
  show z: "fblocks (allocated s a) ! a = replicate BSIZE 0" using len by (simp add: blk)
  show other: "c \<noteq> a \<Longrightarrow> c \<noteq> BBLOCK a (fsb s) \<Longrightarrow> fblocks (allocated s a) ! c = fblocks s ! c" for c by (simp add: blk)
  show us: "used (allocated s a) c \<longleftrightarrow> c = a \<or> used s c" if c: "c < sb_size (fsb s)" for c
  proof (cases "BBLOCK c (fsb s) = BBLOCK a (fsb s)")
    case True
    have "fblocks (allocated s a) ! BBLOCK a (fsb s) = mark_used (a mod BPB) (fblocks s ! BBLOCK a (fsb s))"
      using ne [OF a(1)] F(4) [OF a(1)] by (simp add: blk)
    then show ?thesis using True BBLOCK_eq [OF True] bit_used_mark_used [OF div] by (auto simp: used_def)
  next
    case False
    then have "fblocks (allocated s a) ! BBLOCK c (fsb s) = fblocks s ! BBLOCK c (fsb s)"
      using other ne [OF c] by metis
    then show ?thesis using False by (auto simp: used_def)
  qed
  have "length d = BSIZE" if d: "d \<in> set (fblocks (allocated s a))" for d
  proof -
    obtain c where "c < length (fblocks s)" "d = fblocks (allocated s a) ! c" using d by (auto simp: in_set_conv_nth)
    then show ?thesis using F(1) z other F(4) [OF a(1)] ne [OF a(1)]
      by (cases "c = a"; cases "c = BBLOCK a (fsb s)") (auto simp: blk)
  qed
  then show "fs_ok (allocated s a)" using ok us unfolding fs_ok_def by auto
qed

lemma balloc_loop_finds:
  assumes "fs_ok s" "BPB dvd b" "b \<le> c" "c < sb_size (fsb s)" "\<not> used s c"
  shows "\<exists>a s'. balloc_loop b s = Ok (a, s')"
  using assms
proof (induction b s rule: balloc_loop.induct)
  case (1 b s)
  let ?d = "fblocks s ! BBLOCK b (fsb s)"
  note F = fs_okD [OF 1(2)]
  have b: "b < sb_size (fsb s)" using 1(4,5) by simp
  have r: "rd (BBLOCK b (fsb s)) s = Ok ?d" using F(4) [OF b] by simp
  show ?case
  proof (cases "find (\<lambda>bi. \<not> bit_used ?d bi) [0..<min BPB (sb_size (fsb s) - b)]")
    case None
    have "\<not> c < b + BPB"
    proof
      assume c: "c < b + BPB"
      then have "c - b < BPB" using 1(4) by simp
      note B = BBLOCK_add [OF 1(3) this]
      have "bit_used ?d (c - b)" using None c 1(4,5) by (auto simp: find_None_iff)
      then show False using B 1(4,6) by (simp add: used_def)
    qed
    then show ?thesis
      using 1(1) [OF b r None 1(2)] 1(3,5,6) b r None by (simp add: balloc_loop.simps [of b s])
  next
    case (Some bi)
    have "b + bi < length (fblocks s)" using find_SomeD [OF Some] F(2) by auto
    then show ?thesis using b r Some by (simp add: balloc_loop.simps [of b s] zero_block_def rd_def)
  qed
qed

lemma bfree_Ok:
  assumes "bfree b s = Ok s'"
  shows "BBLOCK b (fsb s) < length (fblocks s)" "used s b"
    "s' = wr (BBLOCK b (fsb s)) (mark_free (b mod BPB) (fblocks s ! BBLOCK b (fsb s))) s"
  using assms by (auto simp: bfree_def used_def split: if_splits)

lemma used_bfree:
  assumes ok: "fs_ok s" and b: "b < sb_size (fsb s)" "bfree b s = Ok s'" and c: "c < sb_size (fsb s)"
  shows "used s' c \<longleftrightarrow> c \<noteq> b \<and> used s c"
proof -
  note F = fs_okD [OF ok]
  have div: "b mod BPB div 8 < length (fblocks s ! BBLOCK b (fsb s))"
    using F(1) [OF F(4) [OF b(1)]] by (simp add: BPB_def BSIZE_def)
  have s': "fblocks s' = (fblocks s)[BBLOCK b (fsb s) := mark_free (b mod BPB) (fblocks s ! BBLOCK b (fsb s))]" "fsb s' = fsb s"
    using bfree_Ok(3) [OF b(2)] by (simp_all add: wr_def)
  show ?thesis
  proof (cases "BBLOCK c (fsb s) = BBLOCK b (fsb s)")
    case True
    have m: "fblocks s' ! BBLOCK b (fsb s) = mark_free (b mod BPB) (fblocks s ! BBLOCK b (fsb s))"
      using F(4) [OF b(1)] by (simp add: s')
    have "(b mod BPB \<noteq> c mod BPB) = (c \<noteq> b)" using BBLOCK_eq [OF True] by metis
    then show ?thesis unfolding used_def s'(2) True m bit_used_mark_free [OF div] by simp
  next
    case False
    then have "fblocks s' ! BBLOCK c (fsb s) = fblocks s ! BBLOCK c (fsb s)" by (simp add: s')
    then show ?thesis using False by (auto simp: used_def s'(2))
  qed
qed

text \<open>Allocation of disk blocks.  On a well-formed disk with a free block \<^verbatim>\<open>balloc\<close> returns a block
  that was free, never a bitmap or inode block, marks it and no other block, fills it with zeros
  and leaves every other block outside the bitmap as it was; freeing it again gives back the old
  bitmap.\<close>

theorem balloc_bfree:
  assumes ok: "fs_ok s" and c: "c < sb_size (fsb s)" "\<not> used s c"
  shows "\<exists>a s'. balloc s = Ok (a, s') \<and> data_blk (fsb s) a \<and> \<not> used s a \<and> fs_ok s'
    \<and> (\<forall>b < sb_size (fsb s). used s' b \<longleftrightarrow> b = a \<or> used s b)
    \<and> fblocks s' ! a = replicate BSIZE 0 \<and> (\<forall>b. data_blk (fsb s) b \<longrightarrow> b \<noteq> a \<longrightarrow> fblocks s' ! b = fblocks s ! b)
    \<and> (\<exists>s''. bfree a s' = Ok s'' \<and> (\<forall>b < sb_size (fsb s). used s'' b \<longleftrightarrow> used s b))"
proof -
  obtain a s' where b: "balloc s = Ok (a, s')"
    using balloc_loop_finds [OF ok _ _ c, of 0] by (auto simp: balloc_def)
  note A = balloc_Ok [OF b]
  have a: "a < sb_size (fsb s)" "\<not> used s a" "s' = allocated s a" using A by blast+
  note L = allocated_ok [OF ok a(1,2), folded a(3)]
  have sb: "fsb s' = fsb s" by (simp add: a(3))
  have "used s' a" using L(2) [OF a(1)] by simp
  then have "\<exists>s''. bfree a s' = Ok s''"
    using fs_okD(4) [OF L(1), of a] a(1) sb by (simp add: bfree_def used_def rd_def)
  then obtain s'' where f: "bfree a s' = Ok s''" ..
  have "used s'' x \<longleftrightarrow> used s x" if x: "x < sb_size (fsb s)" for x
    using used_bfree [OF L(1) _ f] x a L(2) [OF x] sb by auto
  moreover have "fblocks s' ! x = fblocks s ! x" if "data_blk (fsb s) x" "x \<noteq> a" for x
    using L(4) [OF that(2)] that(1) a(1) by (simp add: data_blk_def)
  ultimately show ?thesis using b fs_okD(5) [OF ok a(1,2)] a(2) L(1-3) f by blast
qed

subsection \<open>Where the bytes of a file are\<close>

definition faddr :: "fsys \<Rightarrow> nat \<Rightarrow> nat \<Rightarrow> nat" where
  "faddr s ip bn =
     (if bn < NDIRECT then i_addrs (ino s ip) ! bn
      else if i_addrs (ino s ip) ! NDIRECT = 0 then 0
      else unat (get32 (4 * (bn - NDIRECT)) (fblocks s ! (i_addrs (ino s ip) ! NDIRECT))))"

definition ind_blk :: "fsys \<Rightarrow> nat \<Rightarrow> nat" where
  "ind_blk s ip = i_addrs (ino s ip) ! NDIRECT"

definition owned :: "fsys \<Rightarrow> nat \<Rightarrow> nat \<Rightarrow> bool" where
  "owned s ip b \<longleftrightarrow> b \<noteq> 0 \<and> (b = ind_blk s ip \<or> (\<exists>bn < MAXFILE. b = faddr s ip bn))"

definition inode_ok :: "fsys \<Rightarrow> nat \<Rightarrow> bool" where
  "inode_ok s ip \<longleftrightarrow> ip < length (icache s) \<and> length (i_addrs (ino s ip)) = NDIRECT + 1
     \<and> (\<forall>b. owned s ip b \<longrightarrow> data_blk (fsb s) b \<and> used s b)
     \<and> (\<forall>bn < MAXFILE. faddr s ip bn \<noteq> 0 \<longrightarrow> faddr s ip bn \<noteq> ind_blk s ip)
     \<and> (\<forall>bn < MAXFILE. \<forall>bn' < MAXFILE. faddr s ip bn \<noteq> 0 \<longrightarrow> faddr s ip bn = faddr s ip bn' \<longrightarrow> bn = bn')"

definition fbyte :: "fsys \<Rightarrow> nat \<Rightarrow> nat \<Rightarrow> byte" where
  "fbyte s ip p = (if faddr s ip (p div BSIZE) = 0 then 0 else fblocks s ! faddr s ip (p div BSIZE) ! (p mod BSIZE))"

lemma inode_okD:
  assumes "inode_ok s ip"
  shows "ip < length (icache s)" "length (i_addrs (ino s ip)) = NDIRECT + 1"
    "owned s ip b \<Longrightarrow> data_blk (fsb s) b" "owned s ip b \<Longrightarrow> used s b"
    "bn < MAXFILE \<Longrightarrow> faddr s ip bn \<noteq> 0 \<Longrightarrow> faddr s ip bn \<noteq> ind_blk s ip"
    "bn < MAXFILE \<Longrightarrow> bn' < MAXFILE \<Longrightarrow> faddr s ip bn \<noteq> 0 \<Longrightarrow> faddr s ip bn = faddr s ip bn' \<Longrightarrow> bn = bn'"
  using assms unfolding inode_ok_def by blast+

lemma owned_faddr: "bn < MAXFILE \<Longrightarrow> faddr s ip bn \<noteq> 0 \<Longrightarrow> owned s ip (faddr s ip bn)"
  by (auto simp: owned_def)

lemma owned_ind: "ind_blk s ip \<noteq> 0 \<Longrightarrow> owned s ip (ind_blk s ip)"
  by (simp add: owned_def)

text \<open>The inode gains blocks and nothing that can be read changes.\<close>

definition same_meta :: "nat \<Rightarrow> fsys \<Rightarrow> fsys \<Rightarrow> bool" where
  "same_meta ip s s' \<longleftrightarrow> fsb s' = fsb s \<and> length (fblocks s') = length (fblocks s)
     \<and> length (icache s') = length (icache s) \<and> (\<forall>j. j \<noteq> ip \<longrightarrow> ino s' j = ino s j)
     \<and> (\<exists>as. ino s' ip = (ino s ip)\<lparr>i_addrs := as\<rparr>)"

definition untouched :: "nat \<Rightarrow> fsys \<Rightarrow> fsys \<Rightarrow> bool" where
  "untouched ip s s' \<longleftrightarrow>
     (\<forall>b < sb_size (fsb s). used s b \<longrightarrow> used s' b)
   \<and> (\<forall>b. data_blk (fsb s) b \<longrightarrow> used s b \<longrightarrow> \<not> owned s ip b \<longrightarrow> fblocks s' ! b = fblocks s ! b)
   \<and> (\<forall>b. owned s' ip b \<longrightarrow> owned s ip b \<or> \<not> used s b)
   \<and> (\<forall>i < sb_ninodes (fsb s). fblocks s' ! IBLOCK i (fsb s) = fblocks s ! IBLOCK i (fsb s))"

definition grows :: "nat \<Rightarrow> fsys \<Rightarrow> fsys \<Rightarrow> bool" where
  "grows ip s s' \<longleftrightarrow> fs_ok s' \<and> inode_ok s' ip \<and> same_meta ip s s' \<and> untouched ip s s'
     \<and> (\<forall>p < MAXFILE * BSIZE. fbyte s' ip p = fbyte s ip p)
     \<and> (\<forall>bn < MAXFILE. faddr s ip bn \<noteq> 0 \<longrightarrow> faddr s' ip bn = faddr s ip bn)"

lemma same_meta_refl: "same_meta ip s s"
  unfolding same_meta_def by (auto intro: exI [of _ "i_addrs (ino s ip)"])

lemma same_meta_trans: "same_meta ip s s1 \<Longrightarrow> same_meta ip s1 s2 \<Longrightarrow> same_meta ip s s2"
  unfolding same_meta_def by auto

lemma untouched_refl: "untouched ip s s"
  by (simp add: untouched_def)

lemma untouched_trans:
  assumes m: "same_meta ip s s1" "same_meta ip s1 s2" and i: "inode_ok s2 ip" and u: "untouched ip s s1" "untouched ip s1 s2"
  shows "untouched ip s s2"
proof -
  have sb: "fsb s1 = fsb s" "fsb s2 = fsb s" using m by (simp_all add: same_meta_def)
  have lt: "b < sb_size (fsb s)" if "data_blk (fsb s) b" for b using that by (simp add: data_blk_def)
  have keep: "used s b \<Longrightarrow> used s1 b" if "b < sb_size (fsb s)" for b using u(1) that by (simp add: untouched_def)
  have own: "owned s1 ip b \<Longrightarrow> owned s ip b \<or> \<not> used s b" for b using u(1) by (simp add: untouched_def)
  show ?thesis
    unfolding untouched_def
  proof (intro conjI allI impI)
    fix b assume "b < sb_size (fsb s)" "used s b"
    then show "used s2 b" using keep u(2) sb by (simp add: untouched_def)
  next
    fix b assume b: "data_blk (fsb s) b" "used s b" "\<not> owned s ip b"
    then have "used s1 b" "\<not> owned s1 ip b" using keep [OF lt] own by blast+
    then show "fblocks s2 ! b = fblocks s ! b" using b u sb by (simp add: untouched_def)
  next
    fix b assume b: "owned s2 ip b"
    then have "b < sb_size (fsb s)" using inode_okD(3) [OF i] sb(2) by (simp add: data_blk_def)
    moreover have "owned s1 ip b \<or> \<not> used s1 b" using u(2) b by (simp add: untouched_def)
    ultimately show "owned s ip b \<or> \<not> used s b" using own keep by blast
  next
    fix i assume "i < sb_ninodes (fsb s)"
    then show "fblocks s2 ! IBLOCK i (fsb s) = fblocks s ! IBLOCK i (fsb s)" using u sb by (simp add: untouched_def)
  qed
qed

lemma grow_step:
  assumes ok: "fs_ok s" and i: "inode_ok s ip" and a: "a < sb_size (fsb s)" "\<not> used s a"
    and m: "fs_ok s'" "same_meta ip s s'" "length (i_addrs (ino s' ip)) = NDIRECT + 1"
    and u: "\<And>c. c < sb_size (fsb s) \<Longrightarrow> used s' c \<longleftrightarrow> c = a \<or> used s c"
    and z: "fblocks s' ! a = replicate BSIZE 0"
    and k: "\<And>c. c \<noteq> a \<Longrightarrow> c \<noteq> BBLOCK a (fsb s) \<Longrightarrow> c = 0 \<or> c \<noteq> ind_blk s ip \<Longrightarrow> fblocks s' ! c = fblocks s ! c"
    and f: "ind_blk s' ip = ind_blk s ip \<and> (\<exists>b0 < MAXFILE. faddr s ip b0 = 0 \<and>
         (\<forall>bn < MAXFILE. faddr s' ip bn = (if bn = b0 then a else faddr s ip bn)))
       \<or> ind_blk s ip = 0 \<and> ind_blk s' ip = a \<and> (\<forall>bn < MAXFILE. faddr s' ip bn = faddr s ip bn)"
  shows "grows ip s s'"
proof -
  note F = fs_okD [OF ok] and I = inode_okD [OF i]
  have sb: "fsb s' = fsb s" using m(2) by (simp add: same_meta_def)
  have da: "data_blk (fsb s) a" by (rule F(5) [OF a])
  have a0: "a \<noteq> 0" using da by (simp add: data_blk_def)
  have na: "\<not> owned s ip a" using I(4) a(2) by blast
  have nf: "faddr s ip bn \<noteq> a" if "bn < MAXFILE" for bn using owned_faddr [OF that] na a0 by metis
  have ni: "ind_blk s ip \<noteq> a" using owned_ind na a0 by metis
  have fa: "faddr s' ip bn = faddr s ip bn \<or> faddr s ip bn = 0 \<and> faddr s' ip bn = a" if "bn < MAXFILE" for bn
    using f that by (auto split: if_splits)
  have own: "owned s ip b \<or> b = a" if o: "owned s' ip b" for b
  proof -
    consider "b = ind_blk s' ip" | bn where "bn < MAXFILE" "b = faddr s' ip bn" using o by (auto simp: owned_def)
    then show ?thesis
    proof cases
      case 1
      then show ?thesis using f o by (auto simp: owned_def)
    next
      case 2
      then show ?thesis using fa [OF 2(1)] o by (auto simp: owned_def)
    qed
  qed
  have ni': "faddr s' ip bn \<noteq> ind_blk s' ip" if bn: "bn < MAXFILE" "faddr s' ip bn \<noteq> 0" for bn
  proof (cases "ind_blk s' ip = ind_blk s ip")
    case True
    then show ?thesis using fa [OF bn(1)] bn(2) I(5) [OF bn(1)] ni by auto
  next
    case False
    then show ?thesis using f bn(1) nf by auto
  qed
  have inj: "bn = bn'" if b: "bn < MAXFILE" "bn' < MAXFILE" "faddr s' ip bn \<noteq> 0" "faddr s' ip bn = faddr s' ip bn'" for bn bn'
  proof -
    consider b0 where "b0 < MAXFILE" "\<And>bn. bn < MAXFILE \<Longrightarrow> faddr s' ip bn = (if bn = b0 then a else faddr s ip bn)"
      | "\<And>bn. bn < MAXFILE \<Longrightarrow> faddr s' ip bn = faddr s ip bn"
      using f by blast
    then show ?thesis
    proof cases
      case (1 b0)
      then show ?thesis using b nf I(6) [OF b(1,2)] by (auto split: if_splits)
    next
      case 2
      then show ?thesis using b I(6) [OF b(1,2)] by auto
    qed
  qed
  have ok': "inode_ok s' ip"
    unfolding inode_ok_def
  proof (intro conjI allI impI)
    show "ip < length (icache s')" using m(2) I(1) by (simp add: same_meta_def)
    show "length (i_addrs (ino s' ip)) = NDIRECT + 1" by (rule m(3))
    fix b assume "owned s' ip b"
    then have "data_blk (fsb s) b" "b = a \<or> used s b" using own da I(3,4) by blast+
    then show "data_blk (fsb s') b" "used s' b" using u [of b] sb by (auto simp: data_blk_def)
  qed (use ni' inj in blast)+
  have unt: "untouched ip s s'"
    unfolding untouched_def
  proof (intro conjI allI impI)
    fix b assume "b < sb_size (fsb s)" "used s b"
    then show "used s' b" using u by simp
  next
    fix b assume b: "data_blk (fsb s) b" "used s b" "\<not> owned s ip b"
    then have "b \<noteq> a" "b = 0 \<or> b \<noteq> ind_blk s ip" "b \<noteq> BBLOCK a (fsb s)"
      using a owned_ind by (auto simp: data_blk_def)
    then show "fblocks s' ! b = fblocks s ! b" using k by blast
  next
    fix b assume "owned s' ip b"
    then show "owned s ip b \<or> \<not> used s b" using own a(2) by blast
  next
    fix j assume j: "j < sb_ninodes (fsb s)"
    have "IBLOCK j (fsb s) \<noteq> a" "IBLOCK j (fsb s) = 0 \<or> IBLOCK j (fsb s) \<noteq> ind_blk s ip"
      using da j I(3) [OF owned_ind] unfolding data_blk_def by metis+
    then show "fblocks s' ! IBLOCK j (fsb s) = fblocks s ! IBLOCK j (fsb s)"
      using k F(7) [OF j a(1)] by blast
  qed
  have byte: "fbyte s' ip p = fbyte s ip p" if p: "p < MAXFILE * BSIZE" for p
  proof -
    have bn: "p div BSIZE < MAXFILE" using p by (simp add: less_mult_imp_div_less)
    have md: "p mod BSIZE < BSIZE" by (simp add: BSIZE_def)
    show ?thesis
    proof (cases "faddr s ip (p div BSIZE) = 0")
      case True
      then show ?thesis using fa [OF bn] z md by (auto simp: fbyte_def)
    next
      case False
      have o: "owned s ip (faddr s ip (p div BSIZE))" by (rule owned_faddr [OF bn False])
      then have "fblocks s' ! faddr s ip (p div BSIZE) = fblocks s ! faddr s ip (p div BSIZE)"
        using k [OF nf [OF bn]] I(3) [OF o] I(5) [OF bn False] a(1) by (simp add: data_blk_def)
      then show ?thesis using fa [OF bn] False by (simp add: fbyte_def)
    qed
  qed
  have "faddr s' ip bn = faddr s ip bn" if "bn < MAXFILE" "faddr s ip bn \<noteq> 0" for bn using fa [OF that(1)] that(2) by simp
  then show ?thesis unfolding grows_def using m(1,2) ok' unt byte by blast
qed

lemma grows_refl: "fs_ok s \<Longrightarrow> inode_ok s ip \<Longrightarrow> grows ip s s"
  by (simp add: grows_def same_meta_refl untouched_refl)

lemma growsD:
  assumes "grows ip s s'"
  shows "fs_ok s'" "inode_ok s' ip" "same_meta ip s s'" "untouched ip s s'"
    "p < MAXFILE * BSIZE \<Longrightarrow> fbyte s' ip p = fbyte s ip p"
    "bn < MAXFILE \<Longrightarrow> faddr s ip bn \<noteq> 0 \<Longrightarrow> faddr s' ip bn = faddr s ip bn"
  using assms unfolding grows_def by blast+

lemma grows_trans:
  assumes a: "grows ip s s1" and b: "grows ip s1 s2"
  shows "grows ip s s2"
proof -
  note A = growsD [OF a] and B = growsD [OF b]
  have "faddr s2 ip bn = faddr s ip bn" if "bn < MAXFILE" "faddr s ip bn \<noteq> 0" for bn
    using A(6) [OF that] B(6) [OF that(1)] that(2) by simp
  then show ?thesis unfolding grows_def
    using A(5) B(1,2,5) same_meta_trans [OF A(3) B(3)] untouched_trans [OF A(3) B(3,2) A(4) B(4)] by simp
qed

text \<open>A block goes into one of the thirteen addresses of the inode.\<close>

definition with_addr :: "nat \<Rightarrow> nat \<Rightarrow> nat \<Rightarrow> fsys \<Rightarrow> fsys" where
  "with_addr ip k a s = set_ino ip ((ino s ip)\<lparr>i_addrs := (i_addrs (ino s ip))[k := a]\<rparr>) s"

lemma with_addr_simps [simp]:
  "fblocks (with_addr ip k a s) = fblocks s" "fsb (with_addr ip k a s) = fsb s" "used (with_addr ip k a s) = used s"
  "fs_ok (with_addr ip k a s) = fs_ok s"
  by (auto simp: with_addr_def used_def fs_ok_def fun_eq_iff)

lemma ino_with_addr:
  "ip < length (icache s) \<Longrightarrow> ino (with_addr ip k a s) ip = (ino s ip)\<lparr>i_addrs := (i_addrs (ino s ip))[k := a]\<rparr>"
  by (simp add: with_addr_def ino_set_ino)

lemma same_meta_with_addr:
  "ip < length (icache s) \<Longrightarrow> same_meta ip s (with_addr ip k a (allocated s x))"
  by (auto simp: same_meta_def with_addr_def ino_set_ino)

lemma ind_block_kept:
  assumes ok: "fs_ok s" and i: "inode_ok s ip" and a: "a < sb_size (fsb s)" "\<not> used s a" and n: "ind_blk s ip \<noteq> 0"
  shows "fblocks (allocated s a) ! ind_blk s ip = fblocks s ! ind_blk s ip"
proof (rule allocated_ok(4) [OF ok a])
  have o: "owned s ip (ind_blk s ip)" by (rule owned_ind [OF n])
  show "ind_blk s ip \<noteq> a" using inode_okD(4) [OF i o] a(2) by auto
  show "ind_blk s ip \<noteq> BBLOCK a (fsb s)" using inode_okD(3) [OF i o] a(1) by (simp add: data_blk_def)
qed

lemma zero_word: "get32 (4 * k) (replicate BSIZE 0) = 0" if "k < NINDIRECT"
proof -
  have "get_bytes (4 * k) 4 (replicate BSIZE (0::byte)) = replicate 4 0"
    using that by (simp add: get_bytes_def BSIZE_def NINDIRECT_def min_def)
  then show ?thesis by (simp add: get32_def numeral_eq_Suc)
qed

lemma grows_addr:
  assumes ok: "fs_ok s" and i: "inode_ok s ip" and a: "a < sb_size (fsb s)" "\<not> used s a"
    and k: "k \<le> NDIRECT" "i_addrs (ino s ip) ! k = 0"
  shows "grows ip s (with_addr ip k a (allocated s a))" "i_addrs (ino (with_addr ip k a (allocated s a)) ip) ! k = a"
proof -
  let ?s = "with_addr ip k a (allocated s a)"
  note A = allocated_ok [OF ok a] and I = inode_okD [OF i]
  have ad: "i_addrs (ino ?s ip) = (i_addrs (ino s ip))[k := a]" using I(1) by (simp add: ino_with_addr)
  show "i_addrs (ino ?s ip) ! k = a" using ad k(1) I(2) by simp
  have fs: "ind_blk ?s ip = ind_blk s ip \<and> (\<exists>b0 < MAXFILE. faddr s ip b0 = 0 \<and>
         (\<forall>bn < MAXFILE. faddr ?s ip bn = (if bn = b0 then a else faddr s ip bn)))
       \<or> ind_blk s ip = 0 \<and> ind_blk ?s ip = a \<and> (\<forall>bn < MAXFILE. faddr ?s ip bn = faddr s ip bn)"
  proof (cases "k = NDIRECT")
    case True
    have "faddr ?s ip bn = faddr s ip bn" if "bn < MAXFILE" for bn
      using True k(2) ad A(3) I(2) zero_word [of "bn - NDIRECT"] that by (simp add: faddr_def MAXFILE_def NDIRECT_def)
    then show ?thesis using True k(2) ad I(2) by (simp add: ind_blk_def)
  next
    case False
    then have k': "k < NDIRECT" using k(1) by simp
    have ind: "ind_blk ?s ip = ind_blk s ip" using k' ad by (simp add: ind_blk_def)
    have "faddr ?s ip bn = (if bn = k then a else faddr s ip bn)" if "bn < MAXFILE" for bn
      using k' ad I(2) ind_block_kept [OF ok i a] by (auto simp: faddr_def ind_blk_def)
    moreover have "k < MAXFILE" "faddr s ip k = 0" using k' k(2) by (simp_all add: MAXFILE_def faddr_def)
    ultimately show ?thesis using ind by auto
  qed
  show "grows ip s ?s"
  proof (rule grow_step [OF ok i a _ _ _ _ _ _ fs])
    show "fs_ok ?s" using A(1) by simp
    show "same_meta ip s ?s" by (rule same_meta_with_addr [OF I(1)])
    show "length (i_addrs (ino ?s ip)) = NDIRECT + 1" using ad I(2) by simp
  qed (use A(2-4) in simp_all)
qed

text \<open>A block goes into the indirect block.\<close>

lemma grows_indirect:
  assumes ok: "fs_ok s" and i: "inode_ok s ip" and a: "a < sb_size (fsb s)" "\<not> used s a"
    and k: "k < NINDIRECT" "ind_blk s ip \<noteq> 0" "faddr s ip (NDIRECT + k) = 0"
  defines "s' \<equiv> wr (ind_blk s ip) (put32 (4 * k) (of_nat a) (fblocks s ! ind_blk s ip)) (allocated s a)"
  shows "grows ip s s'" "faddr s' ip (NDIRECT + k) = a"
proof -
  note A = allocated_ok [OF ok a] and I = inode_okD [OF i] and F = fs_okD [OF ok]
  let ?ind = "ind_blk s ip"
  have o: "owned s ip ?ind" by (rule owned_ind [OF k(2)])
  have di: "data_blk (fsb s) ?ind" "used s ?ind" by (rule I(3) [OF o], rule I(4) [OF o])
  have il: "?ind < sb_size (fsb s)" "?ind < length (fblocks s)" using di(1) F(2) by (auto simp: data_blk_def)
  have nb: "?ind \<noteq> BBLOCK c (fsb s)" if "c < sb_size (fsb s)" for c using di(1) that by (simp add: data_blk_def)
  have ne: "?ind \<noteq> a" using di(2) a(2) by auto
  have lb: "length (fblocks s ! ?ind) = BSIZE" by (rule F(1) [OF il(2)])
  have fits: "4 * j + 4 \<le> length (fblocks s ! ?ind)" if "j < NINDIRECT" for j
    using that lb by (simp add: NINDIRECT_def BSIZE_def)
  have icache: "icache s' = icache s" and sb: "fsb s' = fsb s" by (simp_all add: s'_def)
  have bi: "fblocks s' ! ?ind = put32 (4 * k) (of_nat a) (fblocks s ! ?ind)" using il(2) by (simp add: s'_def wr_def)
  have oth: "fblocks s' ! c = fblocks (allocated s a) ! c" if "c \<noteq> ?ind" for c using that by (simp add: s'_def wr_def)
  have us: "used s' c \<longleftrightarrow> used (allocated s a) c" if "c < sb_size (fsb s)" for c
    using oth [OF nb [OF that, symmetric]] by (simp add: used_def sb)
  have un: "unat (of_nat a :: u32) = a" using a(1) F(3) by (simp add: unat_of_nat take_bit_eq_mod)
  have fa: "faddr s' ip bn = (if bn = NDIRECT + k then a else faddr s ip bn)" if bn: "bn < MAXFILE" for bn
  proof (cases "bn < NDIRECT")
    case True
    then show ?thesis by (simp add: faddr_def icache)
  next
    case False
    then have j: "bn - NDIRECT < NINDIRECT" "bn = NDIRECT + k \<longleftrightarrow> bn - NDIRECT = k" using bn by (auto simp: MAXFILE_def)
    show ?thesis
    proof (cases "bn - NDIRECT = k")
      case True
      then show ?thesis using False bi k(2) fits [OF k(1)] un j by (simp add: faddr_def icache ind_blk_def)
    next
      case ne: False
      then have "4 * (bn - NDIRECT) + 4 \<le> 4 * k \<or> 4 * k + 4 \<le> 4 * (bn - NDIRECT)" by linarith
      then show ?thesis using False ne bi k(2) fits [OF k(1)] j by (simp add: faddr_def icache ind_blk_def)
    qed
  qed
  have km: "NDIRECT + k < MAXFILE" using k(1) by (simp add: MAXFILE_def)
  show "faddr s' ip (NDIRECT + k) = a" using fa [OF km] by simp
  have ind: "ind_blk s' ip = ind_blk s ip" by (simp add: ind_blk_def icache)
  have fs: "fs_ok s'"
  proof -
    have "length d = BSIZE" if d: "d \<in> set (fblocks s')" for d
    proof -
      obtain c where c: "c < length (fblocks s')" "d = fblocks s' ! c" using d by (auto simp: in_set_conv_nth)
      show ?thesis
      proof (cases "c = ?ind")
        case True
        then show ?thesis using c(2) bi fits [OF k(1)] lb by simp
      next
        case False
        then show ?thesis using c oth fs_okD(1) [OF A(1)] by (simp add: s'_def)
      qed
    qed
    moreover have "used s' b \<longleftrightarrow> used (allocated s a) b" if "b < sb_size (fsb s')" for b using us that sb by simp
    moreover have "length (fblocks s') = length (fblocks (allocated s a))" "fsb s' = fsb (allocated s a)" by (simp_all add: s'_def)
    ultimately show ?thesis using A(1) unfolding fs_ok_def by simp
  qed
  show "grows ip s s'"
  proof (rule grow_step [OF ok i a fs])
    have "\<exists>as. ino s' ip = (ino s ip)\<lparr>i_addrs := as\<rparr>"
      by (rule exI [of _ "i_addrs (ino s ip)"]) (simp add: icache)
    then show "same_meta ip s s'" unfolding same_meta_def by (simp add: icache sb) (simp add: s'_def)
    show "length (i_addrs (ino s' ip)) = NDIRECT + 1" using I(2) by (simp add: icache)
    show "used s' c \<longleftrightarrow> c = a \<or> used s c" if "c < sb_size (fsb s)" for c using us [OF that] A(2) [OF that] by simp
    show "fblocks s' ! a = replicate BSIZE 0" using oth ne A(3) by simp
    show "fblocks s' ! c = fblocks s ! c" if "c \<noteq> a" "c \<noteq> BBLOCK a (fsb s)" "c = 0 \<or> c \<noteq> ?ind" for c
      using that oth k(2) A(4) [of c] by metis
    show "ind_blk s' ip = ind_blk s ip \<and> (\<exists>b0 < MAXFILE. faddr s ip b0 = 0 \<and>
         (\<forall>bn < MAXFILE. faddr s' ip bn = (if bn = b0 then a else faddr s ip bn)))
       \<or> ind_blk s ip = 0 \<and> ind_blk s' ip = a \<and> (\<forall>bn < MAXFILE. faddr s' ip bn = faddr s ip bn)"
      using km k(3) fa ind by blast
  qed
qed

lemma bmap_mapped:
  assumes ok: "fs_ok s" and i: "inode_ok s ip" and bn: "bn < MAXFILE" "faddr s ip bn \<noteq> 0"
  shows "bmap ip bn s = Ok (faddr s ip bn, s)"
proof (cases "bn < NDIRECT")
  case True
  then show ?thesis using bn by (simp add: bmap_def faddr_def Let_def)
next
  case False
  have n: "ind_blk s ip \<noteq> 0" using False bn(2) by (auto simp: faddr_def ind_blk_def split: if_splits)
  have "ind_blk s ip < length (fblocks s)"
    using inode_okD(3) [OF i owned_ind [OF n]] fs_okD(2) [OF ok] by (simp add: data_blk_def)
  then show ?thesis
    using False bn n by (simp add: bmap_def faddr_def ind_blk_def Let_def MAXFILE_def rd_def)
qed

text \<open>The whole of \<^verbatim>\<open>bmap\<close>: it finds or adds the block.\<close>

lemma bmap_indirect:
  assumes ok: "fs_ok s" and i: "inode_ok s ip" and bn: "NDIRECT \<le> bn" "bn < MAXFILE" and ind: "ind_blk s ip \<noteq> 0"
    and b: "bmap ip bn s = Ok (b, s')"
  shows "grows ip s s' \<and> faddr s' ip bn = b \<and> b \<noteq> 0"
proof (cases "faddr s ip bn = 0")
  case False
  then show ?thesis using bmap_mapped [OF ok i bn(2) False] b grows_refl [OF ok i] by simp
next
  case True
  let ?k = "bn - NDIRECT"
  have k: "?k < NINDIRECT" "bn = NDIRECT + ?k" using bn by (auto simp: MAXFILE_def)
  have e: "get32 (4 * ?k) (fblocks s ! ind_blk s ip) = 0"
    using True bn(1) ind by (auto simp: faddr_def ind_blk_def unsigned_eq_0_iff)
  obtain s1 where a: "balloc s = Ok (b, s1)"
    and s': "s' = wr (ind_blk s ip) (put32 (4 * ?k) (of_nat b) (fblocks s1 ! ind_blk s ip)) s1"
    using b bn(1) k(1) ind e by (auto simp: bmap_def Let_def ind_blk_def)
  have A: "b < sb_size (fsb s)" "\<not> used s b" "s1 = allocated s b" using balloc_Ok [OF a] by blast+
  have "s' = wr (ind_blk s ip) (put32 (4 * ?k) (of_nat b) (fblocks s ! ind_blk s ip)) (allocated s b)"
    using s' A(3) ind_block_kept [OF ok i A(1,2) ind] by simp
  then have "grows ip s s'" "faddr s' ip bn = b"
    using grows_indirect [OF ok i A(1,2) k(1) ind] True k(2) by auto
  moreover have "b \<noteq> 0" using fs_okD(5) [OF ok A(1,2)] by (simp add: data_blk_def)
  ultimately show ?thesis by simp
qed

lemma bmap_Ok:
  assumes ok: "fs_ok s" and i: "inode_ok s ip" and bn: "bn < MAXFILE" and b: "bmap ip bn s = Ok (b, s')"
  shows "grows ip s s' \<and> faddr s' ip bn = b \<and> b \<noteq> 0"
proof (cases "faddr s ip bn = 0 \<and> (bn < NDIRECT \<or> ind_blk s ip = 0)")
  case False
  then consider "faddr s ip bn \<noteq> 0" | "NDIRECT \<le> bn" "ind_blk s ip \<noteq> 0" by linarith
  then show ?thesis
  proof cases
    case 1
    then show ?thesis using bmap_mapped [OF ok i bn] b grows_refl [OF ok i] by simp
  next
    case 2
    then show ?thesis using bmap_indirect [OF ok i _ bn _ b] by blast
  qed
next
  case z: True
  show ?thesis
  proof (cases "bn < NDIRECT")
    case True
    then obtain s1 where a: "balloc s = Ok (b, s1)" and s': "s' = with_addr ip bn b s1"
      using b z by (auto simp: bmap_def Let_def faddr_def with_addr_def)
    have A: "b < sb_size (fsb s)" "\<not> used s b" "s1 = allocated s b" using balloc_Ok [OF a] by blast+
    have n: "bn \<le> NDIRECT" "i_addrs (ino s ip) ! bn = 0" using True z by (auto simp: faddr_def)
    have "faddr s' ip bn = b" using grows_addr(2) [OF ok i A(1,2) n] True by (simp add: faddr_def s' A(3))
    then show ?thesis using grows_addr(1) [OF ok i A(1,2) n] fs_okD(5) [OF ok A(1,2)]
      by (simp add: s' A(3) data_blk_def)
  next
    case False
    have n: "i_addrs (ino s ip) ! NDIRECT = 0" using z False by (simp add: ind_blk_def)
    have m: "\<not> bn < NDIRECT" "bn - NDIRECT < NINDIRECT" using bn False by (auto simp: MAXFILE_def)
    obtain ind s1 where a: "balloc s = Ok (ind, s1)"
      using b m n by (auto simp: bmap_def Let_def)
    have A: "ind < sb_size (fsb s)" "\<not> used s ind" "s1 = allocated s ind" using balloc_Ok [OF a] by blast+
    let ?s2 = "with_addr ip NDIRECT ind (allocated s ind)"
    have g: "grows ip s ?s2" by (rule grows_addr(1) [OF ok i A(1,2) _ n]) simp
    have ii: "i_addrs (ino ?s2 ip) ! NDIRECT = ind" by (rule grows_addr(2) [OF ok i A(1,2) _ n]) simp
    have nz: "ind \<noteq> 0" using fs_okD(5) [OF ok A(1,2)] by (simp add: data_blk_def)
    have b2: "bmap ip bn ?s2 = Ok (b, s')"
      using b m n a A(3) ii nz by (simp add: bmap_def Let_def with_addr_def)
    have "NDIRECT \<le> bn" "ind_blk ?s2 ip \<noteq> 0" using m(1) ii nz by (simp_all add: ind_blk_def)
    then show ?thesis
      using bmap_indirect [OF growsD(1,2) [OF g] _ bn _ b2] grows_trans [OF g] by blast
  qed
qed

subsection \<open>Reading and writing\<close>

text \<open>A change of the contents of the file and of nothing else.\<close>

definition edits :: "nat \<Rightarrow> fsys \<Rightarrow> fsys \<Rightarrow> bool" where
  "edits ip s s' \<longleftrightarrow> fs_ok s' \<and> inode_ok s' ip \<and> same_meta ip s s' \<and> untouched ip s s'
     \<and> (\<forall>bn < MAXFILE. faddr s ip bn \<noteq> 0 \<longrightarrow> faddr s' ip bn = faddr s ip bn)"

lemma editsD:
  assumes "edits ip s s'"
  shows "fs_ok s'" "inode_ok s' ip" "same_meta ip s s'" "untouched ip s s'"
    "bn < MAXFILE \<Longrightarrow> faddr s ip bn \<noteq> 0 \<Longrightarrow> faddr s' ip bn = faddr s ip bn"
  using assms unfolding edits_def by blast+

lemma grows_edits: "grows ip s s' \<Longrightarrow> edits ip s s'"
  by (simp add: grows_def edits_def)

lemma edits_trans:
  assumes a: "edits ip s s1" and b: "edits ip s1 s2"
  shows "edits ip s s2"
proof -
  note A = editsD [OF a] and B = editsD [OF b]
  have "faddr s2 ip bn = faddr s ip bn" if "bn < MAXFILE" "faddr s ip bn \<noteq> 0" for bn
    using A(5) [OF that] B(5) [OF that(1)] that(2) by simp
  then show ?thesis unfolding edits_def
    using B(1,2) same_meta_trans [OF A(3) B(3)] untouched_trans [OF A(3) B(3,2) A(4) B(4)] by simp
qed

lemma faddr_block:
  assumes ok: "fs_ok s" and i: "inode_ok s ip" and bn: "bn < MAXFILE" "faddr s ip bn \<noteq> 0"
  shows "faddr s ip bn < length (fblocks s)" "length (fblocks s ! faddr s ip bn) = BSIZE"
  using inode_okD(3) [OF i owned_faddr [OF bn]] fs_okD(1,2) [OF ok] by (simp_all add: data_blk_def)

lemma data_write:
  assumes ok: "fs_ok s" and i: "inode_ok s ip" and bn: "bn < MAXFILE" "faddr s ip bn \<noteq> 0" and d: "length d = BSIZE"
  defines "s' \<equiv> wr (faddr s ip bn) d s"
  shows "edits ip s s'" "x < MAXFILE \<Longrightarrow> faddr s' ip x = faddr s ip x"
    "p < MAXFILE * BSIZE \<Longrightarrow> fbyte s' ip p = (if p div BSIZE = bn then d ! (p mod BSIZE) else fbyte s ip p)"
proof -
  let ?b = "faddr s ip bn"
  have o: "owned s ip ?b" by (rule owned_faddr [OF bn])
  have D: "data_blk (fsb s) ?b" "used s ?b" by (rule inode_okD(3) [OF i o], rule inode_okD(4) [OF i o])
  have nb: "?b \<noteq> BBLOCK c (fsb s)" if "c < sb_size (fsb s)" for c using D(1) that by (simp add: data_blk_def)
  have nI: "?b \<noteq> IBLOCK j (fsb s)" if "j < sb_ninodes (fsb s)" for j using D(1) that by (simp add: data_blk_def)
  have ni: "?b \<noteq> ind_blk s ip" by (rule inode_okD(5) [OF i bn])
  have lt: "?b < length (fblocks s)" by (rule faddr_block(1) [OF ok i bn])
  have ic: "icache s' = icache s" "fsb s' = fsb s" "length (fblocks s') = length (fblocks s)" by (simp_all add: s'_def)
  have oth: "fblocks s' ! c = fblocks s ! c" if "c \<noteq> ?b" for c using that by (simp add: s'_def wr_def)
  have at: "fblocks s' ! ?b = d" using lt by (simp add: s'_def wr_def)
  have us: "used s' c \<longleftrightarrow> used s c" if "c < sb_size (fsb s)" for c
    using oth [OF nb [OF that, symmetric]] by (simp add: used_def ic)
  show fa: "faddr s' ip x = faddr s ip x" if "x < MAXFILE" for x
    using oth [OF ni [symmetric]] ic by (simp add: faddr_def ind_blk_def)
  have ib: "ind_blk s' ip = ind_blk s ip" by (simp add: ind_blk_def ic)
  have own: "owned s' ip c \<longleftrightarrow> owned s ip c" for c unfolding owned_def ib using fa by auto
  have fs: "fs_ok s'"
  proof -
    have "length e = BSIZE" if e: "e \<in> set (fblocks s')" for e
    proof -
      obtain c where c: "c < length (fblocks s)" "e = fblocks s' ! c" using e ic by (auto simp: in_set_conv_nth)
      then show ?thesis using at oth d fs_okD(1) [OF ok] by (cases "c = ?b") auto
    qed
    then show ?thesis using ok us unfolding fs_ok_def ic by simp
  qed
  have io: "inode_ok s' ip"
    using i us unfolding inode_ok_def own ib ic by (auto simp: fa data_blk_def)
  have "\<exists>as. ino s' ip = (ino s ip)\<lparr>i_addrs := as\<rparr>" by (rule exI [of _ "i_addrs (ino s ip)"]) (simp add: ic)
  then have sm: "same_meta ip s s'" by (simp add: same_meta_def ic)
  have un: "untouched ip s s'"
    unfolding untouched_def
  proof (intro conjI allI impI)
    fix b assume "b < sb_size (fsb s)" "used s b"
    then show "used s' b" using us by simp
  next
    fix b assume "\<not> owned s ip b"
    then show "fblocks s' ! b = fblocks s ! b" using oth [of b] o by auto
  next
    fix b assume "owned s' ip b"
    then show "owned s ip b \<or> \<not> used s b" using own by simp
  next
    fix j assume "j < sb_ninodes (fsb s)"
    then show "fblocks s' ! IBLOCK j (fsb s) = fblocks s ! IBLOCK j (fsb s)" using oth nI by metis
  qed
  show "edits ip s s'" unfolding edits_def using fs io sm un fa by blast
  show "fbyte s' ip p = (if p div BSIZE = bn then d ! (p mod BSIZE) else fbyte s ip p)" if p: "p < MAXFILE * BSIZE"
  proof -
    have x: "p div BSIZE < MAXFILE" using p by (simp add: less_mult_imp_div_less)
    show ?thesis
    proof (cases "p div BSIZE = bn")
      case True
      then show ?thesis using bn fa [OF bn(1)] at by (simp add: fbyte_def)
    next
      case False
      then have "faddr s ip (p div BSIZE) \<noteq> 0 \<Longrightarrow> faddr s ip (p div BSIZE) \<noteq> ?b"
        using inode_okD(6) [OF i x bn(1)] by auto
      then show ?thesis using False fa [OF x] oth by (simp add: fbyte_def)
    qed
  qed
qed

lemma chunk_range:
  assumes "m \<le> BSIZE - off mod BSIZE"
  shows "off \<le> p \<and> p < off + m \<longleftrightarrow>
    p div BSIZE = off div BSIZE \<and> off mod BSIZE \<le> p mod BSIZE \<and> p mod BSIZE < off mod BSIZE + m"
    "p div BSIZE = off div BSIZE \<Longrightarrow> p mod BSIZE - off mod BSIZE = p - off"
proof -
  have d: "off = BSIZE * (off div BSIZE) + off mod BSIZE" "p = BSIZE * (p div BSIZE) + p mod BSIZE" by simp_all
  have l: "off mod BSIZE < BSIZE" "p mod BSIZE < BSIZE" by (simp_all add: BSIZE_def)
  show "off \<le> p \<and> p < off + m \<longleftrightarrow>
    p div BSIZE = off div BSIZE \<and> off mod BSIZE \<le> p mod BSIZE \<and> p mod BSIZE < off mod BSIZE + m"
  proof
    assume a: "off \<le> p \<and> p < off + m"
    have "p < BSIZE * (off div BSIZE) + BSIZE" using a assms d(1) l(1) by linarith
    then have "p div BSIZE \<le> off div BSIZE"
      by (metis add.commute less_Suc_eq_le less_mult_imp_div_less mult.commute mult_Suc)
    then have q: "p div BSIZE = off div BSIZE" using a div_le_mono [of off p BSIZE] by simp
    then show "p div BSIZE = off div BSIZE \<and> off mod BSIZE \<le> p mod BSIZE \<and> p mod BSIZE < off mod BSIZE + m"
      using a d(1) d(2) [unfolded q] by linarith
  next
    assume a: "p div BSIZE = off div BSIZE \<and> off mod BSIZE \<le> p mod BSIZE \<and> p mod BSIZE < off mod BSIZE + m"
    then have q: "p div BSIZE = off div BSIZE" by simp
    show "off \<le> p \<and> p < off + m" using a d(1) d(2) [unfolded q] by linarith
  qed
  show "p mod BSIZE - off mod BSIZE = p - off" if q: "p div BSIZE = off div BSIZE"
    using d(1) d(2) [unfolded q] by linarith
qed

definition overlay :: "nat \<Rightarrow> byte list \<Rightarrow> (nat \<Rightarrow> byte) \<Rightarrow> nat \<Rightarrow> byte" where
  "overlay off src f p = (if off \<le> p \<and> p < off + length src then src ! (p - off) else f p)"

lemma writei_loop_Ok:
  assumes "fs_ok s" "inode_ok s ip" "off + length src \<le> MAXFILE * BSIZE" "writei_loop ip off src s = Ok (off', s')"
  shows "off' = off + length src \<and> (src \<noteq> [] \<longrightarrow> edits ip s s') \<and> (src = [] \<longrightarrow> s' = s)
    \<and> (\<forall>p < MAXFILE * BSIZE. fbyte s' ip p = overlay off src (fbyte s ip) p)
    \<and> (\<forall>p. off \<le> p \<longrightarrow> p < off + length src \<longrightarrow> faddr s' ip (p div BSIZE) \<noteq> 0)"
  using assms
proof (induction ip off src s rule: writei_loop.induct)
  case (1 ip off src s)
  show ?case
  proof (cases "src = []")
    case True
    then have "off' = off" "s' = s" using 1(5) by (simp_all add: writei_loop.simps [of ip off "[]" s])
    then show ?thesis using True by (auto simp: overlay_def)
  next
    case False
    define m where "m = min (length src) (BSIZE - off mod BSIZE)"
    have ml: "m \<le> length src" "m \<le> BSIZE - off mod BSIZE" by (simp_all add: m_def)
    have "off mod BSIZE < BSIZE" by (simp add: BSIZE_def)
    then have m0: "0 < m" "off mod BSIZE + m \<le> BSIZE" using False ml(2) by (simp_all add: m_def)
    have "off < MAXFILE * BSIZE" using 1(4) False by (cases src) auto
    then have bn: "off div BSIZE < MAXFILE" by (simp add: less_mult_imp_div_less)
    obtain b s1 where b: "bmap ip (off div BSIZE) s = Ok (b, s1)"
      using 1(5) False by (auto simp: writei_loop.simps [of ip off src s])
    have B: "grows ip s s1" "faddr s1 ip (off div BSIZE) = b" "b \<noteq> 0" using bmap_Ok [OF 1(2,3) bn b] by blast+
    note G = growsD [OF B(1)]
    have fb: "b < length (fblocks s1)" "length (fblocks s1 ! b) = BSIZE"
      using faddr_block [OF G(1,2) bn] B(2,3) by simp_all
    define d where "d = put_bytes (off mod BSIZE) (take m src) (fblocks s1 ! b)"
    define s2 where "s2 = wr b d s1"
    have dl: "length d = BSIZE" using m0(2) fb(2) ml(1) by (simp add: d_def)
    have W: "edits ip s1 s2" "\<And>p. p < MAXFILE * BSIZE \<Longrightarrow>
        fbyte s2 ip p = (if p div BSIZE = off div BSIZE then d ! (p mod BSIZE) else fbyte s1 ip p)"
      "faddr s2 ip (off div BSIZE) = b"
      using data_write [OF G(1,2) bn _ dl] B(2,3) bn by (simp_all add: s2_def)
    have w: "writei_loop ip (off + m) (drop m src) s2 = Ok (off', s')"
      using 1(5) False b fb(1) by (simp add: writei_loop.simps [of ip off src s] Let_def m_def d_def s2_def rd_def)
    have rb: "rd b s1 = Ok (fblocks s1 ! b)" using fb(1) by simp
    note IH = 1(1) [OF False b refl rb m_def, folded d_def, folded s2_def, OF editsD(1,2) [OF W(1)] _ w]
    have le: "off + m + length (drop m src) \<le> MAXFILE * BSIZE" using 1(4) ml(1) by simp
    note IH = IH [OF le]
    have e2: "edits ip s s2" by (rule edits_trans [OF grows_edits [OF B(1)] W(1)])
    have e: "edits ip s s'" using IH e2 edits_trans by (cases "drop m src = []") auto
    have f2: "fbyte s2 ip p = overlay off (take m src) (fbyte s ip) p" if p: "p < MAXFILE * BSIZE" for p
    proof (cases "off \<le> p \<and> p < off + m")
      case True
      have c: "p div BSIZE = off div BSIZE" "off mod BSIZE \<le> p mod BSIZE" "p mod BSIZE < off mod BSIZE + m"
        using chunk_range(1) [OF ml(2)] True by blast+
      have "d ! (p mod BSIZE) = take m src ! (p - off)"
        using c m0(2) fb(2) ml(1) chunk_range(2) [OF ml(2) c(1)] unfolding d_def by (subst nth_put_bytes) auto
      then show ?thesis using W(2) [OF p] c(1) True ml(1) by (simp add: overlay_def)
    next
      case False
      have "d ! (p mod BSIZE) = fbyte s1 ip p" if "p div BSIZE = off div BSIZE"
      proof -
        have "p mod BSIZE < BSIZE" by (simp add: BSIZE_def)
        then show ?thesis using that False chunk_range(1) [OF ml(2), of p] m0(2) fb(2) ml(1) B(2,3) unfolding d_def
          by (subst nth_put_bytes) (auto simp: fbyte_def)
      qed
      then show ?thesis using W(2) [OF p] G(5) [OF p] False ml(1) by (auto simp: overlay_def)
    qed
    have "fbyte s' ip p = overlay off src (fbyte s ip) p" if p: "p < MAXFILE * BSIZE" for p
      using IH p f2 [OF p] ml(1) by (auto simp: overlay_def)
    moreover have "faddr s' ip (p div BSIZE) \<noteq> 0" if p: "off \<le> p" "p < off + length src" for p
    proof (cases "p < off + m")
      case True
      then have "p div BSIZE = off div BSIZE" using chunk_range(1) [OF ml(2), of p] p by blast
      moreover have "faddr s' ip (off div BSIZE) = b"
        using IH W(3) B(3) editsD(5) [of ip s2 s'] bn by (cases "drop m src = []") auto
      ultimately show ?thesis using B(3) by simp
    next
      case False
      then show ?thesis using IH p ml(1) by simp
    qed
    moreover have "off' = off + length src" using IH ml(1) by simp
    ultimately show ?thesis using e False by simp
  qed
qed

lemma readi_loop_mapped:
  assumes "fs_ok s" "inode_ok s ip" "off + n \<le> MAXFILE * BSIZE"
    "\<And>p. off \<le> p \<Longrightarrow> p < off + n \<Longrightarrow> faddr s ip (p div BSIZE) \<noteq> 0"
  shows "readi_loop ip off n s = Ok (map (fbyte s ip) [off..<off + n], s)"
  using assms
proof (induction ip off n s rule: readi_loop.induct)
  case (1 ip off n s)
  show ?case
  proof (cases "n = 0")
    case True
    then show ?thesis by (simp add: readi_loop.simps [of ip off 0 s])
  next
    case False
    define m where "m = min n (BSIZE - off mod BSIZE)"
    have ml: "m \<le> n" "m \<le> BSIZE - off mod BSIZE" by (simp_all add: m_def)
    have "off mod BSIZE < BSIZE" by (simp add: BSIZE_def)
    then have m0: "off mod BSIZE + m \<le> BSIZE" using ml(2) by simp
    have bn: "off div BSIZE < MAXFILE" using 1(4) False by (simp add: less_mult_imp_div_less)
    have f0: "faddr s ip (off div BSIZE) \<noteq> 0" using 1(5) [of off] False by simp
    let ?d = "fblocks s ! faddr s ip (off div BSIZE)"
    note fb = faddr_block [OF 1(2,3) bn f0]
    have b: "bmap ip (off div BSIZE) s = Ok (faddr s ip (off div BSIZE), s)" by (rule bmap_mapped [OF 1(2,3) bn f0])
    have rb: "rd (faddr s ip (off div BSIZE)) s = Ok ?d" using fb(1) by simp
    have "readi_loop ip (off + m) (n - m) s = Ok (map (fbyte s ip) [off + m..<off + m + (n - m)], s)"
      by (rule 1(1) [OF False b refl rb m_def]) (use 1(2-5) ml(1) in auto)
    then have r: "readi_loop ip off n s =
        Ok (get_bytes (off mod BSIZE) m ?d @ map (fbyte s ip) [off + m..<off + n], s)"
      using False b rb ml(1) by (simp add: readi_loop.simps [of ip off n s] Let_def m_def)
    have "get_bytes (off mod BSIZE) m ?d = map (fbyte s ip) [off..<off + m]"
    proof (rule nth_equalityI)
      show "length (get_bytes (off mod BSIZE) m ?d) = length (map (fbyte s ip) [off..<off + m])"
        using m0 fb(2) by (simp add: get_bytes_def)
      fix k assume "k < length (get_bytes (off mod BSIZE) m ?d)"
      then have k: "k < m" by (simp add: get_bytes_def)
      have c: "(off + k) div BSIZE = off div BSIZE" "(off + k) mod BSIZE = off mod BSIZE + k"
        using chunk_range(1) [OF ml(2), of "off + k"] chunk_range(2) [OF ml(2), of "off + k"] k by auto
      show "get_bytes (off mod BSIZE) m ?d ! k = map (fbyte s ip) [off..<off + m] ! k"
        using k f0 c m0 fb(2) by (simp add: get_bytes_def fbyte_def)
    qed
    moreover have "[off..<off + n] = [off..<off + m] @ [off + m..<off + n]"
      using ml(1) upt_add_eq_append [of off "off + m" "n - m"] by simp
    ultimately show ?thesis using r by simp
  qed
qed

text \<open>Inodes on disk.\<close>

lemma length_put_addrs [simp]: "off + 4 * length as \<le> length d \<Longrightarrow> length (put_addrs off as d) = length d"
  by (induction as arbitrary: off d) auto

lemma put_addrs_other:
  assumes "off + 4 * length as \<le> length d" "o' + n \<le> off \<or> off + 4 * length as \<le> o'"
  shows "get_bytes o' n (put_addrs off as d) = get_bytes o' n d"
  using assms
proof (induction as arbitrary: off d)
  case (Cons a as)
  have "get_bytes o' n (put_addrs (off + 4) as (put32 off (of_nat a) d)) = get_bytes o' n (put32 off (of_nat a) d)"
    by (rule Cons.IH) (use Cons.prems in auto)
  also have "\<dots> = get_bytes o' n d"
    unfolding put32_def by (rule get_put_bytes_other) (use Cons.prems in auto)
  finally show ?case by simp
qed simp

lemma get_put_addrs:
  assumes "off + 4 * length as \<le> length d" "\<forall>a \<in> set as. a < 2 ^ 32"
  shows "get_addrs off (length as) (put_addrs off as d) = as"
  using assms
proof (induction as arbitrary: off d)
  case (Cons a as)
  have "get_bytes off 4 (put_addrs (off + 4) as (put32 off (of_nat a) d)) = get_bytes off 4 (put32 off (of_nat a) d)"
    by (rule put_addrs_other) (use Cons.prems in auto)
  then have "get32 off (put_addrs (off + 4) as (put32 off (of_nat a) d)) = of_nat a"
    using Cons.prems get_put_32 [of off d "of_nat a"] by (simp add: get32_def)
  moreover have "unat (of_nat a :: u32) = a" using Cons.prems(2) by (simp add: unat_of_nat take_bit_eq_mod)
  moreover have "get_addrs (off + 4) (length as) (put_addrs (off + 4) as (put32 off (of_nat a) d)) = as"
    by (rule Cons.IH) (use Cons.prems in auto)
  ultimately show ?case by simp
qed simp

lemma length_store_dinode:
  assumes "off + DINODE_SIZE \<le> length d" "length (i_addrs i) = NDIRECT + 1"
  shows "length (store_dinode off i d) = length d"
  using assms unfolding store_dinode_def DINODE_SIZE_def NDIRECT_def by simp

lemma store_dinode_other:
  assumes "off + DINODE_SIZE \<le> length d" "length (i_addrs i) = NDIRECT + 1" "o' + n \<le> off \<or> off + DINODE_SIZE \<le> o'"
  shows "get_bytes o' n (store_dinode off i d) = get_bytes o' n d"
  using assms(3)
proof
  assume "o' + n \<le> off"
  then show ?thesis using assms(1,2) unfolding store_dinode_def DINODE_SIZE_def NDIRECT_def
    by (simp add: put_addrs_other put32_def put16_def get_put_bytes_other)
next
  assume "off + DINODE_SIZE \<le> o'"
  then show ?thesis using assms(1,2) unfolding store_dinode_def DINODE_SIZE_def NDIRECT_def
    by (simp add: put_addrs_other put32_def put16_def get_put_bytes_other)
qed

text \<open>An inode survives its trip to the disk: what \<^verbatim>\<open>iupdate\<close> stores is what \<^verbatim>\<open>ilock\<close> loads, field by
  field, and the other inodes of the block keep their bytes.\<close>

theorem dinode_roundtrip:
  assumes "off + DINODE_SIZE \<le> length d" "length (i_addrs i) = NDIRECT + 1"
    and "i_size i < 2 ^ 32" "\<forall>a \<in> set (i_addrs i). a < 2 ^ 32"
  shows "load_dinode off (store_dinode off i d) j =
     j\<lparr>i_type := i_type i, i_major := i_major i, i_minor := i_minor i, i_nlink := i_nlink i, i_size := i_size i,
       i_addrs := i_addrs i\<rparr>
   \<and> (\<forall>o'. o' + DINODE_SIZE \<le> off \<or> off + DINODE_SIZE \<le> o' \<longrightarrow>
        get_bytes o' DINODE_SIZE (store_dinode off i d) = get_bytes o' DINODE_SIZE d)"
proof -
  let ?d = "put32 (off + 8) (of_nat (i_size i)) (put16 (off + 6) (i_nlink i) (put16 (off + 4) (i_minor i)
       (put16 (off + 2) (i_major i) (put16 off (i_type i) d))))"
  have len: "length ?d = length d" using assms(1) by (simp add: DINODE_SIZE_def)
  have fit: "off + 12 + 4 * length (i_addrs i) \<le> length ?d" using assms(1,2) len by (simp add: DINODE_SIZE_def NDIRECT_def)
  have g: "get_bytes o' n (put_addrs (off + 12) (i_addrs i) ?d) = get_bytes o' n ?d" if "o' + n \<le> off + 12" for o' n
    using put_addrs_other [OF fit] that by simp
  have o16: "get16 o' (put32 p w e) = get16 o' e" if "o' + 2 \<le> p" "p + 4 \<le> length e" for o' p w e
    using that by (simp add: get16_def put32_def get_put_bytes_other)
  have "get16 o' (put_addrs (off + 12) (i_addrs i) ?d) = get16 o' ?d" if "o' + 2 \<le> off + 12" for o'
    using g [OF that] by (simp add: get16_def)
  moreover have "get32 (off + 8) (put_addrs (off + 12) (i_addrs i) ?d) = get32 (off + 8) ?d"
    using g [of "off + 8" 4] by (simp add: get32_def)
  moreover have "get_addrs (off + 12) (NDIRECT + 1) (put_addrs (off + 12) (i_addrs i) ?d) = i_addrs i"
    using get_put_addrs [OF fit assms(4)] assms(2) by simp
  moreover have "unat (of_nat (i_size i) :: u32) = i_size i" using assms(3) by (simp add: unat_of_nat take_bit_eq_mod)
  ultimately have "load_dinode off (store_dinode off i d) j =
     j\<lparr>i_type := i_type i, i_major := i_major i, i_minor := i_minor i, i_nlink := i_nlink i, i_size := i_size i,
       i_addrs := i_addrs i\<rparr>"
    using assms(1) by (simp add: load_dinode_def store_dinode_def o16 DINODE_SIZE_def)
  then show ?thesis using store_dinode_other [OF assms(1,2)] by blast
qed

text \<open>What the data of a file depends on.\<close>

lemma view_cong:
  assumes i: "inode_ok s ip" and sb: "fsb s' = fsb s" "i_addrs (ino s' ip) = i_addrs (ino s ip)"
      "length (icache s') = length (icache s)"
    and b: "\<And>b. data_blk (fsb s) b \<Longrightarrow> fblocks s' ! b = fblocks s ! b"
    and u: "\<And>c. c < sb_size (fsb s) \<Longrightarrow> used s' c \<longleftrightarrow> used s c"
  shows "faddr s' ip bn = faddr s ip bn" "inode_ok s' ip" "p < MAXFILE * BSIZE \<Longrightarrow> fbyte s' ip p = fbyte s ip p"
proof -
  have ib: "ind_blk s' ip = ind_blk s ip" by (simp add: ind_blk_def sb)
  have k: "fblocks s' ! ind_blk s ip = fblocks s ! ind_blk s ip" if "ind_blk s ip \<noteq> 0"
    by (rule b [OF inode_okD(3) [OF i owned_ind [OF that]]])
  show fa: "faddr s' ip bn = faddr s ip bn" for bn using k by (simp add: faddr_def sb ind_blk_def)
  have ow: "owned s' ip = owned s ip" unfolding owned_def fun_eq_iff ib fa by simp
  show "inode_ok s' ip" using i u unfolding inode_ok_def ow fa ib sb by (auto simp: data_blk_def)
  show "fbyte s' ip p = fbyte s ip p" if p: "p < MAXFILE * BSIZE"
  proof -
    have x: "p div BSIZE < MAXFILE" using p by (simp add: less_mult_imp_div_less)
    show ?thesis using b [OF inode_okD(3) [OF i owned_faddr [OF x]]] fa by (simp add: fbyte_def)
  qed
qed

lemma iupdate_ok:
  assumes ok: "fs_ok s" and i: "inode_ok s ip" and inum: "i_inum (ino s ip) < sb_ninodes (fsb s)"
  shows "\<exists>s'. iupdate ip s = Ok s' \<and> fs_ok s' \<and> icache s' = icache s \<and> fsb s' = fsb s
    \<and> (\<forall>b. b \<noteq> IBLOCK (i_inum (ino s ip)) (fsb s) \<longrightarrow> fblocks s' ! b = fblocks s ! b)
    \<and> (\<forall>c < sb_size (fsb s). used s' c \<longleftrightarrow> used s c)"
proof -
  let ?b = "IBLOCK (i_inum (ino s ip)) (fsb s)"
  let ?off = "DINODE_SIZE * (i_inum (ino s ip) mod IPB)"
  let ?s = "wr ?b (store_dinode ?off (ino s ip) (fblocks s ! ?b)) s"
  note F = fs_okD [OF ok]
  have lt: "?b < length (fblocks s)" by (rule F(6) [OF inum])
  have "i_inum (ino s ip) mod IPB < IPB" by (simp add: IPB_def DINODE_SIZE_def BSIZE_def)
  then have fit: "?off + DINODE_SIZE \<le> length (fblocks s ! ?b)"
    using F(1) [OF lt] by (simp add: IPB_def DINODE_SIZE_def BSIZE_def)
  have len: "length (store_dinode ?off (ino s ip) (fblocks s ! ?b)) = BSIZE"
    using length_store_dinode [OF fit inode_okD(2) [OF i]] F(1) [OF lt] by simp
  have oth: "fblocks ?s ! c = fblocks s ! c" if "c \<noteq> ?b" for c using that by (simp add: wr_def)
  have us: "used ?s c \<longleftrightarrow> used s c" if "c < sb_size (fsb s)" for c
    using oth [of "BBLOCK c (fsb s)"] F(7) [OF inum that] by (simp add: used_def)
  have "length e = BSIZE" if e: "e \<in> set (fblocks ?s)" for e
  proof -
    obtain c where "c < length (fblocks s)" "e = fblocks ?s ! c" using e by (auto simp: in_set_conv_nth)
    then show ?thesis using oth len F(1) lt by (cases "c = ?b") (auto simp: wr_def)
  qed
  then have "fs_ok ?s" using ok us unfolding fs_ok_def by simp
  then show ?thesis using lt oth us by (intro exI [of _ ?s]) (simp add: iupdate_def Let_def rd_def)
qed

text \<open>Everything \<^verbatim>\<open>writei\<close> does to a file that is not a device.\<close>

lemma writei_Ok:
  assumes ok: "fs_ok s" and i: "inode_ok s ip" and inum: "i_inum (ino s ip) < sb_ninodes (fsb s)"
    and t: "i_type (ino s ip) \<noteq> T_DEV" and off: "off \<le> i_size (ino s ip)" "off + length src \<le> MAXFILE * BSIZE"
    and w: "writei devw ip src off s = Ok (r, s')"
  shows "r = int (length src) \<and> fs_ok s' \<and> inode_ok s' ip \<and> fsb s' = fsb s
    \<and> i_size (ino s' ip) = max (i_size (ino s ip)) (off + length src)
    \<and> i_type (ino s' ip) = i_type (ino s ip) \<and> i_inum (ino s' ip) = i_inum (ino s ip) \<and> i_dev (ino s' ip) = i_dev (ino s ip)
    \<and> i_valid (ino s' ip) = i_valid (ino s ip) \<and> i_lock (ino s' ip) = i_lock (ino s ip) \<and> i_ref (ino s' ip) = i_ref (ino s ip)
    \<and> (\<forall>p < MAXFILE * BSIZE. fbyte s' ip p = overlay off src (fbyte s ip) p)
    \<and> (\<forall>p. off \<le> p \<longrightarrow> p < off + length src \<longrightarrow> faddr s' ip (p div BSIZE) \<noteq> 0)
    \<and> (\<forall>b. data_blk (fsb s) b \<longrightarrow> used s b \<longrightarrow> \<not> owned s ip b \<longrightarrow> fblocks s' ! b = fblocks s ! b)
    \<and> (\<forall>bn < MAXFILE. faddr s ip bn \<noteq> 0 \<longrightarrow> faddr s' ip bn = faddr s ip bn)"
proof -
  have big: "MAXFILE * BSIZE < 2 ^ 32" by (simp add: MAXFILE_def NDIRECT_def NINDIRECT_def BSIZE_def)
  have nw: "(off + length src) mod 2 ^ 32 = off + length src" using off(2) big by simp
  let ?fin = "\<lambda>off1 s1. if length src > 0 \<and> off1 > i_size (ino s1 ip)
      then and_then (iupdate ip (set_ino ip ((ino s1 ip)\<lparr>i_size := off1\<rparr>) s1)) (\<lambda>s. Ok (int (length src), s))
      else Ok (int (length src), s1)"
  have q: "writei devw ip src off s = and_then (writei_loop ip off src s) (\<lambda>(off1, s1). ?fin off1 s1)"
    using t off nw by (simp add: writei_def Let_def)
  have "and_then (writei_loop ip off src s) (\<lambda>(off1, s1). ?fin off1 s1) = Ok (r, s')"
    unfolding q [symmetric] by (rule w)
  then obtain off1 s1 where l: "writei_loop ip off src s = Ok (off1, s1)" and f: "?fin off1 s1 = Ok (r, s')"
    unfolding and_then_Ok_iff by fastforce
  note L = writei_loop_Ok [OF ok i off(2) l]
  have o1: "off1 = off + length src" using L by blast
  have e: "edits ip s s1" using L grows_edits [OF grows_refl [OF ok i]] by (cases "src = []") auto
  note E = editsD [OF e]
  have m1: "fsb s1 = fsb s" "i_size (ino s1 ip) = i_size (ino s ip)" "i_type (ino s1 ip) = i_type (ino s ip)"
    "i_inum (ino s1 ip) = i_inum (ino s ip)" "i_dev (ino s1 ip) = i_dev (ino s ip)"
    "i_valid (ino s1 ip) = i_valid (ino s ip)" "i_lock (ino s1 ip) = i_lock (ino s ip)" "i_ref (ino s1 ip) = i_ref (ino s ip)"
    using E(3) by (auto simp: same_meta_def)
  have unt: "fblocks s1 ! b = fblocks s ! b" if "data_blk (fsb s) b" "used s b" "\<not> owned s ip b" for b
    using E(4) that by (simp add: untouched_def)
  have fb1: "fbyte s1 ip p = overlay off src (fbyte s ip) p" if "p < MAXFILE * BSIZE" for p using L that by blast
  have fa1: "faddr s1 ip (p div BSIZE) \<noteq> 0" if "off \<le> p" "p < off + length src" for p using L that by blast
  show ?thesis
  proof (cases "length src > 0 \<and> off1 > i_size (ino s1 ip)")
    case False
    then have "r = int (length src)" "s' = s1" using f by auto
    moreover have "max (i_size (ino s ip)) (off + length src) = i_size (ino s ip)"
      using False o1 m1(2) off(1) by (cases "src = []") auto
    ultimately show ?thesis using E(1,2,5) m1 fb1 fa1 unt by simp
  next
    case True
    let ?s2 = "set_ino ip ((ino s1 ip)\<lparr>i_size := off1\<rparr>) s1"
    have ip: "ip < length (icache s1)" by (rule inode_okD(1) [OF E(2)])
    have a2: "i_addrs (ino ?s2 ip) = i_addrs (ino s1 ip)" using ip by (simp add: ino_set_ino)
    have ok2: "fs_ok ?s2" using E(1) by simp
    have V2: "inode_ok ?s2 ip" by (rule view_cong(2) [OF E(2)]) (use a2 in simp_all)
    have n2: "i_inum (ino ?s2 ip) < sb_ninodes (fsb ?s2)" using inum m1 ip by (simp add: ino_set_ino)
    obtain s3 where s3: "iupdate ip ?s2 = Ok s3" "fs_ok s3" "icache s3 = icache ?s2" "fsb s3 = fsb ?s2"
      "\<And>b. b \<noteq> IBLOCK (i_inum (ino ?s2 ip)) (fsb ?s2) \<Longrightarrow> fblocks s3 ! b = fblocks ?s2 ! b"
      "\<And>c. c < sb_size (fsb ?s2) \<Longrightarrow> used s3 c \<longleftrightarrow> used ?s2 c"
      using iupdate_ok [OF ok2 V2 n2] by blast
    have r: "r = int (length src)" "s' = s3" using f True s3(1) by auto
    have dat: "fblocks s3 ! b = fblocks s1 ! b" if "data_blk (fsb s1) b" for b
      using s3(5) [of b] that n2 by (simp add: data_blk_def)
    have u3: "used s3 c \<longleftrightarrow> used s1 c" if "c < sb_size (fsb s1)" for c using s3(6) [of c] that by simp
    have V: "faddr s3 ip bn = faddr s1 ip bn" "inode_ok s3 ip" "p < MAXFILE * BSIZE \<Longrightarrow> fbyte s3 ip p = fbyte s1 ip p" for bn p
      by (rule view_cong [OF E(2)]; use s3(3,4) a2 dat u3 in simp)+
    have sz: "ino s3 ip = (ino s1 ip)\<lparr>i_size := off + length src\<rparr>" using s3(3) ip o1 by (simp add: ino_set_ino)
    have "max (i_size (ino s ip)) (off + length src) = off + length src" using True o1 m1(2) by simp
    then show ?thesis
      using r s3(2,4) V E(5) m1 sz fb1 fa1 unt dat by simp
  qed
qed

text \<open>C3: Files keep what is written to them.  On a well-formed disk, a write of at most the maximal file
  size that returns has written everything: reading the same range gives the bytes back without any change
  to the state, every other byte of the file is as before, the size grows to the end of the
  write if that is beyond it, the blocks of no other file are touched, and the disk stays well formed.\<close>

theorem writei_readi:
  assumes ok: "fs_ok s" and i: "inode_ok s ip" and inum: "i_inum (ino s ip) < sb_ninodes (fsb s)"
    and t: "i_type (ino s ip) \<noteq> T_DEV" and off: "off \<le> i_size (ino s ip)" "off + length src \<le> MAXFILE * BSIZE"
    and w: "writei devw ip src off s = Ok (r, s')"
  shows "r = int (length src) \<and> readi devr ip off (length src) s' = Ok (int (length src), src, s')
    \<and> (\<forall>p < MAXFILE * BSIZE. p < off \<or> off + length src \<le> p \<longrightarrow> fbyte s' ip p = fbyte s ip p)
    \<and> i_size (ino s' ip) = max (i_size (ino s ip)) (off + length src)
    \<and> (\<forall>b. data_blk (fsb s) b \<longrightarrow> used s b \<longrightarrow> \<not> owned s ip b \<longrightarrow> fblocks s' ! b = fblocks s ! b)
    \<and> fs_ok s' \<and> inode_ok s' ip"
proof -
  note W = writei_Ok [OF ok i inum t off w]
  have big: "MAXFILE * BSIZE < 2 ^ 32" by (simp add: MAXFILE_def NDIRECT_def NINDIRECT_def BSIZE_def)
  have nw: "(off + length src) mod 2 ^ 32 = off + length src" using off(2) big by simp
  have rl: "readi_loop ip off (length src) s' = Ok (map (fbyte s' ip) [off..<off + length src], s')"
    by (rule readi_loop_mapped) (use W off(2) in simp_all)
  have "map (fbyte s' ip) [off..<off + length src] = src"
  proof (rule nth_equalityI)
    fix k assume "k < length (map (fbyte s' ip) [off..<off + length src])"
    then show "map (fbyte s' ip) [off..<off + length src] ! k = src ! k" using W off(2) by (simp add: overlay_def)
  qed simp
  then have "readi devr ip off (length src) s' = Ok (int (length src), src, s')"
    using rl W t nw by (simp add: readi_def Let_def)
  moreover have "fbyte s' ip p = fbyte s ip p" if "p < MAXFILE * BSIZE" "p < off \<or> off + length src \<le> p" for p
    using W that by (auto simp: overlay_def)
  ultimately show ?thesis using W by blast
qed

subsection \<open>Directories as maps\<close>

text \<open>The part of a name that counts: up to its terminator, at most \<^verbatim>\<open>DIRSIZ\<close> bytes.\<close>

definition key :: "byte list \<Rightarrow> byte list" where
  "key s = take DIRSIZ (takeWhile (\<lambda>c. c \<noteq> 0) s)"

lemma strncmp_bytes_eq:
  "strncmp_bytes n s t = 0 \<longleftrightarrow> take n (takeWhile (\<lambda>c. c \<noteq> 0) s) = take n (takeWhile (\<lambda>c. c \<noteq> 0) t)"
proof (induction n arbitrary: s t)
  case (Suc n)
  show ?case
    using Suc.IH [of "tl s" "tl t"] by (cases s; cases t) (auto simp: hd0_def unsigned_eq_0_iff word_uint_eq_iff [symmetric])
qed simp

lemma namecmp_key: "namecmp s t = 0 \<longleftrightarrow> key s = key t"
  by (simp add: namecmp_def strncmp_bytes_eq key_def)

lemma key_pad_name: "key (pad_name name) = key name"
proof -
  have tw: "takeWhile (\<lambda>c. c \<noteq> 0) (take n (takeWhile (\<lambda>c. c \<noteq> 0) name @ replicate k 0)) = take n (takeWhile (\<lambda>c. c \<noteq> 0) name)"
    for n k and name :: "byte list"
  proof (induction name arbitrary: n)
    case Nil
    show ?case by (cases n; cases k) auto
  next
    case (Cons c name)
    then show ?case by (cases n) (auto simp: takeWhile_eq_Nil_iff hd_replicate split: if_splits)
  qed
  show ?thesis unfolding key_def pad_name_def tw by simp
qed

lemma length_pad_name [simp]: "length (pad_name name) = DIRSIZ"
  by (simp add: pad_name_def)

lemma length_mk_dirent [simp]: "length (mk_dirent inum name) = DIRENT_SIZE"
  by (simp add: mk_dirent_def DIRSIZ_def DIRENT_SIZE_def)

lemma mk_dirent_fields:
  "de_inum (mk_dirent inum name) = of_nat inum" "key (de_name (mk_dirent inum name)) = key name"
proof -
  have "get_bytes 0 2 (mk_dirent inum name) = le16 (of_nat inum) @ []"
    by (simp add: get_bytes_def mk_dirent_def)
  then show "de_inum (mk_dirent inum name) = of_nat inum" unfolding de_inum_def get16_def by (simp only: un16_le16)
  have "de_name (mk_dirent inum name) = pad_name name"
    by (simp add: de_name_def get_bytes_def mk_dirent_def)
  then show "key (de_name (mk_dirent inum name)) = key name" by (simp add: key_pad_name)
qed

definition dirent_at :: "fsys \<Rightarrow> nat \<Rightarrow> nat \<Rightarrow> byte list" where
  "dirent_at s dp k = map (fbyte s dp) [DIRENT_SIZE * k..<DIRENT_SIZE * k + DIRENT_SIZE]"

definition dirents :: "fsys \<Rightarrow> nat \<Rightarrow> byte list list" where
  "dirents s dp = map (dirent_at s dp) [0..<i_size (ino s dp) div DIRENT_SIZE]"

definition names :: "byte list \<Rightarrow> byte list \<Rightarrow> bool" where
  "names nm de \<longleftrightarrow> de_inum de \<noteq> 0 \<and> key nm = key (de_name de)"

definition dir_find :: "fsys \<Rightarrow> nat \<Rightarrow> byte list \<Rightarrow> nat option" where
  "dir_find s dp nm = map_option (\<lambda>de. unat (de_inum de)) (find (names nm) (dirents s dp))"

definition dir_ok :: "fsys \<Rightarrow> nat \<Rightarrow> bool" where
  "dir_ok s dp \<longleftrightarrow> fs_ok s \<and> inode_ok s dp \<and> i_inum (ino s dp) < sb_ninodes (fsb s) \<and> i_type (ino s dp) = T_DIR
     \<and> DIRENT_SIZE dvd i_size (ino s dp) \<and> i_size (ino s dp) \<le> MAXFILE * BSIZE
     \<and> (\<forall>p < i_size (ino s dp). faddr s dp (p div BSIZE) \<noteq> 0)"

lemma dir_size:
  assumes "dir_ok s dp" shows "i_size (ino s dp) = DIRENT_SIZE * length (dirents s dp)"
  using assms by (simp add: dir_ok_def dirents_def)

lemma nth_dirents: "k < length (dirents s dp) \<Longrightarrow> dirents s dp ! k = dirent_at s dp k"
  by (simp add: dirents_def)

lemma readi_dirent:
  assumes d: "dir_ok s dp" and k: "k < length (dirents s dp)"
  shows "readi devr dp (DIRENT_SIZE * k) DIRENT_SIZE s = Ok (int DIRENT_SIZE, dirents s dp ! k, s)"
proof -
  have D: "fs_ok s" "inode_ok s dp" "i_type (ino s dp) = T_DIR" "i_size (ino s dp) \<le> MAXFILE * BSIZE"
    "\<And>p. p < i_size (ino s dp) \<Longrightarrow> faddr s dp (p div BSIZE) \<noteq> 0" using d by (simp_all add: dir_ok_def)
  have le: "DIRENT_SIZE * k + DIRENT_SIZE \<le> i_size (ino s dp)"
    using dir_size [OF d] mult_le_mono2 [of "Suc k" "length (dirents s dp)" DIRENT_SIZE] k by simp
  have big: "MAXFILE * BSIZE < 2 ^ 32" by (simp add: MAXFILE_def NDIRECT_def NINDIRECT_def BSIZE_def)
  then have nw: "(DIRENT_SIZE * k + DIRENT_SIZE) mod 2 ^ 32 = DIRENT_SIZE * k + DIRENT_SIZE" using le D(4) by simp
  have "readi_loop dp (DIRENT_SIZE * k) DIRENT_SIZE s = Ok (dirent_at s dp k, s)"
    unfolding dirent_at_def by (rule readi_loop_mapped [OF D(1,2)]) (use le D(4,5) in auto)
  moreover have "T_DIR \<noteq> T_DEV" by (simp add: T_DIR_def T_DEV_def)
  ultimately show ?thesis using D(3) le nw nth_dirents [OF k] by (simp add: readi_def Let_def)
qed

lemma find_index_find: "find_index P xs = Some i \<Longrightarrow> find P xs = Some (xs ! i)"
  by (induction xs arbitrary: i) (auto split: if_splits)

lemma dirlookup_loop_finds:
  assumes d: "dir_ok s dp" and k: "k \<le> length (dirents s dp)"
  shows "dirlookup_loop devr dp name (DIRENT_SIZE * k) (i_size (ino s dp)) s =
    (case find_index (names name) (drop k (dirents s dp)) of
       None \<Rightarrow> Ok (None, s)
     | Some j \<Rightarrow> and_then (iget (i_dev (ino s dp)) (unat (de_inum (dirents s dp ! (k + j)))) s)
                 (\<lambda>(ip, s). Ok (Some (ip, DIRENT_SIZE * (k + j)), s)))"
  using k
proof (induction "length (dirents s dp) - k" arbitrary: k)
  case 0
  then show ?case using dir_size [OF d] by (simp add: dirlookup_loop.simps)
next
  case (Suc x)
  then have k: "k < length (dirents s dp)" by simp
  let ?de = "dirents s dp ! k"
  have lt: "DIRENT_SIZE * k < i_size (ino s dp)" using k dir_size [OF d] by (simp add: DIRENT_SIZE_def)
  have IH: "dirlookup_loop devr dp name (DIRENT_SIZE * Suc k) (i_size (ino s dp)) s =
    (case find_index (names name) (drop (Suc k) (dirents s dp)) of
       None \<Rightarrow> Ok (None, s)
     | Some j \<Rightarrow> and_then (iget (i_dev (ino s dp)) (unat (de_inum (dirents s dp ! (Suc k + j)))) s)
                 (\<lambda>(ip, s). Ok (Some (ip, DIRENT_SIZE * (Suc k + j)), s)))"
    by (rule Suc.hyps(1)) (use Suc.hyps(2) k in simp_all)
  have st: "dirlookup_loop devr dp name (DIRENT_SIZE * k) (i_size (ino s dp)) s =
    (if names name ?de then and_then (iget (i_dev (ino s dp)) (unat (de_inum ?de)) s) (\<lambda>(ip, s). Ok (Some (ip, DIRENT_SIZE * k), s))
     else dirlookup_loop devr dp name (DIRENT_SIZE * Suc k) (i_size (ino s dp)) s)"
    using lt readi_dirent [OF d k] by (subst dirlookup_loop.simps) (simp add: names_def namecmp_key add.commute)
  have dr: "drop k (dirents s dp) = ?de # drop (Suc k) (dirents s dp)" using k by (simp add: Cons_nth_drop_Suc)
  show ?case unfolding st dr IH by (auto split: option.split)
qed

lemma dirlookup_finds:
  assumes d: "dir_ok s dp"
  shows "dirlookup devr dp name s =
    (case find_index (names name) (dirents s dp) of
       None \<Rightarrow> Ok (None, s)
     | Some j \<Rightarrow> and_then (iget (i_dev (ino s dp)) (unat (de_inum (dirents s dp ! j))) s)
                 (\<lambda>(ip, s). Ok (Some (ip, DIRENT_SIZE * j), s)))"
  using dirlookup_loop_finds [OF d, of 0 devr name] d
  by (cases "find_index (names name) (dirents s dp)") (simp_all add: dirlookup_def dir_ok_def)

lemma empty_dirent_finds:
  assumes d: "dir_ok s dp" and k: "k \<le> length (dirents s dp)"
  shows "\<exists>j. k \<le> j \<and> j \<le> length (dirents s dp) \<and> (j < length (dirents s dp) \<longrightarrow> de_inum (dirents s dp ! j) = 0)
    \<and> empty_dirent_loop devr dp (DIRENT_SIZE * k) (i_size (ino s dp)) s = Ok (DIRENT_SIZE * j, s)"
  using k
proof (induction "length (dirents s dp) - k" arbitrary: k)
  case 0
  then show ?case using dir_size [OF d] by (intro exI [of _ k]) (simp add: empty_dirent_loop.simps)
next
  case (Suc x)
  then have k: "k < length (dirents s dp)" by simp
  have lt: "DIRENT_SIZE * k < i_size (ino s dp)" using k dir_size [OF d] by (simp add: DIRENT_SIZE_def)
  have st: "empty_dirent_loop devr dp (DIRENT_SIZE * k) (i_size (ino s dp)) s =
    (if de_inum (dirents s dp ! k) = 0 then Ok (DIRENT_SIZE * k, s)
     else empty_dirent_loop devr dp (DIRENT_SIZE * Suc k) (i_size (ino s dp)) s)"
    using lt readi_dirent [OF d k] by (subst empty_dirent_loop.simps) (simp add: add.commute)
  show ?case
  proof (cases "de_inum (dirents s dp ! k) = 0")
    case True
    then show ?thesis using st k by (intro exI [of _ k]) simp
  next
    case False
    have "x = length (dirents s dp) - Suc k" "Suc k \<le> length (dirents s dp)" using Suc.hyps(2) k by simp_all
    from Suc.hyps(1) [OF this] obtain j where
      "Suc k \<le> j" "j \<le> length (dirents s dp)" "j < length (dirents s dp) \<longrightarrow> de_inum (dirents s dp ! j) = 0"
      "empty_dirent_loop devr dp (DIRENT_SIZE * Suc k) (i_size (ino s dp)) s = Ok (DIRENT_SIZE * j, s)" by blast
    then show ?thesis using st False by (intro exI [of _ j]) simp
  qed
qed

lemma find_update_other:
  assumes "i < length xs" "\<not> P (xs ! i)" "\<not> P y"
  shows "find P (xs[i := y]) = find P xs"
  using assms by (induction xs arbitrary: i) (auto split: nat.splits)

lemma find_append: "find P (xs @ ys) = (case find P xs of None \<Rightarrow> find P ys | Some x \<Rightarrow> Some x)"
  by (induction xs) auto

text \<open>Writing entry \<open>j\<close> of a directory, inside it or right after its end.\<close>

lemma dirent_write:
  assumes d: "dir_ok s dp" and j: "j \<le> length (dirents s dp)" and e: "length e = DIRENT_SIZE"
    and w: "writei devw dp e (DIRENT_SIZE * j) s = Ok (r, s')" and r: "r = int DIRENT_SIZE"
  shows "dir_ok s' dp \<and> i_dev (ino s' dp) = i_dev (ino s dp)
    \<and> dirents s' dp = (if j < length (dirents s dp) then (dirents s dp)[j := e] else dirents s dp @ [e])"
proof -
  have D: "fs_ok s" "inode_ok s dp" "i_inum (ino s dp) < sb_ninodes (fsb s)" "i_type (ino s dp) = T_DIR"
    "i_size (ino s dp) \<le> MAXFILE * BSIZE" "\<And>p. p < i_size (ino s dp) \<Longrightarrow> faddr s dp (p div BSIZE) \<noteq> 0"
    using d by (simp_all add: dir_ok_def)
  have sz: "i_size (ino s dp) = DIRENT_SIZE * length (dirents s dp)" by (rule dir_size [OF d])
  have off: "DIRENT_SIZE * j \<le> i_size (ino s dp)" using j sz by simp
  have td: "i_type (ino s dp) \<noteq> T_DEV" using D(4) by (simp add: T_DIR_def T_DEV_def)
  have fit: "DIRENT_SIZE * j + length e \<le> MAXFILE * BSIZE"
  proof (rule ccontr)
    assume "\<not> DIRENT_SIZE * j + length e \<le> MAXFILE * BSIZE"
    then have "writei devw dp e (DIRENT_SIZE * j) s = Ok (- 1, s)"
      using off td by (simp add: writei_def Let_def)
    then show False using w r by simp
  qed
  note W = writei_Ok [OF D(1-3) td off fit w]
  have n': "length (dirents s' dp) = max (length (dirents s dp)) (Suc j)"
  proof -
    have "i_size (ino s' dp) = DIRENT_SIZE * max (length (dirents s dp)) (Suc j)"
      using W sz e by (simp add: max_mult_distrib_left nat_mult_max_right)
    then show ?thesis by (simp add: dirents_def DIRENT_SIZE_def)
  qed
  have lim: "DIRENT_SIZE * k + DIRENT_SIZE \<le> MAXFILE * BSIZE" if "k < length (dirents s' dp)" for k
  proof (cases "k \<le> j")
    case True
    then show ?thesis using fit e mult_le_mono2 [of k j DIRENT_SIZE] by linarith
  next
    case False
    then have "Suc k \<le> length (dirents s dp)" using that n' by simp
    then show ?thesis using D(5) sz mult_le_mono2 [of "Suc k" "length (dirents s dp)" DIRENT_SIZE] by simp
  qed
  have ent: "dirent_at s' dp k = (if k = j then e else dirent_at s dp k)" if k: "k < length (dirents s' dp)" for k
  proof (rule nth_equalityI)
    show "length (dirent_at s' dp k) = length (if k = j then e else dirent_at s dp k)" using e by (simp add: dirent_at_def)
    fix x assume "x < length (dirent_at s' dp k)"
    then have x: "x < DIRENT_SIZE" by (simp add: dirent_at_def)
    then have "fbyte s' dp (DIRENT_SIZE * k + x) = overlay (DIRENT_SIZE * j) e (fbyte s dp) (DIRENT_SIZE * k + x)"
      using W lim [OF k] by simp
    also have "\<dots> = (if k = j then e ! x else fbyte s dp (DIRENT_SIZE * k + x))"
    proof -
      consider "k = j" | "k < j" | "j < k" by linarith
      then show ?thesis
      proof cases
        case 2
        then have "DIRENT_SIZE * k + DIRENT_SIZE \<le> DIRENT_SIZE * j" using mult_le_mono2 [of "Suc k" j DIRENT_SIZE] by simp
        then show ?thesis using x 2 by (simp add: overlay_def)
      next
        case 3
        then have "DIRENT_SIZE * j + DIRENT_SIZE \<le> DIRENT_SIZE * k" using mult_le_mono2 [of "Suc j" k DIRENT_SIZE] by simp
        then show ?thesis using x 3 e by (simp add: overlay_def)
      qed (use x e in \<open>simp add: overlay_def\<close>)
    qed
    finally show "dirent_at s' dp k ! x = (if k = j then e else dirent_at s dp k) ! x"
      using x by (simp add: dirent_at_def)
  qed
  have ents: "dirents s' dp = (if j < length (dirents s dp) then (dirents s dp)[j := e] else dirents s dp @ [e])"
  proof (rule nth_equalityI)
    show "length (dirents s' dp) = length (if j < length (dirents s dp) then (dirents s dp)[j := e] else dirents s dp @ [e])"
      using n' j by auto
    fix k assume "k < length (dirents s' dp)"
    then show "dirents s' dp ! k = (if j < length (dirents s dp) then (dirents s dp)[j := e] else dirents s dp @ [e]) ! k"
      using ent [of k] n' j nth_dirents by (auto simp: nth_append nth_list_update)
  qed
  have "faddr s' dp (p div BSIZE) \<noteq> 0" if p: "p < i_size (ino s' dp)" for p
  proof (cases "p < i_size (ino s dp)")
    case True
    then have "p div BSIZE < MAXFILE" using D(5) by (simp add: less_mult_imp_div_less)
    then show ?thesis using W D(6) [OF True] by simp
  next
    case False
    then show ?thesis using W p off e by (auto simp: max_def split: if_splits)
  qed
  moreover have "DIRENT_SIZE dvd i_size (ino s' dp)" using W sz e by (auto simp: max_def)
  moreover have "i_size (ino s' dp) \<le> MAXFILE * BSIZE" using W D(5) fit by simp
  ultimately show ?thesis using W D(3,4) ents by (simp add: dir_ok_def)
qed

text \<open>C12: A directory is a map from names to inode numbers.  Looking a name up reads the number that the
  map gives it (as the inode \<^verbatim>\<open>iget\<close> returns, with the position of its entry), and fails without
  changing anything when there is none.  Linking a name that is not there, when it returns, adds exactly that
  name: a free entry is reused or the directory grows by one entry, and no other name is affected.\<close>

theorem dirlink_adds_name:
  assumes d: "dir_ok s dp" and new: "dir_find s dp name = None" and inum: "0 < inum" "inum < 2 ^ 16"
    and l: "dirlink devr devw pid dp name inum s = Ok (r, s')"
  shows "r = 0 \<and> dir_ok s' dp \<and> dirlookup devr dp name s = Ok (None, s)
    \<and> (\<forall>nm. dir_find s' dp nm = (if key nm = key name then Some inum else dir_find s dp nm))
    \<and> (\<exists>off. dirlookup devr dp name s' = and_then (iget (i_dev (ino s dp)) inum s') (\<lambda>(ip, s). Ok (Some (ip, off), s)))"
proof -
  let ?e = "mk_dirent inum name"
  have nf: "find (names name) (dirents s dp) = None" using new by (simp add: dir_find_def)
  then have ni: "find_index (names name) (dirents s dp) = None" by (simp add: find_None_iff find_index_None_iff)
  have look: "dirlookup devr dp name s = Ok (None, s)" using dirlookup_finds [OF d] ni by simp
  obtain j where j: "j \<le> length (dirents s dp)" "j < length (dirents s dp) \<longrightarrow> de_inum (dirents s dp ! j) = 0"
    "empty_dirent_loop devr dp 0 (i_size (ino s dp)) s = Ok (DIRENT_SIZE * j, s)"
    using empty_dirent_finds [OF d, of 0 devr] by auto
  have w: "writei devw dp ?e (DIRENT_SIZE * j) s = Ok (int DIRENT_SIZE, s')" "r = 0"
    using l look j(3) by (auto simp: dirlink_def split: if_splits)
  note W = dirent_write [OF d j(1) _ w(1) refl, OF length_mk_dirent]
  have ei: "de_inum ?e \<noteq> 0" "unat (de_inum ?e) = inum"
  proof -
    show u: "unat (de_inum ?e) = inum" using inum(2) by (simp add: mk_dirent_fields unat_of_nat take_bit_eq_mod)
    then show "de_inum ?e \<noteq> 0" using inum(1) by auto
  qed
  have ne: "names nm ?e \<longleftrightarrow> key nm = key name" for nm using ei(1) by (simp add: names_def mk_dirent_fields)
  have free: "\<not> names nm (dirents s dp ! j)" if "j < length (dirents s dp)" for nm using j(2) that by (simp add: names_def)
  have old: "find (names nm) (dirents s dp) = None" if "key nm = key name" for nm
  proof -
    have "names nm = names name" using that by (simp add: names_def fun_eq_iff)
    then show ?thesis using nf by simp
  qed
  have upd: "find (names nm) (dirents s' dp) = Some ?e" if nm: "key nm = key name" for nm
  proof (cases "j < length (dirents s dp)")
    case True
    have none: "\<not> names nm x" if "x \<in> set (dirents s dp)" for x using old [OF nm] that by (auto simp: find_None_iff)
    have split: "(dirents s dp)[j := ?e] = take j (dirents s dp) @ ?e # drop (Suc j) (dirents s dp)"
      by (rule upd_conv_take_nth_drop [OF True])
    have "find (names nm) (take j (dirents s dp)) = None" using none by (auto simp: find_None_iff dest: in_set_takeD)
    then show ?thesis using W True nm ne by (simp add: split find_append)
  next
    case False
    then show ?thesis using W old [OF nm] nm ne by (simp add: find_append)
  qed
  have other: "find (names nm) (dirents s' dp) = find (names nm) (dirents s dp)" if nm: "key nm \<noteq> key name" for nm
  proof (cases "j < length (dirents s dp)")
    case True
    then show ?thesis using W find_update_other [of j "dirents s dp" "names nm" ?e] free [OF True] ne nm by simp
  next
    case False
    then show ?thesis using W ne nm by (simp add: find_append split: option.split)
  qed
  have fnd: "dir_find s' dp nm = (if key nm = key name then Some inum else dir_find s dp nm)" for nm
    using upd other ei(2) by (simp add: dir_find_def)
  have "\<exists>off. dirlookup devr dp name s' = and_then (iget (i_dev (ino s dp)) inum s') (\<lambda>(ip, s). Ok (Some (ip, off), s))"
  proof -
    obtain x where x: "find_index (names name) (dirents s' dp) = Some x"
      using upd [of name] find_index_None_iff [of "names name" "dirents s' dp"] find_None_iff [of "names name" "dirents s' dp"]
      by (cases "find_index (names name) (dirents s' dp)") auto
    have "dirents s' dp ! x = ?e" using find_index_find [OF x] upd [of name] by simp
    then show ?thesis using dirlookup_finds [of s' dp devr name] W x ei(2) by auto
  qed
  then show ?thesis using w(2) W look fnd by blast
qed

subsection \<open>Path elements\<close>

text \<open>The names that the loop of \<^verbatim>\<open>namex\<close> looks up one after the other, and the path read as a list of
  components between slashes.\<close>

function walk :: "byte list \<Rightarrow> byte list list" where
  "walk path = (case skipelem path of None \<Rightarrow> [] | Some (nm, rest) \<Rightarrow> nm # walk rest)"
  by pat_completeness auto
termination by (relation "measure length") (auto dest: length_skipelem)

declare walk.simps [simp del]

fun components :: "byte list \<Rightarrow> byte list list" where
  "components [] = [[]]"
| "components (c # cs) =
     (if c = slash then [] # components cs
      else case components cs of [] \<Rightarrow> [[c]] | w # ws \<Rightarrow> (c # w) # ws)"

lemma components_split:
  "components path = takeWhile (\<lambda>c. c \<noteq> slash) path #
     (case dropWhile (\<lambda>c. c \<noteq> slash) path of [] \<Rightarrow> [] | _ # rest \<Rightarrow> components rest)"
  by (induction path) auto

lemma components_skip:
  "filter (\<lambda>w. w \<noteq> []) (components (dropWhile (\<lambda>c. c = slash) path)) = filter (\<lambda>w. w \<noteq> []) (components path)"
  by (induction path) auto

text \<open>Path names are read correctly.  The successive results of \<^verbatim>\<open>skipelem\<close> are the non-empty components
  of the path between its slashes, each cut to \<^verbatim>\<open>DIRSIZ\<close> bytes, whatever the number of slashes
  before, between and after them; the walk ends on every path.\<close>

theorem skipelem_components: "walk path = map (take DIRSIZ) (filter (\<lambda>w. w \<noteq> []) (components path))"
proof (induction path rule: walk.induct)
  case (1 path)
  let ?p = "dropWhile (\<lambda>c. c = slash) path"
  show ?case
  proof (cases "?p = []")
    case True
    have "filter (\<lambda>w. w \<noteq> []) (components path) = []" using components_skip [of path] unfolding True by simp
    moreover have "skipelem path = None" unfolding skipelem_def Let_def True by simp
    ultimately show ?thesis by (simp add: walk.simps [of path])
  next
    case False
    let ?e = "takeWhile (\<lambda>c. c \<noteq> slash) ?p" and ?r = "dropWhile (\<lambda>c. c \<noteq> slash) ?p"
    let ?rest = "dropWhile (\<lambda>c. c = slash) ?r"
    have sk: "skipelem path = Some (take DIRSIZ ?e, ?rest)" using False by (simp add: skipelem_def Let_def)
    have "hd ?p \<noteq> slash" using hd_dropWhile [OF False] by simp
    then have ne: "?e \<noteq> []" using False by (cases ?p) auto
    have IH: "walk ?rest = map (take DIRSIZ) (filter (\<lambda>w. w \<noteq> []) (components ?rest))" by (rule 1 [OF sk refl])
    have r: "filter (\<lambda>w. w \<noteq> []) (components ?rest) =
        filter (\<lambda>w. w \<noteq> []) (case ?r of [] \<Rightarrow> [] | _ # rest \<Rightarrow> components rest)"
    proof (cases ?r)
      case (Cons c cs)
      then have "c = slash" using hd_dropWhile [of "\<lambda>c. c \<noteq> slash" ?p] by simp
      then show ?thesis using components_skip [of ?r] unfolding Cons by simp
    next
      case Nil
      show ?thesis unfolding Nil by simp
    qed
    have "filter (\<lambda>w. w \<noteq> []) (components path) = ?e # filter (\<lambda>w. w \<noteq> []) (components ?rest)"
      using components_skip [of path] components_split [of ?p] ne r by simp
    then show ?thesis using sk IH by (simp add: walk.simps [of path])
  qed
qed

subsection \<open>The inode cache\<close>

definition icache_ok :: "fsys \<Rightarrow> bool" where
  "icache_ok s \<longleftrightarrow> (\<forall>i < length (icache s). i_ref (ino s i) \<ge> 0)
     \<and> (\<forall>i < length (icache s). \<forall>j < length (icache s). i_ref (ino s i) > 0 \<longrightarrow> i_ref (ino s j) > 0 \<longrightarrow>
          i_dev (ino s i) = i_dev (ino s j) \<longrightarrow> i_inum (ino s i) = i_inum (ino s j) \<longrightarrow> i = j)"

text \<open>One inode has one cache entry.  \<^verbatim>\<open>iget\<close> keeps the cache free of duplicates and returns an entry for the
  requested inode with its count raised; asking again returns the same entry, so
  everybody who uses an inode shares its lock.\<close>

theorem iget_shares_entry:
  assumes ok: "icache_ok s" and g: "iget dev inum s = Ok (ip, s')"
  shows "icache_ok s' \<and> ip < length (icache s') \<and> i_dev (ino s' ip) = dev \<and> i_inum (ino s' ip) = inum \<and> i_ref (ino s' ip) > 0
    \<and> (\<forall>j. j \<noteq> ip \<longrightarrow> ino s' j = ino s j) \<and> fblocks s' = fblocks s
    \<and> iget dev inum s' = Ok (ip, idup ip s')"
proof -
  let ?P = "\<lambda>i. i_ref i > 0 \<and> i_dev i = dev \<and> i_inum i = inum"
  have R: "\<And>i. i < length (icache s) \<Longrightarrow> i_ref (ino s i) \<ge> 0"
    "\<And>i j. i < length (icache s) \<Longrightarrow> j < length (icache s) \<Longrightarrow> i_ref (ino s i) > 0 \<Longrightarrow> i_ref (ino s j) > 0 \<Longrightarrow>
      i_dev (ino s i) = i_dev (ino s j) \<Longrightarrow> i_inum (ino s i) = i_inum (ino s j) \<Longrightarrow> i = j"
    using ok unfolding icache_ok_def by blast+
  have main: "ip < length (icache s) \<and> (\<exists>e. s' = set_ino ip e s \<and> ?P e) \<and> (\<forall>j < length (icache s). j \<noteq> ip \<longrightarrow> \<not> ?P (ino s j))"
  proof (cases "find_index ?P (icache s)")
    case (Some q)
    have q: "q < length (icache s)" "?P (ino s q)" using find_index_SomeD [OF Some] by blast+
    have "ip = q" "s' = set_ino q ((ino s q)\<lparr>i_ref := i_ref (ino s q) + 1\<rparr>) s" using g Some by (auto simp: iget_def)
    moreover have "\<not> ?P (ino s j)" if "j < length (icache s)" "j \<noteq> q" for j using q R(2) [OF q(1) that(1)] that(2) by force
    ultimately show ?thesis using q by auto
  next
    case None
    have nP: "\<not> ?P (ino s j)" if "j < length (icache s)" for j using None that nth_mem by (auto simp: find_index_None_iff)
    obtain q where q: "find_index (\<lambda>i. i_ref i = 0) (icache s) = Some q"
      using g None by (auto simp: iget_def split: option.splits)
    have "q < length (icache s)" using find_index_SomeD [OF q] by blast
    moreover have "ip = q" "s' = set_ino q ((ino s q)\<lparr>i_dev := dev, i_inum := inum, i_ref := 1, i_valid := False\<rparr>) s"
      using g None q by (auto simp: iget_def)
    ultimately show ?thesis using nP by auto
  qed
  then obtain e where ip: "ip < length (icache s)" and s': "s' = set_ino ip e s" and e: "?P e"
    and oth: "\<And>j. j < length (icache s) \<Longrightarrow> j \<noteq> ip \<Longrightarrow> \<not> ?P (ino s j)" by blast
  have n: "ino s' j = (if j = ip then e else ino s j)" for j using ip by (simp add: s' ino_set_ino)
  have len: "length (icache s') = length (icache s)" by (simp add: s')
  have nn: "i_ref (ino s' i) \<ge> 0" if "i < length (icache s)" for i using R(1) [OF that] e by (simp add: n)
  have uq: "i = j" if h: "i < length (icache s)" "j < length (icache s)" "i_ref (ino s' i) > 0" "i_ref (ino s' j) > 0"
      "i_dev (ino s' i) = i_dev (ino s' j)" "i_inum (ino s' i) = i_inum (ino s' j)" for i j
    using h R(2) [OF h(1,2)] oth [OF h(1)] oth [OF h(2)] e by (cases "i = ip"; cases "j = ip") (simp_all add: n)
  have "icache_ok s'" unfolding icache_ok_def len using nn uq by blast
  moreover have "find_index ?P (icache s') = Some ip"
  proof -
    obtain q where q: "find_index ?P (icache s') = Some q"
      using find_index_Some_iff_ex [of ?P "icache s'"] nth_mem [of ip "icache s'"] ip len e n by auto
    then have "q < length (icache s)" "?P (ino s' q)" using find_index_SomeD [OF q] len by auto
    then show ?thesis using q oth n by metis
  qed
  then have "iget dev inum s' = Ok (ip, idup ip s')" by (simp add: iget_def idup_def)
  ultimately show ?thesis using ip len n e by (simp add: s')
qed

subsection \<open>A small disk\<close>

text \<open>Boot block, super block, one inode block, the bitmap and four free blocks; the cache holds an empty
  directory.\<close>

definition small_fs :: fsys where
  "small_fs = \<lparr>fblocks = (replicate 8 (replicate BSIZE 0))[3 := 15 # replicate (BSIZE - 1) 0],
     fsb = \<lparr>sb_size = 8, sb_nblocks = 4, sb_ninodes = 8, sb_nlog = 0, sb_logstart = 2, sb_inodestart = 2, sb_bmapstart = 3\<rparr>,
     icache = [\<lparr>i_dev = 1, i_inum = 1, i_ref = 1, i_lock = zero_lock, i_valid = True, i_type = T_DIR, i_major = 0,
       i_minor = 0, i_nlink = 1, i_size = 0, i_addrs = replicate (NDIRECT + 1) 0\<rparr>]\<rparr>"

lemma small_simps:
  "length (fblocks small_fs) = 8" "sb_size (fsb small_fs) = 8" "sb_ninodes (fsb small_fs) = 8"
  "b < 8 \<Longrightarrow> BBLOCK b (fsb small_fs) = 3" "b < 8 \<Longrightarrow> IBLOCK b (fsb small_fs) = 2" "length (icache small_fs) = 1"
  "ino small_fs 0 = \<lparr>i_dev = 1, i_inum = 1, i_ref = 1, i_lock = zero_lock, i_valid = True, i_type = T_DIR, i_major = 0,
       i_minor = 0, i_nlink = 1, i_size = 0, i_addrs = replicate (NDIRECT + 1) 0\<rparr>"
  "fblocks small_fs ! 3 = 15 # replicate (BSIZE - 1) 0"
  by (simp_all add: small_fs_def BBLOCK_def IBLOCK_def BPB_def BSIZE_def IPB_def DINODE_SIZE_def)

lemma small_used: "b < 8 \<Longrightarrow> used small_fs b \<longleftrightarrow> b < 4"
proof -
  assume b: "b < 8"
  then have "b = 0 \<or> b = 1 \<or> b = 2 \<or> b = 3 \<or> b = 4 \<or> b = 5 \<or> b = 6 \<or> b = 7" by linarith
  then show "used small_fs b \<longleftrightarrow> b < 4"
    unfolding used_def small_simps(4) [OF b] small_simps(8) bit_used_def
    by (elim disjE) (simp_all add: BPB_def BSIZE_def push_bit_eq_mult)
qed

lemma small_fs_ok: "fs_ok small_fs"
proof -
  have "length d = BSIZE" if "d \<in> set (fblocks small_fs)" for d
    using that set_update_subset_insert [of "replicate 8 (replicate BSIZE (0::byte))" 3 "15 # replicate (BSIZE - 1) 0"]
    by (auto simp: small_fs_def BSIZE_def)
  moreover have "data_blk (fsb small_fs) b" if "b < 8" "\<not> used small_fs b" for b
    using that small_used [OF that(1)] small_simps(4,5) by (auto simp: data_blk_def small_simps(2,3))
  ultimately show ?thesis unfolding fs_ok_def small_simps(1-3) using small_simps(4,5) by simp
qed

lemma small_dir: "dir_ok small_fs 0" "inode_ok small_fs 0" "faddr small_fs 0 bn = 0 \<or> NDIRECT \<le> bn" "dir_find small_fs 0 nm = None"
proof -
  have a: "i_addrs (ino small_fs 0) = replicate 13 0" by (simp add: small_simps NDIRECT_def)
  have f: "faddr small_fs 0 bn = 0" if "bn < 13 \<or> NDIRECT \<le> bn" for bn
    using that by (auto simp: faddr_def a NDIRECT_def)
  have f0: "faddr small_fs 0 bn = 0" for bn using f [of bn] by (cases "bn < 13") (auto simp: NDIRECT_def)
  then show "faddr small_fs 0 bn = 0 \<or> NDIRECT \<le> bn" by simp
  have i0: "ind_blk small_fs 0 = 0" by (simp add: ind_blk_def a NDIRECT_def)
  show io: "inode_ok small_fs 0" unfolding inode_ok_def owned_def f0 i0 by (auto simp: a NDIRECT_def small_simps(6))
  show "dir_ok small_fs 0" using small_fs_ok io by (simp add: dir_ok_def small_simps)
  show "dir_find small_fs 0 nm = None" by (simp add: dir_find_def dirents_def small_simps)
qed

theorem balloc_bfree_witness:
  "\<exists>a s'. balloc small_fs = Ok (a, s') \<and> data_blk (fsb small_fs) a \<and> \<not> used small_fs a \<and> (\<exists>s''. bfree a s' = Ok s'')"
  using balloc_bfree [OF small_fs_ok, of 5] by (auto simp: small_simps small_used)

theorem dinode_roundtrip_witness:
  "load_dinode 64 (store_dinode 64 (ino small_fs 0) (replicate BSIZE 0)) (ino small_fs 0) = ino small_fs 0"
  using dinode_roundtrip [of 64 "replicate BSIZE 0" "ino small_fs 0" "ino small_fs 0"]
  by (simp add: BSIZE_def DINODE_SIZE_def small_simps)

text \<open>A first write of up to one block returns when a block is free.\<close>

lemma first_write_returns:
  assumes ok: "fs_ok s" and i: "inode_ok s ip" and inum: "i_inum (ino s ip) < sb_ninodes (fsb s)"
    and t: "i_type (ino s ip) \<noteq> T_DEV" and c: "c < sb_size (fsb s)" "\<not> used s c"
    and src: "src \<noteq> []" "length src \<le> BSIZE"
  shows "\<exists>s'. writei devw ip src 0 s = Ok (int (length src), s')"
proof -
  have bnd: "0 < MAXFILE" "length src \<le> MAXFILE * BSIZE" using src(2) by (auto simp: MAXFILE_def NDIRECT_def NINDIRECT_def BSIZE_def)
  obtain a s1 where al: "balloc s = Ok (a, s1)"
    using balloc_loop_finds [OF ok _ _ c, of 0] by (auto simp: balloc_def)
  then have "\<exists>b s2. bmap ip 0 s = Ok (b, s2)"
    by (cases "i_addrs (ino s ip) ! 0 = 0") (simp_all add: bmap_def NDIRECT_def Let_def)
  then obtain b s2 where b: "bmap ip 0 s = Ok (b, s2)" by blast
  have B: "grows ip s s2" "faddr s2 ip 0 = b" "b \<noteq> 0" using bmap_Ok [OF ok i bnd(1) b] by blast+
  note G = growsD [OF B(1)]
  have fb: "b < length (fblocks s2)" using faddr_block(1) [OF G(1,2) bnd(1)] B(2,3) by simp
  let ?s3 = "wr b (put_bytes 0 src (fblocks s2 ! b)) s2"
  have dl: "length (put_bytes 0 src (fblocks s2 ! b)) = BSIZE"
    using faddr_block(2) [OF G(1,2) bnd(1)] B(2,3) src(2) by simp
  have "writei_loop ip 0 src s = Ok (length src, ?s3)"
    using src b fb writei_loop.simps [of ip "length src" "[]"]
    by (simp add: writei_loop.simps [of ip 0 src s] rd_def Let_def BSIZE_def min_absorb1)
  moreover have e: "edits ip s ?s3"
    using edits_trans [OF grows_edits [OF B(1)] data_write(1) [OF G(1,2) bnd(1) _ dl]] B(2,3) by simp
  have m: "i_inum (ino ?s3 ip) = i_inum (ino s ip)" "i_size (ino ?s3 ip) = i_size (ino s ip)" "fsb ?s3 = fsb s"
    using editsD(3) [OF e] by (auto simp: same_meta_def)
  let ?s4 = "set_ino ip ((ino ?s3 ip)\<lparr>i_size := length src\<rparr>) ?s3"
  have ip: "ip < length (icache ?s3)" by (rule inode_okD(1) [OF editsD(2) [OF e]])
  have a4: "i_addrs (ino ?s4 ip) = i_addrs (ino ?s3 ip)" using ip by (simp add: ino_set_ino)
  have ok4: "fs_ok ?s4" using editsD(1) [OF e] by simp
  have i4: "inode_ok ?s4 ip" by (rule view_cong(2) [OF editsD(2) [OF e]]) (use a4 in simp_all)
  have "i_inum (ino ?s4 ip) < sb_ninodes (fsb ?s4)" using inum m ip by (simp add: ino_set_ino)
  from iupdate_ok [OF ok4 i4 this] have "\<exists>s5. iupdate ip ?s4 = Ok s5" by blast
  moreover have "length src mod 2 ^ 32 = length src" using src(2) by (simp add: BSIZE_def)
  ultimately show ?thesis using t bnd(2) by (auto simp: writei_def Let_def)
qed

theorem writei_readi_witness:
  "\<exists>s'. writei (\<lambda>_. None) 0 [104, 105] 0 small_fs = Ok (2, s') \<and> readi (\<lambda>_. None) 0 0 2 s' = Ok (2, [104, 105], s')"
proof -
  have n: "i_inum (ino small_fs 0) < sb_ninodes (fsb small_fs)" "i_type (ino small_fs 0) \<noteq> T_DEV"
    by (simp_all add: small_simps T_DIR_def T_DEV_def)
  have c: "5 < sb_size (fsb small_fs)" "\<not> used small_fs 5" by (simp_all add: small_simps small_used)
  obtain s' where w: "writei (\<lambda>_. None) 0 [104, 105] 0 small_fs = Ok (2, s')"
    using first_write_returns [OF small_fs_ok small_dir(2) n c, of "[104, 105]"] by (auto simp: BSIZE_def)
  have "0 + length [104, 105 :: byte] \<le> MAXFILE * BSIZE" by (simp add: MAXFILE_def NDIRECT_def BSIZE_def)
  from writei_readi [OF small_fs_ok small_dir(2) n _ this w, of "\<lambda>_. None"] w show ?thesis by (auto simp: numeral_2_eq_2)
qed

theorem dirlink_adds_name_witness:
  "\<exists>s'. dirlink (\<lambda>_. None) (\<lambda>_. None) 1 0 [97] 7 small_fs = Ok (0, s') \<and> dir_find s' 0 [97] = Some 7 \<and> dir_find s' 0 [98] = None"
proof -
  have n: "i_inum (ino small_fs 0) < sb_ninodes (fsb small_fs)" "i_type (ino small_fs 0) \<noteq> T_DEV"
    by (simp_all add: small_simps T_DIR_def T_DEV_def)
  have c: "5 < sb_size (fsb small_fs)" "\<not> used small_fs 5" by (simp_all add: small_simps small_used)
  have ml: "mk_dirent 7 [97] \<noteq> []" "length (mk_dirent 7 [97]) \<le> BSIZE"
    by (simp_all add: mk_dirent_def le16_def DIRSIZ_def BSIZE_def)
  obtain s' where w: "writei (\<lambda>_. None) 0 (mk_dirent 7 [97]) 0 small_fs = Ok (int DIRENT_SIZE, s')"
    using first_write_returns [OF small_fs_ok small_dir(2) n c ml] by auto
  have "dirlookup (\<lambda>_. None) 0 [97] small_fs = Ok (None, small_fs)"
    using dirlookup_finds [OF small_dir(1)] by (simp add: dirents_def small_simps)
  moreover have "empty_dirent_loop (\<lambda>_. None) 0 0 0 small_fs = Ok (0, small_fs)" by (simp add: empty_dirent_loop.simps)
  ultimately have l: "dirlink (\<lambda>_. None) (\<lambda>_. None) 1 0 [97] 7 small_fs = Ok (0, s')"
    using w by (simp add: dirlink_def small_simps(7))
  from dirlink_adds_name [OF small_dir(1) small_dir(4) _ _ l] l small_dir(4) [of "[98]"] show ?thesis
    by (auto simp: key_def DIRSIZ_def)
qed

theorem iget_shares_entry_witness:
  "\<exists>s'. iget 1 1 small_fs = Ok (0, s') \<and> iget 1 1 s' = Ok (0, idup 0 s')"
proof -
  have ok: "icache_ok small_fs" by (simp add: icache_ok_def small_simps)
  have "find_index (\<lambda>i. 0 < i_ref i \<and> i_dev i = 1 \<and> i_inum i = 1) (icache small_fs) = Some 0"
    by (simp add: small_fs_def)
  then obtain s' where g: "iget 1 1 small_fs = Ok (0, s')" by (auto simp: iget_def)
  from iget_shares_entry [OF ok g] g show ?thesis by blast
qed

subsection \<open>The blocks are those of the log\<close>

definition view :: "superblock \<Rightarrow> inode list \<Rightarrow> io \<Rightarrow> fsys" where
  "view sb ic s = \<lparr>fblocks = map (content s) [0..<length (disk s)], fsb = sb, icache = ic\<rparr>"

text \<open>C26: The file system sees the log as plain blocks.  Inside a transaction, the sequence read, modify,
  \<^verbatim>\<open>log_write\<close>, release of \<^verbatim>\<open>log.c\<close> and \<^verbatim>\<open>bio.c\<close> on a block outside the log is, in the view of
  \<^verbatim>\<open>fs.c\<close>, the replacement of that block by its modified contents; the disk itself is not written.\<close>

theorem refines_log:
  assumes "log_inv l s" "quiet s" "data_block l s bn" "length (lh l) + 1 < lsize l" "1 \<le> outstanding l"
    and "\<And>d. length d = BSIZE \<Longrightarrow> length (f d) = BSIZE" "length (content s bn) = BSIZE"
  shows "\<exists>d s'. rd bn (view sb ic s) = Ok d \<and> update_block pid bn f l s = Ok (l\<lparr>lh := absorb bn (lh l)\<rparr>, s')
    \<and> view sb ic s' = wr bn (f d) (view sb ic s) \<and> disk s' = disk s"
proof -
  obtain s' where s': "update_block pid bn f l s = Ok (l\<lparr>lh := absorb bn (lh l)\<rparr>, s')"
    "content s' = (content s)(bn := f (content s bn))" "disk s' = disk s"
    using update_block_ok [OF assms(1-5), of f pid] assms(6,7) by blast
  have bn: "bn < length (disk s)" using assms(3) by (simp add: data_block_def)
  have "view sb ic s' = wr bn (f (content s bn)) (view sb ic s)"
    using bn by (auto simp: view_def wr_def s' intro!: nth_equalityI simp: nth_list_update)
  then show ?thesis using s' bn by (auto simp: rd_def view_def)
qed

theorem refines_log_witness:
  "\<exists>d s'. rd 4 (view (fsb small_fs) [] (binit sample_disk)) = Ok d
    \<and> update_block 1 4 rev ((log_at 2 2 [])\<lparr>outstanding := 1\<rparr>) (binit sample_disk) = Ok ((log_at 2 2 [4])\<lparr>outstanding := 1\<rparr>, s')
    \<and> view (fsb small_fs) [] s' = wr 4 (rev d) (view (fsb small_fs) [] (binit sample_disk))"
proof -
  let ?l = "(log_at 2 2 [])\<lparr>outstanding := 1\<rparr>"
  have d: "disk (binit sample_disk) = sample_disk" "length sample_disk = 5"
    by (simp_all add: binit_def sample_disk_def)
  have i: "log_inv ?l (binit sample_disk)" using sample_disk_log(1) by (simp add: log_inv_def)
  have b: "data_block ?l (binit sample_disk) 4" by (simp add: data_block_def log_at_def outside_def d)
  have "content (binit sample_disk) 4 = sample_disk ! 4"
    using disk_clean [OF sample_disk_log(2), of 4] sample_disk_log(1) d(1) by (simp add: log_inv_def log_at_def)
  then have "length (content (binit sample_disk) 4) = BSIZE" by (simp add: sample_disk_def)
  from refines_log [OF i sample_disk_log(2) b _ _ _ this, where f = rev and pid = 1 and sb = "fsb small_fs" and ic = "[]"] show ?thesis
    by (fastforce simp: log_at_def absorb_def)
qed

end
