(* ===== verification/Console.thy ===== *)
theory Console
  imports Printf Locks Fs
begin

text \<open>
  The console of the xv6 kernel: \<^verbatim>\<open>p4/console.c\<close>, \<^verbatim>\<open>p4/kbd.c\<close> with the tables of \<^verbatim>\<open>kbd.h\<close>, and
  \<^verbatim>\<open>uartputc\<close> and \<^verbatim>\<open>uartgetc\<close> of \<^verbatim>\<open>p4/uart.c\<close>.  The devices are the part of the state the code can
  see: the text cells and the cursor register of the display, the bytes sent to the serial port,
  and, for the keyboard, the list of scan codes waiting in the controller.  A call that spins for
  ever because the machine has panicked, or that has to sleep, is \<open>Wait\<close> or a result \<open>None\<close>.
\<close>

definition BACKSPACE :: int where "BACKSPACE = 0x100"
definition INPUT_BUF :: nat where "INPUT_BUF = 128"

record input =
  ibuf :: "byte list"
  ir :: u32
  iw :: u32
  ie :: u32

record console =
  cons_lock :: spinlock
  cons_locking :: bool
  panicked :: bool
  uart :: bool
  com1 :: "byte list"
  crt :: "u16 list"
  crtc :: u16
  inp :: input

subsection \<open>Output\<close>

text \<open>The wait for the transmitter in \<^verbatim>\<open>uartputc\<close> gives up after 128 rounds and leaves no trace.\<close>

definition uartputc :: "int \<Rightarrow> console \<Rightarrow> console" where
  "uartputc c s = (if \<not> uart s then s else s\<lparr>com1 := com1 s @ [word_of_int c]\<rparr>)"

text \<open>The scrolled screen: 23 rows move up, and the cells from the cursor to the end of row 23
  are cleared.\<close>

definition scroll_up :: "nat \<Rightarrow> u16 list \<Rightarrow> u16 list" where
  "scroll_up pos cs =
     (let cs = take (23 * 80) (drop 80 cs) @ drop (23 * 80) cs
      in take pos cs @ replicate (24 * 80 - pos) 0 @ drop (24 * 80) cs)"

definition cgaputc :: "int \<Rightarrow> console \<Rightarrow> console outcome" where
  "cgaputc c s =
     (let pos = uint (crtc s);
          (pos, cells) =
            (if c = 10 then (pos + (80 - pos mod 80), crt s)
             else if c = BACKSPACE then (if pos > 0 then pos - 1 else pos, crt s)
             else (pos + 1, (crt s)[nat pos := word_of_int (c AND 0xff) OR 0x0700]))
      in if pos < 0 \<or> pos > 25 * 80 then Panic ''pos under/overflow''
         else let (pos, cells) =
                (if pos div 80 \<ge> 24 then (pos - 80, scroll_up (nat (pos - 80)) cells) else (pos, cells))
              in Ok (s\<lparr>crtc := word_of_int pos, crt := cells[nat pos := 0x0720]\<rparr>))"

definition consputc :: "int \<Rightarrow> console \<Rightarrow> console outcome" where
  "consputc c s =
     (if panicked s then Wait
      else let s = (if c = BACKSPACE then uartputc 8 (uartputc 32 (uartputc 8 s)) else uartputc c s)
           in cgaputc c s)"

fun consputs :: "int list \<Rightarrow> console \<Rightarrow> console outcome" where
  "consputs [] s = Ok s"
| "consputs (c # cs) s = and_then (consputc c s) (consputs cs)"

text \<open>A call that runs with the console lock held.\<close>

definition with_lock :: "nat \<Rightarrow> u32 list \<Rightarrow> (console \<Rightarrow> ('a \<times> console) outcome) \<Rightarrow> cpu \<Rightarrow> console
    \<Rightarrow> ('a \<times> cpu \<times> console) outcome" where
  "with_lock me pcs body c s =
     and_then (acquire me pcs (cons_lock s) c) (\<lambda>(lk, c).
     and_then (body (s\<lparr>cons_lock := lk\<rparr>)) (\<lambda>(x, s).
     and_then (release me (cons_lock s) c) (\<lambda>(lk, c).
       Ok (x, c, s\<lparr>cons_lock := lk\<rparr>))))"

definition consolewrite :: "nat \<Rightarrow> u32 list \<Rightarrow> nat \<Rightarrow> nat \<Rightarrow> byte list \<Rightarrow> int \<Rightarrow> cpu \<Rightarrow> console \<Rightarrow> fsys
    \<Rightarrow> (int \<times> cpu \<times> console \<times> fsys) outcome" where
  "consolewrite me pcs pid ip buf n c s f =
     and_then (iunlock pid ip f) (\<lambda>f.
     and_then (with_lock me pcs (\<lambda>s. and_then (consputs (map uint (take (nat n) buf)) s) (\<lambda>s. Ok ((), s))) c s)
       (\<lambda>(u, c, s). and_then (ilock pid ip f) (\<lambda>f. Ok (n, c, s, f))))"

subsection \<open>Formatted output of the kernel\<close>

definition kdigits :: "byte list" where
  "kdigits = [48, 49, 50, 51, 52, 53, 54, 55, 56, 57, 97, 98, 99, 100, 101, 102]"

partial_function (option) kdigit_loop :: "nat \<Rightarrow> nat \<Rightarrow> byte list \<Rightarrow> byte list option" where
  "kdigit_loop base x buf =
     (let buf = buf @ [kdigits ! (x mod base)]; x = x div base in
      if x \<noteq> 0 then kdigit_loop base x buf else Some buf)"

definition kprintint :: "u32 \<Rightarrow> nat \<Rightarrow> bool \<Rightarrow> byte list option" where
  "kprintint xx base sg =
     (let neg = (sg \<and> sint xx < 0);
          x = (if neg then - xx else xx)
      in map_option (\<lambda>buf. rev (if neg then buf @ [45] else buf)) (kdigit_loop base (unat x) []))"

text \<open>The text of one conversion as the arguments of \<^verbatim>\<open>consputc\<close>: characters taken through a \<^verbatim>\<open>char\<close>
  are sign-extended.\<close>

definition kconvert :: "mem \<Rightarrow> u32 \<Rightarrow> byte \<Rightarrow> (int list \<times> bool) option" where
  "kconvert m arg c =
     (if c = 100 then map_option (\<lambda>t. (map sint t, True)) (kprintint arg 10 True)
      else if c = 120 \<or> c = 112 then map_option (\<lambda>t. (map sint t, True)) (kprintint arg 16 False)
      else if c = 115
      then map_option (\<lambda>t. (map sint t, True)) (if arg = 0 then Some null_text else puts_loop m (unat arg) [])
      else if c = 99 then Some ([sint (ucast arg :: byte)], True)
      else if c = 37 then Some ([37], False)
      else Some ([37, uint c], False))"

text \<open>The loop over the format, given as the characters before its NUL; a format that ends in
  \<^verbatim>\<open>%\<close> stops there.\<close>

fun cprintf_loop :: "mem \<Rightarrow> (nat \<Rightarrow> u32) \<Rightarrow> byte list \<Rightarrow> nat \<Rightarrow> int list option" where
  "cprintf_loop m args [] ap = Some []"
| "cprintf_loop m args [c] ap = Some (if c = 37 then [] else [uint c])"
| "cprintf_loop m args (c # d # fmt) ap =
     (if c \<noteq> 37 then map_option ((#) (uint c)) (cprintf_loop m args (d # fmt) ap)
      else case kconvert m (args ap) d of
        None \<Rightarrow> None
      | Some (out, took) \<Rightarrow>
          map_option ((@) out) (cprintf_loop m args fmt (if took then Suc ap else ap)))"

text \<open>A null format is \<open>None\<close>.\<close>

definition cprintf :: "nat \<Rightarrow> u32 list \<Rightarrow> mem \<Rightarrow> byte list option \<Rightarrow> (nat \<Rightarrow> u32) \<Rightarrow> cpu \<Rightarrow> console
    \<Rightarrow> (cpu \<times> console) outcome" where
  "cprintf me pcs m fmt args c s =
     (let locking = cons_locking s in
      and_then (if locking
                then and_then (holding me (cons_lock s) c) (\<lambda>(h, c).
                       if h then Ok (cons_lock s, c) else acquire me pcs (cons_lock s) c)
                else Ok (cons_lock s, c)) (\<lambda>(lk, c).
      let s = s\<lparr>cons_lock := lk\<rparr> in
      case fmt of None \<Rightarrow> Panic ''null fmt''
      | Some fmt \<Rightarrow>
          (case cprintf_loop m args fmt 0 of None \<Rightarrow> Wait
           | Some text \<Rightarrow>
               and_then (consputs text s) (\<lambda>s.
                 if locking
                 then and_then (release me (cons_lock s) c) (\<lambda>(lk, c). Ok (c, s\<lparr>cons_lock := lk\<rparr>))
                 else Ok (c, s)))))"

definition bytes_of :: "string \<Rightarrow> byte list" where
  "bytes_of s = map of_char s"

fun print_pcs :: "nat \<Rightarrow> mem \<Rightarrow> u32 list \<Rightarrow> cpu \<times> console \<Rightarrow> (cpu \<times> console) outcome" where
  "print_pcs me m [] x = Ok x"
| "print_pcs me m (pc # pcs) x =
     and_then (cprintf me [] m (Some (bytes_of '' %p'')) (\<lambda>_. pc) (fst x) (snd x)) (print_pcs me m pcs)"

text \<open>The console when \<^verbatim>\<open>panic\<close> has printed its message and goes into its endless loop; \<open>pcs\<close> is
  what \<^verbatim>\<open>getcallerpcs\<close> found, \<open>stk\<close> the stack words a conversion in the message would print.\<close>

definition panic_state :: "nat \<Rightarrow> mem \<Rightarrow> (nat \<Rightarrow> u32) \<Rightarrow> u32 \<Rightarrow> byte list \<Rightarrow> u32 list \<Rightarrow> cpu
    \<Rightarrow> console \<Rightarrow> (cpu \<times> console) outcome" where
  "panic_state me m stk lapicid msg pcs c s =
     (let c = c\<lparr>eif := False\<rparr>; s = s\<lparr>cons_locking := False\<rparr> in
      and_then (cprintf me [] m (Some (bytes_of ''lapicid %d: panic: '')) (\<lambda>_. lapicid) c s) (\<lambda>(c, s).
      and_then (cprintf me [] m (Some msg) stk c s) (\<lambda>(c, s).
      and_then (cprintf me [] m (Some [10]) stk c s) (\<lambda>(c, s).
      and_then (print_pcs me m (take 10 pcs) (c, s)) (\<lambda>(c, s).
        Ok (c, s\<lparr>panicked := True\<rparr>))))))"


lemma uartputc_keeps [simp]:
  "inp (uartputc c s) = inp s" "crt (uartputc c s) = crt s" "crtc (uartputc c s) = crtc s"
  "panicked (uartputc c s) = panicked s" "cons_lock (uartputc c s) = cons_lock s"
  "cons_locking (uartputc c s) = cons_locking s" "uart (uartputc c s) = uart s"
  by (simp_all add: uartputc_def)

lemma cgaputc_keeps:
  assumes "cgaputc c s = Ok s'"
  shows "inp s' = inp s" "panicked s' = panicked s" "cons_lock s' = cons_lock s"
    "cons_locking s' = cons_locking s" "uart s' = uart s" "com1 s' = com1 s"
  using assms by (auto simp: cgaputc_def Let_def split: if_splits)

lemma consputc_keeps:
  assumes "consputc c s = Ok s'"
  shows "inp s' = inp s" "panicked s' = panicked s" "cons_lock s' = cons_lock s"
    "cons_locking s' = cons_locking s" "uart s' = uart s"
  using assms by (auto simp: consputc_def Let_def dest: cgaputc_keeps split: if_splits)

subsection \<open>Input\<close>

text \<open>\<^verbatim>\<open>Control-U\<close>: the loop that takes back the characters of the line being edited.\<close>

function kill_line :: "console \<Rightarrow> console outcome" where
  "kill_line s =
     (if ie (inp s) \<noteq> iw (inp s) \<and> ibuf (inp s) ! (unat (ie (inp s) - 1) mod INPUT_BUF) \<noteq> 10
      then and_then (consputc BACKSPACE (s\<lparr>inp := (inp s)\<lparr>ie := ie (inp s) - 1\<rparr>\<rparr>)) kill_line
      else Ok s)"
  by auto

text \<open>One character of \<^verbatim>\<open>consoleintr\<close>: whether the process listing was asked for, whether readers were
  woken, and the console.\<close>

definition consoleintr_char :: "int \<Rightarrow> console \<Rightarrow> (bool \<times> bool \<times> console) outcome" where
  "consoleintr_char c s =
     (let i = inp s in
      if c = 16 then Ok (True, False, s)
      else if c = 21 then and_then (kill_line s) (\<lambda>s. Ok (False, False, s))
      else if c = 8 \<or> c = 0x7f
      then (if ie i \<noteq> iw i
            then and_then (consputc BACKSPACE (s\<lparr>inp := i\<lparr>ie := ie i - 1\<rparr>\<rparr>)) (\<lambda>s. Ok (False, False, s))
            else Ok (False, False, s))
      else if c \<noteq> 0 \<and> ie i - ir i < of_nat INPUT_BUF
      then let c = (if c = 13 then 10 else c);
               i = i\<lparr>ibuf := (ibuf i)[unat (ie i) mod INPUT_BUF := word_of_int c], ie := ie i + 1\<rparr>
           in and_then (consputc c (s\<lparr>inp := i\<rparr>)) (\<lambda>s.
                if c = 10 \<or> c = 4 \<or> ie i = ir i + of_nat INPUT_BUF
                then Ok (False, True, s\<lparr>inp := i\<lparr>iw := ie i\<rparr>\<rparr>)
                else Ok (False, False, s))
      else Ok (False, False, s))"

text \<open>The loop over the results of \<^verbatim>\<open>getc\<close> up to the first negative one.\<close>

fun consoleintr_loop :: "int list \<Rightarrow> console \<Rightarrow> ((bool \<times> bool) \<times> console) outcome" where
  "consoleintr_loop [] s = Ok ((False, False), s)"
| "consoleintr_loop (c # cs) s =
     (if c < 0 then Ok ((False, False), s)
      else and_then (consoleintr_char c s) (\<lambda>(dump, woke, s).
           and_then (consoleintr_loop cs s) (\<lambda>((dump', woke'), s). Ok ((dump \<or> dump', woke \<or> woke'), s))))"

definition consoleintr :: "nat \<Rightarrow> u32 list \<Rightarrow> int list \<Rightarrow> cpu \<Rightarrow> console \<Rightarrow> ((bool \<times> bool) \<times> cpu \<times> console) outcome" where
  "consoleintr me pcs cs c s = with_lock me pcs (consoleintr_loop cs) c s"

text \<open>The loop of \<^verbatim>\<open>consoleread\<close> with \<open>n\<close> bytes still wanted of \<open>target\<close>: the result, \<open>None\<close> when it
  has to sleep, the bytes stored at \<^verbatim>\<open>dst\<close>, the number still wanted and the buffer.\<close>

fun consoleread_loop :: "bool \<Rightarrow> nat \<Rightarrow> nat \<Rightarrow> input \<Rightarrow> (int option \<times> byte list \<times> nat) \<times> input" where
  "consoleread_loop killed target 0 i = ((Some (int target), [], 0), i)"
| "consoleread_loop killed target (Suc n) i =
     (if ir i = iw i then ((if killed then Some (- 1) else None, [], Suc n), i)
      else let c = ibuf i ! (unat (ir i) mod INPUT_BUF); i1 = i\<lparr>ir := ir i + 1\<rparr> in
           if c = 4
           then ((Some (int target - int (Suc n)), [], Suc n),
                 if Suc n < target then i1\<lparr>ir := ir i1 - 1\<rparr> else i1)
           else if c = 10 then ((Some (int target - int n), [c], n), i1)
           else let ((r, bs, m), i2) = consoleread_loop killed target n i1 in ((r, c # bs, m), i2))"

text \<open>A sleeping call has released the console lock and goes on with \<open>consoleread_wait\<close>; the inode
  is locked again only on return.\<close>

definition consoleread_wait :: "nat \<Rightarrow> u32 list \<Rightarrow> nat \<Rightarrow> bool \<Rightarrow> nat \<Rightarrow> nat \<Rightarrow> nat \<Rightarrow> cpu \<Rightarrow> console \<Rightarrow> fsys
    \<Rightarrow> ((int option \<times> byte list \<times> nat) \<times> cpu \<times> console \<times> fsys) outcome" where
  "consoleread_wait me pcs pid killed ip target n c s f =
     and_then (with_lock me pcs (\<lambda>s. let (r, i) = consoleread_loop killed target n (inp s)
                                      in Ok (r, s\<lparr>inp := i\<rparr>)) c s)
       (\<lambda>(r, c, s). if fst r = None then Ok (r, c, s, f)
                    else and_then (ilock pid ip f) (\<lambda>f. Ok (r, c, s, f)))"

definition consoleread :: "nat \<Rightarrow> u32 list \<Rightarrow> nat \<Rightarrow> bool \<Rightarrow> nat \<Rightarrow> int \<Rightarrow> cpu \<Rightarrow> console \<Rightarrow> fsys
    \<Rightarrow> ((int option \<times> byte list \<times> nat) \<times> cpu \<times> console \<times> fsys) outcome" where
  "consoleread me pcs pid killed ip n c s f =
     and_then (iunlock pid ip f) (\<lambda>f. consoleread_wait me pcs pid killed ip (nat n) (nat n) c s f)"

definition consoleinit :: "console \<Rightarrow> console" where
  "consoleinit s = s\<lparr>cons_lock := initlock (cons_lock s) ''console'', cons_locking := True\<rparr>"

termination kill_line
proof (relation "measure (\<lambda>s. unat (ie (inp s) - iw (inp s)))")
  fix s x
  assume ne: "ie (inp s) \<noteq> iw (inp s) \<and> ibuf (inp s) ! (unat (ie (inp s) - 1) mod INPUT_BUF) \<noteq> 10"
    and x: "consputc BACKSPACE (s\<lparr>inp := (inp s)\<lparr>ie := ie (inp s) - 1\<rparr>\<rparr>) = Ok x"
  have "ie (inp x) = ie (inp s) - 1" "iw (inp x) = iw (inp s)" using consputc_keeps(1) [OF x] by auto
  moreover have "unat (ie (inp s) - iw (inp s) - 1) < unat (ie (inp s) - iw (inp s))"
    using ne by (simp add: unat_minus_one unat_gt_0)
  moreover have "ie (inp s) - 1 - iw (inp s) = ie (inp s) - iw (inp s) - 1" by simp
  ultimately show "(x, s) \<in> measure (\<lambda>s. unat (ie (inp s) - iw (inp s)))"
    by (simp only: in_measure)
qed simp

declare kill_line.simps [simp del]

subsection \<open>Keyboard and serial port\<close>

definition SHIFT :: u32 where "SHIFT = 1"
definition CTL :: u32 where "CTL = 2"
definition ALT :: u32 where "ALT = 4"
definition CAPSLOCK :: u32 where "CAPSLOCK = 8"
definition NUMLOCK :: u32 where "NUMLOCK = 16"
definition SCROLLLOCK :: u32 where "SCROLLLOCK = 32"
definition E0ESC :: u32 where "E0ESC = 64"

text \<open>A table of 256 entries from its leading entries and its designated ones; the rest is 0.\<close>

definition init_table :: "byte list \<Rightarrow> (nat \<times> byte) list \<Rightarrow> byte list" where
  "init_table lead des = foldl (\<lambda>t (i, v). t[i := v]) (lead @ replicate (256 - length lead) 0) des"

definition shiftcode :: "byte list" where
  "shiftcode = init_table [] [(0x1D, ucast CTL), (0x2A, ucast SHIFT), (0x36, ucast SHIFT),
     (0x38, ucast ALT), (0x9D, ucast CTL), (0xB8, ucast ALT)]"

definition togglecode :: "byte list" where
  "togglecode = init_table [] [(0x3A, ucast CAPSLOCK), (0x45, ucast NUMLOCK), (0x46, ucast SCROLLLOCK)]"

text \<open>The designated entries the three character maps share: the keypad and the cursor keys.\<close>

definition cursor_keys :: "(nat \<times> byte) list" where
  "cursor_keys = [(0xC8, 0xE2), (0xD0, 0xE3), (0xC9, 0xE6), (0xD1, 0xE7), (0xCB, 0xE4), (0xCD, 0xE5),
     (0x97, 0xE0), (0xCF, 0xE1), (0xD2, 0xE8), (0xD3, 0xE9)]"

definition normalmap :: "byte list" where
  "normalmap = init_table
     ([0, 0x1B] @ bytes_of ''1234567890-='' @ [8, 9] @ bytes_of ''qwertyuiop[]'' @ [10, 0]
      @ bytes_of ''asdfghjkl;'' @ [39, 96, 0, 92] @ bytes_of ''zxcvbnm,./'' @ [0, 42, 0, 32]
      @ replicate 13 0 @ bytes_of ''789-456+1230.'')
     ([(0x9C, 10), (0xB5, 47)] @ cursor_keys)"

definition shiftmap :: "byte list" where
  "shiftmap = init_table
     ([0, 27] @ bytes_of ''!@#$%^&*()_+'' @ [8, 9] @ bytes_of ''QWERTYUIOP{}'' @ [10, 0]
      @ bytes_of ''ASDFGHJKL:'' @ [34, 126, 0, 124] @ bytes_of ''ZXCVBNM<>?'' @ [0, 42, 0, 32]
      @ replicate 13 0 @ bytes_of ''789-456+1230.'')
     ([(0x9C, 10), (0xB5, 47)] @ cursor_keys)"

definition ctl_of :: "string \<Rightarrow> byte list" where
  "ctl_of s = map (\<lambda>b. b - 64) (bytes_of s)"

definition ctlmap :: "byte list" where
  "ctlmap = init_table
     (replicate 16 0 @ ctl_of ''QWERTYUIOP'' @ [0, 0, 13, 0] @ ctl_of ''ASDFGHJKL'' @ replicate 4 0
      @ [28] @ ctl_of ''ZXCVBNM'' @ [0, 0] @ ctl_of ''/'' @ [0, 0])
     ([(0x9C, 13), (0xB5, 47 - 64)] @ cursor_keys)"

definition charcode :: "byte list list" where
  "charcode = [normalmap, shiftmap, ctlmap, ctlmap]"

text \<open>\<^verbatim>\<open>kbdgetc\<close> with the byte in the controller, \<open>None\<close> when there is none, and the shift state.\<close>

definition kbdgetc :: "byte option \<Rightarrow> u32 \<Rightarrow> int \<times> u32" where
  "kbdgetc port shift =
     (case port of None \<Rightarrow> (- 1, shift)
      | Some b \<Rightarrow>
         let data = ucast b :: u32 in
         if data = 0xE0 then (0, shift OR E0ESC)
         else if data AND 0x80 \<noteq> 0
         then let data = (if shift AND E0ESC \<noteq> 0 then data else data AND 0x7F)
              in (0, shift AND NOT (ucast (shiftcode ! unat data) OR E0ESC))
         else let (data, shift) =
                (if shift AND E0ESC \<noteq> 0 then (data OR 0x80, shift AND NOT E0ESC) else (data, shift));
                shift = shift OR ucast (shiftcode ! unat data);
                shift = shift XOR ucast (togglecode ! unat data);
                c = uint ((charcode ! unat (shift AND (CTL OR SHIFT))) ! unat data);
                c = (if shift AND CAPSLOCK \<noteq> 0
                     then (if 97 \<le> c \<and> c \<le> 122 then c - 32
                           else if 65 \<le> c \<and> c \<le> 90 then c + 32 else c)
                     else c)
              in (c, shift))"

text \<open>What \<^verbatim>\<open>getc\<close> gives for the scan codes waiting in the controller, and the shift state left.\<close>

fun kbd_chars :: "byte list \<Rightarrow> u32 \<Rightarrow> int list \<times> u32" where
  "kbd_chars [] shift = (let (c, shift) = kbdgetc None shift in ([c], shift))"
| "kbd_chars (b # bs) shift =
     (let (c, shift) = kbdgetc (Some b) shift; (cs, shift) = kbd_chars bs shift in (c # cs, shift))"

definition kbdintr :: "nat \<Rightarrow> u32 list \<Rightarrow> byte list \<Rightarrow> u32 \<Rightarrow> cpu \<Rightarrow> console
    \<Rightarrow> (u32 \<times> (bool \<times> bool) \<times> cpu \<times> console) outcome" where
  "kbdintr me pcs codes shift c s =
     (let (cs, shift) = kbd_chars codes shift
      in and_then (consoleintr me pcs cs c s) (\<lambda>(r, c, s). Ok (shift, r, c, s)))"

definition uartgetc :: "bool \<Rightarrow> byte option \<Rightarrow> int" where
  "uartgetc present port =
     (if \<not> present then - 1 else case port of None \<Rightarrow> - 1 | Some b \<Rightarrow> uint b)"

definition uartintr :: "nat \<Rightarrow> u32 list \<Rightarrow> byte list \<Rightarrow> cpu \<Rightarrow> console
    \<Rightarrow> ((bool \<times> bool) \<times> cpu \<times> console) outcome" where
  "uartintr me pcs bs c s =
     consoleintr me pcs (map (uartgetc (uart s)) (map Some bs @ [None])) c s"


subsection \<open>The screen\<close>

text \<open>The cursor stays in the first 24 of the 25 rows.\<close>

definition screen_ok :: "console \<Rightarrow> bool" where
  "screen_ok s \<longleftrightarrow> length (crt s) = 25 * 80 \<and> unat (crtc s) < 24 * 80"

lemma length_scroll_up: "length cs = 2000 \<Longrightarrow> pos \<le> 1920 \<Longrightarrow> length (scroll_up pos cs) = 2000"
  by (simp add: scroll_up_def Let_def)

lemma next_row: "0 \<le> p \<Longrightarrow> p < 1920 \<Longrightarrow> p + (80 - p mod 80) \<le> (1920::int)"
  by presburger

text \<open>Where the cursor goes and what the cells hold before a possible scroll.\<close>

lemma cgaputc_ok:
  assumes "screen_ok s"
  shows "\<exists>s'. cgaputc c s = Ok s' \<and> screen_ok s'"
proof -
  define p where "p = uint (crtc s)"
  have "unat (crtc s) < 1920" and len: "length (crt s) = 2000"
    using assms by (simp_all add: screen_ok_def)
  then have p: "0 \<le> p" "p < 1920"
    using uint_nat [of "crtc s"] unfolding p_def by linarith+
  define q where "q = (if c = 10 then p + (80 - p mod 80)
      else if c = BACKSPACE then (if p > 0 then p - 1 else p) else p + 1)"
  define cells where "cells = (if c = 10 \<or> c = BACKSPACE then crt s
      else (crt s)[nat p := word_of_int (c AND 0xff) OR 0x0700])"
  have q: "0 \<le> q" "q \<le> 1920" using p next_row [OF p] by (auto simp: q_def)
  have lc: "length cells = 2000" using len by (simp add: cells_def)
  define q' where "q' = (if q div 80 \<ge> 24 then q - 80 else q)"
  define cells' where "cells' = (if q div 80 \<ge> 24 then scroll_up (nat (q - 80)) cells else cells)"
  have q': "0 \<le> q'" "q' < 1920" using q by (auto simp: q'_def)
  have lc': "length cells' = 2000" using lc q by (simp add: cells'_def length_scroll_up)
  have "cgaputc c s = Ok (s\<lparr>crtc := word_of_int q', crt := cells'[nat q' := 0x0720]\<rparr>)"
  proof -
    have 1: "(if c = 10 then (p + (80 - p mod 80), crt s)
             else if c = BACKSPACE then (if p > 0 then p - 1 else p, crt s)
             else (p + 1, (crt s)[nat p := word_of_int (c AND 0xff) OR 0x0700])) = (q, cells)"
      by (simp add: q_def cells_def)
    have 2: "(if q div 80 \<ge> 24 then (q - 80, scroll_up (nat (q - 80)) cells) else (q, cells)) = (q', cells')"
      by (simp add: q'_def cells'_def)
    have 3: "\<not> (q < 0 \<or> q > 25 * 80)" using q by simp
    show ?thesis
      unfolding cgaputc_def Let_def p_def [symmetric] 1 prod.case if_not_P [OF 3] 2 ..
  qed
  moreover have "unat (word_of_int q' :: u16) = nat q'"
    using q' by (simp add: uint_word_of_int flip: nat_uint_eq)
  ultimately show ?thesis using q' lc' by (simp add: screen_ok_def nat_less_iff)
qed

lemma screen_ok_uartputc [simp]: "screen_ok (uartputc c s) = screen_ok s"
  by (simp add: screen_ok_def)

lemma screen_ok_inp [simp]: "screen_ok (s\<lparr>inp := i\<rparr>) = screen_ok s"
  by (simp add: screen_ok_def)

lemma screen_ok_lock [simp]: "screen_ok (s\<lparr>cons_lock := lk\<rparr>) = screen_ok s"
  by (simp add: screen_ok_def)

definition console_ok :: "console \<Rightarrow> bool" where
  "console_ok s \<longleftrightarrow> \<not> panicked s \<and> screen_ok s"

lemma console_ok_upd [simp]:
  "console_ok (s\<lparr>inp := i\<rparr>) = console_ok s" "console_ok (s\<lparr>cons_lock := lk\<rparr>) = console_ok s"
  by (simp_all add: console_ok_def)

text \<open>The bytes the serial port gets for one character.\<close>

definition serial_of :: "int \<Rightarrow> byte list" where
  "serial_of c = (if c = BACKSPACE then [8, 32, 8] else [word_of_int c])"

lemma consputc_ok:
  assumes "console_ok s"
  shows "\<exists>s'. consputc c s = Ok s' \<and> console_ok s' \<and> inp s' = inp s \<and> cons_lock s' = cons_lock s
    \<and> cons_locking s' = cons_locking s \<and> uart s' = uart s
    \<and> com1 s' = com1 s @ (if uart s then serial_of c else [])"
proof -
  define s1 where "s1 = (if c = BACKSPACE then uartputc 8 (uartputc 32 (uartputc 8 s)) else uartputc c s)"
  have "screen_ok s1" using assms by (simp add: s1_def console_ok_def)
  then obtain s' where s': "cgaputc c s1 = Ok s'" "screen_ok s'" using cgaputc_ok by blast
  have e: "consputc c s = Ok s'" using assms s'(1) by (simp add: consputc_def console_ok_def s1_def)
  have "com1 s' = com1 s1" by (rule cgaputc_keeps(6) [OF s'(1)])
  also have "\<dots> = com1 s @ (if uart s then serial_of c else [])"
    by (simp add: s1_def uartputc_def serial_of_def)
  finally show ?thesis
    using e s'(2) consputc_keeps [OF e] assms by (simp add: console_ok_def)
qed

lemma consputs_ok:
  assumes "console_ok s"
  shows "\<exists>s'. consputs cs s = Ok s' \<and> console_ok s' \<and> inp s' = inp s \<and> cons_lock s' = cons_lock s
    \<and> cons_locking s' = cons_locking s \<and> uart s' = uart s
    \<and> com1 s' = com1 s @ (if uart s then concat (map serial_of cs) else [])"
  using assms
proof (induction cs arbitrary: s)
  case (Cons c cs)
  from consputc_ok [OF Cons.prems, of c] obtain s1 where s1: "consputc c s = Ok s1" "console_ok s1"
    "inp s1 = inp s" "cons_lock s1 = cons_lock s" "cons_locking s1 = cons_locking s" "uart s1 = uart s"
    "com1 s1 = com1 s @ (if uart s then serial_of c else [])" by blast
  from Cons.IH [OF s1(2)] s1 show ?case by auto
qed simp

text \<open>What a body run under the console lock gives when the lock is free.\<close>

definition freed :: "u32 list \<Rightarrow> spinlock \<Rightarrow> spinlock" where
  "freed pcs lk = lk\<lparr>sl_locked := False, sl_cpu := None, sl_pcs := pcs[0 := 0]\<rparr>"

definition after_cli :: "cpu \<Rightarrow> cpu" where
  "after_cli c = c\<lparr>intena := (if ncli c = 0 then eif c else intena c)\<rparr>"

lemma after_cli_keeps [simp]: "eif (after_cli c) = eif c" "ncli (after_cli c) = ncli c"
  "cpu_ok (after_cli c) = cpu_ok c"
  by (simp_all add: after_cli_def cpu_ok_def)

lemma with_lock_Ok:
  assumes "cpu_ok c" "\<not> sl_locked (cons_lock s)"
    and body: "body (s\<lparr>cons_lock := lk\<rparr>) = Ok (x, s'\<lparr>cons_lock := lk\<rparr>)"
    and lk: "lk = (cons_lock s)\<lparr>sl_locked := True, sl_cpu := Some me, sl_pcs := pcs\<rparr>"
  shows "with_lock me pcs body c s = Ok (x, after_cli c, s'\<lparr>cons_lock := freed pcs (cons_lock s)\<rparr>)"
proof -
  have ok1: "cpu_ok (pushcli c)" and pos: "0 < ncli (pushcli c)"
    using assms(1) by (auto simp: cpu_ok_def pushcli_def)
  have "release me lk (pushcli c) = Ok (freed pcs (cons_lock s), after_cli c)"
    by (simp add: release_def holding_simp [OF ok1 pos] popcli_pushcli [OF assms(1)] lk freed_def after_cli_def)
  then show ?thesis
    using body assms(2) by (simp add: with_lock_def acquire_eq [OF assms(1)] lk [symmetric])
qed


subsection \<open>The input ring\<close>

text \<open>The characters between two free-running indices of the ring.\<close>

definition span :: "byte list \<Rightarrow> u32 \<Rightarrow> u32 \<Rightarrow> byte list" where
  "span buf a b = map (\<lambda>i. buf ! (unat (a + of_nat i) mod INPUT_BUF)) [0..<unat (b - a)]"

lemma length_span [simp]: "length (span buf a b) = unat (b - a)"
  by (simp add: span_def)

lemma span_same [simp]: "span buf a a = []"
  by (simp add: span_def)

lemma word_step:
  fixes a b :: u32
  assumes "b \<noteq> a"
  shows "unat (b - a) = Suc (unat (b - (a + 1)))" "unat (b - a) = Suc (unat (b - 1 - a))"
proof -
  have "unat (b - a - 1) = unat (b - a) - 1" "0 < unat (b - a)"
    using assms by (simp_all add: unat_minus_one unat_gt_0)
  then have "unat (b - a) = Suc (unat (b - a - 1))" by linarith
  moreover have "b - (a + 1) = b - a - 1" "b - 1 - a = b - a - 1" by simp_all
  ultimately show "unat (b - a) = Suc (unat (b - (a + 1)))" "unat (b - a) = Suc (unat (b - 1 - a))"
    by (simp_all only:)
qed

lemma span_Cons: "b \<noteq> a \<Longrightarrow> span buf a b = buf ! (unat a mod INPUT_BUF) # span buf (a + 1) b"
  by (simp add: span_def word_step(1) map_upt_Suc add.assoc del: upt_Suc)

lemma span_snoc:
  assumes "b \<noteq> a"
  shows "span buf a b = span buf a (b - 1) @ [buf ! (unat (b - 1) mod INPUT_BUF)]"
proof -
  have "a + of_nat (unat (b - 1 - a)) = b - 1" by simp
  then show ?thesis by (simp add: span_def word_step(2) [OF assms])
qed

lemma span_nth: "i < unat (b - a) \<Longrightarrow> span buf a b ! i = buf ! (unat (a + of_nat i) mod INPUT_BUF)"
  by (simp add: span_def)

text \<open>Two indices less than a ring apart name different cells.\<close>

lemma ring_cells:
  assumes "i < k" "k < INPUT_BUF"
  shows "unat (a + of_nat i :: u32) mod INPUT_BUF \<noteq> unat (a + of_nat k :: u32) mod INPUT_BUF"
proof -
  have r: "unat (a + of_nat i :: u32) mod INPUT_BUF = (unat a + i) mod INPUT_BUF" for i
  proof -
    have "unat (a + of_nat i :: u32) = (unat a + i) mod 2 ^ 32"
      by (simp add: unat_word_ariths unat_of_nat mod_simps)
    moreover have "(128::nat) dvd 2 ^ 32" by (simp add: dvd_def)
    ultimately show ?thesis by (simp add: INPUT_BUF_def mod_mod_cancel)
  qed
  show ?thesis
  proof
    assume "unat (a + of_nat i :: u32) mod INPUT_BUF = unat (a + of_nat k :: u32) mod INPUT_BUF"
    then have "INPUT_BUF dvd k - i"
      unfolding r using assms(1) by (metis add_diff_cancel_left less_imp_le add_le_cancel_left mod_eq_dvd_iff_nat)
    then show False using assms by (auto dest: dvd_imp_le)
  qed
qed

lemma span_update:
  assumes "unat (b - a) \<le> unat (e - a)" "unat (e - a) < INPUT_BUF"
  shows "span (buf[unat e mod INPUT_BUF := c]) a b = span buf a b"
proof (rule nth_equalityI)
  fix i assume "i < length (span (buf[unat e mod INPUT_BUF := c]) a b)"
  then have i: "i < unat (b - a)" by simp
  have "e = a + of_nat (unat (e - a))" by simp
  then have "unat (a + of_nat i :: u32) mod INPUT_BUF \<noteq> unat e mod INPUT_BUF"
    using ring_cells [of i "unat (e - a)" a] i assms by simp
  then show "span (buf[unat e mod INPUT_BUF := c]) a b ! i = span buf a b ! i"
    using i by (simp add: span_nth)
qed simp

text \<open>What readers can take and the line being edited.\<close>

definition committed :: "input \<Rightarrow> byte list" where
  "committed i = span (ibuf i) (ir i) (iw i)"

definition editing :: "input \<Rightarrow> byte list" where
  "editing i = span (ibuf i) (iw i) (ie i)"

definition input_ok :: "input \<Rightarrow> bool" where
  "input_ok i \<longleftrightarrow> length (ibuf i) = INPUT_BUF
     \<and> length (committed i) + length (editing i) \<le> INPUT_BUF
     \<and> (length (committed i) + length (editing i) = INPUT_BUF \<longrightarrow> editing i = [])
     \<and> 10 \<notin> set (editing i) \<and> 4 \<notin> set (editing i)"

lemma input_len: "input_ok i \<Longrightarrow> unat (ie i - ir i) = length (committed i) + length (editing i)"
proof -
  assume ok: "input_ok i"
  have "ie i - ir i = (iw i - ir i) + (ie i - iw i)" by simp
  then have "unat (ie i - ir i) = (unat (iw i - ir i) + unat (ie i - iw i)) mod 2 ^ 32"
    by (simp only: unat_word_ariths) simp
  then show ?thesis using ok by (simp add: input_ok_def INPUT_BUF_def committed_def editing_def)
qed

lemma editing_Nil_iff: "editing i = [] \<longleftrightarrow> ie i = iw i"
  by (metis (no_types, lifting) editing_def length_0_conv length_span right_minus_eq unat_eq_zero)

lemma committed_Nil_iff: "committed i = [] \<longleftrightarrow> ir i = iw i"
  by (metis (no_types, lifting) committed_def length_0_conv length_span right_minus_eq unat_eq_zero)

text \<open>The three ways an interrupt changes the ring, and the way a reader does.\<close>

lemma erase_one:
  assumes "input_ok i" "ie i \<noteq> iw i"
  shows "input_ok (i\<lparr>ie := ie i - 1\<rparr>)" "committed (i\<lparr>ie := ie i - 1\<rparr>) = committed i"
    "editing (i\<lparr>ie := ie i - 1\<rparr>) = butlast (editing i)"
    "editing i = editing (i\<lparr>ie := ie i - 1\<rparr>) @ [ibuf i ! (unat (ie i - 1) mod INPUT_BUF)]"
proof -
  let ?i = "i\<lparr>ie := ie i - 1\<rparr>"
  show e: "editing i = editing ?i @ [ibuf i ! (unat (ie i - 1) mod INPUT_BUF)]"
    using span_snoc [OF assms(2)] by (simp add: editing_def)
  then show "editing ?i = butlast (editing i)" by simp
  show c: "committed ?i = committed i" by (simp add: committed_def)
  have "set (editing ?i) \<subseteq> set (editing i)" "length (editing i) = Suc (length (editing ?i))"
    by (subst e, auto)+
  then show "input_ok ?i" using assms(1) c unfolding input_ok_def by auto
qed

definition put_char :: "byte \<Rightarrow> input \<Rightarrow> input" where
  "put_char b i = i\<lparr>ibuf := (ibuf i)[unat (ie i) mod INPUT_BUF := b], ie := ie i + 1\<rparr>"

lemma put_char_spans:
  assumes "input_ok i" "unat (ie i - ir i) < INPUT_BUF"
  shows "committed (put_char b i) = committed i" "editing (put_char b i) = editing i @ [b]"
proof -
  have c: "unat (iw i - ir i) \<le> unat (ie i - ir i)" "unat (ie i - iw i) \<le> unat (ie i - ir i)"
    using input_len [OF assms(1)] by (simp_all add: committed_def editing_def)
  show "committed (put_char b i) = committed i"
    using span_update [OF c(1) assms(2)] by (simp add: committed_def put_char_def)
  have "editing (put_char b i) = span ((ibuf i)[unat (ie i) mod INPUT_BUF := b]) (iw i) (ie i)
      @ [(ibuf i)[unat (ie i) mod INPUT_BUF := b] ! (unat (ie i) mod INPUT_BUF)]"
  proof -
    have "ie i + 1 \<noteq> iw i"
    proof
      assume "ie i + 1 = iw i"
      then have "ie i - iw i = - 1" by (auto simp flip: \<open>ie i + 1 = iw i\<close>)
      then have "unat (ie i - iw i) = 2 ^ 32 - 1" by (simp add: unsigned_minus_1_eq_mask mask_eq_exp_minus_1)
      then show False using c(2) assms(2) by (simp add: INPUT_BUF_def)
    qed
    from span_snoc [OF this] show ?thesis by (simp add: editing_def put_char_def)
  qed
  moreover have "unat (ie i) mod INPUT_BUF < length (ibuf i)"
    using assms(1) by (simp add: input_ok_def INPUT_BUF_def)
  ultimately show "editing (put_char b i) = editing i @ [b]"
    using span_update [of "ie i" "iw i" "ie i" "ibuf i" b] c(2) assms(2) by (simp add: editing_def)
qed

lemma commit_spans:
  assumes "length (committed i) + length (editing i) \<le> INPUT_BUF"
  shows "committed (i\<lparr>iw := ie i\<rparr>) = committed i @ editing i" "editing (i\<lparr>iw := ie i\<rparr>) = []"
proof -
  have "unat (ie i - ir i) = unat (iw i - ir i) + unat (ie i - iw i)"
  proof -
    have "ie i - ir i = (iw i - ir i) + (ie i - iw i)" by simp
    then have "unat (ie i - ir i) = (unat (iw i - ir i) + unat (ie i - iw i)) mod 2 ^ 32"
      by (simp only: unat_word_ariths) simp
    then show ?thesis using assms by (simp add: INPUT_BUF_def committed_def editing_def)
  qed
  moreover have "ir i + of_nat (unat (iw i - ir i) + k) = iw i + of_nat k" for k by simp
  ultimately show "committed (i\<lparr>iw := ie i\<rparr>) = committed i @ editing i"
    by (intro nth_equalityI) (auto simp: committed_def editing_def span_nth nth_append add.commute
        dest!: less_imp_Suc_add simp flip: of_nat_add)
  show "editing (i\<lparr>iw := ie i\<rparr>) = []" by (simp add: editing_def)
qed

lemma take_one:
  assumes "input_ok i" "ir i \<noteq> iw i"
  shows "input_ok (i\<lparr>ir := ir i + 1\<rparr>)" "editing (i\<lparr>ir := ir i + 1\<rparr>) = editing i"
    "committed i = ibuf i ! (unat (ir i) mod INPUT_BUF) # committed (i\<lparr>ir := ir i + 1\<rparr>)"
proof -
  let ?i = "i\<lparr>ir := ir i + 1\<rparr>"
  show c: "committed i = ibuf i ! (unat (ir i) mod INPUT_BUF) # committed ?i"
    using span_Cons [OF assms(2) [symmetric]] by (simp add: committed_def)
  show e: "editing ?i = editing i" by (simp add: editing_def)
  have "length (committed i) = Suc (length (committed ?i))" by (subst c) simp
  then show "input_ok ?i" using assms(1) e by (simp add: input_ok_def)
qed


subsection \<open>The line editor\<close>

text \<open>The contract of the console towards its readers: committed text, and a line that can still be
  edited.  A character commits the line when it ends it or fills the buffer.\<close>

type_synonym editor = "byte list \<times> byte list"

definition abs_input :: "input \<Rightarrow> editor" where
  "abs_input i = (committed i, editing i)"

fun ed_char :: "int \<Rightarrow> editor \<Rightarrow> editor" where
  "ed_char c (text, line) =
     (if c = 16 then (text, line)
      else if c = 21 then (text, [])
      else if c = 8 \<or> c = 0x7f then (text, butlast line)
      else if c = 0 \<or> INPUT_BUF \<le> length text + length line then (text, line)
      else let b = word_of_int (if c = 13 then 10 else c); line = line @ [b]
           in if b = 10 \<or> b = 4 \<or> length text + length line = INPUT_BUF
              then (text @ line, []) else (text, line))"

fun ed_read :: "bool \<Rightarrow> nat \<Rightarrow> byte list \<Rightarrow> byte list \<times> byte list \<times> bool" where
  "ed_read fresh 0 text = ([], text, True)"
| "ed_read fresh (Suc n) [] = ([], [], False)"
| "ed_read fresh (Suc n) (b # text) =
     (if b = 4 then ([], if fresh then text else b # text, True)
      else if b = 10 then ([b], text, True)
      else let (bs, rest, fin) = ed_read False n text in (b # bs, rest, fin))"

lemma kill_line_ok:
  assumes "console_ok s" "input_ok (inp s)"
  shows "\<exists>s'. kill_line s = Ok s' \<and> console_ok s' \<and> input_ok (inp s') \<and> cons_lock s' = cons_lock s
    \<and> abs_input (inp s') = (committed (inp s), [])"
  using assms
proof (induction "length (editing (inp s))" arbitrary: s)
  case 0
  then have "ie (inp s) = iw (inp s)" by (simp add: editing_Nil_iff)
  then show ?case
    using 0 by (subst kill_line.simps) (simp add: abs_input_def editing_Nil_iff)
next
  case (Suc n)
  let ?i = "(inp s)\<lparr>ie := ie (inp s) - 1\<rparr>"
  have ne: "ie (inp s) \<noteq> iw (inp s)" using Suc.hyps(2) by (auto simp: editing_Nil_iff [symmetric])
  note E = erase_one [OF Suc.prems(2) ne]
  have last: "ibuf (inp s) ! (unat (ie (inp s) - 1) mod INPUT_BUF) \<noteq> 10"
    using Suc.prems(2) arg_cong [OF E(4), of set] by (auto simp: input_ok_def)
  obtain s1 where s1: "consputc BACKSPACE (s\<lparr>inp := ?i\<rparr>) = Ok s1" "console_ok s1"
    "inp s1 = ?i" "cons_lock s1 = cons_lock s"
    using consputc_ok [of "s\<lparr>inp := ?i\<rparr>" BACKSPACE] Suc.prems(1) by auto
  have "n = length (editing (inp s1))" using Suc.hyps(2) s1(3) E(3) by simp
  from Suc.hyps(1) [OF this s1(2)] obtain s' where "kill_line s1 = Ok s'" "console_ok s'"
    "input_ok (inp s')" "cons_lock s' = cons_lock s1" "abs_input (inp s') = (committed (inp s1), [])"
    using s1(3) E(1) by auto
  then show ?case using ne last s1 E(2) by (subst kill_line.simps) simp
qed

lemma consoleintr_char_ok:
  assumes "console_ok s" "input_ok (inp s)" "0 \<le> c" "c < 256"
  shows "\<exists>woke s'. consoleintr_char c s = Ok (c = 16, woke, s') \<and> console_ok s' \<and> input_ok (inp s')
    \<and> cons_lock s' = cons_lock s \<and> abs_input (inp s') = ed_char c (abs_input (inp s))
    \<and> (woke \<longleftrightarrow> committed (inp s') \<noteq> committed (inp s))"
proof -
  let ?i = "inp s"
  consider (dump) "c = 16" | (kill) "c = 21" | (bs) "c = 8 \<or> c = 127" "ie ?i \<noteq> iw ?i"
    | (bs0) "c = 8 \<or> c = 127" "ie ?i = iw ?i"
    | (drop) "c \<notin> {16, 21, 8, 127}" "c = 0 \<or> INPUT_BUF \<le> unat (ie ?i - ir ?i)"
    | (put) "c \<notin> {16, 21, 8, 127}" "c \<noteq> 0" "unat (ie ?i - ir ?i) < INPUT_BUF" by fastforce
  then show ?thesis
  proof cases
    case dump
    then show ?thesis using assms by (auto simp: consoleintr_char_def abs_input_def)
  next
    case kill
    then show ?thesis using kill_line_ok [OF assms(1,2)]
      by (auto simp: consoleintr_char_def abs_input_def)
  next
    case bs
    note E = erase_one [OF assms(2) bs(2)]
    show ?thesis
      using bs E consputc_ok [of "s\<lparr>inp := ?i\<lparr>ie := ie ?i - 1\<rparr>\<rparr>" BACKSPACE] assms(1)
      by (auto simp: consoleintr_char_def abs_input_def)
  next
    case bs0
    then have "editing ?i = []" by (simp add: editing_Nil_iff)
    then show ?thesis using bs0 assms by (auto simp: consoleintr_char_def abs_input_def)
  next
    case drop
    have "\<not> ie ?i - ir ?i < of_nat INPUT_BUF" if "INPUT_BUF \<le> unat (ie ?i - ir ?i)"
      using that by (simp add: word_less_nat_alt INPUT_BUF_def)
    then show ?thesis using drop assms input_len [OF assms(2)]
      by (auto simp: consoleintr_char_def abs_input_def)
  next
    case put
    define c' where "c' = (if c = 13 then 10 else c)"
    define b :: byte where "b = word_of_int c'"
    define j where "j = put_char b ?i"
    have ranges: "0 \<le> c'" "c' < 256" using assms(3,4) by (auto simp: c'_def)
    have uc: "uint b = c'" using ranges by (simp add: b_def uint_word_of_int)
    have "c' = 10 \<Longrightarrow> b = 10" "c' = 4 \<Longrightarrow> b = 4" by (simp_all add: b_def)
    with uc have b10: "c' = 10 \<longleftrightarrow> b = 10" "c' = 4 \<longleftrightarrow> b = 4" by auto
    have lt: "ie ?i - ir ?i < of_nat INPUT_BUF"
      using put(3) by (simp add: word_less_nat_alt INPUT_BUF_def)
    note P = put_char_spans [OF assms(2) put(3), of b, folded j_def]
    have len: "length (committed ?i) + Suc (length (editing ?i)) \<le> INPUT_BUF"
      using put(3) input_len [OF assms(2)] by simp
    have full: "ie j = ir j + of_nat INPUT_BUF \<longleftrightarrow> length (committed ?i) + Suc (length (editing ?i)) = INPUT_BUF"
    proof -
      have "ie j = ir j + of_nat INPUT_BUF \<longleftrightarrow> ie ?i - ir ?i = 127"
        by (auto simp: j_def put_char_def INPUT_BUF_def algebra_simps)
      also have "\<dots> \<longleftrightarrow> unat (ie ?i - ir ?i) = 127" by (simp add: word_unat_eq_iff)
      finally show ?thesis using input_len [OF assms(2)] by (simp add: INPUT_BUF_def)
    qed
    have lb: "length (ibuf j) = INPUT_BUF" using assms(2) by (simp add: j_def put_char_def input_ok_def)
    obtain s1 where s1: "consputc c' (s\<lparr>inp := j\<rparr>) = Ok s1" "console_ok s1" "inp s1 = j"
      "cons_lock s1 = cons_lock s"
      using consputc_ok [of "s\<lparr>inp := j\<rparr>" c'] assms(1) by auto
    define commit where "commit \<longleftrightarrow> b = 10 \<or> b = 4 \<or> length (committed ?i) + Suc (length (editing ?i)) = INPUT_BUF"
    define s' where "s' = (if commit then s1\<lparr>inp := j\<lparr>iw := ie j\<rparr>\<rparr> else s1)"
    have j: "?i\<lparr>ibuf := (ibuf ?i)[unat (ie ?i) mod INPUT_BUF := word_of_int c'], ie := ie ?i + 1\<rparr> = j"
      by (simp add: j_def put_char_def b_def)
    have cm: "(c' = 10 \<or> c' = 4 \<or> ie ?i + 1 = ir ?i + of_nat INPUT_BUF) = commit"
      using full by (simp add: commit_def b10 j_def put_char_def)
    have "consoleintr_char c s = Ok (False, commit, s')"
      using put(1,2) lt s1(1)
      by (simp add: consoleintr_char_def Let_def c'_def [symmetric] j cm s'_def)
    moreover have ab: "abs_input (inp s') = ed_char c (abs_input ?i)"
    proof -
      have lenj: "length (committed j) + length (editing j) \<le> INPUT_BUF" using P len by simp
      have "ed_char c (abs_input ?i) = (if commit then (committed ?i @ editing ?i @ [b], [])
          else (committed ?i, editing ?i @ [b]))"
        using put(1,2) len
        by (simp add: abs_input_def Let_def c'_def [symmetric] b_def [symmetric] commit_def)
      then show ?thesis using s1(3) P commit_spans [OF lenj] by (simp add: s'_def abs_input_def)
    qed
    moreover have "input_ok (inp s')"
      using assms(2) lb len P commit_spans [of j] s1(3)
      by (auto simp: input_ok_def s'_def commit_def)
    moreover have "console_ok s'" "cons_lock s' = cons_lock s" using s1 by (simp_all add: s'_def)
    moreover have "commit \<longleftrightarrow> committed (inp s') \<noteq> committed ?i"
      using commit_spans [of j] P len s1(3) by (simp add: s'_def)
    ultimately show ?thesis using put(1) by auto
  qed
qed


lemma consoleintr_loop_ok:
  assumes "console_ok s" "input_ok (inp s)" "\<forall>c \<in> set cs. 0 \<le> c \<and> c < 256"
  shows "\<exists>woke s'. consoleintr_loop (cs @ [- 1]) s = Ok ((16 \<in> set cs, woke), s') \<and> console_ok s'
    \<and> input_ok (inp s') \<and> cons_lock s' = cons_lock s \<and> abs_input (inp s') = fold ed_char cs (abs_input (inp s))
    \<and> (committed (inp s') \<noteq> committed (inp s) \<longrightarrow> woke)"
  using assms
proof (induction cs arbitrary: s)
  case (Cons c cs)
  from consoleintr_char_ok [OF Cons.prems(1,2), of c] Cons.prems(3) obtain woke s1 where
    s1: "consoleintr_char c s = Ok (c = 16, woke, s1)" "console_ok s1" "input_ok (inp s1)"
      "cons_lock s1 = cons_lock s" "abs_input (inp s1) = ed_char c (abs_input (inp s))"
      "woke \<longleftrightarrow> committed (inp s1) \<noteq> committed (inp s)" by auto
  from Cons.IH [OF s1(2,3)] Cons.prems(3) obtain woke' s' where
    s': "consoleintr_loop (cs @ [- 1]) s1 = Ok ((16 \<in> set cs, woke'), s')" "console_ok s'"
      "input_ok (inp s')" "cons_lock s' = cons_lock s1" "abs_input (inp s') = fold ed_char cs (abs_input (inp s1))"
      "committed (inp s') \<noteq> committed (inp s1) \<longrightarrow> woke'" by auto
  have "consoleintr_loop ((c # cs) @ [- 1]) s = Ok ((16 \<in> set (c # cs), woke \<or> woke'), s')"
    using s1(1) s'(1) Cons.prems(3) by auto
  then show ?case using s1 s' by auto
qed auto

text \<open>Between calls: nobody holds the console lock, the cursor is on the screen and the input ring is
  well formed.\<close>

definition console_idle :: "console \<Rightarrow> bool" where
  "console_idle s \<longleftrightarrow> console_ok s \<and> input_ok (inp s) \<and> \<not> sl_locked (cons_lock s)"

lemma with_lock_keep:
  assumes "cpu_ok c" "\<not> sl_locked (cons_lock s)"
    and "\<And>lk. \<exists>s'. body (s\<lparr>cons_lock := lk\<rparr>) = Ok (x, s') \<and> cons_lock s' = lk \<and> P s'"
    and "\<And>s' lk. P s' \<Longrightarrow> P (s'\<lparr>cons_lock := lk\<rparr>)"
  shows "\<exists>s'. with_lock me pcs body c s = Ok (x, after_cli c, s') \<and> P s' \<and> \<not> sl_locked (cons_lock s')"
proof -
  let ?lk = "(cons_lock s)\<lparr>sl_locked := True, sl_cpu := Some me, sl_pcs := pcs\<rparr>"
  obtain s' where s': "body (s\<lparr>cons_lock := ?lk\<rparr>) = Ok (x, s')" "cons_lock s' = ?lk" "P s'"
    using assms(3) by blast
  then have "s' = s'\<lparr>cons_lock := ?lk\<rparr>" by (cases s') simp
  then have "with_lock me pcs body c s = Ok (x, after_cli c, s'\<lparr>cons_lock := freed pcs (cons_lock s)\<rparr>)"
    using with_lock_Ok [OF assms(1,2), where lk = ?lk and me = me and pcs = pcs and s' = s' and x = x and body = body] s'(1) by simp
  then show ?thesis using assms(4) [OF s'(3)] by (auto simp: freed_def)
qed

text \<open>Whatever characters the keyboard or the serial line delivers, \<^verbatim>\<open>consoleintr\<close> returns: it never
  panics, the cursor stays on the screen, and the input ring does exactly what the line editor
  does.  Readers are woken whenever there is new committed text.\<close>

lemma consoleintr_ok:
  assumes "console_idle s" "cpu_ok c" "\<forall>x \<in> set cs. 0 \<le> x \<and> x < 256"
  shows "\<exists>woke c' s'. consoleintr me pcs (cs @ [- 1]) c s = Ok ((16 \<in> set cs, woke), c', s')
    \<and> console_idle s' \<and> eif c' = eif c \<and> ncli c' = ncli c
    \<and> abs_input (inp s') = fold ed_char cs (abs_input (inp s))
    \<and> (committed (inp s') \<noteq> committed (inp s) \<longrightarrow> woke)"
proof -
  have s: "console_ok s" "input_ok (inp s)" "\<not> sl_locked (cons_lock s)"
    using assms(1) by (simp_all add: console_idle_def)
  let ?lk = "(cons_lock s)\<lparr>sl_locked := True, sl_cpu := Some me, sl_pcs := pcs\<rparr>"
  from consoleintr_loop_ok [of "s\<lparr>cons_lock := ?lk\<rparr>" cs] s assms(3) obtain woke s1 where
    s1: "consoleintr_loop (cs @ [- 1]) (s\<lparr>cons_lock := ?lk\<rparr>) = Ok ((16 \<in> set cs, woke), s1)"
      "console_ok s1" "input_ok (inp s1)" "cons_lock s1 = ?lk"
      "abs_input (inp s1) = fold ed_char cs (abs_input (inp s))"
      "committed (inp s1) \<noteq> committed (inp s) \<longrightarrow> woke" by auto
  have "s1 = s1\<lparr>cons_lock := ?lk\<rparr>" using s1(4) by (cases s1) simp
  then have "consoleintr me pcs (cs @ [- 1]) c s
      = Ok ((16 \<in> set cs, woke), after_cli c, s1\<lparr>cons_lock := freed pcs (cons_lock s)\<rparr>)"
    using with_lock_Ok [OF assms(2) s(3), where lk = ?lk and me = me and pcs = pcs and s' = s1] s1(1)
    by (simp add: consoleintr_def)
  then show ?thesis using s1 by (auto simp: console_idle_def freed_def)
qed


subsection \<open>Reading and writing\<close>

text \<open>The caller of a device function has the inode locked, and gets it back as it was.\<close>

definition inode_held :: "nat \<Rightarrow> nat \<Rightarrow> fsys \<Rightarrow> bool" where
  "inode_held pid ip f \<longleftrightarrow> ip < length (icache f) \<and> holdingsleep pid (i_lock (ino f ip))
     \<and> 1 \<le> i_ref (ino f ip) \<and> i_valid (ino f ip)"

definition unlocked :: "nat \<Rightarrow> fsys \<Rightarrow> fsys" where
  "unlocked ip f = set_ino ip ((ino f ip)\<lparr>i_lock := releasesleep (i_lock (ino f ip))\<rparr>) f"

lemma inode_relock:
  assumes "inode_held pid ip f"
  shows "iunlock pid ip f = Ok (unlocked ip f)" "ilock pid ip (unlocked ip f) = Ok f"
proof -
  show "iunlock pid ip f = Ok (unlocked ip f)"
    using assms by (simp add: inode_held_def iunlock_def unlocked_def)
  have lk: "(releasesleep (i_lock (ino f ip)))\<lparr>slk_locked := True, slk_pid := pid\<rparr> = i_lock (ino f ip)"
    using assms by (simp add: inode_held_def holdingsleep_def releasesleep_def)
  show "ilock pid ip (unlocked ip f) = Ok f"
    using assms lk
    by (simp add: inode_held_def ilock_def unlocked_def set_ino_def acquiresleep_def releasesleep_def Let_def)
qed

lemma serial_of_bytes: "concat (map serial_of (map uint bs)) = bs"
proof -
  have "serial_of (uint b) = [b]" for b :: byte
    using uint_range_size [of b] by (simp add: serial_of_def BACKSPACE_def word_size)
  then show ?thesis by (simp add: comp_def concat_map_singleton)
qed

text \<open>a write to the console returns its byte count, never panics whatever the bytes are, keeps the
  cursor on the screen and the input untouched, and puts exactly the bytes on the serial line, in
  order.\<close>

theorem consolewrite_delivers:
  assumes "console_idle s" "cpu_ok c" "inode_held pid ip f" "nat n \<le> length buf"
  shows "\<exists>c' s'. consolewrite me pcs pid ip buf n c s f = Ok (n, c', s', f) \<and> console_idle s'
    \<and> inp s' = inp s \<and> com1 s' = com1 s @ (if uart s then take (nat n) buf else [])"
proof -
  have s: "console_ok s" "\<not> sl_locked (cons_lock s)" using assms(1) by (simp_all add: console_idle_def)
  let ?P = "\<lambda>s'. console_ok s' \<and> inp s' = inp s \<and> com1 s' = com1 s @ (if uart s then take (nat n) buf else [])"
  let ?body = "\<lambda>s. and_then (consputs (map uint (take (nat n) buf)) s) (\<lambda>s. Ok ((), s))"
  have "\<exists>s'. ?body (s\<lparr>cons_lock := lk\<rparr>) = Ok ((), s') \<and> cons_lock s' = lk \<and> ?P s'" for lk
    using consputs_ok [of "s\<lparr>cons_lock := lk\<rparr>" "map uint (take (nat n) buf)"] s(1)
    unfolding serial_of_bytes by auto
  from with_lock_keep [OF assms(2) s(2) this, where me = me and pcs = pcs] obtain s' where
    "with_lock me pcs ?body c s = Ok ((), after_cli c, s')" "?P s'" "\<not> sl_locked (cons_lock s')" by auto
  then show ?thesis
    using inode_relock [OF assms(3)] assms(1) by (auto simp: consolewrite_def console_idle_def)
qed

lemma consoleread_loop_ok:
  assumes "input_ok i" "n \<le> target" "ed_read (n = target) n (committed i) = (bs, rest, fin)"
  shows "\<exists>m i'. consoleread_loop killed target n i =
      ((if fin then Some (int (target - n + length bs)) else if killed then Some (- 1) else None, bs, m), i')
    \<and> input_ok i' \<and> committed i' = rest \<and> editing i' = editing i \<and> (\<not> fin \<longrightarrow> m = n - length bs \<and> rest = [])"
  using assms
proof (induction n arbitrary: i bs)
  case (Suc n)
  show ?case
  proof (cases "ir i = iw i")
    case True
    then have "committed i = []" by (simp add: committed_Nil_iff)
    then show ?thesis using True Suc.prems by auto
  next
    case False
    let ?c = "ibuf i ! (unat (ir i) mod INPUT_BUF)" and ?i = "i\<lparr>ir := ir i + 1\<rparr>"
    note T = take_one [OF Suc.prems(1) False]
    show ?thesis
    proof (cases "?c = 4 \<or> ?c = 10")
      case True
      have "?i\<lparr>ir := ir ?i - 1\<rparr> = i" by simp
      then show ?thesis using True False Suc.prems T(1,2)
        by (subst (asm) T(3)) (auto simp: Let_def T(3) of_nat_diff split: if_splits)
    next
      case no: False
      obtain bs1 where b: "ed_read False n (committed ?i) = (bs1, rest, fin)" "bs = ?c # bs1"
        using Suc.prems(3) no by (subst (asm) T(3)) (auto split: prod.splits)
      have "(n = target) = False" using Suc.prems(2) by simp
      with Suc.IH [OF T(1), of bs1] Suc.prems(2) b(1) obtain m i' where
        "consoleread_loop killed target n ?i =
          ((if fin then Some (int (target - n + length bs1)) else if killed then Some (- 1) else None, bs1, m), i')"
        "input_ok i'" "committed i' = rest" "editing i' = editing ?i" "\<not> fin \<longrightarrow> m = n - length bs1 \<and> rest = []"
        by auto
      moreover have "target - n = Suc (target - Suc n)" using Suc.prems(2) by simp
      ultimately show ?thesis using no False b(2) T(2) by auto
    qed
  qed
qed auto

text \<open>A read of the console takes from the committed text up to \<open>n\<close> bytes, no further than the end of
  the line and not past a \<^verbatim>\<open>Control-D\<close>, which alone gives a result of 0; when the text runs out first
  it sleeps, or gives up with -1 if its process was killed.\<close>

lemma consoleread_ok:
  assumes "console_idle s" "cpu_ok c" "inode_held pid ip f"
    and "ed_read True (nat n) (committed (inp s)) = (bs, rest, fin)"
  shows "\<exists>m c' s' f'. consoleread me pcs pid killed ip n c s f =
      Ok ((if fin then Some (int (length bs)) else if killed then Some (- 1) else None, bs, m), c', s', f')
    \<and> console_idle s' \<and> abs_input (inp s') = (rest, editing (inp s)) \<and> (fin \<or> killed \<longrightarrow> f' = f)"
proof -
  have s: "console_ok s" "\<not> sl_locked (cons_lock s)" "input_ok (inp s)"
    using assms(1) by (simp_all add: console_idle_def)
  let ?r = "if fin then Some (int (length bs)) else if killed then Some (- 1) else None"
  from consoleread_loop_ok [OF s(3) le_refl, of "nat n" bs rest fin killed] assms(4) obtain m i' where
    i': "consoleread_loop killed (nat n) (nat n) (inp s) = ((?r, bs, m), i')" "input_ok i'"
      "committed i' = rest" "editing i' = editing (inp s)" by auto
  let ?body = "\<lambda>s. let (r, i) = consoleread_loop killed (nat n) (nat n) (inp s) in Ok (r, s\<lparr>inp := i\<rparr>)"
  have "\<exists>s'. ?body (s\<lparr>cons_lock := lk\<rparr>) = Ok ((?r, bs, m), s') \<and> cons_lock s' = lk
      \<and> (console_ok s' \<and> inp s' = i')" for lk
    using i'(1) s(1) by simp
  from with_lock_keep [OF assms(2) s(2) this, where me = me and pcs = pcs] obtain s' where
    "with_lock me pcs ?body c s = Ok ((?r, bs, m), after_cli c, s')" "console_ok s' \<and> inp s' = i'"
    "\<not> sl_locked (cons_lock s')" by auto
  then show ?thesis
    using inode_relock [OF assms(3)] i'(2-4)
    by (auto simp: consoleread_def consoleread_wait_def console_idle_def abs_input_def)
qed


subsection \<open>From the keyboard to the reader\<close>

text \<open>Characters that the editor takes as text.\<close>

definition ordinary :: "byte \<Rightarrow> bool" where
  "ordinary b \<longleftrightarrow> b \<notin> {0, 4, 8, 10, 13, 16, 21, 127}"

lemma ordinary_uint:
  assumes "ordinary b"
  shows "uint b \<notin> {0, 4, 8, 10, 13, 16, 21, 127}"
proof -
  have w: "uint b = x \<Longrightarrow> b = word_of_int x" for x by (metis word_of_int_uint)
  show ?thesis using assms by (auto simp: ordinary_def dest!: w)
qed

lemma ed_type:
  assumes "\<forall>b \<in> set l. ordinary b" "length text + length line + length l < INPUT_BUF"
  shows "fold ed_char (concat (map (\<lambda>b. [uint b, 0]) l)) (text, line) = (text, line @ l)"
  using assms
proof (induction l arbitrary: line)
  case (Cons b l)
  have "ed_char (uint b) (text, line) = (text, line @ [b])"
    using ordinary_uint [of b] Cons.prems by (auto simp: ordinary_def Let_def)
  moreover have "ed_char 0 (text, line @ [b]) = (text, line @ [b])" by simp
  ultimately show ?case using Cons.IH [of "line @ [b]"] Cons.prems by (simp del: ed_char.simps)
qed simp

text \<open>Pressing and releasing a key, given by its scan code.\<close>

definition keystroke :: "byte \<Rightarrow> byte list" where
  "keystroke k = [k, k OR 0x80]"

text \<open>A key that is neither a shift nor a lock key and has no second meaning.\<close>

definition plain_key :: "byte \<Rightarrow> bool" where
  "plain_key k \<longleftrightarrow> k < 0x60 \<and> shiftcode ! unat k = 0 \<and> togglecode ! unat k = 0"

lemma key_codes:
  assumes "k < (0x60 :: byte)"
  shows "(ucast k :: u32) AND 0x80 = 0" "(ucast k :: u32) \<noteq> 0xE0" "unat (ucast k :: u32) = unat k"
    "(ucast (k OR 0x80) :: u32) AND 0x80 \<noteq> 0" "(ucast (k OR 0x80) :: u32) \<noteq> 0xE0"
proof -
  have "list_all (\<lambda>n. let k = of_nat n :: byte in
      (ucast k :: u32) AND 0x80 = 0 \<and> (ucast k :: u32) \<noteq> 0xE0 \<and> unat (ucast k :: u32) = unat k
      \<and> (ucast (k OR 0x80) :: u32) AND 0x80 \<noteq> 0 \<and> (ucast (k OR 0x80) :: u32) \<noteq> 0xE0) [0..<96]"
    by code_simp
  moreover have "unat k < 96" using assms by (simp add: word_less_nat_alt)
  moreover have "of_nat (unat k) = k" by simp
  ultimately show "(ucast k :: u32) AND 0x80 = 0" "(ucast k :: u32) \<noteq> 0xE0" "unat (ucast k :: u32) = unat k"
    "(ucast (k OR 0x80) :: u32) AND 0x80 \<noteq> 0" "(ucast (k OR 0x80) :: u32) \<noteq> 0xE0"
    unfolding list_all_iff Let_def by (metis atLeastLessThan_iff set_upt zero_le)+
qed

lemma kbdgetc_press:
  assumes "plain_key k"
  shows "kbdgetc (Some k) 0 = (uint (normalmap ! unat k), 0)"
  using assms key_codes [of k] by (simp add: kbdgetc_def plain_key_def Let_def charcode_def)

lemma kbdgetc_release:
  assumes "plain_key k"
  shows "kbdgetc (Some (k OR 0x80)) 0 = (0, 0)"
  using assms key_codes [of k] by (simp add: kbdgetc_def plain_key_def Let_def)

lemma kbd_chars_plain:
  assumes "\<forall>k \<in> set ks. plain_key k"
  shows "kbd_chars (concat (map keystroke ks)) 0
    = (concat (map (\<lambda>b. [uint b, 0]) (map (\<lambda>k. normalmap ! unat k) ks)) @ [- 1], 0)"
  using assms
proof (induction ks)
  case Nil
  show ?case by (simp add: kbdgetc_def)
next
  case (Cons k ks)
  then show ?case by (simp add: keystroke_def kbdgetc_press kbdgetc_release Let_def)
qed

lemma kbd_chars_range:
  "\<exists>cs shift'. kbd_chars codes shift = (cs @ [- 1], shift') \<and> (\<forall>c \<in> set cs. 0 \<le> c \<and> c < 256)"
proof (induction codes arbitrary: shift)
  case Nil
  show ?case by (simp add: kbdgetc_def)
next
  case (Cons b codes)
  obtain c shift1 where k: "kbdgetc (Some b) shift = (c, shift1)" by fastforce
  have "0 \<le> uint w \<and> uint w < 256" for w :: byte using uint_range_size [of w] by (simp add: word_size)
  then have "0 \<le> c \<and> c < 256" using k by (auto simp: kbdgetc_def Let_def split: if_splits)
  moreover obtain cs shift' where "kbd_chars codes shift1 = (cs @ [- 1], shift')"
    "\<forall>c \<in> set cs. 0 \<le> c \<and> c < 256" using Cons.IH by blast
  ultimately have "kbd_chars (b # codes) shift = ((c # cs) @ [- 1], shift')"
    "\<forall>c \<in> set (c # cs). 0 \<le> c \<and> c < 256" using k by auto
  then show ?case by blast
qed


text \<open>C27: whatever the keyboard sends, in any shift state, the keyboard interrupt returns without a
  panic, gives the processor its interrupt state back, leaves the console lock free, the cursor on the
  screen and the input ring well formed, and does to the ring what the line editor does with the
  characters \<^verbatim>\<open>kbdgetc\<close> made of the scan codes.  Readers are woken when there is new text.\<close>

theorem kbdintr_edits:
  assumes "console_idle s" "cpu_ok c"
  shows "\<exists>cs shift' woke c' s'. kbd_chars codes shift = (cs @ [- 1], shift')
    \<and> kbdintr me pcs codes shift c s = Ok (shift', (16 \<in> set cs, woke), c', s') \<and> console_idle s'
    \<and> eif c' = eif c \<and> ncli c' = ncli c
    \<and> abs_input (inp s') = fold ed_char cs (abs_input (inp s))
    \<and> (committed (inp s') \<noteq> committed (inp s) \<longrightarrow> woke)"
proof -
  obtain cs shift' where k: "kbd_chars codes shift = (cs @ [- 1], shift')" "\<forall>c \<in> set cs. 0 \<le> c \<and> c < 256"
    using kbd_chars_range by blast
  from consoleintr_ok [OF assms k(2), of me pcs] k(1) show ?thesis by (auto simp: kbdintr_def)
qed

lemma ed_read_line: "\<forall>b \<in> set l. b \<noteq> 4 \<and> b \<noteq> 10 \<Longrightarrow> length l < n \<Longrightarrow>
    ed_read fresh n (l @ [10]) = (l @ [10], [], True)"
proof (induction l arbitrary: n fresh)
  case Nil
  then show ?case by (cases n) auto
next
  case (Cons b l)
  then show ?case by (cases n) auto
qed

lemma enter_key: "plain_key 0x1C" "normalmap ! unat (0x1C :: byte) = 10"
  by code_simp+

text \<open>C28: a line typed with plain keys and ended with Enter, on an idle console with nothing
  typed ahead, is what the next large enough read returns, newline included.\<close>

theorem typed_line_read:
  assumes "console_idle s" "abs_input (inp s) = ([], [])" "cpu_ok c" "inode_held pid ip f"
    and "\<forall>k \<in> set ks. plain_key k \<and> ordinary (normalmap ! unat k)" "length ks < INPUT_BUF"
    and "int (length ks) < n"
  shows "\<exists>r c1 s1 m c2 s2.
      kbdintr me pcs (concat (map keystroke (ks @ [0x1C]))) 0 c s = Ok (0, r, c1, s1)
    \<and> consoleread me' pcs' pid killed ip n c1 s1 f =
        Ok ((Some (int (length ks) + 1), map (\<lambda>k. normalmap ! unat k) ks @ [10], m), c2, s2, f)
    \<and> abs_input (inp s2) = ([], [])"
proof -
  let ?l = "map (\<lambda>k. normalmap ! unat k) ks"
  let ?cs = "concat (map (\<lambda>b. [uint b, 0]) (?l @ [10]))"
  have kc: "kbd_chars (concat (map keystroke (ks @ [0x1C]))) 0 = (?cs @ [- 1], 0)"
    using kbd_chars_plain [of "ks @ [0x1C]"] assms(5) enter_key by simp
  have "\<forall>c \<in> set ?cs. 0 \<le> c \<and> c < 256"
    using uint_range_size [where 'a = 8] by (auto simp: word_size)
  from consoleintr_ok [OF assms(1,3) this, of me pcs] obtain woke c1 s1 where
    i: "consoleintr me pcs (?cs @ [- 1]) c s = Ok ((16 \<in> set ?cs, woke), c1, s1)" "console_idle s1"
      "eif c1 = eif c" "ncli c1 = ncli c" "abs_input (inp s1) = fold ed_char ?cs (abs_input (inp s))" by auto
  have ord: "\<forall>b \<in> set ?l. ordinary b" using assms(5) by auto
  have "fold ed_char (concat (map (\<lambda>b. [uint b, 0]) ?l)) ([], []) = ([], ?l)"
    using ed_type [OF ord, of "[]" "[]"] assms(6) by simp
  then have "abs_input (inp s1) = (?l @ [10], [])"
    using i(5) assms(2,6) by (simp add: Let_def)
  then have a: "committed (inp s1) = ?l @ [10]" "editing (inp s1) = []" by (simp_all add: abs_input_def)
  have "ed_read True (nat n) (committed (inp s1)) = (?l @ [10], [], True)"
    unfolding a using ord assms(7) by (intro ed_read_line) (auto simp: ordinary_def)
  moreover have "cpu_ok c1" using assms(3) i(3,4) by (simp add: cpu_ok_def)
  ultimately obtain m c2 s2 where "consoleread me' pcs' pid killed ip n c1 s1 f =
      Ok ((Some (int (length (?l @ [10]))), ?l @ [10], m), c2, s2, f)" "abs_input (inp s2) = ([], [])"
    using consoleread_ok [OF i(2) _ assms(4), of c1 n "?l @ [10]" "[]" True me' pcs' killed] a(2) by auto
  then show ?thesis using i(1) kc by (auto simp: kbdintr_def)
qed

subsection \<open>Kernel messages\<close>

lemma kdigit_loop_numeral:
  "2 \<le> base \<Longrightarrow> kdigit_loop base x buf = Some (buf @ map ((!) kdigits) (rev (numeral_of base x)))"
proof (induction base x arbitrary: buf rule: numeral_of.induct)
  case (1 base x)
  show ?case
  proof (cases "x < base")
    case True
    then show ?thesis by (subst kdigit_loop.simps) (simp add: Let_def numeral_of_small)
  next
    case False
    then have ne: "x div base \<noteq> 0" using "1.prems" by (simp add: div_eq_0_iff)
    have "kdigit_loop base (x div base) (buf @ [kdigits ! (x mod base)])
        = Some ((buf @ [kdigits ! (x mod base)]) @ map ((!) kdigits) (rev (numeral_of base (x div base))))"
      by (rule "1.IH") (use "1.prems" False in auto)
    then show ?thesis
      using ne False "1.prems" by (subst kdigit_loop.simps) (simp add: Let_def numeral_of_step)
  qed
qed

lemma kprintint_numeral:
  assumes "2 \<le> base"
  shows "kprintint xx base sg =
    Some (if sg \<and> sint xx < 0 then 45 # map ((!) kdigits) (numeral_of base (unat (- xx)))
          else map ((!) kdigits) (numeral_of base (unat xx)))"
  by (simp add: kprintint_def Let_def kdigit_loop_numeral [OF assms] rev_map)

lemma kdigits_decimal: "map ((!) kdigits) (numeral_of 10 x) = map ((!) digits) (numeral_of 10 x)"
proof -
  have "\<forall>d \<in> {..<10}. kdigits ! d = digits ! d"
    by (simp add: lessThan_nat_numeral lessThan_Suc digits_def kdigits_def)
  then show ?thesis using numeral_of_digits [of 10 _ x] by (intro map_cong) auto
qed

lemma kprintint_decimal: "kprintint xx 10 sg = printint xx 10 sg"
  by (simp add: kprintint_numeral printint_numeral kdigits_decimal)

lemma kconvert_eq:
  assumes "c \<noteq> 120" "c \<noteq> 112"
  shows "map_option (\<lambda>(t, took). (map word_of_int t, took)) (kconvert m arg c) = convert m arg c"
  using assms
  by (auto simp: kconvert_def convert_def kprintint_decimal option.map_comp comp_def null_text_def
      intro!: map_option_cong split: option.split)

text \<open>on a format without hexadecimal conversions the kernel's \<^verbatim>\<open>cprintf\<close> puts the same
  characters on the console as the user library's \<^verbatim>\<open>printf\<close> writes; hexadecimal digits
  differ in case only.\<close>

theorem cprintf_agrees:
  assumes "120 \<notin> set fmt" "112 \<notin> set fmt"
  shows "map_option (map word_of_int) (cprintf_loop m args fmt 0) = printf m fmt args"
proof -
  have "map_option (map word_of_int) (cprintf_loop m args fmt ap) = printf_loop m args fmt False ap" for ap
    using assms
  proof (induction m args fmt ap rule: cprintf_loop.induct)
    case (3 m args c d fmt ap)
    show ?case
    proof (cases "c = 37")
      case True
      have e: "convert m (args ap) d = map_option (\<lambda>(t, took). (map word_of_int t, took)) (kconvert m (args ap) d)"
        by (rule kconvert_eq [symmetric]) (use "3.prems" in auto)
      show ?thesis
      proof (cases "kconvert m (args ap) d")
        case None
        then show ?thesis using True e by simp
      next
        case (Some r)
        obtain out took where r: "r = (out, took)" by fastforce
        have "printf_loop m args fmt False (if took then Suc ap else ap)
            = map_option (map word_of_int) (cprintf_loop m args fmt (if took then Suc ap else ap))"
          using "3.IH"(2) True Some r "3.prems" by auto
        then show ?thesis using True e Some r by (simp add: option.map_comp comp_def)
      qed
    next
      case False
      then have "printf_loop m args (d # fmt) False ap
          = map_option (map word_of_int) (cprintf_loop m args (d # fmt) ap)"
        using "3.IH"(1) "3.prems" by auto
      then show ?thesis using False by (simp add: option.map_comp comp_def del: printf_loop.simps add: printf_loop.simps(2))
    qed
  qed simp_all
  then show ?thesis by (simp add: printf_def)
qed

theorem cprintf_agrees_witness:
  "map_option (map word_of_int) (cprintf_loop (text_mem []) (\<lambda>_. 0) [97, 37, 115] 0)
    = printf (text_mem []) [97, 37, 115] (\<lambda>_. 0)"
  by (rule cprintf_agrees) simp_all

text \<open>A caller that already holds the console lock does not hold it any more when \<^verbatim>\<open>cprintf\<close>
  returns: the lock is taken only when needed but released in any case.\<close>

lemma cprintf_drops_lock:
  assumes "console_ok s" "cons_locking s" "cpu_ok c" "0 < ncli c"
    and "sl_locked (cons_lock s)" "sl_cpu (cons_lock s) = Some me"
    and "cprintf_loop m args fmt 0 = Some text"
  shows "\<exists>c' s'. cprintf me pcs m (Some fmt) args c s = Ok (c', s') \<and> \<not> sl_locked (cons_lock s')
    \<and> ncli c' = ncli c - 1"
proof -
  obtain s1 where s1: "consputs text s = Ok s1" "cons_lock s1 = cons_lock s"
    using consputs_ok [OF assms(1)] by blast
  have "s\<lparr>cons_lock := cons_lock s\<rparr> = s" by simp
  moreover have "popcli c = Ok (c\<lparr>ncli := ncli c - 1, eif := (ncli c = 1 \<and> intena c)\<rparr>)"
    using assms(3,4) by (simp add: popcli_def cpu_ok_def Let_def)
  ultimately show ?thesis
    using assms(2,5-7) s1
    by (simp add: cprintf_def holding_simp [OF assms(3,4)] release_def)
qed

text \<open>After a panic the console accepts nothing more: every processor that prints spins.\<close>

lemma panic_freezes:
  assumes "panic_state me m stk lapicid msg pcs c s = Ok (c', s')"
  shows "consputc x s' = Wait"
proof -
  have "panicked s'" using assms by (auto simp: panic_state_def Let_def)
  then show ?thesis by (simp add: consputc_def)
qed

subsection \<open>A sample console\<close>

definition boot_console :: console where
  "boot_console = consoleinit \<lparr>cons_lock = \<lparr>sl_locked = False, sl_name = [], sl_cpu = None, sl_pcs = []\<rparr>,
     cons_locking = False, panicked = False, uart = True, com1 = [], crt = replicate 2000 0, crtc = 0,
     inp = \<lparr>ibuf = replicate 128 0, ir = 0, iw = 0, ie = 0\<rparr>\<rparr>"

definition boot_cpu :: cpu where
  "boot_cpu = \<lparr>ncli = 0, intena = False, eif = True\<rparr>"

lemma boot_console_idle: "console_idle boot_console" "abs_input (inp boot_console) = ([], [])" "cpu_ok boot_cpu"
  by (simp_all add: boot_console_def boot_cpu_def consoleinit_def console_idle_def console_ok_def screen_ok_def
      input_ok_def INPUT_BUF_def committed_def editing_def abs_input_def initlock_def cpu_ok_def)

text \<open>A file system whose only cached inode is locked by process 1.\<close>

definition held_fs :: fsys where
  "held_fs = small_fs\<lparr>icache := [(ino small_fs 0)\<lparr>i_lock := \<lparr>slk_locked = True, slk_name = [], slk_pid = 1\<rparr>\<rparr>]\<rparr>"

lemma held_fs_held: "inode_held 1 0 held_fs"
  by (simp add: held_fs_def inode_held_def holdingsleep_def small_simps)

theorem kbdintr_edits_witness:
  "\<exists>cs shift' woke c' s'. kbd_chars [0x23, 0xA3, 0x1C] 0 = (cs @ [- 1], shift')
    \<and> kbdintr 0 [] [0x23, 0xA3, 0x1C] 0 boot_cpu boot_console = Ok (shift', (16 \<in> set cs, woke), c', s')
    \<and> console_idle s' \<and> abs_input (inp s') = fold ed_char cs ([], [])"
  using kbdintr_edits [OF boot_console_idle(1,3), of "[0x23, 0xA3, 0x1C]" 0 0 "[]"] boot_console_idle(2) by auto

theorem consolewrite_delivers_witness:
  "\<exists>c' s'. consolewrite 0 [] 1 0 [104, 105, 10] 3 boot_cpu boot_console held_fs = Ok (3, c', s', held_fs)
    \<and> com1 s' = [104, 105, 10]"
proof -
  have "com1 boot_console = []" "uart boot_console" by (simp_all add: boot_console_def consoleinit_def)
  then show ?thesis
    using consolewrite_delivers [OF boot_console_idle(1,3) held_fs_held, of 3 "[104, 105, 10]" 0 "[]"] by auto
qed

text \<open>Typing \<^verbatim>\<open>hi\<close> and Enter.\<close>

theorem typed_line_read_witness:
  "\<exists>r c1 s1 m c2 s2.
      kbdintr 0 [] [0x23, 0xA3, 0x17, 0x97, 0x1C, 0x9C] 0 boot_cpu boot_console = Ok (0, r, c1, s1)
    \<and> consoleread 0 [] 1 False 0 100 c1 s1 held_fs = Ok ((Some 3, [104, 105, 10], m), c2, s2, held_fs)"
proof -
  have k: "\<forall>k \<in> set [0x23, 0x17]. plain_key k \<and> ordinary (normalmap ! unat k)" by code_simp
  have v: "map (\<lambda>k. normalmap ! unat k) [0x23, 0x17 :: byte] = [104, 105]" by code_simp
  have c: "concat (map keystroke ([0x23, 0x17] @ [0x1C])) = [0x23, 0xA3, 0x17, 0x97, 0x1C, 0x9C]" by code_simp
  show ?thesis
    using typed_line_read [OF boot_console_idle held_fs_held k, of 100 0 "[]" 0 "[]" False, unfolded v c]
    by (auto simp: INPUT_BUF_def)
qed

end
