(* ===== verification/Textutils.thy ===== *)
theory Textutils
  imports Prelude
begin

text \<open>
  The user programs \<^verbatim>\<open>p4/grep.c\<close> and \<^verbatim>\<open>p4/wc.c\<close>.  A C string is the list of its bytes before the
  NUL.  What arrives on a descriptor is a list of segments: one \<^verbatim>\<open>read\<close> returns bytes of the
  first segment only, at most as many as it was asked for, and 0 at the end.
\<close>

subsection \<open>The matcher\<close>

text \<open>In the byte codes used below 36 is the dollar sign, 42 the star, 46 the dot, 94 the caret
  and 10 the newline.\<close>

function matchhere :: "byte list \<Rightarrow> byte list \<Rightarrow> bool"
  and matchstar :: "byte \<Rightarrow> byte list \<Rightarrow> byte list \<Rightarrow> bool" where
  "matchhere re tx =
     (case re of [] \<Rightarrow> True
      | c # re1 \<Rightarrow>
          (if re1 \<noteq> [] \<and> hd re1 = 42 then matchstar c (tl re1) tx
           else if c = 36 \<and> re1 = [] then tx = []
           else case tx of [] \<Rightarrow> False | t # ts \<Rightarrow> (c = 46 \<or> c = t) \<and> matchhere re1 ts))"
| "matchstar c re tx =
     (matchhere re tx \<or>
      (case tx of [] \<Rightarrow> False | t # ts \<Rightarrow> (t = c \<or> c = 46) \<and> matchstar c re ts))"
  by pat_completeness auto
termination
  by (relation "measures [\<lambda>x. case x of Inl (re, tx) \<Rightarrow> 2 * length re
        | Inr (c, re, tx) \<Rightarrow> Suc (2 * length re),
      \<lambda>x. case x of Inl (re, tx) \<Rightarrow> length tx | Inr (c, re, tx) \<Rightarrow> length tx]")
     (auto simp: neq_Nil_conv)

declare matchhere.simps [simp del] matchstar.simps [simp del]

fun match_loop :: "byte list \<Rightarrow> byte list \<Rightarrow> bool" where
  "match_loop re [] = matchhere re []"
| "match_loop re (t # ts) = (matchhere re (t # ts) \<or> match_loop re ts)"

definition match_re :: "byte list \<Rightarrow> byte list \<Rightarrow> bool" where
  "match_re re tx = (if re \<noteq> [] \<and> hd re = 94 then matchhere (tl re) tx else match_loop re tx)"

subsection \<open>The line scanner of grep\<close>

text \<open>\<^verbatim>\<open>strchr(p, '\n')\<close> splits at the first newline before the first NUL; the text after the
  buffer's last byte is the NUL stored at \<^verbatim>\<open>buf[m]\<close>.\<close>

fun split_line :: "byte list \<Rightarrow> (byte list \<times> byte list) option" where
  "split_line [] = None"
| "split_line (c # cs) =
     (if c = 0 then None else if c = 10 then Some ([], cs)
      else map_option (\<lambda>(l, r). (c # l, r)) (split_line cs))"

lemma split_line_length: "split_line p = Some (l, r) \<Longrightarrow> length r < length p"
  by (induction p arbitrary: l) (auto split: if_splits)

function scan :: "byte list \<Rightarrow> byte list \<Rightarrow> byte list \<times> byte list" where
  "scan re p =
     (case split_line p of None \<Rightarrow> ([], p)
      | Some (l, r) \<Rightarrow> (let (out, q) = scan re r in ((if match_re re l then l @ [10] else []) @ out, q)))"
  by auto
termination by (relation "measure (\<lambda>(re, p). length p)") (auto simp: split_line_length)

declare scan.simps [simp del]

definition GREP_BUF :: nat where "GREP_BUF = 1024"

text \<open>One iteration: the bytes of the buffer after the read, the output, what stays.  When no
  line was complete, \<^verbatim>\<open>p == buf\<close> and \<^verbatim>\<open>m\<close> becomes 0.\<close>

definition grep_step :: "byte list \<Rightarrow> byte list \<Rightarrow> byte list \<times> byte list" where
  "grep_step re buf =
     (let (out, p) = scan re buf in (out, if split_line buf = None then [] else p))"

function grep_loop :: "byte list \<Rightarrow> byte list \<Rightarrow> byte list list \<Rightarrow> byte list" where
  "grep_loop re buf [] = []"
| "grep_loop re buf (seg # segs) =
     (let k = GREP_BUF - length buf - 1; got = take k seg; rest = drop k seg in
      if got = [] then []
      else let (out, buf') = grep_step re (buf @ got) in
           out @ grep_loop re buf' (if rest = [] then segs else rest # segs))"
  by pat_completeness auto
termination
  by (relation "measure (\<lambda>(re, buf, segs). length (concat segs))") (auto simp: min_def)

definition grep :: "byte list \<Rightarrow> byte list list \<Rightarrow> byte list" where
  "grep re segs = grep_loop re [] segs"

subsection \<open>wc\<close>

definition wc_space :: "byte \<Rightarrow> bool" where
  "wc_space b \<longleftrightarrow> b \<in> {32, 13, 9, 10, 11}"

record wc_state =
  wc_l :: nat
  wc_w :: nat
  wc_c :: nat
  wc_inword :: bool

definition wc_byte :: "byte \<Rightarrow> wc_state \<Rightarrow> wc_state" where
  "wc_byte b s =
     (let s = s\<lparr>wc_c := wc_c s + 1\<rparr>;
          s = (if b = 10 then s\<lparr>wc_l := wc_l s + 1\<rparr> else s)
      in if wc_space b then s\<lparr>wc_inword := False\<rparr>
         else if \<not> wc_inword s then s\<lparr>wc_w := wc_w s + 1, wc_inword := True\<rparr>
         else s)"

fun wc_loop :: "byte list list \<Rightarrow> wc_state \<Rightarrow> wc_state" where
  "wc_loop [] s = s"
| "wc_loop (seg # segs) s = wc_loop segs (fold wc_byte seg s)"

definition wc :: "byte list list \<Rightarrow> nat \<times> nat \<times> nat" where
  "wc segs = (let s = wc_loop segs \<lparr>wc_l = 0, wc_w = 0, wc_c = 0, wc_inword = False\<rparr>
              in (wc_l s, wc_w s, wc_c s))"

subsection \<open>What the matcher accepts\<close>

text \<open>A pattern read as a list of items and whether it ends in the anchor.\<close>

datatype item = Lit byte | Star byte

fun parse :: "byte list \<Rightarrow> item list \<times> bool" where
  "parse [] = ([], False)"
| "parse [c] = (if c = 36 then ([], True) else ([Lit c], False))"
| "parse (c # d # re) =
     (if d = 42 then (let (is, e) = parse re in (Star c # is, e))
      else (let (is, e) = parse (d # re) in (Lit c # is, e)))"

definition sym :: "byte \<Rightarrow> byte \<Rightarrow> bool" where
  "sym c t \<longleftrightarrow> c = 46 \<or> c = t"

fun in_lang :: "item list \<Rightarrow> byte list \<Rightarrow> bool" where
  "in_lang [] s = (s = [])"
| "in_lang (Lit c # is) s = (\<exists>t r. s = t # r \<and> sym c t \<and> in_lang is r)"
| "in_lang (Star c # is) s = (\<exists>a b. s = a @ b \<and> (\<forall>t \<in> set a. sym c t) \<and> in_lang is b)"

definition accepts :: "item list \<times> bool \<Rightarrow> byte list \<Rightarrow> bool" where
  "accepts p tx \<longleftrightarrow> (\<exists>b r. tx = b @ r \<and> in_lang (fst p) b \<and> (snd p \<longrightarrow> r = []))"

lemma accepts_Lit: "accepts (Lit c # is, e) tx \<longleftrightarrow> (\<exists>t ts. tx = t # ts \<and> sym c t \<and> accepts (is, e) ts)"
proof
  assume "accepts (Lit c # is, e) tx"
  then obtain b r where b: "tx = b @ r" "in_lang (Lit c # is) b" "e \<longrightarrow> r = []"
    by (auto simp: accepts_def)
  then obtain t b' where "b = t # b'" "sym c t" "in_lang is b'" by auto
  with b have "tx = t # (b' @ r)" "sym c t" "accepts (is, e) (b' @ r)"
    by (auto simp: accepts_def)
  then show "\<exists>t ts. tx = t # ts \<and> sym c t \<and> accepts (is, e) ts" by blast
next
  assume "\<exists>t ts. tx = t # ts \<and> sym c t \<and> accepts (is, e) ts"
  then obtain t b r where "tx = (t # b) @ r" "sym c t" "in_lang is b" "e \<longrightarrow> r = []"
    by (auto simp: accepts_def)
  then show "accepts (Lit c # is, e) tx"
    unfolding accepts_def by (intro exI [of _ "t # b"] exI [of _ r]) auto
qed

lemma accepts_Star:
  "accepts (Star c # is, e) tx \<longleftrightarrow> (\<exists>a ts. tx = a @ ts \<and> (\<forall>t \<in> set a. sym c t) \<and> accepts (is, e) ts)"
proof
  assume "accepts (Star c # is, e) tx"
  then obtain b r where b: "tx = b @ r" "in_lang (Star c # is) b" "e \<longrightarrow> r = []"
    by (auto simp: accepts_def)
  then obtain a b' where "b = a @ b'" "\<forall>t \<in> set a. sym c t" "in_lang is b'" by auto
  with b have "tx = a @ (b' @ r)" "\<forall>t \<in> set a. sym c t" "accepts (is, e) (b' @ r)"
    by (auto simp: accepts_def)
  then show "\<exists>a ts. tx = a @ ts \<and> (\<forall>t \<in> set a. sym c t) \<and> accepts (is, e) ts" by blast
next
  assume "\<exists>a ts. tx = a @ ts \<and> (\<forall>t \<in> set a. sym c t) \<and> accepts (is, e) ts"
  then obtain a b r where "tx = (a @ b) @ r" "\<forall>t \<in> set a. sym c t" "in_lang is b" "e \<longrightarrow> r = []"
    by (auto simp: accepts_def)
  then show "accepts (Star c # is, e) tx"
    unfolding accepts_def by (intro exI [of _ "a @ b"] exI [of _ r]) auto
qed

lemma matchstar_iff:
  "matchstar c re tx \<longleftrightarrow> (\<exists>a ts. tx = a @ ts \<and> (\<forall>t \<in> set a. sym c t) \<and> matchhere re ts)"
proof (induction tx)
  case Nil
  then show ?case by (subst matchstar.simps) simp
next
  case (Cons t tx)
  have "(\<exists>a ts. t # tx = a @ ts \<and> (\<forall>t \<in> set a. sym c t) \<and> matchhere re ts) \<longleftrightarrow>
    matchhere re (t # tx) \<or> (sym c t \<and> (\<exists>a ts. tx = a @ ts \<and> (\<forall>t \<in> set a. sym c t) \<and> matchhere re ts))"
    (is "?L \<longleftrightarrow> ?R")
  proof
    assume ?L
    then obtain a ts where a: "t # tx = a @ ts" "\<forall>t \<in> set a. sym c t" "matchhere re ts" by blast
    then show ?R by (cases a) auto
  next
    assume ?R
    then show ?L
    proof
      assume "matchhere re (t # tx)"
      then show ?L by - (rule exI [of _ "[]"], auto)
    next
      assume "sym c t \<and> (\<exists>a ts. tx = a @ ts \<and> (\<forall>t \<in> set a. sym c t) \<and> matchhere re ts)"
      then obtain a ts where "sym c t" "tx = a @ ts" "\<forall>t \<in> set a. sym c t" "matchhere re ts" by blast
      then show ?L by (intro exI [of _ "t # a"] exI [of _ ts]) auto
    qed
  qed
  moreover have "matchstar c re (t # tx) \<longleftrightarrow> matchhere re (t # tx) \<or> (sym c t \<and> matchstar c re tx)"
    by (subst matchstar.simps) (auto simp: sym_def)
  ultimately show ?case using Cons by simp
qed

lemma matchhere_accepts: "matchhere re tx \<longleftrightarrow> accepts (parse re) tx"
proof (induction re arbitrary: tx rule: parse.induct)
  case 1
  then show ?case by (subst matchhere.simps) (simp add: accepts_def)
next
  case (2 c)
  show ?case
  proof (cases "c = 36")
    case True
    then show ?thesis by (subst matchhere.simps) (auto simp: accepts_def)
  next
    case False
    have "matchhere [c] tx = (case tx of [] \<Rightarrow> False | t # ts \<Rightarrow> (c = 46 \<or> c = t) \<and> matchhere [] ts)"
      using False by (subst matchhere.simps) simp
    moreover have "matchhere [] ts" "accepts ([], False) ts" for ts
      by (simp_all add: matchhere.simps accepts_def)
    ultimately show ?thesis
      using False by (cases tx) (auto simp: accepts_Lit sym_def)
  qed
next
  case (3 c d re)
  obtain is1 e1 where p1: "parse re = (is1, e1)" by fastforce
  obtain is2 e2 where p2: "parse (d # re) = (is2, e2)" by fastforce
  show ?case
  proof (cases "d = 42")
    case True
    have "matchhere (c # d # re) tx = matchstar c re tx"
      using True by (subst matchhere.simps) simp
    then show ?thesis
      using True "3.IH"(1) p1 by (simp add: matchstar_iff accepts_Star)
  next
    case False
    have "matchhere (c # d # re) tx = (case tx of [] \<Rightarrow> False | t # ts \<Rightarrow> (c = 46 \<or> c = t) \<and> matchhere (d # re) ts)"
      using False by (subst matchhere.simps) simp
    then show ?thesis
      using False "3.IH"(2) p2 by (cases tx) (auto simp: accepts_Lit sym_def)
  qed
qed

lemma match_loop_iff: "match_loop re tx \<longleftrightarrow> (\<exists>a ts. tx = a @ ts \<and> matchhere re ts)"
proof (induction tx)
  case (Cons t tx)
  have "(\<exists>a ts. t # tx = a @ ts \<and> matchhere re ts) \<longleftrightarrow>
      matchhere re (t # tx) \<or> (\<exists>a ts. tx = a @ ts \<and> matchhere re ts)"
    by (auto simp: Cons_eq_append_conv)
  with Cons show ?case by simp
qed simp

text \<open>C38: the backtracking matcher of \<^verbatim>\<open>grep\<close> always terminates and accepts a line exactly when it
  can be cut in three so that the middle part is a word of the pattern, read as
  literals, wildcards and starred characters, with nothing before it under the start anchor
  and nothing after it under the end anchor.\<close>

theorem match_re_correct:
  "match_re re tx \<longleftrightarrow>
     (let anchored = (re \<noteq> [] \<and> hd re = 94); (items, ends) = parse (if anchored then tl re else re) in
      \<exists>a b r. tx = a @ b @ r \<and> (if anchored then a = [] else True) \<and> in_lang items b \<and> (if ends then r = [] else True))"
proof (cases "re \<noteq> [] \<and> hd re = 94")
  case True
  then show ?thesis
    by (auto simp: match_re_def matchhere_accepts accepts_def Let_def case_prod_beta split: if_splits)
next
  case False
  then have "match_re re tx \<longleftrightarrow> (\<exists>a ts. tx = a @ ts \<and> accepts (parse re) ts)"
    by (auto simp: match_re_def match_loop_iff matchhere_accepts)
  with False show ?thesis by (auto simp: accepts_def Let_def case_prod_beta)
qed

subsection \<open>What grep prints\<close>

fun lines_of :: "byte list \<Rightarrow> byte list \<Rightarrow> byte list list" where
  "lines_of acc [] = []"
| "lines_of acc (c # cs) = (if c = 10 then acc # lines_of [] cs else lines_of (acc @ [c]) cs)"

definition matching :: "byte list \<Rightarrow> byte list \<Rightarrow> byte list" where
  "matching re tx = concat (map (\<lambda>l. l @ [10]) (filter (match_re re) (lines_of [] tx)))"

lemma split_line_None: "0 \<notin> set p \<Longrightarrow> split_line p = None \<longleftrightarrow> 10 \<notin> set p"
  by (induction p) auto

lemma split_line_Some: "split_line p = Some (l, r) \<Longrightarrow> p = l @ 10 # r \<and> 10 \<notin> set l"
  by (induction p arbitrary: l) (auto split: if_splits)

lemma lines_of_no_newline: "10 \<notin> set p \<Longrightarrow> lines_of acc p = []"
  by (induction p arbitrary: acc) auto

lemma lines_of_line: "10 \<notin> set l \<Longrightarrow> lines_of acc (l @ 10 # r) = (acc @ l) # lines_of [] r"
  by (induction l arbitrary: acc) auto

text \<open>The scanner prints the matching complete lines and keeps the last, incomplete one.\<close>

lemma scan_splits:
  assumes "0 \<notin> set p"
  shows "\<exists>q. scan re p = (matching re p, q) \<and> 10 \<notin> set q \<and> 0 \<notin> set q
    \<and> (\<forall>r. matching re (p @ r) = matching re p @ matching re (q @ r))"
  using assms
proof (induction "length p" arbitrary: p rule: less_induct)
  case less
  show ?case
  proof (cases "split_line p")
    case None
    then have n: "10 \<notin> set p" using split_line_None [OF less.prems] by simp
    have "scan re p = ([], p)" using None by (subst scan.simps) simp
    moreover have "matching re p = []" using n by (simp add: matching_def lines_of_no_newline)
    ultimately show ?thesis using n less.prems by auto
  next
    case (Some lr)
    obtain l r where lr: "lr = (l, r)" by (cases lr)
    then have s: "split_line p = Some (l, r)" using Some by simp
    note p = split_line_Some [OF s]
    have "0 \<notin> set r" using less.prems p by auto
    from less.hyps [OF split_line_length [OF s] this] obtain q where
      q: "scan re r = (matching re r, q)" "10 \<notin> set q" "0 \<notin> set q"
        "\<forall>t. matching re (r @ t) = matching re r @ matching re (q @ t)" by blast
    have m: "matching re (p @ t) = (if match_re re l then l @ [10] else []) @ matching re (r @ t)" for t
      using p by (simp add: matching_def lines_of_line)
    have "scan re p = ((if match_re re l then l @ [10] else []) @ matching re r, q)"
      using s q(1) by (subst scan.simps) simp
    then have "scan re p = (matching re p, q)" using m [of "[]"] by simp
    moreover have "matching re (p @ t) = matching re p @ matching re (q @ t)" for t
      using m [of t] m [of "[]"] q(4) by simp
    ultimately show ?thesis using q(2,3) by blast
  qed
qed

text \<open>Segments that fit: each arrives within the room left in the buffer and completes a line.\<close>

fun fits :: "nat \<Rightarrow> byte list list \<Rightarrow> bool" where
  "fits m [] = True"
| "fits m (seg # segs) = (m + length seg < GREP_BUF \<and> 10 \<in> set seg \<and> 0 \<notin> set seg
     \<and> fits (length (takeWhile (\<lambda>c. c \<noteq> 10) (rev seg))) segs)"

lemma tail_length:
  fixes seg :: "byte list"
  assumes "10 \<in> set seg" "10 \<notin> set q" "p @ seg = x @ 10 # q"
  shows "length q = length (takeWhile (\<lambda>c. c \<noteq> 10) (rev seg))"
proof -
  have "takeWhile (\<lambda>c. c \<noteq> (10::byte)) (rev (p @ seg)) = rev q"
  proof -
    have "rev (p @ seg) = rev q @ 10 # rev x" unfolding assms(3) by simp
    then show ?thesis using assms(2) by (simp add: takeWhile_append)
  qed
  moreover have "takeWhile (\<lambda>c. c \<noteq> (10::byte)) (rev seg @ rev p) = takeWhile (\<lambda>c. c \<noteq> 10) (rev seg)"
    using assms(1) by (subst takeWhile_append1 [of 10]) auto
  ultimately have "takeWhile (\<lambda>c. c \<noteq> (10::byte)) (rev seg) = rev q" by simp
  then show ?thesis by simp
qed

lemma scan_tail:
  assumes "0 \<notin> set p" "10 \<in> set p"
  shows "\<exists>x. p = x @ 10 # snd (scan re p)"
  using assms
proof (induction "length p" arbitrary: p rule: less_induct)
  case less
  then obtain l r where s: "split_line p = Some (l, r)"
    using split_line_None [OF less.prems(1)] by (cases "split_line p") auto
  note p = split_line_Some [OF s]
  have sc: "snd (scan re p) = snd (scan re r)"
    using s by (subst scan.simps) (simp add: case_prod_beta Let_def)
  show ?case
  proof (cases "10 \<in> set r")
    case True
    then obtain x where "r = x @ 10 # snd (scan re r)"
      using less.hyps [OF split_line_length [OF s]] less.prems(1) p by auto
    then show ?thesis using p sc by (intro exI [of _ "l @ 10 # x"]) simp
  next
    case False
    then have "scan re r = ([], r)"
      using split_line_None [of r] less.prems(1) p by (subst scan.simps) auto
    then show ?thesis using p sc by auto
  qed
qed

lemma grep_loop_correct:
  assumes "fits (length buf) segs" "10 \<notin> set buf" "0 \<notin> set buf"
  shows "grep_loop re buf segs = matching re (buf @ concat segs)"
  using assms
proof (induction segs arbitrary: buf)
  case Nil
  then show ?case by (simp add: matching_def lines_of_no_newline)
next
  case (Cons seg segs)
  let ?p = "buf @ seg"
  have f: "length buf + length seg < GREP_BUF" "10 \<in> set seg" "0 \<notin> set seg" using Cons.prems(1) by auto
  have nz: "0 \<notin> set ?p" "10 \<in> set ?p" using f Cons.prems by auto
  obtain q where q: "scan re ?p = (matching re ?p, q)" "10 \<notin> set q" "0 \<notin> set q"
    "\<forall>r. matching re (?p @ r) = matching re ?p @ matching re (q @ r)"
    using scan_splits [OF nz(1)] by blast
  obtain x where "?p = x @ 10 # q" using scan_tail [OF nz, of re] q(1) by auto
  then have len: "length q = length (takeWhile (\<lambda>c. c \<noteq> 10) (rev seg))"
    using tail_length [OF f(2) q(2)] by blast
  have "grep_step re ?p = (matching re ?p, q)"
    using q(1) split_line_None [OF nz(1)] nz(2) by (auto simp: grep_step_def)
  moreover have "seg \<noteq> []" "length seg \<le> GREP_BUF - length buf - 1" "\<not> GREP_BUF \<le> Suc (length buf)"
    using f by (cases seg; auto)+
  ultimately have "grep_loop re buf (seg # segs) = matching re ?p @ grep_loop re q segs"
    by simp
  also have "grep_loop re q segs = matching re (q @ concat segs)"
    by (rule Cons.IH) (use Cons.prems(1) len q in auto)
  finally show ?case using q(4) by simp
qed



text \<open>a read that completes no line is thrown away: of the line \<^verbatim>\<open>ab\<close> delivered in two reads
  only the second part is searched, so a pattern anchored to the start matches in its middle.\<close>

theorem grep_loses_partial_lines:
  "grep [94, 98] [[97], [98, 10]] = [98, 10] \<and> matching [94, 98] (concat [[97], [98, 10]]) = []"
proof
  have m: "match_re [94, 98] [98]"
    by (simp add: match_re_def matchhere.simps)
  have s: "scan [94, 98] [98, 10] = ([98, 10], [])"
    using m by (simp add: scan.simps)
  have "grep_step [94, 98] [97] = ([], [])" "grep_step [94, 98] [98, 10] = ([98, 10], [])"
    using s by (simp_all add: grep_step_def scan.simps [of _ "[97]"])
  then show "grep [94, 98] [[97], [98, 10]] = [98, 10]" by (simp add: grep_def GREP_BUF_def)
  show "matching [94, 98] (concat [[97], [98, 10]]) = []"
    by (simp add: matching_def match_re_def matchhere.simps)
qed

subsection \<open>What wc counts\<close>

fun word_starts :: "bool \<Rightarrow> byte list \<Rightarrow> nat" where
  "word_starts prev [] = 0"
| "word_starts prev (b # bs) =
     (if wc_space b then word_starts False bs else (if prev then 0 else 1) + word_starts True bs)"

lemma fold_wc_byte:
  "wc_l (fold wc_byte bs s) = wc_l s + length (filter (\<lambda>b. b = 10) bs)
   \<and> wc_c (fold wc_byte bs s) = wc_c s + length bs
   \<and> wc_w (fold wc_byte bs s) = wc_w s + word_starts (wc_inword s) bs"
  by (induction bs arbitrary: s) (auto simp: wc_byte_def Let_def)

lemma wc_loop_concat: "wc_loop segs s = fold wc_byte (concat segs) s"
  by (induction segs arbitrary: s) auto

text \<open>\<^verbatim>\<open>wc\<close> reports the number of newlines, of maximal runs of non-space bytes and of bytes of
  the whole input, whatever the sizes of the reads.\<close>

theorem wc_counts:
  "wc segs = (length (filter (\<lambda>b. b = 10) (concat segs)), word_starts False (concat segs), length (concat segs))"
  using fold_wc_byte [of "concat segs" "\<lparr>wc_l = 0, wc_w = 0, wc_c = 0, wc_inword = False\<rparr>"]
  by (simp add: wc_def wc_loop_concat Let_def)

end
