(* ===== verification/Vm.thy ===== *)
theory Vm
  imports Bytes
begin

unbundle bit_operations_syntax

text \<open>
  Physical pages (\<^verbatim>\<open>p4/kalloc.c\<close>) and page tables (\<^verbatim>\<open>p4/vm.c\<close>), with the page encryption this kernel
  adds.  A page is named by its kernel virtual address; its contents are the 4096 bytes or,
  where the kernel laid a table over it, the 1024 entries, each readable as the other.  The
  linker symbols \<^verbatim>\<open>end\<close> and \<^verbatim>\<open>data\<close> are parameters.  A use of a null pointer as a page or as an
  entry is undefined in C and a stop here.  Messages to the console are left out.
\<close>

subsection \<open>Address arithmetic (mmu.h, memlayout.h)\<close>

definition PGSIZE :: u32 where "PGSIZE = 4096"
definition KERNBASE_V :: u32 where "KERNBASE_V = 0x80000000"
definition EXTMEM :: u32 where "EXTMEM = 0x100000"
definition PHYSTOP :: u32 where "PHYSTOP = 0xE000000"
definition DEVSPACE :: u32 where "DEVSPACE = 0xFE000000"
definition PTE_P :: u32 where "PTE_P = 0x001"
definition PTE_W :: u32 where "PTE_W = 0x002"
definition PTE_U :: u32 where "PTE_U = 0x004"
definition PTE_A :: u32 where "PTE_A = 0x020"
definition PTE_E :: u32 where "PTE_E = 0x400"

definition V2P :: "u32 \<Rightarrow> u32" where "V2P a = a - KERNBASE_V"
definition P2V :: "u32 \<Rightarrow> u32" where "P2V a = a + KERNBASE_V"
definition PDX :: "u32 \<Rightarrow> nat" where "PDX va = unat (drop_bit 22 va AND 0x3FF)"
definition PTX :: "u32 \<Rightarrow> nat" where "PTX va = unat (drop_bit 12 va AND 0x3FF)"
definition OFFSET :: "u32 \<Rightarrow> u32" where "OFFSET va = va AND 0xFFF"
definition PGADDR :: "u32 \<Rightarrow> u32 \<Rightarrow> u32 \<Rightarrow> u32" where
  "PGADDR d t off = push_bit 22 d OR push_bit 12 t OR off"
definition PGROUNDUP :: "u32 \<Rightarrow> u32" where "PGROUNDUP sz = (sz + 4095) AND NOT 4095"
definition PGROUNDDOWN :: "u32 \<Rightarrow> u32" where "PGROUNDDOWN a = a AND NOT 4095"
definition PTE_ADDR :: "u32 \<Rightarrow> u32" where "PTE_ADDR pte = pte AND NOT 0xFFF"
definition PTE_FLAGS :: "u32 \<Rightarrow> u32" where "PTE_FLAGS pte = pte AND 0xFFF"

subsection \<open>Memory\<close>

datatype frame = Bytes "byte list" | Words "u32 list"

fun words_of :: "byte list \<Rightarrow> u32 list" where
  "words_of (a # b # c # d # r) = un32 [a, b, c, d] # words_of r"
| "words_of _ = []"

record machine =
  frames :: "u32 \<Rightarrow> frame"
  freelist :: "u32 list"
  use_lock :: bool

definition page_bytes :: "machine \<Rightarrow> u32 \<Rightarrow> byte list" where
  "page_bytes st v = (case frames st v of Bytes bs \<Rightarrow> bs | Words ws \<Rightarrow> concat (map le32 ws))"

definition page_words :: "machine \<Rightarrow> u32 \<Rightarrow> u32 list" where
  "page_words st v = (case frames st v of Bytes bs \<Rightarrow> words_of bs | Words ws \<Rightarrow> ws)"

definition set_frame :: "u32 \<Rightarrow> frame \<Rightarrow> machine \<Rightarrow> machine" where
  "set_frame v f st = st\<lparr>frames := (frames st)(v := f)\<rparr>"

definition set_entry :: "u32 \<Rightarrow> nat \<Rightarrow> u32 \<Rightarrow> machine \<Rightarrow> machine" where
  "set_entry v i w st = set_frame v (Words ((page_words st v)[i := w])) st"

subsection \<open>Page allocator\<close>

definition kfree :: "u32 \<Rightarrow> u32 \<Rightarrow> machine \<Rightarrow> machine outcome" where
  "kfree kend v st =
     (if v mod PGSIZE \<noteq> 0 \<or> v < kend \<or> V2P v \<ge> PHYSTOP then Panic ''kfree''
      else let st = set_frame v (Bytes (replicate 4096 1)) st
           in Ok (st\<lparr>freelist := v # freelist st\<rparr>))"

definition kalloc :: "machine \<Rightarrow> u32 option \<times> machine" where
  "kalloc st =
     (case freelist st of [] \<Rightarrow> (None, st) | r # rs \<Rightarrow> (Some r, st\<lparr>freelist := rs\<rparr>))"

text \<open>\<^verbatim>\<open>freerange\<close> frees every whole page of \<open>[vstart, vend)\<close>; the number of iterations is the number
  of steps of \<^verbatim>\<open>PGSIZE\<close> that stay within \<^verbatim>\<open>vend\<close>.\<close>

fun freerange_loop :: "u32 \<Rightarrow> nat \<Rightarrow> u32 \<Rightarrow> machine \<Rightarrow> machine outcome" where
  "freerange_loop kend 0 p st = Ok st"
| "freerange_loop kend (Suc n) p st =
     and_then (kfree kend p st) (freerange_loop kend n (p + PGSIZE))"

definition freerange :: "u32 \<Rightarrow> u32 \<Rightarrow> u32 \<Rightarrow> machine \<Rightarrow> machine outcome" where
  "freerange kend vstart vend st =
     (let p = PGROUNDUP vstart in
      freerange_loop kend ((unat vend - unat p) div 4096) p st)"

definition kinit1 :: "u32 \<Rightarrow> u32 \<Rightarrow> u32 \<Rightarrow> machine \<Rightarrow> machine outcome" where
  "kinit1 kend vstart vend st = freerange kend vstart vend (st\<lparr>use_lock := False\<rparr>)"

definition kinit2 :: "u32 \<Rightarrow> u32 \<Rightarrow> u32 \<Rightarrow> machine \<Rightarrow> machine outcome" where
  "kinit2 kend vstart vend st =
     and_then (freerange kend vstart vend st) (\<lambda>st. Ok (st\<lparr>use_lock := True\<rparr>))"

subsection \<open>Page tables\<close>

text \<open>An entry is named by its table page and its index; the null pointer is \<open>None\<close>.\<close>

definition walkpgdir :: "u32 \<Rightarrow> u32 \<Rightarrow> bool \<Rightarrow> machine \<Rightarrow> (u32 \<times> nat) option \<times> machine" where
  "walkpgdir pgdir va alloc st =
     (let pde = page_words st pgdir ! PDX va in
      if pde AND PTE_P \<noteq> 0 then (Some (P2V (PTE_ADDR pde), PTX va), st)
      else if \<not> alloc then (None, st)
      else case kalloc st of
             (None, st) \<Rightarrow> (None, st)
           | (Some pgtab, st) \<Rightarrow>
               (let st = set_frame pgtab (Words (replicate 1024 0)) st
                in (Some (pgtab, PTX va),
                    set_entry pgdir (PDX va) (V2P pgtab OR PTE_P OR PTE_W OR PTE_U) st)))"

definition pte_get :: "machine \<Rightarrow> u32 \<times> nat \<Rightarrow> u32" where
  "pte_get st e = page_words st (fst e) ! snd e"

definition pte_set :: "u32 \<times> nat \<Rightarrow> u32 \<Rightarrow> machine \<Rightarrow> machine" where
  "pte_set e w st = set_entry (fst e) (snd e) w st"

text \<open>The loop of \<^verbatim>\<open>mappages\<close> ends at \<^verbatim>\<open>a == last\<close>; both are page-aligned, so \<open>n\<close> pages are left when
  \<^verbatim>\<open>last - a\<close> is \<open>n\<close> pages.\<close>

fun mappages_loop :: "u32 \<Rightarrow> u32 \<Rightarrow> nat \<Rightarrow> u32 \<Rightarrow> u32 \<Rightarrow> machine \<Rightarrow> (int \<times> machine) outcome" where
  "mappages_loop pgdir a n pa perm st =
     (case walkpgdir pgdir a True st of
        (None, st) \<Rightarrow> Ok (- 1, st)
      | (Some pte, st) \<Rightarrow>
          (if pte_get st pte AND (PTE_P OR PTE_E) \<noteq> 0 then Panic ''p4Debug, remapping page''
           else let st = pte_set pte (if perm AND PTE_E \<noteq> 0 then pa OR perm OR PTE_E
                                      else pa OR perm OR PTE_P) st
                in (case n of 0 \<Rightarrow> Ok (0, st)
                    | Suc n \<Rightarrow> mappages_loop pgdir (a + PGSIZE) n (pa + PGSIZE) perm st)))"

definition mappages :: "u32 \<Rightarrow> u32 \<Rightarrow> u32 \<Rightarrow> u32 \<Rightarrow> u32 \<Rightarrow> machine \<Rightarrow> (int \<times> machine) outcome" where
  "mappages pgdir va sz pa perm st =
     (let a = PGROUNDDOWN va; end = PGROUNDDOWN (va + sz - 1)
      in mappages_loop pgdir a (unat (end - a) div 4096) pa perm st)"

text \<open>The loop of \<^verbatim>\<open>deallocuvm\<close>.  The address goes up by a page, or to the next table when there is
  none, so the distance to \<^verbatim>\<open>oldsz\<close> shrinks; \<open>fuel\<close> is the number of pages of the address
  space, and running out of it stands for a loop that does not end.\<close>

fun deallocuvm_loop :: "u32 \<Rightarrow> nat \<Rightarrow> u32 \<Rightarrow> u32 \<Rightarrow> u32 \<Rightarrow> machine \<Rightarrow> machine outcome" where
  "deallocuvm_loop kend 0 pgdir a oldsz st = Wait"
| "deallocuvm_loop kend (Suc fuel) pgdir a oldsz st =
     (if \<not> a < oldsz then Ok st
      else case walkpgdir pgdir a False st of
             (None, st) \<Rightarrow>
               deallocuvm_loop kend fuel pgdir (PGADDR (of_nat (PDX a) + 1) 0 0 - PGSIZE + PGSIZE) oldsz st
           | (Some pte, st) \<Rightarrow>
               (if pte_get st pte AND (PTE_P OR PTE_E) \<noteq> 0
                then let pa = PTE_ADDR (pte_get st pte) in
                     if pa = 0 then Panic ''kfree''
                     else and_then (kfree kend (P2V pa) st) (\<lambda>st.
                            deallocuvm_loop kend fuel pgdir (a + PGSIZE) oldsz (pte_set pte 0 st))
                else deallocuvm_loop kend fuel pgdir (a + PGSIZE) oldsz st))"

definition NPAGES :: nat where "NPAGES = 1048576"

definition deallocuvm :: "u32 \<Rightarrow> u32 \<Rightarrow> u32 \<Rightarrow> u32 \<Rightarrow> machine \<Rightarrow> (u32 \<times> machine) outcome" where
  "deallocuvm kend pgdir oldsz newsz st =
     (if newsz \<ge> oldsz then Ok (oldsz, st)
      else and_then (deallocuvm_loop kend NPAGES pgdir (PGROUNDUP newsz) oldsz st) (\<lambda>st. Ok (newsz, st)))"

fun freevm_loop :: "u32 \<Rightarrow> u32 \<Rightarrow> nat list \<Rightarrow> machine \<Rightarrow> machine outcome" where
  "freevm_loop kend pgdir [] st = Ok st"
| "freevm_loop kend pgdir (i # is) st =
     (let pde = page_words st pgdir ! i in
      if pde AND (PTE_P OR PTE_E) \<noteq> 0
      then and_then (kfree kend (P2V (PTE_ADDR pde)) st) (freevm_loop kend pgdir is)
      else freevm_loop kend pgdir is st)"

definition freevm :: "u32 \<Rightarrow> u32 \<Rightarrow> machine \<Rightarrow> machine outcome" where
  "freevm kend pgdir st =
     (if pgdir = 0 then Panic ''freevm: no pgdir''
      else and_then (deallocuvm kend pgdir KERNBASE_V 0 st) (\<lambda>(_, st).
           and_then (freevm_loop kend pgdir [0..<1024] st) (\<lambda>st.
           kfree kend pgdir st)))"

definition kmap :: "u32 \<Rightarrow> (u32 \<times> u32 \<times> u32 \<times> u32) list" where
  "kmap data = [(KERNBASE_V, 0, EXTMEM, PTE_W),
                (KERNBASE_V + EXTMEM, V2P (KERNBASE_V + EXTMEM), V2P data, 0),
                (data, V2P data, PHYSTOP, PTE_W),
                (DEVSPACE, DEVSPACE, 0, PTE_W)]"

fun setupkvm_loop :: "u32 \<Rightarrow> u32 \<Rightarrow> (u32 \<times> u32 \<times> u32 \<times> u32) list \<Rightarrow> machine \<Rightarrow> (u32 option \<times> machine) outcome" where
  "setupkvm_loop kend pgdir [] st = Ok (Some pgdir, st)"
| "setupkvm_loop kend pgdir ((virt, phys_start, phys_end, perm) # k) st =
     and_then (mappages pgdir virt (phys_end - phys_start) phys_start perm st) (\<lambda>(r, st).
       if r < 0 then and_then (freevm kend pgdir st) (\<lambda>st. Ok (None, st))
       else setupkvm_loop kend pgdir k st)"

definition setupkvm :: "u32 \<Rightarrow> u32 \<Rightarrow> machine \<Rightarrow> (u32 option \<times> machine) outcome" where
  "setupkvm kend data st =
     (case kalloc st of
        (None, st) \<Rightarrow> Ok (None, st)
      | (Some pgdir, st) \<Rightarrow>
          (let st = set_frame pgdir (Words (replicate 1024 0)) st in
           if P2V PHYSTOP > DEVSPACE then Panic ''PHYSTOP too high''
           else setupkvm_loop kend pgdir (kmap data) st))"

definition inituvm :: "u32 \<Rightarrow> byte list \<Rightarrow> machine \<Rightarrow> machine outcome" where
  "inituvm pgdir init st =
     (if length init \<ge> 4096 then Panic ''inituvm: more than a page''
      else case kalloc st of
             (None, st) \<Rightarrow> Panic ''null page''
           | (Some mem, st) \<Rightarrow>
               and_then (mappages pgdir 0 PGSIZE (V2P mem) (PTE_W OR PTE_U)
                           (set_frame mem (Bytes (replicate 4096 0)) st)) (\<lambda>(_, st).
                 Ok (set_frame mem (Bytes (put_bytes 0 init (page_bytes st mem))) st)))"

text \<open>\<open>readi off n\<close> reads the inode, with the state of the file system passed along; it returns the number of
  bytes and the bytes it has stored.\<close>

fun loaduvm_loop :: "u32 \<Rightarrow> u32 \<Rightarrow> (nat \<Rightarrow> nat \<Rightarrow> 'e \<Rightarrow> (int \<times> byte list \<times> 'e) outcome) \<Rightarrow> u32 \<Rightarrow> nat \<Rightarrow> nat \<Rightarrow> nat
    \<Rightarrow> machine \<Rightarrow> 'e \<Rightarrow> (int \<times> machine \<times> 'e) outcome" where
  "loaduvm_loop pgdir addr readi offset sz i 0 st e = Ok (0, st, e)"
| "loaduvm_loop pgdir addr readi offset sz i (Suc k) st e =
     (case walkpgdir pgdir (addr + of_nat i) False st of
        (None, st) \<Rightarrow> Panic ''loaduvm: address should exist''
      | (Some pte, st) \<Rightarrow>
          (let v = P2V (PTE_ADDR (pte_get st pte));
               n = (if sz - i < 4096 then sz - i else 4096)
           in and_then (readi (unat (offset + of_nat i)) n e) (\<lambda>(r, bs, e).
              let st = set_frame v (Bytes (put_bytes 0 bs (page_bytes st v))) st
              in if r \<noteq> int n then Ok (- 1, st, e)
                 else loaduvm_loop pgdir addr readi offset sz (i + 4096) k st e)))"

definition loaduvm :: "u32 \<Rightarrow> u32 \<Rightarrow> (nat \<Rightarrow> nat \<Rightarrow> 'e \<Rightarrow> (int \<times> byte list \<times> 'e) outcome) \<Rightarrow> u32 \<Rightarrow> nat
    \<Rightarrow> machine \<Rightarrow> 'e \<Rightarrow> (int \<times> machine \<times> 'e) outcome" where
  "loaduvm pgdir addr readi offset sz st e =
     (if addr mod PGSIZE \<noteq> 0 then Panic ''loaduvm: addr must be page aligned''
      else loaduvm_loop pgdir addr readi offset sz 0 ((sz + 4095) div 4096) st e)"

fun allocuvm_loop :: "u32 \<Rightarrow> u32 \<Rightarrow> nat \<Rightarrow> u32 \<Rightarrow> u32 \<Rightarrow> u32 \<Rightarrow> machine \<Rightarrow> (u32 \<times> machine) outcome" where
  "allocuvm_loop kend pgdir 0 a oldsz newsz st = Ok (newsz, st)"
| "allocuvm_loop kend pgdir (Suc n) a oldsz newsz st =
     (case kalloc st of
        (None, st) \<Rightarrow> and_then (deallocuvm kend pgdir newsz oldsz st) (\<lambda>(_, st). Ok (0, st))
      | (Some mem, st) \<Rightarrow>
          and_then (mappages pgdir a PGSIZE (V2P mem) (PTE_W OR PTE_U)
                      (set_frame mem (Bytes (replicate 4096 0)) st)) (\<lambda>(r, st).
            if r < 0
            then and_then (deallocuvm kend pgdir newsz oldsz st) (\<lambda>(_, st).
                 and_then (kfree kend mem st) (\<lambda>st. Ok (0, st)))
            else allocuvm_loop kend pgdir n (a + PGSIZE) oldsz newsz st))"

text \<open>The loop runs while \<^verbatim>\<open>a < newsz\<close>, one page per step.\<close>

definition allocuvm :: "u32 \<Rightarrow> u32 \<Rightarrow> u32 \<Rightarrow> u32 \<Rightarrow> machine \<Rightarrow> (u32 \<times> machine) outcome" where
  "allocuvm kend pgdir oldsz newsz st =
     (if newsz \<ge> KERNBASE_V then Ok (0, st)
      else if newsz < oldsz then Ok (oldsz, st)
      else let a = PGROUNDUP oldsz in
           allocuvm_loop kend pgdir ((unat newsz - unat a + 4095) div 4096) a oldsz newsz st)"

definition clearpteu :: "u32 \<Rightarrow> u32 \<Rightarrow> machine \<Rightarrow> machine outcome" where
  "clearpteu pgdir uva st =
     (case walkpgdir pgdir uva False st of
        (None, st) \<Rightarrow> Panic ''clearpteu''
      | (Some pte, st) \<Rightarrow> Ok (pte_set pte (pte_get st pte AND NOT PTE_U) st))"

fun copyuvm_loop :: "u32 \<Rightarrow> u32 \<Rightarrow> u32 \<Rightarrow> nat \<Rightarrow> u32 \<Rightarrow> machine \<Rightarrow> (u32 option \<times> machine) outcome" where
  "copyuvm_loop kend pgdir d 0 i st = Ok (Some d, st)"
| "copyuvm_loop kend pgdir d (Suc n) i st =
     (case walkpgdir pgdir i False st of
        (None, st) \<Rightarrow> Panic ''p4Debug: inside copyuvm, pte should exist''
      | (Some pte, st) \<Rightarrow>
          (let e = pte_get st pte in
           if e AND (PTE_P OR PTE_E) = 0 then Panic ''p4Debug: inside copyuvm, page not present''
           else case kalloc st of
                  (None, st) \<Rightarrow> and_then (freevm kend d st) (\<lambda>st. Ok (None, st))
                | (Some mem, st) \<Rightarrow>
                    and_then (mappages d i PGSIZE (V2P mem) (PTE_FLAGS e)
                        (set_frame mem (Bytes (page_bytes st (P2V (PTE_ADDR e)))) st)) (\<lambda>(r, st).
                      if r < 0
                      then and_then (kfree kend mem st) (\<lambda>st.
                           and_then (freevm kend d st) (\<lambda>st. Ok (None, st)))
                      else copyuvm_loop kend pgdir d n (i + PGSIZE) st)))"

definition copyuvm :: "u32 \<Rightarrow> u32 \<Rightarrow> u32 \<Rightarrow> u32 \<Rightarrow> machine \<Rightarrow> (u32 option \<times> machine) outcome" where
  "copyuvm kend data pgdir sz st =
     and_then (setupkvm kend data st) (\<lambda>(d, st).
       case d of None \<Rightarrow> Ok (None, st)
       | Some d \<Rightarrow> copyuvm_loop kend pgdir d ((unat sz + 4095) div 4096) 0 st)"

subsection \<open>User memory seen from the kernel\<close>

text \<open>The null result is 0, as in C; a null entry is dereferenced.\<close>

definition uva2ka :: "u32 \<Rightarrow> u32 \<Rightarrow> machine \<Rightarrow> u32 outcome" where
  "uva2ka pgdir uva st =
     (case walkpgdir pgdir uva False st of
        (None, st) \<Rightarrow> Panic ''null pte''
      | (Some pte, st) \<Rightarrow>
          (let e = pte_get st pte in
           if (e AND PTE_P) OR (e AND PTE_E) = 0 then Ok 0
           else if e AND PTE_U = 0 then Ok 0
           else Ok (P2V (PTE_ADDR e))))"

text \<open>The bytes to copy are given as a list; the loop strictly shortens it.\<close>

function copyout_loop :: "u32 \<Rightarrow> u32 \<Rightarrow> byte list \<Rightarrow> machine \<Rightarrow> (int \<times> machine) outcome" where
  "copyout_loop pgdir va buf st =
     (if buf = [] then Ok (0, st)
      else let va0 = PGROUNDDOWN va in
           case uva2ka pgdir va0 st of
             Panic m \<Rightarrow> Panic m
           | Wait \<Rightarrow> Wait
           | Ok pa0 \<Rightarrow>
               (if pa0 = 0 then Ok (- 1, st)
                else let off = unat (va - va0);
                         n = (if 4096 - off > length buf then length buf else 4096 - off);
                         st = set_frame pa0 (Bytes (put_bytes off (take n buf) (page_bytes st pa0))) st
                     in if n = 0 then Ok (0, st)
                        else copyout_loop pgdir (va0 + PGSIZE) (drop n buf) st))"
  by auto
termination by (relation "measure (\<lambda>(pgdir, va, buf, st). length buf)") (auto split: if_splits)

declare copyout_loop.simps [simp del]

definition copyout :: "u32 \<Rightarrow> u32 \<Rightarrow> byte list \<Rightarrow> machine \<Rightarrow> (int \<times> machine) outcome" where
  "copyout pgdir va p st = copyout_loop pgdir va p st"

subsection \<open>Page encryption\<close>

definition translate_and_set :: "u32 \<Rightarrow> u32 \<Rightarrow> machine \<Rightarrow> (u32 \<times> machine) outcome" where
  "translate_and_set pgdir uva st =
     (case walkpgdir pgdir uva False st of
        (None, st) \<Rightarrow> Panic ''null pte''
      | (Some pte, st) \<Rightarrow>
          (let e = pte_get st pte in
           if e AND PTE_P = 0 \<and> e AND PTE_E = 0 then Ok (0, st)
           else if e AND PTE_E \<noteq> 0 then Ok (0, st)
           else if e AND PTE_U = 0 then Ok (0, st)
           else let e = (e OR PTE_E) AND NOT PTE_P
                in Ok (P2V (PTE_ADDR e), pte_set pte e st)))"

text \<open>The loop over the page through its user address; the page is present at that point, so the
  bytes that change are those of the page its entry names.\<close>

definition xor_page :: "u32 \<Rightarrow> machine \<Rightarrow> machine" where
  "xor_page v st = set_frame v (Bytes (map (\<lambda>b. b XOR 0xFF) (page_bytes st v))) st"

definition mdecrypt :: "u32 \<Rightarrow> u32 \<Rightarrow> machine \<Rightarrow> (int \<times> machine) outcome" where
  "mdecrypt pgdir virtual_addr st =
     (case walkpgdir pgdir virtual_addr False st of
        (None, st) \<Rightarrow> Ok (- 1, st)
      | (Some pte, st) \<Rightarrow>
          (if pte_get st pte = 0 then Ok (- 1, st)
           else let st = pte_set pte ((pte_get st pte AND NOT PTE_E) OR PTE_P) st;
                    va = PGROUNDDOWN virtual_addr
                in and_then (uva2ka pgdir va st) (\<lambda>kvp.
                     if kvp = 0 \<or> page_bytes st kvp ! 0 = 0 then Ok (- 1, st)
                     else Ok (0, xor_page kvp st))))"

fun mencrypt_check :: "u32 \<Rightarrow> nat \<Rightarrow> u32 \<Rightarrow> machine \<Rightarrow> bool outcome" where
  "mencrypt_check pgdir 0 slider st = Ok True"
| "mencrypt_check pgdir (Suc n) slider st =
     and_then (uva2ka pgdir slider st) (\<lambda>kvp.
       if kvp = 0 then Ok False else mencrypt_check pgdir n (slider + PGSIZE) st)"

fun mencrypt_loop :: "u32 \<Rightarrow> nat \<Rightarrow> u32 \<Rightarrow> machine \<Rightarrow> (int \<times> machine) outcome" where
  "mencrypt_loop pgdir 0 slider st = Ok (0, st)"
| "mencrypt_loop pgdir (Suc n) slider st =
     and_then (uva2ka pgdir slider st) (\<lambda>kvp.
     case walkpgdir pgdir slider False st of
       (None, st) \<Rightarrow> Panic ''null pte''
     | (Some pte, st) \<Rightarrow>
         (if pte_get st pte AND PTE_E \<noteq> 0 then mencrypt_loop pgdir n (slider + PGSIZE) st
          else let st = xor_page (P2V (PTE_ADDR (pte_get st pte))) st in
               and_then (translate_and_set pgdir slider st) (\<lambda>(v, st).
                 if v = 0 then Ok (- 1, st) else mencrypt_loop pgdir n (slider + PGSIZE) st)))"

definition mencrypt :: "u32 \<Rightarrow> u32 \<Rightarrow> nat \<Rightarrow> machine \<Rightarrow> (int \<times> machine) outcome" where
  "mencrypt pgdir virtual_addr len st =
     (let va = PGROUNDDOWN virtual_addr in
      and_then (mencrypt_check pgdir len va st) (\<lambda>ok.
        if \<not> ok then Ok (- 1, st) else mencrypt_loop pgdir len va st))"

record pt_entry =
  pt_pdx :: nat
  pt_ptx :: nat
  pt_ppage :: nat
  pt_present :: bool
  pt_writable :: bool
  pt_encrypted :: bool
  pt_ref :: bool

definition entry_of :: "u32 \<Rightarrow> u32 \<Rightarrow> pt_entry" where
  "entry_of uva e = \<lparr>pt_pdx = PDX uva, pt_ptx = PTX uva, pt_ppage = unat (drop_bit 12 e),
     pt_present = (e AND PTE_P \<noteq> 0), pt_writable = (e AND PTE_W \<noteq> 0),
     pt_encrypted = (e AND PTE_E \<noteq> 0), pt_ref = (e AND PTE_A \<noteq> 0)\<rparr>"

text \<open>The loop of \<^verbatim>\<open>getpgtable\<close> goes down by pages and leaves only at address 0 or with \<^verbatim>\<open>num\<close>
  entries, tested after an entry was stored: it may run for ever, which is \<open>None\<close>.\<close>

partial_function (option) getpgtable_loop ::
    "u32 \<Rightarrow> machine \<Rightarrow> int \<Rightarrow> u32 \<Rightarrow> pt_entry list \<Rightarrow> pt_entry list outcome option" where
  "getpgtable_loop pgdir st num uva acc =
     (case fst (walkpgdir pgdir uva False st) of
        None \<Rightarrow> Some (Panic ''null pte'')
      | Some pte \<Rightarrow>
          (let e = pte_get st pte in
           if e AND PTE_U = 0 \<or> e AND (PTE_P OR PTE_E) = 0
           then getpgtable_loop pgdir st num (uva - PGSIZE) acc
           else let acc = acc @ [entry_of uva e] in
                if uva = 0 \<or> int (length acc) = num then Some (Ok acc)
                else getpgtable_loop pgdir st num (uva - PGSIZE) acc))"

definition getpgtable :: "u32 \<Rightarrow> u32 \<Rightarrow> int \<Rightarrow> machine \<Rightarrow> pt_entry list outcome option" where
  "getpgtable pgdir sz num st =
     getpgtable_loop pgdir st num (if sz mod PGSIZE = 0 then sz - PGSIZE else PGROUNDDOWN sz) []"

definition dump_rawphymem :: "u32 \<Rightarrow> u32 \<Rightarrow> u32 \<Rightarrow> machine \<Rightarrow> (int \<times> machine) outcome" where
  "dump_rawphymem pgdir physical_addr buffer st =
     and_then (copyout pgdir buffer (page_bytes st (PGROUNDDOWN (P2V physical_addr))) st) (\<lambda>(r, st).
       Ok (if r \<noteq> 0 then - 1 else 0, st))"

text \<open>The page-fault case of \<^verbatim>\<open>trap\<close> in \<^verbatim>\<open>p4/trap.c\<close>.\<close>

definition trap_pgflt :: "u32 \<Rightarrow> u32 \<Rightarrow> machine \<Rightarrow> machine outcome" where
  "trap_pgflt pgdir cr2 st =
     and_then (mdecrypt pgdir cr2 st) (\<lambda>(r, st). if r \<noteq> 0 then Panic ''p4Debug: Memory fault'' else Ok st)"

subsection \<open>Entries and aligned addresses\<close>

definition aligned :: "u32 \<Rightarrow> bool" where
  "aligned x \<longleftrightarrow> take_bit 12 x = 0"

definition small :: "u32 \<Rightarrow> bool" where
  "small f \<longleftrightarrow> drop_bit 12 f = 0"

lemma fff_mask: "(0xFFF :: u32) = mask 12" "(4095 :: u32) = mask 12"
  by (simp_all add: mask_eq_exp_minus_1)

lemma bit_page: "bit (x AND NOT 0xFFF :: u32) n \<longleftrightarrow> bit x n \<and> 12 \<le> n"
  "bit (x AND NOT 4095 :: u32) n \<longleftrightarrow> bit x n \<and> 12 \<le> n"
  unfolding fff_mask using bit_imp_le_length [of x n] by (auto simp: bit_simps)

lemma PTE_ADDR_OR: "aligned x \<Longrightarrow> small f \<Longrightarrow> PTE_ADDR (x OR f) = x"
proof (rule bit_word_eqI)
  fix n assume a: "aligned x" "small f" and n: "n < LENGTH(32)"
  have "\<not> bit x n" if "n < 12"
  proof -
    have "bit (take_bit 12 x) n = bit x n" using that by (simp add: bit_take_bit_iff)
    with a(1) show ?thesis by (simp add: aligned_def)
  qed
  moreover have "\<not> bit f n" if "12 \<le> n"
  proof -
    have "bit (drop_bit 12 f) (n - 12) = bit f n" using that by (simp add: bit_drop_bit_eq)
    with a(2) show ?thesis by (simp add: small_def)
  qed
  ultimately show "bit (PTE_ADDR (x OR f)) n = bit x n"
    unfolding PTE_ADDR_def bit_page by (cases "n < 12") (auto simp: bit_or_iff)
qed

lemma aligned_iff: "aligned x \<longleftrightarrow> uint x mod 4096 = 0"
proof -
  have "uint (take_bit 12 x) = uint x mod 4096"
    by (simp only: unsigned_take_bit_eq) (simp add: take_bit_eq_mod)
  then show ?thesis by (metis aligned_def uint_0_iff)
qed

lemma uint_base_shift: "uint (x + KERNBASE_V) mod 4096 = uint x mod 4096" "uint (x - KERNBASE_V) mod 4096 = uint x mod 4096"
proof -
  have m: "(a mod 4294967296) mod 4096 = a mod 4096" for a :: int by (rule mod_mod_cancel) simp
  have "(a + 2147483648) mod 4096 = a mod 4096" "(a - 2147483648) mod 4096 = a mod 4096" for a :: int
    using mod_mult_self1 [of a 524288 4096] mod_mult_self1 [of a "- 524288" 4096] by simp_all
  moreover have "uint (x + KERNBASE_V) = (uint x + 2147483648) mod 4294967296"
    "uint (x - KERNBASE_V) = (uint x - 2147483648) mod 4294967296"
    by (simp_all add: KERNBASE_V_def uint_word_ariths)
  ultimately show "uint (x + KERNBASE_V) mod 4096 = uint x mod 4096"
    "uint (x - KERNBASE_V) mod 4096 = uint x mod 4096"
    by (simp_all only: m)
qed

lemma aligned_V2P [simp]: "aligned (V2P v) \<longleftrightarrow> aligned v"
  by (simp add: aligned_iff V2P_def uint_base_shift)

lemma P2V_V2P [simp]: "P2V (V2P v) = v" "V2P (P2V v) = v"
  by (simp_all add: P2V_def V2P_def)

lemma aligned_PTE_ADDR [simp]: "aligned (PTE_ADDR x)"
  unfolding aligned_def by (rule bit_word_eqI) (auto simp: bit_simps PTE_ADDR_def bit_page)

lemma small_OR [simp]: "small (a OR b) \<longleftrightarrow> small a \<and> small b"
  by (simp add: small_def or_eq_0_iff)

lemma small_flags [simp]: "small PTE_P" "small PTE_W" "small PTE_U" "small PTE_E"
  by (simp_all add: small_def PTE_P_def PTE_W_def PTE_U_def PTE_E_def)

lemma PTE_P_bit: "x AND PTE_P \<noteq> 0 \<longleftrightarrow> bit x 0"
  by (simp add: PTE_P_def and_exp_eq_0_iff_not_bit [of _ 0, simplified])

lemma PTE_U_bit: "x AND PTE_U \<noteq> 0 \<longleftrightarrow> bit x 2"
  using and_exp_eq_0_iff_not_bit [of x 2] by (simp add: PTE_U_def)

lemma PTE_E_bit: "x AND PTE_E \<noteq> 0 \<longleftrightarrow> bit x 10"
  using and_exp_eq_0_iff_not_bit [of x 10] by (simp add: PTE_E_def)

lemma PTE_PE_bit: "x AND (PTE_P OR PTE_E) \<noteq> 0 \<longleftrightarrow> bit x 0 \<or> bit x 10"
  using PTE_P_bit [of x] PTE_E_bit [of x] by (simp add: bit.conj_disj_distrib or_eq_0_iff)

lemmas pte_bits = PTE_P_bit PTE_U_bit PTE_E_bit PTE_PE_bit

lemma bit_flags: "bit PTE_P n \<longleftrightarrow> n = 0" "bit PTE_W n \<longleftrightarrow> n = 1" "bit PTE_U n \<longleftrightarrow> n = 2" "bit PTE_E n \<longleftrightarrow> n = 10"
proof -
  have "PTE_P = 2 ^ 0" "PTE_W = 2 ^ 1" "PTE_U = 2 ^ 2" "PTE_E = 2 ^ 10"
    by (simp_all add: PTE_P_def PTE_W_def PTE_U_def PTE_E_def)
  note p = this
  show "bit PTE_P n \<longleftrightarrow> n = 0" "bit PTE_W n \<longleftrightarrow> n = 1" "bit PTE_U n \<longleftrightarrow> n = 2" "bit PTE_E n \<longleftrightarrow> n = 10"
    unfolding p by (simp_all only: bit_exp_iff possible_bit_word) auto
qed

subsection \<open>Well-formed page directories\<close>

lemma page_words_set_frame: "page_words (set_frame v (Words ws) st) u = (if u = v then ws else page_words st u)"
  by (simp add: page_words_def set_frame_def)

lemma page_words_set_entry:
  "page_words (set_entry v i w st) u = (if u = v then (page_words st v)[i := w] else page_words st u)"
  by (simp add: set_entry_def page_words_set_frame)

lemma freelist_set [simp]: "freelist (set_frame v f st) = freelist st" "freelist (set_entry v i w st) = freelist st"
  "freelist (pte_set e w st) = freelist st"
  by (simp_all add: set_frame_def set_entry_def pte_set_def)

lemma frames_set_frame: "frames (set_frame v f st) u = (if u = v then f else frames st u)"
  by (simp add: set_frame_def)

lemma frames_set_entry: "u \<noteq> v \<Longrightarrow> frames (set_entry v i w st) u = frames st u"
  by (simp add: set_entry_def set_frame_def)

definition is_table :: "machine \<Rightarrow> u32 \<Rightarrow> bool" where
  "is_table st v \<longleftrightarrow> length (page_words st v) = 1024"

definition pd_present :: "machine \<Rightarrow> u32 \<Rightarrow> nat \<Rightarrow> bool" where
  "pd_present st pgdir i \<longleftrightarrow> i < 1024 \<and> bit (page_words st pgdir ! i) 0"

definition table_of :: "machine \<Rightarrow> u32 \<Rightarrow> nat \<Rightarrow> u32" where
  "table_of st pgdir i = P2V (PTE_ADDR (page_words st pgdir ! i))"

definition tables :: "machine \<Rightarrow> u32 \<Rightarrow> u32 set" where
  "tables st pgdir = insert pgdir (table_of st pgdir ` Collect (pd_present st pgdir))"

definition vm_ok :: "machine \<Rightarrow> u32 \<Rightarrow> bool" where
  "vm_ok st pgdir \<longleftrightarrow> (\<forall>v \<in> tables st pgdir. is_table st v \<and> v \<notin> set (freelist st))
     \<and> (\<forall>i. pd_present st pgdir i \<longrightarrow> table_of st pgdir i \<noteq> pgdir)
     \<and> (\<forall>i j. pd_present st pgdir i \<longrightarrow> pd_present st pgdir j \<longrightarrow> table_of st pgdir i = table_of st pgdir j \<longrightarrow> i = j)
     \<and> distinct (freelist st) \<and> (\<forall>v \<in> set (freelist st). aligned v)"

text \<open>The entry for an address, 0 where there is no table.\<close>

definition lookup :: "machine \<Rightarrow> u32 \<Rightarrow> u32 \<Rightarrow> u32" where
  "lookup st pgdir va =
     (case fst (walkpgdir pgdir va False st) of None \<Rightarrow> 0 | Some e \<Rightarrow> pte_get st e)"

lemma idx_less [simp]: "PDX va < 1024" "PTX va < 1024"
proof -
  have m: "(0x3FF :: u32) = mask 10" by (simp add: mask_eq_exp_minus_1)
  have "unat (x AND mask 10 :: u32) < 1024" for x
    by (simp only: take_bit_eq_mask [symmetric] unsigned_take_bit_eq)
       (use take_bit_nat_less_exp [of 10 "unat x"] in simp)
  then show "PDX va < 1024" "PTX va < 1024" by (simp_all only: PDX_def PTX_def m)
qed

lemma walk_noalloc:
  "walkpgdir pgdir va False st =
     (if pd_present st pgdir (PDX va) then Some (table_of st pgdir (PDX va), PTX va) else None, st)"
  by (simp add: walkpgdir_def Let_def pd_present_def table_of_def PTE_P_bit)

lemma lookup_eq:
  "lookup st pgdir va =
     (if pd_present st pgdir (PDX va) then page_words st (table_of st pgdir (PDX va)) ! PTX va else 0)"
  by (simp add: lookup_def walk_noalloc pte_get_def)

lemma vm_okD:
  assumes "vm_ok st pgdir"
  shows "is_table st pgdir" "pgdir \<notin> set (freelist st)"
    "pd_present st pgdir i \<Longrightarrow> is_table st (table_of st pgdir i)"
    "pd_present st pgdir i \<Longrightarrow> table_of st pgdir i \<notin> set (freelist st)"
    "pd_present st pgdir i \<Longrightarrow> table_of st pgdir i \<noteq> pgdir"
    "pd_present st pgdir i \<Longrightarrow> pd_present st pgdir j \<Longrightarrow> table_of st pgdir i = table_of st pgdir j \<Longrightarrow> i = j"
    "distinct (freelist st)" "v \<in> set (freelist st) \<Longrightarrow> aligned v"
  using assms by (auto simp: vm_ok_def tables_def)

text \<open>Storing an entry of a second-level table changes the translation of that page only.\<close>

lemma pd_unchanged:
  assumes "v \<noteq> pgdir"
  shows "pd_present (set_entry v i w st) pgdir = pd_present st pgdir"
    "table_of (set_entry v i w st) pgdir = table_of st pgdir"
    "pd_present (set_frame v (Words ws) st) pgdir = pd_present st pgdir"
    "table_of (set_frame v (Words ws) st) pgdir = table_of st pgdir"
  using assms by (auto simp: pd_present_def table_of_def page_words_set_entry page_words_set_frame fun_eq_iff)

lemma pte_set_lookup:
  assumes ok: "vm_ok st pgdir" and w: "fst (walkpgdir pgdir va False st) = Some e"
  shows "vm_ok (pte_set e x st) pgdir" "tables (pte_set e x st) pgdir = tables st pgdir"
    "lookup (pte_set e x st) pgdir va' =
      (if PDX va' = PDX va \<and> PTX va' = PTX va then x else lookup st pgdir va')"
    "fst (walkpgdir pgdir va' False (pte_set e x st)) = fst (walkpgdir pgdir va' False st)"
proof -
  note V = vm_okD [OF ok]
  have p: "pd_present st pgdir (PDX va)" and e: "e = (table_of st pgdir (PDX va), PTX va)"
    using w by (auto simp: walk_noalloc split: if_splits)
  let ?t = "table_of st pgdir (PDX va)"
  let ?s = "pte_set e x st"
  have s: "?s = set_entry ?t (PTX va) x st" by (simp add: e pte_set_def)
  have ne: "?t \<noteq> pgdir" by (rule V(5) [OF p])
  note pd = pd_unchanged(1,2) [OF ne, of "PTX va" x st]
  show tb: "tables ?s pgdir = tables st pgdir" unfolding tables_def s pd ..
  have "is_table ?s v \<longleftrightarrow> is_table st v" for v by (simp add: is_table_def s page_words_set_entry)
  then show "vm_ok ?s pgdir" using ok unfolding vm_ok_def tb unfolding s pd by simp
  show "fst (walkpgdir pgdir va' False ?s) = fst (walkpgdir pgdir va' False st)"
    unfolding walk_noalloc s pd by simp
  have len: "length (page_words st ?t) = 1024" using V(3) [OF p] by (simp add: is_table_def)
  show "lookup ?s pgdir va' = (if PDX va' = PDX va \<and> PTX va' = PTX va then x else lookup st pgdir va')"
  proof (cases "PDX va' = PDX va")
    case True
    then show ?thesis using p len by (simp add: lookup_eq s pd page_words_set_entry nth_list_update)
  next
    case False
    then have "table_of st pgdir (PDX va') \<noteq> ?t" if "pd_present st pgdir (PDX va')"
      using V(6) [OF that p] by blast
    then show ?thesis using False by (simp add: lookup_eq s pd page_words_set_entry)
  qed
qed

text \<open>Allocating a missing table changes no translation.\<close>

lemma walk_alloc:
  assumes ok: "vm_ok st pgdir" and w: "walkpgdir pgdir va True st = (r, st')"
  shows "vm_ok st' pgdir" "lookup st' pgdir va' = lookup st pgdir va'"
    "r \<noteq> None \<Longrightarrow> r = fst (walkpgdir pgdir va False st')" "r = None \<longleftrightarrow> \<not> pd_present st pgdir (PDX va) \<and> freelist st = []"
    "set (freelist st') \<subseteq> set (freelist st)"
    "tables st' pgdir \<subseteq> tables st pgdir \<union> (set (freelist st) - set (freelist st'))"
    "tables st pgdir \<subseteq> tables st' pgdir"
    "u \<notin> tables st' pgdir \<Longrightarrow> frames st' u = frames st u"
proof -
  note V = vm_okD [OF ok]
  have goal: "vm_ok st' pgdir \<and> (\<forall>va'. lookup st' pgdir va' = lookup st pgdir va')
    \<and> (r \<noteq> None \<longrightarrow> r = fst (walkpgdir pgdir va False st'))
    \<and> (r = None \<longleftrightarrow> \<not> pd_present st pgdir (PDX va) \<and> freelist st = [])
    \<and> set (freelist st') \<subseteq> set (freelist st)
    \<and> tables st' pgdir \<subseteq> tables st pgdir \<union> (set (freelist st) - set (freelist st'))
    \<and> tables st pgdir \<subseteq> tables st' pgdir
    \<and> (\<forall>u. u \<notin> tables st' pgdir \<longrightarrow> frames st' u = frames st u)"
  proof (cases "pd_present st pgdir (PDX va)")
    case True
    then have "r = Some (table_of st pgdir (PDX va), PTX va)" "st' = st"
      using w by (auto simp: walkpgdir_def Let_def pd_present_def table_of_def PTE_P_bit)
    with True ok show ?thesis by (simp add: walk_noalloc)
  next
    case False
    show ?thesis
    proof (cases "freelist st")
      case Nil
      then have "r = None" "st' = st"
        using w False by (auto simp: walkpgdir_def Let_def pd_present_def PTE_P_bit kalloc_def)
      with Nil ok False show ?thesis by simp
    next
      case (Cons t rs)
      let ?i = "PDX va"
      let ?e = "V2P t OR PTE_P OR PTE_W OR PTE_U"
      let ?s0 = "st\<lparr>freelist := rs\<rparr>"
      let ?s1 = "set_frame t (Words (replicate 1024 0)) ?s0"
      have rs: "r = Some (t, PTX va)" "st' = set_entry pgdir ?i ?e ?s1"
        using w False Cons by (auto simp: walkpgdir_def Let_def pd_present_def PTE_P_bit kalloc_def)
      have t: "t \<noteq> pgdir" "t \<notin> set rs" "aligned t" "t \<notin> tables st pgdir"
        using V(2,7,8) Cons ok by (auto simp: vm_ok_def)
      have len: "length (page_words st pgdir) = 1024" using V(1) by (simp add: is_table_def)
      have pw0: "page_words ?s0 u = page_words st u" for u by (simp add: page_words_def)
      have pw: "page_words st' u = (if u = pgdir then (page_words st pgdir)[?i := ?e]
          else if u = t then replicate 1024 0 else page_words st u)" for u
        using t(1) by (simp add: rs(2) page_words_set_entry page_words_set_frame pw0)
      have at: "PTE_ADDR ?e = V2P t" using PTE_ADDR_OR [of "V2P t" "PTE_P OR PTE_W OR PTE_U"] t(3) by simp
      have pe: "pd_present st' pgdir j \<longleftrightarrow> j = ?i \<or> pd_present st pgdir j" for j
        using len False by (cases "j = ?i") (auto simp: pd_present_def pw bit_or_iff bit_flags)
      have te: "table_of st' pgdir j = (if j = ?i then t else table_of st pgdir j)" for j
        using len by (cases "j = ?i") (auto simp: table_of_def pw at)
      have tb: "tables st' pgdir = insert t (tables st pgdir)"
      proof -
        have "Collect (pd_present st' pgdir) = insert ?i (Collect (pd_present st pgdir))" using pe by auto
        moreover have "table_of st' pgdir ` Collect (pd_present st pgdir) = table_of st pgdir ` Collect (pd_present st pgdir)"
          by (rule image_cong [OF refl]) (use False te in auto)
        ultimately show ?thesis unfolding tables_def using te [of ?i] by auto
      qed
      have fl: "freelist st' = rs" by (simp add: rs(2))
      have tn: "table_of st pgdir j \<noteq> t" if "pd_present st pgdir j" for j
        using t(4) that by (auto simp: tables_def)
      have ok': "vm_ok st' pgdir"
        unfolding vm_ok_def tb
      proof (intro conjI allI impI ballI)
        fix v assume v: "v \<in> insert t (tables st pgdir)"
        then have "is_table st v" if "v \<noteq> t" using that ok by (auto simp: vm_ok_def)
        then show "is_table st' v" using len by (auto simp: is_table_def pw)
        show "v \<notin> set (freelist st')" using v t ok Cons fl by (auto simp: vm_ok_def)
      next
        fix i assume "pd_present st' pgdir i"
        then show "table_of st' pgdir i \<noteq> pgdir" using V(5) [of i] t(1) by (auto simp: pe te)
      next
        fix i j assume "pd_present st' pgdir i" "pd_present st' pgdir j" "table_of st' pgdir i = table_of st' pgdir j"
        then show "i = j" using V(6) tn by (auto simp: pe te split: if_splits)
      next
        show "distinct (freelist st')" "\<And>v. v \<in> set (freelist st') \<Longrightarrow> aligned v"
          using V(7,8) Cons fl by auto
      qed
      have lk: "lookup st' pgdir va' = lookup st pgdir va'" for va'
      proof (cases "PDX va' = ?i")
        case True
        with False show ?thesis using t(1) by (simp add: lookup_eq pe te pw)
      next
        case ne: False
        then show ?thesis using V(5) tn by (auto simp: lookup_eq pe te pw)
      qed
      have fr: "frames st' u = frames st u" if "u \<notin> tables st' pgdir" for u
      proof -
        have "u \<noteq> t" "u \<noteq> pgdir" using that tb by (auto simp: tables_def)
        then show ?thesis by (simp add: rs(2) frames_set_entry frames_set_frame)
      qed
      have "r = fst (walkpgdir pgdir va False st')" by (simp add: walk_noalloc pe te rs(1))
      with ok' lk fr rs(1) Cons tb fl False t show ?thesis by auto
    qed
  qed
  show "vm_ok st' pgdir" "lookup st' pgdir va' = lookup st pgdir va'"
    "r \<noteq> None \<Longrightarrow> r = fst (walkpgdir pgdir va False st')" "r = None \<longleftrightarrow> \<not> pd_present st pgdir (PDX va) \<and> freelist st = []"
    "set (freelist st') \<subseteq> set (freelist st)"
    "tables st' pgdir \<subseteq> tables st pgdir \<union> (set (freelist st) - set (freelist st'))"
    "tables st pgdir \<subseteq> tables st' pgdir"
    "u \<notin> tables st' pgdir \<Longrightarrow> frames st' u = frames st u"
    using goal by blast+
qed

subsection \<open>Mapping pages\<close>

definition vpn :: "u32 \<Rightarrow> nat" where
  "vpn va = unat va div 4096"

lemma PDX_PTX: "PDX va = vpn va div 1024" "PTX va = vpn va mod 1024"
proof -
  have m: "(0x3FF :: u32) = mask 10" by (simp add: mask_eq_exp_minus_1)
  have "unat (x AND mask 10 :: u32) = unat x mod 1024" for x
    by (simp only: take_bit_eq_mask [symmetric] unsigned_take_bit_eq) (simp add: take_bit_eq_mod)
  then have a: "unat (x AND 0x3FF :: u32) = unat x mod 1024" for x by (simp only: m)
  have lt: "unat va < 4294967296" using unsigned_less [of va] by simp
  then have "take_bit 32 (unat va) = unat va" by (simp add: take_bit_eq_mod)
  then have d: "unat (drop_bit n va) = unat va div 2 ^ n" for n
    by (simp only: unsigned_drop_bit_eq) (simp add: drop_bit_eq_div)
  have "PDX va = unat va div 2 ^ 22 mod 1024" unfolding PDX_def a d ..
  also have "\<dots> = unat va div 2 ^ 22" using lt by (intro mod_less) (simp add: less_mult_imp_div_less)
  also have "\<dots> = vpn va div 1024" by (simp add: vpn_def div_mult2_eq [symmetric])
  finally show "PDX va = vpn va div 1024" .
  show "PTX va = vpn va mod 1024" unfolding PTX_def a d by (simp add: vpn_def)
qed

lemma same_page: "PDX va' = PDX va \<and> PTX va' = PTX va \<longleftrightarrow> vpn va' = vpn va"
  unfolding PDX_PTX by (metis div_mult_mod_eq)

lemma vpn_less: "vpn va < 1048576"
proof -
  have "unat va < 4294967296" using unsigned_less [of va] by simp
  then show ?thesis by (simp add: vpn_def less_mult_imp_div_less)
qed

lemma vpn_next: "vpn a + 1 < 1048576 \<Longrightarrow> vpn (a + PGSIZE) = vpn a + 1"
proof -
  assume *: "vpn a + 1 < 1048576"
  have eq: "unat a = vpn a * 4096 + unat a mod 4096" by (simp add: vpn_def)
  have "unat a mod 4096 < 4096" by simp
  then have "unat a + 4096 < 4294967296" using * eq by linarith
  then have "unat (a + PGSIZE) = unat a + 4096"
    by (simp add: PGSIZE_def unat_word_ariths)
  then show ?thesis by (simp add: vpn_def)
qed

definition map_entry :: "u32 \<Rightarrow> u32 \<Rightarrow> u32" where
  "map_entry pa perm = (if perm AND PTE_E \<noteq> 0 then pa OR perm OR PTE_E else pa OR perm OR PTE_P)"

definition mapped :: "u32 \<Rightarrow> bool" where
  "mapped e \<longleftrightarrow> bit e 0 \<or> bit e 10"

lemma mappages_step:
  "mappages_loop pgdir a n pa perm st =
     (case walkpgdir pgdir a True st of
        (None, st) \<Rightarrow> Ok (- 1, st)
      | (Some pte, st) \<Rightarrow>
          (if mapped (pte_get st pte) then Panic ''p4Debug, remapping page''
           else case n of 0 \<Rightarrow> Ok (0, pte_set pte (map_entry pa perm) st)
                | Suc n \<Rightarrow> mappages_loop pgdir (a + PGSIZE) n (pa + PGSIZE) perm
                             (pte_set pte (map_entry pa perm) st)))"
  by (subst mappages_loop.simps)
     (simp add: mapped_def PTE_PE_bit map_entry_def Let_def split: option.splits nat.splits prod.splits)

declare mappages_loop.simps [simp del]

lemma mappages_loop_maps:
  assumes "vm_ok st pgdir" "vpn a + n < 1048576"
    "\<forall>va. vpn a \<le> vpn va \<and> vpn va \<le> vpn a + n \<longrightarrow> \<not> mapped (lookup st pgdir va)"
  shows "\<exists>r st'. mappages_loop pgdir a n pa perm st = Ok (r, st') \<and> vm_ok st' pgdir
    \<and> set (freelist st') \<subseteq> set (freelist st)
    \<and> (r = 0 \<and> (\<forall>va. lookup st' pgdir va =
           (if vpn a \<le> vpn va \<and> vpn va \<le> vpn a + n
            then map_entry (pa + of_nat (vpn va - vpn a) * PGSIZE) perm else lookup st pgdir va))
       \<or> r = - 1 \<and> freelist st' = []
           \<and> (\<forall>va. \<not> (vpn a \<le> vpn va \<and> vpn va \<le> vpn a + n) \<longrightarrow> lookup st' pgdir va = lookup st pgdir va))"
  using assms
proof (induction n arbitrary: a pa st)
  case (0 a pa st)
  obtain w s1 where w: "walkpgdir pgdir a True st = (w, s1)" by fastforce
  note W = walk_alloc [OF "0.prems"(1) w]
  show ?case
  proof (cases w)
    case None
    then show ?thesis using w W by (subst mappages_step) auto
  next
    case (Some e)
    then have e: "fst (walkpgdir pgdir a False s1) = Some e" using W(3) by simp
    note P = pte_set_lookup [OF W(1) e, of "map_entry pa perm"]
    have "pte_get s1 e = lookup st pgdir a" using e W(2) [of a] by (simp add: lookup_def)
    then have nm: "\<not> mapped (pte_get s1 e)" using "0.prems"(3) by simp
    have "mappages_loop pgdir a 0 pa perm st = Ok (0, pte_set e (map_entry pa perm) s1)"
      using w Some nm by (subst mappages_step) simp
    then show ?thesis using P W(2,5) by (auto simp: same_page)
  qed
next
  case (Suc n a pa st)
  obtain w s1 where w: "walkpgdir pgdir a True st = (w, s1)" by fastforce
  note W = walk_alloc [OF Suc.prems(1) w]
  show ?case
  proof (cases w)
    case None
    then show ?thesis using w W by (subst mappages_step) auto
  next
    case (Some e)
    then have e: "fst (walkpgdir pgdir a False s1) = Some e" using W(3) by simp
    note P = pte_set_lookup [OF W(1) e, of "map_entry pa perm"]
    let ?s2 = "pte_set e (map_entry pa perm) s1"
    have "pte_get s1 e = lookup st pgdir a" using e W(2) [of a] by (simp add: lookup_def)
    then have nm: "\<not> mapped (pte_get s1 e)" using Suc.prems(3) by simp
    have nx: "vpn (a + PGSIZE) = vpn a + 1" using Suc.prems(2) by (intro vpn_next) simp
    have l2: "lookup ?s2 pgdir va = (if vpn va = vpn a then map_entry pa perm else lookup st pgdir va)" for va
      using P(3) [of va] W(2) [of va] by (simp add: same_page)
    have eq: "mappages_loop pgdir a (Suc n) pa perm st = mappages_loop pgdir (a + PGSIZE) n (pa + PGSIZE) perm ?s2"
      using w Some nm by (subst mappages_step) simp
    have shift: "pa + PGSIZE + of_nat (vpn va - (vpn a + 1)) * PGSIZE = pa + of_nat (vpn va - vpn a) * PGSIZE"
      if "vpn a + 1 \<le> vpn va" for va
    proof -
      have "vpn va - vpn a = Suc (vpn va - (vpn a + 1))" using that by simp
      then show ?thesis by (simp add: algebra_simps)
    qed
    obtain r st' where R: "mappages_loop pgdir (a + PGSIZE) n (pa + PGSIZE) perm ?s2 = Ok (r, st')"
      "vm_ok st' pgdir" "set (freelist st') \<subseteq> set (freelist ?s2)"
      "r = 0 \<and> (\<forall>va. lookup st' pgdir va =
           (if vpn a + 1 \<le> vpn va \<and> vpn va \<le> vpn a + 1 + n
            then map_entry (pa + PGSIZE + of_nat (vpn va - (vpn a + 1)) * PGSIZE) perm else lookup ?s2 pgdir va))
       \<or> r = - 1 \<and> freelist st' = []
           \<and> (\<forall>va. \<not> (vpn a + 1 \<le> vpn va \<and> vpn va \<le> vpn a + 1 + n) \<longrightarrow> lookup st' pgdir va = lookup ?s2 pgdir va)"
      using Suc.IH [OF P(1), of "a + PGSIZE" "pa + PGSIZE"] Suc.prems(2,3) nx l2 by auto
    from R(4) show ?thesis
    proof
      assume z: "r = 0 \<and> (\<forall>va. lookup st' pgdir va =
           (if vpn a + 1 \<le> vpn va \<and> vpn va \<le> vpn a + 1 + n
            then map_entry (pa + PGSIZE + of_nat (vpn va - (vpn a + 1)) * PGSIZE) perm else lookup ?s2 pgdir va))"
      have "lookup st' pgdir va = (if vpn a \<le> vpn va \<and> vpn va \<le> vpn a + Suc n
            then map_entry (pa + of_nat (vpn va - vpn a) * PGSIZE) perm else lookup st pgdir va)" for va
      proof (cases "vpn a + 1 \<le> vpn va \<and> vpn va \<le> vpn a + 1 + n")
        case True
        then have "lookup st' pgdir va = map_entry (pa + of_nat (vpn va - vpn a) * PGSIZE) perm"
          using z shift [of va] by metis
        with True show ?thesis by simp
      next
        case False
        then have "lookup st' pgdir va = lookup ?s2 pgdir va" using z by metis
        with False l2 [of va] show ?thesis by (cases "vpn va = vpn a") auto
      qed
      then show ?thesis using eq R(1-3) W(5) z by auto
    next
      assume z: "r = - 1 \<and> freelist st' = []
           \<and> (\<forall>va. \<not> (vpn a + 1 \<le> vpn va \<and> vpn va \<le> vpn a + 1 + n) \<longrightarrow> lookup st' pgdir va = lookup ?s2 pgdir va)"
      then show ?thesis using eq R(1-3) W(5) l2 by auto
    qed
  qed
qed

lemma PGROUNDDOWN_vpn: "unat (PGROUNDDOWN va) = vpn va * 4096" "vpn (PGROUNDDOWN va) = vpn va"
proof -
  have lt: "unat va < 4294967296" using unsigned_less [of va] by simp
  have "PGROUNDDOWN va = push_bit 12 (drop_bit 12 va)"
    by (rule bit_word_eqI) (auto simp only: PGROUNDDOWN_def bit_page bit_push_bit_iff bit_drop_bit_eq, auto)
  then have "unat (PGROUNDDOWN va) = unat (push_bit 12 (drop_bit 12 va))" by simp
  also have "\<dots> = take_bit 32 (push_bit 12 (drop_bit 12 (take_bit 32 (unat va))))"
    by (simp only: unsigned_push_bit_eq unsigned_drop_bit_eq) simp
  also have "take_bit 32 (unat va) = unat va" using lt by (simp add: take_bit_eq_mod)
  also have "push_bit 12 (drop_bit 12 (unat va)) = vpn va * 4096"
    by (simp add: push_bit_eq_mult drop_bit_eq_div vpn_def)
  also have "take_bit 32 (vpn va * 4096) = vpn va * 4096"
    using vpn_less [of va] by (simp add: take_bit_eq_mod)
  finally show "unat (PGROUNDDOWN va) = vpn va * 4096" .
  then show "vpn (PGROUNDDOWN va) = vpn va" by (simp add: vpn_def)
qed


definition fill_page :: "byte \<Rightarrow> byte list" where
  "fill_page b = replicate 4096 b"

lemma fill_page_facts: "fill_page b \<noteq> []" "hd (fill_page b) = b"
  "map (\<lambda>b. b XOR 0xFF) (fill_page b) = fill_page (b XOR 0xFF)"
  by (simp_all add: fill_page_def)

definition one_entry :: "u32 \<Rightarrow> u32 list" where
  "one_entry w = (replicate 1024 0)[0 := w]"

lemma one_entry_facts: "length (one_entry w) = 1024" "i < 1024 \<Longrightarrow> one_entry w ! i = (if i = 0 then w else 0)"
  by (simp_all add: one_entry_def nth_list_update)

text \<open>A machine with one page directory, one page table for the lowest 4 MB that maps page 0 as a
  writable user page, and one free page.\<close>

definition sample_machine :: machine where
  "sample_machine = \<lparr>frames = (\<lambda>v. if v = 0x80001000 then Words (one_entry 0x2007)
       else if v = 0x80002000 then Words (one_entry 0x3007)
       else Bytes (fill_page 5)),
     freelist = [0x80004000], use_lock = True\<rparr>"

lemma sample_pages:
  "page_words sample_machine 0x80001000 = one_entry 0x2007"
  "page_words sample_machine 0x80002000 = one_entry 0x3007"
  by (simp_all add: page_words_def sample_machine_def)

lemma sample_dir:
  "pd_present sample_machine 0x80001000 i \<longleftrightarrow> i = 0"
  "table_of sample_machine 0x80001000 0 = 0x80002000"
proof -
  have b: "bit (0x2007 :: u32) 0" by (simp add: bit_numeral_simps bit_0)
  show "pd_present sample_machine 0x80001000 i \<longleftrightarrow> i = 0"
    using b by (cases "i = 0") (auto simp: pd_present_def sample_pages one_entry_facts)
  show "table_of sample_machine 0x80001000 0 = 0x80002000"
    by (simp add: table_of_def sample_pages one_entry_facts P2V_def PTE_ADDR_def KERNBASE_V_def)
qed

lemma sample_ok: "vm_ok sample_machine 0x80001000"
proof -
  have t: "tables sample_machine 0x80001000 = {0x80001000, 0x80002000}"
    using sample_dir by (auto simp: tables_def)
  have "freelist sample_machine = [0x80004000]" by (simp add: sample_machine_def)
  then show ?thesis
    using sample_dir unfolding vm_ok_def t
    by (auto simp: is_table_def sample_pages aligned_iff one_entry_facts)
qed

lemma sample_lookup: "lookup sample_machine 0x80001000 x = (if vpn x = 0 then 0x3007 else 0)"
proof -
  have "vpn x = 0 \<longleftrightarrow> PDX x = 0 \<and> PTX x = 0" unfolding PDX_PTX by (auto simp: div_eq_0_iff)
  then show ?thesis
    by (cases "PTX x = 0") (auto simp: lookup_eq sample_dir sample_pages one_entry_facts)
qed


subsection \<open>Encrypting and decrypting user pages\<close>

definition frame_of :: "machine \<Rightarrow> u32 \<Rightarrow> u32 \<Rightarrow> u32" where
  "frame_of st pgdir va = P2V (PTE_ADDR (lookup st pgdir va))"

text \<open>What the check of \<^verbatim>\<open>mencrypt\<close> accepts for one page, and pages whose frame is no page table.\<close>

definition user_page :: "machine \<Rightarrow> u32 \<Rightarrow> u32 \<Rightarrow> bool" where
  "user_page st pgdir va \<longleftrightarrow> mapped (lookup st pgdir va) \<and> bit (lookup st pgdir va) 2 \<and> frame_of st pgdir va \<noteq> 0"

definition data_frame :: "machine \<Rightarrow> u32 \<Rightarrow> u32 \<Rightarrow> bool" where
  "data_frame st pgdir va \<longleftrightarrow> pd_present st pgdir (PDX va) \<and> frame_of st pgdir va \<notin> tables st pgdir"

lemma uva2ka_lookup:
  "pd_present st pgdir (PDX va) \<Longrightarrow> uva2ka pgdir va st =
     Ok (if mapped (lookup st pgdir va) \<and> bit (lookup st pgdir va) 2 then frame_of st pgdir va else 0)"
  by (auto simp: uva2ka_def walk_noalloc Let_def lookup_def mapped_def frame_of_def or_eq_0_iff
      simp flip: PTE_P_bit PTE_U_bit PTE_E_bit)

lemma xor_page_table:
  assumes "v \<notin> tables st pgdir"
  shows "pd_present (xor_page v st) pgdir = pd_present st pgdir"
    "table_of (xor_page v st) pgdir = table_of st pgdir" "tables (xor_page v st) pgdir = tables st pgdir"
    "lookup (xor_page v st) pgdir va = lookup st pgdir va" "freelist (xor_page v st) = freelist st"
    "vm_ok st pgdir \<Longrightarrow> vm_ok (xor_page v st) pgdir"
proof -
  have pw: "page_words (xor_page v st) u = page_words st u" if "u \<in> tables st pgdir" for u
    using that assms by (auto simp: page_words_def xor_page_def set_frame_def)
  have pd: "page_words (xor_page v st) pgdir = page_words st pgdir" by (rule pw) (simp add: tables_def)
  show p: "pd_present (xor_page v st) pgdir = pd_present st pgdir"
    and t: "table_of (xor_page v st) pgdir = table_of st pgdir"
    by (simp_all add: pd_present_def table_of_def pd fun_eq_iff)
  show tb: "tables (xor_page v st) pgdir = tables st pgdir" by (simp add: tables_def p t)
  have "page_words (xor_page v st) (table_of st pgdir (PDX va)) = page_words st (table_of st pgdir (PDX va))"
    if "pd_present st pgdir (PDX va)" by (rule pw) (use that in \<open>auto simp: tables_def\<close>)
  then show "lookup (xor_page v st) pgdir va = lookup st pgdir va" by (simp add: lookup_eq p t)
  show fl: "freelist (xor_page v st) = freelist st" by (simp add: xor_page_def)
  show "vm_ok st pgdir \<Longrightarrow> vm_ok (xor_page v st) pgdir"
    unfolding vm_ok_def tb p t fl using pw by (auto simp: is_table_def)
qed

lemma page_bytes_pte_set:
  "u \<noteq> fst e \<Longrightarrow> page_bytes (pte_set e x st) u = page_bytes st u"
  by (simp add: page_bytes_def pte_set_def frames_set_entry)

lemma page_bytes_xor_page:
  "page_bytes (xor_page v st) u = (if u = v then map (\<lambda>b. b XOR 0xFF) (page_bytes st v) else page_bytes st u)"
  by (simp add: page_bytes_def xor_page_def set_frame_def)

definition encrypted_entry :: "u32 \<Rightarrow> u32" where
  "encrypted_entry e = (e OR PTE_E) AND NOT PTE_P"

lemma PTE_ADDR_encrypted: "PTE_ADDR (encrypted_entry e) = PTE_ADDR e"
proof (rule bit_word_eqI)
  fix n assume "n < LENGTH(32)"
  then show "bit (PTE_ADDR (encrypted_entry e)) n = bit (PTE_ADDR e) n"
    unfolding PTE_ADDR_def bit_page encrypted_entry_def by (auto simp: bit_simps bit_flags)
qed

text \<open>The body of the loop of \<^verbatim>\<open>mencrypt\<close> for one accepted page.\<close>

definition encrypt_one :: "u32 \<Rightarrow> u32 \<Rightarrow> machine \<Rightarrow> machine" where
  "encrypt_one pgdir va st =
     (if bit (lookup st pgdir va) 10 then st
      else pte_set (table_of st pgdir (PDX va), PTX va) (encrypted_entry (lookup st pgdir va))
             (xor_page (frame_of st pgdir va) st))"

lemma mencrypt_loop_step:
  assumes "vm_ok st pgdir" "user_page st pgdir va" "data_frame st pgdir va"
  shows "mencrypt_loop pgdir (Suc n) va st = mencrypt_loop pgdir n (va + PGSIZE) (encrypt_one pgdir va st)"
proof -
  have p: "pd_present st pgdir (PDX va)" and nt: "frame_of st pgdir va \<notin> tables st pgdir"
    using assms(3) by (auto simp: data_frame_def)
  note X = xor_page_table [OF nt]
  have g: "pte_get s (table_of s pgdir (PDX va), PTX va) = lookup s pgdir va" if "pd_present s pgdir (PDX va)" for s
    using that by (simp add: lookup_def walk_noalloc)
  have up: "mapped (lookup st pgdir va)" "bit (lookup st pgdir va) 2" "frame_of st pgdir va \<noteq> 0"
    using assms(2) by (auto simp: user_page_def)
  show ?thesis
  proof (cases "bit (lookup st pgdir va) 10")
    case True
    then show ?thesis
      using p g [OF p] by (simp add: uva2ka_lookup walk_noalloc PTE_E_bit encrypt_one_def)
  next
    case False
    let ?s = "xor_page (frame_of st pgdir va) st"
    have gs: "pte_get ?s (table_of st pgdir (PDX va), PTX va) = lookup st pgdir va"
      using g [of ?s] X(1,2,4) p by simp
    have f: "lookup st pgdir va AND PTE_E = 0" "lookup st pgdir va AND PTE_P \<noteq> 0" "lookup st pgdir va AND PTE_U \<noteq> 0"
      using False up PTE_E_bit PTE_P_bit PTE_U_bit by (auto simp: mapped_def)
    have "translate_and_set pgdir va ?s
        = Ok (P2V (PTE_ADDR (encrypted_entry (lookup st pgdir va))), encrypt_one pgdir va st)"
      using False p X(1,2) gs f
      by (simp add: translate_and_set_def walk_noalloc Let_def encrypted_entry_def encrypt_one_def)
    moreover have "P2V (PTE_ADDR (encrypted_entry (lookup st pgdir va))) \<noteq> 0"
      using up(3) by (simp add: PTE_ADDR_encrypted frame_of_def)
    ultimately show ?thesis
      using p g [OF p] False by (simp add: uva2ka_lookup walk_noalloc PTE_E_bit Let_def frame_of_def)
  qed
qed

lemma lookup_vpn: "vpn x = vpn y \<Longrightarrow> lookup st pgdir x = lookup st pgdir y"
  by (simp add: lookup_eq PDX_PTX)

lemma page_vpn:
  assumes "vpn x = vpn y"
  shows "frame_of st pgdir x = frame_of st pgdir y" "user_page st pgdir x = user_page st pgdir y"
    "data_frame st pgdir x = data_frame st pgdir y"
  using lookup_vpn [OF assms] assms by (simp_all add: frame_of_def user_page_def data_frame_def PDX_PTX)

definition enc :: "u32 \<Rightarrow> u32" where
  "enc e = (if bit e 10 then e else encrypted_entry e)"

lemma PTE_ADDR_enc [simp]: "PTE_ADDR (enc e) = PTE_ADDR e"
  by (simp add: enc_def PTE_ADDR_encrypted)

lemma bit_encrypted: "bit (encrypted_entry e) 10" "\<not> bit (encrypted_entry e) 0" "bit (encrypted_entry e) 2 = bit e 2"
  by (simp_all add: encrypted_entry_def bit_simps bit_flags)

lemma enc_user: "mapped (enc e)" "bit (enc e) 2 = bit e 2" "bit (enc e) 10"
  by (simp_all add: enc_def mapped_def bit_encrypted)

lemma encrypt_one_effect:
  assumes "vm_ok st pgdir" "data_frame st pgdir va"
  defines "st' \<equiv> encrypt_one pgdir va st"
  shows "vm_ok st' pgdir" "tables st' pgdir = tables st pgdir" "pd_present st' pgdir = pd_present st pgdir"
    "lookup st' pgdir x = (if vpn x = vpn va then enc (lookup st pgdir va) else lookup st pgdir x)"
    "u \<notin> tables st pgdir \<Longrightarrow> page_bytes st' u =
       (if u = frame_of st pgdir va \<and> \<not> bit (lookup st pgdir va) 10 then map (\<lambda>b. b XOR 0xFF) (page_bytes st u)
        else page_bytes st u)"
proof -
  have p: "pd_present st pgdir (PDX va)" and nt: "frame_of st pgdir va \<notin> tables st pgdir"
    using assms(2) by (auto simp: data_frame_def)
  note X = xor_page_table [OF nt]
  let ?s = "xor_page (frame_of st pgdir va) st" and ?e = "(table_of st pgdir (PDX va), PTX va)"
  have w: "fst (walkpgdir pgdir va False ?s) = Some ?e" using p X(1,2) by (simp add: walk_noalloc)
  note P = pte_set_lookup [OF X(6) [OF assms(1)] w, of "encrypted_entry (lookup st pgdir va)"]
  have pres: "pd_present (pte_set ?e y ?s) pgdir = pd_present st pgdir" for y
    using pd_unchanged(1) [of "table_of st pgdir (PDX va)" pgdir "PTX va" y ?s] vm_okD(5) [OF assms(1) p] X(1)
    by (simp add: pte_set_def)
  show "vm_ok st' pgdir" using P(1) assms(1) by (auto simp: st'_def encrypt_one_def)
  show "tables st' pgdir = tables st pgdir" using P(2) X(3) by (auto simp: st'_def encrypt_one_def)
  show "pd_present st' pgdir = pd_present st pgdir" using pres by (auto simp: st'_def encrypt_one_def)
  show "lookup st' pgdir x = (if vpn x = vpn va then enc (lookup st pgdir va) else lookup st pgdir x)"
    using P(3) [of x] X(4) [of x] lookup_vpn [of x va st pgdir] by (auto simp: st'_def encrypt_one_def enc_def same_page)
  show "page_bytes st' u =
       (if u = frame_of st pgdir va \<and> \<not> bit (lookup st pgdir va) 10 then map (\<lambda>b. b XOR 0xFF) (page_bytes st u)
        else page_bytes st u)" if u: "u \<notin> tables st pgdir"
  proof -
    have "u \<noteq> fst ?e" using u p by (auto simp: tables_def)
    then show ?thesis
      by (auto simp: st'_def encrypt_one_def page_bytes_pte_set page_bytes_xor_page)
  qed
qed

definition in_pages :: "u32 \<Rightarrow> nat \<Rightarrow> u32 \<Rightarrow> bool" where
  "in_pages va n x \<longleftrightarrow> vpn va \<le> vpn x \<and> vpn x < vpn va + n"

lemma vpn_witness: "vpn va + n < 1048576 \<Longrightarrow> vpn (va + of_nat n * PGSIZE) = vpn va + n"
proof (induction n)
  case (Suc n)
  then have "vpn (va + of_nat n * PGSIZE + PGSIZE) = vpn va + Suc n" by (subst vpn_next) auto
  then show ?case by (simp add: algebra_simps)
qed simp

lemma mencrypt_check_all:
  assumes "vpn va + n \<le> 1048576" "\<And>x. in_pages va n x \<Longrightarrow> pd_present st pgdir (PDX x)"
  shows "mencrypt_check pgdir n va st = Ok (\<forall>x. in_pages va n x \<longrightarrow> user_page st pgdir x)"
  using assms
proof (induction n arbitrary: va)
  case 0
  then show ?case by (auto simp: in_pages_def)
next
  case (Suc n)
  have "in_pages va (Suc n) va" by (simp add: in_pages_def)
  then have p: "pd_present st pgdir (PDX va)" by (rule Suc.prems(2))
  have up: "uva2ka pgdir va st = Ok (if user_page st pgdir va then frame_of st pgdir va else 0)"
    using uva2ka_lookup [OF p] by (auto simp: user_page_def)
  have split: "in_pages va (Suc n) x \<longleftrightarrow> vpn x = vpn va \<or> (0 < n \<and> in_pages (va + PGSIZE) n x)" for x
  proof (cases "n = 0")
    case True
    then show ?thesis by (auto simp: in_pages_def)
  next
    case False
    then have "vpn (va + PGSIZE) = vpn va + 1" using Suc.prems(1) by (intro vpn_next) simp
    then show ?thesis using False by (auto simp: in_pages_def)
  qed
  have rest: "mencrypt_check pgdir n (va + PGSIZE) st = Ok (\<forall>x. 0 < n \<and> in_pages (va + PGSIZE) n x \<longrightarrow> user_page st pgdir x)"
  proof (cases "n = 0")
    case False
    then have "vpn (va + PGSIZE) = vpn va + 1" using Suc.prems(1) by (intro vpn_next) simp
    then have "mencrypt_check pgdir n (va + PGSIZE) st = Ok (\<forall>x. in_pages (va + PGSIZE) n x \<longrightarrow> user_page st pgdir x)"
      using Suc.prems False split by (intro Suc.IH) auto
    with False show ?thesis by simp
  qed simp
  have "(\<forall>x. in_pages va (Suc n) x \<longrightarrow> user_page st pgdir x) \<longleftrightarrow>
      user_page st pgdir va \<and> (\<forall>x. 0 < n \<and> in_pages (va + PGSIZE) n x \<longrightarrow> user_page st pgdir x)"
    unfolding split using page_vpn(2) by blast
  moreover have "user_page st pgdir va \<Longrightarrow> frame_of st pgdir va \<noteq> 0" by (simp add: user_page_def)
  ultimately show ?case using up rest by (cases "user_page st pgdir va") auto
qed

definition frames_apart :: "machine \<Rightarrow> u32 \<Rightarrow> u32 \<Rightarrow> nat \<Rightarrow> bool" where
  "frames_apart st pgdir va n \<longleftrightarrow> (\<forall>x y. in_pages va n x \<longrightarrow> in_pages va n y \<longrightarrow> vpn x \<noteq> vpn y \<longrightarrow>
     frame_of st pgdir x \<noteq> frame_of st pgdir y)"

definition flipped :: "bool \<Rightarrow> byte list \<Rightarrow> byte list" where
  "flipped done bs = (if done then bs else map (\<lambda>b. b XOR 0xFF) bs)"

lemma mencrypt_loop_all:
  assumes "vm_ok st pgdir" "vpn va + n \<le> 1048576" "frames_apart st pgdir va n"
    "\<And>x. in_pages va n x \<Longrightarrow> user_page st pgdir x \<and> data_frame st pgdir x"
  shows "\<exists>st'. mencrypt_loop pgdir n va st = Ok (0, st') \<and> vm_ok st' pgdir
    \<and> tables st' pgdir = tables st pgdir \<and> pd_present st' pgdir = pd_present st pgdir
    \<and> (\<forall>x. lookup st' pgdir x = (if in_pages va n x then enc (lookup st pgdir x) else lookup st pgdir x))
    \<and> (\<forall>x. in_pages va n x \<longrightarrow> page_bytes st' (frame_of st pgdir x)
           = flipped (bit (lookup st pgdir x) 10) (page_bytes st (frame_of st pgdir x)))
    \<and> (\<forall>u. u \<notin> tables st pgdir \<longrightarrow> (\<forall>x. in_pages va n x \<longrightarrow> u \<noteq> frame_of st pgdir x) \<longrightarrow>
           page_bytes st' u = page_bytes st u)"
  using assms
proof (induction n arbitrary: va st)
  case 0
  then show ?case by (auto simp: in_pages_def)
next
  case (Suc n)
  let ?s = "encrypt_one pgdir va st"
  have "in_pages va (Suc n) va" by (simp add: in_pages_def)
  then have va: "user_page st pgdir va" "data_frame st pgdir va" using Suc.prems(4) by auto
  note E = encrypt_one_effect [OF Suc.prems(1) va(2)]
  have step: "mencrypt_loop pgdir (Suc n) va st = mencrypt_loop pgdir n (va + PGSIZE) ?s"
    by (rule mencrypt_loop_step [OF Suc.prems(1) va])
  have fr: "frame_of ?s pgdir x = frame_of st pgdir x" for x
    using E(4) [of x] lookup_vpn [of x va st pgdir] by (auto simp: frame_of_def)
  have us: "user_page ?s pgdir x = user_page st pgdir x" for x
    using E(4) [of x] lookup_vpn [of x va st pgdir] va(1) fr [of x] page_vpn(2) [of x va st pgdir]
    by (cases "vpn x = vpn va") (auto simp: user_page_def enc_user)
  have df: "data_frame ?s pgdir x = data_frame st pgdir x" for x
    by (simp add: data_frame_def fr E(2,3))
  show ?case
  proof (cases "n = 0")
    case True
    have ip: "in_pages va (Suc n) x \<longleftrightarrow> vpn x = vpn va" for x using True by (auto simp: in_pages_def)
    have "page_bytes ?s (frame_of st pgdir x) = flipped (bit (lookup st pgdir x) 10) (page_bytes st (frame_of st pgdir x))"
      if "vpn x = vpn va" for x
      using E(5) [of "frame_of st pgdir x"] va(2) page_vpn [OF that, of st pgdir] lookup_vpn [OF that, of st pgdir]
      by (auto simp: data_frame_def flipped_def)
    moreover have "mencrypt_loop pgdir (Suc n) va st = Ok (0, ?s)" using step True by simp
    moreover have "lookup ?s pgdir x = (if vpn x = vpn va then enc (lookup st pgdir x) else lookup st pgdir x)" for x
      using E(4) [of x] lookup_vpn [of x va st pgdir] by auto
    moreover have "page_bytes ?s u = page_bytes st u"
      if "u \<notin> tables st pgdir" "\<forall>x. vpn x = vpn va \<longrightarrow> u \<noteq> frame_of st pgdir x" for u
      using E(5) [OF that(1)] that(2) by auto
    ultimately show ?thesis unfolding ip using E(1-3) by blast
  next
    case False
    have nx: "vpn (va + PGSIZE) = vpn va + 1" using Suc.prems(2) False by (intro vpn_next) simp
    have ip: "in_pages va (Suc n) x \<longleftrightarrow> vpn x = vpn va \<or> in_pages (va + PGSIZE) n x" for x
      using nx False by (auto simp: in_pages_def)
    have dis: "vpn x \<noteq> vpn va" if "in_pages (va + PGSIZE) n x" for x using that nx by (auto simp: in_pages_def)
    have apart: "frame_of st pgdir x \<noteq> frame_of st pgdir va" if "in_pages (va + PGSIZE) n x" for x
      using Suc.prems(3) dis [OF that] that unfolding frames_apart_def ip by blast
    obtain st' where R: "mencrypt_loop pgdir n (va + PGSIZE) ?s = Ok (0, st')" "vm_ok st' pgdir"
      "tables st' pgdir = tables ?s pgdir" "pd_present st' pgdir = pd_present ?s pgdir"
      "\<forall>x. lookup st' pgdir x = (if in_pages (va + PGSIZE) n x then enc (lookup ?s pgdir x) else lookup ?s pgdir x)"
      "\<forall>x. in_pages (va + PGSIZE) n x \<longrightarrow> page_bytes st' (frame_of ?s pgdir x)
           = flipped (bit (lookup ?s pgdir x) 10) (page_bytes ?s (frame_of ?s pgdir x))"
      "\<forall>u. u \<notin> tables ?s pgdir \<longrightarrow> (\<forall>x. in_pages (va + PGSIZE) n x \<longrightarrow> u \<noteq> frame_of ?s pgdir x) \<longrightarrow>
           page_bytes st' u = page_bytes ?s u"
    proof -
      have "frames_apart ?s pgdir (va + PGSIZE) n"
        using Suc.prems(3) unfolding frames_apart_def fr ip by blast
      moreover have "in_pages (va + PGSIZE) n x \<Longrightarrow> user_page ?s pgdir x \<and> data_frame ?s pgdir x" for x
        unfolding us df using Suc.prems(4) ip by blast
      ultimately show thesis
        using Suc.IH [OF E(1), of "va + PGSIZE"] Suc.prems(2) nx that by auto
    qed
    have lk: "lookup st' pgdir x = (if in_pages va (Suc n) x then enc (lookup st pgdir x) else lookup st pgdir x)" for x
      using R(5) E(4) [of x] dis [of x] lookup_vpn [of x va st pgdir] unfolding ip by auto
    have in1: "page_bytes st' (frame_of st pgdir x) = flipped (bit (lookup st pgdir x) 10) (page_bytes st (frame_of st pgdir x))"
      if x: "in_pages (va + PGSIZE) n x" for x
    proof -
      have "frame_of st pgdir x \<notin> tables st pgdir" using Suc.prems(4) [of x] x ip by (auto simp: data_frame_def)
      then have "page_bytes ?s (frame_of st pgdir x) = page_bytes st (frame_of st pgdir x)"
        using E(5) [of "frame_of st pgdir x"] apart [OF x] by simp
      then show ?thesis using R(6) x E(4) [of x] dis [OF x] by (simp add: fr)
    qed
    have in2: "page_bytes st' (frame_of st pgdir va) = flipped (bit (lookup st pgdir va) 10) (page_bytes st (frame_of st pgdir va))"
    proof -
      have nt: "frame_of st pgdir va \<notin> tables st pgdir" using va(2) by (simp add: data_frame_def)
      have "\<forall>x. in_pages (va + PGSIZE) n x \<longrightarrow> frame_of st pgdir va \<noteq> frame_of ?s pgdir x"
        using apart unfolding fr by metis
      then have "page_bytes st' (frame_of st pgdir va) = page_bytes ?s (frame_of st pgdir va)"
        using R(7) nt E(2) by blast
      then show ?thesis using E(5) [OF nt] by (simp add: flipped_def)
    qed
    have "page_bytes st' u = page_bytes st u"
      if "u \<notin> tables st pgdir" "\<forall>x. in_pages va (Suc n) x \<longrightarrow> u \<noteq> frame_of st pgdir x" for u
      using R(7) that E(2) E(5) [OF that(1)] unfolding ip fr by auto
    moreover have "page_bytes st' (frame_of st pgdir x) = flipped (bit (lookup st pgdir x) 10) (page_bytes st (frame_of st pgdir x))"
      if "in_pages va (Suc n) x" for x
    proof (cases "vpn x = vpn va")
      case True
      then show ?thesis using in2 page_vpn(1) [OF True, of st pgdir] lookup_vpn [OF True, of st pgdir] by simp
    next
      case False
      then show ?thesis using that ip in1 by blast
    qed
    ultimately show ?thesis
      unfolding step using R(1-4) E(2,3) lk by auto
  qed
qed

text \<open>C33: \<^verbatim>\<open>mencrypt\<close> is all or nothing.  If every page of the range is a mapped user page, it succeeds:
  each of them ends up marked encrypted and not present, with every byte flipped unless it
  was encrypted before, and no other page or translation changes.  Otherwise it returns -1 and
  changes nothing at all.\<close>

theorem mencrypt_all_or_nothing:
  assumes "vm_ok st pgdir" "vpn va + n \<le> 1048576" "frames_apart st pgdir va n"
    "\<And>x. in_pages va n x \<Longrightarrow> data_frame st pgdir x"
  shows "if \<forall>x. in_pages va n x \<longrightarrow> user_page st pgdir x
    then \<exists>st'. mencrypt pgdir va n st = Ok (0, st') \<and> vm_ok st' pgdir
      \<and> (\<forall>x. lookup st' pgdir x = (if in_pages va n x then enc (lookup st pgdir x) else lookup st pgdir x))
      \<and> (\<forall>x. in_pages va n x \<longrightarrow> page_bytes st' (frame_of st pgdir x)
             = flipped (bit (lookup st pgdir x) 10) (page_bytes st (frame_of st pgdir x)))
      \<and> (\<forall>u. u \<notin> tables st pgdir \<longrightarrow> (\<forall>x. in_pages va n x \<longrightarrow> u \<noteq> frame_of st pgdir x) \<longrightarrow>
             page_bytes st' u = page_bytes st u)
    else mencrypt pgdir va n st = Ok (- 1, st)"
proof -
  let ?a = "PGROUNDDOWN va"
  have ip: "in_pages ?a n x \<longleftrightarrow> in_pages va n x" for x by (simp add: in_pages_def PGROUNDDOWN_vpn)
  have chk: "mencrypt_check pgdir n ?a st = Ok (\<forall>x. in_pages va n x \<longrightarrow> user_page st pgdir x)"
    using mencrypt_check_all [of ?a n st pgdir] assms(2,4)
    by (simp add: PGROUNDDOWN_vpn ip data_frame_def)
  show ?thesis
  proof (cases "\<forall>x. in_pages va n x \<longrightarrow> user_page st pgdir x")
    case True
    have "vpn ?a + n \<le> 1048576" "frames_apart st pgdir ?a n"
      using assms(2,3) by (simp_all add: PGROUNDDOWN_vpn frames_apart_def ip)
    from mencrypt_loop_all [OF assms(1) this] assms(4) True ip
    have "\<exists>st'. mencrypt_loop pgdir n ?a st = Ok (0, st') \<and> vm_ok st' pgdir
      \<and> (\<forall>x. lookup st' pgdir x = (if in_pages va n x then enc (lookup st pgdir x) else lookup st pgdir x))
      \<and> (\<forall>x. in_pages va n x \<longrightarrow> page_bytes st' (frame_of st pgdir x)
             = flipped (bit (lookup st pgdir x) 10) (page_bytes st (frame_of st pgdir x)))
      \<and> (\<forall>u. u \<notin> tables st pgdir \<longrightarrow> (\<forall>x. in_pages va n x \<longrightarrow> u \<noteq> frame_of st pgdir x) \<longrightarrow>
             page_bytes st' u = page_bytes st u)"
      unfolding ip by blast
    then show ?thesis using chk True by (simp add: mencrypt_def Let_def)
  next
    case False
    then show ?thesis using chk by (simp only: if_False mencrypt_def Let_def and_then.simps) simp
  qed
qed

text \<open>The entry \<^verbatim>\<open>mdecrypt\<close> stores, and what it does to a page that was encrypted.\<close>

definition decrypted_entry :: "u32 \<Rightarrow> u32" where
  "decrypted_entry e = (e AND NOT PTE_E) OR PTE_P"

lemma decrypted_encrypted: "bit e 0 \<Longrightarrow> \<not> bit e 10 \<Longrightarrow> decrypted_entry (encrypted_entry e) = e"
proof (rule bit_word_eqI)
  fix n assume e: "bit e 0" "\<not> bit e 10" and "n < LENGTH(32)"
  then show "bit (decrypted_entry (encrypted_entry e)) n = bit e n"
    by (cases "n = 0"; cases "n = 10")
       (simp_all add: decrypted_entry_def encrypted_entry_def bit_and_iff bit_or_iff bit_not_iff bit_flags)
qed

lemma mdecrypt_page:
  assumes ok: "vm_ok st pgdir" and df: "data_frame st pgdir va" and nz: "lookup st pgdir va \<noteq> 0"
    and e_def: "e = decrypted_entry (lookup st pgdir va)" and v_def: "v = P2V (PTE_ADDR e)"
    and s1_def: "s1 = pte_set (table_of st pgdir (PDX va), PTX va) e st"
    and fr: "v = frame_of st pgdir va" and u: "bit e 2" and nv: "v \<noteq> 0"
  shows "mdecrypt pgdir va st = (if page_bytes st v ! 0 = 0 then Ok (- 1, s1) else Ok (0, xor_page v s1))"
    "lookup s1 pgdir x = (if vpn x = vpn va then e else lookup st pgdir x)"
    "lookup (xor_page v s1) pgdir x = lookup s1 pgdir x" "vm_ok (xor_page v s1) pgdir"
    "w \<notin> tables st pgdir \<Longrightarrow> page_bytes s1 w = page_bytes st w"
proof -
  have p: "pd_present st pgdir (PDX va)" and nt: "v \<notin> tables st pgdir"
    using df fr by (auto simp: data_frame_def)
  have w: "fst (walkpgdir pgdir va False st) = Some (table_of st pgdir (PDX va), PTX va)"
    using p by (simp add: walk_noalloc)
  note P = pte_set_lookup [OF ok w, of e, folded s1_def]
  have g: "pte_get st (table_of st pgdir (PDX va), PTX va) = lookup st pgdir va" using w by (simp add: lookup_def)
  show l1: "lookup s1 pgdir x = (if vpn x = vpn va then e else lookup st pgdir x)" for x
    using P(3) [of x] by (simp add: same_page)
  have "pd_present s1 pgdir = pd_present st pgdir"
    using pd_unchanged(1) [of "table_of st pgdir (PDX va)" pgdir "PTX va" e st] vm_okD(5) [OF ok p]
    by (simp add: s1_def pte_set_def)
  then have p1: "pd_present s1 pgdir (PDX (PGROUNDDOWN va))" using p by (simp add: PDX_PTX PGROUNDDOWN_vpn)
  have m: "mapped e" by (simp add: mapped_def e_def decrypted_entry_def bit_simps bit_flags)
  have uva: "uva2ka pgdir (PGROUNDDOWN va) s1 = Ok v"
    using uva2ka_lookup [OF p1] l1 [of "PGROUNDDOWN va"] m u by (simp add: PGROUNDDOWN_vpn frame_of_def v_def)
  have nt1: "v \<notin> tables s1 pgdir" using nt P(2) by simp
  note X = xor_page_table [OF nt1]
  show "lookup (xor_page v s1) pgdir x = lookup s1 pgdir x" "vm_ok (xor_page v s1) pgdir"
    using X(4,6) P(1) by auto
  show pb: "page_bytes s1 w = page_bytes st w" if "w \<notin> tables st pgdir" for w
  proof -
    have "w \<noteq> table_of st pgdir (PDX va)" using that p by (auto simp: tables_def)
    then show ?thesis by (simp add: s1_def page_bytes_pte_set)
  qed
  have "mdecrypt pgdir va st = (if v = 0 \<or> page_bytes s1 v ! 0 = 0 then Ok (- 1, s1) else Ok (0, xor_page v s1))"
  proof -
    have "pte_set (table_of st pgdir (PDX va), PTX va)
        ((pte_get st (table_of st pgdir (PDX va), PTX va) AND NOT PTE_E) OR PTE_P) st = s1"
      unfolding g s1_def e_def decrypted_entry_def ..
    then show ?thesis
      unfolding mdecrypt_def walk_noalloc using p nz
      by (simp only: if_True prod.case option.case g if_False Let_def uva and_then.simps)
  qed
  then show "mdecrypt pgdir va st = (if page_bytes st v ! 0 = 0 then Ok (- 1, s1) else Ok (0, xor_page v s1))"
    using nv pb [OF nt] by simp
qed

lemma flip_twice [simp]: "map (\<lambda>b. b XOR 0xFF) (map (\<lambda>b. b XOR 0xFF) bs) = (bs :: byte list)"
  by (simp add: comp_def xor.assoc)

lemma flip_zero: "(b XOR 0xFF :: byte) = 0 \<longleftrightarrow> b = 0xFF"
proof
  assume "b XOR 0xFF = 0"
  then have "(b XOR 0xFF) XOR 0xFF = 0 XOR (0xFF :: byte)" by (rule arg_cong)
  then show "b = 0xFF" by (simp add: xor.assoc)
qed simp

text \<open>Both outcomes of a fault on a page of an encrypted range.\<close>

lemma mdecrypt_after_mencrypt:
  assumes pre: "vm_ok st pgdir" "vpn va + n \<le> 1048576" "frames_apart st pgdir va n"
    "\<And>x. in_pages va n x \<Longrightarrow> data_frame st pgdir x \<and> user_page st pgdir x"
    and y: "in_pages va n y" "bit (lookup st pgdir y) 0" "\<not> bit (lookup st pgdir y) 10"
      "page_bytes st (frame_of st pgdir y) \<noteq> []"
  shows "\<exists>st1 st2 r. mencrypt pgdir va n st = Ok (0, st1) \<and> mdecrypt pgdir y st1 = Ok (r, st2)
    \<and> lookup st2 pgdir y = lookup st pgdir y
    \<and> (\<forall>x. vpn x \<noteq> vpn y \<longrightarrow> lookup st2 pgdir x = lookup st1 pgdir x)
    \<and> r = (if hd (page_bytes st (frame_of st pgdir y)) = 0xFF then - 1 else 0)
    \<and> page_bytes st2 (frame_of st pgdir y) =
        (if hd (page_bytes st (frame_of st pgdir y)) = 0xFF
         then map (\<lambda>b. b XOR 0xFF) (page_bytes st (frame_of st pgdir y)) else page_bytes st (frame_of st pgdir y))"
proof -
  let ?f = "frame_of st pgdir y" and ?e = "lookup st pgdir y"
  have ip: "in_pages (PGROUNDDOWN va) n x \<longleftrightarrow> in_pages va n x" for x by (simp add: in_pages_def PGROUNDDOWN_vpn)
  have "\<exists>st1. mencrypt_loop pgdir n (PGROUNDDOWN va) st = Ok (0, st1) \<and> vm_ok st1 pgdir
    \<and> tables st1 pgdir = tables st pgdir \<and> pd_present st1 pgdir = pd_present st pgdir
    \<and> (\<forall>x. lookup st1 pgdir x = (if in_pages va n x then enc (lookup st pgdir x) else lookup st pgdir x))
    \<and> (\<forall>x. in_pages va n x \<longrightarrow> page_bytes st1 (frame_of st pgdir x)
           = flipped (bit (lookup st pgdir x) 10) (page_bytes st (frame_of st pgdir x)))"
    using mencrypt_loop_all [of st pgdir "PGROUNDDOWN va" n, OF pre(1)] pre(2-4)
    by (auto simp: PGROUNDDOWN_vpn frames_apart_def ip)
  then obtain st1 where s1: "mencrypt_loop pgdir n (PGROUNDDOWN va) st = Ok (0, st1)" "vm_ok st1 pgdir"
    "tables st1 pgdir = tables st pgdir" "pd_present st1 pgdir = pd_present st pgdir"
    "\<And>x. lookup st1 pgdir x = (if in_pages va n x then enc (lookup st pgdir x) else lookup st pgdir x)"
    "page_bytes st1 ?f = map (\<lambda>b. b XOR 0xFF) (page_bytes st ?f)"
    using y(1,3) by (auto simp: flipped_def)
  have "mencrypt_check pgdir n (PGROUNDDOWN va) st = Ok True"
    using mencrypt_check_all [of "PGROUNDDOWN va" n st pgdir] pre(2,4)
    by (auto simp: PGROUNDDOWN_vpn ip data_frame_def)
  then have m: "mencrypt pgdir va n st = Ok (0, st1)" using s1(1) by (simp add: mencrypt_def Let_def)
  have le: "lookup st1 pgdir y = encrypted_entry ?e" using s1(5) [of y] y by (simp add: enc_def)
  have dec: "decrypted_entry (lookup st1 pgdir y) = ?e" using decrypted_encrypted [OF y(2,3)] le by simp
  have f1: "frame_of st1 pgdir y = ?f" by (simp add: frame_of_def le PTE_ADDR_encrypted)
  have uy: "bit ?e 2" "?f \<noteq> 0" "?f \<notin> tables st pgdir" "data_frame st1 pgdir y"
    using pre(4) [OF y(1)] s1(3,4) f1 by (auto simp: user_page_def data_frame_def)
  have nz: "lookup st1 pgdir y \<noteq> 0" using le bit_encrypted(1) [of ?e] by auto
  have P: "P2V (PTE_ADDR ?e) = ?f" by (simp add: frame_of_def)
  let ?s2 = "pte_set (table_of st1 pgdir (PDX y), PTX y) ?e st1"
  note D = mdecrypt_page [OF s1(2) uy(4) nz dec [symmetric] P [symmetric] refl f1 [symmetric] uy(1,2)]
  have pb: "page_bytes ?s2 ?f = map (\<lambda>b. b XOR 0xFF) (page_bytes st ?f)"
    using D(5) [of ?f] uy(3) s1(3,6) by simp
  have h: "page_bytes st1 ?f ! 0 = 0 \<longleftrightarrow> hd (page_bytes st ?f) = 0xFF"
    using s1(6) y(4) flip_zero by (simp add: hd_conv_nth)
  show ?thesis
  proof (cases "hd (page_bytes st ?f) = 0xFF")
    case True
    with m D(1,2) h pb show ?thesis by auto
  next
    case False
    then have "mdecrypt pgdir y st1 = Ok (0, xor_page ?f ?s2)" using D(1) h by simp
    moreover have "page_bytes (xor_page ?f ?s2) ?f = page_bytes st ?f"
      unfolding page_bytes_xor_page pb flip_twice by simp
    ultimately show ?thesis using m D(2,3) False by auto
  qed
qed


text \<open>on a page whose first byte is 0xFF the check for an encrypted zero byte makes \<^verbatim>\<open>mdecrypt\<close>
  give up half way: it returns -1 with the page already marked present and no longer
  encrypted, and its bytes still flipped.\<close>

theorem mdecrypt_fails_on_ff:
  assumes "vm_ok st pgdir" "vpn va + n \<le> 1048576" "frames_apart st pgdir va n"
    "\<And>x. in_pages va n x \<Longrightarrow> data_frame st pgdir x \<and> user_page st pgdir x"
    "in_pages va n y" "bit (lookup st pgdir y) 0" "\<not> bit (lookup st pgdir y) 10"
    "page_bytes st (frame_of st pgdir y) \<noteq> []" "hd (page_bytes st (frame_of st pgdir y)) = 0xFF"
  shows "\<exists>st1 st2. mencrypt pgdir va n st = Ok (0, st1) \<and> mdecrypt pgdir y st1 = Ok (- 1, st2)
    \<and> lookup st2 pgdir y = lookup st pgdir y
    \<and> page_bytes st2 (frame_of st pgdir y) = map (\<lambda>b. b XOR 0xFF) (page_bytes st (frame_of st pgdir y))"
  using mdecrypt_after_mencrypt [OF assms(1-8)] assms(9) by auto

lemma sample_user:
  "in_pages 0 1 x \<longleftrightarrow> vpn x = 0" "frame_of sample_machine 0x80001000 0 = 0x80003000"
  "vpn x = 0 \<Longrightarrow> data_frame sample_machine 0x80001000 x \<and> user_page sample_machine 0x80001000 x"
  "page_bytes sample_machine 0x80003000 = fill_page 5"
proof -
  have v0: "vpn 0 = 0" by (simp add: vpn_def)
  show "in_pages 0 1 x \<longleftrightarrow> vpn x = 0" for x by (auto simp: in_pages_def v0)
  have f: "frame_of sample_machine 0x80001000 x = 0x80003000" if "vpn x = 0" for x
    using that by (simp add: frame_of_def sample_lookup P2V_def PTE_ADDR_def KERNBASE_V_def)
  show "frame_of sample_machine 0x80001000 0 = 0x80003000" using f v0 by blast
  have t: "tables sample_machine 0x80001000 = {0x80001000, 0x80002000}"
    using sample_dir by (auto simp: tables_def)
  have b: "bit (0x3007 :: u32) 0" "bit (0x3007 :: u32) 2"
    by (simp_all add: bit_numeral_simps bit_0)
  show "data_frame sample_machine 0x80001000 x \<and> user_page sample_machine 0x80001000 x" if "vpn x = 0" for x
    using that f [OF that] b by (simp add: data_frame_def user_page_def t sample_dir sample_lookup mapped_def PDX_PTX)
  show "page_bytes sample_machine 0x80003000 = fill_page 5" by (simp add: page_bytes_def sample_machine_def)
qed

lemma single_page_apart: "frames_apart st pgdir 0 1"
  unfolding frames_apart_def sample_user(1) by simp

theorem mencrypt_all_or_nothing_witness:
  "\<exists>st'. mencrypt 0x80001000 0 1 sample_machine = Ok (0, st') \<and> vm_ok st' 0x80001000"
proof -
  have "vpn 0 + 1 \<le> 1048576" by (simp add: vpn_def)
  moreover have "frames_apart sample_machine 0x80001000 0 1" by (rule single_page_apart)
  ultimately show ?thesis using mencrypt_all_or_nothing [OF sample_ok, of 0 1]
    unfolding sample_user(1) using sample_user(3) by auto
qed


text \<open>The same machine with 0xFF in every byte of its data pages.\<close>

definition ff_machine :: machine where
  "ff_machine = set_frame 0x80003000 (Bytes (fill_page 0xFF)) sample_machine"

lemma ff_machine_same:
  "vm_ok ff_machine 0x80001000" "lookup ff_machine 0x80001000 x = lookup sample_machine 0x80001000 x"
  "frame_of ff_machine 0x80001000 x = frame_of sample_machine 0x80001000 x"
  "data_frame ff_machine 0x80001000 x = data_frame sample_machine 0x80001000 x"
  "user_page ff_machine 0x80001000 x = user_page sample_machine 0x80001000 x"
proof -
  have t: "tables sample_machine 0x80001000 = {0x80001000, 0x80002000}"
    using sample_dir by (auto simp: tables_def)
  have pw: "page_words ff_machine u = page_words sample_machine u" if "u \<noteq> 0x80003000" for u
    using that by (simp add: page_words_def ff_machine_def set_frame_def)
  have pd: "page_words ff_machine 0x80001000 = page_words sample_machine 0x80001000" by (rule pw) simp
  have p: "pd_present ff_machine 0x80001000 = pd_present sample_machine 0x80001000"
    and tb: "table_of ff_machine 0x80001000 = table_of sample_machine 0x80001000"
    by (simp_all add: pd_present_def table_of_def pd fun_eq_iff)
  have ts: "tables ff_machine 0x80001000 = tables sample_machine 0x80001000" by (simp add: tables_def p tb)
  have fl: "freelist ff_machine = freelist sample_machine" by (simp add: ff_machine_def)
  show "vm_ok ff_machine 0x80001000"
    using sample_ok unfolding vm_ok_def ts p tb fl by (auto simp: t is_table_def pw)
  show l: "lookup ff_machine 0x80001000 x = lookup sample_machine 0x80001000 x" for x
    by (auto simp: lookup_eq p tb sample_dir pw)
  show f: "frame_of ff_machine 0x80001000 x = frame_of sample_machine 0x80001000 x" for x by (simp add: frame_of_def l)
  show "data_frame ff_machine 0x80001000 x = data_frame sample_machine 0x80001000 x"
    "user_page ff_machine 0x80001000 x = user_page sample_machine 0x80001000 x"
    by (simp_all add: data_frame_def user_page_def f l p ts)
qed

theorem mdecrypt_fails_on_ff_witness:
  "\<exists>st1 st2. mencrypt 0x80001000 0 1 ff_machine = Ok (0, st1) \<and> mdecrypt 0x80001000 0 st1 = Ok (- 1, st2)
    \<and> page_bytes st2 0x80003000 = fill_page 0"
proof -
  have v0: "vpn 0 = 0" by (simp add: vpn_def)
  have pb: "page_bytes ff_machine 0x80003000 = fill_page 0xFF"
    by (simp add: page_bytes_def ff_machine_def set_frame_def)
  have "vpn 0 + 1 \<le> 1048576" by (simp add: v0)
  moreover have "frames_apart ff_machine 0x80001000 0 1" by (rule single_page_apart)
  moreover have "bit (0x3007 :: u32) 0" "\<not> bit (0x3007 :: u32) 10"
    by (simp_all add: bit_numeral_simps bit_0)
  ultimately show ?thesis
    using mdecrypt_fails_on_ff [OF ff_machine_same(1), of 0 1 0, unfolded sample_user(1,2) ff_machine_same(2-5) pb]
      sample_user(3)
    by (auto simp: sample_lookup v0 fill_page_facts)
qed

text \<open>a user access to an address that has no page, which \<^verbatim>\<open>trap\<close> sends to \<^verbatim>\<open>mdecrypt\<close> like every page
  fault, stops the whole machine instead of killing the process.\<close>

theorem stray_access_panics:
  assumes "lookup st pgdir cr2 = 0"
  shows "trap_pgflt pgdir cr2 st = Panic ''p4Debug: Memory fault''"
  using assms by (auto simp: trap_pgflt_def mdecrypt_def walk_noalloc lookup_def)

theorem stray_access_panics_witness:
  "trap_pgflt 0x80001000 0x5000 sample_machine = Panic ''p4Debug: Memory fault''"
  by (rule stray_access_panics) (simp add: sample_lookup vpn_def)

subsection \<open>The free list\<close>

definition free_pages :: "u32 \<Rightarrow> nat \<Rightarrow> u32 list" where
  "free_pages p n = map (\<lambda>k. p + of_nat k * PGSIZE) [0..<n]"

lemma free_pages_Suc: "free_pages p (Suc n) = p # free_pages (p + PGSIZE) n"
  by (simp add: free_pages_def upt_conv_Cons map_Suc_upt [symmetric] comp_def algebra_simps del: upt_Suc)

lemma freerange_loop_frees:
  assumes "\<And>k. k < n \<Longrightarrow> (p + of_nat k * PGSIZE) mod PGSIZE = 0 \<and> kend \<le> p + of_nat k * PGSIZE
      \<and> V2P (p + of_nat k * PGSIZE) < PHYSTOP"
  shows "\<exists>st'. freerange_loop kend n p st = Ok st' \<and> freelist st' = rev (free_pages p n) @ freelist st"
  using assms
proof (induction n arbitrary: p st)
  case 0
  then show ?case by (simp add: free_pages_def)
next
  case (Suc n)
  have p: "p mod PGSIZE = 0" "kend \<le> p" "V2P p < PHYSTOP" using Suc.prems [of 0] by auto
  let ?s = "(set_frame p (Bytes (replicate 4096 1)) st)\<lparr>freelist := p # freelist st\<rparr>"
  have "kfree kend p st = Ok ?s" using p by (simp add: kfree_def Let_def not_less not_le)
  moreover have "\<exists>st'. freerange_loop kend n (p + PGSIZE) ?s = Ok st'
      \<and> freelist st' = rev (free_pages (p + PGSIZE) n) @ freelist ?s"
  proof (rule Suc.IH)
    fix k assume "k < n"
    then show "(p + PGSIZE + of_nat k * PGSIZE) mod PGSIZE = 0 \<and> kend \<le> p + PGSIZE + of_nat k * PGSIZE
      \<and> V2P (p + PGSIZE + of_nat k * PGSIZE) < PHYSTOP"
      using Suc.prems [of "Suc k"] by (simp add: algebra_simps)
  qed
  ultimately show ?case by (auto simp: free_pages_Suc)
qed

text \<open>The free list keeps its pages apart: a page that was handed out is not on it, and freeing
  it makes it the next one handed out.\<close>

lemma kalloc_kfree:
  assumes "distinct (freelist st)" "kalloc st = (Some v, st1)" "kfree kend v st1 = Ok st2"
  shows "v \<notin> set (freelist st1)" "freelist st2 = freelist st" "fst (kalloc st2) = Some v"
  using assms by (auto simp: kalloc_def kfree_def Let_def split: list.splits if_splits)

end
