(* ===== verification/Proc.thy ===== *)
theory Proc
  imports Vm
begin

unbundle bit_operations_syntax

text \<open>
  Processes, \<^verbatim>\<open>p4/proc.c\<close>.  The process table is a list; a process is named by its position, and a
  parent pointer is a position.  Each critical section under \<^verbatim>\<open>ptable.lock\<close> is one step.  A call that
  sleeps leaves its process SLEEPING in the new state and goes on when it runs again.  The
  reference counting of open files and inodes belongs to \<^verbatim>\<open>file.c\<close> and \<^verbatim>\<open>fs.c\<close>; the operations that
  \<^verbatim>\<open>fork\<close> and \<^verbatim>\<open>exit\<close> call there are arguments, over a state of their own.
\<close>

subsection \<open>Data\<close>

datatype procstate = UNUSED | EMBRYO | SLEEPING | RUNNABLE | RUNNING | ZOMBIE

text \<open>A sleep channel is an address: that of a process table entry or of something else.\<close>

datatype chan = PChan nat | AChan nat

record trapframe =
  tf_eax :: u32
  tf_eip :: u32
  tf_esp :: u32
  tf_ebp :: u32
  tf_cs :: u32
  tf_ds :: u32
  tf_es :: u32
  tf_ss :: u32
  tf_eflags :: u32

definition zero_tf :: trapframe where
  "zero_tf = \<lparr>tf_eax = 0, tf_eip = 0, tf_esp = 0, tf_ebp = 0, tf_cs = 0, tf_ds = 0, tf_es = 0, tf_ss = 0, tf_eflags = 0\<rparr>"

record 'f proc =
  p_sz :: u32
  p_pgdir :: u32
  p_kstack :: u32
  p_state :: procstate
  p_pid :: int
  p_parent :: "nat option"
  p_tf :: trapframe
  p_start :: bool
  p_chan :: "chan option"
  p_killed :: bool
  p_ofile :: "'f option list"
  p_cwd :: "'f option"
  p_name :: "byte list"

definition NPROC :: nat where "NPROC = 64"
definition NOFILE :: nat where "NOFILE = 16"

record ('f, 'e) kernel =
  procs :: "'f proc list"
  nextpid :: int
  initproc :: "nat option"
  running :: "nat option list"
  mem :: machine
  env :: 'e

abbreviation pr :: "('f, 'e) kernel \<Rightarrow> nat \<Rightarrow> 'f proc" where
  "pr k i \<equiv> procs k ! i"

definition set_proc :: "nat \<Rightarrow> 'f proc \<Rightarrow> ('f, 'e) kernel \<Rightarrow> ('f, 'e) kernel" where
  "set_proc i p k = k\<lparr>procs := (procs k)[i := p]\<rparr>"

subsection \<open>Creating processes\<close>

text \<open>\<^verbatim>\<open>p_start\<close> says that the saved context is the fresh one that starts at \<^verbatim>\<open>forkret\<close>.\<close>

definition allocproc :: "('f, 'e) kernel \<Rightarrow> nat option \<times> ('f, 'e) kernel" where
  "allocproc k =
     (case find_index (\<lambda>p. p_state p = UNUSED) (procs k) of
        None \<Rightarrow> (None, k)
      | Some i \<Rightarrow>
          (let k = set_proc i ((pr k i)\<lparr>p_state := EMBRYO, p_pid := nextpid k\<rparr>)
                     (k\<lparr>nextpid := nextpid k + 1\<rparr>)
           in case kalloc (mem k) of
                (None, m) \<Rightarrow>
                  (None, set_proc i ((pr k i)\<lparr>p_kstack := 0, p_state := UNUSED\<rparr>) (k\<lparr>mem := m\<rparr>))
              | (Some st, m) \<Rightarrow>
                  (Some i, set_proc i ((pr k i)\<lparr>p_kstack := st, p_start := True\<rparr>) (k\<lparr>mem := m\<rparr>))))"

text \<open>Segment selectors and flags of \<^verbatim>\<open>mmu.h\<close>.\<close>

definition UCODE :: u32 where "UCODE = (push_bit 3 3) OR 3"
definition UDATA :: u32 where "UDATA = (push_bit 3 4) OR 3"
definition FL_IF :: u32 where "FL_IF = 0x200"

definition initcode_name :: "byte list" where
  "initcode_name = [105, 110, 105, 116, 99, 111, 100, 101]"

definition userinit :: "u32 \<Rightarrow> u32 \<Rightarrow> byte list \<Rightarrow> 'f \<Rightarrow> ('f, 'e) kernel \<Rightarrow> ('f, 'e) kernel outcome" where
  "userinit kend data initcode rootdir k =
     (case allocproc k of
        (None, k) \<Rightarrow> Panic ''null process''
      | (Some i, k) \<Rightarrow>
          and_then (setupkvm kend data (mem k)) (\<lambda>(pd, m).
            case pd of
              None \<Rightarrow> Panic ''userinit: out of memory?''
            | Some pgdir \<Rightarrow>
                and_then (inituvm pgdir initcode m) (\<lambda>m.
                  Ok (set_proc i ((pr k i)\<lparr>p_pgdir := pgdir, p_sz := PGSIZE,
                        p_tf := zero_tf\<lparr>tf_cs := UCODE, tf_ds := UDATA, tf_es := UDATA, tf_ss := UDATA,
                                        tf_eflags := FL_IF, tf_esp := PGSIZE, tf_eip := 0\<rparr>,
                        p_name := initcode_name, p_cwd := Some rootdir, p_state := RUNNABLE\<rparr>)
                      (k\<lparr>initproc := Some i, mem := m\<rparr>)))))"

definition growproc :: "u32 \<Rightarrow> nat \<Rightarrow> int \<Rightarrow> ('f, 'e) kernel \<Rightarrow> (int \<times> ('f, 'e) kernel) outcome" where
  "growproc kend i n k =
     (let p = pr k i; sz = p_sz p in
      if n > 0
      then and_then (allocuvm kend (p_pgdir p) sz (sz + of_int n) (mem k)) (\<lambda>(r, m).
             if r = 0 then Ok (- 1, k\<lparr>mem := m\<rparr>)
             else Ok (0, set_proc i (p\<lparr>p_sz := r\<rparr>) (k\<lparr>mem := m\<rparr>)))
      else if n < 0
      then and_then (deallocuvm kend (p_pgdir p) sz (sz + of_int n) (mem k)) (\<lambda>(r, m).
             if r = 0 then Ok (- 1, k\<lparr>mem := m\<rparr>)
             else Ok (0, set_proc i (p\<lparr>p_sz := r\<rparr>) (k\<lparr>mem := m\<rparr>)))
      else Ok (0, k))"

fun dup_files :: "('f \<Rightarrow> 'e \<Rightarrow> 'e outcome) \<Rightarrow> 'f option list \<Rightarrow> 'e \<Rightarrow> 'e outcome" where
  "dup_files filedup [] e = Ok e"
| "dup_files filedup (None # fs) e = dup_files filedup fs e"
| "dup_files filedup (Some f # fs) e = and_then (filedup f e) (dup_files filedup fs)"

definition idup_cwd :: "('f \<Rightarrow> 'e \<Rightarrow> 'e outcome) \<Rightarrow> 'f option \<Rightarrow> 'e \<Rightarrow> 'e outcome" where
  "idup_cwd idup d e = (case d of None \<Rightarrow> Ok e | Some ip \<Rightarrow> idup ip e)"

definition fork :: "u32 \<Rightarrow> u32 \<Rightarrow> ('f \<Rightarrow> 'e \<Rightarrow> 'e outcome) \<Rightarrow> ('f \<Rightarrow> 'e \<Rightarrow> 'e outcome) \<Rightarrow> nat \<Rightarrow>
    ('f, 'e) kernel \<Rightarrow> (int \<times> ('f, 'e) kernel) outcome" where
  "fork kend data filedup idup cur k =
     (case allocproc k of
        (None, k) \<Rightarrow> Ok (- 1, k)
      | (Some i, k) \<Rightarrow>
          and_then (copyuvm kend data (p_pgdir (pr k cur)) (p_sz (pr k cur)) (mem k)) (\<lambda>(pd, m).
            case pd of
              None \<Rightarrow>
                and_then (kfree kend (p_kstack (pr k i)) m) (\<lambda>m.
                  Ok (- 1, set_proc i ((pr k i)\<lparr>p_pgdir := 0, p_kstack := 0, p_state := UNUSED\<rparr>) (k\<lparr>mem := m\<rparr>)))
            | Some pgdir \<Rightarrow>
                and_then (dup_files filedup (p_ofile (pr k cur)) (env k)) (\<lambda>e.
                and_then (idup_cwd idup (p_cwd (pr k cur)) e) (\<lambda>e.
                  let c = pr k cur;
                      np = (pr k i)\<lparr>p_pgdir := pgdir, p_sz := p_sz c, p_parent := Some cur,
                             p_tf := (p_tf c)\<lparr>tf_eax := 0\<rparr>,
                             p_ofile := map2 (\<lambda>new old. if old \<noteq> None then old else new)
                                             (p_ofile (pr k i)) (p_ofile c),
                             p_cwd := p_cwd c, p_name := p_name c, p_state := RUNNABLE\<rparr>
                  in Ok (p_pid (pr k i), set_proc i np (k\<lparr>mem := m, env := e\<rparr>))))))"

subsection \<open>Sleeping and waking\<close>

definition wakeup1 :: "chan \<Rightarrow> ('f, 'e) kernel \<Rightarrow> ('f, 'e) kernel" where
  "wakeup1 ch k =
     k\<lparr>procs := map (\<lambda>p. if p_state p = SLEEPING \<and> p_chan p = Some ch then p\<lparr>p_state := RUNNABLE\<rparr> else p)
                     (procs k)\<rparr>"

definition wakeup :: "chan \<Rightarrow> ('f, 'e) kernel \<Rightarrow> ('f, 'e) kernel" where
  "wakeup ch k = wakeup1 ch k"

text \<open>Giving up the processor: \<^verbatim>\<open>sched\<close> switches to the scheduler of this processor, which
  clears its \<^verbatim>\<open>c->proc\<close>.\<close>

definition leave_cpu :: "nat \<Rightarrow> ('f, 'e) kernel \<Rightarrow> ('f, 'e) kernel" where
  "leave_cpu c k = k\<lparr>running := (running k)[c := None]\<rparr>"

definition sched :: "bool \<Rightarrow> nat \<Rightarrow> bool \<Rightarrow> nat \<Rightarrow> nat \<Rightarrow> ('f, 'e) kernel \<Rightarrow> ('f, 'e) kernel outcome" where
  "sched holding_ptable ncli fl_if c i k =
     (if \<not> holding_ptable then Panic ''sched ptable.lock''
      else if ncli \<noteq> 1 then Panic ''sched locks''
      else if p_state (pr k i) = RUNNING then Panic ''sched running''
      else if fl_if then Panic ''sched interruptible''
      else Ok (leave_cpu c k))"

definition yield :: "nat \<Rightarrow> nat \<Rightarrow> ('f, 'e) kernel \<Rightarrow> ('f, 'e) kernel outcome" where
  "yield c i k = sched True 1 False c i (set_proc i ((pr k i)\<lparr>p_state := RUNNABLE\<rparr>) k)"

text \<open>\<^verbatim>\<open>sleep\<close> up to the switch, and what it does after it is scheduled again.\<close>

definition sleep :: "nat \<Rightarrow> nat \<Rightarrow> chan \<Rightarrow> ('f, 'e) kernel \<Rightarrow> ('f, 'e) kernel outcome" where
  "sleep c i ch k =
     sched True 1 False c i (set_proc i ((pr k i)\<lparr>p_chan := Some ch, p_state := SLEEPING\<rparr>) k)"

definition sleep_resume :: "nat \<Rightarrow> ('f, 'e) kernel \<Rightarrow> ('f, 'e) kernel" where
  "sleep_resume i k = set_proc i ((pr k i)\<lparr>p_chan := None\<rparr>) k"

text \<open>One round of the scheduler's inner loop on processor \<open>c\<close> that finds process \<open>i\<close> runnable.\<close>

definition schedule :: "nat \<Rightarrow> nat \<Rightarrow> ('f, 'e) kernel \<Rightarrow> ('f, 'e) kernel outcome" where
  "schedule c i k =
     (if p_state (pr k i) \<noteq> RUNNABLE then Ok k
      else if p_kstack (pr k i) = 0 then Panic ''switchuvm: no kstack''
      else if p_pgdir (pr k i) = 0 then Panic ''switchuvm: no pgdir''
      else Ok (set_proc i ((pr k i)\<lparr>p_state := RUNNING\<rparr>) (k\<lparr>running := (running k)[c := Some i]\<rparr>)))"

subsection \<open>Ending processes\<close>

fun close_files :: "('f \<Rightarrow> 'e \<Rightarrow> 'e outcome) \<Rightarrow> 'f option list \<Rightarrow> 'e \<Rightarrow> 'e outcome" where
  "close_files fileclose [] e = Ok e"
| "close_files fileclose (None # fs) e = close_files fileclose fs e"
| "close_files fileclose (Some f # fs) e = and_then (fileclose f e) (close_files fileclose fs)"

definition put_cwd :: "('f \<Rightarrow> 'e \<Rightarrow> 'e outcome) \<Rightarrow> 'f option \<Rightarrow> 'e \<Rightarrow> 'e outcome" where
  "put_cwd iput_op d e = (case d of None \<Rightarrow> Ok e | Some ip \<Rightarrow> iput_op ip e)"

text \<open>The loop that passes the children on; \<^verbatim>\<open>wakeup1(initproc)\<close> is called inside it.\<close>

fun pass_children :: "nat \<Rightarrow> nat \<Rightarrow> nat list \<Rightarrow> ('f, 'e) kernel \<Rightarrow> ('f, 'e) kernel" where
  "pass_children cur ini [] k = k"
| "pass_children cur ini (j # js) k =
     (if p_parent (pr k j) = Some cur
      then let k = set_proc j ((pr k j)\<lparr>p_parent := Some ini\<rparr>) k
           in pass_children cur ini js (if p_state (pr k j) = ZOMBIE then wakeup1 (PChan ini) k else k)
      else pass_children cur ini js k)"

text \<open>Files are closed before the table lock is taken; the rest is one critical section.\<close>

definition exit_close :: "('f \<Rightarrow> 'e \<Rightarrow> 'e outcome) \<Rightarrow> ('f \<Rightarrow> 'e \<Rightarrow> 'e outcome) \<Rightarrow> nat \<Rightarrow>
    ('f, 'e) kernel \<Rightarrow> ('f, 'e) kernel outcome" where
  "exit_close fileclose iput_op cur k =
     (if Some cur = initproc k then Panic ''init exiting''
      else and_then (close_files fileclose (p_ofile (pr k cur)) (env k)) (\<lambda>e.
           and_then (put_cwd iput_op (p_cwd (pr k cur)) e) (\<lambda>e.
             Ok (set_proc cur ((pr k cur)\<lparr>p_ofile := map (\<lambda>_. None) (p_ofile (pr k cur)), p_cwd := None\<rparr>)
                   (k\<lparr>env := e\<rparr>)))))"

definition exit_zombie :: "nat \<Rightarrow> nat \<Rightarrow> ('f, 'e) kernel \<Rightarrow> ('f, 'e) kernel outcome" where
  "exit_zombie c cur k =
     (case (p_parent (pr k cur), initproc k) of
        (Some par, Some ini) \<Rightarrow>
          (let k = wakeup1 (PChan par) k;
               k = pass_children cur ini [0..<NPROC] k;
               k = set_proc cur ((pr k cur)\<lparr>p_state := ZOMBIE\<rparr>) k
           in sched True 1 False c cur k)
      | _ \<Rightarrow> Panic ''null parent'')"

definition exit_proc :: "('f \<Rightarrow> 'e \<Rightarrow> 'e outcome) \<Rightarrow> ('f \<Rightarrow> 'e \<Rightarrow> 'e outcome) \<Rightarrow> nat \<Rightarrow> nat \<Rightarrow>
    ('f, 'e) kernel \<Rightarrow> ('f, 'e) kernel outcome" where
  "exit_proc fileclose iput_op c cur k = and_then (exit_close fileclose iput_op cur k) (exit_zombie c cur)"

definition reap :: "u32 \<Rightarrow> nat \<Rightarrow> ('f, 'e) kernel \<Rightarrow> (int \<times> ('f, 'e) kernel) outcome" where
  "reap kend j k =
     (let p = pr k j in
      and_then (kfree kend (p_kstack p) (mem k)) (\<lambda>m.
      and_then (freevm kend (p_pgdir p) m) (\<lambda>m.
        Ok (p_pid p, set_proc j (p\<lparr>p_kstack := 0, p_pid := 0, p_parent := None, p_name := [],
                                   p_killed := False, p_state := UNUSED\<rparr>) (k\<lparr>mem := m\<rparr>)))))"

text \<open>One pass of \<^verbatim>\<open>wait\<close> over the table: it returns a value, or sleeps (\<open>None\<close>) and scans again.\<close>

definition wait_proc :: "u32 \<Rightarrow> nat \<Rightarrow> nat \<Rightarrow> ('f, 'e) kernel \<Rightarrow> (int option \<times> ('f, 'e) kernel) outcome" where
  "wait_proc kend c cur k =
     (case find_index (\<lambda>p. p_parent p = Some cur \<and> p_state p = ZOMBIE) (procs k) of
        Some j \<Rightarrow> and_then (reap kend j k) (\<lambda>(pid, k). Ok (Some pid, k))
      | None \<Rightarrow>
          (if (\<forall>p \<in> set (procs k). p_parent p \<noteq> Some cur) \<or> p_killed (pr k cur) then Ok (Some (- 1), k)
           else and_then (sleep c cur (PChan cur) k) (\<lambda>k. Ok (None, k))))"

definition kill :: "int \<Rightarrow> ('f, 'e) kernel \<Rightarrow> int \<times> ('f, 'e) kernel" where
  "kill pid k =
     (case find_index (\<lambda>p. p_pid p = pid) (procs k) of
        None \<Rightarrow> (- 1, k)
      | Some j \<Rightarrow>
          (let p = (pr k j)\<lparr>p_killed := True\<rparr>
           in (0, set_proc j (if p_state p = SLEEPING then p\<lparr>p_state := RUNNABLE\<rparr> else p) k)))"

subsection \<open>The process graph\<close>

lemma set_proc_simps [simp]:
  "length (procs (set_proc i p k)) = length (procs k)" "nextpid (set_proc i p k) = nextpid k"
  "initproc (set_proc i p k) = initproc k" "running (set_proc i p k) = running k"
  "mem (set_proc i p k) = mem k" "env (set_proc i p k) = env k"
  by (simp_all add: set_proc_def)

lemma pr_set_proc: "i < length (procs k) \<Longrightarrow> pr (set_proc i p k) j = (if j = i then p else pr k j)"
  by (auto simp: set_proc_def)

lemma pr_outer [simp]:
  "pr (set_proc i p (k\<lparr>mem := m\<rparr>)) j = pr (set_proc i p k) j" "pr (set_proc i p (k\<lparr>env := e\<rparr>)) j = pr (set_proc i p k) j"
  "pr (set_proc i p (k\<lparr>nextpid := n\<rparr>)) j = pr (set_proc i p k) j" "pr (set_proc i p (k\<lparr>running := r\<rparr>)) j = pr (set_proc i p k) j"
  "pr (set_proc i p (k\<lparr>initproc := q\<rparr>)) j = pr (set_proc i p k) j"
  by (simp_all add: set_proc_def)

lemma wakeup1_simps [simp]:
  "length (procs (wakeup1 ch k)) = length (procs k)" "initproc (wakeup1 ch k) = initproc k"
  "running (wakeup1 ch k) = running k"
  by (simp_all add: wakeup1_def)

lemma pr_wakeup1:
  "i < length (procs k) \<Longrightarrow> pr (wakeup1 ch k) i =
     (if p_state (pr k i) = SLEEPING \<and> p_chan (pr k i) = Some ch then (pr k i)\<lparr>p_state := RUNNABLE\<rparr> else pr k i)"
  by (simp add: wakeup1_def)

text \<open>A process that others may wait for: it exists and has not exited.\<close>

definition live :: "procstate \<Rightarrow> bool" where
  "live s \<longleftrightarrow> s \<noteq> UNUSED \<and> s \<noteq> EMBRYO \<and> s \<noteq> ZOMBIE"

text \<open>The family tree and the sleepers of \<^verbatim>\<open>wait\<close>, over the states, parents and channels of the
  table: init is alive and has no parent, every other process has a live parent, and
  nobody sleeps in \<^verbatim>\<open>wait\<close> while one of its children is a zombie.\<close>

definition tree :: "nat option \<Rightarrow> (nat \<Rightarrow> procstate) \<Rightarrow> (nat \<Rightarrow> nat option) \<Rightarrow> (nat \<Rightarrow> chan option) \<Rightarrow> bool" where
  "tree io S P C \<longleftrightarrow>
     (\<exists>ini < NPROC. io = Some ini \<and> live (S ini) \<and> P ini = None
        \<and> (\<forall>i < NPROC. i \<noteq> ini \<longrightarrow> S i \<noteq> UNUSED \<longrightarrow> (\<exists>q < NPROC. P i = Some q \<and> q \<noteq> i \<and> live (S q))))
     \<and> (\<forall>i < NPROC. S i = UNUSED \<longrightarrow> P i = None) \<and> (\<forall>i < NPROC. S i \<noteq> EMBRYO)
     \<and> (\<forall>i < NPROC. \<forall>q < NPROC. S i = ZOMBIE \<longrightarrow> P i = Some q \<longrightarrow> \<not> (S q = SLEEPING \<and> C q = Some (PChan q)))"

lemma treeE:
  assumes "tree io S P C"
  obtains ini where "ini < NPROC" "io = Some ini" "live (S ini)" "P ini = None"
    "\<And>i. i < NPROC \<Longrightarrow> i \<noteq> ini \<Longrightarrow> S i \<noteq> UNUSED \<Longrightarrow> \<exists>q < NPROC. P i = Some q \<and> q \<noteq> i \<and> live (S q)"
    "\<And>i. i < NPROC \<Longrightarrow> S i = UNUSED \<Longrightarrow> P i = None" "\<And>i. i < NPROC \<Longrightarrow> S i \<noteq> EMBRYO"
    "\<And>i q. i < NPROC \<Longrightarrow> q < NPROC \<Longrightarrow> S i = ZOMBIE \<Longrightarrow> P i = Some q \<Longrightarrow>
       \<not> (S q = SLEEPING \<and> C q = Some (PChan q))"
  using assms unfolding tree_def by blast

lemma tree_parent:
  assumes "tree (Some ini) S P C" "i < NPROC" "i \<noteq> ini" "S i \<noteq> UNUSED"
  shows "\<exists>q < NPROC. P i = Some q \<and> q \<noteq> i \<and> live (S q)"
  by (rule treeE [OF assms(1)]) (use assms(2-4) in simp)

text \<open>Only the entries of the table count.\<close>

lemma tree_cong:
  assumes t: "tree io S P C" and P: "\<And>i. i < NPROC \<Longrightarrow> P' i = P i" and C: "\<And>i. i < NPROC \<Longrightarrow> C' i = C i"
  shows "tree io S P' C'"
proof -
  obtain ini where T: "ini < NPROC" "io = Some ini" "live (S ini)" "P ini = None"
    "\<And>i. i < NPROC \<Longrightarrow> i \<noteq> ini \<Longrightarrow> S i \<noteq> UNUSED \<Longrightarrow> \<exists>q < NPROC. P i = Some q \<and> q \<noteq> i \<and> live (S q)"
    "\<And>i. i < NPROC \<Longrightarrow> S i = UNUSED \<Longrightarrow> P i = None" "\<And>i. i < NPROC \<Longrightarrow> S i \<noteq> EMBRYO"
    "\<And>i q. i < NPROC \<Longrightarrow> q < NPROC \<Longrightarrow> S i = ZOMBIE \<Longrightarrow> P i = Some q \<Longrightarrow>
       \<not> (S q = SLEEPING \<and> C q = Some (PChan q))"
    by (rule treeE [OF t]) (rule that)
  show ?thesis
    unfolding tree_def
  proof (intro conjI allI impI)
    have "\<exists>q < NPROC. P' i = Some q \<and> q \<noteq> i \<and> live (S q)" if i: "i < NPROC" "i \<noteq> ini" "S i \<noteq> UNUSED" for i
      using T(5) [OF i] P [OF i(1)] by simp
    then show "\<exists>ini < NPROC. io = Some ini \<and> live (S ini) \<and> P' ini = None
        \<and> (\<forall>i < NPROC. i \<noteq> ini \<longrightarrow> S i \<noteq> UNUSED \<longrightarrow> (\<exists>q < NPROC. P' i = Some q \<and> q \<noteq> i \<and> live (S q)))"
      using T(1-4) P [OF T(1)] by auto
  next
    fix i assume "i < NPROC" "S i = UNUSED"
    then show "P' i = None" using T(6) P by simp
  next
    fix i assume "i < NPROC"
    then show "S i \<noteq> EMBRYO" by (rule T(7))
  next
    fix i q assume "i < NPROC" "q < NPROC" "S i = ZOMBIE" "P' i = Some q"
    then show "\<not> (S q = SLEEPING \<and> C' q = Some (PChan q))" using T(8) P C by simp
  qed
qed

text \<open>Changes between live states.\<close>

lemma tree_live:
  assumes t: "tree io S P C"
    and S: "\<And>i. i < NPROC \<Longrightarrow> S' i = S i \<or> live (S i) \<and> live (S' i)"
    and C: "\<And>i. i < NPROC \<Longrightarrow> S' i = SLEEPING \<Longrightarrow> C' i = Some (PChan i) \<Longrightarrow>
       S i = SLEEPING \<and> C i = Some (PChan i) \<or> (\<forall>j < NPROC. \<not> (S j = ZOMBIE \<and> P j = Some i))"
  shows "tree io S' P C'"
proof -
  obtain ini where T: "ini < NPROC" "io = Some ini" "live (S ini)" "P ini = None"
    "\<And>i. i < NPROC \<Longrightarrow> i \<noteq> ini \<Longrightarrow> S i \<noteq> UNUSED \<Longrightarrow> \<exists>q < NPROC. P i = Some q \<and> q \<noteq> i \<and> live (S q)"
    "\<And>i. i < NPROC \<Longrightarrow> S i = UNUSED \<Longrightarrow> P i = None" "\<And>i. i < NPROC \<Longrightarrow> S i \<noteq> EMBRYO"
    "\<And>i q. i < NPROC \<Longrightarrow> q < NPROC \<Longrightarrow> S i = ZOMBIE \<Longrightarrow> P i = Some q \<Longrightarrow>
       \<not> (S q = SLEEPING \<and> C q = Some (PChan q))"
    by (rule treeE [OF t]) (rule that)
  have lv: "live (S' i) \<longleftrightarrow> live (S i)" if "i < NPROC" for i using S [OF that] by auto
  have un: "S' i = UNUSED \<longleftrightarrow> S i = UNUSED" "S' i = EMBRYO \<longleftrightarrow> S i = EMBRYO" "S' i = ZOMBIE \<longleftrightarrow> S i = ZOMBIE"
    if "i < NPROC" for i using S [OF that] by (auto simp: live_def)
  show ?thesis
    unfolding tree_def
  proof (intro conjI allI impI)
    show "\<exists>ini < NPROC. io = Some ini \<and> live (S' ini) \<and> P ini = None
        \<and> (\<forall>i < NPROC. i \<noteq> ini \<longrightarrow> S' i \<noteq> UNUSED \<longrightarrow> (\<exists>q < NPROC. P i = Some q \<and> q \<noteq> i \<and> live (S' q)))"
      using T(1-5) lv un(1) by metis
  next
    fix i assume "i < NPROC" "S' i = UNUSED"
    then show "P i = None" using T(6) un(1) by blast
  next
    fix i assume "i < NPROC"
    then show "S' i \<noteq> EMBRYO" using T(7) un(2) by blast
  next
    fix i q assume "i < NPROC" "q < NPROC" "S' i = ZOMBIE" "P i = Some q"
    then show "\<not> (S' q = SLEEPING \<and> C' q = Some (PChan q))" using T(8) un(3) C by blast
  qed
qed

text \<open>A new child.\<close>

lemma tree_new:
  assumes t: "tree io S P C" and i: "i < NPROC" "S i = UNUSED" and c: "cur < NPROC" "live (S cur)"
  shows "tree io (S(i := RUNNABLE)) (P(i := Some cur)) C"
proof -
  obtain ini where T: "ini < NPROC" "io = Some ini" "live (S ini)" "P ini = None"
    "\<And>i. i < NPROC \<Longrightarrow> i \<noteq> ini \<Longrightarrow> S i \<noteq> UNUSED \<Longrightarrow> \<exists>q < NPROC. P i = Some q \<and> q \<noteq> i \<and> live (S q)"
    "\<And>i. i < NPROC \<Longrightarrow> S i = UNUSED \<Longrightarrow> P i = None" "\<And>i. i < NPROC \<Longrightarrow> S i \<noteq> EMBRYO"
    "\<And>i q. i < NPROC \<Longrightarrow> q < NPROC \<Longrightarrow> S i = ZOMBIE \<Longrightarrow> P i = Some q \<Longrightarrow>
       \<not> (S q = SLEEPING \<and> C q = Some (PChan q))"
    by (rule treeE [OF t]) (rule that)
  have ne: "i \<noteq> ini" "i \<noteq> cur" using T(3) c(2) i(2) by (auto simp: live_def)
  have lr: "live RUNNABLE" by (simp add: live_def)
  show ?thesis
    unfolding tree_def
  proof (intro conjI allI impI)
    have "\<exists>q < NPROC. (P(i := Some cur)) j = Some q \<and> q \<noteq> j \<and> live ((S(i := RUNNABLE)) q)"
      if j: "j < NPROC" "j \<noteq> ini" "(S(i := RUNNABLE)) j \<noteq> UNUSED" for j
    proof (cases "j = i")
      case True
      then show ?thesis using c ne(2) by auto
    next
      case False
      then obtain q where "q < NPROC" "P j = Some q" "q \<noteq> j" "live (S q)" using T(5) [of j] j by auto
      then show ?thesis using False lr by auto
    qed
    then show "\<exists>ini < NPROC. io = Some ini \<and> live ((S(i := RUNNABLE)) ini) \<and> (P(i := Some cur)) ini = None
        \<and> (\<forall>j < NPROC. j \<noteq> ini \<longrightarrow> (S(i := RUNNABLE)) j \<noteq> UNUSED \<longrightarrow>
             (\<exists>q < NPROC. (P(i := Some cur)) j = Some q \<and> q \<noteq> j \<and> live ((S(i := RUNNABLE)) q)))"
      using T(1-4) ne(1) by auto
  next
    fix j assume "j < NPROC" "(S(i := RUNNABLE)) j = UNUSED"
    then show "(P(i := Some cur)) j = None" using T(6) by (auto split: if_splits)
  next
    fix j assume "j < NPROC"
    then show "(S(i := RUNNABLE)) j \<noteq> EMBRYO" using T(7) by auto
  next
    fix j q assume "j < NPROC" "q < NPROC" "(S(i := RUNNABLE)) j = ZOMBIE" "(P(i := Some cur)) j = Some q"
    then show "\<not> ((S(i := RUNNABLE)) q = SLEEPING \<and> C q = Some (PChan q))" using T(8) by (auto split: if_splits)
  qed
qed

text \<open>A zombie is reaped.\<close>

lemma tree_reap:
  assumes t: "tree io S P C" and j: "j < NPROC" "S j = ZOMBIE"
  shows "tree io (S(j := UNUSED)) (P(j := None)) C"
proof -
  obtain ini where T: "ini < NPROC" "io = Some ini" "live (S ini)" "P ini = None"
    "\<And>i. i < NPROC \<Longrightarrow> i \<noteq> ini \<Longrightarrow> S i \<noteq> UNUSED \<Longrightarrow> \<exists>q < NPROC. P i = Some q \<and> q \<noteq> i \<and> live (S q)"
    "\<And>i. i < NPROC \<Longrightarrow> S i = UNUSED \<Longrightarrow> P i = None" "\<And>i. i < NPROC \<Longrightarrow> S i \<noteq> EMBRYO"
    "\<And>i q. i < NPROC \<Longrightarrow> q < NPROC \<Longrightarrow> S i = ZOMBIE \<Longrightarrow> P i = Some q \<Longrightarrow>
       \<not> (S q = SLEEPING \<and> C q = Some (PChan q))"
    by (rule treeE [OF t]) (rule that)
  have ne: "j \<noteq> ini" and lz: "live (S q) \<Longrightarrow> q \<noteq> j" for q using T(3) j(2) by (auto simp: live_def)
  show ?thesis
    unfolding tree_def
  proof (intro conjI allI impI)
    have "\<exists>q < NPROC. (P(j := None)) i = Some q \<and> q \<noteq> i \<and> live ((S(j := UNUSED)) q)"
      if i: "i < NPROC" "i \<noteq> ini" "(S(j := UNUSED)) i \<noteq> UNUSED" for i
    proof -
      have "i \<noteq> j" "S i \<noteq> UNUSED" using i(3) by (auto split: if_splits)
      then obtain q where "q < NPROC" "P i = Some q" "q \<noteq> i" "live (S q)" using T(5) [of i] i(1,2) by auto
      then show ?thesis using \<open>i \<noteq> j\<close> lz by auto
    qed
    then show "\<exists>ini < NPROC. io = Some ini \<and> live ((S(j := UNUSED)) ini) \<and> (P(j := None)) ini = None
        \<and> (\<forall>i < NPROC. i \<noteq> ini \<longrightarrow> (S(j := UNUSED)) i \<noteq> UNUSED \<longrightarrow>
             (\<exists>q < NPROC. (P(j := None)) i = Some q \<and> q \<noteq> i \<and> live ((S(j := UNUSED)) q)))"
      using T(1-4) ne by auto
  next
    fix i assume "i < NPROC" "(S(j := UNUSED)) i = UNUSED"
    then show "(P(j := None)) i = None" using T(6) by auto
  next
    fix i assume "i < NPROC"
    then show "(S(j := UNUSED)) i \<noteq> EMBRYO" using T(7) by auto
  next
    fix i q assume "i < NPROC" "q < NPROC" "(S(j := UNUSED)) i = ZOMBIE" "(P(j := None)) i = Some q"
    then show "\<not> ((S(j := UNUSED)) q = SLEEPING \<and> C q = Some (PChan q))" using T(8) by (auto split: if_splits)
  qed
qed

text \<open>A process exits and its children go to init.\<close>

lemma tree_exit:
  assumes t: "tree (Some ini) S P C" and cur: "cur < NPROC" "live (S cur)" "cur \<noteq> ini" "P cur = Some par"
    and P': "\<And>i. i < NPROC \<Longrightarrow> P' i = (if P i = Some cur then Some ini else P i)"
    and S': "\<And>i. i < NPROC \<Longrightarrow> i \<noteq> cur \<Longrightarrow> S' i = S i \<or> S i = SLEEPING \<and> S' i = RUNNABLE" and Z: "S' cur = ZOMBIE"
    and wp: "S' par = SLEEPING \<Longrightarrow> C par \<noteq> Some (PChan par)"
    and wi: "\<And>j. j < NPROC \<Longrightarrow> P j = Some cur \<Longrightarrow> S j = ZOMBIE \<Longrightarrow> S' ini = SLEEPING \<Longrightarrow> C ini \<noteq> Some (PChan ini)"
  shows "tree (Some ini) S' P' C"
proof -
  have T: "ini < NPROC" "live (S ini)" "P ini = None"
    "\<And>i. i < NPROC \<Longrightarrow> i \<noteq> ini \<Longrightarrow> S i \<noteq> UNUSED \<Longrightarrow> \<exists>q < NPROC. P i = Some q \<and> q \<noteq> i \<and> live (S q)"
    "\<And>i. i < NPROC \<Longrightarrow> S i = UNUSED \<Longrightarrow> P i = None" "\<And>i. i < NPROC \<Longrightarrow> S i \<noteq> EMBRYO"
    "\<And>i q. i < NPROC \<Longrightarrow> q < NPROC \<Longrightarrow> S i = ZOMBIE \<Longrightarrow> P i = Some q \<Longrightarrow>
       \<not> (S q = SLEEPING \<and> C q = Some (PChan q))"
    using t unfolding tree_def by auto
  have lv: "live (S' i) \<longleftrightarrow> live (S i)" and un: "S' i = UNUSED \<longleftrightarrow> S i = UNUSED"
    and em: "S' i = EMBRYO \<longleftrightarrow> S i = EMBRYO" and zo: "S' i = ZOMBIE \<longleftrightarrow> S i = ZOMBIE"
    and sl: "S' i = SLEEPING \<Longrightarrow> S i = SLEEPING"
    if "i < NPROC" "i \<noteq> cur" for i
    using S' [OF that] by (auto simp: live_def)
  show ?thesis
    unfolding tree_def
  proof (intro conjI allI impI)
    have "\<exists>q < NPROC. P' i = Some q \<and> q \<noteq> i \<and> live (S' q)" if i: "i < NPROC" "i \<noteq> ini" "S' i \<noteq> UNUSED" for i
    proof -
      have "S i \<noteq> UNUSED" using i cur(2) un [of i] by (cases "i = cur") (auto simp: live_def)
      then obtain q where q: "q < NPROC" "P i = Some q" "q \<noteq> i" "live (S q)" using T(4) i by auto
      show ?thesis
      proof (cases "q = cur")
        case True
        then show ?thesis using P' [OF i(1)] q(2) T(1,2) lv [of ini] i(2) cur(3) by auto
      next
        case False
        then show ?thesis using P' [OF i(1)] q lv [of q] by auto
      qed
    qed
    then show "\<exists>ini' < NPROC. Some ini = Some ini' \<and> live (S' ini') \<and> P' ini' = None
        \<and> (\<forall>i < NPROC. i \<noteq> ini' \<longrightarrow> S' i \<noteq> UNUSED \<longrightarrow> (\<exists>q < NPROC. P' i = Some q \<and> q \<noteq> i \<and> live (S' q)))"
      using T(1-3) P' [OF T(1)] lv [of ini] cur(3) by auto
  next
    fix i assume i: "i < NPROC" "S' i = UNUSED"
    then have "i \<noteq> cur" using Z by auto
    then show "P' i = None" using i T(5) un [of i] P' [OF i(1)] by auto
  next
    fix i assume "i < NPROC"
    then show "S' i \<noteq> EMBRYO" using T(6) em [of i] Z by (cases "i = cur") auto
  next
    fix i q assume i: "i < NPROC" "q < NPROC" "S' i = ZOMBIE" "P' i = Some q"
    show "\<not> (S' q = SLEEPING \<and> C q = Some (PChan q))"
    proof (cases "i = cur")
      case True
      then have "q = par" using i(4) P' [OF cur(1)] cur(4) T(4) [OF cur(1,3)] cur(2) by (auto simp: live_def split: if_splits)
      then show ?thesis using wp by blast
    next
      case False
      then have z: "S i = ZOMBIE" using zo [OF i(1)] i(3) by blast
      show ?thesis
      proof (cases "P i = Some cur")
        case True
        then have "q = ini" using P' [OF i(1)] i(4) by simp
        then show ?thesis using wi [OF i(1) True z] by blast
      next
        case nc: False
        then have "P i = Some q" "q \<noteq> cur" using P' [OF i(1)] i(4) by auto
        then show ?thesis using T(7) [OF i(1,2) z] sl [OF i(2)] by blast
      qed
    qed
  qed
qed

subsection \<open>Every step keeps the tree\<close>

abbreviation states :: "('f, 'e) kernel \<Rightarrow> nat \<Rightarrow> procstate" where "states k \<equiv> \<lambda>i. p_state (pr k i)"
abbreviation parents :: "('f, 'e) kernel \<Rightarrow> nat \<Rightarrow> nat option" where "parents k \<equiv> \<lambda>i. p_parent (pr k i)"
abbreviation chans :: "('f, 'e) kernel \<Rightarrow> nat \<Rightarrow> chan option" where "chans k \<equiv> \<lambda>i. p_chan (pr k i)"

definition tree_inv :: "('f, 'e) kernel \<Rightarrow> bool" where
  "tree_inv k \<longleftrightarrow> length (procs k) = NPROC \<and> tree (initproc k) (states k) (parents k) (chans k)"

definition run_inv :: "('f, 'e) kernel \<Rightarrow> bool" where
  "run_inv k \<longleftrightarrow>
     (\<forall>c < length (running k). \<forall>i. running k ! c = Some i \<longrightarrow> i < NPROC \<and> p_state (pr k i) = RUNNING)
   \<and> (\<forall>c < length (running k). \<forall>d < length (running k). running k ! c \<noteq> None \<longrightarrow>
        running k ! c = running k ! d \<longrightarrow> c = d)
   \<and> (\<forall>i < NPROC. p_state (pr k i) = RUNNING \<longrightarrow> (\<exists>c < length (running k). running k ! c = Some i))"

definition proc_inv :: "('f, 'e) kernel \<Rightarrow> bool" where
  "proc_inv k \<longleftrightarrow> tree_inv k \<and> run_inv k"

text \<open>The steps of the system: system calls of the process a processor runs, interrupts that wake
  sleepers, and the schedulers.\<close>

inductive kstep :: "u32 \<Rightarrow> u32 \<Rightarrow> ('f \<Rightarrow> 'e \<Rightarrow> 'e outcome) \<Rightarrow> ('f \<Rightarrow> 'e \<Rightarrow> 'e outcome) \<Rightarrow> ('f \<Rightarrow> 'e \<Rightarrow> 'e outcome) \<Rightarrow>
    ('f \<Rightarrow> 'e \<Rightarrow> 'e outcome) \<Rightarrow> ('f, 'e) kernel \<Rightarrow> ('f, 'e) kernel \<Rightarrow> bool"
  for kend data filedup idup fileclose iput_op where
  k_fork: "c < length (running k) \<Longrightarrow> running k ! c = Some i \<Longrightarrow> fork kend data filedup idup i k = Ok (r, k') \<Longrightarrow>
    kstep kend data filedup idup fileclose iput_op k k'"
| k_grow: "c < length (running k) \<Longrightarrow> running k ! c = Some i \<Longrightarrow> growproc kend i n k = Ok (r, k') \<Longrightarrow>
    kstep kend data filedup idup fileclose iput_op k k'"
| k_exit: "c < length (running k) \<Longrightarrow> running k ! c = Some i \<Longrightarrow> exit_proc fileclose iput_op c i k = Ok k' \<Longrightarrow>
    kstep kend data filedup idup fileclose iput_op k k'"
| k_wait: "c < length (running k) \<Longrightarrow> running k ! c = Some i \<Longrightarrow> wait_proc kend c i k = Ok (r, k') \<Longrightarrow>
    kstep kend data filedup idup fileclose iput_op k k'"
| k_sleep: "c < length (running k) \<Longrightarrow> running k ! c = Some i \<Longrightarrow> sleep c i (AChan a) k = Ok k' \<Longrightarrow>
    kstep kend data filedup idup fileclose iput_op k k'"
| k_resume: "c < length (running k) \<Longrightarrow> running k ! c = Some i \<Longrightarrow>
    kstep kend data filedup idup fileclose iput_op k (sleep_resume i k)"
| k_yield: "c < length (running k) \<Longrightarrow> running k ! c = Some i \<Longrightarrow> yield c i k = Ok k' \<Longrightarrow>
    kstep kend data filedup idup fileclose iput_op k k'"
| k_wakeup: "kstep kend data filedup idup fileclose iput_op k (wakeup (AChan a) k)"
| k_kill: "kill pid k = (r, k') \<Longrightarrow> kstep kend data filedup idup fileclose iput_op k k'"
| k_schedule: "c < length (running k) \<Longrightarrow> running k ! c = None \<Longrightarrow> i < NPROC \<Longrightarrow> schedule c i k = Ok k' \<Longrightarrow>
    kstep kend data filedup idup fileclose iput_op k k'"

lemma fields_set_proc:
  assumes "j < length (procs k)"
  shows "states (set_proc j p k) = (states k)(j := p_state p)" "parents (set_proc j p k) = (parents k)(j := p_parent p)"
    "chans (set_proc j p k) = (chans k)(j := p_chan p)"
  using assms by (auto simp: pr_set_proc fun_eq_iff)

text \<open>Two kernels that agree on what the invariant reads.\<close>

definition same_tree :: "('f, 'e) kernel \<Rightarrow> ('f, 'e) kernel \<Rightarrow> bool" where
  "same_tree k k' \<longleftrightarrow> length (procs k') = length (procs k) \<and> initproc k' = initproc k \<and> running k' = running k
     \<and> states k' = states k \<and> parents k' = parents k \<and> chans k' = chans k"

lemma same_tree_inv: "same_tree k k' \<Longrightarrow> proc_inv k \<Longrightarrow> proc_inv k'"
proof -
  assume s: "same_tree k k'" and p: "proc_inv k"
  have st: "p_state (pr k' i) = p_state (pr k i)" for i using s by (auto simp: same_tree_def dest: fun_cong)
  show "proc_inv k'" using s p unfolding proc_inv_def tree_inv_def run_inv_def same_tree_def
    by (simp add: st) blast
qed

lemma allocproc_effect:
  assumes "allocproc k = (r, k1)"
  shows "r = None \<Longrightarrow> same_tree k k1"
    "r = Some i \<Longrightarrow> i < length (procs k) \<and> p_state (pr k i) = UNUSED \<and> length (procs k1) = length (procs k)
       \<and> initproc k1 = initproc k \<and> running k1 = running k \<and> (\<forall>j. j \<noteq> i \<longrightarrow> pr k1 j = pr k j)
       \<and> p_parent (pr k1 i) = p_parent (pr k i) \<and> p_chan (pr k1 i) = p_chan (pr k i)
       \<and> p_killed (pr k1 i) = p_killed (pr k i) \<and> p_pid (pr k1 i) = nextpid k \<and> nextpid k1 = nextpid k + 1"
proof -
  have goal: "(r = None \<longrightarrow> same_tree k k1) \<and> (\<forall>i. r = Some i \<longrightarrow> i < length (procs k) \<and> p_state (pr k i) = UNUSED
       \<and> length (procs k1) = length (procs k)
       \<and> initproc k1 = initproc k \<and> running k1 = running k \<and> (\<forall>j. j \<noteq> i \<longrightarrow> pr k1 j = pr k j)
       \<and> p_parent (pr k1 i) = p_parent (pr k i) \<and> p_chan (pr k1 i) = p_chan (pr k i)
       \<and> p_killed (pr k1 i) = p_killed (pr k i) \<and> p_pid (pr k1 i) = nextpid k \<and> nextpid k1 = nextpid k + 1)"
  proof (cases "find_index (\<lambda>p. p_state p = UNUSED) (procs k)")
    case None
    then show ?thesis using assms by (auto simp: allocproc_def same_tree_def)
  next
    case (Some j)
    have j: "j < length (procs k)" "p_state (pr k j) = UNUSED" using find_index_SomeD [OF Some] by auto
    let ?k = "set_proc j ((pr k j)\<lparr>p_state := EMBRYO, p_pid := nextpid k\<rparr>) (k\<lparr>nextpid := nextpid k + 1\<rparr>)"
    have pj: "pr ?k x = (if x = j then (pr k j)\<lparr>p_state := EMBRYO, p_pid := nextpid k\<rparr> else pr k x)" for x
      using j by (simp add: pr_set_proc)
    have len: "j < length (procs ?k)" using j by simp
    obtain a m where a: "kalloc (mem k) = (a, m)" by fastforce
    show ?thesis
    proof (cases a)
      case None
      then have "r = None" "k1 = set_proc j ((pr ?k j)\<lparr>p_kstack := 0, p_state := UNUSED\<rparr>) (?k\<lparr>mem := m\<rparr>)"
        using assms Some a by (auto simp: allocproc_def Let_def)
      moreover have "same_tree k (set_proc j ((pr ?k j)\<lparr>p_kstack := 0, p_state := UNUSED\<rparr>) (?k\<lparr>mem := m\<rparr>))"
        unfolding same_tree_def using j len by (auto simp: pr_set_proc pj fun_eq_iff)
      ultimately show ?thesis by simp
    next
      case (Some st)
      then have r: "r = Some j" "k1 = set_proc j ((pr ?k j)\<lparr>p_kstack := st, p_start := True\<rparr>) (?k\<lparr>mem := m\<rparr>)"
        using assms \<open>find_index _ _ = Some j\<close> a by (auto simp: allocproc_def Let_def)
      then show ?thesis using j len by (auto simp: pr_set_proc pj)
    qed
  qed
  show "r = None \<Longrightarrow> same_tree k k1"
    "r = Some i \<Longrightarrow> i < length (procs k) \<and> p_state (pr k i) = UNUSED \<and> length (procs k1) = length (procs k)
       \<and> initproc k1 = initproc k \<and> running k1 = running k \<and> (\<forall>j. j \<noteq> i \<longrightarrow> pr k1 j = pr k j)
       \<and> p_parent (pr k1 i) = p_parent (pr k i) \<and> p_chan (pr k1 i) = p_chan (pr k i)
       \<and> p_killed (pr k1 i) = p_killed (pr k i) \<and> p_pid (pr k1 i) = nextpid k \<and> nextpid k1 = nextpid k + 1"
    using goal by blast+
qed

lemma allocproc_Some:
  assumes a: "allocproc k = (Some i, k1)"
  shows "\<exists>st. pr k1 i = (pr k i)\<lparr>p_state := EMBRYO, p_pid := nextpid k, p_kstack := st, p_start := True\<rparr>"
proof (cases "find_index (\<lambda>p. p_state p = UNUSED) (procs k)")
  case None
  then show ?thesis using a by (simp add: allocproc_def)
next
  case (Some j)
  have j: "j < length (procs k)" using find_index_SomeD [OF Some] by simp
  obtain x m where x: "kalloc (mem k) = (x, m)" by fastforce
  then obtain st where "x = Some st" using a Some by (cases x) (simp_all add: allocproc_def Let_def)
  then show ?thesis using a Some x j by (auto simp: allocproc_def Let_def set_proc_def)
qed

lemma allocproc_fields:
  assumes "allocproc k = (Some i, k1)"
  shows "p_sz (pr k1 j) = p_sz (pr k j)" "p_cwd (pr k1 j) = p_cwd (pr k j)" "p_name (pr k1 j) = p_name (pr k j)"
    "p_tf (pr k1 j) = p_tf (pr k j)" "p_ofile (pr k1 j) = p_ofile (pr k j)"
proof -
  have "j \<noteq> i \<Longrightarrow> pr k1 j = pr k j" using allocproc_effect(2) [OF assms refl] by blast
  then show "p_sz (pr k1 j) = p_sz (pr k j)" "p_cwd (pr k1 j) = p_cwd (pr k j)" "p_name (pr k1 j) = p_name (pr k j)"
    "p_tf (pr k1 j) = p_tf (pr k j)" "p_ofile (pr k1 j) = p_ofile (pr k j)"
    using allocproc_Some [OF assms] by (cases "j = i"; force)+
qed

lemma fork_inv:
  assumes inv: "proc_inv k" and cur: "cur < NPROC" "p_state (pr k cur) = RUNNING"
    and f: "fork kend data filedup idup cur k = Ok (r, k')"
  shows "proc_inv k'"
proof -
  obtain a k1 where a: "allocproc k = (a, k1)" by fastforce
  note A = allocproc_effect [OF a]
  have len: "length (procs k) = NPROC" and tr: "tree (initproc k) (states k) (parents k) (chans k)" and rn: "run_inv k"
    using inv by (auto simp: proc_inv_def tree_inv_def)
  show ?thesis
  proof (cases a)
    case None
    then have "k' = k1" using f a by (simp add: fork_def)
    then show ?thesis using A(1) [OF None] same_tree_inv inv by blast
  next
    case (Some i)
    note A2 = A(2) [OF Some]
    have i: "i < NPROC" "p_state (pr k i) = UNUSED" "i \<noteq> cur" using A2 len cur(2) by auto
    have len1: "length (procs k1) = NPROC" using A2 len by simp
    have oth: "pr k1 j = pr k j" if "j \<noteq> i" for j using A2 that by blast
    obtain pd m where c: "copyuvm kend data (p_pgdir (pr k1 cur)) (p_sz (pr k1 cur)) (mem k1) = Ok (pd, m)"
      using f a Some by (auto simp: fork_def)
    show ?thesis
    proof (cases pd)
      case None
      then obtain m2 where k': "k' = set_proc i ((pr k1 i)\<lparr>p_pgdir := 0, p_kstack := 0, p_state := UNUSED\<rparr>) (k1\<lparr>mem := m2\<rparr>)"
        using f a Some c by (auto simp: fork_def)
      have "same_tree k k'"
        unfolding same_tree_def k' using A2 i len1 oth by (auto simp: pr_set_proc fun_eq_iff)
      then show ?thesis using same_tree_inv inv by blast
    next
      case pd: (Some pgdir)
      obtain np m2 e where k': "k' = set_proc i np (k1\<lparr>mem := m2, env := e\<rparr>)"
        and np: "p_state np = RUNNABLE" "p_parent np = Some cur" "p_chan np = p_chan (pr k1 i)"
        using f a Some c pd by (auto simp: fork_def Let_def)
      have p': "pr k' j = (if j = i then np else pr k j)" for j
        using len1 i(1) oth by (simp add: k' pr_set_proc set_proc_def nth_list_update)
      have "states k' = (states k)(i := RUNNABLE)" "parents k' = (parents k)(i := Some cur)" "chans k' = chans k"
        using p' np A2 by (auto simp: fun_eq_iff)
      moreover have "tree (initproc k) ((states k)(i := RUNNABLE)) ((parents k)(i := Some cur)) (chans k)"
        by (rule tree_new [OF tr i(1)]) (use i cur in \<open>auto simp: live_def\<close>)
      moreover have "length (procs k') = NPROC" "initproc k' = initproc k" "running k' = running k"
        using A2 len1 by (simp_all add: k')
      moreover have "run_inv k'"
        using rn p' np(1) i(2) calculation(7) unfolding run_inv_def by auto
      ultimately show ?thesis by (simp add: proc_inv_def tree_inv_def)
    qed
  qed
qed

lemma growproc_inv:
  assumes inv: "proc_inv k" and i: "i < NPROC" and g: "growproc kend i n k = Ok (r, k')"
  shows "proc_inv k'"
proof -
  have len: "length (procs k) = NPROC" using inv by (simp add: proc_inv_def tree_inv_def)
  have "same_tree k k'"
    using g i len by (auto simp: growproc_def Let_def same_tree_def pr_set_proc fun_eq_iff split: if_splits)
  then show ?thesis using same_tree_inv inv by blast
qed

text \<open>Leaving a processor.\<close>

lemma leave_run:
  assumes "run_inv k" "length (procs k) = NPROC" "c < length (running k)" "running k ! c = Some i"
    "i < NPROC" "p_state p \<noteq> RUNNING"
  shows "run_inv (leave_cpu c (set_proc i p k))"
proof -
  have R: "\<And>c j. c < length (running k) \<Longrightarrow> running k ! c = Some j \<Longrightarrow> j < NPROC \<and> p_state (pr k j) = RUNNING"
    "\<And>c d. c < length (running k) \<Longrightarrow> d < length (running k) \<Longrightarrow> running k ! c \<noteq> None \<Longrightarrow>
       running k ! c = running k ! d \<Longrightarrow> c = d"
    "\<And>j. j < NPROC \<Longrightarrow> p_state (pr k j) = RUNNING \<Longrightarrow> \<exists>c < length (running k). running k ! c = Some j"
    using assms(1) unfolding run_inv_def by blast+
  have pr: "pr (leave_cpu c (set_proc i p k)) j = (if j = i then p else pr k j)" for j
    using assms(2,5) by (simp add: leave_cpu_def pr_set_proc)
  have rl: "running (leave_cpu c (set_proc i p k)) = (running k)[c := None]" by (simp add: leave_cpu_def)
  show ?thesis
    unfolding run_inv_def rl length_list_update
  proof (intro conjI allI impI)
    fix d j assume d: "d < length (running k)" "(running k)[c := None] ! d = Some j"
    then have "d \<noteq> c" "running k ! d = Some j" using assms(3) by (auto simp: nth_list_update split: if_splits)
    then have "j \<noteq> i" using R(2) [of d c] d(1) assms(3,4) by auto
    then show "j < NPROC" "p_state (pr (leave_cpu c (set_proc i p k)) j) = RUNNING"
      using R(1) [OF d(1) \<open>running k ! d = Some j\<close>] by (auto simp: pr)
  next
    fix d d' assume d: "d < length (running k)" "d' < length (running k)" "(running k)[c := None] ! d \<noteq> None"
      "(running k)[c := None] ! d = (running k)[c := None] ! d'"
    then have "d \<noteq> c" "d' \<noteq> c" by (auto simp: nth_list_update)
    then show "d = d'" using R(2) [of d d'] d by simp
  next
    fix j assume j: "j < NPROC" "p_state (pr (leave_cpu c (set_proc i p k)) j) = RUNNING"
    then have "j \<noteq> i" "p_state (pr k j) = RUNNING" using assms(6) by (auto simp: pr split: if_splits)
    then obtain d where d: "d < length (running k)" "running k ! d = Some j" using R(3) j(1) by blast
    then have "d \<noteq> c" using assms(4) \<open>j \<noteq> i\<close> by auto
    with d show "\<exists>d < length (running k). (running k)[c := None] ! d = Some j" by auto
  qed
qed

lemma leave_fields:
  assumes "length (procs k) = NPROC" "i < NPROC"
  shows "states (leave_cpu c (set_proc i p k)) = (states k)(i := p_state p)"
    "parents (leave_cpu c (set_proc i p k)) = (parents k)(i := p_parent p)"
    "chans (leave_cpu c (set_proc i p k)) = (chans k)(i := p_chan p)"
    "length (procs (leave_cpu c (set_proc i p k))) = NPROC" "initproc (leave_cpu c (set_proc i p k)) = initproc k"
  using assms by (auto simp: leave_cpu_def pr_set_proc fun_eq_iff)

text \<open>Going to sleep or yielding: the process keeps its parent and becomes SLEEPING or RUNNABLE.\<close>

lemma leave_inv:
  assumes inv: "proc_inv k" and c: "c < length (running k)" "running k ! c = Some i"
    and p: "p_parent p = p_parent (pr k i)" "p_state p = SLEEPING \<or> p_state p = RUNNABLE"
    and w: "p_state p = SLEEPING \<Longrightarrow> p_chan p = Some (PChan i) \<Longrightarrow>
      \<forall>j < NPROC. \<not> (p_state (pr k j) = ZOMBIE \<and> p_parent (pr k j) = Some i)"
  shows "proc_inv (leave_cpu c (set_proc i p k))"
proof -
  have len: "length (procs k) = NPROC" and tr: "tree (initproc k) (states k) (parents k) (chans k)" and rn: "run_inv k"
    using inv by (auto simp: proc_inv_def tree_inv_def)
  have i: "i < NPROC" "p_state (pr k i) = RUNNING" using rn c unfolding run_inv_def by blast+
  note F = leave_fields [OF len i(1), of c p]
  have "tree (initproc k) ((states k)(i := p_state p)) (parents k) ((chans k)(i := p_chan p))"
    by (rule tree_live [OF tr]) (use i p(2) w in \<open>auto simp: live_def split: if_splits\<close>)
  moreover have "(parents k)(i := p_parent p) = parents k" using p(1) by (simp add: fun_upd_idem)
  moreover have "run_inv (leave_cpu c (set_proc i p k))"
    by (rule leave_run [OF rn len c i(1)]) (use p(2) in auto)
  ultimately show ?thesis unfolding proc_inv_def tree_inv_def F by simp
qed

lemma sleep_Ok:
  assumes "length (procs k) = NPROC" "i < NPROC"
  shows "sleep c i ch k = Ok (leave_cpu c (set_proc i ((pr k i)\<lparr>p_chan := Some ch, p_state := SLEEPING\<rparr>) k))"
    "yield c i k = Ok (leave_cpu c (set_proc i ((pr k i)\<lparr>p_state := RUNNABLE\<rparr>) k))"
  using assms by (simp_all add: sleep_def yield_def sched_def pr_set_proc)

lemma wait_inv:
  assumes inv: "proc_inv k" and c: "c < length (running k)" "running k ! c = Some i"
    and w: "wait_proc kend c i k = Ok (r, k')"
  shows "proc_inv k'"
proof -
  have len: "length (procs k) = NPROC" and tr: "tree (initproc k) (states k) (parents k) (chans k)" and rn: "run_inv k"
    using inv by (auto simp: proc_inv_def tree_inv_def)
  have i: "i < NPROC" using rn c unfolding run_inv_def by blast
  show ?thesis
  proof (cases "find_index (\<lambda>p. p_parent p = Some i \<and> p_state p = ZOMBIE) (procs k)")
    case None
    then have nz: "\<forall>j < NPROC. \<not> (p_state (pr k j) = ZOMBIE \<and> p_parent (pr k j) = Some i)"
      using len by (auto simp: find_index_None_iff)
    show ?thesis
    proof (cases "(\<forall>p \<in> set (procs k). p_parent p \<noteq> Some i) \<or> p_killed (pr k i)")
      case True
      then have "k' = k" using w None by (auto simp: wait_proc_def)
      then show ?thesis using inv by simp
    next
      case False
      have "wait_proc kend c i k = and_then (sleep c i (PChan i) k) (\<lambda>k. Ok (None, k))"
        by (simp only: wait_proc_def None option.case if_not_P [OF False])
      then have "k' = leave_cpu c (set_proc i ((pr k i)\<lparr>p_chan := Some (PChan i), p_state := SLEEPING\<rparr>) k)"
        using w sleep_Ok(1) [OF len i] by simp
      then show ?thesis using leave_inv [OF inv c] nz by simp
    qed
  next
    case (Some j)
    have j: "j < NPROC" "p_state (pr k j) = ZOMBIE" using find_index_SomeD [OF Some] len by auto
    obtain m where k': "k' = set_proc j ((pr k j)\<lparr>p_kstack := 0, p_pid := 0, p_parent := None, p_name := [],
        p_killed := False, p_state := UNUSED\<rparr>) (k\<lparr>mem := m\<rparr>)"
      using w Some by (auto simp: wait_proc_def reap_def Let_def)
    have p': "pr k' x = (if x = j then (pr k j)\<lparr>p_kstack := 0, p_pid := 0, p_parent := None, p_name := [],
        p_killed := False, p_state := UNUSED\<rparr> else pr k x)" for x
      using j len by (simp add: k' pr_set_proc)
    have "states k' = (states k)(j := UNUSED)" "parents k' = (parents k)(j := None)" "chans k' = chans k"
      using p' by (auto simp: fun_eq_iff)
    moreover have "length (procs k') = NPROC" "initproc k' = initproc k" "running k' = running k"
      using len by (simp_all add: k')
    moreover have "run_inv k'" using rn p' j calculation(6) unfolding run_inv_def by auto
    ultimately show ?thesis using tree_reap [OF tr j] by (simp add: proc_inv_def tree_inv_def)
  qed
qed

lemma run_cong:
  assumes rn: "run_inv k" and r: "running k' = running k"
    and s: "\<And>j. j < NPROC \<Longrightarrow> p_state (pr k' j) = RUNNING \<longleftrightarrow> p_state (pr k j) = RUNNING"
  shows "run_inv k'"
  using rn s unfolding run_inv_def r by blast

lemma live_change_inv:
  assumes inv: "proc_inv k" and l: "length (procs k') = NPROC" "initproc k' = initproc k" "running k' = running k"
    and p: "\<And>j. j < NPROC \<Longrightarrow> p_parent (pr k' j) = p_parent (pr k j)"
    and s: "\<And>j. j < NPROC \<Longrightarrow> p_state (pr k' j) = p_state (pr k j) \<or> p_state (pr k j) = SLEEPING \<and> p_state (pr k' j) = RUNNABLE"
    and ch: "\<And>j. j < NPROC \<Longrightarrow> p_state (pr k' j) = SLEEPING \<Longrightarrow> p_chan (pr k' j) = p_chan (pr k j)"
  shows "proc_inv k'"
proof -
  have len: "length (procs k) = NPROC" and tr: "tree (initproc k) (states k) (parents k) (chans k)" and rn: "run_inv k"
    using inv by (auto simp: proc_inv_def tree_inv_def)
  have "tree (initproc k) (states k') (parents k) (chans k')"
    by (rule tree_live [OF tr]) (use s ch in \<open>force simp: live_def\<close>)+
  then have "tree (initproc k') (states k') (parents k') (chans k')"
    unfolding l(2) by (rule tree_cong) (rule p, assumption, rule refl)
  moreover have "run_inv k'"
    by (rule run_cong [OF rn l(3)]) (use s in force)
  ultimately show ?thesis using l(1) by (simp add: proc_inv_def tree_inv_def)
qed

lemma wakeup_inv: "proc_inv k \<Longrightarrow> proc_inv (wakeup ch k)"
  by (rule live_change_inv) (auto simp: wakeup_def pr_wakeup1 proc_inv_def tree_inv_def)

lemma kill_inv:
  assumes "proc_inv k" "kill pid k = (r, k')"
  shows "proc_inv k'"
proof (cases "find_index (\<lambda>p. p_pid p = pid) (procs k)")
  case None
  then show ?thesis using assms by (simp add: kill_def)
next
  case (Some j)
  have j: "j < length (procs k)" using find_index_SomeD [OF Some] by simp
  have len: "length (procs k) = NPROC" using assms(1) by (simp add: proc_inv_def tree_inv_def)
  have k': "k' = set_proc j (if p_state (pr k j) = SLEEPING then (pr k j)\<lparr>p_killed := True, p_state := RUNNABLE\<rparr>
      else (pr k j)\<lparr>p_killed := True\<rparr>) k"
    using assms(2) Some by (auto simp: kill_def Let_def)
  show ?thesis
    by (rule live_change_inv [OF assms(1)]) (use j len in \<open>auto simp: k' pr_set_proc\<close>)
qed

lemma resume_inv:
  assumes "proc_inv k" "c < length (running k)" "running k ! c = Some i"
  shows "proc_inv (sleep_resume i k)"
proof -
  have len: "length (procs k) = NPROC" and rn: "run_inv k" using assms(1) by (auto simp: proc_inv_def tree_inv_def)
  have i: "i < NPROC" "p_state (pr k i) = RUNNING" using rn assms(2,3) unfolding run_inv_def by blast+
  show ?thesis
    by (rule live_change_inv [OF assms(1)]) (use i len in \<open>auto simp: sleep_resume_def pr_set_proc\<close>)
qed

lemma schedule_inv:
  assumes inv: "proc_inv k" and c: "c < length (running k)" "running k ! c = None" "i < NPROC"
    and s: "schedule c i k = Ok k'"
  shows "proc_inv k'"
proof (cases "p_state (pr k i) = RUNNABLE")
  case False
  then show ?thesis using s inv by (simp add: schedule_def)
next
  case True
  have len: "length (procs k) = NPROC" and tr: "tree (initproc k) (states k) (parents k) (chans k)" and rn: "run_inv k"
    using inv by (auto simp: proc_inv_def tree_inv_def)
  have k': "k' = set_proc i ((pr k i)\<lparr>p_state := RUNNING\<rparr>) (k\<lparr>running := (running k)[c := Some i]\<rparr>)"
    using s True by (auto simp: schedule_def split: if_splits)
  have p': "pr k' x = (if x = i then (pr k i)\<lparr>p_state := RUNNING\<rparr> else pr k x)" for x
    using c(3) len by (simp add: k' pr_set_proc)
  have rl: "running k' = (running k)[c := Some i]" by (simp add: k')
  have R: "\<And>c j. c < length (running k) \<Longrightarrow> running k ! c = Some j \<Longrightarrow> j < NPROC \<and> p_state (pr k j) = RUNNING"
    "\<And>c d. c < length (running k) \<Longrightarrow> d < length (running k) \<Longrightarrow> running k ! c \<noteq> None \<Longrightarrow>
       running k ! c = running k ! d \<Longrightarrow> c = d"
    "\<And>j. j < NPROC \<Longrightarrow> p_state (pr k j) = RUNNING \<Longrightarrow> \<exists>c < length (running k). running k ! c = Some j"
    using rn unfolding run_inv_def by blast+
  have noti: "running k ! d \<noteq> Some i" if "d < length (running k)" for d using R(1) [OF that, of i] True by auto
  have "run_inv k'"
    unfolding run_inv_def rl length_list_update
  proof (intro conjI allI impI)
    fix d j assume "d < length (running k)" "(running k)[c := Some i] ! d = Some j"
    then show "j < NPROC" "p_state (pr k' j) = RUNNING"
      using R(1) [of d j] c(1,3) by (auto simp: p' nth_list_update split: if_splits)
  next
    fix d d' assume "d < length (running k)" "d' < length (running k)" "(running k)[c := Some i] ! d \<noteq> None"
      "(running k)[c := Some i] ! d = (running k)[c := Some i] ! d'"
    then show "d = d'" using R(2) [of d d'] noti [of d] noti [of d'] c(1)
      by (cases "d = c"; cases "d' = c") simp_all
  next
    fix j assume j: "j < NPROC" "p_state (pr k' j) = RUNNING"
    show "\<exists>d < length (running k). (running k)[c := Some i] ! d = Some j"
    proof (cases "j = i")
      case True
      then show ?thesis using c(1) by auto
    next
      case False
      then have "p_state (pr k j) = RUNNING" using j(2) by (simp add: p')
      then obtain d where d: "d < length (running k)" "running k ! d = Some j" using R(3) j(1) by blast
      then have "d \<noteq> c" using c(2) by auto
      with d show ?thesis by (intro exI [of _ d]) simp
    qed
  qed
  moreover have "states k' = (states k)(i := RUNNING)" "parents k' = parents k" "chans k' = chans k"
    using p' by (auto simp: fun_eq_iff)
  moreover have "tree (initproc k) ((states k)(i := RUNNING)) (parents k) (chans k)"
  proof (rule tree_live [OF tr])
    fix j assume "j < NPROC"
    show "((states k)(i := RUNNING)) j = states k j \<or> live (states k j) \<and> live (((states k)(i := RUNNING)) j)"
      using True by (simp add: live_def)
  next
    fix j assume "j < NPROC" "((states k)(i := RUNNING)) j = SLEEPING" "chans k j = Some (PChan j)"
    then show "states k j = SLEEPING \<and> chans k j = Some (PChan j) \<or> (\<forall>x < NPROC. \<not> (states k x = ZOMBIE \<and> parents k x = Some j))"
      by (cases "j = i") simp_all
  qed
  moreover have "length (procs k') = NPROC" "initproc k' = initproc k" using len by (simp_all add: k')
  ultimately show ?thesis by (simp add: proc_inv_def tree_inv_def)
qed

text \<open>Passing the children of an exiting process on to init.\<close>

definition passed :: "nat \<Rightarrow> nat \<Rightarrow> nat set \<Rightarrow> ('f, 'e) kernel \<Rightarrow> ('f, 'e) kernel \<Rightarrow> bool" where
  "passed cur ini J k k' \<longleftrightarrow>
     length (procs k') = length (procs k) \<and> initproc k' = initproc k \<and> running k' = running k
   \<and> (\<forall>i < NPROC. p_parent (pr k' i) = (if i \<in> J \<and> p_parent (pr k i) = Some cur then Some ini else p_parent (pr k i)))
   \<and> (\<forall>i < NPROC. p_chan (pr k' i) = p_chan (pr k i))
   \<and> (\<forall>i < NPROC. p_state (pr k' i) = p_state (pr k i) \<or> p_state (pr k i) = SLEEPING \<and> p_state (pr k' i) = RUNNABLE)
   \<and> (\<forall>j \<in> J. p_parent (pr k j) = Some cur \<longrightarrow> p_state (pr k j) = ZOMBIE \<longrightarrow>
        \<not> (p_state (pr k' ini) = SLEEPING \<and> p_chan (pr k' ini) = Some (PChan ini)))"

lemma passedD:
  assumes "passed cur ini J k k'"
  shows "length (procs k') = length (procs k)" "initproc k' = initproc k" "running k' = running k"
    "i < NPROC \<Longrightarrow> p_parent (pr k' i) = (if i \<in> J \<and> p_parent (pr k i) = Some cur then Some ini else p_parent (pr k i))"
    "i < NPROC \<Longrightarrow> p_chan (pr k' i) = p_chan (pr k i)"
    "i < NPROC \<Longrightarrow> p_state (pr k' i) = p_state (pr k i) \<or> p_state (pr k i) = SLEEPING \<and> p_state (pr k' i) = RUNNABLE"
    "j \<in> J \<Longrightarrow> p_parent (pr k j) = Some cur \<Longrightarrow> p_state (pr k j) = ZOMBIE \<Longrightarrow> p_state (pr k' ini) = SLEEPING \<Longrightarrow>
       p_chan (pr k' ini) \<noteq> Some (PChan ini)"
  using assms unfolding passed_def by blast+

lemma passed_trans:
  assumes a: "passed cur ini J k k1" and b: "passed cur ini J' k1 k2" and ini: "ini < NPROC" "ini \<noteq> cur"
    and J: "J \<subseteq> {..<NPROC}" "J' \<subseteq> {..<NPROC}"
  shows "passed cur ini (J \<union> J') k k2"
  unfolding passed_def
proof (intro conjI allI impI ballI)
  show "length (procs k2) = length (procs k)" "initproc k2 = initproc k" "running k2 = running k"
    using passedD(1-3) [OF a] passedD(1-3) [OF b] by simp_all
next
  fix i assume i: "i < NPROC"
  show "p_parent (pr k2 i) = (if i \<in> J \<union> J' \<and> p_parent (pr k i) = Some cur then Some ini else p_parent (pr k i))"
    using passedD(4) [OF a i] passedD(4) [OF b i] ini(2) by auto
  show "p_chan (pr k2 i) = p_chan (pr k i)" using passedD(5) [OF a i] passedD(5) [OF b i] by simp
  show "p_state (pr k2 i) = p_state (pr k i) \<or> p_state (pr k i) = SLEEPING \<and> p_state (pr k2 i) = RUNNABLE"
    using passedD(6) [OF a i] passedD(6) [OF b i] by auto
next
  fix j assume j: "j \<in> J \<union> J'" "p_parent (pr k j) = Some cur" "p_state (pr k j) = ZOMBIE"
  have j': "j < NPROC" using j(1) J by auto
  show "\<not> (p_state (pr k2 ini) = SLEEPING \<and> p_chan (pr k2 ini) = Some (PChan ini))"
  proof (cases "j \<in> J")
    case True
    then show ?thesis
      using passedD(7) [OF a True j(2,3)] passedD(5,6) [OF b ini(1)] by auto
  next
    case False
    then have "p_parent (pr k1 j) = Some cur" "p_state (pr k1 j) = ZOMBIE" "j \<in> J'"
      using passedD(4,6) [OF a j'] j by auto
    then show ?thesis using passedD(7) [OF b] by blast
  qed
qed

lemma passed_one:
  assumes len: "length (procs k) = NPROC" and j: "j < NPROC" "p_parent (pr k j) = Some cur" and ini: "ini < NPROC"
  shows "passed cur ini {j} k
    (let k = set_proc j ((pr k j)\<lparr>p_parent := Some ini\<rparr>) k
     in if p_state (pr k j) = ZOMBIE then wakeup1 (PChan ini) k else k)"
  using len j ini unfolding passed_def Let_def by (auto simp: pr_wakeup1 pr_set_proc)

lemma pass_children_passed:
  assumes "length (procs k) = NPROC" "ini < NPROC" "ini \<noteq> cur" "set js \<subseteq> {..<NPROC}"
  shows "passed cur ini (set js) k (pass_children cur ini js k)"
  using assms
proof (induction js arbitrary: k)
  case Nil
  then show ?case by (simp add: passed_def)
next
  case (Cons j js)
  have j: "j < NPROC" "set js \<subseteq> {..<NPROC}" using Cons.prems(4) by auto
  show ?case
  proof (cases "p_parent (pr k j) = Some cur")
    case True
    define k1 where "k1 = (let k = set_proc j ((pr k j)\<lparr>p_parent := Some ini\<rparr>) k
     in if p_state (pr k j) = ZOMBIE then wakeup1 (PChan ini) k else k)"
    have a: "passed cur ini {j} k k1" unfolding k1_def by (rule passed_one [OF Cons.prems(1) j(1) True Cons.prems(2)])
    have "passed cur ini (set js) k1 (pass_children cur ini js k1)"
      by (rule Cons.IH) (use Cons.prems(2,3) j(2) passedD(1) [OF a] Cons.prems(1) in simp_all)
    then have "passed cur ini ({j} \<union> set js) k (pass_children cur ini js k1)"
      by (rule passed_trans [OF a]) (use Cons.prems j in auto)
    then show ?thesis using True by (simp add: k1_def Let_def)
  next
    case False
    have "passed cur ini {j} k k" using False by (auto simp: passed_def)
    moreover have "passed cur ini (set js) k (pass_children cur ini js k)"
      by (rule Cons.IH) (use Cons.prems j(2) in simp_all)
    ultimately have "passed cur ini ({j} \<union> set js) k (pass_children cur ini js k)"
      by (rule passed_trans) (use Cons.prems j in auto)
    then show ?thesis using False by simp
  qed
qed

lemma exit_zombie_inv:
  assumes inv: "proc_inv k" and c: "c < length (running k)" "running k ! c = Some cur" "Some cur \<noteq> initproc k"
    and e: "exit_zombie c cur k = Ok k'"
  shows "proc_inv k'"
proof -
  have len: "length (procs k) = NPROC" and tr: "tree (initproc k) (states k) (parents k) (chans k)" and rn: "run_inv k"
    using inv by (auto simp: proc_inv_def tree_inv_def)
  have cur: "cur < NPROC" "p_state (pr k cur) = RUNNING" using rn c unfolding run_inv_def by blast+
  obtain ini where ini: "initproc k = Some ini" "ini < NPROC" using tr unfolding tree_def by blast
  have ne: "ini \<noteq> cur" using ini c(3) by auto
  have lc: "live (states k cur)" using cur(2) by (simp add: live_def)
  obtain par where par: "par < NPROC" "p_parent (pr k cur) = Some par"
    using tree_parent [OF tr [unfolded ini(1)] cur(1)] ne cur(2) by auto
  define k1 where "k1 = wakeup1 (PChan par) k"
  define k2 where "k2 = pass_children cur ini [0..<NPROC] k1"
  have p1: "p_parent (pr k1 i) = p_parent (pr k i)" "p_chan (pr k1 i) = p_chan (pr k i)"
    "p_state (pr k1 i) = (if p_state (pr k i) = SLEEPING \<and> p_chan (pr k i) = Some (PChan par) then RUNNABLE else p_state (pr k i))"
    if "i < NPROC" for i using that len by (simp_all add: k1_def pr_wakeup1)
  have P: "passed cur ini {..<NPROC} k1 k2"
    using pass_children_passed [of k1 ini cur "[0..<NPROC]"] len ini(2) ne
    by (simp add: k2_def k1_def atLeast0LessThan)
  have len2: "length (procs k2) = NPROC" "initproc k2 = Some ini" "running k2 = running k"
    using passedD(1-3) [OF P] len ini by (simp_all add: k1_def)
  have st: "p_state (pr k2 i) = p_state (pr k i) \<or> p_state (pr k i) = SLEEPING \<and> p_state (pr k2 i) = RUNNABLE"
    if "i < NPROC" for i using passedD(6) [OF P that] p1(3) [OF that] by (auto split: if_splits)
  have k': "k' = leave_cpu c (set_proc cur ((pr k2 cur)\<lparr>p_state := ZOMBIE\<rparr>) k2)"
    using e par ini(1) cur(1) len2(1) by (simp add: exit_zombie_def k1_def k2_def Let_def sched_def pr_set_proc)
  note F = leave_fields [OF len2(1) cur(1), of c "(pr k2 cur)\<lparr>p_state := ZOMBIE\<rparr>"]
  have tr': "tree (Some ini) ((states k2)(cur := ZOMBIE)) (parents k2) (chans k)"
  proof (rule tree_exit [OF tr [unfolded ini(1)] cur(1) lc])
    show "cur \<noteq> ini" using ne by simp
    show "parents k cur = Some par" by (rule par(2))
    show "parents k2 i = (if parents k i = Some cur then Some ini else parents k i)" if "i < NPROC" for i
      using passedD(4) [OF P that] p1(1) [OF that] that by simp
    show "((states k2)(cur := ZOMBIE)) i = states k i \<or> states k i = SLEEPING \<and> ((states k2)(cur := ZOMBIE)) i = RUNNABLE"
      if "i < NPROC" "i \<noteq> cur" for i using st [OF that(1)] that(2) by simp
    show "((states k2)(cur := ZOMBIE)) cur = ZOMBIE" by simp
    show "chans k par \<noteq> Some (PChan par)" if "((states k2)(cur := ZOMBIE)) par = SLEEPING"
      using that passedD(6) [OF P par(1)] p1(3) [OF par(1)] by (auto split: if_splits)
    show "chans k ini \<noteq> Some (PChan ini)"
      if "j < NPROC" "parents k j = Some cur" "states k j = ZOMBIE" "((states k2)(cur := ZOMBIE)) ini = SLEEPING" for j
      using passedD(7) [OF P, of j] passedD(5) [OF P ini(2)] that p1 [OF that(1)] p1(2) [OF ini(2)] ne by simp
  qed
  have "tree (Some ini) (states k') (parents k') (chans k')"
  proof -
    have "(parents k2)(cur := parents k2 cur) = parents k2" by (simp add: fun_eq_iff)
    moreover have "tree (Some ini) ((states k2)(cur := ZOMBIE)) (parents k2) ((chans k2)(cur := chans k2 cur))"
      by (rule tree_cong [OF tr']) (use passedD(5) [OF P] p1(2) in simp_all)
    ultimately show ?thesis unfolding k' F by simp
  qed
  moreover have "run_inv k2"
    by (rule run_cong [OF rn len2(3)]) (use st in force)
  then have "run_inv k'"
    unfolding k' by (rule leave_run) (use len2 c cur in simp_all)
  moreover have "length (procs k') = NPROC" "initproc k' = Some ini" using F(4,5) len2(2) unfolding k' by simp_all
  ultimately show ?thesis by (simp add: proc_inv_def tree_inv_def)
qed

lemma exit_inv:
  assumes inv: "proc_inv k" and c: "c < length (running k)" "running k ! c = Some cur"
    and e: "exit_proc fileclose iput_op c cur k = Ok k'"
  shows "proc_inv k'"
proof -
  have len: "length (procs k) = NPROC" and rn: "run_inv k" using inv by (auto simp: proc_inv_def tree_inv_def)
  have cur: "cur < NPROC" using rn c unfolding run_inv_def by blast
  obtain k1 where k1: "exit_close fileclose iput_op cur k = Ok k1" "exit_zombie c cur k1 = Ok k'"
    using e by (auto simp: exit_proc_def)
  have s: "same_tree k k1" and ni: "Some cur \<noteq> initproc k"
    using k1(1) cur len by (auto simp: exit_close_def same_tree_def pr_set_proc fun_eq_iff split: if_splits)
  have r: "running k1 = running k" "initproc k1 = initproc k" using s by (simp_all add: same_tree_def)
  show ?thesis
    by (rule exit_zombie_inv [OF same_tree_inv [OF s inv] _ _ _ k1(2)]) (use r c ni in simp_all)
qed

lemma kstep_inv:
  assumes "kstep kend data filedup idup fileclose iput_op k k'" "proc_inv k"
  shows "proc_inv k'"
  using assms
proof (induction rule: kstep.induct)
  case (k_fork c k i r k')
  have "i < NPROC" "p_state (pr k i) = RUNNING" using k_fork unfolding proc_inv_def run_inv_def by blast+
  then show ?case using fork_inv k_fork by blast
next
  case (k_grow c k i n r k')
  have "i < NPROC" using k_grow unfolding proc_inv_def run_inv_def by blast
  then show ?case using growproc_inv k_grow by blast
next
  case (k_exit c k i k')
  then show ?case using exit_inv by blast
next
  case (k_wait c k i r k')
  then show ?case using wait_inv by blast
next
  case (k_sleep c k i a k')
  have i: "i < NPROC" "length (procs k) = NPROC"
    using k_sleep unfolding proc_inv_def run_inv_def tree_inv_def by blast+
  then have "k' = leave_cpu c (set_proc i ((pr k i)\<lparr>p_chan := Some (AChan a), p_state := SLEEPING\<rparr>) k)"
    using k_sleep(3) by (simp add: sleep_Ok)
  moreover have "proc_inv (leave_cpu c (set_proc i ((pr k i)\<lparr>p_chan := Some (AChan a), p_state := SLEEPING\<rparr>) k))"
    by (rule leave_inv [OF k_sleep(4,1,2)]) simp_all
  ultimately show ?case by simp
next
  case (k_resume c k i)
  then show ?case using resume_inv by blast
next
  case (k_yield c k i k')
  have i: "i < NPROC" "length (procs k) = NPROC"
    using k_yield unfolding proc_inv_def run_inv_def tree_inv_def by blast+
  then have "k' = leave_cpu c (set_proc i ((pr k i)\<lparr>p_state := RUNNABLE\<rparr>) k)"
    using k_yield(3) by (simp add: sleep_Ok)
  moreover have "proc_inv (leave_cpu c (set_proc i ((pr k i)\<lparr>p_state := RUNNABLE\<rparr>) k))"
    by (rule leave_inv [OF k_yield(4,1,2)]) simp_all
  ultimately show ?case by simp
next
  case (k_wakeup k a)
  then show ?case using wakeup_inv by blast
next
  case (k_kill pid k r k')
  then show ?case using kill_inv by blast
next
  case (k_schedule c k i k')
  then show ?case using schedule_inv by blast
qed

lemma ksteps_inv:
  assumes "(kstep kend data filedup idup fileclose iput_op)\<^sup>*\<^sup>* k k'" "proc_inv k"
  shows "proc_inv k'"
  using assms by (induction rule: rtranclp_induct) (auto intro: kstep_inv)

text \<open>The table that \<^verbatim>\<open>userinit\<close> leaves at boot satisfies the invariant.\<close>

lemma userinit_inv:
  assumes fresh: "length (procs k) = NPROC" "\<And>i. i < NPROC \<Longrightarrow> p_state (pr k i) = UNUSED \<and> p_parent (pr k i) = None"
      "\<And>c. c < length (running k) \<Longrightarrow> running k ! c = None"
    and u: "userinit kend data initcode rootdir k = Ok k'"
  shows "proc_inv k'"
proof -
  obtain i k1 where a: "allocproc k = (Some i, k1)" using u by (auto simp: userinit_def split: prod.splits option.splits)
  note A = allocproc_effect(2) [OF a refl]
  have i: "i < NPROC" "length (procs k1) = NPROC" "running k1 = running k" using A fresh(1) by simp_all
  have par: "p_parent (pr k1 i) = None" using A fresh(2) i(1) by simp
  obtain np m where k': "k' = set_proc i np (k1\<lparr>initproc := Some i, mem := m\<rparr>)"
    and np: "p_state np = RUNNABLE" "p_parent np = p_parent (pr k1 i)" "p_chan np = p_chan (pr k1 i)"
    using u a by (auto simp: userinit_def split: option.splits)
  have p': "pr k' x = (if x = i then np else pr k x)" for x
    using A i by (simp add: k' pr_set_proc set_proc_def nth_list_update)
  have st: "p_state (pr k' x) = (if x = i then RUNNABLE else UNUSED)" "p_parent (pr k' x) = None" if "x < NPROC" for x
    using fresh(2) [OF that] np par by (simp_all add: p')
  have t: "tree (Some i) (states k') (parents k') (chans k')"
    unfolding tree_def using i(1) st by (auto simp: live_def)
  have l: "length (procs k') = NPROC" "initproc k' = Some i" "running k' = running k" using i by (simp_all add: k')
  have "run_inv k'" unfolding run_inv_def l(3) using fresh(3) st(1) by auto
  then show ?thesis using t l by (simp add: proc_inv_def tree_inv_def)
qed

text \<open>C5: No exit is lost.  From every state that satisfies the boot invariant, after any sequence of
  forks, exits, waits, sleeps, wakeups, kills, yields and schedulings, a zombie has a parent that has
  not exited, and that parent is not asleep in \<^verbatim>\<open>wait\<close>: it runs, or will run, the scan that
  collects the zombie.\<close>

theorem no_exit_is_lost:
  assumes "proc_inv k0" "(kstep kend data filedup idup fileclose iput_op)\<^sup>*\<^sup>* k0 k"
    and "i < NPROC" "p_state (pr k i) = ZOMBIE"
  shows "\<exists>q < NPROC. p_parent (pr k i) = Some q \<and> live (p_state (pr k q))
     \<and> \<not> (p_state (pr k q) = SLEEPING \<and> p_chan (pr k q) = Some (PChan q))"
proof -
  have t: "tree (initproc k) (states k) (parents k) (chans k)"
    using ksteps_inv [OF assms(2,1)] by (simp add: proc_inv_def tree_inv_def)
  obtain ini where ini: "initproc k = Some ini" "live (states k ini)" using t unfolding tree_def by blast
  have "i \<noteq> ini" using ini(2) assms(4) by (auto simp: live_def)
  then obtain q where q: "q < NPROC" "p_parent (pr k i) = Some q" "live (states k q)"
    using tree_parent [OF t [unfolded ini(1)] assms(3)] assms(4) by auto
  then show ?thesis using t assms(3,4) unfolding tree_def by blast
qed

text \<open>C31: Every running process is on exactly one processor, and every processor that runs something
  runs a process of the table in state RUNNING, in every state reached from the boot invariant.\<close>

theorem one_processor_each:
  assumes "proc_inv k0" "(kstep kend data filedup idup fileclose iput_op)\<^sup>*\<^sup>* k0 k"
  shows "(\<forall>i < NPROC. p_state (pr k i) = RUNNING \<longrightarrow> (\<exists>!c. c < length (running k) \<and> running k ! c = Some i))
    \<and> (\<forall>c < length (running k). \<forall>i. running k ! c = Some i \<longrightarrow> i < NPROC \<and> p_state (pr k i) = RUNNING)"
proof -
  have r: "run_inv k" using ksteps_inv [OF assms(2,1)] by (simp add: proc_inv_def)
  have "\<exists>!c. c < length (running k) \<and> running k ! c = Some i" if i: "i < NPROC" "p_state (pr k i) = RUNNING" for i
  proof -
    obtain c where c: "c < length (running k)" "running k ! c = Some i" using r i unfolding run_inv_def by blast
    have "d = c" if "d < length (running k)" "running k ! d = Some i" for d
      using r that c unfolding run_inv_def by fastforce
    then show ?thesis using c by blast
  qed
  then show ?thesis using r unfolding run_inv_def by blast
qed

text \<open>A small system: init waits for its child, which runs on the only processor.\<close>

definition idle_proc :: "nat proc" where
  "idle_proc = \<lparr>p_sz = 0, p_pgdir = 0, p_kstack = 0, p_state = UNUSED, p_pid = 0, p_parent = None, p_tf = zero_tf,
     p_start = False, p_chan = None, p_killed = False, p_ofile = [None], p_cwd = None, p_name = []\<rparr>"

definition two_procs :: "(nat, nat) kernel" where
  "two_procs = \<lparr>procs = idle_proc\<lparr>p_state := SLEEPING, p_pid := 1, p_chan := Some (PChan 0)\<rparr>
        # idle_proc\<lparr>p_state := RUNNING, p_pid := 2, p_parent := Some 0\<rparr> # replicate 62 idle_proc,
     nextpid = 3, initproc = Some 0, running = [Some 1],
     mem = \<lparr>frames = (\<lambda>_. Bytes []), freelist = [0x80400000], use_lock = True\<rparr>, env = 0\<rparr>"

lemma pr_two_procs:
  "procs two_procs ! 0 = idle_proc\<lparr>p_state := SLEEPING, p_pid := 1, p_chan := Some (PChan 0)\<rparr>"
  "procs two_procs ! Suc 0 = idle_proc\<lparr>p_state := RUNNING, p_pid := 2, p_parent := Some 0\<rparr>"
  "1 < i \<Longrightarrow> i < NPROC \<Longrightarrow> procs two_procs ! i = idle_proc" "length (procs two_procs) = NPROC"
  "running two_procs = [Some 1]" "initproc two_procs = Some 0"
  by (simp_all add: two_procs_def NPROC_def nth_Cons' nth_append)

lemma two_procs_inv: "proc_inv two_procs"
proof -
  have c: "i = 0 \<or> i = 1 \<or> 1 < i" for i :: nat by linarith
  have st: "p_state (pr two_procs i) = (if i = 0 then SLEEPING else if i = 1 then RUNNING else UNUSED)"
      "p_parent (pr two_procs i) = (if i = 1 then Some 0 else None)" if "i < NPROC" for i
    using c [of i] pr_two_procs that by (auto simp: idle_proc_def)
  have "tree (Some 0) (states two_procs) (parents two_procs) (chans two_procs)"
    unfolding tree_def using st by (auto simp: live_def NPROC_def)
  moreover have "run_inv two_procs"
    unfolding run_inv_def pr_two_procs(5) using st by (auto simp: NPROC_def)
  ultimately show ?thesis by (simp add: proc_inv_def tree_inv_def pr_two_procs)
qed

lemma exit_zombie_Ok:
  assumes len: "length (procs k) = NPROC" and cur: "cur < NPROC" "p_parent (pr k cur) = Some par"
    and ini: "initproc k = Some ini" "ini < NPROC" "ini \<noteq> cur"
  shows "\<exists>k'. exit_zombie c cur k = Ok k' \<and> p_state (pr k' cur) = ZOMBIE"
proof -
  let ?k2 = "pass_children cur ini [0..<NPROC] (wakeup1 (PChan par) k)"
  have "passed cur ini (set [0..<NPROC]) (wakeup1 (PChan par) k) ?k2"
    by (rule pass_children_passed) (use len ini in auto)
  then have "length (procs ?k2) = NPROC" using len by (simp add: passed_def)
  then show ?thesis using assms by (simp add: exit_zombie_def Let_def sched_def leave_cpu_def pr_set_proc)
qed

abbreviation no_op :: "nat \<Rightarrow> nat \<Rightarrow> nat outcome" where "no_op f e \<equiv> Ok e"

lemma two_procs_exit:
  "\<exists>k. (kstep kend data no_op no_op no_op no_op)\<^sup>*\<^sup>* two_procs k \<and> p_state (pr k 1) = ZOMBIE"
proof -
  let ?k = "set_proc 1 ((pr two_procs 1)\<lparr>p_ofile := [None], p_cwd := None\<rparr>) two_procs"
  have n: "1 < NPROC" "0 < NPROC" by (simp_all add: NPROC_def)
  have "exit_close no_op no_op 1 two_procs = Ok ?k"
    by (simp add: exit_close_def pr_two_procs put_cwd_def idle_proc_def set_proc_def)
  moreover obtain k' where "exit_zombie 0 1 ?k = Ok k'" "p_state (pr k' 1) = ZOMBIE"
    using exit_zombie_Ok [of ?k 1 0 0] pr_two_procs n by (auto simp: pr_set_proc)
  ultimately have e: "exit_proc no_op no_op 0 1 two_procs = Ok k'" "p_state (pr k' 1) = ZOMBIE"
    by (simp_all add: exit_proc_def)
  have "kstep kend data no_op no_op no_op no_op two_procs k'"
    by (rule k_exit [of 0 _ 1]) (use e(1) in \<open>simp_all add: pr_two_procs\<close>)
  then show ?thesis using e(2) by blast
qed

theorem no_exit_is_lost_witness:
  "\<exists>k. (kstep 0 0 no_op no_op no_op no_op)\<^sup>*\<^sup>* two_procs k \<and> p_state (pr k 1) = ZOMBIE
     \<and> (\<exists>q < NPROC. p_parent (pr k 1) = Some q \<and> live (p_state (pr k q))
          \<and> \<not> (p_state (pr k q) = SLEEPING \<and> p_chan (pr k q) = Some (PChan q)))"
proof -
  obtain k where k: "(kstep 0 0 no_op no_op no_op no_op)\<^sup>*\<^sup>* two_procs k" "p_state (pr k 1) = ZOMBIE"
    using two_procs_exit by blast
  have "1 < NPROC" by (simp add: NPROC_def)
  from no_exit_is_lost [OF two_procs_inv k(1) this k(2)] k show ?thesis by blast
qed

theorem one_processor_each_witness:
  "\<exists>!c. c < length (running two_procs) \<and> running two_procs ! c = Some 1"
  using one_processor_each [OF two_procs_inv rtranclp.rtrancl_refl [of "kstep 0 0 no_op no_op no_op no_op"]]
  by (simp add: pr_two_procs NPROC_def)

lemma fork_Ok:
  assumes f: "fork kend data filedup idup cur k = Ok (r, k')"
  shows "r = - 1 \<and> same_tree k k'
     \<or> (\<exists>i < length (procs k). p_state (pr k i) = UNUSED \<and> procs k' = (procs k)[i := pr k' i]
          \<and> r = nextpid k \<and> p_pid (pr k' i) = r \<and> nextpid k' = nextpid k + 1
          \<and> p_state (pr k' i) = RUNNABLE \<and> p_parent (pr k' i) = Some cur
          \<and> p_sz (pr k' i) = p_sz (pr k cur) \<and> p_cwd (pr k' i) = p_cwd (pr k cur) \<and> p_name (pr k' i) = p_name (pr k cur)
          \<and> p_tf (pr k' i) = (p_tf (pr k cur))\<lparr>tf_eax := 0\<rparr>
          \<and> p_ofile (pr k' i) = map2 (\<lambda>new old. if old \<noteq> None then old else new) (p_ofile (pr k i)) (p_ofile (pr k cur)))"
proof -
  obtain a k1 where a: "allocproc k = (a, k1)" by fastforce
  note A = allocproc_effect [OF a]
  show ?thesis
  proof (cases a)
    case None
    then show ?thesis using A(1) a f by (simp add: fork_def)
  next
    case (Some i)
    note A2 = A(2) [OF Some]
    have fld: "p_sz (pr k1 j) = p_sz (pr k j)" "p_cwd (pr k1 j) = p_cwd (pr k j)" "p_name (pr k1 j) = p_name (pr k j)"
      "p_tf (pr k1 j) = p_tf (pr k j)" "p_ofile (pr k1 j) = p_ofile (pr k j)" for j
      using allocproc_fields [OF a [unfolded Some]] by simp_all
    obtain pd m where c: "copyuvm kend data (p_pgdir (pr k1 cur)) (p_sz (pr k1 cur)) (mem k1) = Ok (pd, m)"
      using f a Some by (auto simp: fork_def)
    show ?thesis
    proof (cases pd)
      case None
      then obtain m2 where k': "r = - 1" "k' = set_proc i ((pr k1 i)\<lparr>p_pgdir := 0, p_kstack := 0, p_state := UNUSED\<rparr>) (k1\<lparr>mem := m2\<rparr>)"
        using f a Some c by (auto simp: fork_def)
      have "same_tree k k'"
        unfolding same_tree_def k' using A2 by (auto simp: pr_set_proc fun_eq_iff)
      then show ?thesis using k'(1) by simp
    next
      case pd: (Some pgdir)
      define np where "np = (pr k1 i)\<lparr>p_pgdir := pgdir, p_sz := p_sz (pr k1 cur), p_parent := Some cur,
         p_tf := (p_tf (pr k1 cur))\<lparr>tf_eax := 0\<rparr>,
         p_ofile := map2 (\<lambda>new old. if old \<noteq> None then old else new) (p_ofile (pr k1 i)) (p_ofile (pr k1 cur)),
         p_cwd := p_cwd (pr k1 cur), p_name := p_name (pr k1 cur), p_state := RUNNABLE\<rparr>"
      obtain e where k': "r = p_pid (pr k1 i)" "k' = set_proc i np (k1\<lparr>mem := m, env := e\<rparr>)"
        using f a Some c pd by (auto simp: fork_def Let_def np_def)
      have p': "pr k' i = np" "procs k' = (procs k)[i := np]"
        using A2 by (auto simp: k'(2) set_proc_def list_eq_iff_nth_eq nth_list_update)
      show ?thesis
        unfolding p' using A2 fld k' by (intro disjI2 exI [of _ i]) (simp add: np_def)
    qed
  qed
qed

text \<open>What \<^verbatim>\<open>fork\<close> does to the table.  When it does not panic it either fails with -1 and leaves
  states, parents, channels and processors as they were, or it fills one unused slot and changes no
  other: the child has the next process identifier, is runnable and a child of the caller, has the
  caller's size, directory and name and its registers except that the child sees 0, and an
  open file wherever the caller has one.\<close>

theorem fork_spec:
  "case fork kend data filedup idup cur k of
     Ok (r, k') \<Rightarrow>
       r = - 1 \<and> same_tree k k'
     \<or> (\<exists>i < length (procs k). p_state (pr k i) = UNUSED \<and> procs k' = (procs k)[i := pr k' i]
          \<and> r = nextpid k \<and> p_pid (pr k' i) = r \<and> nextpid k' = nextpid k + 1
          \<and> p_state (pr k' i) = RUNNABLE \<and> p_parent (pr k' i) = Some cur
          \<and> p_sz (pr k' i) = p_sz (pr k cur) \<and> p_cwd (pr k' i) = p_cwd (pr k cur) \<and> p_name (pr k' i) = p_name (pr k cur)
          \<and> p_tf (pr k' i) = (p_tf (pr k cur))\<lparr>tf_eax := 0\<rparr>
          \<and> p_ofile (pr k' i) = map2 (\<lambda>new old. if old \<noteq> None then old else new) (p_ofile (pr k i)) (p_ofile (pr k cur)))
   | _ \<Rightarrow> True"
  using fork_Ok [of kend data filedup idup cur k]
  by (cases "fork kend data filedup idup cur k") (simp_all add: split_beta)

text \<open>A process can be born killed.  Unused slots keep process identifier 0, so \<^verbatim>\<open>kill(0)\<close> reports
  success and marks the first of them, and \<^verbatim>\<open>allocproc\<close> does not reset the mark when it hands the slot
  out: the next process created exits at its first trap.\<close>

theorem kill_zero_marks_free_slot:
  assumes "find_index (\<lambda>p. p_pid p = 0) (procs k) = Some j" "find_index (\<lambda>p. p_state p = UNUSED) (procs k) = Some j"
    and "kill 0 k = (r, k')" "allocproc k' = (Some i, k'')"
  shows "r = 0 \<and> i = j \<and> p_killed (pr k'' i)"
proof -
  have j: "j < length (procs k)" "p_state (pr k j) = UNUSED" using find_index_SomeD [OF assms(2)] by auto
  have k': "r = 0" "k' = set_proc j ((pr k j)\<lparr>p_killed := True\<rparr>) k"
    using assms(1,3) j(2) by (auto simp: kill_def Let_def)
  have same: "map p_state (procs k') = map p_state (procs k)"
    using j by (auto simp: k'(2) set_proc_def map_update list_update_same_conv)
  have "find_index (\<lambda>p. p_state p = UNUSED) (procs k') = Some j"
    using same assms(2) find_index_map [of "\<lambda>s. s = UNUSED" p_state] by metis
  then have "i = j" using assms(4) by (auto simp: allocproc_def Let_def split: option.splits prod.splits)
  then show ?thesis
    using allocproc_effect(2) [OF assms(4) refl] k' j by (simp add: pr_set_proc)
qed

theorem kill_zero_marks_free_slot_witness:
  "\<exists>k' k''. kill 0 two_procs = (0, k') \<and> allocproc k' = (Some 2, k'') \<and> p_killed (pr k'' 2)"
proof -
  have u: "replicate 62 x = x # replicate 61 x" for x :: "nat proc" by (simp add: numeral_eq_Suc)
  have f: "find_index (\<lambda>p. p_pid p = 0) (procs two_procs) = Some 2"
      "find_index (\<lambda>p. p_state p = UNUSED) (procs two_procs) = Some 2"
    unfolding two_procs_def u by (simp_all add: idle_proc_def)
  obtain r k' where k: "kill 0 two_procs = (r, k')" by fastforce
  obtain i k'' where a: "allocproc k' = (Some i, k'')"
  proof -
    have "k' = set_proc 2 ((pr two_procs 2)\<lparr>p_killed := True\<rparr>) two_procs"
      using k f(1) pr_two_procs(3) [of 2] by (auto simp: kill_def Let_def NPROC_def idle_proc_def)
    then have "find_index (\<lambda>p. p_state p = UNUSED) (procs k') = Some 2" "freelist (mem k') = [0x80400000]"
      unfolding two_procs_def u by (simp_all add: idle_proc_def set_proc_def)
    then show ?thesis using that by (auto simp: allocproc_def Let_def kalloc_def)
  qed
  from kill_zero_marks_free_slot [OF f k a] k a show ?thesis by blast
qed

end
