(* ===== verification/Lottery.thy ===== *)
theory Lottery
  imports Proc
begin
unbundle bit_operations_syntax

text \<open>
  The lottery scheduler of project 2A, \<^verbatim>\<open>p2A/xv6-public/proc.c\<close> and the system calls it adds in
  \<^verbatim>\<open>sysfile.c\<close> and \<^verbatim>\<open>sysproc.c\<close>.  The table entry keeps the fields these functions use; C
  integers are 32-bit words, read as signed numbers where the code compares them with 0.
\<close>

subsection \<open>The code\<close>

record lproc =
  l_state :: procstate
  l_pid :: int
  l_chan :: "chan option"
  l_killed :: bool
  l_tickets :: u32
  l_runticks :: u32
  l_boostsleft :: u32
  l_sleepticks :: u32
  l_sleepstart :: u32

definition RAND_MAX :: u32 where "RAND_MAX = 0x7fffffff"

definition rand :: "u32 \<Rightarrow> u32" where
  "rand rseed = (rseed * 1103515245 + 12345) AND RAND_MAX"

text \<open>The tickets a process takes part with.\<close>

definition weight :: "lproc \<Rightarrow> u32" where
  "weight p = (if sint (l_boostsleft p) > 0 then 2 * l_tickets p else l_tickets p)"

fun pick :: "u32 \<Rightarrow> lproc list \<Rightarrow> nat option" where
  "pick temp [] = None"
| "pick temp (p # ps) =
     (if l_state p = RUNNABLE
      then (if sint (temp - weight p) < 0 then Some 0 else map_option Suc (pick (temp - weight p) ps))
      else map_option Suc (pick temp ps))"

definition age :: "lproc \<Rightarrow> lproc" where
  "age p =
     (if l_state p = RUNNABLE
      then (if sint (l_boostsleft p) > 0 then p\<lparr>l_boostsleft := l_boostsleft p - 1\<rparr> else p)
      else if l_state p = SLEEPING then p\<lparr>l_boostsleft := l_boostsleft p + 1\<rparr> else p)"

definition hold_lottery :: "u32 \<Rightarrow> u32 \<Rightarrow> lproc list \<Rightarrow> nat option \<times> u32 \<times> lproc list" where
  "hold_lottery total_tickets rseed ps =
     (if sint total_tickets \<le> 0 then (None, rseed, ps)
      else let rseed = rand rseed; winner = pick (rseed mod total_tickets) ps
           in (winner, rseed, map age ps))"

fun total_tickets :: "lproc list \<Rightarrow> u32 \<Rightarrow> u32" where
  "total_tickets [] acc = acc"
| "total_tickets (p # ps) acc =
     total_tickets ps (if l_state p = RUNNABLE then acc + weight p else acc)"

text \<open>One round of \<^verbatim>\<open>scheduler\<close>, up to the switch to the winner.\<close>

definition scheduler_round :: "u32 \<Rightarrow> lproc list \<Rightarrow> nat option \<times> u32 \<times> lproc list" where
  "scheduler_round rseed ps =
     (let total = total_tickets ps 0 in
      if total = 0 then (None, rseed, ps)
      else case hold_lottery total rseed ps of
             (None, rseed, ps) \<Rightarrow> (None, rseed, ps)
           | (Some i, rseed, ps) \<Rightarrow>
               (Some i, rseed, ps[i := (ps ! i)\<lparr>l_state := RUNNING, l_runticks := l_runticks (ps ! i) + 1\<rparr>]))"

definition lwakeup1 :: "chan \<Rightarrow> u32 \<Rightarrow> lproc list \<Rightarrow> lproc list" where
  "lwakeup1 ch ticks ps =
     map (\<lambda>p. if l_state p = SLEEPING \<and> l_chan p = Some ch
              then (if ticks - l_sleepstart p \<ge> l_sleepticks p
                    then p\<lparr>l_state := RUNNABLE, l_sleepticks := 0, l_sleepstart := 0\<rparr>
                    else p\<lparr>l_boostsleft := l_boostsleft p + 1\<rparr>)
              else p) ps"

definition sys_srand :: "u32 \<Rightarrow> u32 \<Rightarrow> int \<times> u32" where
  "sys_srand i rseed = (0, i)"

definition sys_settickets :: "int \<Rightarrow> u32 \<Rightarrow> lproc list \<Rightarrow> int \<times> lproc list" where
  "sys_settickets pid tickets ps =
     (if pid < 0 then (- 1, ps)
      else if sint tickets \<le> 0 then (- 1, ps)
      else (0, map (\<lambda>p. if l_pid p = pid then p\<lparr>l_tickets := tickets\<rparr> else p) ps))"

record pstat =
  inuse :: "int list"
  ps_pid :: "int list"
  ps_tickets :: "u32 list"
  ps_runticks :: "u32 list"
  ps_boostsleft :: "u32 list"

definition sys_getpinfo :: "lproc list \<Rightarrow> int \<times> pstat" where
  "sys_getpinfo ps =
     (0, \<lparr>inuse = map (\<lambda>p. if l_state p = UNUSED then 0 else 1) ps, ps_pid = map l_pid ps,
          ps_tickets = map l_tickets ps, ps_runticks = map l_runticks ps, ps_boostsleft = map l_boostsleft ps\<rparr>)"

text \<open>\<^verbatim>\<open>sys_sleep\<close>: the entry, and one test of its loop: it returns, or sleeps on \<^verbatim>\<open>&ticks\<close>.\<close>

definition sys_sleep_begin :: "u32 \<Rightarrow> u32 \<Rightarrow> lproc \<Rightarrow> lproc" where
  "sys_sleep_begin n ticks p = p\<lparr>l_sleepticks := n, l_sleepstart := ticks\<rparr>"

definition TICKS :: chan where "TICKS = AChan 0"

definition sys_sleep_test :: "u32 \<Rightarrow> u32 \<Rightarrow> u32 \<Rightarrow> lproc \<Rightarrow> int option \<times> lproc" where
  "sys_sleep_test n ticks0 ticks p =
     (if ticks - ticks0 < n
      then (if l_killed p then (Some (- 1), p) else (None, p\<lparr>l_chan := Some TICKS, l_state := SLEEPING\<rparr>))
      else (Some 0, p))"

definition lfork_fields :: "lproc \<Rightarrow> lproc \<Rightarrow> lproc" where
  "lfork_fields cur np = np\<lparr>l_tickets := l_tickets cur, l_boostsleft := 0, l_runticks := 0, l_sleepticks := 0\<rparr>"

definition lallocproc_fields :: "lproc \<Rightarrow> lproc" where
  "lallocproc_fields p = p\<lparr>l_tickets := 1, l_boostsleft := 0, l_runticks := 0, l_sleepticks := 0\<rparr>"

subsection \<open>Who wins\<close>

text \<open>Weights as numbers, the tickets before a process, and a table in which no sum overflows.\<close>

definition share :: "lproc \<Rightarrow> nat" where
  "share p = (if l_state p = RUNNABLE then unat (weight p) else 0)"

definition lottery_ok :: "lproc list \<Rightarrow> bool" where
  "lottery_ok ps \<longleftrightarrow> (\<Sum>p\<leftarrow>ps. share p) < 2 ^ 31"

lemma sint_diff:
  assumes "t < 2 ^ 31" "w < 2 ^ 31"
  shows "sint (of_nat t - of_nat w :: u32) = int t - int w"
  using assms by transfer (simp add: signed_take_bit_int_eq_self)

lemma sint_pos: "unat (x :: u32) < 2 ^ 31 \<Longrightarrow> sint x = int (unat x)"
  using sint_diff [of "unat x" 0] by simp

lemma share_le: "p \<in> set ps \<Longrightarrow> share p \<le> (\<Sum>p\<leftarrow>ps. share p)"
  by (rule member_le_sum_list) auto

lemma pick_spec:
  assumes "(\<Sum>p\<leftarrow>ps. share p) < 2 ^ 31" "t < 2 ^ 31"
  shows "t < (\<Sum>p\<leftarrow>ps. share p) \<Longrightarrow> \<exists>i < length ps. pick (of_nat t) ps = Some i \<and> l_state (ps ! i) = RUNNABLE
      \<and> (\<Sum>p\<leftarrow>take i ps. share p) \<le> t \<and> t < (\<Sum>p\<leftarrow>take (Suc i) ps. share p)"
  using assms
proof (induction ps arbitrary: t)
  case (Cons p ps)
  show ?case
  proof (cases "l_state p = RUNNABLE")
    case False
    then have s0: "share p = 0" by (simp add: share_def)
    obtain i where "i < length ps" "pick (of_nat t) ps = Some i" "l_state (ps ! i) = RUNNABLE"
      "(\<Sum>p\<leftarrow>take i ps. share p) \<le> t" "t < (\<Sum>p\<leftarrow>take (Suc i) ps. share p)"
      using Cons.IH [of t] Cons.prems s0 by auto
    then show ?thesis using False s0 by (intro exI [of _ "Suc i"]) simp
  next
    case True
    define w where "w = unat (weight p)"
    have sh: "share p = w" using True by (simp add: share_def w_def)
    have w: "w < 2 ^ 31" "weight p = of_nat w" using Cons.prems(2) sh by (simp_all add: w_def)
    have d: "sint (of_nat t - weight p) = int t - int w" using sint_diff [OF Cons.prems(3) w(1)] w(2) by simp
    show ?thesis
    proof (cases "t < w")
      case True
      then show ?thesis using \<open>l_state p = RUNNABLE\<close> d sh by (intro exI [of _ 0]) simp
    next
      case False
      have tw: "of_nat t - weight p = (of_nat (t - w) :: u32)" using False w(2) by (simp add: of_nat_diff)
      have lt: "t - w < (\<Sum>p\<leftarrow>ps. share p)" using Cons.prems(1) sh False by simp
      obtain i where "i < length ps" "pick (of_nat (t - w)) ps = Some i" "l_state (ps ! i) = RUNNABLE"
        "(\<Sum>p\<leftarrow>take i ps. share p) \<le> t - w" "t - w < (\<Sum>p\<leftarrow>take (Suc i) ps. share p)"
        using Cons.IH [OF lt] Cons.prems lt by auto
      then show ?thesis using True False d sh tw by (intro exI [of _ "Suc i"]) auto
    qed
  qed
qed simp

lemma total_tickets_sum:
  "total_tickets ps acc = acc + of_nat (\<Sum>p\<leftarrow>ps. share p)"
  by (induction ps arbitrary: acc) (auto simp: share_def)

text \<open>The number of drawings that a process wins.\<close>

lemma pick_wins:
  assumes ok: "lottery_ok ps" and i: "i < length ps" and t: "t < (\<Sum>p\<leftarrow>ps. share p)"
  shows "pick (of_nat t) ps = Some i \<longleftrightarrow> (\<Sum>p\<leftarrow>take i ps. share p) \<le> t \<and> t < (\<Sum>p\<leftarrow>take (Suc i) ps. share p)"
proof -
  have mono: "(\<Sum>p\<leftarrow>take a ps. share p) \<le> (\<Sum>p\<leftarrow>take b ps. share p)" if "a \<le> b" for a b
  proof -
    have "take b ps = take a ps @ take (b - a) (drop a ps)" using that by (metis le_add_diff_inverse take_add)
    then show ?thesis by simp
  qed
  obtain j where j: "pick (of_nat t) ps = Some j" "(\<Sum>p\<leftarrow>take j ps. share p) \<le> t" "t < (\<Sum>p\<leftarrow>take (Suc j) ps. share p)"
    using pick_spec [of ps t] ok t by (auto simp: lottery_ok_def)
  show ?thesis
  proof
    assume "pick (of_nat t) ps = Some i"
    then show "(\<Sum>p\<leftarrow>take i ps. share p) \<le> t \<and> t < (\<Sum>p\<leftarrow>take (Suc i) ps. share p)" using j by simp
  next
    assume a: "(\<Sum>p\<leftarrow>take i ps. share p) \<le> t \<and> t < (\<Sum>p\<leftarrow>take (Suc i) ps. share p)"
    have "i = j"
    proof (rule ccontr)
      assume "i \<noteq> j"
      then consider "Suc i \<le> j" | "Suc j \<le> i" by linarith
      then show False using a j(2,3) mono [of "Suc i" j] mono [of "Suc j" i] by cases linarith+
    qed
    then show "pick (of_nat t) ps = Some i" using j(1) by simp
  qed
qed


definition job :: "procstate \<Rightarrow> int \<Rightarrow> u32 \<Rightarrow> u32 \<Rightarrow> lproc" where
  "job st pid tickets boost = \<lparr>l_state = st, l_pid = pid, l_chan = None, l_killed = False, l_tickets = tickets,
     l_runticks = 0, l_boostsleft = boost, l_sleepticks = 0, l_sleepstart = 0\<rparr>"

definition jobs :: "lproc list" where
  "jobs = [job RUNNABLE 1 3 0, job SLEEPING 2 5 0, job RUNNABLE 3 2 1]"


text \<open>A scheduling round.  Without overflow, a round of the scheduler with a runnable process picks one,
  makes it RUNNING and counts the tick for it and for nobody else; all states of the others stay, each runnable
  process uses up one boosted tick if it has any, and each sleeping one gains one.\<close>

theorem scheduler_round_runs_one:
  assumes ok: "lottery_ok ps" and r: "\<exists>p \<in> set ps. share p > 0"
  shows "\<exists>i ps'. scheduler_round rseed ps = (Some i, rand rseed, ps') \<and> i < length ps \<and> l_state (ps ! i) = RUNNABLE
    \<and> ps' = (map age ps)[i := (age (ps ! i))\<lparr>l_state := RUNNING, l_runticks := l_runticks (ps ! i) + 1\<rparr>]"
proof -
  define W where "W = (\<Sum>p\<leftarrow>ps. share p)"
  have W: "0 < W" "W < 2 ^ 31" using r ok share_le by (fastforce simp: lottery_ok_def W_def)+
  have tt: "total_tickets ps 0 = of_nat W" by (simp add: total_tickets_sum W_def)
  have u: "unat (of_nat W :: u32) = W" using W(2) by (simp add: unat_of_nat take_bit_eq_mod)
  have s: "sint (of_nat W :: u32) = int W" using sint_pos [of "of_nat W"] u W(2) by simp
  let ?t = "unat (rand rseed) mod W"
  have tl: "?t < W" using W(1) by simp
  then have t32: "?t mod 2 ^ 32 = ?t" using W(2) by simp
  have dr: "rand rseed mod of_nat W = of_nat ?t"
    by (rule word_unat_eq_iff [THEN iffD2]) (use u t32 in \<open>simp add: unat_mod_distrib unat_of_nat take_bit_eq_mod\<close>)
  obtain i where i: "i < length ps" "pick (of_nat ?t) ps = Some i" "l_state (ps ! i) = RUNNABLE"
    using pick_spec [of ps ?t] W(2) tl unfolding W_def by fastforce
  have n0: "(of_nat W :: u32) \<noteq> 0"
  proof
    assume "(of_nat W :: u32) = 0"
    then have "W = 0" using u unsigned_0 by metis
    with W(1) show False by linarith
  qed
  have ar: "l_runticks (age (ps ! i)) = l_runticks (ps ! i)" by (simp add: age_def)
  show ?thesis
    using i n0 s W(1) dr ar by (simp add: scheduler_round_def hold_lottery_def tt Let_def)
qed

theorem scheduler_round_runs_one_witness:
  "\<exists>i ps'. scheduler_round 7 jobs = (Some i, rand 7, ps') \<and> i < 3 \<and> l_state (jobs ! i) = RUNNABLE"
  using scheduler_round_runs_one [of jobs 7] by (fastforce simp: lottery_ok_def jobs_def job_def share_def weight_def)

subsection \<open>What goes wrong\<close>

text \<open>Tickets can stop the machine.  \<^verbatim>\<open>sys_settickets\<close> accepts every positive number, but the sum that the
  scheduler computes is a C integer: after two runnable processes have been given \<open>2\<^sup>3\<^sup>0\<close> tickets each
  the sum is negative, and no round of the scheduler ever runs anything.\<close>

theorem tickets_overflow_stops_scheduler:
  "let ps = snd (sys_settickets 2 0x40000000 (snd (sys_settickets 1 0x40000000 [job RUNNABLE 1 1 0, job RUNNABLE 2 1 0])))
   in fst (sys_settickets 1 0x40000000 ps) = 0 \<and> scheduler_round rseed ps = (None, rseed, ps)"
  by (simp add: sys_settickets_def job_def scheduler_round_def hold_lottery_def weight_def Let_def)

text \<open>A sleeper is not woken early.  A process that \<^verbatim>\<open>sys_sleep\<close> put to sleep for \<open>n\<close> ticks leaves the
  SLEEPING state through the timer's \<^verbatim>\<open>wakeup1\<close> exactly when at least \<open>n\<close> ticks have passed,
  counted with wrap-around, and then its call returns 0; before that each tick only adds
  a boosted tick.\<close>

theorem sleep_waits_for_its_ticks:
  assumes "\<not> l_killed p" "0 < n"
  shows "\<exists>q. sys_sleep_test n t0 t0 (sys_sleep_begin n t0 p) = (None, q) \<and>
    (if ticks - t0 \<ge> n
     then lwakeup1 TICKS ticks [q] = [q\<lparr>l_state := RUNNABLE, l_sleepticks := 0, l_sleepstart := 0\<rparr>]
        \<and> fst (sys_sleep_test n t0 ticks (q\<lparr>l_state := RUNNING\<rparr>)) = Some 0
     else lwakeup1 TICKS ticks [q] = [q\<lparr>l_boostsleft := l_boostsleft p + 1\<rparr>]
        \<and> fst (sys_sleep_test n t0 ticks (q\<lparr>l_state := RUNNING\<rparr>)) = None)"
  using assms by (auto simp: sys_sleep_test_def sys_sleep_begin_def lwakeup1_def)

theorem sleep_waits_for_its_ticks_witness:
  "\<exists>q. sys_sleep_test 3 0xFFFFFFFE 0xFFFFFFFE (sys_sleep_begin 3 0xFFFFFFFE (job RUNNING 1 1 0)) = (None, q)
     \<and> lwakeup1 TICKS 1 [q] = [q\<lparr>l_state := RUNNABLE, l_sleepticks := 0, l_sleepstart := 0\<rparr>]"
  using sleep_waits_for_its_ticks [of "job RUNNING 1 1 0" 3 "0xFFFFFFFE" 1] by (auto simp: job_def)

text \<open>The tick count of an abandoned sleep blocks other wakeups.  \<^verbatim>\<open>wakeup1\<close> applies the test on
  \<^verbatim>\<open>sleepticks\<close> to every channel, and a sleep that ends because the process is killed leaves the count
  behind: when the process then waits for anything else while closing down, the event that should wake it
  does not.\<close>

theorem stale_sleepticks_lose_wakeups:
  assumes "l_state p = SLEEPING" "l_chan p = Some ch" "ticks - l_sleepstart p < l_sleepticks p"
  shows "lwakeup1 ch ticks [p] = [p\<lparr>l_boostsleft := l_boostsleft p + 1\<rparr>]"
  using assms by (simp add: lwakeup1_def not_le)

definition killed_sleeper :: lproc where
  "killed_sleeper = (let p = sys_sleep_begin 100 0 (job RUNNING 1 1 0);
       p = snd (sys_sleep_test 100 0 0 p);
       p = p\<lparr>l_killed := True, l_state := RUNNING\<rparr>;
       (r, p) = sys_sleep_test 100 0 1 p
     in p\<lparr>l_chan := Some (AChan 9), l_state := SLEEPING\<rparr>)"

theorem stale_sleepticks_lose_wakeups_witness: "lwakeup1 (AChan 9) 2 [killed_sleeper] = [killed_sleeper\<lparr>l_boostsleft := 1\<rparr>]"
proof -
  have k: "killed_sleeper = (job SLEEPING 1 1 0)\<lparr>l_chan := Some (AChan 9), l_killed := True, l_sleepticks := 100\<rparr>"
    by (simp add: killed_sleeper_def sys_sleep_test_def sys_sleep_begin_def job_def)
  have "l_state killed_sleeper = SLEEPING" "l_chan killed_sleeper = Some (AChan 9)" "l_boostsleft killed_sleeper = 0"
    "2 - l_sleepstart killed_sleeper < l_sleepticks killed_sleeper"
    unfolding k by (simp_all add: job_def)
  then show ?thesis using stale_sleepticks_lose_wakeups [of killed_sleeper "AChan 9" 2] by simp
qed

end
