(* ===== verification/Threads.thy ===== *)
theory Threads
  imports Proc
begin
unbundle bit_operations_syntax

text \<open>
  The kernel threads of project 3B: \<^verbatim>\<open>clone\<close>, \<^verbatim>\<open>join\<close> and the changed \<^verbatim>\<open>growproc\<close> and \<^verbatim>\<open>wait\<close> of
  \<^verbatim>\<open>p3b/xv6-public/proc.c\<close>, and the thread library with its ticket lock of \<^verbatim>\<open>p3b/xv6-public/ulib.c\<close>.
  The field \<^verbatim>\<open>stack\<close> that this project adds to the process table is a list beside the
  table.
\<close>

subsection \<open>Kernel threads\<close>

type_synonym ('f, 'e) tkernel = "('f, 'e) kernel \<times> u32 list"

text \<open>\<^verbatim>\<open>allocproc\<close> also clears \<^verbatim>\<open>stack\<close> of the slot it returns.\<close>

definition tallocproc :: "('f, 'e) tkernel \<Rightarrow> nat option \<times> ('f, 'e) tkernel" where
  "tallocproc ks =
     (case allocproc (fst ks) of
        (None, k) \<Rightarrow> (None, (k, snd ks))
      | (Some i, k) \<Rightarrow> (Some i, (k, (snd ks)[i := 0])))"

definition share_sz :: "nat \<Rightarrow> ('f, 'e) kernel \<Rightarrow> ('f, 'e) kernel" where
  "share_sz cur k =
     k\<lparr>procs := map (\<lambda>p. if p_pgdir p = p_pgdir (pr k cur) \<and> p_parent p = Some cur
                          then p\<lparr>p_sz := p_sz (pr k cur)\<rparr> else p) (procs k)\<rparr>"

definition tgrowproc :: "u32 \<Rightarrow> nat \<Rightarrow> int \<Rightarrow> ('f, 'e) kernel \<Rightarrow> (int \<times> ('f, 'e) kernel) outcome" where
  "tgrowproc kend cur n k =
     and_then (growproc kend cur n k) (\<lambda>(r, k). if r < 0 then Ok (r, k) else Ok (r, share_sz cur k))"

definition clone :: "('f \<Rightarrow> 'e \<Rightarrow> 'e outcome) \<Rightarrow> ('f \<Rightarrow> 'e \<Rightarrow> 'e outcome) \<Rightarrow> nat \<Rightarrow> u32 \<Rightarrow> u32 \<Rightarrow> u32 \<Rightarrow> u32 \<Rightarrow>
    ('f, 'e) tkernel \<Rightarrow> (int \<times> ('f, 'e) tkernel) outcome" where
  "clone filedup idup cur fcn arg1 arg2 stack ks =
     (if stack mod PGSIZE \<noteq> 0 then Ok (- 1, ks)
      else if p_sz (pr (fst ks) cur) - stack < PGSIZE then Ok (- 1, ks)
      else case tallocproc ks of
        (None, ks) \<Rightarrow> Ok (- 1, ks)
      | (Some i, (k, st)) \<Rightarrow>
          let c = pr k cur;
              np = (pr k i)\<lparr>p_pgdir := p_pgdir c, p_sz := p_sz c, p_parent := Some cur, p_tf := p_tf c\<rparr>;
              k = set_proc i np k;
              top = stack + PGSIZE - 12
          in and_then (copyout (p_pgdir np) top (le32 0xffffffff @ le32 arg1 @ le32 arg2) (mem k)) (\<lambda>(r, m).
             let k = k\<lparr>mem := m\<rparr> in
             if r < 0 then Ok (- 1, (k, st))
             else and_then (dup_files filedup (p_ofile c) (env k)) (\<lambda>e.
                  and_then (idup_cwd idup (p_cwd c) e) (\<lambda>e.
                    let np = np\<lparr>p_tf := (p_tf np)\<lparr>tf_ebp := top, tf_esp := top, tf_eip := fcn, tf_eax := 0\<rparr>,
                               p_ofile := map2 (\<lambda>new old. if old \<noteq> None then old else new) (p_ofile np) (p_ofile c),
                               p_cwd := p_cwd c, p_name := p_name c, p_state := RUNNABLE\<rparr>
                    in Ok (p_pid np, (set_proc i np (k\<lparr>env := e\<rparr>), st[i := stack]))))))"

text \<open>One pass of \<^verbatim>\<open>join\<close> over the table: a result with the stack of the thread, or \<open>None\<close> when it sleeps.\<close>

definition join_thread :: "u32 \<Rightarrow> nat \<Rightarrow> nat \<Rightarrow> ('f, 'e) tkernel \<Rightarrow> ((int \<times> u32 option) option \<times> ('f, 'e) tkernel) outcome" where
  "join_thread kend c cur ks =
     (let k = fst ks; mine = (\<lambda>p. p_pgdir p = p_pgdir (pr k cur) \<and> p_parent p = Some cur) in
      case find_index (\<lambda>p. mine p \<and> p_state p = ZOMBIE) (procs k) of
        Some j \<Rightarrow>
          and_then (kfree kend (p_kstack (pr k j)) (mem k)) (\<lambda>m.
            Ok (Some (p_pid (pr k j), Some (snd ks ! j)),
                (set_proc j ((pr k j)\<lparr>p_kstack := 0, p_pid := 0, p_parent := None, p_name := [], p_killed := False,
                              p_state := UNUSED\<rparr>) (k\<lparr>mem := m\<rparr>), snd ks)))
      | None \<Rightarrow>
          if (\<forall>p \<in> set (procs k). \<not> mine p) \<or> p_killed (pr k cur) then Ok (Some (- 1, None), ks)
          else and_then (sleep c cur (PChan cur) k) (\<lambda>k. Ok (None, (k, snd ks))))"

text \<open>\<^verbatim>\<open>wait\<close> passes over the children that have a stack.\<close>

definition twait :: "u32 \<Rightarrow> nat \<Rightarrow> nat \<Rightarrow> ('f, 'e) tkernel \<Rightarrow> (int option \<times> ('f, 'e) tkernel) outcome" where
  "twait kend c cur ks =
     (let k = fst ks; kid = (\<lambda>(p, s). p_parent p = Some cur \<and> s = 0) in
      case find_index (\<lambda>x. kid x \<and> p_state (fst x) = ZOMBIE) (zip (procs k) (snd ks)) of
        Some j \<Rightarrow> and_then (reap kend j k) (\<lambda>(pid, k). Ok (Some pid, (k, snd ks)))
      | None \<Rightarrow>
          if (\<forall>x \<in> set (zip (procs k) (snd ks)). \<not> kid x) \<or> p_killed (pr k cur) then Ok (Some (- 1), ks)
          else and_then (sleep c cur (PChan cur) k) (\<lambda>k. Ok (None, (k, snd ks))))"

subsection \<open>The ticket lock\<close>

record lock_t =
  ticket :: u32
  turn :: u32

definition lock_init :: "lock_t \<Rightarrow> lock_t" where
  "lock_init lk = lk\<lparr>ticket := 0, turn := 0\<rparr>"

text \<open>\<^verbatim>\<open>FAA\<close> returns the old value and adds in one atomic instruction.\<close>

definition FAA :: "u32 \<Rightarrow> u32 \<Rightarrow> u32 \<times> u32" where
  "FAA var val = (var, var + val)"

definition acquire_take :: "lock_t \<Rightarrow> u32 \<times> lock_t" where
  "acquire_take lk = (case FAA (ticket lk) 1 of (myturn, v) \<Rightarrow> (myturn, lk\<lparr>ticket := v\<rparr>))"

definition acquire_test :: "u32 \<Rightarrow> lock_t \<Rightarrow> bool" where
  "acquire_test myturn lk \<longleftrightarrow> \<not> turn lk \<noteq> myturn"

definition lock_release :: "lock_t \<Rightarrow> lock_t" where
  "lock_release lk = lk\<lparr>turn := turn lk + 1\<rparr>"

text \<open>Threads that use the lock: outside, in the loop of \<^verbatim>\<open>lock_acquire\<close> with their number, or holding it.\<close>

datatype tpc = Outside | Waiting u32 | Holding u32

inductive tstep :: "lock_t \<times> tpc list \<Rightarrow> lock_t \<times> tpc list \<Rightarrow> bool" where
  t_take: "i < length ts \<Longrightarrow> ts ! i = Outside \<Longrightarrow> acquire_take lk = (n, lk') \<Longrightarrow> tstep (lk, ts) (lk', ts[i := Waiting n])"
| t_enter: "i < length ts \<Longrightarrow> ts ! i = Waiting n \<Longrightarrow> acquire_test n lk \<Longrightarrow> tstep (lk, ts) (lk, ts[i := Holding n])"
| t_spin: "i < length ts \<Longrightarrow> ts ! i = Waiting n \<Longrightarrow> \<not> acquire_test n lk \<Longrightarrow> tstep (lk, ts) (lk, ts)"
| t_release: "i < length ts \<Longrightarrow> ts ! i = Holding n \<Longrightarrow> tstep (lk, ts) (lock_release lk, ts[i := Outside])"

inductive_cases tstepE: "tstep (lk, ts) s'"

subsection \<open>The lock is fair and exclusive\<close>

fun number :: "tpc \<Rightarrow> u32" where
  "number Outside = 0"
| "number (Waiting n) = n"
| "number (Holding n) = n"

text \<open>How many releases come before a thread's turn, and the queue: positions are exactly the numbers
  below the length of the queue.\<close>

definition position :: "lock_t \<times> tpc list \<Rightarrow> nat \<Rightarrow> nat" where
  "position s i = unat (number (snd s ! i) - turn (fst s))"

definition queued :: "lock_t \<times> tpc list \<Rightarrow> nat set" where
  "queued s = {i. i < length (snd s) \<and> snd s ! i \<noteq> Outside}"

definition ticket_inv :: "lock_t \<times> tpc list \<Rightarrow> bool" where
  "ticket_inv s \<longleftrightarrow> bij_betw (position s) (queued s) {..<unat (ticket (fst s) - turn (fst s))}
     \<and> (\<forall>i < length (snd s). \<forall>n. snd s ! i = Holding n \<longrightarrow> n = turn (fst s))"

lemma finite_queued [simp]: "finite (queued s)"
  by (simp add: queued_def)

lemma unat_add1: "unat (x :: u32) + 1 < 2 ^ 32 \<Longrightarrow> unat (x + 1) = unat x + 1"
  by (simp add: unat_word_ariths)

lemma unat_sub1: "(x :: u32) \<noteq> 0 \<Longrightarrow> unat (x - 1) = unat x - 1"
  by (simp add: unat_minus_one)

lemma take_inv:
  assumes inv: "ticket_inv (lk, ts)" and i: "i < length ts" "ts ! i = Outside" and n: "length ts < 2 ^ 32"
  shows "ticket_inv (snd (acquire_take lk), ts[i := Waiting (fst (acquire_take lk))])"
proof -
  let ?s = "(lk, ts)" and ?s' = "(lk\<lparr>ticket := ticket lk + 1\<rparr>, ts[i := Waiting (ticket lk)])"
  let ?k = "unat (ticket lk - turn lk)"
  have b: "bij_betw (position ?s) (queued ?s) {..<?k}" using inv by (simp add: ticket_inv_def)
  have iq: "i \<notin> queued ?s" using i by (simp add: queued_def)
  have "?k = card (queued ?s)" using bij_betw_same_card [OF b] by simp
  also have "\<dots> \<le> card ({..<length ts} - {i})" by (rule card_mono) (use i in \<open>auto simp: queued_def\<close>)
  also have "\<dots> < length ts" using i(1) by simp
  finally have k1: "?k + 1 < 2 ^ 32" using n by simp
  have k': "unat (ticket lk + 1 - turn lk) = ?k + 1" using unat_add1 [OF k1] by (simp add: algebra_simps)
  have q': "queued ?s' = insert i (queued ?s)" using i by (auto simp: queued_def nth_list_update)
  have p': "position ?s' j = (if j = i then ?k else position ?s j)" for j using i by (simp add: position_def)
  have "bij_betw (position ?s') (insert i (queued ?s)) (insert ?k {..<?k})"
  proof (rule bij_betw_imageI)
    have inj: "inj_on (position ?s) (queued ?s)" and im: "position ?s ` queued ?s = {..<?k}" using b by (auto simp: bij_betw_def)
    show "inj_on (position ?s') (insert i (queued ?s))"
      unfolding inj_on_insert using inj iq im by (auto simp: inj_on_def p')
    show "position ?s' ` insert i (queued ?s) = insert ?k {..<?k}" using im iq by (auto simp: p' image_iff)
  qed
  moreover have "insert ?k {..<?k} = {..<unat (ticket lk + 1 - turn lk)}" using k' by auto
  moreover have "m = turn lk" if "j < length ts" "ts[i := Waiting (ticket lk)] ! j = Holding m" for j m
    using inv that i(1) by (cases "j = i") (simp_all add: ticket_inv_def)
  ultimately show ?thesis by (simp add: ticket_inv_def acquire_take_def FAA_def q')
qed

lemma release_inv:
  assumes inv: "ticket_inv (lk, ts)" and i: "i < length ts" "ts ! i = Holding n"
  shows "ticket_inv (lock_release lk, ts[i := Outside])"
    "j \<in> queued (lk, ts) \<Longrightarrow> j \<noteq> i \<Longrightarrow> position (lk, ts) j = Suc (position (lock_release lk, ts[i := Outside]) j)"
proof -
  let ?s = "(lk, ts)" and ?s' = "(lock_release lk, ts[i := Outside])"
  let ?k = "unat (ticket lk - turn lk)"
  have b: "inj_on (position ?s) (queued ?s)" "position ?s ` queued ?s = {..<?k}"
    using inv by (auto simp: ticket_inv_def bij_betw_def)
  have h: "n = turn lk" using inv i by (auto simp: ticket_inv_def)
  have iq: "i \<in> queued ?s" "position ?s i = 0" using i h by (simp_all add: queued_def position_def)
  have k0: "0 < ?k" using b(2) iq by auto
  then have nz: "ticket lk - turn lk \<noteq> 0" by (metis less_irrefl unsigned_0)
  have k': "unat (ticket lk - (turn lk + 1)) = ?k - 1" using unat_sub1 [OF nz] by (simp add: algebra_simps)
  have q': "queued ?s' = queued ?s - {i}" using i by (auto simp: queued_def nth_list_update)
  have ps: "position ?s j = Suc (position ?s' j)" if j: "j \<in> queued ?s" "j \<noteq> i" for j
  proof -
    have "position ?s j \<noteq> 0" using b(1) j iq by (metis inj_onD)
    then have "number (ts ! j) - turn lk \<noteq> 0" by (auto simp: position_def)
    from unat_sub1 [OF this] \<open>position ?s j \<noteq> 0\<close> show ?thesis
      using j(2) by (simp add: position_def lock_release_def algebra_simps)
  qed
  then show "j \<in> queued ?s \<Longrightarrow> j \<noteq> i \<Longrightarrow> position ?s j = Suc (position ?s' j)" .
  have "bij_betw (position ?s') (queued ?s - {i}) {..<?k - 1}"
  proof (rule bij_betw_imageI)
    show "inj_on (position ?s') (queued ?s - {i})"
    proof (rule inj_onI)
      fix x y assume "x \<in> queued ?s - {i}" "y \<in> queued ?s - {i}" "position ?s' x = position ?s' y"
      then show "x = y" using ps [of x] ps [of y] inj_onD [OF b(1), of x y] by simp
    qed
    have "Suc ` position ?s' ` (queued ?s - {i}) = position ?s ` (queued ?s - {i})"
      using ps by (force simp: image_iff)
    also have "\<dots> = {..<?k} - {0}" 
      by (subst inj_on_image_set_diff [OF b(1)]) (use b(2) iq in auto)
    also have "\<dots> = Suc ` {..<?k - 1}" using k0 by (cases ?k) (auto simp: lessThan_Suc_eq_insert_0)
    finally show "position ?s' ` (queued ?s - {i}) = {..<?k - 1}" by (simp add: inj_image_eq_iff)
  qed
  moreover have "m = turn lk + 1" if "j < length ts" "ts[i := Outside] ! j = Holding m" for j m
  proof -
    have "j \<noteq> i" using that i(1) by auto
    then have "ts ! j = Holding m" using that(2) by simp
    then have "m = turn lk" "j \<in> queued ?s" using inv that(1) by (auto simp: ticket_inv_def queued_def)
    then have "position ?s j = position ?s i" using \<open>ts ! j = Holding m\<close> iq(2) by (simp add: position_def)
    then have "j = i" using inj_onD [OF b(1)] iq(1) \<open>j \<in> queued ?s\<close> by blast
    then show ?thesis using \<open>j \<noteq> i\<close> by simp
  qed
  ultimately show "ticket_inv ?s'" using q' k' by (simp add: ticket_inv_def lock_release_def)
qed

lemma enter_inv:
  assumes inv: "ticket_inv (lk, ts)" and i: "i < length ts" "ts ! i = Waiting n" "turn lk = n"
  shows "ticket_inv (lk, ts[i := Holding n])"
proof -
  have "queued (lk, ts[i := Holding n]) = queued (lk, ts)" using i by (auto simp: queued_def nth_list_update)
  moreover have "position (lk, ts[i := Holding n]) = position (lk, ts)"
    using i by (auto simp: position_def fun_eq_iff nth_list_update)
  moreover have "m = turn lk" if "j < length ts" "ts[i := Holding n] ! j = Holding m" for j m
    using inv that i by (cases "j = i") (simp_all add: ticket_inv_def)
  ultimately show ?thesis using inv by (simp add: ticket_inv_def)
qed

lemma tstep_inv:
  assumes "tstep s s'" "ticket_inv s" "length (snd s) < 2 ^ 32"
  shows "ticket_inv s' \<and> length (snd s') = length (snd s)"
  using assms
proof (induction rule: tstep.induct)
  case (t_take i ts lk n lk')
  then show ?case using take_inv [of lk ts i] by simp
next
  case (t_enter i ts n lk)
  then show ?case using enter_inv [of lk ts i n] by (simp add: acquire_test_def)
next
  case (t_spin i ts n lk)
  then show ?case by simp
next
  case (t_release i ts n lk)
  then show ?case using release_inv(1) [of lk ts i n] by simp
qed

definition tstart :: "nat \<Rightarrow> lock_t \<times> tpc list" where
  "tstart n = (lock_init \<lparr>ticket = 7, turn = 9\<rparr>, replicate n Outside)"

lemma tstart_inv: "ticket_inv (tstart n)"
  by (auto simp: ticket_inv_def tstart_def queued_def lock_init_def bij_betw_def inj_on_def)

lemma tsteps_inv:
  assumes "tstep\<^sup>*\<^sup>* (tstart n) s" "n < 2 ^ 32"
  shows "ticket_inv s \<and> length (snd s) = n"
  using assms
proof (induction rule: rtranclp_induct)
  case base
  then show ?case using tstart_inv by (simp add: tstart_def)
next
  case (step s s')
  then show ?case using tstep_inv [of s s'] by simp
qed

text \<open>C10: The ticket lock excludes and never gets stuck.  With fewer than \<open>2\<^sup>3\<^sup>2\<close> threads, in every reachable
  state at most one thread holds the lock, also after the counters have wrapped around,
  and whenever a thread is in the queue one of them holds the lock or passes the test of
  \<^verbatim>\<open>lock_acquire\<close>.\<close>

theorem ticket_lock_exclusive:
  assumes "tstep\<^sup>*\<^sup>* (tstart n) (lk, ts)" "n < 2 ^ 32"
  shows "(\<forall>i < n. \<forall>j < n. \<forall>a b. ts ! i = Holding a \<longrightarrow> ts ! j = Holding b \<longrightarrow> i = j)
    \<and> ((\<exists>i < n. ts ! i \<noteq> Outside) \<longrightarrow>
         (\<exists>i < n. \<exists>a. ts ! i = Holding a \<or> ts ! i = Waiting a \<and> acquire_test a lk))"
proof -
  have inv: "ticket_inv (lk, ts)" and len: "length ts = n" using tsteps_inv [OF assms] by auto
  let ?k = "unat (ticket lk - turn lk)"
  have b: "inj_on (position (lk, ts)) (queued (lk, ts))" "position (lk, ts) ` queued (lk, ts) = {..<?k}"
    using inv by (auto simp: ticket_inv_def bij_betw_def)
  have "i = j" if "i < n" "j < n" "ts ! i = Holding a" "ts ! j = Holding c" for i j a c
  proof (rule inj_onD [OF b(1)])
    have "a = turn lk" "c = turn lk" using inv that len by (auto simp: ticket_inv_def)
    then show "position (lk, ts) i = position (lk, ts) j" using that by (simp add: position_def)
  qed (use that len in \<open>simp_all add: queued_def\<close>)
  moreover have "\<exists>i < n. \<exists>a. ts ! i = Holding a \<or> ts ! i = Waiting a \<and> acquire_test a lk"
    if q: "\<exists>i < n. ts ! i \<noteq> Outside"
  proof -
    have "queued (lk, ts) \<noteq> {}" using q len by (auto simp: queued_def)
    then have "0 < ?k" using b(2) by auto
    then have "0 \<in> position (lk, ts) ` queued (lk, ts)" using b(2) by simp
    then obtain i where i: "i \<in> queued (lk, ts)" "position (lk, ts) i = 0" by force
    then have "number (ts ! i) = turn lk" "i < n" "ts ! i \<noteq> Outside"
      using len by (simp_all add: position_def queued_def unsigned_eq_0_iff)
    then show ?thesis by (cases "ts ! i") (auto simp: acquire_test_def)
  qed
  ultimately show ?thesis by blast
qed

lemma tstart_two:
  "tstep\<^sup>*\<^sup>* (tstart 2) (\<lparr>ticket = 2, turn = 0\<rparr>, [Holding 0, Waiting 1])"
proof -
  have s: "tstart 2 = (\<lparr>ticket = 0, turn = 0\<rparr>, [Outside, Outside])"
    by (simp add: tstart_def lock_init_def numeral_2_eq_2)
  have 1: "tstep (\<lparr>ticket = 0, turn = 0\<rparr>, [Outside, Outside]) (\<lparr>ticket = 1, turn = 0\<rparr>, [Outside, Outside][0 := Waiting 0])"
    by (rule t_take) (simp_all add: acquire_take_def FAA_def)
  have 2: "tstep (\<lparr>ticket = 1, turn = 0\<rparr>, [Waiting 0, Outside]) (\<lparr>ticket = 2, turn = 0\<rparr>, [Waiting 0, Outside][1 := Waiting 1])"
    by (rule t_take) (simp_all add: acquire_take_def FAA_def)
  have 3: "tstep (\<lparr>ticket = 2, turn = 0\<rparr>, [Waiting 0, Waiting 1]) (\<lparr>ticket = 2, turn = 0\<rparr>, [Waiting 0, Waiting 1][0 := Holding 0])"
    by (rule t_enter) (simp_all add: acquire_test_def)
  show ?thesis unfolding s using 1 2 3 by (auto intro: rtranclp.rtrancl_into_rtrancl)
qed

theorem ticket_lock_exclusive_witness:
  "\<exists>i < 2. \<exists>a. [Holding 0, Waiting 1] ! i = Holding a \<or> [Holding 0, Waiting 1] ! i = Waiting a
      \<and> acquire_test a \<lparr>ticket = 2, turn = 0\<rparr>"
  using ticket_lock_exclusive [OF tstart_two] by fastforce

text \<open>C34: The ticket lock is first come, first served.  A thread that waits with \<open>d\<close> threads before it moves
  up by one at every release and by nothing else, nobody gets in front of it, and it is
  let in exactly when nobody is before it.\<close>

theorem ticket_lock_fair:
  assumes r: "tstep\<^sup>*\<^sup>* (tstart n) (lk, ts)" "n < 2 ^ 32" and st: "tstep (lk, ts) (lk', ts')"
    and i: "i < n" "ts ! i = Waiting a" "ts' ! i = Waiting a"
  shows "(acquire_test a lk \<longleftrightarrow> position (lk, ts) i = 0)
    \<and> position (lk, ts) i = position (lk', ts') i + (if turn lk' = turn lk then 0 else 1)
    \<and> (\<forall>j \<in> queued (lk', ts'). position (lk', ts') j < position (lk', ts') i \<longrightarrow> j \<in> queued (lk, ts))"
proof -
  have inv: "ticket_inv (lk, ts)" and len: "length ts = n" using tsteps_inv [OF r] by auto
  let ?k = "unat (ticket lk - turn lk)"
  have b: "position (lk, ts) ` queued (lk, ts) = {..<?k}" using inv by (simp add: ticket_inv_def bij_betw_def)
  have iq: "i \<in> queued (lk, ts)" using i len by (simp add: queued_def)
  then have ik: "position (lk, ts) i < ?k" using b by auto
  have test: "acquire_test a lk \<longleftrightarrow> position (lk, ts) i = 0"
    using i(2) by (auto simp: acquire_test_def position_def unsigned_eq_0_iff)
  from st consider
      (take) x where "lk' = lk\<lparr>ticket := ticket lk + 1\<rparr>" "ts' = ts[x := Waiting (ticket lk)]" "x < length ts" "ts ! x = Outside"
    | (enter) x m where "lk' = lk" "ts' = ts[x := Holding m]" "x < length ts" "ts ! x = Waiting m"
    | (spin) "lk' = lk" "ts' = ts"
    | (release) x m where "lk' = lock_release lk" "ts' = ts[x := Outside]" "x < length ts" "ts ! x = Holding m"
    by (auto elim!: tstepE simp: acquire_take_def FAA_def)
  then show ?thesis
  proof cases
    case (take x)
    note s' = take
    have "position (lk', ts') i = position (lk, ts) i" using s' i(2) by (auto simp: position_def nth_list_update)
    moreover have "position (lk', ts') x = ?k" using s' by (simp add: position_def)
    moreover have "j \<in> queued (lk, ts)" if "j \<in> queued (lk', ts')" "j \<noteq> x" for j using that s' by (simp add: queued_def)
    ultimately have "j \<in> queued (lk, ts)" if "j \<in> queued (lk', ts')" "position (lk', ts') j < position (lk', ts') i" for j
      using that ik by (cases "j = x") auto
    then show ?thesis using test s'(1) \<open>position (lk', ts') i = position (lk, ts) i\<close> by auto
  next
    case (enter x m)
    note s' = enter
    have "position (lk', ts') i = position (lk, ts) i" using s' i by (auto simp: position_def nth_list_update)
    moreover have "queued (lk', ts') \<subseteq> queued (lk, ts)" using s' by (auto simp: queued_def nth_list_update split: if_splits)
    ultimately show ?thesis using test s'(1) by auto
  next
    case spin
    then show ?thesis using test by auto
  next
    case (release x m)
    note s' = release
    have "i \<noteq> x" using i(2) s'(4) by auto
    then have "position (lk, ts) i = Suc (position (lk', ts') i)"
      using release_inv(2) [OF inv s'(3,4) iq] s'(1,2) by simp
    moreover have "turn lk' \<noteq> turn lk" by (simp add: s'(1) lock_release_def)
    moreover have "queued (lk', ts') \<subseteq> queued (lk, ts)" using s' by (auto simp: queued_def nth_list_update split: if_splits)
    ultimately show ?thesis using test by auto
  qed
qed

theorem ticket_lock_fair_witness:
  "position (\<lparr>ticket = 2, turn = 0\<rparr>, [Holding 0, Waiting 1]) 1 = position (\<lparr>ticket = 2, turn = 1\<rparr>, [Outside, Waiting 1]) 1 + 1"
proof -
  have st: "tstep (\<lparr>ticket = 2, turn = 0\<rparr>, [Holding 0, Waiting 1]) (\<lparr>ticket = 2, turn = 1\<rparr>, [Outside, Waiting 1])"
    using t_release [of 0 "[Holding 0, Waiting 1]" 0 "\<lparr>ticket = 2, turn = 0\<rparr>"] by (simp add: lock_release_def)
  show ?thesis using ticket_lock_fair [OF tstart_two _ st, of 1 1] by simp
qed

subsection \<open>Threads in the kernel\<close>

lemma allocproc_mem: "allocproc k = (Some i, k1) \<Longrightarrow> \<exists>x. kalloc (mem k) = (Some x, mem k1)"
  by (auto simp: allocproc_def Let_def set_proc_def split: option.splits prod.splits)

lemma clone_Ok:
  assumes f: "clone filedup idup cur fcn arg1 arg2 stack (k, st) = Ok (r, k', st')"
  shows "r = - 1
     \<or> (\<exists>i m. i < length (procs k) \<and> p_state (pr k i) = UNUSED \<and> procs k' = (procs k)[i := pr k' i]
          \<and> stack mod PGSIZE = 0 \<and> PGSIZE \<le> p_sz (pr k cur) - stack
          \<and> r = nextpid k \<and> p_pid (pr k' i) = r \<and> p_state (pr k' i) = RUNNABLE \<and> p_parent (pr k' i) = Some cur
          \<and> p_pgdir (pr k' i) = p_pgdir (pr k cur) \<and> p_sz (pr k' i) = p_sz (pr k cur) \<and> st' = st[i := stack]
          \<and> p_tf (pr k' i) = (p_tf (pr k cur))\<lparr>tf_ebp := stack + PGSIZE - 12, tf_esp := stack + PGSIZE - 12, tf_eip := fcn, tf_eax := 0\<rparr>
          \<and> (\<exists>x. kalloc (mem k) = (Some x, m))
          \<and> (\<exists>c. 0 \<le> c \<and> copyout (p_pgdir (pr k cur)) (stack + PGSIZE - 12) (le32 0xffffffff @ le32 arg1 @ le32 arg2) m = Ok (c, mem k')))"
proof (cases "stack mod PGSIZE \<noteq> 0 \<or> p_sz (pr k cur) - stack < PGSIZE")
  case True
  then have "clone filedup idup cur fcn arg1 arg2 stack (k, st) = Ok (- 1, k, st)" by (auto simp: clone_def)
  then show ?thesis using f by simp
next
  case ok: False
  obtain a k1 where a: "allocproc k = (a, k1)" by fastforce
  show ?thesis
  proof (cases a)
    case None
    then show ?thesis using f ok a by (auto simp: clone_def tallocproc_def)
  next
    case (Some i)
    note A = allocproc_effect(2) [OF a Some] and F = allocproc_fields [OF a [unfolded Some]]
    let ?c = "pr k1 cur"
    let ?np = "(pr k1 i)\<lparr>p_pgdir := p_pgdir ?c, p_sz := p_sz ?c, p_parent := Some cur, p_tf := p_tf ?c\<rparr>"
    let ?top = "stack + PGSIZE - 12"
    have pg: "p_pgdir ?c = p_pgdir (pr k cur)"
      using A allocproc_Some [OF a [unfolded Some]] by (cases "cur = i") auto
    obtain c m where co: "copyout (p_pgdir ?c) ?top (le32 0xffffffff @ le32 arg1 @ le32 arg2) (mem k1) = Ok (c, m)"
      using f ok a Some by (auto simp: clone_def tallocproc_def Let_def)
    show ?thesis
    proof (cases "c < 0")
      case True
      then show ?thesis using f ok a Some co by (auto simp: clone_def tallocproc_def Let_def)
    next
      case False
      obtain e np where np: "np = ?np\<lparr>p_tf := (p_tf ?np)\<lparr>tf_ebp := ?top, tf_esp := ?top, tf_eip := fcn, tf_eax := 0\<rparr>,
          p_ofile := map2 (\<lambda>new old. if old \<noteq> None then old else new) (p_ofile ?np) (p_ofile ?c),
          p_cwd := p_cwd ?c, p_name := p_name ?c, p_state := RUNNABLE\<rparr>"
        and r: "r = p_pid np" "st' = st[i := stack]" "k' = set_proc i np ((set_proc i ?np k1)\<lparr>mem := m, env := e\<rparr>)"
        using f ok a Some co False by (auto simp: clone_def tallocproc_def Let_def)
      have p': "pr k' i = np" "procs k' = (procs k)[i := np]" "mem k' = m"
        using A by (auto simp: r(3) set_proc_def list_eq_iff_nth_eq nth_list_update)
      have "p_pid np = nextpid k" "p_state np = RUNNABLE" "p_parent np = Some cur" "p_pgdir np = p_pgdir (pr k cur)"
        "p_sz np = p_sz (pr k cur)"
        "p_tf np = (p_tf (pr k cur))\<lparr>tf_ebp := ?top, tf_esp := ?top, tf_eip := fcn, tf_eax := 0\<rparr>"
        using A F pg by (simp_all add: np)
      moreover have "PGSIZE \<le> p_sz (pr k cur) - stack" "stack mod PGSIZE = 0" using ok by auto
      moreover have "\<exists>x. kalloc (mem k) = (Some x, mem k1)" by (rule allocproc_mem [OF a [unfolded Some]])
      ultimately show ?thesis unfolding p' using A r(1,2) co False pg
        by (intro disjI2 exI [of _ i] exI [of _ "mem k1"]) (auto intro: exI [of _ c])
    qed
  qed
qed

text \<open>What \<^verbatim>\<open>clone\<close> does.  A call that returns without panic either fails with -1 or starts a thread in one unused
  slot: it shares the page directory and the size of its creator, is its child, runs the given function on a
  page-aligned stack whose top holds the fake return address and the two arguments as \<^verbatim>\<open>copyout\<close> put
  them there, and no other slot changes.\<close>

theorem clone_spec:
  "case clone filedup idup cur fcn arg1 arg2 stack (k, st) of
     Ok (r, k', st') \<Rightarrow>
       r = - 1
     \<or> (\<exists>i m. i < length (procs k) \<and> p_state (pr k i) = UNUSED \<and> procs k' = (procs k)[i := pr k' i]
          \<and> stack mod PGSIZE = 0 \<and> PGSIZE \<le> p_sz (pr k cur) - stack
          \<and> r = nextpid k \<and> p_pid (pr k' i) = r \<and> p_state (pr k' i) = RUNNABLE \<and> p_parent (pr k' i) = Some cur
          \<and> p_pgdir (pr k' i) = p_pgdir (pr k cur) \<and> p_sz (pr k' i) = p_sz (pr k cur) \<and> st' = st[i := stack]
          \<and> p_tf (pr k' i) = (p_tf (pr k cur))\<lparr>tf_ebp := stack + PGSIZE - 12, tf_esp := stack + PGSIZE - 12, tf_eip := fcn, tf_eax := 0\<rparr>
          \<and> (\<exists>x. kalloc (mem k) = (Some x, m))
          \<and> (\<exists>c. 0 \<le> c \<and> copyout (p_pgdir (pr k cur)) (stack + PGSIZE - 12) (le32 0xffffffff @ le32 arg1 @ le32 arg2) m = Ok (c, mem k')))
   | _ \<Rightarrow> True"
  using clone_Ok [of filedup idup cur fcn arg1 arg2 stack k st]
  by (cases "clone filedup idup cur fcn arg1 arg2 stack (k, st)") (simp_all add: split_beta)

text \<open>A failed \<^verbatim>\<open>clone\<close> loses a process slot.  When the arguments cannot be copied to the stack the call
  returns -1 without undoing \<^verbatim>\<open>allocproc\<close>: the slot stays EMBRYO with its kernel stack, and nothing ever
  frees it.\<close>

lemma clone_failure_leaks_slot:
  assumes "stack mod PGSIZE = 0" "PGSIZE \<le> p_sz (pr k cur) - stack"
    and a: "allocproc k = (Some i, k1)" and c: "cur \<noteq> i"
    and "copyout (p_pgdir (pr k cur)) (stack + PGSIZE - 12) (le32 0xffffffff @ le32 arg1 @ le32 arg2) (mem k1) = Ok (- 1, m)"
  shows "\<exists>k' st'. clone filedup idup cur fcn arg1 arg2 stack (k, st) = Ok (- 1, k', st')
     \<and> p_state (pr k i) = UNUSED \<and> p_state (pr k' i) = EMBRYO \<and> p_kstack (pr k' i) = p_kstack (pr k1 i)"
proof -
  note A = allocproc_effect(2) [OF a refl]
  have pc: "pr k1 cur = pr k cur" using A c by blast
  let ?np = "(pr k1 i)\<lparr>p_pgdir := p_pgdir (pr k cur), p_sz := p_sz (pr k cur), p_parent := Some cur, p_tf := p_tf (pr k cur)\<rparr>"
  have "clone filedup idup cur fcn arg1 arg2 stack (k, st) = Ok (- 1, (set_proc i ?np k1)\<lparr>mem := m\<rparr>, st[i := 0])"
    using assms pc by (auto simp: clone_def tallocproc_def Let_def dest: leD)
  moreover have "pr ((set_proc i ?np k1)\<lparr>mem := m\<rparr>) i = ?np" using A by (simp add: pr_set_proc)
  moreover have "p_state (pr k1 i) = EMBRYO" using allocproc_Some [OF a] by auto
  ultimately show ?thesis using A by auto
qed


lemma join_Ok:
  fixes k :: "('a, 'b) kernel"
  assumes f: "join_thread kend c cur (k, st) = Ok (x, k', st')"
  shows "case x of
     Some (pid, Some stack) \<Rightarrow>
       st' = st \<and> (\<exists>j < length (procs k). p_parent (pr k j) = Some cur \<and> p_pgdir (pr k j) = p_pgdir (pr k cur)
          \<and> p_state (pr k j) = ZOMBIE \<and> pid = p_pid (pr k j) \<and> stack = st ! j
          \<and> procs k' = (procs k)[j := pr k' j] \<and> p_state (pr k' j) = UNUSED \<and> p_parent (pr k' j) = None
          \<and> kfree kend (p_kstack (pr k j)) (mem k) = Ok (mem k'))
   | Some (r, None) \<Rightarrow> r = - 1 \<and> (k', st') = (k, st)
   | None \<Rightarrow> st' = st \<and> (\<exists>j < length (procs k). p_parent (pr k j) = Some cur \<and> p_pgdir (pr k j) = p_pgdir (pr k cur))
        \<and> \<not> (\<exists>j < length (procs k). p_parent (pr k j) = Some cur \<and> p_pgdir (pr k j) = p_pgdir (pr k cur) \<and> p_state (pr k j) = ZOMBIE)"
proof -
  define mine :: "'a proc \<Rightarrow> bool" where "mine = (\<lambda>p. p_pgdir p = p_pgdir (pr k cur) \<and> p_parent p = Some cur)"
  show ?thesis
  proof (cases "find_index (\<lambda>p. mine p \<and> p_state p = ZOMBIE) (procs k)")
    case (Some j)
    have j: "j < length (procs k)" "mine (pr k j)" "p_state (pr k j) = ZOMBIE" using find_index_SomeD [OF Some] by blast+
    obtain m where m: "kfree kend (p_kstack (pr k j)) (mem k) = Ok m" and x: "x = Some (p_pid (pr k j), Some (st ! j))" "st' = st"
      and k': "k' = set_proc j ((pr k j)\<lparr>p_kstack := 0, p_pid := 0, p_parent := None, p_name := [], p_killed := False,
                              p_state := UNUSED\<rparr>) (k\<lparr>mem := m\<rparr>)"
      using f Some by (auto simp: join_thread_def Let_def mine_def)
    have "mem k' = m" "procs k' = (procs k)[j := pr k' j]" "p_state (pr k' j) = UNUSED" "p_parent (pr k' j) = None"
      using j(1) by (simp_all add: k' set_proc_def)
    then show ?thesis using x j m by (auto simp: mine_def intro!: exI [of _ j])
  next
    case None
    show ?thesis
    proof (cases "(\<forall>p \<in> set (procs k). \<not> mine p) \<or> p_killed (pr k cur)")
      case True
      then show ?thesis using f None by (auto simp: join_thread_def Let_def mine_def)
    next
      case False
      then have "x = None" "st' = st" using f None by (auto simp: join_thread_def Let_def mine_def split: if_splits)
      moreover have "\<exists>j < length (procs k). mine (pr k j)" using False by (auto simp: in_set_conv_nth)
      moreover have "\<not> (\<exists>j < length (procs k). mine (pr k j) \<and> p_state (pr k j) = ZOMBIE)"
        using None by (auto simp: find_index_None_iff)
      ultimately show ?thesis by (auto simp: mine_def)
    qed
  qed
qed


end
