(* ===== verification/Umalloc.thy ===== *)
theory Umalloc
  imports Prelude
begin

text \<open>
  The memory allocator of the user library, \<^verbatim>\<open>p4/umalloc.c\<close>: a circular list of free blocks in
  address order, searched from where the last search stopped.  Memory is a function from the
  address of a word to its value; a header at address \<open>a\<close> has its \<^verbatim>\<open>ptr\<close> at \<open>a\<close> and its \<^verbatim>\<open>size\<close>, in units
  of eight bytes, at \<open>a + 4\<close>.  Addresses and sizes are 32-bit values written as natural numbers with
  the wrap-around where a sum can leave the range.  \<open>None\<close> is a call that does not return: a
  search that never ends, or a store outside the process, which is killed for it.
\<close>

record uheap =
  um :: "nat \<Rightarrow> nat"
  freep :: nat
  ubrk :: nat

subsection \<open>The allocator\<close>

text \<open>\<^verbatim>\<open>p + k\<close> for a pointer to headers.\<close>

definition hadd :: "nat \<Rightarrow> nat \<Rightarrow> nat" where
  "hadd p k = (p + 8 * k) mod 2 ^ 32"

partial_function (option) free_walk :: "(nat \<Rightarrow> nat) \<Rightarrow> nat \<Rightarrow> nat \<Rightarrow> nat option" where
  "free_walk m bp p =
     (if bp > p \<and> bp < m p then Some p
      else if p \<ge> m p \<and> (bp > p \<or> bp < m p) then Some p
      else free_walk m bp (m p))"

text \<open>The two merges at the end of \<^verbatim>\<open>free\<close>.\<close>

definition join_upper :: "nat \<Rightarrow> nat \<Rightarrow> (nat \<Rightarrow> nat) \<Rightarrow> nat \<Rightarrow> nat" where
  "join_upper bp p m =
     (if hadd bp (m (bp + 4)) = m p
      then let m = m(bp + 4 := (m (bp + 4) + m (m p + 4)) mod 2 ^ 32) in m(bp := m (m p))
      else m(bp := m p))"

definition join_lower :: "nat \<Rightarrow> nat \<Rightarrow> (nat \<Rightarrow> nat) \<Rightarrow> nat \<Rightarrow> nat" where
  "join_lower bp p m =
     (if hadd p (m (p + 4)) = bp
      then let m = m(p + 4 := (m (p + 4) + m (bp + 4)) mod 2 ^ 32) in m(p := m bp)
      else m(p := bp))"

definition ufree :: "nat \<Rightarrow> uheap \<Rightarrow> uheap option" where
  "ufree ap h =
     (let bp = (ap + 2 ^ 32 - 8) mod 2 ^ 32 in
      case free_walk (um h) bp (freep h) of None \<Rightarrow> None
      | Some p \<Rightarrow> Some (h\<lparr>um := join_lower bp p (join_upper bp p (um h)), freep := p\<rparr>))"

text \<open>\<^verbatim>\<open>sbrk\<close> with its argument read as an \<^verbatim>\<open>int\<close>: the old end of the process or \<open>- 1\<close>, and the new end.
  \<open>room\<close> tells whether the kernel finds the pages up to an address.\<close>

definition usbrk :: "(nat \<Rightarrow> bool) \<Rightarrow> nat \<Rightarrow> nat \<Rightarrow> nat \<times> nat" where
  "usbrk room n brk =
     (if n = 0 then (brk, brk)
      else if n < 2 ^ 31
      then (if brk + n < 2 ^ 31 \<and> room (brk + n) then (brk, brk + n) else (2 ^ 32 - 1, brk))
      else let newsz = (brk + n) mod 2 ^ 32; sz = (if newsz \<ge> brk then brk else newsz)
           in if sz = 0 then (2 ^ 32 - 1, brk) else (brk, sz))"

definition morecore :: "(nat \<Rightarrow> bool) \<Rightarrow> nat \<Rightarrow> uheap \<Rightarrow> (nat \<times> uheap) option" where
  "morecore room nu h =
     (let nu = (if nu < 4096 then 4096 else nu);
          (p, brk) = usbrk room ((nu * 8) mod 2 ^ 32) (ubrk h)
      in if p = 2 ^ 32 - 1 then Some (0, h)
         else if (brk + 4095) div 4096 * 4096 < p + 8 then None
         else case ufree ((p + 8) mod 2 ^ 32) (h\<lparr>um := (um h)(p + 4 := nu), ubrk := brk\<rparr>) of None \<Rightarrow> None
              | Some h \<Rightarrow> Some (freep h, h))"

partial_function (option) malloc_loop :: "(nat \<Rightarrow> bool) \<Rightarrow> nat \<Rightarrow> nat \<Rightarrow> nat \<Rightarrow> uheap \<Rightarrow> (nat \<times> uheap) option" where
  "malloc_loop room nunits prevp p h =
     (if um h (p + 4) \<ge> nunits
      then (if um h (p + 4) = nunits
            then Some ((p + 8) mod 2 ^ 32, h\<lparr>um := (um h)(prevp := um h p), freep := prevp\<rparr>)
            else let m = (um h)(p + 4 := um h (p + 4) - nunits);
                     q = hadd p (m (p + 4));
                     m = m(q + 4 := nunits)
                 in Some ((q + 8) mod 2 ^ 32, h\<lparr>um := m, freep := prevp\<rparr>))
      else if p = freep h
      then (case morecore room nunits h of None \<Rightarrow> None
            | Some (q, h) \<Rightarrow> if q = 0 then Some (0, h) else malloc_loop room nunits q (um h q) h)
      else malloc_loop room nunits p (um h p) h)"

text \<open>\<open>base\<close> is the address of the static header.\<close>

definition umalloc :: "(nat \<Rightarrow> bool) \<Rightarrow> nat \<Rightarrow> nat \<Rightarrow> uheap \<Rightarrow> (nat \<times> uheap) option" where
  "umalloc room base nbytes h =
     (let nunits = (nbytes + 8 - 1) mod 2 ^ 32 div 8 + 1;
          h = (if freep h = 0 then h\<lparr>um := (um h)(base := base, base + 4 := 0), freep := base\<rparr> else h)
      in malloc_loop room nunits (freep h) (um h (freep h)) h)"

subsection \<open>The free list\<close>

text \<open>The headers of a list follow each other.\<close>

fun linked :: "(nat \<Rightarrow> nat) \<Rightarrow> nat list \<Rightarrow> bool" where
  "linked m (x # y # zs) \<longleftrightarrow> m x = y \<and> linked m (y # zs)"
| "linked m _ \<longleftrightarrow> True"

lemma linked_split: "linked m (xs @ p # ys) \<longleftrightarrow> linked m (xs @ [p]) \<and> linked m (p # ys)"
proof (induction xs)
  case (Cons x xs)
  then show ?case by (cases xs) auto
qed simp

lemma linked_frame: "\<forall>x \<in> set (butlast xs). m' x = m x \<Longrightarrow> linked m' xs = linked m xs"
  by (induction m xs rule: linked.induct) auto

lemma linked_Cons: "ys \<noteq> [] \<Longrightarrow> linked m (x # ys) \<longleftrightarrow> m x = hd ys \<and> linked m ys"
  by (cases ys) auto

text \<open>A block is its address and its size in units.  The abstract state of the allocator is the list
  of the free blocks in address order, between the static header and the end of the process.\<close>

type_synonym blk = "nat \<times> nat"

definition blk_end :: "blk \<Rightarrow> nat" where "blk_end b = fst b + 8 * snd b"

fun spaced :: "nat \<Rightarrow> blk list \<Rightarrow> nat \<Rightarrow> bool" where
  "spaced lo [] hi \<longleftrightarrow> lo \<le> hi"
| "spaced lo (b # bs) hi \<longleftrightarrow> lo \<le> fst b \<and> 0 < snd b \<and> spaced (blk_end b) bs hi"

lemma spaced_le: "spaced lo bs hi \<Longrightarrow> lo \<le> hi"
  by (induction bs arbitrary: lo) (auto simp: blk_end_def, fastforce)

lemma spaced_mono: "spaced lo bs hi \<Longrightarrow> lo' \<le> lo \<Longrightarrow> hi \<le> hi' \<Longrightarrow> spaced lo' bs hi'"
  by (induction bs arbitrary: lo lo') auto

lemma spaced_split: "spaced lo (xs @ b # ys) hi \<longleftrightarrow> spaced lo xs (fst b) \<and> 0 < snd b \<and> spaced (blk_end b) ys hi"
  by (induction xs arbitrary: lo) auto

lemma spaced_append: "spaced lo (xs @ ys) hi \<longleftrightarrow> (\<exists>k. spaced lo xs k \<and> spaced k ys hi)"
proof (cases ys)
  case Nil
  then show ?thesis using spaced_mono by fastforce
next
  case (Cons b ys')
  then show ?thesis using spaced_mono [of lo xs _ lo "fst b"] by (auto simp: spaced_split)
qed

lemma spaced_bounds: "spaced lo bs hi \<Longrightarrow> b \<in> set bs \<Longrightarrow> lo \<le> fst b \<and> 0 < snd b \<and> blk_end b \<le> hi"
proof (induction bs arbitrary: lo)
  case (Cons c bs)
  then show ?case using spaced_le [of "blk_end c" bs hi] by (fastforce simp: blk_end_def)
qed simp

definition heap_rep :: "nat \<Rightarrow> uheap \<Rightarrow> blk list \<Rightarrow> bool" where
  "heap_rep base h fl \<longleftrightarrow>
     linked (um h) (base # map fst fl @ [base]) \<and> um h (base + 4) = 0
     \<and> (\<forall>b \<in> set fl. um h (fst b + 4) = snd b)
     \<and> freep h \<in> set (base # map fst fl)
     \<and> 0 < base \<and> spaced (base + 8) fl (ubrk h) \<and> ubrk h < 2 ^ 31"

definition space :: "blk list \<Rightarrow> nat set" where
  "space fl = (\<Union>b \<in> set fl. {fst b..<blk_end b})"

subsection \<open>Freeing\<close>

text \<open>The search for the place of a block: through the headers below it, or first around the end of
  the list.\<close>

lemma walk_below:
  assumes "linked m (as @ [z])" "as \<noteq> []" "sorted_wrt (<) as" "last as < bp"
    "bp < z \<or> z \<le> hd as"
  shows "free_walk m bp (hd as) = Some (last as)"
  using assms
proof (induction as)
  case (Cons a as)
  show ?case
  proof (cases as)
    case Nil
    then show ?thesis using Cons.prems by (subst free_walk.simps) auto
  next
    case (Cons b as')
    have ab: "m a = b" "a < b" using Cons.prems Cons by auto
    have "\<forall>x \<in> set as. b \<le> x" using Cons.prems Cons by auto
    then have "b \<le> last as" using Cons by (metis last_in_set list.discI)
    then have "free_walk m bp a = free_walk m bp b"
      using Cons.prems(4) Cons ab by (subst free_walk.simps) auto
    moreover have "free_walk m bp (hd as) = Some (last as)"
      by (rule Cons.IH) (use Cons.prems Cons ab in auto)
    ultimately show ?thesis using Cons by simp
  qed
qed simp

lemma walk_above:
  assumes "linked m (cs @ [base])" "cs \<noteq> []" "sorted_wrt (<) cs" "bp < hd cs" "base < bp"
  shows "free_walk m bp (hd cs) = free_walk m bp base"
  using assms
proof (induction cs)
  case (Cons c cs)
  show ?case
  proof (cases cs)
    case Nil
    then show ?thesis using Cons.prems by (subst free_walk.simps) auto
  next
    case (Cons d cs')
    then have "m c = d" "c < d" using Cons.prems by auto
    then have "free_walk m bp c = free_walk m bp d"
      using Cons.prems by (subst free_walk.simps) auto
    moreover have "free_walk m bp (hd cs) = free_walk m bp base"
      by (rule Cons.IH) (use Cons.prems Cons in auto)
    ultimately show ?thesis using Cons by simp
  qed
qed simp

lemma spaced_sorted: "spaced lo bs hi \<Longrightarrow> sorted_wrt (<) (map fst bs)"
proof (induction bs arbitrary: lo)
  case (Cons b bs)
  have "\<forall>c \<in> set bs. fst b < fst c"
    using Cons.prems spaced_bounds [of "blk_end b" bs hi] by (fastforce simp: blk_end_def)
  then show ?case using Cons by auto
qed simp

lemma free_walk_finds:
  assumes "linked m (base # map fst (xs @ ys) @ [base])"
    and "spaced (base + 8) (xs @ (bp, k) # ys) hi" "q \<in> set (base # map fst (xs @ ys))"
  shows "free_walk m bp q = Some (last (base # map fst xs))"
proof -
  let ?A = "base # map fst xs" and ?C = "map fst ys"
  have sp: "spaced (base + 8) xs bp" "0 < k" "spaced (bp + 8 * k) ys hi"
    using assms(2) by (simp_all add: spaced_split blk_end_def)
  have sA: "sorted_wrt (<) ?A" using spaced_sorted [OF sp(1)] spaced_bounds [OF sp(1)] by fastforce
  have sC: "sorted_wrt (<) ?C" by (rule spaced_sorted [OF sp(3)])
  have lowA: "\<forall>a \<in> set ?A. base \<le> a \<and> a < bp"
    using spaced_bounds [OF sp(1)] spaced_le [OF sp(1)] by (fastforce simp: blk_end_def)
  have highC: "\<forall>c \<in> set ?C. bp < c" using spaced_bounds [OF sp(3)] sp(2) by fastforce
  define z where "z = hd (?C @ [base])"
  have lA: "linked m (?A @ [z])"
  proof (cases ys)
    case Nil
    then show ?thesis using assms(1) by (simp add: z_def)
  next
    case (Cons c ys')
    then show ?thesis
      using assms(1) linked_split [of m "base # map fst xs" "fst c" "map fst ys' @ [base]"] by (simp add: z_def)
  qed
  have z: "bp < z \<or> z = base" using highC by (cases ys) (auto simp: z_def)
  have below: "free_walk m bp q = Some (last ?A)" if "q \<in> set ?A" for q
  proof -
    obtain us vs where uv: "?A = us @ q # vs" using \<open>q \<in> set ?A\<close> by (meson split_list)
    have "linked m ((q # vs) @ [z])" using lA linked_split [of m us q "vs @ [z]"] uv by simp
    moreover have "sorted_wrt (<) (q # vs)" using sA unfolding uv by (simp add: sorted_wrt_append)
    moreover have "last (q # vs) < bp" using lowA uv by (metis last_appendR last_in_set list.discI)
    moreover have "base \<le> q" using lowA that by blast
    ultimately have "free_walk m bp (hd (q # vs)) = Some (last (q # vs))"
      using z by (intro walk_below) auto
    then show ?thesis using uv by (metis last_appendR list.discI list.sel(1))
  qed
  show ?thesis
  proof (cases "q \<in> set ?A")
    case True
    then show ?thesis by (rule below)
  next
    case False
    then have "q \<in> set ?C" using assms(3) by auto
    then obtain us vs where uv: "?C = us @ q # vs" by (meson split_list)
    have "linked m ((q # vs) @ [base])"
      using assms(1) linked_split [of m "?A @ us" q "vs @ [base]"] uv by simp
    moreover have "sorted_wrt (<) (q # vs)" using sC unfolding uv by (simp add: sorted_wrt_append)
    moreover have "bp < q" using highC \<open>q \<in> set ?C\<close> by blast
    ultimately have "free_walk m bp q = free_walk m bp base"
      using walk_above [of m "q # vs" base bp] lowA by simp
    then show ?thesis using below [of base] by simp
  qed
qed

text \<open>What freeing a block does to the list: it merges with the next block if they touch, and with
  the one before it.\<close>

definition merge_upper :: "blk \<Rightarrow> blk list \<Rightarrow> blk \<times> blk list" where
  "merge_upper b ys =
     (case ys of [] \<Rightarrow> (b, [])
      | c # ys' \<Rightarrow> if blk_end b = fst c then ((fst b, snd b + snd c), ys') else (b, ys))"

definition merge_lower :: "blk list \<Rightarrow> blk \<Rightarrow> blk list" where
  "merge_lower xs b =
     (if xs \<noteq> [] \<and> blk_end (last xs) = fst b then butlast xs @ [(fst (last xs), snd (last xs) + snd b)]
      else xs @ [b])"

definition insert_blk :: "blk list \<Rightarrow> blk \<Rightarrow> blk list \<Rightarrow> blk list" where
  "insert_blk xs b ys = merge_lower xs (fst (merge_upper b ys)) @ snd (merge_upper b ys)"

lemma space_simps [simp]: "space [] = {}" "space (b # bs) = {fst b..<blk_end b} \<union> space bs"
  "space (xs @ ys) = space xs \<union> space ys"
  by (auto simp: space_def)

lemma merge_upper_ok:
  assumes "spaced (blk_end b) ys hi" "0 < snd b" "merge_upper b ys = (b', ys')"
  shows "fst b' = fst b" "0 < snd b'" "spaced (blk_end b') ys' hi"
    "{fst b'..<blk_end b'} \<union> space ys' = {fst b..<blk_end b} \<union> space ys"
proof -
  have "fst b' = fst b \<and> 0 < snd b' \<and> spaced (blk_end b') ys' hi
    \<and> {fst b'..<blk_end b'} \<union> space ys' = {fst b..<blk_end b} \<union> space ys"
  proof (cases "ys \<noteq> [] \<and> blk_end b = fst (hd ys)")
    case True
    then obtain c where c: "ys = c # ys'" "b' = (fst b, snd b + snd c)" "blk_end b = fst c"
      using assms(3) by (cases ys) (auto simp: merge_upper_def)
    have e: "blk_end b' = blk_end c" using c(2,3) by (simp add: blk_end_def)
    have "{fst b..<blk_end c} = {fst b..<blk_end b} \<union> {fst c..<blk_end c}"
      using c(3) by (auto simp: blk_end_def)
    then show ?thesis using c assms(1,2) e by auto
  next
    case False
    then have "b' = b \<and> ys' = ys" using assms(3) by (auto simp: merge_upper_def split: list.splits)
    then show ?thesis using assms(1,2) by simp
  qed
  then show "fst b' = fst b" "0 < snd b'" "spaced (blk_end b') ys' hi"
    "{fst b'..<blk_end b'} \<union> space ys' = {fst b..<blk_end b} \<union> space ys" by blast+
qed

lemma merge_lower_ok:
  assumes "spaced lo xs (fst b)" "0 < snd b"
  shows "spaced lo (merge_lower xs b) (blk_end b)" "space (merge_lower xs b) = space (xs @ [b])"
proof -
  have "spaced lo (merge_lower xs b) (blk_end b) \<and> space (merge_lower xs b) = space (xs @ [b])"
  proof (cases "xs \<noteq> [] \<and> blk_end (last xs) = fst b")
    case True
    then obtain us c where xs: "xs = us @ [c]" "blk_end c = fst b" by (cases xs rule: rev_cases) auto
    then have m: "merge_lower xs b = us @ [(fst c, snd c + snd b)]" by (simp add: merge_lower_def)
    have "{fst c..<blk_end b} = {fst c..<blk_end c} \<union> {fst b..<blk_end b}"
      using xs(2) by (auto simp: blk_end_def)
    moreover have "spaced lo us (fst c) \<and> 0 < snd c" using assms(1) xs(1) by (simp add: spaced_split)
    moreover have "blk_end (fst c, snd c + snd b) = blk_end b" using xs(2) by (simp add: blk_end_def)
    ultimately show ?thesis unfolding m by (simp add: spaced_split xs(1))
  next
    case False
    then have "merge_lower xs b = xs @ [b]" by (auto simp: merge_lower_def)
    then show ?thesis using assms by (simp add: spaced_split)
  qed
  then show "spaced lo (merge_lower xs b) (blk_end b)" "space (merge_lower xs b) = space (xs @ [b])" by blast+
qed

lemma insert_blk_ok:
  assumes "spaced lo (xs @ b # ys) hi"
  shows "spaced lo (insert_blk xs b ys) hi" "space (insert_blk xs b ys) = space (xs @ b # ys)"
proof -
  obtain b' ys' where m: "merge_upper b ys = (b', ys')" by fastforce
  have s: "spaced lo xs (fst b)" "0 < snd b" "spaced (blk_end b) ys hi" using assms by (simp_all add: spaced_split)
  note U = merge_upper_ok [OF s(3,2) m]
  note L = merge_lower_ok [of lo xs b'] 
  show "spaced lo (insert_blk xs b ys) hi"
    using L(1) s(1) U(1-3) by (auto simp: insert_blk_def m spaced_append)
  show "space (insert_blk xs b ys) = space (xs @ b # ys)"
    using L(2) s(1) U by (simp add: insert_blk_def m Un_assoc)
qed

lemma hadd_small: "p + 8 * k < 2 ^ 32 \<Longrightarrow> hadd p k = p + 8 * k"
  by (simp add: hadd_def)

lemma join_upper_eq:
  assumes "linked m (p # map fst ys @ [base])" "\<forall>c \<in> set ys. m (fst c + 4) = snd c" "m (bp + 4) = k"
    and "p < bp" "base < bp" "0 < k" "spaced (bp + 8 * k) ys hi" "hi < 2 ^ 31"
    and "merge_upper (bp, k) ys = (b', ys')"
  shows "join_upper bp p m = m(bp + 4 := snd b', bp := hd (map fst ys' @ [base]))"
proof (cases ys)
  case Nil
  have "bp + 8 * k \<le> hi" using assms(7) Nil by simp
  then have "hadd bp k \<noteq> base" using assms(5,8) by (simp add: hadd_small)
  then show ?thesis using Nil assms by (auto simp: join_upper_def merge_upper_def)
next
  case (Cons c ys0)
  have le: "bp + 8 * k \<le> fst c" "blk_end c \<le> hi" using assms(7) Cons spaced_le by auto
  have mp: "m p = fst c" "m (fst c) = hd (map fst ys0 @ [base])" "m (fst c + 4) = snd c"
    using assms(1,2) Cons linked_Cons [of "map fst ys0 @ [base]" m "fst c"] by auto
  have h: "hadd bp k = bp + 8 * k" using le assms(8) by (simp add: hadd_small blk_end_def)
  show ?thesis
  proof (cases "bp + 8 * k = fst c")
    case True
    have "b' = (bp, k + snd c)" "ys' = ys0" using assms(9) Cons True by (auto simp: merge_upper_def blk_end_def)
    moreover have "k + snd c < 2 ^ 32" using True le assms(8) by (simp add: blk_end_def)
    ultimately show ?thesis
      using True mp h assms(3,4,6) by (auto simp: join_upper_def Let_def fun_upd_twist)
  next
    case False
    then have "b' = (bp, k)" "ys' = ys" using assms(9) Cons by (auto simp: merge_upper_def blk_end_def)
    then show ?thesis using False mp h assms(3) Cons by (auto simp: join_upper_def)
  qed
qed

lemma node_gaps:
  assumes "spaced (base + 8) (xs @ b # ys) hi" "base # map fst xs = N @ [p]"
  shows "\<forall>x \<in> set N. x + 8 \<le> p" "base \<le> p" "p + 8 \<le> fst b" "\<forall>c \<in> set ys. fst b + 8 \<le> fst c"
proof -
  have S: "spaced (base + 8) xs (fst b)" "0 < snd b" "spaced (blk_end b) ys hi"
    using assms(1) by (simp_all add: spaced_split)
  show "\<forall>c \<in> set ys. fst b + 8 \<le> fst c" using spaced_bounds [OF S(3)] S(2) by (fastforce simp: blk_end_def)
  have p: "p = last (base # map fst xs)" and N: "N = butlast (base # map fst xs)" using assms(2) by simp_all
  have "\<forall>x \<in> set (base # map fst xs). base \<le> x \<and> x + 8 \<le> fst b"
    using spaced_bounds [OF S(1)] spaced_le [OF S(1)] by (fastforce simp: blk_end_def)
  then show "base \<le> p" "p + 8 \<le> fst b" unfolding p using last_in_set [of "base # map fst xs"] by blast+
  show "\<forall>x \<in> set N. x + 8 \<le> p"
  proof (cases xs rule: rev_cases)
    case Nil
    then show ?thesis by (simp add: N)
  next
    case (snoc us c)
    then have "spaced (base + 8) us (fst c)" using S(1) by (simp add: spaced_split)
    from spaced_bounds [OF this] spaced_le [OF this] show ?thesis
      using snoc by (fastforce simp: N p blk_end_def butlast_append)
  qed
qed

lemma linked_extend:
  assumes "linked m (N @ [p])" "\<forall>x \<in> set N. m' x = m x" "linked m' (p # zs)"
  shows "linked m' (N @ p # zs)"
  using linked_frame [of "N @ [p]" m' m] linked_split [of m' N p zs] assms by simp

lemma linked_above:
  assumes "linked m (C @ [base])" "\<forall>x \<in> set C. m' x = m x"
  shows "linked m' (C @ [base])"
  using linked_frame [of "C @ [base]" m' m] assms by simp

text \<open>The state between the two merges: the new block is linked to what follows it, and its predecessor
  \<open>p\<close> still to what followed before.\<close>

definition half_linked :: "nat \<Rightarrow> (nat \<Rightarrow> nat) \<Rightarrow> blk list \<Rightarrow> blk \<Rightarrow> blk list \<Rightarrow> nat \<Rightarrow> bool" where
  "half_linked base m xs b ys hi \<longleftrightarrow>
     linked m (base # map fst xs) \<and> linked m (fst b # map fst ys @ [base])
     \<and> (\<forall>c \<in> set (xs @ b # ys). m (fst c + 4) = snd c) \<and> m (base + 4) = 0
     \<and> spaced (base + 8) (xs @ b # ys) hi \<and> hi < 2 ^ 31"

definition list_in :: "nat \<Rightarrow> (nat \<Rightarrow> nat) \<Rightarrow> blk list \<Rightarrow> bool" where
  "list_in base m fl \<longleftrightarrow> linked m (base # map fst fl @ [base]) \<and> (\<forall>c \<in> set fl. m (fst c + 4) = snd c)
     \<and> m (base + 4) = 0"

lemma header_apart:
  assumes "spaced (base + 8) (xs @ b # ys) hi" "base # map fst xs = N @ [p]" "c \<in> set (xs @ b # ys)" "fst c \<noteq> p"
  shows "fst c + 4 \<noteq> p" "fst c + 8 \<le> p \<or> p + 8 \<le> fst c"
proof -
  note G = node_gaps [OF assms(1,2)]
  have "fst c \<in> set N \<or> c = b \<or> c \<in> set ys"
    using assms(3,4) arg_cong [OF assms(2), of set] by auto
  then show "fst c + 8 \<le> p \<or> p + 8 \<le> fst c" using G by fastforce
  then show "fst c + 4 \<noteq> p" by auto
qed

lemma join_lower_links:
  assumes "half_linked base m xs b ys hi" "base # map fst xs = N @ [p]"
    and "xs = [] \<or> blk_end (last xs) \<noteq> fst b"
  shows "join_lower (fst b) p m = m(p := fst b)" "list_in base (m(p := fst b)) (xs @ b # ys)"
proof -
  have H: "linked m (base # map fst xs)" "linked m (fst b # map fst ys @ [base])"
    "\<forall>c \<in> set (xs @ b # ys). m (fst c + 4) = snd c" "m (base + 4) = 0"
    "spaced (base + 8) (xs @ b # ys) hi" "hi < 2 ^ 31" using assms(1) by (simp_all add: half_linked_def)
  note G = node_gaps [OF H(5) assms(2)]
  have S: "spaced (base + 8) xs (fst b)" "spaced (blk_end b) ys hi" using H(5) by (simp_all add: spaced_split)
  have b32: "fst b < 2 ^ 31" using spaced_le [OF S(2)] H(6) by (simp add: blk_end_def)
  have "hadd p (m (p + 4)) \<noteq> fst b"
  proof (cases xs rule: rev_cases)
    case Nil
    then have "p = base" using assms(2) by simp
    then show ?thesis using G H(4) b32 by (simp add: hadd_def)
  next
    case (snoc us c)
    then have "p = fst c" "m (p + 4) = snd c" using assms(2) H(3) by auto
    moreover have "blk_end c \<le> fst b" using spaced_bounds [OF S(1)] snoc by auto
    ultimately show ?thesis using assms(3) snoc b32 by (simp add: hadd_def blk_end_def)
  qed
  then show "join_lower (fst b) p m = m(p := fst b)" by (simp add: join_lower_def)
  let ?m = "m(p := fst b)"
  have "linked ?m ((fst b # map fst ys) @ [base])"
    by (rule linked_above [of m]) (use H(2) G(3,4) in auto)
  then have "linked ?m (p # fst b # map fst ys @ [base])" by simp
  moreover have "\<forall>x \<in> set N. ?m x = m x" using G(1) by fastforce
  ultimately have "linked ?m (N @ p # fst b # map fst ys @ [base])"
    using linked_extend [of m N p ?m] H(1) unfolding assms(2) by blast
  then have "linked ?m ((N @ [p]) @ fst b # map fst ys @ [base])" by simp
  moreover have "base \<in> set (N @ [p])" unfolding assms(2) [symmetric] by simp
  then have "base + 4 \<noteq> p" using G(1) by auto
  moreover have "fst c + 4 \<noteq> p" if "c \<in> set (xs @ b # ys)" for c
    using header_apart(1) [OF H(5) assms(2) that] by (cases "fst c = p") auto
  ultimately show "list_in base ?m (xs @ b # ys)"
    unfolding assms(2) [symmetric] using H(3,4) by (simp add: list_in_def)
qed

lemma join_lower_merges:
  assumes "half_linked base m (us @ [a]) b ys hi" "blk_end a = fst b"
  shows "\<exists>m'. join_lower (fst b) (fst a) m = m' \<and> list_in base m' (us @ (fst a, snd a + snd b) # ys)
    \<and> (\<forall>x. x \<notin> {fst a, fst a + 4} \<longrightarrow> m' x = m x)"
proof -
  let ?xs = "us @ [a]" and ?p = "fst a" and ?N = "base # map fst us"
  have H: "linked m (?N @ [?p])" "linked m (fst b # map fst ys @ [base])"
    "\<forall>c \<in> set (?xs @ b # ys). m (fst c + 4) = snd c" "m (base + 4) = 0"
    "spaced (base + 8) (?xs @ b # ys) hi" "hi < 2 ^ 31" using assms(1) by (simp_all add: half_linked_def)
  have e: "base # map fst ?xs = ?N @ [?p]" by simp
  note G = node_gaps [OF H(5) e]
  have "blk_end b \<le> hi" using H(5) spaced_le by (auto simp: spaced_split)
  then have lt: "snd a + snd b < 2 ^ 32" "fst b < 2 ^ 32" using H(6) assms(2) by (simp_all add: blk_end_def)
  define m' where "m' = m(?p + 4 := snd a + snd b, ?p := m (fst b))"
  have "join_lower (fst b) ?p m = m'"
    using lt assms(2) H(3) G(3) by (simp add: join_lower_def m'_def Let_def hadd_def blk_end_def)
  moreover have "list_in base m' (us @ (?p, snd a + snd b) # ys)"
  proof -
    have "linked m' (map fst ys @ [base])"
      by (rule linked_above [of m]) (use H(2) G(3,4) in \<open>auto simp: linked_Cons m'_def\<close>)
    then have "linked m' (?p # map fst ys @ [base])" using H(2) by (simp add: linked_Cons m'_def)
    moreover have "\<forall>x \<in> set ?N. m' x = m x" using G(1) by (fastforce simp: m'_def)
    ultimately have "linked m' (?N @ ?p # map fst ys @ [base])"
      using linked_extend [OF H(1)] by blast
    moreover have "m' (fst c + 4) = snd c" if "c \<in> set (us @ ys)" for c
    proof -
      have "fst c \<noteq> ?p" using that G by fastforce
      with header_apart [OF H(5) e, of c] that show ?thesis using H(3) by (auto simp: m'_def)
    qed
    ultimately show ?thesis using H(4) G(1) by (auto simp: list_in_def m'_def)
  qed
  ultimately show ?thesis by (auto simp: m'_def)
qed

lemma join_lower_ok:
  assumes "half_linked base m xs b ys hi"
  shows "\<exists>m'. join_lower (fst b) (last (base # map fst xs)) m = m' \<and> list_in base m' (merge_lower xs b @ ys)
    \<and> (\<forall>x. x \<notin> {last (base # map fst xs), last (base # map fst xs) + 4} \<longrightarrow> m' x = m x)"
proof (cases "xs \<noteq> [] \<and> blk_end (last xs) = fst b")
  case True
  then obtain us a where "xs = us @ [a]" "blk_end a = fst b" by (cases xs rule: rev_cases) auto
  then show ?thesis using join_lower_merges [of base m us a b ys hi] assms by (simp add: merge_lower_def)
next
  case False
  have e: "base # map fst xs = butlast (base # map fst xs) @ [last (base # map fst xs)]"
    by (metis append_butlast_last_id list.discI)
  have "merge_lower xs b = xs @ [b]" using False by (auto simp: merge_lower_def)
  then show ?thesis using join_lower_links [OF assms e] False by simp
qed

text \<open>Freeing a block that lies between \<open>xs\<close> and \<open>ys\<close>.\<close>

lemma ufree_ok:
  assumes rep: "heap_rep base h (xs @ ys)"
    and sp: "spaced (base + 8) (xs @ (bp, k) # ys) (ubrk h)" and sz: "um h (bp + 4) = k"
  shows "\<exists>m. ufree (bp + 8) h = Some (h\<lparr>um := m, freep := last (base # map fst xs)\<rparr>)
    \<and> heap_rep base (h\<lparr>um := m, freep := last (base # map fst xs)\<rparr>) (insert_blk xs (bp, k) ys)
    \<and> (\<forall>x. x \<notin> {bp, bp + 4} \<union> {last (base # map fst xs), last (base # map fst xs) + 4} \<longrightarrow> m x = um h x)"
proof -
  define p where "p = last (base # map fst xs)"
  obtain N where Np: "base # map fst xs = N @ [p]"
    unfolding p_def by (metis append_butlast_last_id list.discI)
  have R: "linked (um h) (base # map fst (xs @ ys) @ [base])" "um h (base + 4) = 0"
    "\<forall>b \<in> set (xs @ ys). um h (fst b + 4) = snd b" "freep h \<in> set (base # map fst (xs @ ys))"
    "0 < base" "ubrk h < 2 ^ 31" using rep by (simp_all add: heap_rep_def)
  have S: "spaced (base + 8) xs bp" "0 < k" "spaced (bp + 8 * k) ys (ubrk h)"
    using sp by (simp_all add: spaced_split blk_end_def)
  note G = node_gaps [OF sp Np, simplified]
  have "linked (um h) ((base # map fst xs) @ map fst ys @ [base])" using R(1) by simp
  then have "linked (um h) (N @ p # map fst ys @ [base])" unfolding Np by simp
  then have ln: "linked (um h) (N @ [p])" "linked (um h) (p # map fst ys @ [base])"
    using linked_split [of "um h" N p "map fst ys @ [base]"] by blast+
  obtain b' ys' where mu: "merge_upper (bp, k) ys = (b', ys')" by fastforce
  have "spaced (blk_end (bp, k)) ys (ubrk h)" using S(3) by (simp add: blk_end_def)
  note U = merge_upper_ok [OF this _ mu, simplified, OF S(2)]
  have ys': "set ys' \<subseteq> set ys" using mu by (auto simp: merge_upper_def split: list.splits if_splits)
  define m1 where "m1 = (um h)(bp + 4 := snd b', bp := hd (map fst ys' @ [base]))"
  have ju: "join_upper bp p (um h) = m1"
    unfolding m1_def using join_upper_eq [OF ln(2) _ sz _ _ S(2,3) R(6) mu] R(3) G by auto
  have "half_linked base m1 xs b' ys' (ubrk h)"
  proof -
    have "linked (um h) (map fst ys' @ [base])"
      using ln(2) mu by (cases ys) (auto simp: merge_upper_def linked_Cons split: if_splits)
    then have "linked m1 (map fst ys' @ [base])"
      by (rule linked_above) (use G(4) ys' in \<open>fastforce simp: m1_def\<close>)
    then have "linked m1 (fst b' # map fst ys' @ [base])" by (simp add: linked_Cons m1_def U(1))
    moreover have "linked m1 (N @ [p])"
      using ln(1) linked_frame [of "N @ [p]" m1 "um h"] G by (fastforce simp: m1_def)
    moreover have "\<forall>c \<in> set (xs @ ys'). m1 (fst c + 4) = snd c"
    proof
      fix c assume c: "c \<in> set (xs @ ys')"
      then have "fst c \<in> set (N @ [p]) \<or> c \<in> set ys" unfolding Np [symmetric] using ys' by auto
      then have "fst c + 8 \<le> bp \<or> bp + 8 \<le> fst c" using G by fastforce
      then show "m1 (fst c + 4) = snd c" using R(3) c ys' by (auto simp: m1_def)
    qed
    moreover have "spaced (base + 8) (xs @ b' # ys') (ubrk h)" using S U by (simp add: spaced_split)
    ultimately show ?thesis
      unfolding half_linked_def Np [symmetric] using R(2,6) G U(1) by (auto simp: m1_def)
  qed
  from join_lower_ok [OF this, folded p_def] obtain m2 where
    m2: "join_lower bp p m1 = m2" "list_in base m2 (merge_lower xs b' @ ys')" "\<forall>x. x \<notin> {p, p + 4} \<longrightarrow> m2 x = m1 x"
    using U(1) by auto
  have ins: "insert_blk xs (bp, k) ys = merge_lower xs b' @ ys'" by (simp add: insert_blk_def mu)
  have "free_walk (um h) bp (freep h) = Some p"
    unfolding p_def by (rule free_walk_finds [OF R(1) sp R(4)])
  moreover have "bp < 4294967296" using spaced_le [OF S(3)] R(6) by simp
  ultimately have "ufree (bp + 8) h = Some (h\<lparr>um := m2, freep := p\<rparr>)" by (simp add: ufree_def ju m2(1) Let_def)
  moreover have "p \<in> set (base # map fst (merge_lower xs b' @ ys'))"
    unfolding p_def by (cases xs rule: rev_cases) (auto simp: merge_lower_def)
  ultimately show ?thesis
    unfolding p_def [symmetric] ins using m2(2,3) R(5,6) insert_blk_ok(1) [OF sp] ins
    by (intro exI [of _ m2]) (auto simp: heap_rep_def list_in_def m1_def)
qed

subsection \<open>Allocating\<close>

lemma linked_nth: "linked m xs \<Longrightarrow> Suc i < length xs \<Longrightarrow> m (xs ! i) = xs ! Suc i"
proof (induction m xs arbitrary: i rule: linked.induct)
  case (1 m x y zs)
  then show ?case by (cases i) auto
qed simp_all

lemma nodes_distinct: "spaced (base + 8) fl hi \<Longrightarrow> distinct (base # map fst fl)"
  using spaced_sorted [of "base + 8" fl hi] spaced_bounds [of "base + 8" fl hi]
  by (fastforce simp: strict_sorted_iff)

text \<open>A header on the list has one predecessor.\<close>

lemma predecessor:
  assumes "linked m (base # map fst (xs @ b # ys) @ [base])" "spaced (base + 8) (xs @ b # ys) hi"
    and "q \<in> set (base # map fst (xs @ b # ys))" "m q = fst b"
  shows "q = last (base # map fst xs)"
proof -
  define V where "V = base # map fst (xs @ b # ys)"
  have d: "distinct V" unfolding V_def by (rule nodes_distinct [OF assms(2)])
  have l: "linked m (V @ [base])" using assms(1) by (simp add: V_def)
  obtain i where i: "i < length V" "V ! i = q" using assms(3) unfolding V_def [symmetric] by (metis in_set_conv_nth)
  have mq: "m q = (V @ [base]) ! Suc i"
    using linked_nth [OF l, of i] i by (simp add: nth_append)
  have b: "V ! Suc (length xs) = fst b" "Suc (length xs) < length V" "V ! length xs = last (base # map fst xs)"
    by (simp_all add: V_def nth_append, cases xs rule: rev_cases, auto simp: nth_append)
  show ?thesis
  proof (cases "Suc i < length V")
    case True
    then have "V ! Suc i = V ! Suc (length xs)" using mq assms(4) b by (simp add: nth_append)
    then have "i = length xs" using nth_eq_iff_index_eq [OF d True b(2)] by simp
    then show ?thesis using i(2) b(3) by simp
  next
    case False
    then have "m q = base" using mq i(1) by (simp add: nth_append not_less less_Suc_eq_le)
    then show ?thesis using assms(4) d by (auto simp: V_def)
  qed
qed

text \<open>The blocks left and the block taken when \<open>n\<close> units are cut from the end of a free block.\<close>

definition taken :: "blk list \<Rightarrow> blk \<Rightarrow> blk list \<Rightarrow> nat \<Rightarrow> blk list \<times> blk" where
  "taken xs b ys n =
     (if snd b = n then xs @ ys else xs @ (fst b, snd b - n) # ys, (fst b + 8 * (snd b - n), n))"

lemma taken_ok:
  assumes "spaced lo (xs @ b # ys) hi" "n \<le> snd b" "0 < n" "taken xs b ys n = (fl, t)"
  shows "spaced lo fl hi" "fst b \<le> fst t" "blk_end t = blk_end b" "snd t = n"
    "space fl = space (xs @ b # ys) - {fst t..<blk_end t}"
proof -
  have S: "spaced lo xs (fst b)" "0 < snd b" "spaced (blk_end b) ys hi" using assms(1) by (simp_all add: spaced_split)
  have t: "t = (fst b + 8 * (snd b - n), n)" using assms(4) by (simp add: taken_def)
  show "fst b \<le> fst t" "snd t = n" by (simp_all add: t)
  show e: "blk_end t = blk_end b" using assms(2) by (simp add: t blk_end_def)
  have out: "x \<notin> {fst t..<blk_end t}" if x: "x \<in> space (xs @ ys)" for x
  proof -
    obtain c where c: "c \<in> set (xs @ ys)" "fst c \<le> x" "x < blk_end c"
      using x unfolding space_def by fastforce
    then show ?thesis
      using spaced_bounds [OF S(1), of c] spaced_bounds [OF S(3), of c] e t by auto
  qed
  have "spaced lo fl hi \<and> space fl = space (xs @ b # ys) - {fst t..<blk_end t}"
  proof (cases "snd b = n")
    case True
    then have fl: "fl = xs @ ys" "fst t = fst b" using assms(4) by (auto simp: taken_def)
    have "blk_end b \<ge> fst b" by (simp add: blk_end_def)
    then have "spaced lo fl hi" using S by (auto simp: fl spaced_append intro: spaced_mono)
    moreover have "space fl = space (xs @ b # ys) - {fst t..<blk_end t}"
      using out e fl by auto
    ultimately show ?thesis by blast
  next
    case False
    then have fl: "fl = xs @ (fst b, snd b - n) # ys" using assms(4) by (auto simp: taken_def)
    have c: "blk_end (fst b, snd b - n) = fst t" by (simp add: blk_end_def t)
    have "spaced lo fl hi"
      using S assms(2) False c \<open>fst b \<le> fst t\<close> e
      by (auto simp: fl spaced_split t blk_end_def intro: spaced_mono)
    moreover have "fst t \<le> blk_end b" using e by (simp add: blk_end_def)
    then have "{fst b..<blk_end b} - {fst t..<blk_end t} = {fst b..<fst t}" using e \<open>fst b \<le> fst t\<close> by auto
    then have "space fl = space (xs @ b # ys) - {fst t..<blk_end t}"
      using out c by (auto simp: fl)
    ultimately show ?thesis by blast
  qed
  then show "spaced lo fl hi" "space fl = space (xs @ b # ys) - {fst t..<blk_end t}" by blast+
qed

lemma outside_block:
  assumes "spaced (base + 8) (xs @ b # ys) hi" "c \<in> set (xs @ ys)"
  shows "fst c + 8 \<le> fst b \<or> blk_end b \<le> fst c"
proof -
  have S: "spaced (base + 8) xs (fst b)" "spaced (blk_end b) ys hi" using assms(1) by (simp_all add: spaced_split)
  then show ?thesis
    using spaced_bounds [OF S(1), of c] spaced_bounds [OF S(2), of c] assms(2) by (auto simp: blk_end_def)
qed

lemma unlink_list:
  assumes "list_in base m (xs @ b # ys)" "spaced (base + 8) (xs @ b # ys) hi" "base # map fst xs = N @ [p]"
  shows "list_in base (m(p := m (fst b))) (xs @ ys)"
proof -
  let ?m = "m(p := m (fst b))"
  note G = node_gaps [OF assms(2,3)]
  have "linked m ((base # map fst xs) @ fst b # map fst ys @ [base])" using assms(1) by (simp add: list_in_def)
  then have l: "linked m (N @ p # fst b # map fst ys @ [base])" unfolding assms(3) by simp
  then have l1: "linked m (N @ [p])" "linked m (fst b # map fst ys @ [base])"
    using linked_split [of m N p "fst b # map fst ys @ [base]"] linked.simps(1) by blast+
  have "linked ?m (map fst ys @ [base])"
    by (rule linked_above [of m]) (use l1(2) G(3,4) in \<open>auto simp: linked_Cons\<close>)
  then have "linked ?m (p # map fst ys @ [base])" using l1(2) by (simp add: linked_Cons)
  moreover have "\<forall>x \<in> set N. ?m x = m x" using G(1) by auto
  ultimately have "linked ?m (N @ p # map fst ys @ [base])" using linked_extend [OF l1(1)] by blast
  then have "linked ?m ((N @ [p]) @ map fst ys @ [base])" by simp
  moreover have "fst c + 4 \<noteq> p" if "c \<in> set (xs @ ys)" for c
    using header_apart(1) [OF assms(2,3), of c] that by (cases "fst c = p") auto
  moreover have "base \<in> set (N @ [p])" unfolding assms(3) [symmetric] by simp
  then have "base + 4 \<noteq> p" using G(1) by auto
  ultimately show ?thesis unfolding assms(3) [symmetric] using assms(1) by (simp add: list_in_def)
qed

lemma shrink_list:
  assumes "list_in base m (xs @ b # ys)" "spaced (base + 8) (xs @ b # ys) hi" "n < snd b" "0 < n"
  shows "list_in base (m(fst b + 4 := snd b - n, fst b + 8 * (snd b - n) + 4 := n)) (xs @ (fst b, snd b - n) # ys)"
proof -
  let ?q = "fst b + 8 * (snd b - n)"
  let ?m = "m(fst b + 4 := snd b - n, ?q + 4 := n)"
  have q: "fst b + 8 \<le> ?q" "?q + 8 \<le> blk_end b" using assms(3,4) by (auto simp: blk_end_def)
  have base: "base + 8 \<le> fst b" using spaced_bounds [OF assms(2), of b] by simp
  note O = outside_block [OF assms(2)]
  have same: "?m (fst c) = m (fst c)" if "c \<in> set (xs @ b # ys)" for c
    using O [of c] q that by (cases "c = b") auto
  have size: "?m (fst c + 4) = m (fst c + 4)" if "c \<in> set (xs @ ys)" for c
    using O [OF that] q by auto
  have "\<forall>x \<in> set (butlast (base # map fst (xs @ b # ys) @ [base])). ?m x = m x"
  proof
    fix x assume "x \<in> set (butlast (base # map fst (xs @ b # ys) @ [base]))"
    then have "x = base \<or> (\<exists>c \<in> set (xs @ b # ys). x = fst c)" by (auto simp: butlast_append)
    then show "?m x = m x" using same base q(1) by (elim disjE bexE) simp_all
  qed
  from linked_frame [OF this] have "linked ?m (base # map fst (xs @ b # ys) @ [base])"
    using assms(1) by (simp only: list_in_def)
  moreover have "?m (base + 4) = 0" using base q assms(1) by (simp add: list_in_def)
  ultimately show ?thesis using assms(1) size q by (auto simp: list_in_def)
qed

lemma malloc_take:
  assumes rep: "heap_rep base h (xs @ b # ys)" and n: "n \<le> snd b" "0 < n"
    and p: "prevp = last (base # map fst xs)" and t: "taken xs b ys n = (fl, t)"
  shows "\<exists>m. malloc_loop room n prevp (fst b) h = Some (fst t + 8, h\<lparr>um := m, freep := prevp\<rparr>)
    \<and> heap_rep base (h\<lparr>um := m, freep := prevp\<rparr>) fl \<and> m (fst t + 4) = n
    \<and> (\<forall>x. x \<notin> {prevp, fst b + 4, fst t + 4} \<longrightarrow> m x = um h x)"
proof -
  have R: "linked (um h) (base # map fst (xs @ b # ys) @ [base])" "um h (base + 4) = 0"
    "\<forall>b \<in> set (xs @ b # ys). um h (fst b + 4) = snd b"
    "0 < base" "spaced (base + 8) (xs @ b # ys) (ubrk h)" "ubrk h < 2 ^ 31" using rep by (simp_all add: heap_rep_def)
  have L: "list_in base (um h) (xs @ b # ys)" using R(1-3) by (simp add: list_in_def)
  note T = taken_ok [OF R(5) n t]
  have "blk_end b \<le> ubrk h" using spaced_bounds [OF R(5), of b] by simp
  then have lt: "fst t + 8 < 2 ^ 32" using T(3,4) n R(6) by (simp add: blk_end_def)
  obtain N where N: "base # map fst xs = N @ [prevp]" unfolding p by (metis append_butlast_last_id list.discI)
  note G = node_gaps [OF R(5) N]
  have mem: "prevp \<in> set (base # map fst fl)"
  proof -
    have "prevp \<in> set (base # map fst xs)" unfolding p by (rule last_in_set) simp
    then show ?thesis using t by (auto simp: taken_def split: if_splits)
  qed
  show ?thesis
  proof (cases "snd b = n")
    case True
    define m where "m = (um h)(prevp := um h (fst b))"
    have fl: "fl = xs @ ys" "fst t = fst b" using t True by (auto simp: taken_def)
    have "malloc_loop room n prevp (fst b) h = Some (fst t + 8, h\<lparr>um := m, freep := prevp\<rparr>)"
      using True R(3) lt fl by (subst malloc_loop.simps) (simp add: m_def)
    moreover have "list_in base m fl" unfolding m_def fl by (rule unlink_list [OF L R(5) N])
    ultimately show ?thesis using T(1) R(3,4,6) mem G(3) True fl
      by (intro exI [of _ m]) (auto simp: heap_rep_def list_in_def m_def)
  next
    case False
    define m where "m = (um h)(fst b + 4 := snd b - n, fst t + 4 := n)"
    have fl: "fl = xs @ (fst b, snd b - n) # ys" "fst t = fst b + 8 * (snd b - n)"
      using t False by (auto simp: taken_def)
    have "hadd (fst b) (snd b - n) = fst t" using lt fl by (simp add: hadd_def)
    then have "malloc_loop room n prevp (fst b) h = Some (fst t + 8, h\<lparr>um := m, freep := prevp\<rparr>)"
      using False R(3) lt n by (subst malloc_loop.simps) (simp add: m_def Let_def)
    moreover have "list_in base m fl"
      unfolding m_def fl by (rule shrink_list [OF L R(5)]) (use n False in auto)
    ultimately show ?thesis using T(1) R(4,6) mem
      by (intro exI [of _ m]) (auto simp: heap_rep_def list_in_def m_def)
  qed
qed

text \<open>The search goes on from header to header until one is large enough or it is back at \<^verbatim>\<open>freep\<close>.\<close>

lemma malloc_scan:
  assumes "linked (um h) (prev # ps @ [freep h])" "freep h \<notin> set ps"
  shows "\<exists>q p. malloc_loop room n prev (um h prev) h = malloc_loop room n q p h \<and> um h q = p
    \<and> q \<in> set (prev # ps) \<and> p \<in> set (ps @ [freep h])
    \<and> (n \<le> um h (p + 4) \<or> p = freep h \<and> (\<forall>x \<in> set (ps @ [freep h]). um h (x + 4) < n))"
  using assms
proof (induction ps arbitrary: prev)
  case Nil
  show ?case by (intro exI [of _ prev] exI [of _ "um h prev"]) (use Nil in auto)
next
  case (Cons x ps)
  show ?case
  proof (cases "n \<le> um h (x + 4)")
    case True
    then show ?thesis using Cons.prems by (intro exI [of _ prev] exI [of _ x]) auto
  next
    case False
    have x: "um h prev = x" "x \<noteq> freep h" using Cons.prems by auto
    have "malloc_loop room n prev x h = malloc_loop room n x (um h x) h"
      using False x(2) by (subst malloc_loop.simps) simp
    moreover obtain q p where "malloc_loop room n x (um h x) h = malloc_loop room n q p h" "um h q = p"
      "q \<in> set (x # ps)" "p \<in> set (ps @ [freep h])"
      "n \<le> um h (p + 4) \<or> p = freep h \<and> (\<forall>x \<in> set (ps @ [freep h]). um h (x + 4) < n)"
      using Cons.IH [of x] Cons.prems by auto
    ultimately show ?thesis using False x(1) by (intro exI [of _ q] exI [of _ p]) auto
  qed
qed

text \<open>The list read from \<^verbatim>\<open>freep\<close> around to \<^verbatim>\<open>freep\<close>.\<close>

lemma rotate_list:
  assumes "heap_rep base h fl"
  shows "\<exists>ps. linked (um h) (freep h # ps @ [freep h]) \<and> freep h \<notin> set ps
    \<and> set (freep h # ps) = set (base # map fst fl)"
proof -
  have R: "linked (um h) (base # map fst fl @ [base])" "freep h \<in> set (base # map fst fl)"
    "spaced (base + 8) fl (ubrk h)" using assms by (simp_all add: heap_rep_def)
  have d: "distinct (base # map fst fl)" by (rule nodes_distinct [OF R(3)])
  show ?thesis
  proof (cases "freep h = base")
    case True
    then show ?thesis using R(1) d by (intro exI [of _ "map fst fl"]) auto
  next
    case False
    then obtain us vs where uv: "map fst fl = us @ freep h # vs" using R(2) by (metis set_ConsD split_list)
    have "linked (um h) ((base # us) @ freep h # vs @ [base])" using R(1) uv by simp
    then have l: "linked (um h) (base # us @ [freep h])" "linked (um h) (freep h # vs @ [base])"
      using linked_split [of "um h" "base # us" "freep h" "vs @ [base]"] by simp_all
    have "linked (um h) ((freep h # vs) @ base # us @ [freep h])"
      using l linked_split [of "um h" "freep h # vs" base "us @ [freep h]"] by simp
    then have "linked (um h) (freep h # (vs @ base # us) @ [freep h])" by simp
    moreover have "freep h \<notin> set (vs @ base # us)" using d uv False by auto
    moreover have "set (freep h # vs @ base # us) = set (base # map fst fl)" using uv by auto
    ultimately show ?thesis by blast
  qed
qed

lemma heap_repD:
  assumes "heap_rep base h fl"
  shows "linked (um h) (base # map fst fl @ [base])" "um h (base + 4) = 0"
    "\<forall>b \<in> set fl. um h (fst b + 4) = snd b" "freep h \<in> set (base # map fst fl)" "0 < base"
    "spaced (base + 8) fl (ubrk h)" "ubrk h < 2 ^ 31" "0 < freep h"
proof -
  show R: "linked (um h) (base # map fst fl @ [base])" "um h (base + 4) = 0"
    "\<forall>b \<in> set fl. um h (fst b + 4) = snd b" "freep h \<in> set (base # map fst fl)" "0 < base"
    "spaced (base + 8) fl (ubrk h)" "ubrk h < 2 ^ 31" using assms by (simp_all add: heap_rep_def)
  have "base \<le> x" if "x \<in> set (base # map fst fl)" for x
    using that spaced_bounds [OF R(6)] by fastforce
  then show "0 < freep h" using R(4,5) by fastforce
qed

text \<open>A search that starts at \<^verbatim>\<open>freep\<close> takes a large enough block when there is one, and otherwise ends at
  \<^verbatim>\<open>freep\<close> with no block large enough.\<close>

lemma malloc_search:
  assumes rep: "heap_rep base h fl" and n: "0 < n"
  obtains (found) xs b ys where "fl = xs @ b # ys" "n \<le> snd b"
      "malloc_loop room n (freep h) (um h (freep h)) h = malloc_loop room n (last (base # map fst xs)) (fst b) h"
    | (none) q where "\<forall>b \<in> set fl. snd b < n"
      "malloc_loop room n (freep h) (um h (freep h)) h = malloc_loop room n q (freep h) h"
proof -
  note R = heap_repD [OF rep]
  obtain ps where ps: "linked (um h) (freep h # ps @ [freep h])" "freep h \<notin> set ps"
    "set (freep h # ps) = set (base # map fst fl)" using rotate_list [OF rep] by blast
  obtain q p where s: "malloc_loop room n (freep h) (um h (freep h)) h = malloc_loop room n q p h" "um h q = p"
    "q \<in> set (freep h # ps)" "p \<in> set (ps @ [freep h])"
    "n \<le> um h (p + 4) \<or> p = freep h \<and> (\<forall>x \<in> set (ps @ [freep h]). um h (x + 4) < n)"
    using malloc_scan [OF ps(1,2)] by blast
  show thesis
  proof (cases "n \<le> um h (p + 4)")
    case True
    then have "p \<noteq> base" using R(2) n by auto
    moreover have "p \<in> set (base # map fst fl)" using s(4) ps(3) by auto
    ultimately obtain b where b: "b \<in> set fl" "p = fst b" by auto
    then obtain xs ys where fl: "fl = xs @ b # ys" by (meson split_list)
    have "q = last (base # map fst xs)"
      by (rule predecessor [of "um h" base xs b ys "ubrk h"]) (use R(1,6) fl s(2,3) ps(3) b(2) in auto)
    then show thesis using found [OF fl] s(1) True R(3) b by simp
  next
    case False
    then have "p = freep h" "\<forall>x \<in> set (freep h # ps). um h (x + 4) < n" using s(5) by auto
    then have "p = freep h" "\<forall>x \<in> set (base # map fst fl). um h (x + 4) < n" unfolding ps(3) by blast+
    then show thesis using none [of q] s(1) R(3) by simp
  qed
qed

text \<open>The words an operation leaves alone: those outside the static header, the free blocks and the
  memory above the old end.\<close>

definition left_alone :: "nat \<Rightarrow> blk list \<Rightarrow> uheap \<Rightarrow> uheap \<Rightarrow> bool" where
  "left_alone base fl h h' \<longleftrightarrow>
     (\<forall>x. x \<notin> {base..<base + 8} \<union> space fl \<union> {ubrk h..} \<longrightarrow> um h' x = um h x)"

lemma left_aloneI:
  assumes "\<forall>x. x \<notin> A \<longrightarrow> um h' x = um h x" "A \<subseteq> {base..<base + 8} \<union> space fl \<union> {ubrk h..}"
  shows "left_alone base fl h h'"
  using assms unfolding left_alone_def by blast

lemma left_alone_trans:
  assumes "left_alone base fl h h1" "left_alone base fl1 h1 h2" "ubrk h \<le> ubrk h1"
    "space fl1 \<subseteq> space fl \<union> {ubrk h..}"
  shows "left_alone base fl h h2"
proof -
  have "um h2 x = um h x" if "x \<notin> {base..<base + 8} \<union> space fl \<union> {ubrk h..}" for x
  proof -
    have "x \<notin> {base..<base + 8} \<union> space fl1 \<union> {ubrk h1..}" using that assms(3,4) by auto
    then show ?thesis using that assms(1,2) by (simp add: left_alone_def)
  qed
  then show ?thesis by (simp add: left_alone_def)
qed

lemma header_in_space:
  assumes "spaced (base + 8) fl hi" "p \<in> set (base # map fst fl)"
  shows "{p, p + 4} \<subseteq> {base..<base + 8} \<union> space fl"
proof (cases "p = base")
  case False
  then obtain b where b: "b \<in> set fl" "p = fst b" using assms(2) by auto
  then have "p + 8 \<le> blk_end b" using spaced_bounds [OF assms(1), of b] by (simp add: blk_end_def)
  then show ?thesis using b by (fastforce simp: space_def)
qed simp

lemma morecore_ok:
  assumes rep: "heap_rep base h fl" and nu: "nu = max n 4096" "nu * 8 < 2 ^ 31"
  shows "if ubrk h + nu * 8 < 2 ^ 31 \<and> room (ubrk h + nu * 8)
    then \<exists>h'. morecore room n h = Some (freep h', h') \<and> heap_rep base h' (insert_blk fl (ubrk h, nu) [])
      \<and> ubrk h' = ubrk h + nu * 8 \<and> left_alone base fl h h'
    else morecore room n h = Some (0, h)"
proof (cases "ubrk h + nu * 8 < 2 ^ 31 \<and> room (ubrk h + nu * 8)")
  case False
  have "nu = (if n < 4096 then 4096 else n)" "0 < nu" using nu(1) by auto
  then show ?thesis using False nu(2) by (auto simp: morecore_def usbrk_def)
next
  case True
  note R = heap_repD [OF rep]
  let ?b = "ubrk h" and ?p = "last (base # map fst fl)"
  let ?h = "h\<lparr>um := (um h)(ubrk h + 4 := nu), ubrk := ubrk h + nu * 8\<rparr>"
  have nu': "nu = (if n < 4096 then 4096 else n)" "0 < nu" using nu(1) by auto
  have out: "x + 8 \<le> ?b" if "x \<in> set (base # map fst fl)" for x
    using that spaced_bounds [OF R(6)] spaced_le [OF R(6)] by (fastforce simp: blk_end_def)
  have sp: "spaced (base + 8) (fl @ (?b, nu) # []) (ubrk ?h)"
    using R(6) nu'(2) by (simp add: spaced_split blk_end_def)
  have "\<forall>x \<in> set (butlast (base # map fst fl @ [base])). um ?h x = um h x"
  proof
    fix x assume "x \<in> set (butlast (base # map fst fl @ [base]))"
    then have "x + 8 \<le> ?b" using out [of x] by (auto simp: butlast_append)
    then show "um ?h x = um h x" by simp
  qed
  from linked_frame [OF this] have l: "linked (um ?h) (base # map fst fl @ [base])" using R(1) by (simp only:)
  have "um ?h (x + 4) = um h (x + 4)" if "x \<in> set (base # map fst fl)" for x using out [OF that] by simp
  then have "um ?h (base + 4) = 0" "\<forall>b \<in> set fl. um ?h (fst b + 4) = snd b" using R(2,3) by auto
  then have "heap_rep base ?h (fl @ [])"
    using l R(4,5) True spaced_mono [OF R(6), of "base + 8" "ubrk ?h"] by (simp add: heap_rep_def)
  from ufree_ok [OF this sp] obtain m where
    m: "ufree (?b + 8) ?h = Some (?h\<lparr>um := m, freep := ?p\<rparr>)"
      "heap_rep base (?h\<lparr>um := m, freep := ?p\<rparr>) (insert_blk fl (?b, nu) [])"
      "\<forall>x. x \<notin> {?b, ?b + 4} \<union> {?p, ?p + 4} \<longrightarrow> m x = um ?h x" by auto
  let ?h' = "?h\<lparr>um := m, freep := ?p\<rparr>"
  have "usbrk room (nu * 8 mod 2 ^ 32) ?b = (?b, ?b + nu * 8)"
    using True nu(2) nu'(2) by (simp add: usbrk_def)
  moreover have "?b + nu * 8 \<le> (?b + nu * 8 + 4095) div 4096 * 4096" by (simp add: mult.commute)
  then have "\<not> (?b + nu * 8 + 4095) div 4096 * 4096 < ?b + 8" using nu'(2) by simp
  ultimately have "morecore room n h = Some (freep ?h', ?h')"
    using True m(1) by (simp add: morecore_def nu'(1) [symmetric] R(7))
  moreover have "{?p, ?p + 4} \<subseteq> {base..<base + 8} \<union> space fl"
    by (rule header_in_space [OF R(6) last_in_set]) simp
  then have "{?b, ?b + 4} \<union> {?p, ?p + 4} \<subseteq> {base..<base + 8} \<union> space fl \<union> {ubrk h..}" by auto
  then have "left_alone base fl h ?h'"
    by (rule left_aloneI [rotated]) (use m(3) in \<open>simp del: last.simps\<close>)
  ultimately show ?thesis using True m(2) by (intro if_P [THEN iffD2]) auto
qed

text \<open>A successful allocation: block \<open>t\<close> of \<open>n\<close> units has been cut out of what was free or has been
  added to the process; the rest is free.\<close>

definition allocated :: "nat \<Rightarrow> blk list \<Rightarrow> uheap \<Rightarrow> nat \<Rightarrow> blk \<Rightarrow> blk list \<Rightarrow> uheap \<Rightarrow> bool" where
  "allocated base fl h n t fl' h' \<longleftrightarrow>
     heap_rep base h' fl' \<and> um h' (fst t + 4) = n \<and> snd t = n \<and> ubrk h \<le> ubrk h'
     \<and> base + 8 \<le> fst t \<and> blk_end t \<le> ubrk h'
     \<and> {fst t..<blk_end t} \<subseteq> space fl \<union> {ubrk h..<ubrk h'}
     \<and> space fl' = (space fl \<union> {ubrk h..<ubrk h'}) - {fst t..<blk_end t}
     \<and> left_alone base fl h h'"

lemma malloc_found:
  assumes rep: "heap_rep base h (xs @ b # ys)" and n: "n \<le> snd b" "0 < n"
  shows "\<exists>t fl' h'. malloc_loop room n (last (base # map fst xs)) (fst b) h = Some (fst t + 8, h')
    \<and> allocated base (xs @ b # ys) h n t fl' h' \<and> ubrk h' = ubrk h"
proof -
  note R = heap_repD [OF rep]
  let ?p = "last (base # map fst xs)"
  obtain fl' t where t: "taken xs b ys n = (fl', t)" by (cases "taken xs b ys n")
  note T = taken_ok [OF R(6) n t]
  obtain m where m: "malloc_loop room n ?p (fst b) h = Some (fst t + 8, h\<lparr>um := m, freep := ?p\<rparr>)"
    "heap_rep base (h\<lparr>um := m, freep := ?p\<rparr>) fl'" "m (fst t + 4) = n"
    "\<forall>x. x \<notin> {?p, fst b + 4, fst t + 4} \<longrightarrow> m x = um h x"
    using malloc_take [OF rep n refl t] by blast
  let ?h' = "h\<lparr>um := m, freep := ?p\<rparr>"
  have b: "base + 8 \<le> fst b" "blk_end b \<le> ubrk h" using spaced_bounds [OF R(6), of b] by auto
  have tb: "{fst t..<blk_end t} \<subseteq> space (xs @ b # ys)" using T(2,3) by auto
  have "set (base # map fst xs) \<subseteq> set (base # map fst (xs @ b # ys))" by auto
  moreover have "?p \<in> set (base # map fst xs)" by (rule last_in_set) simp
  ultimately have "?p \<in> set (base # map fst (xs @ b # ys))" by blast
  then have "{?p, ?p + 4} \<subseteq> {base..<base + 8} \<union> space (xs @ b # ys)" by (rule header_in_space [OF R(6)])
  moreover have "{fst b, fst b + 4} \<subseteq> {base..<base + 8} \<union> space (xs @ b # ys)"
    by (rule header_in_space [OF R(6)]) simp
  moreover have "fst t + 4 \<in> {fst t..<blk_end t}" using T(4) n(2) by (auto simp: blk_end_def)
  ultimately have "{?p, fst b + 4, fst t + 4} \<subseteq> {base..<base + 8} \<union> space (xs @ b # ys) \<union> {ubrk h..}"
    using tb by blast
  then have "left_alone base (xs @ b # ys) h ?h'"
    by (rule left_aloneI [rotated]) (use m(4) in \<open>simp del: last.simps\<close>)
  then have "allocated base (xs @ b # ys) h n t fl' ?h'"
    using m(2,3) T b tb by (simp add: allocated_def)
  then show ?thesis using m(1) by (intro exI conjI) (assumption | simp)+
qed

lemma insert_large: "\<exists>c \<in> set (insert_blk fl (a, nu) []). nu \<le> snd c"
  by (simp add: insert_blk_def merge_upper_def merge_lower_def)

lemma malloc_ok:
  assumes rep: "heap_rep base h fl" and n: "0 < n" "max n 4096 * 8 < 2 ^ 31"
  obtains (fail) "malloc_loop room n (freep h) (um h (freep h)) h = Some (0, h)" "\<forall>b \<in> set fl. snd b < n"
      "\<not> (ubrk h + max n 4096 * 8 < 2 ^ 31 \<and> room (ubrk h + max n 4096 * 8))"
    | (got) t fl' h' where "malloc_loop room n (freep h) (um h (freep h)) h = Some (fst t + 8, h')"
      "allocated base fl h n t fl' h'"
proof (cases rule: malloc_search [OF rep n(1), where room = room, case_names found none])
  case (found xs b ys)
  then show thesis using malloc_found [of base h xs b ys n room] rep n(1) got by auto
next
  case (none q)
  note R = heap_repD [OF rep]
  let ?nu = "max n 4096" and ?r = "malloc_loop room n (freep h) (um h (freep h)) h"
  have "um h (freep h + 4) < n" using R(2-4) none(1) n(1) by fastforce
  then have step: "?r = (case morecore room n h of None \<Rightarrow> None
      | Some (q, h) \<Rightarrow> if q = 0 then Some (0, h) else malloc_loop room n q (um h q) h)"
    unfolding none(2) by (subst malloc_loop.simps) simp
  show thesis
  proof (cases "ubrk h + ?nu * 8 < 2 ^ 31 \<and> room (ubrk h + ?nu * 8)")
    case False
    then show thesis using fail none(1) step morecore_ok [OF rep refl n(2), of room] by simp
  next
    case True
    let ?fl = "insert_blk fl (ubrk h, ?nu) []"
    obtain h1 where h1: "morecore room n h = Some (freep h1, h1)" "heap_rep base h1 ?fl"
      "ubrk h1 = ubrk h + ?nu * 8" "left_alone base fl h h1"
      using True morecore_ok [OF rep refl n(2), of room] by auto
    have r1: "?r = malloc_loop room n (freep h1) (um h1 (freep h1)) h1"
      using step h1(1) heap_repD(8) [OF h1(2)] by simp
    have "spaced (base + 8) (fl @ (ubrk h, ?nu) # []) (ubrk h1)"
      using R(6) h1(3) by (simp add: spaced_split blk_end_def)
    from insert_blk_ok(2) [OF this] have sp: "space ?fl = space fl \<union> {ubrk h..<ubrk h1}"
      using h1(3) by (simp add: blk_end_def mult.commute)
    show thesis
    proof (cases rule: malloc_search [OF h1(2) n(1), where room = room, case_names found none])
      case (found xs b ys)
      then obtain t fl' h' where t: "?r = Some (fst t + 8, h')" "allocated base ?fl h1 n t fl' h'" "ubrk h' = ubrk h1"
        using malloc_found [of base h1 xs b ys n room] h1(2) n(1) r1 by metis
      have "left_alone base fl h h'"
        by (rule left_alone_trans [OF h1(4), of ?fl]) (use t(2) h1(3) sp in \<open>auto simp: allocated_def\<close>)
      then have "allocated base fl h n t fl' h'"
        using t(2,3) h1(3) sp by (simp add: allocated_def)
      then show thesis using got t(1) by blast
    next
      case (none q)
      obtain c where "c \<in> set ?fl" "?nu \<le> snd c" using insert_large by blast
      then show thesis using none(1) by fastforce
    qed
  qed
qed

subsection \<open>The allocator and its clients\<close>

text \<open>Before the first call the static header is not set up.\<close>

definition heap_state :: "nat \<Rightarrow> uheap \<Rightarrow> blk list \<Rightarrow> bool" where
  "heap_state base h fl \<longleftrightarrow>
     (freep h = 0 \<and> fl = [] \<and> 0 < base \<and> base + 8 \<le> ubrk h \<and> ubrk h < 2 ^ 31) \<or> heap_rep base h fl"

definition units :: "nat \<Rightarrow> nat" where "units nbytes = (nbytes + 7) div 8 + 1"

lemma umalloc_ok:
  assumes st: "heap_state base h fl" and n: "nbytes + 15 < 2 ^ 31"
  obtains (fail) h' where "umalloc room base nbytes h = Some (0, h')" "heap_rep base h' fl" "ubrk h' = ubrk h"
      "left_alone base fl h h'"
      "\<not> (ubrk h + max (units nbytes) 4096 * 8 < 2 ^ 31 \<and> room (ubrk h + max (units nbytes) 4096 * 8))"
    | (got) t fl' h' where "umalloc room base nbytes h = Some (fst t + 8, h')"
      "allocated base fl h (units nbytes) t fl' h'"
proof -
  define h1 where "h1 = (if freep h = 0 then h\<lparr>um := (um h)(base := base, base + 4 := 0), freep := base\<rparr> else h)"
  have rep: "heap_rep base h1 fl"
  proof (cases "freep h = 0")
    case True
    then have "fl = [] \<and> 0 < base \<and> base + 8 \<le> ubrk h \<and> ubrk h < 2 ^ 31"
      using st heap_repD(8) [of base h fl] by (auto simp: heap_state_def)
    then show ?thesis using True by (simp add: h1_def heap_rep_def)
  next
    case False
    then show ?thesis using st by (simp add: heap_state_def h1_def)
  qed
  have u1: "left_alone base fl h h1" "ubrk h1 = ubrk h" by (auto simp: left_alone_def h1_def)
  have un: "(nbytes + 8 - 1) mod 2 ^ 32 div 8 + 1 = units nbytes" using n by (simp add: units_def)
  have r: "umalloc room base nbytes h = malloc_loop room (units nbytes) (freep h1) (um h1 (freep h1)) h1"
    unfolding umalloc_def Let_def un h1_def ..
  have "0 < units nbytes" "max (units nbytes) 4096 * 8 < 2 ^ 31" using n by (auto simp: units_def)
  from rep this show thesis
  proof (rule malloc_ok [where room = room])
    assume "malloc_loop room (units nbytes) (freep h1) (um h1 (freep h1)) h1 = Some (0, h1)"
      "\<not> (ubrk h1 + max (units nbytes) 4096 * 8 < 2 ^ 31 \<and> room (ubrk h1 + max (units nbytes) 4096 * 8))"
    then show thesis using fail [of h1] rep u1 r by simp
  next
    fix t fl' h'
    assume a: "malloc_loop room (units nbytes) (freep h1) (um h1 (freep h1)) h1 = Some (fst t + 8, h')"
      "allocated base fl h1 (units nbytes) t fl' h'"
    have "left_alone base fl h h'"
      by (rule left_alone_trans [OF u1(1)]) (use a(2) u1(2) in \<open>auto simp: allocated_def\<close>)
    then have "allocated base fl h (units nbytes) t fl' h'" using a(2) u1(2) by (simp add: allocated_def)
    then show thesis using got a(1) r by simp
  qed
qed

lemma spaced_insert:
  assumes "spaced lo fl hi" "{fst b..<blk_end b} \<inter> space fl = {}" "lo \<le> fst b" "blk_end b \<le> hi" "0 < snd b"
  shows "\<exists>xs ys. fl = xs @ ys \<and> spaced lo (xs @ b # ys) hi"
  using assms
proof (induction fl arbitrary: lo)
  case Nil
  then show ?case by simp
next
  case (Cons c fl)
  have c: "lo \<le> fst c" "0 < snd c" "spaced (blk_end c) fl hi" using Cons.prems(1) by simp_all
  show ?case
  proof (cases "blk_end b \<le> fst c")
    case True
    then have "spaced lo ([] @ b # c # fl) hi" using Cons.prems c by (simp add: blk_end_def)
    then show ?thesis by (metis append_Nil)
  next
    case False
    have "blk_end c \<le> fst b"
    proof (rule ccontr)
      assume "\<not> blk_end c \<le> fst b"
      then have "max (fst b) (fst c) \<in> {fst b..<blk_end b} \<inter> {fst c..<blk_end c}"
        using False Cons.prems(5) c(2) by (auto simp: blk_end_def max_def)
      then show False using Cons.prems(2) unfolding space_simps(2) by blast
    qed
    then obtain xs ys where "fl = xs @ ys" "spaced (blk_end c) (xs @ b # ys) hi"
      using Cons.IH [OF c(3)] Cons.prems by auto
    then show ?thesis using c by (intro exI [of _ "c # xs"] exI [of _ ys]) simp
  qed
qed

text \<open>Freeing any block that lies in the process and is not free.\<close>

lemma ufree_space:
  assumes rep: "heap_rep base h fl" and b: "{fst b..<blk_end b} \<inter> space fl = {}" "base + 8 \<le> fst b"
    "blk_end b \<le> ubrk h" "0 < snd b" "um h (fst b + 4) = snd b"
  shows "\<exists>h' fl'. ufree (fst b + 8) h = Some h' \<and> heap_rep base h' fl' \<and> ubrk h' = ubrk h
    \<and> space fl' = space fl \<union> {fst b..<blk_end b}
    \<and> (\<forall>x. x \<notin> {base..<base + 8} \<union> space fl \<union> {fst b..<blk_end b} \<longrightarrow> um h' x = um h x)"
proof -
  note R = heap_repD [OF rep]
  obtain xs ys where fl: "fl = xs @ ys" "spaced (base + 8) (xs @ b # ys) (ubrk h)"
    using spaced_insert [OF R(6) b(1-4)] by blast
  let ?p = "last (base # map fst xs)"
  have e: "b = (fst b, snd b)" by simp
  obtain m where m: "ufree (fst b + 8) h = Some (h\<lparr>um := m, freep := ?p\<rparr>)"
    "heap_rep base (h\<lparr>um := m, freep := ?p\<rparr>) (insert_blk xs b ys)"
    "\<forall>x. x \<notin> {fst b, fst b + 4} \<union> {?p, ?p + 4} \<longrightarrow> m x = um h x"
    using ufree_ok [of base h xs ys "fst b" "snd b"] rep fl b(5) e by (metis)
  have "set (base # map fst xs) \<subseteq> set (base # map fst fl)" using fl(1) by auto
  moreover have "?p \<in> set (base # map fst xs)" by (rule last_in_set) simp
  ultimately have "{?p, ?p + 4} \<subseteq> {base..<base + 8} \<union> space fl" using header_in_space [OF R(6)] by blast
  moreover have "{fst b, fst b + 4} \<subseteq> {fst b..<blk_end b}" using b(4) by (auto simp: blk_end_def)
  ultimately have "\<forall>x. x \<notin> {base..<base + 8} \<union> space fl \<union> {fst b..<blk_end b} \<longrightarrow> m x = um h x"
    using m(3) by blast
  moreover have "space (insert_blk xs b ys) = space fl \<union> {fst b..<blk_end b}"
    using insert_blk_ok(2) [OF fl(2)] fl(1) by auto
  ultimately show ?thesis using m(1,2) by (intro exI conjI) (assumption | simp)+
qed

text \<open>A program that allocates, frees what it was given, and stores anything between the header and
  the end of its blocks.  The second component lists the blocks it holds.\<close>

inductive ustep :: "nat \<Rightarrow> uheap \<times> blk list \<Rightarrow> uheap \<times> blk list \<Rightarrow> bool" for base where
  malloc_null: "umalloc room base nbytes h = Some (0, h') \<Longrightarrow> nbytes + 15 < 2 ^ 31 \<Longrightarrow> ustep base (h, al) (h', al)"
| malloc_block: "umalloc room base nbytes h = Some (p, h') \<Longrightarrow> p \<noteq> 0 \<Longrightarrow> nbytes + 15 < 2 ^ 31 \<Longrightarrow>
    ustep base (h, al) (h', (p - 8, um h' (p - 4)) # al)"
| free_block: "b \<in> set al \<Longrightarrow> ufree (fst b + 8) h = Some h' \<Longrightarrow> ustep base (h, al) (h', remove1 b al)"
| store: "b \<in> set al \<Longrightarrow> \<forall>y. y + 4 \<le> fst b + 8 \<or> blk_end b \<le> y \<longrightarrow> m y = um h y \<Longrightarrow>
    ustep base (h, al) (h\<lparr>um := m\<rparr>, al)"

definition held :: "nat \<Rightarrow> uheap \<Rightarrow> blk list \<Rightarrow> blk \<Rightarrow> bool" where
  "held base h fl b \<longleftrightarrow> um h (fst b + 4) = snd b \<and> 0 < snd b \<and> base + 8 \<le> fst b \<and> blk_end b \<le> ubrk h
     \<and> {fst b..<blk_end b} \<inter> space fl = {}"

definition apart :: "blk \<Rightarrow> blk \<Rightarrow> bool" where
  "apart b c \<longleftrightarrow> blk_end b \<le> fst c \<or> blk_end c \<le> fst b"

definition client_ok :: "nat \<Rightarrow> uheap \<times> blk list \<Rightarrow> bool" where
  "client_ok base w \<longleftrightarrow> (\<exists>fl. heap_state base (fst w) fl \<and> (\<forall>b \<in> set (snd w). held base (fst w) fl b)
     \<and> distinct (snd w) \<and> (\<forall>b \<in> set (snd w). \<forall>c \<in> set (snd w). b \<noteq> c \<longrightarrow> apart b c))
     \<and> (freep (fst w) = 0 \<longrightarrow> snd w = [])"

lemma heap_state_le: "heap_state base h fl \<Longrightarrow> base + 8 \<le> ubrk h \<and> ubrk h < 2 ^ 31"
  using spaced_le by (auto simp: heap_state_def heap_rep_def)

lemma held_word_outside:
  assumes "held base h fl b"
  shows "fst b + 4 \<notin> {base..<base + 8} \<union> space fl \<union> {ubrk h..}"
proof -
  have "fst b + 4 \<in> {fst b..<blk_end b}" using assms by (auto simp: held_def blk_end_def)
  moreover have "fst b + 4 \<notin> {base..<base + 8} \<union> {ubrk h..}"
    using calculation assms by (auto simp: held_def)
  ultimately show ?thesis using assms unfolding held_def by blast
qed

lemma held_mono:
  assumes "held base h fl b" "left_alone base fl h h'" "ubrk h \<le> ubrk h'" "space fl' \<subseteq> space fl \<union> {ubrk h..}"
  shows "held base h' fl' b"
proof -
  have "um h' (fst b + 4) = um h (fst b + 4)"
    using held_word_outside [OF assms(1)] assms(2) by (simp add: left_alone_def)
  moreover have "{fst b..<blk_end b} \<inter> {ubrk h..} = {}" using assms(1) by (auto simp: held_def)
  then have "{fst b..<blk_end b} \<inter> space fl' = {}" using assms(1,4) unfolding held_def by blast
  ultimately show ?thesis using assms(1,3) by (simp add: held_def)
qed

lemma apart_iff: "0 < snd b \<Longrightarrow> 0 < snd c \<Longrightarrow> apart b c \<longleftrightarrow> {fst b..<blk_end b} \<inter> {fst c..<blk_end c} = {}"
proof -
  assume s: "0 < snd b" "0 < snd c"
  have "max (fst b) (fst c) \<in> {fst b..<blk_end b} \<inter> {fst c..<blk_end c}" if "\<not> apart b c"
    using that s by (auto simp: apart_def blk_end_def max_def)
  then show ?thesis by (auto simp: apart_def)
qed

lemma client_malloc_null:
  assumes "client_ok base (h, al)" "umalloc room base nbytes h = Some (0, h')" "nbytes + 15 < 2 ^ 31"
  shows "client_ok base (h', al)"
proof -
  obtain fl where fl: "heap_state base h fl" "\<forall>b \<in> set al. held base h fl b" "distinct al"
    "\<forall>b \<in> set al. \<forall>c \<in> set al. b \<noteq> c \<longrightarrow> apart b c" using assms(1) by (auto simp: client_ok_def)
  show ?thesis
  proof (rule umalloc_ok [OF fl(1) assms(3), of room])
    fix h1 assume h1: "umalloc room base nbytes h = Some (0, h1)" "heap_rep base h1 fl" "ubrk h1 = ubrk h"
      "left_alone base fl h h1"
    then have "h1 = h'" using assms(2) by simp
    moreover have "\<forall>b \<in> set al. held base h1 fl b"
      using fl(2) h1(3,4) held_mono [of base h fl _ h1 fl] by auto
    ultimately show ?thesis using h1(2) fl(3,4) heap_repD(8) [OF h1(2)] by (auto simp: client_ok_def heap_state_def)
  next
    fix t fl' h1 assume "umalloc room base nbytes h = Some (fst t + 8, h1)"
    then show ?thesis using assms(2) by simp
  qed
qed

lemma client_malloc_block:
  assumes "client_ok base (h, al)" "umalloc room base nbytes h = Some (p, h')" "p \<noteq> 0" "nbytes + 15 < 2 ^ 31"
  shows "client_ok base (h', (p - 8, um h' (p - 4)) # al) \<and> um h' (p - 4) = units nbytes"
proof -
  obtain fl where fl: "heap_state base h fl" "\<forall>b \<in> set al. held base h fl b" "distinct al"
    "\<forall>b \<in> set al. \<forall>c \<in> set al. b \<noteq> c \<longrightarrow> apart b c" using assms(1) by (auto simp: client_ok_def)
  show ?thesis
  proof (rule umalloc_ok [OF fl(1) assms(4), of room])
    fix h1 assume "umalloc room base nbytes h = Some (0, h1)"
    then show ?thesis using assms(2,3) by simp
  next
    fix t fl' h1 assume u: "umalloc room base nbytes h = Some (fst t + 8, h1)"
      "allocated base fl h (units nbytes) t fl' h1"
    then have h1: "h1 = h'" "p = fst t + 8" using assms(2) by auto
    have A: "heap_rep base h' fl'" "um h' (fst t + 4) = units nbytes" "snd t = units nbytes" "ubrk h \<le> ubrk h'"
      "base + 8 \<le> fst t" "blk_end t \<le> ubrk h'" "{fst t..<blk_end t} \<subseteq> space fl \<union> {ubrk h..<ubrk h'}"
      "space fl' = (space fl \<union> {ubrk h..<ubrk h'}) - {fst t..<blk_end t}" "left_alone base fl h h'"
      using u(2) h1(1) by (simp_all add: allocated_def)
    have "p - 8 = fst t" "p - 4 = fst t + 4" using h1(2) by simp_all
    then have e: "(p - 8, um h' (p - 4)) = t" using A(2,3) by (cases t) simp
    have t0: "0 < snd t" using A(3) by (simp add: units_def)
    then have "held base h' fl' t" using A(2-6,8) by (auto simp: held_def)
    moreover have hb: "held base h' fl' b" if "b \<in> set al" for b
      by (rule held_mono [OF _ A(9,4)]) (use fl(2) that A(8) in auto)
    moreover have ap: "apart t b" if b: "b \<in> set al" for b
    proof -
      have H: "held base h fl b" using fl(2) b by blast
      then have "{fst b..<blk_end b} \<inter> (space fl \<union> {ubrk h..<ubrk h'}) = {}" by (auto simp: held_def)
      then have "{fst t..<blk_end t} \<inter> {fst b..<blk_end b} = {}" using A(7) by blast
      then show ?thesis using apart_iff [of t b] t0 H by (simp add: held_def)
    qed
    moreover have "t \<notin> set al" using ap [of t] t0 by (auto simp: apart_def blk_end_def)
    moreover have "apart b t" if "b \<in> set al" for b using ap [OF that] by (auto simp: apart_def)
    ultimately have "\<forall>b \<in> set (t # al). held base h' fl' b" "distinct (t # al)"
      "\<forall>b \<in> set (t # al). \<forall>c \<in> set (t # al). b \<noteq> c \<longrightarrow> apart b c" using fl(3,4) by simp_all
    then have "client_ok base (h', t # al)"
      unfolding client_ok_def using A(1) heap_repD(8) [OF A(1)] by (simp add: heap_state_def) blast
    then show ?thesis using e A(3) by (metis snd_conv)
  qed
qed

lemma client_free:
  assumes "client_ok base (h, al)" "b \<in> set al"
  shows "\<exists>h'. ufree (fst b + 8) h = Some h' \<and> client_ok base (h', remove1 b al)"
proof -
  obtain fl where fl: "heap_state base h fl" "\<forall>b \<in> set al. held base h fl b" "distinct al"
    "\<forall>b \<in> set al. \<forall>c \<in> set al. b \<noteq> c \<longrightarrow> apart b c" using assms(1) by (auto simp: client_ok_def)
  have H: "held base h fl b" using fl(2) assms(2) by blast
  have "freep h \<noteq> 0" using assms by (auto simp: client_ok_def)
  then have rep: "heap_rep base h fl" using fl(1) by (simp add: heap_state_def)
  from ufree_space [OF rep, of b] H obtain h' fl' where
    f: "ufree (fst b + 8) h = Some h'" "heap_rep base h' fl'" "ubrk h' = ubrk h"
      "space fl' = space fl \<union> {fst b..<blk_end b}"
      "\<forall>x. x \<notin> {base..<base + 8} \<union> space fl \<union> {fst b..<blk_end b} \<longrightarrow> um h' x = um h x"
    by (auto simp: held_def)
  have "held base h' fl' c" if c: "c \<in> set (remove1 b al)" for c
  proof -
    have "c \<in> set al" "c \<noteq> b" using c fl(3) by auto
    then have C: "held base h fl c" "apart b c" using fl(2,4) assms(2) by auto
    then have d: "{fst b..<blk_end b} \<inter> {fst c..<blk_end c} = {}"
      using apart_iff [of b c] H by (simp add: held_def)
    have "fst c + 4 \<in> {fst c..<blk_end c}" using C(1) by (auto simp: held_def blk_end_def)
    then have "um h' (fst c + 4) = um h (fst c + 4)"
      using f(5) held_word_outside [OF C(1)] d by auto
    then show ?thesis using C(1) f(3,4) d by (auto simp: held_def)
  qed
  then have "client_ok base (h', remove1 b al)"
    unfolding client_ok_def using f(2) fl(3,4) heap_repD(8) [OF f(2)]
    by (intro conjI exI [of _ fl']) (auto simp: heap_state_def)
  then show ?thesis using f(1) by blast
qed

lemma client_store:
  assumes "client_ok base (h, al)" "b \<in> set al" "\<forall>y. y + 4 \<le> fst b + 8 \<or> blk_end b \<le> y \<longrightarrow> m y = um h y"
  shows "client_ok base (h\<lparr>um := m\<rparr>, al)"
proof -
  obtain fl where fl: "heap_state base h fl" "\<forall>b \<in> set al. held base h fl b" "distinct al"
    "\<forall>b \<in> set al. \<forall>c \<in> set al. b \<noteq> c \<longrightarrow> apart b c" using assms(1) by (auto simp: client_ok_def)
  have "freep h \<noteq> 0" using assms by (auto simp: client_ok_def)
  then have rep: "heap_rep base h fl" using fl(1) by (simp add: heap_state_def)
  note R = heap_repD [OF rep]
  have B: "held base h fl b" using fl(2) assms(2) by blast
  have keep: "m (x + 4) = um h (x + 4) \<and> m x = um h x" if x: "x \<in> set (base # map fst fl)" for x
  proof -
    have "\<exists>c. x = fst c \<and> 0 < snd c \<and> apart b c" if ne: "x \<noteq> base"
    proof -
      obtain c where c: "c \<in> set fl" "x = fst c" using ne x by auto
      then have "{fst c..<blk_end c} \<subseteq> space fl" "0 < snd c"
        using spaced_bounds [OF R(6), of c] unfolding space_def by blast+
      then have "{fst b..<blk_end b} \<inter> {fst c..<blk_end c} = {}" "0 < snd c"
        using B unfolding held_def by blast+
      then show ?thesis using c apart_iff [of b c] B by (auto simp: held_def)
    qed
    moreover have "x + 4 \<le> fst b" if "x = base" using B that by (simp add: held_def)
    ultimately have "x + 8 \<le> fst b + 8 \<or> blk_end b \<le> x"
      by (cases "x = base") (auto simp: apart_def blk_end_def)
    then show ?thesis using assms(3) by auto
  qed
  have "\<forall>x \<in> set (butlast (base # map fst fl @ [base])). m x = um h x"
    using keep by (auto simp: butlast_append)
  from linked_frame [OF this] have l: "linked m (base # map fst fl @ [base])" using R(1) by (simp only:)
  have "m (base + 4) = 0" "\<forall>b \<in> set fl. m (fst b + 4) = snd b" using R(2,3) keep by simp_all
  then have "heap_rep base (h\<lparr>um := m\<rparr>) fl" unfolding heap_rep_def using l R(4-7) by simp
  moreover have "held base (h\<lparr>um := m\<rparr>) fl c" if c: "c \<in> set al" for c
  proof -
    have C: "held base h fl c" using fl(2) c by blast
    have c0: "0 < snd c" using C by (simp add: held_def)
    have "c = b \<or> apart b c" using fl(4) [rule_format, OF assms(2) c] by auto
    then have "(fst c + 4) + 4 \<le> fst b + 8 \<or> blk_end b \<le> fst c + 4"
    proof
      assume "apart b c"
      then show ?thesis using c0 unfolding apart_def blk_end_def by linarith
    qed simp
    then have "m (fst c + 4) = um h (fst c + 4)" using assms(3) by blast
    then show ?thesis using C by (simp add: held_def)
  qed
  ultimately show ?thesis
    unfolding client_ok_def using fl(3,4) \<open>freep h \<noteq> 0\<close> by (auto simp: heap_state_def)
qed

lemma ustep_client_ok: "ustep base w w' \<Longrightarrow> client_ok base w \<Longrightarrow> client_ok base w'"
proof (induction rule: ustep.induct)
  case (malloc_null room nbytes h h' al)
  then show ?case using client_malloc_null by blast
next
  case (malloc_block room nbytes h p h' al)
  then show ?case using client_malloc_block by blast
next
  case (free_block b al h h')
  then show ?case using client_free [of base h al b] by auto
next
  case (store b al m h)
  then show ?case using client_store by blast
qed

lemma client_reachable: "(ustep base)\<^sup>*\<^sup>* w w' \<Longrightarrow> client_ok base w \<Longrightarrow> client_ok base w'"
  by (induction rule: rtranclp_induct) (auto intro: ustep_client_ok)

text \<open>C29: in every state a program reaches by allocating, freeing its blocks and storing into them, the
  blocks it holds do not overlap each other, the static header or the end of the process, and both
  operations return: every request for less than two gigabytes is answered, and every held
  block can be freed.\<close>

theorem allocator_safe:
  assumes "(ustep base)\<^sup>*\<^sup>* (h0, []) (h, al)" "freep h0 = 0" "0 < base" "base + 8 \<le> ubrk h0" "ubrk h0 < 2 ^ 31"
  shows "distinct al \<and> (\<forall>b \<in> set al. \<forall>c \<in> set al. b \<noteq> c \<longrightarrow> blk_end b \<le> fst c \<or> blk_end c \<le> fst b)
    \<and> (\<forall>b \<in> set al. base + 8 \<le> fst b \<and> fst b + 8 \<le> blk_end b \<and> blk_end b \<le> ubrk h)
    \<and> (\<forall>room nbytes. nbytes + 15 < 2 ^ 31 \<longrightarrow> (\<exists>r. umalloc room base nbytes h = Some r))
    \<and> (\<forall>b \<in> set al. \<exists>h'. ufree (fst b + 8) h = Some h')"
proof -
  have "client_ok base (h0, [])" using assms(2-5) by (auto simp: client_ok_def heap_state_def)
  with client_reachable [OF assms(1)] have c: "client_ok base (h, al)" .
  then obtain fl where fl: "heap_state base h fl" "\<forall>b \<in> set al. held base h fl b" "distinct al"
    "\<forall>b \<in> set al. \<forall>c \<in> set al. b \<noteq> c \<longrightarrow> apart b c" by (auto simp: client_ok_def)
  have "\<exists>r. umalloc room base nbytes h = Some r" if "nbytes + 15 < 2 ^ 31" for room nbytes
    by (rule umalloc_ok [OF fl(1) that, of room]) auto
  moreover have "\<exists>h'. ufree (fst b + 8) h = Some h'" if "b \<in> set al" for b
    using client_free [OF c that] by blast
  moreover have "base + 8 \<le> fst b \<and> fst b + 8 \<le> blk_end b \<and> blk_end b \<le> ubrk h" if "b \<in> set al" for b
    using fl(2) that by (auto simp: held_def blk_end_def)
  ultimately show ?thesis using fl(3,4) by (simp add: apart_def)
qed

text \<open>C30: a block that \<^verbatim>\<open>malloc\<close> returns has room for the bytes asked for, it was free or is new
  memory, and \<^verbatim>\<open>free\<close> gives exactly it back: the free memory afterwards is the free memory before, with what
  the process has grown by.\<close>

theorem malloc_free_restores:
  assumes "heap_rep base h fl" "nbytes + 15 < 2 ^ 31" "umalloc room base nbytes h = Some (p, h1)" "p \<noteq> 0"
  shows "{p..<p + nbytes} \<subseteq> space fl \<union> {ubrk h..<ubrk h1}
    \<and> (\<exists>h2 fl2. ufree p h1 = Some h2 \<and> heap_rep base h2 fl2
        \<and> space fl2 = space fl \<union> {ubrk h..<ubrk h1} \<and> ubrk h2 = ubrk h1)"
proof -
  have st: "heap_state base h fl" using assms(1) by (simp add: heap_state_def)
  show ?thesis
  proof (rule umalloc_ok [OF st assms(2), of room])
    fix h' assume "umalloc room base nbytes h = Some (0, h')"
    then show ?thesis using assms(3,4) by simp
  next
    fix t fl' h' assume u: "umalloc room base nbytes h = Some (fst t + 8, h')"
      "allocated base fl h (units nbytes) t fl' h'"
    then have e: "h1 = h'" "p = fst t + 8" using assms(3) by auto
    have A: "heap_rep base h1 fl'" "um h1 (fst t + 4) = units nbytes" "snd t = units nbytes" "ubrk h \<le> ubrk h1"
      "base + 8 \<le> fst t" "blk_end t \<le> ubrk h1" "{fst t..<blk_end t} \<subseteq> space fl \<union> {ubrk h..<ubrk h1}"
      "space fl' = (space fl \<union> {ubrk h..<ubrk h1}) - {fst t..<blk_end t}"
      using u(2) e(1) by (simp_all add: allocated_def)
    have "{p..<p + nbytes} \<subseteq> {fst t..<blk_end t}" using e(2) A(3) by (auto simp: blk_end_def units_def)
    moreover have "{fst t..<blk_end t} \<inter> space fl' = {}" "0 < snd t" using A(3,8) by (auto simp: units_def)
    with ufree_space [OF A(1), of t] obtain h2 fl2 where "ufree p h1 = Some h2" "heap_rep base h2 fl2"
      "ubrk h2 = ubrk h1" "space fl2 = space fl' \<union> {fst t..<blk_end t}" using A(2,3,5,6) e(2) by auto
    moreover have "space fl' \<union> {fst t..<blk_end t} = space fl \<union> {ubrk h..<ubrk h1}" using A(7,8) by blast
    ultimately show ?thesis using A(7) by blast
  qed
qed

text \<open>A request just below the top of the 32-bit range wraps around in the unit count and is answered like a
  request for nothing.\<close>

lemma malloc_huge_wraps: "umalloc room base (2 ^ 32 - 1) h = umalloc room base 0 h"
  by (simp add: umalloc_def)

text \<open>A first heap: nothing allocated, the process ends at 16384.\<close>

definition fresh_heap :: uheap where
  "fresh_heap = \<lparr>um = (\<lambda>_. 0), freep = 0, ubrk = 16384\<rparr>"

theorem allocator_safe_witness:
  "\<exists>h al. (ustep 4096)\<^sup>*\<^sup>* (fresh_heap, []) (h, al) \<and> length al = 1
     \<and> (\<forall>b \<in> set al. \<exists>h'. ufree (fst b + 8) h = Some h')"
proof -
  have st: "heap_state 4096 fresh_heap []" by (simp add: heap_state_def fresh_heap_def)
  obtain p h where p: "umalloc (\<lambda>_. True) 4096 100 fresh_heap = Some (p, h)" "p \<noteq> 0"
    by (rule umalloc_ok [OF st, of 100 "\<lambda>_. True"]) (auto simp: fresh_heap_def units_def)
  have "ustep 4096 (fresh_heap, []) (h, [(p - 8, um h (p - 4))])"
    by (rule ustep.malloc_block [OF p]) simp
  then have r: "(ustep 4096)\<^sup>*\<^sup>* (fresh_heap, []) (h, [(p - 8, um h (p - 4))])" by blast
  have "\<forall>b \<in> set [(p - 8, um h (p - 4))]. \<exists>h'. ufree (fst b + 8) h = Some h'"
    using allocator_safe [OF r] by (simp add: fresh_heap_def)
  then show ?thesis using r by (intro exI [of _ h] exI [of _ "[(p - 8, um h (p - 4))]"]) simp
qed

text \<open>An initialised heap with one free block of ten units at 8192.\<close>

definition small_heap :: uheap where
  "small_heap = \<lparr>um = (\<lambda>_. 0)(4096 := 8192, 8192 := 4096, 8196 := 10), freep = 4096, ubrk = 8272\<rparr>"

theorem malloc_free_restores_witness:
  "\<exists>p h1 h2 fl2. umalloc (\<lambda>_. True) 4096 20 small_heap = Some (p, h1) \<and> ufree p h1 = Some h2
    \<and> heap_rep 4096 h2 fl2 \<and> space fl2 = {8192..<8272} \<union> {8272..<ubrk h1}"
proof -
  have rep: "heap_rep 4096 small_heap [(8192, 10)]"
    by (simp add: heap_rep_def small_heap_def blk_end_def)
  then have st: "heap_state 4096 small_heap [(8192, 10)]" by (simp add: heap_state_def)
  obtain p h1 where p: "umalloc (\<lambda>_. True) 4096 20 small_heap = Some (p, h1)" "p \<noteq> 0"
    by (rule umalloc_ok [OF st, of 20 "\<lambda>_. True"]) (auto simp: small_heap_def units_def)
  have "ubrk small_heap = 8272" "space [(8192, 10)] = {8192..<8272}" by (simp_all add: small_heap_def blk_end_def)
  then show ?thesis using malloc_free_restores [OF rep _ p] p(1) by auto
qed

end
