(* ===== verification/Uthread.thy ===== *)
theory Uthread
  imports Threads Umalloc
begin

text \<open>
  The thread functions of the user library of project 3b, \<^verbatim>\<open>thread_create\<close> and \<^verbatim>\<open>thread_join\<close> of
  \<^verbatim>\<open>ulib.c\<close>: the allocator and the system calls \<^verbatim>\<open>clone\<close> and \<^verbatim>\<open>join\<close> together.
\<close>

text \<open>The stack: the first page boundary in the two pages allocated.\<close>

definition thread_stack :: "nat \<Rightarrow> nat" where
  "thread_stack p = (if p mod 4096 \<noteq> 0 then (p + (4096 - p mod 4096)) mod 2 ^ 32 else p)"

definition thread_create :: "(nat \<Rightarrow> bool) \<Rightarrow> nat \<Rightarrow> ('f \<Rightarrow> 'e \<Rightarrow> 'e outcome) \<Rightarrow> ('f \<Rightarrow> 'e \<Rightarrow> 'e outcome) \<Rightarrow> nat \<Rightarrow>
    u32 \<Rightarrow> u32 \<Rightarrow> u32 \<Rightarrow> uheap \<Rightarrow> ('f, 'e) tkernel \<Rightarrow> (int \<times> uheap \<times> ('f, 'e) tkernel) outcome" where
  "thread_create room base filedup idup cur start_routine arg1 arg2 h ks =
     (case umalloc room base (4096 * 2) h of None \<Rightarrow> Wait
      | Some (p, h) \<Rightarrow>
          and_then (clone filedup idup cur start_routine arg1 arg2 (of_nat (thread_stack p)) ks)
            (\<lambda>(r, ks). Ok (r, h, ks)))"

text \<open>\<open>junk\<close> is what the variable \<^verbatim>\<open>stack\<close> holds when \<^verbatim>\<open>join\<close> fails without storing to it; \<open>None\<close> is a call
  asleep in \<^verbatim>\<open>join\<close>.\<close>

definition thread_join :: "u32 \<Rightarrow> nat \<Rightarrow> nat \<Rightarrow> u32 \<Rightarrow> uheap \<Rightarrow> ('f, 'e) tkernel \<Rightarrow>
    (int option \<times> uheap \<times> ('f, 'e) tkernel) outcome" where
  "thread_join kend c cur junk h ks =
     and_then (join_thread kend c cur ks) (\<lambda>(x, ks).
       case x of None \<Rightarrow> Ok (None, h, ks)
       | Some (result, st) \<Rightarrow>
           (case ufree (unat (case st of Some stack \<Rightarrow> stack | None \<Rightarrow> junk)) h of None \<Rightarrow> Wait
            | Some h \<Rightarrow> Ok (Some result, h, ks)))"

text \<open>the stack that \<^verbatim>\<open>thread_create\<close> hands to \<^verbatim>\<open>clone\<close> is one whole page, aligned, inside the block it
  allocated, so the stacks of different threads and the other blocks of the program do not overlap.\<close>

theorem thread_stack_in_block:
  assumes "heap_state base h fl" "umalloc room base (4096 * 2) h = Some (p, h')" "p \<noteq> 0"
  shows "thread_stack p mod 4096 = 0 \<and> {thread_stack p..<thread_stack p + 4096} \<subseteq> {p..<p + 8192}
    \<and> {p..<p + 8192} \<subseteq> space fl \<union> {ubrk h..<ubrk h'} \<and> p + 8192 \<le> ubrk h'"
proof -
  have n: "4096 * 2 + 15 < (2 ^ 31 :: nat)" by simp
  have "p + 8192 \<le> ubrk h' \<and> {p..<p + 8192} \<subseteq> space fl \<union> {ubrk h..<ubrk h'} \<and> ubrk h' < 2 ^ 31"
  proof (rule umalloc_ok [OF assms(1) n, of room])
    fix h1 assume "umalloc room base (4096 * 2) h = Some (0, h1)"
    then show ?thesis using assms(2,3) by simp
  next
    fix t fl' h1 assume u: "umalloc room base (4096 * 2) h = Some (fst t + 8, h1)"
      "allocated base fl h (units (4096 * 2)) t fl' h1"
    then have e: "h1 = h'" "p = fst t + 8" "blk_end t = p + 8192"
      using assms(2) by (auto simp: allocated_def units_def blk_end_def)
    have A: "blk_end t \<le> ubrk h'" "{fst t..<blk_end t} \<subseteq> space fl \<union> {ubrk h..<ubrk h'}" "ubrk h' < 2 ^ 31"
      using u(2) e(1) by (simp_all add: allocated_def heap_rep_def)
    moreover have "{p..<p + 8192} \<subseteq> {fst t..<blk_end t}" using e by auto
    ultimately show ?thesis using e(3) by (metis subset_trans)
  qed
  moreover have s: "thread_stack p mod 4096 = 0 \<and> p \<le> thread_stack p \<and> thread_stack p + 4096 \<le> p + 8192"
    if "p < 2 ^ 31"
  proof (cases "p mod 4096 = 0")
    case True
    then show ?thesis by (simp add: thread_stack_def)
  next
    case False
    have m: "p mod 4096 < 4096" by simp
    then have "p + (4096 - p mod 4096) < 2 ^ 32" using that by simp
    then have e: "thread_stack p = p + (4096 - p mod 4096)" using False by (simp add: thread_stack_def)
    define q r where "q = p div 4096" and "r = p mod 4096"
    have pq: "p = q * 4096 + r" "r < 4096" "0 < r" using False m by (simp_all add: q_def r_def)
    have "thread_stack p = (q + 1) * 4096" unfolding e r_def [symmetric] using pq by simp
    then have "thread_stack p mod 4096 = 0 \<and> thread_stack p = p + (4096 - r)"
      using e by (simp add: r_def)
    moreover from this have "p \<le> thread_stack p \<and> thread_stack p + 4096 \<le> p + 8192"
      using pq(2,3) by linarith
    ultimately show ?thesis by blast
  qed
  ultimately show ?thesis by auto
qed

theorem thread_stack_in_block_witness:
  "\<exists>p h'. umalloc (\<lambda>_. True) 4096 (4096 * 2) fresh_heap = Some (p, h') \<and> thread_stack p mod 4096 = 0"
proof -
  have st: "heap_state 4096 fresh_heap []" by (simp add: heap_state_def fresh_heap_def)
  obtain p h where p: "umalloc (\<lambda>_. True) 4096 (4096 * 2) fresh_heap = Some (p, h)" "p \<noteq> 0"
    by (rule umalloc_ok [OF st, of "4096 * 2" "\<lambda>_. True"]) (auto simp: fresh_heap_def units_def)
  show ?thesis using thread_stack_in_block [OF st p] p(1) by (intro exI [of _ p] exI [of _ h]) simp
qed

text \<open>What \<^verbatim>\<open>thread_join\<close> frees is the stack, not the block: unless the block happens to start on a page
  boundary, the words \<^verbatim>\<open>free\<close> takes for a header lie in the middle of it.\<close>

lemma thread_join_frees_inside:
  assumes "p mod 8 = 0" "p mod 4096 \<noteq> 0" "p < 2 ^ 31"
  shows "p \<le> thread_stack p - 8 \<and> thread_stack p \<noteq> p"
proof -
  define x where "x = p mod 4096"
  have "x mod 8 = 0" using assms(1) by (simp add: x_def mod_mod_cancel)
  then have "x = 8 * (x div 8)" using div_mult_mod_eq [of x 8] by simp
  moreover have "x div 8 < 512" by (rule less_mult_imp_div_less) (simp add: x_def)
  ultimately have "p mod 4096 \<le> 4088" unfolding x_def [symmetric] by linarith
  moreover have "thread_stack p = p + (4096 - x)" using assms(2,3) by (simp add: thread_stack_def x_def)
  ultimately show ?thesis unfolding x_def [symmetric] by linarith
qed

end
