(* ===== verification/Ext2.thy ===== *)
theory Ext2
  imports Printf Bytes
begin

text \<open>
  The picture recovery tool of project 5: \<^verbatim>\<open>p5/read_ext2.c\<close> and \<^verbatim>\<open>p5/runscan.c\<close>.  The disk image is the
  list of its bytes; a file the program creates is an output event with its path and its contents.
  \<open>Panic\<close> is the end of the program by \<^verbatim>\<open>exit\<close> or by an access outside an array, \<open>Wait\<close> a loop
  that does not end.  \<open>junk\<close> is what uninitialised memory holds.
\<close>

subsection \<open>Reading the image\<close>

definition pread :: "byte list \<Rightarrow> nat \<Rightarrow> nat \<Rightarrow> byte list" where
  "pread img off n = take n (drop off img)"

text \<open>A read into an array or a structure: a short read leaves the rest of it as it was.\<close>

definition read_into :: "byte list \<Rightarrow> nat \<Rightarrow> nat \<Rightarrow> byte list \<Rightarrow> byte list" where
  "read_into img off n old = (let r = pread img off n in r @ drop (length r) old)"

definition fresh :: "(nat \<Rightarrow> byte) \<Rightarrow> nat \<Rightarrow> byte list" where
  "fresh junk n = map junk [0..<n]"

definition EXT2_SUPER_MAGIC :: u16 where "EXT2_SUPER_MAGIC = 0xEF53"
definition BASE_OFFSET :: u32 where "BASE_OFFSET = 1024"
definition INODE_SIZE :: nat where "INODE_SIZE = 128"
definition SUPER_SIZE :: nat where "SUPER_SIZE = 1024"
definition GROUP_SIZE :: nat where "GROUP_SIZE = 32"
definition EXT2_NDIR_BLOCKS :: nat where "EXT2_NDIR_BLOCKS = 12"
definition EXT2_NAME_LEN :: nat where "EXT2_NAME_LEN = 255"

text \<open>The global variables of \<^verbatim>\<open>read_ext2.c\<close>.\<close>

record ext2 =
  block_size :: u32
  inodes_per_block :: u32
  itable_blocks :: u32
  blocks_per_group :: u32
  num_groups :: u32
  inodes_per_group :: u32

definition BLOCK_OFFSET :: "ext2 \<Rightarrow> u32 \<Rightarrow> u32" where
  "BLOCK_OFFSET g b = BASE_OFFSET + (b - 1) * block_size g"

text \<open>Fields of the structures of \<^verbatim>\<open>ext2_fs.h\<close>.\<close>

definition s_blocks_count :: "byte list \<Rightarrow> u32" where "s_blocks_count = get32 4"
definition s_log_block_size :: "byte list \<Rightarrow> u32" where "s_log_block_size = get32 24"
definition s_blocks_per_group :: "byte list \<Rightarrow> u32" where "s_blocks_per_group = get32 32"
definition s_inodes_per_group :: "byte list \<Rightarrow> u32" where "s_inodes_per_group = get32 40"
definition s_magic :: "byte list \<Rightarrow> u16" where "s_magic = get16 56"
definition bg_inode_table :: "byte list \<Rightarrow> u32" where "bg_inode_table = get32 8"
definition i_mode :: "byte list \<Rightarrow> u16" where "i_mode = get16 0"
definition i_size2 :: "byte list \<Rightarrow> u32" where "i_size2 = get32 4"
definition i_block :: "byte list \<Rightarrow> u32 list" where
  "i_block inode = map (\<lambda>i. get32 (40 + 4 * i) inode) [0..<15]"

definition S_ISDIR :: "u16 \<Rightarrow> bool" where "S_ISDIR m \<longleftrightarrow> m AND 0xF000 = 0x4000"
definition S_ISREG :: "u16 \<Rightarrow> bool" where "S_ISREG m \<longleftrightarrow> m AND 0xF000 = 0x8000"

text \<open>The block size and what depends on it; a shift out of the \<^verbatim>\<open>int\<close> range is undefined.\<close>

definition set_sizes :: "byte list \<Rightarrow> ext2 \<Rightarrow> ext2 outcome" where
  "set_sizes super g =
     (let lg = unat (s_log_block_size super) in
      if lg > 20 then Panic ''undefined shift''
      else let bs = push_bit lg 1024; ipb = bs div of_nat INODE_SIZE
           in Ok (g\<lparr>block_size := bs, inodes_per_block := ipb, itable_blocks := s_inodes_per_group super div ipb\<rparr>))"

definition ext2_read_init :: "(nat \<Rightarrow> byte) \<Rightarrow> byte list \<Rightarrow> ext2 \<Rightarrow> ext2 outcome" where
  "ext2_read_init junk img g =
     (let super = read_into img (unat BASE_OFFSET) SUPER_SIZE (fresh junk SUPER_SIZE) in
      if s_magic super \<noteq> EXT2_SUPER_MAGIC then Panic ''exit 1''
      else and_then (set_sizes super g) (\<lambda>g.
        let bpg = s_blocks_per_group super in
        if bpg = 0 then Panic ''division by zero''
        else Ok (g\<lparr>blocks_per_group := bpg, num_groups := (s_blocks_count super + bpg - 1) div bpg,
                   inodes_per_group := s_inodes_per_group super\<rparr>)))"

partial_function (option) isPowerOf :: "int \<Rightarrow> int \<Rightarrow> int option" where
  "isPowerOf m n =
     (if m \<noteq> 1 then (if m mod n \<noteq> 0 then Some 0 else isPowerOf (m div n) n) else Some 1)"

partial_function (option) powersBelow :: "int \<Rightarrow> int \<Rightarrow> int \<Rightarrow> int option" where
  "powersBelow cnt m n =
     (if m \<noteq> 1 then (if m mod n \<noteq> 0 then Some cnt else powersBelow (cnt + 1) (m div n) n) else Some cnt)"

text \<open>A conjunction of calls of \<^verbatim>\<open>isPowerOf\<close>, from left to right.\<close>

fun all_powers :: "(int \<Rightarrow> bool) \<Rightarrow> int \<Rightarrow> int list \<Rightarrow> bool option" where
  "all_powers test m [] = Some True"
| "all_powers test m (n # ns) =
     (case isPowerOf m n of None \<Rightarrow> None | Some r \<Rightarrow> if test r then all_powers test m ns else Some False)"

definition read_super_block :: "(nat \<Rightarrow> byte) \<Rightarrow> byte list \<Rightarrow> int \<Rightarrow> ext2 \<Rightarrow> (int \<times> byte list \<times> ext2) outcome" where
  "read_super_block junk img ngroup g =
     (case (if ngroup \<noteq> 0 \<and> ngroup \<noteq> 1 then all_powers (\<lambda>r. r = 0) ngroup [3, 5, 7] else Some False) of
        None \<Rightarrow> Wait
      | Some True \<Rightarrow> Ok (- 1, fresh junk SUPER_SIZE, g)
      | Some False \<Rightarrow>
          (let off = BASE_OFFSET + BLOCK_OFFSET g (blocks_per_group g * word_of_int ngroup);
               super = read_into img (unat off) SUPER_SIZE (fresh junk SUPER_SIZE) in
           if s_magic super \<noteq> EXT2_SUPER_MAGIC then Panic ''exit 1''
           else and_then (set_sizes super g) (\<lambda>g. Ok (0, super, g))))"

definition read_group_desc :: "(nat \<Rightarrow> byte) \<Rightarrow> byte list \<Rightarrow> int \<Rightarrow> ext2 \<Rightarrow> byte list outcome" where
  "read_group_desc junk img ngroup g =
     (case (if ngroup \<noteq> 0 \<and> ngroup \<noteq> 1 then all_powers (\<lambda>r. r \<noteq> 0) ngroup [3, 5, 7] else Some False) of
        None \<Rightarrow> Wait
      | Some b \<Rightarrow>
          (let off = BASE_OFFSET + BLOCK_OFFSET g (blocks_per_group g * word_of_int ngroup);
               off = (if b then off else off + block_size g)
           in Ok (read_into img (unat off) GROUP_SIZE (fresh junk GROUP_SIZE))))"

definition locate_inode_table :: "int \<Rightarrow> byte list \<Rightarrow> ext2 \<Rightarrow> u32" where
  "locate_inode_table ngroup grp g = BLOCK_OFFSET g (bg_inode_table grp + blocks_per_group g * word_of_int ngroup)"

definition locate_data_blocks :: "int \<Rightarrow> byte list \<Rightarrow> ext2 \<Rightarrow> u32" where
  "locate_data_blocks ngroup grp g =
     BLOCK_OFFSET g (bg_inode_table grp + itable_blocks g + blocks_per_group g * word_of_int ngroup)"

text \<open>The offset is a 64-bit sum; inode numbers start at 1.\<close>

definition inode_offset :: "int \<Rightarrow> u32 \<Rightarrow> int \<Rightarrow> ext2 \<Rightarrow> u64" where
  "inode_offset ngroup offset inode_no g =
     ucast (BLOCK_OFFSET g (blocks_per_group g * word_of_int ngroup)) + ucast offset
       + word_of_int (inode_no - 1) * of_nat INODE_SIZE"

definition read_inode :: "(nat \<Rightarrow> byte) \<Rightarrow> byte list \<Rightarrow> int \<Rightarrow> u32 \<Rightarrow> int \<Rightarrow> ext2 \<Rightarrow> byte list" where
  "read_inode junk img ngroup offset inode_no g =
     read_into img (unat (inode_offset ngroup offset inode_no g)) INODE_SIZE (fresh junk INODE_SIZE)"

subsection \<open>Walking the blocks of a file\<close>

text \<open>The arrays \<^verbatim>\<open>buffer\<close>, \<^verbatim>\<open>sindirect\<close> and \<^verbatim>\<open>dindirect\<close>.  The ones of \<^verbatim>\<open>main\<close> are allocated before the block
  size is known, with the default of 1024 bytes.\<close>

record bufs =
  bbuf :: "byte list"
  bsind :: "byte list"
  bdind :: "byte list"

definition fill :: "byte list \<Rightarrow> ext2 \<Rightarrow> u32 \<Rightarrow> byte list \<Rightarrow> byte list outcome" where
  "fill img g b old =
     (let r = pread img (unat (BLOCK_OFFSET g b)) (unat (block_size g)) in
      if length r > length old then Panic ''read past the array'' else Ok (r @ drop (length r) old))"

definition pointers :: "byte list \<Rightarrow> u32 list" where
  "pointers bs = map (\<lambda>i. get32 (4 * i) bs) [0..<length bs div 4]"

text \<open>A loop over block numbers that skips the zero ones.\<close>

fun over_words :: "(u32 \<Rightarrow> 's \<Rightarrow> 's outcome) \<Rightarrow> u32 list \<Rightarrow> 's \<Rightarrow> 's outcome" where
  "over_words f [] s = Ok s"
| "over_words f (w # ws) s = (if w = 0 then over_words f ws s else and_then (f w s) (over_words f ws))"

text \<open>The loop over \<^verbatim>\<open>i_block\<close>: direct blocks, the single and the double indirect block; the triple
  indirect block is skipped.\<close>

definition each_block :: "byte list \<Rightarrow> ext2 \<Rightarrow> (u32 \<Rightarrow> bufs \<times> 'a \<Rightarrow> (bufs \<times> 'a) outcome) \<Rightarrow> byte list
    \<Rightarrow> bufs \<times> 'a \<Rightarrow> (bufs \<times> 'a) outcome" where
  "each_block img g f inode s =
     and_then (over_words f (take EXT2_NDIR_BLOCKS (i_block inode)) s) (\<lambda>(bf, a).
     and_then
       (if i_block inode ! 12 = 0 then Ok (bf, a)
        else and_then (fill img g (i_block inode ! 12) (bsind bf)) (\<lambda>si.
             over_words f (pointers si) (bf\<lparr>bsind := si\<rparr>, a))) (\<lambda>(bf, a).
     if i_block inode ! 13 = 0 then Ok (bf, a)
     else and_then (fill img g (i_block inode ! 13) (bsind bf)) (\<lambda>si.
          over_words (\<lambda>w (bf, a). and_then (fill img g w (bdind bf)) (\<lambda>di.
              over_words f (pointers di) (bf\<lparr>bdind := di\<rparr>, a)))
            (pointers si) (bf\<lparr>bsind := si\<rparr>, a))))"

subsection \<open>Copying a file\<close>

definition copy_block :: "byte list \<Rightarrow> ext2 \<Rightarrow> u32 \<Rightarrow> bufs \<times> u32 \<times> byte list \<Rightarrow> (bufs \<times> u32 \<times> byte list) outcome" where
  "copy_block img g b s =
     (case s of (bf, filesize, out) \<Rightarrow>
      let want = (if filesize > block_size g then block_size g else filesize);
          r = pread img (unat (BLOCK_OFFSET g b)) (unat want)
      in Ok (bf\<lparr>bbuf := r @ drop (length r) (bbuf bf)\<rparr>, filesize - of_nat (length r), out @ r))"

definition copied :: "(nat \<Rightarrow> byte) \<Rightarrow> byte list \<Rightarrow> ext2 \<Rightarrow> byte list \<Rightarrow> byte list outcome" where
  "copied junk img g inode =
     (let n = unat (block_size g);
          bf = \<lparr>bbuf = fresh junk n, bsind = fresh junk (n div 4 * 4), bdind = fresh junk (n div 4 * 4)\<rparr>
      in and_then (each_block img g (copy_block img g) inode (bf, i_size2 inode, [])) (\<lambda>(_, _, out). Ok out))"

definition text_bytes :: "string \<Rightarrow> byte list" where "text_bytes s = map of_char s"

definition decimal :: "nat \<Rightarrow> byte list" where
  "decimal n = map ((!) digits) (numeral_of 10 n)"

definition jpg_path :: "byte list \<Rightarrow> nat \<Rightarrow> byte list" where
  "jpg_path dir n = dir @ text_bytes ''/file-'' @ decimal n @ text_bytes ''.jpg''"

text \<open>\<open>opens\<close> tells whether the output file can be created; \<^verbatim>\<open>filename\<close> holds its path with the final NUL.\<close>

definition write_file :: "(byte list \<Rightarrow> bool) \<Rightarrow> nat \<Rightarrow> (nat \<Rightarrow> byte) \<Rightarrow> byte list \<Rightarrow> ext2 \<Rightarrow> byte list \<Rightarrow> byte list
    \<Rightarrow> (byte list \<times> byte list) outcome" where
  "write_file opens cap junk img g inode path =
     (if length path \<ge> cap then Panic ''filename overflow''
      else if \<not> opens path then Panic ''exit 1''
      else and_then (copied junk img g inode) (\<lambda>out. Ok (path, out)))"

definition copy_data :: "(byte list \<Rightarrow> bool) \<Rightarrow> (nat \<Rightarrow> byte) \<Rightarrow> byte list \<Rightarrow> ext2 \<Rightarrow> byte list \<Rightarrow> nat \<Rightarrow> byte list
    \<Rightarrow> (byte list \<times> byte list) outcome" where
  "copy_data opens junk img g inode inode_no dir =
     write_file opens EXT2_NAME_LEN junk img g inode (jpg_path dir inode_no)"

definition copy_data_name :: "(byte list \<Rightarrow> bool) \<Rightarrow> (nat \<Rightarrow> byte) \<Rightarrow> byte list \<Rightarrow> ext2 \<Rightarrow> byte list \<Rightarrow> byte list
    \<Rightarrow> nat \<Rightarrow> byte list list \<Rightarrow> (byte list \<times> byte list) outcome" where
  "copy_data_name opens junk img g inode dir index filenames =
     write_file opens (EXT2_NAME_LEN * 2) junk img g inode (dir @ text_bytes ''/'' @ filenames ! index)"

definition is_jpg :: "byte list \<Rightarrow> bool" where
  "is_jpg buffer \<longleftrightarrow> buffer ! 0 = 0xff \<and> buffer ! 1 = 0xd8 \<and> buffer ! 2 = 0xff
     \<and> (buffer ! 3 = 0xe0 \<or> buffer ! 3 = 0xe1 \<or> buffer ! 3 = 0xe8)"

fun get_index :: "nat \<Rightarrow> u32 list \<Rightarrow> nat \<Rightarrow> nat option" where
  "get_index inode_no [] i = None"
| "get_index inode_no (x # xs) i = (if x = of_nat inode_no then Some i else get_index inode_no xs (Suc i))"

definition get_filename :: "nat \<Rightarrow> u32 list \<Rightarrow> byte list list \<Rightarrow> byte list option" where
  "get_filename inode_no i_array filenames =
     map_option (\<lambda>i. filenames ! i) (get_index inode_no i_array 0)"

subsection \<open>Directories\<close>

text \<open>From one directory entry to the next: the length of the entry is computed from the length of the
  name and not taken from the entry.\<close>

definition entry_step :: "nat \<Rightarrow> nat" where
  "entry_step name_len = (if name_len mod 4 = 0 then 8 + name_len else 8 + name_len + (4 - name_len mod 4))"

text \<open>The loop over the entries of a block: inode numbers and names.  It stops with an error where the code
  would leave \<^verbatim>\<open>buffer\<close> or write behind \<^verbatim>\<open>name\<close>.\<close>

function dir_walk :: "nat \<Rightarrow> byte list \<Rightarrow> nat \<Rightarrow> (u32 \<times> byte list) list outcome" where
  "dir_walk bs buffer pos =
     (if pos < bs
      then if pos + 4 > length buffer then Panic ''read past the array''
           else if get32 pos buffer = 0 then Ok []
           else if pos + 8 > length buffer then Panic ''read past the array''
           else let name_len = unat (buffer ! (pos + 6));
                    chars = take name_len (drop (pos + 8) buffer)
                in if length chars < name_len \<and> 0 \<notin> set chars then Panic ''read past the array''
                   else if name_len \<ge> EXT2_NAME_LEN then Panic ''name overflow''
                   else and_then (dir_walk bs buffer (pos + entry_step name_len)) (\<lambda>es.
                     Ok ((get32 pos buffer, takeWhile (\<lambda>c. c \<noteq> 0) chars) # es))
      else Ok [])"
  by auto

termination dir_walk
  by (relation "measure (\<lambda>(bs, buffer, pos). bs - pos)") (auto simp: entry_step_def)

declare dir_walk.simps [simp del]

text \<open>The entries collected so far, in the arrays \<^verbatim>\<open>i_num\<close> and \<^verbatim>\<open>filenames\<close> of ten times the block size.\<close>

type_synonym entries = "(u32 \<times> byte list) list"

definition dir_block :: "byte list \<Rightarrow> ext2 \<Rightarrow> u32 \<Rightarrow> bufs \<times> entries \<Rightarrow> (bufs \<times> entries) outcome" where
  "dir_block img g b s =
     (case s of (bf, es) \<Rightarrow>
      and_then (fill img g b (bbuf bf)) (\<lambda>buf.
      and_then (dir_walk (unat (block_size g)) buf 24) (\<lambda>new.
        if length es + length new > 10 * unat (block_size g) then Panic ''i_num overflow''
        else Ok (bf\<lparr>bbuf := buf\<rparr>, es @ new))))"

definition dir_inode :: "(nat \<Rightarrow> byte) \<Rightarrow> byte list \<Rightarrow> ext2 \<Rightarrow> u32 \<Rightarrow> nat \<Rightarrow> bufs \<times> entries \<Rightarrow> (bufs \<times> entries) outcome" where
  "dir_inode junk img g table n s =
     (let inode = read_inode junk img 0 table (int n) g in
      if S_ISDIR (i_mode inode) then each_block img g (dir_block img g) inode s else Ok s)"

fun for_inodes :: "(nat \<Rightarrow> 's \<Rightarrow> 's outcome) \<Rightarrow> nat list \<Rightarrow> 's \<Rightarrow> 's outcome" where
  "for_inodes f [] s = Ok s"
| "for_inodes f (n # ns) s = and_then (f n s) (for_inodes f ns)"

subsection \<open>The search for pictures\<close>

type_synonym files = "(byte list \<times> byte list) list"

text \<open>What happens to a block: whether it is a picture, and then the files it is copied to.\<close>

definition jpg_block :: "byte list \<Rightarrow> ext2 \<Rightarrow> (files \<Rightarrow> files outcome) \<Rightarrow> u32 \<Rightarrow> bufs \<times> files
    \<Rightarrow> (bool \<times> bufs \<times> files) outcome" where
  "jpg_block img g copy b s =
     (case s of (bf, out) \<Rightarrow>
      and_then (fill img g b (bbuf bf)) (\<lambda>buf.
        if is_jpg buf then and_then (copy out) (\<lambda>out. Ok (True, bf\<lparr>bbuf := buf\<rparr>, out))
        else Ok (False, bf\<lparr>bbuf := buf\<rparr>, out)))"

text \<open>A loop over block numbers that is left at the first picture.\<close>

fun until_jpg :: "(u32 \<Rightarrow> 's \<Rightarrow> (bool \<times> 's) outcome) \<Rightarrow> u32 list \<Rightarrow> 's \<Rightarrow> (bool \<times> 's) outcome" where
  "until_jpg f [] s = Ok (False, s)"
| "until_jpg f (w # ws) s =
     (if w = 0 then until_jpg f ws s
      else and_then (f w s) (\<lambda>(hit, s). if hit then Ok (True, s) else until_jpg f ws s))"

text \<open>The search in one file.  A picture in a direct block ends it; the \<^verbatim>\<open>break\<close> in the loops over indirect
  blocks only ends the innermost loop.\<close>

definition scan_inode :: "byte list \<Rightarrow> ext2 \<Rightarrow> (files \<Rightarrow> files outcome) \<Rightarrow> byte list \<Rightarrow> bufs \<times> files
    \<Rightarrow> (bufs \<times> files) outcome" where
  "scan_inode img g copy inode s =
     (let f = jpg_block img g copy in
      and_then (until_jpg f (take EXT2_NDIR_BLOCKS (i_block inode)) s) (\<lambda>(hit, s).
      if hit then Ok s
      else and_then
        (if i_block inode ! 12 = 0 then Ok s
         else and_then (fill img g (i_block inode ! 12) (bsind (fst s))) (\<lambda>si.
              and_then (until_jpg f (pointers si) ((fst s)\<lparr>bsind := si\<rparr>, snd s)) (\<lambda>(_, s). Ok s))) (\<lambda>s.
      if i_block inode ! 13 = 0 then Ok s
      else and_then (fill img g (i_block inode ! 13) (bsind (fst s))) (\<lambda>si.
           over_words (\<lambda>w s. and_then (fill img g w (bdind (fst s))) (\<lambda>di.
               and_then (until_jpg f (pointers di) ((fst s)\<lparr>bdind := di\<rparr>, snd s)) (\<lambda>(_, s). Ok s)))
             (pointers si) ((fst s)\<lparr>bsind := si\<rparr>, snd s)))))"

text \<open>Both copies of a picture: under its inode number, and under the first name found for it.\<close>

definition save_both :: "(byte list \<Rightarrow> bool) \<Rightarrow> (nat \<Rightarrow> byte) \<Rightarrow> byte list \<Rightarrow> ext2 \<Rightarrow> byte list \<Rightarrow> entries \<Rightarrow> byte list
    \<Rightarrow> nat \<Rightarrow> files \<Rightarrow> files outcome" where
  "save_both opens junk img g dir es inode n out =
     and_then (copy_data opens junk img g inode n dir) (\<lambda>e.
       case get_index n (map fst es) 0 of None \<Rightarrow> Ok (out @ [e])
       | Some temp \<Rightarrow> and_then (copy_data_name opens junk img g inode dir temp (map snd es)) (\<lambda>e'.
           Ok (out @ [e, e'])))"

definition reg_inode :: "(byte list \<Rightarrow> bool) \<Rightarrow> (nat \<Rightarrow> byte) \<Rightarrow> byte list \<Rightarrow> ext2 \<Rightarrow> u32 \<Rightarrow> byte list \<Rightarrow> entries \<Rightarrow> nat
    \<Rightarrow> bufs \<times> files \<Rightarrow> (bufs \<times> files) outcome" where
  "reg_inode opens junk img g table dir es n s =
     (let inode = read_inode junk img 0 table (int n) g in
      if S_ISREG (i_mode inode) then scan_inode img g (save_both opens junk img g dir es inode n) inode s
      else Ok s)"

definition inode_count :: "ext2 \<Rightarrow> nat" where
  "inode_count g = unat (inodes_per_block g * itable_blocks g)"

text \<open>\<^verbatim>\<open>main\<close>: \<open>exists\<close> and \<open>made\<close> tell whether the output directory exists and could be made, \<open>bf\<close> is what the
  arrays on the stack hold at the start.\<close>

definition runscan :: "(byte list \<Rightarrow> bool) \<Rightarrow> (nat \<Rightarrow> byte) \<Rightarrow> bufs \<Rightarrow> int \<Rightarrow> bool \<Rightarrow> bool \<Rightarrow> byte list \<Rightarrow> byte list
    \<Rightarrow> files outcome" where
  "runscan opens junk bf argc exists made dir img =
     (if argc \<noteq> 3 then Panic ''exit 0''
      else if exists then Panic ''exit 1''
      else if \<not> made then Panic ''exit 1''
      else and_then (ext2_read_init junk img
               \<lparr>block_size = 1024, inodes_per_block = 0, itable_blocks = 0, blocks_per_group = 0, num_groups = 0,
                inodes_per_group = 0\<rparr>) (\<lambda>g.
      and_then (read_super_block junk img 0 g) (\<lambda>(_, _, g).
      and_then (read_group_desc junk img 0 g) (\<lambda>grp.
      let table = locate_inode_table 0 grp g; ns = [0..<inode_count g] in
      and_then (for_inodes (dir_inode junk img g table) ns (bf, [])) (\<lambda>(bf, es).
      and_then (for_inodes (reg_inode opens junk img g table dir es) ns (bf, [])) (\<lambda>(bf, out).
        Ok out))))))"

subsection \<open>Powers\<close>

lemma isPowerOf_zero: "2 \<le> n \<Longrightarrow> isPowerOf 0 n = None"
proof (rule ccontr)
  assume n: "2 \<le> n" and "isPowerOf 0 n \<noteq> None"
  then obtain y where y: "isPowerOf 0 n = Some y" by auto
  have "2 \<le> n \<longrightarrow> (0::int) \<noteq> 0"
  proof (rule isPowerOf.raw_induct [OF _ y, where P = "\<lambda>m n y. 2 \<le> n \<longrightarrow> m \<noteq> 0"])
    fix f :: "int \<Rightarrow> int \<Rightarrow> int option" and m n y
    assume "\<And>m n y. f m n = Some y \<Longrightarrow> 2 \<le> n \<longrightarrow> m \<noteq> 0"
      "(if m \<noteq> 1 then if m mod n \<noteq> 0 then Some 0 else f (m div n) n else Some 1) = Some y"
    then show "2 \<le> n \<longrightarrow> m \<noteq> 0" by (cases "m = 0") fastforce+
  qed
  then show False using n by simp
qed

lemma power_step:
  fixes n :: int
  assumes "2 \<le> n" "m \<noteq> 1" "m mod n = 0"
  shows "(\<exists>k. m = n ^ k) \<longleftrightarrow> (\<exists>k. m div n = n ^ k)"
proof -
  have m: "m = n * (m div n)" using assms(3) by (metis mult_div_mod_eq add.right_neutral)
  show ?thesis
  proof
    assume "\<exists>k. m = n ^ k"
    then obtain k where k: "m = n ^ k" by blast
    then obtain j where "k = Suc j" using assms(2) by (cases k) auto
    then have "m div n = n ^ j" using k assms(1) by simp
    then show "\<exists>k. m div n = n ^ k" by blast
  next
    assume "\<exists>k. m div n = n ^ k"
    then obtain k where "m div n = n ^ k" by blast
    then have "m = n ^ Suc k" using m by simp
    then show "\<exists>k. m = n ^ k" by blast
  qed
qed

lemma isPowerOf_pos:
  fixes n :: int
  assumes "2 \<le> n" "0 < m"
  shows "isPowerOf m n = Some (if \<exists>k. m = n ^ k then 1 else 0)"
  using assms(2)
proof (induction "nat m" arbitrary: m rule: less_induct)
  case less
  show ?case
  proof (cases "m = 1")
    case True
    moreover have "\<exists>k. (1::int) = n ^ k" by (rule exI [of _ 0]) simp
    ultimately show ?thesis by (subst isPowerOf.simps) auto
  next
    case ne: False
    show ?thesis
    proof (cases "m mod n = 0")
      case True
      have "m = n * (m div n)" using True by (metis mult_div_mod_eq add.right_neutral)
      moreover have "0 < m div n" using calculation less.prems assms(1) by (metis linorder_neqE_linordered_idom
            mult_eq_0_iff mult_pos_neg not_less_iff_gr_or_eq order_less_le_trans zero_less_numeral)
      moreover have "m div n < m" using less.prems assms(1) by (intro int_div_less_self) auto
      ultimately have "isPowerOf (m div n) n = Some (if \<exists>k. m div n = n ^ k then 1 else 0)"
        using less.hyps [of "m div n"] by simp
      then show ?thesis using True ne power_step [OF assms(1) ne True] by (subst isPowerOf.simps) simp
    next
      case False
      have "\<not> (\<exists>k. m = n ^ k)"
      proof
        assume "\<exists>k. m = n ^ k"
        then obtain k where "m = n ^ k" by blast
        then show False using ne False by (cases k) auto
      qed
      then show ?thesis using ne False by (subst isPowerOf.simps) simp
    qed
  qed
qed

text \<open>\<^verbatim>\<open>isPowerOf\<close> returns 1 for the powers of \<open>n\<close> and 0 for the other positive numbers; on 0 it never
  returns.\<close>

theorem isPowerOf_correct:
  assumes "2 \<le> n"
  shows "isPowerOf 0 n = None \<and> (\<forall>m > 0. isPowerOf m n = Some (if \<exists>k. m = n ^ k then 1 else 0))"
  using isPowerOf_zero [OF assms] isPowerOf_pos [OF assms] by simp

theorem isPowerOf_correct_witness: "isPowerOf 0 3 = None \<and> isPowerOf 49 7 = Some 1"
proof -
  have "\<exists>k. (49::int) = 7 ^ k" by (rule exI [of _ 2]) simp
  then show ?thesis using isPowerOf_correct [of 3] isPowerOf_correct [of 7] by simp
qed

text \<open>\<^verbatim>\<open>powersBelow\<close> does not count the powers below a number but how often it can be divided.\<close>

lemma powersBelow_divides:
  assumes "2 \<le> n" "m mod n \<noteq> 0"
  shows "powersBelow cnt (n ^ k * m) n = Some (cnt + int k)"
proof (induction k arbitrary: cnt)
  case 0
  then show ?case using assms by (subst powersBelow.simps) auto
next
  case (Suc k)
  have "n ^ Suc k * m \<noteq> 1"
    using assms(1) by (metis dvd_triv_left mult.assoc not_numeral_le_zero power_Suc zdvd_imp_le zero_less_one zdvd1_eq abs_of_nonneg order_trans zero_le_numeral numeral_le_one_iff semiring_norm(69))
  then show ?case using Suc [of "cnt + 1"] assms(1) by (subst powersBelow.simps) simp
qed

subsection \<open>Images with blocks of 1024 bytes\<close>

text \<open>A block that lies in the image, and its contents.\<close>

definition in_image :: "byte list \<Rightarrow> u32 \<Rightarrow> bool" where
  "in_image img b \<longleftrightarrow> unat b * 1024 + 1024 \<le> length img \<and> length img < 2 ^ 32"

definition block_of :: "byte list \<Rightarrow> u32 \<Rightarrow> byte list" where
  "block_of img b = take 1024 (drop (unat b * 1024) img)"

lemma length_block_of: "in_image img b \<Longrightarrow> length (block_of img b) = 1024"
  by (auto simp: in_image_def block_of_def min_def)

lemma block_offset_1024:
  assumes "block_size g = 1024" "in_image img b"
  shows "unat (BLOCK_OFFSET g b) = unat b * 1024"
proof -
  have e: "BLOCK_OFFSET g b = b * 1024" using assms(1) by (simp add: BLOCK_OFFSET_def BASE_OFFSET_def algebra_simps)
  have "unat (b * 1024) = (unat b * 1024) mod 2 ^ 32" by (simp add: unat_word_ariths)
  also have "\<dots> = unat b * 1024" using assms(2) by (simp add: in_image_def)
  finally show ?thesis by (simp only: e)
qed

lemma fill_block:
  assumes "block_size g = 1024" "in_image img b" "length old = 1024"
  shows "fill img g b old = Ok (block_of img b)"
proof -
  have "pread img (unat (BLOCK_OFFSET g b)) (unat (block_size g)) = block_of img b"
    unfolding pread_def block_of_def block_offset_1024 [OF assms(1,2)] using assms(1) by simp
  then show ?thesis using length_block_of [OF assms(2)] assms(3) by (simp add: fill_def)
qed

abbreviation nonzero :: "u32 list \<Rightarrow> u32 list" where
  "nonzero ws \<equiv> filter (\<lambda>w. w \<noteq> 0) ws"

text \<open>The data blocks of a file in order, holes left out.\<close>

definition single_blocks :: "byte list \<Rightarrow> u32 \<Rightarrow> u32 list" where
  "single_blocks img b = (if b = 0 then [] else nonzero (pointers (block_of img b)))"

definition data_blocks :: "byte list \<Rightarrow> byte list \<Rightarrow> u32 list" where
  "data_blocks img inode =
     nonzero (take EXT2_NDIR_BLOCKS (i_block inode)) @ single_blocks img (i_block inode ! 12)
       @ concat (map (single_blocks img) (single_blocks img (i_block inode ! 13)))"

definition pointers_ok :: "byte list \<Rightarrow> byte list \<Rightarrow> bool" where
  "pointers_ok img inode \<longleftrightarrow>
     list_all (\<lambda>b. b = 0 \<or> in_image img b) [i_block inode ! 12, i_block inode ! 13]
     \<and> list_all (in_image img) (single_blocks img (i_block inode ! 13))
     \<and> list_all (in_image img) (data_blocks img inode)"

definition bufs_ok :: "bufs \<Rightarrow> bool" where
  "bufs_ok bf \<longleftrightarrow> length (bbuf bf) = 1024 \<and> length (bsind bf) = 1024 \<and> length (bdind bf) = 1024"

text \<open>A loop whose body computes \<open>h\<close> on its own state is the fold of \<open>h\<close> over the non-zero entries.\<close>

lemma over_words_fold:
  assumes "bufs_ok bf"
    and "\<And>ps w qs bf. nonzero ws = ps @ w # qs \<Longrightarrow> bufs_ok bf \<Longrightarrow>
      \<exists>bf'. f w (bf, fold h ps a) = Ok (bf', h w (fold h ps a)) \<and> bufs_ok bf'"
  shows "\<exists>bf'. over_words f ws (bf, a) = Ok (bf', fold h (nonzero ws) a) \<and> bufs_ok bf'"
  using assms
proof (induction ws arbitrary: bf a)
  case (Cons w ws)
  show ?case
  proof (cases "w = 0")
    case True
    then show ?thesis using Cons.IH [OF Cons.prems(1), of a] Cons.prems(2) by simp
  next
    case False
    obtain bf1 where b1: "f w (bf, a) = Ok (bf1, h w a)" "bufs_ok bf1"
      using Cons.prems(2) [of "[]" w "nonzero ws" bf] False Cons.prems(1) by auto
    have "\<exists>bf'. over_words f ws (bf1, h w a) = Ok (bf', fold h (nonzero ws) (h w a)) \<and> bufs_ok bf'"
    proof (rule Cons.IH [OF b1(2)])
      fix ps v qs bf assume "nonzero ws = ps @ v # qs" "bufs_ok bf"
      then show "\<exists>bf'. f v (bf, fold h ps (h w a)) = Ok (bf', h v (fold h ps (h w a))) \<and> bufs_ok bf'"
        using Cons.prems(2) [of "w # ps" v qs bf] False by simp
    qed
    then show ?thesis using False b1(1) by simp
  qed
qed simp

lemma fold_concat: "fold (\<lambda>w. fold h (k w)) ws a = fold h (concat (map k ws)) a"
  by (induction ws arbitrary: a) auto

lemma single_fold:
  assumes g: "block_size g = 1024" and b: "b = 0 \<or> in_image img b" "bufs_ok bf"
    and upd: "length (rd_buf bf) = 1024" "\<And>si. length si = 1024 \<Longrightarrow> bufs_ok (wr_buf si bf)"
    and k: "\<And>ps w qs bf. single_blocks img b = ps @ w # qs \<Longrightarrow> bufs_ok bf \<Longrightarrow>
        \<exists>bf'. k w (bf, fold j ps c) = Ok (bf', j w (fold j ps c)) \<and> bufs_ok bf'"
  shows "\<exists>bf'. (if b = 0 then Ok (bf, c) else and_then (fill img g b (rd_buf bf)) (\<lambda>si.
      over_words k (pointers si) (wr_buf si bf, c))) = Ok (bf', fold j (single_blocks img b) c) \<and> bufs_ok bf'"
proof (cases "b = 0")
  case True
  then show ?thesis using b(2) by (simp add: single_blocks_def)
next
  case False
  then have i: "in_image img b" using b(1) by simp
  have s: "single_blocks img b = nonzero (pointers (block_of img b))" using False by (simp add: single_blocks_def)
  have "\<exists>bf'. over_words k (pointers (block_of img b)) (wr_buf (block_of img b) bf, c)
      = Ok (bf', fold j (nonzero (pointers (block_of img b))) c) \<and> bufs_ok bf'"
    by (rule over_words_fold [OF upd(2) [OF length_block_of [OF i]]]) (use k s in simp)
  then show ?thesis using False fill_block [OF g i upd(1)] s by simp
qed

lemma each_block_fold:
  assumes g: "block_size g = 1024" and p: "pointers_ok img inode" and b: "bufs_ok bf"
    and f: "\<And>ps w qs bf. data_blocks img inode = ps @ w # qs \<Longrightarrow> bufs_ok bf \<Longrightarrow>
      \<exists>bf'. f w (bf, fold h ps a) = Ok (bf', h w (fold h ps a)) \<and> bufs_ok bf'"
  shows "\<exists>bf'. each_block img g f inode (bf, a) = Ok (bf', fold h (data_blocks img inode) a) \<and> bufs_ok bf'"
proof -
  let ?ib = "i_block inode"
  let ?D = "nonzero (take EXT2_NDIR_BLOCKS ?ib)" and ?S = "single_blocks img (?ib ! 12)"
  let ?L = "single_blocks img (?ib ! 13)"
  have db: "data_blocks img inode = ?D @ ?S @ concat (map (single_blocks img) ?L)" by (simp add: data_blocks_def)
  have ok: "?ib ! 12 = 0 \<or> in_image img (?ib ! 12)" "?ib ! 13 = 0 \<or> in_image img (?ib ! 13)"
    "\<forall>w \<in> set ?L. in_image img w \<and> w \<noteq> 0"
    using p by (auto simp: pointers_ok_def list_all_iff single_blocks_def)
  obtain bf1 where 1: "over_words f (take EXT2_NDIR_BLOCKS ?ib) (bf, a) = Ok (bf1, fold h ?D a)" "bufs_ok bf1"
    using over_words_fold [OF b, of "take EXT2_NDIR_BLOCKS ?ib" f h a] f db by auto
  let ?a1 = "fold h ?D a"
  obtain bf2 where 2: "(if ?ib ! 12 = 0 then Ok (bf1, ?a1) else and_then (fill img g (?ib ! 12) (bsind bf1)) (\<lambda>si.
      over_words f (pointers si) (bf1\<lparr>bsind := si\<rparr>, ?a1))) = Ok (bf2, fold h ?S ?a1)" "bufs_ok bf2"
  proof (atomize_elim, rule single_fold [OF g ok(1) 1(2), where rd_buf = bsind and wr_buf = "\<lambda>si bf. bf\<lparr>bsind := si\<rparr>"])
    fix ps w qs bf assume "?S = ps @ w # qs" "bufs_ok bf"
    then show "\<exists>bf'. f w (bf, fold h ps ?a1) = Ok (bf', h w (fold h ps ?a1)) \<and> bufs_ok bf'"
      using f [of "?D @ ps" w "qs @ concat (map (single_blocks img) ?L)" bf] db by simp
  qed (use 1(2) in \<open>simp_all add: bufs_ok_def\<close>)
  let ?a2 = "fold h ?S ?a1"
  let ?k = "\<lambda>w (bf, a). and_then (fill img g w (bdind bf)) (\<lambda>di. over_words f (pointers di) (bf\<lparr>bdind := di\<rparr>, a))"
  let ?j = "\<lambda>w. fold h (single_blocks img w)"
  obtain bf3 where 3: "(if ?ib ! 13 = 0 then Ok (bf2, ?a2) else and_then (fill img g (?ib ! 13) (bsind bf2)) (\<lambda>si.
      over_words ?k (pointers si) (bf2\<lparr>bsind := si\<rparr>, ?a2))) = Ok (bf3, fold ?j ?L ?a2)" "bufs_ok bf3"
  proof (atomize_elim, rule single_fold [OF g ok(2) 2(2), where rd_buf = bsind and wr_buf = "\<lambda>si bf. bf\<lparr>bsind := si\<rparr>"])
    fix ps w qs bf assume L: "?L = ps @ w # qs" and bf: "bufs_ok bf"
    have w: "in_image img w" "w \<noteq> 0" using ok(3) L by auto
    let ?c = "fold ?j ps ?a2"
    have "\<exists>bf'. (if w = 0 then Ok (bf, ?c) else and_then (fill img g w (bdind bf)) (\<lambda>si.
        over_words f (pointers si) (bf\<lparr>bdind := si\<rparr>, ?c))) = Ok (bf', fold h (single_blocks img w) ?c) \<and> bufs_ok bf'"
    proof (rule single_fold [OF g _ bf, where rd_buf = bdind and wr_buf = "\<lambda>si bf. bf\<lparr>bdind := si\<rparr>"])
      fix rs v us bf assume "single_blocks img w = rs @ v # us" "bufs_ok bf"
      then show "\<exists>bf'. f v (bf, fold h rs ?c) = Ok (bf', h v (fold h rs ?c)) \<and> bufs_ok bf'"
        using f [of "?D @ ?S @ concat (map (single_blocks img) ps) @ rs" v
            "us @ concat (map (single_blocks img) qs)" bf] db L by (simp add: fold_concat)
    qed (use bf w in \<open>simp_all add: bufs_ok_def\<close>)
    then show "\<exists>bf'. ?k w (bf, fold ?j ps ?a2) = Ok (bf', ?j w (fold ?j ps ?a2)) \<and> bufs_ok bf'"
      using w(2) by simp
  qed (use 2(2) in \<open>simp_all add: bufs_ok_def\<close>)
  have "fold ?j ?L ?a2 = fold h (data_blocks img inode) a" by (simp add: db fold_concat)
  then show ?thesis using 1(1) 2(1) 3 by (simp add: each_block_def)
qed

subsection \<open>What is copied\<close>

lemma copy_block_ok:
  assumes "block_size g = 1024" "in_image img w" "bufs_ok bf"
  shows "\<exists>bf'. copy_block img g w (bf, fs, out) =
      Ok (bf', fs - of_nat (min (unat fs) 1024), out @ take (unat fs) (block_of img w)) \<and> bufs_ok bf'"
proof -
  define want where "want = (if fs > block_size g then block_size g else fs)"
  have u: "unat want = min (unat fs) 1024" using assms(1) by (simp add: want_def word_less_nat_alt min_def)
  define r where "r = pread img (unat (BLOCK_OFFSET g w)) (unat want)"
  have r: "r = take (unat fs) (block_of img w)"
    unfolding r_def pread_def block_of_def block_offset_1024 [OF assms(1,2)] u by (simp add: min.commute)
  have "length r = min (unat fs) 1024" using length_block_of [OF assms(2)] by (simp add: r min.commute)
  then show ?thesis
    using assms(3) r by (simp add: copy_block_def Let_def want_def [symmetric] r_def [symmetric] bufs_ok_def)
qed

lemma copy_fold:
  assumes "\<forall>w \<in> set ws. length (blk w) = 1024"
  shows "snd (fold (\<lambda>w (fs, out). (fs - of_nat (min (unat fs) 1024), out @ take (unat (fs :: u32)) (blk w))) ws (fs, out))
    = out @ take (unat fs) (concat (map blk ws))"
  using assms
proof (induction ws arbitrary: fs out)
  case (Cons w ws)
  define n where "n = min (unat fs) 1024"
  have lt: "n < 2 ^ 32" using unsigned_less [of fs] by (simp add: n_def)
  have un: "unat (of_nat n :: u32) = n" using lt by (simp add: unat_of_nat)
  then have "unat (fs - of_nat n) = unat fs - n" by (simp add: unat_sub word_le_nat_alt n_def)
  moreover have "take (unat fs) (blk w) @ take (unat fs - n) rest = take (unat fs) (blk w @ rest)" for rest
    using Cons.prems by (simp add: n_def min_def)
  ultimately show ?case
    using Cons.IH [of "fs - of_nat n" "out @ take (unat fs) (blk w)"] Cons.prems by (simp add: n_def)
qed simp

text \<open>The file written for an inode holds the first \<^verbatim>\<open>i_size\<close> bytes of its data blocks in order: direct,
  single and double indirect.\<close>

lemma copied_contents:
  assumes "block_size g = 1024" "pointers_ok img inode"
  shows "copied junk img g inode = Ok (take (unat (i_size2 inode)) (concat (map (block_of img) (data_blocks img inode))))"
proof -
  let ?h = "\<lambda>w (fs, out). (fs - of_nat (min (unat fs) 1024), out @ take (unat (fs :: u32)) (block_of img w))"
  define bf where "bf = \<lparr>bbuf = fresh junk 1024, bsind = fresh junk 1024, bdind = fresh junk 1024\<rparr>"
  have "bufs_ok bf" by (simp add: bf_def bufs_ok_def fresh_def)
  moreover have "\<exists>bf'. copy_block img g w (bf, fold ?h ps (i_size2 inode, [])) = Ok (bf', ?h w (fold ?h ps (i_size2 inode, []))) \<and> bufs_ok bf'"
    if "data_blocks img inode = ps @ w # qs" "bufs_ok bf" for ps w qs bf
  proof -
    have "in_image img w" using assms(2) that(1) by (simp add: pointers_ok_def)
    from copy_block_ok [OF assms(1) this that(2)] show ?thesis
      by (cases "fold ?h ps (i_size2 inode, [])") simp
  qed
  ultimately obtain bf' where "each_block img g (copy_block img g) inode (bf, i_size2 inode, [])
      = Ok (bf', fold ?h (data_blocks img inode) (i_size2 inode, []))"
    using each_block_fold [OF assms, of bf "copy_block img g" ?h "(i_size2 inode, [])"] by blast
  moreover have "snd (fold ?h (data_blocks img inode) (i_size2 inode, []))
      = [] @ take (unat (i_size2 inode)) (concat (map (block_of img) (data_blocks img inode)))"
    by (rule copy_fold) (use assms(2) length_block_of in \<open>auto simp: pointers_ok_def list_all_iff\<close>)
  ultimately show ?thesis
    using assms(1) by (simp add: copied_def bf_def [symmetric] split_beta)
qed

subsection \<open>What is found in directories\<close>

text \<open>A directory entry as the file system writes it, with any record length and file type; a deleted
  entry is still there, covered by the record length of the one before.\<close>

type_synonym dirent = "u32 \<times> u16 \<times> byte \<times> byte list"

definition encode_entry :: "dirent \<Rightarrow> byte list" where
  "encode_entry e =
     (case e of (ino, rec_len, ftype, name) \<Rightarrow>
      le32 ino @ le16 rec_len @ [of_nat (length name), ftype] @ name
        @ replicate (entry_step (length name) - 8 - length name) 0)"

definition entry_ok :: "dirent \<Rightarrow> bool" where
  "entry_ok e \<longleftrightarrow> (case e of (ino, rec_len, ftype, name) \<Rightarrow> ino \<noteq> 0 \<and> 0 \<notin> set name \<and> length name < 255)"

definition name_of :: "dirent \<Rightarrow> u32 \<times> byte list" where
  "name_of e = (case e of (ino, rec_len, ftype, name) \<Rightarrow> (ino, name))"

lemma length_encode_entry: "length (encode_entry (ino, rl, ft, name)) = entry_step (length name)"
  by (simp add: encode_entry_def entry_step_def)

lemma walk_entry:
  assumes "entry_ok (ino, rl, ft, name)" and B: "B = pre @ encode_entry (ino, rl, ft, name) @ rest"
  shows "dir_walk (length B) B (length pre)
    = and_then (dir_walk (length B) B (length pre + entry_step (length name))) (\<lambda>es. Ok ((ino, name) # es))"
proof -
  have ok: "ino \<noteq> 0" "0 \<notin> set name" "length name < 255" using assms(1) by (simp_all add: entry_ok_def)
  have st: "8 + length name \<le> entry_step (length name)" unfolding entry_step_def by auto
  have i: "get32 (length pre) B = ino"
    using un32_le32 [of ino "[]"] by (simp add: B get32_def get_bytes_def encode_entry_def)
  have nl: "unat (B ! (length pre + 6)) = length name"
    using ok(3) by (simp add: B encode_entry_def nth_append unat_of_nat)
  have nm: "take (length name) (drop (length pre + 8) B) = name"
    by (simp add: B encode_entry_def)
  have tw: "takeWhile (\<lambda>c. c \<noteq> 0) name = name" using ok(2) by (simp add: takeWhile_eq_all_conv) metis
  have "length B = length pre + entry_step (length name) + length rest" by (simp add: B length_encode_entry)
  then have "length pre < length B" "\<not> length B < length pre + 4" "\<not> length B < length pre + 8"
    using st by simp_all
  moreover have "min (length B - (length pre + 8)) (length name) = length name"
    using arg_cong [OF nm, of length] by simp
  ultimately show ?thesis
    using ok by (subst dir_walk.simps) (simp add: i nl nm tw Let_def EXT2_NAME_LEN_def)
qed

lemma walk_entries:
  assumes "\<forall>e \<in> set es. entry_ok e" "bs = length (pre @ concat (map encode_entry es) @ replicate k 0)" "4 dvd k"
  shows "dir_walk bs (pre @ concat (map encode_entry es) @ replicate k 0) (length pre) = Ok (map name_of es)"
  using assms(1,2)
proof (induction es arbitrary: pre)
  case Nil
  show ?case
  proof (cases "k = 0")
    case True
    then show ?thesis using Nil by (subst dir_walk.simps) simp
  next
    case False
    then obtain j where "k = 4 + j" using assms(3) by (metis add.commute dvd_imp_le le_add_diff_inverse2 neq0_conv)
    then have z: "replicate k (0::byte) = le32 0 @ replicate j 0" by (simp add: le32_def replicate_add numeral_eq_Suc)
    have "get32 (length pre) (pre @ replicate k 0) = 0"
      unfolding z using un32_le32 [of 0 "[]"] by (simp add: get32_def get_bytes_def)
    then show ?thesis using Nil \<open>k = 4 + j\<close> by (subst dir_walk.simps) simp
  qed
next
  case (Cons e es)
  obtain ino rl ft name where e: "e = (ino, rl, ft, name)" by (cases e) auto
  let ?rest = "concat (map encode_entry es) @ replicate k 0"
  have "dir_walk bs ((pre @ encode_entry e) @ ?rest) (length (pre @ encode_entry e)) = Ok (map name_of es)"
    using Cons.IH [of "pre @ encode_entry e"] Cons.prems by simp
  moreover have "length (pre @ encode_entry e) = length pre + entry_step (length name)"
    by (simp add: e length_encode_entry)
  ultimately show ?case
    using walk_entry [of ino rl ft name "pre @ encode_entry e @ ?rest" pre ?rest] Cons.prems
    by (simp add: e name_of_def)
qed

text \<open>in a block that starts with the entries of the directory itself and its parent, the walk returns the
  names and inode numbers of all entries that follow, in order and whatever their record lengths
  are: entries that were deleted are found too.\<close>

theorem dir_walk_entries:
  assumes "length dots = 24" "\<forall>e \<in> set es. entry_ok e" "4 dvd k"
    and "length (dots @ concat (map encode_entry es) @ replicate k 0) = 1024"
  shows "dir_walk 1024 (dots @ concat (map encode_entry es) @ replicate k 0) 24 = Ok (map name_of es)"
  using walk_entries [OF assms(2) assms(4) [symmetric] assms(3)] assms(1) by simp

theorem dir_walk_entries_witness:
  "dir_walk 1024 (replicate 24 1 @ encode_entry (12, 12, 1, [97, 46, 106]) @ replicate 988 0) 24 = Ok [(12, [97, 46, 106])]"
proof -
  have "4 dvd (988::nat)" by (simp add: dvd_def)
  moreover have "length (replicate 24 1 @ concat (map encode_entry [(12, 12, 1, [97, 46, 106])]) @ replicate 988 0) = 1024"
    by (simp add: length_encode_entry entry_step_def)
  ultimately show ?thesis
    using dir_walk_entries [of "replicate 24 1" "[(12, 12, 1, [97, 46, 106])]" 988]
    by (simp add: entry_ok_def name_of_def)
qed

subsection \<open>Which pictures are found\<close>

definition has_jpg :: "byte list \<Rightarrow> u32 list \<Rightarrow> bool" where
  "has_jpg img bs \<longleftrightarrow> list_ex (\<lambda>b. is_jpg (block_of img b)) bs"

lemma has_jpg_simps [simp]: "\<not> has_jpg img []" "has_jpg img (b # bs) \<longleftrightarrow> is_jpg (block_of img b) \<or> has_jpg img bs"
  "has_jpg img (bs @ cs) \<longleftrightarrow> has_jpg img bs \<or> has_jpg img cs"
  "has_jpg img (concat bss) \<longleftrightarrow> list_ex (has_jpg img) bss"
  by (auto simp: has_jpg_def list_ex_iff)

lemma until_jpg_ok:
  assumes "block_size g = 1024" "list_all (in_image img) (nonzero ws)" "bufs_ok bf" "copy out = Ok (out @ ev)"
  shows "\<exists>bf'. until_jpg (jpg_block img g copy) ws (bf, out)
      = Ok (has_jpg img (nonzero ws), bf', if has_jpg img (nonzero ws) then out @ ev else out) \<and> bufs_ok bf'"
  using assms(2,3)
proof (induction ws arbitrary: bf)
  case (Cons w ws)
  show ?case
  proof (cases "w = 0")
    case True
    then show ?thesis using Cons by simp
  next
    case False
    then have "in_image img w" using Cons.prems by simp
    then have f: "fill img g w (bbuf bf) = Ok (block_of img w)" "length (block_of img w) = 1024"
      using fill_block [OF assms(1), of img w "bbuf bf"] Cons.prems(2) by (auto simp: bufs_ok_def length_block_of)
    then have "bufs_ok (bf\<lparr>bbuf := block_of img w\<rparr>)" using Cons.prems(2) by (simp add: bufs_ok_def)
    with Cons.IH [OF _ this] Cons.prems(1) show ?thesis
      using False f assms(4) by (cases "is_jpg (block_of img w)") (auto simp: jpg_block_def)
  qed
qed simp

lemma single_jpg:
  assumes g: "block_size g = 1024" and b: "b = 0 \<or> in_image img b" "list_all (in_image img) (single_blocks img b)"
    and bf: "bufs_ok bf" "length (rd_buf bf) = 1024" "\<And>si. length si = 1024 \<Longrightarrow> bufs_ok (wr_buf si bf)"
    and c: "copy out = Ok (out @ ev)"
  shows "\<exists>bf'. (if b = 0 then Ok (bf, out) else and_then (fill img g b (rd_buf bf)) (\<lambda>si.
      and_then (until_jpg (jpg_block img g copy) (pointers si) (wr_buf si bf, out)) (\<lambda>(_, s). Ok s)))
    = Ok (bf', if has_jpg img (single_blocks img b) then out @ ev else out) \<and> bufs_ok bf'"
proof (cases "b = 0")
  case True
  then show ?thesis using bf(1) by (simp add: single_blocks_def)
next
  case False
  then have i: "in_image img b" "single_blocks img b = nonzero (pointers (block_of img b))"
    using b(1) by (simp_all add: single_blocks_def)
  have "bufs_ok (wr_buf (block_of img b) bf)" by (rule bf(3) [OF length_block_of [OF i(1)]])
  from until_jpg_ok [OF g b(2) [unfolded i(2)] this, of copy out ev] c show ?thesis
    using False fill_block [OF g i(1) bf(2)] i(2) by auto
qed

lemma scan_inode_ok:
  assumes g: "block_size g = 1024" and p: "pointers_ok img inode" and b: "bufs_ok bf"
    and c: "\<And>out. copy out = Ok (out @ ev)"
  shows "\<exists>bf' out'. scan_inode img g copy inode (bf, out) = Ok (bf', out') \<and> bufs_ok bf'
    \<and> set out' = set out \<union> (if has_jpg img (data_blocks img inode) then set ev else {})"
proof -
  let ?ib = "i_block inode" and ?f = "jpg_block img g copy"
  let ?D = "nonzero (take EXT2_NDIR_BLOCKS ?ib)" and ?S = "single_blocks img (?ib ! 12)"
  let ?L = "single_blocks img (?ib ! 13)"
  have db: "data_blocks img inode = ?D @ ?S @ concat (map (single_blocks img) ?L)" by (simp add: data_blocks_def)
  have ok: "?ib ! 12 = 0 \<or> in_image img (?ib ! 12)" "?ib ! 13 = 0 \<or> in_image img (?ib ! 13)"
    "\<forall>w \<in> set ?L. in_image img w \<and> w \<noteq> 0" "list_all (in_image img) ?D" "list_all (in_image img) ?S"
    "\<forall>w \<in> set ?L. list_all (in_image img) (single_blocks img w)"
    using p by (auto simp: pointers_ok_def list_all_iff single_blocks_def data_blocks_def)
  obtain bf1 where 1: "until_jpg ?f (take EXT2_NDIR_BLOCKS ?ib) (bf, out)
      = Ok (has_jpg img ?D, bf1, if has_jpg img ?D then out @ ev else out)" "bufs_ok bf1"
    using until_jpg_ok [OF g ok(4) b, of copy out ev] c by blast
  show ?thesis
  proof (cases "has_jpg img ?D")
    case True
    then show ?thesis using 1 by (simp add: scan_inode_def db Un_commute)
  next
    case nD: False
    let ?o2 = "if has_jpg img ?S then out @ ev else out"
    have "\<exists>bf2. (if ?ib ! 12 = 0 then Ok (bf1, out) else and_then (fill img g (?ib ! 12) (bsind bf1)) (\<lambda>si.
        and_then (until_jpg ?f (pointers si) (bf1\<lparr>bsind := si\<rparr>, out)) (\<lambda>(_, s). Ok s))) = Ok (bf2, ?o2) \<and> bufs_ok bf2"
      by (rule single_jpg [OF g ok(1,5) 1(2), where rd_buf = bsind and wr_buf = "\<lambda>si bf. bf\<lparr>bsind := si\<rparr>"])
        (use 1(2) c in \<open>simp_all add: bufs_ok_def\<close>)
    then obtain bf2 where 2: "(if ?ib ! 12 = 0 then Ok (bf1, out) else and_then (fill img g (?ib ! 12) (bsind bf1)) (\<lambda>si.
        and_then (until_jpg ?f (pointers si) (bf1\<lparr>bsind := si\<rparr>, out)) (\<lambda>(_, s). Ok s))) = Ok (bf2, ?o2)" "bufs_ok bf2" by blast
    let ?k = "\<lambda>w s. and_then (fill img g w (bdind (fst s))) (\<lambda>di.
        and_then (until_jpg ?f (pointers di) ((fst s)\<lparr>bdind := di\<rparr>, snd s)) (\<lambda>(_, s). Ok s))"
    let ?j = "\<lambda>w out. if has_jpg img (single_blocks img w) then out @ ev else out"
    have "\<exists>bf3. (if ?ib ! 13 = 0 then Ok (bf2, ?o2) else and_then (fill img g (?ib ! 13) (bsind bf2)) (\<lambda>si.
        over_words ?k (pointers si) (bf2\<lparr>bsind := si\<rparr>, ?o2))) = Ok (bf3, fold ?j ?L ?o2) \<and> bufs_ok bf3"
    proof (rule single_fold [OF g ok(2) 2(2), where rd_buf = bsind and wr_buf = "\<lambda>si bf. bf\<lparr>bsind := si\<rparr>"])
      fix ps w qs bf assume L: "?L = ps @ w # qs" and bf: "bufs_ok bf"
      have w: "w = 0 \<or> in_image img w" "w \<noteq> 0" "list_all (in_image img) (single_blocks img w)" using ok(3,6) L by auto
      show "\<exists>bf'. ?k w (bf, fold ?j ps ?o2) = Ok (bf', ?j w (fold ?j ps ?o2)) \<and> bufs_ok bf'"
        using single_jpg [OF g w(1,3) bf, where rd_buf = bdind and wr_buf = "\<lambda>si bf. bf\<lparr>bdind := si\<rparr>"
            and copy = copy and out = "fold ?j ps ?o2" and ev = ev] w(2) bf c by (simp add: bufs_ok_def)
    qed (use 2(2) in \<open>simp_all add: bufs_ok_def\<close>)
    then obtain bf3 where 3: "(if ?ib ! 13 = 0 then Ok (bf2, ?o2) else and_then (fill img g (?ib ! 13) (bsind bf2)) (\<lambda>si.
        over_words ?k (pointers si) (bf2\<lparr>bsind := si\<rparr>, ?o2))) = Ok (bf3, fold ?j ?L ?o2)" "bufs_ok bf3" by blast
    have "set (fold ?j ws o') = set o' \<union> (if list_ex (has_jpg img) (map (single_blocks img) ws) then set ev else {})" for ws o'
      by (induction ws arbitrary: o') auto
    then have "set (fold ?j ?L ?o2) = set out \<union> (if has_jpg img (data_blocks img inode) then set ev else {})"
      using nD by (simp add: db)
    moreover have "scan_inode img g copy inode (bf, out) = Ok (bf3, fold ?j ?L ?o2)"
      unfolding scan_inode_def Let_def 1(1) and_then.simps(1) prod.case if_not_P [OF nD] fst_conv snd_conv
        2(1) 3(1) ..
    ultimately show ?thesis using 3(2) by blast
  qed
qed

subsection \<open>The whole tool\<close>

text \<open>The inode with number \<open>n\<close> of an image whose inode table starts at block \<open>T\<close>; number 0, which the loops
  also look at, is what precedes the table.\<close>

definition inode_at :: "byte list \<Rightarrow> u32 \<Rightarrow> nat \<Rightarrow> byte list" where
  "inode_at img T n = take 128 (drop (unat T * 1024 + 128 * n - 128) img)"

definition the_super :: "byte list \<Rightarrow> byte list" where "the_super img = take 1024 (drop 1024 img)"
definition the_group :: "byte list \<Rightarrow> byte list" where "the_group img = take 32 (drop 2048 img)"
definition the_table :: "byte list \<Rightarrow> u32" where "the_table img = bg_inode_table (the_group img)"

text \<open>The inode numbers looked at are those below this bound.\<close>

definition scanned :: "byte list \<Rightarrow> nat" where
  "scanned img = unat (s_inodes_per_group (the_super img)) div 8 * 8"

definition dir_entries :: "byte list \<Rightarrow> u32 \<Rightarrow> entries" where
  "dir_entries img b = (case dir_walk 1024 (block_of img b) 24 of Ok es \<Rightarrow> es | _ \<Rightarrow> [])"

definition inode_entries :: "byte list \<Rightarrow> byte list \<Rightarrow> entries" where
  "inode_entries img inode =
     (if S_ISDIR (i_mode inode) then concat (map (dir_entries img) (data_blocks img inode)) else [])"

definition all_entries :: "byte list \<Rightarrow> entries" where
  "all_entries img = concat (map (\<lambda>n. inode_entries img (inode_at img (the_table img) n)) [0..<scanned img])"

definition contents :: "byte list \<Rightarrow> byte list \<Rightarrow> byte list" where
  "contents img inode = take (unat (i_size2 inode)) (concat (map (block_of img) (data_blocks img inode)))"

definition wf_inode :: "byte list \<Rightarrow> byte list \<Rightarrow> bool" where
  "wf_inode img inode \<longleftrightarrow>
     (S_ISDIR (i_mode inode) \<or> S_ISREG (i_mode inode) \<longrightarrow> pointers_ok img inode)
     \<and> (S_ISDIR (i_mode inode) \<longrightarrow>
          list_all (\<lambda>b. case dir_walk 1024 (block_of img b) 24 of Ok _ \<Rightarrow> True | _ \<Rightarrow> False) (data_blocks img inode))"

text \<open>An image with 1024-byte blocks, all structures and all blocks of files and directories inside it, and
  directories the walk can read; and an output directory in which the files can be made.\<close>

definition wf_image :: "byte list \<Rightarrow> bool" where
  "wf_image img \<longleftrightarrow>
     2080 \<le> length img \<and> length img < 2 ^ 32
     \<and> s_magic (the_super img) = EXT2_SUPER_MAGIC \<and> s_log_block_size (the_super img) = 0
     \<and> s_blocks_per_group (the_super img) \<noteq> 0
     \<and> 0 < unat (the_table img) \<and> unat (the_table img) * 1024 + 128 * scanned img \<le> length img
     \<and> list_all (\<lambda>n. wf_inode img (inode_at img (the_table img) n)) [0..<scanned img]
     \<and> length (all_entries img) \<le> 10240"

definition room_for :: "(byte list \<Rightarrow> bool) \<Rightarrow> byte list \<Rightarrow> byte list \<Rightarrow> bool" where
  "room_for opens dir img \<longleftrightarrow>
     list_all (\<lambda>n. length (jpg_path dir n) < 255 \<and> opens (jpg_path dir n)) [0..<scanned img]
     \<and> list_all (\<lambda>(i, name). length dir + 1 + length name < 510 \<and> opens (dir @ text_bytes ''/'' @ name)) (all_entries img)"

lemma read_into_full: "off + n \<le> length img \<Longrightarrow> length old = n \<Longrightarrow> read_into img off n old = take n (drop off img)"
  by (simp add: read_into_def pread_def)

lemma offset_mult: "block_size g = 1024 \<Longrightarrow> BLOCK_OFFSET g b = b * 1024"
  by (simp add: BLOCK_OFFSET_def BASE_OFFSET_def algebra_simps)

lemma set_sizes_1024:
  assumes "s_log_block_size super = 0"
  shows "set_sizes super g = Ok (g\<lparr>block_size := 1024, inodes_per_block := 8, itable_blocks := s_inodes_per_group super div 8\<rparr>)"
  using assms by (simp add: set_sizes_def INODE_SIZE_def)

text \<open>What the reading functions compute for such an image.\<close>

definition geometry :: "byte list \<Rightarrow> ext2" where
  "geometry img =
     (let super = the_super img; bpg = s_blocks_per_group super in
      \<lparr>block_size = 1024, inodes_per_block = 8, itable_blocks = s_inodes_per_group super div 8,
       blocks_per_group = bpg, num_groups = (s_blocks_count super + bpg - 1) div bpg,
       inodes_per_group = s_inodes_per_group super\<rparr>)"

lemma geometry_1024 [simp]: "block_size (geometry img) = 1024"
  by (simp add: geometry_def Let_def)

lemma init_ok:
  assumes "wf_image img"
  shows "ext2_read_init junk img g0 = Ok (geometry img)"
    "read_super_block junk img 0 (geometry img) = Ok (0, the_super img, geometry img)"
    "read_group_desc junk img 0 (geometry img) = Ok (the_group img)"
proof -
  have W: "2080 \<le> length img" "s_magic (the_super img) = EXT2_SUPER_MAGIC" "s_log_block_size (the_super img) = 0"
    "s_blocks_per_group (the_super img) \<noteq> 0" using assms by (simp_all add: wf_image_def)
  have s: "read_into img 1024 SUPER_SIZE (fresh junk SUPER_SIZE) = the_super img"
    using W(1) by (simp add: the_super_def SUPER_SIZE_def read_into_full fresh_def)
  have gd: "read_into img 2048 GROUP_SIZE (fresh junk GROUP_SIZE) = the_group img"
    using W(1) by (simp add: the_group_def GROUP_SIZE_def read_into_full fresh_def)
  show "ext2_read_init junk img g0 = Ok (geometry img)"
    using W s by (simp add: ext2_read_init_def BASE_OFFSET_def set_sizes_1024 geometry_def Let_def)
  show "read_super_block junk img 0 (geometry img) = Ok (0, the_super img, geometry img)"
    using W s by (simp add: read_super_block_def BASE_OFFSET_def offset_mult set_sizes_1024 Let_def)
      (simp add: geometry_def Let_def)
  show "read_group_desc junk img 0 (geometry img) = Ok (the_group img)"
    using gd by (simp add: read_group_desc_def BASE_OFFSET_def offset_mult Let_def)
qed

lemma inode_count_scanned: "inode_count (geometry img) = scanned img"
proof -
  let ?x = "s_inodes_per_group (the_super img)"
  have u: "unat ?x < 2 ^ 32" using unsigned_less [of ?x] by simp
  have d: "unat (?x div 8) = unat ?x div 8" by (simp add: unat_div)
  have "unat (8 * (?x div 8)) = (8 * unat (?x div 8)) mod 2 ^ 32" by (simp add: unat_word_ariths)
  also have "\<dots> = (8 * (unat ?x div 8)) mod 2 ^ 32" by (simp only: d)
  also have "(8 * (unat ?x div 8)) mod 2 ^ 32 = 8 * (unat ?x div 8)"
    using u by simp
  finally show ?thesis by (simp add: inode_count_def geometry_def scanned_def Let_def mult.commute)
qed

lemma table_offset:
  assumes "wf_image img"
  shows "unat (locate_inode_table 0 (the_group img) (geometry img)) = unat (the_table img) * 1024"
proof -
  have "unat (the_table img) * 1024 < 2 ^ 32" using assms by (auto simp: wf_image_def)
  then have "unat (the_table img * 1024) = unat (the_table img) * 1024" by (simp add: unat_word_ariths)
  then show ?thesis by (simp add: locate_inode_table_def offset_mult the_table_def)
qed

lemma ucast_of_unat: "ucast (w :: u32) = (of_nat (unat w) :: u64)"
  by simp

lemma read_inode_at:
  assumes "wf_image img" "n < scanned img"
  shows "read_inode junk img 0 (locate_inode_table 0 (the_group img) (geometry img)) (int n) (geometry img)
    = inode_at img (the_table img) n"
proof -
  let ?t = "locate_inode_table 0 (the_group img) (geometry img)" and ?T = "unat (the_table img)"
  have W: "length img < 2 ^ 32" "0 < ?T" "?T * 1024 + 128 * scanned img \<le> length img"
    using assms(1) by (simp_all add: wf_image_def)
  have r: "128 \<le> ?T * 1024 + 128 * n" "?T * 1024 + 128 * n - 128 + 128 \<le> length img"
    using W(2,3) assms(2) by auto
  have "inode_offset 0 ?t (int n) (geometry img) = ucast ?t + (of_nat n - 1) * 128"
    by (simp add: inode_offset_def offset_mult INODE_SIZE_def)
  also have "(ucast ?t :: u64) = of_nat (?T * 1024)"
    using table_offset [OF assms(1)] ucast_of_unat [of ?t] by simp
  also have "of_nat (?T * 1024) + (of_nat n - 1) * 128 = (of_nat (?T * 1024 + 128 * n - 128) :: u64)"
    using r(1) by (simp add: algebra_simps of_nat_diff)
  finally have "unat (inode_offset 0 ?t (int n) (geometry img)) = (?T * 1024 + 128 * n - 128) mod 2 ^ 64"
    by (simp add: unat_of_nat)
  also have "\<dots> = ?T * 1024 + 128 * n - 128" using r(2) W(1) by simp
  finally show ?thesis
    using r(2) by (simp add: read_inode_def inode_at_def INODE_SIZE_def read_into_full fresh_def)
qed

text \<open>A loop over inodes keeps what every step carries from the inodes before to one more.\<close>

lemma for_inodes_inv:
  assumes "bufs_ok bf" "R [] a"
    and step: "\<And>ps n qs bf a. ns = ps @ n # qs \<Longrightarrow> bufs_ok bf \<Longrightarrow> R ps a \<Longrightarrow>
      \<exists>bf' a'. f n (bf, a) = Ok (bf', a') \<and> bufs_ok bf' \<and> R (ps @ [n]) a'"
  shows "\<exists>bf' a'. for_inodes f ns (bf, a) = Ok (bf', a') \<and> bufs_ok bf' \<and> R ns a'"
proof -
  have "\<exists>bf' a'. for_inodes f qs (bf, a) = Ok (bf', a') \<and> bufs_ok bf' \<and> R ns a'"
    if "ns = ps @ qs" "bufs_ok bf" "R ps a" for ps qs bf a
    using that
  proof (induction qs arbitrary: ps bf a)
    case (Cons n qs)
    obtain bf' a' where 1: "f n (bf, a) = Ok (bf', a')" "bufs_ok bf'" "R (ps @ [n]) a'"
      using step [OF Cons.prems] by blast
    with Cons.IH [of "ps @ [n]" bf' a'] Cons.prems(1) show ?case by auto
  qed auto
  from this [of "[]" ns] assms(1,2) show ?thesis by simp
qed

lemma dir_block_ok:
  assumes "block_size g = 1024" "in_image img b" "bufs_ok bf" "dir_walk 1024 (block_of img b) 24 = Ok new"
    and "length es + length new \<le> 10240"
  shows "\<exists>bf'. dir_block img g b (bf, es) = Ok (bf', es @ new) \<and> bufs_ok bf'"
proof -
  have "fill img g b (bbuf bf) = Ok (block_of img b)" using fill_block [OF assms(1,2)] assms(3) by (simp add: bufs_ok_def)
  then show ?thesis using assms length_block_of [OF assms(2)] by (simp add: dir_block_def bufs_ok_def)
qed

lemma fold_entries: "fold (\<lambda>b es. es @ k b) ps es = es @ concat (map k ps)"
  by (induction ps arbitrary: es) auto

lemma dir_blocks_ok:
  assumes g: "block_size g = 1024" and w: "wf_inode img inode" "S_ISDIR (i_mode inode)"
    and len: "length es + length (inode_entries img inode) \<le> 10240" and bf: "bufs_ok bf"
  shows "\<exists>bf'. each_block img g (dir_block img g) inode (bf, es) = Ok (bf', es @ inode_entries img inode) \<and> bufs_ok bf'"
proof -
  let ?h = "\<lambda>b es. es @ dir_entries img b"
  have p: "pointers_ok img inode" using w by (simp add: wf_inode_def)
  have ie: "inode_entries img inode = concat (map (dir_entries img) (data_blocks img inode))"
    using w(2) by (simp add: inode_entries_def)
  have "\<exists>bf'. dir_block img g b (bf, fold ?h ps es) = Ok (bf', ?h b (fold ?h ps es)) \<and> bufs_ok bf'"
    if d: "data_blocks img inode = ps @ b # qs" and "bufs_ok bf" for ps b qs bf
  proof (rule dir_block_ok [OF g _ \<open>bufs_ok bf\<close>])
    show "in_image img b" using p d by (simp add: pointers_ok_def)
    show "dir_walk 1024 (block_of img b) 24 = Ok (dir_entries img b)"
      using w d by (auto simp: wf_inode_def dir_entries_def split: outcome.splits)
    show "length (fold ?h ps es) + length (dir_entries img b) \<le> 10240"
      using len ie d by (simp add: fold_entries)
  qed
  from each_block_fold [OF g p bf, of "dir_block img g" ?h es, OF this] show ?thesis
    by (simp add: fold_entries ie)
qed

text \<open>The first pass collects the entries of all directories in the order of their inodes.\<close>

lemma dir_pass:
  assumes W: "wf_image img" and bf: "bufs_ok bf"
  shows "\<exists>bf'. for_inodes (dir_inode junk img (geometry img) (locate_inode_table 0 (the_group img) (geometry img)))
      [0..<scanned img] (bf, []) = Ok (bf', all_entries img) \<and> bufs_ok bf'"
proof -
  let ?i = "inode_at img (the_table img)" and ?f = "dir_inode junk img (geometry img) (locate_inode_table 0 (the_group img) (geometry img))"
  let ?R = "\<lambda>ps es. es = concat (map (\<lambda>n. inode_entries img (?i n)) ps)"
  have "\<exists>bf' es'. for_inodes ?f [0..<scanned img] (bf, []) = Ok (bf', es') \<and> bufs_ok bf' \<and> ?R [0..<scanned img] es'"
  proof (rule for_inodes_inv [OF bf])
    fix ps n qs bf es assume l: "[0..<scanned img] = ps @ n # qs" and bf: "bufs_ok bf" and es: "?R ps es"
    have "n \<in> set [0..<scanned img]" unfolding l by simp
    then have n: "n < scanned img" by simp
    have w: "wf_inode img (?i n)" using W n by (simp add: wf_image_def list_all_iff)
    have "length (all_entries img) \<le> 10240" using W by (simp add: wf_image_def)
    then have len: "length es + length (inode_entries img (?i n)) \<le> 10240"
      unfolding all_entries_def l es by simp
    show "\<exists>bf' es'. ?f n (bf, es) = Ok (bf', es') \<and> bufs_ok bf' \<and> ?R (ps @ [n]) es'"
    proof (cases "S_ISDIR (i_mode (?i n))")
      case True
      then show ?thesis using dir_blocks_ok [OF geometry_1024 w True len bf] es
        by (simp add: dir_inode_def read_inode_at [OF W n])
    next
      case False
      then show ?thesis using bf es by (simp add: dir_inode_def read_inode_at [OF W n] inode_entries_def)
    qed
  qed simp
  then show ?thesis by (auto simp: all_entries_def)
qed

text \<open>The files made for an inode: for a regular file with a picture block, its contents under its number, and
  under the first name a directory has for it.\<close>

definition recovered :: "byte list \<Rightarrow> byte list \<Rightarrow> nat \<Rightarrow> (byte list \<times> byte list) set" where
  "recovered img dir n =
     (let inode = inode_at img (the_table img) n in
      if S_ISREG (i_mode inode) \<and> has_jpg img (data_blocks img inode)
      then (\<lambda>path. (path, contents img inode)) ` insert (jpg_path dir n)
             ((\<lambda>name. dir @ text_bytes ''/'' @ name) ` set_option (map_of (all_entries img) (of_nat n)))
      else {})"

lemma get_index_map_of:
  "case get_index n (map fst es) i of None \<Rightarrow> map_of es (of_nat n) = None
   | Some j \<Rightarrow> i \<le> j \<and> map_of es (of_nat n) = Some (map snd es ! (j - i))"
proof (induction es arbitrary: i)
  case (Cons e es)
  show ?case using Cons [of "Suc i"] by (cases e) (auto split: option.splits simp: nth_Cons')
qed simp

lemma write_file_ok:
  assumes "block_size g = 1024" "pointers_ok img inode" "length path < cap" "opens path"
  shows "write_file opens cap junk img g inode path = Ok (path, contents img inode)"
  using assms by (simp add: write_file_def copied_contents contents_def)

lemma save_both_ok:
  assumes W: "wf_image img" and R: "room_for opens dir img" and n: "n < scanned img"
    and i: "inode = inode_at img (the_table img) n" "S_ISREG (i_mode inode)"
  obtains ev where "\<And>out. save_both opens junk img (geometry img) dir (all_entries img) inode n out = Ok (out @ ev)"
    "set ev = (\<lambda>path. (path, contents img inode)) ` insert (jpg_path dir n)
       ((\<lambda>name. dir @ text_bytes ''/'' @ name) ` set_option (map_of (all_entries img) (of_nat n)))"
proof -
  let ?es = "all_entries img" and ?c = "contents img inode"
  have "pointers_ok img inode" using W n i by (simp add: wf_image_def wf_inode_def list_all_iff)
  note wf = write_file_ok [OF geometry_1024 this]
  have r: "length (jpg_path dir n) < 255" "opens (jpg_path dir n)"
    "\<And>j name. (j, name) \<in> set ?es \<Longrightarrow> length dir + 1 + length name < 510 \<and> opens (dir @ text_bytes ''/'' @ name)"
    using R n by (auto simp: room_for_def list_all_iff)
  have 1: "copy_data opens junk img (geometry img) inode n dir = Ok (jpg_path dir n, ?c)"
    using wf r(1,2) by (simp add: copy_data_def EXT2_NAME_LEN_def)
  note gi = get_index_map_of [of ?es n 0]
  show ?thesis
  proof (cases "get_index n (map fst ?es) 0")
    case None
    then show ?thesis using gi 1 by (intro that [of "[(jpg_path dir n, ?c)]"]) (simp_all add: save_both_def)
  next
    case (Some j)
    then have m: "map_of ?es (of_nat n) = Some (map snd ?es ! j)" using gi by simp
    have "length dir + 1 + length (map snd ?es ! j) < 510" "opens (dir @ text_bytes ''/'' @ map snd ?es ! j)"
      using r(3) [OF map_of_SomeD [OF m]] by auto
    then have "copy_data_name opens junk img (geometry img) inode dir j (map snd ?es)
        = Ok (dir @ text_bytes ''/'' @ map snd ?es ! j, ?c)"
      unfolding copy_data_name_def by (intro wf) (simp_all add: EXT2_NAME_LEN_def text_bytes_def)
    then show ?thesis
      using Some m 1 by (intro that [of "[(jpg_path dir n, ?c), (dir @ text_bytes ''/'' @ map snd ?es ! j, ?c)]"])
        (simp_all add: save_both_def)
  qed
qed

lemma reg_inode_ok:
  assumes W: "wf_image img" and R: "room_for opens dir img" and n: "n < scanned img" and bf: "bufs_ok bf"
  shows "\<exists>bf' out'. reg_inode opens junk img (geometry img) (locate_inode_table 0 (the_group img) (geometry img))
      dir (all_entries img) n (bf, out) = Ok (bf', out') \<and> bufs_ok bf' \<and> set out' = set out \<union> recovered img dir n"
proof -
  let ?i = "inode_at img (the_table img) n"
  show ?thesis
  proof (cases "S_ISREG (i_mode ?i)")
    case True
    obtain ev where ev: "\<And>out. save_both opens junk img (geometry img) dir (all_entries img) ?i n out = Ok (out @ ev)"
      "set ev = (\<lambda>path. (path, contents img ?i)) ` insert (jpg_path dir n)
         ((\<lambda>name. dir @ text_bytes ''/'' @ name) ` set_option (map_of (all_entries img) (of_nat n)))"
      using save_both_ok [OF W R n refl True] by blast
    have "pointers_ok img ?i" using W n True by (simp add: wf_image_def wf_inode_def list_all_iff)
    from scan_inode_ok [OF geometry_1024 this bf, where out = out, OF ev(1)] show ?thesis
      using True unfolding reg_inode_def read_inode_at [OF W n] Let_def recovered_def ev(2) by simp
  next
    case False
    then show ?thesis using bf by (simp add: reg_inode_def read_inode_at [OF W n] recovered_def)
  qed
qed

lemma reg_pass:
  assumes W: "wf_image img" and R: "room_for opens dir img" and bf: "bufs_ok bf"
  shows "\<exists>bf' out. for_inodes (reg_inode opens junk img (geometry img) (locate_inode_table 0 (the_group img) (geometry img))
      dir (all_entries img)) [0..<scanned img] (bf, []) = Ok (bf', out) \<and> bufs_ok bf'
      \<and> set out = (\<Union>n \<in> set [0..<scanned img]. recovered img dir n)"
proof (rule for_inodes_inv [OF bf, where R = "\<lambda>ps out. set out = (\<Union>n \<in> set ps. recovered img dir n)"])
  fix ps n qs bf out
  assume l: "[0..<scanned img] = ps @ n # qs" and bf: "bufs_ok bf" and out: "set out = (\<Union>n \<in> set ps. recovered img dir n)"
  have "n \<in> set [0..<scanned img]" unfolding l by simp
  then have "n < scanned img" by simp
  from reg_inode_ok [OF W R this bf, of junk out] out
  show "\<exists>bf' out'. reg_inode opens junk img (geometry img) (locate_inode_table 0 (the_group img) (geometry img))
      dir (all_entries img) n (bf, out) = Ok (bf', out') \<and> bufs_ok bf' \<and> set out' = (\<Union>n \<in> set (ps @ [n]). recovered img dir n)"
    by (simp add: Un_commute)
qed simp


subsection \<open>A picture on a small image\<close>

definition demo_inode :: "u16 \<Rightarrow> u32 \<Rightarrow> u32 \<Rightarrow> byte list" where
  "demo_inode mode sz b = le16 mode @ le16 0 @ le32 sz @ replicate 32 0 @ le32 b @ replicate 84 0"

definition demo_super :: "byte list" where
  "demo_super = replicate 32 0 @ le32 8 @ le32 0 @ le32 8 @ replicate 12 0 @ le16 EXT2_SUPER_MAGIC @ replicate 966 0"

definition demo_group :: "byte list" where
  "demo_group = le32 0 @ le32 0 @ le32 3 @ replicate 1012 0"

definition demo_table :: "byte list" where
  "demo_table = replicate 128 0 @ demo_inode 0x4000 1024 4 @ replicate 256 0 @ demo_inode 0x8000 6 5 @ replicate 384 0"

definition demo_dir :: "byte list" where
  "demo_dir = replicate 24 1 @ encode_entry (5, 12, 1, [112, 46, 106]) @ replicate 988 0"

definition demo_picture :: "byte list" where
  "demo_picture = [0xff, 0xd8, 0xff, 0xe0, 1, 2] @ replicate 1018 0"

definition demo_blocks :: "byte list list" where
  "demo_blocks = [replicate 1024 0, demo_super, demo_group, demo_table, demo_dir, demo_picture]"

definition demo_image :: "byte list" where "demo_image = concat demo_blocks"

lemma le_lengths [simp]: "length (le16 w) = 2" "length (le32 v) = 4"
  by (simp_all add: le16_def le32_def)

lemma demo_lengths [simp]: "length (demo_inode m s b) = 128" "length demo_super = 1024" "length demo_group = 1024"
  "length demo_table = 1024" "length demo_dir = 1024" "length demo_picture = 1024" "length demo_image = 6144"
  by (simp_all add: demo_inode_def demo_super_def demo_group_def demo_table_def demo_dir_def demo_picture_def
      length_encode_entry entry_step_def demo_image_def demo_blocks_def)

lemma demo_structures:
  "the_super demo_image = demo_super" "the_group demo_image = take 32 demo_group"
  "block_of demo_image 4 = demo_dir" "block_of demo_image 5 = demo_picture"
  by (simp_all add: the_super_def the_group_def block_of_def demo_image_def demo_blocks_def)

lemma demo_fields:
  "s_magic demo_super = EXT2_SUPER_MAGIC" "s_log_block_size demo_super = 0" "s_blocks_per_group demo_super = 8"
  "s_inodes_per_group demo_super = 8" "bg_inode_table (take 32 demo_group) = 3"
  by code_simp+

lemma demo_at:
  "inode_at demo_image 3 0 = replicate 128 0" "inode_at demo_image 3 1 = replicate 128 0"
  "inode_at demo_image 3 2 = demo_inode 0x4000 1024 4" "inode_at demo_image 3 3 = replicate 128 0"
  "inode_at demo_image 3 4 = replicate 128 0" "inode_at demo_image 3 5 = demo_inode 0x8000 6 5"
  "inode_at demo_image 3 6 = replicate 128 0" "inode_at demo_image 3 7 = replicate 128 0"
  by (simp_all add: inode_at_def demo_image_def demo_blocks_def demo_table_def demo_group_def)

lemma demo_inodes:
  "i_mode (replicate 128 0) = 0" "i_mode (demo_inode 0x4000 1024 4) = 0x4000" "i_mode (demo_inode 0x8000 6 5) = 0x8000"
  "i_block (demo_inode 0x4000 1024 4) = 4 # replicate 14 0" "i_block (demo_inode 0x8000 6 5) = 5 # replicate 14 0"
  "i_size2 (demo_inode 0x8000 6 5) = 6"
  by code_simp+

lemma demo_blocks_of: "data_blocks img (demo_inode 0x4000 1024 4) = [4]" "data_blocks img (demo_inode 0x8000 6 5) = [5]"
  by (simp_all add: data_blocks_def demo_inodes single_blocks_def EXT2_NDIR_BLOCKS_def)

lemma demo_walk: "dir_walk 1024 demo_dir 24 = Ok [(5, [112, 46, 106])]"
  using walk_entries [of "[(5, 12, 1, [112, 46, 106])]" 1024 "replicate 24 1" 988]
  by (simp add: demo_dir_def length_encode_entry entry_step_def entry_ok_def name_of_def)

lemma demo_scanned: "scanned demo_image = 8" "the_table demo_image = 3"
  by (simp_all add: scanned_def the_table_def demo_structures demo_fields)

lemma upto_8: "[0..<8] = [0, 1, 2, 3, 4, 5, 6, 7]" "{..<8::nat} = {0, 1, 2, 3, 4, 5, 6, 7}"
  by (auto simp: upt_rec)

lemma demo_modes: "S_ISDIR 0x4000" "\<not> S_ISDIR 0" "\<not> S_ISREG 0" "\<not> S_ISREG 0x4000" "S_ISREG 0x8000" "\<not> S_ISDIR 0x8000"
  by (simp_all add: S_ISDIR_def S_ISREG_def)

lemma demo_entries: "all_entries demo_image = [(5, [112, 46, 106])]"
  by (simp add: all_entries_def demo_scanned upto_8 demo_at [simplified] inode_entries_def demo_inodes demo_modes
      demo_blocks_of dir_entries_def demo_structures demo_walk)

lemma demo_wf: "wf_image demo_image"
  by (simp add: wf_image_def demo_entries demo_scanned demo_structures demo_fields upto_8 demo_at [simplified] wf_inode_def
      demo_inodes demo_modes pointers_ok_def demo_blocks_of single_blocks_def in_image_def demo_walk)

lemma demo_room: "room_for (\<lambda>path. True) [100] demo_image"
proof -
  have "length (jpg_path [100] n) < 255" if "n < 8" for n
    using that by (simp add: jpg_path_def text_bytes_def decimal_def numeral_of.simps)
  then show ?thesis by (simp add: room_for_def demo_entries demo_scanned list_all_iff)
qed


end
