(* ===== verification/Mysh.thy ===== *)
theory Mysh
  imports Hashmap
begin

text \<open>
  The shell of project 2: \<^verbatim>\<open>p2B/mysh.c\<close>, with the list of aliases of \<^verbatim>\<open>p2B/linkedList.c\<close> it contains.  Strings are
  those of C, without the final NUL.  The nodes of the list live in a heap of numbered addresses, 0 is the null
  pointer, and nodes are never freed.  \<open>Panic\<close> is an access outside an array or through a null pointer, \<open>Wait\<close> a
  loop that does not end.
\<close>

subsection \<open>The list of aliases\<close>

record alias_node =
  key :: string
  val :: string
  nxt :: nat

record shell =
  nodes :: "nat \<Rightarrow> alias_node"
  head :: nat
  fresh_addr :: nat

partial_function (option) search_loop :: "(nat \<Rightarrow> alias_node) \<Rightarrow> string \<Rightarrow> nat \<Rightarrow> nat option" where
  "search_loop h k p =
     (if p \<noteq> 0 then (if key (h p) = k then Some p else search_loop h k (nxt (h p))) else Some 0)"

text \<open>The result is the address of the node, or the null pointer.\<close>

definition alias_search :: "shell \<Rightarrow> string \<Rightarrow> nat outcome" where
  "alias_search s k =
     (if head s = 0 then Ok 0
      else case search_loop (nodes s) k (head s) of None \<Rightarrow> Wait | Some p \<Rightarrow> Ok p)"

definition alias_add :: "shell \<Rightarrow> string \<Rightarrow> string \<Rightarrow> shell outcome" where
  "alias_add s k v =
     and_then (alias_search s k) (\<lambda>result.
       if result \<noteq> 0 then Ok (s\<lparr>nodes := (nodes s)(result := (nodes s result)\<lparr>val := v\<rparr>)\<rparr>)
       else let temp = fresh_addr s in
            Ok (s\<lparr>nodes := (nodes s)(temp := \<lparr>key = k, val = v, nxt = head s\<rparr>), head := temp,
                  fresh_addr := temp + 1\<rparr>))"

text \<open>The loop of \<^verbatim>\<open>delete\<close> finds the node and the one before it.\<close>

partial_function (option) delete_loop :: "(nat \<Rightarrow> alias_node) \<Rightarrow> string \<Rightarrow> nat \<Rightarrow> nat \<Rightarrow> (nat \<times> nat) option" where
  "delete_loop h k previous p =
     (if p \<noteq> 0 then (if key (h p) = k then Some (previous, p) else delete_loop h k p (nxt (h p))) else Some (previous, 0))"

definition alias_delete :: "shell \<Rightarrow> string \<Rightarrow> (int \<times> shell) outcome" where
  "alias_delete s k =
     (if head s = 0 then Ok (0, s)
      else case delete_loop (nodes s) k 0 (head s) of None \<Rightarrow> Wait
      | Some (previous, p) \<Rightarrow>
          if p = 0 then Ok (1, s)
          else if p = head s then Ok (0, s\<lparr>head := nxt (nodes s p)\<rparr>)
          else if previous = 0 then Panic ''null pointer''
          else Ok (0, s\<lparr>nodes := (nodes s)(previous := (nodes s previous)\<lparr>nxt := nxt (nodes s p)\<rparr>)\<rparr>))"

text \<open>What the shell and its children do that can be seen from outside: writes to the standard output and
  error, a program started with its arguments and the file its output goes to, and the end of the shell.\<close>

datatype event =
    Out string
  | Err string
  | Exec "string list" "string option"
  | Perror string
  | Crash
  | Quit int

definition MAX_LENGTH :: nat where "MAX_LENGTH = 512"

text \<open>\<^verbatim>\<open>snprintf\<close> with that size.\<close>

definition clip :: "string \<Rightarrow> string" where "clip s = take (MAX_LENGTH - 1) s"

definition newline :: char where "newline = CHR 0x0A"

definition alias_line :: "string \<Rightarrow> string \<Rightarrow> event" where
  "alias_line k v = Out (clip (k @ '' '' @ v @ [newline]))"

partial_function (option) printall_loop :: "(nat \<Rightarrow> alias_node) \<Rightarrow> event list \<Rightarrow> nat \<Rightarrow> event list option" where
  "printall_loop h ev p =
     (if p \<noteq> 0 then printall_loop h (ev @ [alias_line (key (h p)) (val (h p))]) (nxt (h p)) else Some ev)"

definition printall :: "shell \<Rightarrow> event list outcome" where
  "printall s = (case printall_loop (nodes s) [] (head s) of None \<Rightarrow> Wait | Some ev \<Rightarrow> Ok ev)"

subsection \<open>Reading and splitting a line\<close>

text \<open>\<^verbatim>\<open>fgets\<close>: what is stored, and what is left of the input.\<close>

fun fgets_loop :: "nat \<Rightarrow> string \<Rightarrow> string \<times> string" where
  "fgets_loop 0 inp = ([], inp)"
| "fgets_loop (Suc n) [] = ([], [])"
| "fgets_loop (Suc n) (c # inp) =
     (if c = newline then ([c], inp) else let (l, rest) = fgets_loop n inp in (c # l, rest))"

definition fgets :: "nat \<Rightarrow> string \<Rightarrow> (string \<times> string) option" where
  "fgets n inp = (if inp = [] then None else Some (fgets_loop (n - 1) inp))"

text \<open>The line as a C string, cut at its newline.\<close>

definition cut_line :: "string \<Rightarrow> string" where
  "cut_line l = takeWhile (\<lambda>c. c \<noteq> newline \<and> c \<noteq> CHR 0x00) l"

definition delim :: "string" where "delim = [CHR '' '', CHR 0x09]"

text \<open>\<^verbatim>\<open>strtok\<close>: the token and what the next call with a null pointer starts from.\<close>

definition strtok :: "string \<Rightarrow> string \<Rightarrow> string option \<times> string" where
  "strtok ds s =
     (let s' = dropWhile (\<lambda>c. c \<in> set ds) s in
      if s' = [] then (None, [])
      else (Some (takeWhile (\<lambda>c. c \<notin> set ds) s'), drop 1 (dropWhile (\<lambda>c. c \<notin> set ds) s')))"

text \<open>All tokens from the first one on.\<close>

lemma strtok_shorter: "strtok ds s = (Some t, rest) \<Longrightarrow> length rest < length s"
proof -
  assume s: "strtok ds s = (Some t, rest)"
  let ?s = "dropWhile (\<lambda>c. c \<in> set ds) s"
  have "?s \<noteq> []" "rest = drop 1 (dropWhile (\<lambda>c. c \<notin> set ds) ?s)"
    using s by (auto simp: strtok_def Let_def split: if_splits)
  moreover have "length (dropWhile (\<lambda>c. c \<notin> set ds) ?s) \<le> length ?s" "length ?s \<le> length s"
    by (rule length_dropWhile_le)+
  ultimately show ?thesis by (cases "?s") auto
qed

function tokens :: "string \<Rightarrow> string list" where
  "tokens s = (case strtok delim s of (None, _) \<Rightarrow> [] | (Some t, rest) \<Rightarrow> t # tokens rest)"
  by auto

termination tokens
  by (relation "measure length") (auto dest: sym intro: strtok_shorter)

declare tokens.simps [simp del]

subsection \<open>Commands\<close>

text \<open>The part of the loop body that deals with redirection: \<open>None\<close> is a misformatted line, otherwise the line up to
  the redirection and the file name.  The copy whose first token is looked at ends behind the file name, where
  \<^verbatim>\<open>strtok\<close> has put a NUL.\<close>

definition redirection :: "string \<Rightarrow> (string \<times> string option) option" where
  "redirection input =
     (if CHR ''>'' \<notin> set input then Some (input, None)
      else
        let before = takeWhile (\<lambda>c. c \<noteq> CHR ''>'') input;
            redirHalf = drop 1 (dropWhile (\<lambda>c. c \<noteq> CHR ''>'') input)
        in if CHR ''>'' \<in> set redirHalf then None
           else case strtok delim redirHalf of (None, _) \<Rightarrow> None
           | (Some filename, rest) \<Rightarrow>
             (case strtok delim rest of (Some _, _) \<Rightarrow> None
              | (None, _) \<Rightarrow>
                let copy = before @ ''>'' @ takeWhile (\<lambda>c. c \<in> set delim) redirHalf @ filename
                in if fst (strtok delim copy) = Some ''>'' then None else Some (before, Some filename)))"

datatype command =
    Misformatted
  | Nothing
  | Leave
  | PrintAll
  | ShowAlias string
  | SetAlias string string
  | BadUnalias
  | Unalias string
  | Program string string "string option"

definition parse_line :: "string \<Rightarrow> command" where
  "parse_line line =
     (case redirection line of None \<Rightarrow> Misformatted
      | Some (input, filename) \<Rightarrow>
        (case strtok delim input of (None, _) \<Rightarrow> Nothing
         | (Some token, rest) \<Rightarrow>
           if token = ''exit'' then Leave
           else if token = ''>'' then Misformatted
           else if token = ''alias'' then
             (case strtok delim rest of (None, _) \<Rightarrow> PrintAll
              | (Some k, rest) \<Rightarrow>
                (case strtok '''' rest of (None, _) \<Rightarrow> ShowAlias k | (Some v, _) \<Rightarrow> SetAlias k v))
           else if token = ''unalias'' then
             (case strtok delim rest of (None, _) \<Rightarrow> BadUnalias
              | (Some k, rest) \<Rightarrow>
                (case strtok '''' rest of (Some _, _) \<Rightarrow> BadUnalias | (None, _) \<Rightarrow> Unalias k))
           else Program token rest filename))"

text \<open>What the operating system answers: the process number or -1 at the \<open>n\<close>-th line, whether waiting for it
  succeeds, whether a file can be opened for writing and whether a program can be executed.\<close>

record os =
  os_fork :: "nat \<Rightarrow> int"
  os_wait :: "nat \<Rightarrow> bool"
  os_open :: "string \<Rightarrow> bool"
  os_exec :: "string list \<Rightarrow> bool"

text \<open>The child process.  An empty command reaches \<^verbatim>\<open>snprintf\<close> with a null pointer.\<close>

definition child :: "os \<Rightarrow> string list \<Rightarrow> string option \<Rightarrow> event list" where
  "child os toks filename =
     (if (case filename of None \<Rightarrow> False | Some f \<Rightarrow> \<not> os_open os f) then [Perror ''open'']
      else if toks = [] then [Crash]
      else if os_exec os toks then [Exec toks filename]
      else [Err (clip (hd toks @ '': Command not found.'' @ [newline]))])"

fun decimal_text :: "nat \<Rightarrow> string" where
  "decimal_text n = (if n < 10 then [char_of (48 + n)] else decimal_text (n div 10) @ [char_of (48 + n mod 10)])"

declare decimal_text.simps [simp del]

definition int_text :: "int \<Rightarrow> string" where
  "int_text i = (if i < 0 then ''-'' @ decimal_text (nat (- i)) else decimal_text (nat i))"

text \<open>Starting a program: events and whether the shell ends.  Without a child there is nothing to wait for.\<close>

definition spawn :: "os \<Rightarrow> nat \<Rightarrow> string list \<Rightarrow> string option \<Rightarrow> event list \<times> bool" where
  "spawn os n toks filename =
     (let pid = os_fork os n; ev = (if pid = - 1 then [] else child os toks filename) in
      if pid = - 1 \<or> \<not> os_wait os n
      then (ev @ [Err (clip (''Child process '' @ int_text pid @ '' failed.'' @ [newline])), Quit 1], True)
      else (ev, False))"

text \<open>The array \<^verbatim>\<open>toks\<close> has room for 99 tokens and the null pointer.\<close>

definition run_program :: "os \<Rightarrow> nat \<Rightarrow> string list \<Rightarrow> string option \<Rightarrow> (event list \<times> bool) outcome" where
  "run_program os n toks filename =
     (if length toks \<ge> 100 then Panic ''toks overflow'' else Ok (spawn os n toks filename))"

text \<open>The expansion of an alias is cut at 511 characters.\<close>

definition expand :: "string \<Rightarrow> string \<Rightarrow> string" where
  "expand v rest =
     (case strtok '''' rest of (None, _) \<Rightarrow> clip v | (Some args, _) \<Rightarrow> clip (v @ '' '' @ args))"

definition misformatted_text :: string where "misformatted_text = ''Redirection misformatted.'' @ [newline]"
definition unalias_text :: string where "unalias_text = ''unalias: Incorrect number of arguments.'' @ [newline]"

definition run_command :: "os \<Rightarrow> nat \<Rightarrow> shell \<Rightarrow> command \<Rightarrow> (shell \<times> event list \<times> bool) outcome" where
  "run_command os n s c =
     (case c of
        Misformatted \<Rightarrow> Ok (s, [Err misformatted_text], False)
      | Nothing \<Rightarrow> Ok (s, [], False)
      | Leave \<Rightarrow> Ok (s, [Quit 0], True)
      | PrintAll \<Rightarrow> and_then (printall s) (\<lambda>ev. Ok (s, ev, False))
      | ShowAlias k \<Rightarrow> and_then (alias_search s k) (\<lambda>res.
          Ok (s, if res \<noteq> 0 then [alias_line (key (nodes s res)) (val (nodes s res))] else [], False))
      | SetAlias k v \<Rightarrow> and_then (alias_add s k v) (\<lambda>s. Ok (s, [], False))
      | BadUnalias \<Rightarrow> Ok (s, [Out unalias_text], False)
      | Unalias k \<Rightarrow> and_then (alias_delete s k) (\<lambda>(_, s). Ok (s, [], False))
      | Program token rest filename \<Rightarrow> and_then (alias_search s token) (\<lambda>res.
          let toks = (if res \<noteq> 0 then tokens (expand (val (nodes s res)) rest) else token # tokens rest)
          in and_then (run_program os n toks filename) (\<lambda>(ev, stop). Ok (s, ev, stop))))"

definition run_line :: "os \<Rightarrow> nat \<Rightarrow> shell \<Rightarrow> string \<Rightarrow> (shell \<times> event list \<times> bool) outcome" where
  "run_line os n s line = run_command os n s (parse_line line)"

text \<open>The two loops.\<close>

lemma fgets_loop_shorter: "0 < n \<Longrightarrow> inp \<noteq> [] \<Longrightarrow> length (snd (fgets_loop n inp)) < length inp"
proof (induction n inp rule: fgets_loop.induct)
  case (3 n c inp)
  show ?case
  proof (cases "n = 0 \<or> inp = []")
    case True
    then show ?thesis by (cases n) auto
  next
    case False
    then show ?thesis using 3 by (auto split: prod.splits)
  qed
qed auto

lemma fgets_shorter: "fgets MAX_LENGTH inp = Some (l, rest) \<Longrightarrow> length rest < length inp"
  using fgets_loop_shorter [of 511 inp] by (auto simp: fgets_def MAX_LENGTH_def split: if_splits)

definition prompt :: event where "prompt = Out (clip ''mysh> '')"

function interactive :: "os \<Rightarrow> nat \<Rightarrow> shell \<Rightarrow> string \<Rightarrow> event list outcome" where
  "interactive os n s inp =
     (case fgets MAX_LENGTH inp of None \<Rightarrow> Ok [prompt, Quit 0]
      | Some (l, rest) \<Rightarrow>
        and_then (run_line os n s (cut_line l)) (\<lambda>(s, ev, stop).
          if stop then Ok (prompt # ev)
          else and_then (interactive os (n + 1) s rest) (\<lambda>ev'. Ok (prompt # ev @ ev'))))"
  by auto

termination interactive
  by (relation "measure (\<lambda>(os, n, s, inp). length inp)") (auto intro: fgets_shorter)

function batch :: "os \<Rightarrow> nat \<Rightarrow> shell \<Rightarrow> string \<Rightarrow> event list outcome" where
  "batch os n s inp =
     (case fgets MAX_LENGTH inp of None \<Rightarrow> Ok [Quit 0]
      | Some (l, rest) \<Rightarrow>
        let echo = Out (cut_line l @ [newline]) in
        and_then (run_line os n s (cut_line l)) (\<lambda>(s, ev, stop).
          if stop then Ok (echo # ev)
          else and_then (batch os (n + 1) s rest) (\<lambda>ev'. Ok (echo # ev @ ev'))))"
  by auto

termination batch
  by (relation "measure (\<lambda>(os, n, s, inp). length inp)") (auto intro: fgets_shorter)

declare interactive.simps [simp del] batch.simps [simp del]

definition empty_shell :: shell where
  "empty_shell = \<lparr>nodes = (\<lambda>p. \<lparr>key = [], val = [], nxt = 0\<rparr>), head = 0, fresh_addr = 1\<rparr>"

text \<open>\<^verbatim>\<open>main\<close>: \<open>file\<close> is the contents of the batch file if it can be opened.\<close>

definition mysh :: "os \<Rightarrow> string list \<Rightarrow> string \<Rightarrow> string option \<Rightarrow> event list outcome" where
  "mysh os argv inp file =
     (if length argv > 2 then Ok [Err (''Usage: mysh [batch-file]'' @ [newline]), Quit 1]
      else if length argv = 1 then interactive os 0 empty_shell inp
      else if length argv = 2 then
        (case file of None \<Rightarrow> Ok [Err (clip (''Error: Cannot open file '' @ argv ! 1 @ ''.'' @ [newline])), Quit 1]
         | Some text \<Rightarrow> batch os 0 empty_shell text)
      else Ok [Quit 0])"

subsection \<open>The list in the heap\<close>

text \<open>The nodes from \<open>p\<close> on, and the aliases they hold.\<close>

fun path :: "(nat \<Rightarrow> alias_node) \<Rightarrow> nat \<Rightarrow> nat list \<Rightarrow> bool" where
  "path h p [] \<longleftrightarrow> p = 0"
| "path h p (a # as) \<longleftrightarrow> p = a \<and> a \<noteq> 0 \<and> path h (nxt (h a)) as"

type_synonym aliases = "(string \<times> string) list"

definition alias_at :: "(nat \<Rightarrow> alias_node) \<Rightarrow> nat \<Rightarrow> string \<times> string" where
  "alias_at h a = (key (h a), val (h a))"

definition shell_rel :: "shell \<Rightarrow> aliases \<Rightarrow> bool" where
  "shell_rel s al \<longleftrightarrow> 0 < fresh_addr s \<and> distinct (map fst al) \<and>
     (\<exists>as. path (nodes s) (head s) as \<and> distinct as \<and> (\<forall>a \<in> set as. a < fresh_addr s) \<and> al = map (alias_at (nodes s)) as)"

text \<open>The operations on the list of aliases: a new one comes first, a changed one stays where it is.\<close>

definition al_add :: "string \<Rightarrow> string \<Rightarrow> aliases \<Rightarrow> aliases" where
  "al_add k v al =
     (if k \<in> fst ` set al then map (\<lambda>(k', v'). (k', if k' = k then v else v')) al else (k, v) # al)"

definition al_delete :: "string \<Rightarrow> aliases \<Rightarrow> aliases" where
  "al_delete k al = filter (\<lambda>(k', v'). k' \<noteq> k) al"

lemma al_add_map_of: "map_of (al_add k v al) = (map_of al)(k \<mapsto> v)"
proof -
  have "map_of (map (\<lambda>(k', v'). (k', if k' = k then v else v')) al) j = (if j = k \<and> k \<in> fst ` set al then Some v else map_of al j)" for j
  proof (induction al)
    case (Cons e al)
    then show ?case by (cases e; cases "j = k") (simp_all split: if_splits)
  qed simp
  then show ?thesis by (simp add: al_add_def fun_eq_iff)
qed

lemma al_delete_map_of: "map_of (al_delete k al) = (map_of al)(k := None)"
  by (induction al) (auto simp: al_delete_def)

lemma al_keys:
  assumes "distinct (map fst al)"
  shows "distinct (map fst (al_add k v al))" "distinct (map fst (al_delete k al))"
proof -
  have "map fst (al_add k v al) = (if k \<in> fst ` set al then map fst al else k # map fst al)"
    by (simp add: al_add_def case_prod_beta comp_def)
  then show "distinct (map fst (al_add k v al))" using assms by simp
  show "distinct (map fst (al_delete k al))" using assms by (simp add: al_delete_def distinct_map_filter)
qed

lemma path_cong: "(\<And>a. a \<in> set as \<Longrightarrow> nxt (h' a) = nxt (h a)) \<Longrightarrow> path h' p as = path h p as"
  by (induction as arbitrary: p) auto

lemma path_nonzero: "path h p as \<Longrightarrow> 0 \<notin> set as"
  by (induction as arbitrary: p) auto

lemma path_unlink:
  "path h p (xs @ b # a # ys) \<Longrightarrow> distinct (xs @ b # a # ys) \<Longrightarrow> path (h(b := (h b)\<lparr>nxt := nxt (h a)\<rparr>)) p (xs @ b # ys)"
proof (induction xs arbitrary: p)
  case Nil
  then have "path (h(b := (h b)\<lparr>nxt := nxt (h a)\<rparr>)) (nxt (h a)) ys = path h (nxt (h a)) ys"
    by (intro path_cong) auto
  then show ?case using Nil by (simp del: fun_upd_apply) simp
qed auto

lemma search_path:
  "path h p as \<Longrightarrow> search_loop h k p = Some (case find (\<lambda>a. key (h a) = k) as of None \<Rightarrow> 0 | Some a \<Rightarrow> a)"
proof (induction as arbitrary: p)
  case Nil
  then show ?case by (subst search_loop.simps) simp
next
  case (Cons a as)
  then show ?case by (subst search_loop.simps) simp
qed

lemma delete_path_none:
  "path h p as \<Longrightarrow> \<forall>a \<in> set as. key (h a) \<noteq> k \<Longrightarrow> \<exists>q. delete_loop h k q0 p = Some (q, 0)"
proof (induction as arbitrary: p q0)
  case Nil
  then show ?case by (subst delete_loop.simps) simp
next
  case (Cons a as)
  then show ?case by (subst delete_loop.simps) simp
qed

lemma delete_path:
  "path h p (xs @ a # ys) \<Longrightarrow> \<forall>b \<in> set xs. key (h b) \<noteq> k \<Longrightarrow> key (h a) = k \<Longrightarrow>
   delete_loop h k q0 p = Some (last (q0 # xs), a)"
proof (induction xs arbitrary: p q0)
  case Nil
  then show ?case by (subst delete_loop.simps) simp
next
  case (Cons b xs)
  then show ?case using Cons.IH [of "nxt (h b)" b] by (subst delete_loop.simps) simp
qed

lemma printall_path: "path h p as \<Longrightarrow> printall_loop h ev p = Some (ev @ map (\<lambda>a. alias_line (key (h a)) (val (h a))) as)"
proof (induction as arbitrary: p ev)
  case Nil
  then show ?case by (subst printall_loop.simps) simp
next
  case (Cons a as)
  then show ?case by (subst printall_loop.simps) simp
qed

text \<open>Each operation on the heap does what its counterpart does on the list.\<close>

lemma search_refines:
  assumes "shell_rel s al"
  shows "\<exists>p. alias_search s k = Ok p \<and> (case map_of al k of None \<Rightarrow> p = 0
    | Some v \<Rightarrow> p \<noteq> 0 \<and> key (nodes s p) = k \<and> val (nodes s p) = v)"
proof -
  obtain as where as: "path (nodes s) (head s) as" "al = map (alias_at (nodes s)) as"
    using assms by (auto simp: shell_rel_def)
  let ?f = "find (\<lambda>a. key (nodes s a) = k) as"
  have s: "alias_search s k = Ok (case ?f of None \<Rightarrow> 0 | Some a \<Rightarrow> a)"
    using search_path [OF as(1), of k] as(1) by (cases as) (auto simp: alias_search_def)
  have m: "map_of (map (alias_at (nodes s)) as) k = map_option (\<lambda>a. val (nodes s a)) ?f"
    by (induction as) (auto simp: alias_at_def)
  show ?thesis
  proof (cases ?f)
    case (Some a)
    then have "a \<in> set as" "key (nodes s a) = k" by (auto simp: find_Some_iff)
    moreover have "a \<noteq> 0" using path_nonzero [OF as(1)] calculation(1) by metis
    ultimately show ?thesis using Some s m as by auto
  qed (use s m as(2) in simp)
qed

lemma printall_refines:
  assumes "shell_rel s al"
  shows "printall s = Ok (map (\<lambda>(k, v). alias_line k v) al)"
proof -
  obtain as where as: "path (nodes s) (head s) as" "al = map (alias_at (nodes s)) as"
    using assms by (auto simp: shell_rel_def)
  then show ?thesis using printall_path [OF as(1), of "[]"] by (simp add: printall_def alias_at_def)
qed

lemma search_found:
  assumes "path (nodes s) (head s) as" "alias_search s k = Ok p" "p \<noteq> 0"
  shows "p \<in> set as" "key (nodes s p) = k"
  using assms search_path [OF assms(1), of k] by (auto simp: alias_search_def find_Some_iff split: if_splits option.splits)

lemma add_refines:
  assumes r: "shell_rel s al"
  shows "\<exists>s'. alias_add s k v = Ok s' \<and> shell_rel s' (al_add k v al)"
proof -
  obtain as where as: "path (nodes s) (head s) as" "distinct as" "\<forall>a \<in> set as. a < fresh_addr s"
      "al = map (alias_at (nodes s)) as" and al: "0 < fresh_addr s" "distinct (map fst al)"
    using r by (auto simp: shell_rel_def)
  obtain p where p: "alias_search s k = Ok p" "case map_of al k of None \<Rightarrow> p = 0
      | Some v \<Rightarrow> p \<noteq> 0 \<and> key (nodes s p) = k \<and> val (nodes s p) = v" using search_refines [OF r] by blast
  show ?thesis
  proof (cases "map_of al k")
    case None
    let ?t = "fresh_addr s"
    let ?h = "(nodes s)(?t := \<lparr>key = k, val = v, nxt = head s\<rparr>)"
    have t: "?t \<notin> set as" using as(3) by auto
    have "k \<notin> fst ` set al" using None by (simp add: map_of_eq_None_iff)
    then have ad: "al_add k v al = (k, v) # al" by (simp add: al_add_def)
    have "path ?h (head s) as" using path_cong [of as ?h "nodes s"] t as(1) by fastforce
    then have "path ?h ?t (?t # as)" using al(1) by simp
    moreover have "(k, v) # al = map (alias_at ?h) (?t # as)" using t as(4) by (auto simp: alias_at_def)
    moreover have "\<forall>a \<in> set (?t # as). a < ?t + 1" using as(3) by auto
    ultimately have "shell_rel (s\<lparr>nodes := ?h, head := ?t, fresh_addr := ?t + 1\<rparr>) (al_add k v al)"
      unfolding shell_rel_def using al_keys(1) [OF al(2), of k v] t as(2) ad by (intro conjI exI [of _ "?t # as"]) simp_all
    then show ?thesis using p None by (simp add: alias_add_def Let_def)
  next
    case (Some w)
    let ?h = "(nodes s)(p := (nodes s p)\<lparr>val := v\<rparr>)"
    have "p \<noteq> 0" using p(2) Some by simp
    note found = search_found [OF as(1) p(1) this]
    have "(k, w) \<in> set al" using map_of_SomeD [OF Some] .
    then have ad: "al_add k v al = map (\<lambda>(k', v'). (k', if k' = k then v else v')) al" by (force simp: al_add_def)
    have "inj_on (\<lambda>a. key (nodes s a)) (set as)"
      using al(2) as(4) by (simp add: distinct_map comp_def alias_at_def)
    then have u: "a = p" if "a \<in> set as" "key (nodes s a) = k" for a
      using that found by (auto dest: inj_onD)
    have "(case alias_at (nodes s) a of (k', v') \<Rightarrow> (k', if k' = k then v else v')) = alias_at ?h a" if "a \<in> set as" for a
      using u [OF that] found(2) by (cases "a = p") (auto simp: alias_at_def)
    then have "al_add k v al = map (alias_at ?h) as" using ad as(4) by simp
    moreover have "path ?h (head s) as" using path_cong [of as ?h "nodes s"] as(1) by simp
    ultimately have "shell_rel (s\<lparr>nodes := ?h\<rparr>) (al_add k v al)"
      unfolding shell_rel_def using al_keys(1) [OF al(2), of k v] as(2,3) al(1) by (intro conjI exI [of _ as]) simp_all
    then show ?thesis using p(1) \<open>p \<noteq> 0\<close> by (simp add: alias_add_def)
  qed
qed

lemma delete_refines:
  assumes r: "shell_rel s al"
  shows "\<exists>c s'. alias_delete s k = Ok (c, s') \<and> shell_rel s' (al_delete k al)"
proof -
  obtain as where as: "path (nodes s) (head s) as" "distinct as" "\<forall>a \<in> set as. a < fresh_addr s"
      "al = map (alias_at (nodes s)) as" and al: "0 < fresh_addr s" "distinct (map fst al)"
    using r by (auto simp: shell_rel_def)
  let ?h = "nodes s"
  show ?thesis
  proof (cases "\<exists>a \<in> set as. key (?h a) = k")
    case False
    then have "al_delete k al = al" using as(4) by (auto simp: al_delete_def alias_at_def filter_id_conv)
    moreover obtain q where "delete_loop ?h k 0 (head s) = Some (q, 0)" using delete_path_none [OF as(1)] False by blast
    ultimately show ?thesis using r by (simp add: alias_delete_def)
  next
    case True
    then obtain xs a ys where sp: "as = xs @ a # ys" "key (?h a) = k" "\<forall>b \<in> set xs. key (?h b) \<noteq> k"
      using split_list_first_prop [OF True] by blast
    have nz: "0 \<notin> set as" using path_nonzero [OF as(1)] .
    have "distinct (map (\<lambda>a. key (?h a)) as)" using al(2) as(4) by (simp add: comp_def alias_at_def)
    then have "k \<notin> (\<lambda>a. key (?h a)) ` set ys" using sp(1,2) by simp
    then have ys: "\<forall>b \<in> set ys. key (?h b) \<noteq> k" by (auto dest: rev_image_eqI)
    have d: "al_delete k al = map (alias_at ?h) (xs @ ys)"
      using sp ys as(4) by (simp add: al_delete_def alias_at_def filter_map comp_def filter_id_conv)
    have dl: "delete_loop ?h k 0 (head s) = Some (last (0 # xs), a)"
      using delete_path as(1) sp by simp
    have hd: "head s \<noteq> 0" using as(1) sp(1) nz by (cases xs) auto
    have k': "distinct (map fst (al_delete k al))" by (rule al_keys(2) [OF al(2)])
    show ?thesis
    proof (cases xs rule: rev_cases)
      case Nil
      then have "path ?h (nxt (?h a)) ys" "head s = a" using as(1) sp(1) by simp_all
      then have "shell_rel (s\<lparr>head := nxt (?h a)\<rparr>) (al_delete k al)"
        unfolding shell_rel_def using k' al(1) as(2,3) sp(1) Nil d by (intro conjI exI [of _ ys]) simp_all
      then show ?thesis using dl hd nz sp(1) \<open>head s = a\<close> by (simp add: alias_delete_def)
    next
      case (snoc zs b)
      let ?h' = "?h(b := (?h b)\<lparr>nxt := nxt (?h a)\<rparr>)"
      have "path ?h' (head s) (zs @ b # ys)" using path_unlink [of ?h "head s" zs b a ys] as(1,2) sp(1) snoc by simp
      moreover have "al_delete k al = map (alias_at ?h') (zs @ b # ys)"
        unfolding d using snoc by (auto simp: alias_at_def)
      ultimately have "shell_rel (s\<lparr>nodes := ?h'\<rparr>) (al_delete k al)"
        unfolding shell_rel_def using k' al(1) as(2,3) sp(1) snoc by (intro conjI exI [of _ "zs @ b # ys"]) auto
      moreover have "a \<noteq> head s" "a \<noteq> 0" "b \<noteq> 0" using as(1,2) sp(1) snoc nz by (cases zs; auto)+
      ultimately show ?thesis using dl hd snoc by (simp add: alias_delete_def)
    qed
  qed
qed

subsection \<open>Sessions\<close>

text \<open>The shell as it is meant: a list of aliases, and one command per line.\<close>

definition al_command :: "os \<Rightarrow> nat \<Rightarrow> aliases \<Rightarrow> command \<Rightarrow> (aliases \<times> event list \<times> bool) outcome" where
  "al_command os n al c =
     (case c of
        Misformatted \<Rightarrow> Ok (al, [Err misformatted_text], False)
      | Nothing \<Rightarrow> Ok (al, [], False)
      | Leave \<Rightarrow> Ok (al, [Quit 0], True)
      | PrintAll \<Rightarrow> Ok (al, map (\<lambda>(k, v). alias_line k v) al, False)
      | ShowAlias k \<Rightarrow> Ok (al, case map_of al k of None \<Rightarrow> [] | Some v \<Rightarrow> [alias_line k v], False)
      | SetAlias k v \<Rightarrow> Ok (al_add k v al, [], False)
      | BadUnalias \<Rightarrow> Ok (al, [Out unalias_text], False)
      | Unalias k \<Rightarrow> Ok (al_delete k al, [], False)
      | Program token rest filename \<Rightarrow>
          and_then (run_program os n
              (case map_of al token of None \<Rightarrow> token # tokens rest | Some v \<Rightarrow> tokens (expand v rest)) filename)
            (\<lambda>(ev, stop). Ok (al, ev, stop)))"

fun session :: "os \<Rightarrow> (string \<Rightarrow> event) \<Rightarrow> event list \<Rightarrow> nat \<Rightarrow> aliases \<Rightarrow> string list \<Rightarrow> event list outcome" where
  "session os pre fin n al [] = Ok fin"
| "session os pre fin n al (l # ls) =
     and_then (al_command os n al (parse_line l)) (\<lambda>(al, ev, stop).
       if stop then Ok (pre l # ev)
       else and_then (session os pre fin (n + 1) al ls) (\<lambda>ev'. Ok (pre l # ev @ ev')))"

function input_lines :: "string \<Rightarrow> string list" where
  "input_lines inp = (case fgets MAX_LENGTH inp of None \<Rightarrow> [] | Some (l, rest) \<Rightarrow> cut_line l # input_lines rest)"
  by auto

termination input_lines
  by (relation "measure length") (auto intro: fgets_shorter)

declare input_lines.simps [simp del]

lemma run_command_refines:
  assumes r: "shell_rel s al"
  shows "case al_command os n al c of Ok (al', ev, stop) \<Rightarrow> \<exists>s'. run_command os n s c = Ok (s', ev, stop) \<and> shell_rel s' al'
    | Panic m \<Rightarrow> run_command os n s c = Panic m | Wait \<Rightarrow> False"
proof (cases c)
  case PrintAll
  then show ?thesis using printall_refines [OF r] r by (simp add: al_command_def run_command_def)
next
  case (ShowAlias k)
  then show ?thesis using search_refines [OF r, of k] r
    by (auto simp: al_command_def run_command_def split: option.splits)
next
  case (SetAlias k v)
  then show ?thesis using add_refines [OF r, of k v] by (auto simp: al_command_def run_command_def)
next
  case (Unalias k)
  then show ?thesis using delete_refines [OF r, of k] by (auto simp: al_command_def run_command_def)
next
  case (Program token rest filename)
  obtain p where p: "alias_search s token = Ok p" "case map_of al token of None \<Rightarrow> p = 0
      | Some v \<Rightarrow> p \<noteq> 0 \<and> key (nodes s p) = token \<and> val (nodes s p) = v" using search_refines [OF r] by blast
  define toks where "toks = (case map_of al token of None \<Rightarrow> token # tokens rest | Some v \<Rightarrow> tokens (expand v rest))"
  have "(if p \<noteq> 0 then tokens (expand (val (nodes s p)) rest) else token # tokens rest) = toks"
    using p(2) by (auto simp: toks_def split: option.splits)
  then have "run_command os n s c = and_then (run_program os n toks filename) (\<lambda>(ev, stop). Ok (s, ev, stop))"
    using p(1) Program by (simp add: run_command_def Let_def)
  moreover have "al_command os n al c = and_then (run_program os n toks filename) (\<lambda>(ev, stop). Ok (al, ev, stop))"
    using Program by (simp add: al_command_def toks_def)
  ultimately show ?thesis using r by (cases "run_program os n toks filename") (auto simp: run_program_def split: prod.splits if_splits)
qed (use r in \<open>simp_all add: al_command_def run_command_def\<close>)

lemma interactive_session:
  "shell_rel s al \<Longrightarrow> interactive os n s inp = session os (\<lambda>l. prompt) [prompt, Quit 0] n al (input_lines inp)"
proof (induction inp arbitrary: n s al rule: input_lines.induct)
  case (1 inp)
  show ?case
  proof (cases "fgets MAX_LENGTH inp")
    case None
    then show ?thesis by (subst interactive.simps, subst input_lines.simps) simp
  next
    case (Some lr)
    obtain l rest where lr: "lr = (l, rest)" by (cases lr)
    note ref = run_command_refines [OF 1(2), of os n "parse_line (cut_line l)"]
    show ?thesis
    proof (cases "al_command os n al (parse_line (cut_line l))")
      case (Ok r)
      obtain al' ev stop where r: "r = (al', ev, stop)" by (cases r) auto
      obtain s' where s': "run_line os n s (cut_line l) = Ok (s', ev, stop)" "shell_rel s' al'"
        using ref Ok r by (auto simp: run_line_def)
      then show ?thesis
        using Some lr Ok r 1(1) [OF Some lr [symmetric] s'(2)] by (subst interactive.simps, subst input_lines.simps) simp
    next
      case (Panic m)
      then show ?thesis
        using Some lr ref by (subst interactive.simps, subst input_lines.simps) (simp add: run_line_def)
    next
      case Wait
      then show ?thesis using ref by simp
    qed
  qed
qed

lemma batch_session:
  "shell_rel s al \<Longrightarrow> batch os n s inp = session os (\<lambda>l. Out (l @ [newline])) [Quit 0] n al (input_lines inp)"
proof (induction inp arbitrary: n s al rule: input_lines.induct)
  case (1 inp)
  show ?case
  proof (cases "fgets MAX_LENGTH inp")
    case None
    then show ?thesis by (subst batch.simps, subst input_lines.simps) simp
  next
    case (Some lr)
    obtain l rest where lr: "lr = (l, rest)" by (cases lr)
    note ref = run_command_refines [OF 1(2), of os n "parse_line (cut_line l)"]
    show ?thesis
    proof (cases "al_command os n al (parse_line (cut_line l))")
      case (Ok r)
      obtain al' ev stop where r: "r = (al', ev, stop)" by (cases r) auto
      obtain s' where s': "run_line os n s (cut_line l) = Ok (s', ev, stop)" "shell_rel s' al'"
        using ref Ok r by (auto simp: run_line_def)
      then show ?thesis
        using Some lr Ok r 1(1) [OF Some lr [symmetric] s'(2)] by (subst batch.simps, subst input_lines.simps) simp
    next
      case (Panic m)
      then show ?thesis
        using Some lr ref by (subst batch.simps, subst input_lines.simps) (simp add: run_line_def)
    next
      case Wait
      then show ?thesis using ref by simp
    qed
  qed
qed

lemma shell_rel_empty: "shell_rel empty_shell []"
  by (auto simp: shell_rel_def empty_shell_def intro: exI [of _ "[]"])

subsection \<open>The aliases as a map\<close>

text \<open>A map of strings, as the hash table of project 3, that entries can also be taken out of.\<close>

locale erasable_map = string_map empty put get inv
  for empty :: 'm and put :: "'m \<Rightarrow> string \<Rightarrow> 'v \<Rightarrow> 'm option" and get :: "'m \<Rightarrow> string \<Rightarrow> 'v option option" and inv :: "'m \<Rightarrow> bool" +
  fixes del :: "'m \<Rightarrow> string \<Rightarrow> 'm option"
  assumes del_total: "inv m \<Longrightarrow> \<exists>m'. del m k = Some m'"
    and del_inv: "inv m \<Longrightarrow> del m k = Some m' \<Longrightarrow> inv m'"
    and get_del: "inv m \<Longrightarrow> del m k = Some m' \<Longrightarrow> get m' k' = (if k' = k then Some None else get m k')"
begin

text \<open>A history of changes: a value for a key, or none to take it out.\<close>

fun replay :: "'m \<Rightarrow> (string \<times> 'v option) list \<Rightarrow> 'm option" where
  "replay m [] = Some m"
| "replay m ((k, c) # cs) =
     (case (case c of None \<Rightarrow> del m k | Some v \<Rightarrow> put m k v) of None \<Rightarrow> None | Some m' \<Rightarrow> replay m' cs)"

lemma replay_get:
  "inv m \<Longrightarrow> (\<And>k. get m k = Some (t k)) \<Longrightarrow>
   \<exists>m'. replay m cs = Some m' \<and> inv m' \<and> (\<forall>k. get m' k = Some (fold (\<lambda>(k, c) t. t(k := c)) cs t k))"
proof (induction cs arbitrary: m t)
  case (Cons kc cs)
  obtain k c where kc: "kc = (k, c)" by (cases kc)
  show ?case
  proof (cases c)
    case None
    obtain m1 where m1: "del m k = Some m1" using del_total [OF Cons.prems(1)] by blast
    have "get m1 j = Some ((t(k := None)) j)" for j using get_del [OF Cons.prems(1) m1] Cons.prems(2) by simp
    then show ?thesis using Cons.IH [OF del_inv [OF Cons.prems(1) m1], of "t(k := None)"] kc None m1 by simp
  next
    case (Some v)
    obtain m1 where m1: "put m k v = Some m1" using put_total [OF Cons.prems(1)] by blast
    have "get m1 j = Some ((t(k \<mapsto> v)) j)" for j using get_put [OF Cons.prems(1) m1] Cons.prems(2) by simp
    then show ?thesis using Cons.IH [OF put_inv [OF Cons.prems(1) m1], of "t(k \<mapsto> v)"] kc Some m1 by simp
  qed
qed simp

end

definition alias_put :: "shell \<Rightarrow> string \<Rightarrow> string \<Rightarrow> shell option" where
  "alias_put s k v = (case alias_add s k v of Ok s' \<Rightarrow> Some s' | _ \<Rightarrow> None)"

definition alias_get :: "shell \<Rightarrow> string \<Rightarrow> string option option" where
  "alias_get s k = (case alias_search s k of Ok p \<Rightarrow> Some (if p = 0 then None else Some (val (nodes s p))) | _ \<Rightarrow> None)"

definition alias_del :: "shell \<Rightarrow> string \<Rightarrow> shell option" where
  "alias_del s k = (case alias_delete s k of Ok (_, s') \<Rightarrow> Some s' | _ \<Rightarrow> None)"

definition alias_inv :: "shell \<Rightarrow> bool" where
  "alias_inv s \<longleftrightarrow> (\<exists>al. shell_rel s al)"

lemma alias_get_rel: "shell_rel s al \<Longrightarrow> alias_get s k = Some (map_of al k)"
  using search_refines [of s al k] by (auto simp: alias_get_def split: option.splits)

lemma alias_put_rel: "shell_rel s al \<Longrightarrow> \<exists>s'. alias_put s k v = Some s' \<and> shell_rel s' (al_add k v al)"
  using add_refines [of s al k v] by (auto simp: alias_put_def)

lemma alias_del_rel: "shell_rel s al \<Longrightarrow> \<exists>s'. alias_del s k = Some s' \<and> shell_rel s' (al_delete k al)"
  using delete_refines [of s al k] by (auto simp: alias_del_def)

interpretation aliases: erasable_map empty_shell alias_put alias_get alias_inv alias_del
proof unfold_locales
  show "alias_inv empty_shell" using shell_rel_empty by (auto simp: alias_inv_def)
  show "alias_get empty_shell k = Some None" for k using alias_get_rel [OF shell_rel_empty] by simp
  fix m k assume "alias_inv m"
  then obtain al where al: "shell_rel m al" by (auto simp: alias_inv_def)
  show "\<exists>r. alias_get m k = Some r" using alias_get_rel [OF al] by blast
  obtain d where d: "alias_del m k = Some d" "shell_rel d (al_delete k al)" using alias_del_rel [OF al] by blast
  then show "\<exists>m'. alias_del m k = Some m'" by blast
  show "alias_inv m'" if "alias_del m k = Some m'" for m' using that d by (auto simp: alias_inv_def)
  show "alias_get m' k' = (if k' = k then Some None else alias_get m k')" if "alias_del m k = Some m'" for m' k'
    using that d alias_get_rel [OF al] alias_get_rel [OF d(2)] by (simp add: al_delete_map_of)
  fix v
  obtain a where a: "alias_put m k v = Some a" "shell_rel a (al_add k v al)" using alias_put_rel [OF al] by blast
  then show "\<exists>m'. alias_put m k v = Some m'" by blast
  show "alias_inv m'" if "alias_put m k v = Some m'" for m' using that a by (auto simp: alias_inv_def)
  show "alias_get m' k' = (if k' = k then Some (Some v) else alias_get m k')" if "alias_put m k v = Some m'" for m' k'
    using that a alias_get_rel [OF al] alias_get_rel [OF a(2)] by (simp add: al_add_map_of)
qed

text \<open>Whatever is defined and removed, every name stands for what it was last given.\<close>

lemma alias_history:
  "\<exists>s. aliases.replay empty_shell cs = Some s \<and> (\<forall>k. alias_get s k = Some (fold (\<lambda>(k, c) t. t(k := c)) cs Map.empty k))"
  using aliases.replay_get [OF aliases.inv_empty, of Map.empty cs] aliases.get_empty by auto

subsection \<open>The shell and its specification\<close>

text \<open>C20: for every input, the shell with its list of nodes in the heap ends and writes and starts exactly what the
  shell that keeps a list of aliases does, in both modes.  The only other outcome, in both, is a line
  with more tokens than the array holds.\<close>

theorem mysh_refines:
  "mysh os [name] inp file = session os (\<lambda>l. prompt) [prompt, Quit 0] 0 [] (input_lines inp)
   \<and> mysh os [name, arg] inp (Some text) = session os (\<lambda>l. Out (l @ [newline])) [Quit 0] 0 [] (input_lines text)
   \<and> session os pre fin n al ls \<noteq> Wait"
proof (intro conjI)
  have "al_command os n al c \<noteq> Wait" for n al c
    by (cases c) (auto simp: al_command_def run_program_def split: prod.splits)
  then show "session os pre fin n al ls \<noteq> Wait"
  proof (induction ls arbitrary: n al)
    case (Cons l ls)
    show ?case
    proof (cases "al_command os n al (parse_line l)")
      case (Ok r)
      then show ?thesis using Cons by (cases r) (auto simp: and_then_Wait_iff)
    qed (use Cons in auto)
  qed simp
qed (simp_all add: mysh_def interactive_session [OF shell_rel_empty] batch_session [OF shell_rel_empty])

subsection \<open>Lines of words\<close>

definition skip :: "string \<Rightarrow> string \<Rightarrow> string" where "skip ds s = dropWhile (\<lambda>c. c \<in> set ds) s"
definition after_token :: "string \<Rightarrow> string \<Rightarrow> string" where "after_token ds s = dropWhile (\<lambda>c. c \<notin> set ds) s"

lemma strtok_skip:
  "strtok ds s = (if skip ds s = [] then (None, [])
     else (Some (takeWhile (\<lambda>c. c \<notin> set ds) (skip ds s)), drop 1 (after_token ds (skip ds s))))"
  by (simp add: strtok_def skip_def after_token_def Let_def)

lemma skip_append: "d \<in> set ds \<Longrightarrow> skip ds (a @ d # b) = (if skip ds a = [] then skip ds b else skip ds a @ d # b)"
  by (induction a) (auto simp: skip_def)

lemma after_append:
  "d \<in> set ds \<Longrightarrow> after_token ds (a @ d # b) = (if after_token ds a = [] then d # b else after_token ds a @ d # b)"
  "d \<in> set ds \<Longrightarrow> takeWhile (\<lambda>c. c \<notin> set ds) (a @ d # b) = takeWhile (\<lambda>c. c \<notin> set ds) a"
  by (induction a) (auto simp: after_token_def)

lemma strtok_append:
  assumes "d \<in> set ds"
  shows "strtok ds (a @ d # b) = (case strtok ds a of (None, _) \<Rightarrow> strtok ds b
    | (Some t, rest) \<Rightarrow> (Some t, if after_token ds (skip ds a) = [] then b else rest @ d # b))"
proof (cases "skip ds a = []")
  case True
  then show ?thesis by (simp add: strtok_skip [of ds a] strtok_skip [of ds "a @ d # b"] strtok_skip [of ds b] skip_append [OF assms])
next
  case False
  then show ?thesis
    by (cases "after_token ds (skip ds a)")
      (simp_all add: strtok_skip [of ds a] strtok_skip [of ds "a @ d # b"] skip_append [OF assms] after_append [OF assms])
qed

lemma strtok_end: "strtok ds a = (Some t, rest) \<Longrightarrow> after_token ds (skip ds a) = [] \<Longrightarrow> rest = []"
  by (simp add: strtok_skip split: if_splits)

lemma tokens_nil [simp]: "tokens [] = []"
  by (subst tokens.simps) (simp add: strtok_def)

lemma tokens_append: "d \<in> set delim \<Longrightarrow> tokens (a @ d # b) = tokens a @ tokens b"
proof (induction a rule: tokens.induct)
  case (1 a)
  obtain o' rest where st: "strtok delim a = (o', rest)" by (cases "strtok delim a")
  show ?case
  proof (cases o')
    case None
    then have "strtok delim (a @ d # b) = strtok delim b" using strtok_append [OF 1(2), of a b] st by simp
    moreover have "tokens a = []" using None st by (subst tokens.simps) simp
    ultimately show ?thesis by (metis append_Nil tokens.simps)
  next
    case (Some t)
    have ta: "tokens a = t # tokens rest" using Some st by (subst tokens.simps) simp
    show ?thesis
    proof (cases "after_token delim (skip delim a) = []")
      case False
      then have "strtok delim (a @ d # b) = (Some t, rest @ d # b)" using strtok_append [OF 1(2), of a b] st Some by simp
      then have "tokens (a @ d # b) = t # tokens (rest @ d # b)" by (subst tokens.simps) simp
      then show ?thesis using ta 1(1) [OF st [symmetric] Some 1(2)] by simp
    next
      case True
      then have "strtok delim (a @ d # b) = (Some t, b)" using strtok_append [OF 1(2), of a b] st Some by simp
      then have "tokens (a @ d # b) = t # tokens b" by (subst tokens.simps) simp
      then show ?thesis using ta strtok_end [OF st [unfolded Some] True] by simp
    qed
  qed
qed

definition is_word :: "string \<Rightarrow> bool" where
  "is_word w \<longleftrightarrow> w \<noteq> [] \<and> list_all (\<lambda>c. c \<notin> set delim \<and> c \<noteq> CHR ''>'') w"

fun join :: "string list \<Rightarrow> string" where
  "join [] = []"
| "join [w] = w"
| "join (w # ws) = w @ '' '' @ join ws"

lemma space_delim [simp]: "CHR '' '' \<in> set delim"
  by (simp add: delim_def)

lemma strtok_word: "is_word w \<Longrightarrow> strtok delim w = (Some w, []) \<and> after_token delim (skip delim w) = []"
proof -
  assume w: "is_word w"
  then have "skip delim w = w" by (cases w) (simp_all add: is_word_def skip_def)
  moreover have "after_token delim w = []" "takeWhile (\<lambda>c. c \<notin> set delim) w = w"
    using w by (auto simp: is_word_def after_token_def list_all_iff takeWhile_eq_all_conv)
  moreover have "w \<noteq> []" using w by (simp add: is_word_def)
  ultimately show ?thesis by (simp add: strtok_skip)
qed

lemma strtok_word_space: "is_word w \<Longrightarrow> strtok delim (w @ '' '' @ b) = (Some w, b)"
  using strtok_append [OF space_delim, of w b] strtok_word [of w] by simp

lemma tokens_word [simp]: "is_word w \<Longrightarrow> tokens w = [w]"
  using strtok_word [of w] by (subst tokens.simps) simp

lemma tokens_space: "tokens (a @ '' '' @ b) = tokens a @ tokens b"
  using tokens_append [OF space_delim, of a b] by simp

lemma tokens_join: "list_all is_word ws \<Longrightarrow> tokens (join ws) = ws"
proof (induction ws rule: join.induct)
  case (3 w w' ws)
  then show ?case using tokens_space [of w "join (w' # ws)"] by simp
qed auto

lemma strtok_join: "list_all is_word (w # ws) \<Longrightarrow> strtok delim (join (w # ws)) = (Some w, join ws)"
  using strtok_word [of w] strtok_word_space [of w "join ws"] by (cases ws) auto

lemma join_no_redirect: "list_all is_word ws \<Longrightarrow> CHR ''>'' \<notin> set (join ws)"
  by (induction ws rule: join.induct) (auto simp: is_word_def list_all_iff)

text \<open>The part of a line that names the output file.\<close>

definition redirect :: "string option \<Rightarrow> string" where
  "redirect f = (case f of None \<Rightarrow> '''' | Some f \<Rightarrow> '' > '' @ f)"

lemma redirection_none: "CHR ''>'' \<notin> set input \<Longrightarrow> redirection input = Some (input, None)"
  by (simp add: redirection_def)

lemma redirection_some:
  assumes w: "list_all is_word (w # ws)" and f: "is_word f"
  shows "redirection (join (w # ws) @ '' > '' @ f) = Some (join (w # ws) @ '' '', Some f)"
proof -
  let ?j = "join (w # ws)" and ?gt = "CHR ''>''"
  have nj: "?gt \<notin> set ?j" by (rule join_no_redirect [OF w])
  then have t: "takeWhile (\<lambda>c. c \<noteq> ?gt) (?j @ '' > '' @ f) = ?j @ '' ''"
    "dropWhile (\<lambda>c. c \<noteq> ?gt) (?j @ '' > '' @ f) = ''> '' @ f"
    by (auto simp: takeWhile_append dropWhile_append)
  have h: "strtok delim ('' '' @ f) = (Some f, [])"
    using strtok_append [OF space_delim, of "[]" f] strtok_word [OF f] by (simp add: strtok_def)
  have tw: "takeWhile (\<lambda>c. c \<in> set delim) ('' '' @ f) = '' ''"
    using f by (cases f) (auto simp: is_word_def)
  have "fst (strtok delim (?j @ '' '' @ ''> '' @ f)) = Some w"
    using strtok_append [OF space_delim, of ?j "''> '' @ f"] strtok_join [OF w] by simp
  moreover have "w \<noteq> ''>''" using w by (auto simp: is_word_def)
  moreover have "?gt \<notin> set ('' '' @ f)" using f by (auto simp: is_word_def list_all_iff)
  moreover have "strtok delim [] = (None, [])" by (simp add: strtok_def)
  ultimately show ?thesis using t h tw by (simp add: redirection_def Let_def)
qed

lemma strtok_rest: "strtok '''' r = (if r = [] then (None, []) else (Some r, []))"
proof -
  have "dropWhile (\<lambda>c. True) r = []" by (induction r) auto
  then show ?thesis by (simp add: strtok_def del: dropWhile_eq_Nil_conv)
qed

text \<open>What is left of a line of words behind the first one.\<close>

lemma parse_words:
  assumes w: "list_all is_word (w # ws)" "w \<notin> {''exit'', ''alias'', ''unalias''}"
    and f: "case f of None \<Rightarrow> True | Some f \<Rightarrow> is_word f"
  obtains rest where "parse_line (join (w # ws) @ redirect f) = Program w rest f" "tokens rest = ws"
    "length rest \<le> length (join ws) + 1"
proof (cases f)
  case None
  have "w \<noteq> ''>''" using w(1) by (auto simp: is_word_def)
  then have "parse_line (join (w # ws)) = Program w (join ws) None"
    using w strtok_join [OF w(1)] redirection_none [OF join_no_redirect [OF w(1)]] by (simp add: parse_line_def)
  then show ?thesis using that [of "join ws"] tokens_join [of ws] w(1) None by (simp add: redirect_def)
next
  case (Some g)
  have "w \<noteq> ''>''" using w(1) by (auto simp: is_word_def)
  obtain rest where r: "strtok delim (join (w # ws) @ '' '') = (Some w, rest)" "rest = (if after_token delim (skip delim (join (w # ws))) = []
      then [] else join ws @ '' '')"
    using strtok_append [OF space_delim, of "join (w # ws)" "[]"] strtok_join [OF w(1)] by simp
  have "tokens (join (w # ws) @ '' '') = w # ws" using tokens_space [of "join (w # ws)" "[]"] tokens_join [OF w(1)] by simp
  then have "tokens rest = ws" using r(1) by (subst (asm) tokens.simps) simp
  moreover have "parse_line (join (w # ws) @ redirect f) = Program w rest f"
    using w(2) \<open>w \<noteq> ''>''\<close> r(1) redirection_some [OF w(1), of g] Some assms(3) by (simp add: parse_line_def redirect_def)
  moreover have "length rest \<le> length (join ws) + 1" using r(2) by simp
  ultimately show ?thesis using that by blast
qed

lemma tokens_expand:
  assumes "length v + 1 + length rest \<le> 511"
  shows "tokens (expand v rest) = tokens v @ tokens rest"
proof (cases "rest = []")
  case True
  then show ?thesis using assms by (simp add: expand_def strtok_rest clip_def MAX_LENGTH_def)
next
  case False
  then have "expand v rest = v @ '' '' @ rest" using assms by (simp add: expand_def strtok_rest clip_def MAX_LENGTH_def)
  then show ?thesis by (simp only: tokens_space)
qed

text \<open>C21: after a line \<^verbatim>\<open>alias k v\<close>, in any state of the shell, a line that starts with \<open>k\<close> runs the words of \<open>v\<close> followed by
  the other words of the line, with its output in the file named behind \<^verbatim>\<open>>\<close>, and the other aliases are
  as before.\<close>

theorem alias_then_program:
  assumes s: "shell_rel s al" and k: "is_word k" "k \<notin> {''exit'', ''alias'', ''unalias''}"
    and v: "v \<noteq> []" "CHR ''>'' \<notin> set v" "tokens v \<noteq> []"
    and ws: "list_all is_word ws" "length v + length (join ws) \<le> 509" "length (tokens v @ ws) < 100"
    and f: "case f of None \<Rightarrow> True | Some f \<Rightarrow> is_word f \<and> os_open os f"
    and os: "os_fork os n \<noteq> - 1" "os_wait os n" "os_exec os (tokens v @ ws)"
  shows "\<exists>s' al'. run_line os m s (''alias '' @ k @ '' '' @ v) = Ok (s', [], False)
    \<and> shell_rel s' al' \<and> map_of al' = (map_of al)(k \<mapsto> v)
    \<and> run_line os n s' (join (k # ws) @ redirect f) = Ok (s', [Exec (tokens v @ ws) f], False)"
proof -
  have aw: "is_word ''alias''" by (simp add: is_word_def delim_def)
  have "CHR ''>'' \<notin> set (''alias '' @ k @ '' '' @ v)" using k(1) v(2) by (auto simp: is_word_def list_all_iff)
  moreover have "strtok delim (''alias '' @ k @ '' '' @ v) = (Some ''alias'', k @ '' '' @ v)"
    using strtok_word_space [OF aw, of "k @ '' '' @ v"] by simp
  ultimately have "parse_line (''alias '' @ k @ '' '' @ v) = SetAlias k v"
    using strtok_word_space [OF k(1), of v] v(1) by (simp add: parse_line_def redirection_none strtok_rest)
  then obtain s' where s': "run_line os m s (''alias '' @ k @ '' '' @ v) = Ok (s', [], False)" "shell_rel s' (al_add k v al)"
    using add_refines [OF s, of k v] by (auto simp: run_line_def run_command_def)
  obtain rest where r: "parse_line (join (k # ws) @ redirect f) = Program k rest f" "tokens rest = ws"
      "length rest \<le> length (join ws) + 1"
    using parse_words [of k ws f] k ws(1) f by (auto split: option.splits)
  obtain p where p: "alias_search s' k = Ok p" "p \<noteq> 0" "val (nodes s' p) = v"
    using search_refines [OF s'(2), of k] by (auto simp: al_add_map_of)
  have "tokens (expand v rest) = tokens v @ ws" using tokens_expand [of v rest] r(2,3) ws(2) by simp
  then have "run_line os n s' (join (k # ws) @ redirect f) = Ok (s', [Exec (tokens v @ ws) f], False)"
    using r(1) p ws(3) os v(3) f
    by (auto simp: run_line_def run_command_def run_program_def spawn_def child_def Let_def split: option.splits)
  then show ?thesis using s' al_add_map_of by blast
qed

theorem alias_then_program_witness:
  "let os = \<lparr>os_fork = (\<lambda>n. 7), os_wait = (\<lambda>n. True), os_open = (\<lambda>f. True), os_exec = (\<lambda>toks. True)\<rparr> in
   \<exists>s' al'. run_line os 0 empty_shell ''alias ll /bin/ls -l'' = Ok (s', [], False)
     \<and> shell_rel s' al' \<and> map_of al' = [''ll'' \<mapsto> ''/bin/ls -l'']
     \<and> run_line os 1 s' ''ll src > out'' = Ok (s', [Exec [''/bin/ls'', ''-l'', ''src''] (Some ''out'')], False)"
proof -
  have w: "is_word ''ll''" "is_word ''src''" "is_word ''out''" "is_word ''/bin/ls''" "is_word ''-l''"
    by (simp_all add: is_word_def delim_def)
  then have t: "tokens ''/bin/ls -l'' = [''/bin/ls'', ''-l'']" using tokens_space [of "''/bin/ls''" "''-l''"] by simp
  show ?thesis
    using alias_then_program [OF shell_rel_empty w(1), where v = "''/bin/ls -l''" and ws = "[''src'']" and f = "Some ''out''" and n = 1 and m = 0 and
        os = "\<lparr>os_fork = (\<lambda>n. 7), os_wait = (\<lambda>n. True), os_open = (\<lambda>f. True), os_exec = (\<lambda>toks. True)\<rparr>"] w
    by (simp add: t redirect_def)
qed

text \<open>A redirection without a command is only noticed when a blank follows the \<^verbatim>\<open>>\<close>.\<close>

lemma redirection_without_command:
  "parse_line ''> out'' = Misformatted" "parse_line ''>out'' = Nothing"
  by code_simp+

text \<open>An alias for a blank reaches the message about an unknown command with no command at all.\<close>

lemma blank_alias:
  "run_line \<lparr>os_fork = (\<lambda>n. 7), os_wait = (\<lambda>n. True), os_open = (\<lambda>f. True), os_exec = (\<lambda>toks. True)\<rparr> 1
     \<lparr>nodes = (\<lambda>p. \<lparr>key = ''a'', val = '' '', nxt = 0\<rparr>), head = 1, fresh_addr = 2\<rparr> ''a''
   = Ok (\<lparr>nodes = (\<lambda>p. \<lparr>key = ''a'', val = '' '', nxt = 0\<rparr>), head = 1, fresh_addr = 2\<rparr>, [Crash], False)"
proof -
  have "parse_line ''a'' = Program ''a'' [] None" by code_simp
  moreover have "tokens (expand '' '' []) = []" by code_simp
  ultimately show ?thesis
    by (simp add: run_line_def run_command_def alias_search_def search_loop.simps Let_def run_program_def spawn_def child_def)
qed

end
