(* ===== verification/Unixutil.thy ===== *)
theory Unixutil
  imports Mysh
begin

text \<open>
  The two utilities of project 1a, \<^verbatim>\<open>my-look.c\<close> and \<^verbatim>\<open>wordle.c\<close>.  The file they read is a string; the output is the
  string they print.  \<open>Panic\<close> is the end of the program by \<^verbatim>\<open>exit\<close> or a read outside an array.
\<close>

subsection \<open>Lines of a file\<close>

text \<open>The loop over \<^verbatim>\<open>fgets\<close>: the lines as C strings, cut at a NUL.\<close>

lemma fgets_255_shorter: "fgets 255 inp = Some (l, rest) \<Longrightarrow> length rest < length inp"
  using fgets_loop_shorter [of 254 inp] by (auto simp: fgets_def split: if_splits)

function file_lines :: "string \<Rightarrow> string list" where
  "file_lines inp =
     (case fgets 255 inp of None \<Rightarrow> [] | Some (l, rest) \<Rightarrow> takeWhile (\<lambda>c. c \<noteq> CHR 0x00) l # file_lines rest)"
  by auto

termination file_lines
  by (relation "measure length") (auto intro: fgets_255_shorter)

declare file_lines.simps [simp del]

subsection \<open>my-look\<close>

definition alnum :: "char \<Rightarrow> bool" where
  "alnum c \<longleftrightarrow> (let n = (of_char c :: nat) in (48 \<le> n \<and> n \<le> 57) \<or> (97 \<le> n \<and> n \<le> 122) \<or> (65 \<le> n \<and> n \<le> 90))"

definition to_lower :: "char \<Rightarrow> char" where
  "to_lower c = (let n = (of_char c :: nat) in if 65 \<le> n \<and> n \<le> 90 then char_of (n + 32) else c)"

text \<open>\<^verbatim>\<open>strncasecmp\<close> as far as its callers look at it: whether it returns 0.\<close>

fun same_start :: "nat \<Rightarrow> string \<Rightarrow> string \<Rightarrow> bool" where
  "same_start 0 a b = True"
| "same_start (Suc n) [] b = (b = [])"
| "same_start (Suc n) (x # a) [] = False"
| "same_start (Suc n) (x # a) (y # b) = (to_lower x = to_lower y \<and> same_start n a b)"

text \<open>The characters of a line that are compared: its letters and digits, without the last character.  With an
  empty line the bound of the loop wraps around.\<close>

definition look_line :: "string \<Rightarrow> string \<Rightarrow> string outcome" where
  "look_line input line =
     (if line = [] then Panic ''read past the line''
      else let temp = filter alnum (butlast line)
           in Ok (if same_start (length input) input temp then line else []))"

fun look_lines :: "string \<Rightarrow> string list \<Rightarrow> string outcome" where
  "look_lines input [] = Ok []"
| "look_lines input (l # ls) =
     and_then (look_line input l) (\<lambda>out. and_then (look_lines input ls) (\<lambda>out'. Ok (out @ out')))"

text \<open>\<open>file\<close> is the contents of the file that is opened, or of the standard input if none is named.\<close>

definition look_output :: "string \<Rightarrow> string option \<Rightarrow> string outcome" where
  "look_output input file =
     (case file of None \<Rightarrow> Panic ''exit 1'' | Some text \<Rightarrow> look_lines input (file_lines text))"

subsection \<open>wordle\<close>

fun count_inner :: "char \<Rightarrow> string \<Rightarrow> nat" where
  "count_inner c [] = 0"
| "count_inner c (x # xs) = (if c = x then 0 else 1 + count_inner c xs)"

definition wordle_line :: "string \<Rightarrow> string \<Rightarrow> string" where
  "wordle_line str l =
     (let line = takeWhile (\<lambda>c. c \<noteq> newline) l;
          count = (if length line = 5 then sum_list (map (\<lambda>c. count_inner c str) line) else 0)
      in if count = 5 * length str then line @ [newline] else [])"

definition wordle :: "string option \<Rightarrow> string \<Rightarrow> string outcome" where
  "wordle file str =
     (case file of None \<Rightarrow> Panic ''exit 1'' | Some text \<Rightarrow> Ok (concat (map (wordle_line str) (file_lines text))))"

definition wordle_main :: "(string \<Rightarrow> string option) \<Rightarrow> string list \<Rightarrow> string outcome" where
  "wordle_main files argv =
     (if length argv \<noteq> 3 then Panic ''exit 1'' else wordle (files (argv ! 1)) (argv ! 2))"

subsection \<open>What they print\<close>

lemma same_start_prefix:
  "same_start (length a) a b \<longleftrightarrow> length a \<le> length b \<and> map to_lower (take (length a) b) = map to_lower a"
proof (induction a arbitrary: b)
  case (Cons x a)
  then show ?case by (cases b) auto
qed simp

text \<open>A line of text is printed by \<^verbatim>\<open>my-look\<close> exactly if its letters and digits start with the given string, upper and lower
  case being the same.\<close>

lemma look_line_matches:
  assumes "line = t @ [newline]"
  shows "look_line input line = Ok (if length input \<le> length (filter alnum t)
    \<and> map to_lower (take (length input) (filter alnum t)) = map to_lower input then line else [])"
  using assms by (simp add: look_line_def same_start_prefix Let_def)

text \<open>In a last line without a newline the last letter is not seen.\<close>

lemma look_last_line: "look_line ''ab'' ''ab'' = Ok []" "look_line ''ab'' (''ab'' @ [newline]) = Ok (''ab'' @ [newline])"
  by code_simp+

lemma count_inner_le: "count_inner c str \<le> length str" "count_inner c str = length str \<longleftrightarrow> c \<notin> set str"
proof -
  show le: "count_inner c str \<le> length str" for str by (induction str) auto
  show "count_inner c str = length str \<longleftrightarrow> c \<notin> set str"
  proof (induction str)
    case (Cons x xs)
    then show ?case using le [of xs] by auto
  qed simp
qed

lemma sum_counts: "sum_list (map (\<lambda>c. count_inner c str) w) = length w * length str \<longleftrightarrow> set w \<inter> set str = {}"
proof -
  have le: "sum_list (map (\<lambda>c. count_inner c str) w) \<le> length w * length str" for w
    by (induction w) (auto intro: add_mono count_inner_le(1))
  show ?thesis
  proof (induction w)
    case (Cons c w)
    have "count_inner c str + sum_list (map (\<lambda>c. count_inner c str) w) = length str + length w * length str \<longleftrightarrow>
        count_inner c str = length str \<and> sum_list (map (\<lambda>c. count_inner c str) w) = length w * length str"
      using count_inner_le(1) [of c str] le [of w] by auto
    then show ?case using Cons count_inner_le(2) [of c str] by auto
  qed simp
qed

text \<open>\<^verbatim>\<open>wordle\<close> prints the words of five letters that have none of the given letters.\<close>

lemma wordle_words:
  assumes "str \<noteq> []" "newline \<notin> set w"
  shows "wordle_line str (w @ [newline]) = (if length w = 5 \<and> set w \<inter> set str = {} then w @ [newline] else [])"
proof -
  have "takeWhile (\<lambda>c. c \<noteq> newline) (w @ [newline]) = w" using assms(2) by (auto simp: takeWhile_append takeWhile_eq_all_conv)
  then show ?thesis using assms(1) sum_counts [of str w] by (auto simp: wordle_line_def)
qed

text \<open>With no letters given it prints every line, whatever its length.\<close>

lemma wordle_no_letters: "newline \<notin> set w \<Longrightarrow> wordle_line [] (w @ [newline]) = w @ [newline]"
proof -
  assume w: "newline \<notin> set w"
  have "count_inner c [] = 0" for c by simp
  moreover have "takeWhile (\<lambda>c. c \<noteq> newline) (w @ [newline]) = w" using w by (auto simp: takeWhile_append takeWhile_eq_all_conv)
  ultimately show ?thesis by (simp add: wordle_line_def)
qed

end
