(* ===== verification/Sh.thy ===== *)
theory Sh
  imports Prelude
begin

text \<open>
  The command interpreter of the xv6 user land, \<^verbatim>\<open>p4/sh.c\<close>: its parser, which notes the positions of words in the
  line and only then puts a NUL behind each of them, and what the parsed command makes the processes do.  A line
  is a string without NUL; its pointers are positions in it, and the position behind its last character holds the
  final NUL.  \<open>Panic\<close> is the \<^verbatim>\<open>panic\<close> of the shell, which ends the process.
\<close>

subsection \<open>Tokens\<close>

definition nul :: char where "nul = CHR 0x00"

definition whitespace :: string where
  "whitespace = [CHR '' '', CHR 0x09, CHR 0x0D, CHR 0x0A, CHR 0x0B]"

definition symbols :: string where "symbols = ''<|>&;()''"

definition MAXARGS :: nat where "MAXARGS = 10"

definition char_at :: "string \<Rightarrow> nat \<Rightarrow> char" where
  "char_at buf s = (if s < length buf then buf ! s else nul)"

function skip_while :: "(char \<Rightarrow> bool) \<Rightarrow> string \<Rightarrow> nat \<Rightarrow> nat" where
  "skip_while p buf s = (if s < length buf \<and> p (char_at buf s) then skip_while p buf (s + 1) else s)"
  by auto

termination skip_while
  by (relation "measure (\<lambda>(p, buf, s). length buf - s)") auto

declare skip_while.simps [simp del]

definition skip_white :: "string \<Rightarrow> nat \<Rightarrow> nat" where
  "skip_white = skip_while (\<lambda>c. c \<in> set whitespace)"

text \<open>The \<^verbatim>\<open>switch\<close> of \<^verbatim>\<open>gettoken\<close>: the kind of the token at a position, and where it ends.\<close>

definition one_char :: string where "one_char = ''|();&<''"

definition token_at :: "string \<Rightarrow> nat \<Rightarrow> char \<times> nat" where
  "token_at buf q =
     (let c = char_at buf q in
      if c = nul then (c, q)
      else if c \<in> set one_char then (c, q + 1)
      else if c = CHR ''>'' then (if char_at buf (q + 1) = CHR ''>'' then (CHR ''+'', q + 2) else (c, q + 1))
      else (CHR ''a'', skip_while (\<lambda>c. c \<notin> set whitespace \<and> c \<notin> set symbols) buf q))"

text \<open>The kind of the token, where it starts and ends, and where the next one starts.\<close>

definition gettoken :: "string \<Rightarrow> nat \<Rightarrow> char \<times> nat \<times> nat \<times> nat" where
  "gettoken buf ps =
     (let q = skip_white buf ps; (ret, s) = token_at buf q in (ret, q, s, skip_white buf s))"

definition peek :: "string \<Rightarrow> nat \<Rightarrow> string \<Rightarrow> bool \<times> nat" where
  "peek buf ps toks =
     (let s = skip_white buf ps in (char_at buf s \<noteq> nul \<and> char_at buf s \<in> set toks, s))"

lemma skip_while_ge: "s \<le> skip_while p buf s"
  by (induction p buf s rule: skip_while.induct) (subst skip_while.simps, auto)

lemma skip_while_le: "s \<le> length buf \<Longrightarrow> skip_while p buf s \<le> length buf"
  by (induction p buf s rule: skip_while.induct) (subst skip_while.simps, auto)

lemma skip_while_first: "s < length buf \<Longrightarrow> p (char_at buf s) \<Longrightarrow> s < skip_while p buf s"
  using skip_while_ge [of "s + 1" p buf] by (subst skip_while.simps) auto

lemma skip_while_step:
  "s < length buf \<Longrightarrow> p (char_at buf s) \<Longrightarrow> skip_while p buf s = skip_while p buf (s + 1)"
  "\<not> (s < length buf \<and> p (char_at buf s)) \<Longrightarrow> skip_while p buf s = s"
  by (subst skip_while.simps, simp)+

lemma skip_while_stop: "skip_while p buf s < length buf \<Longrightarrow> \<not> p (char_at buf (skip_while p buf s))"
proof (induction p buf s rule: skip_while.induct)
  case (1 p buf s)
  show ?case
  proof (cases "s < length buf \<and> p (char_at buf s)")
    case True
    then have e: "skip_while p buf s = skip_while p buf (s + 1)" using skip_while_step(1) by blast
    show ?thesis using 1(1) [OF True] 1(2) unfolding e by blast
  next
    case False
    then show ?thesis using 1(2) skip_while_step(2) [of s buf p, OF False] by auto
  qed
qed

lemma skip_while_all: "s \<le> i \<Longrightarrow> i < skip_while p buf s \<Longrightarrow> i < length buf \<and> p (char_at buf i)"
proof (induction p buf s rule: skip_while.induct)
  case (1 p buf s)
  show ?case
  proof (cases "s < length buf \<and> p (char_at buf s)")
    case True
    then have e: "skip_while p buf s = skip_while p buf (s + 1)" using skip_while_step(1) by blast
    show ?thesis
    proof (cases "s = i")
      case False
      then show ?thesis using 1(1) [OF True] 1(2,3) unfolding e by simp
    qed (use True in simp)
  next
    case False
    then show ?thesis using 1(2,3) skip_while_step(2) [of s buf p, OF False] by simp
  qed
qed

lemmas skip_white_facts = skip_while_ge [of _ "\<lambda>c. c \<in> set whitespace", folded skip_white_def]
  skip_while_le [of _ _ "\<lambda>c. c \<in> set whitespace", folded skip_white_def]
  skip_while_stop [of "\<lambda>c. c \<in> set whitespace", folded skip_white_def]

lemma char_at_in: "char_at buf s \<noteq> nul \<Longrightarrow> s < length buf"
  by (simp add: char_at_def split: if_splits)

lemma token_at_cases [consumes 1, case_names stop one more gt word]:
  assumes "token_at buf q = (ret, e)"
  obtains "char_at buf q = nul" "ret = nul" "e = q"
    | "char_at buf q \<noteq> nul" "char_at buf q \<in> set one_char" "ret = char_at buf q" "e = q + 1"
    | "char_at buf q = CHR ''>''" "char_at buf (q + 1) = CHR ''>''" "ret = CHR ''+''" "e = q + 2"
    | "char_at buf q = CHR ''>''" "ret = CHR ''>''" "e = q + 1"
    | "char_at buf q \<noteq> nul" "char_at buf q \<notin> set symbols" "ret = CHR ''a''"
      "e = skip_while (\<lambda>c. c \<notin> set whitespace \<and> c \<notin> set symbols) buf q"
proof -
  have sym: "set symbols = insert (CHR ''>'') (set one_char)" by (auto simp: symbols_def one_char_def)
  consider "char_at buf q = nul" | "char_at buf q \<noteq> nul" "char_at buf q \<in> set one_char"
    | "char_at buf q \<noteq> nul" "char_at buf q = CHR ''>''" "char_at buf q \<notin> set one_char"
    | "char_at buf q \<noteq> nul" "char_at buf q \<notin> set one_char" "char_at buf q \<noteq> CHR ''>''" by blast
  then show thesis
  proof cases
    case 1
    then show thesis using that(1) assms by (simp add: token_at_def)
  next
    case 2
    then show thesis using that(2) assms by (simp add: token_at_def Let_def)
  next
    case 3
    then show thesis using that(3,4) assms by (simp add: token_at_def Let_def split: if_splits)
  next
    case 4
    then show thesis using that(5) assms sym by (simp add: token_at_def Let_def)
  qed
qed

lemma nul_facts: "nul \<notin> set one_char" "nul \<noteq> CHR ''>''" "nul \<noteq> CHR ''a''" "nul \<noteq> CHR ''+''" "CHR ''a'' \<notin> set one_char"
  "nul \<notin> set whitespace" "nul \<notin> set symbols"
  by (simp_all add: nul_def one_char_def whitespace_def symbols_def)

lemma token_at_facts:
  assumes t: "token_at buf q = (ret, e)" and w: "q < length buf \<Longrightarrow> char_at buf q \<notin> set whitespace"
  shows "q \<le> e" "q \<le> length buf \<Longrightarrow> e \<le> length buf" "ret \<noteq> nul \<Longrightarrow> q < e \<and> q < length buf"
    "ret = CHR ''a'' \<Longrightarrow> q \<le> i \<Longrightarrow> i < e \<Longrightarrow> i < length buf \<and> char_at buf i \<notin> set whitespace \<and> char_at buf i \<notin> set symbols"
proof -
  let ?p = "\<lambda>c. c \<notin> set whitespace \<and> c \<notin> set symbols"
  have qe: "q \<le> e \<and> (q \<le> length buf \<longrightarrow> e \<le> length buf) \<and> (ret \<noteq> nul \<longrightarrow> q < e \<and> q < length buf)"
    using t
  proof (cases rule: token_at_cases)
    case one
    then show ?thesis using char_at_in [of buf q] by simp
  next
    case more
    then show ?thesis using char_at_in [of buf "q + 1"] nul_facts by simp
  next
    case gt
    then show ?thesis using char_at_in [of buf q] nul_facts by simp
  next
    case word
    then have "q < length buf" using char_at_in [of buf q] by simp
    then show ?thesis using word w skip_while_first [of q buf ?p] skip_while_le [of q buf ?p] by simp
  qed simp
  then show "q \<le> e" "q \<le> length buf \<Longrightarrow> e \<le> length buf" "ret \<noteq> nul \<Longrightarrow> q < e \<and> q < length buf" by auto
  assume a: "ret = CHR ''a''" "q \<le> i" "i < e"
  have "e = skip_while ?p buf q" using t by (cases rule: token_at_cases) (use a(1) nul_facts in auto)
  then show "i < length buf \<and> char_at buf i \<notin> set whitespace \<and> char_at buf i \<notin> set symbols"
    using skip_while_all [of q i ?p buf] a(2,3) by simp
qed

lemma gettoken_facts:
  assumes "gettoken buf s = (ret, q, e, s')"
  shows "s \<le> q" "q \<le> e" "e \<le> s'" "s \<le> length buf \<Longrightarrow> s' \<le> length buf" "ret \<noteq> nul \<Longrightarrow> q < e \<and> q < length buf"
    "ret = CHR ''a'' \<Longrightarrow> q \<le> i \<Longrightarrow> i < e \<Longrightarrow> i < length buf \<and> char_at buf i \<notin> set whitespace \<and> char_at buf i \<notin> set symbols"
proof -
  have d: "q = skip_white buf s" "token_at buf q = (ret, e)" "s' = skip_white buf e"
    using assms by (auto simp: gettoken_def Let_def split: prod.splits)
  have w: "q < length buf \<Longrightarrow> char_at buf q \<notin> set whitespace" using skip_white_facts(3) [of buf s] d(1) by simp
  note t = token_at_facts [OF d(2) w]
  show "s \<le> q" "e \<le> s'" unfolding d(1,3) by (rule skip_white_facts)+
  show "q \<le> e" "ret \<noteq> nul \<Longrightarrow> q < e \<and> q < length buf" using t by blast+
  show "s' \<le> length buf" if "s \<le> length buf"
    using t(2) skip_white_facts(2) [OF that] skip_white_facts(2) [of e buf] d by simp
  show "i < length buf \<and> char_at buf i \<notin> set whitespace \<and> char_at buf i \<notin> set symbols" if "ret = CHR ''a''" "q \<le> i" "i < e"
    using t(4) that by blast
qed

lemma peek_facts:
  assumes "peek buf s toks = (b, s')"
  shows "s \<le> s'" "s \<le> length buf \<Longrightarrow> s' \<le> length buf" "b \<Longrightarrow> s' < length buf"
    "b \<Longrightarrow> fst (gettoken buf s') \<noteq> nul"
proof -
  have s': "s' = skip_white buf s" "b \<longleftrightarrow> char_at buf s' \<noteq> nul \<and> char_at buf s' \<in> set toks"
    using assms by (auto simp: peek_def Let_def)
  show "s \<le> s'" "s \<le> length buf \<Longrightarrow> s' \<le> length buf" unfolding s'(1) by (rule skip_white_facts, assumption?)+
  show "b \<Longrightarrow> s' < length buf" using s'(2) char_at_in by blast
  assume b: "b"
  then have "s' < length buf" using s'(2) char_at_in by blast
  then have "char_at buf s' \<notin> set whitespace" using skip_white_facts(3) [of buf s] s'(1) by blast
  then have "skip_white buf s' = s'" unfolding skip_white_def by (intro skip_while_step(2)) blast
  then show "fst (gettoken buf s') \<noteq> nul"
    using b s'(2) nul_facts by (auto simp: gettoken_def token_at_def Let_def)
qed

subsection \<open>The parser\<close>

text \<open>The parser keeps words as the positions where they start and end; a command can as well be over other kinds of
  words, as the strings the positions stand for.\<close>

type_synonym span = "nat \<times> nat"

datatype mode = O_RDONLY | O_WRONLY_CREATE

datatype 'w cmd =
    EXEC "'w list"
  | REDIR "'w cmd" 'w mode nat
  | PIPE "'w cmd" "'w cmd"
  | LIST "'w cmd" "'w cmd"
  | BACK "'w cmd"

type_synonym 'w redir = "'w \<times> mode \<times> nat"

text \<open>\<^verbatim>\<open>parseexec\<close> fills in the arguments of a command after redirections have been put around it; so the redirections
  are collected and put around the finished command.\<close>

fun wrap :: "'w cmd \<Rightarrow> 'w redir list \<Rightarrow> 'w cmd" where
  "wrap c [] = c"
| "wrap c ((f, m, fd) # rs) = wrap (REDIR c f m fd) rs"

function parseredirs :: "string \<Rightarrow> nat \<Rightarrow> span redir list \<Rightarrow> (span redir list \<times> nat) outcome" where
  "parseredirs buf s rs =
     (case peek buf s ''<>'' of (b, s1) \<Rightarrow>
      if \<not> b then Ok (rs, s1)
      else case gettoken buf s1 of (tok, _, _, s2) \<Rightarrow>
      case gettoken buf s2 of (t, q, eq, s3) \<Rightarrow>
      if t \<noteq> CHR ''a'' then Panic ''missing file for redirection''
      else parseredirs buf s3
             (rs @ [((q, eq), if tok = CHR ''<'' then (O_RDONLY, 0) else (O_WRONLY_CREATE, 1))]))"
  by auto

lemma redirs_advance:
  assumes "(b, s1) = peek buf s toks" "\<not> \<not> b" "(tok, a, c, s2) = gettoken buf s1" "(t, q, eq, s3) = gettoken buf s2"
  shows "length buf - s3 < length buf - s"
proof -
  have "tok \<noteq> nul" using peek_facts(4) [OF assms(1) [symmetric]] assms(2,3) by (metis fst_conv)
  then show ?thesis
    using peek_facts [OF assms(1) [symmetric]] gettoken_facts(1-3,5) [OF assms(3) [symmetric]]
      gettoken_facts(1-3) [OF assms(4) [symmetric]] assms(2) by auto
qed

termination parseredirs
proof (relation "measure (\<lambda>(buf, s, rs). length buf - s)", simp, unfold in_measure prod.case, hypsubst)
qed (rule redirs_advance)

declare parseredirs.simps [simp del]

lemma parseredirs_step:
  "peek buf s ''<>'' = (False, s1) \<Longrightarrow> parseredirs buf s rs = Ok (rs, s1)"
  "peek buf s ''<>'' = (True, s1) \<Longrightarrow> gettoken buf s1 = (tok, a, c, s2) \<Longrightarrow> gettoken buf s2 = (t, q, eq, s3) \<Longrightarrow>
     parseredirs buf s rs = (if t \<noteq> CHR ''a'' then Panic ''missing file for redirection''
       else parseredirs buf s3 (rs @ [((q, eq), if tok = CHR ''<'' then (O_RDONLY, 0) else (O_WRONLY_CREATE, 1))]))"
  by (subst parseredirs.simps, simp)+

lemma parseredirs_mono: "parseredirs buf s rs = Ok (rs', s') \<Longrightarrow> s \<le> s' \<and> (s \<le> length buf \<longrightarrow> s' \<le> length buf)"
proof (induction buf s rs rule: parseredirs.induct)
  case (1 buf s rs)
  obtain b s1 where p: "peek buf s ''<>'' = (b, s1)" by (cases "peek buf s ''<>''")
  obtain tok a c s2 where g: "gettoken buf s1 = (tok, a, c, s2)" by (cases "gettoken buf s1") auto
  obtain t q eq s3 where h: "gettoken buf s2 = (t, q, eq, s3)" by (cases "gettoken buf s2") auto
  show ?case
  proof (cases b)
    case False
    then show ?thesis using parseredirs_step(1) [of buf s s1 rs] 1(2) p peek_facts(1,2) [OF p] by simp
  next
    case True
    have eq: "t = CHR ''a''" "parseredirs buf s3 (rs @ [((q, eq), if tok = CHR ''<'' then (O_RDONLY, 0) else (O_WRONLY_CREATE, 1))]) = Ok (rs', s')"
      using parseredirs_step(2) [of buf s s1 tok a c s2 t q eq s3 rs] p True g h 1(2) by (auto split: if_splits)
    have "s3 \<le> s' \<and> (s3 \<le> length buf \<longrightarrow> s' \<le> length buf)"
      by (rule 1(1) [OF p [symmetric] _ g [symmetric] refl refl h [symmetric] refl refl _ eq(2)]) (use True eq(1) in simp_all)
    then show ?thesis
      using peek_facts(1,2) [OF p] gettoken_facts(1-4) [OF g] gettoken_facts(1-4) [OF h] by auto
  qed
qed

text \<open>The loop over the arguments of a command.\<close>

function exec_loop :: "string \<Rightarrow> nat \<Rightarrow> span list \<Rightarrow> span redir list \<Rightarrow> (span list \<times> span redir list \<times> nat) outcome" where
  "exec_loop buf s args rs =
     (case peek buf s ''|)&;'' of (b, s1) \<Rightarrow>
      if b then Ok (args, rs, s1)
      else case gettoken buf s1 of (tok, q, eq, s2) \<Rightarrow>
      if tok = nul then Ok (args, rs, s2)
      else if tok \<noteq> CHR ''a'' then Panic ''syntax''
      else if length args + 1 \<ge> MAXARGS then Panic ''too many args''
      else and_then (parseredirs buf s2 rs) (\<lambda>(rs, s3). exec_loop buf s3 (args @ [(q, eq)]) rs))"
  by auto

lemma exec_advance:
  assumes "peek buf s toks = (b, s1)" "gettoken buf s1 = (tok, q, eq, s2)" "tok \<noteq> nul" "parseredirs buf s2 rs = Ok (rs', s3)"
  shows "length buf - s3 < length buf - s"
  using peek_facts(1) [OF assms(1)] gettoken_facts(1-3,5) [OF assms(2)] parseredirs_mono [OF assms(4)] assms(3) by auto

termination exec_loop
proof (relation "measure (\<lambda>(buf, s, args, rs). length buf - s)", simp, unfold in_measure prod.case, hypsubst)
  fix buf s args rs b s1 tok x q y eq s2 z rs' s3
  assume "(b, s1) = peek buf s ''|)&;''" "(tok, q, eq, s2) = gettoken buf s1" "tok \<noteq> nul" "parseredirs buf s2 rs = Ok (rs', s3)"
  then show "length buf - s3 < length buf - s" using exec_advance [of buf s _ b s1 tok q eq s2 rs rs' s3] by metis
qed

declare exec_loop.simps [simp del]

definition next_pos :: "string \<Rightarrow> nat \<Rightarrow> nat" where
  "next_pos buf s = snd (snd (snd (gettoken buf s)))"

lemma next_pos_facts:
  "s \<le> next_pos buf s" "s \<le> length buf \<Longrightarrow> next_pos buf s \<le> length buf"
  "peek buf s0 toks = (True, s) \<Longrightarrow> s < next_pos buf s \<and> s < length buf"
proof -
  obtain tok q eq s' where g: "gettoken buf s = (tok, q, eq, s')" by (cases "gettoken buf s") auto
  note f = gettoken_facts(1-5) [OF g]
  show "s \<le> next_pos buf s" "s \<le> length buf \<Longrightarrow> next_pos buf s \<le> length buf" using f g by (auto simp: next_pos_def)
  show "peek buf s0 toks = (True, s) \<Longrightarrow> s < next_pos buf s \<and> s < length buf"
    using f g peek_facts(3,4) [of buf s0 toks True s] by (auto simp: next_pos_def)
qed

text \<open>The loop over \<^verbatim>\<open>&\<close>.\<close>

function back_loop :: "string \<Rightarrow> nat \<Rightarrow> span cmd \<Rightarrow> span cmd \<times> nat" where
  "back_loop buf s c =
     (case peek buf s ''&'' of (b, s1) \<Rightarrow> if b then back_loop buf (next_pos buf s1) (BACK c) else (c, s1))"
  by auto

termination back_loop
proof (relation "measure (\<lambda>(buf, s, c). length buf - s)", simp, unfold in_measure prod.case)
  fix buf s b s1 assume "(b, s1) = peek buf s ''&''" "b"
  then have p: "peek buf s ''&'' = (True, s1)" by (metis (full_types))
  show "length buf - next_pos buf s1 < length buf - s"
    using next_pos_facts(3) [OF p] peek_facts(1) [OF p] by auto
qed

declare back_loop.simps [simp del]

text \<open>The four functions that call each other, with a bound on the depth of their calls.\<close>

fun parseline :: "nat \<Rightarrow> string \<Rightarrow> nat \<Rightarrow> (span cmd \<times> nat) outcome"
  and parsepipe :: "nat \<Rightarrow> string \<Rightarrow> nat \<Rightarrow> (span cmd \<times> nat) outcome"
  and parseexec :: "nat \<Rightarrow> string \<Rightarrow> nat \<Rightarrow> (span cmd \<times> nat) outcome"
  and parseblock :: "nat \<Rightarrow> string \<Rightarrow> nat \<Rightarrow> (span cmd \<times> nat) outcome" where
  "parseline 0 buf s = Wait"
| "parseline (Suc n) buf s =
     and_then (parsepipe n buf s) (\<lambda>(c, s1).
     case back_loop buf s1 c of (c, s2) \<Rightarrow>
     case peek buf s2 '';'' of (b, s3) \<Rightarrow>
     if b then and_then (parseline n buf (next_pos buf s3)) (\<lambda>(r, s4). Ok (LIST c r, s4)) else Ok (c, s3))"
| "parsepipe 0 buf s = Wait"
| "parsepipe (Suc n) buf s =
     and_then (parseexec n buf s) (\<lambda>(c, s1).
     case peek buf s1 ''|'' of (b, s2) \<Rightarrow>
     if b then and_then (parsepipe n buf (next_pos buf s2)) (\<lambda>(r, s3). Ok (PIPE c r, s3)) else Ok (c, s2))"
| "parseexec 0 buf s = Wait"
| "parseexec (Suc n) buf s =
     (case peek buf s ''('' of (b, s1) \<Rightarrow>
      if b then parseblock n buf s1
      else and_then (parseredirs buf s1 []) (\<lambda>(rs, s2).
           and_then (exec_loop buf s2 [] rs) (\<lambda>(args, rs, s3). Ok (wrap (EXEC args) rs, s3))))"
| "parseblock 0 buf s = Wait"
| "parseblock (Suc n) buf s =
     (case peek buf s ''('' of (b, s1) \<Rightarrow>
      if \<not> b then Panic ''parseblock''
      else and_then (parseline n buf (next_pos buf s1)) (\<lambda>(c, s2).
           case peek buf s2 '')'' of (b, s3) \<Rightarrow>
           if \<not> b then Panic ''syntax - missing )''
           else and_then (parseredirs buf (next_pos buf s3) []) (\<lambda>(rs, s4). Ok (wrap c rs, s4))))"

text \<open>\<^verbatim>\<open>nulterminate\<close>: a NUL behind every word.  Behind the last character of the line there is one already.\<close>

fun nulterminate :: "span cmd \<Rightarrow> string \<Rightarrow> string" where
  "nulterminate (EXEC args) buf = foldl (\<lambda>buf (q, eq). buf[eq := nul]) buf args"
| "nulterminate (REDIR c f m fd) buf = (nulterminate c buf)[snd f := nul]"
| "nulterminate (PIPE l r) buf = nulterminate r (nulterminate l buf)"
| "nulterminate (LIST l r) buf = nulterminate r (nulterminate l buf)"
| "nulterminate (BACK c) buf = nulterminate c buf"

definition parsecmd :: "string \<Rightarrow> (span cmd \<times> string) outcome" where
  "parsecmd buf =
     and_then (parseline (4 * length buf + 4) buf 0) (\<lambda>(c, s).
     case peek buf s [] of (_, s) \<Rightarrow>
     if s \<noteq> length buf then Panic ''syntax'' else Ok (c, nulterminate c buf))"

text \<open>The string a pointer into the line stands for.\<close>

definition c_string :: "string \<Rightarrow> nat \<Rightarrow> string" where
  "c_string buf q = takeWhile (\<lambda>c. c \<noteq> nul) (drop q buf)"

subsection \<open>The parser always ends\<close>

text \<open>Moving forward in a line, and not behind its end.\<close>

definition forward :: "string \<Rightarrow> nat \<Rightarrow> nat \<Rightarrow> bool" where
  "forward buf s s' \<longleftrightarrow> s \<le> s' \<and> (s \<le> length buf \<longrightarrow> s' \<le> length buf)"

lemma forward_trans [trans]: "forward buf s s' \<Longrightarrow> forward buf s' s'' \<Longrightarrow> forward buf s s''"
  by (auto simp: forward_def)

lemma forward_refl: "forward buf s s"
  by (simp add: forward_def)

lemma forward_steps:
  "peek buf s toks = (b, s') \<Longrightarrow> forward buf s s'" "gettoken buf s = (tok, q, e, s') \<Longrightarrow> forward buf s s'"
  "forward buf s (next_pos buf s)"
  using peek_facts(1,2) gettoken_facts(1-4) next_pos_facts(1,2) by (fastforce simp: forward_def)+

lemma parseredirs_forward: "parseredirs buf s rs = Ok (rs', s') \<Longrightarrow> forward buf s s'"
  using parseredirs_mono by (simp add: forward_def)

lemma parseredirs_no_wait: "parseredirs buf s rs \<noteq> Wait"
proof (induction "length buf - s" arbitrary: s rs rule: less_induct)
  case less
  obtain b s1 where p: "peek buf s ''<>'' = (b, s1)" by (cases "peek buf s ''<>''")
  obtain tok a c s2 where g: "gettoken buf s1 = (tok, a, c, s2)" by (cases "gettoken buf s1") auto
  obtain t q e s3 where h: "gettoken buf s2 = (t, q, e, s3)" by (cases "gettoken buf s2") auto
  show ?case
  proof (cases b)
    case True
    then have "length buf - s3 < length buf - s" using redirs_advance [OF p [symmetric] _ g [symmetric] h [symmetric]] by simp
    from less.hyps [OF this] show ?thesis using parseredirs_step(2) [of buf s s1 tok a c s2 t q e s3 rs] p g h True by simp
  next
    case False
    then show ?thesis using parseredirs_step(1) [of buf s s1 rs] p by simp
  qed
qed

lemma exec_loop_no_wait: "exec_loop buf s args rs \<noteq> Wait"
proof (induction buf s args rs rule: exec_loop.induct)
  case (1 buf s args rs)
  then show ?case
    by (subst exec_loop.simps) (auto split: prod.splits simp: and_then_Wait_iff parseredirs_no_wait)
qed

text \<open>One round of each loop, and one call of each function, that succeeds.\<close>

lemma parseredirsE [consumes 1, case_names stop more]:
  assumes "parseredirs buf s rs = Ok (rs', s')"
  obtains "peek buf s ''<>'' = (False, s')" "rs' = rs"
  | s1 tok a c s2 q e s3 where "peek buf s ''<>'' = (True, s1)" "gettoken buf s1 = (tok, a, c, s2)"
      "gettoken buf s2 = (CHR ''a'', q, e, s3)"
      "parseredirs buf s3 (rs @ [((q, e), if tok = CHR ''<'' then (O_RDONLY, 0) else (O_WRONLY_CREATE, 1))]) = Ok (rs', s')"
proof -
  obtain b s1 where p: "peek buf s ''<>'' = (b, s1)" by (cases "peek buf s ''<>''")
  obtain tok a c s2 where g: "gettoken buf s1 = (tok, a, c, s2)" by (cases "gettoken buf s1") auto
  obtain t q e s3 where h: "gettoken buf s2 = (t, q, e, s3)" by (cases "gettoken buf s2") auto
  show thesis
  proof (cases b)
    case True
    then show thesis using assms that(2) [of s1 tok a c s2 q e s3] parseredirs_step(2) [of buf s s1 tok a c s2 t q e s3 rs] p g h
      by (simp split: if_splits)
  next
    case False
    then show thesis using assms that(1) parseredirs_step(1) [of buf s s1 rs] p by simp
  qed
qed

lemma exec_loopE [consumes 1, case_names stop nothing more]:
  assumes "exec_loop buf s args rs = Ok (args', rs', s')"
  obtains "peek buf s ''|)&;'' = (True, s')" "args' = args" "rs' = rs"
  | s1 q e where "peek buf s ''|)&;'' = (False, s1)" "gettoken buf s1 = (nul, q, e, s')" "args' = args" "rs' = rs"
  | s1 q e s2 rs1 s3 where "peek buf s ''|)&;'' = (False, s1)" "gettoken buf s1 = (CHR ''a'', q, e, s2)" "length args + 1 < MAXARGS"
      "parseredirs buf s2 rs = Ok (rs1, s3)" "exec_loop buf s3 (args @ [(q, e)]) rs1 = Ok (args', rs', s')"
proof -
  obtain b s1 where p: "peek buf s ''|)&;'' = (b, s1)" by (cases "peek buf s ''|)&;''")
  obtain tok q e s2 where g: "gettoken buf s1 = (tok, q, e, s2)" by (cases "gettoken buf s1") auto
  have u: "exec_loop buf s args rs = (if b then Ok (args, rs, s1) else if tok = nul then Ok (args, rs, s2)
      else if tok \<noteq> CHR ''a'' then Panic ''syntax'' else if length args + 1 \<ge> MAXARGS then Panic ''too many args''
      else and_then (parseredirs buf s2 rs) (\<lambda>(rs, s3). exec_loop buf s3 (args @ [(q, e)]) rs))"
    using p g by (subst exec_loop.simps) simp
  consider "b" | "\<not> b" "tok = nul" | "\<not> b" "tok \<noteq> nul" by blast
  then show thesis
  proof cases
    case 1
    then show thesis using that(1) assms u p by simp
  next
    case 2
    then show thesis using that(2) [of s1 q e] assms u p g by simp
  next
    case 3
    then have "tok = CHR ''a''" "length args + 1 < MAXARGS" using assms u by (auto split: if_splits)
    moreover then obtain rs1 s3 where "parseredirs buf s2 rs = Ok (rs1, s3)" "exec_loop buf s3 (args @ [(q, e)]) rs1 = Ok (args', rs', s')"
      using assms u 3 by auto
    ultimately show thesis using that(3) p g 3(1) by simp
  qed
qed

lemma back_loopE [consumes 1, case_names stop more]:
  assumes "back_loop buf s c = (c', s')"
  obtains "peek buf s ''&'' = (False, s')" "c' = c"
  | s1 where "peek buf s ''&'' = (True, s1)" "back_loop buf (next_pos buf s1) (BACK c) = (c', s')"
proof -
  obtain b s1 where p: "peek buf s ''&'' = (b, s1)" by (cases "peek buf s ''&''")
  show thesis
    using assms p that by (subst (asm) back_loop.simps) (cases b; simp)
qed

lemma parselineE [consumes 1, case_names seq]:
  assumes "parseline (Suc n) buf s = Ok (c, s')"
  obtains c1 s1 c2 s2 b s3 where "parsepipe n buf s = Ok (c1, s1)" "back_loop buf s1 c1 = (c2, s2)" "peek buf s2 '';'' = (b, s3)"
    "if b then \<exists>r. parseline n buf (next_pos buf s3) = Ok (r, s') \<and> c = LIST c2 r else c = c2 \<and> s' = s3"
proof -
  obtain c1 s1 where 1: "parsepipe n buf s = Ok (c1, s1)" using assms by auto
  obtain c2 s2 where 2: "back_loop buf s1 c1 = (c2, s2)" by (cases "back_loop buf s1 c1")
  obtain b s3 where 3: "peek buf s2 '';'' = (b, s3)" by (cases "peek buf s2 '';''")
  show thesis using that [OF 1 2 3] assms 1 2 3 by (auto split: if_splits)
qed

lemma parsepipeE [consumes 1, case_names seq]:
  assumes "parsepipe (Suc n) buf s = Ok (c, s')"
  obtains c1 s1 b s2 where "parseexec n buf s = Ok (c1, s1)" "peek buf s1 ''|'' = (b, s2)"
    "if b then \<exists>r. parsepipe n buf (next_pos buf s2) = Ok (r, s') \<and> c = PIPE c1 r else c = c1 \<and> s' = s2"
proof -
  obtain c1 s1 where 1: "parseexec n buf s = Ok (c1, s1)" using assms by auto
  obtain b s2 where 2: "peek buf s1 ''|'' = (b, s2)" by (cases "peek buf s1 ''|''")
  show thesis using that [OF 1 2] assms 1 2 by (auto split: if_splits)
qed

lemma parseexecE [consumes 1, case_names block plain]:
  assumes "parseexec (Suc n) buf s = Ok (c, s')"
  obtains s1 where "peek buf s ''('' = (True, s1)" "parseblock n buf s1 = Ok (c, s')"
  | s1 rs s2 args rs' where "peek buf s ''('' = (False, s1)" "parseredirs buf s1 [] = Ok (rs, s2)"
      "exec_loop buf s2 [] rs = Ok (args, rs', s')" "c = wrap (EXEC args) rs'"
proof -
  obtain b s1 where 1: "peek buf s ''('' = (b, s1)" by (cases "peek buf s ''(''")
  show thesis using that assms 1 by (cases b) auto
qed

lemma parseblockE [consumes 1, case_names seq]:
  assumes "parseblock (Suc n) buf s = Ok (c, s')"
  obtains s1 c1 s2 s3 rs where "peek buf s ''('' = (True, s1)" "parseline n buf (next_pos buf s1) = Ok (c1, s2)"
    "peek buf s2 '')'' = (True, s3)" "parseredirs buf (next_pos buf s3) [] = Ok (rs, s')" "c = wrap c1 rs"
proof -
  obtain b s1 where 1: "peek buf s ''('' = (b, s1)" by (cases "peek buf s ''(''")
  then have b: "b" using assms by (cases b) auto
  obtain c1 s2 where 2: "parseline n buf (next_pos buf s1) = Ok (c1, s2)" using assms 1 b by auto
  obtain d s3 where 3: "peek buf s2 '')'' = (d, s3)" by (cases "peek buf s2 '')''")
  then have "d" using assms 1 2 b by (cases d) auto
  then show thesis using that [OF _ 2] assms 1 b 2 3 by auto
qed

lemma exec_loop_forward: "exec_loop buf s args rs = Ok (args', rs', s') \<Longrightarrow> forward buf s s'"
proof (induction "length buf - s" arbitrary: s args rs rule: less_induct)
  case less
  from less.prems show ?case
  proof (cases rule: exec_loopE)
    case stop
    then show ?thesis using forward_steps by blast
  next
    case nothing
    then show ?thesis using forward_steps forward_trans by blast
  next
    case (more s1 q e s2 rs1 s3)
    have "length buf - s3 < length buf - s" using exec_advance [OF more(1,2) _ more(4)] nul_facts by metis
    from less.hyps [OF this more(5)] show ?thesis
      using forward_steps(1) [OF more(1)] forward_steps(2) [OF more(2)] parseredirs_forward [OF more(4)] forward_trans by blast
  qed
qed

lemma back_loop_forward: "back_loop buf s c = (c', s') \<Longrightarrow> forward buf s s'"
proof (induction "length buf - s" arbitrary: s c rule: less_induct)
  case less
  from less.prems show ?case
  proof (cases rule: back_loopE)
    case stop
    then show ?thesis using forward_steps by blast
  next
    case (more s1)
    have "length buf - next_pos buf s1 < length buf - s"
      using next_pos_facts(3) [OF more(1)] peek_facts(1) [OF more(1)] by auto
    from less.hyps [OF this more(2)] show ?thesis
      using forward_steps(1) [OF more(1)] forward_steps(3) forward_trans by blast
  qed
qed

lemma parse_forward:
  "parseline n buf s = Ok (c, s') \<Longrightarrow> forward buf s s'" "parsepipe n buf s = Ok (c, s') \<Longrightarrow> forward buf s s'"
  "parseexec n buf s = Ok (c, s') \<Longrightarrow> forward buf s s'" "parseblock n buf s = Ok (c, s') \<Longrightarrow> forward buf s s'"
proof (induction n arbitrary: s c s')
  case (Suc n)
  note F = forward_steps forward_trans back_loop_forward parseredirs_forward exec_loop_forward
  {
    case 1
    then show ?case
    proof (cases rule: parselineE)
      case (seq c1 s1 c2 s2 b s3)
      have "forward buf s s3" using seq(1-3) Suc.IH(2) F by meson
      then show ?thesis using seq(4) Suc.IH(1) F by (cases b) (simp, meson, simp)
    qed
  next
    case 2
    then show ?case
    proof (cases rule: parsepipeE)
      case (seq c1 s1 b s2)
      have "forward buf s s2" using seq(1-2) Suc.IH(3) F by meson
      then show ?thesis using seq(3) Suc.IH(2) F by (cases b) (simp, meson, simp)
    qed
  next
    case 3
    then show ?case
    proof (cases rule: parseexecE)
      case (block s1)
      then show ?thesis using Suc.IH(4) F by meson
    next
      case (plain s1 rs s2 args rs')
      then show ?thesis using F by meson
    qed
  next
    case 4
    then show ?case
    proof (cases rule: parseblockE)
      case (seq s1 c1 s2 s3 rs)
      then show ?thesis using Suc.IH(1) F by meson
    qed
  }
qed simp_all

text \<open>With a depth of four calls for each character that is left, and the four calls of an empty line, every
  function returns.\<close>

lemma parse_no_wait:
  assumes "s \<le> length buf"
  shows "4 * (length buf - s) + 4 \<le> n \<Longrightarrow> parseline n buf s \<noteq> Wait"
    "4 * (length buf - s) + 3 \<le> n \<Longrightarrow> parsepipe n buf s \<noteq> Wait"
    "4 * (length buf - s) + 2 \<le> n \<Longrightarrow> parseexec n buf s \<noteq> Wait"
    "4 * (length buf - s) + 1 \<le> n \<Longrightarrow> parseblock n buf s \<noteq> Wait"
  using assms
proof (induction n arbitrary: s)
  case (Suc n)
  {
    case 1
    have p: "parsepipe n buf s \<noteq> Wait" using Suc.IH(2) [of s] 1 by simp
    show ?case
    proof
      assume "parseline (Suc n) buf s = Wait"
      then obtain c1 s1 where 1: "parsepipe n buf s = Ok (c1, s1)" using p by (auto simp: and_then_Wait_iff)
      obtain c2 s2 where 2: "back_loop buf s1 c1 = (c2, s2)" by (cases "back_loop buf s1 c1")
      obtain b s3 where 3: "peek buf s2 '';'' = (b, s3)" by (cases "peek buf s2 '';''")
      have f: "forward buf s s3" using parse_forward(2) [OF 1] back_loop_forward [OF 2] forward_steps(1) [OF 3] forward_trans by blast
      have "b" "parseline n buf (next_pos buf s3) = Wait"
        using \<open>parseline (Suc n) buf s = Wait\<close> 1 2 3 by (auto simp: and_then_Wait_iff split: if_splits)
      moreover have "s3 < next_pos buf s3" "next_pos buf s3 \<le> length buf"
        using next_pos_facts(2) [of s3 buf] next_pos_facts(3) [of buf s2 "'';''" s3] 3 \<open>b\<close> by auto
      moreover have "4 * (length buf - next_pos buf s3) + 4 \<le> n"
        using calculation(3,4) f \<open>4 * (length buf - s) + 4 \<le> Suc n\<close> unfolding forward_def by linarith
      ultimately show False using Suc.IH(1) [of "next_pos buf s3"] by simp
    qed
  next
    case 2
    have p: "parseexec n buf s \<noteq> Wait" using Suc.IH(3) [of s] 2 by simp
    show ?case
    proof
      assume "parsepipe (Suc n) buf s = Wait"
      then obtain c1 s1 where 1: "parseexec n buf s = Ok (c1, s1)" using p by (auto simp: and_then_Wait_iff)
      obtain b s3 where 3: "peek buf s1 ''|'' = (b, s3)" by (cases "peek buf s1 ''|''")
      have f: "forward buf s s3" using parse_forward(3) [OF 1] forward_steps(1) [OF 3] forward_trans by blast
      have "b" "parsepipe n buf (next_pos buf s3) = Wait"
        using \<open>parsepipe (Suc n) buf s = Wait\<close> 1 3 by (auto simp: and_then_Wait_iff split: if_splits)
      moreover have "s3 < next_pos buf s3" "next_pos buf s3 \<le> length buf"
        using next_pos_facts(2) [of s3 buf] next_pos_facts(3) [of buf s1 "''|''" s3] 3 \<open>b\<close> by auto
      moreover have "4 * (length buf - next_pos buf s3) + 3 \<le> n"
        using calculation(3,4) f \<open>4 * (length buf - s) + 3 \<le> Suc n\<close> unfolding forward_def by linarith
      ultimately show False using Suc.IH(2) [of "next_pos buf s3"] by simp
    qed
  next
    case 3
    obtain b s1 where p: "peek buf s ''('' = (b, s1)" by (cases "peek buf s ''(''")
    show ?case
    proof (cases b)
      case True
      then show ?thesis using p Suc.IH(4) [of s1] 3 peek_facts(1,2) [OF p] by auto
    next
      case False
      then show ?thesis using p by (auto simp: and_then_Wait_iff parseredirs_no_wait exec_loop_no_wait)
    qed
  next
    case 4
    obtain b s1 where p: "peek buf s ''('' = (b, s1)" by (cases "peek buf s ''(''")
    show ?case
    proof (cases b)
      case True
      have "s1 < next_pos buf s1" "next_pos buf s1 \<le> length buf" "s \<le> s1"
        using next_pos_facts(2) [of s1 buf] next_pos_facts(3) [of buf s "''(''" s1] peek_facts(1) [OF p] p True by auto
      then have "parseline n buf (next_pos buf s1) \<noteq> Wait" using Suc.IH(1) [of "next_pos buf s1"] 4 by auto
      then show ?thesis using p True by (auto simp: and_then_Wait_iff parseredirs_no_wait split: prod.splits)
    next
      case False
      then show ?thesis using p by simp
    qed
  }
qed simp_all

text \<open>C40: the parser of the shell ends on every line: it returns a command or stops with a message.\<close>

theorem parsecmd_ends: "parsecmd buf \<noteq> Wait"
  using parse_no_wait(1) [of 0 buf "4 * length buf + 4"] by (auto simp: parsecmd_def and_then_Wait_iff split: prod.splits)

subsection \<open>Words and their final NULs\<close>

definition word_char :: "char \<Rightarrow> bool" where
  "word_char c \<longleftrightarrow> c \<notin> set whitespace \<and> c \<notin> set symbols"

text \<open>A span that covers a word up to where it ends.\<close>

definition word_span :: "string \<Rightarrow> span \<Rightarrow> bool" where
  "word_span buf w \<longleftrightarrow> fst w < snd w \<and> snd w \<le> length buf \<and> (\<forall>i. fst w \<le> i \<and> i < snd w \<longrightarrow> word_char (buf ! i))
     \<and> (snd w < length buf \<longrightarrow> \<not> word_char (buf ! snd w))"

definition span_text :: "string \<Rightarrow> span \<Rightarrow> string" where
  "span_text buf w = take (snd w - fst w) (drop (fst w) buf)"

lemma gettoken_span:
  assumes "gettoken buf s = (CHR ''a'', q, e, s')"
  shows "word_span buf (q, e)"
proof -
  let ?p = "\<lambda>c. c \<notin> set whitespace \<and> c \<notin> set symbols"
  have t: "token_at buf q = (CHR ''a'', e)" using assms by (auto simp: gettoken_def Let_def split: prod.splits)
  have e: "e = skip_while ?p buf q" using t by (cases rule: token_at_cases) (use nul_facts in auto)
  have 1: "q < e" "q < length buf" using gettoken_facts(5) [OF assms] nul_facts by auto
  then have "e \<le> length buf" using skip_while_le [of q buf ?p] e by simp
  moreover have "word_char (buf ! i)" if "q \<le> i" "i < e" for i
    using gettoken_facts(6) [OF assms refl that] by (auto simp: word_char_def char_at_def)
  moreover have "\<not> word_char (buf ! e)" if "e < length buf"
    using skip_while_stop [of ?p buf q] e that by (simp add: word_char_def char_at_def)
  ultimately show ?thesis using 1 by (auto simp: word_span_def)
qed

text \<open>What is known of a parsed command: all its words are such spans, and it has less than \<^verbatim>\<open>MAXARGS\<close> arguments.\<close>

primrec few_args :: "'w cmd \<Rightarrow> bool" where
  "few_args (EXEC args) \<longleftrightarrow> length args < MAXARGS"
| "few_args (REDIR c f m fd) \<longleftrightarrow> few_args c \<and> (m = O_RDONLY \<longleftrightarrow> fd = 0) \<and> fd \<le> 1"
| "few_args (PIPE l r) \<longleftrightarrow> few_args l \<and> few_args r"
| "few_args (LIST l r) \<longleftrightarrow> few_args l \<and> few_args r"
| "few_args (BACK c) \<longleftrightarrow> few_args c"

definition parsed :: "string \<Rightarrow> span cmd \<Rightarrow> bool" where
  "parsed buf c \<longleftrightarrow> (\<forall>w \<in> set_cmd c. word_span buf w) \<and> few_args c"

definition redirs_ok :: "string \<Rightarrow> span redir list \<Rightarrow> bool" where
  "redirs_ok buf rs \<longleftrightarrow> (\<forall>(w, m, fd) \<in> set rs. word_span buf w \<and> (m = O_RDONLY \<longleftrightarrow> fd = 0) \<and> fd \<le> 1)"

lemma parsed_simps [simp]:
  "parsed buf (EXEC args) \<longleftrightarrow> (\<forall>w \<in> set args. word_span buf w) \<and> length args < MAXARGS"
  "parsed buf (PIPE l r) \<longleftrightarrow> parsed buf l \<and> parsed buf r"
  "parsed buf (LIST l r) \<longleftrightarrow> parsed buf l \<and> parsed buf r"
  "parsed buf (BACK c) \<longleftrightarrow> parsed buf c"
  by (simp_all add: parsed_def ball_Un) blast+

lemma parsed_wrap: "parsed buf c \<Longrightarrow> redirs_ok buf rs \<Longrightarrow> parsed buf (wrap c rs)"
proof (induction c rs rule: wrap.induct)
  case (2 c f m fd rs)
  have "parsed buf (REDIR c f m fd)" using 2(2,3) by (simp add: parsed_def redirs_ok_def)
  then show ?case using 2(1,3) by (simp add: redirs_ok_def)
qed simp

lemma parseredirs_ok: "parseredirs buf s rs = Ok (rs', s') \<Longrightarrow> redirs_ok buf rs \<Longrightarrow> redirs_ok buf rs'"
proof (induction "length buf - s" arbitrary: s rs rule: less_induct)
  case less
  from less.prems(1) show ?case
  proof (cases rule: parseredirsE)
    case stop
    then show ?thesis using less.prems by simp
  next
    case (more s1 tok a c s2 q e s3)
    have l: "length buf - s3 < length buf - s"
      by (rule redirs_advance [OF more(1) [symmetric] _ more(2) [symmetric] more(3) [symmetric]]) simp
    have "redirs_ok buf (rs @ [((q, e), if tok = CHR ''<'' then (O_RDONLY, 0) else (O_WRONLY_CREATE, 1))])"
      using less.prems(2) gettoken_span [OF more(3)] by (auto simp: redirs_ok_def)
    from less.hyps [OF l more(4) this] show ?thesis .
  qed
qed

lemma exec_loop_ok:
  "exec_loop buf s args rs = Ok (args', rs', s') \<Longrightarrow> redirs_ok buf rs \<Longrightarrow> parsed buf (EXEC args) \<Longrightarrow>
   redirs_ok buf rs' \<and> parsed buf (EXEC args')"
proof (induction "length buf - s" arbitrary: s args rs rule: less_induct)
  case less
  from less.prems(1) show ?case
  proof (cases rule: exec_loopE)
    case (more s1 q e s2 rs1 s3)
    have l: "length buf - s3 < length buf - s" using exec_advance [OF more(1,2) _ more(4)] nul_facts by metis
    have "parsed buf (EXEC (args @ [(q, e)]))" using less.prems(3) gettoken_span [OF more(2)] more(3) by auto
    from less.hyps [OF l more(5) parseredirs_ok [OF more(4) less.prems(2)] this] show ?thesis .
  qed (use less.prems in auto)
qed

lemma back_loop_ok: "back_loop buf s c = (c', s') \<Longrightarrow> parsed buf c \<Longrightarrow> parsed buf c'"
proof (induction "length buf - s" arbitrary: s c rule: less_induct)
  case less
  from less.prems(1) show ?case
  proof (cases rule: back_loopE)
    case stop
    then show ?thesis using less.prems by simp
  next
    case (more s1)
    have "length buf - next_pos buf s1 < length buf - s"
      using next_pos_facts(3) [OF more(1)] peek_facts(1) [OF more(1)] by auto
    from less.hyps [OF this more(2)] show ?thesis using less.prems(2) by simp
  qed
qed

lemma parse_ok:
  "parseline n buf s = Ok (c, s') \<Longrightarrow> parsed buf c" "parsepipe n buf s = Ok (c, s') \<Longrightarrow> parsed buf c"
  "parseexec n buf s = Ok (c, s') \<Longrightarrow> parsed buf c" "parseblock n buf s = Ok (c, s') \<Longrightarrow> parsed buf c"
proof (induction n arbitrary: s c s')
  case (Suc n)
  {
    case 1
    then show ?case
    proof (cases rule: parselineE)
      case (seq c1 s1 c2 s2 b s3)
      have "parsed buf c2" using Suc.IH(2) [OF seq(1)] back_loop_ok [OF seq(2)] by blast
      then show ?thesis using seq(4) Suc.IH(1) by (auto split: if_splits)
    qed
  next
    case 2
    then show ?case
    proof (cases rule: parsepipeE)
      case (seq c1 s1 b s2)
      then show ?thesis using Suc.IH(2,3) by (auto split: if_splits)
    qed
  next
    case 3
    then show ?case
    proof (cases rule: parseexecE)
      case (block s1)
      then show ?thesis using Suc.IH(4) by blast
    next
      case (plain s1 rs s2 args rs')
      have "redirs_ok buf rs" by (rule parseredirs_ok [OF plain(2)]) (simp add: redirs_ok_def)
      then show ?thesis using exec_loop_ok [OF plain(3)] plain(4) parsed_wrap by (simp add: MAXARGS_def)
    qed
  next
    case 4
    then show ?case
    proof (cases rule: parseblockE)
      case (seq s1 c1 s2 s3 rs)
      have "redirs_ok buf rs" by (rule parseredirs_ok [OF seq(4)]) (simp add: redirs_ok_def)
      then show ?thesis using Suc.IH(1) [OF seq(2)] seq(5) parsed_wrap by blast
    qed
  }
qed simp_all

lemma foldl_nuls:
  "length (foldl (\<lambda>buf (q, eq). buf[eq := nul]) buf args) = length buf"
  "i < length buf \<Longrightarrow> foldl (\<lambda>buf (q, eq). buf[eq := nul]) buf args ! i = (if i \<in> snd ` set args then nul else buf ! i)"
proof (induction args arbitrary: buf)
  case (Cons w args)
  {
    case 1
    then show ?case using Cons.IH(1) by (simp add: case_prod_beta)
  next
    case 2
    then show ?case using Cons.IH(2) [of "buf[snd w := nul]"] by (auto simp: case_prod_beta nth_list_update)
  }
qed simp_all

lemma nulterminate_nuls:
  "length (nulterminate c buf) = length buf"
  "i < length buf \<Longrightarrow> nulterminate c buf ! i = (if i \<in> snd ` set_cmd c then nul else buf ! i)"
proof (induction c arbitrary: buf)
  case (EXEC args)
  {
    case 1
    then show ?case by (simp add: foldl_nuls)
  next
    case 2
    then show ?case by (simp add: foldl_nuls)
  }
next
  case (REDIR c f m fd)
  {
    case 1
    then show ?case by (simp add: REDIR)
  next
    case 2
    then show ?case using REDIR by (cases "i = snd f") simp_all
  }
qed auto

lemma word_char_nul: "nul \<notin> set buf \<Longrightarrow> i < length buf \<Longrightarrow> buf ! i \<noteq> nul"
  by (metis nth_mem)

text \<open>After the NULs are set, the pointer to the start of a word is the string of that word.\<close>

lemma c_string_span:
  assumes c: "parsed buf c" "nul \<notin> set buf" and w: "w \<in> set_cmd c"
  shows "c_string (nulterminate c buf) (fst w) = span_text buf w"
proof -
  let ?b = "nulterminate c buf"
  have ws: "word_span buf v" if "v \<in> set_cmd c" for v using c(1) that by (simp add: parsed_def)
  note W = ws [OF w, unfolded word_span_def]
  have "?b ! i = buf ! i" if "fst w \<le> i" "i < snd w" for i
  proof -
    have "word_char (buf ! i)" "i < length buf" using W that by auto
    then have "i \<notin> snd ` set_cmd c" using ws by (auto simp: word_span_def)
    then show ?thesis using nulterminate_nuls(2) \<open>i < length buf\<close> by simp
  qed
  then have "span_text ?b w = span_text buf w"
    using W by (intro nth_equalityI) (auto simp: span_text_def nulterminate_nuls(1))
  moreover have "c_string ?b (fst w) = span_text ?b w"
  proof -
    let ?d = "drop (fst w) ?b" and ?n = "snd w - fst w"
    have "takeWhile (\<lambda>c. c \<noteq> nul) ?d = take ?n ?d"
    proof (rule takeWhile_eq_take_P_nth)
      fix i assume "i < ?n" "i < length ?d"
      then have "?b ! (fst w + i) = buf ! (fst w + i)" "fst w + i < length buf"
        using \<open>\<And>i. fst w \<le> i \<Longrightarrow> i < snd w \<Longrightarrow> ?b ! i = buf ! i\<close> W by (auto simp: nulterminate_nuls(1))
      then show "?d ! i \<noteq> nul" using word_char_nul [OF c(2)] by (simp add: nulterminate_nuls(1))
    next
      assume "?n < length ?d"
      then have "snd w < length buf" using W by (simp add: nulterminate_nuls(1))
      then have "?b ! snd w = nul" using w by (simp add: nulterminate_nuls(2))
      then show "\<not> ?d ! ?n \<noteq> nul" using W by (simp add: nulterminate_nuls(1))
    qed
    then show ?thesis by (simp add: c_string_def span_text_def)
  qed
  ultimately show ?thesis by simp
qed

lemma parsecmdE:
  assumes "parsecmd buf = Ok (c, buf')"
  obtains s b where "parseline (4 * length buf + 4) buf 0 = Ok (c, s)" "peek buf s [] = (b, length buf)"
    "buf' = nulterminate c buf"
proof -
  obtain c1 s where 1: "parseline (4 * length buf + 4) buf 0 = Ok (c1, s)" using assms by (auto simp: parsecmd_def)
  obtain b s1 where 2: "peek buf s [] = (b, s1)" by (cases "peek buf s []")
  then show thesis using that assms 1 by (auto simp: parsecmd_def split: if_splits)
qed

text \<open>C19: whatever line it parsed, the strings the command refers to once the NULs are set are the words of the line,
  each as it was typed: no NUL falls into another word.  No command has more arguments than the
  array for them holds.\<close>

theorem parsecmd_words:
  assumes "parsecmd buf = Ok (c, buf')" "nul \<notin> set buf"
  shows "map_cmd (\<lambda>w. c_string buf' (fst w)) c = map_cmd (span_text buf) c \<and> few_args c
    \<and> (\<forall>w \<in> set_cmd c. span_text buf w \<noteq> [] \<and> list_all word_char (span_text buf w))"
proof -
  obtain s where p: "parseline (4 * length buf + 4) buf 0 = Ok (c, s)" "buf' = nulterminate c buf"
    using parsecmdE [OF assms(1)] by blast
  have ok: "parsed buf c" by (rule parse_ok(1) [OF p(1)])
  then have "map_cmd (\<lambda>w. c_string buf' (fst w)) c = map_cmd (span_text buf) c"
    using c_string_span [OF ok assms(2)] p(2) by (intro cmd.map_cong0) simp
  moreover have "span_text buf w \<noteq> [] \<and> list_all word_char (span_text buf w)" if "w \<in> set_cmd c" for w
  proof -
    have W: "word_span buf w" using ok that by (simp add: parsed_def)
    then show ?thesis by (auto simp: word_span_def span_text_def list_all_length)
  qed
  ultimately show ?thesis using ok by (simp add: parsed_def)
qed

subsection \<open>Printing and parsing again\<close>

text \<open>A command as a line: with parentheses where a part would otherwise be taken apart.\<close>

definition text_word :: "string \<Rightarrow> bool" where
  "text_word w \<longleftrightarrow> w \<noteq> [] \<and> list_all (\<lambda>c. word_char c \<and> c \<noteq> nul) w"

definition redir_text :: "mode \<Rightarrow> string \<Rightarrow> string" where
  "redir_text m f = (if m = O_RDONLY then CHR ''<'' else CHR ''>'') # f @ '' ''"

primrec level :: "'w cmd \<Rightarrow> nat" where
  "level (EXEC ws) = 3"
| "level (REDIR c f m fd) = 3"
| "level (PIPE l r) = 2"
| "level (BACK c) = 1"
| "level (LIST l r) = 0"

definition paren :: "nat \<Rightarrow> nat \<Rightarrow> string \<Rightarrow> string" where
  "paren k lv t = (if k \<le> lv then t else ''('' @ t @ '')'')"

primrec body :: "string cmd \<Rightarrow> string" where
  "body (EXEC ws) = concat (map (\<lambda>w. w @ '' '') ws)"
| "body (REDIR c f m fd) = paren 3 (level c) (body c) @ redir_text m f"
| "body (PIPE l r) = paren 3 (level l) (body l) @ ''|'' @ paren 2 (level r) (body r)"
| "body (LIST l r) = paren 1 (level l) (body l) @ '';'' @ paren 0 (level r) (body r)"
| "body (BACK c) = paren 1 (level c) (body c) @ ''&''"

definition print_cmd :: "nat \<Rightarrow> string cmd \<Rightarrow> string" where
  "print_cmd k t = paren k (level t) (body t)"

definition printable :: "string cmd \<Rightarrow> bool" where
  "printable t \<longleftrightarrow> few_args t \<and> (\<forall>w \<in> set_cmd t. text_word w)"

lemma body_print:
  "body (REDIR c f m fd) = print_cmd 3 c @ redir_text m f" "body (PIPE l r) = print_cmd 3 l @ ''|'' @ print_cmd 2 r"
  "body (LIST l r) = print_cmd 1 l @ '';'' @ print_cmd 0 r" "body (BACK c) = print_cmd 1 c @ ''&''"
  by (simp_all add: print_cmd_def)

text \<open>What is left of a line: no blank in front, and nothing or one of these characters.\<close>

definition clean :: "string \<Rightarrow> bool" where "clean x \<longleftrightarrow> x = [] \<or> hd x \<notin> set whitespace"
definition follow :: "string \<Rightarrow> string \<Rightarrow> bool" where "follow ds x \<longleftrightarrow> x = [] \<or> hd x \<in> set ds"

lemma rest_of_line: "drop s buf = a @ x \<Longrightarrow> drop (s + length a) buf = x"
  by (metis add.commute append_eq_conv_conj drop_drop)

lemma rest_char: "drop s buf = c # x \<Longrightarrow> char_at buf s = c \<and> s < length buf \<and> drop (s + 1) buf = x"
  by (metis char_at_def drop_eq_Nil2 leI list.discI list.sel(1) hd_drop_conv_nth rest_of_line [of _ _ "[_]"] append_Cons
      append_Nil length_Cons list.size(3) One_nat_def)

lemma rest_end: "drop s buf = [] \<Longrightarrow> char_at buf s = nul"
  by (simp add: char_at_def)

lemma rest_bound: "s \<le> length buf \<Longrightarrow> drop s buf = a @ x \<Longrightarrow> s + length a \<le> length buf"
  by (metis add_le_cancel_left le_add_diff_inverse length_append length_drop le_add1)

lemma skip_clean: "drop s buf = x \<Longrightarrow> clean x \<Longrightarrow> skip_white buf s = s"
proof -
  assume d: "drop s buf = x" and c: "clean x"
  have "\<not> (s < length buf \<and> char_at buf s \<in> set whitespace)"
  proof (cases x)
    case Nil
    then show ?thesis using d by simp
  next
    case (Cons a y)
    then show ?thesis using rest_char [of s buf a y] d c by (simp add: clean_def)
  qed
  then show ?thesis unfolding skip_white_def by (intro skip_while_step(2))
qed

lemma skip_space: "drop s buf = CHR '' '' # x \<Longrightarrow> clean x \<Longrightarrow> skip_white buf s = s + 1"
proof -
  assume d: "drop s buf = CHR '' '' # x" and c: "clean x"
  note r = rest_char [OF d]
  have "skip_white buf s = skip_white buf (s + 1)"
    unfolding skip_white_def by (rule skip_while_step(1)) (use r in \<open>auto simp: whitespace_def\<close>)
  then show ?thesis using skip_clean [of "s + 1" buf x] r c by simp
qed

lemma peek_clean:
  assumes "drop s buf = x" "clean x" "nul \<notin> set toks"
  shows "peek buf s toks = (x \<noteq> [] \<and> hd x \<in> set toks, s)"
proof (cases x)
  case Nil
  then show ?thesis using assms rest_end [of s buf] by (simp add: peek_def skip_clean [OF assms(1,2)])
next
  case (Cons a y)
  then show ?thesis using assms rest_char [of s buf a y] by (auto simp: peek_def skip_clean [OF assms(1,2)] Let_def)
qed

lemma gettoken_at:
  assumes "drop s buf = x" "clean x" "token_at buf s = (ret, e)"
  shows "gettoken buf s = (ret, s, e, skip_white buf e)"
  by (simp add: gettoken_def skip_clean [OF assms(1,2)] assms(3))

lemma symbol_clean: "c \<in> set symbols \<Longrightarrow> clean (c # x)"
  by (auto simp: clean_def symbols_def whitespace_def)

lemma gettoken_symbol:
  assumes d: "drop s buf = c # x" and c: "c \<in> set one_char" and x: "clean x"
  shows "gettoken buf s = (c, s, s + 1, s + 1)" "next_pos buf s = s + 1"
proof -
  note r = rest_char [OF d]
  have "clean (c # x)" using c by (intro symbol_clean) (auto simp: one_char_def symbols_def)
  moreover have "token_at buf s = (c, s + 1)" using r c nul_facts by (auto simp: token_at_def Let_def)
  ultimately show "gettoken buf s = (c, s, s + 1, s + 1)"
    using gettoken_at [OF d] skip_clean [of "s + 1" buf x] r x by simp
  then show "next_pos buf s = s + 1" by (simp add: next_pos_def)
qed

lemma gettoken_gt:
  assumes d: "drop s buf = CHR ''>'' # x" and x: "clean x" "\<not> (x \<noteq> [] \<and> hd x = CHR ''>'')"
  shows "gettoken buf s = (CHR ''>'', s, s + 1, s + 1)"
proof -
  note r = rest_char [OF d]
  have "char_at buf (s + 1) \<noteq> CHR ''>''"
  proof (cases x)
    case Nil
    then show ?thesis using r rest_end [of "s + 1" buf] nul_facts by simp
  next
    case (Cons a y)
    then show ?thesis using r rest_char [of "s + 1" buf a y] x(2) by simp
  qed
  then have "token_at buf s = (CHR ''>'', s + 1)" using r nul_facts by (simp add: token_at_def Let_def one_char_def)
  moreover have "clean (CHR ''>'' # x)" by (rule symbol_clean) (simp add: symbols_def)
  ultimately show ?thesis using gettoken_at [OF d] skip_clean [of "s + 1" buf x] r x by simp
qed

lemma skip_word:
  "drop s buf = w @ CHR '' '' # x \<Longrightarrow> list_all word_char w \<Longrightarrow>
   skip_while (\<lambda>c. c \<notin> set whitespace \<and> c \<notin> set symbols) buf s = s + length w"
proof (induction w arbitrary: s)
  case Nil
  then have "char_at buf s = CHR '' ''" using rest_char by simp
  then show ?case using skip_while_step(2) [of s buf "\<lambda>c. c \<notin> set whitespace \<and> c \<notin> set symbols"] by (simp add: whitespace_def)
next
  case (Cons c w)
  note r = rest_char [of s buf c "w @ CHR '' '' # x"]
  have "skip_while (\<lambda>c. c \<notin> set whitespace \<and> c \<notin> set symbols) buf s = skip_while (\<lambda>c. c \<notin> set whitespace \<and> c \<notin> set symbols) buf (s + 1)"
    by (rule skip_while_step(1)) (use r Cons.prems in \<open>auto simp: word_char_def\<close>)
  then show ?case using Cons.IH [of "s + 1"] r Cons.prems by simp
qed

lemma gettoken_word:
  assumes d: "drop s buf = w @ '' '' @ x" and w: "text_word w" and x: "clean x"
  shows "gettoken buf s = (CHR ''a'', s, s + length w, s + length w + 1)" "span_text buf (s, s + length w) = w"
proof -
  obtain c v where cv: "w = c # v" using w by (cases w) (auto simp: text_word_def)
  have wc: "word_char c" "c \<noteq> nul" "list_all word_char w" using w cv by (auto simp: text_word_def list_all_iff)
  have r: "char_at buf s = c" using rest_char [of s buf c "v @ '' '' @ x"] d cv by simp
  have "c \<notin> set one_char" "c \<noteq> CHR ''>''" using wc(1) by (auto simp: word_char_def symbols_def one_char_def)
  then have "token_at buf s = (CHR ''a'', s + length w)"
    using r wc skip_word [of s buf w x] d by (simp add: token_at_def Let_def)
  moreover have "clean (w @ '' '' @ x)" using wc(1) cv by (simp add: clean_def word_char_def)
  moreover have "skip_white buf (s + length w) = s + length w + 1"
    using skip_space [of "s + length w" buf x] rest_of_line [OF d] x by simp
  ultimately show "gettoken buf s = (CHR ''a'', s, s + length w, s + length w + 1)" using gettoken_at [OF d] by simp
  show "span_text buf (s, s + length w) = w" using d by (simp add: span_text_def)
qed

lemma gettoken_end: "drop s buf = [] \<Longrightarrow> gettoken buf s = (nul, s, s, s)"
  using gettoken_at [of s buf "[]" nul s] rest_end [of s buf] skip_clean [of s buf "[]"]
  by (simp add: token_at_def clean_def)

lemma text_word_start: "text_word w \<Longrightarrow> clean (w @ x) \<and> w @ x \<noteq> [] \<and> hd (w @ x) \<notin> set symbols"
  by (cases w) (auto simp: text_word_def clean_def word_char_def)

lemma printable_simps [simp]:
  "printable (EXEC ws) \<longleftrightarrow> length ws < MAXARGS \<and> list_all text_word ws"
  "printable (REDIR c f m fd) \<longleftrightarrow> printable c \<and> text_word f \<and> (m = O_RDONLY \<longleftrightarrow> fd = 0) \<and> fd \<le> 1"
  "printable (PIPE l r) \<longleftrightarrow> printable l \<and> printable r"
  "printable (LIST l r) \<longleftrightarrow> printable l \<and> printable r"
  "printable (BACK t) \<longleftrightarrow> printable t"
  by (auto simp: printable_def list_all_iff ball_Un)

lemma clean_append: "clean y \<Longrightarrow> (y = [] \<Longrightarrow> clean x) \<Longrightarrow> clean (y @ x)"
  by (cases y) (auto simp: clean_def)

lemma clean_body: "printable t \<Longrightarrow> clean (body t)"
proof (induction t)
  case (EXEC ws)
  then show ?case using text_word_start by (cases ws) (auto simp: clean_def [of "[]"])
qed (auto simp: paren_def redir_text_def intro!: clean_append symbol_clean simp: symbols_def)

lemma print_clean: "printable t \<Longrightarrow> clean x \<Longrightarrow> clean (print_cmd k t @ x)"
  by (auto simp: print_cmd_def paren_def intro!: clean_append clean_body symbol_clean simp: symbols_def)

text \<open>Redirections.\<close>

definition redirs_text :: "string redir list \<Rightarrow> string" where
  "redirs_text rs = concat (map (\<lambda>(f, m, fd). redir_text m f) rs)"

definition redir_ok :: "string redir \<Rightarrow> bool" where
  "redir_ok r \<longleftrightarrow> (case r of (f, m, fd) \<Rightarrow> text_word f \<and> (m = O_RDONLY \<longleftrightarrow> fd = 0) \<and> fd \<le> 1)"

definition read_redirs :: "string \<Rightarrow> span redir list \<Rightarrow> string redir list" where
  "read_redirs buf rs = map (\<lambda>(w, m, fd). (span_text buf w, m, fd)) rs"

lemma redirs_clean: "clean x \<Longrightarrow> clean (redirs_text rs @ x)"
proof (cases rs)
  case (Cons r rs')
  obtain f m fd where "r = (f, m, fd)" by (cases r) auto
  then show ?thesis using Cons by (auto simp: redirs_text_def redir_text_def symbols_def intro!: symbol_clean)
qed (simp add: redirs_text_def)

lemma parse_redirs:
  "list_all redir_ok rs \<Longrightarrow> drop s buf = redirs_text rs @ x \<Longrightarrow> clean x \<Longrightarrow> \<not> (x \<noteq> [] \<and> hd x \<in> set ''<>'') \<Longrightarrow>
   \<exists>rr. parseredirs buf s rs0 = Ok (rs0 @ rr, s + length (redirs_text rs)) \<and> read_redirs buf rr = rs"
proof (induction rs arbitrary: s rs0)
  case Nil
  have "peek buf s ''<>'' = (False, s)" using peek_clean [of s buf x "''<>''"] Nil by (auto simp: redirs_text_def nul_def)
  then show ?case using parseredirs_step(1) by (simp add: redirs_text_def read_redirs_def)
next
  case (Cons r rs)
  obtain f m fd where r: "r = (f, m, fd)" by (cases r) auto
  have ok: "text_word f" "m = O_RDONLY \<longleftrightarrow> fd = 0" "fd \<le> 1" using Cons.prems(1) r by (auto simp: redir_ok_def)
  let ?c = "if m = O_RDONLY then CHR ''<'' else CHR ''>''" and ?y = "redirs_text rs @ x"
  have d: "drop s buf = ?c # f @ '' '' @ ?y" using Cons.prems(2) r by (simp add: redirs_text_def redir_text_def)
  have y: "clean ?y" using redirs_clean Cons.prems(3) .
  have fy: "clean (f @ '' '' @ ?y)" "hd (f @ '' '' @ ?y) \<notin> set symbols" using text_word_start [OF ok(1)] by auto
  have d1: "drop (s + 1) buf = f @ '' '' @ ?y" using rest_char [OF d] by simp
  have p: "peek buf s ''<>'' = (True, s)"
    using peek_clean [OF d, of "''<>''"] symbol_clean [of ?c] by (simp add: symbols_def nul_def)
  have g: "gettoken buf s = (?c, s, s + 1, s + 1)"
  proof (cases "m = O_RDONLY")
    case True
    then show ?thesis using gettoken_symbol(1) [OF d _ fy(1)] by (simp add: one_char_def)
  next
    case False
    then show ?thesis using gettoken_gt [of s buf "f @ '' '' @ ?y"] d fy by (auto simp: symbols_def)
  qed
  have h: "gettoken buf (s + 1) = (CHR ''a'', s + 1, s + 1 + length f, s + 1 + length f + 1)"
    "span_text buf (s + 1, s + 1 + length f) = f" using gettoken_word [OF d1 ok(1) y] by auto
  have k: "(if ?c = CHR ''<'' then (O_RDONLY, 0) else (O_WRONLY_CREATE, 1)) = (m, fd)"
    using ok(2,3) by (cases m) auto
  have d2: "drop (s + 1 + length f + 1) buf = ?y"
    using rest_of_line [OF d1] rest_char [of "s + 1 + length f" buf "CHR '' ''" ?y] by simp
  obtain rr where rr: "parseredirs buf (s + 1 + length f + 1) (rs0 @ [((s + 1, s + 1 + length f), m, fd)])
      = Ok ((rs0 @ [((s + 1, s + 1 + length f), m, fd)]) @ rr, s + 1 + length f + 1 + length (redirs_text rs))" "read_redirs buf rr = rs"
    using Cons.IH [OF _ d2 Cons.prems(3,4), of "rs0 @ [((s + 1, s + 1 + length f), m, fd)]"] Cons.prems(1) by auto
  have "parseredirs buf s rs0 = Ok (rs0 @ ((s + 1, s + 1 + length f), m, fd) # rr, s + 1 + length f + 1 + length (redirs_text rs))"
    using parseredirs_step(2) [OF p g h(1), of rs0] rr(1) unfolding k by simp
  moreover have "s + length (redirs_text (r # rs)) = s + 1 + length f + 1 + length (redirs_text rs)"
    by (simp add: r redirs_text_def redir_text_def)
  moreover have "read_redirs buf (((s + 1, s + 1 + length f), m, fd) # rr) = r # rs"
    using rr(2) h(2) r by (simp add: read_redirs_def)
  ultimately show ?case by metis
qed

text \<open>Arguments and the redirections behind them.\<close>

definition words_text :: "string list \<Rightarrow> string" where
  "words_text ws = concat (map (\<lambda>w. w @ '' '') ws)"

lemma exec_loop_step:
  "peek buf s ''|)&;'' = (True, s1) \<Longrightarrow> exec_loop buf s args rs = Ok (args, rs, s1)"
  "peek buf s ''|)&;'' = (False, s1) \<Longrightarrow> gettoken buf s1 = (nul, q, e, s2) \<Longrightarrow> exec_loop buf s args rs = Ok (args, rs, s2)"
  "peek buf s ''|)&;'' = (False, s1) \<Longrightarrow> gettoken buf s1 = (CHR ''a'', q, e, s2) \<Longrightarrow> length args + 1 < MAXARGS \<Longrightarrow>
     exec_loop buf s args rs = and_then (parseredirs buf s2 rs) (\<lambda>(rs, s3). exec_loop buf s3 (args @ [(q, e)]) rs)"
  using nul_facts by (subst exec_loop.simps, simp)+

lemma end_loop:
  assumes "drop s buf = x" "follow ''|)&;'' x"
  shows "exec_loop buf s args rs = Ok (args, rs, s)"
proof -
  have x: "clean x" using assms(2) by (cases x) (auto simp: follow_def clean_def whitespace_def)
  have p: "peek buf s ''|)&;'' = (x \<noteq> [], s)"
    using peek_clean [OF assms(1) x, of "''|)&;''"] assms(2) by (auto simp: follow_def nul_def)
  show ?thesis
  proof (cases "x = []")
    case True
    then show ?thesis using p exec_loop_step(2) [of buf s s s s s] gettoken_end [of s buf] assms(1) by simp
  next
    case False
    then show ?thesis using p exec_loop_step(1) by simp
  qed
qed

lemma parse_args:
  assumes rs: "list_all redir_ok rs" and x: "follow ''|)&;'' x"
  shows "list_all text_word ws \<Longrightarrow> length args + length ws < MAXARGS \<Longrightarrow>
    drop s buf = words_text ws @ (if ws = [] then [] else redirs_text rs) @ x \<Longrightarrow>
    \<exists>as rr. exec_loop buf s args rs0 = Ok (args @ as, rs0 @ rr, s + length (words_text ws @ (if ws = [] then [] else redirs_text rs)))
      \<and> map (span_text buf) as = ws \<and> read_redirs buf rr = (if ws = [] then [] else rs)"
proof (induction ws arbitrary: s args rs0)
  case Nil
  then show ?case using end_loop [OF _ x] by (simp add: words_text_def read_redirs_def)
next
  case (Cons w ws)
  have cx: "clean x" "\<not> (x \<noteq> [] \<and> hd x \<in> set ''<>'')" using x by (auto simp: follow_def clean_def whitespace_def)
  have w: "text_word w" using Cons.prems(1) by simp
  let ?y = "words_text ws @ redirs_text rs @ x"
  have d: "drop s buf = w @ '' '' @ ?y" using Cons.prems(3) by (simp add: words_text_def)
  have y: "clean ?y"
    using redirs_clean [OF cx(1), of rs] text_word_start Cons.prems(1) by (cases ws) (auto simp: words_text_def)
  note g = gettoken_word [OF d w y]
  note st = text_word_start [OF w, of "'' '' @ ?y"]
  have p: "peek buf s ''|)&;'' = (False, s)"
    using peek_clean [OF d, of "''|)&;''"] st by (auto simp: nul_def symbols_def)
  have d1: "drop (s + length w + 1) buf = ?y"
    using rest_of_line [OF d] rest_char [of "s + length w" buf "CHR '' ''" ?y] by simp
  let ?a = "(s, s + length w)"
  show ?case
  proof (cases "ws = []")
    case True
    obtain rr where rr: "parseredirs buf (s + length w + 1) rs0 = Ok (rs0 @ rr, s + length w + 1 + length (redirs_text rs))" "read_redirs buf rr = rs"
      using parse_redirs [OF rs _ cx, of "s + length w + 1" buf rs0] d1 True by (auto simp: words_text_def)
    have "drop (s + length w + 1 + length (redirs_text rs)) buf = x"
      using rest_of_line [of "s + length w + 1" buf "redirs_text rs" x] d1 True by (simp add: words_text_def)
    then have "exec_loop buf s args rs0 = Ok (args @ [?a], rs0 @ rr, s + length w + 1 + length (redirs_text rs))"
      using exec_loop_step(3) [OF p g(1)] Cons.prems(2) rr(1) end_loop [OF _ x] by simp
    then show ?thesis using rr(2) g(2) True by (intro exI [of _ "[?a]"] exI [of _ rr]) (simp add: words_text_def)
  next
    case False
    then obtain v vs where v: "ws = v # vs" by (cases ws) auto
    have "text_word v" using Cons.prems(1) v by simp
    from text_word_start [OF this, of "'' '' @ words_text vs @ redirs_text rs @ x"]
    have "\<not> (?y \<noteq> [] \<and> hd ?y \<in> set ''<>'')" using v by (auto simp: words_text_def symbols_def)
    then have "parseredirs buf (s + length w + 1) rs0 = Ok (rs0, s + length w + 1)"
      using parse_redirs [of "[]" "s + length w + 1" buf ?y rs0] d1 y by (auto simp: redirs_text_def read_redirs_def)
    moreover obtain as rr where IH: "exec_loop buf (s + length w + 1) (args @ [?a]) rs0
        = Ok ((args @ [?a]) @ as, rs0 @ rr, s + length w + 1 + length (words_text ws @ redirs_text rs))"
        "map (span_text buf) as = ws" "read_redirs buf rr = rs"
      using Cons.IH [of "args @ [?a]" "s + length w + 1" rs0] Cons.prems(1,2) d1 False by auto
    ultimately have "exec_loop buf s args rs0 = Ok (args @ ?a # as, rs0 @ rr, s + length w + 1 + length (words_text ws @ redirs_text rs))"
      using exec_loop_step(3) [OF p g(1)] Cons.prems(2) by simp
    then show ?thesis using IH(2,3) g(2) by (intro exI [of _ "?a # as"] exI [of _ rr]) (simp add: words_text_def)
  qed
qed

lemma parse_backs:
  "drop s buf = replicate k (CHR ''&'') @ x \<Longrightarrow> clean x \<Longrightarrow> \<not> (x \<noteq> [] \<and> hd x = CHR ''&'') \<Longrightarrow>
   back_loop buf s c = ((BACK ^^ k) c, s + k)"
proof (induction k arbitrary: s c)
  case 0
  then have "peek buf s ''&'' = (False, s)" using peek_clean [of s buf x "''&''"] by (auto simp: nul_def)
  then show ?case by (subst back_loop.simps) simp
next
  case (Suc k)
  let ?y = "replicate k (CHR ''&'') @ x"
  have d: "drop s buf = CHR ''&'' # ?y" using Suc.prems(1) by simp
  have y: "clean ?y" using Suc.prems(2) by (cases k) (auto simp: clean_def whitespace_def)
  have p: "peek buf s ''&'' = (True, s)"
    using peek_clean [OF d symbol_clean, of "''&''"] by (simp add: symbols_def nul_def)
  have "next_pos buf s = s + 1" using gettoken_symbol(2) [OF d _ y] by (simp add: one_char_def)
  then have "back_loop buf s c = back_loop buf (s + 1) (BACK c)" using p by (subst back_loop.simps) simp
  then show ?case
    using Suc.IH [of "s + 1" "BACK c"] rest_char [OF d] Suc.prems(2,3) by (simp add: funpow_swap1)
qed

text \<open>The parts of a command the parser meets one after the other.\<close>

fun redir_base :: "'w cmd \<Rightarrow> 'w cmd" where
  "redir_base (REDIR c f m fd) = redir_base c"
| "redir_base c = c"

fun redirs :: "'w cmd \<Rightarrow> 'w redir list" where
  "redirs (REDIR c f m fd) = redirs c @ [(f, m, fd)]"
| "redirs c = []"

fun back_base :: "'w cmd \<Rightarrow> 'w cmd" where
  "back_base (BACK c) = back_base c"
| "back_base c = c"

fun backs :: "'w cmd \<Rightarrow> nat" where
  "backs (BACK c) = Suc (backs c)"
| "backs c = 0"

lemma wrap_append: "wrap c (rs @ [(f, m, fd)]) = REDIR (wrap c rs) f m fd"
  by (induction c rs rule: wrap.induct) auto

lemma redir_parts:
  "wrap (redir_base t) (redirs t) = t" "printable t \<Longrightarrow> list_all redir_ok (redirs t) \<and> printable (redir_base t)"
  "print_cmd 3 t = print_cmd 3 (redir_base t) @ redirs_text (redirs t)"
  by (induction t rule: redirs.induct)
    (auto simp: wrap_append redir_ok_def print_cmd_def paren_def redirs_text_def)

lemma back_parts:
  "(BACK ^^ backs t) (back_base t) = t" "printable t \<Longrightarrow> printable (back_base t)"
  "print_cmd 1 t = print_cmd 2 (back_base t) @ replicate (backs t) (CHR ''&'')"
proof (induction t rule: backs.induct)
  case (1 c)
  note IH = 1
  {
    case 1
    then show ?case using IH(1) by simp
  next
    case 2
    then show ?case using IH(2) by simp
  next
    case 3
    have "print_cmd 1 (BACK c) = print_cmd 1 c @ ''&''" by (simp add: print_cmd_def paren_def)
    then show ?case using IH(3) by (simp add: replicate_append_same)
  }
qed (auto simp: print_cmd_def paren_def)

lemma map_wrap: "map_cmd (span_text buf) (wrap c rs) = wrap (map_cmd (span_text buf) c) (read_redirs buf rs)"
  by (induction c rs rule: wrap.induct) (auto simp: read_redirs_def)

lemma map_backs: "map_cmd f ((BACK ^^ k) c) = (BACK ^^ k) (map_cmd f c)"
  by (induction k) auto

lemma follow_clean: "follow ds x \<Longrightarrow> set ds \<subseteq> set symbols \<Longrightarrow> clean x"
  using symbol_clean by (cases x) (auto simp: follow_def clean_def [of "[]"])

lemma print_base: "level (redir_base t) = 3 \<Longrightarrow> \<exists>ws. redir_base t = EXEC ws"
  by (induction t rule: redir_base.induct) auto

lemma print_block: "level t < k \<Longrightarrow> print_cmd k t = ''('' @ print_cmd 0 t @ '')''"
  by (simp add: print_cmd_def paren_def)

text \<open>Every function of the parser reads back what was printed for it.\<close>

definition reads :: "string \<Rightarrow> nat \<Rightarrow> string \<Rightarrow> (span cmd \<times> nat) outcome \<Rightarrow> string cmd \<Rightarrow> bool" where
  "reads buf s str r t \<longleftrightarrow> (\<exists>c. r = Ok (c, s + length str) \<and> map_cmd (span_text buf) c = t)"

lemma exec_reads:
  assumes t: "printable t" "s \<le> length buf" "drop s buf = print_cmd 3 t @ x" "follow ''|)&;'' x"
    and block: "\<And>u. printable u \<Longrightarrow> drop s buf = ''('' @ print_cmd 0 u @ '')'' @ redirs_text (redirs t) @ x \<Longrightarrow>
      reads buf s (''('' @ print_cmd 0 u @ '')'' @ redirs_text (redirs t)) (parseblock n buf s) (wrap u (redirs t))"
  shows "reads buf s (print_cmd 3 t) (parseexec (Suc n) buf s) t"
proof (cases "\<exists>ws. redir_base t = EXEC ws")
  case True
  then obtain ws where ws: "redir_base t = EXEC ws" by blast
  note R = redir_parts [of t]
  have ok: "list_all redir_ok (redirs t)" "list_all text_word ws" "length ws < MAXARGS" using R(2) [OF t(1)] ws by auto
  have pr: "print_cmd 3 t = words_text ws @ redirs_text (redirs t)" using R(3) ws by (simp add: print_cmd_def paren_def words_text_def)
  have cx: "clean x" "\<not> (x \<noteq> [] \<and> hd x \<in> set ''<>'')" "\<not> (x \<noteq> [] \<and> hd x = CHR ''('')"
    using follow_clean [OF t(4)] t(4) by (auto simp: symbols_def follow_def)
  have cl: "clean (redirs_text (redirs t) @ x)" by (rule redirs_clean [OF cx(1)])
  have st: "clean (print_cmd 3 t @ x)" by (rule print_clean [OF t(1) cx(1)])
  have hd: "\<not> (print_cmd 3 t @ x \<noteq> [] \<and> hd (print_cmd 3 t @ x) = CHR ''('')"
  proof (cases ws)
    case Nil
    show ?thesis
    proof (cases "redirs t")
      case Nil
      then show ?thesis using pr \<open>ws = []\<close> cx(3) by (simp add: words_text_def redirs_text_def)
    next
      case (Cons r rs)
      then show ?thesis using pr \<open>ws = []\<close> by (cases r) (auto simp: words_text_def redirs_text_def redir_text_def)
    qed
  next
    case (Cons w ws')
    then show ?thesis using text_word_start [of w "'' '' @ words_text ws' @ redirs_text (redirs t) @ x"] ok(2) pr
      by (auto simp: words_text_def symbols_def)
  qed
  have p: "peek buf s ''('' = (False, s)" using peek_clean [OF t(3) st, of "''(''"] hd by (auto simp: nul_def)
  show ?thesis
  proof (cases "ws = []")
    case True
    obtain rr where rr: "parseredirs buf s [] = Ok (rr, s + length (redirs_text (redirs t)))" "read_redirs buf rr = redirs t"
      using parse_redirs [OF ok(1) _ cx(1,2), of s buf "[]"] t(3) pr True by (auto simp: words_text_def)
    have d: "drop (s + length (redirs_text (redirs t))) buf = x"
      using rest_of_line [of s buf "redirs_text (redirs t)" x] t(3) pr True by (simp add: words_text_def)
    have "parseexec (Suc n) buf s = Ok (wrap (EXEC []) rr, s + length (print_cmd 3 t))"
      using p rr(1) end_loop [OF d t(4)] pr True by (simp add: words_text_def)
    moreover have "map_cmd (span_text buf) (wrap (EXEC []) rr) = t" using rr(2) R(1) ws True by (simp add: map_wrap)
    ultimately show ?thesis by (auto simp: reads_def)
  next
    case False
    then obtain v vs where v: "ws = v # vs" by (cases ws) auto
    then have "text_word v" using ok(2) by simp
    from text_word_start [OF this, of "'' '' @ words_text vs @ redirs_text (redirs t) @ x"]
    have "\<not> (print_cmd 3 t @ x \<noteq> [] \<and> hd (print_cmd 3 t @ x) \<in> set ''<>'')" using v pr by (auto simp: words_text_def symbols_def)
    then have q: "parseredirs buf s [] = Ok ([], s)"
      using parse_redirs [of "[]" s buf "print_cmd 3 t @ x" "[]"] t(3) st by (auto simp: redirs_text_def read_redirs_def)
    obtain as rr where e: "exec_loop buf s [] [] = Ok (as, rr, s + length (words_text ws @ redirs_text (redirs t)))"
        "map (span_text buf) as = ws" "read_redirs buf rr = redirs t"
      using parse_args [OF ok(1) t(4) ok(2), of "[]" s buf "[]"] ok(3) t(3) pr False by auto
    have "parseexec (Suc n) buf s = Ok (wrap (EXEC as) rr, s + length (print_cmd 3 t))"
      using p q e(1) pr by simp
    moreover have "map_cmd (span_text buf) (wrap (EXEC as) rr) = t" using e(2,3) R(1) ws by (simp add: map_wrap)
    ultimately show ?thesis by (auto simp: reads_def)
  qed
next
  case False
  let ?u = "redir_base t"
  note R = redir_parts [of t]
  have lv: "level ?u < 3" using False print_base [of t] by (cases ?u) auto
  have pr: "print_cmd 3 t = ''('' @ print_cmd 0 ?u @ '')'' @ redirs_text (redirs t)" using R(3) print_block [OF lv] by simp
  have d: "drop s buf = ''('' @ print_cmd 0 ?u @ '')'' @ redirs_text (redirs t) @ x" using t(3) pr by simp
  have "peek buf s ''('' = (True, s)"
    using peek_clean [of s buf "CHR ''('' # print_cmd 0 ?u @ '')'' @ redirs_text (redirs t) @ x" "''(''"] d symbol_clean [of "CHR ''(''"]
    by (simp add: symbols_def nul_def)
  then have "parseexec (Suc n) buf s = parseblock n buf s" by simp
  then show ?thesis using block [OF _ d] R(1,2) t(1) pr by simp
qed

lemma block_reads:
  assumes t: "printable u" "list_all redir_ok rs" "drop s buf = ''('' @ print_cmd 0 u @ '')'' @ redirs_text rs @ x" "follow ''|)&;'' x"
    and line: "drop (s + 1) buf = print_cmd 0 u @ '')'' @ redirs_text rs @ x \<Longrightarrow>
      reads buf (s + 1) (print_cmd 0 u) (parseline n buf (s + 1)) u"
  shows "reads buf s (''('' @ print_cmd 0 u @ '')'' @ redirs_text rs) (parseblock (Suc n) buf s) (wrap u rs)"
proof -
  let ?y = "redirs_text rs @ x"
  have cx: "clean x" "\<not> (x \<noteq> [] \<and> hd x \<in> set ''<>'')"
    using follow_clean [OF t(4)] t(4) by (auto simp: symbols_def follow_def)
  have y: "clean ?y" by (rule redirs_clean [OF cx(1)])
  have cy: "clean (CHR '')'' # ?y)" by (rule symbol_clean) (simp add: symbols_def)
  have d: "drop s buf = CHR ''('' # print_cmd 0 u @ '')'' @ ?y" using t(3) by simp
  have p: "peek buf s ''('' = (True, s)"
    using peek_clean [OF d symbol_clean, of "''(''"] by (simp add: symbols_def nul_def)
  have n: "next_pos buf s = s + 1"
    by (rule gettoken_symbol(2) [OF d]) (use print_clean [OF t(1) cy, of 0] in \<open>simp_all add: one_char_def\<close>)
  have d1: "drop (s + 1) buf = print_cmd 0 u @ '')'' @ ?y" using rest_char [OF d] by simp
  obtain c where c: "parseline n buf (s + 1) = Ok (c, s + 1 + length (print_cmd 0 u))" "map_cmd (span_text buf) c = u"
    using line [OF d1] by (auto simp: reads_def)
  let ?s2 = "s + 1 + length (print_cmd 0 u)"
  have d2: "drop ?s2 buf = CHR '')'' # ?y" using rest_of_line [OF d1] by simp
  have p2: "peek buf ?s2 '')'' = (True, ?s2)" using peek_clean [OF d2 cy, of "'')''"] by (simp add: nul_def)
  have n2: "next_pos buf ?s2 = ?s2 + 1" by (rule gettoken_symbol(2) [OF d2 _ y]) (simp add: one_char_def)
  have d3: "drop (?s2 + 1) buf = ?y" using rest_char [OF d2] by simp
  obtain rr where rr: "parseredirs buf (?s2 + 1) [] = Ok (rr, ?s2 + 1 + length (redirs_text rs))" "read_redirs buf rr = rs"
    using parse_redirs [OF t(2) d3 cx, of "[]"] by auto
  have "parseblock (Suc n) buf s = Ok (wrap c rr, ?s2 + 1 + length (redirs_text rs))"
    using p n c(1) p2 n2 rr(1) by simp
  then show ?thesis using c(2) rr(2) by (auto simp: reads_def map_wrap)
qed

lemma pipe_reads:
  assumes t: "printable t" "drop s buf = print_cmd 2 t @ x" "follow '')&;'' x"
    and exec: "\<And>u y. printable u \<Longrightarrow> drop s buf = print_cmd 3 u @ y \<Longrightarrow> follow ''|)&;'' y \<Longrightarrow>
      reads buf s (print_cmd 3 u) (parseexec n buf s) u"
    and pipe: "\<And>u s'. printable u \<Longrightarrow> s < s' \<Longrightarrow> drop s' buf = print_cmd 2 u @ x \<Longrightarrow> s' \<le> length buf \<Longrightarrow>
      reads buf s' (print_cmd 2 u) (parsepipe n buf s') u"
  shows "reads buf s (print_cmd 2 t) (parsepipe (Suc n) buf s) t"
proof (cases "\<exists>l r. t = PIPE l r")
  case True
  then obtain l r where lr: "t = PIPE l r" by blast
  have pr: "print_cmd 2 t = print_cmd 3 l @ ''|'' @ print_cmd 2 r" by (simp add: lr print_cmd_def paren_def)
  have cx: "clean x" using follow_clean [OF t(3)] by (auto simp: symbols_def)
  let ?y = "print_cmd 2 r @ x"
  have d: "drop s buf = print_cmd 3 l @ CHR ''|'' # ?y" using t(2) pr by simp
  have "follow ''|)&;'' (CHR ''|'' # ?y)" by (simp add: follow_def)
  then obtain c where c: "parseexec n buf s = Ok (c, s + length (print_cmd 3 l))" "map_cmd (span_text buf) c = l"
    using exec [OF _ d] t(1) lr by (auto simp: reads_def)
  let ?s1 = "s + length (print_cmd 3 l)"
  have d1: "drop ?s1 buf = CHR ''|'' # ?y" using rest_of_line [OF d] .
  have y: "clean ?y" using print_clean t(1) lr cx by simp
  have p: "peek buf ?s1 ''|'' = (True, ?s1)" using peek_clean [OF d1 symbol_clean, of "''|''"] by (simp add: symbols_def nul_def)
  have n: "next_pos buf ?s1 = ?s1 + 1" by (rule gettoken_symbol(2) [OF d1 _ y]) (simp add: one_char_def)
  have "reads buf (?s1 + 1) (print_cmd 2 r) (parsepipe n buf (?s1 + 1)) r"
    using pipe [of r "?s1 + 1"] t(1) lr rest_char [OF d1] by simp
  then obtain c' where "parsepipe n buf (?s1 + 1) = Ok (c', ?s1 + 1 + length (print_cmd 2 r))" "map_cmd (span_text buf) c' = r"
    by (auto simp: reads_def)
  then show ?thesis using c p n pr lr by (auto simp: reads_def)
next
  case False
  have pr: "print_cmd 2 t = print_cmd 3 t" using False by (cases t) (auto simp: print_cmd_def paren_def)
  have f: "follow ''|)&;'' x" using t(3) by (auto simp: follow_def)
  obtain c where c: "parseexec n buf s = Ok (c, s + length (print_cmd 3 t))" "map_cmd (span_text buf) c = t"
    using exec [OF t(1) _ f] t(2) pr by (auto simp: reads_def)
  have cx: "clean x" using follow_clean [OF t(3)] by (auto simp: symbols_def)
  have d1: "drop (s + length (print_cmd 3 t)) buf = x" using rest_of_line [of s buf "print_cmd 3 t" x] t(2) pr by simp
  have "peek buf (s + length (print_cmd 3 t)) ''|'' = (False, s + length (print_cmd 3 t))"
    using peek_clean [OF d1 cx, of "''|''"] t(3) by (auto simp: nul_def follow_def)
  then show ?thesis using c pr by (auto simp: reads_def)
qed

lemma back_reads:
  assumes u: "printable u" "drop s buf = print_cmd 1 u @ y" "follow '');'' y"
    and pipe: "\<And>u y. printable u \<Longrightarrow> drop s buf = print_cmd 2 u @ y \<Longrightarrow> follow '')&;'' y \<Longrightarrow>
      reads buf s (print_cmd 2 u) (parsepipe n buf s) u"
  shows "\<exists>c1 s1 c2. parsepipe n buf s = Ok (c1, s1) \<and> back_loop buf s1 c1 = (c2, s + length (print_cmd 1 u))
    \<and> map_cmd (span_text buf) c2 = u"
proof -
  note B = back_parts [of u]
  let ?z = "replicate (backs u) (CHR ''&'') @ y"
  have d: "drop s buf = print_cmd 2 (back_base u) @ ?z" using u(2) B(3) by simp
  have "follow '')&;'' ?z" using u(3) by (cases "backs u") (auto simp: follow_def)
  then obtain c1 where c1: "parsepipe n buf s = Ok (c1, s + length (print_cmd 2 (back_base u)))" "map_cmd (span_text buf) c1 = back_base u"
    using pipe [OF B(2) [OF u(1)] d] by (auto simp: reads_def)
  have y: "clean y" "\<not> (y \<noteq> [] \<and> hd y = CHR ''&'')" using follow_clean [OF u(3)] u(3) by (auto simp: symbols_def follow_def)
  have "back_loop buf (s + length (print_cmd 2 (back_base u))) c1 = ((BACK ^^ backs u) c1, s + length (print_cmd 1 u))"
    using parse_backs [OF rest_of_line [OF d] y, of c1] B(3) by simp
  moreover have "map_cmd (span_text buf) ((BACK ^^ backs u) c1) = u" using c1(2) B(1) by (simp add: map_backs)
  ultimately show ?thesis using c1(1) by blast
qed

lemma line_reads:
  assumes t: "printable t" "drop s buf = print_cmd 0 t @ x" "follow '')'' x"
    and pipe: "\<And>u y. printable u \<Longrightarrow> drop s buf = print_cmd 2 u @ y \<Longrightarrow> follow '')&;'' y \<Longrightarrow>
      reads buf s (print_cmd 2 u) (parsepipe n buf s) u"
    and line: "\<And>u s'. printable u \<Longrightarrow> s < s' \<Longrightarrow> drop s' buf = print_cmd 0 u @ x \<Longrightarrow> s' \<le> length buf \<Longrightarrow>
      reads buf s' (print_cmd 0 u) (parseline n buf s') u"
  shows "reads buf s (print_cmd 0 t) (parseline (Suc n) buf s) t"
proof (cases "\<exists>l r. t = LIST l r")
  case True
  then obtain l r where lr: "t = LIST l r" by blast
  have pr: "print_cmd 0 t = print_cmd 1 l @ '';'' @ print_cmd 0 r" by (simp add: lr print_cmd_def paren_def)
  have cx: "clean x" using follow_clean [OF t(3)] by (auto simp: symbols_def)
  let ?y = "print_cmd 0 r @ x" and ?s2 = "s + length (print_cmd 1 l)"
  have d: "drop s buf = print_cmd 1 l @ CHR '';'' # ?y" using t(2) pr by simp
  have f: "follow '');'' (CHR '';'' # ?y)" by (simp add: follow_def)
  have pl: "printable l" using t(1) lr by simp
  obtain c1 s1 c2 where c: "parsepipe n buf s = Ok (c1, s1)" "back_loop buf s1 c1 = (c2, ?s2)" "map_cmd (span_text buf) c2 = l"
    using back_reads [OF pl d f, of n] pipe by blast
  have d1: "drop ?s2 buf = CHR '';'' # ?y" using rest_of_line [OF d] .
  have y: "clean ?y" using print_clean t(1) lr cx by simp
  have p: "peek buf ?s2 '';'' = (True, ?s2)" using peek_clean [OF d1 symbol_clean, of "'';''"] by (simp add: symbols_def nul_def)
  have n: "next_pos buf ?s2 = ?s2 + 1" by (rule gettoken_symbol(2) [OF d1 _ y]) (simp add: one_char_def)
  have "reads buf (?s2 + 1) (print_cmd 0 r) (parseline n buf (?s2 + 1)) r"
    using line [of r "?s2 + 1"] t(1) lr rest_char [OF d1] by simp
  then obtain c' where "parseline n buf (?s2 + 1) = Ok (c', ?s2 + 1 + length (print_cmd 0 r))" "map_cmd (span_text buf) c' = r"
    by (auto simp: reads_def)
  then show ?thesis using c p n pr lr by (auto simp: reads_def)
next
  case False
  have pr: "print_cmd 0 t = print_cmd 1 t" using False by (cases t) (auto simp: print_cmd_def paren_def)
  have f: "follow '');'' x" using t(3) by (auto simp: follow_def)
  let ?s2 = "s + length (print_cmd 1 t)"
  have d: "drop s buf = print_cmd 1 t @ x" using t(2) pr by simp
  obtain c1 s1 c2 where c: "parsepipe n buf s = Ok (c1, s1)" "back_loop buf s1 c1 = (c2, ?s2)" "map_cmd (span_text buf) c2 = t"
    using back_reads [OF t(1) d f, of n] pipe by blast
  have cx: "clean x" using follow_clean [OF t(3)] by (auto simp: symbols_def)
  have "peek buf ?s2 '';'' = (False, ?s2)"
    using peek_clean [OF rest_of_line [OF d] cx, of "'';''"] t(3) by (auto simp: nul_def follow_def)
  then show ?thesis using c pr by (auto simp: reads_def)
qed

lemma print_reads:
  assumes "s \<le> length buf"
  shows "printable t \<Longrightarrow> drop s buf = print_cmd 0 t @ x \<Longrightarrow> follow '')'' x \<Longrightarrow> 4 * (length buf - s) + 4 \<le> n \<Longrightarrow>
      reads buf s (print_cmd 0 t) (parseline n buf s) t"
    "printable t \<Longrightarrow> drop s buf = print_cmd 2 t @ x \<Longrightarrow> follow '')&;'' x \<Longrightarrow> 4 * (length buf - s) + 3 \<le> n \<Longrightarrow>
      reads buf s (print_cmd 2 t) (parsepipe n buf s) t"
    "printable t \<Longrightarrow> drop s buf = print_cmd 3 t @ x \<Longrightarrow> follow ''|)&;'' x \<Longrightarrow> 4 * (length buf - s) + 2 \<le> n \<Longrightarrow>
      reads buf s (print_cmd 3 t) (parseexec n buf s) t"
    "printable t \<Longrightarrow> list_all redir_ok rs \<Longrightarrow> drop s buf = ''('' @ print_cmd 0 t @ '')'' @ redirs_text rs @ x \<Longrightarrow> follow ''|)&;'' x \<Longrightarrow>
      4 * (length buf - s) + 1 \<le> n \<Longrightarrow>
      reads buf s (''('' @ print_cmd 0 t @ '')'' @ redirs_text rs) (parseblock n buf s) (wrap t rs)"
  using assms
proof (induction n arbitrary: s t x rs)
  case (Suc n)
  note IH = Suc.IH
  {
    case 1
    show ?case
    proof (rule line_reads [OF 1(1-3)])
      show "reads buf s (print_cmd 2 u) (parsepipe n buf s) u" if "printable u" "drop s buf = print_cmd 2 u @ y" "follow '')&;'' y" for u y
        using IH(2) [OF that] 1(4,5) by simp
      show "reads buf s' (print_cmd 0 u) (parseline n buf s') u" if "printable u" "s < s'" "drop s' buf = print_cmd 0 u @ x" "s' \<le> length buf" for u s'
      proof -
        have "4 * (length buf - s') + 4 \<le> n" using 1(4) that(2,4) by linarith
        then show ?thesis using IH(1) [OF that(1,3) 1(3)] that(4) by simp
      qed
    qed
  next
    case 2
    show ?case
    proof (rule pipe_reads [OF 2(1-3)])
      show "reads buf s (print_cmd 3 u) (parseexec n buf s) u" if "printable u" "drop s buf = print_cmd 3 u @ y" "follow ''|)&;'' y" for u y
        using IH(3) [OF that] 2(4,5) by simp
      show "reads buf s' (print_cmd 2 u) (parsepipe n buf s') u" if "printable u" "s < s'" "drop s' buf = print_cmd 2 u @ x" "s' \<le> length buf" for u s'
      proof -
        have "4 * (length buf - s') + 3 \<le> n" using 2(4) that(2,4) by linarith
        then show ?thesis using IH(2) [OF that(1,3) 2(3)] that(4) by simp
      qed
    qed
  next
    case 3
    have r: "list_all redir_ok (redirs t)" using redir_parts(2) [OF 3(1)] by simp
    show ?case
      by (rule exec_reads [OF 3(1,5,2,3)]) (use IH(4) [OF _ r _ 3(3)] 3(4,5) in simp)
  next
    case 4
    show ?case
    proof (rule block_reads [OF 4(1-4)])
      assume d: "drop (s + 1) buf = print_cmd 0 t @ '')'' @ redirs_text rs @ x"
      have "s < length buf" using 4(3) by (metis append_Cons drop_eq_Nil2 leI list.discI)
      then have "4 * (length buf - (s + 1)) + 4 \<le> n" "s + 1 \<le> length buf" using 4(5) by linarith+
      then show "reads buf (s + 1) (print_cmd 0 t) (parseline n buf (s + 1)) t"
        using IH(1) [OF 4(1) d] by (simp add: follow_def)
    qed
  }
qed simp_all

lemma print_no_nul: "printable t \<Longrightarrow> nul \<notin> set (print_cmd k t)"
proof -
  have w: "nul \<notin> set w" if "text_word w" for w using that by (auto simp: text_word_def list_all_iff)
  have p: "nul \<notin> set (paren k lv str) \<longleftrightarrow> nul \<notin> set str" for k lv str by (simp add: paren_def nul_def)
  have "printable t \<Longrightarrow> nul \<notin> set (body t)"
  proof (induction t)
    case (EXEC ws)
    then show ?case using w by (auto simp: list_all_iff nul_def)
  next
    case (REDIR t f m fd)
    then show ?case using w [of f] p by (auto simp: redir_text_def nul_def)
  qed (use p in \<open>auto simp: nul_def\<close>)
  then show "printable t \<Longrightarrow> nul \<notin> set (print_cmd k t)" using p by (simp add: print_cmd_def)
qed

lemma parse_printed:
  assumes "printable t"
  shows "\<exists>c. parsecmd (print_cmd 0 t) = Ok (c, nulterminate c (print_cmd 0 t))
    \<and> map_cmd (\<lambda>w. c_string (nulterminate c (print_cmd 0 t)) (fst w)) c = t"
proof -
  let ?b = "print_cmd 0 t"
  obtain c where c: "parseline (4 * length ?b + 4) ?b 0 = Ok (c, length ?b)" "map_cmd (span_text ?b) c = t"
    using print_reads(1) [of 0 ?b t "[]" "4 * length ?b + 4"] assms by (auto simp: reads_def follow_def)
  have "peek ?b (length ?b) [] = (False, length ?b)" using peek_clean [of "length ?b" ?b "[]" "[]"] by (simp add: clean_def)
  then have "parsecmd ?b = Ok (c, nulterminate c ?b)" using c(1) by (simp add: parsecmd_def)
  moreover have "map_cmd (\<lambda>w. c_string (nulterminate c ?b) (fst w)) c = map_cmd (span_text ?b) c"
    using c_string_span [OF parse_ok(1) [OF c(1)] print_no_nul [OF assms]] by (intro cmd.map_cong0) simp
  ultimately show ?thesis using c(2) by auto
qed

text \<open>C17: every command whose words are words, with at most nine arguments for each program and the file
  descriptors redirections have, is read back by the parser from the line printed for it, with its nesting of pipes,
  sequences, background commands, redirections and parentheses, and with its words as C strings.\<close>

theorem parse_print:
  assumes "printable t"
  shows "\<exists>c buf'. parsecmd (print_cmd 0 t) = Ok (c, buf') \<and> map_cmd (\<lambda>w. c_string buf' (fst w)) c = t"
proof -
  obtain c where c: "parsecmd (print_cmd 0 t) = Ok (c, nulterminate c (print_cmd 0 t))"
      "map_cmd (\<lambda>w. c_string (nulterminate c (print_cmd 0 t)) (fst w)) c = t"
    using parse_printed [OF assms] by blast
  then show ?thesis by blast
qed

definition demo_cmd :: "string cmd" where
  "demo_cmd = LIST (BACK (PIPE (EXEC [''cat'', ''a'']) (EXEC [''wc'']))) (REDIR (LIST (EXEC [''ls'']) (EXEC [''echo''])) ''out'' O_WRONLY_CREATE 1)"

lemma demo_printable: "printable demo_cmd" "print_cmd 0 demo_cmd = ''cat a |wc &;(ls ;echo )>out ''"
  by code_simp+

theorem parse_print_witness:
  "\<exists>c buf'. parsecmd ''cat a |wc &;(ls ;echo )>out '' = Ok (c, buf') \<and> map_cmd (\<lambda>w. c_string buf' (fst w)) c = demo_cmd"
  using parse_print [OF demo_printable(1)] unfolding demo_printable(2) .

theorem parsecmd_words_witness:
  "\<exists>c buf'. parsecmd ''cat a |wc &;(ls ;echo )>out '' = Ok (c, buf')
    \<and> map_cmd (\<lambda>w. c_string buf' (fst w)) c = map_cmd (span_text ''cat a |wc &;(ls ;echo )>out '') c"
proof -
  obtain c buf' where b: "parsecmd ''cat a |wc &;(ls ;echo )>out '' = Ok (c, buf')"
    using parse_printed [OF demo_printable(1)] unfolding demo_printable(2) by blast
  then show ?thesis using parsecmd_words [OF b] by (auto simp: nul_def)
qed

subsection \<open>Running a command\<close>

text \<open>What a process does as a sequence of system calls; a call that can fail has the continuation for that
  first, a fork has the child, the parent and the failure.  \<^verbatim>\<open>exec\<close> goes on only when it fails.\<close>

datatype prog =
    Exit
  | Exec "string list" prog
  | Print string prog
  | Close nat prog
  | Open string mode prog prog
  | Pipe prog "nat \<Rightarrow> nat \<Rightarrow> prog"
  | Dup nat prog
  | Fork prog prog prog
  | Await prog

definition sh_newline :: string where "sh_newline = [CHR 0x0A]"

definition sh_panic :: "string \<Rightarrow> prog" where
  "sh_panic s = Print (s @ sh_newline) Exit"

definition fork1 :: "prog \<Rightarrow> prog \<Rightarrow> prog" where
  "fork1 child parent = Fork child parent (sh_panic ''fork'')"

fun runcmd :: "string cmd \<Rightarrow> prog" where
  "runcmd (EXEC []) = Exit"
| "runcmd (EXEC (a # as)) = Exec (a # as) (Print (''exec '' @ a @ '' failed'' @ sh_newline) Exit)"
| "runcmd (REDIR c f m fd) = Close fd (Open f m (Print (''open '' @ f @ '' failed'' @ sh_newline) Exit) (runcmd c))"
| "runcmd (LIST l r) = fork1 (runcmd l) (Await (runcmd r))"
| "runcmd (PIPE l r) = Pipe (sh_panic ''pipe'') (\<lambda>p0 p1.
     fork1 (Close 1 (Dup p1 (Close p0 (Close p1 (runcmd l)))))
       (fork1 (Close 0 (Dup p0 (Close p0 (Close p1 (runcmd r)))))
         (Close p0 (Close p1 (Await (Await Exit))))))"
| "runcmd (BACK c) = fork1 (runcmd c) Exit"

text \<open>The child process the main loop starts for a line.\<close>

definition sh_command :: "string \<Rightarrow> prog outcome" where
  "sh_command buf = and_then (parsecmd buf) (\<lambda>(c, buf'). Ok (runcmd (map_cmd (\<lambda>w. c_string buf' (fst w)) c)))"

text \<open>The main loop over the lines that \<^verbatim>\<open>getcmd\<close> returns, each with its newline: directories are changed in the
  shell itself, with the last character of the line cut off.\<close>

datatype sh_action = Chdir string | Start "prog outcome"

definition sh_line :: "string \<Rightarrow> sh_action" where
  "sh_line buf = (if take 3 buf = ''cd '' then Chdir (drop 3 (butlast buf)) else Start (sh_command buf))"

fun sh_main :: "string list \<Rightarrow> sh_action list" where
  "sh_main [] = []"
| "sh_main (buf # bufs) = (if buf = [] then [] else sh_line buf # sh_main bufs)"

subsection \<open>How the files of the programs are connected\<close>

text \<open>Open files: the two ends of the \<open>n\<close>-th pipe, a file of the command, or one that was open before.\<close>

datatype sh_file = ReadEnd nat | WriteEnd nat | Named string mode | Before nat

type_synonym fds = "sh_file option list"

fun lowest :: "fds \<Rightarrow> nat option" where
  "lowest [] = None"
| "lowest (None # fds) = Some 0"
| "lowest (Some f # fds) = map_option Suc (lowest fds)"

text \<open>What programs are started with which files, and what messages are printed, by a process and its children;
  \<open>opens\<close> and \<open>runs\<close> tell which files and programs exist, \<open>n\<close> counts the pipes.\<close>

datatype act = Launch "string list" fds | Message string

primrec acts :: "(string \<Rightarrow> bool) \<Rightarrow> (string list \<Rightarrow> bool) \<Rightarrow> prog \<Rightarrow> fds \<Rightarrow> nat \<Rightarrow> act list \<times> nat" where
  "acts opens runs Exit fds n = ([], n)"
| "acts opens runs (Exec argv k) fds n = (if runs argv then ([Launch argv fds], n) else acts opens runs k fds n)"
| "acts opens runs (Print s k) fds n = (case acts opens runs k fds n of (as, n') \<Rightarrow> (Message s # as, n'))"
| "acts opens runs (Close fd k) fds n = acts opens runs k (fds[fd := None]) n"
| "acts opens runs (Open f m fail k) fds n =
     (if \<not> opens f then acts opens runs fail fds n
      else case lowest fds of None \<Rightarrow> acts opens runs fail fds n
      | Some fd \<Rightarrow> acts opens runs k (fds[fd := Some (Named f m)]) n)"
| "acts opens runs (Pipe fail k) fds n =
     (case lowest fds of None \<Rightarrow> acts opens runs fail fds n
      | Some p0 \<Rightarrow>
        (case lowest (fds[p0 := Some (ReadEnd n)]) of None \<Rightarrow> acts opens runs fail fds n
         | Some p1 \<Rightarrow> acts opens runs (k p0 p1) (fds[p0 := Some (ReadEnd n), p1 := Some (WriteEnd n)]) (n + 1)))"
| "acts opens runs (Dup fd k) fds n =
     (case lowest fds of None \<Rightarrow> acts opens runs k fds n | Some d \<Rightarrow> acts opens runs k (fds[d := fds ! fd]) n)"
| "acts opens runs (Fork child parent fail) fds n =
     (case acts opens runs child fds n of (as, n1) \<Rightarrow>
      case acts opens runs parent fds n1 of (bs, n2) \<Rightarrow> (as @ bs, n2))"
| "acts opens runs (Await k) fds n = acts opens runs k fds n"

text \<open>What a command means: standard input is descriptor 0, standard output descriptor 1.\<close>

fun plumb :: "(string \<Rightarrow> bool) \<Rightarrow> (string list \<Rightarrow> bool) \<Rightarrow> string cmd \<Rightarrow> fds \<Rightarrow> nat \<Rightarrow> act list \<times> nat" where
  "plumb opens runs (EXEC []) fds n = ([], n)"
| "plumb opens runs (EXEC (a # as)) fds n =
     (if runs (a # as) then ([Launch (a # as) fds], n) else ([Message (''exec '' @ a @ '' failed'' @ sh_newline)], n))"
| "plumb opens runs (REDIR c f m fd) fds n =
     (if opens f then plumb opens runs c (fds[fd := Some (Named f m)]) n
      else ([Message (''open '' @ f @ '' failed'' @ sh_newline)], n))"
| "plumb opens runs (LIST l r) fds n =
     (case plumb opens runs l fds n of (as, n1) \<Rightarrow> case plumb opens runs r fds n1 of (bs, n2) \<Rightarrow> (as @ bs, n2))"
| "plumb opens runs (PIPE l r) fds n =
     (case plumb opens runs l (fds[1 := Some (WriteEnd n)]) (n + 1) of (as, n1) \<Rightarrow>
      case plumb opens runs r (fds[0 := Some (ReadEnd n)]) n1 of (bs, n2) \<Rightarrow> (as @ bs, n2))"
| "plumb opens runs (BACK c) fds n = plumb opens runs c fds n"

text \<open>The descriptors a shell has: the first three are open, and there is room for a pipe.\<close>

definition shell_fds :: "fds \<Rightarrow> bool" where
  "shell_fds fds \<longleftrightarrow> 3 \<le> length fds \<and> fds ! 0 \<noteq> None \<and> fds ! 1 \<noteq> None \<and> fds ! 2 \<noteq> None
     \<and> 2 \<le> length (filter (\<lambda>f. f = None) fds)"

lemma lowest_free: "lowest fds = Some d \<Longrightarrow> d < length fds \<and> fds ! d = None \<and> (\<forall>i < d. fds ! i \<noteq> None)"
proof (induction fds arbitrary: d rule: lowest.induct)
  case (3 f fds)
  then obtain e where "lowest fds = Some e" "d = Suc e" by auto
  with 3(1) [of e] show ?case by (auto simp: less_Suc_eq_0_disj)
qed auto

lemma lowest_is: "d < length fds \<Longrightarrow> fds ! d = None \<Longrightarrow> (\<And>i. i < d \<Longrightarrow> fds ! i \<noteq> None) \<Longrightarrow> lowest fds = Some d"
proof (induction fds arbitrary: d rule: lowest.induct)
  case (2 fds)
  then show ?case by (cases d) fastforce+
next
  case (3 f fds)
  then obtain e where e: "d = Suc e" by (cases d) auto
  have "lowest fds = Some e"
  proof (rule 3(1))
    show "e < length fds" "fds ! e = None" using 3(2,3) e by simp_all
    show "fds ! i \<noteq> None" if "i < e" for i using 3(4) [of "Suc i"] that e by simp
  qed
  then show ?case using e by simp
qed simp

lemma lowest_some: "0 < length (filter (\<lambda>f. f = None) fds) \<Longrightarrow> \<exists>d. lowest fds = Some d"
  by (induction fds rule: lowest.induct) auto

lemma free_update:
  assumes "d < length fds" "fds ! d = None"
  shows "length (filter (\<lambda>f. f = None) fds) = Suc (length (filter (\<lambda>f. f = None) (fds[d := Some f])))"
  using assms
proof (induction fds arbitrary: d)
  case (Cons a fds)
  then show ?case by (cases d) (auto split: nat.splits)
qed simp

lemma free_keep: "fds ! d \<noteq> None \<Longrightarrow> length (filter (\<lambda>f. f = None) (fds[d := Some f])) = length (filter (\<lambda>f. f = None) fds)"
proof (induction fds arbitrary: d)
  case (Cons a fds)
  then show ?case by (cases d) auto
qed simp

lemma shell_fds_update: "shell_fds fds \<Longrightarrow> fd \<le> 1 \<Longrightarrow> shell_fds (fds[fd := Some f])"
proof -
  assume s: "shell_fds fds" and fd: "fd \<le> 1"
  then have "fds ! fd \<noteq> None" by (cases "fd = 0") (auto simp: shell_fds_def le_Suc_eq)
  then show ?thesis using s fd free_keep [of fds fd f] by (auto simp: shell_fds_def nth_list_update)
qed

text \<open>Closing one of the first two descriptors makes it the next one to be given out.\<close>

lemma lowest_closed:
  assumes "shell_fds fds" "fd \<le> 1" "\<And>i. i < 2 \<Longrightarrow> fds' ! i = fds ! i" "length fds' = length fds"
  shows "lowest (fds'[fd := None]) = Some fd"
proof (rule lowest_is)
  show "fd < length (fds'[fd := None])" using assms by (auto simp: shell_fds_def)
  then show "fds'[fd := None] ! fd = None" by simp
  show "fds'[fd := None] ! i \<noteq> None" if "i < fd" for i
    using that assms(1,2) assms(3) [of i] by (auto simp: shell_fds_def le_Suc_eq)
qed

lemma pipe_ends:
  assumes "shell_fds fds"
  obtains p0 p1 where "lowest fds = Some p0" "lowest (fds[p0 := Some (ReadEnd n)]) = Some p1"
    "2 < p0" "2 < p1" "p0 \<noteq> p1" "p0 < length fds" "p1 < length fds" "fds ! p0 = None" "fds ! p1 = None"
proof -
  have s: "fds ! i \<noteq> None" if "i \<le> 2" for i using assms that by (auto simp: shell_fds_def le_Suc_eq numeral_2_eq_2)
  have "0 < length (filter (\<lambda>f. f = None) fds)" using assms unfolding shell_fds_def by linarith
  then obtain p0 where p0: "lowest fds = Some p0" using lowest_some by blast
  note l0 = lowest_free [OF p0]
  have "0 < length (filter (\<lambda>f. f = None) (fds[p0 := Some (ReadEnd n)]))"
    using free_update [of p0 fds "ReadEnd n"] l0 assms by (auto simp: shell_fds_def)
  then obtain p1 where p1: "lowest (fds[p0 := Some (ReadEnd n)]) = Some p1" using lowest_some by blast
  note l1 = lowest_free [OF p1]
  have ne: "p0 \<noteq> p1" using l1 l0 by auto
  then have f1: "fds ! p1 = None" "p1 < length fds" using l1 by auto
  have "2 < p0" "2 < p1" using s [of p0] s [of p1] l0 f1 by (auto simp: not_le [symmetric])
  then show thesis using that p0 p1 ne l0 f1 by blast
qed

lemma left_files:
  assumes "2 < p0" "2 < p1" "p0 \<noteq> p1" "p0 < length fds" "p1 < length fds" "fds ! p0 = None" "fds ! p1 = None" "fd \<le> 1"
  shows "fds[p0 := a, p1 := b, fd := None, fd := f, p0 := None, p1 := None] = fds[fd := f]"
  using assms by (intro nth_equalityI) (auto simp: nth_list_update)

lemma acts_runcmd:
  "few_args t \<Longrightarrow> shell_fds fds \<Longrightarrow> acts opens runs (runcmd t) fds n = plumb opens runs t fds n"
proof (induction t arbitrary: fds n rule: runcmd.induct)
  case (3 c f m fd)
  have fd: "fd \<le> 1" using 3(2) by simp
  have "lowest (fds[fd := None]) = Some fd" by (rule lowest_closed [OF 3(3) fd]) simp_all
  then show ?case using 3(1) [of "fds[fd := Some (Named f m)]" n] 3(2) shell_fds_update [OF 3(3) fd] by simp
next
  case (4 l r)
  then show ?case by (simp add: fork1_def split: prod.splits)
next
  case (5 l r)
  obtain p0 p1 where p: "lowest fds = Some p0" "lowest (fds[p0 := Some (ReadEnd n)]) = Some p1"
    "2 < p0" "2 < p1" "p0 \<noteq> p1" "p0 < length fds" "p1 < length fds" "fds ! p0 = None" "fds ! p1 = None"
    using pipe_ends [OF 5(4)] by blast
  let ?f = "fds[p0 := Some (ReadEnd n), p1 := Some (WriteEnd n)]"
  have low: "lowest (?f[fd := None]) = Some fd" if "fd \<le> 1" for fd
    by (rule lowest_closed [OF 5(4) that]) (use p(3,4) in auto)
  have e: "?f[1 := None] ! p1 = Some (WriteEnd n)" "?f[0 := None] ! p0 = Some (ReadEnd n)"
    using p(3-7) by (simp_all add: nth_list_update)
  have L: "?f[1 := None, 1 := Some (WriteEnd n), p0 := None, p1 := None] = fds[1 := Some (WriteEnd n)]"
    "?f[0 := None, 0 := Some (ReadEnd n), p0 := None, p1 := None] = fds[0 := Some (ReadEnd n)]"
    using left_files [OF p(3-9)] by blast+
  have IH: "acts opens runs (runcmd l) (fds[1 := Some (WriteEnd n)]) k = plumb opens runs l (fds[1 := Some (WriteEnd n)]) k"
    "acts opens runs (runcmd r) (fds[0 := Some (ReadEnd n)]) k = plumb opens runs r (fds[0 := Some (ReadEnd n)]) k" for k
    using 5(1,2,3) shell_fds_update [OF 5(4)] by simp_all
  show ?case
    unfolding runcmd.simps fork1_def acts.simps p(1,2) option.case low [OF le_refl] low [OF zero_le_one] e L IH
    by (simp add: split: prod.splits)
next
  case (6 c)
  then show ?case by (simp add: fork1_def split: prod.splits)
qed simp_all

text \<open>C18: the line printed for a command makes the shell start exactly the programs of the command, each with the standard
  input and output that pipes and redirections give it and with all other descriptors as the shell has them: no end of a
  pipe is left open in any of them.  A file that cannot be opened or a program that does not exist is
  reported and only ends its own process.\<close>

theorem sh_runs_command:
  assumes "printable t" "shell_fds fds"
  shows "\<exists>p. sh_command (print_cmd 0 t) = Ok p \<and> acts opens runs p fds n = plumb opens runs t fds n"
proof -
  have "sh_command (print_cmd 0 t) = Ok (runcmd t)"
    using parse_printed [OF assms(1)] by (auto simp: sh_command_def)
  then show ?thesis using acts_runcmd [of t fds] assms by (simp add: printable_def)
qed

theorem sh_runs_command_witness:
  "let fds = [Some (Before 0), Some (Before 1), Some (Before 2)] @ replicate 13 None in
   \<exists>p. sh_command ''cat <in |wc '' = Ok p
     \<and> acts (\<lambda>f. True) (\<lambda>a. True) p fds 0 =
       ([Launch [''cat''] ([Some (Named ''in'' O_RDONLY), Some (WriteEnd 0), Some (Before 2)] @ replicate 13 None),
         Launch [''wc''] ([Some (ReadEnd 0), Some (Before 1), Some (Before 2)] @ replicate 13 None)], 1)"
proof -
  let ?t = "PIPE (REDIR (EXEC [''cat'']) ''in'' O_RDONLY 0) (EXEC [''wc''])"
  let ?fds = "[Some (Before 0), Some (Before 1), Some (Before 2)] @ replicate 13 None"
  have "printable ?t" "print_cmd 0 ?t = ''cat <in |wc ''" "shell_fds ?fds" by code_simp+
  then show ?thesis using sh_runs_command [of ?t ?fds "\<lambda>f. True" "\<lambda>a. True" 0] by simp
qed

text \<open>A directory named in a last line without a newline loses its last character.\<close>

lemma cd_without_newline: "sh_line ''cd usr'' = Chdir ''us''" "sh_line (''cd usr'' @ sh_newline) = Chdir ''usr''"
  by (simp_all add: sh_line_def sh_newline_def)

end
