(* ===== verification/Pipe.thy ===== *)
theory Pipe
  imports Prelude
begin

text \<open>
  Pipes, \<^verbatim>\<open>p4/pipe.c\<close>: a ring of 512 bytes with two free-running 32-bit counters.  A call that has
  to sleep returns \<open>None\<close> together with what it still has to do and the state at that point;
  the calls of other processes run on that state before it goes on.
\<close>

definition PIPESIZE :: nat where "PIPESIZE = 512"

record pipe =
  pdata :: "byte list"
  nread :: u32
  nwrite :: u32
  readopen :: bool
  writeopen :: bool

text \<open>What \<^verbatim>\<open>pipealloc\<close> stores in the page it got; the bytes are whatever the page held.\<close>

definition pipe_init :: "byte list \<Rightarrow> pipe" where
  "pipe_init page = \<lparr>pdata = page, nread = 0, nwrite = 0, readopen = True, writeopen = True\<rparr>"

text \<open>The closed pipe and whether its page is freed.\<close>

definition pipeclose :: "pipe \<Rightarrow> bool \<Rightarrow> pipe \<times> bool" where
  "pipeclose p writable =
     (let p = (if writable then p\<lparr>writeopen := False\<rparr> else p\<lparr>readopen := False\<rparr>)
      in (p, \<not> readopen p \<and> \<not> writeopen p))"

definition pipe_full :: "pipe \<Rightarrow> bool" where
  "pipe_full p \<longleftrightarrow> nwrite p = nread p + of_nat PIPESIZE"

definition pipe_put :: "byte \<Rightarrow> pipe \<Rightarrow> pipe" where
  "pipe_put b p = p\<lparr>pdata := (pdata p)[unat (nwrite p) mod PIPESIZE := b], nwrite := nwrite p + 1\<rparr>"

fun pipewrite_loop :: "int \<Rightarrow> bool \<Rightarrow> byte list \<Rightarrow> pipe \<Rightarrow> int option \<times> byte list \<times> pipe" where
  "pipewrite_loop n killed [] p = (Some n, [], p)"
| "pipewrite_loop n killed (b # bs) p =
     (if pipe_full p
      then (if \<not> readopen p \<or> killed then (Some (- 1), b # bs, p) else (None, b # bs, p))
      else pipewrite_loop n killed bs (pipe_put b p))"

definition pipewrite :: "bool \<Rightarrow> byte list \<Rightarrow> pipe \<Rightarrow> int option \<times> byte list \<times> pipe" where
  "pipewrite killed addr p = pipewrite_loop (int (length addr)) killed addr p"

fun piperead_loop :: "nat \<Rightarrow> pipe \<Rightarrow> byte list \<times> pipe" where
  "piperead_loop 0 p = ([], p)"
| "piperead_loop (Suc n) p =
     (if nread p = nwrite p then ([], p)
      else let b = pdata p ! (unat (nread p) mod PIPESIZE);
               (bs, p') = piperead_loop n (p\<lparr>nread := nread p + 1\<rparr>)
           in (b # bs, p'))"

text \<open>The returned count, the bytes stored at \<^verbatim>\<open>addr\<close> and the pipe.\<close>

definition piperead :: "bool \<Rightarrow> int \<Rightarrow> pipe \<Rightarrow> int option \<times> byte list \<times> pipe" where
  "piperead killed n p =
     (if nread p = nwrite p \<and> writeopen p
      then (if killed then (Some (- 1), [], p) else (None, [], p))
      else let (bs, p') = piperead_loop (nat n) p in (Some (int (length bs)), bs, p'))"

subsection \<open>The ring as a queue\<close>

definition pipe_len :: "pipe \<Rightarrow> nat" where
  "pipe_len p = unat (nwrite p - nread p)"

definition pipe_bytes :: "pipe \<Rightarrow> byte list" where
  "pipe_bytes p = map (\<lambda>i. pdata p ! ((unat (nread p) + i) mod PIPESIZE)) [0..<pipe_len p]"

definition pipe_ok :: "pipe \<Rightarrow> bool" where
  "pipe_ok p \<longleftrightarrow> length (pdata p) = PIPESIZE \<and> pipe_len p \<le> PIPESIZE"

text \<open>The ring size divides \<open>2 ^ 32\<close>, so a counter that wraps keeps its place in the ring.\<close>

lemma ring_add: "unat (w + of_nat i :: u32) mod PIPESIZE = (unat w + i) mod PIPESIZE"
proof -
  have "unat (w + of_nat i :: u32) = (unat w + i) mod 2 ^ 32"
    by (simp add: unat_word_ariths unat_of_nat mod_simps)
  moreover have "(512::nat) dvd 2 ^ 32" by (simp add: dvd_def)
  ultimately show ?thesis by (simp add: PIPESIZE_def mod_mod_cancel)
qed

lemma nwrite_eq: "nwrite p = nread p + of_nat (pipe_len p)"
  by (simp add: pipe_len_def)

lemma pipe_empty_iff: "nread p = nwrite p \<longleftrightarrow> pipe_len p = 0"
  by (auto simp: pipe_len_def unat_eq_0)

lemma pipe_full_iff: "pipe_full p \<longleftrightarrow> pipe_len p = PIPESIZE"
proof -
  have "pipe_full p \<longleftrightarrow> nwrite p - nread p = of_nat PIPESIZE"
    by (auto simp: pipe_full_def algebra_simps)
  also have "\<dots> \<longleftrightarrow> unat (nwrite p - nread p) = unat (of_nat PIPESIZE :: u32)"
    by (simp only: word_unat_eq_iff)
  also have "unat (of_nat PIPESIZE :: u32) = PIPESIZE" by (simp add: PIPESIZE_def)
  finally show ?thesis by (simp add: pipe_len_def)
qed

lemma length_pipe_bytes [simp]: "length (pipe_bytes p) = pipe_len p"
  by (simp add: pipe_bytes_def)

lemma pipe_put_queue:
  assumes "pipe_ok p" "\<not> pipe_full p"
  shows "pipe_ok (pipe_put b p)" "pipe_bytes (pipe_put b p) = pipe_bytes p @ [b]"
proof -
  have lt: "pipe_len p < PIPESIZE" using assms by (simp add: pipe_ok_def pipe_full_iff)
  have len: "pipe_len (pipe_put b p) = Suc (pipe_len p)"
  proof -
    have "nwrite (pipe_put b p) - nread (pipe_put b p) = of_nat (Suc (pipe_len p))"
      using nwrite_eq [of p] by (simp add: pipe_put_def)
    then have "pipe_len (pipe_put b p) = unat (of_nat (Suc (pipe_len p)) :: u32)"
      by (simp only: pipe_len_def)
    also have "\<dots> = Suc (pipe_len p) mod 2 ^ 32" by (simp only: unat_of_nat) simp
    also have "\<dots> = Suc (pipe_len p)" using lt by (simp add: PIPESIZE_def)
    finally show ?thesis .
  qed
  have w: "unat (nwrite p) mod PIPESIZE = (unat (nread p) + pipe_len p) mod PIPESIZE"
    using ring_add [of "nread p" "pipe_len p"] nwrite_eq [of p] by simp
  have other: "(unat (nread p) + i) mod PIPESIZE \<noteq> (unat (nread p) + pipe_len p) mod PIPESIZE"
    if "i < pipe_len p" for i
  proof
    assume "(unat (nread p) + i) mod PIPESIZE = (unat (nread p) + pipe_len p) mod PIPESIZE"
    then have "PIPESIZE dvd pipe_len p - i"
      using that by (metis add_diff_cancel_left less_imp_le add_le_cancel_left mod_eq_dvd_iff_nat)
    then show False using that lt by (auto dest: dvd_imp_le)
  qed
  show "pipe_ok (pipe_put b p)" using assms(1) lt len by (simp add: pipe_ok_def pipe_put_def)
  have ps: "0 < PIPESIZE" by (simp add: PIPESIZE_def)
  show "pipe_bytes (pipe_put b p) = pipe_bytes p @ [b]"
  proof (rule nth_equalityI)
    fix i assume "i < length (pipe_bytes (pipe_put b p))"
    then have i: "i < Suc (pipe_len p)" by (simp add: len)
    have "pipe_bytes (pipe_put b p) ! i = ((pdata p)[(unat (nread p) + pipe_len p) mod PIPESIZE := b])
        ! ((unat (nread p) + i) mod PIPESIZE)"
      using i by (simp add: pipe_bytes_def len w [symmetric] del: upt_Suc) (simp add: pipe_put_def)
    also have "\<dots> = (pipe_bytes p @ [b]) ! i"
    proof (cases "i = pipe_len p")
      case True
      then show ?thesis using assms(1) ps by (simp add: nth_append pipe_ok_def)
    next
      case False
      then have "i < pipe_len p" using i by simp
      then show ?thesis using other [of i] by (simp add: nth_append pipe_bytes_def)
    qed
    finally show "pipe_bytes (pipe_put b p) ! i = (pipe_bytes p @ [b]) ! i" .
  qed (simp add: len)
qed

lemma pipe_get_queue:
  assumes "pipe_ok p" "nread p \<noteq> nwrite p"
  shows "pipe_ok (p\<lparr>nread := nread p + 1\<rparr>)"
    "pipe_bytes p = pdata p ! (unat (nread p) mod PIPESIZE) # pipe_bytes (p\<lparr>nread := nread p + 1\<rparr>)"
proof -
  let ?p = "p\<lparr>nread := nread p + 1\<rparr>"
  have pos: "0 < pipe_len p" using assms(2) pipe_empty_iff [of p] by simp
  then obtain k where k: "pipe_len p = Suc k" by (cases "pipe_len p") auto
  have k512: "k < 512" using assms(1) k by (simp add: pipe_ok_def PIPESIZE_def)
  have len: "pipe_len ?p = k"
  proof -
    have "nwrite ?p - nread ?p = of_nat k" using nwrite_eq [of p] k by simp
    then have "pipe_len ?p = unat (of_nat k :: u32)" by (simp only: pipe_len_def)
    then show ?thesis using k512 by (simp add: unat_of_nat)
  qed
  show "pipe_ok ?p" using assms(1) len k by (simp add: pipe_ok_def)
  have "(unat (nread p + 1) + i) mod PIPESIZE = (unat (nread p) + Suc i) mod PIPESIZE" for i
    using ring_add [of "nread p + 1" i] ring_add [of "nread p" "Suc i"] by (simp add: add.assoc)
  then show "pipe_bytes p = pdata p ! (unat (nread p) mod PIPESIZE) # pipe_bytes ?p"
    unfolding pipe_bytes_def len k by (simp add: map_upt_Suc del: upt_Suc)
qed

subsection \<open>Bounded queues\<close>

text \<open>The contract a reader and a writer rely on: a bounded first-in first-out queue, and what any
  interleaving of single transfers then delivers.\<close>

locale byte_queue =
  fixes bytes :: "'s \<Rightarrow> byte list" and ok :: "'s \<Rightarrow> bool" and is_full :: "'s \<Rightarrow> bool"
    and is_empty :: "'s \<Rightarrow> bool" and put :: "byte \<Rightarrow> 's \<Rightarrow> 's" and take1 :: "'s \<Rightarrow> byte \<times> 's"
  assumes put_ok: "ok s \<Longrightarrow> \<not> is_full s \<Longrightarrow> ok (put b s) \<and> bytes (put b s) = bytes s @ [b]"
    and take_ok: "ok s \<Longrightarrow> \<not> is_empty s \<Longrightarrow>
      ok (snd (take1 s)) \<and> bytes s = fst (take1 s) # bytes (snd (take1 s))"
    and empty_iff: "ok s \<Longrightarrow> is_empty s \<longleftrightarrow> bytes s = []"
begin

fun put_all :: "byte list \<Rightarrow> 's \<Rightarrow> byte list \<times> 's" where
  "put_all [] s = ([], s)"
| "put_all (b # bs) s = (if is_full s then (b # bs, s) else put_all bs (put b s))"

fun take_upto :: "nat \<Rightarrow> 's \<Rightarrow> byte list \<times> 's" where
  "take_upto 0 s = ([], s)"
| "take_upto (Suc n) s =
     (if is_empty s then ([], s)
      else let (bs, s') = take_upto n (snd (take1 s)) in (fst (take1 s) # bs, s'))"

lemma put_all_ok:
  "ok s \<Longrightarrow> put_all bs s = (rest, s') \<Longrightarrow>
     ok s' \<and> (\<exists>stored. bs = stored @ rest \<and> bytes s' = bytes s @ stored \<and> (rest \<noteq> [] \<longrightarrow> is_full s'))"
proof (induction bs arbitrary: s)
  case (Cons b bs)
  show ?case
  proof (cases "is_full s")
    case False
    then obtain st where "ok s'" "bs = st @ rest" "bytes s' = bytes (put b s) @ st" "rest \<noteq> [] \<longrightarrow> is_full s'"
      using Cons.IH [of "put b s"] Cons.prems put_ok by auto
    then show ?thesis using put_ok [OF Cons.prems(1) False] by (intro conjI exI [of _ "b # st"]) auto
  next
    case True
    then show ?thesis using Cons.prems by auto
  qed
qed auto

lemma take_upto_ok:
  "ok s \<Longrightarrow> take_upto n s = (bs, s') \<Longrightarrow>
     ok s' \<and> bytes s = bs @ bytes s' \<and> length bs = min n (length (bytes s))"
proof (induction n arbitrary: s bs s')
  case (Suc n)
  show ?case
  proof (cases "is_empty s")
    case True
    then show ?thesis using Suc.prems empty_iff by auto
  next
    case False
    obtain bs1 s1 where r: "take_upto n (snd (take1 s)) = (bs1, s1)" by fastforce
    have t: "ok (snd (take1 s))" "bytes s = fst (take1 s) # bytes (snd (take1 s))"
      using take_ok [OF Suc.prems(1) False] by blast+
    have i: "ok s1" "bytes (snd (take1 s)) = bs1 @ bytes s1" "length bs1 = min n (length (bytes (snd (take1 s))))"
      using Suc.IH [OF t(1) r] by blast+
    have b: "bs = fst (take1 s) # bs1" "s' = s1" using Suc.prems(2) False r by auto
    have "bytes s = bs @ bytes s'" unfolding b t(2) i(2) by simp
    moreover have "length bs = min (Suc n) (length (bytes s))" unfolding b t(2) by (simp add: i(3))
    ultimately show ?thesis using i(1) b(2) by blast
  qed
qed auto

end

definition pipe_take :: "pipe \<Rightarrow> byte \<times> pipe" where
  "pipe_take p = (pdata p ! (unat (nread p) mod PIPESIZE), p\<lparr>nread := nread p + 1\<rparr>)"

interpretation pq: byte_queue pipe_bytes pipe_ok pipe_full "\<lambda>p. nread p = nwrite p" pipe_put pipe_take
proof unfold_locales
  show "pipe_ok (pipe_put b s) \<and> pipe_bytes (pipe_put b s) = pipe_bytes s @ [b]"
    if "pipe_ok s" "\<not> pipe_full s" for s b
    using pipe_put_queue [OF that] by blast
  show "pipe_ok (snd (pipe_take s)) \<and> pipe_bytes s = fst (pipe_take s) # pipe_bytes (snd (pipe_take s))"
    if "pipe_ok s" "\<not> nread s = nwrite s" for s
    using pipe_get_queue [OF that] by (simp add: pipe_take_def)
  show "(nread s = nwrite s) = (pipe_bytes s = [])" if "pipe_ok s" for s
    by (simp add: pipe_empty_iff pipe_bytes_def)
qed

lemma piperead_loop_queue: "piperead_loop n p = pq.take_upto n p"
  by (induction n arbitrary: p) (auto simp: pipe_take_def Let_def)

lemma pipewrite_loop_queue:
  "pipewrite_loop n killed bs p =
     (case pq.put_all bs p of (rest, p') \<Rightarrow>
        (if rest = [] then Some n else if \<not> readopen p' \<or> killed then Some (- 1) else None, rest, p'))"
  by (induction bs arbitrary: p) (auto simp: pipe_put_def split: prod.splits)

subsection \<open>Properties\<close>

text \<open>C32: \<^verbatim>\<open>pipewrite\<close> stores a prefix of its bytes behind those already in the pipe and reports the
  whole count only when it has stored them all; it stops early only on a full ring, with an
  error when the reader is gone or the caller was killed and by sleeping otherwise.\<close>

theorem pipewrite_appends:
  assumes "pipe_ok p" "pipewrite killed addr p = (r, rest, p')"
  shows "pipe_ok p' \<and> (\<exists>stored. addr = stored @ rest \<and> pipe_bytes p' = pipe_bytes p @ stored)
    \<and> (r = Some (int (length addr)) \<longleftrightarrow> rest = [])
    \<and> (rest \<noteq> [] \<longrightarrow> pipe_len p' = PIPESIZE \<and> (r = Some (- 1) \<longleftrightarrow> \<not> readopen p' \<or> killed))"
proof -
  obtain rest' q where q: "pq.put_all addr p = (rest', q)" by fastforce
  then have "rest' = rest" "q = p'"
    "r = (if rest = [] then Some (int (length addr)) else if \<not> readopen p' \<or> killed then Some (- 1) else None)"
    using assms(2) by (auto simp: pipewrite_def pipewrite_loop_queue)
  with pq.put_all_ok [OF assms(1) q] show ?thesis by (auto simp: pipe_full_iff)
qed

definition sample_pipe :: pipe where
  "sample_pipe = (pipe_init (replicate PIPESIZE 0))\<lparr>nread := - 1, nwrite := - 1\<rparr>"

lemma sample_pipe_ok: "pipe_ok sample_pipe"
  by (simp add: sample_pipe_def pipe_init_def pipe_ok_def pipe_len_def)

theorem pipewrite_appends_witness:
  "pipe_ok (snd (snd (pipewrite False [1, 2, 3] sample_pipe)))
    \<and> pipe_bytes (snd (snd (pipewrite False [1, 2, 3] sample_pipe))) = pipe_bytes sample_pipe @ [1, 2, 3]"
proof -
  have nf: "\<not> pipe_full p" if "pipe_len p < 512" for p
    using that by (simp add: pipe_full_iff PIPESIZE_def)
  have r: "fst (snd (pipewrite False [1, 2, 3] sample_pipe)) = []"
    by (simp add: pipewrite_def nf pipe_put_def sample_pipe_def pipe_init_def pipe_len_def)
  obtain x y z where e: "pipewrite False [1, 2, 3] sample_pipe = (x, y, z)" by (metis prod_cases3)
  from pipewrite_appends [OF sample_pipe_ok e] r e show ?thesis by auto
qed

text \<open>\<^verbatim>\<open>piperead\<close> removes and returns the oldest bytes, as many as asked for or as there are, in the
  order they were written, also across the wrap-around of the 32-bit counters; it waits only
  on an empty pipe that still has a writer.\<close>

theorem piperead_takes_oldest:
  assumes "pipe_ok p" "piperead killed n p = (r, bs, p')"
  shows "pipe_ok p' \<and> pipe_bytes p = bs @ pipe_bytes p'
    \<and> (pipe_bytes p \<noteq> [] \<or> \<not> writeopen p \<longrightarrow>
         r = Some (int (length bs)) \<and> length bs = min (nat n) (length (pipe_bytes p)))
    \<and> (r = None \<longleftrightarrow> pipe_bytes p = [] \<and> writeopen p \<and> \<not> killed)"
proof (cases "nread p = nwrite p \<and> writeopen p")
  case True
  then have "pipe_bytes p = []" using pq.empty_iff [OF assms(1)] by simp
  with True assms show ?thesis by (auto simp: piperead_def split: if_splits)
next
  case False
  obtain b q where q: "pq.take_upto (nat n) p = (b, q)" by fastforce
  then have bq: "b = bs" "q = p'" and r: "r = Some (int (length bs))"
    using False assms(2) by (auto simp: piperead_def piperead_loop_queue)
  have "pipe_ok p'" "pipe_bytes p = bs @ pipe_bytes p'" "length bs = min (nat n) (length (pipe_bytes p))"
    using pq.take_upto_ok [OF assms(1) q] unfolding bq by blast+
  moreover have "\<not> (pipe_bytes p = [] \<and> writeopen p)" using False pq.empty_iff [OF assms(1)] by blast
  ultimately show ?thesis using r by blast
qed

theorem piperead_takes_oldest_witness:
  "piperead True 4 sample_pipe = (Some (- 1), [], sample_pipe) \<and> pipe_ok sample_pipe
    \<and> pipe_bytes sample_pipe = [] @ pipe_bytes sample_pipe"
proof -
  have e: "piperead True 4 sample_pipe = (Some (- 1), [], sample_pipe)"
    by (simp add: piperead_def sample_pipe_def pipe_init_def)
  from piperead_takes_oldest [OF sample_pipe_ok e] e show ?thesis by blast
qed

end
