(* ===== verification/File.thy ===== *)
theory File
  imports Fs Pipe
begin

text \<open>
  Open files, \<^verbatim>\<open>p4/file.c\<close> with \<^verbatim>\<open>pipealloc\<close> of \<^verbatim>\<open>p4/pipe.c\<close>.  A file structure is named by its position in
  \<^verbatim>\<open>ftable\<close>, an inode by its position in \<^verbatim>\<open>icache\<close>, a pipe by its position in a list in which a freed
  page leaves a gap.  \<^verbatim>\<open>begin_op\<close> and \<^verbatim>\<open>end_op\<close> show as the count \<^verbatim>\<open>log.outstanding\<close>; what they do to the
  disk is in theory \<^verbatim>\<open>Log\<close>.
\<close>

subsection \<open>The file table\<close>

datatype ftype = FD_NONE | FD_PIPE | FD_INODE

record filerec =
  f_type :: ftype
  f_ref :: int
  f_readable :: bool
  f_writable :: bool
  f_pipe :: nat
  f_ip :: nat
  f_off :: nat

definition NFILE :: nat where "NFILE = 100"

record fstate =
  ftable :: "filerec list"
  fpipes :: "pipe option list"
  ffs :: fsys
  outstanding :: int

definition set_file :: "nat \<Rightarrow> filerec \<Rightarrow> fstate \<Rightarrow> fstate" where
  "set_file f x s = s\<lparr>ftable := (ftable s)[f := x]\<rparr>"

definition begin_fop :: "fstate \<Rightarrow> fstate" where
  "begin_fop s = s\<lparr>outstanding := outstanding s + 1\<rparr>"

definition end_fop :: "fstate \<Rightarrow> fstate" where
  "end_fop s = s\<lparr>outstanding := outstanding s - 1\<rparr>"

text \<open>A function of the file system run on the file system part of the state.\<close>

definition on_fs :: "(fsys \<Rightarrow> fsys outcome) \<Rightarrow> fstate \<Rightarrow> fstate outcome" where
  "on_fs g s = and_then (g (ffs s)) (\<lambda>x. Ok (s\<lparr>ffs := x\<rparr>))"

definition filealloc :: "fstate \<Rightarrow> nat option \<times> fstate" where
  "filealloc s =
     (case find_index (\<lambda>f. f_ref f = 0) (ftable s) of
        None \<Rightarrow> (None, s)
      | Some f \<Rightarrow> (Some f, set_file f ((ftable s ! f)\<lparr>f_ref := 1\<rparr>) s))"

definition filedup :: "nat \<Rightarrow> fstate \<Rightarrow> fstate outcome" where
  "filedup f s =
     (if f_ref (ftable s ! f) < 1 then Panic ''filedup''
      else Ok (set_file f ((ftable s ! f)\<lparr>f_ref := f_ref (ftable s ! f) + 1\<rparr>) s))"

definition pipe_release :: "nat \<Rightarrow> bool \<Rightarrow> fstate \<Rightarrow> fstate outcome" where
  "pipe_release i writable s =
     (case fpipes s ! i of
        None \<Rightarrow> Panic ''use of a freed pipe''
      | Some p \<Rightarrow>
          (case pipeclose p writable of
             (p, freed) \<Rightarrow> Ok (s\<lparr>fpipes := (fpipes s)[i := if freed then None else Some p]\<rparr>)))"

definition fileclose :: "nat \<Rightarrow> nat \<Rightarrow> fstate \<Rightarrow> fstate outcome" where
  "fileclose pid f s =
     (let ff = ftable s ! f in
      if f_ref ff < 1 then Panic ''fileclose''
      else if f_ref ff - 1 > 0 then Ok (set_file f (ff\<lparr>f_ref := f_ref ff - 1\<rparr>) s)
      else let s = set_file f (ff\<lparr>f_ref := 0, f_type := FD_NONE\<rparr>) s in
           case f_type ff of
             FD_PIPE \<Rightarrow> pipe_release (f_pipe ff) (f_writable ff) s
           | FD_INODE \<Rightarrow> and_then (on_fs (iput pid (f_ip ff)) (begin_fop s)) (\<lambda>s. Ok (end_fop s))
           | FD_NONE \<Rightarrow> Ok s)"

definition filestat :: "nat \<Rightarrow> nat \<Rightarrow> fstate \<Rightarrow> (int \<times> stat option \<times> fstate) outcome" where
  "filestat pid f s =
     (let ff = ftable s ! f in
      if f_type ff = FD_INODE
      then and_then (on_fs (ilock pid (f_ip ff)) s) (\<lambda>s.
           let st = stati (f_ip ff) (ffs s) in
           and_then (on_fs (iunlock pid (f_ip ff)) s) (\<lambda>s. Ok (0, Some st, s)))
      else Ok (- 1, None, s))"

text \<open>\<^verbatim>\<open>if(r > 0) f->off += r\<close>\<close>

definition advance :: "nat \<Rightarrow> int \<Rightarrow> fstate \<Rightarrow> fstate" where
  "advance f r s =
     (if r > 0 then set_file f ((ftable s ! f)\<lparr>f_off := (f_off (ftable s ! f) + nat r) mod 2 ^ 32\<rparr>) s else s)"

text \<open>The count, the bytes stored at \<^verbatim>\<open>addr\<close> and the new state; no count for a call that sleeps on a pipe.\<close>

definition fileread :: "devread \<Rightarrow> nat \<Rightarrow> bool \<Rightarrow> nat \<Rightarrow> nat \<Rightarrow> fstate \<Rightarrow> (int option \<times> byte list \<times> fstate) outcome" where
  "fileread devr pid killed f n s =
     (let ff = ftable s ! f in
      if \<not> f_readable ff then Ok (Some (- 1), [], s)
      else case f_type ff of
        FD_PIPE \<Rightarrow>
          (case fpipes s ! f_pipe ff of
             None \<Rightarrow> Panic ''use of a freed pipe''
           | Some p \<Rightarrow>
               (case piperead killed (int n) p of
                  (r, bs, p) \<Rightarrow> Ok (r, bs, s\<lparr>fpipes := (fpipes s)[f_pipe ff := Some p]\<rparr>)))
      | FD_INODE \<Rightarrow>
          and_then (on_fs (ilock pid (f_ip ff)) s) (\<lambda>s.
          and_then (readi devr (f_ip ff) (f_off ff) n (ffs s)) (\<lambda>(r, bs, x).
          and_then (on_fs (iunlock pid (f_ip ff)) (advance f r (s\<lparr>ffs := x\<rparr>))) (\<lambda>s. Ok (Some r, bs, s))))
      | FD_NONE \<Rightarrow> Panic ''fileread'')"

definition write_max :: nat where "write_max = ((MAXOPBLOCKS - 1 - 1 - 2) div 2) * 512"

text \<open>The loop of \<^verbatim>\<open>filewrite\<close>, over the bytes still to be written; it reports whether all were.\<close>

function filewrite_loop :: "devwrite \<Rightarrow> nat \<Rightarrow> nat \<Rightarrow> byte list \<Rightarrow> fstate \<Rightarrow> (bool \<times> fstate) outcome" where
  "filewrite_loop devw pid f src s =
     (if src = [] then Ok (True, s)
      else let n1 = min (length src) write_max; ff = ftable s ! f in
           and_then (on_fs (ilock pid (f_ip ff)) (begin_fop s)) (\<lambda>s.
           and_then (writei devw (f_ip ff) (take n1 src) (f_off ff) (ffs s)) (\<lambda>(r, x).
           and_then (on_fs (iunlock pid (f_ip ff)) (advance f r (s\<lparr>ffs := x\<rparr>))) (\<lambda>s.
             let s = end_fop s in
             if r < 0 then Ok (False, s)
             else if r \<noteq> int n1 then Panic ''short filewrite''
             else filewrite_loop devw pid f (drop n1 src) s))))"
  by pat_completeness auto
termination
  by (relation "measure (\<lambda>(devw, pid, f, src, s). length src)") (auto simp: write_max_def MAXOPBLOCKS_def)

declare filewrite_loop.simps [simp del]

definition filewrite :: "devwrite \<Rightarrow> nat \<Rightarrow> bool \<Rightarrow> nat \<Rightarrow> byte list \<Rightarrow> fstate \<Rightarrow> (int option \<times> byte list \<times> fstate) outcome" where
  "filewrite devw pid killed f src s =
     (let ff = ftable s ! f in
      if \<not> f_writable ff then Ok (Some (- 1), [], s)
      else case f_type ff of
        FD_PIPE \<Rightarrow>
          (case fpipes s ! f_pipe ff of
             None \<Rightarrow> Panic ''use of a freed pipe''
           | Some p \<Rightarrow>
               (case pipewrite killed src p of
                  (r, rest, p) \<Rightarrow> Ok (r, rest, s\<lparr>fpipes := (fpipes s)[f_pipe ff := Some p]\<rparr>)))
      | FD_INODE \<Rightarrow>
          and_then (filewrite_loop devw pid f src s) (\<lambda>(all_done, s).
            Ok (Some (if all_done then int (length src) else - 1), [], s))
      | FD_NONE \<Rightarrow> Panic ''filewrite'')"

text \<open>\<open>page\<close> is what \<^verbatim>\<open>kalloc\<close> returns: nothing, or a page with some contents.\<close>

definition pipealloc :: "nat \<Rightarrow> byte list option \<Rightarrow> fstate \<Rightarrow> ((nat \<times> nat) option \<times> fstate) outcome" where
  "pipealloc pid page s =
     (case filealloc s of
        (None, s) \<Rightarrow> Ok (None, s)
      | (Some f0, s) \<Rightarrow>
          (case filealloc s of
             (None, s) \<Rightarrow> and_then (fileclose pid f0 s) (\<lambda>s. Ok (None, s))
           | (Some f1, s) \<Rightarrow>
               (case page of
                  None \<Rightarrow> and_then (fileclose pid f0 s) (\<lambda>s. and_then (fileclose pid f1 s) (\<lambda>s. Ok (None, s)))
                | Some bs \<Rightarrow>
                    let p = length (fpipes s);
                        s = s\<lparr>fpipes := fpipes s @ [Some (pipe_init bs)]\<rparr>;
                        s = set_file f0 ((ftable s ! f0)\<lparr>f_type := FD_PIPE, f_readable := True, f_writable := False, f_pipe := p\<rparr>) s;
                        s = set_file f1 ((ftable s ! f1)\<lparr>f_type := FD_PIPE, f_readable := False, f_writable := True, f_pipe := p\<rparr>) s
                    in Ok (Some (f0, f1), s))))"

subsection \<open>Postconditions\<close>

text \<open>\<open>post r Q\<close>: when \<open>r\<close> is a normal return, its value satisfies \<open>Q\<close>.  The rules in \<open>wp\<close> have the shape
  \<open>pre s \<Longrightarrow> (\<And>x. result x \<Longrightarrow> Q x) \<Longrightarrow> post (op s) Q\<close>, so that a proof follows the text of the function.\<close>

named_theorems wp "postcondition rules of the operations"

definition post :: "'a outcome \<Rightarrow> ('a \<Rightarrow> bool) \<Rightarrow> bool" where
  "post r Q \<longleftrightarrow> (case r of Ok x \<Rightarrow> Q x | _ \<Rightarrow> True)"

lemma post_simps [simp]:
  "post (Ok x) Q = Q x" "post (Panic m) Q" "post Wait Q"
  "post (and_then r f) Q = post r (\<lambda>x. post (f x) Q)"
  by (cases r; simp add: post_def)+

lemma postI: "(\<And>x. r = Ok x \<Longrightarrow> Q x) \<Longrightarrow> post r Q"
  by (cases r) (simp_all add: post_def)

lemma postD: "post r Q \<Longrightarrow> r = Ok x \<Longrightarrow> Q x"
  by (simp add: post_def)

lemma post_mono: "post r P \<Longrightarrow> (\<And>x. P x \<Longrightarrow> Q x) \<Longrightarrow> post r Q"
  by (cases r) (simp_all add: post_def)

subsection \<open>Locks and reference counts of the inode cache\<close>

text \<open>The size of the cache, the locked inodes and the count of each inode.\<close>

definition ilen :: "fsys \<Rightarrow> nat" where
  "ilen s = length (icache s)"

definition lks :: "fsys \<Rightarrow> nat set" where
  "lks s = {i. i < length (icache s) \<and> slk_locked (i_lock (ino s i))}"

definition rfs :: "fsys \<Rightarrow> nat \<Rightarrow> int" where
  "rfs s i = (if i < length (icache s) then i_ref (ino s i) else 0)"

lemmas acct_defs = ilen_def lks_def rfs_def fun_eq_iff

definition bump :: "nat \<Rightarrow> int \<Rightarrow> (nat \<Rightarrow> int) \<Rightarrow> nat \<Rightarrow> int" where
  "bump ip d R = R(ip := R ip + d)"

lemma bump_bump [simp]: "bump ip d (bump ip e R) = bump ip (d + e) R" "bump ip 0 R = R"
  by (simp_all add: bump_def algebra_simps)

definition quiet :: "fsys \<Rightarrow> fsys \<Rightarrow> bool" where
  "quiet s s' \<longleftrightarrow> ilen s' = ilen s \<and> lks s' = lks s \<and> rfs s' = rfs s"

lemma acct_wr [simp]: "ilen (wr b d s) = ilen s" "lks (wr b d s) = lks s" "rfs (wr b d s) = rfs s"
  by (simp_all add: acct_defs)

lemma ilen_set_ino [simp]: "ilen (set_ino ip i s) = ilen s"
  by (simp add: ilen_def)

lemma lks_set_ino: "ip < ilen s \<Longrightarrow> lks (set_ino ip i s) = (if slk_locked (i_lock i) then insert ip (lks s) else lks s - {ip})"
  by (auto simp: acct_defs set_ino_def nth_list_update split: if_splits)

lemma rfs_set_ino: "ip < ilen s \<Longrightarrow> rfs (set_ino ip i s) = (rfs s)(ip := i_ref i)"
  by (auto simp: acct_defs set_ino_def nth_list_update)

lemma lks_set_same: "i_lock i = i_lock (ino s ip) \<Longrightarrow> lks (set_ino ip i s) = lks s"
  by (cases "ip < length (icache s)") (auto simp: acct_defs set_ino_def nth_list_update)

lemma rfs_set_same: "i_ref i = i_ref (ino s ip) \<Longrightarrow> rfs (set_ino ip i s) = rfs s"
  by (cases "ip < length (icache s)") (auto simp: acct_defs set_ino_def nth_list_update)

lemma acct_set_same' [simp]:
  "lks (set_ino ip ((ino s ip)\<lparr>i_addrs := a\<rparr>) s) = lks s" "rfs (set_ino ip ((ino s ip)\<lparr>i_addrs := a\<rparr>) s) = rfs s"
  "lks (set_ino ip ((ino s ip)\<lparr>i_size := z\<rparr>) s) = lks s" "rfs (set_ino ip ((ino s ip)\<lparr>i_size := z\<rparr>) s) = rfs s"
  "lks (set_ino ip ((ino s ip)\<lparr>i_type := t\<rparr>) s) = lks s" "rfs (set_ino ip ((ino s ip)\<lparr>i_type := t\<rparr>) s) = rfs s"
  "lks (set_ino ip ((ino s ip)\<lparr>i_valid := v\<rparr>) s) = lks s" "rfs (set_ino ip ((ino s ip)\<lparr>i_valid := v\<rparr>) s) = rfs s"
  "lks (set_ino ip ((ino s ip)\<lparr>i_nlink := l\<rparr>) s) = lks s" "rfs (set_ino ip ((ino s ip)\<lparr>i_nlink := l\<rparr>) s) = rfs s"
  by (simp_all add: lks_set_same rfs_set_same)

lemma rd_wp [wp]: "(\<And>d. b < length (fblocks s) \<Longrightarrow> d = fblocks s ! b \<Longrightarrow> Q d) \<Longrightarrow> post (rd b s) Q"
  by (rule postI) simp

lemma balloc_wp [wp]: "(\<And>a s'. quiet s s' \<Longrightarrow> Q (a, s')) \<Longrightarrow> post (balloc s) Q"
  by (rule postI) (auto dest!: balloc_Ok simp: allocated_def quiet_def)

lemma bfree_wp [wp]: "(\<And>s'. quiet s s' \<Longrightarrow> Q s') \<Longrightarrow> post (bfree b s) Q"
  by (rule postI) (auto simp: bfree_def quiet_def split: if_splits)

lemma iupdate_wp [wp]: "(\<And>s'. quiet s s' \<Longrightarrow> Q s') \<Longrightarrow> post (iupdate ip s) Q"
  by (rule postI) (auto simp: iupdate_def Let_def quiet_def)

lemma bmap_wp [wp]: "(\<And>a s'. quiet s s' \<Longrightarrow> Q (a, s')) \<Longrightarrow> post (bmap ip bn s) Q"
  unfolding bmap_def Let_def by (auto intro!: wp simp: quiet_def)

lemma itrunc_direct_wp [wp]: "(\<And>s'. quiet s s' \<Longrightarrow> Q s') \<Longrightarrow> post (itrunc_direct ip is s) Q"
  by (induction "is" arbitrary: s Q) (auto intro!: wp simp: quiet_def)

lemma itrunc_indirect_wp [wp]: "(\<And>s'. quiet s s' \<Longrightarrow> Q s') \<Longrightarrow> post (itrunc_indirect ind js s) Q"
  by (induction js arbitrary: s Q) (auto intro!: wp simp: quiet_def Let_def)

lemma itrunc_wp [wp]: "(\<And>s'. quiet s s' \<Longrightarrow> Q s') \<Longrightarrow> post (itrunc ip s) Q"
  unfolding itrunc_def Let_def by (auto intro!: wp simp: quiet_def)

lemma readi_loop_wp [wp]: "(\<And>bs s'. quiet s s' \<Longrightarrow> Q (bs, s')) \<Longrightarrow> post (readi_loop ip off n s) Q"
proof (induction n arbitrary: off s Q rule: less_induct)
  case (less n)
  show ?case
  proof (cases "n = 0")
    case True
    then show ?thesis using less.prems by (subst readi_loop.simps) (simp add: quiet_def)
  next
    case False
    have lt: "n - min n (BSIZE - off mod BSIZE) < n" using False by (auto simp: BSIZE_def)
    show ?thesis using False
      by (subst readi_loop.simps) (auto simp: Let_def quiet_def intro!: wp less.IH [OF lt] less.prems)
  qed
qed

lemma readi_wp [wp]: "(\<And>r bs s'. quiet s s' \<Longrightarrow> Q (r, bs, s')) \<Longrightarrow> post (readi devr ip off n s) Q"
  unfolding readi_def Let_def by (auto intro!: wp simp: quiet_def split: option.splits prod.splits)

lemma writei_loop_wp [wp]: "(\<And>o1 s'. quiet s s' \<Longrightarrow> Q (o1, s')) \<Longrightarrow> post (writei_loop ip off src s) Q"
proof (induction "length src" arbitrary: off s Q src rule: less_induct)
  case less
  show ?case
  proof (cases "src = []")
    case True
    then show ?thesis using less.prems by (subst writei_loop.simps) (simp add: quiet_def)
  next
    case False
    have lt: "length (drop (min (length src) (BSIZE - off mod BSIZE)) src) < length src" using False by (auto simp: BSIZE_def)
    show ?thesis using False
      by (subst writei_loop.simps) (auto simp: Let_def quiet_def intro!: wp less.hyps [OF lt] less.prems)
  qed
qed

lemma writei_wp [wp]: "(\<And>r s'. quiet s s' \<Longrightarrow> Q (r, s')) \<Longrightarrow> post (writei devw ip src off s) Q"
  unfolding writei_def Let_def by (auto intro!: wp simp: quiet_def split: option.splits)

lemma find_index_less: "find_index P xs = Some i \<Longrightarrow> i < length xs"
  using find_index_SomeD by blast

lemma iget_wp [wp]:
  assumes "\<And>ip s'. ip < ilen s \<Longrightarrow> ilen s' = ilen s \<Longrightarrow> lks s' = lks s \<Longrightarrow> rfs s' = bump ip 1 (rfs s) \<Longrightarrow> Q (ip, s')"
  shows "post (iget dev inum s) Q"
proof (rule postI, safe)
  fix ip s' assume g: "iget dev inum s = Ok (ip, s')"
  show "Q (ip, s')"
  proof (rule assms)
    show ip: "ip < ilen s" using g by (auto simp: iget_def ilen_def split: option.splits dest: find_index_less)
    show "ilen s' = ilen s" using g by (auto simp: iget_def split: option.splits)
    show "lks s' = lks s" using g by (auto simp: iget_def lks_set_same split: option.splits)
    show "rfs s' = bump ip 1 (rfs s)" using g ip
      by (auto simp: iget_def rfs_set_ino bump_def rfs_def ilen_def split: option.splits dest: find_index_SomeD)
  qed
qed

lemma ialloc_wp [wp]:
  assumes "\<And>ip s'. ip < ilen s \<Longrightarrow> ilen s' = ilen s \<Longrightarrow> lks s' = lks s \<Longrightarrow> rfs s' = bump ip 1 (rfs s) \<Longrightarrow> Q (ip, s')"
  shows "post (ialloc dev ty s) Q"
proof -
  have "post (ialloc_loop dev ty is s) Q" for "is"
  proof (induction "is")
    case (Cons inum "is")
    have "post (iget dev inum (wr b d s)) Q" for b d
      by (rule iget_wp, rule assms) simp_all
    then show ?case using Cons by (simp add: Let_def rd_wp)
  qed simp
  then show ?thesis by (simp add: ialloc_def)
qed

lemma acct_idup: "ip < ilen s \<Longrightarrow> lks (idup ip s) = lks s" "ip < ilen s \<Longrightarrow> rfs (idup ip s) = bump ip 1 (rfs s)" "ilen (idup ip s) = ilen s"
  by (simp_all add: idup_def lks_set_same rfs_set_ino) (simp add: bump_def rfs_def ilen_def)

lemma ilock_wp [wp]:
  assumes "ip < ilen s"
    and "\<And>s'. ip \<notin> lks s \<Longrightarrow> ilen s' = ilen s \<Longrightarrow> lks s' = insert ip (lks s) \<Longrightarrow> rfs s' = rfs s \<Longrightarrow> Q s'"
  shows "post (ilock pid ip s) Q"
proof (rule postI)
  fix s' assume l: "ilock pid ip s = Ok s'"
  show "Q s'"
  proof (rule assms(2))
    show "ip \<notin> lks s" using l by (auto simp: ilock_def acquiresleep_def lks_def split: if_splits)
    show "ilen s' = ilen s" using l by (auto simp: ilock_def Let_def split: if_splits)
    show "lks s' = insert ip (lks s)" using l assms(1) by (auto simp: ilock_def Let_def lks_set_ino load_dinode_def acquiresleep_def split: if_splits)
    show "rfs s' = rfs s" using l assms(1) by (auto simp: ilock_def Let_def rfs_set_ino load_dinode_def rfs_def ilen_def split: if_splits)
  qed
qed

lemma iunlock_wp [wp]:
  assumes "ip < ilen s"
    and "\<And>s'. ip \<in> lks s \<Longrightarrow> ilen s' = ilen s \<Longrightarrow> lks s' = lks s - {ip} \<Longrightarrow> rfs s' = rfs s \<Longrightarrow> Q s'"
  shows "post (iunlock pid ip s) Q"
proof (rule postI)
  fix s' assume l: "iunlock pid ip s = Ok s'"
  then have h: "slk_locked (i_lock (ino s ip))" "s' = set_ino ip ((ino s ip)\<lparr>i_lock := releasesleep (i_lock (ino s ip))\<rparr>) s"
    by (auto simp: iunlock_def holdingsleep_def split: if_splits)
  show "Q s'"
  proof (rule assms(2))
    show "ip \<in> lks s" using h(1) assms(1) by (simp add: lks_def ilen_def)
    show "ilen s' = ilen s" "lks s' = lks s - {ip}" "rfs s' = rfs s"
      using assms(1) by (simp_all add: h(2) lks_set_ino rfs_set_ino releasesleep_def) (simp add: rfs_def ilen_def fun_eq_iff)
  qed
qed

lemma iput_wp [wp]:
  assumes "ip < ilen s"
    and "\<And>s'. ip \<notin> lks s \<Longrightarrow> ilen s' = ilen s \<Longrightarrow> lks s' = lks s \<Longrightarrow> rfs s' = bump ip (- 1) (rfs s) \<Longrightarrow> Q s'"
  shows "post (iput pid ip s) Q"
proof (rule postI)
  fix s' assume p: "iput pid ip s = Ok s'"
  then obtain lk where a: "acquiresleep pid (i_lock (ino s ip)) = Ok lk" by (auto simp: iput_def)
  let ?s1 = "set_ino ip ((ino s ip)\<lparr>i_lock := lk\<rparr>) s"
  have nl: "ip \<notin> lks s" and lk: "slk_locked lk" using a by (auto simp: acquiresleep_def lks_def split: if_splits)
  have 1: "ilen ?s1 = ilen s" "lks ?s1 = insert ip (lks s)" "rfs ?s1 = rfs s"
    using assms(1) lk by (simp_all add: lks_set_ino rfs_set_ino) (simp add: rfs_def ilen_def fun_eq_iff)
  obtain s2 where 2: "(if i_valid (ino ?s1 ip) \<and> i_nlink (ino ?s1 ip) = 0 \<and> i_ref (ino ?s1 ip) = 1
               then and_then (itrunc ip ?s1) (\<lambda>s.
                    and_then (iupdate ip (set_ino ip ((ino s ip)\<lparr>i_type := 0\<rparr>) s)) (\<lambda>s.
                      Ok (set_ino ip ((ino s ip)\<lparr>i_valid := False\<rparr>) s)))
               else Ok ?s1) = Ok s2" (is "?r = _")
    and s': "s' = set_ino ip ((ino s2 ip)\<lparr>i_lock := releasesleep (i_lock (ino s2 ip)), i_ref := i_ref (ino s2 ip) - 1\<rparr>) s2"
    using p a by (auto simp: iput_def Let_def)
  have "post ?r (quiet ?s1)" by (auto intro!: wp simp: quiet_def)
  from postD [OF this 2] have q: "ilen s2 = ilen s" "lks s2 = insert ip (lks s)" "rfs s2 = rfs s"
    using 1 by (simp_all add: quiet_def)
  have "i_ref (ino s2 ip) = rfs s2 ip" using assms(1) q(1) by (simp add: rfs_def ilen_def)
  then have "ilen s' = ilen s" "lks s' = lks s" "rfs s' = bump ip (- 1) (rfs s)"
    using q assms(1) nl by (simp_all add: s' lks_set_ino rfs_set_ino releasesleep_def bump_def)
  then show "Q s'" by (rule assms(2) [OF nl])
qed

lemma iunlockput_wp [wp]:
  assumes "ip < ilen s"
    and "\<And>s'. ip \<in> lks s \<Longrightarrow> ilen s' = ilen s \<Longrightarrow> lks s' = lks s - {ip} \<Longrightarrow> rfs s' = bump ip (- 1) (rfs s) \<Longrightarrow> Q s'"
  shows "post (iunlockput pid ip s) Q"
  unfolding iunlockput_def post_simps
  by (rule iunlock_wp [OF assms(1)], rule iput_wp, use assms(1) in simp, rule assms(2)) simp_all

lemma dirlookup_wp [wp]:
  assumes n: "\<And>s'. quiet s s' \<Longrightarrow> Q (None, s')"
    and f: "\<And>ip off s'. ip < ilen s \<Longrightarrow> ilen s' = ilen s \<Longrightarrow> lks s' = lks s \<Longrightarrow> rfs s' = bump ip 1 (rfs s) \<Longrightarrow> Q (Some (ip, off), s')"
  shows "post (dirlookup devr dp name s) Q"
proof -
  have "quiet s s1 \<Longrightarrow> post (dirlookup_loop devr dp name off sz s1) Q" for off sz s1
  proof (induction "sz - off" arbitrary: off s1 rule: less_induct)
    case less
    show ?case
    proof (cases "off < sz")
      case True
      have IH: "post (dirlookup_loop devr dp name (off + DIRENT_SIZE) sz s2) Q" if "quiet s1 s2" for s2
        using less.hyps [of "off + DIRENT_SIZE" s2] True less.prems that by (simp add: DIRENT_SIZE_def quiet_def)
      have G: "post (iget d i s2) (\<lambda>x. Q (Some (fst x, off), snd x))" if "quiet s1 s2" for d i s2
        by (rule iget_wp, simp, rule f) (use that less.prems in \<open>simp_all add: quiet_def\<close>)
      show ?thesis using True IH G by (subst dirlookup_loop.simps) (auto intro!: readi_wp simp: split_beta)
    next
      case False
      then show ?thesis using n less.prems by (subst dirlookup_loop.simps) simp
    qed
  qed
  then show ?thesis by (simp add: dirlookup_def quiet_def)
qed

lemma empty_dirent_wp [wp]:
  "(\<And>off s'. quiet s s' \<Longrightarrow> Q (off, s')) \<Longrightarrow> post (empty_dirent_loop devr dp off sz s) Q"
proof (induction "sz - off" arbitrary: off s Q rule: less_induct)
  case less
  show ?case
  proof (cases "off < sz")
    case True
    have IH: "post (empty_dirent_loop devr dp (off + DIRENT_SIZE) sz s2) Q" if "quiet s s2" for s2
      by (rule less.hyps) (use True that less.prems in \<open>simp_all add: DIRENT_SIZE_def quiet_def\<close>)
    show ?thesis using True IH less.prems by (subst empty_dirent_loop.simps) (auto intro!: readi_wp)
  next
    case False
    then show ?thesis using less.prems by (subst empty_dirent_loop.simps) (simp add: quiet_def)
  qed
qed

lemma dirlink_wp [wp]: "(\<And>r s'. quiet s s' \<Longrightarrow> Q (r, s')) \<Longrightarrow> post (dirlink devr devw pid dp name inum s) Q"
  unfolding dirlink_def by (auto intro!: wp simp: quiet_def)

lemma namex_loop_wp:
  assumes "ip < ilen s"
    and "\<And>name s'. ilen s' = ilen s \<Longrightarrow> lks s' = lks s \<Longrightarrow> rfs s' = bump ip (- 1) (rfs s) \<Longrightarrow> Q (None, name, s')"
    and "\<And>ip' name s'. ip' < ilen s \<Longrightarrow> ilen s' = ilen s \<Longrightarrow> lks s' = lks s \<Longrightarrow> rfs s' = bump ip' 1 (bump ip (- 1) (rfs s)) \<Longrightarrow>
          Q (Some ip', name, s')"
  shows "post (namex_loop devr pid par path name ip s) Q"
  using assms
proof (induction "length path" arbitrary: par path name ip s rule: less_induct)
  case less
  note none = less.prems(2) and some = less.prems(3)
  show ?case
  proof (cases "skipelem path")
    case None
    then show ?thesis
      by (subst namex_loop.simps) (auto intro!: iput_wp less.prems)
  next
    case (Some np)
    obtain nm rest where e: "skipelem path = Some (nm, rest)" using Some by (cases np) auto
    have lt: "length rest < length path" by (rule length_skipelem [OF e])
    have next_dir: "post (namex_loop devr pid par' rest nm nip s3) Q"
      if "nip < ilen s" "ilen s3 = ilen s" "lks s3 = lks s" "rfs s3 = bump ip (- 1) (bump nip 1 (rfs s))" for par' nip s3
    proof (rule less.hyps [OF lt])
      have b: "bump nip (- 1) (bump ip (- 1) (bump nip 1 (rfs s))) = bump ip (- 1) (rfs s)"
        by (auto simp: bump_def fun_eq_iff)
      show "nip < ilen s3" using that by simp
      show "Q (None, name', s')" if "ilen s' = ilen s3" "lks s' = lks s3" "rfs s' = bump nip (- 1) (rfs s3)" for name' s'
        by (rule none) (use that \<open>ilen s3 = ilen s\<close> \<open>lks s3 = lks s\<close> \<open>rfs s3 = _\<close> b in simp_all)
      show "Q (Some ip', name', s')" if "ip' < ilen s3" "ilen s' = ilen s3" "lks s' = lks s3"
          "rfs s' = bump ip' 1 (bump nip (- 1) (rfs s3))" for ip' name' s'
        by (rule some) (use that \<open>ilen s3 = ilen s\<close> \<open>lks s3 = lks s\<close> \<open>rfs s3 = _\<close> b in simp_all)
    qed
    show ?thesis using less.prems(1)
      by (subst namex_loop.simps)
         (auto simp: e quiet_def intro!: ilock_wp iunlockput_wp iunlock_wp dirlookup_wp none some next_dir)
  qed
qed

lemma namex_wp:
  assumes "cwd < ilen s" and n: "\<And>name s'. quiet s s' \<Longrightarrow> Q (None, name, s')"
    and f: "\<And>ip name s'. ip < ilen s \<Longrightarrow> ilen s' = ilen s \<Longrightarrow> lks s' = lks s \<Longrightarrow> rfs s' = bump ip 1 (rfs s) \<Longrightarrow> Q (Some ip, name, s')"
  shows "post (namex devr pid cwd par path s) Q"
proof -
  have start: "post (namex_loop devr pid par path' [] ip s1) Q"
    if "ip < ilen s" "ilen s1 = ilen s" "lks s1 = lks s" "rfs s1 = bump ip 1 (rfs s)" for path' ip s1
  proof (rule namex_loop_wp)
    show "ip < ilen s1" using that by simp
    show "Q (None, name, s')" if "ilen s' = ilen s1" "lks s' = lks s1" "rfs s' = bump ip (- 1) (rfs s1)" for name s'
      by (rule n) (use that \<open>ilen s1 = ilen s\<close> \<open>lks s1 = lks s\<close> \<open>rfs s1 = _\<close> in \<open>simp add: quiet_def\<close>)
    show "Q (Some ip', name, s')" if "ip' < ilen s1" "ilen s' = ilen s1" "lks s' = lks s1"
        "rfs s' = bump ip' 1 (bump ip (- 1) (rfs s1))" for ip' name s'
      by (rule f) (use that \<open>ilen s1 = ilen s\<close> \<open>lks s1 = lks s\<close> \<open>rfs s1 = _\<close> in simp_all)
  qed
  show ?thesis unfolding namex_def using assms(1)
    by (auto intro!: iget_wp start simp: acct_idup)
qed

lemma namei_wp [wp]:
  assumes "cwd < ilen s" and "\<And>s'. quiet s s' \<Longrightarrow> Q (None, s')"
    and "\<And>ip s'. ip < ilen s \<Longrightarrow> ilen s' = ilen s \<Longrightarrow> lks s' = lks s \<Longrightarrow> rfs s' = bump ip 1 (rfs s) \<Longrightarrow> Q (Some ip, s')"
  shows "post (namei devr pid cwd path s) Q"
  unfolding namei_def by (simp, rule namex_wp) (use assms in auto)

lemmas nameiparent_wp [wp] = namex_wp [where par = True, folded nameiparent_def]

subsection \<open>Accounts of the file table\<close>

text \<open>How many open files use an inode, how many more references the inode has, and the count of each file.\<close>

definition holds :: "nat \<Rightarrow> filerec \<Rightarrow> int" where
  "holds ip f = (if f_ref f > 0 \<and> f_type f = FD_INODE \<and> f_ip f = ip then 1 else 0)"

definition held :: "fstate \<Rightarrow> nat \<Rightarrow> int" where
  "held s ip = (\<Sum>f\<leftarrow>ftable s. holds ip f)"

definition debt :: "fstate \<Rightarrow> nat \<Rightarrow> int" where
  "debt s ip = rfs (ffs s) ip - held s ip"

definition frefs :: "fstate \<Rightarrow> nat \<Rightarrow> int" where
  "frefs s f = (if f < length (ftable s) then f_ref (ftable s ! f) else 0)"

definition ftab_ok :: "fstate \<Rightarrow> bool" where
  "ftab_ok s \<longleftrightarrow> (\<forall>f < length (ftable s). f_ref (ftable s ! f) \<ge> 0
     \<and> (f_ref (ftable s ! f) = 0 \<longrightarrow> f_type (ftable s ! f) = FD_NONE)
     \<and> (f_type (ftable s ! f) = FD_INODE \<longrightarrow> f_ip (ftable s ! f) < ilen (ffs s)))"

definition fsame :: "fstate \<Rightarrow> fstate \<Rightarrow> bool" where
  "fsame s s' \<longleftrightarrow> ftab_ok s' \<and> length (ftable s') = length (ftable s) \<and> ilen (ffs s') = ilen (ffs s) \<and> lks (ffs s') = lks (ffs s)
     \<and> debt s' = debt s \<and> outstanding s' = outstanding s"

lemma sum_list_update_int:
  fixes g :: "'a \<Rightarrow> int"
  shows "i < length xs \<Longrightarrow> (\<Sum>x\<leftarrow>xs[i := y]. g x) = (\<Sum>x\<leftarrow>xs. g x) - g (xs ! i) + g y"
  by (induction xs arbitrary: i) (auto split: nat.splits)

lemma set_file_simps [simp]:
  "ffs (set_file f x s) = ffs s" "outstanding (set_file f x s) = outstanding s" "fpipes (set_file f x s) = fpipes s"
  "length (ftable (set_file f x s)) = length (ftable s)"
  by (simp_all add: set_file_def)

lemma ftable_set_file: "f < length (ftable s) \<Longrightarrow> ftable (set_file f x s) ! g = (if g = f then x else ftable s ! g)"
  by (simp add: set_file_def nth_list_update)

lemma held_set_file: "f < length (ftable s) \<Longrightarrow> held (set_file f x s) ip = held s ip - holds ip (ftable s ! f) + holds ip x"
  by (simp add: held_def set_file_def sum_list_update_int)

lemma frefs_set_file: "f < length (ftable s) \<Longrightarrow> frefs (set_file f x s) = (frefs s)(f := f_ref x)"
  by (auto simp: frefs_def ftable_set_file fun_eq_iff)

lemma other_simps [simp]:
  "held (s\<lparr>ffs := x\<rparr>) = held s" "held (s\<lparr>outstanding := n\<rparr>) = held s" "held (s\<lparr>fpipes := p\<rparr>) = held s"
  "frefs (s\<lparr>ffs := x\<rparr>) = frefs s" "frefs (s\<lparr>outstanding := n\<rparr>) = frefs s" "frefs (s\<lparr>fpipes := p\<rparr>) = frefs s"
  "ftab_ok (s\<lparr>outstanding := n\<rparr>) = ftab_ok s" "ftab_ok (s\<lparr>fpipes := p\<rparr>) = ftab_ok s"
  "debt (s\<lparr>outstanding := n\<rparr>) = debt s" "debt (s\<lparr>fpipes := p\<rparr>) = debt s"
  by (simp_all add: held_def frefs_def ftab_ok_def debt_def fun_eq_iff)

lemma ftab_ok_ffs: "ilen x = ilen (ffs s) \<Longrightarrow> ftab_ok (s\<lparr>ffs := x\<rparr>) = ftab_ok s"
  by (simp add: ftab_ok_def)

lemma fop_simps [simp]:
  "ffs (begin_fop s) = ffs s" "ftable (begin_fop s) = ftable s" "held (begin_fop s) = held s" "frefs (begin_fop s) = frefs s"
  "ftab_ok (begin_fop s) = ftab_ok s" "outstanding (begin_fop s) = outstanding s + 1" "debt (begin_fop s) = debt s"
  "ffs (end_fop s) = ffs s" "ftable (end_fop s) = ftable s" "held (end_fop s) = held s" "frefs (end_fop s) = frefs s"
  "ftab_ok (end_fop s) = ftab_ok s" "outstanding (end_fop s) = outstanding s - 1" "debt (end_fop s) = debt s"
  by (simp_all add: begin_fop_def end_fop_def)

lemma post_on_fs [simp]: "post (on_fs g s) Q = post (g (ffs s)) (\<lambda>x. Q (s\<lparr>ffs := x\<rparr>))"
  by (simp add: on_fs_def)

lemma fsame_ffs:
  "ftab_ok s \<Longrightarrow> ilen x = ilen (ffs s) \<Longrightarrow> lks x = lks (ffs s) \<Longrightarrow> rfs x = rfs (ffs s) \<Longrightarrow> fsame s (s\<lparr>ffs := x\<rparr>)"
  by (simp add: fsame_def ftab_ok_ffs debt_def fun_eq_iff)

lemma ftab_ok_set_file:
  assumes "ftab_ok s" "f_ref x \<ge> 0" "f_ref x = 0 \<Longrightarrow> f_type x = FD_NONE" "f_type x = FD_INODE \<Longrightarrow> f_ip x < ilen (ffs s)"
  shows "ftab_ok (set_file f x s)"
proof (cases "f < length (ftable s)")
  case True
  then show ?thesis using assms by (auto simp: ftab_ok_def ftable_set_file)
next
  case False
  then show ?thesis using assms(1) by (simp add: ftab_ok_def set_file_def not_less)
qed

lemma filealloc_cases:
  assumes ok: "ftab_ok s"
  obtains (none) "filealloc s = (None, s)"
    | (some) f s' where "filealloc s = (Some f, s')" "f < length (ftable s)" "frefs s f = 0" "fsame s s'"
        "frefs s' = bump f 1 (frefs s)" "f_type (ftable s' ! f) = FD_NONE" "f_ref (ftable s' ! f) = 1"
        "\<And>g. g \<noteq> f \<Longrightarrow> ftable s' ! g = ftable s ! g" "fpipes s' = fpipes s" "ffs s' = ffs s"
proof (cases "find_index (\<lambda>f. f_ref f = 0) (ftable s)")
  case None
  then show ?thesis using none by (simp add: filealloc_def)
next
  case (Some f)
  have f: "f < length (ftable s)" "f_ref (ftable s ! f) = 0" using find_index_SomeD [OF Some] by auto
  let ?x = "(ftable s ! f)\<lparr>f_ref := 1\<rparr>"
  let ?s = "set_file f ?x s"
  have t: "f_type (ftable s ! f) = FD_NONE" using ok f by (simp add: ftab_ok_def)
  have r: "frefs s f = 0" using f by (simp add: frefs_def)
  have "held ?s = held s" using f t by (simp add: held_set_file fun_eq_iff holds_def)
  then have "fsame s ?s" using ftab_ok_set_file [OF ok, of ?x f] t by (simp add: fsame_def debt_def fun_eq_iff)
  moreover have "frefs ?s = bump f 1 (frefs s)" using f r by (simp add: frefs_set_file bump_def)
  ultimately show ?thesis using some [of f ?s] Some f t r by (simp add: filealloc_def ftable_set_file)
qed

lemma fsame_refl: "ftab_ok s \<Longrightarrow> fsame s s"
  by (simp add: fsame_def)

lemma fsame_trans: "fsame s s1 \<Longrightarrow> fsame s1 s2 \<Longrightarrow> fsame s s2"
  by (simp add: fsame_def)

lemma fsameD: "fsame s s' \<Longrightarrow> ftab_ok s'" "fsame s s' \<Longrightarrow> length (ftable s') = length (ftable s)"
  "fsame s s' \<Longrightarrow> ilen (ffs s') = ilen (ffs s)"
  by (simp_all add: fsame_def)

text \<open>A file that keeps its inode and stays open.\<close>

lemma fsame_set_file:
  assumes ok: "ftab_ok s" and f: "f < length (ftable s)" and r: "f_ref (ftable s ! f) > 0" "f_ref x > 0"
    and t: "f_type x = f_type (ftable s ! f)" "f_ip x = f_ip (ftable s ! f)"
  shows "fsame s (set_file f x s)"
proof -
  have "holds ip x = holds ip (ftable s ! f)" for ip using r t by (simp add: holds_def)
  then have "held (set_file f x s) = held s" using f by (simp add: held_set_file fun_eq_iff)
  moreover have "ftab_ok (set_file f x s)" by (rule ftab_ok_set_file [OF ok]) (use ok f r t in \<open>auto simp: ftab_ok_def\<close>)
  ultimately show ?thesis by (simp add: fsame_def debt_def fun_eq_iff)
qed

lemma filedup_wp [wp]:
  assumes ok: "ftab_ok s" and f: "f < length (ftable s)"
    and Q: "\<And>s'. fsame s s' \<Longrightarrow> frefs s' = bump f 1 (frefs s) \<Longrightarrow> Q s'"
  shows "post (filedup f s) Q"
proof (cases "f_ref (ftable s ! f) < 1")
  case False
  let ?s = "set_file f ((ftable s ! f)\<lparr>f_ref := f_ref (ftable s ! f) + 1\<rparr>) s"
  have "fsame s ?s" by (rule fsame_set_file [OF ok f]) (use False in simp_all)
  moreover have "frefs ?s = bump f 1 (frefs s)" unfolding frefs_set_file [OF f] using f by (simp add: bump_def frefs_def)
  ultimately show ?thesis using Q False by (simp add: filedup_def)
qed (simp add: filedup_def)

lemma fileclose_wp [wp]:
  assumes ok: "ftab_ok s" and f: "f < length (ftable s)"
    and Q: "\<And>s'. fsame s s' \<Longrightarrow> frefs s' = bump f (- 1) (frefs s) \<Longrightarrow> Q s'"
  shows "post (fileclose pid f s) Q"
proof -
  let ?ff = "ftable s ! f"
  have fr: "frefs s f = f_ref ?ff" using f by (simp add: frefs_def)
  consider (bad) "f_ref ?ff < 1" | (more) "f_ref ?ff > 1" | (last) "f_ref ?ff = 1" by linarith
  then show ?thesis
  proof cases
    case bad
    then show ?thesis by (simp add: fileclose_def Let_def)
  next
    case more
    let ?s = "set_file f (?ff\<lparr>f_ref := f_ref ?ff - 1\<rparr>) s"
    have "fsame s ?s" by (rule fsame_set_file [OF ok f]) (use more in simp_all)
    moreover have "frefs ?s = bump f (- 1) (frefs s)" unfolding frefs_set_file [OF f] using fr by (simp add: bump_def)
    ultimately show ?thesis using Q more by (simp add: fileclose_def Let_def)
  next
    case last
    let ?s = "set_file f (?ff\<lparr>f_ref := 0, f_type := FD_NONE\<rparr>) s"
    have ok1: "ftab_ok ?s" by (rule ftab_ok_set_file [OF ok]) simp_all
    have fr1: "frefs ?s = bump f (- 1) (frefs s)" unfolding frefs_set_file [OF f] using fr last by (simp add: bump_def)
    have h1: "held ?s ip = held s ip - (if f_type ?ff = FD_INODE \<and> f_ip ?ff = ip then 1 else 0)" for ip
      using last by (simp add: held_set_file [OF f] holds_def)
    show ?thesis
    proof (cases "f_type ?ff")
      case FD_NONE
      have "fsame s ?s" using ok1 h1 FD_NONE by (simp add: fsame_def debt_def fun_eq_iff)
      then show ?thesis using last Q fr1 FD_NONE by (simp add: fileclose_def Let_def)
    next
      case FD_PIPE
      have "fsame s ?s" using ok1 h1 FD_PIPE by (simp add: fsame_def debt_def fun_eq_iff)
      then have "Q (?s\<lparr>fpipes := p\<rparr>)" for p by (intro Q) (simp_all add: fsame_def fr1)
      then show ?thesis using last FD_PIPE
        by (auto simp: fileclose_def Let_def pipe_release_def split: option.splits prod.splits)
    next
      case FD_INODE
      have ip: "f_ip ?ff < ilen (ffs s)" using ok f FD_INODE by (simp add: ftab_ok_def)
      have "Q (end_fop (begin_fop ?s\<lparr>ffs := x\<rparr>))"
        if "ilen x = ilen (ffs s)" "lks x = lks (ffs s)" "rfs x = bump (f_ip ?ff) (- 1) (rfs (ffs s))" for x
      proof (rule Q)
        have "debt (begin_fop ?s\<lparr>ffs := x\<rparr>) = debt s" using that h1 FD_INODE by (auto simp: debt_def bump_def fun_eq_iff)
        then show "fsame s (end_fop (begin_fop ?s\<lparr>ffs := x\<rparr>))" using that ok1 by (simp add: fsame_def ftab_ok_ffs)
      qed (simp add: fr1)
      then show ?thesis using last FD_INODE ip by (auto simp: fileclose_def Let_def intro!: iput_wp)
    qed
  qed
qed

lemma open_inode:
  assumes "ftab_ok s" "f < length (ftable s)" "f_type (ftable s ! f) = FD_INODE"
  shows "f_ip (ftable s ! f) < ilen (ffs s)" "f_ref (ftable s ! f) > 0"
proof -
  show "f_ip (ftable s ! f) < ilen (ffs s)" using assms by (simp add: ftab_ok_def)
  have "f_ref (ftable s ! f) \<ge> 0" "f_ref (ftable s ! f) \<noteq> 0" using assms by (auto simp: ftab_ok_def)
  then show "f_ref (ftable s ! f) > 0" by simp
qed

lemma advance_simps [simp]:
  "ffs (advance f r s) = ffs s" "outstanding (advance f r s) = outstanding s" "fpipes (advance f r s) = fpipes s"
  "length (ftable (advance f r s)) = length (ftable s)" "(advance f r s)\<lparr>ffs := x\<rparr> = advance f r (s\<lparr>ffs := x\<rparr>)"
  "advance f r (begin_fop s) = begin_fop (advance f r s)" "(begin_fop s)\<lparr>ffs := x\<rparr> = begin_fop (s\<lparr>ffs := x\<rparr>)"
  by (simp_all add: advance_def set_file_def begin_fop_def)

lemma advance_fsame:
  assumes ok: "ftab_ok s" and f: "f < length (ftable s)" "f_type (ftable s ! f) = FD_INODE"
  shows "fsame s (advance f r s)" "frefs (advance f r s) = frefs s"
proof -
  show "fsame s (advance f r s)" using fsame_set_file [OF ok f(1) open_inode(2) [OF ok f]] fsame_refl [OF ok] open_inode(2) [OF ok f]
    by (simp add: advance_def)
  show "frefs (advance f r s) = frefs s" using f(1) by (simp add: advance_def frefs_set_file) (simp add: frefs_def fun_eq_iff)
qed

lemma advance_type: "f < length (ftable s) \<Longrightarrow> f_type (ftable (advance f r s) ! f) = f_type (ftable s ! f)"
  by (simp add: advance_def ftable_set_file)

lemma advanced:
  assumes ok: "ftab_ok s" and f: "f < length (ftable s)" "f_type (ftable s ! f) = FD_INODE"
    and x: "ilen x = ilen (ffs s)" "lks x = lks (ffs s)" "rfs x = rfs (ffs s)"
  shows "fsame s (advance f r (s\<lparr>ffs := x\<rparr>))" "frefs (advance f r (s\<lparr>ffs := x\<rparr>)) = frefs s"
proof -
  note a = fsame_ffs [OF ok x]
  show "fsame s (advance f r (s\<lparr>ffs := x\<rparr>))" "frefs (advance f r (s\<lparr>ffs := x\<rparr>)) = frefs s"
    using fsame_trans [OF a advance_fsame(1)] advance_fsame(2) [of "s\<lparr>ffs := x\<rparr>" f r] fsameD(1) [OF a] f by simp_all
qed

lemma fileread_wp [wp]:
  assumes ok: "ftab_ok s" and f: "f < length (ftable s)"
    and Q: "\<And>r bs s'. fsame s s' \<Longrightarrow> frefs s' = frefs s \<Longrightarrow> Q (r, bs, s')"
  shows "post (fileread devr pid killed f n s) Q"
proof (cases "f_readable (ftable s ! f) \<and> f_type (ftable s ! f) = FD_INODE")
  case True
  note I = open_inode [OF ok f conjunct2 [OF True]]
  show ?thesis using True I(1) f
    by (auto simp: fileread_def Let_def quiet_def intro!: ilock_wp readi_wp iunlock_wp Q advanced [OF ok])
next
  case False
  have "Q (r, bs, s\<lparr>fpipes := p\<rparr>)" for r bs p by (rule Q) (use fsame_refl [OF ok] in \<open>simp_all add: fsame_def\<close>)
  then show ?thesis using False Q fsame_refl [OF ok]
    by (auto simp: fileread_def Let_def split: ftype.splits option.splits prod.splits)
qed

lemma filestat_wp [wp]:
  assumes ok: "ftab_ok s" and f: "f < length (ftable s)"
    and Q: "\<And>r st s'. fsame s s' \<Longrightarrow> frefs s' = frefs s \<Longrightarrow> Q (r, st, s')"
  shows "post (filestat pid f s) Q"
proof (cases "f_type (ftable s ! f) = FD_INODE")
  case True
  then show ?thesis using open_inode [OF ok f True]
    by (auto simp: filestat_def Let_def intro!: ilock_wp iunlock_wp Q fsame_ffs [OF ok])
next
  case False
  then show ?thesis using Q fsame_refl [OF ok] by (simp add: filestat_def Let_def)
qed

lemma filewrite_loop_wp:
  assumes "ftab_ok s" "f < length (ftable s)" "f_type (ftable s ! f) = FD_INODE"
    and "\<And>b s'. fsame s s' \<Longrightarrow> frefs s' = frefs s \<Longrightarrow> Q (b, s')"
  shows "post (filewrite_loop devw pid f src s) Q"
  using assms
proof (induction "length src" arbitrary: src s rule: less_induct)
  case less
  note ok = less.prems(1) and f = less.prems(2,3)
  show ?case
  proof (cases "src = []")
    case True
    then show ?thesis using less.prems(4) fsame_refl [OF ok] by (subst filewrite_loop.simps) simp
  next
    case False
    have lt: "length (drop (min (length src) write_max) src) < length src"
      using False by (auto simp: write_max_def MAXOPBLOCKS_def)
    have sm: "fsame s (end_fop (begin_fop (advance f r (s\<lparr>ffs := x\<rparr>))))" "frefs (advance f r (s\<lparr>ffs := x\<rparr>)) = frefs s"
      if "ilen x = ilen (ffs s)" "lks x = lks (ffs s)" "rfs x = rfs (ffs s)" for r x
      using advanced [OF ok f that, of r] by (simp_all add: fsame_def) 
    have again: "post (filewrite_loop devw pid f (drop (min (length src) write_max) src) (end_fop (begin_fop (advance f r (s\<lparr>ffs := x\<rparr>))))) Q"
      if x: "ilen x = ilen (ffs s)" "lks x = lks (ffs s)" "rfs x = rfs (ffs s)" for r x
    proof (rule less.hyps [OF lt])
      show "ftab_ok (end_fop (begin_fop (advance f r (s\<lparr>ffs := x\<rparr>))))" by (rule fsameD(1) [OF sm(1) [OF x]])
      show "Q (b, s')" if "fsame (end_fop (begin_fop (advance f r (s\<lparr>ffs := x\<rparr>)))) s'"
          "frefs s' = frefs (end_fop (begin_fop (advance f r (s\<lparr>ffs := x\<rparr>))))" for b s'
        by (rule less.prems(4)) (use that fsame_trans [OF sm(1) [OF x]] sm(2) [OF x] in simp_all)
    qed (use f in \<open>simp_all add: advance_type\<close>)
    show ?thesis using False open_inode(1) [OF ok f]
      by (subst filewrite_loop.simps)
         (auto simp: Let_def quiet_def intro!: ilock_wp writei_wp iunlock_wp less.prems(4) sm again)
  qed
qed

lemma filewrite_wp [wp]:
  assumes ok: "ftab_ok s" and f: "f < length (ftable s)"
    and Q: "\<And>r bs s'. fsame s s' \<Longrightarrow> frefs s' = frefs s \<Longrightarrow> Q (r, bs, s')"
  shows "post (filewrite devw pid killed f src s) Q"
proof (cases "f_writable (ftable s ! f) \<and> f_type (ftable s ! f) = FD_INODE")
  case True
  then show ?thesis by (auto simp: filewrite_def Let_def intro!: filewrite_loop_wp [OF ok f] Q)
next
  case False
  have "Q (r, bs, s\<lparr>fpipes := p\<rparr>)" for r bs p by (rule Q) (use fsame_refl [OF ok] in \<open>simp_all add: fsame_def\<close>)
  then show ?thesis using False Q fsame_refl [OF ok]
    by (auto simp: filewrite_def Let_def split: ftype.splits option.splits prod.splits)
qed

text \<open>A file that held no inode becomes a pipe end.\<close>

lemma fsame_no_inode:
  assumes ok: "ftab_ok s" and f: "f < length (ftable s)" and t: "f_type (ftable s ! f) \<noteq> FD_INODE" "f_type x \<noteq> FD_INODE"
    and r: "f_ref x = f_ref (ftable s ! f)" "f_ref x > 0"
  shows "fsame s (set_file f x s)" "frefs (set_file f x s) = frefs s"
proof -
  have "held (set_file f x s) = held s" using t by (simp add: held_set_file [OF f] fun_eq_iff holds_def)
  moreover have "ftab_ok (set_file f x s)" by (rule ftab_ok_set_file [OF ok]) (use r t in auto)
  ultimately show "fsame s (set_file f x s)" by (simp add: fsame_def debt_def fun_eq_iff)
  show "frefs (set_file f x s) = frefs s" using f r by (simp add: frefs_set_file) (simp add: frefs_def fun_eq_iff)
qed

lemma pipealloc_wp [wp]:
  assumes ok: "ftab_ok s"
    and n: "\<And>s'. fsame s s' \<Longrightarrow> frefs s' = frefs s \<Longrightarrow> Q (None, s')"
    and p: "\<And>f0 f1 s'. f0 < length (ftable s) \<Longrightarrow> f1 < length (ftable s) \<Longrightarrow> f0 \<noteq> f1 \<Longrightarrow> frefs s f0 = 0 \<Longrightarrow> frefs s f1 = 0 \<Longrightarrow>
       fsame s s' \<Longrightarrow> frefs s' = bump f1 1 (bump f0 1 (frefs s)) \<Longrightarrow> Q (Some (f0, f1), s')"
  shows "post (pipealloc pid page s) Q"
  using ok
proof (cases rule: filealloc_cases)
  case none
  then show ?thesis using n fsame_refl [OF ok] by (simp add: pipealloc_def)
next
  case (some f0 s1)
  note A = some
  note ok1 = fsameD(1) [OF A(4)] and len1 = fsameD(2) [OF A(4)]
  show ?thesis using ok1
  proof (cases rule: filealloc_cases)
    case none
    then show ?thesis using A len1
      by (auto simp: pipealloc_def intro!: fileclose_wp [OF ok1] n intro: fsame_trans)
  next
    case (some f1 s2)
    note B = some
    note ok2 = fsameD(1) [OF B(4)] and len2 = fsameD(2) [OF B(4)]
    have ne: "f0 \<noteq> f1" using A(5) B(3) by (auto simp: bump_def A(3))
    have s2: "fsame s s2" "frefs s2 = bump f1 1 (bump f0 1 (frefs s))" using A(4,5) B(4,5) fsame_trans by auto
    show ?thesis
    proof (cases page)
      case None
      have "bump f1 (- 1) (bump f0 (- 1) (frefs s2)) = frefs s" unfolding s2(2) by (auto simp: bump_def fun_eq_iff)
      moreover have "length (ftable s3) = length (ftable s2)" "ftab_ok s3" if "fsame s2 s3" for s3
        using fsameD(1,2) [OF that] by auto
      ultimately show ?thesis using A B None len1 len2 s2(1)
        by (auto simp: pipealloc_def intro!: fileclose_wp [OF ok2] fileclose_wp n intro: fsame_trans)
    next
      case (Some bs)
      let ?p = "length (fpipes s2)"
      let ?s3 = "s2\<lparr>fpipes := fpipes s2 @ [Some (pipe_init bs)]\<rparr>"
      let ?s4 = "set_file f0 ((ftable ?s3 ! f0)\<lparr>f_type := FD_PIPE, f_readable := True, f_writable := False, f_pipe := ?p\<rparr>) ?s3"
      let ?s5 = "set_file f1 ((ftable ?s4 ! f1)\<lparr>f_type := FD_PIPE, f_readable := False, f_writable := True, f_pipe := ?p\<rparr>) ?s4"
      have f0: "f_type (ftable s2 ! f0) = FD_NONE" "f_ref (ftable s2 ! f0) = 1" using A(6,7) B(8) [OF ne] by simp_all
      have 3: "fsame s ?s3" "frefs ?s3 = frefs s2" using s2(1) by (simp_all add: fsame_def)
      have 4: "fsame ?s3 ?s4" "frefs ?s4 = frefs ?s3"
        by (rule fsame_no_inode; use ok2 A(2) len1 len2 f0 in simp)+
      have 5: "fsame ?s4 ?s5" "frefs ?s5 = frefs ?s4"
        by (rule fsame_no_inode; use 4 A(2) B(2,6,7) len1 len2 ne fsameD(1) [OF 4(1)] in \<open>simp add: ftable_set_file\<close>)+
      have "Q (Some (f0, f1), ?s5)"
      proof (rule p [OF A(2) _ ne A(3)])
        show "f1 < length (ftable s)" using B(2) len1 by simp
        show "frefs s f1 = 0" using A(5) B(3) ne by (simp add: bump_def)
        show "fsame s ?s5" by (rule fsame_trans [OF fsame_trans [OF 3(1) 4(1)] 5(1)])
        show "frefs ?s5 = bump f1 1 (bump f0 1 (frefs s))" using 3(2) 4(2) 5(2) s2(2) by simp
      qed
      then show ?thesis using A(1) B(1) Some by (simp add: pipealloc_def Let_def)
    qed
  qed
qed

subsection \<open>Writing a file\<close>

definition with_lock :: "nat \<Rightarrow> sleeplock \<Rightarrow> fsys \<Rightarrow> fsys" where
  "with_lock ip lk s = set_ino ip ((ino s ip)\<lparr>i_lock := lk\<rparr>) s"

lemma ino_with_lock: "ip < length (icache s) \<Longrightarrow> ino (with_lock ip lk s) ip = (ino s ip)\<lparr>i_lock := lk\<rparr>"
  by (simp add: with_lock_def ino_set_ino)

lemma with_lock_view:
  assumes "ip < length (icache s)"
  shows "fs_ok (with_lock ip lk s) = fs_ok s" "fsb (with_lock ip lk s) = fsb s" "faddr (with_lock ip lk s) ip bn = faddr s ip bn"
    "fbyte (with_lock ip lk s) ip p = fbyte s ip p" "inode_ok (with_lock ip lk s) ip = inode_ok s ip"
proof -
  let ?s = "with_lock ip lk s"
  note i = ino_with_lock [OF assms, of lk]
  have v: "fblocks ?s = fblocks s" "fsb ?s = fsb s" "used ?s = used s" "length (icache ?s) = length (icache s)" by (simp_all add: with_lock_def)
  show "fs_ok ?s = fs_ok s" "fsb ?s = fsb s" by (simp_all add: with_lock_def)
  show fa: "faddr ?s ip bn = faddr s ip bn" for bn using i v by (simp add: faddr_def)
  show "fbyte ?s ip p = fbyte s ip p" using v by (simp add: fbyte_def fa)
  have ib: "ind_blk ?s ip = ind_blk s ip" using i by (simp add: ind_blk_def)
  have ow: "owned ?s ip = owned s ip" by (simp add: owned_def fa ib fun_eq_iff)
  show "inode_ok ?s ip = inode_ok s ip" using i v by (simp add: inode_ok_def ow fa ib)
qed

lemma ilock_with_lock:
  assumes "i_valid (ino s ip)" "ilock pid ip s = Ok s'"
  shows "\<exists>lk. s' = with_lock ip lk s"
  using assms by (auto simp: ilock_def Let_def with_lock_def split: if_splits)

lemma iunlock_with_lock: "iunlock pid ip s = Ok s' \<Longrightarrow> \<exists>lk. s' = with_lock ip lk s"
  by (auto simp: iunlock_def with_lock_def split: if_splits)

text \<open>A regular file ready to be written at its offset, up to the size limit.\<close>

definition writable_at :: "nat \<Rightarrow> nat \<Rightarrow> fstate \<Rightarrow> bool" where
  "writable_at f n s \<longleftrightarrow> (let ff = ftable s ! f; ip = f_ip ff; x = ffs s in
     f < length (ftable s) \<and> fs_ok x \<and> inode_ok x ip \<and> i_inum (ino x ip) < sb_ninodes (fsb x) \<and> i_type (ino x ip) \<noteq> T_DEV
     \<and> i_valid (ino x ip) \<and> f_off ff \<le> i_size (ino x ip) \<and> f_off ff + n \<le> MAXFILE * BSIZE)"

text \<open>The file \<open>f\<close> after \<open>src\<close> was written at its offset.\<close>

definition wrote :: "nat \<Rightarrow> byte list \<Rightarrow> fstate \<Rightarrow> fstate \<Rightarrow> bool" where
  "wrote f src s s' \<longleftrightarrow> (let ff = ftable s ! f; ip = f_ip ff; off = f_off ff in
     ftable s' = (ftable s)[f := ff\<lparr>f_off := off + length src\<rparr>]
     \<and> i_size (ino (ffs s') ip) = max (i_size (ino (ffs s) ip)) (off + length src)
     \<and> (\<forall>p < MAXFILE * BSIZE. fbyte (ffs s') ip p = overlay off src (fbyte (ffs s) ip) p))"

lemma overlay_overlay: "overlay (off + length a) b (overlay off a g) = overlay off (a @ b) g"
  by (auto simp: overlay_def fun_eq_iff nth_append)

lemma wrote_trans:
  assumes "f < length (ftable s)" "wrote f a s s1" "wrote f b s1 s2"
  shows "wrote f (a @ b) s s2"
proof -
  let ?ip = "f_ip (ftable s ! f)" and ?off = "f_off (ftable s ! f)"
  have f1: "ftable s1 = (ftable s)[f := (ftable s ! f)\<lparr>f_off := ?off + length a\<rparr>]" using assms(2) by (simp add: wrote_def Let_def)
  then have e: "f_ip (ftable s1 ! f) = ?ip" "f_off (ftable s1 ! f) = ?off + length a" using assms(1) by simp_all
  have "fbyte (ffs s2) ?ip p = overlay ?off (a @ b) (fbyte (ffs s) ?ip) p" if "p < MAXFILE * BSIZE" for p
  proof -
    have "fbyte (ffs s2) ?ip p = overlay (?off + length a) b (fbyte (ffs s1) ?ip) p"
      using assms(3) that by (simp add: wrote_def Let_def e)
    also have "\<dots> = overlay (?off + length a) b (overlay ?off a (fbyte (ffs s) ?ip)) p"
      using assms(2) that by (simp add: wrote_def Let_def overlay_def)
    finally show ?thesis by (simp add: overlay_overlay)
  qed
  then show ?thesis using assms(1) assms(2,3) e f1 by (simp add: wrote_def Let_def add.assoc)
qed

lemma chunk_written:
  assumes w: "writable_at f (length src) s" and ne: "src \<noteq> []"
    and l: "ilock pid (f_ip (ftable s ! f)) (ffs s) = Ok x1"
    and wi: "writei devw (f_ip (ftable s ! f)) (take n1 src) (f_off (ftable s ! f)) x1 = Ok (r, x2)"
    and u: "iunlock pid (f_ip (ftable s ! f)) x2 = Ok x3" and n1: "n1 = min (length src) write_max"
    and s': "s' = end_fop (begin_fop (advance f r (s\<lparr>ffs := x3\<rparr>)))"
  shows "r = int n1" "writable_at f (length (drop n1 src)) s'" "wrote f (take n1 src) s s'"
proof -
  let ?ff = "ftable s ! f"
  let ?ip = "f_ip ?ff" and ?off = "f_off ?ff"
  have W: "f < length (ftable s)" "fs_ok (ffs s)" "inode_ok (ffs s) ?ip" "i_inum (ino (ffs s) ?ip) < sb_ninodes (fsb (ffs s))"
    "i_type (ino (ffs s) ?ip) \<noteq> T_DEV" "i_valid (ino (ffs s) ?ip)" "?off \<le> i_size (ino (ffs s) ?ip)" "?off + length src \<le> MAXFILE * BSIZE"
    using w by (simp_all add: writable_at_def Let_def)
  obtain lk where x1: "x1 = with_lock ?ip lk (ffs s)" using ilock_with_lock [OF W(6) l] by blast
  have ip: "?ip < length (icache (ffs s))" by (rule inode_okD(1) [OF W(3)])
  note V1 = with_lock_view [OF ip, of lk] and i1 = ino_with_lock [OF ip, of lk]
  have len: "length (take n1 src) = n1" using n1 by simp
  have fits: "?off + length (take n1 src) \<le> MAXFILE * BSIZE" using W(8) by simp
  have R: "r = int (length (take n1 src)) \<and> fs_ok x2 \<and> inode_ok x2 ?ip \<and> fsb x2 = fsb x1
    \<and> i_size (ino x2 ?ip) = max (i_size (ino x1 ?ip)) (?off + length (take n1 src))
    \<and> i_type (ino x2 ?ip) = i_type (ino x1 ?ip) \<and> i_inum (ino x2 ?ip) = i_inum (ino x1 ?ip) \<and> i_dev (ino x2 ?ip) = i_dev (ino x1 ?ip)
    \<and> i_valid (ino x2 ?ip) = i_valid (ino x1 ?ip)
    \<and> (\<forall>p < MAXFILE * BSIZE. fbyte x2 ?ip p = overlay ?off (take n1 src) (fbyte x1 ?ip) p)"
    using writei_Ok [of x1 ?ip ?off "take n1 src" devw r x2] W V1 i1 fits wi x1 by fastforce
  obtain lk' where x3: "x3 = with_lock ?ip lk' x2" using iunlock_with_lock [OF u] by blast
  have ip2: "?ip < length (icache x2)" using R inode_okD(1) by blast
  note V3 = with_lock_view [OF ip2, of lk'] and i3 = ino_with_lock [OF ip2, of lk']
  show r: "r = int n1" using R len by simp
  have pos: "0 < n1" using ne n1 by (simp add: write_max_def MAXOPBLOCKS_def)
  have "MAXFILE * BSIZE < 2 ^ 32" by (simp add: MAXFILE_def NDIRECT_def NINDIRECT_def BSIZE_def)
  then have md: "(?off + n1) mod 2 ^ 32 = ?off + n1" using fits len by simp
  have ft: "ftable s' = (ftable s)[f := ?ff\<lparr>f_off := ?off + n1\<rparr>]"
    unfolding s' advance_def using r pos md by (simp add: set_file_def)
  have fs': "ffs s' = x3" by (simp add: s')
  show "wrote f (take n1 src) s s'"
    unfolding wrote_def Let_def ft fs' len using R V1(4) V3(4) i1 i3 x1 x3 len by (simp add: overlay_def)
  have "n1 \<le> length src" using n1 by simp
  then show "writable_at f (length (drop n1 src)) s'"
    unfolding writable_at_def Let_def fs' using W(1) ft R V1 V3 i1 i3 W x1 x3 len by simp
qed

text \<open>C11: A file write goes through.  A write to a regular file that fits below the size limit is split into transactions of
  1536 bytes; when the call returns, it returns the number of bytes, the file contains exactly
  the given bytes from the old offset on and its old bytes elsewhere, its size is the larger of the old size and the
  new offset, and the offset has moved by the number of bytes, as if it had been written in one piece.\<close>

theorem filewrite_writes:
  assumes "writable_at f (length src) s" "f_writable (ftable s ! f)" "f_type (ftable s ! f) = FD_INODE"
    and "filewrite devw pid killed f src s = Ok (r, rest, s')"
  shows "r = Some (int (length src)) \<and> wrote f src s s'"
proof -
  have loop: "b \<and> wrote f src s s'" if "writable_at f (length src) s" "filewrite_loop devw pid f src s = Ok (b, s')" for b s s' src
    using that
  proof (induction "length src" arbitrary: src s rule: less_induct)
    case less
    show ?case
    proof (cases "src = []")
      case True
      have "f < length (ftable s)" "f_off (ftable s ! f) \<le> i_size (ino (ffs s) (f_ip (ftable s ! f)))"
        using less.prems(1) by (simp_all add: writable_at_def Let_def)
      then have "wrote f [] s s" by (auto simp: wrote_def Let_def overlay_def max_def)
      then show ?thesis using less.prems(2) True unfolding filewrite_loop.simps [of devw pid f src s] by simp
    next
      case False
      define n1 where "n1 = min (length src) write_max"
      obtain x1 r x2 x3 where 1: "ilock pid (f_ip (ftable s ! f)) (ffs s) = Ok x1"
        and 2: "writei devw (f_ip (ftable s ! f)) (take n1 src) (f_off (ftable s ! f)) x1 = Ok (r, x2)"
        and 3: "iunlock pid (f_ip (ftable s ! f)) x2 = Ok x3"
        and 4: "r < 0 \<or> filewrite_loop devw pid f (drop n1 src) (end_fop (begin_fop (advance f r (s\<lparr>ffs := x3\<rparr>)))) = Ok (b, s')"
        using less.prems(2) False unfolding filewrite_loop.simps [of devw pid f src s] by (fastforce simp: on_fs_def Let_def n1_def split: if_splits)
      note C = chunk_written [OF less.prems(1) False 1 2 3 n1_def refl]
      have lt: "length (drop n1 src) < length src" using False by (auto simp: n1_def write_max_def MAXOPBLOCKS_def)
      have "b \<and> wrote f (drop n1 src) (end_fop (begin_fop (advance f r (s\<lparr>ffs := x3\<rparr>)))) s'"
        by (rule less.hyps [OF lt C(2)]) (use 4 C(1) in simp)
      moreover have "f < length (ftable s)" using less.prems(1) by (simp add: writable_at_def Let_def)
      ultimately show ?thesis using wrote_trans [OF _ C(3)] by fastforce
    qed
  qed
  show ?thesis using assms loop [OF assms(1)] by (auto simp: filewrite_def Let_def)
qed

text \<open>An open file on the small disk.\<close>

definition small_file :: filerec where
  "small_file = \<lparr>f_type = FD_INODE, f_ref = 1, f_readable = True, f_writable = True, f_pipe = 0, f_ip = 0, f_off = 0\<rparr>"

definition small_state :: fstate where
  "small_state = \<lparr>ftable = [small_file], fpipes = [], ffs = small_fs, outstanding = 0\<rparr>"

lemma small_writable: "n \<le> MAXFILE * BSIZE \<Longrightarrow> writable_at 0 n small_state"
  using small_fs_ok small_dir(2) by (simp add: writable_at_def Let_def small_state_def small_file_def small_simps T_DIR_def T_DEV_def)

lemma small_write_returns: "\<exists>s'. filewrite (\<lambda>_. None) 3 False 0 [104, 105] small_state = Ok (Some 2, [], s')"
proof -
  define lk where "lk = zero_lock\<lparr>slk_locked := True, slk_pid := 3\<rparr>"
  define x1 where "x1 = with_lock 0 lk small_fs"
  have ip: "0 < length (icache small_fs)" by (simp add: small_simps)
  note V = with_lock_view [OF ip, of lk, folded x1_def] and I = ino_with_lock [OF ip, of lk, folded x1_def]
  have l: "ilock 3 0 small_fs = Ok x1"
    by (simp add: ilock_def acquiresleep_def small_simps x1_def lk_def with_lock_def Let_def zero_lock_def)
  have u: "\<not> used x1 5" by (simp add: x1_def with_lock_def small_used)
  obtain x2 where w: "writei (\<lambda>_. None) 0 [104, 105] 0 x1 = Ok (2, x2)"
    using first_write_returns [of x1 0 5 "[104, 105]" "\<lambda>_. None"] u small_fs_ok small_dir(2)
    by (auto simp: V I small_simps T_DIR_def T_DEV_def BSIZE_def)
  have "i_lock (ino x2 0) = lk \<and> i_ref (ino x2 0) = 1"
    using writei_Ok [of x1 0 0 "[104, 105]" "\<lambda>_. None" 2 x2] w small_fs_ok small_dir(2)
    by (simp add: V I small_simps T_DIR_def T_DEV_def MAXFILE_def NDIRECT_def BSIZE_def)
  then obtain x3 where "iunlock 3 0 x2 = Ok x3" by (simp add: iunlock_def holdingsleep_def lk_def)
  then show ?thesis using l w
    by (simp add: filewrite_def small_state_def small_file_def filewrite_loop.simps [of _ _ _ "[104, 105]"] filewrite_loop.simps [of _ _ _ "[]"]
        on_fs_def Let_def write_max_def MAXOPBLOCKS_def)
qed

theorem filewrite_writes_witness:
  "\<exists>s'. filewrite (\<lambda>_. None) 3 False 0 [104, 105] small_state = Ok (Some 2, [], s') \<and> wrote 0 [104, 105] small_state s'"
proof -
  obtain s' where w: "filewrite (\<lambda>_. None) 3 False 0 [104, 105] small_state = Ok (Some 2, [], s')" using small_write_returns by blast
  have "writable_at 0 (length [104, 105 :: byte]) small_state"
    by (rule small_writable) (simp add: MAXFILE_def NDIRECT_def BSIZE_def)
  from filewrite_writes [OF this _ _ w] w show ?thesis by (auto simp: small_state_def small_file_def)
qed

end
