(* ===== verification/Syscall.thy ===== *)
theory Syscall
  imports Proc
begin
unbundle bit_operations_syntax

text \<open>
  System calls: fetching the arguments, \<^verbatim>\<open>p4/syscall.c\<close>, and the calls of \<^verbatim>\<open>p4/sysproc.c\<close>.  The
  kernel reads user memory through the page table of the process; \<open>um\<close> is that memory as it
  is mapped.  An encrypted page is decrypted by the page fault the access causes (theory \<^verbatim>\<open>Vm\<close>).
\<close>

subsection \<open>Arguments\<close>

definition load32 :: "(u32 \<Rightarrow> byte) \<Rightarrow> u32 \<Rightarrow> u32" where
  "load32 um a = un32 [um a, um (a + 1), um (a + 2), um (a + 3)]"

definition fetchint :: "(u32 \<Rightarrow> byte) \<Rightarrow> 'f proc \<Rightarrow> u32 \<Rightarrow> u32 option" where
  "fetchint um p addr =
     (if addr \<ge> p_sz p \<or> addr + 4 > p_sz p then None else Some (load32 um addr))"

text \<open>The pointer and the length of the string.\<close>

definition fetchstr :: "(u32 \<Rightarrow> byte) \<Rightarrow> 'f proc \<Rightarrow> u32 \<Rightarrow> (u32 \<times> nat) option" where
  "fetchstr um p addr =
     (if addr \<ge> p_sz p then None
      else case find (\<lambda>k. um (addr + of_nat k) = 0) [0..<unat (p_sz p) - unat addr] of
             None \<Rightarrow> None
           | Some k \<Rightarrow> Some (addr, k))"

definition argint :: "(u32 \<Rightarrow> byte) \<Rightarrow> 'f proc \<Rightarrow> nat \<Rightarrow> u32 option" where
  "argint um p n = fetchint um p (tf_esp (p_tf p) + 4 + 4 * of_nat n)"

definition argptr :: "(u32 \<Rightarrow> byte) \<Rightarrow> 'f proc \<Rightarrow> nat \<Rightarrow> u32 \<Rightarrow> u32 option" where
  "argptr um p n len =
     (case argint um p n of
        None \<Rightarrow> None
      | Some i \<Rightarrow> if sint len < 0 \<or> i \<ge> p_sz p \<or> i + len > p_sz p then None else Some i)"

definition argstr :: "(u32 \<Rightarrow> byte) \<Rightarrow> 'f proc \<Rightarrow> nat \<Rightarrow> (u32 \<times> nat) option" where
  "argstr um p n = (case argint um p n of None \<Rightarrow> None | Some addr \<Rightarrow> fetchstr um p addr)"

text \<open>The bytes of a string that \<^verbatim>\<open>argstr\<close> found.\<close>

definition user_bytes :: "(u32 \<Rightarrow> byte) \<Rightarrow> u32 \<Rightarrow> nat \<Rightarrow> byte list" where
  "user_bytes um a n = map (\<lambda>k. um (a + of_nat k)) [0..<n]"

subsection \<open>The dispatcher\<close>

datatype sysno = SYS_fork | SYS_exit | SYS_wait | SYS_pipe | SYS_read | SYS_kill | SYS_exec | SYS_fstat
  | SYS_chdir | SYS_dup | SYS_getpid | SYS_sbrk | SYS_sleep | SYS_uptime | SYS_open | SYS_write | SYS_mknod
  | SYS_unlink | SYS_link | SYS_mkdir | SYS_close | SYS_mencrypt | SYS_getpgtable | SYS_dump_rawphymem

definition syscalls :: "sysno list" where
  "syscalls = [SYS_fork, SYS_exit, SYS_wait, SYS_pipe, SYS_read, SYS_kill, SYS_exec, SYS_fstat,
     SYS_chdir, SYS_dup, SYS_getpid, SYS_sbrk, SYS_sleep, SYS_uptime, SYS_open, SYS_write, SYS_mknod,
     SYS_unlink, SYS_link, SYS_mkdir, SYS_close, SYS_mencrypt, SYS_getpgtable, SYS_dump_rawphymem]"

text \<open>Entry 0 of the table is empty.  \<open>call\<close> runs a handler on the kernel state.\<close>

definition syscall_no :: "u32 \<Rightarrow> sysno option" where
  "syscall_no eax =
     (let num = sint eax in
      if num > 0 \<and> num < int (Suc (length syscalls)) then Some (syscalls ! (nat num - 1)) else None)"

definition syscall :: "(sysno \<Rightarrow> ('f, 'e) kernel \<Rightarrow> (int \<times> ('f, 'e) kernel) outcome) \<Rightarrow> nat \<Rightarrow>
    ('f, 'e) kernel \<Rightarrow> ('f, 'e) kernel outcome" where
  "syscall call cur k =
     (let ret = (\<lambda>r k. set_proc cur ((pr k cur)\<lparr>p_tf := (p_tf (pr k cur))\<lparr>tf_eax := of_int r\<rparr>\<rparr>) k) in
      case syscall_no (tf_eax (p_tf (pr k cur))) of
        Some n \<Rightarrow> and_then (call n k) (\<lambda>(r, k). Ok (ret r k))
      | None \<Rightarrow> Ok (ret (- 1) k))"

subsection \<open>Calls on processes and memory\<close>

definition sys_fork :: "u32 \<Rightarrow> u32 \<Rightarrow> ('f \<Rightarrow> 'e \<Rightarrow> 'e outcome) \<Rightarrow> ('f \<Rightarrow> 'e \<Rightarrow> 'e outcome) \<Rightarrow> nat \<Rightarrow>
    ('f, 'e) kernel \<Rightarrow> (int \<times> ('f, 'e) kernel) outcome" where
  "sys_fork kend data filedup idup cur k = fork kend data filedup idup cur k"

definition sys_exit :: "('f \<Rightarrow> 'e \<Rightarrow> 'e outcome) \<Rightarrow> ('f \<Rightarrow> 'e \<Rightarrow> 'e outcome) \<Rightarrow> nat \<Rightarrow> nat \<Rightarrow>
    ('f, 'e) kernel \<Rightarrow> ('f, 'e) kernel outcome" where
  "sys_exit fileclose iput_op c cur k = exit_proc fileclose iput_op c cur k"

definition sys_wait :: "u32 \<Rightarrow> nat \<Rightarrow> nat \<Rightarrow> ('f, 'e) kernel \<Rightarrow> (int option \<times> ('f, 'e) kernel) outcome" where
  "sys_wait kend c cur k = wait_proc kend c cur k"

definition sys_kill :: "(u32 \<Rightarrow> byte) \<Rightarrow> nat \<Rightarrow> ('f, 'e) kernel \<Rightarrow> int \<times> ('f, 'e) kernel" where
  "sys_kill um cur k =
     (case argint um (pr k cur) 0 of None \<Rightarrow> (- 1, k) | Some pid \<Rightarrow> kill (sint pid) k)"

definition sys_getpid :: "nat \<Rightarrow> ('f, 'e) kernel \<Rightarrow> int" where
  "sys_getpid cur k = p_pid (pr k cur)"

definition sys_sbrk :: "u32 \<Rightarrow> (u32 \<Rightarrow> byte) \<Rightarrow> nat \<Rightarrow> ('f, 'e) kernel \<Rightarrow> (int \<times> ('f, 'e) kernel) outcome" where
  "sys_sbrk kend um cur k =
     (case argint um (pr k cur) 0 of
        None \<Rightarrow> Ok (- 1, k)
      | Some n \<Rightarrow>
          let addr = p_sz (pr k cur) in
          and_then (growproc kend cur (sint n) k) (\<lambda>(r, k). Ok (if r < 0 then - 1 else sint addr, k)))"

text \<open>\<^verbatim>\<open>sys_sleep\<close>: one test of its loop; \<open>None\<close> means that it sleeps on \<^verbatim>\<open>&ticks\<close>.\<close>

definition ticks_chan :: chan where "ticks_chan = AChan 0"

definition p4_sleep_test :: "nat \<Rightarrow> nat \<Rightarrow> u32 \<Rightarrow> u32 \<Rightarrow> u32 \<Rightarrow> ('f, 'e) kernel \<Rightarrow> (int option \<times> ('f, 'e) kernel) outcome" where
  "p4_sleep_test c cur n ticks0 ticks k =
     (if ticks - ticks0 < n
      then (if p_killed (pr k cur) then Ok (Some (- 1), k)
            else and_then (sleep c cur ticks_chan k) (\<lambda>k. Ok (None, k)))
      else Ok (Some 0, k))"

definition p4_sys_sleep :: "nat \<Rightarrow> (u32 \<Rightarrow> byte) \<Rightarrow> nat \<Rightarrow> u32 \<Rightarrow> ('f, 'e) kernel \<Rightarrow> (int option \<times> ('f, 'e) kernel) outcome" where
  "p4_sys_sleep c um cur ticks k =
     (case argint um (pr k cur) 0 of
        None \<Rightarrow> Ok (Some (- 1), k)
      | Some n \<Rightarrow> p4_sleep_test c cur n ticks ticks k)"

definition sys_uptime :: "u32 \<Rightarrow> int" where
  "sys_uptime ticks = sint ticks"

definition sys_mencrypt :: "(u32 \<Rightarrow> byte) \<Rightarrow> nat \<Rightarrow> ('f, 'e) kernel \<Rightarrow> (int \<times> ('f, 'e) kernel) outcome" where
  "sys_mencrypt um cur k =
     (case argint um (pr k cur) 1 of
        None \<Rightarrow> Ok (- 1, k)
      | Some len \<Rightarrow>
          if sint len < 0 then Ok (- 1, k)
          else if len = 0 then Ok (0, k)
          else case argptr um (pr k cur) 0 1 of
                 None \<Rightarrow> Ok (- 1, k)
               | Some va \<Rightarrow>
                   if va \<ge> P2V PHYSTOP then Ok (- 1, k)
                   else and_then (mencrypt (p_pgdir (pr k cur)) va (unat len) (mem k)) (\<lambda>(r, m). Ok (r, k\<lparr>mem := m\<rparr>)))"

text \<open>\<^verbatim>\<open>sizeof(struct pt_entry)\<close> is 8; the product is computed with 32 bits.  The result lists the entries
  that the call stores at the pointer.\<close>

definition sys_getpgtable_args :: "(u32 \<Rightarrow> byte) \<Rightarrow> 'f proc \<Rightarrow> (u32 \<times> u32) option" where
  "sys_getpgtable_args um p =
     (case argint um p 1 of
        None \<Rightarrow> None
      | Some num \<Rightarrow> (case argptr um p 0 (num * 8) of None \<Rightarrow> None | Some entries \<Rightarrow> Some (entries, num)))"

definition sys_getpgtable :: "(u32 \<Rightarrow> byte) \<Rightarrow> nat \<Rightarrow> ('f, 'e) kernel \<Rightarrow> (int \<times> pt_entry list) outcome option" where
  "sys_getpgtable um cur k =
     (case sys_getpgtable_args um (pr k cur) of
        None \<Rightarrow> Some (Ok (- 1, []))
      | Some (entries, num) \<Rightarrow>
          map_option (\<lambda>r. and_then r (\<lambda>es. Ok (int (length es), es)))
            (getpgtable (p_pgdir (pr k cur)) (p_sz (pr k cur)) (sint num) (mem k)))"

definition sys_dump_rawphymem :: "(u32 \<Rightarrow> byte) \<Rightarrow> nat \<Rightarrow> ('f, 'e) kernel \<Rightarrow> (int \<times> ('f, 'e) kernel) outcome" where
  "sys_dump_rawphymem um cur k =
     (case argptr um (pr k cur) 1 PGSIZE of
        None \<Rightarrow> Ok (- 1, k)
      | Some buffer \<Rightarrow>
          (case argint um (pr k cur) 0 of
             None \<Rightarrow> Ok (- 1, k)
           | Some pa \<Rightarrow>
               and_then (dump_rawphymem (p_pgdir (pr k cur)) pa buffer (mem k)) (\<lambda>(r, m). Ok (r, k\<lparr>mem := m\<rparr>))))"

subsection \<open>Traps\<close>

text \<open>\<^verbatim>\<open>trap\<close> of \<^verbatim>\<open>p4/trap.c\<close>: it returns to the interrupted code, or the process has exited, or it has given up
  the processor and goes on with \<open>trap_resume\<close>.  \<open>intr\<close> is the handler of the disk, keyboard or
  serial interrupt.\<close>

datatype trap_end = Returned | Exited | Yielded

definition T_PGFLT :: nat where "T_PGFLT = 14"
definition T_IRQ0 :: nat where "T_IRQ0 = 32"
definition T_SYSCALL :: nat where "T_SYSCALL = 64"
definition IRQ_TIMER :: nat where "IRQ_TIMER = 0"
definition IRQ_KBD :: nat where "IRQ_KBD = 1"
definition IRQ_COM1 :: nat where "IRQ_COM1 = 4"
definition IRQ_IDE :: nat where "IRQ_IDE = 14"
definition IRQ_SPURIOUS :: nat where "IRQ_SPURIOUS = 31"

definition user_mode :: "u32 \<Rightarrow> bool" where
  "user_mode cs \<longleftrightarrow> cs AND 3 = 3"

type_synonym ('f, 'e) tk = "u32 \<times> ('f, 'e) kernel"

definition exit_if :: "(('f, 'e) kernel \<Rightarrow> ('f, 'e) kernel outcome) \<Rightarrow> bool \<Rightarrow> ('f, 'e) tk \<Rightarrow>
    (('f, 'e) tk \<Rightarrow> (trap_end \<times> ('f, 'e) tk) outcome) \<Rightarrow> (trap_end \<times> ('f, 'e) tk) outcome" where
  "exit_if exit_op b s rest =
     (if b then and_then (exit_op (snd s)) (\<lambda>k. Ok (Exited, (fst s, k))) else rest s)"

definition killed_in_user :: "nat option \<Rightarrow> u32 \<Rightarrow> ('f, 'e) kernel \<Rightarrow> bool" where
  "killed_in_user cur cs k \<longleftrightarrow> (case cur of None \<Rightarrow> False | Some i \<Rightarrow> p_killed (pr k i) \<and> user_mode cs)"

definition trap_irq :: "(nat \<Rightarrow> ('f, 'e) kernel \<Rightarrow> ('f, 'e) kernel outcome) \<Rightarrow> nat \<Rightarrow> nat option \<Rightarrow> nat \<Rightarrow> u32 \<Rightarrow> u32 \<Rightarrow>
    ('f, 'e) tk \<Rightarrow> ('f, 'e) tk outcome" where
  "trap_irq intr c cur trapno cs cr2 s =
     (case s of (ticks, k) \<Rightarrow>
      if trapno = T_IRQ0 + IRQ_TIMER
      then (if c = 0 then Ok (ticks + 1, wakeup ticks_chan k) else Ok (ticks, k))
      else if trapno = T_IRQ0 + IRQ_IDE then and_then (intr IRQ_IDE k) (\<lambda>k. Ok (ticks, k))
      else if trapno = T_IRQ0 + IRQ_IDE + 1 then Ok (ticks, k)
      else if trapno = T_IRQ0 + IRQ_KBD then and_then (intr IRQ_KBD k) (\<lambda>k. Ok (ticks, k))
      else if trapno = T_IRQ0 + IRQ_COM1 then and_then (intr IRQ_COM1 k) (\<lambda>k. Ok (ticks, k))
      else if trapno = T_IRQ0 + 7 \<or> trapno = T_IRQ0 + IRQ_SPURIOUS then Ok (ticks, k)
      else case cur of
             None \<Rightarrow> if trapno = T_PGFLT then Panic ''null proc'' else Panic ''trap''
           | Some i \<Rightarrow>
               if trapno = T_PGFLT
               then and_then (trap_pgflt (p_pgdir (pr k i)) cr2 (mem k)) (\<lambda>m. Ok (ticks, k\<lparr>mem := m\<rparr>))
               else if cs AND 3 = 0 then Panic ''trap''
               else Ok (ticks, set_proc i ((pr k i)\<lparr>p_killed := True\<rparr>) k))"

definition trap_resume :: "(('f, 'e) kernel \<Rightarrow> ('f, 'e) kernel outcome) \<Rightarrow> nat option \<Rightarrow> u32 \<Rightarrow> ('f, 'e) tk \<Rightarrow>
    (trap_end \<times> ('f, 'e) tk) outcome" where
  "trap_resume exit_op cur cs s =
     exit_if exit_op (killed_in_user cur cs (snd s)) s (\<lambda>s. Ok (Returned, s))"

definition trap :: "(('f, 'e) kernel \<Rightarrow> ('f, 'e) kernel outcome) \<Rightarrow> (sysno \<Rightarrow> ('f, 'e) kernel \<Rightarrow> (int \<times> ('f, 'e) kernel) outcome) \<Rightarrow>
    (nat \<Rightarrow> ('f, 'e) kernel \<Rightarrow> ('f, 'e) kernel outcome) \<Rightarrow> nat \<Rightarrow> nat option \<Rightarrow> nat \<Rightarrow> trapframe \<Rightarrow> u32 \<Rightarrow> ('f, 'e) tk \<Rightarrow>
    (trap_end \<times> ('f, 'e) tk) outcome" where
  "trap exit_op call intr c cur trapno tf cr2 s =
     (if trapno = T_SYSCALL
      then case cur of
             None \<Rightarrow> Panic ''null proc''
           | Some i \<Rightarrow>
               exit_if exit_op (p_killed (pr (snd s) i)) s (\<lambda>(ticks, k).
                 and_then (syscall call i (set_proc i ((pr k i)\<lparr>p_tf := tf\<rparr>) k)) (\<lambda>k.
                   exit_if exit_op (p_killed (pr k i)) (ticks, k) (\<lambda>s. Ok (Returned, s))))
      else and_then (trap_irq intr c cur trapno (tf_cs tf) cr2 s) (\<lambda>s.
           exit_if exit_op (killed_in_user cur (tf_cs tf) (snd s)) s (\<lambda>(ticks, k).
             if trapno = T_IRQ0 + IRQ_TIMER \<and> (case cur of None \<Rightarrow> False | Some i \<Rightarrow> p_state (pr k i) = RUNNING)
             then and_then (yield c (the cur) k) (\<lambda>k. Ok (Yielded, (ticks, k)))
             else trap_resume exit_op cur (tf_cs tf) (ticks, k))))"

subsection \<open>What the checks guarantee\<close>

lemma sint_nonneg_unat: "0 \<le> sint (w::u32) \<Longrightarrow> unat w < 2 ^ 31"
proof (rule ccontr)
  assume a: "0 \<le> sint w" "\<not> unat w < 2 ^ 31"
  define x where "x = int (unat w) - 2 ^ 32"
  have u: "unat w < 2 ^ 32" using unsigned_less [of w] by simp
  have z: "(4294967296 :: u32) = 0" by transfer simp
  have w: "w = word_of_int x" by (simp add: x_def z)
  have "- (2 ^ 31) \<le> int v - 2 ^ 32 \<and> int v - 2 ^ 32 < (0 :: int)" if "\<not> v < 2 ^ 31" "v < 2 ^ 32" for v :: nat
    using that by simp
  from this [OF a(2) u] have x: "- (2 ^ 31) \<le> x" "x < 0" by (simp_all only: x_def)
  have "sint w = x" unfolding w sint_sbintrunc' by (rule signed_take_bit_int_eq_self) (use x in simp_all)
  then show False using a(1) x by simp
qed
lemma fetchint_range:
  assumes "p_sz p \<le> KERNBASE_V" "fetchint um p a = Some w"
  shows "unat a + 4 \<le> unat (p_sz p)"
proof -
  have lt: "a < p_sz p" "a + 4 \<le> p_sz p" using assms(2) by (auto simp: fetchint_def not_le not_less split: if_splits)
  have "unat (p_sz p) \<le> 2 ^ 31" using assms(1) by (simp add: KERNBASE_V_def word_le_nat_alt)
  moreover have "unat a < unat (p_sz p)" using lt(1) by (simp add: word_less_nat_alt)
  ultimately have "unat (a + 4) = unat a + 4" by (simp add: unat_word_ariths)
  then show ?thesis using lt(2) by (simp add: word_le_nat_alt)
qed

lemma argptr_range:
  assumes k: "p_sz p \<le> KERNBASE_V" and a: "argptr um p n len = Some a"
  shows "unat a + unat len \<le> unat (p_sz p)"
proof -
  have lt: "a < p_sz p" "a + len \<le> p_sz p" and s: "0 \<le> sint len"
    using a by (auto simp: argptr_def not_le not_less split: if_splits option.splits)
  have "unat (p_sz p) \<le> 2 ^ 31" using k by (simp add: KERNBASE_V_def word_le_nat_alt)
  moreover have "unat a < unat (p_sz p)" using lt(1) by (simp add: word_less_nat_alt)
  moreover have "unat len < 2 ^ 31"  using s by (rule sint_nonneg_unat)
  ultimately have "unat (a + len) = unat a + unat len" by (simp add: unat_word_ariths)
  then show ?thesis using lt(2) by (simp add: word_le_nat_alt)
qed

lemma find_upt_SomeD: "find P [0..<n] = Some k \<Longrightarrow> k < n \<and> P k \<and> (\<forall>j < k. \<not> P j)"
  by (auto simp: find_Some_iff)

lemma fetchstr_range:
  assumes "fetchstr um p addr = Some (a, n)"
  shows "a = addr" "unat a + n < unat (p_sz p)" "um (a + of_nat n) = 0" "\<And>j. j < n \<Longrightarrow> um (a + of_nat j) \<noteq> 0"
proof -
  from assms have f: "find (\<lambda>k. um (addr + of_nat k) = 0) [0..<unat (p_sz p) - unat addr] = Some n" "a = addr" "addr < p_sz p"
    by (auto simp: fetchstr_def not_le split: if_splits option.splits)
  note F = find_upt_SomeD [OF f(1)]
  show "a = addr" by (rule f(2))
  show "unat a + n < unat (p_sz p)" using F f(2,3) by (auto simp: word_less_nat_alt)
  show "um (a + of_nat n) = 0" "\<And>j. j < n \<Longrightarrow> um (a + of_nat j) \<noteq> 0" using F f(2) by auto
qed

lemma fetchstr_complete:
  assumes "fetchstr um p addr = None" "unat addr + n < unat (p_sz p)"
  shows "um (addr + of_nat n) \<noteq> 0"
proof -
  have "addr < p_sz p" using assms(2) by (simp add: word_less_nat_alt)
  then have "find (\<lambda>k. um (addr + of_nat k) = 0) [0..<unat (p_sz p) - unat addr] = None"
    using assms(1) by (auto simp: fetchstr_def not_le split: option.splits if_splits)
  then show ?thesis using assms(2) by (auto simp: find_None_iff)
qed

text \<open>C13: Arguments are checked.  For a process below \<^verbatim>\<open>KERNBASE\<close> whatever the user puts on its stack, an
  integer that \<^verbatim>\<open>argint\<close> reads, a buffer that \<^verbatim>\<open>argptr\<close> accepts and a string that \<^verbatim>\<open>argstr\<close> accepts lie
  entirely inside the process, with no wrap-around of the address; the string ends at its first
  zero byte, and a string is refused only when it has none inside the process.\<close>

theorem arguments_in_bounds:
  assumes "p_sz p \<le> KERNBASE_V"
  shows "(argint um p n = Some w \<longrightarrow> unat (tf_esp (p_tf p) + 4 + 4 * of_nat n) + 4 \<le> unat (p_sz p))
    \<and> (argptr um p n len = Some a \<longrightarrow> argint um p n = Some a \<and> unat a + unat len \<le> unat (p_sz p))
    \<and> (argstr um p n = Some (a, l) \<longrightarrow> argint um p n = Some a \<and> unat a + l < unat (p_sz p) \<and> um (a + of_nat l) = 0
           \<and> (\<forall>j < l. um (a + of_nat j) \<noteq> 0))
    \<and> (argstr um p n = None \<and> argint um p n = Some a \<and> unat a + l < unat (p_sz p) \<longrightarrow> um (a + of_nat l) \<noteq> 0)"
proof (intro conjI impI)
  show "unat (tf_esp (p_tf p) + 4 + 4 * of_nat n) + 4 \<le> unat (p_sz p)" if "argint um p n = Some w"
    using that unfolding argint_def by (rule fetchint_range [OF assms])
  show "argint um p n = Some a" if "argptr um p n len = Some a"
    using that by (auto simp: argptr_def split: option.splits if_splits)
  show "unat a + unat len \<le> unat (p_sz p)" if "argptr um p n len = Some a"
    by (rule argptr_range [OF assms that])
next
  assume s: "argstr um p n = Some (a, l)"
  then obtain b where b: "argint um p n = Some b" "fetchstr um p b = Some (a, l)"
    by (auto simp: argstr_def split: option.splits)
  then show "argint um p n = Some a" "unat a + l < unat (p_sz p)" "um (a + of_nat l) = 0" "\<forall>j < l. um (a + of_nat j) \<noteq> 0"
    using fetchstr_range [OF b(2)] by auto
next
  assume "argstr um p n = None \<and> argint um p n = Some a \<and> unat a + l < unat (p_sz p)"
  then show "um (a + of_nat l) \<noteq> 0" using fetchstr_complete [of um p a l] by (auto simp: argstr_def)
qed

definition sample_proc :: "nat proc" where
  "sample_proc = \<lparr>p_sz = 0x2000, p_pgdir = 0, p_kstack = 0, p_state = RUNNING, p_pid = 1, p_parent = None, p_tf = zero_tf,
     p_start = False, p_chan = None, p_killed = False, p_ofile = replicate NOFILE None, p_cwd = Some 0, p_name = []\<rparr>"

theorem arguments_in_bounds_witness:
  "argint (\<lambda>_. 0) sample_proc 2 = Some 0 \<and> unat (0 :: u32) + unat (0x100 :: u32) \<le> unat (p_sz sample_proc)"
proof -
  have "p_sz sample_proc \<le> KERNBASE_V" by (simp add: sample_proc_def KERNBASE_V_def)
  moreover have "argptr (\<lambda>_. 0) sample_proc 2 0x100 = Some 0"
    by (simp add: argptr_def argint_def fetchint_def load32_def sample_proc_def zero_tf_def)
  ultimately show ?thesis using arguments_in_bounds [of sample_proc "\<lambda>_. 0" 2 0 "0x100" 0 0] by blast
qed


text \<open>\<^verbatim>\<open>sys_getpgtable\<close> checks \<^verbatim>\<open>num*sizeof(struct pt_entry)\<close> bytes, which is 0 for 0 and for every multiple of
  \<open>2\<^sup>2\<^sup>9\<close>; the loop of \<^verbatim>\<open>getpgtable\<close> stores an entry before it looks at the count, so with such a
  count it writes behind the checked buffer whenever it returns.\<close>

lemma getpgtable_loop_stores:
  assumes "getpgtable_loop pgdir st num uva acc = Some r"
  shows "\<forall>es. r = Ok es \<longrightarrow> length acc < length es"
proof (rule getpgtable_loop.raw_induct [where P = "\<lambda>pgdir st num uva acc r. \<forall>es. r = Ok es \<longrightarrow> length acc < length es", OF _ assms])
  fix loop pgdir st num uva acc r
  assume IH: "\<And>pgdir st num uva acc r. loop pgdir st num uva acc = Some r \<Longrightarrow> \<forall>es. r = Ok es \<longrightarrow> length acc < length es"
    and step: "(case fst (walkpgdir pgdir uva False st) of
        None \<Rightarrow> Some (Panic ''null pte'')
      | Some pte \<Rightarrow>
          (let e = pte_get st pte in
           if e AND PTE_U = 0 \<or> e AND (PTE_P OR PTE_E) = 0
           then loop pgdir st num (uva - PGSIZE) acc
           else let acc = acc @ [entry_of uva e] in
                if uva = 0 \<or> int (length acc) = num then Some (Ok acc)
                else loop pgdir st num (uva - PGSIZE) acc)) = Some r"
  show "\<forall>es. r = Ok es \<longrightarrow> length acc < length es"
    using step by (fastforce simp: Let_def split: option.splits if_splits dest: IH)
qed

lemma getpgtable_past_buffer:
  assumes "argint um (pr k cur) 1 = Some num" "num * 8 = 0" and s: "sys_getpgtable um cur k = Some (Ok (n, es))" and n: "n \<noteq> - 1"
  shows "argptr um (pr k cur) 0 0 \<noteq> None \<and> 0 < n"
proof -
  from s n obtain e num' where a: "sys_getpgtable_args um (pr k cur) = Some (e, num')"
    by (cases "sys_getpgtable_args um (pr k cur)") (auto simp: sys_getpgtable_def)
  have "argptr um (pr k cur) 0 0 = Some e" "num' = num"
    using a assms(1,2) by (auto simp: sys_getpgtable_args_def split: option.splits)
  moreover have "getpgtable (p_pgdir (pr k cur)) (p_sz (pr k cur)) (sint num') (mem k) = Some (Ok es)" "n = int (length es)"
    using s a by (auto simp: sys_getpgtable_def)
  moreover then have "0 < length es" unfolding getpgtable_def by (auto dest: getpgtable_loop_stores)
  ultimately show ?thesis by simp
qed

end
