(* ===== verification/Sysfile.thy ===== *)
theory Sysfile
  imports File Syscall
begin
unbundle bit_operations_syntax

text \<open>
  The system calls on files, \<^verbatim>\<open>p4/sysfile.c\<close>: the whole handlers, with the argument checks of \<^verbatim>\<open>syscall.c\<close>, the
  error paths and every \<^verbatim>\<open>begin_op\<close>, lock and reference.  A handler works on the memory and the table
  entry of the calling process and on the files.
\<close>

subsection \<open>Descriptors\<close>

record sysst =
  s_um :: "u32 \<Rightarrow> byte"
  s_proc :: "nat proc"
  s_env :: fstate

abbreviation pid_of :: "sysst \<Rightarrow> nat" where "pid_of s \<equiv> nat (p_pid (s_proc s))"

definition argfd :: "nat \<Rightarrow> sysst \<Rightarrow> (nat \<times> nat) option" where
  "argfd n s =
     (case argint (s_um s) (s_proc s) n of
        None \<Rightarrow> None
      | Some w \<Rightarrow>
          let fd = sint w in
          if fd < 0 \<or> fd \<ge> int NOFILE then None
          else case p_ofile (s_proc s) ! nat fd of None \<Rightarrow> None | Some f \<Rightarrow> Some (nat fd, f))"

definition set_fd :: "nat \<Rightarrow> nat option \<Rightarrow> sysst \<Rightarrow> sysst" where
  "set_fd fd x s = s\<lparr>s_proc := (s_proc s)\<lparr>p_ofile := (p_ofile (s_proc s))[fd := x]\<rparr>\<rparr>"

definition fdalloc :: "nat \<Rightarrow> sysst \<Rightarrow> nat option \<times> sysst" where
  "fdalloc f s =
     (case find_index (\<lambda>x. x = None) (p_ofile (s_proc s)) of
        None \<Rightarrow> (None, s)
      | Some fd \<Rightarrow> (Some fd, set_fd fd (Some f) s))"

text \<open>A function on the files run on this part of the state.\<close>

definition on_env :: "(fstate \<Rightarrow> fstate outcome) \<Rightarrow> sysst \<Rightarrow> sysst outcome" where
  "on_env g s = and_then (g (s_env s)) (\<lambda>e. Ok (s\<lparr>s_env := e\<rparr>))"

definition store_bytes :: "u32 \<Rightarrow> byte list \<Rightarrow> (u32 \<Rightarrow> byte) \<Rightarrow> u32 \<Rightarrow> byte" where
  "store_bytes a bs um x = (if unat (x - a) < length bs then bs ! unat (x - a) else um x)"

definition sys_dup :: "sysst \<Rightarrow> (int \<times> sysst) outcome" where
  "sys_dup s =
     (case argfd 0 s of
        None \<Rightarrow> Ok (- 1, s)
      | Some (_, f) \<Rightarrow>
          (case fdalloc f s of
             (None, s) \<Rightarrow> Ok (- 1, s)
           | (Some fd, s) \<Rightarrow> and_then (on_env (filedup f) s) (\<lambda>s. Ok (int fd, s))))"

text \<open>The common argument checks of \<^verbatim>\<open>sys_read\<close> and \<^verbatim>\<open>sys_write\<close>: the file, the buffer and its length.\<close>

definition rw_args :: "sysst \<Rightarrow> (nat \<times> u32 \<times> nat) option" where
  "rw_args s =
     (case argfd 0 s of
        None \<Rightarrow> None
      | Some (_, f) \<Rightarrow>
          (case argint (s_um s) (s_proc s) 2 of
             None \<Rightarrow> None
           | Some n \<Rightarrow> (case argptr (s_um s) (s_proc s) 1 n of None \<Rightarrow> None | Some p \<Rightarrow> Some (f, p, unat n))))"

definition sys_read :: "devread \<Rightarrow> sysst \<Rightarrow> (int option \<times> sysst) outcome" where
  "sys_read devr s =
     (case rw_args s of
        None \<Rightarrow> Ok (Some (- 1), s)
      | Some (f, p, n) \<Rightarrow>
          and_then (fileread devr (pid_of s) (p_killed (s_proc s)) f n (s_env s)) (\<lambda>(r, bs, e).
            Ok (r, s\<lparr>s_env := e, s_um := store_bytes p bs (s_um s)\<rparr>)))"

definition sys_write :: "devwrite \<Rightarrow> sysst \<Rightarrow> (int option \<times> sysst) outcome" where
  "sys_write devw s =
     (case rw_args s of
        None \<Rightarrow> Ok (Some (- 1), s)
      | Some (f, p, n) \<Rightarrow>
          and_then (filewrite devw (pid_of s) (p_killed (s_proc s)) f (user_bytes (s_um s) p n) (s_env s)) (\<lambda>(r, rest, e).
            Ok (r, s\<lparr>s_env := e\<rparr>)))"

definition sys_close :: "sysst \<Rightarrow> (int \<times> sysst) outcome" where
  "sys_close s =
     (case argfd 0 s of
        None \<Rightarrow> Ok (- 1, s)
      | Some (fd, f) \<Rightarrow> and_then (on_env (fileclose (pid_of s) f) (set_fd fd None s)) (\<lambda>s. Ok (0, s)))"

text \<open>\<^verbatim>\<open>struct stat\<close> in memory: \<^verbatim>\<open>short type; int dev; uint ino; short nlink; uint size\<close> with the padding of the ABI,
  whose bytes are not written.\<close>

definition STAT_SIZE :: u32 where "STAT_SIZE = 20"

definition store_stat :: "u32 \<Rightarrow> stat \<Rightarrow> (u32 \<Rightarrow> byte) \<Rightarrow> u32 \<Rightarrow> byte" where
  "store_stat a st um =
     store_bytes (a + 16) (le32 (of_nat (st_size st)))
    (store_bytes (a + 12) (le16 (st_nlink st))
    (store_bytes (a + 8) (le32 (of_nat (st_ino st)))
    (store_bytes (a + 4) (le32 (of_nat (st_dev st)))
    (store_bytes a (le16 (st_type st)) um))))"

definition sys_fstat :: "sysst \<Rightarrow> (int \<times> sysst) outcome" where
  "sys_fstat s =
     (case argfd 0 s of
        None \<Rightarrow> Ok (- 1, s)
      | Some (_, f) \<Rightarrow>
          (case argptr (s_um s) (s_proc s) 1 STAT_SIZE of
             None \<Rightarrow> Ok (- 1, s)
           | Some a \<Rightarrow>
               and_then (filestat (pid_of s) f (s_env s)) (\<lambda>(r, st, e).
                 Ok (r, s\<lparr>s_env := e, s_um := (case st of None \<Rightarrow> s_um s | Some st \<Rightarrow> store_stat a st (s_um s))\<rparr>))))"

subsection \<open>Links and names\<close>

definition on_fsv :: "(fsys \<Rightarrow> ('a \<times> fsys) outcome) \<Rightarrow> fstate \<Rightarrow> ('a \<times> fstate) outcome" where
  "on_fsv g e = and_then (g (ffs e)) (\<lambda>(v, x). Ok (v, e\<lparr>ffs := x\<rparr>))"

text \<open>\<^verbatim>\<open>ip->nlink += d\<close> and \<^verbatim>\<open>iupdate\<close>.\<close>

definition add_nlink :: "nat \<Rightarrow> u16 \<Rightarrow> fsys \<Rightarrow> fsys outcome" where
  "add_nlink ip d x = iupdate ip (set_ino ip ((ino x ip)\<lparr>i_nlink := i_nlink (ino x ip) + d\<rparr>) x)"

definition nameiparent_v :: "devread \<Rightarrow> nat \<Rightarrow> nat \<Rightarrow> byte list \<Rightarrow> fsys \<Rightarrow> ((nat option \<times> byte list) \<times> fsys) outcome" where
  "nameiparent_v devr pid cwd path x = and_then (nameiparent devr pid cwd path x) (\<lambda>(r, name, x). Ok ((r, name), x))"

definition link_bad :: "nat \<Rightarrow> nat \<Rightarrow> fstate \<Rightarrow> (int \<times> fstate) outcome" where
  "link_bad pid ip e =
     and_then (on_fs (ilock pid ip) e) (\<lambda>e.
     and_then (on_fs (add_nlink ip (- 1)) e) (\<lambda>e.
     and_then (on_fs (iunlockput pid ip) e) (\<lambda>e. Ok (- 1, end_fop e))))"

definition link_files :: "devread \<Rightarrow> devwrite \<Rightarrow> nat \<Rightarrow> nat \<Rightarrow> byte list \<Rightarrow> byte list \<Rightarrow> fstate \<Rightarrow> (int \<times> fstate) outcome" where
  "link_files devr devw pid cwd old new e =
     and_then (on_fsv (namei devr pid cwd old) (begin_fop e)) (\<lambda>(r, e).
     case r of
       None \<Rightarrow> Ok (- 1, end_fop e)
     | Some ip \<Rightarrow>
         and_then (on_fs (ilock pid ip) e) (\<lambda>e.
         if i_type (ino (ffs e) ip) = T_DIR
         then and_then (on_fs (iunlockput pid ip) e) (\<lambda>e. Ok (- 1, end_fop e))
         else and_then (on_fs (add_nlink ip 1) e) (\<lambda>e.
              and_then (on_fs (iunlock pid ip) e) (\<lambda>e.
              and_then (on_fsv (nameiparent_v devr pid cwd new) e) (\<lambda>((r, name), e).
              case r of
                None \<Rightarrow> link_bad pid ip e
              | Some dp \<Rightarrow>
                  and_then (on_fs (ilock pid dp) e) (\<lambda>e.
                  and_then (if i_dev (ino (ffs e) dp) \<noteq> i_dev (ino (ffs e) ip) then Ok (- 1, e)
                            else on_fsv (dirlink devr devw pid dp name (i_inum (ino (ffs e) ip))) e) (\<lambda>(r, e).
                    if r < 0 then and_then (on_fs (iunlockput pid dp) e) (link_bad pid ip)
                    else and_then (on_fs (iunlockput pid dp) e) (\<lambda>e.
                         and_then (on_fs (iput pid ip) e) (\<lambda>e. Ok (0, end_fop e))))))))))"

text \<open>The string arguments of a call as bytes, and the calls on paths with the working directory.\<close>

definition arg_path :: "sysst \<Rightarrow> nat \<Rightarrow> byte list option" where
  "arg_path s n = (case argstr (s_um s) (s_proc s) n of None \<Rightarrow> None | Some (a, l) \<Rightarrow> Some (user_bytes (s_um s) a l))"

definition on_envv :: "(fstate \<Rightarrow> ('a \<times> fstate) outcome) \<Rightarrow> sysst \<Rightarrow> ('a \<times> sysst) outcome" where
  "on_envv g s = and_then (g (s_env s)) (\<lambda>(v, e). Ok (v, s\<lparr>s_env := e\<rparr>))"

abbreviation cwd_of :: "sysst \<Rightarrow> nat" where "cwd_of s \<equiv> the (p_cwd (s_proc s))"

definition sys_link :: "devread \<Rightarrow> devwrite \<Rightarrow> sysst \<Rightarrow> (int \<times> sysst) outcome" where
  "sys_link devr devw s =
     (case arg_path s 0 of
        None \<Rightarrow> Ok (- 1, s)
      | Some old \<Rightarrow>
          (case arg_path s 1 of
             None \<Rightarrow> Ok (- 1, s)
           | Some new \<Rightarrow> on_envv (link_files devr devw (pid_of s) (cwd_of s) old new) s))"

function isdirempty_loop :: "devread \<Rightarrow> nat \<Rightarrow> nat \<Rightarrow> nat \<Rightarrow> fsys \<Rightarrow> (bool \<times> fsys) outcome" where
  "isdirempty_loop devr dp off sz x =
     (if off < sz
      then and_then (readi devr dp off DIRENT_SIZE x) (\<lambda>(r, de, x).
             if r \<noteq> int DIRENT_SIZE then Panic ''isdirempty: readi''
             else if de_inum de \<noteq> 0 then Ok (False, x)
             else isdirempty_loop devr dp (off + DIRENT_SIZE) sz x)
      else Ok (True, x))"
  by pat_completeness auto
termination by (relation "measure (\<lambda>(devr, dp, off, sz, x). sz - off)") (auto simp: DIRENT_SIZE_def)

declare isdirempty_loop.simps [simp del]

definition isdirempty :: "devread \<Rightarrow> nat \<Rightarrow> fsys \<Rightarrow> (bool \<times> fsys) outcome" where
  "isdirempty devr dp x = isdirempty_loop devr dp (2 * DIRENT_SIZE) (i_size (ino x dp)) x"

definition dot :: "byte list" where "dot = [46]"
definition dotdot :: "byte list" where "dotdot = [46, 46]"

definition unlink_bad :: "nat \<Rightarrow> nat \<Rightarrow> fstate \<Rightarrow> (int \<times> fstate) outcome" where
  "unlink_bad pid dp e = and_then (on_fs (iunlockput pid dp) e) (\<lambda>e. Ok (- 1, end_fop e))"

definition unlink_entry :: "devread \<Rightarrow> devwrite \<Rightarrow> nat \<Rightarrow> nat \<Rightarrow> nat \<Rightarrow> nat \<Rightarrow> fstate \<Rightarrow> (int \<times> fstate) outcome" where
  "unlink_entry devr devw pid dp ip off e =
     and_then (on_fsv (writei devw dp (replicate DIRENT_SIZE 0) off) e) (\<lambda>(r, e).
     if r \<noteq> int DIRENT_SIZE then Panic ''unlink: writei''
     else and_then (if i_type (ino (ffs e) ip) = T_DIR then on_fs (add_nlink dp (- 1)) e else Ok e) (\<lambda>e.
          and_then (on_fs (iunlockput pid dp) e) (\<lambda>e.
          and_then (on_fs (add_nlink ip (- 1)) e) (\<lambda>e.
          and_then (on_fs (iunlockput pid ip) e) (\<lambda>e. Ok (0, end_fop e))))))"

definition unlink_file :: "devread \<Rightarrow> devwrite \<Rightarrow> nat \<Rightarrow> nat \<Rightarrow> byte list \<Rightarrow> fstate \<Rightarrow> (int \<times> fstate) outcome" where
  "unlink_file devr devw pid cwd path e =
     and_then (on_fsv (nameiparent_v devr pid cwd path) (begin_fop e)) (\<lambda>((r, name), e).
     case r of
       None \<Rightarrow> Ok (- 1, end_fop e)
     | Some dp \<Rightarrow>
         and_then (on_fs (ilock pid dp) e) (\<lambda>e.
         if namecmp name dot = 0 \<or> namecmp name dotdot = 0 then unlink_bad pid dp e
         else and_then (on_fsv (dirlookup devr dp name) e) (\<lambda>(r, e).
              case r of
                None \<Rightarrow> unlink_bad pid dp e
              | Some (ip, off) \<Rightarrow>
                  and_then (on_fs (ilock pid ip) e) (\<lambda>e.
                  if sint (i_nlink (ino (ffs e) ip)) < 1 then Panic ''unlink: nlink < 1''
                  else and_then (if i_type (ino (ffs e) ip) = T_DIR then on_fsv (isdirempty devr ip) e else Ok (True, e)) (\<lambda>(empt, e).
                       if \<not> empt then and_then (on_fs (iunlockput pid ip) e) (unlink_bad pid dp)
                       else unlink_entry devr devw pid dp ip off e)))))"

definition sys_unlink :: "devread \<Rightarrow> devwrite \<Rightarrow> sysst \<Rightarrow> (int \<times> sysst) outcome" where
  "sys_unlink devr devw s =
     (case arg_path s 0 of
        None \<Rightarrow> Ok (- 1, s)
      | Some path \<Rightarrow> on_envv (unlink_file devr devw (pid_of s) (cwd_of s) path) s)"

subsection \<open>Creating and mid_open\<close>

definition create_new :: "devread \<Rightarrow> devwrite \<Rightarrow> nat \<Rightarrow> nat \<Rightarrow> byte list \<Rightarrow> u16 \<Rightarrow> u16 \<Rightarrow> u16 \<Rightarrow> fstate \<Rightarrow> (nat option \<times> fstate) outcome" where
  "create_new devr devw pid dp name ty major minor e =
     and_then (on_fsv (ialloc (i_dev (ino (ffs e) dp)) ty) e) (\<lambda>(ip, e).
     and_then (on_fs (ilock pid ip) e) (\<lambda>e.
     and_then (on_fs (\<lambda>x. iupdate ip (set_ino ip ((ino x ip)\<lparr>i_major := major, i_minor := minor, i_nlink := 1\<rparr>) x)) e) (\<lambda>e.
     and_then (if ty = T_DIR
               then and_then (on_fs (add_nlink dp 1) e) (\<lambda>e.
                    and_then (on_fsv (dirlink devr devw pid ip dot (i_inum (ino (ffs e) ip))) e) (\<lambda>(r, e).
                    if r < 0 then Panic ''create dots''
                    else and_then (on_fsv (dirlink devr devw pid ip dotdot (i_inum (ino (ffs e) dp))) e) (\<lambda>(r, e).
                         if r < 0 then Panic ''create dots'' else Ok e)))
               else Ok e) (\<lambda>e.
     and_then (on_fsv (dirlink devr devw pid dp name (i_inum (ino (ffs e) ip))) e) (\<lambda>(r, e).
     if r < 0 then Panic ''create: dirlink''
     else and_then (on_fs (iunlockput pid dp) e) (\<lambda>e. Ok (Some ip, e)))))))"

definition create :: "devread \<Rightarrow> devwrite \<Rightarrow> nat \<Rightarrow> nat \<Rightarrow> byte list \<Rightarrow> u16 \<Rightarrow> u16 \<Rightarrow> u16 \<Rightarrow> fstate \<Rightarrow> (nat option \<times> fstate) outcome" where
  "create devr devw pid cwd path ty major minor e =
     and_then (on_fsv (nameiparent_v devr pid cwd path) e) (\<lambda>((r, name), e).
     case r of
       None \<Rightarrow> Ok (None, e)
     | Some dp \<Rightarrow>
         and_then (on_fs (ilock pid dp) e) (\<lambda>e.
         and_then (on_fsv (dirlookup devr dp name) e) (\<lambda>(r, e).
         case r of
           Some (ip, off) \<Rightarrow>
             and_then (on_fs (iunlockput pid dp) e) (\<lambda>e.
             and_then (on_fs (ilock pid ip) e) (\<lambda>e.
             if ty = T_FILE \<and> i_type (ino (ffs e) ip) = T_FILE then Ok (Some ip, e)
             else and_then (on_fs (iunlockput pid ip) e) (\<lambda>e. Ok (None, e))))
         | None \<Rightarrow> create_new devr devw pid dp name ty major minor e)))"

definition O_RDONLY :: u32 where "O_RDONLY = 0x000"
definition O_WRONLY :: u32 where "O_WRONLY = 0x001"
definition O_RDWR :: u32 where "O_RDWR = 0x002"
definition O_CREATE :: u32 where "O_CREATE = 0x200"

text \<open>The inode of \<^verbatim>\<open>sys_open\<close>, locked, inside the operation; nothing when the call fails before.\<close>

definition open_inode_of :: "devread \<Rightarrow> devwrite \<Rightarrow> nat \<Rightarrow> nat \<Rightarrow> byte list \<Rightarrow> u32 \<Rightarrow> fstate \<Rightarrow> (nat option \<times> fstate) outcome" where
  "open_inode_of devr devw pid cwd path omode e =
     (if omode AND O_CREATE \<noteq> 0
      then and_then (create devr devw pid cwd path T_FILE 0 0 e) (\<lambda>(r, e).
             case r of None \<Rightarrow> Ok (None, end_fop e) | Some ip \<Rightarrow> Ok (Some ip, e))
      else and_then (on_fsv (namei devr pid cwd path) e) (\<lambda>(r, e).
             case r of
               None \<Rightarrow> Ok (None, end_fop e)
             | Some ip \<Rightarrow>
                 and_then (on_fs (ilock pid ip) e) (\<lambda>e.
                 if i_type (ino (ffs e) ip) = T_DIR \<and> omode \<noteq> O_RDONLY
                 then and_then (on_fs (iunlockput pid ip) e) (\<lambda>e. Ok (None, end_fop e))
                 else Ok (Some ip, e))))"

text \<open>The part of \<^verbatim>\<open>sys_open\<close> after the inode was found.\<close>

definition open_fd :: "nat \<Rightarrow> u32 \<Rightarrow> sysst \<Rightarrow> (int \<times> sysst) outcome" where
  "open_fd ip omode s =
     (let fail = (\<lambda>s. and_then (on_env (on_fs (iunlockput (pid_of s) ip)) s) (\<lambda>s. Ok (- 1, s\<lparr>s_env := end_fop (s_env s)\<rparr>))) in
      case filealloc (s_env s) of
        (None, e) \<Rightarrow> fail (s\<lparr>s_env := e\<rparr>)
      | (Some f, e) \<Rightarrow>
          (case fdalloc f (s\<lparr>s_env := e\<rparr>) of
             (None, s) \<Rightarrow> and_then (on_env (fileclose (pid_of s) f) s) fail
           | (Some fd, s) \<Rightarrow>
               and_then (on_env (on_fs (iunlock (pid_of s) ip)) s) (\<lambda>s.
               let e = end_fop (s_env s);
                   ff = (ftable e ! f)\<lparr>f_type := FD_INODE, f_ip := ip, f_off := 0,
                          f_readable := (omode AND O_WRONLY = 0),
                          f_writable := (omode AND O_WRONLY \<noteq> 0 \<or> omode AND O_RDWR \<noteq> 0)\<rparr>
               in Ok (int fd, s\<lparr>s_env := set_file f ff e\<rparr>))))"

definition sys_open :: "devread \<Rightarrow> devwrite \<Rightarrow> sysst \<Rightarrow> (int \<times> sysst) outcome" where
  "sys_open devr devw s =
     (case arg_path s 0 of
        None \<Rightarrow> Ok (- 1, s)
      | Some path \<Rightarrow>
          (case argint (s_um s) (s_proc s) 1 of
             None \<Rightarrow> Ok (- 1, s)
           | Some omode \<Rightarrow>
               and_then (on_envv (open_inode_of devr devw (pid_of s) (cwd_of s) path omode) (s\<lparr>s_env := begin_fop (s_env s)\<rparr>)) (\<lambda>(r, s).
               case r of None \<Rightarrow> Ok (- 1, s) | Some ip \<Rightarrow> open_fd ip omode s)))"

text \<open>The common end of \<^verbatim>\<open>sys_mkdir\<close> and \<^verbatim>\<open>sys_mknod\<close>.\<close>

definition make_node :: "nat \<Rightarrow> nat option \<times> fstate \<Rightarrow> (int \<times> fstate) outcome" where
  "make_node pid re =
     (case re of
        (None, e) \<Rightarrow> Ok (- 1, end_fop e)
      | (Some ip, e) \<Rightarrow> and_then (on_fs (iunlockput pid ip) e) (\<lambda>e. Ok (0, end_fop e)))"

definition sys_mkdir :: "devread \<Rightarrow> devwrite \<Rightarrow> sysst \<Rightarrow> (int \<times> sysst) outcome" where
  "sys_mkdir devr devw s =
     (let s = s\<lparr>s_env := begin_fop (s_env s)\<rparr> in
      case arg_path s 0 of
        None \<Rightarrow> Ok (- 1, s\<lparr>s_env := end_fop (s_env s)\<rparr>)
      | Some path \<Rightarrow>
          on_envv (\<lambda>e. and_then (create devr devw (pid_of s) (cwd_of s) path T_DIR 0 0 e) (make_node (pid_of s))) s)"

definition sys_mknod :: "devread \<Rightarrow> devwrite \<Rightarrow> sysst \<Rightarrow> (int \<times> sysst) outcome" where
  "sys_mknod devr devw s =
     (let s = s\<lparr>s_env := begin_fop (s_env s)\<rparr> in
      case (arg_path s 0, argint (s_um s) (s_proc s) 1, argint (s_um s) (s_proc s) 2) of
        (Some path, Some major, Some minor) \<Rightarrow>
          on_envv (\<lambda>e. and_then (create devr devw (pid_of s) (cwd_of s) path T_DEV (ucast major) (ucast minor) e) (make_node (pid_of s))) s
      | _ \<Rightarrow> Ok (- 1, s\<lparr>s_env := end_fop (s_env s)\<rparr>))"

definition sys_chdir :: "devread \<Rightarrow> sysst \<Rightarrow> (int \<times> sysst) outcome" where
  "sys_chdir devr s =
     (let s = s\<lparr>s_env := begin_fop (s_env s)\<rparr>; pid = pid_of s in
      case arg_path s 0 of
        None \<Rightarrow> Ok (- 1, s\<lparr>s_env := end_fop (s_env s)\<rparr>)
      | Some path \<Rightarrow>
          and_then (on_envv (on_fsv (namei devr pid (cwd_of s) path)) s) (\<lambda>(r, s).
          case r of
            None \<Rightarrow> Ok (- 1, s\<lparr>s_env := end_fop (s_env s)\<rparr>)
          | Some ip \<Rightarrow>
              and_then (on_env (on_fs (ilock pid ip)) s) (\<lambda>s.
              if i_type (ino (ffs (s_env s)) ip) \<noteq> T_DIR
              then and_then (on_env (on_fs (iunlockput pid ip)) s) (\<lambda>s. Ok (- 1, s\<lparr>s_env := end_fop (s_env s)\<rparr>))
              else and_then (on_env (on_fs (iunlock pid ip)) s) (\<lambda>s.
                   and_then (on_env (on_fs (iput pid (cwd_of s))) s) (\<lambda>s.
                     Ok (0, s\<lparr>s_env := end_fop (s_env s), s_proc := (s_proc s)\<lparr>p_cwd := Some ip\<rparr>\<rparr>))))))"

definition MAXARG :: nat where "MAXARG = 32"

text \<open>The argument vector of \<^verbatim>\<open>sys_exec\<close>: the strings up to the null pointer, from argument \<open>i\<close> on.\<close>

function exec_argv :: "(u32 \<Rightarrow> byte) \<Rightarrow> nat proc \<Rightarrow> u32 \<Rightarrow> nat \<Rightarrow> (u32 \<times> nat) list option" where
  "exec_argv um p uargv i =
     (if i \<ge> MAXARG then None
      else case fetchint um p (uargv + 4 * of_nat i) of
             None \<Rightarrow> None
           | Some uarg \<Rightarrow>
               if uarg = 0 then Some []
               else case fetchstr um p uarg of
                      None \<Rightarrow> None
                    | Some a \<Rightarrow> map_option (Cons a) (exec_argv um p uargv (Suc i)))"
  by pat_completeness auto
termination by (relation "measure (\<lambda>(um, p, uargv, i). MAXARG - i)") auto

declare exec_argv.simps [simp del]

definition sys_exec_args :: "sysst \<Rightarrow> (byte list \<times> (u32 \<times> nat) list) option" where
  "sys_exec_args s =
     (case arg_path s 0 of
        None \<Rightarrow> None
      | Some path \<Rightarrow>
          (case argint (s_um s) (s_proc s) 1 of
             None \<Rightarrow> None
           | Some uargv \<Rightarrow> map_option (Pair path) (exec_argv (s_um s) (s_proc s) uargv 0)))"

definition sys_pipe :: "byte list option \<Rightarrow> sysst \<Rightarrow> (int \<times> sysst) outcome" where
  "sys_pipe page s =
     (case argptr (s_um s) (s_proc s) 0 8 of
        None \<Rightarrow> Ok (- 1, s)
      | Some a \<Rightarrow>
          and_then (on_envv (pipealloc (pid_of s) page) s) (\<lambda>(r, s).
          case r of
            None \<Rightarrow> Ok (- 1, s)
          | Some (f0, f1) \<Rightarrow>
              let fail = (\<lambda>s. and_then (on_env (fileclose (pid_of s) f0) s) (\<lambda>s.
                              and_then (on_env (fileclose (pid_of s) f1) s) (\<lambda>s. Ok (- 1, s)))) in
              (case fdalloc f0 s of
                 (None, s) \<Rightarrow> fail s
               | (Some fd0, s) \<Rightarrow>
                   (case fdalloc f1 s of
                      (None, s) \<Rightarrow> fail (set_fd fd0 None s)
                    | (Some fd1, s) \<Rightarrow>
                        Ok (0, s\<lparr>s_um := store_bytes (a + 4) (le32 (of_nat fd1)) (store_bytes a (le32 (of_nat fd0)) (s_um s))\<rparr>)))))"

subsection \<open>Every lock, reference and operation is given back\<close>

lemma fop_ffs [simp]:
  "(begin_fop e)\<lparr>ffs := x\<rparr> = begin_fop (e\<lparr>ffs := x\<rparr>)" "(end_fop e)\<lparr>ffs := x\<rparr> = end_fop (e\<lparr>ffs := x\<rparr>)"
  "end_fop (begin_fop e) = e"
  by (cases e; simp add: begin_fop_def end_fop_def)+

lemma post_on_fsv [simp]: "post (on_fsv g e) Q = post (g (ffs e)) (\<lambda>(v, x). Q (v, e\<lparr>ffs := x\<rparr>))"
  by (simp add: on_fsv_def case_prod_unfold)

lemma post_on_env [simp]: "post (on_env g s) Q = post (g (s_env s)) (\<lambda>e. Q (s\<lparr>s_env := e\<rparr>))"
  by (simp add: on_env_def)

lemma post_on_envv [simp]: "post (on_envv g s) Q = post (g (s_env s)) (\<lambda>(v, e). Q (v, s\<lparr>s_env := e\<rparr>))"
  by (simp add: on_envv_def case_prod_unfold)

lemma add_nlink_wp [wp]: "(\<And>x'. quiet x x' \<Longrightarrow> Q x') \<Longrightarrow> post (add_nlink ip d x) Q"
  unfolding add_nlink_def by (auto intro!: iupdate_wp simp: quiet_def)

lemma nameiparent_v_wp [wp]:
  assumes "cwd < ilen x" and "\<And>name x'. quiet x x' \<Longrightarrow> Q ((None, name), x')"
    and "\<And>ip name x'. ip < ilen x \<Longrightarrow> ilen x' = ilen x \<Longrightarrow> lks x' = lks x \<Longrightarrow> rfs x' = bump ip 1 (rfs x) \<Longrightarrow> Q ((Some ip, name), x')"
  shows "post (nameiparent_v devr pid cwd path x) Q"
  unfolding nameiparent_v_def by (simp, rule nameiparent_wp [OF assms(1)]) (use assms in auto)

lemma link_bad_wp:
  assumes "ip < ilen (ffs e)"
    and "\<And>x. ip \<notin> lks (ffs e) \<Longrightarrow> ilen x = ilen (ffs e) \<Longrightarrow> lks x = lks (ffs e) \<Longrightarrow> rfs x = bump ip (- 1) (rfs (ffs e)) \<Longrightarrow> Q (- 1, end_fop (e\<lparr>ffs := x\<rparr>))"
  shows "post (link_bad pid ip e) Q"
  unfolding link_bad_def post_simps post_on_fs
  by (rule ilock_wp [OF assms(1)], simp, rule add_nlink_wp, rule iunlockput_wp)
     (use assms(1) in \<open>simp add: quiet_def\<close>, rule assms(2), simp_all add: quiet_def)

lemma link_files_wp:
  assumes "cwd < ilen (ffs e)" and Q: "\<And>r x. quiet (ffs e) x \<Longrightarrow> Q (r, e\<lparr>ffs := x\<rparr>)"
  shows "post (link_files devr devw pid cwd old new e) Q"
  unfolding link_files_def using assms(1)
  by (auto intro!: namei_wp ilock_wp iunlockput_wp add_nlink_wp iunlock_wp nameiparent_v_wp link_bad_wp dirlink_wp iput_wp Q simp: quiet_def)

lemma isdirempty_wp [wp]: "(\<And>b x'. quiet x x' \<Longrightarrow> Q (b, x')) \<Longrightarrow> post (isdirempty devr dp x) Q"
proof -
  assume Q: "\<And>b x'. quiet x x' \<Longrightarrow> Q (b, x')"
  have "quiet x x1 \<Longrightarrow> post (isdirempty_loop devr dp off sz x1) Q" for off sz x1
  proof (induction "sz - off" arbitrary: off x1 rule: less_induct)
    case less
    have IH: "post (isdirempty_loop devr dp (off + DIRENT_SIZE) sz x2) Q" if "quiet x1 x2" "off < sz" for x2
      by (rule less.hyps) (use that less.prems in \<open>simp_all add: DIRENT_SIZE_def quiet_def\<close>)
    show ?case using IH Q less.prems by (subst isdirempty_loop.simps) (auto intro!: readi_wp simp: quiet_def)
  qed
  then show ?thesis by (simp add: isdirempty_def quiet_def)
qed

lemma unlink_entry_wp:
  assumes "dp < ilen (ffs e)" "ip < ilen (ffs e)"
    and Q: "\<And>r x. dp \<in> lks (ffs e) \<Longrightarrow> ip \<in> lks (ffs e) \<Longrightarrow> ip \<noteq> dp \<Longrightarrow> ilen x = ilen (ffs e) \<Longrightarrow> lks x = lks (ffs e) - {dp} - {ip} \<Longrightarrow>
          rfs x = bump ip (- 1) (bump dp (- 1) (rfs (ffs e))) \<Longrightarrow> Q (r, end_fop (e\<lparr>ffs := x\<rparr>))"
  shows "post (unlink_entry devr devw pid dp ip off e) Q"
proof -
  have fin: "post (iunlockput pid dp x1) (\<lambda>x. post (add_nlink ip (- 1) x) (\<lambda>x. post (iunlockput pid ip x) (\<lambda>x. Q (0, end_fop (e\<lparr>ffs := x\<rparr>)))))"
    if "ilen x1 = ilen (ffs e)" "lks x1 = lks (ffs e)" "rfs x1 = rfs (ffs e)" for x1
    by (rule iunlockput_wp, use assms(1) that in simp, rule add_nlink_wp, rule iunlockput_wp)
       (use assms(2) that in \<open>simp add: quiet_def\<close>, rule Q, use that in \<open>simp_all add: quiet_def\<close>)
  have dec: "post (add_nlink dp (- 1) x1) (\<lambda>x. post (iunlockput pid dp x) (\<lambda>x. post (add_nlink ip (- 1) x)
      (\<lambda>x. post (iunlockput pid ip x) (\<lambda>x. Q (0, end_fop (e\<lparr>ffs := x\<rparr>))))))"
    if "ilen x1 = ilen (ffs e)" "lks x1 = lks (ffs e)" "rfs x1 = rfs (ffs e)" for x1
    by (rule add_nlink_wp, rule fin) (use that in \<open>simp_all add: quiet_def\<close>)
  show ?thesis unfolding unlink_entry_def
    by (simp, rule writei_wp) (simp add: quiet_def fin dec)
qed

lemma unlink_bad_wp:
  assumes "dp < ilen (ffs e)"
    and "\<And>x. dp \<in> lks (ffs e) \<Longrightarrow> ilen x = ilen (ffs e) \<Longrightarrow> lks x = lks (ffs e) - {dp} \<Longrightarrow> rfs x = bump dp (- 1) (rfs (ffs e)) \<Longrightarrow> Q (- 1, end_fop (e\<lparr>ffs := x\<rparr>))"
  shows "post (unlink_bad pid dp e) Q"
  unfolding unlink_bad_def using assms(1) by (auto intro!: iunlockput_wp assms(2))

lemma bump_commute: "bump ip d (bump dp c R) = bump dp c (bump ip d R)"
  by (auto simp: bump_def fun_eq_iff)

lemma bump_back [simp]: "bump ip (- 1) (bump dp c (bump ip 1 R)) = bump dp c R"
  using bump_commute [of ip "- 1" dp c "bump ip 1 R"] by simp

lemma unlink_file_wp:
  assumes "cwd < ilen (ffs e)" and Q: "\<And>r x. quiet (ffs e) x \<Longrightarrow> Q (r, e\<lparr>ffs := x\<rparr>)"
  shows "post (unlink_file devr devw pid cwd path e) Q"
  unfolding unlink_file_def using assms(1)
  by (auto intro!: nameiparent_v_wp ilock_wp unlink_bad_wp dirlookup_wp isdirempty_wp iunlockput_wp unlink_entry_wp Q simp: quiet_def)

lemma create_wp:
  assumes "cwd < ilen (ffs e)" and n: "\<And>x. quiet (ffs e) x \<Longrightarrow> Q (None, e\<lparr>ffs := x\<rparr>)"
    and s: "\<And>ip x. ip < ilen (ffs e) \<Longrightarrow> ilen x = ilen (ffs e) \<Longrightarrow> ip \<notin> lks (ffs e) \<Longrightarrow> lks x = insert ip (lks (ffs e)) \<Longrightarrow>
          rfs x = bump ip 1 (rfs (ffs e)) \<Longrightarrow> Q (Some ip, e\<lparr>ffs := x\<rparr>)"
  shows "post (create devr devw pid cwd path ty major minor e) Q"
proof -
  have new: "post (create_new devr devw pid dp name ty major minor (e\<lparr>ffs := x1\<rparr>)) Q"
    if "dp < ilen (ffs e)" "ilen x1 = ilen (ffs e)" "dp \<notin> lks (ffs e)" "lks x1 = insert dp (lks (ffs e))"
      "rfs x1 = bump dp 1 (rfs (ffs e))" for dp name x1
    unfolding create_new_def using that
    by (auto intro!: ialloc_wp ilock_wp iupdate_wp add_nlink_wp dirlink_wp iunlockput_wp s simp: quiet_def lks_set_same rfs_set_same)
  show ?thesis unfolding create_def using assms(1)
    by (auto intro!: nameiparent_v_wp ilock_wp dirlookup_wp iunlockput_wp n s new simp: quiet_def)
qed

lemma open_inode_wp:
  assumes "cwd < ilen (ffs e)" and n: "\<And>x. quiet (ffs e) x \<Longrightarrow> Q (None, end_fop (e\<lparr>ffs := x\<rparr>))"
    and s: "\<And>ip x. ip < ilen (ffs e) \<Longrightarrow> ilen x = ilen (ffs e) \<Longrightarrow> ip \<notin> lks (ffs e) \<Longrightarrow> lks x = insert ip (lks (ffs e)) \<Longrightarrow>
          rfs x = bump ip 1 (rfs (ffs e)) \<Longrightarrow> Q (Some ip, e\<lparr>ffs := x\<rparr>)"
  shows "post (open_inode_of devr devw pid cwd path omode e) Q"
  unfolding open_inode_of_def using assms(1)
  by (auto intro!: create_wp namei_wp ilock_wp iunlockput_wp n s simp: quiet_def)

subsection \<open>The books of a process\<close>

text \<open>How often a process holds a file and an inode, and states that make sense.\<close>

definition fds :: "nat proc \<Rightarrow> nat \<Rightarrow> int" where
  "fds p f = (\<Sum>x\<leftarrow>p_ofile p. if x = Some f then 1 else 0)"

definition cw :: "nat proc \<Rightarrow> nat \<Rightarrow> int" where
  "cw p ip = (if p_cwd p = Some ip then 1 else 0)"

definition proc_ok :: "nat proc \<Rightarrow> fstate \<Rightarrow> bool" where
  "proc_ok p e \<longleftrightarrow> length (p_ofile p) = NOFILE \<and> (\<forall>f. Some f \<in> set (p_ofile p) \<longrightarrow> f < length (ftable e))
     \<and> (\<exists>c. p_cwd p = Some c \<and> c < ilen (ffs e))"

definition sys_ok :: "sysst \<Rightarrow> bool" where
  "sys_ok s \<longleftrightarrow> ftab_ok (s_env s) \<and> proc_ok (s_proc s) (s_env s)"

text \<open>Nothing is lost and nothing is left: the same locks and log operations as before, and what the counts of
  files and inodes exceed the holdings of this process by is the same.\<close>

definition kept :: "sysst \<Rightarrow> sysst \<Rightarrow> bool" where
  "kept s s' \<longleftrightarrow> sys_ok s' \<and> length (ftable (s_env s')) = length (ftable (s_env s)) \<and> ilen (ffs (s_env s')) = ilen (ffs (s_env s))
     \<and> lks (ffs (s_env s')) = lks (ffs (s_env s)) \<and> outstanding (s_env s') = outstanding (s_env s)
     \<and> (\<forall>ip. debt (s_env s') ip - cw (s_proc s') ip = debt (s_env s) ip - cw (s_proc s) ip)
     \<and> (\<forall>f. frefs (s_env s') f - fds (s_proc s') f = frefs (s_env s) f - fds (s_proc s) f)
     \<and> (\<exists>fl wd. s_proc s' = (s_proc s)\<lparr>p_ofile := fl, p_cwd := wd\<rparr>)"

lemma proc_upd_id [simp]: "\<exists>fl wd. (p :: 'f proc) = p\<lparr>p_ofile := fl, p_cwd := wd\<rparr>"
  by (rule exI [of _ "p_ofile p"], rule exI [of _ "p_cwd p"], cases p) simp

lemma sys_okD:
  assumes "sys_ok s"
  shows "ftab_ok (s_env s)" "length (p_ofile (s_proc s)) = NOFILE" "fd < NOFILE \<Longrightarrow> p_ofile (s_proc s) ! fd = Some f \<Longrightarrow> f < length (ftable (s_env s))"
    "p_cwd (s_proc s) = Some (cwd_of s)" "cwd_of s < ilen (ffs (s_env s))"
  using assms by (auto simp: sys_ok_def proc_ok_def) (metis nth_mem)

lemma kept_refl: "sys_ok s \<Longrightarrow> kept s s"
  by (simp add: kept_def)

text \<open>A call that leaves the descriptors alone.\<close>

lemma kept_env:
  assumes "sys_ok s" "fsame (s_env s) e" "frefs e = frefs (s_env s)"
  shows "kept s (s\<lparr>s_env := e\<rparr>)" "kept s (s\<lparr>s_env := e, s_um := um\<rparr>)"
  using assms unfolding kept_def sys_ok_def proc_ok_def fsame_def by auto

lemma kept_fs:
  assumes "sys_ok s" "quiet (ffs (s_env s)) x"
  shows "kept s (s\<lparr>s_env := (s_env s)\<lparr>ffs := x\<rparr>\<rparr>)"
  by (rule kept_env(1) [OF assms(1)]) (use assms in \<open>auto simp: quiet_def sys_ok_def intro: fsame_ffs\<close>)

lemma argfd_file:
  assumes "sys_ok s" "argfd n s = Some (fd, f)"
  shows "fd < NOFILE" "p_ofile (s_proc s) ! fd = Some f" "f < length (ftable (s_env s))"
proof -
  show a: "fd < NOFILE" "p_ofile (s_proc s) ! fd = Some f"
    using assms(2) by (auto simp: argfd_def Let_def split: option.splits if_splits)
  show "f < length (ftable (s_env s))" by (rule sys_okD(3) [OF assms(1) a])
qed

lemma fds_set_fd:
  "fd < length (p_ofile (s_proc s)) \<Longrightarrow>
   fds (s_proc (set_fd fd x s)) f = fds (s_proc s) f - (if p_ofile (s_proc s) ! fd = Some f then 1 else 0) + (if x = Some f then 1 else 0)"
  by (simp add: fds_def set_fd_def sum_list_update_int)

lemma set_fd_simps [simp]:
  "s_env (set_fd fd x s) = s_env s" "s_um (set_fd fd x s) = s_um s" "p_cwd (s_proc (set_fd fd x s)) = p_cwd (s_proc s)"
  "p_pid (s_proc (set_fd fd x s)) = p_pid (s_proc s)"
  "p_ofile (s_proc (set_fd fd x s)) = (p_ofile (s_proc s))[fd := x]"
  by (simp_all add: set_fd_def)

lemma fdalloc_cases:
  assumes "length (p_ofile (s_proc s)) = NOFILE"
  obtains (none) "fdalloc f s = (None, s)" "None \<notin> set (p_ofile (s_proc s))"
    | (some) fd where "fdalloc f s = (Some fd, set_fd fd (Some f) s)" "fd < NOFILE" "p_ofile (s_proc s) ! fd = None"
proof (cases "find_index (\<lambda>x. x = None) (p_ofile (s_proc s))")
  case None
  then have "None \<notin> set (p_ofile (s_proc s))" unfolding find_index_None_iff by blast
  then show ?thesis using none None by (simp add: fdalloc_def)
next
  case (Some fd)
  then show ?thesis using some find_index_SomeD [OF Some] assms by (simp add: fdalloc_def)
qed

text \<open>A descriptor changes together with the count of the file.\<close>

lemma kept_set_fd:
  assumes ok: "sys_ok s" and fd: "fd < NOFILE" "\<And>f. x = Some f \<Longrightarrow> f < length (ftable (s_env s))" and e: "fsame (s_env s) e"
    and r: "\<And>f. frefs e f = frefs (s_env s) f - (if p_ofile (s_proc s) ! fd = Some f then 1 else 0) + (if x = Some f then 1 else 0)"
  shows "kept s ((set_fd fd x s)\<lparr>s_env := e\<rparr>)"
proof -
  note O = sys_okD [OF ok]
  have len: "fd < length (p_ofile (s_proc s))" using fd(1) O(2) by simp
  have "proc_ok (s_proc (set_fd fd x s)) e"
    unfolding proc_ok_def
  proof (intro conjI allI impI)
    show "length (p_ofile (s_proc (set_fd fd x s))) = NOFILE" using O(2) by simp
    show "\<exists>c. p_cwd (s_proc (set_fd fd x s)) = Some c \<and> c < ilen (ffs e)" using O(4,5) fsameD(3) [OF e] by auto
    fix f assume "Some f \<in> set (p_ofile (s_proc (set_fd fd x s)))"
    then have "Some f = x \<or> Some f \<in> set (p_ofile (s_proc s))"
      using set_update_subset_insert [of "p_ofile (s_proc s)" fd x] by auto
    then show "f < length (ftable e)" using fd(2) ok fsameD(2) [OF e] by (auto simp: sys_ok_def proc_ok_def)
  qed
  moreover have "\<exists>fl wd. s_proc (set_fd fd x s) = (s_proc s)\<lparr>p_ofile := fl, p_cwd := wd\<rparr>"
    by (rule exI [of _ "(p_ofile (s_proc s))[fd := x]"], rule exI [of _ "p_cwd (s_proc s)"]) (cases "s_proc s", simp add: set_fd_def)
  moreover have "frefs e f - fds (s_proc (set_fd fd x s)) f = frefs (s_env s) f - fds (s_proc s) f" for f
    using r fds_set_fd [OF len] by simp
  ultimately show ?thesis using e by (simp add: kept_def sys_ok_def fsame_def cw_def)
qed

lemma sys_dup_kept: "sys_ok s \<Longrightarrow> post (sys_dup s) (\<lambda>(r, s'). kept s s')"
proof (cases "argfd 0 s")
  case None
  assume "sys_ok s"
  then show ?thesis using None by (simp add: sys_dup_def kept_refl)
next
  case (Some a)
  assume ok: "sys_ok s"
  obtain fd0 f where a: "argfd 0 s = Some (fd0, f)" using Some by (cases a) auto
  note A = argfd_file [OF ok a] and O = sys_okD [OF ok]
  show ?thesis using O(2)
  proof (cases rule: fdalloc_cases [of s f])
    case none
    then show ?thesis using a by (simp add: sys_dup_def kept_refl [OF ok])
  next
    case (some fd)
    have "kept s ((set_fd fd (Some f) s)\<lparr>s_env := e\<rparr>)" if "fsame (s_env s) e" "frefs e = bump f 1 (frefs (s_env s))" for e
      by (rule kept_set_fd [OF ok some(2) _ that(1)]) (use that(2) some(3) A(3) in \<open>auto simp: bump_def\<close>)
    then show ?thesis using a some A O by (auto simp: sys_dup_def intro!: filedup_wp)
  qed
qed

lemma sys_close_kept: 
  assumes ok: "sys_ok s"
  shows "post (sys_close s) (\<lambda>(r, s'). kept s s')"
proof (cases "argfd 0 s")
  case None
  then show ?thesis using kept_refl [OF ok] by (simp add: sys_close_def)
next
  case (Some a)
  obtain fd f where a: "argfd 0 s = Some (fd, f)" using Some by (cases a) auto
  note A = argfd_file [OF ok a] and O = sys_okD [OF ok]
  have "kept s ((set_fd fd None s)\<lparr>s_env := e\<rparr>)" if "fsame (s_env s) e" "frefs e = bump f (- 1) (frefs (s_env s))" for e
    by (rule kept_set_fd [OF ok A(1) _ that(1)]) (use that(2) A(2) in \<open>auto simp: bump_def\<close>)
  then show ?thesis using a A O by (auto simp: sys_close_def intro!: fileclose_wp)
qed

lemma rw_args_file: "sys_ok s \<Longrightarrow> rw_args s = Some (f, p, n) \<Longrightarrow> f < length (ftable (s_env s))"
  by (auto simp: rw_args_def split: option.splits dest: argfd_file(3))

lemma sys_read_kept: "sys_ok s \<Longrightarrow> post (sys_read devr s) (\<lambda>(r, s'). kept s s')"
  by (auto simp: sys_read_def kept_refl rw_args_file sys_okD(1) split: option.splits intro!: fileread_wp kept_env)

lemma sys_write_kept: "sys_ok s \<Longrightarrow> post (sys_write devw s) (\<lambda>(r, s'). kept s s')"
  by (auto simp: sys_write_def kept_refl rw_args_file sys_okD(1) split: option.splits intro!: filewrite_wp kept_env)

lemma sys_fstat_kept: "sys_ok s \<Longrightarrow> post (sys_fstat s) (\<lambda>(r, s'). kept s s')"
  by (auto simp: sys_fstat_def kept_refl argfd_file(3) sys_okD(1) split: option.splits intro!: filestat_wp kept_env)

lemma sys_link_kept: "sys_ok s \<Longrightarrow> post (sys_link devr devw s) (\<lambda>(r, s'). kept s s')"
  by (auto simp: sys_link_def kept_refl sys_okD(5) split: option.splits intro!: link_files_wp kept_fs)

lemma sys_unlink_kept: "sys_ok s \<Longrightarrow> post (sys_unlink devr devw s) (\<lambda>(r, s'). kept s s')"
  by (auto simp: sys_unlink_def kept_refl sys_okD(5) split: option.splits intro!: unlink_file_wp kept_fs)

lemma make_node_wp:
  assumes "\<And>r x. quiet (ffs e) x \<Longrightarrow> Q (r, e\<lparr>ffs := x\<rparr>)" "cwd < ilen (ffs e)"
  shows "post (create devr devw pid cwd path ty major minor (begin_fop e)) (\<lambda>re. post (make_node pid re) Q)"
proof (rule create_wp)
  show "post (make_node pid (None, begin_fop e\<lparr>ffs := x\<rparr>)) Q" if "quiet (ffs (begin_fop e)) x" for x
    using that assms(1) by (simp add: make_node_def)
  show "post (make_node pid (Some ip, begin_fop e\<lparr>ffs := x\<rparr>)) Q"
    if "ip < ilen (ffs (begin_fop e))" "ilen x = ilen (ffs (begin_fop e))" "ip \<notin> lks (ffs (begin_fop e))"
      "lks x = insert ip (lks (ffs (begin_fop e)))" "rfs x = bump ip 1 (rfs (ffs (begin_fop e)))" for ip x
    using that unfolding make_node_def by (auto intro!: iunlockput_wp assms(1) simp: quiet_def)
qed (simp add: assms(2))

lemma env_upd_id [simp]: "s\<lparr>s_env := s_env s\<rparr> = (s :: sysst)"
  by (cases s) simp

lemma arg_path_env [simp]: "arg_path (s\<lparr>s_env := e\<rparr>) n = arg_path s n"
  by (simp add: arg_path_def split: option.splits prod.splits)

lemma sys_mkdir_kept: "sys_ok s \<Longrightarrow> post (sys_mkdir devr devw s) (\<lambda>(r, s'). kept s s')"
  by (auto simp: sys_mkdir_def Let_def kept_refl sys_okD(5) split: option.splits intro!: make_node_wp kept_fs)

lemma sys_mknod_kept: "sys_ok s \<Longrightarrow> post (sys_mknod devr devw s) (\<lambda>(r, s'). kept s s')"
  by (auto simp: sys_mknod_def Let_def kept_refl sys_okD(5) split: option.splits intro!: make_node_wp kept_fs)

lemma kept_chdir:
  assumes ok: "sys_ok s" and ip: "ip < ilen (ffs (s_env s))" and x: "ilen x = ilen (ffs (s_env s))" "lks x = lks (ffs (s_env s))"
      "rfs x = bump (cwd_of s) (- 1) (bump ip 1 (rfs (ffs (s_env s))))"
  shows "kept s (s\<lparr>s_env := (s_env s)\<lparr>ffs := x\<rparr>, s_proc := (s_proc s)\<lparr>p_cwd := Some ip\<rparr>\<rparr>)"
proof -
  note O = sys_okD [OF ok]
  have "proc_ok ((s_proc s)\<lparr>p_cwd := Some ip\<rparr>) ((s_env s)\<lparr>ffs := x\<rparr>)" using ok ip x(1) by (simp add: sys_ok_def proc_ok_def)
  moreover have "\<exists>fl wd. (s_proc s)\<lparr>p_cwd := Some ip\<rparr> = (s_proc s)\<lparr>p_ofile := fl, p_cwd := wd\<rparr>"
    by (rule exI [of _ "p_ofile (s_proc s)"], rule exI [of _ "Some ip"], cases "s_proc s") simp
  moreover have "debt ((s_env s)\<lparr>ffs := x\<rparr>) j - cw ((s_proc s)\<lparr>p_cwd := Some ip\<rparr>) j = debt (s_env s) j - cw (s_proc s) j" for j
    using O(4) by (auto simp: debt_def x(3) cw_def bump_def)
  ultimately show ?thesis using O(1) x(1,2) by (simp add: kept_def sys_ok_def ftab_ok_ffs fds_def)
qed

lemma sys_chdir_kept: "sys_ok s \<Longrightarrow> post (sys_chdir devr s) (\<lambda>(r, s'). kept s s')"
  by (auto simp: sys_chdir_def Let_def kept_refl sys_okD(5) quiet_def split: option.splits
      intro!: namei_wp ilock_wp iunlockput_wp iunlock_wp iput_wp kept_fs kept_chdir)

text \<open>Between taking the inode and the end of \<^verbatim>\<open>sys_open\<close>: one operation, one lock and one reference more.\<close>

definition mid_open :: "fstate \<Rightarrow> nat \<Rightarrow> fstate \<Rightarrow> bool" where
  "mid_open e ip e1 \<longleftrightarrow> ftab_ok e1 \<and> length (ftable e1) = length (ftable e) \<and> ilen (ffs e1) = ilen (ffs e) \<and> ip < ilen (ffs e)
     \<and> ip \<notin> lks (ffs e) \<and> lks (ffs e1) = insert ip (lks (ffs e)) \<and> debt e1 = bump ip 1 (debt e) \<and> outstanding e1 = outstanding e + 1"

lemma mid_open_fsame: "mid_open e ip e1 \<Longrightarrow> fsame e1 e2 \<Longrightarrow> mid_open e ip e2"
  by (simp add: mid_open_def fsame_def)

lemma mid_open_begin:
  assumes "ftab_ok e" "ip < ilen (ffs e)" "ilen x = ilen (ffs e)" "ip \<notin> lks (ffs e)" "lks x = insert ip (lks (ffs e))" "rfs x = bump ip 1 (rfs (ffs e))"
  shows "mid_open e ip (begin_fop (e\<lparr>ffs := x\<rparr>))"
  using assms by (auto simp: mid_open_def ftab_ok_ffs debt_def bump_def fun_eq_iff)

lemma mid_open_fail:
  assumes "mid_open e ip e1"
  shows "post (iunlockput pid ip (ffs e1)) (\<lambda>x. fsame e (end_fop (e1\<lparr>ffs := x\<rparr>)) \<and> frefs (end_fop (e1\<lparr>ffs := x\<rparr>)) = frefs e1)"
proof (rule iunlockput_wp)
  show "ip < ilen (ffs e1)" using assms(1) by (simp add: mid_open_def)
  fix x assume x: "ip \<in> lks (ffs e1)" "ilen x = ilen (ffs e1)" "lks x = lks (ffs e1) - {ip}" "rfs x = bump ip (- 1) (rfs (ffs e1))"
  have "debt (e1\<lparr>ffs := x\<rparr>) = bump ip (- 1) (debt e1)" by (auto simp: debt_def x(4) bump_def fun_eq_iff)
  then show "fsame e (end_fop (e1\<lparr>ffs := x\<rparr>)) \<and> frefs (end_fop (e1\<lparr>ffs := x\<rparr>)) = frefs e1"
    using assms(1) x by (simp add: mid_open_def fsame_def ftab_ok_ffs)
qed

lemma mid_open_done:
  assumes o: "mid_open e ip e1" and f: "f < length (ftable e1)" "f_type (ftable e1 ! f) = FD_NONE" "f_ref (ftable e1 ! f) = 1"
    and ff: "f_type ff = FD_INODE" "f_ip ff = ip" "f_ref ff = 1"
  shows "post (iunlock pid ip (ffs e1)) (\<lambda>x. fsame e (set_file f ff (end_fop (e1\<lparr>ffs := x\<rparr>))) \<and> frefs (set_file f ff (end_fop (e1\<lparr>ffs := x\<rparr>))) = frefs e1)"
proof (rule iunlock_wp)
  show "ip < ilen (ffs e1)" using o by (simp add: mid_open_def)
  fix x assume x: "ip \<in> lks (ffs e1)" "ilen x = ilen (ffs e1)" "lks x = lks (ffs e1) - {ip}" "rfs x = rfs (ffs e1)"
  let ?e2 = "end_fop (e1\<lparr>ffs := x\<rparr>)"
  have f2: "f < length (ftable ?e2)" "ftable ?e2 = ftable e1" using f(1) by simp_all
  have ok2: "ftab_ok ?e2" using o x(2) by (simp add: mid_open_def ftab_ok_ffs)
  have "held (set_file f ff ?e2) j = held e1 j + (if j = ip then 1 else 0)" for j
    using held_set_file [OF f2(1)] f ff by (simp add: holds_def)
  then have "debt (set_file f ff ?e2) = bump ip (- 1) (debt e1)" by (auto simp: debt_def x(4) bump_def fun_eq_iff)
  moreover have "ftab_ok (set_file f ff ?e2)" by (rule ftab_ok_set_file [OF ok2]) (use ff o x(2) in \<open>auto simp: mid_open_def\<close>)
  moreover have "frefs (set_file f ff ?e2) = frefs e1" using f ff frefs_set_file [OF f2(1)] by (simp add: frefs_def fun_eq_iff)
  ultimately show "fsame e (set_file f ff ?e2) \<and> frefs (set_file f ff ?e2) = frefs e1"
    using o x by (simp add: mid_open_def fsame_def)
qed

lemma open_fd_kept:
  assumes ok: "sys_ok s" and o: "mid_open (s_env s) ip e1" and r: "frefs e1 = frefs (s_env s)"
  shows "post (open_fd ip omode (s\<lparr>s_env := e1\<rparr>)) (\<lambda>(r, s'). kept s s')"
proof -
  note O = sys_okD [OF ok]
  have ok1: "ftab_ok e1" using o by (simp add: mid_open_def)
  show ?thesis using ok1
  proof (cases rule: filealloc_cases)
    case none
    have "post (iunlockput p ip (ffs e1)) (\<lambda>x. kept s (s\<lparr>s_env := end_fop (e1\<lparr>ffs := x\<rparr>)\<rparr>))" for p
      by (rule post_mono [OF mid_open_fail [OF o]]) (use kept_env(1) [OF ok] r in auto)
    then show ?thesis using none by (simp add: open_fd_def Let_def)
  next
    case (some f e2)
    note A = some
    note o2 = mid_open_fsame [OF o A(4)] and ok2 = fsameD(1) [OF A(4)]
    have len: "length (p_ofile (s_proc (s\<lparr>s_env := e2\<rparr>))) = NOFILE" using O(2) by simp
    have fl: "f < length (ftable e2)" "f < length (ftable (s_env s))" using A(2) fsameD(2) [OF A(4)] o by (simp_all add: mid_open_def)
    show ?thesis using len
    proof (cases rule: fdalloc_cases [of _ f])
      case none
      have fail: "post (iunlockput p ip (ffs e3)) (\<lambda>x. kept s (s\<lparr>s_env := end_fop (e3\<lparr>ffs := x\<rparr>)\<rparr>))"
        if "fsame e2 e3" "frefs e3 = bump f (- 1) (frefs e2)" for p e3
        by (rule post_mono [OF mid_open_fail [OF mid_open_fsame [OF o2 that(1)]]]) (use kept_env(1) [OF ok] r A(5) that(2) in auto)
      show ?thesis using A(1) none fail fl(1) by (auto simp: open_fd_def Let_def intro!: fileclose_wp [OF ok2])
    next
      case (some fd)
      let ?ff = "\<lambda>ff. ff\<lparr>f_type := FD_INODE, f_ip := ip, f_off := 0, f_readable := omode AND O_WRONLY = 0,
                          f_writable := omode AND O_WRONLY \<noteq> 0 \<or> omode AND O_RDWR \<noteq> 0\<rparr>"
      let ?e = "\<lambda>x. set_file f (?ff (ftable e2 ! f)) (end_fop (e2\<lparr>ffs := x\<rparr>))"
      have D: "post (iunlock p ip (ffs e2)) (\<lambda>x. fsame (s_env s) (?e x) \<and> frefs (?e x) = frefs e2)" for p
        by (rule mid_open_done [OF o2 fl(1) A(6,7)]) (use A(7) in simp_all)
      have K: "kept s ((set_fd fd (Some f) s)\<lparr>s_env := ?e x\<rparr>)" if "fsame (s_env s) (?e x) \<and> frefs (?e x) = frefs e2" for x
        by (rule kept_set_fd [OF ok some(2)]) (use that fl(2) A(5) r some(3) in \<open>auto simp: bump_def\<close>)
      have "post (iunlock p ip (ffs e2)) (\<lambda>x. kept s ((set_fd fd (Some f) s)\<lparr>s_env := ?e x\<rparr>))" for p
        by (rule post_mono [OF D K])
      moreover have "(set_fd fd (Some f) (s\<lparr>s_env := e2\<rparr>))\<lparr>s_env := e\<rparr> = (set_fd fd (Some f) s)\<lparr>s_env := e\<rparr>" for e
        by (simp add: set_fd_def)
      ultimately show ?thesis using A(1) some(1) by (simp add: open_fd_def Let_def)
    qed
  qed
qed

lemma sys_open_kept:
  assumes ok: "sys_ok s"
  shows "post (sys_open devr devw s) (\<lambda>(r, s'). kept s s')"
proof -
  have fd: "post (open_fd ip omode (s\<lparr>s_env := begin_fop ((s_env s)\<lparr>ffs := x\<rparr>)\<rparr>)) (\<lambda>(r, s'). kept s s')"
    if "ip < ilen (ffs (s_env s))" "ilen x = ilen (ffs (s_env s))" "ip \<notin> lks (ffs (s_env s))" "lks x = insert ip (lks (ffs (s_env s)))"
      "rfs x = bump ip 1 (rfs (ffs (s_env s)))" for ip omode x
    by (rule open_fd_kept [OF ok mid_open_begin [OF sys_okD(1) [OF ok] that]]) simp
  show ?thesis unfolding sys_open_def
    by (auto simp: sys_okD(5) [OF ok] kept_refl [OF ok] split: option.splits intro!: open_inode_wp fd kept_fs [OF ok])
qed

lemma set_fd_back: "p_ofile (s_proc s) ! fd = None \<Longrightarrow> set_fd fd None (set_fd fd x s) = s"
  by (cases s, cases "s_proc s") (simp add: set_fd_def, metis list_update_id list_update_overwrite)

lemma proc_ok_set_fd:
  assumes "proc_ok (s_proc s) e" "\<And>f. x = Some f \<Longrightarrow> f < length (ftable e)"
  shows "proc_ok (s_proc (set_fd fd x s)) e"
  using assms set_update_subset_insert [of "p_ofile (s_proc s)" fd x] by (auto simp: proc_ok_def)

lemma sys_pipe_kept:
  assumes ok: "sys_ok s"
  shows "post (sys_pipe page s) (\<lambda>(r, s'). kept s s')"
proof (cases "argptr (s_um s) (s_proc s) 0 8")
  case None
  then show ?thesis using kept_refl [OF ok] by (simp add: sys_pipe_def)
next
  case (Some a)
  note O = sys_okD [OF ok]
  let ?fail = "\<lambda>f0 f1 s. and_then (on_env (fileclose (pid_of s) f0) s) (\<lambda>s. and_then (on_env (fileclose (pid_of s) f1) s) (\<lambda>s. Ok (- 1 :: int, s)))"
  define goal where "goal = (\<lambda>(r :: int, s'). kept s s')"
  have after: "post (case fdalloc f0 (s\<lparr>s_env := e\<rparr>) of
                 (None, s) \<Rightarrow> ?fail f0 f1 s
               | (Some fd0, s) \<Rightarrow>
                   (case fdalloc f1 s of
                      (None, s) \<Rightarrow> ?fail f0 f1 (set_fd fd0 None s)
                    | (Some fd1, s) \<Rightarrow>
                        Ok (0, s\<lparr>s_um := store_bytes (a + 4) (le32 (of_nat fd1)) (store_bytes a (le32 (of_nat fd0)) (s_um s))\<rparr>))) goal"
    if f: "f0 < length (ftable (s_env s))" "f1 < length (ftable (s_env s))" and e: "fsame (s_env s) e" "frefs e = bump f1 1 (bump f0 1 (frefs (s_env s)))"
    for f0 f1 e
  proof -
    have len: "length (p_ofile (s_proc (s\<lparr>s_env := e\<rparr>))) = NOFILE" using O(2) by simp
    have c2: "post (fileclose p f1 e2) (\<lambda>e3. goal (- 1, s\<lparr>s_env := e3\<rparr>))"
      if "fsame e e2" "frefs e2 = bump f0 (- 1) (frefs e)" for p e2
    proof (rule fileclose_wp)
      show "ftab_ok e2" "f1 < length (ftable e2)" using fsameD [OF that(1)] fsameD(2) [OF e(1)] f by simp_all
      fix e3 assume "fsame e2 e3" "frefs e3 = bump f1 (- 1) (frefs e2)"
      moreover have "bump f1 (- 1) (bump f0 (- 1) (bump f1 1 (bump f0 1 R))) = R" for R by (auto simp: bump_def fun_eq_iff)
      ultimately show "goal (- 1, s\<lparr>s_env := e3\<rparr>)" unfolding goal_def
        using kept_env(1) [OF ok] fsame_trans [OF e(1) fsame_trans [OF that(1)]] that(2) e(2) by simp
    qed
    have fl: "post (?fail f0 f1 (s\<lparr>s_env := e\<rparr>)) goal" unfolding post_simps post_on_env
      by (rule fileclose_wp) (use c2 fsameD [OF e(1)] f in simp_all)
    show ?thesis using len
    proof (cases rule: fdalloc_cases [of _ f0])
      case none
      then show ?thesis using fl by simp
    next
      case (some fd0)
      note F0 = this
      let ?s1 = "set_fd fd0 (Some f0) (s\<lparr>s_env := e\<rparr>)"
      have len1: "length (p_ofile (s_proc ?s1)) = NOFILE" using O(2) by simp
      show ?thesis using len1
      proof (cases rule: fdalloc_cases [of _ f1])
        case none
        then show ?thesis using fl F0 by (simp add: set_fd_back)
      next
        case (some fd1)
        let ?s2 = "set_fd fd1 (Some f1) ?s1"
        have "proc_ok (s_proc (s\<lparr>s_env := e\<rparr>)) e" using ok fsameD [OF e(1)] by (simp add: sys_ok_def proc_ok_def)
        then have "proc_ok (s_proc ?s2) e" using f fsameD(2) [OF e(1)] by (intro proc_ok_set_fd) auto
        moreover have "\<exists>fl wd. s_proc ?s2 = (s_proc s)\<lparr>p_ofile := fl, p_cwd := wd\<rparr>"
          by (rule exI [of _ "(p_ofile (s_proc s))[fd0 := Some f0, fd1 := Some f1]"], rule exI [of _ "p_cwd (s_proc s)"])
             (cases "s_proc s", simp add: set_fd_def)
        moreover have "fds (s_proc ?s2) f = fds (s_proc s) f + (if f = f0 then 1 else 0) + (if f = f1 then 1 else 0)" for f
          using fds_set_fd [of fd1 ?s1 "Some f1" f] fds_set_fd [of fd0 "s\<lparr>s_env := e\<rparr>" "Some f0" f] F0 some len len1 by auto
        then have "frefs e f - fds (s_proc ?s2) f = frefs (s_env s) f - fds (s_proc s) f" for f
          using e(2) by (auto simp: bump_def)
        ultimately have "kept s (?s2\<lparr>s_um := um\<rparr>)" for um using e(1) by (simp add: kept_def sys_ok_def fsame_def cw_def)
        then show ?thesis using F0 some by (simp add: goal_def)
      qed
    qed
  qed
  show ?thesis unfolding goal_def [symmetric] sys_pipe_def Some option.case post_simps post_on_envv
    by (rule pipealloc_wp [OF O(1)]) (use after kept_env(1) [OF ok] in \<open>simp_all add: goal_def\<close>)
qed

end
