(* ===== verification/Iocounts.thy ===== *)
theory Iocounts
  imports Sysfile
begin

text \<open>
  The counters of project 1b, \<^verbatim>\<open>p1B/xv6-public/sysfile.c\<close>: every \<^verbatim>\<open>read\<close> and \<^verbatim>\<open>write\<close> of a process is counted, whether it
  succeeds or not, and \<^verbatim>\<open>getiocounts\<close> hands the counts out.  The rest of the two calls is that of theory \<^verbatim>\<open>Sysfile\<close>.
\<close>

subsection \<open>The calls\<close>

record counted =
  c_sys :: sysst
  c_reads :: u32
  c_writes :: u32

definition sys_read_counted :: "devread \<Rightarrow> counted \<Rightarrow> (int option \<times> counted) outcome" where
  "sys_read_counted devr c =
     (let c = c\<lparr>c_reads := c_reads c + 1\<rparr>
      in and_then (sys_read devr (c_sys c)) (\<lambda>(r, s). Ok (r, c\<lparr>c_sys := s\<rparr>)))"

definition sys_write_counted :: "devwrite \<Rightarrow> counted \<Rightarrow> (int option \<times> counted) outcome" where
  "sys_write_counted devw c =
     (let c = c\<lparr>c_writes := c_writes c + 1\<rparr>
      in and_then (sys_write devw (c_sys c)) (\<lambda>(r, s). Ok (r, c\<lparr>c_sys := s\<rparr>)))"

text \<open>The size that is given to \<^verbatim>\<open>argptr\<close> is the value of \<^verbatim>\<open>sizeof(struct iostat*) < 0\<close>, which is 0.\<close>

definition sys_getiocounts :: "counted \<Rightarrow> int \<times> counted" where
  "sys_getiocounts c =
     (let s = c_sys c in
      case argptr (s_um s) (s_proc s) 0 0 of None \<Rightarrow> (- 1, c)
      | Some i \<Rightarrow> (0, c\<lparr>c_sys := s\<lparr>s_um := store_bytes i (le32 (c_reads c) @ le32 (c_writes c)) (s_um s)\<rparr>\<rparr>))"

subsection \<open>What is counted\<close>

datatype iocall = Read devread | Write devwrite | Counts

definition io_step :: "iocall \<Rightarrow> counted \<Rightarrow> counted outcome" where
  "io_step call c =
     (case call of Read devr \<Rightarrow> and_then (sys_read_counted devr c) (\<lambda>(_, c). Ok c)
      | Write devw \<Rightarrow> and_then (sys_write_counted devw c) (\<lambda>(_, c). Ok c)
      | Counts \<Rightarrow> Ok (snd (sys_getiocounts c)))"

fun io_run :: "iocall list \<Rightarrow> counted \<Rightarrow> counted outcome" where
  "io_run [] c = Ok c"
| "io_run (call # calls) c = and_then (io_step call c) (io_run calls)"

definition reads_in :: "iocall list \<Rightarrow> nat" where
  "reads_in calls = length (filter (\<lambda>x. case x of Read _ \<Rightarrow> True | _ \<Rightarrow> False) calls)"

definition writes_in :: "iocall list \<Rightarrow> nat" where
  "writes_in calls = length (filter (\<lambda>x. case x of Write _ \<Rightarrow> True | _ \<Rightarrow> False) calls)"

lemma io_step_counts:
  "io_step call c = Ok c' \<Longrightarrow>
   c_reads c' = c_reads c + of_nat (reads_in [call]) \<and> c_writes c' = c_writes c + of_nat (writes_in [call])"
  by (cases call) (auto simp: io_step_def sys_read_counted_def sys_write_counted_def sys_getiocounts_def Let_def
      reads_in_def writes_in_def split: option.splits)

lemma io_run_counts:
  "io_run calls c = Ok c' \<Longrightarrow>
   c_reads c' = c_reads c + of_nat (reads_in calls) \<and> c_writes c' = c_writes c + of_nat (writes_in calls)"
proof (induction calls arbitrary: c)
  case (Cons call calls)
  then obtain c1 where "io_step call c = Ok c1" "io_run calls c1 = Ok c'" by auto
  with Cons.IH [of c1] io_step_counts [of call c c1] show ?case
    by (cases call) (auto simp: reads_in_def writes_in_def)
qed (simp add: reads_in_def writes_in_def)

lemma store_bytes_nth: "k < length bs \<Longrightarrow> length bs < 2 ^ 32 \<Longrightarrow> store_bytes a bs um (a + of_nat k) = bs ! k"
  by (simp add: store_bytes_def unat_of_nat)

lemma load32_stored:
  assumes "bs = pre @ le32 w @ suf" "length bs < 2 ^ 32"
  shows "load32 (store_bytes a bs um) (a + of_nat (length pre)) = w"
proof -
  have n: "store_bytes a bs um (a + of_nat (length pre) + of_nat j) = le32 w ! j" if "j < 4" for j
  proof -
    have "length pre + j < length bs" using assms(1) that by (simp add: le32_def)
    then have "store_bytes a bs um (a + of_nat (length pre + j)) = bs ! (length pre + j)" by (rule store_bytes_nth [OF _ assms(2)])
    moreover have "bs ! (length pre + j) = le32 w ! j" using assms(1) that by (simp add: nth_append le32_def del: append_Cons)
    ultimately show ?thesis by (simp add: add.assoc)
  qed
  have "[le32 w ! 0, le32 w ! 1, le32 w ! 2, le32 w ! 3] = le32 w" by (simp add: le32_def)
  then show ?thesis using n [of 0] n [of 1] n [of 2] n [of 3] un32_le32 [of w "[]"] by (simp add: load32_def)
qed

text \<open>What \<^verbatim>\<open>getiocounts\<close> stores for a process that started with zero counters are the numbers of its calls.\<close>

lemma getiocounts_exact:
  assumes run: "io_run calls c = Ok c'" and zero: "c_reads c = 0" "c_writes c = 0"
    and get: "sys_getiocounts c' = (0, c'')" and i: "argint (s_um (c_sys c')) (s_proc (c_sys c')) 0 = Some i"
  shows "load32 (s_um (c_sys c'')) i = of_nat (reads_in calls) \<and> load32 (s_um (c_sys c'')) (i + 4) = of_nat (writes_in calls)"
proof -
  let ?bs = "le32 (c_reads c') @ le32 (c_writes c')"
  have "s_um (c_sys c'') = store_bytes i ?bs (s_um (c_sys c'))"
    using get i by (auto simp: sys_getiocounts_def argptr_def Let_def split: option.splits if_splits)
  moreover have "load32 (store_bytes i ?bs um) i = c_reads c'" for um
    using load32_stored [of ?bs "[]" "c_reads c'" "le32 (c_writes c')" i um] by (simp add: le32_def)
  moreover have "load32 (store_bytes i ?bs um) (i + 4) = c_writes c'" for um
    using load32_stored [of ?bs "le32 (c_reads c')" "c_writes c'" "[]" i um] by (simp add: le32_def)
  ultimately show ?thesis using io_run_counts [OF run] zero by simp
qed

text \<open>Because nothing is known of the size, a pointer to the last byte of a process is accepted, and seven bytes
  behind its memory are overwritten.\<close>

lemma getiocounts_past_end:
  assumes "argint (s_um (c_sys c)) (s_proc (c_sys c)) 0 = Some (p_sz (s_proc (c_sys c)) - 1)" "p_sz (s_proc (c_sys c)) \<noteq> 0" "k < 7"
  shows "\<exists>c'. sys_getiocounts c = (0, c') \<and>
    s_um (c_sys c') (p_sz (s_proc (c_sys c)) + of_nat k) = (le32 (c_reads c) @ le32 (c_writes c)) ! (k + 1)"
proof -
  let ?sz = "p_sz (s_proc (c_sys c))" and ?bs = "le32 (c_reads c) @ le32 (c_writes c)"
  have "0 < unat ?sz" using assms(2) by (simp add: unat_gt_0)
  then have "?sz - 1 < ?sz" "\<not> ?sz - 1 > ?sz" using assms(2) by (simp_all add: word_less_nat_alt unat_minus_one not_less)
  then have "argptr (s_um (c_sys c)) (s_proc (c_sys c)) 0 0 = Some (?sz - 1)" using assms(1) by (simp add: argptr_def not_le)
  moreover have "store_bytes (?sz - 1) ?bs um (?sz - 1 + of_nat (k + 1)) = ?bs ! (k + 1)" for um
    by (rule store_bytes_nth) (use assms(3) in \<open>auto simp: le32_def\<close>)
  moreover have "?sz - 1 + of_nat (k + 1) = ?sz + of_nat k" by simp
  ultimately show ?thesis by (simp add: sys_getiocounts_def Let_def)
qed

end
