(* ===== verification/Ide.thy ===== *)
theory Ide
  imports Bio
begin

text \<open>
  The interrupt-driven disk driver \<^verbatim>\<open>p4/ide.c\<close>, which takes the place of the memory disk
  \<^verbatim>\<open>memide.c\<close> in the kernel that boots from a disk.  Processes append buffers to a queue linked
  through \<^verbatim>\<open>qnext\<close>; the controller works on the first one; its interrupt ends that request,
  wakes the process and starts the next one.  The controller is not code of the repository: it
  is the parameter \<open>ports\<close> of the driver (what the port instructions do to a hardware state),
  and the locale \<open>ata_disk\<close> states what the driver relies on of it.  The theorems show that the
  queue serves requests in order, that every request is served, and that a kernel which uses
  the driver sees the same buffers and the same disk as one which uses \<^verbatim>\<open>memide.c\<close>.
\<close>

unbundle bit_operations_syntax

subsection \<open>The ports\<close>

record 'h ports =
  p_inb :: "nat \<Rightarrow> 'h \<Rightarrow> byte \<times> 'h"
  p_outb :: "nat \<Rightarrow> byte \<Rightarrow> 'h \<Rightarrow> 'h"
  p_insl :: "nat \<Rightarrow> nat \<Rightarrow> 'h \<Rightarrow> byte list \<times> 'h"
  p_outsl :: "nat \<Rightarrow> byte list \<Rightarrow> nat \<Rightarrow> 'h \<Rightarrow> 'h"

definition FSSIZE :: nat where "FSSIZE = 1000"
definition SECTOR_SIZE :: nat where "SECTOR_SIZE = 512"
definition IDE_BSY :: byte where "IDE_BSY = 0x80"
definition IDE_DRDY :: byte where "IDE_DRDY = 0x40"
definition IDE_DF :: byte where "IDE_DF = 0x20"
definition IDE_ERR :: byte where "IDE_ERR = 0x01"
definition IDE_CMD_READ :: byte where "IDE_CMD_READ = 0x20"
definition IDE_CMD_WRITE :: byte where "IDE_CMD_WRITE = 0x30"
definition IDE_CMD_RDMUL :: byte where "IDE_CMD_RDMUL = 0xc4"
definition IDE_CMD_WRMUL :: byte where "IDE_CMD_WRMUL = 0xc5"

subsection \<open>The driver\<close>

text \<open>\<open>ide_next\<close> is the field \<^verbatim>\<open>qnext\<close> of each buffer; \<open>ide_woken\<close> is a ghost field: the
  buffers \<^verbatim>\<open>wakeup\<close> was called on, in order.\<close>

record 'h ide =
  ide_bufs :: "buf list"
  ide_next :: "nat \<Rightarrow> nat option"
  idequeue :: "nat option"
  havedisk1 :: bool
  ide_woken :: "nat list"
  ide_hw :: 'h

partial_function (option) idewait_loop :: "'h ports \<Rightarrow> 'h \<Rightarrow> (byte \<times> 'h) option" where
  "idewait_loop P h =
     (let r = fst (p_inb P 0x1f7 h); h' = snd (p_inb P 0x1f7 h) in
      if r AND (IDE_BSY OR IDE_DRDY) \<noteq> IDE_DRDY then idewait_loop P h' else Some (r, h'))"

definition idewait :: "'h ports \<Rightarrow> bool \<Rightarrow> 'h \<Rightarrow> (int \<times> 'h) option" where
  "idewait P checkerr h =
     map_option (\<lambda>(r, h'). (if checkerr \<and> r AND (IDE_DF OR IDE_ERR) \<noteq> 0 then -1 else 0, h'))
       (idewait_loop P h)"

fun probe_disk1 :: "'h ports \<Rightarrow> nat \<Rightarrow> 'h \<Rightarrow> bool \<times> 'h" where
  "probe_disk1 P 0 h = (False, h)"
| "probe_disk1 P (Suc n) h =
     (case p_inb P 0x1f7 h of (r, h') \<Rightarrow> if r \<noteq> 0 then (True, h') else probe_disk1 P n h')"

definition ideinit :: "'h ports \<Rightarrow> 'h ide \<Rightarrow> 'h ide option" where
  "ideinit P s =
     map_option (\<lambda>(_, h).
       case probe_disk1 P 1000 (p_outb P 0x1f6 (0xe0 OR push_bit 4 1) h) of (found, h1) \<Rightarrow>
         s\<lparr>havedisk1 := havedisk1 s \<or> found,
           ide_hw := p_outb P 0x1f6 (0xe0 OR push_bit 4 0) h1\<rparr>)
       (idewait P False (ide_hw s))"

text \<open>The registers \<^verbatim>\<open>idestart\<close> sets before the command.\<close>

definition ide_registers :: "'h ports \<Rightarrow> buf \<Rightarrow> int \<Rightarrow> 'h \<Rightarrow> 'h" where
  "ide_registers P b sector h =
     (let spb = BSIZE div SECTOR_SIZE;
          h = p_outb P 0x3f6 0 h;
          h = p_outb P 0x1f2 (of_nat spb) h;
          h = p_outb P 0x1f3 (word_of_int (sector AND 0xff)) h;
          h = p_outb P 0x1f4 (word_of_int (drop_bit 8 sector AND 0xff)) h;
          h = p_outb P 0x1f5 (word_of_int (drop_bit 16 sector AND 0xff)) h
      in p_outb P 0x1f6 (word_of_int (0xe0 OR push_bit 4 (int (bdev b) AND 1)
                                      OR (drop_bit 24 sector AND 0x0f))) h)"

definition idestart :: "'h ports \<Rightarrow> nat option \<Rightarrow> 'h ide \<Rightarrow> 'h ide outcome option" where
  "idestart P bp s =
     (case bp of None \<Rightarrow> Some (Panic ''idestart'')
      | Some i \<Rightarrow>
        let b = ide_bufs s ! i in
        if bblockno b \<ge> FSSIZE then Some (Panic ''incorrect blockno'')
        else
          let spb = BSIZE div SECTOR_SIZE;
              sector = int (bblockno b) * int spb;
              read_cmd = (if spb = 1 then IDE_CMD_READ else IDE_CMD_RDMUL);
              write_cmd = (if spb = 1 then IDE_CMD_WRITE else IDE_CMD_WRMUL)
          in if spb > 7 then Some (Panic ''idestart'')
             else map_option (\<lambda>(_, h).
               let h = ide_registers P b sector h in
               Ok (s\<lparr>ide_hw :=
                  (if bdirty b
                   then p_outsl P 0x1f0 (bdata b) (BSIZE div 4) (p_outb P 0x1f7 write_cmd h)
                   else p_outb P 0x1f7 read_cmd h)\<rparr>))
               (idewait P False (ide_hw s)))"

text \<open>The first half of \<^verbatim>\<open>ideintr\<close>: the data of a read, if the controller reports no error.\<close>

definition ide_fetch :: "'h ports \<Rightarrow> buf \<Rightarrow> 'h \<Rightarrow> (buf \<times> 'h) option" where
  "ide_fetch P b h =
     (if bdirty b then Some (b, h)
      else map_option (\<lambda>(r, h1).
        if r \<ge> 0 then (case p_insl P 0x1f0 (BSIZE div 4) h1 of (xs, h2) \<Rightarrow> (b\<lparr>bdata := xs\<rparr>, h2))
        else (b, h1)) (idewait P True h))"

definition ideintr :: "'h ports \<Rightarrow> 'h ide \<Rightarrow> 'h ide outcome option" where
  "ideintr P s =
     (case idequeue s of None \<Rightarrow> Some (Ok s)
      | Some i \<Rightarrow>
        let s = s\<lparr>idequeue := ide_next s i\<rparr> in
        Option.bind (ide_fetch P (ide_bufs s ! i) (ide_hw s)) (\<lambda>(b, h).
          let s = s\<lparr>ide_bufs := (ide_bufs s)[i := b\<lparr>bvalid := True, bdirty := False\<rparr>],
                    ide_hw := h, ide_woken := ide_woken s @ [i]\<rparr>
          in if idequeue s \<noteq> None then idestart P (idequeue s) s else Some (Ok s)))"

text \<open>\<^verbatim>\<open>pp\<close> points at \<^verbatim>\<open>idequeue\<close> or at the \<^verbatim>\<open>qnext\<close> field of a buffer.\<close>

datatype ide_slot = Queue_head | Next_of nat

partial_function (option) queue_end ::
  "(nat \<Rightarrow> nat option) \<Rightarrow> ide_slot \<Rightarrow> nat option \<Rightarrow> ide_slot option" where
  "queue_end nx pp cur =
     (case cur of None \<Rightarrow> Some pp | Some j \<Rightarrow> queue_end nx (Next_of j) (nx j))"

fun set_slot :: "ide_slot \<Rightarrow> nat \<Rightarrow> 'h ide \<Rightarrow> 'h ide" where
  "set_slot Queue_head i s = s\<lparr>idequeue := Some i\<rparr>"
| "set_slot (Next_of j) i s = s\<lparr>ide_next := (ide_next s)(j := Some i)\<rparr>"

text \<open>\<^verbatim>\<open>iderw\<close> up to the loop in which the process sleeps, and the condition that ends the loop.\<close>

definition iderw_request :: "'h ports \<Rightarrow> nat \<Rightarrow> nat \<Rightarrow> 'h ide \<Rightarrow> 'h ide outcome option" where
  "iderw_request P pid i s =
     (let b = ide_bufs s ! i in
      if \<not> holdingsleep pid (block_lock b) then Some (Panic ''iderw: buf not locked'')
      else if bvalid b \<and> \<not> bdirty b then Some (Panic ''iderw: nothing to do'')
      else if bdev b \<noteq> 0 \<and> \<not> havedisk1 s then Some (Panic ''iderw: ide disk 1 not present'')
      else
        let s = s\<lparr>ide_next := (ide_next s)(i := None)\<rparr> in
        Option.bind (queue_end (ide_next s) Queue_head (idequeue s)) (\<lambda>pp.
          let s = set_slot pp i s in
          if idequeue s = Some i then idestart P (Some i) s else Some (Ok s)))"

definition iderw_done :: "nat \<Rightarrow> 'h ide \<Rightarrow> bool" where
  "iderw_done i s = (bvalid (ide_bufs s ! i) \<and> \<not> bdirty (ide_bufs s ! i))"

subsection \<open>What the driver relies on of the controller\<close>

datatype ata_phase = Ready | Store bool nat | Fetch bool nat | Failed

record ata =
  a_media :: "bool \<Rightarrow> nat \<Rightarrow> block"
  a_bad :: "bool \<Rightarrow> nat \<Rightarrow> bool"
  a_regs :: "nat \<Rightarrow> byte"
  a_phase :: ata_phase
  a_busy :: nat

definition ata_drive :: "ata \<Rightarrow> bool" where
  "ata_drive a = bit (a_regs a 0x1f6) 4"

definition ata_lba :: "ata \<Rightarrow> nat" where
  "ata_lba a = unat (a_regs a 0x1f3) + 2 ^ 8 * unat (a_regs a 0x1f4)
     + 2 ^ 16 * unat (a_regs a 0x1f5) + 2 ^ 24 * (unat (a_regs a 0x1f6) mod 16)"

definition media_write :: "bool \<Rightarrow> nat \<Rightarrow> block \<Rightarrow> ata \<Rightarrow> ata" where
  "media_write d n xs a = a\<lparr>a_media := (a_media a)(d := (a_media a d)(n := xs))\<rparr>"

text \<open>The programmed-I/O protocol of an ATA controller with two drives.  \<open>ata\<close> reads off a
  hardware state the sectors of the drives, those that cannot be read, the registers, what the
  controller is doing and how many more times the status will read busy.  A controller that
  waits between a write command and the data would not satisfy \<open>write_data\<close>: the driver sends
  the data without polling.\<close>

locale ata_disk =
  fixes P :: "'h ports"
    and ata :: "'h \<Rightarrow> ata"
  assumes status_ready: "a_busy (ata h) = 0 \<Longrightarrow> p_inb P 0x1f7 h = (r, h') \<Longrightarrow>
      ata h' = ata h \<and> r AND 0xc0 = 0x40 \<and> (r AND 0x21 \<noteq> 0 \<longleftrightarrow> a_phase (ata h) = Failed)"
    and status_busy: "a_busy (ata h) \<noteq> 0 \<Longrightarrow> p_inb P 0x1f7 h = (r, h') \<Longrightarrow>
      r AND 0x80 \<noteq> 0 \<and> (\<exists>n < a_busy (ata h). ata h' = (ata h)\<lparr>a_busy := n\<rparr>)"
    and register: "a_busy (ata h) = 0 \<Longrightarrow> port \<in> {0x1f2..0x1f6} \<Longrightarrow>
      ata (p_outb P port v h) = (ata h)\<lparr>a_regs := (a_regs (ata h))(port := v)\<rparr>"
    and control: "ata (p_outb P 0x3f6 0 h) = ata h"
    and read_command: "a_busy (ata h) = 0 \<Longrightarrow> a_regs (ata h) 0x1f2 = 1 \<Longrightarrow>
      \<exists>n. ata (p_outb P 0x1f7 0x20 h) = (ata h)\<lparr>a_busy := n,
        a_phase := (if a_bad (ata h) (ata_drive (ata h)) (ata_lba (ata h)) then Failed
                    else Fetch (ata_drive (ata h)) (ata_lba (ata h)))\<rparr>"
    and write_command: "a_busy (ata h) = 0 \<Longrightarrow> a_regs (ata h) 0x1f2 = 1 \<Longrightarrow>
      ata (p_outb P 0x1f7 0x30 h) =
        (ata h)\<lparr>a_phase := Store (ata_drive (ata h)) (ata_lba (ata h))\<rparr>"
    and read_data: "a_busy (ata h) = 0 \<Longrightarrow> a_phase (ata h) = Fetch d n \<Longrightarrow>
      p_insl P 0x1f0 128 h = (xs, h') \<Longrightarrow>
      xs = a_media (ata h) d n \<and> ata h' = (ata h)\<lparr>a_phase := Ready\<rparr>"
    and write_data: "a_phase (ata h) = Store d n \<Longrightarrow> length xs = SECTOR_SIZE \<Longrightarrow>
      \<exists>k. ata (p_outsl P 0x1f0 xs 128 h) =
        media_write d n xs ((ata h)\<lparr>a_phase := Ready, a_busy := k\<rparr>)"

subsection \<open>The queue\<close>

fun queue_linked :: "(nat \<Rightarrow> nat option) \<Rightarrow> nat option \<Rightarrow> nat list \<Rightarrow> bool" where
  "queue_linked nx cur [] = (cur = None)"
| "queue_linked nx cur (i # js) = (cur = Some i \<and> queue_linked nx (nx i) js)"

lemma queue_linked_unique: "queue_linked nx cur xs \<Longrightarrow> queue_linked nx cur ys \<Longrightarrow> xs = ys"
proof (induction nx cur xs arbitrary: ys rule: queue_linked.induct)
  case (1 nx cur) then show ?case by (cases ys) auto
next
  case (2 nx cur i js) then show ?case by (cases ys) auto
qed

lemma queue_linked_None [simp]: "queue_linked nx None xs \<longleftrightarrow> xs = []"
  by (cases xs) auto

lemma queue_linked_upd [simp]: "i \<notin> set xs \<Longrightarrow> queue_linked (nx(i := c)) cur xs = queue_linked nx cur xs"
  by (induction xs arbitrary: cur) auto

lemma queue_end_linked:
  "queue_linked nx cur xs \<Longrightarrow>
     queue_end nx pp cur = Some (if xs = [] then pp else Next_of (last xs))"
  by (induction xs arbitrary: cur pp) (simp_all add: queue_end.simps)

lemma queue_linked_snoc:
  "queue_linked nx cur xs \<Longrightarrow> distinct xs \<Longrightarrow> i \<notin> set xs \<Longrightarrow> xs \<noteq> [] \<Longrightarrow>
     queue_linked (nx(i := None, last xs := Some i)) cur (xs @ [i])"
  by (induction xs arbitrary: cur) auto

lemma queue_linked_head: "queue_linked nx cur xs \<Longrightarrow> cur = Some i \<longleftrightarrow> (\<exists>ys. xs = i # ys)"
  by (cases xs) auto

subsection \<open>Serving requests one at a time\<close>

text \<open>What \<^verbatim>\<open>memide.c\<close> does to the buffers and the disk, without its checks.\<close>

definition serve :: "nat \<Rightarrow> buf list \<times> block list \<Rightarrow> buf list \<times> block list" where
  "serve i = (\<lambda>(bs, d). let b = bs ! i in
     if bdirty b then (bs[i := b\<lparr>bdirty := False, bvalid := True\<rparr>], d[bblockno b := bdata b])
     else (bs[i := b\<lparr>bdata := d ! bblockno b, bvalid := True\<rparr>], d))"

abbreviation serve_all :: "nat list \<Rightarrow> buf list \<times> block list \<Rightarrow> buf list \<times> block list" where
  "serve_all js \<equiv> fold serve js"

lemma serve_length [simp]:
  "length (fst (serve i p)) = length (fst p)" "length (snd (serve i p)) = length (snd p)"
  by (auto simp: serve_def Let_def split: prod.split)

lemma serve_all_length [simp]:
  "length (fst (serve_all js p)) = length (fst p)" "length (snd (serve_all js p)) = length (snd p)"
  by (induction js arbitrary: p) auto

lemma serve_other: "j \<noteq> i \<Longrightarrow> fst (serve i p) ! j = fst p ! j"
  by (auto simp: serve_def Let_def split: prod.split)

lemma serve_all_other: "j \<notin> set js \<Longrightarrow> fst (serve_all js p) ! j = fst p ! j"
  by (induction js arbitrary: p) (auto simp: serve_other)

lemma serve_edit:
  "j \<noteq> i \<Longrightarrow> serve i (bs[j := b], d) = apfst (\<lambda>xs. xs[j := b]) (serve i (bs, d))"
  by (auto simp: serve_def Let_def list_update_swap)

lemma serve_all_edit:
  "j \<notin> set js \<Longrightarrow>
     serve_all js (bs[j := b], d) = apfst (\<lambda>xs. xs[j := b]) (serve_all js (bs, d))"
proof (induction js arbitrary: bs d)
  case (Cons i js)
  then show ?case
    by (cases "serve i (bs, d)") (simp add: serve_edit)
qed simp

text \<open>The controller stores a block before the request is answered; answering it stores the
  same block again.\<close>

lemma serve_early_write:
  "bdirty (bs ! i) \<Longrightarrow> serve i (bs, d[bblockno (bs ! i) := bdata (bs ! i)]) = serve i (bs, d)"
  by (simp add: serve_def)

lemma serve_is_iderw:
  assumes "holdingsleep pid (block_lock (buf_at s i))" "bdev (buf_at s i) = 1"
    and "\<not> (bvalid (buf_at s i) \<and> \<not> bdirty (buf_at s i))" "bblockno (buf_at s i) < length (disk s)"
  shows "\<exists>s'. iderw pid i s = Ok s' \<and> (bufs s', disk s') = serve i (bufs s, disk s)"
  using assms by (auto simp: iderw_def serve_def set_buf_def Let_def)

subsection \<open>The protocol of one request\<close>

text \<open>The disk of the file system is drive 1.\<close>

definition media_disk :: "ata \<Rightarrow> block list" where
  "media_disk a = map (a_media a True) [0..<FSSIZE]"

definition request_ok :: "buf \<Rightarrow> bool" where
  "request_ok b = (bdev b = ROOTDEV \<and> bblockno b < FSSIZE \<and> length (bdata b) = BSIZE
     \<and> \<not> (bvalid b \<and> \<not> bdirty b))"

text \<open>The controller after \<open>idestart\<close>: a write is on the medium, a read is under way.\<close>

definition started :: "buf \<Rightarrow> ata \<Rightarrow> bool" where
  "started b a = (if bdirty b then a_media a True (bblockno b) = bdata b
     else a_phase a = (if a_bad a True (bblockno b) then Failed else Fetch True (bblockno b)))"

lemma length_media_disk [simp]: "length (media_disk a) = FSSIZE"
  by (simp add: media_disk_def)

lemma media_disk_nth: "n < FSSIZE \<Longrightarrow> media_disk a ! n = a_media a True n"
  by (simp add: media_disk_def)

lemma media_disk_write:
  "media_disk (media_write True n xs a) = (media_disk a)[n := xs]"
  by (rule nth_equalityI) (auto simp: media_disk_def media_write_def nth_list_update)

lemma media_disk_upd [simp]:
  "media_disk (a\<lparr>a_busy := n\<rparr>) = media_disk a"
  "media_disk (a\<lparr>a_phase := p\<rparr>) = media_disk a"
  "media_disk (a\<lparr>a_regs := r\<rparr>) = media_disk a"
  by (simp_all add: media_disk_def)

lemma low_byte: "0 \<le> n \<Longrightarrow> unat (word_of_int (n AND 255) :: byte) = nat (n mod 256)"
proof -
  assume "0 \<le> n"
  have "n AND 255 = n AND mask 8" by (simp add: mask_eq_exp_minus_1)
  also have "\<dots> = n mod 256" by (simp add: take_bit_eq_mask [symmetric] take_bit_eq_mod)
  finally have "n AND 255 = n mod 256" .
  then show ?thesis
    by (simp only: unat_eq_nat_uint uint_word_of_int) simp
qed

context ata_disk
begin

lemma idewait_loop_ready:
  "\<exists>r h'. idewait_loop P h = Some (r, h') \<and> ata h' = (ata h)\<lparr>a_busy := 0\<rparr>
     \<and> (r AND 0x21 \<noteq> 0 \<longleftrightarrow> a_phase (ata h) = Failed)"
proof (induction "a_busy (ata h)" arbitrary: h rule: less_induct)
  case less
  obtain r h' where io: "p_inb P 0x1f7 h = (r, h')" by fastforce
  note bits = IDE_BSY_def IDE_DRDY_def
  show ?case
  proof (cases "a_busy (ata h) = 0")
    case True
    with status_ready [OF True io] io show ?thesis
      by (subst idewait_loop.simps) (auto simp: bits)
  next
    case False
    from status_busy [OF False io] obtain n where
      b: "r AND 0x80 \<noteq> 0" "n < a_busy (ata h)" "ata h' = (ata h)\<lparr>a_busy := n\<rparr>" by blast
    have "r AND 0xc0 \<noteq> 0x40"
    proof
      assume "r AND 0xc0 = 0x40"
      then have "(r AND 0xc0) AND 0x80 = 0x40 AND 0x80" by simp
      then have "r AND (0xc0 AND 0x80) = 0" by (simp only: and.assoc) simp
      with b(1) show False by simp
    qed
    then have "idewait_loop P h = idewait_loop P h'"
      by (subst idewait_loop.simps) (simp add: io bits)
    moreover have "a_busy (ata h') < a_busy (ata h)" using b by simp
    ultimately show ?thesis using less [of h'] b(3) by auto
  qed
qed

lemma idewait_ready:
  "\<exists>h'. idewait P c h = Some (if c \<and> a_phase (ata h) = Failed then -1 else 0, h')
     \<and> ata h' = (ata h)\<lparr>a_busy := 0\<rparr>"
  using idewait_loop_ready [of h] by (auto simp: idewait_def IDE_DF_def IDE_ERR_def)

lemma ide_registers_set:
  assumes "a_busy (ata h) = 0" "bdev b = ROOTDEV" "n < FSSIZE"
  defines "h' \<equiv> ide_registers P b (int n) h"
  shows "\<exists>rg. ata h' = (ata h)\<lparr>a_regs := rg\<rparr> \<and> rg 0x1f2 = 1"
    and "ata_drive (ata h') = True" and "ata_lba (ata h') = n"
proof -
  have big: "drop_bit 24 (int n) = 0" "drop_bit 16 (int n) = 0"
    using assms(3) by (simp_all add: drop_bit_eq_div FSSIZE_def)
  have mid: "unat (word_of_int (drop_bit 8 (int n) AND 255) :: byte) = n div 256"
    using assms(3) by (simp add: low_byte drop_bit_eq_div FSSIZE_def nat_div_distrib nat_mod_distrib)
  have a: "ata h' = (ata h)\<lparr>a_regs := (a_regs (ata h))(0x1f2 := 1,
     0x1f3 := word_of_int (int n AND 255), 0x1f4 := word_of_int (drop_bit 8 (int n) AND 255),
     0x1f5 := 0, 0x1f6 := 0xf0)\<rparr>"
    using assms(1,2) big
    by (simp add: h'_def ide_registers_def Let_def register control BSIZE_def SECTOR_SIZE_def
        ROOTDEV_def)
  then show "\<exists>rg. ata h' = (ata h)\<lparr>a_regs := rg\<rparr> \<and> rg 0x1f2 = 1" by auto
  show "ata_drive (ata h') = True" by (simp add: a ata_drive_def)
  show "ata_lba (ata h') = n"
    by (simp add: a ata_lba_def mid low_byte nat_mod_distrib)
qed

end

text \<open>The queue holds the requests \<open>js\<close>; the controller works on the first.\<close>

definition ide_inv :: "('h \<Rightarrow> ata) \<Rightarrow> nat list \<Rightarrow> 'h ide \<Rightarrow> bool" where
  "ide_inv ata js s \<longleftrightarrow> queue_linked (ide_next s) (idequeue s) js \<and> distinct js
     \<and> (\<forall>i\<in>set js. i < length (ide_bufs s) \<and> request_ok (ide_bufs s ! i))
     \<and> (\<forall>n. length (a_media (ata (ide_hw s)) True n) = BSIZE)
     \<and> (js \<noteq> [] \<longrightarrow> started (ide_bufs s ! hd js) (ata (ide_hw s)))"

text \<open>The buffers and the disk as they will be when the queue is empty.\<close>

definition ide_view :: "('h \<Rightarrow> ata) \<Rightarrow> nat list \<Rightarrow> 'h ide \<Rightarrow> buf list \<times> block list" where
  "ide_view ata js s = serve_all js (ide_bufs s, media_disk (ata (ide_hw s)))"

definition no_bad_sectors :: "ata \<Rightarrow> bool" where
  "no_bad_sectors a = (\<forall>n. \<not> a_bad a True n)"

lemma ide_inv_None: "ide_inv ata js s \<Longrightarrow> idequeue s = None \<longleftrightarrow> js = []"
  by (cases js) (auto simp: ide_inv_def)

context ata_disk
begin

lemma idestart_prepares:
  assumes "request_ok b"
  obtains h h1 rg where "idewait P False h0 = Some (0, h1)" "h = ide_registers P b (int (bblockno b)) h1"
    "ata h = (ata h0)\<lparr>a_busy := 0, a_regs := rg\<rparr>" "rg 0x1f2 = 1"
    "ata_drive (ata h) = True" "ata_lba (ata h) = bblockno b"
proof -
  obtain h1 where w: "idewait P False h0 = Some (0, h1)" "ata h1 = (ata h0)\<lparr>a_busy := 0\<rparr>"
    using idewait_ready [of False h0] by auto
  then show ?thesis
    using that ide_registers_set [of h1 b "bblockno b"] assms by (auto simp: request_ok_def)
qed

lemma idestart_write:
  assumes "request_ok (ide_bufs s ! i)" "bdirty (ide_bufs s ! i)"
  defines "b \<equiv> ide_bufs s ! i"
  shows "\<exists>h rg k. idestart P (Some i) s = Some (Ok (s\<lparr>ide_hw := h\<rparr>))
     \<and> ata h = media_write True (bblockno b) (bdata b)
           ((ata (ide_hw s))\<lparr>a_regs := rg, a_phase := Ready, a_busy := k\<rparr>)"
proof -
  have bk: "request_ok b" using assms(1) by (simp add: b_def)
  then obtain h h1 rg where w: "idewait P False (ide_hw s) = Some (0, h1)"
      "h = ide_registers P b (int (bblockno b)) h1"
    and h: "ata h = (ata (ide_hw s))\<lparr>a_busy := 0, a_regs := rg\<rparr>" "rg 0x1f2 = 1"
      "ata_drive (ata h) = True" "ata_lba (ata h) = bblockno b"
    by (rule idestart_prepares)
  define h3 where "h3 = p_outb P 0x1f7 0x30 h"
  have h3: "ata h3 = (ata h)\<lparr>a_phase := Store True (bblockno b)\<rparr>"
    using write_command [of h] h(2-4) by (simp add: h3_def h(1))
  then obtain k where "ata (p_outsl P 0x1f0 (bdata b) 128 h3)
      = media_write True (bblockno b) (bdata b) ((ata h3)\<lparr>a_phase := Ready, a_busy := k\<rparr>)"
    using write_data [of h3 True "bblockno b" "bdata b"] bk
    by (auto simp: BSIZE_def SECTOR_SIZE_def request_ok_def)
  then have "ata (p_outsl P 0x1f0 (bdata b) 128 h3) = media_write True (bblockno b) (bdata b)
        ((ata (ide_hw s))\<lparr>a_regs := rg, a_phase := Ready, a_busy := k\<rparr>)"
    by (simp add: h3 h(1))
  moreover have "idestart P (Some i) s
      = Some (Ok (s\<lparr>ide_hw := p_outsl P 0x1f0 (bdata b) 128 h3\<rparr>))"
    using bk assms(2) w(1)
    by (simp add: idestart_def Let_def b_def [symmetric] h3_def w(2) BSIZE_def SECTOR_SIZE_def
        IDE_CMD_WRITE_def request_ok_def)
  ultimately show ?thesis by blast
qed

lemma idestart_read:
  assumes "request_ok (ide_bufs s ! i)" "\<not> bdirty (ide_bufs s ! i)"
  defines "b \<equiv> ide_bufs s ! i" and "a \<equiv> ata (ide_hw s)"
  shows "\<exists>h rg k. idestart P (Some i) s = Some (Ok (s\<lparr>ide_hw := h\<rparr>))
     \<and> ata h = a\<lparr>a_regs := rg, a_busy := k, a_phase :=
           (if a_bad a True (bblockno b) then Failed else Fetch True (bblockno b))\<rparr>"
proof -
  have bk: "request_ok b" using assms(1) by (simp add: b_def)
  then obtain h h1 rg where w: "idewait P False (ide_hw s) = Some (0, h1)"
      "h = ide_registers P b (int (bblockno b)) h1"
    and h: "ata h = a\<lparr>a_busy := 0, a_regs := rg\<rparr>" "rg 0x1f2 = 1"
      "ata_drive (ata h) = True" "ata_lba (ata h) = bblockno b"
    unfolding a_def by (rule idestart_prepares)
  obtain k where "ata (p_outb P 0x1f7 0x20 h) = (ata h)\<lparr>a_busy := k,
      a_phase := (if a_bad (ata h) True (bblockno b) then Failed else Fetch True (bblockno b))\<rparr>"
    using read_command [of h] h(2) unfolding h(3,4) by (auto simp: h(1))
  then have "ata (p_outb P 0x1f7 0x20 h) = a\<lparr>a_regs := rg, a_busy := k, a_phase :=
      (if a_bad a True (bblockno b) then Failed else Fetch True (bblockno b))\<rparr>"
    by (simp add: h(1))
  moreover have "idestart P (Some i) s = Some (Ok (s\<lparr>ide_hw := p_outb P 0x1f7 0x20 h\<rparr>))"
    using bk assms(2) w(1)
    by (simp add: idestart_def Let_def b_def [symmetric] w(2) BSIZE_def SECTOR_SIZE_def
        IDE_CMD_READ_def request_ok_def)
  ultimately show ?thesis by blast
qed

text \<open>Starting a request keeps what the queue will come to, because the early write is one the
  request makes anyway.\<close>

lemma idestart_ok:
  assumes "request_ok (ide_bufs s ! i)"
    and "\<forall>n. length (a_media (ata (ide_hw s)) True n) = BSIZE"
  shows "\<exists>h. idestart P (Some i) s = Some (Ok (s\<lparr>ide_hw := h\<rparr>)) \<and> started (ide_bufs s ! i) (ata h)
     \<and> (\<forall>n. length (a_media (ata h) True n) = BSIZE) \<and> a_bad (ata h) = a_bad (ata (ide_hw s))
     \<and> serve i (ide_bufs s, media_disk (ata h)) = serve i (ide_bufs s, media_disk (ata (ide_hw s)))"
proof (cases "bdirty (ide_bufs s ! i)")
  case True
  then obtain h rg k where h: "idestart P (Some i) s = Some (Ok (s\<lparr>ide_hw := h\<rparr>))"
    "ata h = media_write True (bblockno (ide_bufs s ! i)) (bdata (ide_bufs s ! i))
       ((ata (ide_hw s))\<lparr>a_regs := rg, a_phase := Ready, a_busy := k\<rparr>)"
    using idestart_write [OF assms(1)] by blast
  then have "media_disk (ata h)
      = (media_disk (ata (ide_hw s)))[bblockno (ide_bufs s ! i) := bdata (ide_bufs s ! i)]"
    by (simp add: media_disk_write)
  with h True assms show ?thesis
    by (auto simp: started_def serve_early_write media_write_def request_ok_def)
next
  case False
  then show ?thesis
    using idestart_read [OF assms(1)] assms by (auto simp: started_def)
qed

end

subsection \<open>The driver keeps its invariant\<close>

definition fetched :: "ata \<Rightarrow> buf \<Rightarrow> buf" where
  "fetched a b = (if bdirty b \<or> a_bad a True (bblockno b) then b
     else b\<lparr>bdata := a_media a True (bblockno b)\<rparr>)"

text \<open>One answered request, on a medium whose sectors can all be read, is one request served.\<close>

lemma serve_fetched:
  assumes "started (bs ! i) a" "bblockno (bs ! i) < FSSIZE" "no_bad_sectors a"
  shows "serve i (bs, media_disk a)
    = (bs[i := (fetched a (bs ! i))\<lparr>bvalid := True, bdirty := False\<rparr>], media_disk a)"
proof (cases "bdirty (bs ! i)")
  case True
  then have "(media_disk a)[bblockno (bs ! i) := bdata (bs ! i)] = media_disk a"
    using assms by (simp add: started_def list_update_same_conv media_disk_nth)
  with True show ?thesis by (cases "bs ! i") (simp add: serve_def fetched_def)
next
  case False
  then show ?thesis
    using assms
    by (cases "bs ! i") (simp add: serve_def fetched_def media_disk_nth no_bad_sectors_def)
qed

context ata_disk
begin

lemma ide_fetch_ok:
  assumes "started b (ata h)"
  shows "\<exists>h'. ide_fetch P b h = Some (fetched (ata h) b, h') \<and> a_media (ata h') = a_media (ata h)
     \<and> a_bad (ata h') = a_bad (ata h)"
proof (cases "bdirty b")
  case True then show ?thesis by (simp add: ide_fetch_def fetched_def)
next
  case False
  obtain h1 where w: "idewait P True h = Some (if a_phase (ata h) = Failed then -1 else 0, h1)"
    "ata h1 = (ata h)\<lparr>a_busy := 0\<rparr>"
    using idewait_ready [of True h] by auto
  obtain xs h2 where io: "p_insl P 0x1f0 128 h1 = (xs, h2)" by fastforce
  show ?thesis
  proof (cases "a_bad (ata h) True (bblockno b)")
    case True
    with False assms w show ?thesis
      by (simp add: ide_fetch_def fetched_def started_def)
  next
    case good: False
    then have "a_phase (ata h1) = Fetch True (bblockno b)"
      using False assms w(2) by (simp add: started_def)
    from read_data [OF _ this io] w False good assms io show ?thesis
      by (simp add: ide_fetch_def fetched_def started_def BSIZE_def)
  qed
qed

lemma ideintr_ok:
  assumes inv: "ide_inv ata (i # js) s"
  shows "\<exists>s'. ideintr P s = Some (Ok s') \<and> ide_inv ata js s' \<and> ide_woken s' = ide_woken s @ [i]
     \<and> havedisk1 s' = havedisk1 s \<and> a_bad (ata (ide_hw s')) = a_bad (ata (ide_hw s))
     \<and> ide_bufs s' = (ide_bufs s)[i := (fetched (ata (ide_hw s)) (ide_bufs s ! i))
                                       \<lparr>bvalid := True, bdirty := False\<rparr>]
     \<and> (no_bad_sectors (ata (ide_hw s)) \<longrightarrow> ide_view ata js s' = ide_view ata (i # js) s)"
proof -
  let ?a = "ata (ide_hw s)" and ?b = "ide_bufs s ! i"
  from inv have i: "i < length (ide_bufs s)" "request_ok ?b" "started ?b ?a" "i \<notin> set js"
    and q: "idequeue s = Some i" "queue_linked (ide_next s) (ide_next s i) js" "distinct js"
    and js: "\<forall>j\<in>set js. j < length (ide_bufs s) \<and> request_ok (ide_bufs s ! j)"
    and len: "\<forall>n. length (a_media ?a True n) = BSIZE"
    by (auto simp: ide_inv_def)
  obtain h' where f: "ide_fetch P ?b (ide_hw s) = Some (fetched ?a ?b, h')"
    "a_media (ata h') = a_media ?a" "a_bad (ata h') = a_bad ?a"
    using ide_fetch_ok [OF i(3)] by blast
  define s1 where "s1 = s\<lparr>idequeue := ide_next s i,
      ide_bufs := (ide_bufs s)[i := (fetched ?a ?b)\<lparr>bvalid := True, bdirty := False\<rparr>],
      ide_hw := h', ide_woken := ide_woken s @ [i]\<rparr>"
  have d: "media_disk (ata h') = media_disk ?a" by (simp add: media_disk_def f(2))
  have view: "no_bad_sectors ?a \<longrightarrow>
      serve_all js (ide_bufs s1, media_disk (ata (ide_hw s1))) = ide_view ata (i # js) s"
    using serve_fetched [of "ide_bufs s" i ?a] i
    by (simp add: s1_def d ide_view_def request_ok_def)
  have step: "ideintr P s = (if ide_next s i \<noteq> None then idestart P (ide_next s i) s1 else Some (Ok s1))"
    by (simp add: ideintr_def q f Let_def s1_def)
  show ?thesis
  proof (cases js)
    case Nil
    then show ?thesis
      using step q view f i len by (auto simp: s1_def ide_inv_def ide_view_def)
  next
    case (Cons j ks)
    then have j: "ide_next s i = Some j" "request_ok (ide_bufs s1 ! j)"
      using q js i by (auto simp: s1_def)
    have "\<forall>n. length (a_media (ata (ide_hw s1)) True n) = BSIZE" using len f by (simp add: s1_def)
    from idestart_ok [OF j(2) this] obtain h where
      h: "idestart P (Some j) s1 = Some (Ok (s1\<lparr>ide_hw := h\<rparr>))" "started (ide_bufs s1 ! j) (ata h)"
        "\<forall>n. length (a_media (ata h) True n) = BSIZE" "a_bad (ata h) = a_bad (ata (ide_hw s1))"
        "serve j (ide_bufs s1, media_disk (ata h)) = serve j (ide_bufs s1, media_disk (ata (ide_hw s1)))"
      by blast
    have "ide_view ata js (s1\<lparr>ide_hw := h\<rparr>) = serve_all js (ide_bufs s1, media_disk (ata (ide_hw s1)))"
      using h(5) by (simp add: ide_view_def Cons)
    moreover have "ide_inv ata js (s1\<lparr>ide_hw := h\<rparr>)"
      using h q js i Cons by (auto simp: ide_inv_def s1_def nth_list_update)
    ultimately show ?thesis
      using step h(1,4) j(1) view f(3) by (auto simp: s1_def)
  qed
qed

end

context ata_disk
begin

lemma iderw_request_ok:
  assumes inv: "ide_inv ata js s" and i: "i < length (ide_bufs s)" "i \<notin> set js"
    and b: "request_ok (ide_bufs s ! i)" "holdingsleep pid (block_lock (ide_bufs s ! i))"
    and disk1: "havedisk1 s"
  shows "\<exists>s'. iderw_request P pid i s = Some (Ok s') \<and> ide_inv ata (js @ [i]) s'
     \<and> ide_bufs s' = ide_bufs s \<and> ide_woken s' = ide_woken s \<and> havedisk1 s'
     \<and> a_bad (ata (ide_hw s')) = a_bad (ata (ide_hw s))
     \<and> ide_view ata (js @ [i]) s' = serve i (ide_view ata js s)"
proof -
  let ?s0 = "s\<lparr>ide_next := (ide_next s)(i := None)\<rparr>"
  from inv have q: "queue_linked (ide_next s) (idequeue s) js" "distinct js"
    and len: "\<forall>n. length (a_media (ata (ide_hw s)) True n) = BSIZE"
    by (auto simp: ide_inv_def)
  have "queue_linked ((ide_next s)(i := None)) (idequeue s) js" using q i by simp
  from queue_end_linked [OF this, of Queue_head]
  have req: "iderw_request P pid i s =
      (let s1 = set_slot (if js = [] then Queue_head else Next_of (last js)) i ?s0
       in if idequeue s1 = Some i then idestart P (Some i) s1 else Some (Ok s1))"
    using b disk1 by (auto simp: iderw_request_def request_ok_def Let_def)
  show ?thesis
  proof (cases "js = []")
    case True
    let ?s1 = "?s0\<lparr>idequeue := Some i\<rparr>"
    have "request_ok (ide_bufs ?s1 ! i)" "\<forall>n. length (a_media (ata (ide_hw ?s1)) True n) = BSIZE"
      using b len by simp_all
    from idestart_ok [OF this] req True i b disk1 q show ?thesis
      by (auto simp: ide_inv_def ide_view_def)
  next
    case False
    then have "idequeue s \<noteq> Some i" using q(1) i(2) by (cases js) auto
    then show ?thesis
      using req False inv i b disk1 queue_linked_snoc [OF q i(2) False]
      by (auto simp: ide_inv_def ide_view_def hd_append)
  qed
qed

lemma ideinit_ok:
  assumes "ide_inv ata [] s"
  shows "\<exists>s'. ideinit P s = Some s' \<and> ide_inv ata [] s' \<and> havedisk1 s'
     \<and> ide_bufs s' = ide_bufs s \<and> ide_woken s' = ide_woken s
     \<and> media_disk (ata (ide_hw s')) = media_disk (ata (ide_hw s))
     \<and> a_bad (ata (ide_hw s')) = a_bad (ata (ide_hw s))"
proof -
  obtain h where w: "idewait P False (ide_hw s) = Some (0, h)" "ata h = (ata (ide_hw s))\<lparr>a_busy := 0\<rparr>"
    using idewait_ready [of False "ide_hw s"] by auto
  define h1 where "h1 = p_outb P 0x1f6 0xf0 h"
  obtain r h2 where io: "p_inb P 0x1f7 h1 = (r, h2)" by fastforce
  have h1: "\<exists>rg. ata h1 = (ata h)\<lparr>a_regs := rg\<rparr>" "a_busy (ata h1) = 0"
    using w by (auto simp: h1_def register)
  have h2: "ata h2 = ata h1" "r \<noteq> 0" using status_ready [OF h1(2) io] by auto
  have "probe_disk1 P 1000 h1 = (True, h2)"
    using h2 io probe_disk1.simps(2) [of P 999 h1] by simp
  with w h1 h2 assms show ?thesis
    by (auto simp: ideinit_def h1_def [symmetric] register ide_inv_def)
qed

end

subsection \<open>Processes and interrupts interleaved\<close>

text \<open>The events the lock \<^verbatim>\<open>idelock\<close> makes atomic.  A process that has a request in the queue
  sleeps inside \<^verbatim>\<open>iderw\<close> with the buffer's sleep lock held: so no process changes a queued
  buffer or asks for it again.  The file system only asks for blocks of its disk.\<close>

datatype ide_event = Request nat nat | Interrupt | Change nat buf

inductive ide_run :: "'h ports \<Rightarrow> 'h ide \<Rightarrow> ide_event list \<Rightarrow> 'h ide \<Rightarrow> bool" for P where
  run_end: "ide_run P s [] s"
| run_request: "queue_linked (ide_next s) (idequeue s) js \<Longrightarrow> i \<notin> set js \<Longrightarrow> i < length (ide_bufs s) \<Longrightarrow>
    bdev (ide_bufs s ! i) = ROOTDEV \<Longrightarrow> bblockno (ide_bufs s ! i) < FSSIZE \<Longrightarrow>
    length (bdata (ide_bufs s ! i)) = BSIZE \<Longrightarrow>
    iderw_request P pid i s = Some (Ok s1) \<Longrightarrow> ide_run P s1 es s' \<Longrightarrow>
    ide_run P s (Request pid i # es) s'"
| run_interrupt: "ideintr P s = Some (Ok s1) \<Longrightarrow> ide_run P s1 es s' \<Longrightarrow>
    ide_run P s (Interrupt # es) s'"
| run_change: "queue_linked (ide_next s) (idequeue s) js \<Longrightarrow> i \<notin> set js \<Longrightarrow>
    ide_run P (s\<lparr>ide_bufs := (ide_bufs s)[i := b]\<rparr>) es s' \<Longrightarrow>
    ide_run P s (Change i b # es) s'"

text \<open>The same events on the memory disk: a request is answered at once.\<close>

fun memide_run :: "ide_event list \<Rightarrow> io \<Rightarrow> io outcome" where
  "memide_run [] s = Ok s"
| "memide_run (Request pid i # es) s = and_then (iderw pid i s) (memide_run es)"
| "memide_run (Interrupt # es) s = memide_run es s"
| "memide_run (Change i b # es) s = memide_run es (set_buf i b s)"

fun requests :: "ide_event list \<Rightarrow> nat list" where
  "requests [] = []"
| "requests (Request pid i # es) = i # requests es"
| "requests (_ # es) = requests es"

fun ide_intrs :: "'h ports \<Rightarrow> nat \<Rightarrow> 'h ide \<Rightarrow> 'h ide outcome option" where
  "ide_intrs P 0 s = Some (Ok s)"
| "ide_intrs P (Suc n) s =
     Option.bind (ideintr P s) (\<lambda>r. case r of Ok s' \<Rightarrow> ide_intrs P n s' | _ \<Rightarrow> Some r)"

lemma ide_run_append: "ide_run P s es s1 \<Longrightarrow> ide_run P s1 es' s2 \<Longrightarrow> ide_run P s (es @ es') s2"
  by (induction rule: ide_run.induct) (auto intro: ide_run.intros)

lemma iderw_request_checks:
  "iderw_request P pid i s = Some (Ok s') \<Longrightarrow> holdingsleep pid (block_lock (ide_bufs s ! i))
     \<and> \<not> (bvalid (ide_bufs s ! i) \<and> \<not> bdirty (ide_bufs s ! i))"
  by (auto simp: iderw_request_def Let_def split: if_splits)

lemma ide_view_change:
  "i \<notin> set js \<Longrightarrow> ide_view ata js (s\<lparr>ide_bufs := (ide_bufs s)[i := b]\<rparr>)
     = apfst (\<lambda>bs. bs[i := b]) (ide_view ata js s)"
  by (simp add: ide_view_def serve_all_edit)

lemma ide_inv_change:
  "ide_inv ata js s \<Longrightarrow> i \<notin> set js \<Longrightarrow> ide_inv ata js (s\<lparr>ide_bufs := (ide_bufs s)[i := b]\<rparr>)"
  by (auto simp: ide_inv_def) (metis nth_list_update_neq, metis hd_in_set nth_list_update_neq)

lemma ide_inv_linked: "ide_inv ata js s \<Longrightarrow> queue_linked (ide_next s) (idequeue s) ks \<Longrightarrow> ks = js"
  unfolding ide_inv_def by (blast intro: queue_linked_unique)

lemma ideintr_idle: "idequeue s = None \<Longrightarrow> ideintr P s = Some (Ok s)"
  by (simp add: ideintr_def)

text \<open>The states of the driver and of the memory disk that correspond.\<close>

definition ide_sim :: "('h \<Rightarrow> ata) \<Rightarrow> nat list \<Rightarrow> 'h ide \<Rightarrow> io \<Rightarrow> bool" where
  "ide_sim ata js s io \<longleftrightarrow> ide_inv ata js s \<and> havedisk1 s \<and> no_bad_sectors (ata (ide_hw s))
     \<and> (bufs io, disk io) = ide_view ata js s"

lemma ide_sim_buf:
  assumes "ide_sim ata js s io" "i \<notin> set js"
  shows "buf_at io i = ide_bufs s ! i" "length (disk io) = FSSIZE"
proof -
  from assms(1) have "bufs io = fst (ide_view ata js s)" "disk io = snd (ide_view ata js s)"
    by (metis fst_conv ide_sim_def) (metis assms(1) snd_conv ide_sim_def)
  with assms(2) show "buf_at io i = ide_bufs s ! i" "length (disk io) = FSSIZE"
    by (simp_all add: ide_view_def serve_all_other)
qed

context ata_disk
begin

lemma request_sim:
  assumes sim: "ide_sim ata js s io" and i: "i \<notin> set js" "i < length (ide_bufs s)"
    and b: "bdev (ide_bufs s ! i) = ROOTDEV" "bblockno (ide_bufs s ! i) < FSSIZE"
      "length (bdata (ide_bufs s ! i)) = BSIZE"
    and req: "iderw_request P pid i s = Some (Ok s1)"
  shows "\<exists>io1. iderw pid i io = Ok io1 \<and> ide_sim ata (js @ [i]) s1 io1 \<and> ide_woken s1 = ide_woken s"
proof -
  note chk = iderw_request_checks [OF req] and buf = ide_sim_buf [OF sim i(1)]
  from sim have inv: "ide_inv ata js s" "havedisk1 s" and view: "(bufs io, disk io) = ide_view ata js s"
    and good: "no_bad_sectors (ata (ide_hw s))" by (auto simp: ide_sim_def)
  have ok: "request_ok (ide_bufs s ! i)" using b chk by (simp add: request_ok_def)
  from iderw_request_ok [OF inv(1) i(2,1) ok chk [THEN conjunct1] inv(2)] req have
    s1: "ide_inv ata (js @ [i]) s1" "ide_woken s1 = ide_woken s" "havedisk1 s1"
      "a_bad (ata (ide_hw s1)) = a_bad (ata (ide_hw s))"
      "ide_view ata (js @ [i]) s1 = serve i (ide_view ata js s)" by auto
  from serve_is_iderw [of pid io i] obtain io1 where
    "iderw pid i io = Ok io1" "(bufs io1, disk io1) = serve i (bufs io, disk io)"
    using chk b by (auto simp: buf ROOTDEV_def)
  with s1 good show ?thesis by (auto simp: ide_sim_def no_bad_sectors_def view)
qed

lemma interrupt_sim:
  assumes sim: "ide_sim ata js s io" and intr: "ideintr P s = Some (Ok s1)"
  shows "ide_sim ata (tl js) s1 io \<and> ide_woken s1 @ tl js = ide_woken s @ js"
proof (cases js)
  case Nil
  with sim have "idequeue s = None" by (simp add: ide_sim_def ide_inv_def)
  with intr sim Nil show ?thesis by (simp add: ideintr_idle)
next
  case (Cons i ks)
  with ideintr_ok [of i ks s] sim intr show ?thesis
    by (auto simp: ide_sim_def no_bad_sectors_def)
qed

lemma run_sim:
  assumes "ide_run P s es s'" "ide_sim ata js s io"
  shows "\<exists>js' io'. memide_run es io = Ok io' \<and> ide_sim ata js' s' io'
     \<and> ide_woken s' @ js' = ide_woken s @ js @ requests es"
  using assms
proof (induction arbitrary: js io rule: ide_run.induct)
  case (run_end s) then show ?case by auto
next
  case (run_request s ks i pid s1 es s')
  then have "ks = js" by (auto simp: ide_sim_def dest: ide_inv_linked)
  with run_request request_sim obtain io1 where
    "iderw pid i io = Ok io1" "ide_sim ata (js @ [i]) s1 io1" "ide_woken s1 = ide_woken s" by blast
  with run_request.IH [of "js @ [i]" io1] show ?case by auto
next
  case (run_interrupt s s1 es s')
  with interrupt_sim have "ide_sim ata (tl js) s1 io" "ide_woken s1 @ tl js = ide_woken s @ js"
    by blast+
  with run_interrupt.IH show ?case by (fastforce simp flip: append_assoc)
next
  case (run_change s ks i b es s')
  then have "ks = js" by (auto simp: ide_sim_def dest: ide_inv_linked)
  with run_change.prems run_change.hyps(2)
  have "ide_sim ata js (s\<lparr>ide_bufs := (ide_bufs s)[i := b]\<rparr>) (set_buf i b io)"
    by (auto simp: ide_sim_def ide_view_change ide_inv_change set_buf_def) (metis apfst_conv)
  with run_change.IH show ?case by fastforce
qed

end

context ata_disk
begin

lemma intrs_drain:
  assumes "ide_inv ata js s"
  shows "\<exists>s'. ide_intrs P (length js) s = Some (Ok s') \<and> ide_inv ata [] s'
     \<and> ide_woken s' = ide_woken s @ js \<and> (\<forall>i\<in>set js. iderw_done i s')
     \<and> (\<forall>i. iderw_done i s \<longrightarrow> iderw_done i s')"
  using assms
proof (induction js arbitrary: s)
  case Nil then show ?case by simp
next
  case (Cons i js)
  then obtain s1 where s1: "ideintr P s = Some (Ok s1)" "ide_inv ata js s1"
      "ide_woken s1 = ide_woken s @ [i]"
      "ide_bufs s1 = (ide_bufs s)[i := (fetched (ata (ide_hw s)) (ide_bufs s ! i))
                                       \<lparr>bvalid := True, bdirty := False\<rparr>]"
    using ideintr_ok by blast
  have "i < length (ide_bufs s)" using Cons.prems by (simp add: ide_inv_def)
  then have "iderw_done i s1" "\<forall>j. iderw_done j s \<longrightarrow> iderw_done j s1"
    by (auto simp: iderw_done_def s1(4) nth_list_update)
  with Cons.IH [OF s1(2)] s1 show ?case by auto
qed

end

subsection \<open>Properties\<close>

text \<open>A driver at rest: no requests, all sectors readable, and the disk of the file system found.\<close>

definition ide_idle :: "('h \<Rightarrow> ata) \<Rightarrow> 'h ide \<Rightarrow> bool" where
  "ide_idle ata s = (ide_inv ata [] s \<and> havedisk1 s \<and> no_bad_sectors (ata (ide_hw s)))"

lemma ideinit_idle:
  "ata_disk P ata \<Longrightarrow> ide_inv ata [] s \<Longrightarrow> no_bad_sectors (ata (ide_hw s)) \<Longrightarrow>
     \<exists>s'. ideinit P s = Some s' \<and> ide_idle ata s'"
  using ata_disk.ideinit_ok by (fastforce simp: ide_idle_def no_bad_sectors_def)

lemma idle_sim: "ide_idle ata s \<Longrightarrow> bufs io = ide_bufs s \<Longrightarrow>
    disk io = media_disk (ata (ide_hw s)) \<Longrightarrow> ide_sim ata [] s io"
  by (simp add: ide_idle_def ide_sim_def ide_view_def)

text \<open>C23: Take a controller that keeps the protocol and has no bad sectors, a driver at rest, and any
  interleaving of requests, interrupts (expected or not) and changes to buffers that are not in
  the queue.  Whenever the queue is empty again, the buffers and the disk are those the memory
  disk gives for the same events, where each request is answered at once, and the processes were
  woken in the order of their requests.  So what is shown of the file system over \<^verbatim>\<open>memide.c\<close>
  holds over the driver.\<close>

theorem ide_refines_memide:
  assumes "ata_disk P ata" "ide_idle ata s" "ide_run P s es s'" "idequeue s' = None"
    and "bufs io = ide_bufs s" "disk io = media_disk (ata (ide_hw s))"
  shows "\<exists>io'. memide_run es io = Ok io' \<and> bufs io' = ide_bufs s'
     \<and> disk io' = media_disk (ata (ide_hw s')) \<and> ide_woken s' = ide_woken s @ requests es"
proof -
  from ata_disk.run_sim [OF assms(1,3) idle_sim [OF assms(2,5,6)]] obtain js' io' where
    r: "memide_run es io = Ok io'" "ide_sim ata js' s' io'"
      "ide_woken s' @ js' = ide_woken s @ [] @ requests es" by blast
  then have "js' = []" using assms(4) by (auto simp: ide_sim_def ide_inv_None)
  with r show ?thesis by (auto simp: ide_sim_def ide_view_def)
qed

text \<open>C24: After any interleaving, as many interrupts as there are requests in the queue end all of
  them: no polling loop runs forever, no call panics, the flags of each buffer are those its
  process waits for, and each process has been woken, in order.\<close>

theorem ide_serves_all:
  assumes "ata_disk P ata" "ide_idle ata s" "ide_run P s es s'"
  shows "\<exists>js s''. queue_linked (ide_next s') (idequeue s') js \<and> ide_intrs P (length js) s' = Some (Ok s'')
     \<and> idequeue s'' = None \<and> ide_woken s'' = ide_woken s @ requests es
     \<and> (\<forall>i\<in>set js. iderw_done i s'')"
proof -
  let ?io = "\<lparr>bufs = ide_bufs s, lru = [], disk = media_disk (ata (ide_hw s)), writes = []\<rparr>"
  from ata_disk.run_sim [OF assms(1,3) idle_sim [OF assms(2), of ?io]] obtain js where
    js: "ide_inv ata js s'" "ide_woken s' @ js = ide_woken s @ requests es"
    by (auto simp: ide_sim_def)
  then have "queue_linked (ide_next s') (idequeue s') js" by (simp add: ide_inv_def)
  with ata_disk.intrs_drain [OF assms(1) js(1)] js(2) show ?thesis
    by (auto simp: ide_inv_None)
qed

text \<open>A read the controller reports as failed is answered like one that succeeded: the buffer is
  marked valid with the data it had before.\<close>

theorem ide_read_error:
  assumes "ata_disk P ata" "ide_inv ata [i] s" "\<not> bdirty (ide_bufs s ! i)"
    and "a_bad (ata (ide_hw s)) True (bblockno (ide_bufs s ! i))"
  shows "\<exists>s'. ideintr P s = Some (Ok s') \<and> ide_bufs s' = (ide_bufs s)[i := (ide_bufs s ! i)\<lparr>bvalid := True\<rparr>]"
proof -
  have "(ide_bufs s ! i)\<lparr>bvalid := True, bdirty := False\<rparr> = (ide_bufs s ! i)\<lparr>bvalid := True\<rparr>"
    using assms(3) by (cases "ide_bufs s ! i") simp
  with ata_disk.ideintr_ok [OF assms(1,2)] assms(3,4) show ?thesis
    by (auto simp: fetched_def)
qed

subsection \<open>A controller\<close>

text \<open>A controller with the ATA protocol, busy for two polls after each command: the laws of
  \<open>ata_disk\<close> can be met.\<close>

definition ata_inb :: "nat \<Rightarrow> ata \<Rightarrow> byte \<times> ata" where
  "ata_inb port a =
     (if port \<noteq> 0x1f7 then (a_regs a port, a)
      else if a_busy a = 0 then (if a_phase a = Failed then 0x41 else 0x40, a)
      else (0x80, a\<lparr>a_busy := a_busy a - 1\<rparr>))"

definition ata_outb :: "nat \<Rightarrow> byte \<Rightarrow> ata \<Rightarrow> ata" where
  "ata_outb port v a =
     (let d = ata_drive a; n = ata_lba a in
      if port = 0x1f7 then
        (if v = 0x20 then a\<lparr>a_busy := 2, a_phase := (if a_bad a d n then Failed else Fetch d n)\<rparr>
         else if v = 0x30 then a\<lparr>a_phase := Store d n\<rparr> else a)
      else if port \<in> {0x1f2..0x1f6} then a\<lparr>a_regs := (a_regs a)(port := v)\<rparr> else a)"

definition ata_insl :: "nat \<Rightarrow> nat \<Rightarrow> ata \<Rightarrow> byte list \<times> ata" where
  "ata_insl port cnt a =
     (case a_phase a of Fetch d n \<Rightarrow> (a_media a d n, a\<lparr>a_phase := Ready\<rparr>)
      | _ \<Rightarrow> (replicate (4 * cnt) 0, a))"

definition ata_outsl :: "nat \<Rightarrow> byte list \<Rightarrow> nat \<Rightarrow> ata \<Rightarrow> ata" where
  "ata_outsl port xs cnt a =
     (case a_phase a of Store d n \<Rightarrow> media_write d n xs (a\<lparr>a_phase := Ready, a_busy := 2\<rparr>)
      | _ \<Rightarrow> a)"

definition ata_ports :: "ata ports" where
  "ata_ports = \<lparr>p_inb = ata_inb, p_outb = ata_outb, p_insl = ata_insl, p_outsl = ata_outsl\<rparr>"

interpretation pio: ata_disk ata_ports id
proof unfold_locales
  fix h h' :: ata and r
  assume "a_busy (id h) \<noteq> 0" "p_inb ata_ports 0x1f7 h = (r, h')"
  then have "r = 0x80" "h' = h\<lparr>a_busy := a_busy h - 1\<rparr>" "a_busy h - 1 < a_busy h"
    by (auto simp: ata_ports_def ata_inb_def)
  then show "r AND 0x80 \<noteq> 0 \<and> (\<exists>n < a_busy (id h). id h' = (id h)\<lparr>a_busy := n\<rparr>)" by auto
qed (auto simp: ata_ports_def ata_inb_def ata_outb_def ata_insl_def ata_outsl_def Let_def
       split: if_splits)

text \<open>Two processes: the first writes block 5, the second reads it.\<close>

definition block5 :: "nat \<Rightarrow> bool \<Rightarrow> byte \<Rightarrow> buf" where
  "block5 pid dirty v = \<lparr>bvalid = dirty, bdirty = dirty, bdev = 1, bblockno = 5,
     block_lock = \<lparr>slk_locked = True, slk_name = ''buffer'', slk_pid = pid\<rparr>, brefcnt = 1,
     bdata = replicate BSIZE v\<rparr>"

definition drive :: "(nat \<Rightarrow> bool) \<Rightarrow> ata" where
  "drive bad = \<lparr>a_media = (\<lambda>_ _. replicate BSIZE 0), a_bad = (\<lambda>_. bad), a_regs = (\<lambda>_. 0),
     a_phase = Ready, a_busy = 1\<rparr>"

definition at_rest :: "(nat \<Rightarrow> bool) \<Rightarrow> ata ide" where
  "at_rest bad = \<lparr>ide_bufs = [block5 1 True 7, block5 2 False 0], ide_next = (\<lambda>_. None),
     idequeue = None, havedisk1 = True, ide_woken = [], ide_hw = drive bad\<rparr>"

definition two_requests :: "ide_event list" where
  "two_requests = [Request 1 0, Request 2 1, Interrupt, Interrupt]"

lemma at_rest_idle: "ide_inv id [] (at_rest bad)" "ide_idle id (at_rest (\<lambda>_. False))"
  by (simp_all add: ide_idle_def ide_inv_def at_rest_def drive_def no_bad_sectors_def)

lemma at_rest_requests:
  "\<exists>s1 s2. iderw_request ata_ports 1 0 (at_rest bad) = Some (Ok s1)
     \<and> iderw_request ata_ports 2 1 s1 = Some (Ok s2) \<and> ide_inv id [0] s1 \<and> ide_inv id [0, 1] s2
     \<and> ide_bufs s1 = ide_bufs (at_rest bad)"
proof -
  have b: "request_ok (ide_bufs (at_rest bad) ! 0)" "request_ok (ide_bufs (at_rest bad) ! 1)"
    "length (ide_bufs (at_rest bad)) = 2" "havedisk1 (at_rest bad)"
    "holdingsleep 1 (block_lock (ide_bufs (at_rest bad) ! 0))"
    "holdingsleep 2 (block_lock (ide_bufs (at_rest bad) ! 1))"
    by (simp_all add: at_rest_def block5_def request_ok_def ROOTDEV_def FSSIZE_def holdingsleep_def)
  from pio.iderw_request_ok [OF at_rest_idle(1) _ _ b(1,5,4)] b(3) obtain s1 where
    s1: "iderw_request ata_ports 1 0 (at_rest bad) = Some (Ok s1)" "ide_inv id [0] s1"
      "ide_bufs s1 = ide_bufs (at_rest bad)" "havedisk1 s1" by auto
  with pio.iderw_request_ok [OF s1(2), of 1 2] b show ?thesis by auto
qed

lemma at_rest_both:
  "\<exists>s'. ide_run ata_ports (at_rest bad) [Request 1 0, Request 2 1] s' \<and> ide_inv id [0, 1] s'"
proof -
  obtain s1 s2 where s: "iderw_request ata_ports 1 0 (at_rest bad) = Some (Ok s1)"
    "iderw_request ata_ports 2 1 s1 = Some (Ok s2)" "ide_inv id [0] s1" "ide_inv id [0, 1] s2"
    "ide_bufs s1 = ide_bufs (at_rest bad)"
    using at_rest_requests by blast
  have "ide_run ata_ports s1 [Request 2 1] s2"
    by (rule run_request [of _ "[0]", OF _ _ _ _ _ _ s(2) run_end])
      (use s(3,5) in \<open>auto simp: ide_inv_def at_rest_def block5_def ROOTDEV_def FSSIZE_def\<close>)
  then have "ide_run ata_ports (at_rest bad) [Request 1 0, Request 2 1] s2"
    by (intro run_request [of _ "[]", OF _ _ _ _ _ _ s(1)])
      (simp_all add: at_rest_def block5_def ROOTDEV_def FSSIZE_def)
  with s(4) show ?thesis by blast
qed

lemma at_rest_run:
  "\<exists>s'. ide_run ata_ports (at_rest bad) two_requests s' \<and> idequeue s' = None"
proof -
  obtain s2 where s2: "ide_run ata_ports (at_rest bad) [Request 1 0, Request 2 1] s2"
    "ide_inv id [0, 1] s2" using at_rest_both by blast
  obtain s3 where s3: "ideintr ata_ports s2 = Some (Ok s3)" "ide_inv id [1] s3"
    using pio.ideintr_ok [OF s2(2)] by blast
  obtain s4 where s4: "ideintr ata_ports s3 = Some (Ok s4)" "ide_inv id [] s4"
    using pio.ideintr_ok [OF s3(2)] by blast
  have "ide_run ata_ports s2 [Interrupt, Interrupt] s4"
    using s3(1) s4(1) by (blast intro: run_interrupt run_end)
  from ide_run_append [OF s2(1) this] s4(2) show ?thesis
    by (auto simp: two_requests_def ide_inv_def)
qed

theorem ide_refines_memide_witness:
  "\<exists>s'. ide_run ata_ports (at_rest (\<lambda>_. False)) two_requests s'
     \<and> bdata (ide_bufs s' ! 1) = replicate BSIZE 7 \<and> ide_woken s' = [0, 1]"
proof -
  let ?s = "at_rest (\<lambda>_. False)"
  let ?io = "\<lparr>bufs = ide_bufs ?s, lru = [], disk = media_disk (id (ide_hw ?s)), writes = []\<rparr>"
  obtain s' where s': "ide_run ata_ports ?s two_requests s'" "idequeue s' = None"
    using at_rest_run by blast
  from ide_refines_memide [OF pio.ata_disk_axioms at_rest_idle(2) s', of ?io] obtain io' where
    io': "memide_run two_requests ?io = Ok io'" "bufs io' = ide_bufs s'"
      "ide_woken s' = ide_woken ?s @ requests two_requests" by auto
  from io'(1) have "bdata (ide_bufs s' ! 1) = replicate BSIZE 7"
    unfolding io'(2) [symmetric]
    by (auto simp: two_requests_def at_rest_def iderw_def block5_def holdingsleep_def set_buf_def
        FSSIZE_def)
  with s' io' show ?thesis by (auto simp: two_requests_def at_rest_def)
qed

theorem ide_serves_all_witness:
  "\<exists>s' s''. ide_run ata_ports (at_rest (\<lambda>_. False)) [Request 1 0, Request 2 1] s'
     \<and> ide_intrs ata_ports 2 s' = Some (Ok s'') \<and> idequeue s'' = None \<and> ide_woken s'' = [0, 1]
     \<and> iderw_done 0 s'' \<and> iderw_done 1 s''"
proof -
  obtain s' where s': "ide_run ata_ports (at_rest (\<lambda>_. False)) [Request 1 0, Request 2 1] s'"
    "ide_inv id [0, 1] s'"
    using at_rest_both by blast
  from ide_serves_all [OF pio.ata_disk_axioms at_rest_idle(2) s'(1)] obtain js s'' where
    js: "queue_linked (ide_next s') (idequeue s') js" "ide_intrs ata_ports (length js) s' = Some (Ok s'')"
      "idequeue s'' = None" "ide_woken s'' = [0, 1]" "\<forall>i\<in>set js. iderw_done i s''"
    by (auto simp: at_rest_def)
  have "js = [0, 1]" by (rule ide_inv_linked [OF s'(2) js(1)])
  then have "length js = 2" "iderw_done 0 s''" "iderw_done 1 s''" using js(5) by simp_all
  with js s'(1) show ?thesis by metis
qed

end
