(* ===== verification/Exec.thy ===== *)
theory Exec
  imports Sysfile
begin

unbundle bit_operations_syntax

text \<open>
  Program loading, \<^verbatim>\<open>p4/exec.c\<close>, over the processes of theory \<^verbatim>\<open>Proc\<close>, the address spaces of theory \<^verbatim>\<open>Vm\<close> and the files of
  theory \<^verbatim>\<open>File\<close>.  The argument strings are given by their bytes.  A jump to \<^verbatim>\<open>bad\<close> is the operation \<open>exec_bad\<close>.  The loaded
  task registers of \<^verbatim>\<open>switchuvm\<close> are not part of the state, its checks are.
\<close>

subsection \<open>Executable files (elf.h)\<close>

definition ELF_MAGIC :: u32 where "ELF_MAGIC = 0x464C457F"
definition ELF_PROG_LOAD :: u32 where "ELF_PROG_LOAD = 1"
definition ELFHDR_SIZE :: nat where "ELFHDR_SIZE = 52"
definition PROGHDR_SIZE :: nat where "PROGHDR_SIZE = 32"

record elfhdr =
  e_magic :: u32
  e_entry :: u32
  e_phoff :: u32
  e_phnum :: u16

definition elf_of :: "byte list \<Rightarrow> elfhdr" where
  "elf_of d = \<lparr>e_magic = get32 0 d, e_entry = get32 24 d, e_phoff = get32 28 d, e_phnum = get16 44 d\<rparr>"

record proghdr =
  ph_type :: u32
  ph_off :: u32
  ph_vaddr :: u32
  ph_filesz :: u32
  ph_memsz :: u32

definition proghdr_of :: "byte list \<Rightarrow> proghdr" where
  "proghdr_of d = \<lparr>ph_type = get32 0 d, ph_off = get32 4 d, ph_vaddr = get32 8 d, ph_filesz = get32 16 d, ph_memsz = get32 20 d\<rparr>"

subsection \<open>Loading\<close>

definition exec_readi :: "devread \<Rightarrow> nat \<Rightarrow> nat \<Rightarrow> nat \<Rightarrow> fstate \<Rightarrow> (int \<times> byte list \<times> fstate) outcome" where
  "exec_readi devr ip off n e = and_then (readi devr ip off n (ffs e)) (\<lambda>(r, bs, x). Ok (r, bs, e\<lparr>ffs := x\<rparr>))"

text \<open>The loop over the program headers; \<open>None\<close> is a jump to \<^verbatim>\<open>bad\<close>.\<close>

fun exec_load :: "u32 \<Rightarrow> devread \<Rightarrow> nat \<Rightarrow> u32 \<Rightarrow> nat \<Rightarrow> u32 \<Rightarrow> u32 \<Rightarrow> machine \<Rightarrow> fstate
    \<Rightarrow> (u32 option \<times> machine \<times> fstate) outcome" where
  "exec_load kend devr ip pgdir 0 off sz m e = Ok (Some sz, m, e)"
| "exec_load kend devr ip pgdir (Suc n) off sz m e =
     and_then (exec_readi devr ip (unat off) PROGHDR_SIZE e) (\<lambda>(r, d, e).
       if r \<noteq> int PROGHDR_SIZE then Ok (None, m, e)
       else let ph = proghdr_of d in
         if ph_type ph \<noteq> ELF_PROG_LOAD then exec_load kend devr ip pgdir n (off + of_nat PROGHDR_SIZE) sz m e
         else if ph_memsz ph < ph_filesz ph then Ok (None, m, e)
         else if ph_vaddr ph + ph_memsz ph < ph_vaddr ph then Ok (None, m, e)
         else and_then (allocuvm kend pgdir sz (ph_vaddr ph + ph_memsz ph) m) (\<lambda>(sz, m).
           if sz = 0 then Ok (None, m, e)
           else if ph_vaddr ph mod PGSIZE \<noteq> 0 then Ok (None, m, e)
           else and_then (loaduvm pgdir (ph_vaddr ph) (exec_readi devr ip) (ph_off ph) (unat (ph_filesz ph)) m e) (\<lambda>(r, m, e).
             if r < 0 then Ok (None, m, e)
             else exec_load kend devr ip pgdir n (off + of_nat PROGHDR_SIZE) sz m e)))"

text \<open>The loop over the arguments, with the addresses of those already stored.\<close>

fun push_args :: "u32 \<Rightarrow> byte list list \<Rightarrow> u32 \<Rightarrow> u32 list \<Rightarrow> machine \<Rightarrow> ((u32 \<times> u32 list) option \<times> machine) outcome" where
  "push_args pgdir [] sp ptrs m = Ok (Some (sp, ptrs), m)"
| "push_args pgdir (a # argv) sp ptrs m =
     (if length ptrs \<ge> MAXARG then Ok (None, m)
      else let sp = (sp - (of_nat (length a) + 1)) AND NOT 3 in
        and_then (copyout pgdir sp (a @ [0]) m) (\<lambda>(r, m).
          if r < 0 then Ok (None, m) else push_args pgdir argv sp (ptrs @ [sp]) m))"

definition exec_stack :: "u32 \<Rightarrow> byte list list \<Rightarrow> u32 \<Rightarrow> machine \<Rightarrow> (u32 option \<times> machine) outcome" where
  "exec_stack pgdir argv sz m =
     and_then (push_args pgdir argv sz [] m) (\<lambda>(r, m).
       case r of
         None \<Rightarrow> Ok (None, m)
       | Some (sp, ptrs) \<Rightarrow>
           (let argc = of_nat (length ptrs);
                ustack = [0xffffffff, argc, sp - (argc + 1) * 4] @ ptrs @ [0];
                sp = sp - (3 + argc + 1) * 4
            in and_then (copyout pgdir sp (concat (map le32 ustack)) m) (\<lambda>(r, m).
                 if r < 0 then Ok (None, m) else Ok (Some sp, m))))"

definition exec_name :: "byte list \<Rightarrow> byte list" where
  "exec_name path = take 15 (rev (takeWhile (\<lambda>c. c \<noteq> 47) (rev path)))"

type_synonym fkernel = "(nat, fstate) kernel"

definition exec_bad :: "u32 \<Rightarrow> nat \<Rightarrow> u32 option \<Rightarrow> nat option \<Rightarrow> fkernel \<Rightarrow> (int \<times> fkernel) outcome" where
  "exec_bad kend pid pgdir ip k =
     and_then (case pgdir of None \<Rightarrow> Ok (mem k) | Some d \<Rightarrow> freevm kend d (mem k)) (\<lambda>m.
     and_then (case ip of None \<Rightarrow> Ok (env k)
               | Some ip \<Rightarrow> and_then (on_fs (iunlockput pid ip) (env k)) (\<lambda>e. Ok (end_fop e))) (\<lambda>e.
       Ok (- 1, k\<lparr>env := e, mem := m\<rparr>)))"

text \<open>From the name of the program to the end: the commit to the new image.\<close>

definition exec_commit :: "u32 \<Rightarrow> byte list \<Rightarrow> u32 \<Rightarrow> u32 \<Rightarrow> u32 \<Rightarrow> u32 \<Rightarrow> nat \<Rightarrow> fkernel \<Rightarrow> (int \<times> fkernel) outcome" where
  "exec_commit kend path pgdir sz entry sp cur k =
     (let p = pr k cur in
      if p_kstack p = 0 then Panic ''switchuvm: no kstack''
      else if pgdir = 0 then Panic ''switchuvm: no pgdir''
      else and_then (freevm kend (p_pgdir p) (mem k)) (\<lambda>m.
        Ok (0, set_proc cur (p\<lparr>p_name := exec_name path, p_pgdir := pgdir, p_sz := sz,
                               p_tf := (p_tf p)\<lparr>tf_eip := entry, tf_esp := sp\<rparr>\<rparr>) (k\<lparr>mem := m\<rparr>))))"

definition exec_finish :: "u32 \<Rightarrow> byte list \<Rightarrow> byte list list \<Rightarrow> u32 \<Rightarrow> u32 \<Rightarrow> u32 \<Rightarrow> nat \<Rightarrow> fkernel \<Rightarrow> (int \<times> fkernel) outcome" where
  "exec_finish kend path argv pgdir sz entry cur k =
     (let sz = PGROUNDUP sz; pid = nat (p_pid (pr k cur)) in
      and_then (allocuvm kend pgdir sz (sz + 2 * PGSIZE) (mem k)) (\<lambda>(sz, m).
        if sz = 0 then exec_bad kend pid (Some pgdir) None (k\<lparr>mem := m\<rparr>)
        else and_then (clearpteu pgdir (sz - 2 * PGSIZE) m) (\<lambda>m.
             and_then (exec_stack pgdir argv sz m) (\<lambda>(sp, m).
               case sp of
                 None \<Rightarrow> exec_bad kend pid (Some pgdir) None (k\<lparr>mem := m\<rparr>)
               | Some sp \<Rightarrow> exec_commit kend path pgdir sz entry sp cur (k\<lparr>mem := m\<rparr>)))))"

definition exec :: "u32 \<Rightarrow> u32 \<Rightarrow> devread \<Rightarrow> byte list \<Rightarrow> byte list list \<Rightarrow> nat \<Rightarrow> fkernel \<Rightarrow> (int \<times> fkernel) outcome" where
  "exec kend data devr path argv cur k =
     (let pid = nat (p_pid (pr k cur)); cwd = the (p_cwd (pr k cur)) in
      and_then (on_fsv (namei devr pid cwd path) (begin_fop (env k))) (\<lambda>(ip, e).
        case ip of
          None \<Rightarrow> Ok (- 1, k\<lparr>env := end_fop e\<rparr>)
        | Some ip \<Rightarrow>
            and_then (on_fs (ilock pid ip) e) (\<lambda>e.
            and_then (exec_readi devr ip 0 ELFHDR_SIZE e) (\<lambda>(r, d, e).
              if r \<noteq> int ELFHDR_SIZE \<or> e_magic (elf_of d) \<noteq> ELF_MAGIC then exec_bad kend pid None (Some ip) (k\<lparr>env := e\<rparr>)
              else and_then (setupkvm kend data (mem k)) (\<lambda>(pd, m).
                case pd of
                  None \<Rightarrow> exec_bad kend pid None (Some ip) (k\<lparr>env := e, mem := m\<rparr>)
                | Some pgdir \<Rightarrow>
                    and_then (exec_load kend devr ip pgdir (unat (e_phnum (elf_of d))) (e_phoff (elf_of d)) 0 m e) (\<lambda>(sz, m, e).
                      case sz of
                        None \<Rightarrow> exec_bad kend pid (Some pgdir) (Some ip) (k\<lparr>env := e, mem := m\<rparr>)
                      | Some sz \<Rightarrow>
                          and_then (on_fs (iunlockput pid ip) e) (\<lambda>e.
                            exec_finish kend path argv pgdir sz (e_entry (elf_of d)) cur (k\<lparr>env := end_fop e, mem := m\<rparr>))))))))"

definition sys_exec :: "u32 \<Rightarrow> u32 \<Rightarrow> devread \<Rightarrow> (u32 \<Rightarrow> byte) \<Rightarrow> nat \<Rightarrow> fkernel \<Rightarrow> (int \<times> fkernel) outcome" where
  "sys_exec kend data devr um cur k =
     (case sys_exec_args \<lparr>s_um = um, s_proc = pr k cur, s_env = env k\<rparr> of
        None \<Rightarrow> Ok (- 1, k)
      | Some (path, argv) \<Rightarrow> exec kend data devr path (map (\<lambda>(a, n). user_bytes um a n) argv) cur k)"


subsection \<open>What the call does to processes and files\<close>

lemma post_any: "(\<And>x. Q x) \<Longrightarrow> post r Q"
  by (rule postI)

lemmas vm_any = post_any [of _ "allocuvm kend pgdir a b m"] post_any [of _ "clearpteu pgdir a m"] post_any [of _ "exec_stack pgdir argv a m"]
  post_any [of _ "freevm kend pgdir m"] post_any [of _ "setupkvm kend data m"] for kend pgdir a b m argv data

lemma exec_readi_wp:
  "(\<And>r bs x. quiet (ffs e) x \<Longrightarrow> Q (r, bs, e\<lparr>ffs := x\<rparr>)) \<Longrightarrow> post (exec_readi devr ip off n e) Q"
  unfolding exec_readi_def by (auto intro!: readi_wp)

lemma loaduvm_loop_wp:
  "quiet (ffs e0) (ffs e) \<Longrightarrow> e0\<lparr>ffs := ffs e\<rparr> = e \<Longrightarrow> (\<And>r m x. quiet (ffs e0) x \<Longrightarrow> Q (r, m, e0\<lparr>ffs := x\<rparr>)) \<Longrightarrow>
     post (loaduvm_loop pgdir addr (exec_readi devr ip) off sz i n m e) Q"
proof (induction n arbitrary: i m e)
  case 0
  then show ?case using "0.prems"(3) [of "ffs e"] by simp
next
  case (Suc n)
  have next_e: "quiet (ffs e0) x" "e0\<lparr>ffs := x\<rparr> = e\<lparr>ffs := x\<rparr>" if "quiet (ffs e) x" for x
    using that Suc.prems(1,2) by (auto simp: quiet_def) (metis fstate.surjective fstate.update_convs(3))
  show ?case using Suc.IH Suc.prems next_e
    by (auto simp: Let_def intro!: exec_readi_wp split: option.splits prod.splits) (metis next_e)+
qed


lemma loaduvm_wp:
  "(\<And>r m x. quiet (ffs e) x \<Longrightarrow> Q (r, m, e\<lparr>ffs := x\<rparr>)) \<Longrightarrow> post (loaduvm pgdir addr (exec_readi devr ip) off sz m e) Q"
  unfolding loaduvm_def by (auto intro!: loaduvm_loop_wp simp: quiet_def)

lemma exec_load_wp:
  "(\<And>r m x. quiet (ffs e) x \<Longrightarrow> Q (r, m, e\<lparr>ffs := x\<rparr>)) \<Longrightarrow> post (exec_load kend devr ip pgdir n off sz m e) Q"
proof (induction n arbitrary: off sz m e)
  case 0
  then show ?case using "0.prems" [of "ffs e"] by (simp add: quiet_def)
next
  case (Suc n)
  have fin: "Q (r, m, e\<lparr>ffs := x\<rparr>)" if "quiet (ffs e) x" for r m x by (rule Suc.prems [OF that])
  have rec: "post (exec_load kend devr ip pgdir n off' sz' m' (e\<lparr>ffs := x\<rparr>)) Q" if "quiet (ffs e) x" for off' sz' m' x
    using that by (intro Suc.IH) (auto intro!: Suc.prems simp: quiet_def)
  have q: "quiet (ffs e) y" if "quiet (ffs e) x" "quiet x y" for x y using that by (simp add: quiet_def)
  show ?case
    by (auto simp: Let_def intro!: exec_readi_wp loaduvm_wp vm_any fin rec split: prod.splits dest: q)
qed

text \<open>The new image of a process.\<close>

definition exec_proc :: "byte list \<Rightarrow> u32 \<Rightarrow> u32 \<Rightarrow> u32 \<Rightarrow> u32 \<Rightarrow> nat proc \<Rightarrow> nat proc" where
  "exec_proc path pgdir sz entry sp p =
     p\<lparr>p_name := exec_name path, p_pgdir := pgdir, p_sz := sz, p_tf := (p_tf p)\<lparr>tf_eip := entry, tf_esp := sp\<rparr>\<rparr>"

definition exec_result :: "byte list \<Rightarrow> nat \<Rightarrow> fkernel \<Rightarrow> int \<Rightarrow> fkernel \<Rightarrow> bool" where
  "exec_result path cur k r k' \<longleftrightarrow>
     (\<exists>x m. quiet (ffs (env k)) x \<and>
       (r = - 1 \<and> k' = k\<lparr>env := (env k)\<lparr>ffs := x\<rparr>, mem := m\<rparr>
        \<or> r = 0 \<and> (\<exists>pgdir sz entry sp. pgdir \<noteq> 0 \<and>
            k' = set_proc cur (exec_proc path pgdir sz entry sp (pr k cur)) (k\<lparr>env := (env k)\<lparr>ffs := x\<rparr>, mem := m\<rparr>))))"

lemma exec_resultI:
  "quiet (ffs (env k)) x \<Longrightarrow> exec_result path cur k (- 1) (k\<lparr>env := (env k)\<lparr>ffs := x\<rparr>, mem := m\<rparr>)"
  "quiet (ffs (env k)) x \<Longrightarrow> pgdir \<noteq> 0 \<Longrightarrow>
     exec_result path cur k 0 (set_proc cur (exec_proc path pgdir sz entry sp (pr k cur)) (k\<lparr>env := (env k)\<lparr>ffs := x\<rparr>, mem := m\<rparr>))"
  unfolding exec_result_def by blast+

lemma exec_bad_wp:
  assumes "ip < ilen (ffs (env k))" "ip \<notin> lks (ffs e0)" "ilen (ffs (env k)) = ilen (ffs e0)"
    and "lks (ffs (env k)) = insert ip (lks (ffs e0))" "rfs (ffs (env k)) = bump ip 1 (rfs (ffs e0))"
    and Q: "\<And>m x. quiet (ffs e0) x \<Longrightarrow> Q (- 1, k\<lparr>env := end_fop ((env k)\<lparr>ffs := x\<rparr>), mem := m\<rparr>)"
  shows "post (exec_bad kend pid pgdir (Some ip) k) Q"
  unfolding exec_bad_def post_simps option.case post_on_fs
  by (rule post_any, rule iunlockput_wp) (use assms in \<open>auto simp: quiet_def intro!: Q\<close>)

lemma exec_bad_None_wp:
  "(\<And>m. Q (- 1, k\<lparr>mem := m\<rparr>)) \<Longrightarrow> post (exec_bad kend pid pgdir None k) Q"
  unfolding exec_bad_def by (cases k) (auto intro!: post_any)

lemma exec_finish_wp:
  assumes "\<And>m. Q (- 1, k\<lparr>mem := m\<rparr>)"
    and "\<And>m sz sp. pgdir \<noteq> 0 \<Longrightarrow> Q (0, set_proc cur (exec_proc path pgdir sz entry sp (pr k cur)) (k\<lparr>mem := m\<rparr>))"
  shows "post (exec_finish kend path argv pgdir sz entry cur k) Q"
  unfolding exec_finish_def Let_def
  by (auto simp: exec_commit_def Let_def exec_proc_def [symmetric] intro!: vm_any exec_bad_None_wp assms split: option.splits)


lemma quiet_trans: "quiet a b \<Longrightarrow> quiet b c \<Longrightarrow> quiet a c"
  by (simp add: quiet_def)

lemma exec_wp:
  assumes cwd: "p_cwd (pr k cur) = Some cwd" "cwd < ilen (ffs (env k))"
  shows "post (exec kend data devr path argv cur k) (\<lambda>(r, k'). exec_result path cur k r k')"
proof -
  let ?e = "begin_fop (env k)" and ?Q = "\<lambda>(r, k'). exec_result path cur k r k'"
  have fsb: "ffs (begin_fop y) = ffs y" for y by (simp add: begin_fop_def)
  note fs = fsb [of "env k"]
  have bad: "post (exec_bad kend pid pgdir (Some ip) (k\<lparr>env := begin_fop ((env k)\<lparr>ffs := x\<rparr>), mem := m\<rparr>)) ?Q"
    if "ip < ilen (ffs (env k))" "ip \<notin> lks (ffs (env k))" "ilen x = ilen (ffs (env k))" "lks x = insert ip (lks (ffs (env k)))"
      "rfs x = bump ip 1 (rfs (ffs (env k)))" for pid pgdir ip m x
    by (rule exec_bad_wp [of _ _ "env k"]) (use that in \<open>auto simp: fsb intro!: exec_resultI\<close>)
  have bad': "post (exec_bad kend pid pgdir (Some ip) (k\<lparr>env := begin_fop ((env k)\<lparr>ffs := x\<rparr>)\<rparr>)) ?Q"
    if "ip < ilen (ffs (env k))" "ip \<notin> lks (ffs (env k))" "ilen x = ilen (ffs (env k))" "lks x = insert ip (lks (ffs (env k)))"
      "rfs x = bump ip 1 (rfs (ffs (env k)))" for pid pgdir ip x
    using bad [OF that, of pid pgdir "mem k"] by (cases k) simp
  have fin: "post (exec_finish kend path argv pgdir sz entry cur (k\<lparr>env := (env k)\<lparr>ffs := x\<rparr>, mem := m\<rparr>)) ?Q"
    if "quiet (ffs (env k)) x" for pgdir sz entry m x
    using that by (auto simp: fop_ffs intro!: exec_finish_wp exec_resultI)
  have none: "exec_result path cur k (- 1) (k\<lparr>env := end_fop (?e\<lparr>ffs := x\<rparr>)\<rparr>)" if "quiet (ffs (env k)) x" for x
    using exec_resultI(1) [OF that, of path cur "mem k"] by (cases k) (simp add: fop_ffs)
  have ended: "post (iunlockput pid ip x) (\<lambda>x. post (exec_finish kend path argv pgdir sz entry cur (k\<lparr>env := (env k)\<lparr>ffs := x\<rparr>, mem := m\<rparr>)) ?Q)"
    if "ip < ilen (ffs (env k))" "ip \<notin> lks (ffs (env k))" "ilen x = ilen (ffs (env k))" "lks x = insert ip (lks (ffs (env k)))"
      "rfs x = bump ip 1 (rfs (ffs (env k)))" for pid pgdir ip sz entry m x
    by (rule iunlockput_wp) (use that in \<open>auto intro!: fin simp: quiet_def\<close>)
  show ?thesis unfolding exec_def Let_def post_simps post_on_fsv case_prod_conv
    by (rule namei_wp, use cwd fs in simp, use none fs in simp, simp only: option.case case_prod_conv post_simps post_on_fs,
        rule ilock_wp, simp add: fs, simp add: fs)
       (auto intro!: exec_readi_wp vm_any exec_load_wp bad bad' ended simp: quiet_def split: option.splits)
qed


subsection \<open>The stack of the new image\<close>

lemma data_write_table:
  assumes "v \<notin> tables st pgdir"
  shows "pd_present (set_frame v f st) pgdir = pd_present st pgdir"
    "table_of (set_frame v f st) pgdir = table_of st pgdir" "tables (set_frame v f st) pgdir = tables st pgdir"
    "lookup (set_frame v f st) pgdir va = lookup st pgdir va"
proof -
  have pw: "page_words (set_frame v f st) u = page_words st u" if "u \<in> tables st pgdir" for u
    using that assms by (auto simp: page_words_def set_frame_def)
  have pd: "page_words (set_frame v f st) pgdir = page_words st pgdir" by (rule pw) (simp add: tables_def)
  show p: "pd_present (set_frame v f st) pgdir = pd_present st pgdir"
    and t: "table_of (set_frame v f st) pgdir = table_of st pgdir"
    by (simp_all add: pd_present_def table_of_def pd fun_eq_iff)
  show "tables (set_frame v f st) pgdir = tables st pgdir" by (simp add: tables_def p t)
  have "page_words (set_frame v f st) (table_of st pgdir (PDX va)) = page_words st (table_of st pgdir (PDX va))"
    if "pd_present st pgdir (PDX va)" by (rule pw) (use that in \<open>auto simp: tables_def\<close>)
  then show "lookup (set_frame v f st) pgdir va = lookup st pgdir va" by (simp add: lookup_eq p t)
qed

text \<open>A page of user memory that is no page table, whole and page-aligned, with its frame.\<close>

definition stack_page :: "machine \<Rightarrow> u32 \<Rightarrow> u32 \<Rightarrow> u32 \<Rightarrow> bool" where
  "stack_page st pgdir page fr \<longleftrightarrow> aligned page \<and> user_page st pgdir page \<and> data_frame st pgdir page
     \<and> frame_of st pgdir page = fr \<and> length (page_bytes st fr) = 4096"

definition put_page :: "u32 \<Rightarrow> nat \<Rightarrow> byte list \<Rightarrow> machine \<Rightarrow> machine" where
  "put_page fr off bs st = set_frame fr (Bytes (put_bytes off bs (page_bytes st fr))) st"

lemma page_bytes_put_page [simp]: "page_bytes (put_page fr off bs st) fr = put_bytes off bs (page_bytes st fr)"
  by (simp add: put_page_def page_bytes_def set_frame_def)

lemma frames_put_page: "u \<noteq> fr \<Longrightarrow> frames (put_page fr off bs st) u = frames st u"
  by (simp add: put_page_def frames_set_frame)

lemma stack_page_put:
  assumes "stack_page st pgdir page fr" "off + length bs \<le> 4096"
  shows "stack_page (put_page fr off bs st) pgdir page fr" "lookup (put_page fr off bs st) pgdir va = lookup st pgdir va"
proof -
  have nt: "fr \<notin> tables st pgdir" using assms(1) by (auto simp: stack_page_def data_frame_def)
  note W = data_write_table [OF nt, of "Bytes (put_bytes off bs (page_bytes st fr))", folded put_page_def]
  show "lookup (put_page fr off bs st) pgdir va = lookup st pgdir va" by (rule W(4))
  show "stack_page (put_page fr off bs st) pgdir page fr"
    using assms W by (auto simp: stack_page_def user_page_def data_frame_def frame_of_def)
qed

lemma aligned_rounddown:
  assumes "aligned page" "off < 4096"
  shows "PGROUNDDOWN (page + of_nat off) = page" "vpn (page + of_nat off) = vpn page" "unat (page + of_nat off - page) = off"
proof -
  have o: "unat (of_nat off :: u32) = off" using assms(2) by (simp add: unat_of_nat take_bit_nat_eq_self)
  have "page AND of_nat off = 0"
  proof (rule bit_word_eqI)
    fix n assume "n < LENGTH(32)"
    have "\<not> bit page n" if "n < 12"
      using assms(1) that bit_take_bit_iff [of 12 page n] by (simp add: aligned_def)
    moreover have "\<not> bit (of_nat off :: u32) n" if "12 \<le> n"
    proof -
      have "off < 2 ^ n" using assms(2) power_increasing [OF that, of "2 :: nat"] by simp
      then have "\<not> bit (unat (of_nat off :: u32)) n" by (simp add: o bit_iff_odd)
      then show ?thesis by (simp add: bit_unsigned_iff)
    qed
    ultimately show "bit (page AND of_nat off) n = bit (0 :: u32) n" by (cases "n < 12") (auto simp: bit_simps)
  qed
  then have "page + of_nat off = page OR of_nat off" by (rule disjunctive_add_eq_or)
  moreover have "small (of_nat off)"
    unfolding small_def by (rule word_unat_eq_iff [THEN iffD2]) (simp only: unsigned_drop_bit_eq o, use assms(2) in \<open>simp add: take_bit_nat_eq_self drop_bit_eq_div\<close>)
  ultimately show r: "PGROUNDDOWN (page + of_nat off) = page"
    using PTE_ADDR_OR [OF assms(1)] by (simp add: PGROUNDDOWN_def PTE_ADDR_def)
  show "vpn (page + of_nat off) = vpn page" using PGROUNDDOWN_vpn(2) [of "page + of_nat off"] r by simp
  show "unat (page + of_nat off - page) = off" by (simp add: o)
qed

lemma copyout_page:
  assumes st: "stack_page st pgdir page fr" and buf: "buf \<noteq> []" "off + length buf \<le> 4096"
  shows "copyout pgdir (page + of_nat off) buf st = Ok (0, put_page fr off buf st)"
proof -
  have o: "off < 4096" using buf by (cases buf) auto
  have al: "aligned page" using st by (simp add: stack_page_def)
  note A = aligned_rounddown [OF al o]
  have u: "uva2ka pgdir page st = Ok fr" and nz: "fr \<noteq> 0"
    using st by (auto simp: stack_page_def uva2ka_lookup data_frame_def user_page_def)
  have n: "(if 4096 - off > length buf then length buf else 4096 - off) = length buf" using buf(2) by auto
  show ?thesis unfolding copyout_def copyout_loop.simps [of pgdir "page + of_nat off"] Let_def A(1) u outcome.case A(3) n
    using buf(1) nz by (simp add: put_page_def copyout_loop.simps [of _ _ "[]"])
qed


text \<open>Where the arguments go: offsets in the stack page, as natural numbers.\<close>

definition arg_off :: "nat \<Rightarrow> byte list \<Rightarrow> nat" where
  "arg_off off a = (off - Suc (length a)) - (off - Suc (length a)) mod 4"

fun arg_offs :: "nat \<Rightarrow> byte list list \<Rightarrow> nat list" where
  "arg_offs off [] = []"
| "arg_offs off (a # argv) = arg_off off a # arg_offs (arg_off off a) argv"

fun arg_end :: "nat \<Rightarrow> byte list list \<Rightarrow> nat" where
  "arg_end off [] = off"
| "arg_end off (a # argv) = arg_end (arg_off off a) argv"

fun args_fit :: "nat \<Rightarrow> byte list list \<Rightarrow> bool" where
  "args_fit off [] \<longleftrightarrow> True"
| "args_fit off (a # argv) \<longleftrightarrow> Suc (length a) \<le> off \<and> args_fit (arg_off off a) argv"

definition stack_fits :: "byte list list \<Rightarrow> bool" where
  "stack_fits argv \<longleftrightarrow> length argv \<le> MAXARG \<and> args_fit 4096 argv \<and> 4 * (length argv + 4) \<le> arg_end 4096 argv"

lemma arg_off_le: "Suc (length a) \<le> off \<Longrightarrow> arg_off off a + Suc (length a) \<le> off"
  by (simp add: arg_off_def)

lemma arg_end_le: "args_fit off argv \<Longrightarrow> arg_end off argv \<le> off"
  by (induction off argv rule: arg_end.induct) (auto dest: arg_off_le)

lemma and_not_3:
  assumes "aligned page"
  shows "(page + of_nat j) AND NOT 3 = page + of_nat (j - j mod 4)"
proof -
  let ?x = "page + of_nat j :: u32"
  have m: "(3 :: u32) = mask 2" by (simp add: mask_eq_exp_minus_1)
  have p: "uint page mod 4 = 0" using assms mod_mod_cancel [of 4 4096 "uint page"] by (simp add: aligned_iff)
  have "uint (take_bit 2 ?x) = uint ?x mod 4" by (simp only: unsigned_take_bit_eq) (simp add: take_bit_eq_mod)
  also have "\<dots> = (uint page + int j) mod 4"
    by (simp add: uint_word_ariths unsigned_of_nat take_bit_eq_mod mod_mod_cancel mod_simps zmod_int)
  also have "\<dots> = int (j mod 4)" using p by (simp add: zmod_int mod_add_eq [symmetric, of "uint page"])
  finally have "uint (take_bit 2 ?x) = uint (of_nat (j mod 4) :: u32)" by (simp add: unsigned_of_nat take_bit_nat_eq_self)
  then have t: "?x AND 3 = of_nat (j mod 4)" unfolding m take_bit_eq_mask [symmetric] by (rule word_uint_eqI)
  have "(?x AND NOT 3) AND (?x AND 3) = 0"
    by (rule bit_word_eqI) (auto simp: bit_simps)
  from disjunctive_add_eq_or [OF this] have "(?x AND NOT 3) + (?x AND 3) = (?x AND NOT 3) OR (?x AND 3)" .
  also have "\<dots> = ?x" by (rule bit_word_eqI) (auto simp: bit_simps)
  finally have "(?x AND NOT 3) + of_nat (j mod 4) = page + of_nat (j - j mod 4) + of_nat (j mod 4)"
    unfolding t by (simp flip: of_nat_add)
  then show ?thesis by (rule add_right_imp_eq)
qed

lemma push_sp:
  assumes "aligned page" "Suc (length a) \<le> off"
  shows "(page + of_nat off - (of_nat (length a) + 1)) AND NOT 3 = page + of_nat (arg_off off a)"
proof -
  have "page + of_nat off - (of_nat (length a) + 1) = page + of_nat (off - Suc (length a))"
    using assms(2) by (simp add: of_nat_diff algebra_simps)
  then show ?thesis by (simp only: and_not_3 [OF assms(1)] arg_off_def)
qed

text \<open>Machines that differ in the stack page only.\<close>

definition same_but :: "u32 \<Rightarrow> u32 \<Rightarrow> machine \<Rightarrow> machine \<Rightarrow> bool" where
  "same_but fr pgdir st st' \<longleftrightarrow> (\<forall>u. u \<noteq> fr \<longrightarrow> frames st' u = frames st u) \<and> lookup st' pgdir = lookup st pgdir"

lemma same_but_put:
  "stack_page st pgdir page fr \<Longrightarrow> off + length bs \<le> 4096 \<Longrightarrow> same_but fr pgdir st (put_page fr off bs st)"
  by (auto simp: same_but_def frames_put_page fun_eq_iff stack_page_put)

lemma same_but_trans: "same_but fr pgdir st st1 \<Longrightarrow> same_but fr pgdir st1 st2 \<Longrightarrow> same_but fr pgdir st st2"
  by (simp add: same_but_def)

lemma push_args_page:
  assumes "stack_page st pgdir page fr" "off \<le> 4096" "args_fit off argv" "length ptrs + length argv \<le> MAXARG"
  shows "\<exists>st'. push_args pgdir argv (page + of_nat off) ptrs st
      = Ok (Some (page + of_nat (arg_end off argv), ptrs @ map (\<lambda>o'. page + of_nat o') (arg_offs off argv)), st')
    \<and> stack_page st' pgdir page fr \<and> same_but fr pgdir st st'
    \<and> (\<forall>i < length argv. arg_end off argv \<le> arg_offs off argv ! i \<and> arg_offs off argv ! i + Suc (length (argv ! i)) \<le> off
         \<and> get_bytes (arg_offs off argv ! i) (Suc (length (argv ! i))) (page_bytes st' fr) = argv ! i @ [0])
    \<and> (\<forall>i n. off \<le> i \<longrightarrow> get_bytes i n (page_bytes st' fr) = get_bytes i n (page_bytes st fr))"
  using assms
proof (induction argv arbitrary: off ptrs st)
  case Nil
  then show ?case by (simp add: same_but_def)
next
  case (Cons a argv)
  let ?o = "arg_off off a" and ?s = "put_page fr (arg_off off a) (a @ [0]) st"
  have al: "aligned page" using Cons.prems(1) by (simp add: stack_page_def)
  have fit: "Suc (length a) \<le> off" "args_fit ?o argv" using Cons.prems(3) by simp_all
  have o: "?o + Suc (length a) \<le> off" by (rule arg_off_le [OF fit(1)])
  have len: "length (page_bytes st fr) = 4096" using Cons.prems(1) by (simp add: stack_page_def)
  have co: "copyout pgdir (page + of_nat ?o) (a @ [0]) st = Ok (0, ?s)"
    by (rule copyout_page [OF Cons.prems(1)]) (use o Cons.prems(2) in auto)
  have s: "stack_page ?s pgdir page fr" "same_but fr pgdir st ?s"
    using stack_page_put(1) [OF Cons.prems(1)] same_but_put [OF Cons.prems(1)] o Cons.prems(2) by auto
  from Cons.IH [OF s(1) _ fit(2), of "ptrs @ [page + of_nat ?o]"] o Cons.prems(2,4)
  obtain st' where R: "push_args pgdir argv (page + of_nat ?o) (ptrs @ [page + of_nat ?o]) ?s
      = Ok (Some (page + of_nat (arg_end ?o argv), (ptrs @ [page + of_nat ?o]) @ map (\<lambda>o'. page + of_nat o') (arg_offs ?o argv)), st')"
    and ok: "stack_page st' pgdir page fr" "same_but fr pgdir ?s st'"
    and args: "\<And>i. i < length argv \<Longrightarrow> arg_end ?o argv \<le> arg_offs ?o argv ! i \<and> arg_offs ?o argv ! i + Suc (length (argv ! i)) \<le> ?o
         \<and> get_bytes (arg_offs ?o argv ! i) (Suc (length (argv ! i))) (page_bytes st' fr) = argv ! i @ [0]"
    and above: "\<And>i n. ?o \<le> i \<Longrightarrow> get_bytes i n (page_bytes st' fr) = get_bytes i n (page_bytes ?s fr)"
    by auto
  have mine: "get_bytes ?o (Suc (length a)) (page_bytes st' fr) = a @ [0]"
    using above [of ?o "Suc (length a)"] o Cons.prems(2) len by simp
  have keep: "get_bytes i n (page_bytes st' fr) = get_bytes i n (page_bytes st fr)" if "off \<le> i" for i n
    using above [of i n] that o Cons.prems(2) len by (simp add: get_put_bytes_other)
  have "push_args pgdir (a # argv) (page + of_nat off) ptrs st
      = push_args pgdir argv (page + of_nat ?o) (ptrs @ [page + of_nat ?o]) ?s"
    unfolding push_args.simps Let_def push_sp [OF al fit(1)] co using Cons.prems(4) by simp
  moreover have "arg_end ?o argv \<le> ?o" by (rule arg_end_le [OF fit(2)])
  moreover have "arg_offs ?o argv ! i + Suc (length (argv ! i)) \<le> off" if "i < length argv" for i
    using args [OF that] o by linarith
  ultimately show ?case
    using R ok args mine keep o same_but_trans [OF s(2) ok(2)] by (intro exI [of _ st']) (auto simp: nth_Cons split: nat.splits)
qed


lemma get_bytes_inside:
  assumes "off + length bs \<le> length d" "j + n \<le> length bs"
  shows "get_bytes (off + j) n (put_bytes off bs d) = get_bytes j n bs"
proof (rule nth_equalityI)
  show "length (get_bytes (off + j) n (put_bytes off bs d)) = length (get_bytes j n bs)"
    using assms by (simp add: get_bytes_def)
  fix i assume "i < length (get_bytes (off + j) n (put_bytes off bs d))"
  then show "get_bytes (off + j) n (put_bytes off bs d) ! i = get_bytes j n bs ! i"
    using assms by (simp add: get_bytes_def nth_put_bytes)
qed

lemma get_bytes_words: "i < length ws \<Longrightarrow> get_bytes (4 * i) 4 (concat (map le32 ws)) = le32 (ws ! i)"
proof (induction ws arbitrary: i)
  case (Cons w ws)
  show ?case
  proof (cases i)
    case 0
    then show ?thesis by (simp add: get_bytes_def)
  next
    case (Suc j)
    then show ?thesis using Cons by (simp add: get_bytes_def drop_append)
  qed
qed simp

lemma length_words [simp]: "length (concat (map le32 ws)) = 4 * length ws"
  by (induction ws) auto

lemma get32_words:
  assumes "off + 4 * length ws \<le> length d" "i < length ws"
  shows "get32 (off + 4 * i) (put_bytes off (concat (map le32 ws)) d) = ws ! i"
  unfolding get32_def using assms get_bytes_words [OF assms(2)] un32_le32 [of "ws ! i" "[]"]
  by (subst get_bytes_inside) auto

lemma length_arg_offs [simp]: "length (arg_offs off argv) = length argv"
  by (induction off argv rule: arg_offs.induct) auto

text \<open>What a program finds at offset \<open>off\<close> of its stack page: the fake return address, the number of arguments and the address of the vector, the
  vector with one pointer per argument and a null pointer, and behind it the bytes of every argument with a terminating zero.\<close>

definition arg_layout :: "byte list list \<Rightarrow> u32 \<Rightarrow> nat \<Rightarrow> byte list \<Rightarrow> bool" where
  "arg_layout argv page off d \<longleftrightarrow>
     off + 4 * (length argv + 4) \<le> 4096 \<and>
     (\<exists>ptrs. length ptrs = length argv
        \<and> (\<forall>i < length argv + 4. get32 (off + 4 * i) d = ([0xffffffff, of_nat (length argv), page + of_nat off + 12] @ ptrs @ [0]) ! i)
        \<and> (\<forall>i < length argv. \<exists>j. ptrs ! i = page + of_nat j \<and> off + 4 * (length argv + 4) \<le> j
             \<and> j + Suc (length (argv ! i)) \<le> 4096 \<and> get_bytes j (Suc (length (argv ! i))) d = argv ! i @ [0]))"

lemma exec_stack_layout:
  assumes "stack_page st pgdir (sz - PGSIZE) fr" "stack_fits argv"
  shows "\<exists>off st'. exec_stack pgdir argv sz st = Ok (Some (sz - PGSIZE + of_nat off), st')
    \<and> arg_layout argv (sz - PGSIZE) off (page_bytes st' fr) \<and> same_but fr pgdir st st'"
proof -
  let ?page = "sz - PGSIZE" and ?n = "length argv" and ?stop = "arg_end 4096 argv"
  define ptrs where "ptrs = map (\<lambda>o'. ?page + of_nat o') (arg_offs 4096 argv)"
  have f: "?n \<le> MAXARG" "args_fit 4096 argv" "4 * (?n + 4) \<le> ?stop" using assms(2) by (auto simp: stack_fits_def)
  have sz: "?page + of_nat 4096 = sz" by (simp add: PGSIZE_def)
  from push_args_page [OF assms(1) _ f(2), of "[]"] f(1)
  obtain st1 where push: "push_args pgdir argv sz [] st = Ok (Some (?page + of_nat ?stop, ptrs), st1)"
    and st1: "stack_page st1 pgdir ?page fr" "same_but fr pgdir st st1"
    and args: "\<And>i. i < ?n \<Longrightarrow> ?stop \<le> arg_offs 4096 argv ! i \<and> arg_offs 4096 argv ! i + Suc (length (argv ! i)) \<le> 4096
         \<and> get_bytes (arg_offs 4096 argv ! i) (Suc (length (argv ! i))) (page_bytes st1 fr) = argv ! i @ [0]"
    unfolding sz by (auto simp: ptrs_def)
  define off where "off = ?stop - 4 * (?n + 4)"
  have oe: "off + 4 * (?n + 4) = ?stop" "?stop \<le> 4096" using f(3) arg_end_le [OF f(2)] by (simp_all add: off_def)
  have lp: "length ptrs = ?n" by (simp add: ptrs_def)
  have sp: "?page + of_nat ?stop - (3 + of_nat ?n + 1) * 4 = ?page + of_nat off"
    "?page + of_nat ?stop - (of_nat ?n + 1) * 4 = ?page + of_nat off + 12"
    unfolding oe(1) [symmetric] by (simp_all add: algebra_simps)
  define ustack where "ustack = [0xffffffff, of_nat ?n, ?page + of_nat off + 12] @ ptrs @ [0 :: u32]"
  have lu: "length ustack = ?n + 4" by (simp add: ustack_def lp)
  define st' where "st' = put_page fr off (concat (map le32 ustack)) st1"
  have fits: "off + length (concat (map le32 ustack)) \<le> 4096" using oe lu by simp
  have co: "copyout pgdir (?page + of_nat off) (concat (map le32 ustack)) st1 = Ok (0, st')"
    unfolding st'_def by (rule copyout_page [OF st1(1) _ fits]) (simp add: ustack_def le32_def)
  have "exec_stack pgdir argv sz st = Ok (Some (?page + of_nat off), st')"
    unfolding exec_stack_def push and_then.simps prod.case option.case Let_def lp sp ustack_def [symmetric] co by simp
  moreover have len: "length (page_bytes st1 fr) = 4096" using st1(1) by (simp add: stack_page_def)
  have "\<forall>i < ?n + 4. get32 (off + 4 * i) (page_bytes st' fr) = ustack ! i"
    using get32_words [of off ustack "page_bytes st1 fr"] fits len lu by (simp add: st'_def)
  moreover have "\<exists>j. ptrs ! i = ?page + of_nat j \<and> off + 4 * (?n + 4) \<le> j
         \<and> j + Suc (length (argv ! i)) \<le> 4096 \<and> get_bytes j (Suc (length (argv ! i))) (page_bytes st' fr) = argv ! i @ [0]" if "i < ?n" for i
    using args [OF that] that oe lu len fits
    by (intro exI [of _ "arg_offs 4096 argv ! i"]) (auto simp: ptrs_def st'_def get_put_bytes_other)
  moreover have "same_but fr pgdir st st'"
    unfolding st'_def using same_but_trans [OF st1(2) same_but_put [OF st1(1) fits]] .
  ultimately show ?thesis
    using lp oe unfolding arg_layout_def ustack_def by (intro exI [of _ off] exI [of _ st'] conjI exI [of _ ptrs]) auto
qed


text \<open>No page of user memory is a page table.\<close>

definition user_data :: "machine \<Rightarrow> u32 \<Rightarrow> bool" where
  "user_data st pgdir \<longleftrightarrow> (\<forall>va. user_page st pgdir va \<longrightarrow> frame_of st pgdir va \<notin> tables st pgdir)"

lemma uva2ka_user:
  assumes "uva2ka pgdir va st = Ok fr" "fr \<noteq> 0"
  shows "user_page st pgdir va" "fr = frame_of st pgdir va"
proof -
  have "pd_present st pgdir (PDX va)" using assms(1) by (auto simp: uva2ka_def walk_noalloc split: if_splits)
  from uva2ka_lookup [OF this] assms show "user_page st pgdir va" "fr = frame_of st pgdir va"
    by (auto simp: user_page_def split: if_splits)
qed

lemma copyout_step:
  assumes "copyout_loop pgdir va buf st = Ok (0, st')" "buf \<noteq> []"
  obtains n where "user_page st pgdir va" "n = min (length buf) (4096 - unat va mod 4096)"
    "copyout_loop pgdir (PGROUNDDOWN va + PGSIZE) (drop n buf)
      (put_page (frame_of st pgdir va) (unat va mod 4096) (take n buf) st) = Ok (0, st')"
proof -
  let ?v = "PGROUNDDOWN va"
  have v: "vpn ?v = vpn va" by (rule PGROUNDDOWN_vpn(2))
  have u: "unat va = vpn va * 4096 + unat va mod 4096" "unat ?v = vpn va * 4096"
    using PGROUNDDOWN_vpn(1) [of va] by (simp_all add: vpn_def)
  then have o: "unat (va - ?v) = unat va mod 4096" by (subst unat_sub) (auto simp: word_le_nat_alt)
  obtain fr where fr: "uva2ka pgdir ?v st = Ok fr" "fr \<noteq> 0"
    using assms by (cases "uva2ka pgdir ?v st") (auto simp: copyout_loop.simps [of pgdir va] Let_def split: if_splits)
  have up: "user_page st pgdir va" "fr = frame_of st pgdir va" using uva2ka_user [OF fr] page_vpn [OF v] by simp_all
  define n where "n = min (length buf) (4096 - unat va mod 4096)"
  have "0 < n" using assms(2) by (simp add: n_def)
  moreover have n: "(if 4096 - unat va mod 4096 > length buf then length buf else 4096 - unat va mod 4096) = n"
    by (simp add: n_def)
  ultimately have "copyout_loop pgdir (?v + PGSIZE) (drop n buf) (put_page fr (unat va mod 4096) (take n buf) st) = Ok (0, st')"
    using assms fr unfolding copyout_loop.simps [of pgdir va] Let_def fr(1) outcome.case o n by (simp add: put_page_def)
  then show ?thesis using that [of n] up n_def by simp
qed

lemma copyout_first:
  assumes "copyout pgdir va buf st = Ok (0, st')" "buf \<noteq> []"
  shows "user_page st pgdir va"
  using copyout_step [OF assms(1) [unfolded copyout_def] assms(2)] by blast

lemma user_data_put:
  assumes "user_data st pgdir" "user_page st pgdir va"
  shows "lookup (put_page (frame_of st pgdir va) off bs st) pgdir = lookup st pgdir"
    "user_data (put_page (frame_of st pgdir va) off bs st) pgdir"
proof -
  define fr where "fr = frame_of st pgdir va"
  have nt: "fr \<notin> tables st pgdir" using assms by (simp add: user_data_def fr_def)
  note W = data_write_table [OF nt, of "Bytes (put_bytes off bs (page_bytes st fr))", folded put_page_def]
  have l: "lookup (put_page fr off bs st) pgdir = lookup st pgdir" by (simp add: fun_eq_iff W)
  then show "lookup (put_page (frame_of st pgdir va) off bs st) pgdir = lookup st pgdir" by (simp add: fr_def)
  have "user_data (put_page fr off bs st) pgdir"
    using assms(1) unfolding user_data_def user_page_def frame_of_def l W(3) .
  then show "user_data (put_page (frame_of st pgdir va) off bs st) pgdir" by (simp add: fr_def)
qed

lemma user_page_lookup: "lookup st' pgdir = lookup st pgdir \<Longrightarrow> user_page st' pgdir = user_page st pgdir"
  by (simp add: user_page_def frame_of_def fun_eq_iff)

lemma copyout_user:
  assumes "user_data st pgdir" "copyout_loop pgdir va buf st = Ok (0, st')" "unat va + length buf \<le> 2 ^ 32"
  shows "(\<forall>x. unat va \<le> unat x \<and> unat x < unat va + length buf \<longrightarrow> user_page st pgdir x)
    \<and> lookup st' pgdir = lookup st pgdir \<and> user_data st' pgdir"
  using assms
proof (induction "length buf" arbitrary: va buf st rule: less_induct)
  case less
  show ?case
  proof (cases "buf = []")
    case True
    then show ?thesis using less.prems by (auto simp: copyout_loop.simps [of _ _ "[]"])
  next
    case False
    obtain n where U: "user_page st pgdir va" and n: "n = min (length buf) (4096 - unat va mod 4096)"
      and R: "copyout_loop pgdir (PGROUNDDOWN va + PGSIZE) (drop n buf)
        (put_page (frame_of st pgdir va) (unat va mod 4096) (take n buf) st) = Ok (0, st')"
      by (rule copyout_step [OF less.prems(2) False])
    let ?s = "put_page (frame_of st pgdir va) (unat va mod 4096) (take n buf) st" and ?v = "PGROUNDDOWN va + PGSIZE"
    note D = user_data_put [OF less.prems(1) U, of "unat va mod 4096" "take n buf"]
    have n0: "0 < n" using False n by simp
    have pv: "unat va = vpn va * 4096 + unat va mod 4096" by (simp add: vpn_def)
    have near: "user_page st pgdir x" if "unat va \<le> unat x" "unat x < unat va + n" for x
    proof -
      have "unat x < vpn va * 4096 + 4096" using that n pv by linarith
      then have "vpn x = vpn va" using that(1) pv by (simp add: vpn_def)
      then show ?thesis using U page_vpn(2) by blast
    qed
    show ?thesis
    proof (cases "drop n buf = []")
      case True
      then have "st' = ?s" using R by (simp add: copyout_loop.simps [of _ _ "[]"])
      moreover have "n = length buf" using True n by simp
      ultimately show ?thesis using near D by simp
    next
      case False
      then have nl: "n < length buf" "n = 4096 - unat va mod 4096" using n by (auto simp: min_def split: if_splits)
      have "unat va + n < 2 ^ 32" using nl(1) less.prems(3) by linarith
      moreover have "unat va mod 4096 < 4096" by simp
      then have "unat va + n = vpn va * 4096 + 4096" using nl(2) pv by linarith
      ultimately have v: "unat ?v = unat va + n"
        using PGROUNDDOWN_vpn(1) [of va] by (simp add: unat_word_ariths PGSIZE_def)
      have sm: "length (drop n buf) < length buf" using n0 nl(1) by simp
      have "unat ?v + length (drop n buf) \<le> 2 ^ 32" using v nl(1) less.prems(3) by simp
      from less.hyps [OF sm D(2) R this]
      have IH: "\<And>x. unat va + n \<le> unat x \<Longrightarrow> unat x < unat va + length buf \<Longrightarrow> user_page ?s pgdir x"
        "lookup st' pgdir = lookup st pgdir" "user_data st' pgdir"
        using v nl(1) D(1) by auto
      have "user_page ?s pgdir = user_page st pgdir" by (rule user_page_lookup [OF D(1)])
      then show ?thesis using near IH by (metis not_less)
    qed
  qed
qed


text \<open>The page below the stack page and everything from \<^verbatim>\<open>sz\<close> upwards is out of reach of the user.\<close>

definition stack_guarded :: "machine \<Rightarrow> u32 \<Rightarrow> u32 \<Rightarrow> bool" where
  "stack_guarded st pgdir sz \<longleftrightarrow> 8192 \<le> unat sz \<and> unat sz \<le> 2 ^ 31
     \<and> (\<forall>x. unat sz - 8192 \<le> unat x \<and> unat x < unat sz - 4096 \<longrightarrow> \<not> user_page st pgdir x)
     \<and> (\<forall>x. unat sz \<le> unat x \<longrightarrow> \<not> user_page st pgdir x)"

lemma stack_guarded_same:
  "lookup st' pgdir = lookup st pgdir \<Longrightarrow> stack_guarded st' pgdir sz = stack_guarded st pgdir sz"
  by (simp add: stack_guarded_def user_page_def frame_of_def)

lemma unat_small: "n < 2 ^ 32 \<Longrightarrow> unat (of_nat n :: u32) = n"
  by (simp only: unat_of_nat) simp

lemma unat_and_not_3: "unat (x AND NOT 3 :: u32) = unat x - unat x mod 4"
proof -
  have "aligned 0" by (simp add: aligned_def)
  from and_not_3 [OF this, of "unat x"] have "x AND NOT 3 = of_nat (unat x - unat x mod 4)" by simp
  moreover have "unat x < 2 ^ 32" by (rule order.strict_trans2 [OF unsigned_less]) simp
  then have "unat x - unat x mod 4 < 2 ^ 32" by (rule le_less_trans [OF diff_le_self])
  then have "unat (of_nat (unat x - unat x mod 4) :: u32) = unat x - unat x mod 4"
    by (rule unat_small)
  ultimately show ?thesis by (simp only:)
qed

lemma round_4: "(m :: nat) < m - m mod 4 + 4"
  by presburger

text \<open>A copy of \<open>n\<close> bytes to the rounded address below an address of the stack page reaches the user only if it stays in the page.\<close>

lemma push_fits:
  assumes g: "stack_guarded st pgdir sz" and d: "user_data st pgdir" and off: "off \<le> 4096"
    and buf: "buf \<noteq> []" "length buf \<le> 2 ^ 31"
    and co: "copyout pgdir ((sz - PGSIZE + of_nat off - of_nat (length buf)) AND NOT 3) buf st = Ok (0, st')"
  shows "length buf \<le> off"
proof (rule ccontr)
  assume n: "\<not> length buf \<le> off"
  let ?n = "length buf" and ?va = "(sz - PGSIZE + of_nat off - of_nat (length buf)) AND NOT 3"
  have G: "8192 \<le> unat sz" "unat sz \<le> 2 ^ 31" using g by (simp_all add: stack_guarded_def)
  have P: "unat (sz - PGSIZE) = unat sz - 4096"
    using G(1) by (subst unat_sub) (auto simp: word_le_nat_alt PGSIZE_def)
  then have S: "unat (sz - PGSIZE + of_nat off) = unat sz - 4096 + off"
    using off G by (simp add: unat_word_ariths unat_of_nat take_bit_nat_eq_self)
  have un: "unat (of_nat ?n :: u32) = ?n" using buf(2) by (simp add: unat_of_nat take_bit_nat_eq_self)
  have first: "user_page st pgdir ?va" by (rule copyout_first [OF co buf(1)])
  show False
  proof (cases "?n \<le> unat sz - 4096 + off")
    case True
    then have w: "unat (sz - PGSIZE + of_nat off - of_nat ?n) = unat sz - 4096 + off - ?n"
      using S un by (subst unat_sub) (auto simp: word_le_nat_alt)
    have va: "unat ?va = unat sz - 4096 + off - ?n - (unat sz - 4096 + off - ?n) mod 4" unfolding unat_and_not_3 w ..
    have lt: "unat ?va < unat sz - 4096" using va n True G by linarith
    show ?thesis
    proof (cases "unat sz - 8192 \<le> unat ?va")
      case True
      then show ?thesis using g first lt by (auto simp: stack_guarded_def)
    next
      case False
      have "unat sz - 4096 + off - ?n < unat ?va + 4" unfolding va by (rule round_4)
      then have hi: "unat sz - 8192 < unat ?va + ?n" using True G off by linarith
      let ?x = "of_nat (unat sz - 8192) :: u32"
      have x: "unat ?x = unat sz - 8192" by (rule unat_small) (use G(2) in simp)
      have "unat ?va + ?n \<le> 2 ^ 32" using lt buf(2) G(2) by simp
      from copyout_user [OF d co [unfolded copyout_def] this] have "user_page st pgdir ?x" using False hi x by simp
      then show ?thesis using g x G by (auto simp: stack_guarded_def)
    qed
  next
    case False
    have "unat (sz - PGSIZE + of_nat off - of_nat ?n) = 2 ^ 32 + (unat sz - 4096 + off) - ?n"
      using False S un unat_sub_if' [of "sz - PGSIZE + of_nat off" "of_nat ?n"] by (simp add: word_size)
    moreover have "2 ^ 31 \<le> m - m mod 4" if "2 ^ 31 \<le> m" for m :: nat using that by simp presburger
    moreover have "2 ^ 31 \<le> 2 ^ 32 + (unat sz - 4096 + off) - ?n" using buf(2) by simp
    ultimately have "2 ^ 31 \<le> unat ?va" unfolding unat_and_not_3 by metis
    then show ?thesis using first g G by (auto simp: stack_guarded_def)
  qed
qed


lemma aligned_below: "aligned sz \<Longrightarrow> aligned (sz - PGSIZE)"
proof -
  have m: "(a mod 4294967296) mod 4096 = a mod 4096" for a :: int by (rule mod_mod_cancel) simp
  have "uint (sz - PGSIZE) = (uint sz - 4096) mod 4294967296" by (simp add: PGSIZE_def uint_word_ariths)
  moreover have "(uint sz - 4096) mod 4096 = uint sz mod 4096" using mod_mult_self1 [of "uint sz" "- 1" 4096] by simp
  ultimately show "aligned sz \<Longrightarrow> aligned (sz - PGSIZE)" unfolding aligned_iff by (simp only: m)
qed

lemma copyout_result: "copyout pgdir va buf st = Ok (r, m) \<Longrightarrow> r = 0 \<or> r = - 1"
  unfolding copyout_def
proof (induction pgdir va buf st rule: copyout_loop.induct)
  case (1 pgdir va buf st)
  from 1(2) show ?case
    unfolding copyout_loop.simps [of pgdir va buf st] Let_def
    by (cases "uva2ka pgdir (PGROUNDDOWN va) st") (use 1(1) in \<open>auto simp: Let_def split: if_splits\<close>)
qed

lemma push_args_fits:
  assumes "stack_guarded st pgdir sz" "user_data st pgdir" "aligned sz" "off \<le> 4096" "off mod 4 = 0"
    and "\<forall>a \<in> set argv. length a < 2 ^ 31"
    and "push_args pgdir argv (sz - PGSIZE + of_nat off) ptrs st = Ok (Some (sp, ptrs'), st')"
  shows "args_fit off argv \<and> length ptrs' = length ptrs + length argv \<and> (argv \<noteq> [] \<longrightarrow> length ptrs' \<le> MAXARG)
    \<and> sp = sz - PGSIZE + of_nat (arg_end off argv) \<and> stack_guarded st' pgdir sz \<and> user_data st' pgdir"
  using assms
proof (induction argv arbitrary: off ptrs st)
  case (Cons a argv)
  note al = aligned_below [OF Cons.prems(3)]
  let ?va = "(sz - PGSIZE + of_nat off - (of_nat (length a) + 1)) AND NOT 3"
  have lp: "length ptrs < MAXARG" using Cons.prems(7) by (simp add: Let_def split: if_splits)
  have push: "push_args pgdir (a # argv) (sz - PGSIZE + of_nat off) ptrs st =
    and_then (copyout pgdir ?va (a @ [0]) st) (\<lambda>(r, m). if r < 0 then Ok (None, m) else push_args pgdir argv ?va (ptrs @ [?va]) m)"
    unfolding push_args.simps Let_def using lp by (simp only: not_le [symmetric] if_False)
  obtain r m where co: "copyout pgdir ?va (a @ [0]) st = Ok (r, m)" "\<not> r < 0"
    and rest: "push_args pgdir argv ?va (ptrs @ [?va]) m = Ok (Some (sp, ptrs'), st')"
    using Cons.prems(7) unfolding push by (auto split: if_splits)
  have "r = 0" using copyout_result [of pgdir ?va "a @ [0]" st] co by auto
  note co = co(1) [unfolded this]
  have len: "of_nat (length a) + 1 = (of_nat (length (a @ [0 :: byte])) :: u32)" by simp
  have fit: "Suc (length a) \<le> off"
    using push_fits [OF Cons.prems(1,2,4) _ _ co [unfolded len]] Cons.prems(6) by simp
  note va = push_sp [OF al fit]
  have o: "arg_off off a \<le> 4096" "arg_off off a mod 4 = 0"
    using arg_off_le [OF fit] Cons.prems(4) minus_mod_eq_mult_div [of "off - Suc (length a)" 4] unfolding arg_off_def by simp_all
  have P: "unat (sz - PGSIZE) + 4096 = unat sz"
    using Cons.prems(1) by (subst unat_sub) (auto simp: word_le_nat_alt PGSIZE_def stack_guarded_def)
  have un: "unat (sz - PGSIZE + of_nat (arg_off off a)) = unat (sz - PGSIZE) + arg_off off a"
    using P o(1) Cons.prems(1) by (simp add: unat_word_ariths unat_small stack_guarded_def)
  have "unat ?va + length (a @ [0]) \<le> 2 ^ 32"
    unfolding va un using P arg_off_le [OF fit] Cons.prems(1,4) by (simp add: stack_guarded_def)
  from copyout_user [OF Cons.prems(2) co [unfolded copyout_def] this]
  have l: "lookup m pgdir = lookup st pgdir" "user_data m pgdir" by simp_all
  have g: "stack_guarded m pgdir sz" using Cons.prems(1) stack_guarded_same [OF l(1)] by simp
  from Cons.IH [OF g l(2) Cons.prems(3) o, of "ptrs @ [?va]"] rest [unfolded va] Cons.prems(6)
  show ?case using fit lp unfolding va by (cases "argv = []") auto
qed auto


lemma arg_end_mod: "off mod 4 = 0 \<Longrightarrow> arg_end off argv mod 4 = 0"
  by (induction off argv rule: arg_end.induct) (simp_all add: arg_off_def minus_mod_eq_mult_div)

lemma exec_stack_guard:
  assumes "stack_guarded st pgdir sz" "user_data st pgdir" "aligned sz" "\<forall>a \<in> set argv. length a < 2 ^ 31"
    and "exec_stack pgdir argv sz st = Ok (Some sp, st')"
  shows "stack_fits argv"
proof -
  have sz: "sz - PGSIZE + of_nat 4096 = sz" by (simp add: PGSIZE_def)
  obtain sp1 ptrs m where p: "push_args pgdir argv sz [] st = Ok (Some (sp1, ptrs), m)"
    using assms(5) unfolding exec_stack_def by (auto split: option.splits)
  let ?n = "length argv" and ?stop = "arg_end 4096 argv"
  have P: "args_fit 4096 argv" "length ptrs = ?n" "argv \<noteq> [] \<longrightarrow> ?n \<le> MAXARG" "sp1 = sz - PGSIZE + of_nat ?stop"
    "stack_guarded m pgdir sz" "user_data m pgdir"
    using push_args_fits [OF assms(1-3) _ _ assms(4), of 4096 "[]" sp1 ptrs m] p unfolding sz by auto
  define ustack where "ustack = [0xffffffff, of_nat ?n, sp1 - (of_nat ?n + 1) * 4] @ ptrs @ [0 :: u32]"
  let ?va = "sp1 - (3 + of_nat ?n + 1) * 4" and ?buf = "concat (map le32 ustack)"
  obtain r where "copyout pgdir ?va ?buf m = Ok (r, st')" "\<not> r < 0"
    using assms(5) p P(2) unfolding exec_stack_def by (auto simp: Let_def ustack_def split: if_splits)
  then have co: "copyout pgdir ?va ?buf m = Ok (0, st')" using copyout_result [of pgdir ?va ?buf m] by auto
  have n: "?n \<le> MAXARG" using P(3) by (cases "argv = []") auto
  have len: "length ?buf = 4 * (?n + 4)" by (simp add: ustack_def P(2))
  have e: "?stop \<le> 4096" "?stop mod 4 = 0" using arg_end_le [OF P(1)] arg_end_mod [of 4096 argv] by simp_all
  have va: "?va = sz - PGSIZE + of_nat ?stop - of_nat (length ?buf)" unfolding P(4) len by (simp add: algebra_simps)
  have "?va AND NOT 3 = ?va"
  proof -
    have b: "8192 \<le> unat sz" "unat sz \<le> 2 ^ 31" using assms(1) by (simp_all add: stack_guarded_def)
    have q: "unat (sz - PGSIZE) = unat sz - 4096" using b(1) by (subst unat_sub) (auto simp: word_le_nat_alt PGSIZE_def)
    have k: "4 * (?n + 4) \<le> 4096" using n by (simp add: MAXARG_def)
    have "sz - PGSIZE + of_nat ?stop - of_nat (4 * (?n + 4)) = (sz - PGSIZE - PGSIZE) + of_nat (4096 + ?stop - 4 * (?n + 4))"
      using k by (simp add: of_nat_diff PGSIZE_def)
    moreover have "(4096 + ?stop - 4 * (?n + 4)) mod 4 = 0" using k e(2) by presburger
    ultimately show ?thesis
      unfolding va len using and_not_3 [OF aligned_below [OF aligned_below [OF assms(3)]]] by (simp only: diff_zero)
  qed
  then have co': "copyout pgdir ((sz - PGSIZE + of_nat ?stop - of_nat (length ?buf)) AND NOT 3) ?buf m = Ok (0, st')"
    using co unfolding va by simp
  have "length ?buf \<le> ?stop"
    by (rule push_fits [OF P(5,6) e(1) _ _ co']) (use len n in \<open>auto simp: ustack_def le32_def MAXARG_def\<close>)
  then show ?thesis using n P(1) len by (simp add: stack_fits_def)
qed


text \<open>C16: \<^verbatim>\<open>exec\<close> passes the arguments or fails.  With the stack page and the inaccessible page below it that \<^verbatim>\<open>exec\<close> has set up, the stack is
  built exactly when the strings and the vector fit the stack page.  Then the new program finds the number of arguments, the vector
  and every string, terminated, at the places the calling convention demands, and nothing outside the stack page has changed.  Arguments that
  do not fit, whatever their number and length, lead to the error exit and never to a success.
\<close>

theorem exec_passes_arguments:
  assumes "stack_page st pgdir (sz - PGSIZE) fr" "stack_guarded st pgdir sz" "user_data st pgdir" "aligned sz"
    and "\<forall>a \<in> set argv. length a < 2 ^ 31"
  shows "if stack_fits argv
    then \<exists>off st'. exec_stack pgdir argv sz st = Ok (Some (sz - PGSIZE + of_nat off), st')
      \<and> arg_layout argv (sz - PGSIZE) off (page_bytes st' fr)
      \<and> (\<forall>u. u \<noteq> fr \<longrightarrow> frames st' u = frames st u) \<and> lookup st' pgdir = lookup st pgdir
    else \<forall>sp st'. exec_stack pgdir argv sz st \<noteq> Ok (Some sp, st')"
  using exec_stack_layout [OF assms(1)] exec_stack_guard [OF assms(2-5)] unfolding same_but_def by auto

text \<open>A machine that maps one user page, at the address of a page.\<close>

definition stack_machine :: machine where
  "stack_machine = sample_machine\<lparr>frames := (frames sample_machine)(0x80002000 := Words ((replicate 1024 0)[1 := 0x3007]))\<rparr>"

lemma stack_machine_pages:
  "page_words stack_machine 0x80001000 = one_entry 0x2007"
  "page_words stack_machine 0x80002000 = (replicate 1024 0)[1 := 0x3007]"
  "page_bytes stack_machine 0x80003000 = fill_page 5"
  by (simp_all add: page_words_def page_bytes_def stack_machine_def sample_machine_def)

lemma stack_machine_dir:
  "pd_present stack_machine 0x80001000 i \<longleftrightarrow> i = 0" "table_of stack_machine 0x80001000 0 = 0x80002000"
  using sample_dir by (simp_all add: pd_present_def table_of_def stack_machine_pages sample_pages)

lemma stack_machine_lookup: "lookup stack_machine 0x80001000 x = (if vpn x = 1 then 0x3007 else 0)"
proof -
  have "vpn x = 1 \<longleftrightarrow> PDX x = 0 \<and> PTX x = 1" unfolding PDX_PTX by (auto simp: div_eq_0_iff)
  then show ?thesis by (auto simp: lookup_eq stack_machine_dir stack_machine_pages nth_list_update)
qed

lemma stack_machine_user: "user_page stack_machine 0x80001000 x \<longleftrightarrow> vpn x = 1"
  "vpn x = 1 \<Longrightarrow> frame_of stack_machine 0x80001000 x = 0x80003000"
  "tables stack_machine 0x80001000 = {0x80001000, 0x80002000}"
proof -
  have b: "bit (0x3007 :: u32) 0" "bit (0x3007 :: u32) 2" by (simp_all add: bit_numeral_simps bit_0)
  show f: "frame_of stack_machine 0x80001000 x = 0x80003000" if "vpn x = 1" for x
    using that by (simp add: frame_of_def stack_machine_lookup P2V_def PTE_ADDR_def KERNBASE_V_def)
  show "user_page stack_machine 0x80001000 x \<longleftrightarrow> vpn x = 1"
    using b f [of x] by (auto simp: user_page_def stack_machine_lookup mapped_def)
  show "tables stack_machine 0x80001000 = {0x80001000, 0x80002000}" using stack_machine_dir by (auto simp: tables_def)
qed

theorem exec_passes_arguments_witness:
  "\<exists>off st'. exec_stack 0x80001000 [[104, 105], []] 0x2000 stack_machine = Ok (Some (0x1000 + of_nat off), st')
     \<and> arg_layout [[104, 105], []] 0x1000 off (page_bytes st' 0x80003000)"
proof -
  have v: "vpn 0x1000 = 1" by (simp add: vpn_def)
  have s: "(0x2000 :: u32) - PGSIZE = 0x1000" by (simp add: PGSIZE_def)
  have "stack_page stack_machine 0x80001000 0x1000 0x80003000"
    using stack_machine_user v stack_machine_dir
    by (simp add: stack_page_def data_frame_def stack_machine_pages fill_page_def aligned_iff PDX_PTX)
  moreover have "stack_guarded stack_machine 0x80001000 0x2000"
    unfolding stack_guarded_def stack_machine_user(1) by (auto simp: vpn_def)
  moreover have "user_data stack_machine 0x80001000" using stack_machine_user by (simp add: user_data_def)
  moreover have "aligned 0x2000" by (simp add: aligned_iff)
  moreover have "stack_fits [[104, 105], []]" by (simp add: stack_fits_def arg_off_def MAXARG_def)
  ultimately show ?thesis using exec_passes_arguments [of stack_machine "0x80001000" "0x2000" "0x80003000" "[[104, 105], []]"] unfolding s by auto
qed

end
