(* ===== verification/Kernel.thy ===== *)
theory Kernel
  imports Exec
begin

text \<open>
  The kernel as a whole: the processes of theory \<^verbatim>\<open>Proc\<close> with the files of theories \<^verbatim>\<open>File\<close> and \<^verbatim>\<open>Sysfile\<close> as their
  environment, and the accounts that hold between all processes, the file table and the inode cache.
\<close>

subsection \<open>Calls of a running process\<close>

definition idup_op :: "nat \<Rightarrow> fstate \<Rightarrow> fstate outcome" where
  "idup_op ip e = Ok (e\<lparr>ffs := idup ip (ffs e)\<rparr>)"

text \<open>\<^verbatim>\<open>begin_op(); iput(curproc->cwd); end_op();\<close> in \<^verbatim>\<open>exit\<close>.\<close>

definition put_op :: "nat \<Rightarrow> nat \<Rightarrow> fstate \<Rightarrow> fstate outcome" where
  "put_op pid ip e = and_then (on_fs (iput pid ip) (begin_fop e)) (\<lambda>e. Ok (end_fop e))"

text \<open>The entries of the system call table that \<^verbatim>\<open>sysfile.c\<close> defines, without \<^verbatim>\<open>sys_exec\<close>, which also changes the address space.\<close>

definition file_call :: "devread \<Rightarrow> devwrite \<Rightarrow> byte list option \<Rightarrow> sysno \<Rightarrow> (sysst \<Rightarrow> (int option \<times> sysst) outcome) option" where
  "file_call devr devw page n =
     (let val = (\<lambda>h s. and_then (h s) (\<lambda>(r, s). Ok (Some r, s))) in
      case n of
        SYS_dup \<Rightarrow> Some (val sys_dup)
      | SYS_read \<Rightarrow> Some (sys_read devr)
      | SYS_write \<Rightarrow> Some (sys_write devw)
      | SYS_close \<Rightarrow> Some (val sys_close)
      | SYS_fstat \<Rightarrow> Some (val sys_fstat)
      | SYS_link \<Rightarrow> Some (val (sys_link devr devw))
      | SYS_unlink \<Rightarrow> Some (val (sys_unlink devr devw))
      | SYS_open \<Rightarrow> Some (val (sys_open devr devw))
      | SYS_mkdir \<Rightarrow> Some (val (sys_mkdir devr devw))
      | SYS_mknod \<Rightarrow> Some (val (sys_mknod devr devw))
      | SYS_chdir \<Rightarrow> Some (val (sys_chdir devr))
      | SYS_pipe \<Rightarrow> Some (val (sys_pipe page))
      | _ \<Rightarrow> None)"

definition run_call :: "(sysst \<Rightarrow> ('a \<times> sysst) outcome) \<Rightarrow> (u32 \<Rightarrow> byte) \<Rightarrow> nat \<Rightarrow> (nat, fstate) kernel \<Rightarrow> ('a \<times> (nat, fstate) kernel) outcome" where
  "run_call h um cur k =
     and_then (h \<lparr>s_um = um, s_proc = pr k cur, s_env = env k\<rparr>) (\<lambda>(r, s).
       Ok (r, set_proc cur (s_proc s) (k\<lparr>env := s_env s\<rparr>)))"

text \<open>One step: a call on files of a process that runs, the start of a new program, or any step of theory \<^verbatim>\<open>Proc\<close> with the operations of \<^verbatim>\<open>file.c\<close> and
  \<^verbatim>\<open>fs.c\<close>.\<close>

inductive system_step :: "(nat, fstate) kernel \<Rightarrow> (nat, fstate) kernel \<Rightarrow> bool" where
  file_step: "c < length (running k) \<Longrightarrow> running k ! c = Some i \<Longrightarrow> file_call devr devw page n = Some h \<Longrightarrow>
    run_call h um i k = Ok (r, k') \<Longrightarrow> system_step k k'"
| exec_step: "c < length (running k) \<Longrightarrow> running k ! c = Some i \<Longrightarrow> sys_exec kend data devr um i k = Ok (r, k') \<Longrightarrow> system_step k k'"
| proc_step: "kstep kend data filedup idup_op (fileclose pid) (put_op pid) k k' \<Longrightarrow> system_step k k'"

subsection \<open>The accounts\<close>

definition dead :: "nat proc \<Rightarrow> bool" where
  "dead p \<longleftrightarrow> p_state p = UNUSED \<or> p_state p = ZOMBIE"

definition slot_ok :: "fstate \<Rightarrow> nat proc \<Rightarrow> bool" where
  "slot_ok e p \<longleftrightarrow> length (p_ofile p) = NOFILE \<and> (\<forall>f. Some f \<in> set (p_ofile p) \<longrightarrow> f < length (ftable e))
     \<and> (\<forall>c. p_cwd p = Some c \<longrightarrow> c < ilen (ffs e))
     \<and> (if dead p then p_ofile p = replicate NOFILE None \<and> p_cwd p = None else p_cwd p \<noteq> None)"

text \<open>Between calls no inode is locked and no operation of the log is open, the count of every file is the number of
  descriptors of all processes that name it, and the count of every inode is the number of open
  files and working directories that name it.\<close>

definition books :: "(nat, fstate) kernel \<Rightarrow> bool" where
  "books k \<longleftrightarrow> ftab_ok (env k) \<and> lks (ffs (env k)) = {} \<and> outstanding (env k) = 0
     \<and> (\<forall>f. frefs (env k) f = (\<Sum>p\<leftarrow>procs k. fds p f)) \<and> (\<forall>ip. debt (env k) ip = (\<Sum>p\<leftarrow>procs k. cw p ip))
     \<and> (\<forall>p \<in> set (procs k). slot_ok (env k) p)"

definition sig :: "nat proc \<Rightarrow> nat option list \<times> nat option \<times> bool" where
  "sig p = (p_ofile p, p_cwd p, dead p)"

lemma books_sig:
  assumes "env k' = env k" "map sig (procs k') = map sig (procs k)"
  shows "books k' = books k"
proof -
  let ?S = "\<lambda>f. (\<lambda>(fl, wd, d). (\<Sum>x\<leftarrow>fl. if x = Some f then 1 else 0 :: int))"
  let ?C = "\<lambda>ip. (\<lambda>(fl :: nat option list, wd, d :: bool). if wd = Some ip then 1 else 0 :: int)"
  let ?P = "\<lambda>(fl, wd, d). length fl = NOFILE \<and> (\<forall>f. Some f \<in> set fl \<longrightarrow> f < length (ftable (env k)))
     \<and> (\<forall>c. wd = Some c \<longrightarrow> c < ilen (ffs (env k))) \<and> (if d then fl = replicate NOFILE None \<and> wd = None else wd \<noteq> None)"
  have f: "fds p f = ?S f (sig p)" for p f by (simp add: sig_def fds_def)
  have c: "cw p ip = ?C ip (sig p)" for p ip by (simp add: sig_def cw_def)
  have s: "slot_ok (env k) p = ?P (sig p)" for p by (simp add: slot_ok_def sig_def)
  have sum: "(\<Sum>p\<leftarrow>procs k'. g (sig p)) = (\<Sum>p\<leftarrow>procs k. g (sig p))" for g :: "_ \<Rightarrow> int"
    using arg_cong [OF assms(2), of "\<lambda>xs. sum_list (map g xs)"] by (simp add: comp_def)
  have all: "(\<forall>p \<in> set (procs k'). g (sig p)) = (\<forall>p \<in> set (procs k). g (sig p))" for g
    using arg_cong [OF assms(2), of set] by auto (metis (no_types, lifting) imageE imageI)+
  show ?thesis unfolding books_def assms(1) f c s sum all by (rule refl)
qed

lemma map_set_same: "f y = f (xs ! i) \<Longrightarrow> map f (xs[i := y]) = map f xs"
proof (cases "i < length xs")
  case True
  assume "f y = f (xs ! i)"
  then show ?thesis using True by (simp add: map_update list_update_same_conv)
next
  case False
  then have "xs[i := y] = xs" by (simp add: list_update_beyond)
  then show ?thesis by simp
qed

lemma books_set_proc:
  "sig q = sig (pr k i) \<Longrightarrow> books (set_proc i q k) = books k"
  by (rule books_sig) (simp_all add: set_proc_def map_set_same)

lemma books_other [simp]:
  "books (k\<lparr>mem := m\<rparr>) = books k" "books (k\<lparr>running := r\<rparr>) = books k" "books (k\<lparr>nextpid := n\<rparr>) = books k"
  by (simp_all add: books_def)

lemma sum_list_procs:
  fixes g :: "nat proc \<Rightarrow> int"
  shows "i < length (procs k) \<Longrightarrow> (\<Sum>p\<leftarrow>procs (set_proc i q (k\<lparr>env := e\<rparr>)). g p) = (\<Sum>p\<leftarrow>procs k. g p) - g (pr k i) + g q"
  by (simp add: set_proc_def sum_list_update_int)

text \<open>The accounts after one process and the files changed together.\<close>

lemma books_change:
  assumes b: "books k" and i: "i < length (procs k)"
    and e: "ftab_ok e" "length (ftable e) = length (ftable (env k))" "ilen (ffs e) = ilen (ffs (env k))" "lks (ffs e) = {}" "outstanding e = 0"
    and f: "\<And>f. frefs e f - fds q f = frefs (env k) f - fds (pr k i) f" and d: "\<And>ip. debt e ip - cw q ip = debt (env k) ip - cw (pr k i) ip"
    and q: "slot_ok e q"
  shows "books (set_proc i q (k\<lparr>env := e\<rparr>))"
proof -
  let ?k = "set_proc i q (k\<lparr>env := e\<rparr>)"
  have "frefs e f = (\<Sum>p\<leftarrow>procs ?k. fds p f)" for f unfolding sum_list_procs [OF i] using b f [of f] by (simp add: books_def)
  moreover have "debt e ip = (\<Sum>p\<leftarrow>procs ?k. cw p ip)" for ip unfolding sum_list_procs [OF i] using b d [of ip] by (simp add: books_def)
  moreover have "slot_ok e p" if "p \<in> set (procs ?k)" for p
  proof -
    have "p = q \<or> p \<in> set (procs k)" using that set_update_subset_insert [of "procs k" i q] by (auto simp: set_proc_def)
    then show ?thesis using q b e(2,3) by (auto simp: books_def slot_ok_def)
  qed
  ultimately show ?thesis using e by (simp add: books_def)
qed

lemma file_call_kept:
  assumes "file_call devr devw page n = Some h" "sys_ok s"
  shows "post (h s) (\<lambda>(r, s'). kept s s')"
  using assms sys_dup_kept sys_read_kept sys_write_kept sys_close_kept sys_fstat_kept sys_link_kept sys_unlink_kept sys_open_kept
    sys_mkdir_kept sys_mknod_kept sys_chdir_kept sys_pipe_kept
  by (cases n) (auto simp: file_call_def Let_def case_prod_unfold)

lemma file_step_books:
  assumes b: "books k" and i: "i < length (procs k)" "\<not> dead (pr k i)" and h: "file_call devr devw page n = Some h"
    and r: "run_call h um i k = Ok (r, k')"
  shows "books k' \<and> same_tree k k' \<and> length (ftable (env k')) = length (ftable (env k)) \<and> ilen (ffs (env k')) = ilen (ffs (env k))"
proof -
  let ?s = "\<lparr>s_um = um, s_proc = pr k i, s_env = env k\<rparr>"
  obtain s' where s': "h ?s = Ok (r, s')" "k' = set_proc i (s_proc s') (k\<lparr>env := s_env s'\<rparr>)" using r by (auto simp: run_call_def)
  have so: "slot_ok (env k) (pr k i)" using b i(1) by (simp add: books_def)
  then have "sys_ok ?s" using b i(2) by (auto simp: sys_ok_def proc_ok_def slot_ok_def books_def)
  from postD [OF file_call_kept [OF h this] s'(1)] have K: "kept ?s s'" by simp
  then obtain fl wd where p: "s_proc s' = (pr k i)\<lparr>p_ofile := fl, p_cwd := wd\<rparr>" by (auto simp: kept_def)
  have "books k'" unfolding s'(2)
    by (rule books_change [OF b i(1)]) (use K p i(2) b in \<open>auto simp: kept_def sys_ok_def proc_ok_def slot_ok_def dead_def books_def\<close>)
  moreover have "same_tree k k'" using i(1) by (auto simp: s'(2) p same_tree_def pr_set_proc fun_eq_iff)
  moreover have "length (ftable (env k')) = length (ftable (env k))" "ilen (ffs (env k')) = ilen (ffs (env k))"
    using K by (simp_all add: s'(2) kept_def)
  ultimately show ?thesis by simp
qed

subsection \<open>Starting a program\<close>

lemma sys_exec_wp:
  assumes "p_cwd (pr k cur) = Some cwd" "cwd < ilen (ffs (env k))"
  shows "post (sys_exec kend data devr um cur k) (\<lambda>(r, k'). \<exists>path. exec_result path cur k r k')"
proof -
  have self: "exec_result path cur k (- 1) k" for path
    using exec_resultI(1) [of k "ffs (env k)" path cur "mem k"] by (cases k) (simp add: quiet_def)
  have "post (exec kend data devr path argv cur k) (\<lambda>(r, k'). \<exists>path. exec_result path cur k r k')" for path argv
    by (rule post_mono [OF exec_wp [OF assms]]) auto
  then show ?thesis unfolding sys_exec_def using self by (auto split: option.splits)
qed

lemma sig_exec_proc [simp]: "sig (exec_proc path pgdir sz entry sp p) = sig p"
  by (simp add: sig_def dead_def exec_proc_def)

lemma exec_result_books:
  assumes "books k" "i < length (procs k)" "exec_result path i k r k'"
  shows "books k' \<and> same_tree k k'"
proof -
  have fs: "books (k\<lparr>env := (env k)\<lparr>ffs := x\<rparr>, mem := m\<rparr>)" if "quiet (ffs (env k)) x" for x m
    using assms(1) that by (auto simp: books_def quiet_def debt_def frefs_def ftab_ok_ffs slot_ok_def held_def)
  moreover from this have "books (set_proc i (exec_proc path pgdir sz entry sp (pr k i)) (k\<lparr>env := (env k)\<lparr>ffs := x\<rparr>, mem := m\<rparr>))"
    if "quiet (ffs (env k)) x" for pgdir sz entry sp x m using that by (subst books_set_proc) auto
  ultimately have "books k'" using assms(3) unfolding exec_result_def by blast
  moreover have "same_tree k k'"
    using assms(2,3) unfolding exec_result_def by (auto simp: same_tree_def pr_set_proc exec_proc_def fun_eq_iff)
  ultimately show ?thesis by blast
qed

subsection \<open>Fork and exit\<close>

definition occ :: "nat option list \<Rightarrow> nat \<Rightarrow> int" where
  "occ fl f = (\<Sum>x\<leftarrow>fl. if x = Some f then 1 else 0)"

lemma occ_simps [simp]: "occ [] f = 0" "occ (x # fl) f = (if x = Some f then 1 else 0) + occ fl f"
  by (simp_all add: occ_def)

lemma dup_files_wp:
  assumes "ftab_ok e" "\<And>f. Some f \<in> set fl \<Longrightarrow> f < length (ftable e)"
  shows "post (dup_files filedup fl e) (\<lambda>e'. fsame e e' \<and> (\<forall>f. frefs e' f = frefs e f + occ fl f))"
  using assms
proof (induction fl arbitrary: e)
  case (Cons x fl)
  show ?case
  proof (cases x)
    case None
    then show ?thesis using Cons.IH [of e] Cons.prems by simp
  next
    case (Some g)
    have step: "post (dup_files filedup fl e1) (\<lambda>e'. fsame e e' \<and> (\<forall>f. frefs e' f = frefs e f + occ (x # fl) f))"
      if "fsame e e1" "frefs e1 = bump g 1 (frefs e)" for e1
      by (rule post_mono [OF Cons.IH]) (use Cons.prems fsameD [OF that(1)] that Some fsame_trans [OF that(1)] in \<open>auto simp: bump_def\<close>)
    show ?thesis unfolding Some dup_files.simps post_simps
      by (rule filedup_wp [OF Cons.prems(1)]) (use Cons.prems(2) Some step in auto)
  qed
qed (simp add: fsame_refl)

lemma close_files_wp:
  assumes "ftab_ok e" "\<And>f. Some f \<in> set fl \<Longrightarrow> f < length (ftable e)"
  shows "post (close_files (fileclose pid) fl e) (\<lambda>e'. fsame e e' \<and> (\<forall>f. frefs e' f = frefs e f - occ fl f))"
  using assms
proof (induction fl arbitrary: e)
  case (Cons x fl)
  show ?case
  proof (cases x)
    case None
    then show ?thesis using Cons.IH [of e] Cons.prems by simp
  next
    case (Some g)
    have step: "post (close_files (fileclose pid) fl e1) (\<lambda>e'. fsame e e' \<and> (\<forall>f. frefs e' f = frefs e f - occ (x # fl) f))"
      if "fsame e e1" "frefs e1 = bump g (- 1) (frefs e)" for e1
      by (rule post_mono [OF Cons.IH]) (use Cons.prems fsameD [OF that(1)] that Some fsame_trans [OF that(1)] in \<open>auto simp: bump_def\<close>)
    show ?thesis unfolding Some close_files.simps post_simps
      by (rule fileclose_wp [OF Cons.prems(1)]) (use Cons.prems(2) Some step in auto)
  qed
qed (simp add: fsame_refl)

lemma fork_cases:
  assumes f: "fork kend data filedup idup_op cur k = Ok (r, k')" and u: "\<And>p. p \<in> set (procs k) \<Longrightarrow> p_state p \<noteq> EMBRYO"
  shows "(env k' = env k \<and> map sig (procs k') = map sig (procs k)) \<or>
    (\<exists>i < length (procs k). \<exists>np e1. p_state (pr k i) = UNUSED \<and> dup_files filedup (p_ofile (pr k cur)) (env k) = Ok e1
       \<and> idup_cwd idup_op (p_cwd (pr k cur)) e1 = Ok (env k') \<and> procs k' = (procs k)[i := np] \<and> p_cwd np = p_cwd (pr k cur) \<and> p_state np = RUNNABLE
       \<and> p_ofile np = map2 (\<lambda>new old. if old \<noteq> None then old else new) (p_ofile (pr k i)) (p_ofile (pr k cur)))"
proof -
  obtain a k1 where a: "allocproc k = (a, k1)" by fastforce
  have env1: "env k1 = env k" using a by (auto simp: allocproc_def Let_def split: option.splits prod.splits)
  show ?thesis
  proof (cases a)
    case None
    then have "k' = k1" using f a by (simp add: fork_def)
    moreover have "map sig (procs k1) = map sig (procs k)" using a None
      by (auto simp: allocproc_def Let_def set_proc_def sig_def dead_def split: option.splits prod.splits dest!: find_index_SomeD intro!: map_set_same)
    ultimately show ?thesis using env1 by simp
  next
    case (Some i)
    note A = allocproc_effect(2) [OF a Some] and F = allocproc_fields [OF a [unfolded Some]]
    obtain pd m where c: "copyuvm kend data (p_pgdir (pr k1 cur)) (p_sz (pr k1 cur)) (mem k1) = Ok (pd, m)"
      using f a Some by (auto simp: fork_def)
    show ?thesis
    proof (cases pd)
      case None
      then obtain m2 where k': "k' = set_proc i ((pr k1 i)\<lparr>p_pgdir := 0, p_kstack := 0, p_state := UNUSED\<rparr>) (k1\<lparr>mem := m2\<rparr>)"
        using f a Some c by (auto simp: fork_def)
      have "map sig (procs k') = map sig (procs k)"
        using A F by (auto simp: k' set_proc_def list_eq_iff_nth_eq nth_list_update sig_def dead_def)
      then show ?thesis using env1 by (simp add: k')
    next
      case pd: (Some pgdir)
      then obtain e1 e2 np where np: "np = (pr k1 i)\<lparr>p_pgdir := pgdir, p_sz := p_sz (pr k1 cur), p_parent := Some cur,
         p_tf := (p_tf (pr k1 cur))\<lparr>tf_eax := 0\<rparr>,
         p_ofile := map2 (\<lambda>new old. if old \<noteq> None then old else new) (p_ofile (pr k1 i)) (p_ofile (pr k1 cur)),
         p_cwd := p_cwd (pr k1 cur), p_name := p_name (pr k1 cur), p_state := RUNNABLE\<rparr>"
        and e: "dup_files filedup (p_ofile (pr k1 cur)) (env k1) = Ok e1" "idup_cwd idup_op (p_cwd (pr k1 cur)) e1 = Ok e2"
        and k': "k' = set_proc i np (k1\<lparr>mem := m, env := e2\<rparr>)"
        using f a Some c by (auto simp: fork_def Let_def)
      have "procs k' = (procs k)[i := np]" using A by (auto simp: k' set_proc_def list_eq_iff_nth_eq nth_list_update)
      moreover have "env k' = e2" by (simp add: k')
      moreover have "p_cwd np = p_cwd (pr k cur)" "p_state np = RUNNABLE"
        "p_ofile np = map2 (\<lambda>new old. if old \<noteq> None then old else new) (p_ofile (pr k i)) (p_ofile (pr k cur))" using F by (simp_all add: np)
      moreover have "dup_files filedup (p_ofile (pr k cur)) (env k) = Ok e1" "idup_cwd idup_op (p_cwd (pr k cur)) e1 = Ok e2"
        using e env1 F by simp_all
      ultimately show ?thesis using A by blast
    qed
  qed
qed

lemma map2_none: "length fl = n \<Longrightarrow> map2 (\<lambda>new old. if old \<noteq> None then old else new) (replicate n None) fl = fl"
  by (auto simp: list_eq_iff_nth_eq)

lemma fds_occ: "fds p = occ (p_ofile p)"
  by (simp add: fun_eq_iff fds_def occ_def)

lemma fork_books:
  assumes b: "books k" and cur: "cur < length (procs k)" "\<not> dead (pr k cur)" and u: "\<And>p. p \<in> set (procs k) \<Longrightarrow> p_state p \<noteq> EMBRYO"
    and f: "fork kend data filedup idup_op cur k = Ok (r, k')"
  shows "books k'"
  using fork_cases [OF f u]
proof
  assume "env k' = env k \<and> map sig (procs k') = map sig (procs k)"
  then show ?thesis using books_sig b by blast
next
  assume "\<exists>i < length (procs k). \<exists>np e1. p_state (pr k i) = UNUSED \<and> dup_files filedup (p_ofile (pr k cur)) (env k) = Ok e1
       \<and> idup_cwd idup_op (p_cwd (pr k cur)) e1 = Ok (env k') \<and> procs k' = (procs k)[i := np] \<and> p_cwd np = p_cwd (pr k cur) \<and> p_state np = RUNNABLE
       \<and> p_ofile np = map2 (\<lambda>new old. if old \<noteq> None then old else new) (p_ofile (pr k i)) (p_ofile (pr k cur))"
  then obtain i np e1 where i: "i < length (procs k)" "p_state (pr k i) = UNUSED" and d: "dup_files filedup (p_ofile (pr k cur)) (env k) = Ok e1"
    and c: "idup_cwd idup_op (p_cwd (pr k cur)) e1 = Ok (env k')" and p': "procs k' = (procs k)[i := np]"
    and np: "p_cwd np = p_cwd (pr k cur)" "p_state np = RUNNABLE"
      "p_ofile np = map2 (\<lambda>new old. if old \<noteq> None then old else new) (p_ofile (pr k i)) (p_ofile (pr k cur))" by blast
  have S: "slot_ok (env k) (pr k cur)" "slot_ok (env k) (pr k i)" using b cur(1) i(1) by (simp_all add: books_def)
  have cl: "p_ofile (pr k i) = replicate NOFILE None" "p_cwd (pr k i) = None" using S(2) i(2) by (auto simp: slot_ok_def dead_def)
  have "length (p_ofile (pr k cur)) = NOFILE" using S(1) by (simp add: slot_ok_def)
  then have of: "p_ofile np = p_ofile (pr k cur)" unfolding np(3) cl(1) by (rule map2_none)
  obtain wd where wd: "p_cwd (pr k cur) = Some wd" "wd < ilen (ffs (env k))" using S(1) cur(2) by (auto simp: slot_ok_def)
  have "fsame (env k) e1 \<and> (\<forall>f. frefs e1 f = frefs (env k) f + occ (p_ofile (pr k cur)) f)"
    by (rule postD [OF dup_files_wp d]) (use b S(1) in \<open>auto simp: books_def slot_ok_def\<close>)
  then have e1: "fsame (env k) e1" "\<And>f. frefs e1 f = frefs (env k) f + occ (p_ofile (pr k cur)) f" by auto
  have env': "env k' = e1\<lparr>ffs := idup wd (ffs e1)\<rparr>" using c wd by (simp add: idup_cwd_def idup_op_def)
  have wl: "wd < ilen (ffs e1)" using wd fsameD(3) [OF e1(1)] by simp
  have db: "debt (env k') = bump wd 1 (debt (env k))"
    using e1(1) acct_idup(2) [OF wl] by (auto simp: env' fsame_def debt_def bump_def fun_eq_iff)
  have b': "books (set_proc i np (k\<lparr>env := env k'\<rparr>))"
  proof (rule books_change [OF b i(1)])
    show "ftab_ok (env k')" using fsameD(1) [OF e1(1)] by (simp add: env' ftab_ok_ffs acct_idup)
    show "length (ftable (env k')) = length (ftable (env k))" "ilen (ffs (env k')) = ilen (ffs (env k))" "lks (ffs (env k')) = {}" "outstanding (env k') = 0"
      using e1(1) acct_idup [of wd "ffs e1"] wl b by (simp_all add: env' fsame_def books_def)
    show "frefs (env k') f - fds np f = frefs (env k) f - fds (pr k i) f" for f
      using e1(2) of cl by (simp add: env' fds_occ) (simp add: occ_def sum_list_replicate)
    show "debt (env k') ip - cw np ip = debt (env k) ip - cw (pr k i) ip" for ip
      using db np(1) cl wd by (simp add: cw_def bump_def)
    show "slot_ok (env k') np" using S(1) of np(1,2) cur(2) e1(1) acct_idup(3) [of wd "ffs e1"]
      by (auto simp: slot_ok_def dead_def env' fsame_def)
  qed
  moreover have "map sig (procs (set_proc i np (k\<lparr>env := env k'\<rparr>))) = map sig (procs k')" by (simp add: set_proc_def p')
  ultimately show ?thesis using books_sig [of k' "set_proc i np (k\<lparr>env := env k'\<rparr>)"] by simp
qed

lemma put_op_wp:
  assumes "ip < ilen (ffs e)" "ftab_ok e"
  shows "post (put_op pid ip e) (\<lambda>e'. ftab_ok e' \<and> length (ftable e') = length (ftable e) \<and> ilen (ffs e') = ilen (ffs e) \<and> lks (ffs e') = lks (ffs e)
     \<and> debt e' = bump ip (- 1) (debt e) \<and> outstanding e' = outstanding e \<and> frefs e' = frefs e)"
  unfolding put_op_def using assms by (auto intro!: iput_wp simp: ftab_ok_ffs debt_def bump_def fun_eq_iff)

lemma map_sig_same:
  assumes "length (procs k') = length (procs k)" "\<And>i. i < length (procs k) \<Longrightarrow> sig (pr k' i) = sig (pr k i)"
  shows "map sig (procs k') = map sig (procs k)"
  using assms by (auto simp: list_eq_iff_nth_eq)

lemma wakeup1_sig: "map sig (procs (wakeup1 ch k)) = map sig (procs k)" "env (wakeup1 ch k) = env k"
  by (auto simp: wakeup1_def sig_def dead_def)

lemma pass_children_sig:
  "map sig (procs (pass_children cur ini js k)) = map sig (procs k) \<and> env (pass_children cur ini js k) = env k"
proof (induction cur ini js k rule: pass_children.induct)
  case (2 cur ini j js k)
  show ?case
  proof (cases "p_parent (pr k j) = Some cur")
    case True
    let ?k = "set_proc j ((pr k j)\<lparr>p_parent := Some ini\<rparr>) k"
    have "map sig (procs ?k) = map sig (procs k)" by (simp add: set_proc_def map_set_same sig_def dead_def)
    moreover have "env ?k = env k" by simp
    ultimately show ?thesis using "2.IH"(1) [OF True refl] True by (simp add: Let_def wakeup1_sig split: if_splits)
  next
    case False
    then show ?thesis using "2.IH"(2) by simp
  qed
qed simp

lemma exit_books:
  assumes b: "books k" and cur: "cur < length (procs k)" "\<not> dead (pr k cur)" and x: "exit_proc (fileclose pid) (put_op pid) c cur k = Ok k'"
  shows "books k'"
proof -
  have S: "slot_ok (env k) (pr k cur)" using b cur(1) by (simp add: books_def)
  obtain wd where wd: "p_cwd (pr k cur) = Some wd" "wd < ilen (ffs (env k))" using S cur(2) by (auto simp: slot_ok_def)
  let ?p = "(pr k cur)\<lparr>p_ofile := map (\<lambda>_. None) (p_ofile (pr k cur)), p_cwd := None\<rparr>"
  obtain e1 e2 where e: "close_files (fileclose pid) (p_ofile (pr k cur)) (env k) = Ok e1" "put_op pid wd e1 = Ok e2"
    and z: "exit_zombie c cur (set_proc cur ?p (k\<lparr>env := e2\<rparr>)) = Ok k'"
    using x wd by (auto simp: exit_proc_def exit_close_def put_cwd_def split: if_splits)
  have "fsame (env k) e1 \<and> (\<forall>f. frefs e1 f = frefs (env k) f - occ (p_ofile (pr k cur)) f)"
    by (rule postD [OF close_files_wp e(1)]) (use b S in \<open>auto simp: books_def slot_ok_def\<close>)
  then have e1: "fsame (env k) e1" "\<And>f. frefs e1 f = frefs (env k) f - occ (p_ofile (pr k cur)) f" by auto
  note F = fsameD [OF e1(1)]
  have wl: "wd < ilen (ffs e1)" using wd(2) F(3) by simp
  note e2 = postD [OF put_op_wp [OF wl F(1)] e(2)]
  let ?q = "?p\<lparr>p_state := ZOMBIE\<rparr>"
  have len: "length (p_ofile (pr k cur)) = NOFILE" using S by (simp add: slot_ok_def)
  have none: "map (\<lambda>_. None) (p_ofile (pr k cur)) = replicate NOFILE (None :: nat option)" using len by (simp add: map_replicate_const)
  have bq: "books (set_proc cur ?q (k\<lparr>env := e2\<rparr>))"
  proof (rule books_change [OF b cur(1)])
    show "ftab_ok e2" "length (ftable e2) = length (ftable (env k))" "ilen (ffs e2) = ilen (ffs (env k))" "lks (ffs e2) = {}" "outstanding e2 = 0"
      using e2 e1(1) b by (simp_all add: fsame_def books_def)
    show "frefs e2 f - fds ?q f = frefs (env k) f - fds (pr k cur) f" for f
      using e2 e1(2) [of f] by (simp add: fds_occ none) (simp add: occ_def sum_list_replicate)
    show "debt e2 ip - cw ?q ip = debt (env k) ip - cw (pr k cur) ip" for ip
      using e2 e1(1) wd(1) by (simp add: cw_def bump_def fsame_def)
    show "slot_ok e2 ?q" by (simp add: slot_ok_def dead_def none)
  qed
  let ?k1 = "set_proc cur ?p (k\<lparr>env := e2\<rparr>)"
  obtain par ini where pi: "p_parent (pr ?k1 cur) = Some par" "initproc ?k1 = Some ini"
    using z by (auto simp: exit_zombie_def split: option.splits)
  define k2 where "k2 = pass_children cur ini [0..<NPROC] (wakeup1 (PChan par) ?k1)"
  have k': "k' = leave_cpu c (set_proc cur ((pr k2 cur)\<lparr>p_state := ZOMBIE\<rparr>) k2)"
    using z pi by (auto simp: exit_zombie_def Let_def sched_def k2_def split: if_splits)
  have k2: "map sig (procs k2) = map sig (procs ?k1)" "env k2 = e2"
    using pass_children_sig [of cur ini "[0..<NPROC]" "wakeup1 (PChan par) ?k1"] wakeup1_sig [of "PChan par" ?k1] by (simp_all add: k2_def)
  have l2: "length (procs k2) = length (procs k)" using arg_cong [OF k2(1), of length] by simp
  have "sig (pr k2 cur) = sig ?p" using arg_cong [OF k2(1), of "\<lambda>xs. xs ! cur"] cur(1) l2 by (simp add: pr_set_proc)
  then have sc: "sig ((pr k2 cur)\<lparr>p_state := ZOMBIE\<rparr>) = sig ?q" by (simp add: sig_def dead_def)
  have "map sig (procs k') = map sig (procs (set_proc cur ?q (k\<lparr>env := e2\<rparr>)))"
    unfolding k' leave_cpu_def using k2(1) sc by (simp add: set_proc_def map_update)
  moreover have "env k' = e2" by (simp add: k' leave_cpu_def k2(2))
  ultimately show ?thesis using books_sig [of k' "set_proc cur ?q (k\<lparr>env := e2\<rparr>)"] bq by simp
qed

subsection \<open>All steps keep the accounts\<close>

lemma sig_state: "\<not> dead p \<Longrightarrow> st \<noteq> UNUSED \<Longrightarrow> st \<noteq> ZOMBIE \<Longrightarrow> sig (p\<lparr>p_state := st\<rparr>) = sig p"
  by (simp add: sig_def dead_def)

lemma leave_cpu_books [simp]: "books (leave_cpu c k) = books k"
  by (simp add: leave_cpu_def)

lemma sleep_books: "books k \<Longrightarrow> \<not> dead (pr k i) \<Longrightarrow> sleep c i ch k = Ok k' \<Longrightarrow> books k'"
  by (auto simp: sleep_def sched_def books_set_proc sig_def dead_def split: if_splits)

lemma reap_books:
  assumes b: "books k" and z: "p_state (pr k j) = ZOMBIE" and r: "reap kend j k = Ok (pid, k')"
  shows "books k'"
  using r b z by (auto simp: reap_def Let_def books_set_proc sig_def dead_def)

lemma kstep_books:
  assumes st: "kstep kend data filedup idup_op (fileclose pid) (put_op pid) k k'" and b: "books k" and inv: "proc_inv k"
  shows "books k'"
proof -
  have len: "length (procs k) = NPROC" and rn: "run_inv k" and tr: "tree (initproc k) (states k) (parents k) (chans k)"
    using inv by (auto simp: proc_inv_def tree_inv_def)
  have cur: "i < length (procs k)" "\<not> dead (pr k i)" "p_state (pr k i) = RUNNING" if "c < length (running k)" "running k ! c = Some i" for c i
    using rn that len unfolding run_inv_def dead_def by fastforce+
  have emb: "p_state p \<noteq> EMBRYO" if "p \<in> set (procs k)" for p
    using tr that len unfolding tree_def by (metis in_set_conv_nth)
  from st show ?thesis
  proof cases
    case (k_fork c i r)
    then show ?thesis using fork_books [OF b cur(1,2) [OF k_fork(1,2)] emb] by blast
  next
    case (k_grow c i n r)
    then show ?thesis using b by (auto simp: growproc_def Let_def books_set_proc sig_def dead_def split: if_splits)
  next
    case (k_exit c i)
    then show ?thesis using exit_books [OF b cur(1,2) [OF k_exit(1,2)]] by blast
  next
    case (k_wait c i r)
    show ?thesis
    proof (cases "find_index (\<lambda>p. p_parent p = Some i \<and> p_state p = ZOMBIE) (procs k)")
      case (Some j)
      then show ?thesis using k_wait(3) reap_books [OF b] find_index_SomeD [OF Some] by (auto simp: wait_proc_def)
    next
      case None
      then show ?thesis using k_wait(3) b sleep_books [OF b cur(2) [OF k_wait(1,2)]] by (auto simp: wait_proc_def split: if_splits)
    qed
  next
    case (k_sleep c i a)
    then show ?thesis using sleep_books [OF b cur(2)] by blast
  next
    case (k_resume c i)
    then show ?thesis using b by (simp add: sleep_resume_def books_set_proc sig_def dead_def)
  next
    case (k_yield c i)
    then show ?thesis using b cur(2) [OF k_yield(1,2)]
      by (auto simp: yield_def sched_def books_set_proc sig_def dead_def split: if_splits)
  next
    case (k_wakeup a)
    then show ?thesis using b books_sig [OF wakeup1_sig(2,1)] by (simp add: wakeup_def)
  next
    case (k_kill pid r)
    then show ?thesis using b
      by (auto simp: kill_def Let_def books_set_proc sig_def dead_def split: option.splits if_splits)
  next
    case (k_schedule c i)
    then show ?thesis using b by (auto simp: schedule_def books_set_proc sig_def dead_def split: if_splits)
  qed
qed

lemma system_step_inv:
  assumes "system_step k k'" "proc_inv k" "books k"
  shows "proc_inv k' \<and> books k'"
  using assms
proof (induction rule: system_step.induct)
  case (file_step c k i devr devw page n h um r k')
  have "length (procs k) = NPROC" "run_inv k" using file_step.prems(1) by (auto simp: proc_inv_def tree_inv_def)
  then have i: "i < length (procs k)" "\<not> dead (pr k i)" using file_step.hyps(1,2) unfolding run_inv_def dead_def by fastforce+
  show ?case using file_step_books [OF file_step.prems(2) i file_step.hyps(3,4)] same_tree_inv file_step.prems(1) by blast
next
  case (exec_step c k i kend data devr um r k')
  have "length (procs k) = NPROC" "run_inv k" using exec_step.prems(1) by (auto simp: proc_inv_def tree_inv_def)
  then have i: "i < length (procs k)" "\<not> dead (pr k i)" using exec_step.hyps(1,2) unfolding run_inv_def dead_def by fastforce+
  then have "slot_ok (env k) (pr k i)" using exec_step.prems(2) by (simp add: books_def)
  then obtain cwd where "p_cwd (pr k i) = Some cwd" "cwd < ilen (ffs (env k))" using i(2) by (auto simp: slot_ok_def)
  from postD [OF sys_exec_wp [OF this] exec_step.hyps(3)] obtain path where "exec_result path i k r k'" by auto
  then show ?case using exec_result_books [OF exec_step.prems(2) i(1)] same_tree_inv exec_step.prems(1) by blast
next
  case (proc_step kend data pid k k')
  then show ?case using kstep_books kstep_inv by blast
qed

lemma books_counts:
  assumes "books k"
  shows "f < length (ftable (env k)) \<Longrightarrow> f_ref (ftable (env k) ! f) = (\<Sum>p\<leftarrow>procs k. fds p f)"
    "ip < length (icache (ffs (env k))) \<Longrightarrow> i_ref (ino (ffs (env k)) ip) = held (env k) ip + (\<Sum>p\<leftarrow>procs k. cw p ip)"
    "ip < length (icache (ffs (env k))) \<Longrightarrow> \<not> slk_locked (i_lock (ino (ffs (env k)) ip))"
proof -
  show "f < length (ftable (env k)) \<Longrightarrow> f_ref (ftable (env k) ! f) = (\<Sum>p\<leftarrow>procs k. fds p f)"
    using assms by (auto simp: books_def frefs_def) metis
  assume ip: "ip < length (icache (ffs (env k)))"
  have "debt (env k) ip = (\<Sum>p\<leftarrow>procs k. cw p ip)" using assms by (simp add: books_def)
  then show "i_ref (ino (ffs (env k)) ip) = held (env k) ip + (\<Sum>p\<leftarrow>procs k. cw p ip)" using ip by (simp add: debt_def rfs_def)
  show "\<not> slk_locked (i_lock (ino (ffs (env k)) ip))" using assms ip by (auto simp: books_def lks_def)
qed

text \<open>C2: Reference counts are exact.  From a kernel whose accounts are in order, after any sequence of completed system calls on files, starts of programs,
  forks, exits, waits, kills, wakeups and switches by any processors, the count of every file structure is the number of descriptors of all
  processes that name it, the count of every cached inode is the number of open files plus working directories that name it, no
  inode is locked and no log operation is open: no call, whichever way it fails, loses or leaks a
  reference, a lock or an operation.\<close>

theorem reference_counts_exact:
  assumes "proc_inv k0" "books k0" "system_step\<^sup>*\<^sup>* k0 k"
  shows "(\<forall>f < length (ftable (env k)). f_ref (ftable (env k) ! f) = (\<Sum>p\<leftarrow>procs k. fds p f))
    \<and> (\<forall>ip < length (icache (ffs (env k))). i_ref (ino (ffs (env k)) ip) = held (env k) ip + (\<Sum>p\<leftarrow>procs k. cw p ip)
         \<and> \<not> slk_locked (i_lock (ino (ffs (env k)) ip)))
    \<and> outstanding (env k) = 0"
proof -
  have "proc_inv k \<and> books k" using assms(3,1,2)
    by (induction rule: rtranclp_induct) (use system_step_inv in blast)+
  then show ?thesis using books_counts [of k] by (auto simp: books_def)
qed

text \<open>A running process opens its working directory.\<close>

definition shell_proc :: "nat proc" where
  "shell_proc = idle_proc\<lparr>p_sz := 16, p_ofile := replicate NOFILE None\<rparr>"

definition shell_env :: fstate where
  "shell_env = \<lparr>ftable = [small_file\<lparr>f_type := FD_NONE, f_ref := 0\<rparr>], fpipes = [],
     ffs = small_fs\<lparr>icache := [(ino small_fs 0)\<lparr>i_ref := 2\<rparr>]\<rparr>, outstanding = 0\<rparr>"

definition shell_kernel :: "(nat, fstate) kernel" where
  "shell_kernel = \<lparr>procs = shell_proc\<lparr>p_state := SLEEPING, p_pid := 1, p_chan := Some (PChan 0), p_cwd := Some 0\<rparr>
        # shell_proc\<lparr>p_state := RUNNING, p_pid := 2, p_parent := Some 0, p_cwd := Some 0\<rparr> # replicate 62 shell_proc,
     nextpid = 3, initproc = Some 0, running = [Some 1],
     mem = \<lparr>frames = (\<lambda>_. Bytes []), freelist = [], use_lock = True\<rparr>, env = shell_env\<rparr>"

lemma pr_shell:
  "procs shell_kernel ! 0 = shell_proc\<lparr>p_state := SLEEPING, p_pid := 1, p_chan := Some (PChan 0), p_cwd := Some 0\<rparr>"
  "procs shell_kernel ! Suc 0 = shell_proc\<lparr>p_state := RUNNING, p_pid := 2, p_parent := Some 0, p_cwd := Some 0\<rparr>"
  "1 < i \<Longrightarrow> i < NPROC \<Longrightarrow> procs shell_kernel ! i = shell_proc" "length (procs shell_kernel) = NPROC"
  "running shell_kernel = [Some 1]" "initproc shell_kernel = Some 0" "env shell_kernel = shell_env"
  by (simp_all add: shell_kernel_def NPROC_def nth_Cons' nth_append)

lemma shell_inv: "proc_inv shell_kernel"
proof -
  have c: "i = 0 \<or> i = 1 \<or> 1 < i" for i :: nat by linarith
  have st: "p_state (pr shell_kernel i) = (if i = 0 then SLEEPING else if i = 1 then RUNNING else UNUSED)"
      "p_parent (pr shell_kernel i) = (if i = 1 then Some 0 else None)" if "i < NPROC" for i
    using c [of i] pr_shell that by (auto simp: shell_proc_def idle_proc_def)
  have "tree (Some 0) (states shell_kernel) (parents shell_kernel) (chans shell_kernel)"
    unfolding tree_def using st by (auto simp: live_def NPROC_def)
  moreover have "run_inv shell_kernel"
    unfolding run_inv_def pr_shell(5) using st by (auto simp: NPROC_def)
  ultimately show ?thesis by (simp add: proc_inv_def tree_inv_def pr_shell)
qed

lemma shell_books: "books shell_kernel"
proof -
  have f: "fds shell_proc f = 0" for f by (simp add: fds_def shell_proc_def sum_list_replicate)
  have s: "fds (shell_proc\<lparr>p_state := a, p_pid := b, p_chan := c, p_cwd := d\<rparr>) g = fds shell_proc g"
    "fds (shell_proc\<lparr>p_state := a, p_pid := b, p_parent := x, p_cwd := d\<rparr>) g = fds shell_proc g" for a b c d g x by (simp_all add: fds_def)
  show ?thesis unfolding books_def pr_shell(7)
  proof (intro conjI allI)
    show "ftab_ok shell_env" by (simp add: ftab_ok_def shell_env_def small_file_def)
    show "lks (ffs shell_env) = {}" by (auto simp: lks_def shell_env_def small_simps zero_lock_def)
    show "outstanding shell_env = 0" by (simp add: shell_env_def)
    show "frefs shell_env f = (\<Sum>p\<leftarrow>procs shell_kernel. fds p f)" for f
      by (simp add: frefs_def shell_env_def shell_kernel_def s f sum_list_replicate map_replicate)
    show "debt shell_env ip = (\<Sum>p\<leftarrow>procs shell_kernel. cw p ip)" for ip
      by (simp add: debt_def rfs_def held_def holds_def shell_env_def shell_kernel_def cw_def shell_proc_def idle_proc_def sum_list_replicate map_replicate small_file_def)
    show "\<forall>p \<in> set (procs shell_kernel). slot_ok shell_env p"
      by (auto simp: shell_kernel_def slot_ok_def dead_def shell_proc_def idle_proc_def NOFILE_def shell_env_def ilen_def)
  qed
qed

lemma shell_open:
  "\<exists>k'. run_call (\<lambda>s. and_then (sys_open devr devw s) (\<lambda>(r, s). Ok (Some r, s))) (\<lambda>_. 0) 1 shell_kernel = Ok (Some 0, k')"
proof -
  let ?s = "\<lparr>s_um = \<lambda>_. 0, s_proc = pr shell_kernel 1, s_env = env shell_kernel\<rparr>"
  have a: "argint (\<lambda>_. 0) (pr shell_kernel 1) n = Some 0" if "n < 2" for n
  proof -
    have "n = 0 \<or> n = 1" using that by auto
    then show ?thesis by (auto simp: argint_def fetchint_def load32_def pr_shell shell_proc_def idle_proc_def zero_tf_def)
  qed
  have p: "arg_path ?s 0 = Some []" using a [of 0] 
    by (simp add: arg_path_def argstr_def fetchstr_def pr_shell shell_proc_def upt_conv_Cons user_bytes_def)
  define e1 where "e1 = \<lparr>ftable = [small_file\<lparr>f_type := FD_NONE, f_ref := 0\<rparr>], fpipes = [],
     ffs = small_fs\<lparr>icache := [(ino small_fs 0)\<lparr>i_ref := 3, i_lock := zero_lock\<lparr>slk_locked := True, slk_pid := 2\<rparr>\<rparr>]\<rparr>, outstanding = 1\<rparr>"
  have 1: "open_inode_of devr devw 2 0 [] 0 (begin_fop shell_env) = Ok (Some 0, e1)"
    by (simp add: open_inode_of_def O_CREATE_def O_RDONLY_def on_fsv_def namei_def namex_def namex_loop.simps skipelem_def shell_env_def
        on_fs_def ilock_def idup_def begin_fop_def set_ino_def acquiresleep_def small_simps zero_lock_def e1_def Let_def del: and_then_Ok_iff)
  have 2: "\<exists>s'. open_fd 0 0 (?s\<lparr>s_env := e1\<rparr>) = Ok (0, s')"
    by (simp add: open_fd_def filealloc_def fdalloc_def e1_def small_file_def pr_shell shell_proc_def NOFILE_def set_fd_def set_file_def
        on_env_def on_fs_def iunlock_def holdingsleep_def Let_def idle_proc_def numeral_eq_Suc)
  show ?thesis unfolding run_call_def sys_open_def
    using a [of 1] p 1 2 by (auto simp: on_envv_def pr_shell idle_proc_def shell_proc_def)
qed


lemma shell_exec: "\<exists>k'. exec kend data (\<lambda>_. None) [] [] 1 shell_kernel = Ok (- 1, k')"
proof -
  define e1 where "e1 = \<lparr>ftable = [small_file\<lparr>f_type := FD_NONE, f_ref := 0\<rparr>], fpipes = [],
     ffs = small_fs\<lparr>icache := [(ino small_fs 0)\<lparr>i_ref := 3, i_lock := zero_lock\<lparr>slk_locked := True, slk_pid := 2\<rparr>\<rparr>]\<rparr>, outstanding = 1\<rparr>"
  define e0 where "e0 = \<lparr>ftable = [small_file\<lparr>f_type := FD_NONE, f_ref := 0\<rparr>], fpipes = [],
     ffs = small_fs\<lparr>icache := [(ino small_fs 0)\<lparr>i_ref := 3\<rparr>]\<rparr>, outstanding = 1\<rparr>"
  have n: "on_fsv (namei (\<lambda>_. None) 2 0 []) (begin_fop shell_env) = Ok (Some 0, e0)"
    by (simp add: on_fsv_def namei_def namex_def namex_loop.simps skipelem_def shell_env_def idup_def begin_fop_def set_ino_def small_simps e0_def Let_def del: and_then_Ok_iff)
  have l: "on_fs (ilock 2 0) e0 = Ok e1"
    by (simp add: on_fs_def ilock_def set_ino_def acquiresleep_def small_simps zero_lock_def e0_def e1_def Let_def del: and_then_Ok_iff)
  have r: "exec_readi (\<lambda>_. None) 0 0 ELFHDR_SIZE e1 = Ok (0, [], e1)"
    by (simp add: exec_readi_def readi_def e1_def small_simps readi_loop.simps Let_def ELFHDR_SIZE_def T_DEV_def T_DIR_def)
  have b: "\<exists>k'. exec_bad kend 2 None (Some 0) (shell_kernel\<lparr>env := e1\<rparr>) = Ok (- 1, k')"
    by (simp add: exec_bad_def on_fs_def iunlockput_def iunlock_def iput_def e1_def small_simps zero_lock_def holdingsleep_def
        releasesleep_def acquiresleep_def set_ino_def Let_def)
  have p: "nat (p_pid (pr shell_kernel 1)) = 2" "the (p_cwd (pr shell_kernel 1)) = 0"
    by (simp_all add: pr_shell shell_proc_def)
  show ?thesis unfolding exec_def Let_def p pr_shell(7) n and_then.simps prod.case option.case l r
    using b by (simp add: ELFHDR_SIZE_def)
qed


theorem reference_counts_exact_witness:
  "\<exists>k. system_step shell_kernel k \<and> f_ref (ftable (env k) ! 0) = (\<Sum>p\<leftarrow>procs k. fds p 0)
     \<and> i_ref (ino (ffs (env k)) 0) = held (env k) 0 + (\<Sum>p\<leftarrow>procs k. cw p 0)"
proof -
  obtain k where r: "run_call (\<lambda>s. and_then (sys_open (\<lambda>_. None) (\<lambda>_. None) s) (\<lambda>(r, s). Ok (Some r, s))) (\<lambda>_. 0) 1 shell_kernel = Ok (Some 0, k)"
    using shell_open by blast
  have st: "system_step shell_kernel k"
    by (rule file_step [of 0 _ 1 "\<lambda>_. None" "\<lambda>_. None" None SYS_open, OF _ _ _ r]) (simp_all add: pr_shell file_call_def Let_def)
  have "file_call (\<lambda>_. None) (\<lambda>_. None) None SYS_open = Some (\<lambda>s. and_then (sys_open (\<lambda>_. None) (\<lambda>_. None) s) (\<lambda>(r, s). Ok (Some r, s)))"
    by (simp add: file_call_def Let_def)
  from file_step_books [OF shell_books _ _ this r]
  have "length (ftable (env k)) = 1 \<and> length (icache (ffs (env k))) = 1"
    by (simp add: pr_shell NPROC_def dead_def shell_env_def ilen_def)
  then show ?thesis using reference_counts_exact [OF shell_inv shell_books r_into_rtranclp [of system_step, OF st]] st by auto
qed

end
