(* ===== verification/Spec2Isabelle.thy ===== *)
theory Spec2Isabelle
  imports Hashmap Mapreduce Console Textutils Lottery Uthread Ext2 Unixutil Sh Iocounts Ide Kernel
begin

text \<open>
  This development models the programs of the repository, which are the projects of an operating systems course: the xv6
  kernel and its user library, changed by several projects, two command shells, a hash table and a MapReduce
  library, and small tools.  Every definition follows a function or structure under \<^verbatim>\<open>src/\<close>; the theorems say what the
  functions achieve together.

  \<^bold>\<open>Conventions.\<close>  C structures are records, enumerations and tagged unions datatypes, C integers words of their width, or
  numbers with the wrap-around written out where it can occur.  Code that can stop the machine, or the program, returns an
  \<open>outcome\<close> (theory \<^verbatim>\<open>Prelude\<close>): \<open>Ok\<close>, \<open>Panic\<close> for \<^verbatim>\<open>panic\<close>, \<^verbatim>\<open>exit\<close> and undefined accesses, \<open>Wait\<close> for a call that
  sleeps, spins or does not end.  A loop without a bound in the source is a \<^theory_text>\<open>partial_function (option)\<close>, and that it
  returns is proved.  What the sources take from elsewhere, such as devices, the answers of the host system or the
  contents of uninitialised memory, are arguments of the definitions.

  \<^bold>\<open>The kernel, from the bottom.\<close>
  \<^item> \<^verbatim>\<open>Locks\<close> (\<^verbatim>\<open>p4/spinlock.c\<close>, \<^verbatim>\<open>sleeplock.c\<close>): nested interrupt disabling, the test-and-set loop as a step relation over any number of
    processors; mutual exclusion.
  \<^item> \<^verbatim>\<open>Bytes\<close>: little-endian cells in byte arrays, as all structures on disk and in user memory are made of them.
  \<^item> \<^verbatim>\<open>Bio\<close> (\<^verbatim>\<open>bio.c\<close>, \<^verbatim>\<open>memide.c\<close>): the buffer cache with its list, and the writes that reach the disk.
  \<^item> \<^verbatim>\<open>Ide\<close> (\<^verbatim>\<open>ide.c\<close>): the driver of a real disk, its request queue and its interrupt handler, over a controller that is
    a parameter (locale \<open>ata_disk\<close>): it answers every request, in order, and gives the buffers and the disk that
    \<^verbatim>\<open>memide.c\<close> gives.
  \<^item> \<^verbatim>\<open>Log\<close> (\<^verbatim>\<open>log.c\<close>): a transaction survives crashes between any two disk writes, of the commit and of any number of
    recoveries, as all or nothing; the reservation of \<^verbatim>\<open>begin_op\<close> is enough in every interleaving.
  \<^item> \<^verbatim>\<open>Fs\<close> (\<^verbatim>\<open>fs.c\<close>): the block bitmap, inodes and their cache, the block map, file contents, directories and paths.
    A write reads back and touches nothing else; a directory is a finite map; a step of the file system is a
    transaction step of \<^verbatim>\<open>Log\<close> and \<^verbatim>\<open>Bio\<close> (\<open>refines_log\<close>).
  \<^item> \<^verbatim>\<open>Vm\<close> (\<^verbatim>\<open>kalloc.c\<close>, \<^verbatim>\<open>vm.c\<close>, \<^verbatim>\<open>mmu.h\<close>): the free list, two-level page tables in physical frames, address spaces, and the page
    encryption of project 4 with its page-fault handler.  Mapping is exact, and encrypting is undone by touching the page.
  \<^item> \<^verbatim>\<open>Proc\<close> (\<^verbatim>\<open>proc.c\<close>): the process table and its steps under \<^verbatim>\<open>ptable.lock\<close>, with invariants by rule induction: a running process
    has one processor, and no exit is missed by a waiting parent.
  \<^item> \<^verbatim>\<open>Pipe\<close> (\<^verbatim>\<open>pipe.c\<close>), \<^verbatim>\<open>File\<close> (\<^verbatim>\<open>file.c\<close>), \<^verbatim>\<open>Syscall\<close> (\<^verbatim>\<open>syscall.c\<close>, \<^verbatim>\<open>sysproc.c\<close>, \<^verbatim>\<open>trap.c\<close>), \<^verbatim>\<open>Sysfile\<close> (\<^verbatim>\<open>sysfile.c\<close>), \<^verbatim>\<open>Exec\<close> (\<^verbatim>\<open>exec.c\<close>):
    the byte queue, open files with reference counts, argument fetching, all handlers with their error paths, and
    program loading.
  \<^item> \<^verbatim>\<open>Kernel\<close>: all of these as one step relation over completed system calls; in every reachable state the reference
    counts of files and inodes are exactly the references there are, and no lock or log operation is left over.
  \<^item> \<^verbatim>\<open>Console\<close> (\<^verbatim>\<open>console.c\<close>, \<^verbatim>\<open>kbd.c\<close>, \<^verbatim>\<open>uart.c\<close>): scan codes, the line editor, the screen, kernel messages; a typed line is what the next
    read returns.

  \<^bold>\<open>What the projects change in the kernel.\<close>
  \<^item> \<^verbatim>\<open>Iocounts\<close> (\<^verbatim>\<open>p1B\<close>): counters of \<^verbatim>\<open>read\<close> and \<^verbatim>\<open>write\<close> and the call that returns them.
  \<^item> \<^verbatim>\<open>Lottery\<close> (\<^verbatim>\<open>p2A\<close>): the lottery scheduler; a process wins as many drawings as it has tickets.
  \<^item> \<^verbatim>\<open>Threads\<close> and \<^verbatim>\<open>Uthread\<close> (\<^verbatim>\<open>p3b\<close>): \<^verbatim>\<open>clone\<close> and \<^verbatim>\<open>join\<close>, the ticket lock, and the thread library on the allocator.

  \<^bold>\<open>User programs and libraries.\<close>
  \<^item> \<^verbatim>\<open>CString\<close>, \<^verbatim>\<open>Printf\<close>, \<^verbatim>\<open>Umalloc\<close> (\<^verbatim>\<open>ulib.c\<close>, \<^verbatim>\<open>string.c\<close>, \<^verbatim>\<open>printf.c\<close>, \<^verbatim>\<open>umalloc.c\<close>): the user library; allocated blocks never overlap.
  \<^item> \<^verbatim>\<open>Textutils\<close> (\<^verbatim>\<open>grep.c\<close>, \<^verbatim>\<open>wc.c\<close>), \<^verbatim>\<open>Unixutil\<close> (\<^verbatim>\<open>p1\<close>): text tools against their specifications.
  \<^item> \<^verbatim>\<open>Sh\<close> (\<^verbatim>\<open>p4/sh.c\<close>): the parser, which ends on every line and reads back every printed command, and the system calls of a
    command, which connect its programs as the command says.
  \<^item> \<^verbatim>\<open>Mysh\<close> (\<^verbatim>\<open>p2B/mysh.c\<close>): the shell with its list of aliases in a heap, against a shell that keeps a plain list.
  \<^item> \<^verbatim>\<open>Hashmap\<close> and \<^verbatim>\<open>Mapreduce\<close> (\<^verbatim>\<open>p3a\<close>): the hash table as a finite map; every emitted value reaches the reducer of its key in
    every interleaving of the workers.
  \<^item> \<^verbatim>\<open>Ext2\<close> (\<^verbatim>\<open>p5\<close>): the tool that finds pictures on a disk image recovers exactly the files that have them.

  \<^bold>\<open>Interfaces.\<close>  \<open>string_map\<close> is the contract of the hash table, \<open>erasable_map\<close> extends it for the aliases of the shell; \<open>byte_queue\<close> is
  what the users of a pipe rely on; \<open>block_copy\<close> is shared by the two copying loops of the log.  Each is interpreted on
  the definitions of the code, and the properties use the facts of the interpretation.

  \<^bold>\<open>Bounds.\<close>  Constants are those of the sources (\<^verbatim>\<open>NPROC\<close>, \<^verbatim>\<open>NBUF\<close>, \<^verbatim>\<open>LOGSIZE\<close>, \<^verbatim>\<open>MAXARG\<close> and so on).  \<open>deallocuvm\<close> has a fuel of
  the number of pages of an address space, and each round goes at least one page on; the sequential MapReduce loop
  takes one unit for each element; the four mutually recursive functions of the parser of \<^verbatim>\<open>sh.c\<close> have a depth of four
  calls for each character of the line and four more, which \<open>parsecmd_ends\<close> shows to be enough.  All other loops are
  structural, have a measure, or are proved to return.

  \<^bold>\<open>Not modelled.\<close>  The start of the machine and assembly code (\<^verbatim>\<open>bootasm.S\<close>, \<^verbatim>\<open>bootmain.c\<close>, \<^verbatim>\<open>entry.S\<close>, \<^verbatim>\<open>main.c\<close>, \<^verbatim>\<open>swtch.S\<close>,
  \<^verbatim>\<open>trapasm.S\<close>), and the drivers of the interrupt controllers (\<^verbatim>\<open>lapic.c\<close>, \<^verbatim>\<open>ioapic.c\<close>, \<^verbatim>\<open>picirq.c\<close>, \<^verbatim>\<open>mp.c\<close>), which are
  port accesses with effects outside the program; \<^verbatim>\<open>mkfs.c\<close>, which builds the first disk image on the host; the small
  user programs (\<^verbatim>\<open>cat\<close>, \<^verbatim>\<open>echo\<close>, \<^verbatim>\<open>init\<close>, \<^verbatim>\<open>kill\<close>, \<^verbatim>\<open>ln\<close>, \<^verbatim>\<open>ls\<close>, \<^verbatim>\<open>mkdir\<close>, \<^verbatim>\<open>rm\<close>), which only pass their arguments to system calls; test
  programs; and the copies of the kernel in the project directories where they do not differ from \<^verbatim>\<open>p4\<close>.  Time, and the
  fairness of the scheduler of the host or of the hardware, are not part of the models.
\<close>

end
